(* ===== verification/Rust_Prelude.thy ===== *)
theory Rust_Prelude
  imports Main "HOL-Library.Monad_Syntax" "HOL-Library.Word" "HOL-Library.Multiset"
begin

text \<open>
  Shared vocabulary of the development: the Rust integer operations the sources use, the two
  ways a Rust computation can fail, and generic lemmas on lists, options and sums.

  \<^item> A machine integer is a natural number below \<open>2 ^ w\<close>; the width is an argument of the
    operation, so that overflow is an explicit case. The release profile of the workspace sets
    \<open>overflow-checks = true\<close>, so a plain \<open>+\<close>, \<open>-\<close> or \<open>*\<close> of the sources panics on overflow
    exactly where the checked operation returns \<open>None\<close>.
  \<^item> A panic (assertion, \<open>unwrap\<close> of nothing, overflow, index out of range) is \<open>None\<close> of an
    option type; a Rust \<open>Result\<close> is a sum with the error on the left. A function that can do
    both has the type \<open>('e + 'a) option\<close>.
\<close>

named_theorems rust_arith \<open>unfolding of the checked and saturating integer operations\<close>

section \<open>Integers\<close>

abbreviation (input) u8_w :: nat where "u8_w \<equiv> 8"
abbreviation (input) u16_w :: nat where "u16_w \<equiv> 16"
abbreviation (input) u32_w :: nat where "u32_w \<equiv> 32"
abbreviation (input) u64_w :: nat where "u64_w \<equiv> 64"
abbreviation (input) u128_w :: nat where "u128_w \<equiv> 128"

definition int_max :: "nat \<Rightarrow> nat" where
  "int_max w = 2 ^ w - 1"

definition fits :: "nat \<Rightarrow> nat \<Rightarrow> bool" where
  "fits w n \<longleftrightarrow> n < 2 ^ w"

definition checked_add :: "nat \<Rightarrow> nat \<Rightarrow> nat \<Rightarrow> nat option" where
  "checked_add w a b = (if a + b < 2 ^ w then Some (a + b) else None)"

definition checked_sub :: "nat \<Rightarrow> nat \<Rightarrow> nat option" where
  "checked_sub a b = (if b \<le> a then Some (a - b) else None)"

definition checked_mul :: "nat \<Rightarrow> nat \<Rightarrow> nat \<Rightarrow> nat option" where
  "checked_mul w a b = (if a * b < 2 ^ w then Some (a * b) else None)"

definition checked_div :: "nat \<Rightarrow> nat \<Rightarrow> nat option" where
  "checked_div a b = (if b = 0 then None else Some (a div b))"

definition saturating_add :: "nat \<Rightarrow> nat \<Rightarrow> nat \<Rightarrow> nat" where
  "saturating_add w a b = min (a + b) (int_max w)"

definition saturating_sub :: "nat \<Rightarrow> nat \<Rightarrow> nat" where
  "saturating_sub a b = a - b"

definition saturating_mul :: "nat \<Rightarrow> nat \<Rightarrow> nat \<Rightarrow> nat" where
  "saturating_mul w a b = min (a * b) (int_max w)"

text \<open>The \<open>as\<close> cast to a narrower unsigned type truncates.\<close>

definition cast :: "nat \<Rightarrow> nat \<Rightarrow> nat" where
  "cast w n = n mod 2 ^ w"

lemmas [rust_arith] =
  checked_add_def checked_sub_def checked_mul_def checked_div_def
  saturating_add_def saturating_sub_def saturating_mul_def int_max_def

lemma checked_add_Some: "checked_add w a b = Some c \<longleftrightarrow> c = a + b \<and> a + b < 2 ^ w"
  by (auto simp: checked_add_def)

lemma checked_add_None: "checked_add w a b = None \<longleftrightarrow> 2 ^ w \<le> a + b"
  by (auto simp: checked_add_def)

lemma checked_sub_Some: "checked_sub a b = Some c \<longleftrightarrow> c = a - b \<and> b \<le> a"
  by (auto simp: checked_sub_def)

lemma checked_sub_None: "checked_sub a b = None \<longleftrightarrow> a < b"
  by (auto simp: checked_sub_def)

lemma checked_mul_Some: "checked_mul w a b = Some c \<longleftrightarrow> c = a * b \<and> a * b < 2 ^ w"
  by (auto simp: checked_mul_def)

lemma checked_mul_None: "checked_mul w a b = None \<longleftrightarrow> 2 ^ w \<le> a * b"
  by (auto simp: checked_mul_def)

lemma checked_div_Some: "checked_div a b = Some c \<longleftrightarrow> c = a div b \<and> b \<noteq> 0"
  by (auto simp: checked_div_def)

lemmas checked_Some = checked_add_Some checked_sub_Some checked_mul_Some checked_div_Some

lemma saturating_add_le: "saturating_add w a b \<le> a + b"
  by (simp add: saturating_add_def)

lemma saturating_add_fits: "fits w (saturating_add w a b)"
proof -
  have "(2::nat) ^ w - 1 < 2 ^ w" by simp
  then show ?thesis
    unfolding fits_def saturating_add_def int_max_def by (rule le_less_trans [OF min.cobounded2])
qed

lemma saturating_add_eq: "fits w (a + b) \<Longrightarrow> saturating_add w a b = a + b"
  by (auto simp: saturating_add_def fits_def int_max_def)

lemma fits_mono: "fits w n \<Longrightarrow> m \<le> n \<Longrightarrow> fits w m"
  by (simp add: fits_def)

lemma cast_fits: "fits w n \<Longrightarrow> cast w n = n"
  by (simp add: cast_def fits_def)

section \<open>Panics and results\<close>

definition assert :: "bool \<Rightarrow> unit option" where
  "assert b = (if b then Some () else None)"

lemma assert_Some [simp]: "assert b = Some u \<longleftrightarrow> b"
  by (simp add: assert_def)

lemma assert_True [simp]: "assert True = Some ()"
  by (simp add: assert_def)

lemma assert_False [simp]: "assert False = None"
  by (simp add: assert_def)

text \<open>The \<open>?\<close> operator on a \<open>Result\<close>, without and with a possible panic.\<close>

definition rbind :: "'e + 'a \<Rightarrow> ('a \<Rightarrow> 'e + 'b) \<Rightarrow> 'e + 'b" where
  "rbind r f = (case r of Inl e \<Rightarrow> Inl e | Inr x \<Rightarrow> f x)"

definition ok_or :: "'e \<Rightarrow> 'a option \<Rightarrow> 'e + 'a" where
  "ok_or e v = (case v of None \<Rightarrow> Inl e | Some x \<Rightarrow> Inr x)"

lemma rbind_simps [simp]: "rbind (Inl e) f = Inl e" "rbind (Inr x) f = f x"
  by (simp_all add: rbind_def)

lemma rbind_Inr: "rbind r f = Inr y \<longleftrightarrow> (\<exists>x. r = Inr x \<and> f x = Inr y)"
  by (cases r) auto

lemma rbind_Inl: "rbind r f = Inl e \<longleftrightarrow> r = Inl e \<or> (\<exists>x. r = Inr x \<and> f x = Inl e)"
  by (cases r) auto

lemma ok_or_simps [simp]: "ok_or e None = Inl e" "ok_or e (Some x) = Inr x"
  by (simp_all add: ok_or_def)

lemma ok_or_Inr: "ok_or e v = Inr x \<longleftrightarrow> v = Some x"
  by (cases v) auto

lemma ok_or_Inl: "ok_or e v = Inl e' \<longleftrightarrow> v = None \<and> e' = e"
  by (cases v) auto

lemmas result_simps = rbind_Inr rbind_Inl ok_or_Inr ok_or_Inl

definition unwrap_or :: "'a \<Rightarrow> 'a option \<Rightarrow> 'a" where
  "unwrap_or d v = (case v of None \<Rightarrow> d | Some x \<Rightarrow> x)"

lemma unwrap_or_simps [simp]: "unwrap_or d None = d" "unwrap_or d (Some x) = x"
  by (simp_all add: unwrap_or_def)

text \<open>Indexing a slice panics out of range; \<open>get\<close> returns nothing.\<close>

definition vec_get :: "'a list \<Rightarrow> nat \<Rightarrow> 'a option" where
  "vec_get xs i = (if i < length xs then Some (xs ! i) else None)"

lemma vec_get_Some: "vec_get xs i = Some x \<longleftrightarrow> i < length xs \<and> xs ! i = x"
  by (simp add: vec_get_def)

lemma vec_get_lt [simp]: "i < length xs \<Longrightarrow> vec_get xs i = Some (xs ! i)"
  by (simp add: vec_get_def)

definition vec_set :: "'a list \<Rightarrow> nat \<Rightarrow> 'a \<Rightarrow> 'a list option" where
  "vec_set xs i x = (if i < length xs then Some (xs[i := x]) else None)"

lemma vec_set_Some: "vec_set xs i x = Some ys \<longleftrightarrow> i < length xs \<and> ys = xs[i := x]"
  by (auto simp: vec_set_def)

lemma vec_set_lt [simp]: "i < length xs \<Longrightarrow> vec_set xs i x = Some (xs[i := x])"
  by (simp add: vec_set_def)

lemma those_map_Some: "(\<And>x. x \<in> set xs \<Longrightarrow> f x = Some (g x)) \<Longrightarrow> those (map f xs) = Some (map g xs)"
  by (induction xs) auto

text \<open>A loop whose body may panic: fold in the option monad.\<close>

fun fold_opt :: "('a \<Rightarrow> 's \<Rightarrow> 's option) \<Rightarrow> 'a list \<Rightarrow> 's \<Rightarrow> 's option" where
  "fold_opt f [] s = Some s"
| "fold_opt f (x # xs) s = Option.bind (f x s) (fold_opt f xs)"

lemma fold_opt_append: "fold_opt f (xs @ ys) s = Option.bind (fold_opt f xs s) (fold_opt f ys)"
  by (induction xs arbitrary: s) (simp_all split: bind_splits)

text \<open>
  The loop rule: an invariant that every step keeps, and under which no step panics, holds at
  the end of a loop that does not panic.
\<close>

lemma fold_opt_inv:
  assumes "P s" and "\<And>x s. x \<in> set xs \<Longrightarrow> P s \<Longrightarrow> \<exists>s'. f x s = Some s' \<and> P s'"
  shows "\<exists>s'. fold_opt f xs s = Some s' \<and> P s'"
  using assms
proof (induction xs arbitrary: s)
  case Nil
  then show ?case by simp
next
  case (Cons x xs)
  obtain s' where s': "f x s = Some s'" "P s'"
    using Cons.prems(1) Cons.prems(2) [of x s] by auto
  have "\<exists>s''. fold_opt f xs s' = Some s'' \<and> P s''"
    by (rule Cons.IH [OF s'(2)]) (use Cons.prems(2) in auto)
  with s' show ?case by simp
qed

text \<open>The same rule with an invariant that follows the list still to be processed.\<close>

lemma fold_opt_inv_list:
  assumes "P xs s" and "\<And>x ys s. P (x # ys) s \<Longrightarrow> \<exists>s'. f x s = Some s' \<and> P ys s'"
  shows "\<exists>s'. fold_opt f xs s = Some s' \<and> P [] s'"
  using assms(1)
proof (induction xs arbitrary: s)
  case Nil
  then show ?case by simp
next
  case (Cons x xs)
  obtain s' where "f x s = Some s'" "P xs s'"
    using assms(2) [OF Cons.prems] by auto
  with Cons.IH show ?case by simp
qed

text \<open>A loop over an index range.\<close>

lemma fold_opt_upt:
  assumes "P 0 s" and "\<And>i s. i < n \<Longrightarrow> P i s \<Longrightarrow> \<exists>s'. f i s = Some s' \<and> P (Suc i) s'"
  shows "\<exists>s'. fold_opt f [0..<n] s = Some s' \<and> P n s'"
  using assms(2)
proof (induction n)
  case 0
  then show ?case using assms(1) by simp
next
  case (Suc n)
  obtain s' where s': "fold_opt f [0..<n] s = Some s'" "P n s'" using Suc.IH [OF Suc.prems] by auto
  obtain t where "f n s' = Some t" "P (Suc n) t" using Suc.prems [OF lessI s'(2)] by auto
  with s' show ?case by (simp add: fold_opt_append)
qed

lemma fold_opt_partial:
  assumes "fold_opt f xs s = Some t" and "P s"
    and "\<And>x s s'. x \<in> set xs \<Longrightarrow> P s \<Longrightarrow> f x s = Some s' \<Longrightarrow> P s'"
  shows "P t"
  using assms
proof (induction xs arbitrary: s)
  case Nil
  then show ?case by simp
next
  case (Cons x xs)
  from Cons.prems(1) obtain s' where s': "f x s = Some s'" "fold_opt f xs s' = Some t"
    by (auto simp: bind_eq_Some_conv)
  have "P s'" by (rule Cons.prems(3) [OF _ Cons.prems(2) s'(1)]) simp
  then show ?case by (rule Cons.IH [OF s'(2)]) (rule Cons.prems(3), auto)
qed

lemma fold_opt_partial_list:
  assumes "fold_opt f xs s = Some t" and "P xs s"
    and "\<And>x ys s s'. P (x # ys) s \<Longrightarrow> f x s = Some s' \<Longrightarrow> P ys s'"
  shows "P [] t"
  using assms(1,2)
proof (induction xs arbitrary: s)
  case Nil
  then show ?case by simp
next
  case (Cons x xs)
  from Cons.prems(1) obtain s' where s': "f x s = Some s'" "fold_opt f xs s' = Some t"
    by (auto simp: bind_eq_Some_conv)
  show ?case by (rule Cons.IH [OF s'(2) assms(3) [OF Cons.prems(2) s'(1)]])
qed

text \<open>The \<open>?\<close> operator on a computation that may also panic, and a loop whose body may do both.\<close>

definition rtry :: "('e + 'a) option \<Rightarrow> ('a \<Rightarrow> ('e + 'b) option) \<Rightarrow> ('e + 'b) option" where
  "rtry m f = Option.bind m (case_sum (\<lambda>e. Some (Inl e)) f)"

lemma rtry_simps [simp]: "rtry None f = None" "rtry (Some (Inl e)) f = Some (Inl e)" "rtry (Some (Inr x)) f = f x"
  by (simp_all add: rtry_def)

lemma rtry_cong [fundef_cong]: "m = m' \<Longrightarrow> (\<And>x. m' = Some (Inr x) \<Longrightarrow> f x = f' x) \<Longrightarrow> rtry m f = rtry m' f'"
  by (cases m' rule: option.exhaust) (auto simp: rtry_def split: sum.splits)

lemma rtry_mono [partial_function_mono]:
  assumes "mono_option m" and "\<And>x. mono_option (\<lambda>f. g f x)"
  shows "mono_option (\<lambda>f. rtry (m f) (g f))"
proof -
  have "mono_option (\<lambda>f. case_sum (\<lambda>e. Some (Inl e)) (g f) y)" for y
    using assms(2) by (cases y) (simp_all add: option.const_mono)
  then show ?thesis unfolding rtry_def by (rule bind_mono [OF assms(1)])
qed

fun fold_try :: "('a \<Rightarrow> 's \<Rightarrow> ('e + 's) option) \<Rightarrow> 'a list \<Rightarrow> 's \<Rightarrow> ('e + 's) option" where
  "fold_try f [] s = Some (Inr s)"
| "fold_try f (x # xs) s = rtry (f x s) (fold_try f xs)"

lemma fold_try_append: "fold_try f (xs @ ys) s = rtry (fold_try f xs s) (fold_try f ys)"
proof (induction xs arbitrary: s)
  case (Cons x xs)
  then show ?case by (cases "f x s") (auto simp: rtry_def split: sum.splits)
qed simp

section \<open>Sums over index ranges\<close>

lemma sum_fun_upd:
  fixes f :: "'a \<Rightarrow> nat"
  assumes "finite A" and "a \<in> A"
  shows "(\<Sum>x\<in>A. (f(a := v)) x) + f a = (\<Sum>x\<in>A. f x) + v"
proof -
  have "(\<Sum>x\<in>A. (f(a := v)) x) = v + (\<Sum>x\<in>A - {a}. (f(a := v)) x)"
    using assms by (simp add: sum.remove)
  moreover have "(\<Sum>x\<in>A - {a}. (f(a := v)) x) = (\<Sum>x\<in>A - {a}. f x)"
    by (rule sum.cong) auto
  moreover have "(\<Sum>x\<in>A. f x) = f a + (\<Sum>x\<in>A - {a}. f x)"
    using assms by (simp add: sum.remove)
  ultimately show ?thesis by simp
qed

lemma sum_fun_upd_notin:
  fixes f :: "'a \<Rightarrow> nat"
  assumes "a \<notin> A"
  shows "(\<Sum>x\<in>A. (f(a := v)) x) = (\<Sum>x\<in>A. f x)"
  by (rule sum.cong) (use assms in auto)

end
