(* ===== verification/Rust_BTreeMap.thy ===== *)
theory Rust_BTreeMap
  imports Rust_Prelude
begin

text \<open>
  The standard library's \<open>BTreeMap\<close>, which many of the sources use both as a finite map and for
  its ordered iteration: an association list with strictly increasing keys. The interface the
  components rely on is the locale \<open>finite_map_ops\<close>; its interpretation on the sorted
  association list is at the end of the theory.
\<close>

section \<open>The interface\<close>

locale finite_map_ops =
  fixes empty :: "'m"
    and get :: "'m \<Rightarrow> 'k \<Rightarrow> 'v option"
    and ins :: "'k \<Rightarrow> 'v \<Rightarrow> 'm \<Rightarrow> 'm"
    and del :: "'k \<Rightarrow> 'm \<Rightarrow> 'm"
    and invar :: "'m \<Rightarrow> bool"
  assumes get_empty: "get empty k = None"
    and get_ins: "invar m \<Longrightarrow> get (ins k v m) k' = (if k' = k then Some v else get m k')"
    and get_del: "invar m \<Longrightarrow> get (del k m) k' = (if k' = k then None else get m k')"
    and invar_empty: "invar empty"
    and invar_ins: "invar m \<Longrightarrow> invar (ins k v m)"
    and invar_del: "invar m \<Longrightarrow> invar (del k m)"
begin

text \<open>Filling a map from a list of pairs: a later pair wins.\<close>

lemma invar_fill: "invar m \<Longrightarrow> invar (fold (\<lambda>(k, v). ins k v) kvs m)"
  by (induction kvs arbitrary: m) (auto simp: invar_ins)

lemma get_fill:
  "invar m \<Longrightarrow>
   get (fold (\<lambda>(k, v). ins k v) kvs m) k =
     (case map_of (rev kvs) k of None \<Rightarrow> get m k | Some v \<Rightarrow> Some v)"
proof (induction kvs arbitrary: m)
  case Nil
  then show ?case by simp
next
  case (Cons kv kvs)
  then show ?case
    by (cases kv) (auto simp: invar_ins get_ins map_add_def split: option.splits)
qed

lemma get_fill_distinct:
  assumes "invar m" and "distinct (map fst kvs)" and "(k, v) \<in> set kvs"
  shows "get (fold (\<lambda>(k, v). ins k v) kvs m) k = Some v"
proof -
  have "map_of (rev kvs) k = Some v"
    using assms(2,3) by (auto intro!: map_of_is_SomeI simp: rev_map [symmetric])
  then show ?thesis using assms(1) by (simp add: get_fill)
qed

lemma get_fill_notin:
  assumes "invar m" and "k \<notin> fst ` set kvs"
  shows "get (fold (\<lambda>(k, v). ins k v) kvs m) k = get m k"
proof -
  have "map_of (rev kvs) k = None" using assms(2) by (simp add: map_of_eq_None_iff)
  then show ?thesis using assms(1) by (simp add: get_fill)
qed

end

section \<open>Sorted association lists\<close>

type_synonym ('k, 'v) btree = "('k \<times> 'v) list"

definition bt_empty :: "('k, 'v) btree" where
  "bt_empty = []"

definition bt_get :: "('k, 'v) btree \<Rightarrow> 'k \<Rightarrow> 'v option" where
  "bt_get m k = map_of m k"

fun bt_insert :: "'k::linorder \<Rightarrow> 'v \<Rightarrow> ('k, 'v) btree \<Rightarrow> ('k, 'v) btree" where
  "bt_insert k v [] = [(k, v)]"
| "bt_insert k v ((k', v') # m) =
     (if k < k' then (k, v) # (k', v') # m
      else if k = k' then (k, v) # m
      else (k', v') # bt_insert k v m)"

definition bt_remove :: "'k \<Rightarrow> ('k, 'v) btree \<Rightarrow> ('k, 'v) btree" where
  "bt_remove k m = filter (\<lambda>kv. fst kv \<noteq> k) m"

definition bt_contains :: "('k, 'v) btree \<Rightarrow> 'k \<Rightarrow> bool" where
  "bt_contains m k \<longleftrightarrow> bt_get m k \<noteq> None"

definition bt_keys :: "('k, 'v) btree \<Rightarrow> 'k list" where
  "bt_keys m = map fst m"

text \<open>\<open>pop_last\<close> takes out the entry with the greatest key.\<close>

definition bt_pop_last :: "('k, 'v) btree \<Rightarrow> (('k \<times> 'v) \<times> ('k, 'v) btree) option" where
  "bt_pop_last m = (if m = [] then None else Some (last m, butlast m))"

definition bt_pop_first :: "('k, 'v) btree \<Rightarrow> (('k \<times> 'v) \<times> ('k, 'v) btree) option" where
  "bt_pop_first m = (case m of [] \<Rightarrow> None | kv # m' \<Rightarrow> Some (kv, m'))"

definition bt_inv :: "('k::linorder, 'v) btree \<Rightarrow> bool" where
  "bt_inv m \<longleftrightarrow> sorted_wrt (<) (map fst m)"

lemma bt_inv_Nil [simp]: "bt_inv []"
  by (simp add: bt_inv_def)

lemma bt_inv_Cons: "bt_inv ((k, v) # m) \<longleftrightarrow> bt_inv m \<and> (\<forall>k'\<in>fst ` set m. k < k')"
  by (auto simp: bt_inv_def)

lemma bt_inv_distinct: "bt_inv m \<Longrightarrow> distinct (bt_keys m)"
  by (simp add: bt_inv_def bt_keys_def strict_sorted_iff)

lemma bt_inv_sorted_keys: "bt_inv m \<Longrightarrow> sorted_wrt (<) (bt_keys m)"
  by (simp add: bt_inv_def bt_keys_def)

lemma bt_insert_keys: "fst ` set (bt_insert k v m) = insert k (fst ` set m)"
  by (induction k v m rule: bt_insert.induct) (simp_all add: insert_commute)

lemma bt_insert_inv: "bt_inv m \<Longrightarrow> bt_inv (bt_insert k v m)"
proof (induction m)
  case Nil
  then show ?case by (simp add: bt_inv_def)
next
  case (Cons kv m)
  obtain k' v' where [simp]: "kv = (k', v')" by (cases kv)
  from Cons.prems have m: "bt_inv m" "\<forall>x\<in>fst ` set m. k' < x" by (simp_all add: bt_inv_Cons)
  consider "k < k'" | "k = k'" | "k' < k" by fastforce
  then show ?case
  proof cases
    case 1
    with m show ?thesis by (auto simp: bt_inv_Cons intro: less_trans)
  next
    case 2
    with m show ?thesis by (simp add: bt_inv_Cons)
  next
    case 3
    with m Cons.IH show ?thesis by (auto simp: bt_inv_Cons bt_insert_keys)
  qed
qed

lemma bt_insert_get: "bt_get (bt_insert k v m) k' = (if k' = k then Some v else bt_get m k')"
  by (induction m) (auto simp: bt_get_def)

lemma bt_keys_set: "set (bt_keys m) = fst ` set m"
  by (simp add: bt_keys_def)

lemma bt_remove_get: "bt_get (bt_remove k m) k' = (if k' = k then None else bt_get m k')"
  by (induction m) (auto simp: bt_get_def bt_remove_def)

lemma bt_remove_inv: "bt_inv m \<Longrightarrow> bt_inv (bt_remove k m)"
  by (induction m) (auto simp: bt_inv_Cons bt_remove_def)

lemma bt_get_keys: "bt_get m k \<noteq> None \<longleftrightarrow> k \<in> set (bt_keys m)"
  by (simp add: bt_get_def bt_keys_def map_of_eq_None_iff)

lemma bt_get_None: "bt_get m k = None \<longleftrightarrow> k \<notin> set (bt_keys m)"
  using bt_get_keys [of m k] by blast

lemma bt_get_mem: "bt_inv m \<Longrightarrow> (k, v) \<in> set m \<longleftrightarrow> bt_get m k = Some v"
  by (metis bt_get_def bt_inv_distinct bt_keys_def map_of_SomeD map_of_is_SomeI)

lemma bt_rebuild: "bt_inv m \<Longrightarrow> m = map (\<lambda>k. (k, the (bt_get m k))) (bt_keys m)"
proof (rule nth_equalityI)
  fix i assume m: "bt_inv m" and i: "i < length m"
  obtain k v where kv: "m ! i = (k, v)" by fastforce
  then have "(k, v) \<in> set m" using i nth_mem by metis
  then have "bt_get m k = Some v" using m by (simp add: bt_get_mem)
  with kv i show "m ! i = map (\<lambda>k. (k, the (bt_get m k))) (bt_keys m) ! i" by (simp add: bt_keys_def)
qed (simp add: bt_keys_def)

text \<open>Two maps with increasing keys and the same lookups are the same list.\<close>

lemma bt_ext:
  assumes "bt_inv m" and "bt_inv m'" and "\<And>k. bt_get m k = bt_get m' k"
  shows "m = m'"
proof -
  have "set (bt_keys m) = set (bt_keys m')"
    using assms(3) bt_get_keys by (metis subsetI subset_antisym)
  then have keys: "bt_keys m = bt_keys m'"
    using assms(1,2) by (metis bt_inv_sorted_keys strict_sorted_equal)
  have "m = map (\<lambda>k. (k, the (bt_get m k))) (bt_keys m)" by (rule bt_rebuild [OF assms(1)])
  also have "\<dots> = map (\<lambda>k. (k, the (bt_get m' k))) (bt_keys m')" by (simp add: keys assms(3))
  also have "\<dots> = m'" by (rule bt_rebuild [OF assms(2), symmetric])
  finally show ?thesis .
qed

interpretation bt: finite_map_ops bt_empty bt_get bt_insert bt_remove bt_inv
  by unfold_locales
    (auto simp: bt_insert_get bt_remove_get bt_insert_inv bt_remove_inv bt_empty_def bt_get_None
      bt_keys_def)

end
