(* ===== verification/Shard_Layout.thy ===== *)
theory Shard_Layout
  imports Rust_BTreeMap "HOL-Library.List_Lexorder" "HOL-Library.Char_ord"
begin

text \<open>
  The shard layout (\<open>core/primitives/src/shard_layout.rs\<close>): which shard an account belongs to,
  shard ids and shard indexes, the parent and children relation of a resharding, and the
  derivation of a new layout by splitting one shard. Account ids are ASCII strings compared
  byte by byte, which is the lexicographic order of \<open>string\<close>. The hash that the V0 layout uses
  is not part of the repository and is a parameter.
\<close>

section \<open>Types\<close>

type_synonym account_id = string
type_synonym shard_id = nat
type_synonym shard_index = nat
type_synonym shard_version = nat
type_synonym byte = "8 word"

record shard_layout_v0 =
  v0_num_shards :: nat
  v0_version :: shard_version

record shard_layout_v1 =
  v1_boundary_accounts :: "account_id list"
  v1_shards_split_map :: "shard_id list list option"
  v1_to_parent_shard_map :: "shard_id list option"
  v1_version :: shard_version

record shard_layout_v2 =
  v2_boundary_accounts :: "account_id list"
  v2_shard_ids :: "shard_id list"
  v2_id_to_index_map :: "(shard_id, shard_index) btree"
  v2_index_to_id_map :: "(shard_index, shard_id) btree"
  v2_shards_split_map :: "(shard_id, shard_id list) btree option"
  v2_shards_parent_map :: "(shard_id, shard_id) btree option"
  v2_version :: shard_version

datatype shard_layout =
    V0 shard_layout_v0
  | V1 shard_layout_v1
  | V2 shard_layout_v2

datatype shard_layout_error =
    InvalidShardIdError shard_id
  | InvalidShardIndexError shard_index
  | NoParentError shard_id

record shard_uid =
  uid_version :: shard_version
  uid_shard_id :: nat

record shard_info =
  info_shard_index :: shard_index
  info_shard_uid :: shard_uid

section \<open>Accounts to shards\<close>

text \<open>The loop over the boundary accounts, shared by the V1 and the V2 layout.\<close>

fun boundary_index :: "account_id list \<Rightarrow> account_id \<Rightarrow> nat" where
  "boundary_index [] account = 0"
| "boundary_index (b # bs) account =
     (if account < b then 0 else Suc (boundary_index bs account))"

definition v1_account_id_to_shard_id :: "shard_layout_v1 \<Rightarrow> account_id \<Rightarrow> shard_id" where
  "v1_account_id_to_shard_id l account = boundary_index (v1_boundary_accounts l) account"

definition v2_account_id_to_shard_id :: "shard_layout_v2 \<Rightarrow> account_id \<Rightarrow> shard_id option" where
  "v2_account_id_to_shard_id l account =
     vec_get (v2_shard_ids l) (boundary_index (v2_boundary_accounts l) account)"

text \<open>Little-endian byte strings: \<open>from_le_bytes\<close> and \<open>to_le_bytes\<close>.\<close>

fun from_le_bytes :: "byte list \<Rightarrow> nat" where
  "from_le_bytes [] = 0"
| "from_le_bytes (b # bs) = unat b + 256 * from_le_bytes bs"

fun to_le_bytes :: "nat \<Rightarrow> nat \<Rightarrow> byte list" where
  "to_le_bytes 0 n = []"
| "to_le_bytes (Suc k) n = of_nat (n mod 256) # to_le_bytes k (n div 256)"

definition as_bytes :: "string \<Rightarrow> byte list" where
  "as_bytes s = map of_char s"

definition account_id_to_shard_id ::
    "(byte list \<Rightarrow> byte list) \<Rightarrow> shard_layout \<Rightarrow> account_id \<Rightarrow> shard_id option" where
  "account_id_to_shard_id hash_bytes l account =
     (case l of
        V0 v0 \<Rightarrow>
          if v0_num_shards v0 = 0 then None
          else Some (from_le_bytes (take 8 (hash_bytes (as_bytes account))) mod v0_num_shards v0)
      | V1 v1 \<Rightarrow> Some (v1_account_id_to_shard_id v1 account)
      | V2 v2 \<Rightarrow> v2_account_id_to_shard_id v2 account)"

section \<open>Ids, indexes and unique ids\<close>

definition layout_version :: "shard_layout \<Rightarrow> shard_version" where
  "layout_version l = (case l of V0 v0 \<Rightarrow> v0_version v0 | V1 v1 \<Rightarrow> v1_version v1 | V2 v2 \<Rightarrow> v2_version v2)"

definition boundary_accounts :: "shard_layout \<Rightarrow> account_id list option" where
  "boundary_accounts l =
     (case l of
        V1 v1 \<Rightarrow> Some (v1_boundary_accounts v1)
      | V2 v2 \<Rightarrow> Some (v2_boundary_accounts v2)
      | _ \<Rightarrow> None)"

definition num_shards :: "shard_layout \<Rightarrow> nat" where
  "num_shards l =
     (case l of
        V0 v0 \<Rightarrow> v0_num_shards v0
      | V1 v1 \<Rightarrow> length (v1_boundary_accounts v1) + 1
      | V2 v2 \<Rightarrow> length (v2_shard_ids v2))"

definition shard_ids :: "shard_layout \<Rightarrow> shard_id list" where
  "shard_ids l =
     (case l of
        V0 _ \<Rightarrow> [0..<num_shards l]
      | V1 _ \<Rightarrow> [0..<num_shards l]
      | V2 v2 \<Rightarrow> v2_shard_ids v2)"

definition shard_indexes :: "shard_layout \<Rightarrow> shard_index list" where
  "shard_indexes l = [0..<num_shards l]"

definition get_shard_index :: "shard_layout \<Rightarrow> shard_id \<Rightarrow> shard_layout_error + shard_index" where
  "get_shard_index l sid =
     (case l of
        V0 _ \<Rightarrow> Inr sid
      | V1 _ \<Rightarrow> Inr sid
      | V2 v2 \<Rightarrow> ok_or (InvalidShardIdError sid) (bt_get (v2_id_to_index_map v2) sid))"

definition get_shard_id :: "shard_layout \<Rightarrow> shard_index \<Rightarrow> shard_layout_error + shard_id" where
  "get_shard_id l i =
     (case l of
        V2 v2 \<Rightarrow> ok_or (InvalidShardIndexError i) (vec_get (v2_shard_ids v2) i)
      | _ \<Rightarrow> if num_shards l \<le> i then Inl (InvalidShardIndexError i) else Inr i)"

definition shard_uid_new :: "shard_version \<Rightarrow> shard_id \<Rightarrow> shard_uid" where
  "shard_uid_new ver sid = \<lparr> uid_version = ver, uid_shard_id = cast u32_w sid \<rparr>"

definition from_shard_id_and_layout :: "shard_id \<Rightarrow> shard_layout \<Rightarrow> shard_uid option" where
  "from_shard_id_and_layout sid l =
     (if sid \<in> set (shard_ids l) then Some (shard_uid_new (layout_version l) sid) else None)"

definition shard_uids_to_ids :: "shard_uid list \<Rightarrow> shard_id list" where
  "shard_uids_to_ids us = map uid_shard_id us"

definition account_id_to_shard_uid ::
    "(byte list \<Rightarrow> byte list) \<Rightarrow> shard_layout \<Rightarrow> account_id \<Rightarrow> shard_uid option" where
  "account_id_to_shard_uid hash_bytes l account =
     do { sid \<leftarrow> account_id_to_shard_id hash_bytes l account; from_shard_id_and_layout sid l }"

definition shard_uids :: "shard_layout \<Rightarrow> shard_uid list option" where
  "shard_uids l = those (map (\<lambda>sid. from_shard_id_and_layout sid l) (shard_ids l))"

definition shard_infos :: "shard_layout \<Rightarrow> shard_info list option" where
  "shard_infos l =
     map_option
       (\<lambda>us. map (\<lambda>(i, u). \<lparr> info_shard_index = i, info_shard_uid = u \<rparr>) (enumerate 0 us))
       (shard_uids l)"

definition get_shard_uid ::
    "shard_layout \<Rightarrow> shard_index \<Rightarrow> (shard_layout_error + shard_uid) option" where
  "get_shard_uid l i =
     (case get_shard_id l i of
        Inl e \<Rightarrow> Some (Inl e)
      | Inr sid \<Rightarrow> map_option Inr (from_shard_id_and_layout sid l))"

section \<open>Parents and children\<close>

definition get_children_shards_ids :: "shard_layout \<Rightarrow> shard_id \<Rightarrow> shard_id list option" where
  "get_children_shards_ids l parent =
     (case l of
        V0 _ \<Rightarrow> None
      | V1 v1 \<Rightarrow>
          (case v1_shards_split_map v1 of
             Some split_map \<Rightarrow> vec_get split_map parent
           | None \<Rightarrow> None)
      | V2 v2 \<Rightarrow>
          (case v2_shards_split_map v2 of
             Some split_map \<Rightarrow> bt_get split_map parent
           | None \<Rightarrow> None))"

definition get_children_shards_uids ::
    "shard_layout \<Rightarrow> shard_id \<Rightarrow> shard_uid list option option" where
  "get_children_shards_uids l parent =
     (case get_children_shards_ids l parent of
        None \<Rightarrow> Some None
      | Some ids \<Rightarrow> map_option Some (those (map (\<lambda>sid. from_shard_id_and_layout sid l) ids)))"

definition try_get_parent_shard_id ::
    "shard_layout \<Rightarrow> shard_id \<Rightarrow> (shard_layout_error + shard_id option) option" where
  "try_get_parent_shard_id l sid =
     (if sid \<notin> set (shard_ids l) then Some (Inl (InvalidShardIdError sid))
      else case l of
        V0 _ \<Rightarrow> Some (Inr None)
      | V1 v1 \<Rightarrow>
          (case v1_to_parent_shard_map v1 of
             Some parent_map \<Rightarrow>
               (case get_shard_index l sid of
                  Inl _ \<Rightarrow> None
                | Inr i \<Rightarrow> map_option (\<lambda>p. Inr (Some p)) (vec_get parent_map i))
           | None \<Rightarrow> Some (Inr None))
      | V2 v2 \<Rightarrow>
          (case v2_shards_parent_map v2 of
             Some parent_map \<Rightarrow> map_option (\<lambda>p. Inr (Some p)) (bt_get parent_map sid)
           | None \<Rightarrow> Some (Inr None)))"

definition get_parent_shard_id ::
    "shard_layout \<Rightarrow> shard_id \<Rightarrow> (shard_layout_error + shard_id) option" where
  "get_parent_shard_id l sid =
     map_option (\<lambda>r. rbind r (\<lambda>p. ok_or (NoParentError sid) p)) (try_get_parent_shard_id l sid)"

text \<open>The loop of \<open>get_split_parent_shard_ids\<close> over the shard ids.\<close>

definition split_parent_step ::
    "shard_layout \<Rightarrow> shard_id \<Rightarrow> shard_id set \<Rightarrow> shard_id set option" where
  "split_parent_step l sid acc =
     (case try_get_parent_shard_id l sid of
        Some (Inr None) \<Rightarrow> Some acc
      | Some (Inr (Some p)) \<Rightarrow> Some (if p = sid then acc else insert p acc)
      | _ \<Rightarrow> None)"

definition get_split_parent_shard_ids :: "shard_layout \<Rightarrow> shard_id set option" where
  "get_split_parent_shard_ids l = fold_opt (split_parent_step l) (shard_ids l) {}"

definition get_split_parent_shard_uids :: "shard_layout \<Rightarrow> shard_uid set option" where
  "get_split_parent_shard_uids l =
     map_option (\<lambda>ids. (\<lambda>sid. shard_uid_new (layout_version l) sid) ` ids) (get_split_parent_shard_ids l)"

section \<open>Constructors\<close>

text \<open>The insertion of a child with the assertion that no shard appears twice.\<close>

definition insert_child ::
    "shard_id \<Rightarrow> shard_id \<Rightarrow> (shard_id, shard_id) btree \<Rightarrow> (shard_id, shard_id) btree option" where
  "insert_child parent child m =
     (if bt_contains m child then None else Some (bt_insert child parent m))"

definition single_shard :: shard_layout where
  "single_shard =
     V2 \<lparr> v2_boundary_accounts = [], v2_shard_ids = [0], v2_id_to_index_map = [(0, 0)],
          v2_index_to_id_map = [(0, 0)], v2_shards_split_map = None,
          v2_shards_parent_map = None, v2_version = 0 \<rparr>"

definition layout_v0 :: "nat \<Rightarrow> shard_version \<Rightarrow> shard_layout" where
  "layout_v0 n ver = V0 \<lparr> v0_num_shards = n, v0_version = ver \<rparr>"

definition v1_parent_step ::
    "nat \<Rightarrow> nat \<times> shard_id list \<Rightarrow> (shard_id, shard_id) btree \<Rightarrow> (shard_id, shard_id) btree option"
where
  "v1_parent_step n pc m =
     fold_opt
       (\<lambda>child m. do { m' \<leftarrow> insert_child (fst pc) child m; assert (child < n); Some m' })
       (snd pc) m"

definition layout_v1 ::
    "account_id list \<Rightarrow> shard_id list list option \<Rightarrow> shard_version \<Rightarrow> shard_layout option" where
  "layout_v1 accounts split_map ver =
     do {
       parent_map \<leftarrow>
         (case split_map of
            None \<Rightarrow> Some None
          | Some sm \<Rightarrow>
              (let n = length accounts + 1 in
               do {
                 m \<leftarrow> fold_opt (v1_parent_step n) (enumerate 0 sm) bt_empty;
                 map_option Some (those (map (bt_get m) [0..<n]))
               }));
       Some (V1 \<lparr> v1_boundary_accounts = accounts, v1_shards_split_map = split_map,
                  v1_to_parent_shard_map = parent_map, v1_version = ver \<rparr>)
     }"

definition derive_parent_step ::
    "shard_id list \<Rightarrow> shard_id \<times> shard_id list \<Rightarrow> (shard_id, shard_id) btree
      \<Rightarrow> (shard_id, shard_id) btree option" where
  "derive_parent_step ids pc m =
     do {
       m' \<leftarrow> fold_opt (insert_child (fst pc)) (snd pc) m;
       (case snd pc of
          [child] \<Rightarrow> assert (fst pc = child)
        | _ \<Rightarrow> assert (fst pc \<notin> set ids));
       Some m'
     }"

definition validate_and_derive_shard_parent_map_v2 ::
    "shard_id list \<Rightarrow> (shard_id, shard_id list) btree \<Rightarrow> (shard_id, shard_id) btree option" where
  "validate_and_derive_shard_parent_map_v2 ids split_map =
     do {
       m \<leftarrow> fold_opt (derive_parent_step ids) split_map bt_empty;
       assert (sort ids = bt_keys m);
       Some m
     }"

definition layout_v2 ::
    "account_id list \<Rightarrow> shard_id list \<Rightarrow> (shard_id, shard_id list) btree option
      \<Rightarrow> shard_layout option" where
  "layout_v2 accounts ids split_map =
     do {
       assert (length accounts + 1 = length ids);
       assert (accounts = sort accounts);
       let id_to_index = fold (\<lambda>(k, v). bt_insert k v) (map prod.swap (enumerate 0 ids)) bt_empty;
       let index_to_id = fold (\<lambda>(k, v). bt_insert k v) (enumerate 0 ids) bt_empty;
       parent_map \<leftarrow>
         (case split_map of
            None \<Rightarrow> Some None
          | Some sm \<Rightarrow> map_option Some (validate_and_derive_shard_parent_map_v2 ids sm));
       Some (V2 \<lparr> v2_boundary_accounts = accounts, v2_shard_ids = ids,
                  v2_id_to_index_map = id_to_index, v2_index_to_id_map = index_to_id,
                  v2_shards_split_map = split_map, v2_shards_parent_map = parent_map,
                  v2_version = 3 \<rparr>)
     }"

text \<open>\<open>position\<close> of an iterator, and \<open>splice\<close> of a one-element range.\<close>

fun position :: "'a \<Rightarrow> 'a list \<Rightarrow> nat option" where
  "position x [] = None"
| "position x (y # ys) = (if y = x then Some 0 else map_option Suc (position x ys))"

definition splice_one :: "nat \<Rightarrow> 'a list \<Rightarrow> 'a list \<Rightarrow> ('a \<times> 'a list) option" where
  "splice_one i new xs =
     (if i + 1 \<le> length xs then Some (xs ! i, take i xs @ new @ drop (i + 1) xs) else None)"

definition derive_shard_layout :: "shard_layout \<Rightarrow> account_id \<Rightarrow> shard_layout option" where
  "derive_shard_layout base new_boundary =
     do {
       accounts \<leftarrow> boundary_accounts base;
       let ids = shard_ids base;
       let split_map = fold (\<lambda>(k, v). bt_insert k v) (map (\<lambda>sid. (sid, [sid])) ids) bt_empty;
       assert (new_boundary \<notin> set accounts);
       let accounts' = sort (accounts @ [new_boundary]);
       i \<leftarrow> position new_boundary accounts';
       max_id \<leftarrow> (if ids = [] then None else Some (Max (set ids)));
       id1 \<leftarrow> checked_add u64_w max_id 1;
       id2 \<leftarrow> checked_add u64_w max_id 2;
       (parent, ids') \<leftarrow> splice_one i [id1, id2] ids;
       layout_v2 accounts' ids' (Some (bt_insert parent [id1, id2] split_map))
     }"

section \<open>Byte strings of shard ids\<close>

definition shard_uid_to_bytes :: "shard_uid \<Rightarrow> byte list" where
  "shard_uid_to_bytes u = to_le_bytes 4 (uid_version u) @ to_le_bytes 4 (uid_shard_id u)"

definition shard_uid_try_from :: "byte list \<Rightarrow> string + shard_uid" where
  "shard_uid_try_from bs =
     (if length bs \<noteq> 8 then Inl ''incorrect length for ShardUId''
      else Inr \<lparr> uid_version = from_le_bytes (take 4 bs), uid_shard_id = from_le_bytes (drop 4 bs) \<rparr>)"

text \<open>
  The loop of \<open>get_upper_bound_db_key\<close> goes from the last byte to the first; \<open>bump_rev\<close> is that
  loop over the reversed bytes, \<open>None\<close> when it runs out of bytes (the panic).
\<close>

fun bump_rev :: "byte list \<Rightarrow> byte list option" where
  "bump_rev [] = None"
| "bump_rev (b # bs) =
     (if b = 255 then map_option (\<lambda>r. 0 # r) (bump_rev bs) else Some ((b + 1) # bs))"

definition get_upper_bound_db_key :: "byte list \<Rightarrow> byte list option" where
  "get_upper_bound_db_key bs = map_option rev (bump_rev (rev bs))"

definition get_block_shard_uid :: "byte list \<Rightarrow> shard_uid \<Rightarrow> byte list" where
  "get_block_shard_uid block_hash u = block_hash @ shard_uid_to_bytes u"

definition get_block_shard_uid_rev :: "byte list \<Rightarrow> string + (byte list \<times> shard_uid)" where
  "get_block_shard_uid_rev key =
     (if length key \<noteq> 40 then Inl ''Invalid key length''
      else rbind (shard_uid_try_from (drop 32 key)) (\<lambda>u. Inr (take 32 key, u)))"

section \<open>Lemmas\<close>

definition layout_inv :: "shard_layout \<Rightarrow> bool" where
  "layout_inv l \<longleftrightarrow>
     (case l of
        V0 v0 \<Rightarrow> 0 < v0_num_shards v0
      | V1 v1 \<Rightarrow>
          sorted (v1_boundary_accounts v1) \<and>
          (\<forall>pm. v1_to_parent_shard_map v1 = Some pm \<longrightarrow>
             length pm = length (v1_boundary_accounts v1) + 1)
      | V2 v2 \<Rightarrow>
          sorted (v2_boundary_accounts v2) \<and>
          length (v2_shard_ids v2) = length (v2_boundary_accounts v2) + 1 \<and>
          distinct (v2_shard_ids v2) \<and>
          (\<forall>i sid. bt_get (v2_id_to_index_map v2) sid = Some i \<longleftrightarrow>
             i < length (v2_shard_ids v2) \<and> v2_shard_ids v2 ! i = sid) \<and>
          (\<forall>pm. v2_shards_parent_map v2 = Some pm \<longrightarrow>
             set (v2_shard_ids v2) \<subseteq> set (bt_keys pm)))"

lemma boundary_index_le: "boundary_index bs a \<le> length bs"
  by (induction bs a rule: boundary_index.induct) auto

lemma boundary_index_count:
  "sorted bs \<Longrightarrow> boundary_index bs a = length (filter (\<lambda>b. b \<le> a) bs)"
proof (induction bs)
  case Nil
  then show ?case by simp
next
  case (Cons b bs)
  show ?case
  proof (cases "a < b")
    case True
    then have "filter (\<lambda>b. b \<le> a) bs = []"
      using Cons.prems by (auto simp: filter_empty_conv)
    with True show ?thesis by simp
  next
    case False
    with Cons show ?thesis by simp
  qed
qed

text \<open>The shard of an account is the half-open interval of boundaries it lies in.\<close>

lemma boundary_index_interval:
  assumes "sorted bs"
  shows "boundary_index bs a = i \<longleftrightarrow>
    i \<le> length bs \<and> (0 < i \<longrightarrow> bs ! (i - 1) \<le> a) \<and> (i < length bs \<longrightarrow> a < bs ! i)"
  using assms
proof (induction bs arbitrary: i)
  case Nil
  then show ?case by auto
next
  case (Cons b bs)
  have IH: "boundary_index bs a = i \<longleftrightarrow>
      i \<le> length bs \<and> (0 < i \<longrightarrow> bs ! (i - 1) \<le> a) \<and> (i < length bs \<longrightarrow> a < bs ! i)" for i
    using Cons.IH Cons.prems by simp
  show ?case
  proof (cases i)
    case 0
    then show ?thesis by auto
  next
    case (Suc j)
    have "b \<le> a" if "j \<le> length bs" "0 < j" "bs ! (j - 1) \<le> a"
    proof -
      have "bs ! (j - 1) \<in> set bs" using that by simp
      with Cons.prems that(3) show ?thesis by auto
    qed
    then show ?thesis using Suc IH [of j]
      by (cases "0 < j") (auto simp: nth_Cons' not_less)
  qed
qed

lemma enumerate_swap_get:
  assumes "distinct ids"
  shows "bt_get (fold (\<lambda>(k, v). bt_insert k v) (map prod.swap (enumerate 0 ids)) bt_empty) sid = Some i
    \<longleftrightarrow> i < length ids \<and> ids ! i = sid"
proof -
  let ?kvs = "map prod.swap (enumerate 0 ids)"
  have keys: "map fst ?kvs = ids" by (simp add: comp_def)
  have mem: "(sid, i) \<in> set ?kvs \<longleftrightarrow> i < length ids \<and> ids ! i = sid"
    by (auto simp: in_set_enumerate_eq image_iff intro!: bexI [of _ "(i, sid)"])
  have dist: "distinct (map fst (rev ?kvs))"
    using assms keys by (simp add: rev_map [symmetric])
  have "map_of (rev ?kvs) sid = Some i \<longleftrightarrow> (sid, i) \<in> set ?kvs"
    using dist by (metis map_of_SomeD map_of_is_SomeI set_rev)
  then show ?thesis using mem
    by (auto simp: bt.get_fill bt.invar_empty bt.get_empty split: option.splits)
qed

lemma insert_child_fold:
  assumes "bt_inv m" and "distinct cs" and "set cs \<inter> set (bt_keys m) = {}"
  shows "\<exists>m'. fold_opt (insert_child p) cs m = Some m' \<and> bt_inv m' \<and>
    (\<forall>c. bt_get m' c = (if c \<in> set cs then Some p else bt_get m c))"
  using assms
proof (induction cs arbitrary: m)
  case Nil
  then show ?case by simp
next
  case (Cons c cs)
  let ?m = "bt_insert c p m"
  have step: "insert_child p c m = Some ?m"
    using Cons.prems(3) by (simp add: insert_child_def bt_contains_def bt_get_None)
  have "set cs \<inter> set (bt_keys ?m) = {}"
    using Cons.prems(2,3) by (auto simp: bt_keys_def bt_insert_keys)
  then obtain m' where m': "fold_opt (insert_child p) cs ?m = Some m'" "bt_inv m'"
      "\<forall>c'. bt_get m' c' = (if c' \<in> set cs then Some p else bt_get ?m c')"
    using Cons.IH [of ?m] Cons.prems(1,2) by (auto simp: bt_insert_inv)
  then show ?case by (auto simp: step bt_insert_get)
qed

definition children_of :: "(shard_id, shard_id list) btree \<Rightarrow> shard_id list" where
  "children_of sm = concat (map snd sm)"

lemma children_of_iff: "c \<in> set (children_of sm) \<longleftrightarrow> (\<exists>p cs. (p, cs) \<in> set sm \<and> c \<in> set cs)"
  by (force simp: children_of_def)

lemma bt_keys_get: "c \<in> set (bt_keys m) \<longleftrightarrow> (\<exists>p. bt_get m c = Some p)"
  using bt_get_keys [of m c] by auto

definition split_entry_ok :: "shard_id list \<Rightarrow> shard_id \<times> shard_id list \<Rightarrow> bool" where
  "split_entry_ok ids pc \<longleftrightarrow>
     (if length (snd pc) = 1 then snd pc = [fst pc] else fst pc \<notin> set ids)"

lemma derive_parent_step_ok:
  assumes "bt_inv m" and "distinct cs" and "set cs \<inter> set (bt_keys m) = {}"
    and "split_entry_ok ids (p, cs)"
  shows "\<exists>m'. derive_parent_step ids (p, cs) m = Some m' \<and> bt_inv m' \<and>
    (\<forall>c. bt_get m' c = (if c \<in> set cs then Some p else bt_get m c))"
proof -
  obtain m' where m': "fold_opt (insert_child p) cs m = Some m'" "bt_inv m'"
      "\<forall>c. bt_get m' c = (if c \<in> set cs then Some p else bt_get m c)"
    using insert_child_fold [OF assms(1-3)] by blast
  have "derive_parent_step ids (p, cs) m = Some m'"
    using assms(4) m'(1)
    by (auto simp: derive_parent_step_def split_entry_ok_def split: list.splits)
  with m' show ?thesis by blast
qed

lemma validate_parent_map_ok:
  assumes "distinct (children_of sm)" and "\<forall>pc\<in>set sm. split_entry_ok ids pc"
    and "distinct ids" and "set ids = set (children_of sm)"
  shows "\<exists>m. validate_and_derive_shard_parent_map_v2 ids sm = Some m \<and> bt_inv m \<and>
    bt_keys m = sort ids \<and>
    (\<forall>c p. bt_get m c = Some p \<longleftrightarrow> (\<exists>cs. (p, cs) \<in> set sm \<and> c \<in> set cs))"
proof -
  define P where "P = (\<lambda>rest m. bt_inv m \<and> (\<exists>pre. pre @ rest = sm \<and>
    (\<forall>c p. bt_get m c = Some p \<longleftrightarrow> (\<exists>cs. (p, cs) \<in> set pre \<and> c \<in> set cs))))"
  have step: "\<exists>m'. derive_parent_step ids pc m = Some m' \<and> P rest m'" if "P (pc # rest) m" for pc rest m
  proof -
    obtain p cs where pc: "pc = (p, cs)" by fastforce
    from that obtain pre where m: "bt_inv m" and pre: "pre @ pc # rest = sm"
      and get: "\<forall>c p. bt_get m c = Some p \<longleftrightarrow> (\<exists>cs. (p, cs) \<in> set pre \<and> c \<in> set cs)"
      by (auto simp: P_def)
    have sm: "children_of sm = children_of pre @ cs @ children_of rest"
      by (simp add: pre [symmetric] pc children_of_def)
    have "set (bt_keys m) \<subseteq> set (children_of pre)"
      using get by (auto simp: bt_keys_get children_of_iff)
    with sm assms(1) have disj: "set cs \<inter> set (bt_keys m) = {}" and dist: "distinct cs" by auto
    have "split_entry_ok ids (p, cs)" using assms(2) pc pre by auto
    then obtain m' where m': "derive_parent_step ids (p, cs) m = Some m'" "bt_inv m'"
        "\<forall>c. bt_get m' c = (if c \<in> set cs then Some p else bt_get m c)"
      using derive_parent_step_ok [OF m dist disj] by blast
    have notin: "bt_get m c = None" if "c \<in> set cs" for c
      using that disj bt_get_None by (metis disjoint_iff)
    have "bt_get m' c = Some q \<longleftrightarrow> (\<exists>cs. (q, cs) \<in> set (pre @ [pc]) \<and> c \<in> set cs)" for c q
    proof (cases "c \<in> set cs")
      case True
      then have "\<not> (\<exists>cs. (q, cs) \<in> set pre \<and> c \<in> set cs)" for q
        using notin get by (metis option.distinct(1))
      with True m'(3) pc show ?thesis by auto
    next
      case False
      with m'(3) get pc show ?thesis by auto
    qed
    then have "P rest m'" using m'(2) pre by (auto simp: P_def intro!: exI [of _ "pre @ [pc]"])
    with m'(1) pc show ?thesis by blast
  qed
  have "P sm bt_empty" by (simp add: P_def bt.invar_empty bt.get_empty)
  then obtain m where m: "fold_opt (derive_parent_step ids) sm bt_empty = Some m" "P [] m"
    using fold_opt_inv_list [of P sm bt_empty "derive_parent_step ids"] step by blast
  then have inv: "bt_inv m"
    and get: "\<forall>c p. bt_get m c = Some p \<longleftrightarrow> (\<exists>cs. (p, cs) \<in> set sm \<and> c \<in> set cs)"
    by (auto simp: P_def)
  have "set (bt_keys m) = set ids"
    using get assms(4) by (auto simp: bt_keys_get children_of_iff)
  then have "bt_keys m = sort ids"
    using inv assms(3)
    by (intro sorted_distinct_set_unique)
      (auto simp: bt_inv_distinct strict_sorted_iff dest: bt_inv_sorted_keys)
  with m(1) inv get show ?thesis
    by (auto simp: validate_and_derive_shard_parent_map_v2_def)
qed

lemma boundary_split:
  assumes "sorted bs" and "i = boundary_index bs b"
  shows "\<forall>x\<in>set (take i bs). x \<le> b" and "\<forall>x\<in>set (drop i bs). b < x" and "i \<le> length bs"
proof -
  have iv: "i \<le> length bs" "0 < i \<longrightarrow> bs ! (i - 1) \<le> b" "i < length bs \<longrightarrow> b < bs ! i"
    using boundary_index_interval [OF assms(1), of b i] assms(2) by auto
  show "i \<le> length bs" by (rule iv(1))
  show "\<forall>x\<in>set (take i bs). x \<le> b"
  proof
    fix x assume "x \<in> set (take i bs)"
    then obtain j where j: "j < i" "j < length bs" "x = bs ! j" by (auto simp: in_set_conv_nth)
    then have "bs ! j \<le> bs ! (i - 1)" using assms(1) iv(1) by (intro sorted_nth_mono) auto
    then show "x \<le> b" using iv(2) j by (metis gr_zeroI not_less_zero order_trans)
  qed
  show "\<forall>x\<in>set (drop i bs). b < x"
  proof
    fix x assume "x \<in> set (drop i bs)"
    then obtain j where j: "j < length bs - i" "x = bs ! (i + j)" by (auto simp: in_set_conv_nth)
    then have "bs ! i \<le> bs ! (i + j)" using assms(1) by (intro sorted_nth_mono) auto
    then show "b < x" using iv(3) j by auto
  qed
qed

lemma sort_insert_boundary:
  assumes "sorted bs" and "i = boundary_index bs b"
  shows "sort (bs @ [b]) = take i bs @ b # drop i bs"
proof (rule properties_for_sort)
  have "mset bs = mset (take i bs) + mset (drop i bs)"
    by (metis append_take_drop_id mset_append)
  then show "mset (take i bs @ b # drop i bs) = mset (bs @ [b])" by simp
  show "sorted (take i bs @ b # drop i bs)"
    using boundary_split [OF assms] assms(1)
    by (auto simp: sorted_append sorted_wrt_take sorted_wrt_drop less_imp_le intro: order_trans)
qed

lemma position_middle: "b \<notin> set xs \<Longrightarrow> position b (xs @ b # ys) = Some (length xs)"
  by (induction xs) auto

lemma boundary_index_append:
  "boundary_index (xs @ ys) a =
     (if \<exists>x\<in>set xs. a < x then boundary_index xs a else length xs + boundary_index ys a)"
  by (induction xs) auto

text \<open>How the boundary index of an account changes when a boundary is inserted.\<close>

lemma boundary_index_insert:
  assumes "sorted bs" and "i = boundary_index bs b"
  shows "boundary_index (take i bs @ b # drop i bs) a =
    (if a < b then boundary_index bs a else Suc (boundary_index bs a))"
    and "a < b \<Longrightarrow> boundary_index bs a \<le> i"
    and "\<not> a < b \<Longrightarrow> i \<le> boundary_index bs a"
proof -
  note sp = boundary_split [OF assms]
  have bs: "boundary_index bs a = boundary_index (take i bs @ drop i bs) a" by simp
  have len: "length (take i bs) = i" using sp(3) by simp
  have low: "boundary_index (take i bs) a \<le> i"
    using boundary_index_le [of "take i bs" a] len by simp
  have hi: "boundary_index (drop i bs) a = 0" if "a < b"
    using that sp(2) by (cases "drop i bs") auto
  have none: "\<not> (\<exists>x\<in>set (take i bs). a < x)" if "\<not> a < b"
    using that sp(1) by auto
  show "boundary_index (take i bs @ b # drop i bs) a =
    (if a < b then boundary_index bs a else Suc (boundary_index bs a))"
    unfolding bs boundary_index_append using hi none len by auto
  show "a < b \<Longrightarrow> boundary_index bs a \<le> i"
    unfolding bs boundary_index_append using hi low len by auto
  show "\<not> a < b \<Longrightarrow> i \<le> boundary_index bs a"
    unfolding bs boundary_index_append using none len by auto
qed

definition derived_split_map ::
    "shard_id list \<Rightarrow> shard_id \<Rightarrow> shard_id list \<Rightarrow> (shard_id, shard_id list) btree" where
  "derived_split_map ids parent new =
     bt_insert parent new (fold (\<lambda>(k, v). bt_insert k v) (map (\<lambda>sid. (sid, [sid])) ids) bt_empty)"

lemma derived_split_map:
  assumes "distinct ids"
  shows "bt_inv (derived_split_map ids parent new)"
    and "(p, cs) \<in> set (derived_split_map ids parent new) \<longleftrightarrow>
      (if p = parent then cs = new else p \<in> set ids \<and> cs = [p])"
proof -
  let ?kvs = "map (\<lambda>sid. (sid, [sid])) ids"
  let ?m = "fold (\<lambda>(k, v). bt_insert k v) ?kvs bt_empty"
  have inv: "bt_inv ?m" by (rule bt.invar_fill [OF bt.invar_empty])
  show inv': "bt_inv (derived_split_map ids parent new)"
    unfolding derived_split_map_def by (rule bt_insert_inv [OF inv])
  have keys: "map fst ?kvs = ids" by (simp add: comp_def)
  have "bt_get ?m p = (if p \<in> set ids then Some [p] else None)"
  proof (cases "p \<in> set ids")
    case True
    then have "(p, [p]) \<in> set ?kvs" by simp
    then show ?thesis using True assms keys by (auto intro!: bt.get_fill_distinct [OF bt.invar_empty])
  next
    case False
    then have "p \<notin> fst ` set ?kvs" by auto
    then show ?thesis using False
      by (simp add: bt.get_fill_notin [OF bt.invar_empty] bt.get_empty)
  qed
  then show "(p, cs) \<in> set (derived_split_map ids parent new) \<longleftrightarrow>
      (if p = parent then cs = new else p \<in> set ids \<and> cs = [p])"
    unfolding bt_get_mem [OF inv'] by (auto simp: derived_split_map_def bt_insert_get)
qed

lemma derived_children:
  assumes "distinct ids" and "parent \<in> set ids" and "n1 \<noteq> n2" and "n1 \<notin> set ids" and "n2 \<notin> set ids"
  shows "distinct (children_of (derived_split_map ids parent [n1, n2]))"
    and "set (children_of (derived_split_map ids parent [n1, n2])) = set ids - {parent} \<union> {n1, n2}"
proof -
  let ?m = "derived_split_map ids parent [n1, n2]"
  note mem = derived_split_map(2) [OF assms(1), of _ _ parent "[n1, n2]"]
  have inj: "inj_on snd (set ?m)"
    using assms(3-5) by (auto simp: inj_on_def mem split: if_splits)
  have "distinct ?m"
    using bt_inv_distinct [OF derived_split_map(1) [OF assms(1)]]
    by (simp add: bt_keys_def distinct_map)
  then have d1: "distinct (map snd ?m)" using inj by (simp add: distinct_map)
  show "distinct (children_of ?m)"
    unfolding children_of_def
  proof (rule distinct_concat [OF d1])
    fix ys assume "ys \<in> set (map snd ?m)"
    then show "distinct ys" using assms(3) by (auto simp: mem split: if_splits)
  next
    fix ys zs assume "ys \<in> set (map snd ?m)" "zs \<in> set (map snd ?m)" "ys \<noteq> zs"
    then show "set ys \<inter> set zs = {}" using assms(3-5) by (auto simp: mem split: if_splits)
  qed
  have "c \<in> set (children_of ?m) \<longleftrightarrow> c \<in> set ids - {parent} \<union> {n1, n2}" for c
  proof
    assume "c \<in> set ids - {parent} \<union> {n1, n2}"
    then have "(c, [c]) \<in> set ?m \<or> (parent, [n1, n2]) \<in> set ?m \<and> c \<in> set [n1, n2]"
      by (auto simp: mem)
    then show "c \<in> set (children_of ?m)" unfolding children_of_iff by force
  qed (auto simp: children_of_iff mem split: if_splits)
  then show "set (children_of ?m) = set ids - {parent} \<union> {n1, n2}" by blast
qed

lemma layout_inv_boundary:
  assumes "layout_inv l" and "boundary_accounts l = Some accounts"
  shows "sorted accounts" and "distinct (shard_ids l)" and "length (shard_ids l) = length accounts + 1"
    and "account_id_to_shard_id h l a = Some (shard_ids l ! boundary_index accounts a)"
  using assms boundary_index_le [of accounts a]
  by (cases l; auto simp: layout_inv_def boundary_accounts_def shard_ids_def num_shards_def
      account_id_to_shard_id_def v1_account_id_to_shard_id_def v2_account_id_to_shard_id_def
      simp del: upt_Suc)+

lemma layout_v2_ok:
  assumes "length accounts + 1 = length ids" and "sorted accounts" and "distinct ids"
    and "validate_and_derive_shard_parent_map_v2 ids sm = Some pm"
  shows "\<exists>v. layout_v2 accounts ids (Some sm) = Some (V2 v) \<and> layout_inv (V2 v) \<and>
    v2_boundary_accounts v = accounts \<and> v2_shard_ids v = ids \<and> v2_shards_split_map v = Some sm \<and>
    v2_shards_parent_map v = Some pm \<and> v2_version v = 3"
proof -
  have "bt_keys pm = sort ids"
    using assms(4) by (auto simp: validate_and_derive_shard_parent_map_v2_def bind_eq_Some_conv)
  then have keys: "set (bt_keys pm) = set ids" by simp
  show ?thesis
    using assms keys
    by (simp add: layout_v2_def sorted_sort_id layout_inv_def enumerate_swap_get Let_def)
qed

lemma derive_shard_layout_struct:
  assumes inv: "layout_inv base" and ba: "boundary_accounts base = Some accounts"
    and b: "b \<notin> set accounts" and max: "\<forall>sid\<in>set (shard_ids base). sid + 2 < 2 ^ 64"
  defines "i \<equiv> boundary_index accounts b" and "m \<equiv> Max (set (shard_ids base))"
    and "ids \<equiv> shard_ids base"
  shows "\<exists>v pm. derive_shard_layout base b = Some (V2 v) \<and> layout_inv (V2 v) \<and>
    v2_boundary_accounts v = take i accounts @ b # drop i accounts \<and>
    v2_shard_ids v = take i ids @ [m + 1, m + 2] @ drop (i + 1) ids \<and>
    v2_shards_split_map v = Some (derived_split_map ids (ids ! i) [m + 1, m + 2]) \<and>
    v2_shards_parent_map v = Some pm \<and>
    (\<forall>c p. bt_get pm c = Some p \<longleftrightarrow>
       (c \<in> {m + 1, m + 2} \<and> p = ids ! i) \<or> (c \<in> set ids \<and> c \<noteq> ids ! i \<and> p = c))"
proof -
  note base = layout_inv_boundary [OF inv ba]
  have i: "i < length ids" "i \<le> length accounts"
    using boundary_split(3) [OF base(1), of i b] base(3) by (auto simp: i_def ids_def)
  have nonempty: "ids \<noteq> []" using base(3) by (auto simp: ids_def)
  then have m_in: "m \<in> set ids" by (auto simp: m_def ids_def)
  have le_m: "sid \<le> m" if "sid \<in> set ids" for sid using that by (simp add: m_def ids_def)
  have m2: "m + 2 < 2 ^ 64" using max m_in by (auto simp: ids_def)
  let ?new = "[m + 1, m + 2]"
  let ?ids' = "take i ids @ ?new @ drop (i + 1) ids"
  let ?accounts' = "take i accounts @ b # drop i accounts"
  let ?sm = "derived_split_map ids (ids ! i) ?new"
  have parent: "ids ! i \<in> set ids" using i(1) by simp
  have fresh: "m + 1 \<notin> set ids" "m + 2 \<notin> set ids" using le_m by fastforce+
  have dist: "distinct ids" using base(2) by (simp add: ids_def)
  have decomp: "take i ids @ ids ! i # drop (i + 1) ids = ids"
    using i(1) by (simp add: id_take_nth_drop [symmetric])
  have set_ids': "set ?ids' = set ids - {ids ! i} \<union> {m + 1, m + 2}"
  proof -
    have "set ids = insert (ids ! i) (set (take i ids) \<union> set (drop (i + 1) ids))"
      by (subst decomp [symmetric]) auto
    moreover have "ids ! i \<notin> set (take i ids) \<union> set (drop (i + 1) ids)"
      using dist by (subst (asm) decomp [symmetric]) auto
    ultimately show ?thesis by auto
  qed
  have dist': "distinct ?ids'"
    using dist fresh by (subst (asm) (1) decomp [symmetric])
      (auto dest: in_set_takeD in_set_dropD)
  have "m + 1 \<noteq> m + 2" by simp
  note ch = derived_children [OF dist parent this fresh]
  have mem: "(p, cs) \<in> set ?sm \<longleftrightarrow> (if p = ids ! i then cs = ?new else p \<in> set ids \<and> cs = [p])" for p cs
    by (rule derived_split_map(2) [OF dist])
  have entries: "\<forall>pc\<in>set ?sm. split_entry_ok ?ids' pc"
  proof
    fix pc assume "pc \<in> set ?sm"
    then have "(fst pc, snd pc) \<in> set ?sm" by simp
    then have "if fst pc = ids ! i then snd pc = ?new else fst pc \<in> set ids \<and> snd pc = [fst pc]"
      unfolding mem .
    then show "split_entry_ok ?ids' pc"
      unfolding split_entry_ok_def set_ids' using fresh parent by (auto split: if_splits)
  qed
  obtain pm where pm: "validate_and_derive_shard_parent_map_v2 ?ids' ?sm = Some pm"
      "\<forall>c p. bt_get pm c = Some p \<longleftrightarrow> (\<exists>cs. (p, cs) \<in> set ?sm \<and> c \<in> set cs)"
    using validate_parent_map_ok [OF ch(1) entries dist'] unfolding set_ids' ch(2) by blast
  have sorted': "sort (accounts @ [b]) = ?accounts'"
    by (rule sort_insert_boundary [OF base(1)]) (simp add: i_def)
  have pos: "position b ?accounts' = Some i"
    using b i(2) position_middle [of b "take i accounts" "drop i accounts"]
    by (auto dest: in_set_takeD)
  have len: "length ?accounts' + 1 = length ?ids'" using i base(3) by (simp add: ids_def)
  have "sorted ?accounts'" by (metis sorted' sorted_sort)
  from layout_v2_ok [OF len this dist' pm(1)] obtain v where v:
    "layout_v2 ?accounts' ?ids' (Some ?sm) = Some (V2 v)" "layout_inv (V2 v)"
    "v2_boundary_accounts v = ?accounts'" "v2_shard_ids v = ?ids'" "v2_shards_split_map v = Some ?sm"
    "v2_shards_parent_map v = Some pm" by auto
  have "derive_shard_layout base b = layout_v2 ?accounts' ?ids' (Some ?sm)"
  proof -
    have "checked_add u64_w m 1 = Some (m + 1)" "checked_add u64_w m 2 = Some (m + 2)"
      using m2 by (auto simp: checked_add_def)
    moreover have "Max (set ids) = m" by (simp add: m_def ids_def)
    ultimately show ?thesis using b i(1) nonempty ba sorted' pos
      by (simp add: derive_shard_layout_def splice_one_def derived_split_map_def Let_def
          ids_def [symmetric])
  qed
  then have "derive_shard_layout base b = Some (V2 v)" unfolding v(1) .
  moreover have "bt_get pm c = Some p \<longleftrightarrow>
      (c \<in> {m + 1, m + 2} \<and> p = ids ! i) \<or> (c \<in> set ids \<and> c \<noteq> ids ! i \<and> p = c)" for c p
    unfolding pm(2) [rule_format] mem by (cases "p = ids ! i") auto
  ultimately show ?thesis using v(2-6) by blast
qed

lemma derived_parent:
  assumes inv: "layout_inv base" and ba: "boundary_accounts base = Some accounts"
    and b: "b \<notin> set accounts" and max: "\<forall>sid\<in>set (shard_ids base). sid + 2 < 2 ^ 64"
    and der: "derive_shard_layout base b = Some l"
    and s: "account_id_to_shard_id h base a = Some s"
    and s': "account_id_to_shard_id h l a = Some s'"
  shows "get_parent_shard_id l s' = Some (Inr s)"
proof -
  note base = layout_inv_boundary [OF inv ba]
  let ?i = "boundary_index accounts b" and ?ids = "shard_ids base"
  let ?m = "Max (set ?ids)" and ?j = "boundary_index accounts a"
  obtain v pm where v: "l = V2 v" "layout_inv (V2 v)"
      "v2_boundary_accounts v = take ?i accounts @ b # drop ?i accounts"
      "v2_shard_ids v = take ?i ?ids @ [?m + 1, ?m + 2] @ drop (?i + 1) ?ids"
      "v2_shards_parent_map v = Some pm"
    and pm: "\<forall>c p. bt_get pm c = Some p \<longleftrightarrow> (c \<in> {?m + 1, ?m + 2} \<and> p = ?ids ! ?i) \<or>
      (c \<in> set ?ids \<and> c \<noteq> ?ids ! ?i \<and> p = c)"
    using derive_shard_layout_struct [OF inv ba b max] unfolding der option.inject by blast
  have new: "boundary_accounts l = Some (v2_boundary_accounts v)"
    by (simp add: v(1) boundary_accounts_def)
  note l' = layout_inv_boundary [OF v(2) [folded v(1)] new]
  have idx: "boundary_index (v2_boundary_accounts v) a = (if a < b then ?j else Suc ?j)"
    unfolding v(3) by (rule boundary_index_insert(1) [OF base(1) refl])
  have j: "?j < length ?ids" using boundary_index_le [of accounts a] base(3) by simp
  have i: "?i < length ?ids" using boundary_index_le [of accounts b] base(3) by simp
  have s_eq: "s = ?ids ! ?j" using s base(4) by simp
  have s'_eq: "s' = v2_shard_ids v ! (if a < b then ?j else Suc ?j)"
    using s' l'(4) idx by (simp add: v(1) shard_ids_def)
  have mem: "s' \<in> set (shard_ids l)"
    using s' l'(3,4) boundary_index_le [of "v2_boundary_accounts v" a] by auto
  have ge: "\<not> a < b \<Longrightarrow> ?i \<le> ?j" by (rule boundary_index_insert(3) [OF base(1) refl])
  have le: "a < b \<Longrightarrow> ?j \<le> ?i" by (rule boundary_index_insert(2) [OF base(1) refl])
  have "bt_get pm s' = Some s"
  proof (cases "?j = ?i")
    case True
    then have "s' \<in> {?m + 1, ?m + 2}" using i by (auto simp: s'_eq v(4) nth_append)
    then show ?thesis using pm s_eq True by simp
  next
    case False
    have "s' = ?ids ! ?j"
      using False i j le ge by (cases "a < b") (auto simp: s'_eq v(4) nth_append)
    moreover have "?ids ! ?j \<noteq> ?ids ! ?i" using False i j base(2) by (simp add: nth_eq_iff_index_eq)
    ultimately show ?thesis using pm s_eq j by simp
  qed
  then show ?thesis using mem v(1,5)
    by (simp add: get_parent_shard_id_def try_get_parent_shard_id_def)
qed

lemma insert_child_Some:
  "insert_child p c m = Some m' \<longleftrightarrow> c \<notin> set (bt_keys m) \<and> m' = bt_insert c p m"
  by (auto simp: insert_child_def bt_contains_def bt_get_None)

lemma insert_child_fold_inv:
  "fold_opt (insert_child p) cs m = Some m' \<Longrightarrow> bt_inv m \<Longrightarrow>
   bt_inv m' \<and> distinct cs \<and> set cs \<inter> set (bt_keys m) = {}"
proof (induction cs arbitrary: m)
  case Nil
  then show ?case by simp
next
  case (Cons c cs)
  then have step: "insert_child p c m = Some (bt_insert c p m)" "c \<notin> set (bt_keys m)"
    and rest: "fold_opt (insert_child p) cs (bt_insert c p m) = Some m'"
    by (auto simp: insert_child_Some bind_eq_Some_conv)
  have "bt_inv m' \<and> distinct cs \<and> set cs \<inter> set (bt_keys (bt_insert c p m)) = {}"
    using Cons.IH [OF rest] Cons.prems(2) by (simp add: bt_insert_inv)
  with step(2) show ?case by (auto simp: bt_keys_def bt_insert_keys)
qed

text \<open>What the validation establishes: the parent map is the inverse of the split map.\<close>

lemma validate_parent_map_spec:
  assumes "validate_and_derive_shard_parent_map_v2 ids sm = Some m"
  shows "bt_inv m" and "bt_keys m = sort ids" and "distinct ids"
    and "bt_get m c = Some p \<longleftrightarrow> (\<exists>cs. (p, cs) \<in> set sm \<and> c \<in> set cs)"
proof -
  define P where "P = (\<lambda>rest m. bt_inv m \<and> (\<exists>pre. pre @ rest = sm \<and>
    (\<forall>c p. bt_get m c = Some p \<longleftrightarrow> (\<exists>cs. (p, cs) \<in> set pre \<and> c \<in> set cs))))"
  have step: "P rest m'" if P: "P (pc # rest) m" and ok: "derive_parent_step ids pc m = Some m'"
    for pc rest m m'
  proof -
    obtain p cs where pc: "pc = (p, cs)" by fastforce
    from P obtain pre where m: "bt_inv m" and pre: "pre @ pc # rest = sm"
      and get: "\<forall>c p. bt_get m c = Some p \<longleftrightarrow> (\<exists>cs. (p, cs) \<in> set pre \<and> c \<in> set cs)"
      by (auto simp: P_def)
    have f: "fold_opt (insert_child p) cs m = Some m'"
      using ok pc by (auto simp: derive_parent_step_def bind_eq_Some_conv)
    note inv = insert_child_fold_inv [OF f m]
    then have m': "bt_inv m'" "\<forall>c. bt_get m' c = (if c \<in> set cs then Some p else bt_get m c)"
      using insert_child_fold [OF m, of cs p] f by auto
    have none: "\<not> (\<exists>cs'. (q, cs') \<in> set pre \<and> c \<in> set cs')" if "c \<in> set cs" for c q
      using that inv get bt_keys_get [of c m] by (metis disjoint_iff)
    have "bt_get m' c = Some q \<longleftrightarrow> (\<exists>cs. (q, cs) \<in> set (pre @ [pc]) \<and> c \<in> set cs)" for c q
      using m'(2) get pc none by (cases "c \<in> set cs") auto
    then show ?thesis using m'(1) pre by (auto simp: P_def intro!: exI [of _ "pre @ [pc]"])
  qed
  have loop: "fold_opt (derive_parent_step ids) sm bt_empty = Some m" and keys: "sort ids = bt_keys m"
    using assms by (auto simp: validate_and_derive_shard_parent_map_v2_def bind_eq_Some_conv)
  have "P sm bt_empty" by (simp add: P_def bt.invar_empty bt.get_empty)
  from fold_opt_partial_list [of _ _ _ _ P, OF loop this step] have "P [] m" .
  then show "bt_inv m" and "bt_get m c = Some p \<longleftrightarrow> (\<exists>cs. (p, cs) \<in> set sm \<and> c \<in> set cs)"
    by (auto simp: P_def)
  show "bt_keys m = sort ids" by (simp add: keys)
  have "distinct (sort ids)" using \<open>bt_inv m\<close> bt_inv_distinct keys by metis
  then show "distinct ids" by simp
qed

lemma layout_v2_inv:
  assumes "layout_v2 accounts ids sm = Some l" and "distinct ids \<or> sm \<noteq> None"
  shows "layout_inv l"
proof -
  have "distinct ids"
    using assms by (auto simp: layout_v2_def bind_eq_Some_conv dest: validate_parent_map_spec(3))
  with assms(1) show ?thesis
    by (auto simp: layout_v2_def layout_inv_def bind_eq_Some_conv Let_def enumerate_swap_get
        validate_parent_map_spec(2) split: option.splits dest: sorted_sort_id)
      (metis sorted_sort)+
qed

lemma layout_index_round_trip:
  assumes "layout_inv l" and "i < num_shards l"
  shows "\<exists>sid. get_shard_id l i = Inr sid \<and> sid \<in> set (shard_ids l) \<and> get_shard_index l sid = Inr i"
  using assms
  by (cases l) (auto simp: layout_inv_def num_shards_def get_shard_id_def shard_ids_def
      get_shard_index_def ok_or_Inr simp del: upt_Suc)

lemma layout_id_round_trip:
  assumes "layout_inv l" and "sid \<in> set (shard_ids l)"
  shows "\<exists>i. get_shard_index l sid = Inr i \<and> i < num_shards l \<and> get_shard_id l i = Inr sid"
proof (cases l)
  case (V2 v)
  from assms V2 obtain i where "i < length (v2_shard_ids v)" "v2_shard_ids v ! i = sid"
    by (auto simp: shard_ids_def in_set_conv_nth)
  with assms V2 show ?thesis
    by (auto simp: layout_inv_def get_shard_index_def num_shards_def get_shard_id_def ok_or_def
        intro!: exI [of _ i] split: option.splits)
qed (use assms in \<open>auto simp: get_shard_index_def num_shards_def get_shard_id_def shard_ids_def
      simp del: upt_Suc\<close>)

lemma split_parent_loop:
  assumes "\<forall>sid\<in>set sids. \<exists>p. try_get_parent_shard_id l sid = Some (Inr (Some p))"
  shows "fold_opt (split_parent_step l) sids acc =
    Some (acc \<union> {p. \<exists>sid\<in>set sids. try_get_parent_shard_id l sid = Some (Inr (Some p)) \<and> p \<noteq> sid})"
  using assms
proof (induction sids arbitrary: acc)
  case Nil
  then show ?case by simp
next
  case (Cons sid sids)
  then obtain p where p: "try_get_parent_shard_id l sid = Some (Inr (Some p))" by auto
  then have "split_parent_step l sid acc = Some (if p = sid then acc else insert p acc)"
    by (simp add: split_parent_step_def)
  with Cons p show ?case by (auto split: if_splits)
qed

subsection \<open>Byte strings\<close>

lemma length_to_le_bytes [simp]: "length (to_le_bytes k n) = k"
  by (induction k arbitrary: n) auto

lemma from_to_le_bytes: "from_le_bytes (to_le_bytes k n) = n mod 256 ^ k"
proof (induction k arbitrary: n)
  case 0
  then show ?case by simp
next
  case (Suc k)
  have "n mod 256 mod 2 ^ 8 = n mod 256" by simp
  with Suc show ?case by (simp add: mod_mult2_eq unat_of_nat)
qed

lemma byte_lt: "unat (b :: byte) < 256"
  using unsigned_less [of b] by simp

lemma byte_succ: "(b :: byte) \<noteq> 255 \<Longrightarrow> unat (b + 1) = unat b + 1"
proof -
  assume "b \<noteq> 255"
  moreover have "(255 :: byte) = - 1" by (simp add: word_unat_eq_iff unsigned_minus_1_eq_mask mask_eq_exp_minus_1)
  ultimately have "1 + b \<noteq> 0" by (simp add: add_eq_0_iff)
  from unatSuc [OF this] show ?thesis by (simp add: add.commute)
qed

lemma from_le_bytes_lt: "from_le_bytes bs < 256 ^ length bs"
proof (induction bs)
  case Nil
  then show ?case by simp
next
  case (Cons b bs)
  have "unat b < 256" by (rule byte_lt)
  with Cons show ?case by simp
qed

lemma to_from_le_bytes: "to_le_bytes (length bs) (from_le_bytes bs) = bs"
proof (induction bs)
  case Nil
  then show ?case by simp
next
  case (Cons b bs)
  have "unat b < 256" by (rule byte_lt)
  with Cons show ?case by (simp add: div_mult_self2)
qed

lemma from_le_bytes_append: "from_le_bytes (xs @ ys) = from_le_bytes xs + 256 ^ length xs * from_le_bytes ys"
  by (induction xs) (auto simp: algebra_simps)

lemma from_le_bytes_inj: "length xs = length ys \<Longrightarrow> from_le_bytes xs = from_le_bytes ys \<Longrightarrow> xs = ys"
  by (metis to_from_le_bytes)

lemma bump_rev_val:
  "bump_rev bs = Some r \<Longrightarrow> length r = length bs \<and> from_le_bytes r = from_le_bytes bs + 1"
proof (induction bs arbitrary: r)
  case Nil
  then show ?case by simp
next
  case (Cons b bs)
  show ?case
  proof (cases "b = 255")
    case True
    with Cons show ?thesis by auto
  next
    case False
    then have "unat (b + 1) = unat b + 1" by (rule byte_succ)
    with Cons.prems False show ?thesis by auto
  qed
qed

text \<open>On byte strings of one length, the lexicographic order is the order of the big-endian value.\<close>

lemma lex_less_iff_val:
  "length xs = length ys \<Longrightarrow> xs < ys \<longleftrightarrow> from_le_bytes (rev xs) < from_le_bytes (rev (ys :: byte list))"
proof (induction xs ys rule: list_induct2)
  case Nil
  then show ?case by simp
next
  case (Cons x xs y ys)
  let ?n = "256 ^ length xs :: nat"
  let ?X = "from_le_bytes (rev xs)" and ?Y = "from_le_bytes (rev ys)"
  have lt: "?X < ?n" "?Y < ?n" using from_le_bytes_lt [of "rev xs"] from_le_bytes_lt [of "rev ys"] Cons.hyps by simp_all
  have "?X + ?n * unat x < ?Y + ?n * unat y \<longleftrightarrow> unat x < unat y \<or> unat x = unat y \<and> ?X < ?Y"
  proof (cases "unat x" "unat y" rule: linorder_cases)
    case less
    then have "?n * (unat x + 1) \<le> ?n * unat y" by (intro mult_le_mono2) simp
    with less lt show ?thesis by simp
  next
    case equal
    then show ?thesis by simp
  next
    case greater
    then have "?n * (unat y + 1) \<le> ?n * unat x" by (intro mult_le_mono2) simp
    with greater lt show ?thesis by simp
  qed
  with Cons show ?case
    by (simp add: from_le_bytes_append word_less_nat_alt word_unat_eq_iff)
qed

lemma lex_prefix_le: "xs \<le> xs @ (zs :: byte list)"
  by (induction xs) auto

lemma lex_append_less:
  "length xs = length ys \<Longrightarrow> xs @ zs < (ys :: byte list) \<longleftrightarrow> xs < ys"
  by (induction xs ys rule: list_induct2) auto

section \<open>Properties\<close>

text \<open>
  C12: Resharding refines the partition of accounts. For a base layout with boundary accounts
  (V1 or V2) that satisfies the layout invariant, a new boundary account and shard ids that leave
  room for two more, \<open>derive_shard_layout\<close> does not panic, the new layout satisfies the invariant,
  and for every account the parent of its shard in the new layout is its shard in the base layout.
\<close>

theorem derive_shard_layout_refines:
  assumes "layout_inv base" and "boundary_accounts base = Some accounts"
    and "b \<notin> set accounts" and "\<forall>sid\<in>set (shard_ids base). sid + 2 < 2 ^ 64"
  shows "\<exists>l. derive_shard_layout base b = Some l \<and> layout_inv l \<and>
    (\<forall>a. \<exists>s s'. account_id_to_shard_id h base a = Some s \<and>
       account_id_to_shard_id h l a = Some s' \<and> get_parent_shard_id l s' = Some (Inr s))"
proof -
  obtain v where v: "derive_shard_layout base b = Some (V2 v)" "layout_inv (V2 v)"
    using derive_shard_layout_struct [OF assms] by blast
  have "\<exists>s s'. account_id_to_shard_id h base a = Some s \<and>
      account_id_to_shard_id h (V2 v) a = Some s' \<and> get_parent_shard_id (V2 v) s' = Some (Inr s)" for a
  proof -
    have b': "boundary_accounts (V2 v) = Some (v2_boundary_accounts v)" by (simp add: boundary_accounts_def)
    note s = layout_inv_boundary(4) [OF assms(1,2), of h a]
    note s' = layout_inv_boundary(4) [OF v(2) b', of h a]
    from derived_parent [OF assms v(1) s s'] s s' show ?thesis by blast
  qed
  with v show ?thesis by blast
qed

definition example_base :: shard_layout where
  "example_base =
     V2 \<lparr> v2_boundary_accounts = [''aurora'', ''kkuuue''], v2_shard_ids = [4, 0, 7],
          v2_id_to_index_map = [(0, 1), (4, 0), (7, 2)],
          v2_index_to_id_map = [(0, 4), (1, 0), (2, 7)], v2_shards_split_map = None,
          v2_shards_parent_map = None, v2_version = 3 \<rparr>"

lemma example_base_eq: "layout_v2 [''aurora'', ''kkuuue''] [4, 0, 7] None = Some example_base"
  by (simp add: layout_v2_def bt_empty_def example_base_def)

lemma example_base_inv: "layout_inv example_base"
  by (rule layout_v2_inv [OF example_base_eq]) simp

lemma example_base_fields:
  "boundary_accounts example_base = Some [''aurora'', ''kkuuue'']" "shard_ids example_base = [4, 0, 7]"
  "num_shards example_base = 3"
  by (simp_all add: example_base_def boundary_accounts_def shard_ids_def num_shards_def)

lemmas layout_eval =
  example_base_def derive_shard_layout_def layout_v2_def boundary_accounts_def shard_ids_def
  checked_add_def splice_one_def bt_empty_def validate_and_derive_shard_parent_map_v2_def
  derive_parent_step_def insert_child_def bt_contains_def bt_get_def bt_keys_def
  get_parent_shard_id_def try_get_parent_shard_id_def ok_or_def num_shards_def
  get_split_parent_shard_ids_def split_parent_step_def account_id_to_shard_id_def
  v2_account_id_to_shard_id_def vec_get_def get_shard_id_def get_shard_index_def
  get_children_shards_ids_def

theorem derive_shard_layout_refines_witness:
  "\<exists>l. derive_shard_layout example_base ''game'' = Some l \<and> shard_ids l = [4, 8, 9, 7] \<and>
    get_parent_shard_id l 9 = Some (Inr 0) \<and>
    (\<exists>s s'. account_id_to_shard_id (\<lambda>_. []) example_base ''hot'' = Some s \<and>
       account_id_to_shard_id (\<lambda>_. []) l ''hot'' = Some s' \<and> get_parent_shard_id l s' = Some (Inr s))"
proof -
  have h: "''game'' \<notin> set [''aurora'', ''kkuuue'']"
    "\<forall>sid\<in>set (shard_ids example_base). sid + 2 < 2 ^ 64"
    by (simp_all add: example_base_fields)
  obtain l where l: "derive_shard_layout example_base ''game'' = Some l"
    "\<forall>a. \<exists>s s'. account_id_to_shard_id (\<lambda>_. []) example_base a = Some s \<and>
       account_id_to_shard_id (\<lambda>_. []) l a = Some s' \<and> get_parent_shard_id l s' = Some (Inr s)"
    using derive_shard_layout_refines [OF example_base_inv example_base_fields(1) h, of "\<lambda>_. []"] by blast
  have "map_option shard_ids (derive_shard_layout example_base ''game'') = Some [4, 8, 9, 7]"
    "Option.bind (derive_shard_layout example_base ''game'') (\<lambda>l. get_parent_shard_id l 9) = Some (Inr 0)"
    by (simp_all add: layout_eval)
  then have "shard_ids l = [4, 8, 9, 7]" "get_parent_shard_id l 9 = Some (Inr 0)"
    by (simp_all add: l(1))
  with l show ?thesis by blast
qed


text \<open>
  C18: Splitting one shard changes only that shard. In a derived layout the set of parents whose id
  is no longer used is exactly the shard of the base layout that held the new boundary account.
\<close>

theorem derive_splits_one_shard:
  assumes "layout_inv base" and "boundary_accounts base = Some accounts"
    and "b \<notin> set accounts" and "\<forall>sid\<in>set (shard_ids base). sid + 2 < 2 ^ 64"
    and "account_id_to_shard_id h base b = Some s"
  shows "\<exists>l. derive_shard_layout base b = Some l \<and> get_split_parent_shard_ids l = Some {s} \<and>
    num_shards l = num_shards base + 1"
proof -
  note base = layout_inv_boundary [OF assms(1,2)]
  let ?i = "boundary_index accounts b" and ?ids = "shard_ids base"
  let ?m = "Max (set ?ids)"
  obtain v pm where v: "derive_shard_layout base b = Some (V2 v)" "layout_inv (V2 v)"
      "v2_shard_ids v = take ?i ?ids @ [?m + 1, ?m + 2] @ drop (?i + 1) ?ids"
      "v2_shards_parent_map v = Some pm"
    and pm: "\<forall>c p. bt_get pm c = Some p \<longleftrightarrow> (c \<in> {?m + 1, ?m + 2} \<and> p = ?ids ! ?i) \<or>
      (c \<in> set ?ids \<and> c \<noteq> ?ids ! ?i \<and> p = c)"
    using derive_shard_layout_struct [OF assms(1-4)] by blast
  have s: "s = ?ids ! ?i" using assms(5) base(4) by simp
  have i: "?i < length ?ids" using boundary_index_le [of accounts b] base(3) by simp
  have sub: "set (v2_shard_ids v) \<subseteq> set (bt_keys pm)" using v(2,4) by (simp add: layout_inv_def)
  have parent: "try_get_parent_shard_id (V2 v) c = Some (Inr (Some p)) \<longleftrightarrow> bt_get pm c = Some p"
    if "c \<in> set (v2_shard_ids v)" for c p
    using that v(4) by (auto simp: try_get_parent_shard_id_def shard_ids_def)
  have "\<forall>c\<in>set (shard_ids (V2 v)). \<exists>p. try_get_parent_shard_id (V2 v) c = Some (Inr (Some p))"
    using sub parent by (auto simp: shard_ids_def bt_keys_get)
  from split_parent_loop [OF this, of "{}"]
  have "get_split_parent_shard_ids (V2 v) = Some {p. \<exists>c\<in>set (v2_shard_ids v).
      try_get_parent_shard_id (V2 v) c = Some (Inr (Some p)) \<and> p \<noteq> c}"
    by (simp add: get_split_parent_shard_ids_def shard_ids_def)
  also have "{p. \<exists>c\<in>set (v2_shard_ids v). try_get_parent_shard_id (V2 v) c = Some (Inr (Some p)) \<and> p \<noteq> c} = {s}"
  proof -
    have new: "?m + 1 \<in> set (v2_shard_ids v)" by (simp add: v(3))
    have "s \<le> ?m" using i s by (intro Max_ge) auto
    then have "s \<noteq> ?m + 1" by simp
    then show ?thesis using new pm s by (auto simp: parent)
  qed
  finally have "get_split_parent_shard_ids (V2 v) = Some {s}" .
  moreover have "num_shards (V2 v) = num_shards base + 1"
    using i v(3) base(3) assms(2)
    by (cases base) (auto simp: num_shards_def shard_ids_def)
  ultimately show ?thesis using v(1) by blast
qed

theorem derive_splits_one_shard_witness:
  "\<exists>l. derive_shard_layout example_base ''game'' = Some l \<and> get_split_parent_shard_ids l = Some {0} \<and>
    num_shards l = num_shards example_base + 1"
proof -
  have h: "''game'' \<notin> set [''aurora'', ''kkuuue'']"
    "\<forall>sid\<in>set (shard_ids example_base). sid + 2 < 2 ^ 64"
    by (simp_all add: example_base_fields)
  have s: "account_id_to_shard_id (\<lambda>_. []) example_base ''game'' = Some 0" by (simp add: layout_eval)
  show ?thesis
    by (rule derive_splits_one_shard [OF example_base_inv example_base_fields(1) h s])
qed

text \<open>
  C19: Parents and children of a V2 layout are inverse to each other. Whenever the constructor
  accepts a split map, a shard's parent is \<open>p\<close> exactly when the shard is among the children of \<open>p\<close>,
  and every shard of the layout has a parent.
\<close>

theorem layout_v2_parent_child:
  assumes "layout_v2 accounts ids (Some sm) = Some l" and "bt_inv sm" and "c \<in> set (shard_ids l)"
  shows "(get_parent_shard_id l c = Some (Inr p) \<longleftrightarrow>
      (\<exists>cs. get_children_shards_ids l p = Some cs \<and> c \<in> set cs)) \<and>
    (\<exists>p. get_parent_shard_id l c = Some (Inr p))"
proof -
  from assms(1) obtain v pm where l: "l = V2 v" "v2_shard_ids v = ids" "v2_shards_split_map v = Some sm"
      "v2_shards_parent_map v = Some pm"
    and pm: "validate_and_derive_shard_parent_map_v2 ids sm = Some pm"
    by (auto simp: layout_v2_def bind_eq_Some_conv Let_def)
  have parent: "get_parent_shard_id l c = Some (Inr p) \<longleftrightarrow> bt_get pm c = Some p" for p
    using assms(3) l by (auto simp: get_parent_shard_id_def try_get_parent_shard_id_def shard_ids_def)
  have children: "get_children_shards_ids l p = bt_get sm p"
    using l by (simp add: get_children_shards_ids_def)
  have "c \<in> set (bt_keys pm)"
    using assms(3) l validate_parent_map_spec(2) [OF pm] by (simp add: shard_ids_def)
  then have "\<exists>p. get_parent_shard_id l c = Some (Inr p)" by (simp add: parent bt_keys_get)
  then show ?thesis
    unfolding parent children validate_parent_map_spec(4) [OF pm] by (simp add: bt_get_mem assms(2))
qed

definition example_split :: shard_layout where
  "example_split =
     V2 \<lparr> v2_boundary_accounts = [''aurora'', ''kkuuue''], v2_shard_ids = [8, 9, 7],
          v2_id_to_index_map = [(7, 2), (8, 0), (9, 1)],
          v2_index_to_id_map = [(0, 8), (1, 9), (2, 7)],
          v2_shards_split_map = Some [(4, [8, 9]), (7, [7])],
          v2_shards_parent_map = Some [(7, 7), (8, 4), (9, 4)], v2_version = 3 \<rparr>"

theorem layout_v2_parent_child_witness:
  "get_children_shards_ids example_split 4 = Some [8, 9] \<and>
   get_parent_shard_id example_split 9 = Some (Inr 4) \<and>
   (get_parent_shard_id example_split 7 = Some (Inr 4) \<longleftrightarrow>
      (\<exists>cs. get_children_shards_ids example_split 4 = Some cs \<and> 7 \<in> set cs))"
proof -
  have l: "layout_v2 [''aurora'', ''kkuuue''] [8, 9, 7] (Some [(4, [8, 9]), (7, [7])]) = Some example_split"
    by (simp add: layout_eval example_split_def)
  have sm: "bt_inv [(4 :: nat, [8, 9]), (7, [7])]" by (simp add: bt_inv_def)
  have c: "7 \<in> set (shard_ids example_split)" "9 \<in> set (shard_ids example_split)"
    by (simp_all add: example_split_def shard_ids_def)
  have ch: "get_children_shards_ids example_split 4 = Some [8, 9]"
    by (simp add: layout_eval example_split_def)
  show ?thesis
    using layout_v2_parent_child [OF l sm c(1), of 4] layout_v2_parent_child [OF l sm c(2), of 4] ch
    by simp
qed

text \<open>
  C20: The account ranges of a layout with boundary accounts. An account belongs to the shard at
  index \<open>i\<close> exactly when it is not smaller than boundary \<open>i - 1\<close> and smaller than boundary \<open>i\<close>
  (where these exist); so every account belongs to exactly one shard of the layout.
\<close>

theorem account_shard_range:
  assumes "layout_inv l" and "boundary_accounts l = Some accounts" and "i < num_shards l"
  shows "account_id_to_shard_id h l a = Some (shard_ids l ! i) \<longleftrightarrow>
    (0 < i \<longrightarrow> accounts ! (i - 1) \<le> a) \<and> (i < length accounts \<longrightarrow> a < accounts ! i)"
proof -
  note base = layout_inv_boundary [OF assms(1,2)]
  have n: "num_shards l = length accounts + 1"
    using assms(2) base(3) by (cases l) (auto simp: num_shards_def shard_ids_def boundary_accounts_def)
  have "boundary_index accounts a < length (shard_ids l)"
    using boundary_index_le [of accounts a] base(3) by simp
  then have "account_id_to_shard_id h l a = Some (shard_ids l ! i) \<longleftrightarrow> boundary_index accounts a = i"
    using base(2,3,4) assms(3) n by (simp add: nth_eq_iff_index_eq)
  then show ?thesis using boundary_index_interval [OF base(1), of a i] assms(3) n by simp
qed

theorem account_shard_range_witness:
  "account_id_to_shard_id (\<lambda>_. []) example_base ''bob'' = Some 0 \<and>
   account_id_to_shard_id (\<lambda>_. []) example_base ''kkuuue'' \<noteq> Some 0"
proof -
  have n: "1 < num_shards example_base" by (simp add: example_base_fields)
  show ?thesis
    using account_shard_range [OF example_base_inv example_base_fields(1) n, of "\<lambda>_. []" "''bob''"]
      account_shard_range [OF example_base_inv example_base_fields(1) n, of "\<lambda>_. []" "''kkuuue''"]
    by (simp add: example_base_fields)
qed

text \<open>
  Shard ids and shard indexes are in bijection in every layout that satisfies the invariant:
  an index in range has an id that maps back to it, and an id of the layout has an index in range
  that maps back to it.
\<close>

theorem shard_index_id_bijection:
  assumes "layout_inv l"
  shows "(\<forall>i<num_shards l. \<exists>sid. get_shard_id l i = Inr sid \<and> sid \<in> set (shard_ids l) \<and>
      get_shard_index l sid = Inr i) \<and>
    (\<forall>sid\<in>set (shard_ids l). \<exists>i. get_shard_index l sid = Inr i \<and> i < num_shards l \<and>
      get_shard_id l i = Inr sid)"
  using layout_index_round_trip [OF assms] layout_id_round_trip [OF assms] by blast

theorem shard_index_id_bijection_witness:
  "\<exists>i. get_shard_index example_base 7 = Inr i \<and> i < num_shards example_base \<and>
    get_shard_id example_base i = Inr 7"
  using shard_index_id_bijection [OF example_base_inv] by (simp add: example_base_fields)

text \<open>
  Database keys of a shard. Every key is \<open>8\<close> bytes of shard uid followed by a suffix. The upper
  bound computed for a prefix is greater than every key with that prefix, and every key from the
  prefix up to the bound has that prefix, so a range scan visits exactly the keys of the shard. The
  computation panics only for the prefix of eight bytes 255.
\<close>

theorem upper_bound_db_key_tight:
  assumes "length prefix = 8"
  shows "(get_upper_bound_db_key prefix = None \<longleftrightarrow> prefix = replicate 8 255) \<and>
    (\<forall>ub key. get_upper_bound_db_key prefix = Some ub \<and> 8 \<le> length key \<longrightarrow>
       (prefix \<le> key \<and> key < ub \<longleftrightarrow> take 8 key = prefix))"
proof (intro conjI allI impI)
  have none: "bump_rev bs = None \<longleftrightarrow> bs = replicate (length bs) 255" for bs
    by (induction bs) auto
  show "get_upper_bound_db_key prefix = None \<longleftrightarrow> prefix = replicate 8 255"
    using none [of "rev prefix"] assms by (auto simp: get_upper_bound_db_key_def) (metis rev_replicate rev_rev_ident)
next
  fix ub key :: "byte list"
  assume "get_upper_bound_db_key prefix = Some ub \<and> 8 \<le> length key"
  then have ub: "bump_rev (rev prefix) = Some (rev ub)" and key: "8 \<le> length key"
    by (auto simp: get_upper_bound_db_key_def)
  from bump_rev_val [OF ub] have len: "length ub = 8" and val: "from_le_bytes (rev ub) = from_le_bytes (rev prefix) + 1"
    using assms by auto
  let ?p = "take 8 key"
  have lp: "length ?p = length prefix" "length ?p = length ub" using key assms len by auto
  have key_eq: "key = ?p @ drop 8 key" by simp
  have lt: "key < ub \<longleftrightarrow> ?p < ub" by (subst key_eq) (rule lex_append_less [OF lp(2)])
  have ge: "prefix \<le> key \<longleftrightarrow> prefix \<le> ?p"
    using lex_append_less [OF lp(1), of "drop 8 key"] by (simp add: not_less [symmetric])
  have "prefix \<le> ?p \<longleftrightarrow> from_le_bytes (rev prefix) \<le> from_le_bytes (rev ?p)"
    using lex_less_iff_val [OF lp(1)] by (simp add: not_less [symmetric])
  moreover have "?p < ub \<longleftrightarrow> from_le_bytes (rev ?p) < from_le_bytes (rev prefix) + 1"
    using lex_less_iff_val [OF lp(2)] val by simp
  ultimately have "prefix \<le> key \<and> key < ub \<longleftrightarrow> from_le_bytes (rev ?p) = from_le_bytes (rev prefix)"
    unfolding lt ge by auto
  also have "\<dots> \<longleftrightarrow> ?p = prefix"
    using from_le_bytes_inj [of "rev ?p" "rev prefix"] lp(1) by auto
  finally show "prefix \<le> key \<and> key < ub \<longleftrightarrow> take 8 key = prefix" .
qed

theorem upper_bound_db_key_tight_witness:
  "get_upper_bound_db_key [3, 0, 0, 0, 7, 0, 255, 255] = Some [3, 0, 0, 0, 7, 1, 0, 0] \<and>
   ([3, 0, 0, 0, 7, 0, 255, 255, 9] :: byte list) < [3, 0, 0, 0, 7, 1, 0, 0]"
proof -
  have len: "length ([3, 0, 0, 0, 7, 0, 255, 255] :: byte list) = 8" by simp
  have ub: "get_upper_bound_db_key [3, 0, 0, 0, 7, 0, 255, 255] = Some [3, 0, 0, 0, 7, 1, 0, 0]"
    by (simp add: get_upper_bound_db_key_def)
  have "8 \<le> length ([3, 0, 0, 0, 7, 0, 255, 255, 9] :: byte list)" by simp
  with upper_bound_db_key_tight [OF len] ub
  have "([3, 0, 0, 0, 7, 0, 255, 255, 9] :: byte list) < [3, 0, 0, 0, 7, 1, 0, 0] \<longleftrightarrow>
    take 8 ([3, 0, 0, 0, 7, 0, 255, 255, 9] :: byte list) = [3, 0, 0, 0, 7, 0, 255, 255]"
    by simp
  with ub show ?thesis by simp
qed

text \<open>
  The byte representation of a shard uid, alone and after a block hash, decodes to what was
  encoded, and decoding accepts exactly the byte strings of the right length.
\<close>

theorem shard_uid_bytes_round_trip:
  assumes "fits u32_w (uid_version u)" and "fits u32_w (uid_shard_id u)" and "length block_hash = 32"
  shows "shard_uid_try_from (shard_uid_to_bytes u) = Inr u \<and>
    get_block_shard_uid_rev (get_block_shard_uid block_hash u) = Inr (block_hash, u)"
proof -
  have "from_le_bytes (to_le_bytes 4 (uid_version u)) = uid_version u"
    "from_le_bytes (to_le_bytes 4 (uid_shard_id u)) = uid_shard_id u"
    using assms by (simp_all add: from_to_le_bytes fits_def)
  then have u: "shard_uid_try_from (shard_uid_to_bytes u) = Inr u"
    by (simp add: shard_uid_try_from_def shard_uid_to_bytes_def)
  then show ?thesis using assms(3)
    by (simp add: get_block_shard_uid_rev_def get_block_shard_uid_def shard_uid_to_bytes_def)
qed

theorem shard_uid_bytes_round_trip_witness:
  "shard_uid_try_from (shard_uid_to_bytes \<lparr> uid_version = 3, uid_shard_id = 77777 \<rparr>) =
     Inr \<lparr> uid_version = 3, uid_shard_id = 77777 \<rparr>"
  using shard_uid_bytes_round_trip [of "\<lparr> uid_version = 3, uid_shard_id = 77777 \<rparr>" "replicate 32 0"]
  by (simp add: fits_def)

end
