(* ===== verification/Bandwidth_Requests.thy ===== *)
theory Bandwidth_Requests
  imports Shard_Layout
begin

text \<open>
  Bandwidth requests between shards (\<open>core/primitives/src/bandwidth_scheduler.rs\<close>): the parameters
  of the scheduler, the table of values that can be requested, the request bitmap, and how a shard
  turns the sizes of its buffered receipts into a request. The bit access of the bitmap is done by
  an external crate; it is a parameter whose documented laws are the locale \<open>bit_slice\<close>.
\<close>

section \<open>Parameters\<close>

type_synonym bandwidth = nat

record scheduler_params =
  base_bandwidth :: bandwidth
  max_shard_bandwidth :: bandwidth
  max_single_grant :: bandwidth
  max_receipt_size :: bandwidth
  max_allowance :: bandwidth

definition calculate_params ::
    "bandwidth \<Rightarrow> bandwidth \<Rightarrow> bandwidth \<Rightarrow> bandwidth \<Rightarrow> bandwidth \<Rightarrow> nat \<Rightarrow> scheduler_params option"
where
  "calculate_params max_shard max_grant max_allow max_base max_receipt n =
     do {
       assert (max_receipt \<le> max_grant);
       assert (max_grant \<le> max_shard);
       available \<leftarrow> checked_sub max_shard max_grant;
       n1 \<leftarrow> checked_sub n 1;
       let base = available div max 1 n1;
       let base = (if max_base < base then max_base else base);
       Some \<lparr> base_bandwidth = base, max_shard_bandwidth = max_shard, max_single_grant = max_grant,
              max_receipt_size = max_receipt, max_allowance = max_allow \<rparr>
     }"

section \<open>The table of values\<close>

definition bandwidth_request_values_num :: nat where
  "bandwidth_request_values_num = 40"

definition interpolate :: "nat \<Rightarrow> nat \<Rightarrow> nat \<Rightarrow> nat \<Rightarrow> nat option" where
  "interpolate mn mx i n =
     do {
       d \<leftarrow> checked_sub mx mn;
       p \<leftarrow> checked_mul u64_w d i;
       q \<leftarrow> checked_div p n;
       checked_add u64_w mn q
     }"

definition bandwidth_request_values :: "scheduler_params \<Rightarrow> bandwidth list option" where
  "bandwidth_request_values params =
     those (map (\<lambda>i. interpolate (base_bandwidth params) (max_single_grant params) (i + 1)
                       bandwidth_request_values_num)
              [0..<bandwidth_request_values_num])"

section \<open>The request bitmap\<close>

definition bitmap_size :: nat where
  "bitmap_size = bandwidth_request_values_num div 8"

text \<open>
  The laws of bit access to a slice of bytes: reading a bit that was written, reading another bit,
  a zeroed slice has no bit set, and writing keeps the length.
\<close>

locale bit_slice =
  fixes bits_get :: "byte list \<Rightarrow> nat \<Rightarrow> bool"
    and bits_set :: "byte list \<Rightarrow> nat \<Rightarrow> bool \<Rightarrow> byte list"
  assumes get_set: "i < 8 * length d \<Longrightarrow> j < 8 * length d \<Longrightarrow>
      bits_get (bits_set d i b) j = (if j = i then b else bits_get d j)"
    and get_zero: "i < 8 * k \<Longrightarrow> \<not> bits_get (replicate k 0) i"
    and length_set: "length (bits_set d i b) = length d"

definition bitmap_new :: "byte list" where
  "bitmap_new = replicate bitmap_size 0"

definition bitmap_len :: nat where
  "bitmap_len = bandwidth_request_values_num"

definition bitmap_get_bit :: "(byte list \<Rightarrow> nat \<Rightarrow> bool) \<Rightarrow> byte list \<Rightarrow> nat \<Rightarrow> bool option" where
  "bitmap_get_bit bits_get d i = (if i < bitmap_len then Some (bits_get d i) else None)"

definition bitmap_set_bit ::
    "(byte list \<Rightarrow> nat \<Rightarrow> bool \<Rightarrow> byte list) \<Rightarrow> byte list \<Rightarrow> nat \<Rightarrow> bool \<Rightarrow> byte list option" where
  "bitmap_set_bit bits_set d i b = (if i < bitmap_len then Some (bits_set d i b) else None)"

definition is_all_zeros :: "byte list \<Rightarrow> bool" where
  "is_all_zeros d \<longleftrightarrow> d = replicate bitmap_size 0"

record bandwidth_request =
  to_shard :: nat
  requested_values_bitmap :: "byte list"

datatype bandwidth_requests = BandwidthRequestsV1 "bandwidth_request list"

definition bandwidth_requests_empty :: bandwidth_requests where
  "bandwidth_requests_empty = BandwidthRequestsV1 []"

section \<open>Requests from receipt sizes\<close>

text \<open>The inner loop: the first index, from the current one on, whose value covers the total.\<close>

function find_value_idx :: "bandwidth list \<Rightarrow> nat \<Rightarrow> nat \<Rightarrow> nat" where
  "find_value_idx vals idx tot =
     (if idx < length vals \<and> vals ! idx < tot then find_value_idx vals (idx + 1) tot else idx)"
  by pat_completeness auto
termination
  by (relation "measure (\<lambda>(vals, idx, _). length vals - idx)") auto

declare find_value_idx.simps [simp del]

text \<open>
  The loop over the receipt sizes; its state is the total so far, the current index and the
  bitmap. A size can be an error of the iterator, which ends the function. The value of the loop is
  \<open>None\<close> for a panic, \<open>Some (Inl e)\<close> for an error and \<open>Some (Inr bitmap)\<close> otherwise.
\<close>

fun receipt_sizes_loop ::
    "(byte list \<Rightarrow> nat \<Rightarrow> bool \<Rightarrow> byte list) \<Rightarrow> scheduler_params \<Rightarrow> bandwidth list \<Rightarrow>
     ('e + nat) list \<Rightarrow> nat \<Rightarrow> nat \<Rightarrow> byte list \<Rightarrow> ('e + byte list) option" where
  "receipt_sizes_loop bits_set params vals [] tot idx bm = Some (Inr bm)"
| "receipt_sizes_loop bits_set params vals (Inl e # rest) tot idx bm = Some (Inl e)"
| "receipt_sizes_loop bits_set params vals (Inr sz # rest) tot idx bm =
     (case checked_add u64_w tot sz of
        None \<Rightarrow> None
      | Some tot \<Rightarrow>
          if tot \<le> base_bandwidth params
          then receipt_sizes_loop bits_set params vals rest tot idx bm
          else
            (let idx = find_value_idx vals idx tot in
             if idx = length vals then Some (Inr bm)
             else case bitmap_set_bit bits_set bm idx True of
                    None \<Rightarrow> None
                  | Some bm \<Rightarrow> receipt_sizes_loop bits_set params vals rest tot idx bm))"

definition make_from_receipt_sizes ::
    "(byte list \<Rightarrow> nat \<Rightarrow> bool \<Rightarrow> byte list) \<Rightarrow> shard_id \<Rightarrow> ('e + nat) list \<Rightarrow> scheduler_params \<Rightarrow>
     ('e + bandwidth_request option) option" where
  "make_from_receipt_sizes bits_set shard sizes params =
     do {
       vals \<leftarrow> bandwidth_request_values params;
       r \<leftarrow> receipt_sizes_loop bits_set params vals sizes 0 0 bitmap_new;
       Some (rbind r (\<lambda>bm.
         if is_all_zeros bm then Inr None
         else Inr (Some \<lparr> to_shard = cast u16_w shard, requested_values_bitmap = bm \<rparr>)))
     }"

section \<open>Lemmas\<close>

definition params_ok :: "scheduler_params \<Rightarrow> bool" where
  "params_ok params \<longleftrightarrow>
     base_bandwidth params \<le> max_single_grant params \<and>
     max_single_grant params * bandwidth_request_values_num < 2 ^ 64"

lemma interpolate_Some:
  assumes "mn \<le> mx" and "mx * n < 2 ^ 64" and "0 < n" and "i \<le> n"
  shows "interpolate mn mx i n = Some (mn + (mx - mn) * i div n)" and "mn + (mx - mn) * i div n \<le> mx"
proof -
  have le: "(mx - mn) * i div n \<le> mx - mn"
    using assms(3,4) by (metis div_le_mono div_mult_self_is_m mult_le_mono2)
  then show bound: "mn + (mx - mn) * i div n \<le> mx" using assms(1) by simp
  have "(mx - mn) * i \<le> mx * n" using assms(4) by (intro mult_le_mono) auto
  then have mul: "(mx - mn) * i < 2 ^ 64" using assms(2) by simp
  have "mx \<le> mx * n" using assms(3) by simp
  then have "mx < 2 ^ 64" using assms(2) by (rule le_less_trans)
  then have "mn + (mx - mn) * i div n < 2 ^ 64" using bound by simp
  then show "interpolate mn mx i n = Some (mn + (mx - mn) * i div n)"
    using assms(1,3) mul by (simp add: interpolate_def checked_sub_def checked_mul_def checked_div_def checked_add_def)
qed

lemma bitmap_new_eq: "bitmap_new = replicate 5 0"
  by (simp add: bitmap_new_def bitmap_size_def bandwidth_request_values_num_def)

definition value_at :: "scheduler_params \<Rightarrow> nat \<Rightarrow> nat" where
  "value_at params i =
     base_bandwidth params + (max_single_grant params - base_bandwidth params) * (i + 1) div 40"

definition value_table :: "scheduler_params \<Rightarrow> bandwidth list" where
  "value_table params = map (value_at params) [0..<40]"

lemma length_value_table [simp]: "length (value_table params) = 40"
  by (simp add: value_table_def)

lemma nth_value_table [simp]: "i < 40 \<Longrightarrow> value_table params ! i = value_at params i"
  by (simp add: value_table_def del: upt_rec_numeral)

lemma bandwidth_request_values_Some:
  assumes "params_ok params"
  shows "bandwidth_request_values params = Some (value_table params)"
proof -
  have "interpolate (base_bandwidth params) (max_single_grant params) (i + 1) 40 = Some (value_at params i)"
    if "i < 40" for i
    using assms that interpolate_Some(1) [of "base_bandwidth params" "max_single_grant params" 40 "i + 1"]
    by (simp add: params_ok_def bandwidth_request_values_num_def value_at_def)
  then show ?thesis
    unfolding bandwidth_request_values_def bandwidth_request_values_num_def value_table_def
    by (intro those_map_Some) simp
qed

lemma value_at_mono: "i \<le> j \<Longrightarrow> value_at params i \<le> value_at params j"
  unfolding value_at_def by (intro add_left_mono div_le_mono mult_le_mono2) simp

lemma value_at_bounds:
  assumes "params_ok params" and "i < 40"
  shows "base_bandwidth params \<le> value_at params i" and "value_at params i \<le> max_single_grant params"
  using assms interpolate_Some(2) [of "base_bandwidth params" "max_single_grant params" 40 "i + 1"]
  by (simp_all add: value_at_def params_ok_def bandwidth_request_values_num_def)


lemma find_value_idx_spec:
  assumes "idx \<le> length vals"
  shows "idx \<le> find_value_idx vals idx tot \<and> find_value_idx vals idx tot \<le> length vals \<and>
    (\<forall>j. idx \<le> j \<and> j < find_value_idx vals idx tot \<longrightarrow> vals ! j < tot) \<and>
    (find_value_idx vals idx tot < length vals \<longrightarrow> tot \<le> vals ! find_value_idx vals idx tot)"
  using assms
proof (induction vals idx tot rule: find_value_idx.induct)
  case (1 vals idx tot)
  show ?case
  proof (cases "idx < length vals \<and> vals ! idx < tot")
    case True
    with "1.IH" have IH: "idx + 1 \<le> find_value_idx vals (idx + 1) tot \<and>
        find_value_idx vals (idx + 1) tot \<le> length vals \<and>
        (\<forall>j. idx + 1 \<le> j \<and> j < find_value_idx vals (idx + 1) tot \<longrightarrow> vals ! j < tot) \<and>
        (find_value_idx vals (idx + 1) tot < length vals \<longrightarrow>
           tot \<le> vals ! find_value_idx vals (idx + 1) tot)" by simp
    have "vals ! j < tot" if "idx \<le> j" "j < find_value_idx vals (idx + 1) tot" for j
      using that True IH by (cases "j = idx") auto
    with True IH show ?thesis by (simp add: find_value_idx.simps [of vals idx tot])
  next
    case False
    with "1.prems" show ?thesis by (auto simp: find_value_idx.simps [of vals idx tot])
  qed
qed

text \<open>The table entry a total needs: the first one that is at least as large.\<close>

definition covering_value :: "scheduler_params \<Rightarrow> nat \<Rightarrow> nat \<Rightarrow> bool" where
  "covering_value params tot i \<longleftrightarrow>
     i < 40 \<and> tot \<le> value_at params i \<and> (\<forall>j<i. value_at params j < tot)"

lemma covering_value_unique: "covering_value params tot i \<Longrightarrow> covering_value params tot j \<Longrightarrow> i = j"
  by (auto simp: covering_value_def) (metis linorder_cases not_less)

lemma find_value_idx_covers:
  assumes "idx \<le> 40" and "\<forall>j<idx. value_at params j < tot"
  defines "r \<equiv> find_value_idx (value_table params) idx tot"
  shows "r \<le> 40" and "\<forall>j<r. value_at params j < tot" and "covering_value params tot i \<longleftrightarrow> r < 40 \<and> i = r"
proof -
  let ?vals = "value_table params"
  have sp: "idx \<le> r" "r \<le> 40" "\<forall>j. idx \<le> j \<and> j < r \<longrightarrow> ?vals ! j < tot" "r < 40 \<longrightarrow> tot \<le> ?vals ! r"
    using find_value_idx_spec [of idx ?vals tot] assms(1) by (auto simp: r_def)
  show "r \<le> 40" by (rule sp(2))
  show below: "\<forall>j<r. value_at params j < tot"
  proof (intro allI impI)
    fix j assume j: "j < r"
    then have j40: "j < 40" using sp(2) by simp
    show "value_at params j < tot"
    proof (cases "j < idx")
      case True
      then show ?thesis using assms(2) by simp
    next
      case False
      then show ?thesis using sp(3) [rule_format, of j] j nth_value_table [OF j40, of params] by simp
    qed
  qed
  show "covering_value params tot i \<longleftrightarrow> r < 40 \<and> i = r"
  proof
    assume c: "covering_value params tot i"
    have "\<not> i < r" using below c by (auto simp: covering_value_def not_less)
    moreover have "\<not> r < i" using c sp(4) by (auto simp: covering_value_def)
    ultimately show "r < 40 \<and> i = r" using c by (auto simp: covering_value_def)
  next
    assume "r < 40 \<and> i = r"
    then show "covering_value params tot i" using sp(4) below by (simp add: covering_value_def)
  qed
qed

text \<open>The table entries that the totals after each receipt need.\<close>

definition prefix_covered :: "scheduler_params \<Rightarrow> nat \<Rightarrow> nat list \<Rightarrow> nat \<Rightarrow> bool" where
  "prefix_covered params tot sizes i \<longleftrightarrow>
     (\<exists>k\<in>{1..length sizes}. base_bandwidth params < tot + sum_list (take k sizes) \<and>
        covering_value params (tot + sum_list (take k sizes)) i)"

lemma prefix_covered_Nil [simp]: "\<not> prefix_covered params tot [] i"
  by (simp add: prefix_covered_def)

lemma prefix_covered_Cons:
  "prefix_covered params tot (sz # sizes) i \<longleftrightarrow>
     base_bandwidth params < tot + sz \<and> covering_value params (tot + sz) i \<or>
     prefix_covered params (tot + sz) sizes i"
proof -
  have "{1..length (sz # sizes)} = insert 1 (Suc ` {1..length sizes})"
    by (auto simp: image_Suc_atLeastAtMost)
  then show ?thesis
    unfolding prefix_covered_def by (simp del: image_Suc_atLeastAtMost add: add.assoc)
qed

lemma prefix_covered_above:
  assumes "\<forall>j<40. value_at params j < tot"
  shows "\<not> prefix_covered params tot sizes i"
proof
  assume "prefix_covered params tot sizes i"
  then obtain k where "covering_value params (tot + sum_list (take k sizes)) i"
    by (auto simp: prefix_covered_def)
  then have "i < 40" "tot \<le> value_at params i" by (auto simp: covering_value_def)
  with assms show False by (meson not_less)
qed

lemma receipt_sizes_loop_unset:
  assumes "\<forall>i<40. \<not> prefix_covered params t sizes i" and "idx \<le> 40" and "\<forall>j<idx. value_at params j < t"
  shows "receipt_sizes_loop bits_set params (value_table params) (map Inr sizes) t idx bm
    \<in> {None, Some (Inr bm)}"
  using assms
proof (induction sizes arbitrary: t idx)
  case Nil
  then show ?case by simp
next
  case (Cons sz sizes)
  let ?r = "find_value_idx (value_table params) idx (t + sz)"
  have below: "\<forall>j<idx. value_at params j < t + sz" using Cons.prems(3) by (simp add: trans_less_add1)
  note r = find_value_idx_covers [OF Cons.prems(2) below]
  have rest: "\<forall>i<40. \<not> prefix_covered params (t + sz) sizes i"
    using Cons.prems(1) by (simp add: prefix_covered_Cons)
  have here: "\<not> (base_bandwidth params < t + sz \<and> covering_value params (t + sz) i)" for i
    using Cons.prems(1) by (auto simp: prefix_covered_Cons covering_value_def)
  show ?case
  proof (cases "t + sz \<le> base_bandwidth params")
    case True
    with Cons.IH [OF rest Cons.prems(2) below] show ?thesis by (simp add: checked_add_def)
  next
    case False
    then have "\<not> ?r < 40" using here r(3) by auto
    with r(1) have "?r = 40" by simp
    with False show ?thesis by (simp add: checked_add_def)
  qed
qed

context bit_slice
begin

lemma receipt_sizes_loop_bits:
  assumes "length bm = 5" and "idx \<le> 40" and "\<forall>j<idx. value_at params j < tot"
    and "tot + sum_list sizes < 2 ^ 64"
  shows "\<exists>bm'. receipt_sizes_loop bits_set params (value_table params) (map Inr sizes) tot idx bm
      = Some (Inr bm') \<and> length bm' = 5 \<and>
    (\<forall>i<40. bits_get bm' i \<longleftrightarrow> bits_get bm i \<or> prefix_covered params tot sizes i)"
  using assms
proof (induction sizes arbitrary: tot idx bm)
  case Nil
  then show ?case by simp
next
  case (Cons sz sizes)
  let ?t = "tot + sz"
  let ?r = "find_value_idx (value_table params) idx ?t"
  have add: "checked_add u64_w tot sz = Some ?t" using Cons.prems(4) by (simp add: checked_add_def)
  have lt: "?t + sum_list sizes < 2 ^ 64" using Cons.prems(4) by (simp add: add.assoc)
  have below: "\<forall>j<idx. value_at params j < ?t" using Cons.prems(3) by (simp add: trans_less_add1)
  note r = find_value_idx_covers [OF Cons.prems(2) below]
  consider "?t \<le> base_bandwidth params" | "base_bandwidth params < ?t" "?r = 40"
    | "base_bandwidth params < ?t" "?r < 40" using r(1) by linarith
  then show ?case
  proof cases
    case 1
    from Cons.IH [OF Cons.prems(1,2) below lt] 1 show ?thesis by (auto simp: add prefix_covered_Cons)
  next
    case 2
    have "\<not> prefix_covered params ?t sizes i" for i
      using prefix_covered_above r(2) 2(2) by simp
    with 2 r(3) Cons.prems(1) show ?thesis by (simp add: add prefix_covered_Cons)
  next
    case 3
    let ?bm = "bits_set bm ?r True"
    have len: "length ?bm = 5" using Cons.prems(1) by (simp add: length_set)
    have bits: "bits_get ?bm i \<longleftrightarrow> bits_get bm i \<or> i = ?r" if "i < 40" for i
      using that 3(2) Cons.prems(1) by (simp add: get_set)
    from Cons.IH [OF len r(1) r(2) lt] 3 show ?thesis
      by (auto simp: add bitmap_set_bit_def bitmap_len_def bandwidth_request_values_num_def
          prefix_covered_Cons r(3) bits)
  qed
qed

end

section \<open>The bit order of the sources\<close>

text \<open>
  The sources use the \<open>Lsb0\<close> order: bit \<open>i\<close> of the slice is bit \<open>i mod 8\<close>, from the least
  significant one, of byte \<open>i div 8\<close>.
\<close>

definition lsb0_get :: "byte list \<Rightarrow> nat \<Rightarrow> bool" where
  "lsb0_get d i = bit (d ! (i div 8)) (i mod 8)"

definition lsb0_set :: "byte list \<Rightarrow> nat \<Rightarrow> bool \<Rightarrow> byte list" where
  "lsb0_set d i b =
     d[i div 8 := (if b then Bit_Operations.set_bit (i mod 8) (d ! (i div 8))
                   else Bit_Operations.unset_bit (i mod 8) (d ! (i div 8)))]"

lemma bit_set_bit_byte:
  fixes w :: byte
  assumes "j < 8"
  shows "bit (Bit_Operations.set_bit i w) j \<longleftrightarrow> j = i \<or> bit w j"
  unfolding bit_set_bit_iff using assms by (simp add: possible_bit_word) blast

lemma bit_unset_bit_byte:
  fixes w :: byte
  shows "bit (Bit_Operations.unset_bit i w) j \<longleftrightarrow> j \<noteq> i \<and> bit w j"
  unfolding bit_unset_bit_iff by blast

lemma same_byte: assumes "i div 8 = j div (8::nat)" shows "j mod 8 = i mod 8 \<longleftrightarrow> j = i"
  using assms by (metis div_mult_mod_eq)

lemma lsb0_get_set: 
  assumes "i < 8 * length d" 
  shows "lsb0_get (lsb0_set d i b) j = (if j = i then b else lsb0_get d j)"
proof (cases "i div 8 = j div 8")
  case True
    let ?w = "d ! (i div 8)"
    have lt: "i div 8 < length d" using assms by simp
  have lt': "j mod 8 < 8" by simp
  have get: "lsb0_get (lsb0_set d i b) j = bit (if b then Bit_Operations.set_bit (i mod 8) ?w
        else Bit_Operations.unset_bit (i mod 8) ?w) (j mod 8)"
    unfolding lsb0_get_def lsb0_set_def True [symmetric] nth_list_update_eq [OF lt] by (rule refl)
  have old: "lsb0_get d j = bit ?w (j mod 8)" by (simp only: lsb0_get_def True)
  show ?thesis
  proof (cases b)
    case True
    then show ?thesis
      unfolding get old if_P [OF True] bit_set_bit_byte [OF lt'] same_byte [OF \<open>i div 8 = j div 8\<close>] by argo
  next
    case False
    then show ?thesis
      unfolding get old if_not_P [OF False] bit_unset_bit_byte same_byte [OF \<open>i div 8 = j div 8\<close>] by argo
  qed
next
  case False
  then show ?thesis by (auto simp: lsb0_get_def lsb0_set_def)
qed

interpretation lsb0: bit_slice lsb0_get lsb0_set
proof
  show "lsb0_get (lsb0_set d i b) j = (if j = i then b else lsb0_get d j)"
    if "i < 8 * length d" "j < 8 * length d" for d i j b
    by (rule lsb0_get_set [OF that(1)])
  show "\<not> lsb0_get (replicate k 0) i" if "i < 8 * k" for i k
    using that by (simp add: lsb0_get_def)
  show "length (lsb0_set d i b) = length d" for d i b by (simp add: lsb0_set_def)
qed

section \<open>Properties\<close>

text \<open>
  C21: The scheduler parameters leave room for one maximal grant. Whenever the parameters are
  computed without panic, granting \<open>max_single_grant\<close> on one link and \<open>base_bandwidth\<close> on all the
  other links of a shard stays within \<open>max_shard_bandwidth\<close>, and a receipt of maximal size fits
  into a single grant.
\<close>

theorem calculate_params_budget:
  assumes "calculate_params max_shard max_grant max_allow max_base max_receipt n = Some params"
  shows "base_bandwidth params * (n - 1) + max_single_grant params \<le> max_shard_bandwidth params \<and>
    max_receipt_size params \<le> max_single_grant params \<and> base_bandwidth params \<le> max_base"
proof -
  let ?base = "(max_shard - max_grant) div max 1 (n - 1)"
  have p: "max_receipt \<le> max_grant" "max_grant \<le> max_shard" "1 \<le> n"
    and params: "base_bandwidth params = min ?base max_base" "max_shard_bandwidth params = max_shard"
      "max_single_grant params = max_grant" "max_receipt_size params = max_receipt"
    using assms by (auto simp: calculate_params_def bind_eq_Some_conv checked_sub_Some Let_def min_def)
  have "base_bandwidth params * (n - 1) \<le> ?base * max 1 (n - 1)"
    unfolding params by (intro mult_le_mono) auto
  also have "\<dots> \<le> max_shard - max_grant" by simp
  finally have "base_bandwidth params * (n - 1) + max_grant \<le> max_shard" using p(2) by linarith
  then show ?thesis using p params by simp
qed

theorem calculate_params_budget_witness:
  "calculate_params 4500000 4194304 4500000 100000 4194304 6 =
     Some \<lparr> base_bandwidth = 61139, max_shard_bandwidth = 4500000, max_single_grant = 4194304,
            max_receipt_size = 4194304, max_allowance = 4500000 \<rparr> \<and>
   61139 * (6 - 1) + 4194304 \<le> (4500000 :: nat)"
proof -
  have c: "calculate_params 4500000 4194304 4500000 100000 4194304 6 =
     Some \<lparr> base_bandwidth = 61139, max_shard_bandwidth = 4500000, max_single_grant = 4194304,
            max_receipt_size = 4194304, max_allowance = 4500000 \<rparr>"
    by (simp add: calculate_params_def checked_sub_def)
  from calculate_params_budget [OF c] c show ?thesis by simp
qed

text \<open>
  C15: A request asks for exactly what the buffered receipts need. For receipt sizes whose sum fits
  into 64 bits, \<open>make_from_receipt_sizes\<close> does not panic; bit \<open>i\<close> of the resulting bitmap is set
  exactly when, for the total size of some prefix of the receipts that is above the base
  bandwidth, value \<open>i\<close> of the table is the first one that is at least that total; and there is no
  request exactly when no such bit exists.
\<close>

theorem make_request_requests_prefixes:
  assumes "bit_slice bits_get bits_set" and "params_ok params" and "sum_list sizes < 2 ^ 64"
  shows "\<exists>r. make_from_receipt_sizes bits_set shard (map Inr sizes :: ('e + nat) list) params = Some (Inr r) \<and>
    (r = None \<longleftrightarrow> (\<forall>i<40. \<not> prefix_covered params 0 sizes i)) \<and>
    (\<forall>q. r = Some q \<longrightarrow> to_shard q = shard mod 2 ^ 16 \<and>
       (\<forall>i<40. bits_get (requested_values_bitmap q) i \<longleftrightarrow> prefix_covered params 0 sizes i))"
proof -
  have pre: "length bitmap_new = 5" "(0 :: nat) \<le> 40" "\<forall>j<0. value_at params j < 0"
    "0 + sum_list sizes < 2 ^ 64"
    using assms(3) by (simp_all add: bitmap_new_eq)
  obtain bm where bm: "receipt_sizes_loop bits_set params (value_table params)
      (map Inr sizes :: ('e + nat) list) 0 0 bitmap_new = Some (Inr bm)" "length bm = 5"
    and bits: "\<forall>i<40. bits_get bm i \<longleftrightarrow> bits_get bitmap_new i \<or> prefix_covered params 0 sizes i"
    using bit_slice.receipt_sizes_loop_bits [OF assms(1) pre] by blast
  have zero: "\<not> bits_get bitmap_new i" if "i < 40" for i
    using bit_slice.get_zero [OF assms(1), of i 5] that unfolding bitmap_new_eq by linarith
  have bits': "\<forall>i<40. bits_get bm i \<longleftrightarrow> prefix_covered params 0 sizes i" using bits zero by simp
  have unset: "bm = bitmap_new \<longleftrightarrow> (\<forall>i<40. \<not> prefix_covered params 0 sizes i)"
  proof
    assume "bm = bitmap_new"
    then show "\<forall>i<40. \<not> prefix_covered params 0 sizes i" using bits' zero by simp
  next
    assume none: "\<forall>i<40. \<not> prefix_covered params 0 sizes i"
    have "receipt_sizes_loop bits_set params (value_table params)
        (map Inr sizes :: ('e + nat) list) 0 0 bitmap_new \<in> {None, Some (Inr bitmap_new)}"
      by (rule receipt_sizes_loop_unset [OF none]) auto
    then show "bm = bitmap_new" unfolding bm(1) by simp
  qed
  let ?r = "if bm = bitmap_new then None else Some \<lparr> to_shard = cast u16_w shard, requested_values_bitmap = bm \<rparr>"
  have A: "make_from_receipt_sizes bits_set shard (map Inr sizes :: ('e + nat) list) params = Some (Inr ?r)"
    using bm(1) by (simp add: make_from_receipt_sizes_def bandwidth_request_values_Some [OF assms(2)]
        is_all_zeros_def bitmap_new_def [symmetric])
  have B: "?r = None \<longleftrightarrow> (\<forall>i<40. \<not> prefix_covered params 0 sizes i)"
    unfolding unset [symmetric] by simp
  have C: "to_shard q = shard mod 2 ^ 16 \<and>
      (\<forall>i<40. bits_get (requested_values_bitmap q) i \<longleftrightarrow> prefix_covered params 0 sizes i)" if "?r = Some q" for q
  proof -
    have "q = \<lparr> to_shard = cast u16_w shard, requested_values_bitmap = bm \<rparr>"
      using that by (simp split: if_splits)
    then show ?thesis using bits' by (simp add: cast_def)
  qed
  show ?thesis
  proof (intro exI conjI)
    show "\<forall>q. ?r = Some q \<longrightarrow> to_shard q = shard mod 2 ^ 16 \<and>
       (\<forall>i<40. bits_get (requested_values_bitmap q) i \<longleftrightarrow> prefix_covered params 0 sizes i)"
      by (intro allI impI) (rule C)
  qed (rule A, rule B)
qed

definition example_params :: scheduler_params where
  "example_params = \<lparr> base_bandwidth = 100, max_shard_bandwidth = 1000, max_single_grant = 500,
                      max_receipt_size = 400, max_allowance = 1000 \<rparr>"

lemma example_params_ok: "params_ok example_params"
  by (simp add: params_ok_def example_params_def bandwidth_request_values_num_def)

theorem make_request_requests_prefixes_witness:
  "\<exists>q. make_from_receipt_sizes lsb0_set 7 (map Inr [60, 60, 300] :: (unit + nat) list) example_params
      = Some (Inr (Some q)) \<and> to_shard q = 7 \<and> lsb0_get (requested_values_bitmap q) 1 \<and>
      \<not> lsb0_get (requested_values_bitmap q) 0"
proof -
  have s: "sum_list [60, 60, 300 :: nat] < 2 ^ 64" by simp
  have k: "{1..length [60, 60, 300 :: nat]} = {1, 2, 3}" by auto
  have j: "(\<forall>j<Suc 0. P j) \<longleftrightarrow> P 0" for P by auto
  have c: "prefix_covered example_params 0 [60, 60, 300] 1"
    unfolding prefix_covered_def k by (simp add: covering_value_def value_at_def example_params_def j numeral_2_eq_2)
  have n: "\<not> prefix_covered example_params 0 [60, 60, 300] 0"
    unfolding prefix_covered_def k by (simp add: covering_value_def value_at_def example_params_def numeral_2_eq_2 numeral_3_eq_3)
  obtain r where r: "make_from_receipt_sizes lsb0_set 7 (map Inr [60, 60, 300] :: (unit + nat) list) example_params = Some (Inr r)"
    "r = None \<longleftrightarrow> (\<forall>i<40. \<not> prefix_covered example_params 0 [60, 60, 300] i)"
    "\<forall>q. r = Some q \<longrightarrow> to_shard q = 7 mod 2 ^ 16 \<and>
       (\<forall>i<40. lsb0_get (requested_values_bitmap q) i \<longleftrightarrow> prefix_covered example_params 0 [60, 60, 300] i)"
    using make_request_requests_prefixes [OF lsb0.bit_slice_axioms example_params_ok s,
      where shard = 7 and ?'e = unit] by blast
  have "r \<noteq> None" using r(2) c by auto
  then obtain q where q: "r = Some q" by auto
  show ?thesis using r(1) r(3) [rule_format, OF q] c n unfolding q by (intro exI [of _ q]) simp
qed

end
