(* ===== verification/Bandwidth_Maps.thy ===== *)
theory Bandwidth_Maps
  imports Bandwidth_Requests
begin

text \<open>
  The array-backed maps of the bandwidth scheduler (\<open>ShardIndexMap\<close> and \<open>ShardLinkMap\<close> of
  \<open>runtime/runtime/src/bandwidth_scheduler/scheduler.rs\<close>). Access out of range panics. What their
  clients rely on is the locale \<open>indexed_store\<close>, interpreted for both maps.
\<close>

section \<open>The maps\<close>

datatype shard_link = ShardLink (link_sender: shard_index) (link_receiver: shard_index)

type_synonym 'a shard_index_map = "'a option list"

definition sim_new :: "shard_layout \<Rightarrow> 'a shard_index_map" where
  "sim_new l = replicate (num_shards l) None"

definition sim_get :: "'a shard_index_map \<Rightarrow> shard_index \<Rightarrow> 'a option option" where
  "sim_get m i = vec_get m i"

definition sim_insert :: "'a shard_index_map \<Rightarrow> shard_index \<Rightarrow> 'a \<Rightarrow> 'a shard_index_map option" where
  "sim_insert m i v = vec_set m i (Some v)"

record 'a shard_link_map =
  slm_data :: "'a option list"
  slm_num_indexes :: nat

definition slm_new :: "shard_layout \<Rightarrow> 'a shard_link_map option" where
  "slm_new l =
     do {
       len \<leftarrow> checked_mul u64_w (num_shards l) (num_shards l);
       Some \<lparr> slm_data = replicate len None, slm_num_indexes = num_shards l \<rparr>
     }"

text \<open>The debug assertions of this function are off in the release profile.\<close>

definition data_index_for_link :: "'a shard_link_map \<Rightarrow> shard_link \<Rightarrow> nat option" where
  "data_index_for_link m link =
     do {
       p \<leftarrow> checked_mul u64_w (link_sender link) (slm_num_indexes m);
       checked_add u64_w p (link_receiver link)
     }"

definition slm_get :: "'a shard_link_map \<Rightarrow> shard_link \<Rightarrow> 'a option option" where
  "slm_get m link = do { i \<leftarrow> data_index_for_link m link; vec_get (slm_data m) i }"

definition slm_insert :: "'a shard_link_map \<Rightarrow> shard_link \<Rightarrow> 'a \<Rightarrow> 'a shard_link_map option" where
  "slm_insert m link v =
     do {
       i \<leftarrow> data_index_for_link m link;
       d \<leftarrow> vec_set (slm_data m) i (Some v);
       Some (m\<lparr>slm_data := d\<rparr>)
     }"

definition links :: "nat \<Rightarrow> shard_link list" where
  "links n = concat (map (\<lambda>s. map (ShardLink s) [0..<n]) [0..<n])"

lemma set_links: "set (links n) = {ShardLink s r |s r. s < n \<and> r < n}"
  by (auto simp: links_def)

lemma distinct_links: "distinct (links n)"
proof -
  have "distinct (map (\<lambda>s. map (ShardLink s) [0..<n]) [0..<n])"
    by (auto simp: distinct_conv_nth intro!: exI [of _ 0] dest!: arg_cong [of _ _ "\<lambda>xs. xs ! 0"])
  then show ?thesis
    unfolding links_def by (rule distinct_concat) (auto simp: distinct_map inj_on_def)
qed

section \<open>The interface\<close>

text \<open>
  A store over the keys in \<open>D\<close>: on well-formed stores and keys in range, reading and writing do not
  panic, and reading returns what was written last.
\<close>

locale indexed_store =
  fixes D :: "'k set"
    and get :: "'m \<Rightarrow> 'k \<Rightarrow> 'v option option"
    and ins :: "'m \<Rightarrow> 'k \<Rightarrow> 'v \<Rightarrow> 'm option"
    and view :: "'m \<Rightarrow> 'k \<Rightarrow> 'v option"
    and wf :: "'m \<Rightarrow> bool"
  assumes get_view: "wf m \<Longrightarrow> k \<in> D \<Longrightarrow> get m k = Some (view m k)"
    and ins_ok: "wf m \<Longrightarrow> k \<in> D \<Longrightarrow> \<exists>m'. ins m k v = Some m' \<and> wf m' \<and>
      (\<forall>k'\<in>D. view m' k' = (if k' = k then Some v else view m k'))"
begin

lemma ins_cases:
  assumes "wf m" and "k \<in> D"
  obtains m' where "ins m k v = Some m'" "wf m'"
    "\<And>k'. k' \<in> D \<Longrightarrow> view m' k' = (if k' = k then Some v else view m k')"
  using ins_ok [OF assms, of v] by blast

text \<open>A loop that writes \<open>f k\<close> at every key of a list.\<close>

lemma fill_ok:
  assumes "wf m" and "set ks \<subseteq> D"
  shows "\<exists>m'. fold_opt (\<lambda>k m. ins m k (f k)) ks m = Some m' \<and> wf m' \<and>
    (\<forall>k\<in>D. view m' k = (if k \<in> set ks then Some (f k) else view m k))"
  using assms
proof (induction ks arbitrary: m)
  case Nil
  then show ?case by simp
next
  case (Cons k ks)
  obtain m1 where m1: "ins m k (f k) = Some m1" "wf m1"
      "\<And>k'. k' \<in> D \<Longrightarrow> view m1 k' = (if k' = k then Some (f k) else view m k')"
    using ins_cases [of m k "f k"] Cons.prems by auto
  obtain m2 where "fold_opt (\<lambda>k m. ins m k (f k)) ks m1 = Some m2" "wf m2"
      "\<forall>k\<in>D. view m2 k = (if k \<in> set ks then Some (f k) else view m1 k)"
    using Cons.IH [OF m1(2)] Cons.prems(2) by auto
  with m1 show ?case by auto
qed

end

section \<open>The two stores\<close>

definition sim_view :: "'a shard_index_map \<Rightarrow> shard_index \<Rightarrow> 'a option" where
  "sim_view m i = (if i < length m then m ! i else None)"

definition slm_view :: "'a shard_link_map \<Rightarrow> shard_link \<Rightarrow> 'a option" where
  "slm_view m l = slm_data m ! (link_sender l * slm_num_indexes m + link_receiver l)"

definition slm_wf :: "nat \<Rightarrow> 'a shard_link_map \<Rightarrow> bool" where
  "slm_wf n m \<longleftrightarrow> slm_num_indexes m = n \<and> length (slm_data m) = n * n \<and> n * n < 2 ^ 64"

interpretation sim: indexed_store "{..<n}" sim_get sim_insert sim_view "\<lambda>m. length m = n" for n
  by unfold_locales (auto simp: sim_get_def sim_insert_def sim_view_def)

lemma link_index_lt: "s < n \<Longrightarrow> r < n \<Longrightarrow> s * n + r < n * (n :: nat)"
proof -
  assume "s < n" "r < n"
  then have "s * n + r < (s + 1) * n" by simp
  also have "\<dots> \<le> n * n" using \<open>s < n\<close> by (intro mult_le_mono1) simp
  finally show ?thesis .
qed

lemma link_index_inj:
  "s < n \<Longrightarrow> r < n \<Longrightarrow> s' < n \<Longrightarrow> r' < n \<Longrightarrow> s * n + r = s' * n + r' \<longleftrightarrow> s = s' \<and> r = (r' :: nat)"
proof
  assume lt: "r < n" "r' < n" and eq: "s * n + r = s' * n + r'"
  have "(s * n + r) div n = s" "(s' * n + r') div n = s'" using lt by simp_all
  then have "s = s'" using eq by metis
  with eq show "s = s' \<and> r = r'" by simp
qed simp

lemma data_index_ok:
  assumes "slm_wf n m" and "link_sender l < n" and "link_receiver l < n"
  shows "data_index_for_link m l = Some (link_sender l * n + link_receiver l)"
    and "link_sender l * n + link_receiver l < length (slm_data m)"
proof -
  have lt: "link_sender l * n + link_receiver l < n * n" by (rule link_index_lt [OF assms(2,3)])
  then show "link_sender l * n + link_receiver l < length (slm_data m)" using assms(1) by (simp add: slm_wf_def)
  show "data_index_for_link m l = Some (link_sender l * n + link_receiver l)"
    using lt assms(1) by (simp add: data_index_for_link_def checked_mul_def checked_add_def slm_wf_def)
qed

abbreviation in_range :: "nat \<Rightarrow> shard_link set" where
  "in_range n \<equiv> {l. link_sender l < n \<and> link_receiver l < n}"

interpretation slm: indexed_store "in_range n" slm_get slm_insert slm_view "slm_wf n" for n
proof unfold_locales
  fix m :: "'a shard_link_map" and k v
  assume m: "slm_wf n m" and k: "k \<in> in_range n"
  then have r: "link_sender k < n" "link_receiver k < n" by auto
  note idx = data_index_ok [OF m r]
  show "slm_get m k = Some (slm_view m k)"
    using idx m by (simp add: slm_get_def slm_view_def slm_wf_def)
  let ?i = "link_sender k * n + link_receiver k"
  let ?m = "m\<lparr>slm_data := (slm_data m)[?i := Some v]\<rparr>"
  have "slm_view ?m k' = (if k' = k then Some v else slm_view m k')" if "k' \<in> in_range n" for k'
  proof -
    have "link_sender k' * n + link_receiver k' = ?i \<longleftrightarrow> k' = k"
      using that r link_index_inj [of "link_sender k'" n "link_receiver k'"] by (auto simp: shard_link.expand)
    then show ?thesis using m idx(2) by (auto simp: slm_view_def slm_wf_def)
  qed
  moreover have "slm_insert m k v = Some ?m" using idx by (simp add: slm_insert_def)
  moreover have "slm_wf n ?m" using m by (simp add: slm_wf_def)
  ultimately show "\<exists>m'. slm_insert m k v = Some m' \<and> slm_wf n m' \<and>
      (\<forall>k'\<in>in_range n. slm_view m' k' = (if k' = k then Some v else slm_view m k'))" by blast
qed

lemma sim_new_length: "length (sim_new l) = num_shards l"
  by (simp add: sim_new_def)

lemma sim_new_view: "sim_view (sim_new l) i = None"
  by (simp add: sim_view_def sim_new_def)

lemma slm_new_ok:
  assumes "num_shards l * num_shards l < 2 ^ 64"
  shows "\<exists>m. slm_new l = Some m \<and> slm_wf (num_shards l) m \<and>
    (\<forall>k\<in>in_range (num_shards l). slm_view m k = None)"
  using assms link_index_lt by (auto simp: slm_new_def checked_mul_def slm_wf_def slm_view_def)

end
