(* ===== verification/Bandwidth_Distribute.thy ===== *)
theory Bandwidth_Distribute
  imports Bandwidth_Maps
begin

text \<open>
  The distribution of the bandwidth left after all requests are processed
  (\<open>runtime/runtime/src/bandwidth_scheduler/distribute_remaining.rs\<close>). The main result is that the
  loop never panics, never breaks early, gives every allowed link a grant and stays within the
  budget of every sender and receiver.
\<close>

section \<open>Definitions\<close>

record endpoint_info =
  bandwidth_left :: bandwidth
  links_num :: nat

definition average_link_bandwidth :: "endpoint_info \<Rightarrow> bandwidth" where
  "average_link_bandwidth e = (if links_num e = 0 then 0 else bandwidth_left e div links_num e)"

definition link_proposition :: "endpoint_info \<Rightarrow> bandwidth option" where
  "link_proposition e = checked_div (bandwidth_left e) (links_num e)"

text \<open>\<open>get(..).unwrap()\<close> and \<open>get_mut(..).unwrap()\<close>.\<close>

definition info_at :: "endpoint_info shard_index_map \<Rightarrow> shard_index \<Rightarrow> endpoint_info option" where
  "info_at m i = Option.bind (sim_get m i) id"

definition link_allowed_in :: "bool shard_link_map \<Rightarrow> shard_link \<Rightarrow> bool option" where
  "link_allowed_in m link = map_option (unwrap_or False) (slm_get m link)"

definition init_info_step ::
  "bandwidth shard_index_map \<Rightarrow> bandwidth shard_index_map \<Rightarrow> shard_index \<Rightarrow>
   endpoint_info shard_index_map \<times> endpoint_info shard_index_map \<Rightarrow>
   (endpoint_info shard_index_map \<times> endpoint_info shard_index_map) option" where
  "init_info_step sender_budgets receiver_budgets i = (\<lambda>(sis, ris).
     do {
       sb \<leftarrow> sim_get sender_budgets i;
       sis \<leftarrow> sim_insert sis i \<lparr> bandwidth_left = unwrap_or 0 sb, links_num = 0 \<rparr>;
       rb \<leftarrow> sim_get receiver_budgets i;
       ris \<leftarrow> sim_insert ris i \<lparr> bandwidth_left = unwrap_or 0 rb, links_num = 0 \<rparr>;
       Some (sis, ris)
     })"

definition add_link :: "endpoint_info shard_index_map \<Rightarrow> shard_index \<Rightarrow> endpoint_info shard_index_map option" where
  "add_link m i =
     do {
       e \<leftarrow> info_at m i;
       k \<leftarrow> checked_add u64_w (links_num e) 1;
       sim_insert m i (e\<lparr>links_num := k\<rparr>)
     }"

definition count_link_step ::
  "bool shard_link_map \<Rightarrow> shard_link \<Rightarrow>
   endpoint_info shard_index_map \<times> endpoint_info shard_index_map \<Rightarrow>
   (endpoint_info shard_index_map \<times> endpoint_info shard_index_map) option" where
  "count_link_step allowed link = (\<lambda>(sis, ris).
     do {
       a \<leftarrow> link_allowed_in allowed link;
       if a then
         do {
           sis \<leftarrow> add_link sis (link_sender link);
           ris \<leftarrow> add_link ris (link_receiver link);
           Some (sis, ris)
         }
       else Some (sis, ris)
     })"

text \<open>\<open>sort_by_key\<close> is a stable sort; its key function unwraps the entry of the shard.\<close>

definition sort_by_average :: "endpoint_info shard_index_map \<Rightarrow> shard_index list \<Rightarrow> shard_index list option" where
  "sort_by_average infos is =
     do {
       es \<leftarrow> those (map (info_at infos) is);
       Some (map fst (sort_key (\<lambda>(i, e). average_link_bandwidth e) (zip is es)))
     }"

definition take_from :: "endpoint_info \<Rightarrow> bandwidth \<Rightarrow> endpoint_info option" where
  "take_from e granted =
     do {
       b \<leftarrow> checked_sub (bandwidth_left e) granted;
       k \<leftarrow> checked_sub (links_num e) 1;
       Some \<lparr> bandwidth_left = b, links_num = k \<rparr>
     }"

text \<open>
  The inner loop over the receivers. \<open>si\<close> is the sender's entry, mutably borrowed for the whole
  loop. A disallowed link is skipped; an exhausted endpoint breaks out of the loop.
\<close>

fun grant_receivers ::
  "bool shard_link_map \<Rightarrow> shard_index \<Rightarrow> shard_index list \<Rightarrow> endpoint_info \<Rightarrow>
   endpoint_info shard_index_map \<Rightarrow> bandwidth shard_link_map \<Rightarrow>
   (endpoint_info \<times> endpoint_info shard_index_map \<times> bandwidth shard_link_map) option" where
  "grant_receivers allowed s [] si ris grants = Some (si, ris, grants)"
| "grant_receivers allowed s (r # rs) si ris grants =
     do {
       a \<leftarrow> link_allowed_in allowed (ShardLink s r);
       if \<not> a then grant_receivers allowed s rs si ris grants
       else do {
         ri \<leftarrow> info_at ris r;
         if links_num si = 0 \<or> links_num ri = 0 then Some (si, ris, grants)
         else do {
           sp \<leftarrow> link_proposition si;
           rp \<leftarrow> link_proposition ri;
           let granted = min sp rp;
           grants \<leftarrow> slm_insert grants (ShardLink s r) granted;
           si \<leftarrow> take_from si granted;
           ri \<leftarrow> take_from ri granted;
           ris \<leftarrow> sim_insert ris r ri;
           grant_receivers allowed s rs si ris grants
         }
       }
     }"

definition grant_sender_step ::
  "bool shard_link_map \<Rightarrow> shard_index list \<Rightarrow> shard_index \<Rightarrow>
   endpoint_info shard_index_map \<times> endpoint_info shard_index_map \<times> bandwidth shard_link_map \<Rightarrow>
   (endpoint_info shard_index_map \<times> endpoint_info shard_index_map \<times> bandwidth shard_link_map) option" where
  "grant_sender_step allowed receivers s = (\<lambda>(sis, ris, grants).
     do {
       si \<leftarrow> info_at sis s;
       (si, ris, grants) \<leftarrow> grant_receivers allowed s receivers si ris grants;
       sis \<leftarrow> sim_insert sis s si;
       Some (sis, ris, grants)
     })"

definition distribute_remaining_bandwidth ::
  "bandwidth shard_index_map \<Rightarrow> bandwidth shard_index_map \<Rightarrow> bool shard_link_map \<Rightarrow> shard_layout \<Rightarrow>
   bandwidth shard_link_map option" where
  "distribute_remaining_bandwidth sender_budgets receiver_budgets allowed layout =
     do {
       infos \<leftarrow> fold_opt (init_info_step sender_budgets receiver_budgets) (shard_indexes layout)
                 (sim_new layout, sim_new layout);
       (sis, ris) \<leftarrow> fold_opt (count_link_step allowed) (links (num_shards layout)) infos;
       senders \<leftarrow> sort_by_average sis (shard_indexes layout);
       receivers \<leftarrow> sort_by_average ris (shard_indexes layout);
       grants \<leftarrow> slm_new layout;
       (sis, ris, grants) \<leftarrow> fold_opt (grant_sender_step allowed receivers) senders (sis, ris, grants);
       Some grants
     }"

section \<open>The loop invariant\<close>

text \<open>
  \<open>P\<close> is the set of allowed links that are still to be processed, \<open>sv\<close> and \<open>rv\<close> give the entries
  of the senders and receivers. Budgets are split exactly between what is left and what was granted,
  and an entry counts the pending links of its endpoint.
\<close>

definition grant_of :: "bandwidth shard_link_map \<Rightarrow> shard_index \<Rightarrow> shard_index \<Rightarrow> bandwidth" where
  "grant_of g s r = unwrap_or 0 (slm_view g (ShardLink s r))"

definition infos_are :: "nat \<Rightarrow> endpoint_info shard_index_map \<Rightarrow> (shard_index \<Rightarrow> endpoint_info) \<Rightarrow> bool" where
  "infos_are n m v \<longleftrightarrow> length m = n \<and> (\<forall>i<n. sim_view m i = Some (v i))"

definition dist_inv ::
  "nat \<Rightarrow> (shard_index \<Rightarrow> shard_index \<Rightarrow> bool) \<Rightarrow> (shard_index \<Rightarrow> nat) \<Rightarrow> (shard_index \<Rightarrow> nat) \<Rightarrow>
   (shard_index \<times> shard_index) set \<Rightarrow> (shard_index \<Rightarrow> endpoint_info) \<Rightarrow> (shard_index \<Rightarrow> endpoint_info) \<Rightarrow>
   bandwidth shard_link_map \<Rightarrow> bool" where
  "dist_inv n A B R P sv rv g \<longleftrightarrow>
     (\<forall>s<n. bandwidth_left (sv s) + (\<Sum>r<n. grant_of g s r) = B s \<and> links_num (sv s) = card {r. (s, r) \<in> P}) \<and>
     (\<forall>r<n. bandwidth_left (rv r) + (\<Sum>s<n. grant_of g s r) = R r \<and> links_num (rv r) = card {s. (s, r) \<in> P}) \<and>
     (\<forall>s<n. \<forall>r<n. slm_view g (ShardLink s r) \<noteq> None \<longleftrightarrow> A s r \<and> (s, r) \<notin> P) \<and>
     P \<subseteq> {(s, r). s < n \<and> r < n \<and> A s r}"

lemma infos_are_get: "infos_are n m v \<Longrightarrow> i < n \<Longrightarrow> info_at m i = Some (v i)"
  by (simp add: infos_are_def info_at_def sim.get_view)

lemma infos_are_insert:
  assumes "infos_are n m v" and "i < n"
  obtains m' where "sim_insert m i e = Some m'" "infos_are n m' (v(i := e))"
proof -
  have "length m = n" using assms(1) by (simp add: infos_are_def)
  moreover have "i \<in> {..<n}" using assms(2) by simp
  ultimately obtain m' where "sim_insert m i e = Some m'" "length m' = n"
      "\<And>k. k \<in> {..<n} \<Longrightarrow> sim_view m' k = (if k = i then Some e else sim_view m k)"
    using sim.ins_ok [of m n i e] by blast
  then show thesis using assms(1) by (intro that [of m']) (simp_all add: infos_are_def)
qed

lemma row_sum_update:
  fixes f :: "nat \<Rightarrow> nat"
  assumes "r < n" and "f r = 0"
  shows "(\<Sum>k<n. if k = r then x else f k) = (\<Sum>k<n. f k) + x"
proof -
  have "(\<lambda>k. if k = r then x else f k) = f(r := x)" by auto
  with sum_fun_upd [of "{..<n}" r f x] assms show ?thesis by simp
qed

lemma pending_card:
  fixes n :: nat
  assumes "P \<subseteq> {(s, r). s < n \<and> r < n \<and> A s r}" and "(s, r) \<in> P"
  shows "0 < card {r. (s, r) \<in> P}" and "0 < card {s. (s, r) \<in> P}"
    and "card {r'. (s, r') \<in> P - {(s, r)}} = card {r. (s, r) \<in> P} - 1"
    and "card {s'. (s', r) \<in> P - {(s, r)}} = card {s. (s, r) \<in> P} - 1"
proof -
  have "{r. (s, r) \<in> P} \<subseteq> {..<n}" "{s. (s, r) \<in> P} \<subseteq> {..<n}" using assms(1) by auto
  note fin = this [THEN finite_subset, OF finite_lessThan]
  with assms(2) show "0 < card {r. (s, r) \<in> P}" "0 < card {s. (s, r) \<in> P}"
    by (auto simp: card_gt_0_iff)
  have "{r'. (s, r') \<in> P - {(s, r)}} = {r. (s, r) \<in> P} - {r}"
    "{s'. (s', r) \<in> P - {(s, r)}} = {s. (s, r) \<in> P} - {s}" by auto
  with fin assms(2) show "card {r'. (s, r') \<in> P - {(s, r)}} = card {r. (s, r) \<in> P} - 1"
    "card {s'. (s', r) \<in> P - {(s, r)}} = card {s. (s, r) \<in> P} - 1" by simp_all
qed

lemma dist_inv_step:
  assumes inv: "dist_inv n A B R P sv rv g" and P: "(s, r) \<in> P"
    and x: "x \<le> bandwidth_left (sv s)" "x \<le> bandwidth_left (rv r)"
    and g': "\<And>k. k \<in> in_range n \<Longrightarrow>
      slm_view g' k = (if k = ShardLink s r then Some x else slm_view g k)"
  shows "dist_inv n A B R (P - {(s, r)})
    (sv(s := \<lparr>bandwidth_left = bandwidth_left (sv s) - x, links_num = links_num (sv s) - 1\<rparr>))
    (rv(r := \<lparr>bandwidth_left = bandwidth_left (rv r) - x, links_num = links_num (rv r) - 1\<rparr>)) g'"
proof -
  have PA: "P \<subseteq> {(s, r). s < n \<and> r < n \<and> A s r}" using inv by (simp add: dist_inv_def)
  with P have lt: "s < n" "r < n" and al: "A s r" by auto
  note card = pending_card [OF PA P]
  have new: "slm_view g (ShardLink s r) = None" using inv P lt by (auto simp: dist_inv_def)
  then have zero: "grant_of g s r = 0" by (simp add: grant_of_def)
  have g0: "grant_of g' s' r' = (if s' = s \<and> r' = r then x else grant_of g s' r')"
    if "s' < n" "r' < n" for s' r' using that g' [of "ShardLink s' r'"] by (auto simp: grant_of_def)
  have rows: "(\<Sum>r'<n. grant_of g' s' r') = (\<Sum>r'<n. grant_of g s' r') + (if s' = s then x else 0)"
    if "s' < n" for s'
    using that g0 [OF that] row_sum_update [OF lt(2), of "grant_of g s" x] zero by (auto intro: sum.cong)
  have cols: "(\<Sum>s'<n. grant_of g' s' r') = (\<Sum>s'<n. grant_of g s' r') + (if r' = r then x else 0)"
    if "r' < n" for r'
    using that g0 [OF _ that] row_sum_update [OF lt(1), of "\<lambda>s. grant_of g s r" x] zero
    by (auto intro: sum.cong)
  have others: "s' \<noteq> s \<Longrightarrow> {r'. (s', r') \<in> P - {(s, r)}} = {r'. (s', r') \<in> P}"
    "r' \<noteq> r \<Longrightarrow> {s'. (s', r') \<in> P - {(s, r)}} = {s'. (s', r') \<in> P}" for s' r' by auto
  have S: "\<forall>s'<n. bandwidth_left (sv s') + (\<Sum>r<n. grant_of g s' r) = B s' \<and> links_num (sv s') = card {r. (s', r) \<in> P}"
    and R: "\<forall>r'<n. bandwidth_left (rv r') + (\<Sum>s<n. grant_of g s r') = R r' \<and> links_num (rv r') = card {s. (s, r') \<in> P}"
    and V: "\<forall>s<n. \<forall>r<n. slm_view g (ShardLink s r) \<noteq> None \<longleftrightarrow> A s r \<and> (s, r) \<notin> P"
    using inv by (simp_all add: dist_inv_def)
  have "\<forall>s'<n. \<forall>r'<n. slm_view g' (ShardLink s' r') \<noteq> None \<longleftrightarrow> A s' r' \<and> (s', r') \<notin> P - {(s, r)}"
    using V g' al by auto
  moreover have "P - {(s, r)} \<subseteq> {(s, r). s < n \<and> r < n \<and> A s r}" using PA by auto
  ultimately show ?thesis
    unfolding dist_inv_def
  proof (intro conjI allI impI)
    fix s' assume s': "s' < n"
    let ?sv = "sv(s := \<lparr>bandwidth_left = bandwidth_left (sv s) - x, links_num = links_num (sv s) - 1\<rparr>)"
    show "bandwidth_left (?sv s') + (\<Sum>r<n. grant_of g' s' r) = B s'"
      using S s' rows [OF s'] x(1) by (cases "s' = s") auto
    show "links_num (?sv s') = card {r'. (s', r') \<in> P - {(s, r)}}"
      using S s' card(3) others(1) by (cases "s' = s") auto
  next
    fix r' assume r': "r' < n"
    let ?rv = "rv(r := \<lparr>bandwidth_left = bandwidth_left (rv r) - x, links_num = links_num (rv r) - 1\<rparr>)"
    show "bandwidth_left (?rv r') + (\<Sum>s<n. grant_of g' s r') = R r'"
      using R r' cols [OF r'] x(2) by (cases "r' = r") auto
    show "links_num (?rv r') = card {s'. (s', r') \<in> P - {(s, r)}}"
      using R r' card(4) others(2) by (cases "r' = r") auto
  qed auto
qed

section \<open>The loops\<close>

definition allowed_view :: "bool shard_link_map \<Rightarrow> shard_index \<Rightarrow> shard_index \<Rightarrow> bool" where
  "allowed_view m s r = unwrap_or False (slm_view m (ShardLink s r))"

lemma link_allowed_in_view:
  "slm_wf n m \<Longrightarrow> s < n \<Longrightarrow> r < n \<Longrightarrow> link_allowed_in m (ShardLink s r) = Some (allowed_view m s r)"
  by (simp add: link_allowed_in_def allowed_view_def slm.get_view [of n])

text \<open>The inner loop processes all pending links of its sender; no entry is ever exhausted before.\<close>

lemma grant_receivers_ok:
  assumes "slm_wf n al" and "s < n" and "set rs \<subseteq> {..<n}" and "distinct rs"
    and "infos_are n ris rv" and "slm_wf n g" and "dist_inv n (allowed_view al) B R P (sv(s := si)) rv g"
    and "\<And>r. (s, r) \<in> P \<longleftrightarrow> r \<in> set rs \<and> allowed_view al s r"
  shows "\<exists>si' ris' rv' g'. grant_receivers al s rs si ris g = Some (si', ris', g') \<and>
    infos_are n ris' rv' \<and> slm_wf n g' \<and>
    dist_inv n (allowed_view al) B R (P - {s} \<times> UNIV) (sv(s := si')) rv' g'"
  using assms(3-)
proof (induction rs arbitrary: si ris rv g P)
  case Nil
  then have "P - {s} \<times> UNIV = P" by auto
  with Nil show ?case by auto
next
  case (Cons r rs)
  have r: "r < n" using Cons.prems(1) by simp
  note al = link_allowed_in_view [OF assms(1,2) r]
  show ?case
  proof (cases "allowed_view al s r")
    case False
    have "(s, r') \<in> P \<longleftrightarrow> r' \<in> set rs \<and> allowed_view al s r'" for r'
      using Cons.prems(6) [of r'] False by auto
    from Cons.IH [OF _ _ Cons.prems(3,4,5) this] Cons.prems(1,2) False al show ?thesis by simp
  next
    case True
    then have P: "(s, r) \<in> P" using Cons.prems(6) by simp
    have PA: "P \<subseteq> {(s, r). s < n \<and> r < n \<and> allowed_view al s r}"
      using Cons.prems(5) by (simp add: dist_inv_def)
    note card = pending_card [OF PA P]
    have pos: "0 < links_num si" "0 < links_num (rv r)"
      using Cons.prems(5) assms(2) r card(1,2) by (auto simp: dist_inv_def)
    define x where "x = min (bandwidth_left si div links_num si) (bandwidth_left (rv r) div links_num (rv r))"
    have x: "x \<le> bandwidth_left si" "x \<le> bandwidth_left (rv r)"
      unfolding x_def by (auto intro: min.coboundedI1 min.coboundedI2)
    define si1 where "si1 = \<lparr>bandwidth_left = bandwidth_left si - x, links_num = links_num si - 1\<rparr>"
    define ri1 where "ri1 = \<lparr>bandwidth_left = bandwidth_left (rv r) - x, links_num = links_num (rv r) - 1\<rparr>"
    have mem: "ShardLink s r \<in> in_range n" using assms(2) r by simp
    obtain g1 where g1: "slm_insert g (ShardLink s r) x = Some g1" "slm_wf n g1"
        "\<And>k. k \<in> in_range n \<Longrightarrow> slm_view g1 k = (if k = ShardLink s r then Some x else slm_view g k)"
      using slm.ins_ok [OF Cons.prems(4) mem, of x] by blast
    obtain ris1 where ris1: "sim_insert ris r ri1 = Some ris1" "infos_are n ris1 (rv(r := ri1))"
      by (rule infos_are_insert [OF Cons.prems(3) r])
    have run: "grant_receivers al s (r # rs) si ris g = grant_receivers al s rs si1 ris1 g1"
      using True al infos_are_get [OF Cons.prems(3) r] pos g1(1) ris1(1) x
      by (simp add: link_proposition_def checked_div_def take_from_def checked_sub_def x_def [symmetric]
          si1_def ri1_def Suc_leI)
    have inv: "dist_inv n (allowed_view al) B R (P - {(s, r)}) (sv(s := si1)) (rv(r := ri1)) g1"
      using dist_inv_step [OF Cons.prems(5) P _ x(2) g1(3)] x(1)
      by (simp only: si1_def ri1_def fun_upd_same fun_upd_upd)
    have pend: "(s, r') \<in> P - {(s, r)} \<longleftrightarrow> r' \<in> set rs \<and> allowed_view al s r'" for r'
      using Cons.prems(2,6) by auto
    have rs: "set rs \<subseteq> {..<n}" "distinct rs" using Cons.prems(1,2) by simp_all
    have "\<exists>si' ris' rv' g'. grant_receivers al s rs si1 ris1 g1 = Some (si', ris', g') \<and>
      infos_are n ris' rv' \<and> slm_wf n g' \<and>
      dist_inv n (allowed_view al) B R (P - {(s, r)} - {s} \<times> UNIV) (sv(s := si')) rv' g'"
      by (rule Cons.IH [OF rs ris1(2) g1(2) inv pend])
    moreover have "P - {(s, r)} - {s} \<times> UNIV = P - {s} \<times> UNIV" by auto
    ultimately show ?thesis unfolding run by (simp only:)
  qed
qed

lemma grant_senders_ok:
  assumes "slm_wf n al" and "set rs = {..<n}" and "distinct rs"
    and "set ss \<subseteq> {..<n}" and "distinct ss"
    and "infos_are n sis sv" and "infos_are n ris rv" and "slm_wf n g"
    and "dist_inv n (allowed_view al) B R {(s, r). s \<in> set ss \<and> r < n \<and> allowed_view al s r} sv rv g"
  shows "\<exists>sis' ris' sv' rv' g'. fold_opt (grant_sender_step al rs) ss (sis, ris, g) = Some (sis', ris', g') \<and>
    slm_wf n g' \<and> dist_inv n (allowed_view al) B R {} sv' rv' g'"
  using assms(4-)
proof (induction ss arbitrary: sis ris sv rv g)
  case Nil
  then have "dist_inv n (allowed_view al) B R {} sv rv g" by simp
  with Nil(5) show ?case by auto
next
  case (Cons s ss)
  have s: "s < n" using Cons.prems(1) by simp
  let ?P = "{(s', r). s' \<in> set (s # ss) \<and> r < n \<and> allowed_view al s' r}"
  have upd: "sv(s := sv s) = sv" by simp
  have mem: "(s, r) \<in> ?P \<longleftrightarrow> r \<in> set rs \<and> allowed_view al s r" for r using assms(2) by auto
  obtain si' ris' rv' g' where
    g': "grant_receivers al s rs (sv s) ris g = Some (si', ris', g')" "infos_are n ris' rv'" "slm_wf n g'"
      and inv: "dist_inv n (allowed_view al) B R (?P - {s} \<times> UNIV) (sv(s := si')) rv' g'"
    using grant_receivers_ok [OF assms(1) s _ assms(3) Cons.prems(4,5), of B R ?P sv "sv s", unfolded upd,
        OF _ Cons.prems(6) mem] assms(2) by blast
  obtain sis' where sis': "sim_insert sis s si' = Some sis'" "infos_are n sis' (sv(s := si'))"
    by (rule infos_are_insert [OF Cons.prems(3) s])
  have "?P - {s} \<times> UNIV = {(s', r). s' \<in> set ss \<and> r < n \<and> allowed_view al s' r}"
    using Cons.prems(2) by auto
  with inv have inv': "dist_inv n (allowed_view al) B R {(s', r). s' \<in> set ss \<and> r < n \<and> allowed_view al s' r}
      (sv(s := si')) rv' g'" by simp
  have "fold_opt (grant_sender_step al rs) (s # ss) (sis, ris, g) =
      fold_opt (grant_sender_step al rs) ss (sis', ris', g')"
    using g'(1) sis'(1) infos_are_get [OF Cons.prems(3) s] by (simp add: grant_sender_step_def)
  with Cons.IH [OF _ _ sis'(2) g'(2,3) inv'] Cons.prems(1,2) show ?case by simp
qed

lemma init_infos_ok:
  assumes "length sb = n" and "length rb = n"
  shows "\<exists>sis ris. fold_opt (init_info_step sb rb) [0..<n] (replicate n None, replicate n None) = Some (sis, ris) \<and>
    infos_are n sis (\<lambda>i. \<lparr>bandwidth_left = unwrap_or 0 (sim_view sb i), links_num = 0\<rparr>) \<and>
    infos_are n ris (\<lambda>i. \<lparr>bandwidth_left = unwrap_or 0 (sim_view rb i), links_num = 0\<rparr>)"
proof -
  let ?e = "\<lambda>b i. \<lparr>bandwidth_left = unwrap_or 0 (sim_view b i), links_num = 0\<rparr> :: endpoint_info"
  define Q where "Q = (\<lambda>xs (sis, ris). \<exists>k. xs = [k..<n] \<and> k \<le> n \<and> length sis = n \<and> length ris = n \<and>
    (\<forall>i<k. sis ! i = Some (?e sb i)) \<and> (\<forall>i<k. ris ! i = Some (?e rb i)))"
  have "\<exists>s'. fold_opt (init_info_step sb rb) [0..<n] (replicate n None, replicate n None) = Some s' \<and> Q [] s'"
  proof (rule fold_opt_inv_list)
    show "Q [0..<n] (replicate n None, replicate n None)" by (auto simp: Q_def intro!: exI [of _ 0])
    fix x ys and s :: "endpoint_info shard_index_map \<times> endpoint_info shard_index_map"
    assume Q: "Q (x # ys) s"
    obtain sis ris where s: "s = (sis, ris)" by (cases s)
    from Q s obtain k where k: "x # ys = [k..<n]" "length sis = n" "length ris = n"
      and sofar: "\<forall>i<k. sis ! i = Some (?e sb i)" "\<forall>i<k. ris ! i = Some (?e rb i)"
      by (auto simp: Q_def)
    from upt_eq_Cons_conv [of k n x ys] k(1) have x: "x = k" "k < n" "ys = [Suc k..<n]" by auto
    have "init_info_step sb rb x s = Some (sis[k := Some (?e sb k)], ris[k := Some (?e rb k)])"
      using assms x k by (simp add: s init_info_step_def sim_get_def sim_insert_def sim_view_def)
    moreover have "Q ys (sis[k := Some (?e sb k)], ris[k := Some (?e rb k)])"
      unfolding Q_def using x k sofar by (auto intro!: exI [of _ "Suc k"] simp: nth_list_update less_Suc_eq)
    ultimately show "\<exists>s'. init_info_step sb rb x s = Some s' \<and> Q ys s'" by blast
  qed
  then obtain sis ris k where "fold_opt (init_info_step sb rb) [0..<n] (replicate n None, replicate n None) = Some (sis, ris)"
      "[] = [k..<n]" "length sis = n" "length ris = n"
      "\<forall>i<k. sis ! i = Some (?e sb i)" "\<forall>i<k. ris ! i = Some (?e rb i)"
    by (auto simp: Q_def)
  moreover from this(2) have "n \<le> k" by (metis upt_eq_Nil_conv not_less zero_less_iff_neq_zero le0)
  ultimately show ?thesis
    by (intro exI [of _ sis] exI [of _ ris]) (simp add: infos_are_def sim_view_def [of sis] sim_view_def [of ris])
qed

text \<open>Counting: after the links of a list, an entry holds the number of allowed links among them.\<close>

definition count_inv ::
  "nat \<Rightarrow> (shard_index \<Rightarrow> shard_index \<Rightarrow> bool) \<Rightarrow> (shard_index \<Rightarrow> nat) \<Rightarrow> (shard_index \<Rightarrow> nat) \<Rightarrow> shard_link set \<Rightarrow>
   endpoint_info shard_index_map \<times> endpoint_info shard_index_map \<Rightarrow> bool" where
  "count_inv n A B R todo = (\<lambda>(sis, ris). \<exists>sv rv. infos_are n sis sv \<and> infos_are n ris rv \<and>
     (\<forall>s<n. bandwidth_left (sv s) = B s \<and>
        links_num (sv s) = card {r. r < n \<and> A s r \<and> ShardLink s r \<notin> todo}) \<and>
     (\<forall>r<n. bandwidth_left (rv r) = R r \<and>
        links_num (rv r) = card {s. s < n \<and> A s r \<and> ShardLink s r \<notin> todo}))"

lemma add_link_ok:
  assumes "infos_are n m v" and "i < n" and "links_num (v i) < n" and "n * n < 2 ^ 64"
  obtains m' where "add_link m i = Some m'" "infos_are n m' (v(i := (v i)\<lparr>links_num := links_num (v i) + 1\<rparr>))"
proof -
  have "n \<le> n * n" using assms(2) by (cases n) auto
  then have "links_num (v i) + 1 < 2 ^ 64" using assms(3,4) by linarith
  moreover obtain m' where "sim_insert m i ((v i)\<lparr>links_num := links_num (v i) + 1\<rparr>) = Some m'"
      "infos_are n m' (v(i := (v i)\<lparr>links_num := links_num (v i) + 1\<rparr>))"
    by (rule infos_are_insert [OF assms(1,2)])
  ultimately show thesis
    using infos_are_get [OF assms(1,2)] by (intro that [of m']) (simp_all add: add_link_def checked_add_def)
qed

lemma card_insert_index:
  assumes "k < n" and "C k" and "\<not> D k" and "\<And>i. i \<noteq> k \<Longrightarrow> D' i = D i" and "D' k"
  shows "card {i. i < n \<and> C i \<and> D' i} = card {i. i < n \<and> C i \<and> D i} + 1"
    and "card {i. i < n \<and> C i \<and> D i} < n"
proof -
  have "D' i \<longleftrightarrow> i = k \<or> D i" for i using assms(3-5) by metis
  then have "{i. i < n \<and> C i \<and> D' i} = insert k {i. i < n \<and> C i \<and> D i}"
    using assms(1,2) by auto
  then show "card {i. i < n \<and> C i \<and> D' i} = card {i. i < n \<and> C i \<and> D i} + 1"
    using assms(3) by simp
  have "{i. i < n \<and> C i \<and> D i} \<subset> {..<n}" using assms(1,3) by auto
  from psubset_card_mono [OF _ this] show "card {i. i < n \<and> C i \<and> D i} < n" by simp
qed

lemma count_link_step_ok:
  assumes "slm_wf n al" and "count_inv n (allowed_view al) B R (set (link # rest)) st"
    and "link \<in> in_range n" and "link \<notin> set rest"
  shows "\<exists>st'. count_link_step al link st = Some st' \<and> count_inv n (allowed_view al) B R (set rest) st'"
proof -
  let ?A = "allowed_view al"
  obtain s r where link: "link = ShardLink s r" by (cases link)
  have lt: "s < n" "r < n" using assms(3) link by simp_all
  obtain sis ris where st: "st = (sis, ris)" by (cases st)
  from assms(2) obtain sv rv where are: "infos_are n sis sv" "infos_are n ris rv"
    and S: "\<forall>s'<n. bandwidth_left (sv s') = B s' \<and>
      links_num (sv s') = card {r'. r' < n \<and> ?A s' r' \<and> ShardLink s' r' \<notin> set (link # rest)}"
    and R: "\<forall>r'<n. bandwidth_left (rv r') = R r' \<and>
      links_num (rv r') = card {s'. s' < n \<and> ?A s' r' \<and> ShardLink s' r' \<notin> set (link # rest)}"
    by (auto simp: count_inv_def st)
  note al = link_allowed_in_view [OF assms(1) lt]
  show ?thesis
  proof (cases "?A s r")
    case False
    then have "?A s' r' \<and> ShardLink s' r' \<notin> set (link # rest) \<longleftrightarrow> ?A s' r' \<and> ShardLink s' r' \<notin> set rest"
      for s' r' using link by auto
    then have "count_inv n ?A B R (set rest) st"
      unfolding count_inv_def st prod.case by (intro exI [of _ sv] exI [of _ rv]) (use are S R in simp)
    with False al show ?thesis by (simp add: count_link_step_def st link)
  next
    case True
    note row = card_insert_index [of r n "?A s" "\<lambda>r'. ShardLink s r' \<notin> set (link # rest)" "\<lambda>r'. ShardLink s r' \<notin> set rest",
        OF lt(2) True]
    note col = card_insert_index [of s n "\<lambda>s'. ?A s' r" "\<lambda>s'. ShardLink s' r \<notin> set (link # rest)"
        "\<lambda>s'. ShardLink s' r \<notin> set rest", OF lt(1) True]
    have nn: "n * n < 2 ^ 64" using assms(1) by (simp add: slm_wf_def)
    have "links_num (sv s) < n" "links_num (rv r) < n" using S R lt row(2) col(2) link assms(4) by simp_all
    from add_link_ok [OF are(1) lt(1) this(1) nn] add_link_ok [OF are(2) lt(2) this(2) nn]
    obtain sis' ris' where new: "add_link sis s = Some sis'" "add_link ris r = Some ris'"
      and are': "infos_are n sis' (sv(s := (sv s)\<lparr>links_num := links_num (sv s) + 1\<rparr>))"
        "infos_are n ris' (rv(r := (rv r)\<lparr>links_num := links_num (rv r) + 1\<rparr>))" by metis
    have "count_inv n ?A B R (set rest) (sis', ris')"
      unfolding count_inv_def prod.case
    proof (intro exI conjI allI impI)
      fix s' assume s': "s' < n"
      let ?v = "sv(s := (sv s)\<lparr>links_num := links_num (sv s) + 1\<rparr>)"
      show "bandwidth_left (?v s') = B s'" using S s' by simp
      have "s' \<noteq> s \<Longrightarrow> ShardLink s' r' \<notin> set (link # rest) \<longleftrightarrow> ShardLink s' r' \<notin> set rest" for r' using link by auto
      then show "links_num (?v s') = card {r'. r' < n \<and> ?A s' r' \<and> ShardLink s' r' \<notin> set rest}"
        using S s' row(1) link assms(4) by (cases "s' = s") simp_all
    next
      fix r' assume r': "r' < n"
      let ?v = "rv(r := (rv r)\<lparr>links_num := links_num (rv r) + 1\<rparr>)"
      show "bandwidth_left (?v r') = R r'" using R r' by simp
      have "r' \<noteq> r \<Longrightarrow> ShardLink s' r' \<notin> set (link # rest) \<longleftrightarrow> ShardLink s' r' \<notin> set rest" for s' using link by auto
      then show "links_num (?v r') = card {s'. s' < n \<and> ?A s' r' \<and> ShardLink s' r' \<notin> set rest}"
        using R r' col(1) link assms(4) by (cases "r' = r") simp_all
    qed (rule are')+
    with True al new show ?thesis by (simp add: count_link_step_def st link)
  qed
qed

lemma count_links_ok:
  assumes "slm_wf n al" and "infos_are n sis sv" and "infos_are n ris rv"
    and "\<And>i. links_num (sv i) = 0" and "\<And>i. links_num (rv i) = 0"
  shows "\<exists>st. fold_opt (count_link_step al) (links n) (sis, ris) = Some st \<and>
    count_inv n (allowed_view al) (\<lambda>i. bandwidth_left (sv i)) (\<lambda>i. bandwidth_left (rv i)) {} st"
proof -
  let ?inv = "\<lambda>ls st. count_inv n (allowed_view al) (\<lambda>i. bandwidth_left (sv i)) (\<lambda>i. bandwidth_left (rv i)) (set ls) st \<and>
    set ls \<subseteq> in_range n \<and> distinct ls"
  have none: "{r. r < n \<and> Q s r \<and> ShardLink s r \<notin> set (links n)} = {}" if "s < n" for s Q
    using that by (auto simp: set_links)
  have none': "{s. s < n \<and> Q s r \<and> ShardLink s r \<notin> set (links n)} = {}" if "r < n" for r Q
    using that by (auto simp: set_links)
  have "\<exists>st. fold_opt (count_link_step al) (links n) (sis, ris) = Some st \<and> ?inv [] st"
  proof (rule fold_opt_inv_list [where P = ?inv])
    have "count_inv n (allowed_view al) (\<lambda>i. bandwidth_left (sv i)) (\<lambda>i. bandwidth_left (rv i)) (set (links n)) (sis, ris)"
      unfolding count_inv_def prod.case
      by (intro exI [of _ sv] exI [of _ rv]) (use assms none none' in simp)
    then show "?inv (links n) (sis, ris)" using distinct_links by (auto simp: set_links)
    show "\<exists>st'. count_link_step al l st = Some st' \<and> ?inv ls st'" if "?inv (l # ls) st" for l ls st
      using count_link_step_ok [OF assms(1), of _ _ l ls st] that by auto
  qed
  then show ?thesis by auto
qed

lemma sort_by_average_ok:
  assumes "infos_are n m v"
  shows "\<exists>ks. sort_by_average m [0..<n] = Some ks \<and> set ks = {..<n} \<and> distinct ks"
proof -
  let ?zs = "zip [0..<n] (map v [0..<n])"
  let ?ks = "map fst (sort_key (\<lambda>(i, e). average_link_bandwidth e) ?zs)"
  have "sort_by_average m [0..<n] = Some ?ks"
    using those_map_Some [of "[0..<n]" "info_at m" v] infos_are_get [OF assms] by (simp add: sort_by_average_def)
  moreover have "mset ?ks = mset (map fst ?zs)" by (simp only: mset_map mset_sort)
  then have "mset ?ks = mset [0..<n]" by simp
  then have "set ?ks = {..<n}" "distinct ?ks"
    by (metis set_mset_mset atLeast_upt, metis mset_eq_imp_distinct_iff distinct_upt)
  ultimately show ?thesis by blast
qed

lemma distribute_ok:
  assumes "length sender_budgets = num_shards layout" and "length receiver_budgets = num_shards layout"
    and "slm_wf (num_shards layout) allowed"
  shows "\<exists>grants. distribute_remaining_bandwidth sender_budgets receiver_budgets allowed layout = Some grants \<and>
    slm_wf (num_shards layout) grants \<and>
    (\<forall>s<num_shards layout. \<forall>r<num_shards layout.
       slm_view grants (ShardLink s r) \<noteq> None \<longleftrightarrow> allowed_view allowed s r) \<and>
    (\<forall>s<num_shards layout. (\<Sum>r<num_shards layout. grant_of grants s r) \<le> unwrap_or 0 (sim_view sender_budgets s)) \<and>
    (\<forall>r<num_shards layout. (\<Sum>s<num_shards layout. grant_of grants s r) \<le> unwrap_or 0 (sim_view receiver_budgets r))"
proof -
  let ?n = "num_shards layout" and ?A = "allowed_view allowed"
  let ?B = "\<lambda>i. unwrap_or 0 (sim_view sender_budgets i)" and ?R = "\<lambda>i. unwrap_or 0 (sim_view receiver_budgets i)"
  let ?P = "{(s, r). s < ?n \<and> r < ?n \<and> ?A s r}"
  obtain sis0 ris0 where init: "fold_opt (init_info_step sender_budgets receiver_budgets) [0..<?n]
        (replicate ?n None, replicate ?n None) = Some (sis0, ris0)"
      "infos_are ?n sis0 (\<lambda>i. \<lparr>bandwidth_left = ?B i, links_num = 0\<rparr>)"
      "infos_are ?n ris0 (\<lambda>i. \<lparr>bandwidth_left = ?R i, links_num = 0\<rparr>)"
    using init_infos_ok [OF assms(1,2)] by blast
  obtain sis ris where count: "fold_opt (count_link_step allowed) (links ?n) (sis0, ris0) = Some (sis, ris)"
      "count_inv ?n ?A ?B ?R {} (sis, ris)"
    using count_links_ok [OF assms(3) init(2,3)] by auto
  then obtain sv rv where are: "infos_are ?n sis sv" "infos_are ?n ris rv"
      "\<forall>s<?n. bandwidth_left (sv s) = ?B s \<and> links_num (sv s) = card {r. r < ?n \<and> ?A s r}"
      "\<forall>r<?n. bandwidth_left (rv r) = ?R r \<and> links_num (rv r) = card {s. s < ?n \<and> ?A s r}"
    by (auto simp: count_inv_def)
  obtain ss rs where sorted: "sort_by_average sis [0..<?n] = Some ss" "sort_by_average ris [0..<?n] = Some rs"
      and ss: "set ss = {..<?n}" "distinct ss" and rs: "set rs = {..<?n}" "distinct rs"
    using sort_by_average_ok [OF are(1)] sort_by_average_ok [OF are(2)] by blast
  obtain g :: "bandwidth shard_link_map" where g: "slm_new layout = Some g" "slm_wf ?n g" "\<forall>k\<in>in_range ?n. slm_view g k = None"
    using slm_new_ok [of layout] assms(3) by (auto simp: slm_wf_def)
  have "dist_inv ?n ?A ?B ?R ?P sv rv g"
    using are(3,4) g(3) by (auto simp: dist_inv_def grant_of_def)
  then have "dist_inv ?n ?A ?B ?R {(s, r). s \<in> set ss \<and> r < ?n \<and> ?A s r} sv rv g" using ss by simp
  from grant_senders_ok [OF assms(3) rs _ ss(2) are(1,2) g(2) this] ss(1)
  obtain sis' ris' sv' rv' g' where
    run: "fold_opt (grant_sender_step allowed rs) ss (sis, ris, g) = Some (sis', ris', g')"
      "slm_wf ?n g'" "dist_inv ?n ?A ?B ?R {} sv' rv' g'" by blast
  have "distribute_remaining_bandwidth sender_budgets receiver_budgets allowed layout = Some g'"
    using init(1) count(1) sorted g(1) run(1)
    by (simp add: distribute_remaining_bandwidth_def shard_indexes_def sim_new_def)
  moreover have "\<forall>s<?n. \<forall>r<?n. slm_view g' (ShardLink s r) \<noteq> None \<longleftrightarrow> ?A s r"
    "\<forall>s<?n. (\<Sum>r<?n. grant_of g' s r) \<le> ?B s" "\<forall>r<?n. (\<Sum>s<?n. grant_of g' s r) \<le> ?R r"
    using run(3) unfolding dist_inv_def by (simp, metis le_add2, metis le_add2)
  ultimately show ?thesis using run(2) by blast
qed

text \<open>
  C14: On maps of the layout's size the distribution of leftover bandwidth never panics; a link gets a
  grant exactly when it is allowed (so the early break of the inner loop is never taken); the grants
  of a sender sum up to at most its remaining budget, and so do those of a receiver.
\<close>

theorem distribute_remaining_fair:
  assumes "length sender_budgets = num_shards layout" and "length receiver_budgets = num_shards layout"
    and "slm_wf (num_shards layout) allowed"
  shows "\<exists>grants. distribute_remaining_bandwidth sender_budgets receiver_budgets allowed layout = Some grants \<and>
    slm_wf (num_shards layout) grants \<and>
    (\<forall>s<num_shards layout. \<forall>r<num_shards layout.
       slm_view grants (ShardLink s r) \<noteq> None \<longleftrightarrow> allowed_view allowed s r) \<and>
    (\<forall>s<num_shards layout. (\<Sum>r<num_shards layout. grant_of grants s r) \<le> unwrap_or 0 (sim_view sender_budgets s)) \<and>
    (\<forall>r<num_shards layout. (\<Sum>s<num_shards layout. grant_of grants s r) \<le> unwrap_or 0 (sim_view receiver_budgets r))"
  using assms by (rule distribute_ok)

text \<open>A two-shard network in which only the link from shard 0 to shard 1 is closed.\<close>

definition example_allowed :: "bool shard_link_map" where
  "example_allowed = \<lparr> slm_data = [Some True, Some False, Some True, Some True], slm_num_indexes = 2 \<rparr>"

lemma example_allowed_wf: "slm_wf 2 example_allowed"
  by (simp add: slm_wf_def example_allowed_def)

lemma allowed_example:
  "\<not> allowed_view example_allowed 0 (Suc 0)" "allowed_view example_allowed (Suc 0) (Suc 0)"
  by (simp_all add: allowed_view_def slm_view_def example_allowed_def)

theorem distribute_remaining_fair_witness:
  "\<exists>grants. distribute_remaining_bandwidth [Some 100, Some 70] [Some 90, Some 50] example_allowed (layout_v0 2 0) = Some grants \<and>
    slm_view grants (ShardLink 0 1) = None \<and> slm_view grants (ShardLink 1 1) \<noteq> None \<and>
    grant_of grants 1 0 + grant_of grants 1 1 \<le> 70"
proof -
  have n: "num_shards (layout_v0 2 0) = 2" by (simp add: layout_v0_def num_shards_def)
  obtain g where g: "distribute_remaining_bandwidth [Some 100, Some 70] [Some 90, Some 50] example_allowed (layout_v0 2 0) = Some g"
    and al: "\<forall>s<2. \<forall>r<2. slm_view g (ShardLink s r) \<noteq> None \<longleftrightarrow> allowed_view example_allowed s r"
    and bd: "\<forall>s<2. (\<Sum>r<2. grant_of g s r) \<le> unwrap_or 0 (sim_view [Some 100, Some 70] s)"
    using distribute_remaining_fair [of "[Some 100, Some 70]" "layout_v0 2 0" "[Some 90, Some 50]" example_allowed]
      example_allowed_wf unfolding n by auto
  have "slm_view g (ShardLink 0 1) = None" "slm_view g (ShardLink 1 1) \<noteq> None"
    using al [rule_format, of 0 1] al [rule_format, of 1 1]
    by (simp_all add: allowed_example)
  moreover have "grant_of g 1 0 + grant_of g 1 1 \<le> 70"
    using bd [rule_format, of 1] by (simp add: sim_view_def numeral_2_eq_2)
  ultimately show ?thesis using g by blast
qed

end
