(* ===== verification/Bandwidth_Scheduler.thy ===== *)
theory Bandwidth_Scheduler
  imports Bandwidth_Distribute "HOL-Library.Product_Lexorder"
begin

text \<open>
  The bandwidth scheduler (\<open>runtime/runtime/src/bandwidth_scheduler/scheduler.rs\<close>). One run grants
  base bandwidth on every link, processes the requests in the order of the links' allowances,
  distributes what is left and updates the allowances kept in the state. The random number
  generator and its shuffle are code of the crate \<open>rand\<close>: \<open>from_seed\<close> and \<open>shuffle\<close> are
  parameters, and the only thing relied on is that a shuffle permutes.
\<close>

section \<open>Data\<close>

datatype try_grant_outcome = Granted | NotGranted

record shard_status =
  is_fully_congested :: bool
  last_chunk_missing :: bool
  allowed_sender_shard_index :: "shard_index option"

record scheduler_request =
  req_link :: shard_link
  bandwidth_increases :: "bandwidth list"

record link_allowance =
  la_sender :: shard_id
  la_receiver :: shard_id
  la_allowance :: bandwidth

record scheduler_state_v1 =
  state_link_allowances :: "link_allowance list"
  sanity_check_hash :: "byte list"

datatype scheduler_state = SchedulerStateV1 scheduler_state_v1

type_synonym block_bandwidth_requests = "(shard_id, bandwidth_requests) btree"

type_synonym granted_bandwidth = "(shard_id \<times> shard_id, bandwidth) btree"

record 'r bandwidth_scheduler =
  bs_layout :: shard_layout
  bs_params :: scheduler_params
  is_link_allowed_map :: "bool shard_link_map"
  sender_budget :: "bandwidth shard_index_map"
  receiver_budget :: "bandwidth shard_index_map"
  link_allowances :: "bandwidth shard_link_map"
  granted_on :: "bandwidth shard_link_map"
  bs_rng :: 'r

definition get_granted_bandwidth :: "granted_bandwidth \<Rightarrow> shard_id \<Rightarrow> shard_id \<Rightarrow> bandwidth" where
  "get_granted_bandwidth g s r = unwrap_or 0 (bt_get g (s, r))"

section \<open>Allowances and grants of one link\<close>

definition iter_links :: "'r bandwidth_scheduler \<Rightarrow> shard_link list" where
  "iter_links st = links (num_shards (bs_layout st))"

definition default_link_allowance :: bandwidth where
  "default_link_allowance = 0"

definition get_allowance :: "'r bandwidth_scheduler \<Rightarrow> shard_link \<Rightarrow> bandwidth option" where
  "get_allowance st link = map_option (unwrap_or default_link_allowance) (slm_get (link_allowances st) link)"

definition increase_allowance ::
  "shard_link \<Rightarrow> bandwidth \<Rightarrow> 'r bandwidth_scheduler \<Rightarrow> 'r bandwidth_scheduler option" where
  "increase_allowance link increase st =
     do {
       current \<leftarrow> get_allowance st link;
       let new = saturating_add u64_w current increase;
       let new = (if new > max_allowance (bs_params st) then max_allowance (bs_params st) else new);
       m \<leftarrow> slm_insert (link_allowances st) link new;
       Some (st\<lparr>link_allowances := m\<rparr>)
     }"

definition decrease_allowance ::
  "shard_link \<Rightarrow> bandwidth \<Rightarrow> 'r bandwidth_scheduler \<Rightarrow> 'r bandwidth_scheduler option" where
  "decrease_allowance link decrease st =
     do {
       current \<leftarrow> get_allowance st link;
       m \<leftarrow> slm_insert (link_allowances st) link (saturating_sub current decrease);
       Some (st\<lparr>link_allowances := m\<rparr>)
     }"

definition grant_more_bandwidth ::
  "shard_link \<Rightarrow> bandwidth \<Rightarrow> 'r bandwidth_scheduler \<Rightarrow> 'r bandwidth_scheduler option" where
  "grant_more_bandwidth link bandwidth st =
     do {
       current \<leftarrow> slm_get (granted_on st) link;
       m \<leftarrow> slm_insert (granted_on st) link
              (unwrap_or (int_max u64_w) (checked_add u64_w (unwrap_or 0 current) bandwidth));
       Some (st\<lparr>granted_on := m\<rparr>)
     }"

definition is_link_allowed :: "'r bandwidth_scheduler \<Rightarrow> shard_link \<Rightarrow> bool option" where
  "is_link_allowed st link = link_allowed_in (is_link_allowed_map st) link"

definition try_grant_bandwidth ::
  "shard_link \<Rightarrow> bandwidth \<Rightarrow> 'r bandwidth_scheduler \<Rightarrow> (try_grant_outcome \<times> 'r bandwidth_scheduler) option" where
  "try_grant_bandwidth link bandwidth st =
     do {
       allowed \<leftarrow> is_link_allowed st link;
       if \<not> allowed then Some (NotGranted, st)
       else do {
         sb \<leftarrow> map_option (unwrap_or 0) (sim_get (sender_budget st) (link_sender link));
         rb \<leftarrow> map_option (unwrap_or 0) (sim_get (receiver_budget st) (link_receiver link));
         if sb < bandwidth \<or> rb < bandwidth then Some (NotGranted, st)
         else do {
           sb' \<leftarrow> checked_sub sb bandwidth;
           sm \<leftarrow> sim_insert (sender_budget st) (link_sender link) sb';
           rb' \<leftarrow> checked_sub rb bandwidth;
           rm \<leftarrow> sim_insert (receiver_budget st) (link_receiver link) rb';
           st \<leftarrow> decrease_allowance link bandwidth (st\<lparr>sender_budget := sm, receiver_budget := rm\<rparr>);
           st \<leftarrow> grant_more_bandwidth link bandwidth st;
           Some (Granted, st)
         }
       }
     }"

definition calculate_is_link_allowed ::
  "shard_index \<Rightarrow> shard_index \<Rightarrow> shard_status shard_index_map \<Rightarrow> bool option" where
  "calculate_is_link_allowed sender_index receiver_index statuses =
     do {
       receiver_status \<leftarrow> sim_get statuses receiver_index;
       (case receiver_status of
          None \<Rightarrow> Some False
        | Some rs \<Rightarrow>
            if last_chunk_missing rs then Some False
            else do {
              sender_status \<leftarrow> sim_get statuses sender_index;
              if (case sender_status of None \<Rightarrow> False | Some ss \<Rightarrow> last_chunk_missing ss) then Some False
              else if is_fully_congested rs then
                Some (Some sender_index = allowed_sender_shard_index rs)
              else Some True
            })
     }"

section \<open>Requests\<close>

definition increase_step ::
  "(byte list \<Rightarrow> nat \<Rightarrow> bool) \<Rightarrow> byte list \<Rightarrow> bandwidth list \<Rightarrow> nat \<Rightarrow>
   bandwidth \<times> bandwidth list \<Rightarrow> (bandwidth \<times> bandwidth list) option" where
  "increase_step bits_get bitmap request_values i = (\<lambda>(current_total, increases).
     do {
       b \<leftarrow> bitmap_get_bit bits_get bitmap i;
       if \<not> b then Some (current_total, increases)
       else do {
         requested \<leftarrow> vec_get request_values i;
         if requested \<le> current_total then Some (current_total, increases)
         else do {
           d \<leftarrow> checked_sub requested current_total;
           Some (requested, increases @ [d])
         }
       }
     })"

definition scheduler_request_new ::
  "(byte list \<Rightarrow> nat \<Rightarrow> bool) \<Rightarrow> shard_id \<Rightarrow> bandwidth_request \<Rightarrow> scheduler_params \<Rightarrow> shard_layout \<Rightarrow>
   scheduler_request option option" where
  "scheduler_request_new bits_get sender_shard req params layout =
     (case get_shard_index layout sender_shard of
        Inl _ \<Rightarrow> Some None
      | Inr sender_index \<Rightarrow>
          (case get_shard_index layout (to_shard req) of
             Inl _ \<Rightarrow> Some None
           | Inr receiver_index \<Rightarrow>
               do {
                 request_values \<leftarrow> bandwidth_request_values params;
                 (cur, increases) \<leftarrow>
                   fold_opt (increase_step bits_get (requested_values_bitmap req) request_values)
                     [0..<bitmap_len] (base_bandwidth params, []);
                 if increases = [] then Some None
                 else Some (Some \<lparr> req_link = ShardLink sender_index receiver_index,
                                   bandwidth_increases = increases \<rparr>)
               }))"

section \<open>The algorithm\<close>

definition init_budgets :: "'r bandwidth_scheduler \<Rightarrow> 'r bandwidth_scheduler option" where
  "init_budgets st =
     do {
       sm \<leftarrow> fold_opt (\<lambda>i m. sim_insert m i (max_shard_bandwidth (bs_params st)))
              (shard_indexes (bs_layout st)) (sender_budget st);
       rm \<leftarrow> fold_opt (\<lambda>i m. sim_insert m i (max_shard_bandwidth (bs_params st)))
              (shard_indexes (bs_layout st)) (receiver_budget st);
       Some (st\<lparr>sender_budget := sm, receiver_budget := rm\<rparr>)
     }"

definition increase_allowances :: "'r bandwidth_scheduler \<Rightarrow> 'r bandwidth_scheduler option" where
  "increase_allowances st =
     do {
       assert (num_shards (bs_layout st) \<noteq> 0);
       fair \<leftarrow> checked_div (max_shard_bandwidth (bs_params st)) (num_shards (bs_layout st));
       fold_opt (\<lambda>link. increase_allowance link fair) (iter_links st) st
     }"

definition grant_base_bandwidth :: "'r bandwidth_scheduler \<Rightarrow> 'r bandwidth_scheduler option" where
  "grant_base_bandwidth st =
     fold_opt (\<lambda>link st. map_option snd (try_grant_bandwidth link (base_bandwidth (bs_params st)) st))
       (iter_links st) st"

type_synonym request_queue = "(bandwidth, scheduler_request list) btree"

definition queue_push :: "bandwidth \<Rightarrow> scheduler_request \<Rightarrow> request_queue \<Rightarrow> request_queue" where
  "queue_push allowance req q = bt_insert allowance (unwrap_or [] (bt_get q allowance) @ [req]) q"

definition enqueue_by_allowance ::
  "'r bandwidth_scheduler \<Rightarrow> scheduler_request \<Rightarrow> request_queue \<Rightarrow> request_queue option" where
  "enqueue_by_allowance st req q =
     do {
       a \<leftarrow> get_allowance st (req_link req);
       Some (queue_push a req q)
     }"

definition process_request ::
  "scheduler_request \<Rightarrow> 'r bandwidth_scheduler \<times> request_queue \<Rightarrow>
   ('r bandwidth_scheduler \<times> request_queue) option" where
  "process_request req = (\<lambda>(st, q).
     (case bandwidth_increases req of
        [] \<Rightarrow> Some (st, q)
      | inc # rest \<Rightarrow>
          do {
            (outcome, st) \<leftarrow> try_grant_bandwidth (req_link req) inc st;
            (case outcome of
               Granted \<Rightarrow>
                 if rest \<noteq> [] then
                   do {
                     q \<leftarrow> enqueue_by_allowance st (req\<lparr>bandwidth_increases := rest\<rparr>) q;
                     Some (st, q)
                   }
                 else Some (st, q)
             | NotGranted \<Rightarrow> Some (st, q))
          }))"

text \<open>
  The \<open>while let\<close> loop with fuel. \<open>process_fuel\<close> below is enough: every iteration takes a nonempty
  bucket, and a request that goes back has lost an increase.
\<close>

fun process_loop ::
  "('r \<Rightarrow> scheduler_request list \<Rightarrow> scheduler_request list \<times> 'r) \<Rightarrow> nat \<Rightarrow>
   'r bandwidth_scheduler \<Rightarrow> request_queue \<Rightarrow> 'r bandwidth_scheduler option" where
  "process_loop shuffle 0 st q = None"
| "process_loop shuffle (Suc fuel) st q =
     (case bt_pop_last q of
        None \<Rightarrow> Some st
      | Some ((_, reqs), q') \<Rightarrow>
          (case shuffle (bs_rng st) reqs of
             (reqs', rng') \<Rightarrow>
               do {
                 (st', q'') \<leftarrow> fold_opt process_request reqs' (st\<lparr>bs_rng := rng'\<rparr>, q');
                 process_loop shuffle fuel st' q''
               }))"

definition request_weight :: "scheduler_request \<Rightarrow> nat" where
  "request_weight req = Suc (length (bandwidth_increases req))"

definition process_fuel :: "scheduler_request list \<Rightarrow> nat" where
  "process_fuel reqs = Suc (sum_list (map request_weight reqs))"

definition process_bandwidth_requests ::
  "('r \<Rightarrow> scheduler_request list \<Rightarrow> scheduler_request list \<times> 'r) \<Rightarrow>
   scheduler_request list \<Rightarrow> 'r bandwidth_scheduler \<Rightarrow> 'r bandwidth_scheduler option" where
  "process_bandwidth_requests shuffle reqs st =
     do {
       q \<leftarrow> fold_opt (enqueue_by_allowance st) reqs bt_empty;
       process_loop shuffle (process_fuel reqs) st q
     }"

definition distribute_remaining_step ::
  "bandwidth shard_link_map \<Rightarrow> shard_link \<Rightarrow> 'r bandwidth_scheduler \<Rightarrow> 'r bandwidth_scheduler option" where
  "distribute_remaining_step grants link st =
     do {
       g \<leftarrow> slm_get grants link;
       (case g of None \<Rightarrow> Some st | Some remaining_grant \<Rightarrow> grant_more_bandwidth link remaining_grant st)
     }"

definition distribute_remaining :: "'r bandwidth_scheduler \<Rightarrow> 'r bandwidth_scheduler option" where
  "distribute_remaining st =
     do {
       grants \<leftarrow> distribute_remaining_bandwidth (sender_budget st) (receiver_budget st)
                  (is_link_allowed_map st) (bs_layout st);
       fold_opt (distribute_remaining_step grants) (iter_links st) st
     }"

definition unwrap_id :: "shard_layout \<Rightarrow> shard_index \<Rightarrow> shard_id option" where
  "unwrap_id layout i = (case get_shard_id layout i of Inl _ \<Rightarrow> None | Inr sid \<Rightarrow> Some sid)"

definition final_step ::
  "'r bandwidth_scheduler \<Rightarrow> shard_link \<Rightarrow> granted_bandwidth \<Rightarrow> granted_bandwidth option" where
  "final_step st link granted =
     do {
       g \<leftarrow> slm_get (granted_on st) link;
       (case g of
          None \<Rightarrow> Some granted
        | Some bw \<Rightarrow>
            do {
              s \<leftarrow> unwrap_id (bs_layout st) (link_sender link);
              r \<leftarrow> unwrap_id (bs_layout st) (link_receiver link);
              Some (bt_insert (s, r) bw granted)
            })
     }"

definition get_final_granted_bandwidth :: "'r bandwidth_scheduler \<Rightarrow> granted_bandwidth option" where
  "get_final_granted_bandwidth st = fold_opt (final_step st) (iter_links st) bt_empty"

definition state_step ::
  "'r bandwidth_scheduler \<Rightarrow> shard_link \<Rightarrow> link_allowance list \<Rightarrow> link_allowance list option" where
  "state_step st link allowances =
     do {
       a \<leftarrow> slm_get (link_allowances st) link;
       (case a of
          None \<Rightarrow> Some allowances
        | Some allowance \<Rightarrow>
            do {
              s \<leftarrow> unwrap_id (bs_layout st) (link_sender link);
              r \<leftarrow> unwrap_id (bs_layout st) (link_receiver link);
              Some (allowances @ [\<lparr> la_sender = s, la_receiver = r, la_allowance = allowance \<rparr>])
            })
     }"

definition update_scheduler_state ::
  "'r bandwidth_scheduler \<Rightarrow> scheduler_state_v1 \<Rightarrow> scheduler_state_v1 option" where
  "update_scheduler_state st state =
     do {
       allowances \<leftarrow> fold_opt (state_step st) (iter_links st) [];
       Some (state\<lparr>state_link_allowances := allowances\<rparr>)
     }"

definition schedule_bandwidth ::
  "('r \<Rightarrow> scheduler_request list \<Rightarrow> scheduler_request list \<times> 'r) \<Rightarrow>
   scheduler_request list \<Rightarrow> 'r bandwidth_scheduler \<Rightarrow>
   (granted_bandwidth \<times> 'r bandwidth_scheduler) option" where
  "schedule_bandwidth shuffle reqs st =
     do {
       st \<leftarrow> init_budgets st;
       st \<leftarrow> increase_allowances st;
       st \<leftarrow> grant_base_bandwidth st;
       st \<leftarrow> process_bandwidth_requests shuffle reqs st;
       st \<leftarrow> distribute_remaining st;
       granted \<leftarrow> get_final_granted_bandwidth st;
       Some (granted, st)
     }"

section \<open>One run\<close>

definition load_allowance_step ::
  "shard_layout \<Rightarrow> link_allowance \<Rightarrow> bandwidth shard_link_map \<Rightarrow> bandwidth shard_link_map option" where
  "load_allowance_step layout la m =
     (case (get_shard_index layout (la_sender la), get_shard_index layout (la_receiver la)) of
        (Inr s, Inr r) \<Rightarrow> slm_insert m (ShardLink s r) (la_allowance la)
      | _ \<Rightarrow> Some m)"

definition load_status_step ::
  "shard_layout \<Rightarrow> shard_id \<times> shard_status \<Rightarrow> shard_status shard_index_map \<Rightarrow>
   shard_status shard_index_map option" where
  "load_status_step layout = (\<lambda>(sid, status) m.
     (case get_shard_index layout sid of
        Inl _ \<Rightarrow> Some m
      | Inr i \<Rightarrow> sim_insert m i status))"

definition load_allowed_step ::
  "shard_status shard_index_map \<Rightarrow> shard_link \<Rightarrow> bool shard_link_map \<Rightarrow> bool shard_link_map option" where
  "load_allowed_step statuses link m =
     do {
       a \<leftarrow> calculate_is_link_allowed (link_sender link) (link_receiver link) statuses;
       slm_insert m link a
     }"

definition load_request_step ::
  "(byte list \<Rightarrow> nat \<Rightarrow> bool) \<Rightarrow> scheduler_params \<Rightarrow> shard_layout \<Rightarrow> shard_id \<times> bandwidth_requests \<Rightarrow>
   scheduler_request list \<Rightarrow> scheduler_request list option" where
  "load_request_step bits_get params layout = (\<lambda>(sender_shard, shard_requests) reqs.
     (case shard_requests of
        BandwidthRequestsV1 requests \<Rightarrow>
          fold_opt (\<lambda>req reqs.
              do {
                r \<leftarrow> scheduler_request_new bits_get sender_shard req params layout;
                (case r of None \<Rightarrow> Some reqs | Some r \<Rightarrow> Some (reqs @ [r]))
              }) requests reqs))"

definition scheduler_run ::
  "(byte list \<Rightarrow> nat \<Rightarrow> bool) \<Rightarrow> (byte list \<Rightarrow> 'r) \<Rightarrow>
   ('r \<Rightarrow> scheduler_request list \<Rightarrow> scheduler_request list \<times> 'r) \<Rightarrow>
   shard_layout \<Rightarrow> scheduler_state \<Rightarrow> scheduler_params \<Rightarrow> block_bandwidth_requests \<Rightarrow>
   (shard_id, shard_status) btree \<Rightarrow> byte list \<Rightarrow> (granted_bandwidth \<times> scheduler_state) option" where
  "scheduler_run bits_get from_seed shuffle layout state params requests shards_status rng_seed =
     (if num_shards layout = 0 then Some (bt_empty, state)
      else
        (case state of
           SchedulerStateV1 v1 \<Rightarrow>
             do {
               empty_allowances \<leftarrow> slm_new layout;
               allowances \<leftarrow> fold_opt (load_allowance_step layout) (state_link_allowances v1) empty_allowances;
               statuses \<leftarrow> fold_opt (load_status_step layout) shards_status (sim_new layout);
               empty_allowed \<leftarrow> slm_new layout;
               allowed \<leftarrow> fold_opt (load_allowed_step statuses) (links (num_shards layout)) empty_allowed;
               reqs \<leftarrow> fold_opt (load_request_step bits_get params layout) requests [];
               granted0 \<leftarrow> slm_new layout;
               (granted, st) \<leftarrow> schedule_bandwidth shuffle reqs
                  \<lparr> bs_layout = layout, bs_params = params, is_link_allowed_map = allowed,
                    sender_budget = sim_new layout, receiver_budget = sim_new layout,
                    link_allowances = allowances, granted_on = granted0, bs_rng = from_seed rng_seed \<rparr>;
               v1' \<leftarrow> update_scheduler_state st v1;
               Some (granted, SchedulerStateV1 v1')
             }))"

section \<open>The request queue\<close>

text \<open>
  What the processing loop relies on: a queue of buckets, where a push adds one request and a pop
  takes a nonempty bucket of the greatest key out.
\<close>

locale bucket_queue =
  fixes push :: "'k::linorder \<Rightarrow> 'a \<Rightarrow> 'q \<Rightarrow> 'q"
    and pop :: "'q \<Rightarrow> (('k \<times> 'a list) \<times> 'q) option"
    and content :: "'q \<Rightarrow> 'a multiset"
    and priorities :: "'q \<Rightarrow> 'k set"
    and invar :: "'q \<Rightarrow> bool"
  assumes content_push: "invar q \<Longrightarrow> content (push k x q) = add_mset x (content q)"
    and invar_push: "invar q \<Longrightarrow> invar (push k x q)"
    and pop_None: "invar q \<Longrightarrow> pop q = None \<Longrightarrow> content q = {#}"
    and content_pop: "invar q \<Longrightarrow> pop q = Some ((k, xs), q') \<Longrightarrow> content q = mset xs + content q'"
    and invar_pop: "invar q \<Longrightarrow> pop q = Some ((k, xs), q') \<Longrightarrow> invar q'"
    and pop_nonempty: "invar q \<Longrightarrow> pop q = Some ((k, xs), q') \<Longrightarrow> xs \<noteq> []"
    and pop_greatest: "invar q \<Longrightarrow> pop q = Some ((k, xs), q') \<Longrightarrow> k' \<in> priorities q' \<Longrightarrow> k' < k"
begin

lemma weight_push: "invar q \<Longrightarrow> (\<Sum>y\<in>#content (push k x q). w y) = w x + (\<Sum>y\<in>#content q. (w y :: nat))"
  by (simp add: content_push)

lemma weight_pop:
  assumes "invar q" and "pop q = Some ((k, xs), q')"
  shows "(\<Sum>y\<in>#content q. (w y :: nat)) = sum_list (map w xs) + (\<Sum>y\<in>#content q'. w y)"
proof -
  have "(\<Sum>y\<in>#mset xs. w y) = sum_list (map w xs)" by (metis mset_map sum_mset_sum_list)
  then show ?thesis by (simp add: content_pop [OF assms])
qed

end

definition queue_content :: "request_queue \<Rightarrow> scheduler_request multiset" where
  "queue_content q = mset (concat (map snd q))"

definition queue_inv :: "request_queue \<Rightarrow> bool" where
  "queue_inv q \<longleftrightarrow> bt_inv q \<and> [] \<notin> snd ` set q"

lemma bt_get_lt_None: "bt_inv ((k', v) # q) \<Longrightarrow> k < k' \<Longrightarrow> bt_get q k = None"
  by (force simp: bt_inv_Cons bt_get_def map_of_eq_None_iff)

lemma queue_content_push:
  "bt_inv q \<Longrightarrow> queue_content (bt_insert k (unwrap_or [] (bt_get q k) @ [x]) q) = add_mset x (queue_content q)"
proof (induction q)
  case Nil
  then show ?case by (simp add: queue_content_def bt_get_def)
next
  case (Cons kv q)
  obtain k' v where kv: "kv = (k', v)" by (cases kv)
  with Cons.prems have q: "bt_inv q" by (simp add: bt_inv_Cons)
  consider "k < k'" | "k = k'" | "k' < k" by fastforce
  then show ?case
  proof cases
    case 1
    then have "bt_get ((k', v) # q) k = None"
      using bt_get_lt_None [OF Cons.prems [unfolded kv]] by (simp add: bt_get_def)
    with 1 show ?thesis by (simp add: kv queue_content_def)
  next
    case 2
    then show ?thesis by (simp add: kv queue_content_def bt_get_def)
  next
    case 3
    then have "bt_get ((k', v) # q) k = bt_get q k" by (simp add: bt_get_def)
    with 3 Cons.IH [OF q] show ?thesis by (simp add: kv queue_content_def)
  qed
qed

lemma bt_insert_snd: "snd ` set (bt_insert k v m) \<subseteq> insert v (snd ` set m)"
  by (induction k v m rule: bt_insert.induct) auto

lemma bt_inv_append: "bt_inv (q @ [(k, v)]) \<longleftrightarrow> bt_inv q \<and> (\<forall>k'\<in>fst ` set q. k' < k)"
  by (auto simp: bt_inv_def sorted_wrt_append)

lemma bt_pop_last_Some: "bt_pop_last q = Some ((k, v), q') \<longleftrightarrow> q = q' @ [(k, v)]"
  by (cases q rule: rev_cases) (auto simp: bt_pop_last_def)

interpretation rq: bucket_queue queue_push bt_pop_last queue_content "\<lambda>q. fst ` set q" queue_inv
proof unfold_locales
  fix q :: request_queue and k k' x xs q'
  assume q: "queue_inv q"
  show "queue_content (queue_push k x q) = add_mset x (queue_content q)"
    using q by (simp add: queue_push_def queue_content_push queue_inv_def)
  show "queue_inv (queue_push k x q)"
    using q bt_insert_snd [of k "unwrap_or [] (bt_get q k) @ [x]" q]
    by (auto simp: queue_push_def queue_inv_def bt_insert_inv)
  show "queue_content q = {#}" if "bt_pop_last q = None"
    using that by (simp add: bt_pop_last_def queue_content_def split: if_splits)
  assume "bt_pop_last q = Some ((k, xs), q')"
  then have split: "q = q' @ [(k, xs)]" by (simp add: bt_pop_last_Some)
  then show "queue_content q = mset xs + queue_content q'" by (simp add: queue_content_def)
  show "queue_inv q'" "xs \<noteq> []" using q split by (auto simp: queue_inv_def bt_inv_append)
  show "k' < k" if "k' \<in> fst ` set q'" using q split that by (auto simp: queue_inv_def bt_inv_append)
qed

section \<open>The invariant of the scheduler\<close>

abbreviation sbud :: "'r bandwidth_scheduler \<Rightarrow> shard_index \<Rightarrow> nat" where
  "sbud st s \<equiv> unwrap_or 0 (sim_view (sender_budget st) s)"

abbreviation rbud :: "'r bandwidth_scheduler \<Rightarrow> shard_index \<Rightarrow> nat" where
  "rbud st r \<equiv> unwrap_or 0 (sim_view (receiver_budget st) r)"

abbreviation granted_at :: "'r bandwidth_scheduler \<Rightarrow> shard_index \<Rightarrow> shard_index \<Rightarrow> nat" where
  "granted_at st s r \<equiv> grant_of (granted_on st) s r"

abbreviation link_open :: "'r bandwidth_scheduler \<Rightarrow> shard_index \<Rightarrow> shard_index \<Rightarrow> bool" where
  "link_open st s r \<equiv> allowed_view (is_link_allowed_map st) s r"

definition sched_wf :: "nat \<Rightarrow> 'r bandwidth_scheduler \<Rightarrow> bool" where
  "sched_wf n st \<longleftrightarrow>
     num_shards (bs_layout st) = n \<and> length (sender_budget st) = n \<and> length (receiver_budget st) = n \<and>
     slm_wf n (is_link_allowed_map st) \<and> slm_wf n (link_allowances st) \<and> slm_wf n (granted_on st) \<and>
     max_shard_bandwidth (bs_params st) < 2 ^ 64"

text \<open>Every budget is split exactly between what is left and what was granted.\<close>

definition budgets_ok :: "nat \<Rightarrow> 'r bandwidth_scheduler \<Rightarrow> bool" where
  "budgets_ok n st \<longleftrightarrow>
     (\<forall>s<n. sbud st s + (\<Sum>r<n. granted_at st s r) = max_shard_bandwidth (bs_params st)) \<and>
     (\<forall>r<n. rbud st r + (\<Sum>s<n. granted_at st s r) = max_shard_bandwidth (bs_params st))"

definition grants_open :: "nat \<Rightarrow> 'r bandwidth_scheduler \<Rightarrow> bool" where
  "grants_open n st \<longleftrightarrow>
     (\<forall>s<n. \<forall>r<n. slm_view (granted_on st) (ShardLink s r) \<noteq> None \<longrightarrow> link_open st s r)"

definition allowances_ok :: "nat \<Rightarrow> 'r bandwidth_scheduler \<Rightarrow> bool" where
  "allowances_ok n st \<longleftrightarrow>
     (\<forall>k\<in>in_range n. \<exists>a. slm_view (link_allowances st) k = Some a \<and> a \<le> max_allowance (bs_params st))"

definition sched_inv :: "nat \<Rightarrow> 'r bandwidth_scheduler \<Rightarrow> bool" where
  "sched_inv n st \<longleftrightarrow> sched_wf n st \<and> budgets_ok n st \<and> grants_open n st \<and> allowances_ok n st"

text \<open>Later states have the same configuration, and grants are never taken back.\<close>

definition extends :: "nat \<Rightarrow> 'r bandwidth_scheduler \<Rightarrow> 'r bandwidth_scheduler \<Rightarrow> bool" where
  "extends n st st' \<longleftrightarrow>
     bs_layout st' = bs_layout st \<and> bs_params st' = bs_params st \<and>
     is_link_allowed_map st' = is_link_allowed_map st \<and>
     (\<forall>s<n. \<forall>r<n. granted_at st s r \<le> granted_at st' s r)"

lemma extends_refl [simp]: "extends n st st"
  by (simp add: extends_def)

lemma extends_trans [trans]: "extends n st st' \<Longrightarrow> extends n st' st'' \<Longrightarrow> extends n st st''"
  unfolding extends_def by (metis le_trans)

lemma sum_cell_update:
  fixes f g :: "nat \<Rightarrow> nat"
  assumes "r < n" and "\<And>k. k < n \<Longrightarrow> g k = (if k = r then f r + x else f k)"
  shows "(\<Sum>k<n. g k) = (\<Sum>k<n. f k) + x"
proof -
  have "(\<Sum>k<n. g k) = (\<Sum>k<n. (f(r := f r + x)) k)" using assms(2) by (intro sum.cong) auto
  with sum_fun_upd [of "{..<n}" r f "f r + x"] assms(1) show ?thesis by simp
qed

lemma grant_sums:
  assumes "s < n" and "r < n"
    and "\<And>s' r'. s' < n \<Longrightarrow> r' < n \<Longrightarrow>
      grant_of g' s' r' = (if s' = s \<and> r' = r then grant_of g s r + x else grant_of g s' r')"
  shows "s' < n \<Longrightarrow> (\<Sum>r'<n. grant_of g' s' r') = (\<Sum>r'<n. grant_of g s' r') + (if s' = s then x else 0)"
    and "r' < n \<Longrightarrow> (\<Sum>s'<n. grant_of g' s' r') = (\<Sum>s'<n. grant_of g s' r') + (if r' = r then x else 0)"
proof -
  show "(\<Sum>r'<n. grant_of g' s' r') = (\<Sum>r'<n. grant_of g s' r') + (if s' = s then x else 0)" if "s' < n"
    using assms that by (cases "s' = s") (auto intro: sum_cell_update [of r] sum.cong)
  show "(\<Sum>s'<n. grant_of g' s' r') = (\<Sum>s'<n. grant_of g s' r') + (if r' = r then x else 0)" if "r' < n"
    using assms that by (cases "r' = r") (auto intro: sum_cell_update [of s] sum.cong)
qed

lemma granted_at_bound:
  assumes "budgets_ok n st" and "s < n" and "r < n"
  shows "granted_at st s r + sbud st s \<le> max_shard_bandwidth (bs_params st)"
proof -
  have "granted_at st s r \<le> (\<Sum>r<n. granted_at st s r)" using assms(3) by (intro member_le_sum) auto
  then show ?thesis using assms(1,2) by (simp add: budgets_ok_def) (metis add.commute add_left_mono)
qed

section \<open>Operations on one link\<close>

lemma grant_more_ok:
  assumes "slm_wf n (granted_on st)" and "s < n" and "r < n" and "granted_at st s r + bw < 2 ^ 64"
  obtains g' where "grant_more_bandwidth (ShardLink s r) bw st = Some (st\<lparr>granted_on := g'\<rparr>)" "slm_wf n g'"
    "\<And>s' r'. s' < n \<Longrightarrow> r' < n \<Longrightarrow> slm_view g' (ShardLink s' r') =
      (if s' = s \<and> r' = r then Some (granted_at st s r + bw) else slm_view (granted_on st) (ShardLink s' r'))"
proof -
  have mem: "ShardLink s r \<in> in_range n" using assms(2,3) by simp
  obtain g' where g': "slm_insert (granted_on st) (ShardLink s r) (granted_at st s r + bw) = Some g'" "slm_wf n g'"
      "\<And>k. k \<in> in_range n \<Longrightarrow> slm_view g' k =
        (if k = ShardLink s r then Some (granted_at st s r + bw) else slm_view (granted_on st) k)"
    using slm.ins_ok [OF assms(1) mem, of "granted_at st s r + bw"] by blast
  show thesis
  proof (rule that)
    show "grant_more_bandwidth (ShardLink s r) bw st = Some (st\<lparr>granted_on := g'\<rparr>)"
      using g'(1) assms(4) slm.get_view [OF assms(1) mem]
      by (simp add: grant_more_bandwidth_def checked_add_def grant_of_def)
  qed (use g' in auto)
qed

lemma decrease_allowance_ok:
  assumes "slm_wf n (link_allowances st)" and "allowances_ok n st" and "link \<in> in_range n"
  obtains m where "decrease_allowance link bw st = Some (st\<lparr>link_allowances := m\<rparr>)" "slm_wf n m"
    "allowances_ok n (st\<lparr>link_allowances := m\<rparr>)"
proof -
  obtain a where a: "slm_view (link_allowances st) link = Some a" "a \<le> max_allowance (bs_params st)"
    using assms(2,3) by (auto simp: allowances_ok_def)
  obtain m where m: "slm_insert (link_allowances st) link (a - bw) = Some m" "slm_wf n m"
      "\<And>k. k \<in> in_range n \<Longrightarrow> slm_view m k = (if k = link then Some (a - bw) else slm_view (link_allowances st) k)"
    using slm.ins_ok [OF assms(1,3), of "a - bw"] by blast
  have "decrease_allowance link bw st = Some (st\<lparr>link_allowances := m\<rparr>)"
    using m(1) a slm.get_view [OF assms(1,3)]
    by (simp add: decrease_allowance_def get_allowance_def saturating_sub_def)
  moreover have "allowances_ok n (st\<lparr>link_allowances := m\<rparr>)"
    unfolding allowances_ok_def
  proof
    fix k assume k: "k \<in> in_range n"
    obtain b where "slm_view (link_allowances st) k = Some b" "b \<le> max_allowance (bs_params st)"
      using assms(2) k unfolding allowances_ok_def by blast
    with m(3) [OF k] a(2) show "\<exists>a. slm_view (link_allowances (st\<lparr>link_allowances := m\<rparr>)) k = Some a \<and>
        a \<le> max_allowance (bs_params (st\<lparr>link_allowances := m\<rparr>))" by (cases "k = link") simp_all
  qed
  ultimately show thesis using that m(2) by blast
qed

text \<open>
  The specification of \<open>try_grant_bandwidth\<close>: it grants exactly when the link is open and both budgets
  suffice; a grant moves the amount from both budgets to the link, a refusal changes nothing.
\<close>

definition grantable :: "'r bandwidth_scheduler \<Rightarrow> shard_index \<Rightarrow> shard_index \<Rightarrow> bandwidth \<Rightarrow> bool" where
  "grantable st s r bw \<longleftrightarrow> link_open st s r \<and> bw \<le> sbud st s \<and> bw \<le> rbud st r"

definition moved :: "nat \<Rightarrow> shard_index \<Rightarrow> shard_index \<Rightarrow> bandwidth \<Rightarrow>
    'r bandwidth_scheduler \<Rightarrow> 'r bandwidth_scheduler \<Rightarrow> bool" where
  "moved n s r bw st st' \<longleftrightarrow>
     bs_layout st' = bs_layout st \<and> bs_params st' = bs_params st \<and>
     is_link_allowed_map st' = is_link_allowed_map st \<and>
     (\<forall>s'<n. sbud st' s' = (if s' = s then sbud st s - bw else sbud st s')) \<and>
     (\<forall>r'<n. rbud st' r' = (if r' = r then rbud st r - bw else rbud st r')) \<and>
     (\<forall>s'<n. \<forall>r'<n. slm_view (granted_on st') (ShardLink s' r') =
        (if s' = s \<and> r' = r then Some (granted_at st s r + bw) else slm_view (granted_on st) (ShardLink s' r')))"

lemma moved_granted_at:
  assumes "moved n s r bw st st'" and "s' < n" and "r' < n"
  shows "granted_at st' s' r' = (if s' = s \<and> r' = r then granted_at st s r + bw else granted_at st s' r')"
  using assms unfolding moved_def grant_of_def by simp

lemma moved_extends: "moved n s r bw st st' \<Longrightarrow> extends n st st'"
  using moved_granted_at [of n s r bw st st'] by (simp add: extends_def moved_def)

lemma moved_inv:
  assumes "moved n s r bw st st'" and "sched_inv n st" and "s < n" and "r < n" and "grantable st s r bw"
    and "sched_wf n st'" and "allowances_ok n st'"
  shows "sched_inv n st'"
proof -
  have sums: "s' < n \<Longrightarrow> (\<Sum>r'<n. granted_at st' s' r') = (\<Sum>r'<n. granted_at st s' r') + (if s' = s then bw else 0)"
    "r' < n \<Longrightarrow> (\<Sum>s'<n. granted_at st' s' r') = (\<Sum>s'<n. granted_at st s' r') + (if r' = r then bw else 0)" for s' r'
    by (rule grant_sums [OF assms(3,4) moved_granted_at [OF assms(1)]]; assumption)+
  have P: "bs_params st' = bs_params st" using assms(1) by (simp add: moved_def)
  have bud: "budgets_ok n st" and op: "grants_open n st" using assms(2) by (simp_all add: sched_inv_def)
  have le: "bw \<le> sbud st s" "bw \<le> rbud st r" using assms(5) by (simp_all add: grantable_def)
  have S: "sbud st' s' + (\<Sum>r'<n. granted_at st' s' r') = max_shard_bandwidth (bs_params st')" if "s' < n" for s'
  proof -
    have "sbud st' s' = (if s' = s then sbud st s - bw else sbud st s')" using assms(1) that by (simp add: moved_def)
    moreover have "sbud st s' + (\<Sum>r'<n. granted_at st s' r') = max_shard_bandwidth (bs_params st)"
      using bud that by (simp add: budgets_ok_def)
    ultimately show ?thesis using sums(1) [OF that] le(1) P by (cases "s' = s") simp_all
  qed
  have R: "rbud st' r' + (\<Sum>s'<n. granted_at st' s' r') = max_shard_bandwidth (bs_params st')" if "r' < n" for r'
  proof -
    have "rbud st' r' = (if r' = r then rbud st r - bw else rbud st r')" using assms(1) that by (simp add: moved_def)
    moreover have "rbud st r' + (\<Sum>s'<n. granted_at st s' r') = max_shard_bandwidth (bs_params st)"
      using bud that by (simp add: budgets_ok_def)
    ultimately show ?thesis using sums(2) [OF that] le(2) P by (cases "r' = r") simp_all
  qed
  have "grants_open n st'"
    using op assms(1,5) unfolding grants_open_def moved_def grantable_def by metis
  with S R assms(6,7) show ?thesis by (simp add: sched_inv_def budgets_ok_def)
qed

lemma is_link_allowed_view:
  "sched_wf n st \<Longrightarrow> s < n \<Longrightarrow> r < n \<Longrightarrow> is_link_allowed st (ShardLink s r) = Some (link_open st s r)"
  by (simp add: is_link_allowed_def link_allowed_in_view [of n] sched_wf_def)

lemma try_grant_refused:
  assumes "sched_wf n st" and "s < n" and "r < n" and "\<not> grantable st s r bw"
  shows "try_grant_bandwidth (ShardLink s r) bw st = Some (NotGranted, st)"
proof -
  have "is_link_allowed st (ShardLink s r) = Some (link_open st s r)"
    by (rule is_link_allowed_view [OF assms(1-3)])
  moreover have "sim_get (sender_budget st) s = Some (sim_view (sender_budget st) s)"
    "sim_get (receiver_budget st) r = Some (sim_view (receiver_budget st) r)"
    using assms(1-3) by (auto simp: sched_wf_def sim.get_view)
  ultimately show ?thesis using assms(4) by (auto simp: try_grant_bandwidth_def grantable_def)
qed

lemma try_grant_granted:
  assumes "sched_inv n st" and "s < n" and "r < n" and "grantable st s r bw"
  shows "\<exists>st'. try_grant_bandwidth (ShardLink s r) bw st = Some (Granted, st') \<and>
    sched_inv n st' \<and> moved n s r bw st st'"
proof -
  have wf: "sched_wf n st" and al: "allowances_ok n st" and bud: "budgets_ok n st"
    using assms(1) by (simp_all add: sched_inv_def)
  have len: "length (sender_budget st) = n" "length (receiver_budget st) = n"
    and slm: "slm_wf n (link_allowances st)" "slm_wf n (granted_on st)" using wf by (simp_all add: sched_wf_def)
  have le: "bw \<le> sbud st s" "bw \<le> rbud st r" and op: "link_open st s r"
    using assms(4) by (simp_all add: grantable_def)
  obtain sm where sm: "sim_insert (sender_budget st) s (sbud st s - bw) = Some sm" "length sm = n"
      "\<And>k. k \<in> {..<n} \<Longrightarrow> sim_view sm k = (if k = s then Some (sbud st s - bw) else sim_view (sender_budget st) k)"
    using sim.ins_ok [OF len(1), of s "sbud st s - bw"] assms(2) by blast
  obtain rm where rm: "sim_insert (receiver_budget st) r (rbud st r - bw) = Some rm" "length rm = n"
      "\<And>k. k \<in> {..<n} \<Longrightarrow> sim_view rm k = (if k = r then Some (rbud st r - bw) else sim_view (receiver_budget st) k)"
    using sim.ins_ok [OF len(2), of r "rbud st r - bw"] assms(3) by blast
  define st1 where "st1 = st\<lparr>sender_budget := sm, receiver_budget := rm\<rparr>"
  have mem: "ShardLink s r \<in> in_range n" using assms(2,3) by simp
  have st1: "slm_wf n (link_allowances st1)" "allowances_ok n st1"
    using slm(1) al by (simp_all add: st1_def allowances_ok_def)
  obtain am where am: "decrease_allowance (ShardLink s r) bw st1 = Some (st1\<lparr>link_allowances := am\<rparr>)" "slm_wf n am"
      "allowances_ok n (st1\<lparr>link_allowances := am\<rparr>)"
    by (rule decrease_allowance_ok [OF st1 mem])
  have "granted_at st s r + bw < 2 ^ 64"
    using granted_at_bound [OF bud assms(2,3)] le(1) wf by (simp add: sched_wf_def)
  then have fit: "granted_at (st1\<lparr>link_allowances := am\<rparr>) s r + bw < 2 ^ 64" by (simp add: st1_def)
  have gwf: "slm_wf n (granted_on (st1\<lparr>link_allowances := am\<rparr>))" using slm(2) by (simp add: st1_def)
  obtain g' where g': "grant_more_bandwidth (ShardLink s r) bw (st1\<lparr>link_allowances := am\<rparr>) =
        Some (st1\<lparr>link_allowances := am, granted_on := g'\<rparr>)" "slm_wf n g'"
      "\<And>s' r'. s' < n \<Longrightarrow> r' < n \<Longrightarrow> slm_view g' (ShardLink s' r') =
        (if s' = s \<and> r' = r then Some (granted_at (st1\<lparr>link_allowances := am\<rparr>) s r + bw)
         else slm_view (granted_on (st1\<lparr>link_allowances := am\<rparr>)) (ShardLink s' r'))"
    by (rule grant_more_ok [OF gwf assms(2,3) fit]) simp
  define st' where "st' = st1\<lparr>link_allowances := am, granted_on := g'\<rparr>"
  have allowed: "is_link_allowed st (ShardLink s r) = Some True"
    using is_link_allowed_view [OF wf assms(2,3)] op by simp
  have get: "sim_get (sender_budget st) s = Some (sim_view (sender_budget st) s)"
    "sim_get (receiver_budget st) r = Some (sim_view (receiver_budget st) r)"
    using len assms(2,3) sim.get_view by simp_all
  have run: "try_grant_bandwidth (ShardLink s r) bw st = Some (Granted, st')"
    using allowed get le sm(1) rm(1) am(1) g'(1)
    by (simp add: try_grant_bandwidth_def checked_sub_def st1_def [symmetric] st'_def not_less)
  have mv: "moved n s r bw st st'"
    using sm(3) rm(3) g'(3) by (simp add: moved_def st'_def st1_def)
  have "sched_wf n st'" using wf sm(2) rm(2) am(2) g'(2) by (simp add: sched_wf_def st'_def st1_def)
  moreover have "allowances_ok n st'" using am(3) by (simp add: allowances_ok_def st'_def)
  ultimately have "sched_inv n st'" by (rule moved_inv [OF mv assms])
  with run mv show ?thesis by blast
qed

text \<open>A single lemma for both outcomes, as the loops use it.\<close>

lemma try_grant_ok:
  assumes "sched_inv n st" and "link \<in> in_range n"
  shows "\<exists>out st'. try_grant_bandwidth link bw st = Some (out, st') \<and> sched_inv n st' \<and> extends n st st'"
proof -
  obtain s r where link: "link = ShardLink s r" by (cases link)
  with assms(2) have lt: "s < n" "r < n" by simp_all
  show ?thesis
  proof (cases "grantable st s r bw")
    case True
    from try_grant_granted [OF assms(1) lt True] obtain st' where
      "try_grant_bandwidth link bw st = Some (Granted, st')" "sched_inv n st'" "moved n s r bw st st'"
      unfolding link by blast
    then show ?thesis using moved_extends by blast
  next
    case False
    have "sched_wf n st" using assms(1) by (simp add: sched_inv_def)
    from try_grant_refused [OF this lt False] assms(1) show ?thesis unfolding link by auto
  qed
qed

section \<open>The phases\<close>

lemma iter_links_eq: "sched_wf n st \<Longrightarrow> iter_links st = links n"
  by (simp add: iter_links_def sched_wf_def)

lemma links_in_range: "set (links n) = in_range n"
proof -
  have "k \<in> set (links n) \<longleftrightarrow> k \<in> in_range n" for k by (cases k) (auto simp: set_links)
  then show ?thesis by blast
qed

lemma fill_budget:
  assumes "length m = n"
  shows "\<exists>m'. fold_opt (\<lambda>i m. sim_insert m i v) [0..<n] m = Some m' \<and> length m' = n \<and>
    (\<forall>i<n. sim_view m' i = Some v)"
proof -
  have "set [0..<n] \<subseteq> {..<n}" by auto
  from sim.fill_ok [OF assms this, of "\<lambda>_. v"] show ?thesis by auto
qed

text \<open>The state right after its construction in \<open>run\<close>.\<close>

definition fresh :: "nat \<Rightarrow> 'r bandwidth_scheduler \<Rightarrow> bool" where
  "fresh n st \<longleftrightarrow> sched_wf n st \<and> (\<forall>k\<in>in_range n. slm_view (granted_on st) k = None)"

lemma init_budgets_ok:
  assumes "fresh n st"
  obtains sm rm where "init_budgets st = Some (st\<lparr>sender_budget := sm, receiver_budget := rm\<rparr>)"
    "sched_wf n (st\<lparr>sender_budget := sm, receiver_budget := rm\<rparr>)"
    "budgets_ok n (st\<lparr>sender_budget := sm, receiver_budget := rm\<rparr>)"
    "grants_open n (st\<lparr>sender_budget := sm, receiver_budget := rm\<rparr>)"
proof -
  have wf: "sched_wf n st" and new: "\<forall>k\<in>in_range n. slm_view (granted_on st) k = None"
    using assms by (simp_all add: fresh_def)
  have len: "length (sender_budget st) = n" "length (receiver_budget st) = n"
    using wf by (simp_all add: sched_wf_def)
  let ?M = "max_shard_bandwidth (bs_params st)"
  obtain sm where sm: "fold_opt (\<lambda>i m. sim_insert m i ?M) [0..<n] (sender_budget st) = Some sm" "length sm = n"
      "\<And>i. i < n \<Longrightarrow> sim_view sm i = Some ?M"
    using fill_budget [OF len(1), of ?M] by blast
  obtain rm where rm: "fold_opt (\<lambda>i m. sim_insert m i ?M) [0..<n] (receiver_budget st) = Some rm" "length rm = n"
      "\<And>i. i < n \<Longrightarrow> sim_view rm i = Some ?M"
    using fill_budget [OF len(2), of ?M] by blast
  have zero: "granted_at st s r = 0" if "s < n" "r < n" for s r using new that by (simp add: grant_of_def)
  show thesis
  proof (rule that)
    show "init_budgets st = Some (st\<lparr>sender_budget := sm, receiver_budget := rm\<rparr>)"
      using sm(1) rm(1) wf by (simp add: init_budgets_def shard_indexes_def sched_wf_def)
    show "sched_wf n (st\<lparr>sender_budget := sm, receiver_budget := rm\<rparr>)"
      using wf sm(2) rm(2) by (simp add: sched_wf_def)
    show "budgets_ok n (st\<lparr>sender_budget := sm, receiver_budget := rm\<rparr>)"
      using sm(3) rm(3) zero by (simp add: budgets_ok_def)
    show "grants_open n (st\<lparr>sender_budget := sm, receiver_budget := rm\<rparr>)"
      using new by (simp add: grants_open_def)
  qed
qed

lemma increase_allowance_ok:
  assumes "slm_wf n (link_allowances st)" and "link \<in> in_range n"
  obtains m a where "increase_allowance link bw st = Some (st\<lparr>link_allowances := m\<rparr>)" "slm_wf n m"
    "a \<le> max_allowance (bs_params st)"
    "\<And>k. k \<in> in_range n \<Longrightarrow> slm_view m k = (if k = link then Some a else slm_view (link_allowances st) k)"
proof -
  let ?new = "saturating_add u64_w (unwrap_or default_link_allowance (slm_view (link_allowances st) link)) bw"
  let ?cap = "max_allowance (bs_params st)"
  define a where "a = (if ?new > ?cap then ?cap else ?new)"
  obtain m where m: "slm_insert (link_allowances st) link a = Some m" "slm_wf n m"
      "\<And>k. k \<in> in_range n \<Longrightarrow> slm_view m k = (if k = link then Some a else slm_view (link_allowances st) k)"
    using slm.ins_ok [OF assms, of a] by blast
  show thesis
  proof (rule that)
    show "increase_allowance link bw st = Some (st\<lparr>link_allowances := m\<rparr>)"
      using m(1) slm.get_view [OF assms]
      by (simp add: increase_allowance_def get_allowance_def Let_def a_def [symmetric])
    show "a \<le> ?cap" by (simp add: a_def)
  qed (use m in auto)
qed

lemma increase_allowances_ok:
  assumes "sched_wf n st" and "0 < n"
  shows "\<exists>m. increase_allowances st = Some (st\<lparr>link_allowances := m\<rparr>) \<and> slm_wf n m \<and>
    allowances_ok n (st\<lparr>link_allowances := m\<rparr>)"
proof -
  let ?P = "\<lambda>ls st'. \<exists>m. st' = st\<lparr>link_allowances := m\<rparr> \<and> slm_wf n m \<and> set ls \<subseteq> in_range n \<and>
    (\<forall>k\<in>in_range n - set ls. \<exists>a. slm_view m k = Some a \<and> a \<le> max_allowance (bs_params st))"
  define fair where "fair = max_shard_bandwidth (bs_params st) div n"
  have "\<exists>st'. fold_opt (\<lambda>link. increase_allowance link fair) (links n) st = Some st' \<and> ?P [] st'"
  proof (rule fold_opt_inv_list [where P = ?P])
    show "?P (links n) st"
      using assms(1) by (intro exI [of _ "link_allowances st"]) (simp add: sched_wf_def links_in_range)
    fix l ls st' assume "?P (l # ls) st'"
    then obtain m where m: "st' = st\<lparr>link_allowances := m\<rparr>" "slm_wf n m" "l \<in> in_range n" "set ls \<subseteq> in_range n"
        "\<forall>k\<in>in_range n - set (l # ls). \<exists>a. slm_view m k = Some a \<and> a \<le> max_allowance (bs_params st)" by auto
    have "slm_wf n (link_allowances st')" using m by simp
    then obtain m' a where m': "increase_allowance l fair st' = Some (st'\<lparr>link_allowances := m'\<rparr>)" "slm_wf n m'"
        "a \<le> max_allowance (bs_params st')"
        "\<And>k. k \<in> in_range n \<Longrightarrow> slm_view m' k = (if k = l then Some a else slm_view (link_allowances st') k)"
      using increase_allowance_ok m(3) by blast
    have "\<forall>k\<in>in_range n - set ls. \<exists>a. slm_view m' k = Some a \<and> a \<le> max_allowance (bs_params st)"
    proof
      fix k assume k: "k \<in> in_range n - set ls"
      show "\<exists>a. slm_view m' k = Some a \<and> a \<le> max_allowance (bs_params st)"
      proof (cases "k = l")
        case True
        with m' m(1,3) show ?thesis by simp
      next
        case False
        with k m(5) m'(4) [of k] m(1) show ?thesis by simp
      qed
    qed
    then have "?P ls (st'\<lparr>link_allowances := m'\<rparr>)" using m'(2) m(1,4) by (intro exI [of _ m']) simp
    with m'(1) show "\<exists>st''. increase_allowance l fair st' = Some st'' \<and> ?P ls st''" by blast
  qed
  moreover have "increase_allowances st = fold_opt (\<lambda>link. increase_allowance link fair) (links n) st"
    using assms by (simp add: increase_allowances_def sched_wf_def iter_links_def checked_div_def fair_def)
  ultimately show ?thesis by (auto simp: allowances_ok_def)
qed

lemma row_with_gap:
  fixes f :: "nat \<Rightarrow> nat"
  assumes "k < n" and "f k = 0" and "\<And>i. i < n \<Longrightarrow> f i \<le> b"
  shows "(\<Sum>i<n. f i) + b \<le> n * b"
proof -
  have "(\<Sum>i<n. f i) = (\<Sum>i\<in>{..<n} - {k}. f i)" using assms(1,2) by (simp add: sum.remove)
  also have "\<dots> \<le> (n - 1) * b" using assms(1,3) sum_bounded_above [of "{..<n} - {k}" f b] by simp
  finally have "(\<Sum>i<n. f i) + b \<le> (n - 1) * b + b" by simp
  also have "\<dots> = n * b" using assms(1) by (cases n) simp_all
  finally show ?thesis .
qed

text \<open>With room for the base bandwidth of all links, every open link gets it.\<close>

lemma grant_base_ok:
  assumes "sched_inv n st" and "\<And>s r. s < n \<Longrightarrow> r < n \<Longrightarrow> granted_at st s r = 0"
  shows "\<exists>st'. grant_base_bandwidth st = Some st' \<and> sched_inv n st' \<and> extends n st st' \<and>
    (n * base_bandwidth (bs_params st) \<le> max_shard_bandwidth (bs_params st) \<longrightarrow>
      (\<forall>s<n. \<forall>r<n. link_open st s r \<longrightarrow> granted_at st' s r = base_bandwidth (bs_params st)))"
proof -
  let ?b = "base_bandwidth (bs_params st)" and ?M = "max_shard_bandwidth (bs_params st)"
  let ?P = "\<lambda>ls st'. sched_inv n st' \<and> extends n st st' \<and> set ls \<subseteq> in_range n \<and> distinct ls \<and>
    (\<forall>s<n. \<forall>r<n. granted_at st' s r \<le> ?b) \<and>
    (\<forall>s<n. \<forall>r<n. ShardLink s r \<in> set ls \<longrightarrow> granted_at st' s r = 0) \<and>
    (n * ?b \<le> ?M \<longrightarrow> (\<forall>s<n. \<forall>r<n. ShardLink s r \<notin> set ls \<longrightarrow> link_open st s r \<longrightarrow> granted_at st' s r = ?b))"
  let ?f = "\<lambda>link st. map_option snd (try_grant_bandwidth link (base_bandwidth (bs_params st)) st)"
  have wf: "sched_wf n st" using assms(1) by (simp add: sched_inv_def)
  have "\<exists>st'. fold_opt ?f (links n) st = Some st' \<and> ?P [] st'"
  proof (rule fold_opt_inv_list [where P = ?P])
    show "?P (links n) st" using assms distinct_links by (simp add: links_in_range)
    fix l ls st' assume P: "?P (l # ls) st'"
    obtain s r where l: "l = ShardLink s r" by (cases l)
    from P have inv': "sched_inv n st'" and ext: "extends n st st'" and dis: "l \<notin> set ls" "distinct ls"
      and sub: "set ls \<subseteq> in_range n" and lt: "s < n" "r < n"
      and cap: "\<And>s' r'. s' < n \<Longrightarrow> r' < n \<Longrightarrow> granted_at st' s' r' \<le> ?b"
      and base: "\<And>s' r'. n * ?b \<le> ?M \<Longrightarrow> s' < n \<Longrightarrow> r' < n \<Longrightarrow> ShardLink s' r' \<notin> set (l # ls) \<Longrightarrow>
        link_open st s' r' \<Longrightarrow> granted_at st' s' r' = ?b"
      unfolding l by simp_all
    from P have "\<forall>s'<n. \<forall>r'<n. ShardLink s' r' \<in> set (l # ls) \<longrightarrow> granted_at st' s' r' = 0" by (elim conjE)
    then have todo: "granted_at st' s' r' = 0" if "s' < n" "r' < n" "ShardLink s' r' \<in> set (l # ls)" for s' r'
      using that by blast
    have same: "bs_params st' = bs_params st" "is_link_allowed_map st' = is_link_allowed_map st"
      using ext by (simp_all add: extends_def)
    have zero: "granted_at st' s r = 0" using todo [OF lt] l by simp
    show "\<exists>st''. ?f l st' = Some st'' \<and> ?P ls st''"
    proof (cases "grantable st' s r ?b")
      case True
      from try_grant_granted [OF inv' lt True] obtain st'' where
        st'': "try_grant_bandwidth l ?b st' = Some (Granted, st'')" "sched_inv n st''" "moved n s r ?b st' st''"
        unfolding l by blast
      note at = moved_granted_at [OF st''(3)]
      have "extends n st st''" by (rule extends_trans [OF ext moved_extends [OF st''(3)]])
      moreover have "granted_at st'' s' r' \<le> ?b" if "s' < n" "r' < n" for s' r'
        using at [OF that] cap [OF that] zero by simp
      moreover have "granted_at st'' s' r' = 0" if "s' < n" "r' < n" "ShardLink s' r' \<in> set ls" for s' r'
        using at [OF that(1,2)] todo [OF that(1,2)] that(3) dis(1) l by auto
      moreover have "granted_at st'' s' r' = ?b"
        if "n * ?b \<le> ?M" "s' < n" "r' < n" "ShardLink s' r' \<notin> set ls" "link_open st s' r'" for s' r'
        using at [OF that(2,3)] base [OF that(1-3) _ that(5)] that(4) zero l by auto
      ultimately have "?P ls st''" using st''(2) dis(2) sub by simp
      with st''(1) same(1) show ?thesis by simp
    next
      case False
      have wf': "sched_wf n st'" and bud: "budgets_ok n st'" using inv' by (simp_all add: sched_inv_def)
      have closed: "\<not> link_open st s r" if room: "n * ?b \<le> ?M"
      proof
        assume op: "link_open st s r"
        have "(\<Sum>r'<n. granted_at st' s r') + ?b \<le> n * ?b"
          by (rule row_with_gap [of r n "\<lambda>r'. granted_at st' s r'", OF lt(2) zero]) (rule cap [OF lt(1)])
        moreover have "(\<Sum>s'<n. granted_at st' s' r) + ?b \<le> n * ?b"
          by (rule row_with_gap [of s n "\<lambda>s'. granted_at st' s' r", OF lt(1) zero]) (rule cap [OF _ lt(2)])
        moreover have "sbud st' s + (\<Sum>r'<n. granted_at st' s r') = ?M" "rbud st' r + (\<Sum>s'<n. granted_at st' s' r) = ?M"
          using bud lt same(1) by (simp_all add: budgets_ok_def)
        ultimately have "?b \<le> sbud st' s" "?b \<le> rbud st' r" using room by linarith+
        then have "grantable st' s r ?b" using op same(2) by (simp add: grantable_def)
        with False show False by simp
      qed
      have "granted_at st' s' r' = ?b"
        if "n * ?b \<le> ?M" "s' < n" "r' < n" "ShardLink s' r' \<notin> set ls" "link_open st s' r'" for s' r'
        using base [OF that(1-3) _ that(5)] that(4,5) closed [OF that(1)] l by auto
      then have "?P ls st'" using inv' ext dis(2) sub cap todo by simp
      with try_grant_refused [OF wf' lt False] same(1) show ?thesis by (simp add: l)
    qed
  qed
  moreover have "grant_base_bandwidth st = fold_opt ?f (links n) st"
    using iter_links_eq [OF wf] by (simp add: grant_base_bandwidth_def)
  ultimately show ?thesis by auto
qed

section \<open>Processing the requests\<close>

definition requests_in_range :: "nat \<Rightarrow> scheduler_request multiset \<Rightarrow> bool" where
  "requests_in_range n M \<longleftrightarrow> (\<forall>req\<in>#M. req_link req \<in> in_range n)"

abbreviation queue_weight :: "request_queue \<Rightarrow> nat" where
  "queue_weight q \<equiv> \<Sum>req\<in>#queue_content q. request_weight req"

lemma get_allowance_ok:
  assumes "sched_wf n st" and "link \<in> in_range n"
  shows "\<exists>a. get_allowance st link = Some a"
proof -
  have "slm_wf n (link_allowances st)" using assms(1) by (simp add: sched_wf_def)
  from slm.get_view [OF this assms(2)] show ?thesis by (simp add: get_allowance_def)
qed

text \<open>Processing one request makes the queue lighter by at least one with respect to that request.\<close>

lemma process_request_ok:
  assumes "sched_inv n st" and "queue_inv q" and "requests_in_range n (queue_content q)"
    and "req_link req \<in> in_range n"
  shows "\<exists>st' q'. process_request req (st, q) = Some (st', q') \<and> sched_inv n st' \<and> extends n st st' \<and>
    queue_inv q' \<and> requests_in_range n (queue_content q') \<and>
    queue_weight q' < queue_weight q + request_weight req"
proof (cases "bandwidth_increases req")
  case Nil
  then show ?thesis using assms by (simp add: process_request_def request_weight_def)
next
  case (Cons inc rest)
  obtain out st' where st': "try_grant_bandwidth (req_link req) inc st = Some (out, st')" "sched_inv n st'" "extends n st st'"
    using try_grant_ok [OF assms(1,4)] by blast
  show ?thesis
  proof (cases "out = Granted \<and> rest \<noteq> []")
    case True
    have "sched_wf n st'" using st'(2) by (simp add: sched_inv_def)
    then obtain a where a: "get_allowance st' (req_link req) = Some a" using get_allowance_ok assms(4) by blast
    let ?req = "req\<lparr>bandwidth_increases := rest\<rparr>"
    have "process_request req (st, q) = Some (st', queue_push a ?req q)"
      using True Cons st'(1) a by (simp add: process_request_def enqueue_by_allowance_def)
    moreover have "requests_in_range n (queue_content (queue_push a ?req q))"
      using assms(3,4) by (simp add: requests_in_range_def rq.content_push [OF assms(2)])
    moreover have "queue_weight (queue_push a ?req q) < queue_weight q + request_weight req"
      using Cons by (simp add: rq.content_push [OF assms(2)] request_weight_def)
    ultimately show ?thesis using st' rq.invar_push [OF assms(2)] by blast
  next
    case False
    then have "process_request req (st, q) = Some (st', q)"
      using Cons st'(1) by (cases out) (auto simp: process_request_def)
    then show ?thesis using st' assms by (auto simp: request_weight_def)
  qed
qed

lemma process_bucket_ok:
  assumes "sched_inv n st" and "queue_inv q" and "requests_in_range n (queue_content q)"
    and "requests_in_range n (mset reqs)"
  shows "\<exists>st' q'. fold_opt process_request reqs (st, q) = Some (st', q') \<and> sched_inv n st' \<and> extends n st st' \<and>
    queue_inv q' \<and> requests_in_range n (queue_content q') \<and>
    queue_weight q' + length reqs \<le> queue_weight q + sum_list (map request_weight reqs)"
  using assms
proof (induction reqs arbitrary: st q)
  case Nil
  then show ?case by simp
next
  case (Cons req reqs)
  have "req_link req \<in> in_range n" and rest: "requests_in_range n (mset reqs)"
    using Cons.prems(4) by (simp_all add: requests_in_range_def)
  from process_request_ok [OF Cons.prems(1-3) this(1)] obtain st1 q1 where
    s1: "process_request req (st, q) = Some (st1, q1)" "sched_inv n st1" "extends n st st1" "queue_inv q1"
      "requests_in_range n (queue_content q1)" "queue_weight q1 < queue_weight q + request_weight req" by blast
  from Cons.IH [OF s1(2,4,5) rest] obtain st2 q2 where
    s2: "fold_opt process_request reqs (st1, q1) = Some (st2, q2)" "sched_inv n st2" "extends n st1 st2" "queue_inv q2"
      "requests_in_range n (queue_content q2)"
      "queue_weight q2 + length reqs \<le> queue_weight q1 + sum_list (map request_weight reqs)" by blast
  have "fold_opt process_request (req # reqs) (st, q) = Some (st2, q2)" using s1(1) s2(1) by simp
  moreover have "queue_weight q2 + length (req # reqs) \<le> queue_weight q + sum_list (map request_weight (req # reqs))"
    using s1(6) s2(6) by simp
  ultimately show ?case using s2 extends_trans [OF s1(3) s2(3)] by blast
qed

text \<open>The shuffle of the random number generator permutes its argument.\<close>

definition permutes_requests ::
  "('r \<Rightarrow> scheduler_request list \<Rightarrow> scheduler_request list \<times> 'r) \<Rightarrow> bool" where
  "permutes_requests shuffle \<longleftrightarrow> (\<forall>rng reqs. mset (fst (shuffle rng reqs)) = mset reqs)"

lemma sched_inv_rng [simp]: "sched_inv n (st\<lparr>bs_rng := x\<rparr>) \<longleftrightarrow> sched_inv n st"
  by (simp add: sched_inv_def sched_wf_def budgets_ok_def grants_open_def allowances_ok_def)

lemma process_loop_ok:
  assumes "permutes_requests shuffle"
  shows "sched_inv n st \<Longrightarrow> queue_inv q \<Longrightarrow> requests_in_range n (queue_content q) \<Longrightarrow> queue_weight q < fuel \<Longrightarrow>
    \<exists>st'. process_loop shuffle fuel st q = Some st' \<and> sched_inv n st' \<and> extends n st st'"
proof (induction fuel arbitrary: st q)
  case 0
  then show ?case by simp
next
  case (Suc fuel)
  show ?case
  proof (cases "bt_pop_last q")
    case None
    then show ?thesis using Suc.prems(1) by simp
  next
    case (Some e)
    obtain k reqs q1 where e: "e = ((k, reqs), q1)" by (metis prod.collapse)
    note pop = Some [unfolded e]
    obtain reqs' rng' where sh: "shuffle (bs_rng st) reqs = (reqs', rng')" by (cases "shuffle (bs_rng st) reqs")
    then have perm: "mset reqs' = mset reqs"
      using assms unfolding permutes_requests_def by (metis fst_conv)
    have con: "queue_content q = mset reqs + queue_content q1" by (rule rq.content_pop [OF Suc.prems(2) pop])
    have ranges: "requests_in_range n (queue_content q1)" "requests_in_range n (mset reqs')"
      using Suc.prems(3) unfolding con perm requests_in_range_def by auto
    have inv: "sched_inv n (st\<lparr>bs_rng := rng'\<rparr>)" using Suc.prems(1) by simp
    from process_bucket_ok [OF inv rq.invar_pop [OF Suc.prems(2) pop] ranges] obtain st2 q2 where
      s2: "fold_opt process_request reqs' (st\<lparr>bs_rng := rng'\<rparr>, q1) = Some (st2, q2)" "sched_inv n st2"
        "extends n (st\<lparr>bs_rng := rng'\<rparr>) st2" "queue_inv q2" "requests_in_range n (queue_content q2)"
        "queue_weight q2 + length reqs' \<le> queue_weight q1 + sum_list (map request_weight reqs')" by blast
    have "sum_list (map request_weight reqs') = sum_list (map request_weight reqs)"
      using perm by (metis mset_map sum_mset_sum_list)
    moreover have "length reqs' > 0"
      using rq.pop_nonempty [OF Suc.prems(2) pop] perm by (metis length_greater_0_conv mset_eq_length)
    ultimately have "queue_weight q2 < fuel"
      using s2(6) Suc.prems(4) rq.weight_pop [OF Suc.prems(2) pop, of request_weight] by linarith
    from Suc.IH [OF s2(2,4,5) this] obtain st3 where
      s3: "process_loop shuffle fuel st2 q2 = Some st3" "sched_inv n st3" "extends n st2 st3" by blast
    have "extends n st st2" using s2(3) by (simp add: extends_def)
    then have "extends n st st3" using s3(3) extends_trans by blast
    with s3 s2(1) pop sh show ?thesis by simp
  qed
qed

lemma process_requests_ok:
  assumes "permutes_requests shuffle" and "sched_inv n st" and "requests_in_range n (mset reqs)"
  shows "\<exists>st'. process_bandwidth_requests shuffle reqs st = Some st' \<and> sched_inv n st' \<and> extends n st st'"
proof -
  have wf: "sched_wf n st" using assms(2) by (simp add: sched_inv_def)
  let ?P = "\<lambda>rs q. queue_inv q \<and> queue_content q + mset rs = mset reqs"
  have "\<exists>q. fold_opt (enqueue_by_allowance st) reqs bt_empty = Some q \<and> ?P [] q"
  proof (rule fold_opt_inv_list [where P = ?P])
    show "?P reqs bt_empty" by (simp add: queue_inv_def bt_empty_def queue_content_def)
    fix req rs q assume P: "?P (req # rs) q"
    then have "req \<in># mset reqs" by (metis union_iff in_multiset_in_set list.set_intros(1))
    then have "req_link req \<in> in_range n" using assms(3) by (simp add: requests_in_range_def)
    then obtain a where "get_allowance st (req_link req) = Some a" using get_allowance_ok [OF wf] by blast
    with P show "\<exists>q'. enqueue_by_allowance st req q = Some q' \<and> ?P rs q'"
      by (simp add: enqueue_by_allowance_def rq.content_push rq.invar_push)
  qed
  then obtain q where q: "fold_opt (enqueue_by_allowance st) reqs bt_empty = Some q" "queue_inv q"
      "queue_content q = mset reqs" by auto
  have "queue_weight q < process_fuel reqs"
    unfolding process_fuel_def q(3) by (metis lessI mset_map sum_mset_sum_list)
  from process_loop_ok [OF assms(1,2) q(2) _ this] assms(3) q(1,3) show ?thesis
    by (simp add: process_bandwidth_requests_def)
qed

section \<open>The last phases and the results\<close>

text \<open>What a finished scheduler guarantees: the grants of a shard fit into its budget.\<close>

definition within_limits :: "nat \<Rightarrow> 'r bandwidth_scheduler \<Rightarrow> bool" where
  "within_limits n st \<longleftrightarrow>
     (\<forall>s<n. (\<Sum>r<n. granted_at st s r) \<le> max_shard_bandwidth (bs_params st)) \<and>
     (\<forall>r<n. (\<Sum>s<n. granted_at st s r) \<le> max_shard_bandwidth (bs_params st))"

lemma distribute_loop_ok:
  assumes "slm_wf n grants" and "slm_wf n (granted_on st)"
    and "\<And>s r. s < n \<Longrightarrow> r < n \<Longrightarrow> granted_at st s r + grant_of grants s r < 2 ^ 64"
  shows "\<exists>g. fold_opt (distribute_remaining_step grants) (links n) st = Some (st\<lparr>granted_on := g\<rparr>) \<and> slm_wf n g \<and>
    (\<forall>s<n. \<forall>r<n. slm_view g (ShardLink s r) =
       (if slm_view grants (ShardLink s r) = None then slm_view (granted_on st) (ShardLink s r)
        else Some (granted_at st s r + grant_of grants s r)))"
proof -
  let ?v = "\<lambda>s r. if slm_view grants (ShardLink s r) = None then slm_view (granted_on st) (ShardLink s r)
        else Some (granted_at st s r + grant_of grants s r)"
  let ?P = "\<lambda>ls st'. \<exists>g. st' = st\<lparr>granted_on := g\<rparr> \<and> slm_wf n g \<and> set ls \<subseteq> in_range n \<and> distinct ls \<and>
    (\<forall>s<n. \<forall>r<n. slm_view g (ShardLink s r) =
      (if ShardLink s r \<in> set ls then slm_view (granted_on st) (ShardLink s r) else ?v s r))"
  have "\<exists>st'. fold_opt (distribute_remaining_step grants) (links n) st = Some st' \<and> ?P [] st'"
  proof (rule fold_opt_inv_list [where P = ?P])
    show "?P (links n) st"
      using assms(2) distinct_links by (intro exI [of _ "granted_on st"]) (simp add: links_in_range)
    fix l ls st' assume "?P (l # ls) st'"
    then obtain g where g0: "st' = st\<lparr>granted_on := g\<rparr>" "slm_wf n g" "set (l # ls) \<subseteq> in_range n" "distinct (l # ls)"
      and "\<forall>s<n. \<forall>r<n. slm_view g (ShardLink s r) =
        (if ShardLink s r \<in> set (l # ls) then slm_view (granted_on st) (ShardLink s r) else ?v s r)"
      by (elim exE conjE)
    note view = this(5) [rule_format]
    have g: "st' = st\<lparr>granted_on := g\<rparr>" "slm_wf n g" "l \<in> in_range n" "set ls \<subseteq> in_range n" "distinct ls" "l \<notin> set ls"
      using g0 by simp_all
    obtain s r where l: "l = ShardLink s r" by (cases l)
    have lt: "s < n" "r < n" using g(3) l by simp_all
    have get: "slm_get grants l = Some (slm_view grants l)" by (rule slm.get_view [OF assms(1) g(3)])
    have cur: "granted_at st' s r = granted_at st s r" using view [OF lt] l g(1) by (simp add: grant_of_def)
    show "\<exists>st''. distribute_remaining_step grants l st' = Some st'' \<and> ?P ls st''"
    proof (cases "slm_view grants l")
      case None
      have "?P ls st'"
        using g None view l by (intro exI [of _ g]) auto
      with None get show ?thesis by (simp add: distribute_remaining_step_def)
    next
      case (Some x)
      have x: "grant_of grants s r = x" using Some l by (simp add: grant_of_def)
      have "slm_wf n (granted_on st')" "granted_at st' s r + x < 2 ^ 64" using g assms(3) [OF lt] cur x by simp_all
      then obtain g' where g': "grant_more_bandwidth (ShardLink s r) x st' = Some (st'\<lparr>granted_on := g'\<rparr>)" "slm_wf n g'"
        "\<And>s' r'. s' < n \<Longrightarrow> r' < n \<Longrightarrow> slm_view g' (ShardLink s' r') =
          (if s' = s \<and> r' = r then Some (granted_at st' s r + x) else slm_view (granted_on st') (ShardLink s' r'))"
        using grant_more_ok [OF _ lt] by metis
      have "slm_view g' (ShardLink s' r') =
          (if ShardLink s' r' \<in> set ls then slm_view (granted_on st) (ShardLink s' r') else ?v s' r')"
        if "s' < n" "r' < n" for s' r'
        using g'(3) [OF that] view [OF that] g(1,6) l Some x cur by (cases "s' = s \<and> r' = r") auto
      then have "?P ls (st'\<lparr>granted_on := g'\<rparr>)" using g g'(2) by (intro exI [of _ g']) simp
      with g'(1) get Some l show ?thesis by (simp add: distribute_remaining_step_def)
    qed
  qed
  then show ?thesis by auto
qed

lemma distribute_remaining_ok:
  assumes "sched_inv n st"
  shows "\<exists>st'. distribute_remaining st = Some st' \<and> sched_wf n st' \<and> within_limits n st' \<and> grants_open n st' \<and>
    allowances_ok n st' \<and> extends n st st'"
proof -
  have wf: "sched_wf n st" and bud: "budgets_ok n st" and op: "grants_open n st" and al: "allowances_ok n st"
    using assms by (simp_all add: sched_inv_def)
  have n: "num_shards (bs_layout st) = n" "length (sender_budget st) = n" "length (receiver_budget st) = n"
    "slm_wf n (is_link_allowed_map st)" "slm_wf n (granted_on st)" using wf by (simp_all add: sched_wf_def)
  let ?M = "max_shard_bandwidth (bs_params st)"
  obtain grants where
    run: "distribute_remaining_bandwidth (sender_budget st) (receiver_budget st) (is_link_allowed_map st) (bs_layout st) = Some grants"
      "slm_wf n grants"
    and some: "\<And>s r. s < n \<Longrightarrow> r < n \<Longrightarrow> slm_view grants (ShardLink s r) \<noteq> None \<longleftrightarrow> link_open st s r"
    and rows: "\<And>s. s < n \<Longrightarrow> (\<Sum>r<n. grant_of grants s r) \<le> sbud st s"
    and cols: "\<And>r. r < n \<Longrightarrow> (\<Sum>s<n. grant_of grants s r) \<le> rbud st r"
    using distribute_ok [of "sender_budget st" "bs_layout st" "receiver_budget st" "is_link_allowed_map st"] n
    by auto
  have fit: "granted_at st s r + grant_of grants s r < 2 ^ 64" if "s < n" "r < n" for s r
  proof -
    have "grant_of grants s r \<le> (\<Sum>r<n. grant_of grants s r)" using that(2) by (intro member_le_sum) auto
    with rows [OF that(1)] granted_at_bound [OF bud that] wf show ?thesis by (simp add: sched_wf_def)
  qed
  from distribute_loop_ok [OF run(2) n(5) fit] obtain g where
    g: "fold_opt (distribute_remaining_step grants) (links n) st = Some (st\<lparr>granted_on := g\<rparr>)" "slm_wf n g"
    and view: "\<And>s r. s < n \<Longrightarrow> r < n \<Longrightarrow> slm_view g (ShardLink s r) =
       (if slm_view grants (ShardLink s r) = None then slm_view (granted_on st) (ShardLink s r)
        else Some (granted_at st s r + grant_of grants s r))" by blast
  have at: "grant_of g s r = granted_at st s r + grant_of grants s r" if "s < n" "r < n" for s r
    using view [OF that] by (simp add: grant_of_def)
  let ?st' = "st\<lparr>granted_on := g\<rparr>"
  have "distribute_remaining st = Some ?st'"
    using run(1) g(1) iter_links_eq [OF wf] by (simp add: distribute_remaining_def)
  moreover have "sched_wf n ?st'" using wf g(2) by (simp add: sched_wf_def)
  moreover have "(\<Sum>r<n. grant_of g s r) \<le> ?M" if "s < n" for s
  proof -
    have "(\<Sum>r<n. grant_of g s r) = (\<Sum>r<n. granted_at st s r) + (\<Sum>r<n. grant_of grants s r)"
      using at that by (simp add: sum.distrib)
    moreover have "sbud st s + (\<Sum>r<n. granted_at st s r) = ?M" using bud that by (simp add: budgets_ok_def)
    ultimately show ?thesis using rows [OF that] by linarith
  qed
  moreover have "(\<Sum>s<n. grant_of g s r) \<le> ?M" if "r < n" for r
  proof -
    have "(\<Sum>s<n. grant_of g s r) = (\<Sum>s<n. granted_at st s r) + (\<Sum>s<n. grant_of grants s r)"
      using at that by (simp add: sum.distrib)
    moreover have "rbud st r + (\<Sum>s<n. granted_at st s r) = ?M" using bud that by (simp add: budgets_ok_def)
    ultimately show ?thesis using cols [OF that] by linarith
  qed
  moreover have "grants_open n ?st'"
    unfolding grants_open_def
  proof (intro allI impI)
    fix s r assume lt: "s < n" "r < n" and "slm_view (granted_on ?st') (ShardLink s r) \<noteq> None"
    then have "slm_view grants (ShardLink s r) \<noteq> None \<or> slm_view (granted_on st) (ShardLink s r) \<noteq> None"
      using view [OF lt] by (simp split: if_splits)
    with some [OF lt] op lt show "link_open ?st' s r" unfolding grants_open_def by auto
  qed
  moreover have "allowances_ok n ?st'" using al by (simp add: allowances_ok_def)
  moreover have "extends n st ?st'" using at by (simp add: extends_def)
  ultimately show ?thesis by (auto simp: within_limits_def)
qed

lemma unwrap_id_ok: "layout_inv l \<Longrightarrow> i < num_shards l \<Longrightarrow> \<exists>sid. unwrap_id l i = Some sid \<and> get_shard_id l i = Inr sid"
  using layout_index_round_trip [of l i] by (auto simp: unwrap_id_def)

text \<open>The id of the shard at an index, for indexes in range.\<close>

definition id_at :: "shard_layout \<Rightarrow> shard_index \<Rightarrow> shard_id" where
  "id_at l i = the (unwrap_id l i)"

lemma unwrap_id_at: "layout_inv l \<Longrightarrow> i < num_shards l \<Longrightarrow> unwrap_id l i = Some (id_at l i)"
  using unwrap_id_ok [of l i] by (auto simp: id_at_def)

lemma index_id_at: "layout_inv l \<Longrightarrow> i < num_shards l \<Longrightarrow> get_shard_index l (id_at l i) = Inr i"
  using layout_index_round_trip [of l i] unwrap_id_ok [of l i] by (auto simp: id_at_def)

lemma id_at_inj:
  "layout_inv l \<Longrightarrow> i < num_shards l \<Longrightarrow> j < num_shards l \<Longrightarrow> id_at l i = id_at l j \<longleftrightarrow> i = j"
  by (metis index_id_at sum.inject(2))

lemma final_granted_ok:
  assumes "sched_wf n st" and "layout_inv (bs_layout st)"
  shows "\<exists>granted. get_final_granted_bandwidth st = Some granted \<and> bt_inv granted \<and>
    (\<forall>s<n. \<forall>r<n. bt_get granted (id_at (bs_layout st) s, id_at (bs_layout st) r) = slm_view (granted_on st) (ShardLink s r))"
proof -
  let ?l = "bs_layout st"
  have n: "num_shards ?l = n" "slm_wf n (granted_on st)" using assms(1) by (simp_all add: sched_wf_def)
  define E where "E = (\<lambda>ls granted s r. if ShardLink s r \<in> set ls
      then bt_get granted (id_at ?l s, id_at ?l r) \<in> {None, slm_view (granted_on st) (ShardLink s r)}
      else bt_get granted (id_at ?l s, id_at ?l r) = slm_view (granted_on st) (ShardLink s r))"
  let ?P = "\<lambda>ls granted. bt_inv granted \<and> set ls \<subseteq> in_range n \<and> (\<forall>s<n. \<forall>r<n. E ls granted s r)"
  have "\<exists>granted. fold_opt (final_step st) (links n) bt_empty = Some granted \<and> ?P [] granted"
  proof (rule fold_opt_inv_list [where P = ?P])
    show "?P (links n) bt_empty" by (simp add: E_def links_in_range bt_empty_def bt_get_def)
    fix l ls granted assume P: "?P (l # ls) granted"
    obtain s r where l: "l = ShardLink s r" by (cases l)
    have lt: "s < n" "r < n" using P l by simp_all
    from P have old: "E (l # ls) granted s' r'" if "s' < n" "r' < n" for s' r' using that by blast
    have get: "slm_get (granted_on st) l = Some (slm_view (granted_on st) l)"
      by (rule slm.get_view [OF n(2)]) (use l lt in simp)
    show "\<exists>granted'. final_step st l granted = Some granted' \<and> ?P ls granted'"
    proof (cases "slm_view (granted_on st) l")
      case None
      have "E ls granted s' r'" if "s' < n" "r' < n" for s' r'
        using old [OF that] None l by (auto simp: E_def split: if_splits)
      then have "?P ls granted" using P by simp
      with None get show ?thesis by (simp add: final_step_def)
    next
      case (Some bw)
      let ?g = "bt_insert (id_at ?l s, id_at ?l r) bw granted"
      have ids: "unwrap_id ?l s = Some (id_at ?l s)" "unwrap_id ?l r = Some (id_at ?l r)"
        using unwrap_id_at [OF assms(2)] lt n(1) by simp_all
      have step: "final_step st l granted = Some ?g" using get Some ids l by (simp add: final_step_def)
      have new: "bt_get ?g (id_at ?l s', id_at ?l r') =
          (if s' = s \<and> r' = r then Some bw else bt_get granted (id_at ?l s', id_at ?l r'))"
        if "s' < n" "r' < n" for s' r'
        using that lt id_at_inj [OF assms(2)] n(1) by (simp add: bt_insert_get)
      have "E ls ?g s' r'" if "s' < n" "r' < n" for s' r'
        using new [OF that] old [OF that] Some l by (auto simp: E_def split: if_splits)
      then have "?P ls ?g" using P by (simp add: bt_insert_inv)
      with step show ?thesis by blast
    qed
  qed
  then show ?thesis using iter_links_eq [OF assms(1)] by (simp add: get_final_granted_bandwidth_def E_def)
qed

lemma update_state_ok:
  assumes "sched_wf n st" and "layout_inv (bs_layout st)" and "allowances_ok n st"
  shows "\<exists>v1'. update_scheduler_state st v1 = Some v1' \<and> length (state_link_allowances v1') = n * n \<and>
    (\<forall>la\<in>set (state_link_allowances v1'). la_allowance la \<le> max_allowance (bs_params st) \<and>
      (\<exists>s<n. \<exists>r<n. la_sender la = id_at (bs_layout st) s \<and> la_receiver la = id_at (bs_layout st) r))"
proof -
  let ?l = "bs_layout st"
  have n: "num_shards ?l = n" "slm_wf n (link_allowances st)" using assms(1) by (simp_all add: sched_wf_def)
  let ?ok = "\<lambda>la :: link_allowance. la_allowance la \<le> max_allowance (bs_params st) \<and>
      (\<exists>s<n. \<exists>r<n. la_sender la = id_at ?l s \<and> la_receiver la = id_at ?l r)"
  let ?P = "\<lambda>ls las. set ls \<subseteq> in_range n \<and> length las + length ls = length (links n) \<and> (\<forall>la\<in>set las. ?ok la)"
  have "\<exists>las. fold_opt (state_step st) (links n) [] = Some las \<and> ?P [] las"
  proof (rule fold_opt_inv_list [where P = ?P])
    show "?P (links n) []" by (simp add: links_in_range)
    fix l ls and las :: "link_allowance list" assume P: "?P (l # ls) las"
    obtain s r where l: "l = ShardLink s r" by (cases l)
    have lt: "s < n" "r < n" using P l by simp_all
    have mem: "l \<in> in_range n" using l lt by simp
    obtain a where a: "slm_view (link_allowances st) l = Some a" "a \<le> max_allowance (bs_params st)"
      using assms(3) mem unfolding allowances_ok_def by blast
    have "state_step st l las = Some (las @ [\<lparr> la_sender = id_at ?l s, la_receiver = id_at ?l r, la_allowance = a \<rparr>])"
      using slm.get_view [OF n(2) mem] a(1) unwrap_id_at [OF assms(2)] lt n(1) l by (simp add: state_step_def)
    moreover have "?P ls (las @ [\<lparr> la_sender = id_at ?l s, la_receiver = id_at ?l r, la_allowance = a \<rparr>])"
      using P a(2) lt by auto
    ultimately show "\<exists>las'. state_step st l las = Some las' \<and> ?P ls las'" by blast
  qed
  moreover have "length (links n) = n * n" by (simp add: links_def length_concat comp_def sum_list_triv)
  ultimately show ?thesis using iter_links_eq [OF assms(1)] by (auto simp: update_scheduler_state_def)
qed

section \<open>Requests as increases\<close>

lemma increase_loop_ok:
  assumes "params_ok params" and "m \<le> 40"
  shows "\<exists>cur incs. fold_opt (increase_step bits_get bm (value_table params)) [0..<m] (base_bandwidth params, []) = Some (cur, incs) \<and>
    cur = base_bandwidth params + sum_list incs \<and> (\<forall>d\<in>set incs. 0 < d) \<and>
    (\<forall>v. v \<le> cur \<longrightarrow> (\<exists>k\<in>{1..length incs}. v = base_bandwidth params + sum_list (take k incs)) \<longleftrightarrow>
       (\<exists>i<m. bits_get bm i \<and> base_bandwidth params < value_at params i \<and> v = value_at params i)) \<and>
    (\<forall>i<m. bits_get bm i \<longrightarrow> value_at params i \<le> cur)"
  using assms(2)
proof (induction m)
  case 0
  then show ?case by simp
next
  case (Suc m)
  let ?b = "base_bandwidth params"
  let ?f = "increase_step bits_get bm (value_table params)"
  obtain cur incs where IH: "fold_opt ?f [0..<m] (?b, []) = Some (cur, incs)" "cur = ?b + sum_list incs"
      "\<forall>d\<in>set incs. 0 < d"
    and tot: "\<And>v. v \<le> cur \<Longrightarrow> (\<exists>k\<in>{1..length incs}. v = ?b + sum_list (take k incs)) \<longleftrightarrow>
       (\<exists>i<m. bits_get bm i \<and> ?b < value_at params i \<and> v = value_at params i)"
    and le: "\<And>i. i < m \<Longrightarrow> bits_get bm i \<Longrightarrow> value_at params i \<le> cur"
    using Suc by auto
  have m: "m < 40" using Suc.prems by simp
  have len: "bitmap_len = 40" by (simp add: bitmap_len_def bandwidth_request_values_num_def)
  have step: "fold_opt ?f [0..<Suc m] (?b, []) = ?f m (cur, incs)"
    using IH(1) by (cases "?f m (cur, incs)") (simp_all add: fold_opt_append)
  have below: "base_bandwidth params \<le> cur" using IH(2) by simp
  show ?case
  proof (cases "bits_get bm m \<and> cur < value_at params m")
    case False
    then have run: "?f m (cur, incs) = Some (cur, incs)"
      using m len by (auto simp: increase_step_def bitmap_get_bit_def)
    have "(\<exists>i<Suc m. bits_get bm i \<and> ?b < value_at params i \<and> v = value_at params i) \<longleftrightarrow>
        (\<exists>i<m. bits_get bm i \<and> ?b < value_at params i \<and> v = value_at params i)" if "v \<le> cur" for v
    proof (cases "bits_get bm m \<and> ?b < value_at params m \<and> v = value_at params m")
      case True
      then have eq: "value_at params m = cur \<or> value_at params m < cur" using that by auto
      have pos: "incs \<noteq> []" using True that IH(2) by auto
      have "\<exists>k\<in>{1..length incs}. cur = ?b + sum_list (take k incs)"
        using pos IH(2) by (intro bexI [of _ "length incs"]) (auto simp: Suc_leI)
      then obtain i where i: "i < m" "bits_get bm i" "?b < value_at params i" "cur = value_at params i"
        using tot [of cur] by auto
      have "value_at params i \<le> value_at params m" using i(1) by (intro value_at_mono) simp
      then have "v = value_at params i" using True that i(4) by simp
      with i True show ?thesis by blast
    next
      case False
      then show ?thesis by (auto simp: less_Suc_eq)
    qed
    moreover have "\<forall>i<Suc m. bits_get bm i \<longrightarrow> value_at params i \<le> cur"
      using le False by (auto simp: less_Suc_eq not_less)
    ultimately show ?thesis
      using run step IH tot by (intro exI [of _ cur] exI [of _ incs]) simp
  next
    case True
    let ?v = "value_at params m"
    have run: "?f m (cur, incs) = Some (?v, incs @ [?v - cur])"
      using True m len by (simp add: increase_step_def bitmap_get_bit_def checked_sub_def)
    have sum: "?v = ?b + sum_list (incs @ [?v - cur])" using True IH(2) by simp
    have "(\<exists>k\<in>{1..length (incs @ [?v - cur])}. v = ?b + sum_list (take k (incs @ [?v - cur]))) \<longleftrightarrow>
        (\<exists>i<Suc m. bits_get bm i \<and> ?b < value_at params i \<and> v = value_at params i)" if "v \<le> ?v" for v
    proof -
      have dom: "{1..length (incs @ [?v - cur])} = insert (Suc (length incs)) {1..length incs}" by auto
      have "(\<exists>k\<in>{1..length (incs @ [?v - cur])}. v = ?b + sum_list (take k (incs @ [?v - cur]))) \<longleftrightarrow>
          v = ?v \<or> (\<exists>k\<in>{1..length incs}. v = ?b + sum_list (take k incs))"
        unfolding dom using sum by simp
      also have "\<dots> \<longleftrightarrow> v = ?v \<or> (\<exists>i<m. bits_get bm i \<and> ?b < value_at params i \<and> v = value_at params i)"
      proof (cases "v \<le> cur")
        case True
        then show ?thesis using tot by simp
      next
        case False
        have "v \<noteq> ?b + sum_list (take k incs)" for k
        proof -
          have "sum_list (take k incs) \<le> sum_list incs"
            by (metis append_take_drop_id le_add1 sum_list.append)
          then show ?thesis using False IH(2) by simp
        qed
        moreover have "v \<noteq> value_at params i" if "i < m" "bits_get bm i" for i using le [OF that] False by simp
        ultimately show ?thesis by blast
      qed
      also have "\<dots> \<longleftrightarrow> (\<exists>i<Suc m. bits_get bm i \<and> ?b < value_at params i \<and> v = value_at params i)"
        using True below by (auto simp: less_Suc_eq)
      finally show ?thesis .
    qed
    moreover have "\<forall>d\<in>set (incs @ [?v - cur]). 0 < d" using IH(3) True by auto
    moreover have "\<forall>i<Suc m. bits_get bm i \<longrightarrow> value_at params i \<le> ?v" using value_at_mono by (simp add: less_Suc_eq_le)
    ultimately show ?thesis
      using run step sum by (intro exI [of _ ?v] exI [of _ "incs @ [?v - cur]"]) simp
  qed
qed

text \<open>The running totals of a list of increases.\<close>

definition running_totals :: "nat \<Rightarrow> nat list \<Rightarrow> nat set" where
  "running_totals b incs = {b + sum_list (take k incs) |k. k \<in> {1..length incs}}"

definition requested_above_base :: "(byte list \<Rightarrow> nat \<Rightarrow> bool) \<Rightarrow> byte list \<Rightarrow> scheduler_params \<Rightarrow> nat set" where
  "requested_above_base bits_get bm params =
     {value_at params i |i. i < 40 \<and> bits_get bm i \<and> base_bandwidth params < value_at params i}"

lemma scheduler_request_new_spec:
  assumes "params_ok params"
  shows "\<exists>r. scheduler_request_new bits_get sender req params layout = Some r \<and>
    (case (get_shard_index layout sender, get_shard_index layout (to_shard req)) of
       (Inr s, Inr t) \<Rightarrow>
         (r = None \<longleftrightarrow> requested_above_base bits_get (requested_values_bitmap req) params = {}) \<and>
         (\<forall>q. r = Some q \<longrightarrow> req_link q = ShardLink s t \<and> (\<forall>d\<in>set (bandwidth_increases q). 0 < d) \<and>
            running_totals (base_bandwidth params) (bandwidth_increases q) =
              requested_above_base bits_get (requested_values_bitmap req) params)
     | _ \<Rightarrow> r = None)"
proof (cases "\<exists>s t. get_shard_index layout sender = Inr s \<and> get_shard_index layout (to_shard req) = Inr t")
  case False
  then have "scheduler_request_new bits_get sender req params layout = Some None"
    by (auto simp: scheduler_request_new_def split: sum.splits)
  then show ?thesis using False by (auto split: sum.splits)
next
  case True
  then obtain s t where idx: "get_shard_index layout sender = Inr s" "get_shard_index layout (to_shard req) = Inr t"
    by blast
  let ?bm = "requested_values_bitmap req" and ?b = "base_bandwidth params"
  obtain cur incs where run: "fold_opt (increase_step bits_get ?bm (value_table params)) [0..<40] (?b, []) = Some (cur, incs)"
      "cur = ?b + sum_list incs" "\<forall>d\<in>set incs. 0 < d"
    and tot: "\<forall>v\<le>cur. (\<exists>k\<in>{1..length incs}. v = ?b + sum_list (take k incs)) \<longleftrightarrow>
       (\<exists>i<40. bits_get ?bm i \<and> ?b < value_at params i \<and> v = value_at params i)"
    and le: "\<forall>i<40. bits_get ?bm i \<longrightarrow> value_at params i \<le> cur"
    using increase_loop_ok [OF assms, of 40 bits_get ?bm] by blast
  have part: "?b + sum_list (take k incs) \<le> cur" for k
    unfolding run(2) by (metis add_left_mono append_take_drop_id le_add1 sum_list.append)
  have eq: "running_totals ?b incs = requested_above_base bits_get ?bm params"
  proof (rule set_eqI)
    fix v
    show "v \<in> running_totals ?b incs \<longleftrightarrow> v \<in> requested_above_base bits_get ?bm params"
    proof (cases "v \<le> cur")
      case True
      have "v \<in> running_totals ?b incs \<longleftrightarrow> (\<exists>k\<in>{1..length incs}. v = ?b + sum_list (take k incs))"
        unfolding running_totals_def by blast
      also have "\<dots> \<longleftrightarrow> v \<in> requested_above_base bits_get ?bm params"
        using tot True unfolding requested_above_base_def by blast
      finally show ?thesis .
    next
      case False
      have "v \<notin> running_totals ?b incs" using False part unfolding running_totals_def by blast
      moreover have "v \<notin> requested_above_base bits_get ?bm params"
        using False le unfolding requested_above_base_def by blast
      ultimately show ?thesis by simp
    qed
  qed
  have ne: "incs = [] \<longleftrightarrow> requested_above_base bits_get ?bm params = {}"
    unfolding eq [symmetric] running_totals_def by (cases incs) auto
  have len: "bitmap_len = 40" by (simp add: bitmap_len_def bandwidth_request_values_num_def)
  have "scheduler_request_new bits_get sender req params layout =
      Some (if incs = [] then None else Some \<lparr> req_link = ShardLink s t, bandwidth_increases = incs \<rparr>)"
    using run(1) by (simp add: scheduler_request_new_def idx bandwidth_request_values_Some [OF assms] len del: upt_rec_numeral)
  then show ?thesis using ne eq run(3) idx by auto
qed

lemma scheduler_request_new_link:
  assumes "params_ok params"
  shows "\<exists>r. scheduler_request_new bits_get sender req params layout = Some r \<and>
    (\<forall>q. r = Some q \<longrightarrow> (\<exists>s t. get_shard_index layout sender = Inr s \<and>
      get_shard_index layout (to_shard req) = Inr t \<and> req_link q = ShardLink s t))"
proof (cases "get_shard_index layout sender")
  case (Inr s)
  with scheduler_request_new_spec [OF assms, of bits_get sender req layout] show ?thesis
    by (cases "get_shard_index layout (to_shard req)") auto
qed (use scheduler_request_new_spec [OF assms, of bits_get sender req layout] in auto)

section \<open>Runs\<close>

text \<open>
  Layouts whose index lookup knows exactly their own shards. Every valid layout of version 2 is one;
  in older versions the lookup returns every id unchanged.
\<close>

definition exact_index :: "shard_layout \<Rightarrow> bool" where
  "exact_index l \<longleftrightarrow> layout_inv l \<and> (\<forall>sid i. get_shard_index l sid = Inr i \<longrightarrow> i < num_shards l \<and> sid = id_at l i)"

lemma exact_index_v2:
  assumes "layout_inv (V2 v)"
  shows "exact_index (V2 v)"
  unfolding exact_index_def
proof (intro conjI allI impI)
  fix sid i assume "get_shard_index (V2 v) sid = Inr i"
  then have i: "i < length (v2_shard_ids v)" "v2_shard_ids v ! i = sid"
    using assms by (auto simp: get_shard_index_def ok_or_Inr layout_inv_def)
  then show "i < num_shards (V2 v)" by (simp add: num_shards_def)
  then have "get_shard_index (V2 v) (id_at (V2 v) i) = Inr i" by (rule index_id_at [OF assms])
  then have "v2_shard_ids v ! i = id_at (V2 v) i"
    using assms by (auto simp: get_shard_index_def ok_or_Inr layout_inv_def)
  then show "sid = id_at (V2 v) i" using i(2) by simp
qed (rule assms)

lemma exact_index_eq: "exact_index l \<Longrightarrow> i < num_shards l \<Longrightarrow> get_shard_index l sid = Inr i \<longleftrightarrow> sid = id_at l i"
  by (metis exact_index_def index_id_at)

lemma load_allowances_ok:
  assumes "exact_index l" and "slm_wf (num_shards l) m"
  shows "\<exists>m'. fold_opt (load_allowance_step l) las m = Some m' \<and> slm_wf (num_shards l) m'"
proof (rule fold_opt_inv [where P = "slm_wf (num_shards l)"])
  fix la and m :: "bandwidth shard_link_map" assume m: "slm_wf (num_shards l) m"
  show "\<exists>m'. load_allowance_step l la m = Some m' \<and> slm_wf (num_shards l) m'"
  proof (cases "\<exists>s r. get_shard_index l (la_sender la) = Inr s \<and> get_shard_index l (la_receiver la) = Inr r")
    case True
    then obtain s r where sr: "get_shard_index l (la_sender la) = Inr s" "get_shard_index l (la_receiver la) = Inr r" by blast
    then have "ShardLink s r \<in> in_range (num_shards l)" using assms(1) by (simp add: exact_index_def)
    from slm.ins_ok [OF m this] sr show ?thesis by (auto simp: load_allowance_step_def)
  next
    case False
    with m show ?thesis by (auto simp: load_allowance_step_def split: sum.splits)
  qed
qed (rule assms)

lemma load_statuses_ok:
  assumes "exact_index l" and "bt_inv statuses"
  shows "\<exists>m. fold_opt (load_status_step l) statuses (sim_new l) = Some m \<and> length m = num_shards l \<and>
    (\<forall>i<num_shards l. sim_view m i = bt_get statuses (id_at l i))"
proof -
  let ?n = "num_shards l"
  let ?P = "\<lambda>todo m. length m = ?n \<and> distinct (map fst todo) \<and>
    (\<exists>past. statuses = past @ todo \<and> (\<forall>i<?n. sim_view m i = map_of past (id_at l i)))"
  have "\<exists>m. fold_opt (load_status_step l) statuses (sim_new l) = Some m \<and> ?P [] m"
  proof (rule fold_opt_inv_list [where P = ?P])
    show "?P statuses (sim_new l)"
      using bt_inv_distinct [OF assms(2)] by (simp add: sim_new_length sim_new_view bt_keys_def)
    fix e todo m assume "?P (e # todo) m"
    then obtain past where m: "length m = ?n" "distinct (map fst todo)" "statuses = past @ e # todo"
      and view: "\<And>i. i < ?n \<Longrightarrow> sim_view m i = map_of past (id_at l i)" by auto
    obtain sid st where e: "e = (sid, st)" by (cases e)
    have fresh: "map_of past sid = None"
      using bt_inv_distinct [OF assms(2)] m(3) e by (auto simp: bt_keys_def map_of_eq_None_iff)
    have past': "map_of (past @ [e]) k = (if k = sid then Some st else map_of past k)" for k
      using fresh e by (simp add: map_add_def split: option.splits)
    show "\<exists>m'. load_status_step l e m = Some m' \<and> ?P todo m'"
    proof (cases "get_shard_index l sid")
      case (Inl err)
      have "sid \<noteq> id_at l i" if "i < ?n" for i
        using exact_index_eq [OF assms(1) that] Inl by (metis sum.distinct(1))
      then have "\<forall>i<?n. sim_view m i = map_of (past @ [e]) (id_at l i)" using view past' by metis
      then have "?P todo m" using m by (intro conjI exI [of _ "past @ [e]"]) simp_all
      with Inl e show ?thesis by (simp add: load_status_step_def)
    next
      case (Inr i)
      have i: "i < ?n" "sid = id_at l i" using Inr assms(1) by (simp_all add: exact_index_def)
      obtain m' where m': "sim_insert m i st = Some m'" "length m' = ?n"
          "\<And>k. k \<in> {..<?n} \<Longrightarrow> sim_view m' k = (if k = i then Some st else sim_view m k)"
        using sim.ins_ok [OF m(1), of i st] i(1) by blast
      have inj: "id_at l k = id_at l i \<longleftrightarrow> k = i" if "k < ?n" for k
        using id_at_inj [of l k i] assms(1) that i(1) by (simp add: exact_index_def)
      have "\<forall>k<?n. sim_view m' k = map_of (past @ [e]) (id_at l k)"
        using m'(3) view past' inj i(2) by simp
      then have "?P todo m'" using m'(2) m(2,3) by (intro conjI exI [of _ "past @ [e]"]) simp_all
      with m'(1) Inr e show ?thesis by (simp add: load_status_step_def)
    qed
  qed
  then show ?thesis by (auto simp: bt_get_def)
qed

text \<open>
  When sending on a link is allowed, stated on the shard statuses: the receiver's status is known
  and its last chunk is not missing, the sender's last chunk is not known to be missing, and a fully
  congested receiver takes receipts only from its allowed sender.
\<close>

definition status_allows :: "shard_layout \<Rightarrow> (shard_id, shard_status) btree \<Rightarrow> shard_index \<Rightarrow> shard_index \<Rightarrow> bool" where
  "status_allows l statuses s r \<longleftrightarrow>
     (\<exists>rs. bt_get statuses (id_at l r) = Some rs \<and> \<not> last_chunk_missing rs \<and>
        (\<forall>ss. bt_get statuses (id_at l s) = Some ss \<longrightarrow> \<not> last_chunk_missing ss) \<and>
        (is_fully_congested rs \<longrightarrow> allowed_sender_shard_index rs = Some s))"

lemma calculate_allowed_ok:
  assumes "length m = num_shards l" and "\<forall>i<num_shards l. sim_view m i = bt_get statuses (id_at l i)"
    and "s < num_shards l" and "r < num_shards l"
  shows "calculate_is_link_allowed s r m = Some (status_allows l statuses s r)"
proof -
  have get: "sim_get m r = Some (bt_get statuses (id_at l r))" "sim_get m s = Some (bt_get statuses (id_at l s))"
    using sim.get_view [OF assms(1)] assms(2-4) by simp_all
  show ?thesis
    by (cases "bt_get statuses (id_at l r)"; cases "bt_get statuses (id_at l s)")
      (auto simp: calculate_is_link_allowed_def get status_allows_def)
qed

lemma load_allowed_ok:
  assumes "length m = num_shards l" and "\<forall>i<num_shards l. sim_view m i = bt_get statuses (id_at l i)"
    and "slm_wf (num_shards l) al0"
  shows "\<exists>al. fold_opt (load_allowed_step m) (links (num_shards l)) al0 = Some al \<and> slm_wf (num_shards l) al \<and>
    (\<forall>s<num_shards l. \<forall>r<num_shards l. allowed_view al s r \<longleftrightarrow> status_allows l statuses s r)"
proof -
  let ?n = "num_shards l"
  let ?f = "\<lambda>k. status_allows l statuses (link_sender k) (link_receiver k)"
  have "fold_opt (load_allowed_step m) ks al = fold_opt (\<lambda>k al. slm_insert al k (?f k)) ks al"
    if "set ks \<subseteq> in_range ?n" for ks al
    using that
  proof (induction ks arbitrary: al)
    case (Cons k ks)
    then have "load_allowed_step m k al = slm_insert al k (?f k)"
      using calculate_allowed_ok [OF assms(1,2)] by (simp add: load_allowed_step_def)
    with Cons show ?case by (cases "slm_insert al k (?f k)") simp_all
  qed simp
  moreover have sub: "set (links ?n) \<subseteq> in_range ?n" by (simp add: links_in_range)
  ultimately have "fold_opt (load_allowed_step m) (links ?n) al0 = fold_opt (\<lambda>k al. slm_insert al k (?f k)) (links ?n) al0"
    by blast
  with slm.fill_ok [OF assms(3) sub, of ?f] obtain al where
    "fold_opt (load_allowed_step m) (links ?n) al0 = Some al" "slm_wf ?n al"
    "\<forall>k\<in>in_range ?n. slm_view al k = (if k \<in> set (links ?n) then Some (?f k) else slm_view al0 k)" by auto
  then show ?thesis by (intro exI [of _ al]) (simp add: links_in_range allowed_view_def)
qed

lemma load_requests_ok:
  assumes "exact_index l" and "params_ok params"
  shows "\<exists>reqs. fold_opt (load_request_step bits_get params l) requests [] = Some reqs \<and>
    requests_in_range (num_shards l) (mset reqs)"
proof (rule fold_opt_inv [where P = "\<lambda>reqs. requests_in_range (num_shards l) (mset reqs)"])
  let ?P = "\<lambda>reqs. requests_in_range (num_shards l) (mset reqs)"
  fix e :: "shard_id \<times> bandwidth_requests" and reqs assume reqs: "?P reqs"
  obtain sender rs where e: "e = (sender, BandwidthRequestsV1 rs)" by (metis bandwidth_requests.exhaust prod.exhaust)
  have "\<exists>reqs'. fold_opt (\<lambda>req reqs. do {
                r \<leftarrow> scheduler_request_new bits_get sender req params l;
                (case r of None \<Rightarrow> Some reqs | Some r \<Rightarrow> Some (reqs @ [r]))
              }) rs reqs = Some reqs' \<and> ?P reqs'"
  proof (rule fold_opt_inv [where P = ?P, OF reqs])
    fix req reqs assume reqs: "?P reqs"
    obtain r where r: "scheduler_request_new bits_get sender req params l = Some r"
      and link: "\<And>q. r = Some q \<Longrightarrow> \<exists>s t. get_shard_index l sender = Inr s \<and>
        get_shard_index l (to_shard req) = Inr t \<and> req_link q = ShardLink s t"
      using scheduler_request_new_link [OF assms(2), of bits_get sender req l] by blast
    show "\<exists>reqs'. do { r \<leftarrow> scheduler_request_new bits_get sender req params l;
                (case r of None \<Rightarrow> Some reqs | Some r \<Rightarrow> Some (reqs @ [r])) } = Some reqs' \<and> ?P reqs'"
    proof (cases r)
      case None
      then show ?thesis using r reqs by simp
    next
      case (Some q)
      then have "req_link q \<in> in_range (num_shards l)" using link assms(1) by (auto simp: exact_index_def)
      then show ?thesis using r reqs Some by (simp add: requests_in_range_def)
    qed
  qed
  then show "\<exists>reqs'. load_request_step bits_get params l e reqs = Some reqs' \<and> ?P reqs'"
    by (simp add: load_request_step_def e)
qed (simp add: requests_in_range_def)

lemma schedule_ok:
  assumes "permutes_requests shuffle" and "fresh n st" and "0 < n" and "requests_in_range n (mset reqs)"
    and "layout_inv (bs_layout st)"
  shows "\<exists>granted st'. schedule_bandwidth shuffle reqs st = Some (granted, st') \<and> sched_wf n st' \<and> bt_inv granted \<and>
    within_limits n st' \<and> grants_open n st' \<and> allowances_ok n st' \<and>
    bs_layout st' = bs_layout st \<and> bs_params st' = bs_params st \<and> is_link_allowed_map st' = is_link_allowed_map st \<and>
    (\<forall>s<n. \<forall>r<n. bt_get granted (id_at (bs_layout st) s, id_at (bs_layout st) r) = slm_view (granted_on st') (ShardLink s r)) \<and>
    (n * base_bandwidth (bs_params st) \<le> max_shard_bandwidth (bs_params st) \<longrightarrow>
      (\<forall>s<n. \<forall>r<n. link_open st s r \<longrightarrow> base_bandwidth (bs_params st) \<le> granted_at st' s r))"
proof -
  obtain sm rm where "init_budgets st = Some (st\<lparr>sender_budget := sm, receiver_budget := rm\<rparr>)"
    "sched_wf n (st\<lparr>sender_budget := sm, receiver_budget := rm\<rparr>)"
    "budgets_ok n (st\<lparr>sender_budget := sm, receiver_budget := rm\<rparr>)"
    "grants_open n (st\<lparr>sender_budget := sm, receiver_budget := rm\<rparr>)" by (rule init_budgets_ok [OF assms(2)])
  moreover define st1 where "st1 = st\<lparr>sender_budget := sm, receiver_budget := rm\<rparr>"
  ultimately have st1: "init_budgets st = Some st1" "sched_wf n st1" "budgets_ok n st1" "grants_open n st1" by simp_all
  obtain m where m: "increase_allowances st1 = Some (st1\<lparr>link_allowances := m\<rparr>)" "slm_wf n m"
      "allowances_ok n (st1\<lparr>link_allowances := m\<rparr>)"
    using increase_allowances_ok [OF st1(2) assms(3)] by blast
  define st2 where "st2 = st1\<lparr>link_allowances := m\<rparr>"
  have inv2: "sched_inv n st2"
    using st1(2-4) m(2,3) by (simp add: sched_inv_def st2_def sched_wf_def budgets_ok_def grants_open_def)
  have same2: "bs_layout st2 = bs_layout st" "bs_params st2 = bs_params st" "is_link_allowed_map st2 = is_link_allowed_map st"
    by (simp_all add: st2_def st1_def)
  have "granted_at st2 s r = 0" if "s < n" "r < n" for s r
    using assms(2) that by (simp add: st2_def st1_def fresh_def grant_of_def)
  from grant_base_ok [OF inv2 this] obtain st3 where
    st3: "grant_base_bandwidth st2 = Some st3" "sched_inv n st3" "extends n st2 st3"
    and base: "n * base_bandwidth (bs_params st) \<le> max_shard_bandwidth (bs_params st) \<longrightarrow>
      (\<forall>s<n. \<forall>r<n. link_open st s r \<longrightarrow> granted_at st3 s r = base_bandwidth (bs_params st))"
    unfolding same2 by blast
  obtain st4 where st4: "process_bandwidth_requests shuffle reqs st3 = Some st4" "sched_inv n st4" "extends n st3 st4"
    using process_requests_ok [OF assms(1) st3(2) assms(4)] by blast
  obtain st5 where st5: "distribute_remaining st4 = Some st5" "sched_wf n st5" "within_limits n st5" "grants_open n st5"
      "allowances_ok n st5" "extends n st4 st5"
    using distribute_remaining_ok [OF st4(2)] by blast
  have ext: "extends n st3 st5" by (rule extends_trans [OF st4(3) st5(6)])
  have same: "bs_layout st5 = bs_layout st" "bs_params st5 = bs_params st" "is_link_allowed_map st5 = is_link_allowed_map st"
    using extends_trans [OF st3(3) ext] same2 by (simp_all add: extends_def)
  obtain granted where granted: "get_final_granted_bandwidth st5 = Some granted" "bt_inv granted"
    "\<forall>s<n. \<forall>r<n. bt_get granted (id_at (bs_layout st) s, id_at (bs_layout st) r) = slm_view (granted_on st5) (ShardLink s r)"
    using final_granted_ok [OF st5(2)] assms(5) unfolding same by blast
  have "base_bandwidth (bs_params st) \<le> granted_at st5 s r"
    if "n * base_bandwidth (bs_params st) \<le> max_shard_bandwidth (bs_params st)" "s < n" "r < n" "link_open st s r" for s r
    using base that ext unfolding extends_def by metis
  moreover have "schedule_bandwidth shuffle reqs st = Some (granted, st5)"
    using st1(1) m(1) st3(1) st4(1) st5(1) granted(1) by (simp add: schedule_bandwidth_def st2_def)
  ultimately show ?thesis using st5 granted same by blast
qed

text \<open>What holds of every run on a valid layout of version 2, whatever the state, requests and statuses.\<close>

definition run_spec ::
  "shard_layout \<Rightarrow> scheduler_params \<Rightarrow> (shard_id, shard_status) btree \<Rightarrow> granted_bandwidth \<Rightarrow> scheduler_state \<Rightarrow> bool" where
  "run_spec l params statuses granted state' \<longleftrightarrow>
     (\<forall>s<num_shards l. (\<Sum>r<num_shards l. get_granted_bandwidth granted (id_at l s) (id_at l r)) \<le> max_shard_bandwidth params) \<and>
     (\<forall>r<num_shards l. (\<Sum>s<num_shards l. get_granted_bandwidth granted (id_at l s) (id_at l r)) \<le> max_shard_bandwidth params) \<and>
     (\<forall>s<num_shards l. \<forall>r<num_shards l. \<not> status_allows l statuses s r \<longrightarrow> bt_get granted (id_at l s, id_at l r) = None) \<and>
     (num_shards l * base_bandwidth params \<le> max_shard_bandwidth params \<longrightarrow>
       (\<forall>s<num_shards l. \<forall>r<num_shards l. status_allows l statuses s r \<longrightarrow>
          base_bandwidth params \<le> get_granted_bandwidth granted (id_at l s) (id_at l r))) \<and>
     (\<exists>v1. state' = SchedulerStateV1 v1 \<and> length (state_link_allowances v1) = num_shards l * num_shards l \<and>
        (\<forall>la\<in>set (state_link_allowances v1). la_allowance la \<le> max_allowance params))"

lemma scheduler_run_ok:
  assumes "exact_index l" and "num_shards l * num_shards l < 2 ^ 64" and "num_shards l \<noteq> 0"
    and "params_ok params" and "max_shard_bandwidth params < 2 ^ 64"
    and "permutes_requests shuffle" and "bt_inv statuses"
  shows "\<exists>granted state'. scheduler_run bits_get from_seed shuffle l state params requests statuses seed = Some (granted, state') \<and>
    run_spec l params statuses granted state'"
proof -
  let ?n = "num_shards l"
  have inv: "layout_inv l" using assms(1) by (simp add: exact_index_def)
  obtain v1 where state: "state = SchedulerStateV1 v1" by (cases state)
  obtain m0 :: "bandwidth shard_link_map" where m0: "slm_new l = Some m0" "slm_wf ?n m0" "\<forall>k\<in>in_range ?n. slm_view m0 k = None"
    using slm_new_ok [OF assms(2)] by blast
  obtain al0 :: "bool shard_link_map" where al0: "slm_new l = Some al0" "slm_wf ?n al0"
    using slm_new_ok [OF assms(2)] by blast
  obtain am where am: "fold_opt (load_allowance_step l) (state_link_allowances v1) m0 = Some am" "slm_wf ?n am"
    using load_allowances_ok [OF assms(1) m0(2)] by blast
  obtain sts where sts: "fold_opt (load_status_step l) statuses (sim_new l) = Some sts" "length sts = ?n"
      "\<forall>i<?n. sim_view sts i = bt_get statuses (id_at l i)"
    using load_statuses_ok [OF assms(1,7)] by blast
  obtain al where al: "fold_opt (load_allowed_step sts) (links ?n) al0 = Some al" "slm_wf ?n al"
      "\<forall>s<?n. \<forall>r<?n. allowed_view al s r \<longleftrightarrow> status_allows l statuses s r"
    using load_allowed_ok [OF sts(2,3) al0(2)] by blast
  obtain reqs where reqs: "fold_opt (load_request_step bits_get params l) requests [] = Some reqs"
      "requests_in_range ?n (mset reqs)"
    using load_requests_ok [OF assms(1,4)] by blast
  let ?st = "\<lparr> bs_layout = l, bs_params = params, is_link_allowed_map = al,
                    sender_budget = sim_new l, receiver_budget = sim_new l,
                    link_allowances = am, granted_on = m0, bs_rng = from_seed seed \<rparr>"
  have fresh: "fresh ?n ?st"
    using am(2) al(2) m0 assms(5) by (simp add: fresh_def sched_wf_def sim_new_length)
  obtain granted st' where run: "schedule_bandwidth shuffle reqs ?st = Some (granted, st')" "sched_wf ?n st'" "bt_inv granted"
      "within_limits ?n st'" "grants_open ?n st'" "allowances_ok ?n st'"
      "bs_layout st' = l" "bs_params st' = params" "is_link_allowed_map st' = al"
    and get: "\<forall>s<?n. \<forall>r<?n. bt_get granted (id_at l s, id_at l r) = slm_view (granted_on st') (ShardLink s r)"
    and base: "?n * base_bandwidth params \<le> max_shard_bandwidth params \<longrightarrow>
      (\<forall>s<?n. \<forall>r<?n. allowed_view al s r \<longrightarrow> base_bandwidth params \<le> granted_at st' s r)"
    using schedule_ok [OF assms(6) fresh _ reqs(2)] assms(3) inv by auto
  obtain v1' where v1': "update_scheduler_state st' v1 = Some v1'" "length (state_link_allowances v1') = ?n * ?n"
      "\<forall>la\<in>set (state_link_allowances v1'). la_allowance la \<le> max_allowance params"
    using update_state_ok [OF run(2) _ run(6), of v1] inv run(7,8) by auto
  have at: "get_granted_bandwidth granted (id_at l s) (id_at l r) = granted_at st' s r" if "s < ?n" "r < ?n" for s r
    using get that by (simp add: get_granted_bandwidth_def grant_of_def)
  have "scheduler_run bits_get from_seed shuffle l state params requests statuses seed = Some (granted, SchedulerStateV1 v1')"
    using assms(3) m0(1) al0(1) am(1) sts(1) al(1) reqs(1) run(1) v1'(1) by (simp add: scheduler_run_def state)
  moreover have "run_spec l params statuses granted (SchedulerStateV1 v1')"
    unfolding run_spec_def
  proof (intro conjI allI impI)
    fix s assume s: "s < ?n"
    have "(\<Sum>r<?n. get_granted_bandwidth granted (id_at l s) (id_at l r)) = (\<Sum>r<?n. granted_at st' s r)"
      using at [OF s] by simp
    then show "(\<Sum>r<?n. get_granted_bandwidth granted (id_at l s) (id_at l r)) \<le> max_shard_bandwidth params"
      using run(4,8) s by (simp add: within_limits_def)
  next
    fix r assume r: "r < ?n"
    have "(\<Sum>s<?n. get_granted_bandwidth granted (id_at l s) (id_at l r)) = (\<Sum>s<?n. granted_at st' s r)"
      using at r by simp
    then show "(\<Sum>s<?n. get_granted_bandwidth granted (id_at l s) (id_at l r)) \<le> max_shard_bandwidth params"
      using run(4,8) r by (simp add: within_limits_def)
  next
    fix s r assume sr: "s < ?n" "r < ?n" and no: "\<not> status_allows l statuses s r"
    have "\<not> allowed_view al s r" using al(3) sr no by blast
    then show "bt_get granted (id_at l s, id_at l r) = None"
      using get sr run(5,9) unfolding grants_open_def by metis
  next
    fix s r assume sr: "?n * base_bandwidth params \<le> max_shard_bandwidth params" "s < ?n" "r < ?n" "status_allows l statuses s r"
    then show "base_bandwidth params \<le> get_granted_bandwidth granted (id_at l s) (id_at l r)"
      using base al(3) at by metis
  next
    show "\<exists>v1. SchedulerStateV1 v1' = SchedulerStateV1 v1 \<and> length (state_link_allowances v1) = ?n * ?n \<and>
        (\<forall>la\<in>set (state_link_allowances v1). la_allowance la \<le> max_allowance params)"
      using v1' by blast
  qed
  ultimately show ?thesis by blast
qed

section \<open>Properties\<close>

text \<open>
  C8: On a valid layout of version 2 a run of the bandwidth scheduler neither panics nor runs out of
  fuel, for every stored state, every set of requests and shard statuses, and every shuffle that
  permutes. The bandwidth granted to all links out of one shard is at most \<open>max_shard_bandwidth\<close>, and
  so is the bandwidth granted to all links into one shard. The stored allowances, one per link, are
  at most \<open>max_allowance\<close>.
\<close>

theorem scheduler_run_within_limits:
  assumes "layout_inv (V2 v)" and "num_shards (V2 v) * num_shards (V2 v) < 2 ^ 64" and "num_shards (V2 v) \<noteq> 0"
    and "params_ok params" and "max_shard_bandwidth params < 2 ^ 64"
    and "permutes_requests shuffle" and "bt_inv statuses"
  shows "\<exists>granted v1. scheduler_run bits_get from_seed shuffle (V2 v) state params requests statuses seed =
      Some (granted, SchedulerStateV1 v1) \<and>
    (\<forall>s<num_shards (V2 v). (\<Sum>r<num_shards (V2 v). get_granted_bandwidth granted (id_at (V2 v) s) (id_at (V2 v) r))
       \<le> max_shard_bandwidth params) \<and>
    (\<forall>r<num_shards (V2 v). (\<Sum>s<num_shards (V2 v). get_granted_bandwidth granted (id_at (V2 v) s) (id_at (V2 v) r))
       \<le> max_shard_bandwidth params) \<and>
    length (state_link_allowances v1) = num_shards (V2 v) * num_shards (V2 v) \<and>
    (\<forall>la\<in>set (state_link_allowances v1). la_allowance la \<le> max_allowance params)"
  using scheduler_run_ok [OF exact_index_v2 [OF assms(1)] assms(2-)] unfolding run_spec_def by metis

definition example_v2 :: shard_layout_v2 where
  "example_v2 =
     \<lparr> v2_boundary_accounts = [''aurora'', ''kkuuue''], v2_shard_ids = [4, 0, 7],
       v2_id_to_index_map = [(0, 1), (4, 0), (7, 2)],
       v2_index_to_id_map = [(0, 4), (1, 0), (2, 7)], v2_shards_split_map = None,
       v2_shards_parent_map = None, v2_version = 3 \<rparr>"

lemma example_v2: "V2 example_v2 = example_base"
  by (simp add: example_v2_def example_base_def)

definition example_statuses :: "(shard_id, shard_status) btree" where
  "example_statuses =
     [(0, \<lparr> is_fully_congested = False, last_chunk_missing = False, allowed_sender_shard_index = None \<rparr>),
      (4, \<lparr> is_fully_congested = False, last_chunk_missing = True, allowed_sender_shard_index = None \<rparr>),
      (7, \<lparr> is_fully_congested = True, last_chunk_missing = False, allowed_sender_shard_index = Some 1 \<rparr>)]"

lemma example_run_hyps:
  "layout_inv (V2 example_v2)" "num_shards (V2 example_v2) * num_shards (V2 example_v2) < 2 ^ 64"
  "num_shards (V2 example_v2) \<noteq> 0" "max_shard_bandwidth example_params < 2 ^ 64"
  "permutes_requests (\<lambda>rng reqs. (rev reqs, rng))" "bt_inv example_statuses"
  by (simp_all add: example_v2 example_base_inv example_base_fields example_params_def permutes_requests_def
      bt_inv_def example_statuses_def)

lemma example_ids: "id_at (V2 example_v2) 0 = 4" "id_at (V2 example_v2) 1 = 0" "id_at (V2 example_v2) 2 = 7"
  by (simp_all add: example_v2 example_base_def id_at_def unwrap_id_def get_shard_id_def vec_get_def bt_get_def)

theorem scheduler_run_within_limits_witness:
  "\<exists>granted v1. scheduler_run lsb0_get id (\<lambda>rng reqs. (rev reqs, rng)) (V2 example_v2)
      (SchedulerStateV1 \<lparr> state_link_allowances = [], sanity_check_hash = [] \<rparr>) example_params
      [(0, BandwidthRequestsV1 [\<lparr> to_shard = 7, requested_values_bitmap = [2, 0, 0, 0, 0] \<rparr>])]
      example_statuses [] = Some (granted, SchedulerStateV1 v1) \<and>
    get_granted_bandwidth granted 0 4 + get_granted_bandwidth granted 0 0 + get_granted_bandwidth granted 0 7 \<le> 1000 \<and>
    length (state_link_allowances v1) = 9"
proof -
  obtain granted v1 where run: "scheduler_run lsb0_get id (\<lambda>rng reqs. (rev reqs, rng)) (V2 example_v2)
      (SchedulerStateV1 \<lparr> state_link_allowances = [], sanity_check_hash = [] \<rparr>) example_params
      [(0, BandwidthRequestsV1 [\<lparr> to_shard = 7, requested_values_bitmap = [2, 0, 0, 0, 0] \<rparr>])]
      example_statuses [] = Some (granted, SchedulerStateV1 v1)"
    and sums: "\<forall>s<num_shards (V2 example_v2). (\<Sum>r<num_shards (V2 example_v2).
       get_granted_bandwidth granted (id_at (V2 example_v2) s) (id_at (V2 example_v2) r)) \<le> max_shard_bandwidth example_params"
    and len: "length (state_link_allowances v1) = num_shards (V2 example_v2) * num_shards (V2 example_v2)"
    using scheduler_run_within_limits [OF example_run_hyps(1-3) example_params_ok example_run_hyps(4-6), of lsb0_get id] by blast
  have n: "num_shards (V2 example_v2) = 3" by (simp add: example_v2 example_base_fields)
  have "(\<Sum>r<3. get_granted_bandwidth granted (id_at (V2 example_v2) 1) (id_at (V2 example_v2) r)) \<le> 1000"
    using sums unfolding n by (simp add: example_params_def)
  then have "get_granted_bandwidth granted 0 4 + get_granted_bandwidth granted 0 0 + get_granted_bandwidth granted 0 7 \<le> 1000"
    using example_ids by (simp add: numeral_3_eq_3 numeral_2_eq_2)
  with run len n show ?thesis by auto
qed

text \<open>
  C13: Grants follow the shard statuses. A link that the statuses do not allow (unknown receiver, a
  missing chunk at either end, or a fully congested receiver whose allowed sender is another shard)
  gets no grant at all; when \<open>max_shard_bandwidth\<close> has room for the base bandwidth of all links of
  a shard, every allowed link gets at least the base bandwidth.
\<close>

theorem scheduler_run_follows_status:
  assumes "layout_inv (V2 v)" and "num_shards (V2 v) * num_shards (V2 v) < 2 ^ 64" and "num_shards (V2 v) \<noteq> 0"
    and "params_ok params" and "max_shard_bandwidth params < 2 ^ 64"
    and "permutes_requests shuffle" and "bt_inv statuses"
    and "num_shards (V2 v) * base_bandwidth params \<le> max_shard_bandwidth params"
  shows "\<exists>granted state'. scheduler_run bits_get from_seed shuffle (V2 v) state params requests statuses seed =
      Some (granted, state') \<and>
    (\<forall>s<num_shards (V2 v). \<forall>r<num_shards (V2 v).
       if status_allows (V2 v) statuses s r
       then base_bandwidth params \<le> get_granted_bandwidth granted (id_at (V2 v) s) (id_at (V2 v) r)
       else bt_get granted (id_at (V2 v) s, id_at (V2 v) r) = None)"
  using scheduler_run_ok [OF exact_index_v2 [OF assms(1)] assms(2-7), of bits_get from_seed state requests seed] assms(8)
  unfolding run_spec_def by auto

theorem scheduler_run_follows_status_witness:
  "\<exists>granted state'. scheduler_run lsb0_get id (\<lambda>rng reqs. (rev reqs, rng)) (V2 example_v2)
      (SchedulerStateV1 \<lparr> state_link_allowances = [], sanity_check_hash = [] \<rparr>) example_params
      [] example_statuses [] = Some (granted, state') \<and>
    100 \<le> get_granted_bandwidth granted 0 7 \<and> bt_get granted (7, 7) = None \<and> bt_get granted (0, 4) = None"
proof -
  have n: "num_shards (V2 example_v2) = 3" by (simp add: example_v2 example_base_fields)
  have room: "num_shards (V2 example_v2) * base_bandwidth example_params \<le> max_shard_bandwidth example_params"
    unfolding n by (simp add: example_params_def)
  obtain granted state' where run: "scheduler_run lsb0_get id (\<lambda>rng reqs. (rev reqs, rng)) (V2 example_v2)
      (SchedulerStateV1 \<lparr> state_link_allowances = [], sanity_check_hash = [] \<rparr>) example_params
      [] example_statuses [] = Some (granted, state')"
    and links: "\<forall>s<num_shards (V2 example_v2). \<forall>r<num_shards (V2 example_v2).
       if status_allows (V2 example_v2) example_statuses s r
       then base_bandwidth example_params \<le> get_granted_bandwidth granted (id_at (V2 example_v2) s) (id_at (V2 example_v2) r)
       else bt_get granted (id_at (V2 example_v2) s, id_at (V2 example_v2) r) = None"
    using scheduler_run_follows_status [OF example_run_hyps(1-3) example_params_ok example_run_hyps(4-6) room, of lsb0_get id] by blast
  have al: "status_allows (V2 example_v2) example_statuses 1 2" "\<not> status_allows (V2 example_v2) example_statuses 2 2"
    "\<not> status_allows (V2 example_v2) example_statuses 1 0"
    using example_ids by (simp_all add: status_allows_def example_statuses_def bt_get_def)
  have "100 \<le> get_granted_bandwidth granted 0 7"
    using links [rule_format, of 1 2] al(1) example_ids n by (simp add: example_params_def)
  moreover have "bt_get granted (7, 7) = None" "bt_get granted (0, 4) = None"
    using links [rule_format, of 2 2] links [rule_format, of 1 0] al(2,3) example_ids n by simp_all
  ultimately show ?thesis using run by blast
qed

text \<open>
  C17: The increases of an internal request add up to the requested values. For a request between two
  shards of the layout, the running totals that start from the base bandwidth are exactly the
  requested table values above the base bandwidth, every increase is positive, and there is no
  internal request exactly when nothing above the base bandwidth is requested; a request from or to
  an unknown shard is dropped.
\<close>

theorem request_increases_exact:
  assumes "params_ok params"
  shows "\<exists>r. scheduler_request_new bits_get sender req params layout = Some r \<and>
    (case (get_shard_index layout sender, get_shard_index layout (to_shard req)) of
       (Inr s, Inr t) \<Rightarrow>
         (r = None \<longleftrightarrow> requested_above_base bits_get (requested_values_bitmap req) params = {}) \<and>
         (\<forall>q. r = Some q \<longrightarrow> req_link q = ShardLink s t \<and> (\<forall>d\<in>set (bandwidth_increases q). 0 < d) \<and>
            running_totals (base_bandwidth params) (bandwidth_increases q) =
              requested_above_base bits_get (requested_values_bitmap req) params)
     | _ \<Rightarrow> r = None)"
  using assms by (rule scheduler_request_new_spec)

theorem request_increases_exact_witness:
  "\<exists>q. scheduler_request_new lsb0_get 0 \<lparr> to_shard = 7, requested_values_bitmap = [2, 0, 0, 0, 0] \<rparr>
      example_params example_base = Some (Some q) \<and> req_link q = ShardLink 1 2 \<and>
    120 \<in> running_totals 100 (bandwidth_increases q)"
proof -
  let ?req = "\<lparr> to_shard = 7, requested_values_bitmap = [2, 0, 0, 0, 0] \<rparr>"
  have idx: "get_shard_index example_base 0 = Inr 1" "get_shard_index example_base 7 = Inr 2"
    by (simp_all add: example_base_def get_shard_index_def bt_get_def)
  have "bit (2 :: byte) 1" by (simp add: bit_word_iff_drop_bit_and [of 2] flip: push_bit_of_1)
  then have bit: "lsb0_get [2, 0, 0, 0, 0] 1" by (simp add: lsb0_get_def)
  have "value_at example_params 1 = 120" by (simp add: value_at_def example_params_def)
  with bit have mem: "120 \<in> requested_above_base lsb0_get [2, 0, 0, 0, 0] example_params"
    unfolding requested_above_base_def by (intro CollectI exI [of _ 1]) (simp add: example_params_def)
  have b: "base_bandwidth example_params = 100" by (simp add: example_params_def)
  from request_increases_exact [OF example_params_ok, of lsb0_get 0 ?req example_base] idx
  obtain r where r: "scheduler_request_new lsb0_get 0 ?req example_params example_base = Some r"
    "r = None \<longleftrightarrow> requested_above_base lsb0_get [2, 0, 0, 0, 0] example_params = {}"
    "\<forall>q. r = Some q \<longrightarrow> req_link q = ShardLink 1 2 \<and> running_totals 100 (bandwidth_increases q) =
              requested_above_base lsb0_get [2, 0, 0, 0, 0] example_params"
    unfolding b by auto
  then obtain q where "r = Some q" using mem by (cases r) auto
  with r mem show ?thesis by auto
qed

text \<open>
  C22: With a layout of version 1 the scheduler panics on a status for a shard that is not in the layout:
  the index lookup of that version returns every id as an index, and the write to the status map is
  out of range. (With a layout of version 2 such a status is ignored.)
\<close>

theorem v1_unknown_shard_panics:
  assumes "num_shards (V1 v) \<noteq> 0" and "(sid, status) \<in> set statuses" and "num_shards (V1 v) \<le> sid"
  shows "scheduler_run bits_get from_seed shuffle (V1 v) state params requests statuses seed = None"
proof -
  have "fold_opt (load_status_step (V1 v)) statuses m = None" if "length m = num_shards (V1 v)" for m
    using assms(2) that
  proof (induction statuses arbitrary: m)
    case (Cons e statuses)
    obtain sid' status' where e: "e = (sid', status')" by (cases e)
    have step: "load_status_step (V1 v) e m = sim_insert m sid' status'"
      by (simp add: load_status_step_def e get_shard_index_def)
    show ?case
    proof (cases "sid' < num_shards (V1 v)")
      case True
      then have "(sid, status) \<in> set statuses" using Cons.prems(1) assms(3) e by auto
      moreover have "sim_insert m sid' status' = Some (m[sid' := Some status'])"
        using True Cons.prems(2) by (simp add: sim_insert_def)
      ultimately show ?thesis using Cons.IH Cons.prems(2) step by simp
    next
      case False
      then show ?thesis using step Cons.prems(2) by (simp add: sim_insert_def vec_set_def)
    qed
  qed simp
  then have "fold_opt (load_status_step (V1 v)) statuses (sim_new (V1 v)) = None" by (simp add: sim_new_length)
  then show ?thesis using assms(1) by (cases state) (auto simp: scheduler_run_def bind_eq_None_conv)
qed

theorem v1_unknown_shard_panics_witness:
  "scheduler_run lsb0_get id (\<lambda>rng reqs. (reqs, rng))
      (V1 \<lparr> v1_boundary_accounts = [''m''], v1_shards_split_map = None, v1_to_parent_shard_map = None, v1_version = 1 \<rparr>)
      (SchedulerStateV1 \<lparr> state_link_allowances = [], sanity_check_hash = [] \<rparr>) example_params [] example_statuses [] = None"
  by (rule v1_unknown_shard_panics [where sid = 7]) (auto simp: num_shards_def example_statuses_def)

end
