(* ===== verification/Gas_Costs.thy ===== *)
theory Gas_Costs
  imports Rust_Prelude
begin

text \<open>
  Costs of host functions and actions (\<open>core/parameters/src/cost.rs\<close>) and the gas profile of a contract
  call (\<open>runtime/near-vm-runner/src/profile.rs\<close>). An \<open>EnumMap\<close> is a total function on the enum; iterating
  over it follows the order of the variants. The 85 variants of \<open>ExtCosts\<close> are represented by their
  discriminants, the variants that the sources modelled here mention have names.
\<close>

type_synonym gas = nat
type_synonym balance = nat

section \<open>Enums of costs\<close>

type_synonym ext_costs = nat

definition ext_costs_length :: nat where "ext_costs_length = 85"

abbreviation (input) contract_loading_base :: ext_costs where "contract_loading_base \<equiv> 1"
abbreviation (input) contract_loading_bytes :: ext_costs where "contract_loading_bytes \<equiv> 2"
abbreviation (input) storage_write_evicted_byte :: ext_costs where "storage_write_evicted_byte \<equiv> 29"
abbreviation (input) storage_remove_ret_value_byte :: ext_costs where "storage_remove_ret_value_byte \<equiv> 35"
abbreviation (input) touching_trie_node :: ext_costs where "touching_trie_node \<equiv> 46"
abbreviation (input) read_cached_trie_node :: ext_costs where "read_cached_trie_node \<equiv> 47"

datatype action_costs =
    Act_create_account | Act_delete_account | Act_deploy_contract_base | Act_deploy_contract_byte
    | Act_function_call_base | Act_function_call_byte | Act_transfer | Act_stake |
    Act_add_full_access_key | Act_add_function_call_key_base | Act_add_function_call_key_byte |
    Act_delete_key | Act_new_action_receipt | Act_new_data_receipt_base |
    Act_new_data_receipt_byte | Act_delegate | Act_deploy_global_contract_base |
    Act_deploy_global_contract_byte | Act_use_global_contract_base | Act_use_global_contract_byte

definition action_costs_iter :: "action_costs list" where
  "action_costs_iter =
     [Act_create_account, Act_delete_account, Act_deploy_contract_base, Act_deploy_contract_byte,
      Act_function_call_base, Act_function_call_byte, Act_transfer, Act_stake,
      Act_add_full_access_key, Act_add_function_call_key_base, Act_add_function_call_key_byte,
      Act_delete_key, Act_new_action_receipt, Act_new_data_receipt_base,
      Act_new_data_receipt_byte, Act_delegate, Act_deploy_global_contract_base,
      Act_deploy_global_contract_byte, Act_use_global_contract_base, Act_use_global_contract_byte]"

section \<open>Fees\<close>

record fee =
  send_sir :: gas
  send_not_sir :: gas
  execution :: gas

definition send_fee :: "fee \<Rightarrow> bool \<Rightarrow> gas" where
  "send_fee f sir = (if sir then send_sir f else send_not_sir f)"

definition exec_fee :: "fee \<Rightarrow> gas" where
  "exec_fee f = execution f"

definition min_send_and_exec_fee :: "fee \<Rightarrow> gas option" where
  "min_send_and_exec_fee f = checked_add u64_w (min (send_sir f) (send_not_sir f)) (execution f)"

record parameter_cost =
  cost_gas :: gas
  cost_compute :: nat

type_synonym ext_costs_config = "ext_costs \<Rightarrow> parameter_cost"

definition gas_cost :: "ext_costs_config \<Rightarrow> ext_costs \<Rightarrow> gas" where
  "gas_cost config param = cost_gas (config param)"

definition compute_cost :: "ext_costs_config \<Rightarrow> ext_costs \<Rightarrow> nat" where
  "compute_cost config param = cost_compute (config param)"

section \<open>The gas profile\<close>

record profile_data_v3 =
  actions_profile :: "action_costs \<Rightarrow> gas"
  wasm_ext_profile :: "ext_costs \<Rightarrow> gas"
  wasm_gas :: gas

definition profile_new :: profile_data_v3 where
  "profile_new = \<lparr> actions_profile = (\<lambda>_. 0), wasm_ext_profile = (\<lambda>_. 0), wasm_gas = 0 \<rparr>"

definition profile_merge :: "profile_data_v3 \<Rightarrow> profile_data_v3 \<Rightarrow> profile_data_v3" where
  "profile_merge p q =
     \<lparr> actions_profile = (\<lambda>c. saturating_add u64_w (actions_profile p c) (actions_profile q c)),
       wasm_ext_profile = (\<lambda>c. saturating_add u64_w (wasm_ext_profile p c) (wasm_ext_profile q c)),
       wasm_gas = saturating_add u64_w (wasm_gas p) (wasm_gas q) \<rparr>"

definition add_action_cost :: "action_costs \<Rightarrow> gas \<Rightarrow> profile_data_v3 \<Rightarrow> profile_data_v3" where
  "add_action_cost c v p =
     p\<lparr>actions_profile := (actions_profile p)(c := saturating_add u64_w (actions_profile p c) v)\<rparr>"

definition add_ext_cost :: "ext_costs \<Rightarrow> gas \<Rightarrow> profile_data_v3 \<Rightarrow> profile_data_v3" where
  "add_ext_cost c v p =
     p\<lparr>wasm_ext_profile := (wasm_ext_profile p)(c := saturating_add u64_w (wasm_ext_profile p c) v)\<rparr>"

definition host_gas :: "profile_data_v3 \<Rightarrow> gas" where
  "host_gas p = fold (\<lambda>g acc. saturating_add u64_w acc g) (map (wasm_ext_profile p) [0..<ext_costs_length]) 0"

definition action_gas :: "profile_data_v3 \<Rightarrow> gas" where
  "action_gas p = fold (\<lambda>g acc. saturating_add u64_w acc g) (map (actions_profile p) action_costs_iter) 0"

definition compute_wasm_instruction_cost :: "gas \<Rightarrow> profile_data_v3 \<Rightarrow> profile_data_v3" where
  "compute_wasm_instruction_cost total_gas_burnt p =
     p\<lparr>wasm_gas := saturating_sub (saturating_sub total_gas_burnt (action_gas p)) (host_gas p)\<rparr>"

definition get_action_cost :: "profile_data_v3 \<Rightarrow> action_costs \<Rightarrow> gas" where
  "get_action_cost p c = actions_profile p c"

definition get_ext_cost :: "profile_data_v3 \<Rightarrow> ext_costs \<Rightarrow> gas" where
  "get_ext_cost p c = wasm_ext_profile p c"

definition get_wasm_cost :: "profile_data_v3 \<Rightarrow> gas" where
  "get_wasm_cost p = wasm_gas p"

text \<open>The division panics when a cost with a recorded value has a gas price of zero.\<close>

definition ext_compute :: "ext_costs_config \<Rightarrow> profile_data_v3 \<Rightarrow> ext_costs \<Rightarrow> nat option" where
  "ext_compute config p c =
     (if wasm_ext_profile p c = 0 then Some 0
      else map_option (cast u64_w)
        (checked_div (saturating_mul u128_w (wasm_ext_profile p c) (compute_cost config c)) (gas_cost config c)))"

definition total_compute_usage :: "ext_costs_config \<Rightarrow> profile_data_v3 \<Rightarrow> nat option" where
  "total_compute_usage config p =
     do {
       costs \<leftarrow> those (map (ext_compute config p) [0..<ext_costs_length]);
       Some (saturating_add u64_w
         (saturating_add u64_w (fold (\<lambda>g acc. saturating_add u64_w acc g) costs 0) (action_gas p))
         (get_wasm_cost p))
     }"

section \<open>Lemmas\<close>

lemma action_costs_iter_all: "set action_costs_iter = UNIV"
proof -
  have "c \<in> set action_costs_iter" for c by (cases c) (simp_all add: action_costs_iter_def)
  then show ?thesis by blast
qed

lemma action_costs_iter_distinct: "distinct action_costs_iter"
  by (simp add: action_costs_iter_def)

text \<open>A saturating sum is the exact sum when that fits.\<close>

lemma fold_saturating_add:
  "acc \<le> int_max w \<Longrightarrow> fold (\<lambda>g acc. saturating_add w acc g) gs acc = min (acc + sum_list gs) (int_max w)"
proof (induction gs arbitrary: acc)
  case Nil
  then show ?case by simp
next
  case (Cons g gs)
  have le: "saturating_add w acc g \<le> int_max w" by (simp add: saturating_add_def)
  show ?case using Cons.IH [OF le] by (simp add: saturating_add_def)
qed

definition action_sum :: "profile_data_v3 \<Rightarrow> nat" where
  "action_sum p = sum_list (map (actions_profile p) action_costs_iter)"

definition host_sum :: "profile_data_v3 \<Rightarrow> nat" where
  "host_sum p = sum_list (map (wasm_ext_profile p) [0..<ext_costs_length])"

lemma action_gas_min: "action_gas p = min (action_sum p) (int_max u64_w)"
  by (simp add: action_gas_def action_sum_def fold_saturating_add)

lemma host_gas_min: "host_gas p = min (host_sum p) (int_max u64_w)"
  by (simp add: host_gas_def host_sum_def fold_saturating_add)

lemma sum_list_update:
  fixes f :: "'a \<Rightarrow> nat"
  assumes "distinct xs" and "c \<in> set xs"
  shows "sum_list (map (f(c := v)) xs) + f c = sum_list (map f xs) + v"
proof -
  have "sum_list (map (f(c := v)) xs) = (\<Sum>x\<in>set xs. (f(c := v)) x)"
    "sum_list (map f xs) = (\<Sum>x\<in>set xs. f x)"
    using assms(1) by (simp_all only: sum_list_distinct_conv_sum_set)
  with sum_fun_upd [of "set xs" c f v] assms(2) show ?thesis by simp
qed

lemma sum_list_member_le: "x \<in> set xs \<Longrightarrow> f x \<le> sum_list (map f xs)" for f :: "'a \<Rightarrow> nat"
  by (simp add: member_le_sum_list)

lemma add_ext_cost_sums:
  assumes "c < ext_costs_length" and "host_sum p + v \<le> int_max u64_w"
  shows "host_sum (add_ext_cost c v p) = host_sum p + v" and "action_sum (add_ext_cost c v p) = action_sum p"
proof -
  have mem: "c \<in> set [0..<ext_costs_length]" using assms(1) by simp
  have "wasm_ext_profile p c \<le> host_sum p" unfolding host_sum_def by (rule sum_list_member_le [OF mem])
  then have "saturating_add u64_w (wasm_ext_profile p c) v = wasm_ext_profile p c + v"
    using assms(2) by (simp add: saturating_add_def)
  then show "host_sum (add_ext_cost c v p) = host_sum p + v"
    using sum_list_update [of "[0..<ext_costs_length]" c "wasm_ext_profile p" "wasm_ext_profile p c + v"] mem
    by (simp add: host_sum_def add_ext_cost_def)
  show "action_sum (add_ext_cost c v p) = action_sum p" by (simp add: action_sum_def add_ext_cost_def)
qed

lemma add_action_cost_sums:
  assumes "action_sum p + v \<le> int_max u64_w"
  shows "action_sum (add_action_cost c v p) = action_sum p + v" and "host_sum (add_action_cost c v p) = host_sum p"
proof -
  have mem: "c \<in> set action_costs_iter" by (simp add: action_costs_iter_all)
  have "actions_profile p c \<le> action_sum p" unfolding action_sum_def by (rule sum_list_member_le [OF mem])
  then have "saturating_add u64_w (actions_profile p c) v = actions_profile p c + v"
    using assms by (simp add: saturating_add_def)
  then show "action_sum (add_action_cost c v p) = action_sum p + v"
    using sum_list_update [OF action_costs_iter_distinct mem, of "actions_profile p" "actions_profile p c + v"]
    by (simp add: action_sum_def add_action_cost_def)
  show "host_sum (add_action_cost c v p) = host_sum p" by (simp add: host_sum_def add_action_cost_def)
qed

end
