(* ===== verification/Gas_Counter.thy ===== *)
theory Gas_Counter
  imports Gas_Costs
begin

text \<open>
  The gas counter of the virtual machine (\<open>runtime/near-vm-runner/src/logic/gas_counter.rs\<close>). Every
  operation returns its result together with the new counter, since a failed charge changes the
  counter as well. The main results: until the first error the counter keeps its limits, a run that
  stops at its first error never burns or uses more than allowed, \<open>burn_gas\<close> agrees with
  \<open>deduct_gas\<close>, and the profile accounts for the burnt gas.
\<close>

section \<open>Definitions\<close>

datatype host_error = IntegerOverflow | GasLimitExceeded | GasExceeded

record fast_gas_counter =
  fast_burnt_gas :: gas
  gas_limit :: gas
  opcode_cost :: gas

record gas_counter =
  fast_counter :: fast_gas_counter
  promises_gas :: gas
  max_gas_burnt :: gas
  prepaid_gas :: gas
  is_view :: bool
  ext_config :: ext_costs_config
  profile :: profile_data_v3

abbreviation burnt :: "gas_counter \<Rightarrow> gas" where
  "burnt c \<equiv> fast_burnt_gas (fast_counter c)"

abbreviation limit :: "gas_counter \<Rightarrow> gas" where
  "limit c \<equiv> gas_limit (fast_counter c)"

definition gas_counter_new :: "ext_costs_config \<Rightarrow> gas \<Rightarrow> nat \<Rightarrow> gas \<Rightarrow> bool \<Rightarrow> gas_counter" where
  "gas_counter_new config max_burnt op_cost prepaid view =
     (let prepaid = (if view then int_max u64_w else prepaid) in
      \<lparr> fast_counter = \<lparr> fast_burnt_gas = 0, gas_limit = min max_burnt prepaid, opcode_cost = op_cost \<rparr>,
        promises_gas = 0, max_gas_burnt = max_burnt, prepaid_gas = prepaid, is_view = view,
        ext_config = config, profile = profile_new \<rparr>)"

definition process_gas_limit :: "gas \<Rightarrow> gas \<Rightarrow> gas_counter \<Rightarrow> host_error \<times> gas_counter" where
  "process_gas_limit new_burnt_gas new_used_gas c =
     (let hard_burnt_limit = min (prepaid_gas c) (max_gas_burnt c);
          b = min new_burnt_gas hard_burnt_limit;
          used_gas_limit = min (prepaid_gas c) new_used_gas;
          c' = c\<lparr>fast_counter := (fast_counter c)\<lparr>fast_burnt_gas := b\<rparr>,
                 promises_gas := saturating_sub used_gas_limit b\<rparr>
      in (if new_burnt_gas > max_gas_burnt c then GasLimitExceeded else GasExceeded, c'))"

definition charge_error :: "host_error \<times> gas_counter \<Rightarrow> (host_error + unit) \<times> gas_counter" where
  "charge_error = (\<lambda>(e, c). (Inl e, c))"

text \<open>The assertion and the plain subtraction of \<open>deduct_gas\<close> panic when \<open>gas_used < gas_burnt\<close>.\<close>

definition deduct_gas :: "gas \<Rightarrow> gas \<Rightarrow> gas_counter \<Rightarrow> ((host_error + unit) \<times> gas_counter) option" where
  "deduct_gas gas_burnt gas_used c =
     do {
       assert (gas_burnt \<le> gas_used);
       new_promised \<leftarrow> checked_sub gas_used gas_burnt;
       Some (case checked_add u64_w (promises_gas c) new_promised of
          None \<Rightarrow> (Inl IntegerOverflow, c)
        | Some new_promises_gas \<Rightarrow>
            (case checked_add u64_w (burnt c) gas_burnt of
               None \<Rightarrow> (Inl IntegerOverflow, c)
             | Some new_burnt_gas \<Rightarrow>
                 (case checked_add u64_w new_burnt_gas new_promises_gas of
                    None \<Rightarrow> (Inl IntegerOverflow, c)
                  | Some new_used_gas \<Rightarrow>
                      if new_burnt_gas \<le> max_gas_burnt c \<and> new_used_gas \<le> prepaid_gas c then
                        (let fc = (if new_promised \<noteq> 0 \<and> \<not> is_view c
                                   then (fast_counter c)\<lparr>gas_limit := min (max_gas_burnt c) (prepaid_gas c - new_promises_gas)\<rparr>
                                   else fast_counter c)
                         in (Inr (), c\<lparr>fast_counter := fc\<lparr>fast_burnt_gas := new_burnt_gas\<rparr>,
                                       promises_gas := new_promises_gas\<rparr>))
                      else charge_error (process_gas_limit new_burnt_gas new_used_gas c))))
     }"

definition burn_gas :: "gas \<Rightarrow> gas_counter \<Rightarrow> (host_error + unit) \<times> gas_counter" where
  "burn_gas gas_burnt c =
     (case checked_add u64_w (burnt c) gas_burnt of
        None \<Rightarrow> (Inl IntegerOverflow, c)
      | Some new_burnt_gas \<Rightarrow>
          if new_burnt_gas \<le> limit c
          then (Inr (), c\<lparr>fast_counter := (fast_counter c)\<lparr>fast_burnt_gas := new_burnt_gas\<rparr>\<rparr>)
          else charge_error (process_gas_limit new_burnt_gas (cast u64_w (new_burnt_gas + promises_gas c)) c))"

definition update_profile_host :: "ext_costs \<Rightarrow> gas \<Rightarrow> gas_counter \<Rightarrow> gas_counter" where
  "update_profile_host cost v c = c\<lparr>profile := add_ext_cost cost v (profile c)\<rparr>"

definition update_profile_action :: "action_costs \<Rightarrow> gas \<Rightarrow> gas_counter \<Rightarrow> gas_counter" where
  "update_profile_action action v c = c\<lparr>profile := add_action_cost action v (profile c)\<rparr>"

definition pay_per :: "ext_costs \<Rightarrow> nat \<Rightarrow> gas_counter \<Rightarrow> (host_error + unit) \<times> gas_counter" where
  "pay_per cost num c =
     (case checked_mul u64_w num (gas_cost (ext_config c) cost) of
        None \<Rightarrow> (Inl IntegerOverflow, c)
      | Some use_gas \<Rightarrow>
          (case burn_gas use_gas c of
             (r, c') \<Rightarrow> (r, update_profile_host cost (saturating_sub (burnt c') (burnt c)) c')))"

definition pay_base :: "ext_costs \<Rightarrow> gas_counter \<Rightarrow> (host_error + unit) \<times> gas_counter" where
  "pay_base cost c =
     (case burn_gas (gas_cost (ext_config c) cost) c of
        (r, c') \<Rightarrow> (r, update_profile_host cost (saturating_sub (burnt c') (burnt c)) c'))"

definition pay_action_accumulated ::
  "gas \<Rightarrow> gas \<Rightarrow> action_costs \<Rightarrow> gas_counter \<Rightarrow> ((host_error + unit) \<times> gas_counter) option" where
  "pay_action_accumulated burn use action c =
     do {
       (r, c') \<leftarrow> deduct_gas burn use c;
       Some (r, update_profile_action action (saturating_sub (burnt c') (burnt c)) c')
     }"

definition prepay_gas :: "gas \<Rightarrow> gas_counter \<Rightarrow> ((host_error + unit) \<times> gas_counter) option" where
  "prepay_gas use_gas c = deduct_gas 0 use_gas c"

definition burnt_gas :: "gas_counter \<Rightarrow> gas" where
  "burnt_gas c = burnt c"

definition used_gas :: "gas_counter \<Rightarrow> gas option" where
  "used_gas c = checked_add u64_w (promises_gas c) (burnt c)"

definition add_contract_loading_fee :: "nat \<Rightarrow> gas_counter \<Rightarrow> (host_error + unit) \<times> gas_counter" where
  "add_contract_loading_fee code_len c =
     (case pay_per contract_loading_bytes code_len c of
        (Inl e, c') \<Rightarrow> (Inl e, c')
      | (Inr _, c') \<Rightarrow> pay_base contract_loading_base c')"

datatype function_call_error = MethodEmptyName | FunctionCallHostError host_error

definition before_loading_executable ::
  "bool \<Rightarrow> string \<Rightarrow> nat \<Rightarrow> gas_counter \<Rightarrow> (function_call_error + unit) \<times> gas_counter" where
  "before_loading_executable fix_contract_loading_cost method_name wasm_code_bytes c =
     (if method_name = [] then (Inl MethodEmptyName, c)
      else if fix_contract_loading_cost then
        (case add_contract_loading_fee wasm_code_bytes c of
           (Inl _, c') \<Rightarrow> (Inl (FunctionCallHostError GasExceeded), c')
         | (Inr _, c') \<Rightarrow> (Inr (), c'))
      else (Inr (), c))"

definition after_loading_executable ::
  "bool \<Rightarrow> nat \<Rightarrow> gas_counter \<Rightarrow> (function_call_error + unit) \<times> gas_counter" where
  "after_loading_executable fix_contract_loading_cost wasm_code_bytes c =
     (if \<not> fix_contract_loading_cost then
        (case add_contract_loading_fee wasm_code_bytes c of
           (Inl _, c') \<Rightarrow> (Inl (FunctionCallHostError GasExceeded), c')
         | (Inr _, c') \<Rightarrow> (Inr (), c'))
      else (Inr (), c))"

definition trie_node_touched :: "nat \<Rightarrow> gas_counter \<Rightarrow> (host_error + unit) \<times> gas_counter" where
  "trie_node_touched n c = pay_per touching_trie_node n c"

definition cached_trie_node_access :: "nat \<Rightarrow> gas_counter \<Rightarrow> (host_error + unit) \<times> gas_counter" where
  "cached_trie_node_access n c = pay_per read_cached_trie_node n c"

definition deref_write_evicted_value_bytes :: "nat \<Rightarrow> gas_counter \<Rightarrow> (host_error + unit) \<times> gas_counter" where
  "deref_write_evicted_value_bytes bytes c = pay_per storage_write_evicted_byte bytes c"

definition deref_removed_value_bytes :: "nat \<Rightarrow> gas_counter \<Rightarrow> (host_error + unit) \<times> gas_counter" where
  "deref_removed_value_bytes bytes c = pay_per storage_remove_ret_value_byte bytes c"

section \<open>Runs\<close>

text \<open>
  The charges a host function makes, and an execution as a sequence of them that stops at the first
  error, as the virtual machine does.
\<close>

datatype charge =
    Burn gas
  | PayPer ext_costs nat
  | PayBase ext_costs
  | PayAction gas gas action_costs
  | Prepay gas

fun charge_step :: "charge \<Rightarrow> gas_counter \<Rightarrow> ((host_error + unit) \<times> gas_counter) option" where
  "charge_step (Burn g) c = Some (burn_gas g c)"
| "charge_step (PayPer cost n) c = Some (pay_per cost n c)"
| "charge_step (PayBase cost) c = Some (pay_base cost c)"
| "charge_step (PayAction b u action) c = pay_action_accumulated b u action c"
| "charge_step (Prepay g) c = prepay_gas g c"

fun run_charges :: "charge list \<Rightarrow> gas_counter \<Rightarrow> ((host_error + unit) \<times> gas_counter) option" where
  "run_charges [] c = Some (Inr (), c)"
| "run_charges (x # xs) c =
     do {
       (r, c') \<leftarrow> charge_step x c;
       (case r of Inl e \<Rightarrow> Some (Inl e, c') | Inr _ \<Rightarrow> run_charges xs c')
     }"

text \<open>
  A cost is a variant of its enum, an action charges at least what it burns, and in a view call no gas
  is attached to promises (promises are prohibited there).
\<close>

fun charge_ok :: "bool \<Rightarrow> charge \<Rightarrow> bool" where
  "charge_ok view (Burn g) \<longleftrightarrow> True"
| "charge_ok view (PayPer cost n) \<longleftrightarrow> cost < ext_costs_length"
| "charge_ok view (PayBase cost) \<longleftrightarrow> cost < ext_costs_length"
| "charge_ok view (PayAction b u action) \<longleftrightarrow> b \<le> u \<and> (view \<longrightarrow> b = u)"
| "charge_ok view (Prepay g) \<longleftrightarrow> (view \<longrightarrow> g = 0)"

section \<open>Invariants\<close>

text \<open>\<open>gc_bounds\<close> holds in every state, also after a failed charge; \<open>gc_inv\<close> holds until the first failure.\<close>

definition gc_bounds :: "gas_counter \<Rightarrow> bool" where
  "gc_bounds c \<longleftrightarrow>
     prepaid_gas c \<le> int_max u64_w \<and> burnt c \<le> max_gas_burnt c \<and> burnt c + promises_gas c \<le> prepaid_gas c \<and>
     host_sum (profile c) + action_sum (profile c) \<le> burnt c"

definition gc_inv :: "gas_counter \<Rightarrow> bool" where
  "gc_inv c \<longleftrightarrow> gc_bounds c \<and> limit c = min (max_gas_burnt c) (prepaid_gas c - promises_gas c) \<and>
     (is_view c \<longrightarrow> promises_gas c = 0)"

lemma new_inv: "fits u64_w prepaid \<Longrightarrow> gc_inv (gas_counter_new config max_burnt op prepaid view)"
  by (auto simp: gc_inv_def gc_bounds_def gas_counter_new_def fits_def int_max_def Let_def profile_new_def
      host_sum_def action_sum_def sum_list_triv)

text \<open>What a charge keeps: the configuration, and burnt gas never decreases.\<close>

definition same_setup :: "gas_counter \<Rightarrow> gas_counter \<Rightarrow> bool" where
  "same_setup c c' \<longleftrightarrow> max_gas_burnt c' = max_gas_burnt c \<and> prepaid_gas c' = prepaid_gas c \<and>
     is_view c' = is_view c \<and> ext_config c' = ext_config c \<and> burnt c \<le> burnt c'"

lemma same_setup_refl [simp]: "same_setup c c"
  by (simp add: same_setup_def)

lemma same_setup_trans: "same_setup c c' \<Longrightarrow> same_setup c' c'' \<Longrightarrow> same_setup c c''"
  by (simp add: same_setup_def)

lemma process_gas_limit_facts:
  assumes "gc_bounds c" and "process_gas_limit nb nu c = (e, c')" and "burnt c \<le> nb"
  shows "gc_bounds c'" and "same_setup c c'" and "profile c' = profile c"
proof -
  let ?b = "min nb (min (prepaid_gas c) (max_gas_burnt c))"
  have c': "c' = c\<lparr>fast_counter := (fast_counter c)\<lparr>fast_burnt_gas := ?b\<rparr>, promises_gas := min (prepaid_gas c) nu - ?b\<rparr>"
    using assms(2) by (simp add: process_gas_limit_def Let_def saturating_sub_def)
  have ge: "burnt c \<le> ?b" using assms(1,3) by (simp add: gc_bounds_def)
  show "same_setup c c'" "profile c' = profile c" using ge by (simp_all add: c' same_setup_def)
  have "?b + (min (prepaid_gas c) nu - ?b) \<le> prepaid_gas c" by simp
  with assms(1) ge show "gc_bounds c'" by (simp add: c' gc_bounds_def)
qed

lemma burn_gas_facts:
  assumes "gc_inv c" and "burn_gas g c = (r, c')"
  shows "gc_bounds c'" and "same_setup c c'" and "profile c' = profile c" and "r = Inr () \<longrightarrow> gc_inv c'"
proof -
  have bounds: "gc_bounds c" using assms(1) by (simp add: gc_inv_def)
  have "gc_bounds c' \<and> same_setup c c' \<and> profile c' = profile c \<and> (r = Inr () \<longrightarrow> gc_inv c')"
  proof (cases "checked_add u64_w (burnt c) g")
    case None
    then show ?thesis using assms bounds by (simp add: burn_gas_def)
  next
    case (Some nb)
    then have nb: "nb = burnt c + g" by (simp add: checked_add_Some)
    show ?thesis
    proof (cases "nb \<le> limit c")
      case True
      then have "r = Inr ()" "c' = c\<lparr>fast_counter := (fast_counter c)\<lparr>fast_burnt_gas := nb\<rparr>\<rparr>"
        using assms(2) Some by (simp_all add: burn_gas_def)
      moreover have "nb \<le> max_gas_burnt c" "nb + promises_gas c \<le> prepaid_gas c"
        using True assms(1) by (auto simp: gc_inv_def gc_bounds_def)
      ultimately show ?thesis using assms(1) nb by (simp add: gc_inv_def gc_bounds_def same_setup_def)
    next
      case False
      then obtain e where "r = Inl e" "process_gas_limit nb (cast u64_w (nb + promises_gas c)) c = (e, c')"
        using assms(2) Some by (auto simp: burn_gas_def charge_error_def split: prod.splits)
      with process_gas_limit_facts [OF bounds this(2)] nb show ?thesis by simp
    qed
  qed
  then show "gc_bounds c'" "same_setup c c'" "profile c' = profile c" "r = Inr () \<longrightarrow> gc_inv c'" by simp_all
qed

lemma deduct_gas_eval:
  assumes "b \<le> u"
  shows "deduct_gas b u c = Some
    (let nb = burnt c + b; np = promises_gas c + (u - b) in
     if 2 ^ 64 \<le> np \<or> 2 ^ 64 \<le> nb \<or> 2 ^ 64 \<le> nb + np then (Inl IntegerOverflow, c)
     else if nb \<le> max_gas_burnt c \<and> nb + np \<le> prepaid_gas c then
       (Inr (), c\<lparr>fast_counter :=
            (if u - b \<noteq> 0 \<and> \<not> is_view c then (fast_counter c)\<lparr>gas_limit := min (max_gas_burnt c) (prepaid_gas c - np)\<rparr>
             else fast_counter c)\<lparr>fast_burnt_gas := nb\<rparr>, promises_gas := np\<rparr>)
     else charge_error (process_gas_limit nb (nb + np) c))"
proof -
  have sub: "checked_sub u b = Some (u - b)" using assms by (simp add: checked_sub_def)
  have add: "checked_add u64_w x y = (if 2 ^ 64 \<le> x + y then None else Some (x + y))" for x y
    by (simp add: checked_add_def not_le)
  show ?thesis
    unfolding deduct_gas_def sub add Let_def using assms by (simp split del: if_split add: if_distrib [of "case_option _ _"] if_if_eq_conj) (simp split: if_split)
qed

lemma deduct_gas_facts:
  assumes "gc_inv c" and "b \<le> u" and "is_view c \<longrightarrow> b = u"
  obtains r c' where "deduct_gas b u c = Some (r, c')" "gc_bounds c'" "same_setup c c'" "profile c' = profile c"
    "r = Inr () \<longrightarrow> gc_inv c'"
proof -
  have bounds: "gc_bounds c" using assms(1) by (simp add: gc_inv_def)
  let ?nb = "burnt c + b" and ?np = "promises_gas c + (u - b)"
  note eval = deduct_gas_eval [OF assms(2), of c, unfolded Let_def]
  consider "2 ^ 64 \<le> ?np \<or> 2 ^ 64 \<le> ?nb \<or> 2 ^ 64 \<le> ?nb + ?np"
    | "\<not> (2 ^ 64 \<le> ?np \<or> 2 ^ 64 \<le> ?nb \<or> 2 ^ 64 \<le> ?nb + ?np)" "?nb \<le> max_gas_burnt c \<and> ?nb + ?np \<le> prepaid_gas c"
    | "\<not> (2 ^ 64 \<le> ?np \<or> 2 ^ 64 \<le> ?nb \<or> 2 ^ 64 \<le> ?nb + ?np)" "\<not> (?nb \<le> max_gas_burnt c \<and> ?nb + ?np \<le> prepaid_gas c)" by blast
  then show thesis
  proof cases
    case 1
    with eval have "deduct_gas b u c = Some (Inl IntegerOverflow, c)" by (simp only: if_True)
    with bounds show thesis by (intro that [of "Inl IntegerOverflow" c]) simp_all
  next
    case 2
    define c' where "c' = c\<lparr>fast_counter :=
            (if u - b \<noteq> 0 \<and> \<not> is_view c then (fast_counter c)\<lparr>gas_limit := min (max_gas_burnt c) (prepaid_gas c - ?np)\<rparr>
             else fast_counter c)\<lparr>fast_burnt_gas := ?nb\<rparr>, promises_gas := ?np\<rparr>"
    have run: "deduct_gas b u c = Some (Inr (), c')"
      using eval 2 unfolding c'_def [symmetric] by (simp only: if_True if_False simp_thms)
    have b': "gc_bounds c'" using bounds 2(2) by (simp add: c'_def gc_bounds_def)
    have "limit c' = min (max_gas_burnt c') (prepaid_gas c' - promises_gas c') \<and> (is_view c' \<longrightarrow> promises_gas c' = 0)"
      using assms(1,3) by (simp add: c'_def gc_inv_def)
    with b' have "gc_inv c'" by (simp add: gc_inv_def)
    with run b' show thesis by (intro that [of "Inr ()" c']) (simp_all add: c'_def same_setup_def)
  next
    case 3
    obtain e c' where pg: "process_gas_limit ?nb (?nb + ?np) c = (e, c')" by (cases "process_gas_limit ?nb (?nb + ?np) c")
    have "deduct_gas b u c = Some (charge_error (e, c'))" using eval 3 pg by (simp only: if_True if_False simp_thms)
    with process_gas_limit_facts [OF bounds pg] show thesis by (intro that [of "Inl e" c']) (simp_all add: charge_error_def)
  qed
qed

lemma profile_host_facts:
  assumes "gc_bounds c'" and "profile c' = profile c" and "burnt c \<le> burnt c'" and "gc_bounds c"
    and "cost < ext_costs_length"
  shows "gc_bounds (update_profile_host cost (saturating_sub (burnt c') (burnt c)) c')"
proof -
  have "host_sum (profile c) + (burnt c' - burnt c) \<le> int_max u64_w"
    using assms unfolding gc_bounds_def by linarith
  from add_ext_cost_sums [OF assms(5) this] assms show ?thesis
    by (simp add: gc_bounds_def update_profile_host_def saturating_sub_def) linarith
qed

lemma profile_action_facts:
  assumes "gc_bounds c'" and "profile c' = profile c" and "burnt c \<le> burnt c'" and "gc_bounds c"
  shows "gc_bounds (update_profile_action action (saturating_sub (burnt c') (burnt c)) c')"
proof -
  have "action_sum (profile c) + (burnt c' - burnt c) \<le> int_max u64_w"
    using assms unfolding gc_bounds_def by linarith
  from add_action_cost_sums [OF this, of action] assms show ?thesis
    by (simp add: gc_bounds_def update_profile_action_def saturating_sub_def) linarith
qed

text \<open>One lemma per charge, and one for runs.\<close>

lemma burn_with_profile:
  assumes "gc_inv c" and "cost < ext_costs_length" and "burn_gas g c = (r, c')"
  shows "gc_bounds (update_profile_host cost (saturating_sub (burnt c') (burnt c)) c')"
    and "same_setup c (update_profile_host cost (saturating_sub (burnt c') (burnt c)) c')"
    and "r = Inr () \<longrightarrow> gc_inv (update_profile_host cost (saturating_sub (burnt c') (burnt c)) c')"
proof -
  note facts = burn_gas_facts [OF assms(1,3)]
  have le: "burnt c \<le> burnt c'" using facts(2) by (simp add: same_setup_def)
  have "gc_bounds c" using assms(1) by (simp add: gc_inv_def)
  then show bounds: "gc_bounds (update_profile_host cost (saturating_sub (burnt c') (burnt c)) c')"
    by (rule profile_host_facts [OF facts(1,3) le _ assms(2)])
  show "same_setup c (update_profile_host cost (saturating_sub (burnt c') (burnt c)) c')"
    using facts(2) by (simp add: same_setup_def update_profile_host_def)
  show "r = Inr () \<longrightarrow> gc_inv (update_profile_host cost (saturating_sub (burnt c') (burnt c)) c')"
    using facts(4) bounds by (simp add: gc_inv_def update_profile_host_def)
qed

lemma charge_step_facts:
  assumes "gc_inv c" and "charge_ok (is_view c) x"
  shows "\<exists>r c'. charge_step x c = Some (r, c') \<and> gc_bounds c' \<and> same_setup c c' \<and> (r = Inr () \<longrightarrow> gc_inv c')"
proof (cases x)
  case (Burn g)
  obtain r c' where "burn_gas g c = (r, c')" by (cases "burn_gas g c")
  with burn_gas_facts [OF assms(1) this] Burn show ?thesis by simp
next
  case (PayPer cost n)
  show ?thesis
  proof (cases "checked_mul u64_w n (gas_cost (ext_config c) cost)")
    case None
    then show ?thesis using PayPer assms(1) by (simp add: pay_per_def gc_inv_def)
  next
    case (Some g)
    obtain r c' where "burn_gas g c = (r, c')" by (cases "burn_gas g c")
    with burn_with_profile [OF assms(1) _ this, of cost] PayPer Some assms(2) show ?thesis by (simp add: pay_per_def)
  qed
next
  case (PayBase cost)
  obtain r c' where "burn_gas (gas_cost (ext_config c) cost) c = (r, c')"
    by (cases "burn_gas (gas_cost (ext_config c) cost) c")
  with burn_with_profile [OF assms(1) _ this, of cost] PayBase assms(2) show ?thesis by (simp add: pay_base_def)
next
  case (PayAction b u action)
  have bu: "b \<le> u" "is_view c \<longrightarrow> b = u" using assms(2) PayAction by simp_all
  obtain r c' where d: "deduct_gas b u c = Some (r, c')" "gc_bounds c'" "same_setup c c'" "profile c' = profile c"
    "r = Inr () \<longrightarrow> gc_inv c'" by (rule deduct_gas_facts [OF assms(1) bu])
  let ?c = "update_profile_action action (saturating_sub (burnt c') (burnt c)) c'"
  have "gc_bounds ?c"
    using profile_action_facts [OF d(2,4)] d(3) assms(1) by (simp add: same_setup_def gc_inv_def)
  moreover have "same_setup c ?c" using d(3) by (simp add: same_setup_def update_profile_action_def)
  moreover have "r = Inr () \<longrightarrow> gc_inv ?c" using d(5) \<open>gc_bounds ?c\<close> by (simp add: gc_inv_def update_profile_action_def)
  ultimately show ?thesis using PayAction d(1) by (simp add: pay_action_accumulated_def)
next
  case (Prepay g)
  have "0 \<le> g" "is_view c \<longrightarrow> 0 = g" using assms(2) Prepay by simp_all
  then obtain r c' where "deduct_gas 0 g c = Some (r, c')" "gc_bounds c'" "same_setup c c'" "r = Inr () \<longrightarrow> gc_inv c'"
    using deduct_gas_facts [OF assms(1)] by metis
  with Prepay show ?thesis by (simp add: prepay_gas_def)
qed

lemma run_charges_facts:
  assumes "gc_inv c" and "\<forall>x\<in>set xs. charge_ok (is_view c) x"
  shows "\<exists>r c'. run_charges xs c = Some (r, c') \<and> gc_bounds c' \<and> same_setup c c' \<and> (r = Inr () \<longrightarrow> gc_inv c')"
  using assms
proof (induction xs arbitrary: c)
  case Nil
  then show ?case by (simp add: gc_inv_def)
next
  case (Cons x xs)
  obtain r c1 where step: "charge_step x c = Some (r, c1)" "gc_bounds c1" "same_setup c c1" "r = Inr () \<longrightarrow> gc_inv c1"
    using charge_step_facts [OF Cons.prems(1), of x] Cons.prems(2) by auto
  show ?case
  proof (cases r)
    case (Inl e)
    with step show ?thesis by simp
  next
    case (Inr u)
    have "is_view c1 = is_view c" using step(3) by (simp add: same_setup_def)
    then have ok: "\<forall>x\<in>set xs. charge_ok (is_view c1) x" using Cons.prems(2) by simp
    have "gc_inv c1" using step(4) Inr by simp
    from Cons.IH [OF this ok] obtain r' c' where
      rest: "run_charges xs c1 = Some (r', c')" "gc_bounds c'" "same_setup c1 c'" "r' = Inr () \<longrightarrow> gc_inv c'" by blast
    have "run_charges (x # xs) c = Some (r', c')" using step(1) Inr rest(1) by simp
    with rest same_setup_trans [OF step(3) rest(3)] show ?thesis by blast
  qed
qed

section \<open>Properties\<close>

text \<open>
  C24: Gas limits are never crossed. A counter that starts with a prepaid amount and makes any sequence of
  charges that stops at the first error does not panic; in the end, also after the error, the burnt
  gas is at most \<open>max_gas_burnt\<close>, and burnt gas together with the gas attached to promises is at most
  the prepaid gas, so that \<open>used_gas\<close> does not overflow.
\<close>

theorem gas_run_within_limits:
  assumes "fits u64_w prepaid" and "\<forall>x\<in>set xs. charge_ok view x"
  shows "\<exists>r c. run_charges xs (gas_counter_new config max_burnt op prepaid view) = Some (r, c) \<and>
    burnt_gas c \<le> max_burnt \<and>
    (\<exists>u. used_gas c = Some u \<and> burnt_gas c \<le> u \<and> u \<le> (if view then int_max u64_w else prepaid))"
proof -
  let ?c = "gas_counter_new config max_burnt op prepaid view"
  have new: "is_view ?c = view" "max_gas_burnt ?c = max_burnt"
    "prepaid_gas ?c = (if view then int_max u64_w else prepaid)"
    by (simp_all add: gas_counter_new_def Let_def)
  from run_charges_facts [OF new_inv [OF assms(1)], of xs config max_burnt op view] assms(2) new(1)
  obtain r c where run: "run_charges xs ?c = Some (r, c)" "gc_bounds c" "same_setup ?c c" by auto
  have same: "max_gas_burnt c = max_burnt" "prepaid_gas c = (if view then int_max u64_w else prepaid)"
    using run(3) new(2,3) by (simp_all add: same_setup_def)
  have "promises_gas c + burnt c < 2 ^ 64"
    using run(2) unfolding gc_bounds_def int_max_def by (simp add: algebra_simps)
  then have "used_gas c = Some (promises_gas c + burnt c)" by (simp add: used_gas_def checked_add_def)
  with run same show ?thesis by (auto simp: gc_bounds_def burnt_gas_def add.commute)
qed

theorem gas_run_within_limits_witness:
  "\<exists>r c. run_charges [Burn 10, Prepay 50, Burn 60] (gas_counter_new (\<lambda>_. \<lparr>cost_gas = 1, cost_compute = 1\<rparr>) 200 1 100 False)
      = Some (r, c) \<and> r = Inl GasExceeded \<and> burnt_gas c \<le> 200 \<and> (\<exists>u. used_gas c = Some u \<and> u \<le> 100)"
proof -
  let ?c = "gas_counter_new (\<lambda>_. \<lparr>cost_gas = 1, cost_compute = 1\<rparr>) 200 1 100 False"
  have "fits u64_w 100" by (simp add: fits_def)
  from gas_run_within_limits [OF this, of "[Burn 10, Prepay 50, Burn 60]" False "\<lambda>_. \<lparr>cost_gas = 1, cost_compute = 1\<rparr>" 200 1]
  obtain r c where run: "run_charges [Burn 10, Prepay 50, Burn 60] ?c = Some (r, c)"
    "burnt_gas c \<le> 200" "\<exists>u. used_gas c = Some u \<and> u \<le> 100" by auto
  moreover have "r = Inl GasExceeded"
    using run(1) by (simp add: gas_counter_new_def Let_def burn_gas_def checked_add_def prepay_gas_def deduct_gas_def
        checked_sub_def process_gas_limit_def charge_error_def)
  ultimately show ?thesis by blast
qed

text \<open>
  \<open>burn_gas\<close> is \<open>deduct_gas\<close> without promises. In every state before the first error, burning gas gives the
  same result and the same counter as the general \<open>deduct_gas\<close> with equal burnt and used amounts, as long
  as the new total of used gas fits into 64 bits.
\<close>

theorem burn_gas_is_deduct_gas:
  assumes "gc_inv c" and "burnt c + g + promises_gas c < 2 ^ 64"
  shows "deduct_gas g g c = Some (burn_gas g c)"
proof -
  have fit: "burnt c + g < 2 ^ 64" "promises_gas c < 2 ^ 64" using assms(2) by simp_all
  have lim: "burnt c + g \<le> limit c \<longleftrightarrow> burnt c + g \<le> max_gas_burnt c \<and> burnt c + g + promises_gas c \<le> prepaid_gas c"
    using assms(1) by (auto simp: gc_inv_def gc_bounds_def)
  have cast: "cast u64_w (burnt c + g + promises_gas c) = burnt c + g + promises_gas c"
    using assms(2) by (simp add: cast_fits fits_def)
  show ?thesis
    using fit assms(2) lim cast
    by (simp add: deduct_gas_def burn_gas_def checked_sub_def checked_add_def)
qed

theorem burn_gas_is_deduct_gas_witness:
  "deduct_gas 30 30 (gas_counter_new (\<lambda>_. \<lparr>cost_gas = 1, cost_compute = 1\<rparr>) 20 1 100 False) =
   Some (burn_gas 30 (gas_counter_new (\<lambda>_. \<lparr>cost_gas = 1, cost_compute = 1\<rparr>) 20 1 100 False))"
proof (rule burn_gas_is_deduct_gas)
  show "gc_inv (gas_counter_new (\<lambda>_. \<lparr>cost_gas = 1, cost_compute = 1\<rparr>) 20 1 100 False)"
    by (rule new_inv) (simp add: fits_def)
qed (simp add: gas_counter_new_def Let_def)

text \<open>
  C25: The profile accounts for all burnt gas. After any sequence of charges the gas recorded for host
  functions and actions is at most the burnt gas; filling in the cost of wasm instructions therefore
  does not saturate, and the three parts of the profile add up to the burnt gas.
\<close>

theorem profile_accounts_for_burnt_gas:
  assumes "fits u64_w prepaid" and "\<forall>x\<in>set xs. charge_ok view x"
  shows "\<exists>r c. run_charges xs (gas_counter_new config max_burnt op prepaid view) = Some (r, c) \<and>
    (let p = compute_wasm_instruction_cost (burnt_gas c) (profile c) in
     action_gas p + host_gas p + get_wasm_cost p = burnt_gas c)"
proof -
  let ?c = "gas_counter_new config max_burnt op prepaid view"
  have new: "is_view ?c = view" by (simp add: gas_counter_new_def Let_def)
  from run_charges_facts [OF new_inv [OF assms(1)], of xs config max_burnt op view] assms(2) new
  obtain r c where run: "run_charges xs ?c = Some (r, c)" "gc_bounds c" by auto
  let ?p = "compute_wasm_instruction_cost (burnt_gas c) (profile c)"
  have le: "host_sum (profile c) + action_sum (profile c) \<le> burnt c" "burnt c \<le> int_max u64_w"
    using run(2) by (simp_all add: gc_bounds_def)
  have "action_gas (profile c) = action_sum (profile c)" "host_gas (profile c) = host_sum (profile c)"
    using le by (simp_all add: action_gas_min host_gas_min)
  moreover have "action_gas ?p = action_gas (profile c)" "host_gas ?p = host_gas (profile c)"
    by (simp_all add: compute_wasm_instruction_cost_def action_gas_def host_gas_def)
  ultimately have "action_gas ?p + host_gas ?p + get_wasm_cost ?p = burnt_gas c"
    using le(1) by (simp add: get_wasm_cost_def burnt_gas_def) (simp add: compute_wasm_instruction_cost_def saturating_sub_def)
  with run(1) show ?thesis by (auto simp: Let_def)
qed

theorem profile_accounts_for_burnt_gas_witness:
  "\<exists>r c. run_charges [PayPer 46 3, Burn 5] (gas_counter_new (\<lambda>_. \<lparr>cost_gas = 10, cost_compute = 1\<rparr>) 200 1 100 False)
      = Some (r, c) \<and> burnt_gas c = 35 \<and>
    (let p = compute_wasm_instruction_cost (burnt_gas c) (profile c) in
     action_gas p + host_gas p + get_wasm_cost p = 35)"
proof -
  have "fits u64_w 100" by (simp add: fits_def)
  from profile_accounts_for_burnt_gas [OF this, of "[PayPer 46 3, Burn 5]" False "\<lambda>_. \<lparr>cost_gas = 10, cost_compute = 1\<rparr>" 200 1]
  obtain r c where run: "run_charges [PayPer 46 3, Burn 5] (gas_counter_new (\<lambda>_. \<lparr>cost_gas = 10, cost_compute = 1\<rparr>) 200 1 100 False)
      = Some (r, c)"
    "let p = compute_wasm_instruction_cost (burnt_gas c) (profile c) in
     action_gas p + host_gas p + get_wasm_cost p = burnt_gas c" by (auto simp: ext_costs_length_def)
  moreover have "burnt_gas c = 35"
    using run(1) by (auto simp: gas_counter_new_def Let_def pay_per_def checked_mul_def gas_cost_def burn_gas_def
        checked_add_def update_profile_host_def burnt_gas_def)
  ultimately show ?thesis by auto
qed

end
