(* ===== verification/Rust_Float.thy ===== *)
theory Rust_Float
  imports Rust_Prelude "HOL-Library.Log_Nat" Complex_Main
begin

text \<open>
  The double precision arithmetic the sources use: finite, non-negative values far from the ends of the
  exponent range. A value is a rational number; an operation is the exact operation followed by
  rounding to a significand of 53 bits, to nearest and ties to even, as IEEE 754 prescribes and Rust's
  \<open>f64\<close> implements.
\<close>

section \<open>Definitions\<close>

type_synonym f64 = rat

text \<open>The exponent of a positive number: \<open>2\<^sup>e \<le> x < 2\<^sup>e\<^sup>+\<^sup>1\<close>.\<close>

definition exponent_of :: "rat \<Rightarrow> int" where
  "exponent_of x =
     (if 1 \<le> x then int (floorlog 2 (nat \<lfloor>x\<rfloor>)) - 1 else - int (ceillog2 (nat \<lceil>1 / x\<rceil>)))"

definition round_even :: "rat \<Rightarrow> int" where
  "round_even y =
     (let f = \<lfloor>y\<rfloor>; d = y - of_int f in
      if d < 1 / 2 then f else if 1 / 2 < d then f + 1 else if even f then f else f + 1)"

definition rnd :: "rat \<Rightarrow> f64" where
  "rnd x =
     (if x \<le> 0 then 0
      else let e = exponent_of x in of_int (round_even (x * 2 powi (52 - e))) * 2 powi (e - 52))"

definition f64_of_nat :: "nat \<Rightarrow> f64" where
  "f64_of_nat n = rnd (of_nat n)"

definition f64_add :: "f64 \<Rightarrow> f64 \<Rightarrow> f64" where
  "f64_add x y = rnd (x + y)"

definition f64_sub :: "f64 \<Rightarrow> f64 \<Rightarrow> f64" where
  "f64_sub x y = rnd (x - y)"

definition f64_mul :: "f64 \<Rightarrow> f64 \<Rightarrow> f64" where
  "f64_mul x y = rnd (x * y)"

definition f64_div :: "f64 \<Rightarrow> f64 \<Rightarrow> f64" where
  "f64_div x y = rnd (x / y)"

text \<open>\<open>round\<close> (half away from zero) followed by the saturating cast to \<open>u64\<close>.\<close>

definition f64_round_as_u64 :: "f64 \<Rightarrow> nat" where
  "f64_round_as_u64 x = min (nat \<lfloor>x + 1 / 2\<rfloor>) (int_max u64_w)"

section \<open>Lemmas\<close>

lemma powi_pos [simp]: "0 < (2 :: rat) powi e"
  by (simp add: power_int_def)

lemma powi_add: "(2 :: rat) powi (a + b) = 2 powi a * 2 powi b"
  by (simp add: power_int_add)

lemma powi_nat [simp]: "(2 :: rat) powi int n = 2 ^ n"
  by (simp add: power_int_def)

lemma powi_mono: "a \<le> b \<Longrightarrow> (2 :: rat) powi a \<le> 2 powi b"
  by (rule power_int_increasing) simp_all

lemma powi_less_iff: "(2 :: rat) powi a < 2 powi b \<longleftrightarrow> a < b"
  by (metis le_less_linear not_le powi_mono power_int_strict_increasing one_less_numeral_iff semiring_norm(76))

lemma two_power_le_of_nat: "(2 :: rat) ^ k \<le> of_nat n \<longleftrightarrow> 2 ^ k \<le> n"
proof -
  have "(2 :: rat) ^ k = of_nat (2 ^ k)" by simp
  then show ?thesis by (simp only: of_nat_le_iff)
qed

lemma of_nat_le_two_power: "of_nat n \<le> (2 :: rat) ^ k \<longleftrightarrow> n \<le> 2 ^ k"
proof -
  have "(2 :: rat) ^ k = of_nat (2 ^ k)" by simp
  then show ?thesis by (simp only: of_nat_le_iff)
qed

lemma exponent_bounds_ge_1:
  assumes "1 \<le> x"
  shows "2 powi exponent_of x \<le> x" and "x < 2 powi (exponent_of x + 1)"
proof -
  let ?n = "nat \<lfloor>x\<rfloor>"
  have n: "0 < ?n" "of_nat ?n \<le> x" "x < of_nat ?n + 1" using assms by linarith+
  have fl: "2 ^ (floorlog 2 ?n - 1) \<le> ?n" "?n < 2 ^ floorlog 2 ?n"
    using floorlog_bounds [of ?n 2] n(1) by simp_all
  have pos: "0 < floorlog 2 ?n" using n(1) by (simp add: floorlog_def)
  have e: "exponent_of x = int (floorlog 2 ?n - 1)" using assms pos by (simp add: exponent_of_def of_nat_diff)
  have e1: "exponent_of x + 1 = int (floorlog 2 ?n)" using e pos by simp
  have "(2 :: rat) ^ (floorlog 2 ?n - 1) \<le> of_nat ?n" using fl(1) by (simp only: two_power_le_of_nat)
  then show "2 powi exponent_of x \<le> x" unfolding e powi_nat using n(2) by linarith
  have "of_nat (Suc ?n) \<le> (2 :: rat) ^ floorlog 2 ?n" using fl(2) by (simp only: of_nat_le_two_power Suc_leI)
  then show "x < 2 powi (exponent_of x + 1)" unfolding e1 powi_nat using n(3) by simp
qed

lemma exponent_bounds_lt_1:
  assumes "0 < x" and "x < 1"
  shows "2 powi exponent_of x \<le> x" and "x < 2 powi (exponent_of x + 1)"
proof -
  let ?y = "1 / x" and ?n = "nat \<lceil>1 / x\<rceil>"
  let ?k = "ceillog2 ?n"
  have y: "1 < ?y" using assms by simp
  then have n: "0 < ?n" "?y \<le> of_nat ?n" "of_nat ?n < ?y + 1" "1 < ?n" by linarith+
  have k: "?n \<le> 2 ^ ?k" using ceillog2_le_iff [OF n(1), of ?k] by simp
  have kpos: "0 < ?k" using ceillog2_le_iff [OF n(1), of 0] n(4) by auto
  have "\<not> ?n \<le> 2 ^ (?k - 1)" using ceillog2_le_iff [OF n(1), of "?k - 1"] kpos by auto
  then have "2 ^ (?k - 1) \<le> ?n - 1" by linarith
  then have "(2 :: rat) ^ (?k - 1) \<le> of_nat (?n - 1)" by (simp only: two_power_le_of_nat)
  then have k1: "(2 :: rat) ^ (?k - 1) \<le> of_nat ?n - 1" using n(1) by (simp add: of_nat_diff)
  have e: "exponent_of x = - int ?k" using assms by (simp add: exponent_of_def)
  have "of_nat ?n \<le> (2 :: rat) ^ ?k" using k by (simp only: of_nat_le_two_power)
  then have yk: "?y \<le> 2 ^ ?k" using n(2) by linarith
  have yk1: "2 ^ (?k - 1) < ?y" using k1 n(3) by linarith
  have "(2 :: rat) powi exponent_of x = 1 / 2 ^ ?k" by (simp add: e power_int_minus field_simps)
  also have "\<dots> \<le> x" using yk assms by (simp add: field_simps)
  finally show "2 powi exponent_of x \<le> x" .
  have "exponent_of x + 1 = - int (?k - 1)" using kpos by (simp add: e of_nat_diff)
  then have "(2 :: rat) powi (exponent_of x + 1) = 1 / 2 ^ (?k - 1)" by (simp add: power_int_minus field_simps)
  moreover have "x < 1 / 2 ^ (?k - 1)" using yk1 assms by (simp add: field_simps)
  ultimately show "x < 2 powi (exponent_of x + 1)" by simp
qed

lemma exponent_bounds:
  assumes "0 < x"
  shows "2 powi exponent_of x \<le> x" and "x < 2 powi (exponent_of x + 1)"
  using exponent_bounds_ge_1 [of x] exponent_bounds_lt_1 [OF assms] by (cases "1 \<le> x"; simp)+

lemma exponent_unique:
  assumes "2 powi e \<le> x" and "x < 2 powi (e + 1)"
  shows "exponent_of x = e"
proof -
  have pos: "0 < x" using assms(1) powi_pos [of e] by linarith
  note b = exponent_bounds [OF pos]
  have "(2 :: rat) powi exponent_of x < 2 powi (e + 1)" "(2 :: rat) powi e < 2 powi (exponent_of x + 1)"
    using b assms by linarith+
  then show ?thesis by (simp add: powi_less_iff)
qed

lemma exponent_mono: "0 < x \<Longrightarrow> x \<le> y \<Longrightarrow> exponent_of x \<le> exponent_of y"
proof -
  assume x: "0 < x" "x \<le> y"
  then have "(2 :: rat) powi exponent_of x < 2 powi (exponent_of y + 1)"
    using exponent_bounds [of x] exponent_bounds [of y] by linarith
  then show ?thesis by (simp add: powi_less_iff)
qed

lemma round_even_error: "\<bar>of_int (round_even y) - y\<bar> \<le> 1 / 2"
proof -
  have "of_int \<lfloor>y\<rfloor> \<le> y" "y < of_int \<lfloor>y\<rfloor> + 1" by linarith+
  then show ?thesis unfolding round_even_def Let_def by (auto simp: abs_le_iff)
qed

lemma round_even_int [simp]: "round_even (of_int k) = k"
  by (simp add: round_even_def)

lemma round_even_mono:
  assumes "x \<le> y"
  shows "round_even x \<le> round_even y"
proof (cases "\<lfloor>x\<rfloor> = \<lfloor>y\<rfloor>")
  case True
  with assms show ?thesis unfolding round_even_def Let_def by (auto split: if_splits)
next
  case False
  then have "\<lfloor>x\<rfloor> + 1 \<le> \<lfloor>y\<rfloor>" using assms floor_mono [OF assms] by linarith
  moreover have "round_even x \<le> \<lfloor>x\<rfloor> + 1" "\<lfloor>y\<rfloor> \<le> round_even y" by (auto simp: round_even_def Let_def)
  ultimately show ?thesis by linarith
qed

lemma scaled_bounds:
  assumes "0 < x"
  shows "2 ^ 52 \<le> x * 2 powi (52 - exponent_of x)" and "x * 2 powi (52 - exponent_of x) \<le> 2 ^ 53"
proof -
  let ?e = "exponent_of x"
  have "2 powi ?e * 2 powi (52 - ?e) = (2 :: rat) ^ 52"
    using powi_add [of ?e "52 - ?e"] powi_nat [of 52] by simp
  moreover have "2 powi (?e + 1) * 2 powi (52 - ?e) = (2 :: rat) ^ 53"
    using powi_add [of "?e + 1" "52 - ?e"] powi_nat [of 53] by simp
  moreover have "2 powi ?e * 2 powi (52 - ?e) \<le> x * 2 powi (52 - ?e)"
    using exponent_bounds [OF assms] by (intro mult_right_mono) simp_all
  moreover have "x * 2 powi (52 - ?e) \<le> 2 powi (?e + 1) * 2 powi (52 - ?e)"
    using exponent_bounds [OF assms] by (intro mult_right_mono) simp_all
  ultimately show "2 ^ 52 \<le> x * 2 powi (52 - ?e)" "x * 2 powi (52 - ?e) \<le> 2 ^ 53" by simp_all
qed

lemma rnd_pos_eq: "0 < x \<Longrightarrow> rnd x = of_int (round_even (x * 2 powi (52 - exponent_of x))) * 2 powi (exponent_of x - 52)"
  by (simp add: rnd_def Let_def)

lemma rnd_bounds:
  assumes "0 < x"
  shows "2 powi exponent_of x \<le> rnd x" and "rnd x \<le> 2 powi (exponent_of x + 1)"
proof -
  let ?e = "exponent_of x" and ?y = "x * 2 powi (52 - exponent_of x)"
  have "round_even (2 ^ 52) \<le> round_even ?y" "round_even ?y \<le> round_even (2 ^ 53)"
    using scaled_bounds [OF assms] round_even_mono by blast+
  moreover have "round_even (2 ^ 52) = 2 ^ 52" "round_even (2 ^ 53) = 2 ^ 53"
    using round_even_int [of "2 ^ 52"] round_even_int [of "2 ^ 53"] by simp_all
  ultimately have "2 ^ 52 \<le> round_even ?y" "round_even ?y \<le> 2 ^ 53" by simp_all
  then have r: "(2 :: rat) ^ 52 \<le> of_int (round_even ?y)" "of_int (round_even ?y) \<le> (2 :: rat) ^ 53"
    by (metis of_int_le_iff of_int_numeral of_int_power)+
  have "(2 :: rat) powi ?e = 2 ^ 52 * 2 powi (?e - 52)"
    using powi_add [of 52 "?e - 52"] powi_nat [of 52] by simp
  also have "\<dots> \<le> rnd x" unfolding rnd_pos_eq [OF assms] using r(1) by (intro mult_right_mono) simp_all
  finally show "2 powi ?e \<le> rnd x" .
  have "rnd x \<le> 2 ^ 53 * 2 powi (?e - 52)"
    unfolding rnd_pos_eq [OF assms] using r(2) by (intro mult_right_mono) simp_all
  also have "\<dots> = 2 powi (?e + 1)" using powi_add [of 53 "?e - 52"] powi_nat [of 53] by (simp add: add.commute)
  finally show "rnd x \<le> 2 powi (?e + 1)" .
qed

lemma rnd_nonneg: "0 \<le> rnd x"
proof (cases "0 < x")
  case True
  then show ?thesis using rnd_bounds(1) [OF True] powi_pos [of "exponent_of x"] by linarith
qed (simp add: rnd_def)

lemma rnd_mono:
  assumes "x \<le> y"
  shows "rnd x \<le> rnd y"
proof (cases "0 < x")
  case False
  then show ?thesis using rnd_nonneg [of y] by (simp add: rnd_def)
next
  case True
  then have y: "0 < y" using assms by simp
  show ?thesis
  proof (cases "exponent_of x = exponent_of y")
    case eq: True
    let ?e = "exponent_of y"
    have "x * 2 powi (52 - ?e) \<le> y * 2 powi (52 - ?e)" using assms by (intro mult_right_mono) simp_all
    then have "round_even (x * 2 powi (52 - ?e)) \<le> round_even (y * 2 powi (52 - ?e))" by (rule round_even_mono)
    then show ?thesis unfolding rnd_pos_eq [OF True] rnd_pos_eq [OF y] eq by (intro mult_right_mono) simp_all
  next
    case False
    then have "exponent_of x + 1 \<le> exponent_of y" using exponent_mono [OF True assms] by simp
    then have "2 powi (exponent_of x + 1) \<le> (2 :: rat) powi exponent_of y" by (rule powi_mono)
    with rnd_bounds(2) [OF True] rnd_bounds(1) [OF y] show ?thesis by linarith
  qed
qed

text \<open>Numbers with a short significand are exact.\<close>

lemma rnd_exact:
  assumes "0 < k" and "k \<le> 2 ^ 53"
  shows "rnd (of_int k * 2 powi j) = of_int k * 2 powi j"
proof -
  let ?x = "of_int k * 2 powi j :: rat"
  have pos: "0 < ?x" using assms(1) by simp
  define e where "e = exponent_of ?x"
  have "of_int k \<le> (of_int (2 ^ 53) :: rat)" using assms(2) by (simp only: of_int_le_iff)
  then have "of_int k \<le> (2 :: rat) ^ 53" by (simp only: of_int_power of_int_numeral)
  then have "?x \<le> 2 ^ 53 * 2 powi j" by (intro mult_right_mono) simp_all
  also have "\<dots> = 2 powi (53 + j)" using powi_add [of 53 j] powi_nat [of 53] by simp
  finally have le: "?x \<le> 2 powi (53 + j)" .
  show ?thesis
  proof (cases "52 + j - e \<ge> 0")
    case True
    define n where "n = nat (52 + j - e)"
    have n: "52 + j - e = int n" using True by (simp add: n_def)
    have "?x * 2 powi (52 - e) = of_int k * 2 powi (j + (52 - e))" by (simp add: powi_add)
    also have "j + (52 - e) = int n" using n by simp
    also have "of_int k * 2 powi int n = (of_int (k * 2 ^ n) :: rat)" by (simp only: powi_nat of_int_mult of_int_power of_int_numeral)
    finally have "?x * 2 powi (52 - e) = of_int (k * 2 ^ n)" .
    then have "round_even (?x * 2 powi (52 - e)) = k * 2 ^ n" by (simp only: round_even_int)
    then have "rnd ?x = of_int (k * 2 ^ n) * 2 powi (e - 52)" by (simp only: rnd_pos_eq [OF pos] e_def [symmetric])
    also have "\<dots> = of_int k * (2 powi int n * 2 powi (e - 52))"
      by (simp only: powi_nat of_int_mult of_int_power of_int_numeral mult.assoc)
    also have "\<dots> = of_int k * 2 powi (int n + (e - 52))" by (simp add: powi_add)
    also have "int n + (e - 52) = j" using n by simp
    finally show ?thesis .
  next
    case False
    then have "53 + j \<le> e" by simp
    then have "2 powi (53 + j) \<le> (2 :: rat) powi e" by (rule powi_mono)
    then have x: "?x = 2 powi e" using le exponent_bounds(1) [OF pos] unfolding e_def [symmetric] by linarith
    have "?x * 2 powi (52 - e) = 2 powi (e + (52 - e))" unfolding x powi_add by simp
    also have "e + (52 - e) = int 52" by simp
    also have "2 powi int 52 = (of_int (2 ^ 52) :: rat)" by (simp only: powi_nat of_int_power of_int_numeral)
    finally have "?x * 2 powi (52 - e) = of_int (2 ^ 52)" .
    then have "round_even (?x * 2 powi (52 - e)) = 2 ^ 52" by (simp only: round_even_int)
    then have "rnd ?x = of_int (2 ^ 52) * 2 powi (e - 52)" by (simp only: rnd_pos_eq [OF pos] e_def [symmetric])
    also have "\<dots> = 2 powi (int 52 + (e - 52))" by (simp only: powi_add powi_nat of_int_power of_int_numeral)
    also have "int 52 + (e - 52) = e" by simp
    finally show ?thesis using x by (simp only:)
  qed
qed

lemma f64_of_nat_exact: "n \<le> 2 ^ 53 \<Longrightarrow> f64_of_nat n = of_nat n"
proof (cases "n = 0")
  case False
  assume "n \<le> 2 ^ 53"
  then have "int n \<le> 2 ^ 53" by (metis of_nat_le_iff of_nat_numeral of_nat_power)
  with rnd_exact [of "int n" 0] False show ?thesis by (simp add: f64_of_nat_def)
qed (simp add: f64_of_nat_def rnd_def)

lemma rnd_0 [simp]: "rnd 0 = 0"
  by (simp add: rnd_def)

lemma rnd_1 [simp]: "rnd 1 = 1"
  using rnd_exact [of 1 0] by simp

text \<open>The relative error of one rounding is at most \<open>2\<^sup>-\<^sup>5\<^sup>3\<close>.\<close>

lemma rnd_error: "0 \<le> x \<Longrightarrow> \<bar>rnd x - x\<bar> \<le> x / 2 ^ 53"
proof (cases "x = 0")
  case False
  assume "0 \<le> x"
  with False have pos: "0 < x" by simp
  let ?e = "exponent_of x" and ?y = "x * 2 powi (52 - exponent_of x)"
  have one: "2 powi (52 - ?e) * 2 powi (?e - 52) = (1 :: rat)" using powi_add [of "52 - ?e" "?e - 52"] by simp
  have "x = ?y * 2 powi (?e - 52)" using one by (simp add: mult.assoc)
  then have "rnd x - x = (of_int (round_even ?y) - ?y) * 2 powi (?e - 52)"
    unfolding rnd_pos_eq [OF pos] by (simp only: left_diff_distrib)
  then have "\<bar>rnd x - x\<bar> = \<bar>of_int (round_even ?y) - ?y\<bar> * 2 powi (?e - 52)" by (simp add: abs_mult)
  also have "\<dots> \<le> 1 / 2 * 2 powi (?e - 52)" using round_even_error by (intro mult_right_mono) simp_all
  also have "\<dots> = 2 powi ?e / 2 ^ 53"
    using powi_add [of ?e "- 52"] by (simp add: power_int_minus)
  also have "\<dots> \<le> x / 2 ^ 53" using exponent_bounds(1) [OF pos] by (intro divide_right_mono) simp_all
  finally show ?thesis .
qed simp

end
