(* ===== verification/Congestion_Info.thy ===== *)
theory Congestion_Info
  imports Rust_Float Shard_Layout Gas_Costs
begin

text \<open>
  Congestion control (\<open>core/primitives/src/congestion_info.rs\<close>, its configuration from
  \<open>core/parameters/src/config.rs\<close>): the counters of delayed and buffered receipts, the congestion
  levels computed from them in double precision, the limits for senders and the choice of the
  allowed shard.
\<close>

section \<open>Definitions\<close>

record congestion_control_config =
  max_congestion_incoming_gas :: gas
  max_congestion_outgoing_gas :: gas
  max_congestion_memory_consumption :: nat
  max_congestion_missed_chunks :: nat
  max_outgoing_gas :: gas
  min_outgoing_gas :: gas
  allowed_shard_outgoing_gas :: gas
  max_tx_gas :: gas
  min_tx_gas :: gas
  reject_tx_congestion_threshold :: f64
  outgoing_receipts_usual_size_limit :: nat
  outgoing_receipts_big_size_limit :: nat

record congestion_info_v1 =
  v1_delayed_receipts_gas :: nat
  v1_buffered_receipts_gas :: nat
  v1_receipt_bytes :: nat
  v1_allowed_shard :: nat

datatype congestion_info = CongestionInfoV1 congestion_info_v1

definition congestion_info_default :: congestion_info where
  "congestion_info_default =
     CongestionInfoV1 \<lparr> v1_delayed_receipts_gas = 0, v1_buffered_receipts_gas = 0, v1_receipt_bytes = 0, v1_allowed_shard = 0 \<rparr>"

datatype runtime_error = UnexpectedIntegerOverflow string

definition validate_extra_and_header :: "congestion_info \<Rightarrow> congestion_info \<Rightarrow> bool" where
  "validate_extra_and_header extra header =
     (case (extra, header) of
        (CongestionInfoV1 e, CongestionInfoV1 h) \<Rightarrow>
          v1_delayed_receipts_gas e = v1_delayed_receipts_gas h \<and>
          v1_buffered_receipts_gas e = v1_buffered_receipts_gas h \<and>
          v1_receipt_bytes e = v1_receipt_bytes h \<and>
          v1_allowed_shard e = v1_allowed_shard h)"

definition delayed_receipts_gas :: "congestion_info \<Rightarrow> nat" where
  "delayed_receipts_gas info = (case info of CongestionInfoV1 i \<Rightarrow> v1_delayed_receipts_gas i)"

definition buffered_receipts_gas :: "congestion_info \<Rightarrow> nat" where
  "buffered_receipts_gas info = (case info of CongestionInfoV1 i \<Rightarrow> v1_buffered_receipts_gas i)"

definition receipt_bytes :: "congestion_info \<Rightarrow> nat" where
  "receipt_bytes info = (case info of CongestionInfoV1 i \<Rightarrow> v1_receipt_bytes i)"

definition allowed_shard :: "congestion_info \<Rightarrow> nat" where
  "allowed_shard info = (case info of CongestionInfoV1 i \<Rightarrow> v1_allowed_shard i)"

definition set_allowed_shard :: "nat \<Rightarrow> congestion_info \<Rightarrow> congestion_info" where
  "set_allowed_shard s info = (case info of CongestionInfoV1 i \<Rightarrow> CongestionInfoV1 (i\<lparr>v1_allowed_shard := s\<rparr>))"

definition add_receipt_bytes :: "nat \<Rightarrow> congestion_info \<Rightarrow> runtime_error + congestion_info" where
  "add_receipt_bytes bytes info =
     (case info of CongestionInfoV1 i \<Rightarrow>
        rbind (ok_or (UnexpectedIntegerOverflow ''add_receipt_bytes'') (checked_add u64_w (v1_receipt_bytes i) bytes))
          (\<lambda>v. Inr (CongestionInfoV1 (i\<lparr>v1_receipt_bytes := v\<rparr>))))"

definition remove_receipt_bytes :: "nat \<Rightarrow> congestion_info \<Rightarrow> runtime_error + congestion_info" where
  "remove_receipt_bytes bytes info =
     (case info of CongestionInfoV1 i \<Rightarrow>
        rbind (ok_or (UnexpectedIntegerOverflow ''remove_receipt_bytes'') (checked_sub (v1_receipt_bytes i) bytes))
          (\<lambda>v. Inr (CongestionInfoV1 (i\<lparr>v1_receipt_bytes := v\<rparr>))))"

definition add_delayed_receipt_gas :: "gas \<Rightarrow> congestion_info \<Rightarrow> runtime_error + congestion_info" where
  "add_delayed_receipt_gas gas info =
     (case info of CongestionInfoV1 i \<Rightarrow>
        rbind (ok_or (UnexpectedIntegerOverflow ''add_delayed_receipt_gas'')
                 (checked_add u128_w (v1_delayed_receipts_gas i) gas))
          (\<lambda>v. Inr (CongestionInfoV1 (i\<lparr>v1_delayed_receipts_gas := v\<rparr>))))"

definition remove_delayed_receipt_gas :: "gas \<Rightarrow> congestion_info \<Rightarrow> runtime_error + congestion_info" where
  "remove_delayed_receipt_gas gas info =
     (case info of CongestionInfoV1 i \<Rightarrow>
        rbind (ok_or (UnexpectedIntegerOverflow ''remove_delayed_receipt_gas'')
                 (checked_sub (v1_delayed_receipts_gas i) gas))
          (\<lambda>v. Inr (CongestionInfoV1 (i\<lparr>v1_delayed_receipts_gas := v\<rparr>))))"

definition add_buffered_receipt_gas :: "gas \<Rightarrow> congestion_info \<Rightarrow> runtime_error + congestion_info" where
  "add_buffered_receipt_gas gas info =
     (case info of CongestionInfoV1 i \<Rightarrow>
        rbind (ok_or (UnexpectedIntegerOverflow ''add_buffered_receipt_gas'')
                 (checked_add u128_w (v1_buffered_receipts_gas i) gas))
          (\<lambda>v. Inr (CongestionInfoV1 (i\<lparr>v1_buffered_receipts_gas := v\<rparr>))))"

definition remove_buffered_receipt_gas :: "nat \<Rightarrow> congestion_info \<Rightarrow> runtime_error + congestion_info" where
  "remove_buffered_receipt_gas gas info =
     (case info of CongestionInfoV1 i \<Rightarrow>
        rbind (ok_or (UnexpectedIntegerOverflow ''remove_buffered_receipt_gas'')
                 (checked_sub (v1_buffered_receipts_gas i) gas))
          (\<lambda>v. Inr (CongestionInfoV1 (i\<lparr>v1_buffered_receipts_gas := v\<rparr>))))"

definition clamped_f64_fraction :: "nat \<Rightarrow> nat \<Rightarrow> f64 option" where
  "clamped_f64_fraction v mx =
     do {
       assert (mx > 0);
       Some (if mx \<le> v then 1 else f64_div (f64_of_nat v) (f64_of_nat mx))
     }"

definition mix :: "nat \<Rightarrow> nat \<Rightarrow> f64 \<Rightarrow> nat" where
  "mix left right ratio =
     (let left_part = f64_mul (f64_of_nat left) (f64_sub 1 ratio);
          right_part = f64_mul (f64_of_nat right) ratio
      in f64_round_as_u64 (f64_add left_part right_part))"

definition info_incoming_congestion :: "congestion_info \<Rightarrow> congestion_control_config \<Rightarrow> f64 option" where
  "info_incoming_congestion info config =
     clamped_f64_fraction (delayed_receipts_gas info) (max_congestion_incoming_gas config)"

definition info_outgoing_congestion :: "congestion_info \<Rightarrow> congestion_control_config \<Rightarrow> f64 option" where
  "info_outgoing_congestion info config =
     clamped_f64_fraction (buffered_receipts_gas info) (max_congestion_outgoing_gas config)"

definition info_memory_congestion :: "congestion_info \<Rightarrow> congestion_control_config \<Rightarrow> f64 option" where
  "info_memory_congestion info config =
     clamped_f64_fraction (receipt_bytes info) (max_congestion_memory_consumption config)"

definition localized_congestion_level :: "congestion_info \<Rightarrow> congestion_control_config \<Rightarrow> f64 option" where
  "localized_congestion_level info config =
     do {
       incoming \<leftarrow> info_incoming_congestion info config;
       outgoing \<leftarrow> info_outgoing_congestion info config;
       memory \<leftarrow> info_memory_congestion info config;
       Some (max (max incoming outgoing) memory)
     }"

text \<open>The remainder is \<open>None\<close> for an empty list, and then the own shard is returned.\<close>

definition get_new_allowed_shard :: "shard_id \<Rightarrow> shard_id list \<Rightarrow> nat \<Rightarrow> shard_id option" where
  "get_new_allowed_shard own_shard all_shards congestion_seed =
     (if length all_shards = 0 then Some own_shard
      else vec_get all_shards (congestion_seed mod length all_shards))"

definition finalize_allowed_shard ::
  "shard_id \<Rightarrow> shard_id list \<Rightarrow> nat \<Rightarrow> congestion_info \<Rightarrow> congestion_info option" where
  "finalize_allowed_shard own_shard all_shards congestion_seed info =
     do {
       s \<leftarrow> get_new_allowed_shard own_shard all_shards congestion_seed;
       Some (set_allowed_shard (cast u16_w s) info)
     }"

record congestion_control =
  cc_config :: congestion_control_config
  cc_info :: congestion_info
  cc_missed_chunks_count :: nat

definition congestion_control_new :: "congestion_control_config \<Rightarrow> congestion_info \<Rightarrow> nat \<Rightarrow> congestion_control" where
  "congestion_control_new config info missed =
     \<lparr> cc_config = config, cc_info = info, cc_missed_chunks_count = missed \<rparr>"

definition incoming_congestion :: "congestion_control \<Rightarrow> f64 option" where
  "incoming_congestion c = info_incoming_congestion (cc_info c) (cc_config c)"

definition outgoing_congestion :: "congestion_control \<Rightarrow> f64 option" where
  "outgoing_congestion c = info_outgoing_congestion (cc_info c) (cc_config c)"

definition memory_congestion :: "congestion_control \<Rightarrow> f64 option" where
  "memory_congestion c = info_memory_congestion (cc_info c) (cc_config c)"

definition missed_chunks_congestion :: "congestion_control \<Rightarrow> f64 option" where
  "missed_chunks_congestion c =
     (if cc_missed_chunks_count c \<le> 1 then Some 0
      else clamped_f64_fraction (cc_missed_chunks_count c) (max_congestion_missed_chunks (cc_config c)))"

definition congestion_level :: "congestion_control \<Rightarrow> f64 option" where
  "congestion_level c =
     do {
       incoming \<leftarrow> incoming_congestion c;
       outgoing \<leftarrow> outgoing_congestion c;
       memory \<leftarrow> memory_congestion c;
       missed \<leftarrow> missed_chunks_congestion c;
       Some (max (max (max incoming outgoing) memory) missed)
     }"

definition is_fully_congested :: "f64 \<Rightarrow> bool" where
  "is_fully_congested level \<longleftrightarrow> level = 1"

definition outgoing_gas_limit :: "shard_id \<Rightarrow> congestion_control \<Rightarrow> gas option" where
  "outgoing_gas_limit sender_shard c =
     do {
       congestion \<leftarrow> congestion_level c;
       Some (if is_fully_congested congestion then
               (if sender_shard = allowed_shard (cc_info c) then allowed_shard_outgoing_gas (cc_config c) else 0)
             else mix (max_outgoing_gas (cc_config c)) (min_outgoing_gas (cc_config c)) congestion)
     }"

definition outgoing_size_limit :: "shard_id \<Rightarrow> congestion_control \<Rightarrow> nat" where
  "outgoing_size_limit sender_shard c =
     (if sender_shard = allowed_shard (cc_info c) then outgoing_receipts_big_size_limit (cc_config c)
      else outgoing_receipts_usual_size_limit (cc_config c))"

definition process_tx_limit :: "congestion_control \<Rightarrow> gas option" where
  "process_tx_limit c =
     do {
       incoming \<leftarrow> incoming_congestion c;
       Some (mix (max_tx_gas (cc_config c)) (min_tx_gas (cc_config c)) incoming)
     }"

datatype reject_transaction_reason =
    IncomingCongestion f64
  | OutgoingCongestion f64
  | MemoryCongestion f64
  | MissedChunks nat

datatype shard_accepts_transactions = AcceptsYes | AcceptsNo reject_transaction_reason

definition shard_accepts_txs :: "congestion_control \<Rightarrow> shard_accepts_transactions option" where
  "shard_accepts_txs c =
     do {
       incoming \<leftarrow> incoming_congestion c;
       outgoing \<leftarrow> outgoing_congestion c;
       memory \<leftarrow> memory_congestion c;
       missed \<leftarrow> missed_chunks_congestion c;
       let level = max (max (max incoming outgoing) memory) missed;
       Some (if level < reject_tx_congestion_threshold (cc_config c) then AcceptsYes
             else AcceptsNo
               (if missed \<ge> level then MissedChunks (cc_missed_chunks_count c)
                else if incoming \<ge> level then IncomingCongestion level
                else if outgoing \<ge> level then OutgoingCongestion level
                else MemoryCongestion level))
     }"

definition is_yes :: "shard_accepts_transactions \<Rightarrow> bool" where
  "is_yes r = (case r of AcceptsYes \<Rightarrow> True | AcceptsNo _ \<Rightarrow> False)"

definition is_no :: "shard_accepts_transactions \<Rightarrow> bool" where
  "is_no r \<longleftrightarrow> \<not> is_yes r"

record extended_congestion_info =
  ext_congestion_info :: congestion_info
  missed_chunks_count :: nat

type_synonym block_congestion_info = "(shard_id, extended_congestion_info) btree"

definition extended_congestion_info_new :: "congestion_info \<Rightarrow> nat \<Rightarrow> extended_congestion_info" where
  "extended_congestion_info_new info missed = \<lparr> ext_congestion_info = info, missed_chunks_count = missed \<rparr>"

definition all_shards_of :: "block_congestion_info \<Rightarrow> shard_id list" where
  "all_shards_of b = bt_keys b"

definition block_congestion_get :: "block_congestion_info \<Rightarrow> shard_id \<Rightarrow> extended_congestion_info option" where
  "block_congestion_get b sid = bt_get b sid"

definition block_congestion_insert ::
  "shard_id \<Rightarrow> extended_congestion_info \<Rightarrow> block_congestion_info \<Rightarrow>
   extended_congestion_info option \<times> block_congestion_info" where
  "block_congestion_insert sid v b = (bt_get b sid, bt_insert sid v b)"

text \<open>The mutable reference returned is the update it is used for.\<close>

definition block_congestion_get_mut ::
  "shard_id \<Rightarrow> (extended_congestion_info \<Rightarrow> extended_congestion_info) \<Rightarrow> block_congestion_info \<Rightarrow>
   block_congestion_info option" where
  "block_congestion_get_mut sid f b =
     do {
       v \<leftarrow> bt_get b sid;
       Some (bt_insert sid (f v) b)
     }"

definition block_congestion_is_empty :: "block_congestion_info \<Rightarrow> bool" where
  "block_congestion_is_empty b \<longleftrightarrow> b = []"

section \<open>Lemmas on levels\<close>

lemma f64_of_nat_mono: "m \<le> n \<Longrightarrow> f64_of_nat m \<le> f64_of_nat n"
  unfolding f64_of_nat_def by (intro rnd_mono) simp

lemma f64_of_nat_nonneg: "0 \<le> f64_of_nat n"
  by (simp add: f64_of_nat_def rnd_nonneg)

lemma rnd_le_twice: "0 \<le> x \<Longrightarrow> rnd x \<le> 2 * x"
proof -
  assume x: "0 \<le> x"
  then have "x / 2 ^ 53 \<le> x" by (simp add: divide_le_eq)
  with rnd_error [OF x] show ?thesis by linarith
qed

text \<open>The value is the limit up to a relative distance of \<open>2 ^ -51\<close>.\<close>

definition near :: "nat \<Rightarrow> nat \<Rightarrow> bool" where
  "near mx v \<longleftrightarrow> 2 ^ 51 * mx \<le> 2 ^ 51 * v + mx"

lemma fraction_near:
  assumes "0 < mx" and "v < mx" and "f64_div (f64_of_nat v) (f64_of_nat mx) = 1"
  shows "near mx v"
proof -
  define V M where "V = (of_nat v :: rat)" and "M = (of_nat mx :: rat)"
  have vm: "0 \<le> V" "0 < M" "V \<le> M" using assms(1,2) by (simp_all add: V_def M_def)
  define u where "u = M / 2 ^ 53"
  have "V / 2 ^ 53 \<le> u" unfolding u_def by (rule divide_right_mono [OF vm(3)]) simp
  with rnd_error [OF vm(1)] have a: "rnd V \<le> V + u" by linarith
  have "0 \<le> M" using vm(2) by simp
  from rnd_error [OF this] rnd_le_twice [OF this] have b: "M - u \<le> rnd M" "rnd M \<le> 2 * M"
    unfolding u_def [symmetric] by linarith+
  have "u < M" using vm(2) by (simp add: u_def divide_less_eq)
  with b(1) have pos: "0 < rnd M" by linarith
  have "rnd V \<le> rnd M" by (rule rnd_mono [OF vm(3)])
  then have x: "0 \<le> rnd V / rnd M" "rnd V / rnd M \<le> 1" using pos by (simp_all add: rnd_nonneg)
  have "rnd (rnd V / rnd M) = 1" using assms(3) by (simp add: f64_div_def f64_of_nat_def V_def M_def)
  with rnd_error [OF x(1)] have "1 - rnd V / rnd M \<le> rnd V / rnd M / 2 ^ 53" by linarith
  also have "\<dots> \<le> 1 / 2 ^ 53" by (rule divide_right_mono [OF x(2)]) simp
  finally have "1 - 1 / 2 ^ 53 \<le> rnd V / rnd M" by linarith
  then have "(1 - 1 / 2 ^ 53) * rnd M \<le> rnd V" using pos by (simp only: pos_le_divide_eq)
  then have c: "rnd M - rnd M / 2 ^ 53 \<le> rnd V" by (simp add: left_diff_distrib)
  have "rnd M / 2 ^ 53 \<le> 2 * M / 2 ^ 53" by (rule divide_right_mono [OF b(2)]) simp
  then have "rnd M / 2 ^ 53 \<le> 2 * u" by (simp add: u_def)
  with a b(1) c have "M - 4 * u \<le> V" by linarith
  then have "2 ^ 51 * (M - 4 * u) \<le> 2 ^ 51 * V" by (intro mult_left_mono) simp_all
  moreover have "2 ^ 51 * (M - 4 * u) = 2 ^ 51 * M - M" by (simp add: u_def right_diff_distrib)
  ultimately have "2 ^ 51 * M \<le> 2 ^ 51 * V + M" by linarith
  then have "(of_nat (2 ^ 51 * mx) :: rat) \<le> of_nat (2 ^ 51 * v + mx)" by (simp add: V_def M_def)
  then show ?thesis unfolding near_def of_nat_le_iff .
qed

lemma near_limit: "mx \<le> v \<Longrightarrow> near mx v"
  by (simp add: near_def)

lemma fraction_bounds:
  assumes "0 < mx"
  obtains q where "clamped_f64_fraction v mx = Some q" "0 \<le> q" "q \<le> 1" "mx \<le> v \<longrightarrow> q = 1"
    "mx \<le> 2 ^ 53 \<longrightarrow> q = 1 \<longrightarrow> mx \<le> v" "q = 1 \<longrightarrow> near mx v"
proof (cases "mx \<le> v")
  case True
  then show thesis using that [of 1] assms by (simp add: clamped_f64_fraction_def near_limit)
next
  case False
  let ?q = "f64_div (f64_of_nat v) (f64_of_nat mx)"
  have "0 \<le> ?q" by (simp add: f64_div_def rnd_nonneg)
  moreover have "f64_of_nat v / f64_of_nat mx \<le> 1"
    using f64_of_nat_mono [of v mx] False f64_of_nat_nonneg [of mx]
    by (cases "f64_of_nat mx = 0") (simp_all add: divide_le_eq_1)
  then have "?q \<le> 1" unfolding f64_div_def using rnd_mono [of _ 1] by simp
  moreover have "?q < 1" if small: "mx \<le> 2 ^ 53"
  proof -
    have v: "v \<le> 2 ^ 53" "Suc v \<le> mx" using False small by simp_all
    have "of_nat (Suc v) \<le> (of_nat mx :: rat)" using v(2) by (simp only: of_nat_le_iff)
    then have "of_nat v \<le> (of_nat mx :: rat) - 1" by simp
    then have "of_nat v / (of_nat mx :: rat) \<le> (of_nat mx - 1) / of_nat mx"
      using assms by (intro divide_right_mono) simp_all
    also have "\<dots> = 1 - 1 / of_nat mx" using assms by (simp add: diff_divide_distrib)
    also have "\<dots> \<le> 1 - 1 / 2 ^ 53"
    proof -
      have "(of_nat mx :: rat) \<le> 2 ^ 53" using small by (simp only: of_nat_le_two_power)
      then have "1 / 2 ^ 53 \<le> 1 / (of_nat mx :: rat)" using assms by (intro divide_left_mono) simp_all
      then show ?thesis by linarith
    qed
    finally have "?q \<le> rnd (1 - 1 / 2 ^ 53)"
      unfolding f64_div_def f64_of_nat_exact [OF v(1)] f64_of_nat_exact [OF small] by (rule rnd_mono)
    also have "(1 - 1 / 2 ^ 53 :: rat) = of_int (2 ^ 53 - 1) * 2 powi (- 53)"
      by (simp add: power_int_minus)
    also have "rnd (of_int (2 ^ 53 - 1) * 2 powi (- 53)) = of_int (2 ^ 53 - 1) * 2 powi (- 53)"
      by (rule rnd_exact) simp_all
    finally show ?thesis by (simp add: power_int_minus)
  qed
  then have "mx \<le> 2 ^ 53 \<longrightarrow> ?q = 1 \<longrightarrow> mx \<le> v" by (metis less_irrefl)
  moreover have "?q = 1 \<longrightarrow> near mx v" using fraction_near [OF assms] False by simp
  ultimately show thesis using that [of ?q] assms False by (simp add: clamped_f64_fraction_def)
qed

definition config_ok :: "congestion_control_config \<Rightarrow> bool" where
  "config_ok config \<longleftrightarrow>
     0 < max_congestion_incoming_gas config \<and> 0 < max_congestion_outgoing_gas config \<and>
     0 < max_congestion_memory_consumption config \<and> 0 < max_congestion_missed_chunks config"

text \<open>Limits that double precision represents exactly.\<close>

definition config_precise :: "congestion_control_config \<Rightarrow> bool" where
  "config_precise config \<longleftrightarrow>
     max_congestion_incoming_gas config \<le> 2 ^ 53 \<and> max_congestion_outgoing_gas config \<le> 2 ^ 53 \<and>
     max_congestion_memory_consumption config \<le> 2 ^ 53 \<and> max_congestion_missed_chunks config \<le> 2 ^ 53"

text \<open>Some counter has reached its limit.\<close>

definition at_limit :: "congestion_control \<Rightarrow> bool" where
  "at_limit c \<longleftrightarrow>
     max_congestion_incoming_gas (cc_config c) \<le> delayed_receipts_gas (cc_info c) \<or>
     max_congestion_outgoing_gas (cc_config c) \<le> buffered_receipts_gas (cc_info c) \<or>
     max_congestion_memory_consumption (cc_config c) \<le> receipt_bytes (cc_info c) \<or>
     1 < cc_missed_chunks_count c \<and> max_congestion_missed_chunks (cc_config c) \<le> cc_missed_chunks_count c"

text \<open>Some counter is as close to its limit as double precision can tell.\<close>

definition near_limits :: "congestion_control \<Rightarrow> bool" where
  "near_limits c \<longleftrightarrow>
     near (max_congestion_incoming_gas (cc_config c)) (delayed_receipts_gas (cc_info c)) \<or>
     near (max_congestion_outgoing_gas (cc_config c)) (buffered_receipts_gas (cc_info c)) \<or>
     near (max_congestion_memory_consumption (cc_config c)) (receipt_bytes (cc_info c)) \<or>
     1 < cc_missed_chunks_count c \<and> near (max_congestion_missed_chunks (cc_config c)) (cc_missed_chunks_count c)"

definition level_ok :: "bool \<Rightarrow> bool \<Rightarrow> bool \<Rightarrow> f64 \<Rightarrow> bool" where
  "level_ok full close precise q \<longleftrightarrow>
     0 \<le> q \<and> q \<le> 1 \<and> (full \<longrightarrow> q = 1) \<and> (q = 1 \<longrightarrow> close) \<and> (precise \<longrightarrow> q = 1 \<longrightarrow> full)"

lemma level_ok_max:
  "level_ok f n p q \<Longrightarrow> level_ok f' n' p q' \<Longrightarrow> level_ok (f \<or> f') (n \<or> n') p (max q q')"
  by (auto simp: level_ok_def max_def)

lemma fraction_level_ok:
  assumes "0 < mx" and "p \<longrightarrow> mx \<le> 2 ^ 53"
  shows "\<exists>q. clamped_f64_fraction v mx = Some q \<and> level_ok (mx \<le> v) (near mx v) p q"
proof -
  obtain q where "clamped_f64_fraction v mx = Some q" "0 \<le> q" "q \<le> 1" "mx \<le> v \<longrightarrow> q = 1"
    "mx \<le> 2 ^ 53 \<longrightarrow> q = 1 \<longrightarrow> mx \<le> v" "q = 1 \<longrightarrow> near mx v" by (rule fraction_bounds [OF assms(1)])
  with assms(2) show ?thesis by (simp add: level_ok_def)
qed

lemma components_ok:
  assumes "config_ok (cc_config c)"
  obtains i u m k where
    "incoming_congestion c = Some i" "outgoing_congestion c = Some u" "memory_congestion c = Some m"
    "missed_chunks_congestion c = Some k"
    "level_ok (max_congestion_incoming_gas (cc_config c) \<le> delayed_receipts_gas (cc_info c))
       (near (max_congestion_incoming_gas (cc_config c)) (delayed_receipts_gas (cc_info c))) (config_precise (cc_config c)) i"
    "level_ok (max_congestion_outgoing_gas (cc_config c) \<le> buffered_receipts_gas (cc_info c))
       (near (max_congestion_outgoing_gas (cc_config c)) (buffered_receipts_gas (cc_info c))) (config_precise (cc_config c)) u"
    "level_ok (max_congestion_memory_consumption (cc_config c) \<le> receipt_bytes (cc_info c))
       (near (max_congestion_memory_consumption (cc_config c)) (receipt_bytes (cc_info c))) (config_precise (cc_config c)) m"
    "level_ok (1 < cc_missed_chunks_count c \<and> max_congestion_missed_chunks (cc_config c) \<le> cc_missed_chunks_count c)
       (1 < cc_missed_chunks_count c \<and> near (max_congestion_missed_chunks (cc_config c)) (cc_missed_chunks_count c)) (config_precise (cc_config c)) k"
proof -
  let ?p = "config_precise (cc_config c)"
  have pos: "0 < max_congestion_incoming_gas (cc_config c)" "0 < max_congestion_outgoing_gas (cc_config c)"
    "0 < max_congestion_memory_consumption (cc_config c)" "0 < max_congestion_missed_chunks (cc_config c)"
    using assms by (simp_all add: config_ok_def)
  have prec: "?p \<longrightarrow> max_congestion_incoming_gas (cc_config c) \<le> 2 ^ 53"
    "?p \<longrightarrow> max_congestion_outgoing_gas (cc_config c) \<le> 2 ^ 53"
    "?p \<longrightarrow> max_congestion_memory_consumption (cc_config c) \<le> 2 ^ 53"
    "?p \<longrightarrow> max_congestion_missed_chunks (cc_config c) \<le> 2 ^ 53" by (simp_all add: config_precise_def)
  note defs = incoming_congestion_def info_incoming_congestion_def outgoing_congestion_def info_outgoing_congestion_def
    memory_congestion_def info_memory_congestion_def
  obtain i u m where ium: "incoming_congestion c = Some i" "outgoing_congestion c = Some u" "memory_congestion c = Some m"
    "level_ok (max_congestion_incoming_gas (cc_config c) \<le> delayed_receipts_gas (cc_info c))
       (near (max_congestion_incoming_gas (cc_config c)) (delayed_receipts_gas (cc_info c))) ?p i"
    "level_ok (max_congestion_outgoing_gas (cc_config c) \<le> buffered_receipts_gas (cc_info c))
       (near (max_congestion_outgoing_gas (cc_config c)) (buffered_receipts_gas (cc_info c))) ?p u"
    "level_ok (max_congestion_memory_consumption (cc_config c) \<le> receipt_bytes (cc_info c))
       (near (max_congestion_memory_consumption (cc_config c)) (receipt_bytes (cc_info c))) ?p m"
    using fraction_level_ok [OF pos(1) prec(1)] fraction_level_ok [OF pos(2) prec(2)] fraction_level_ok [OF pos(3) prec(3)]
    unfolding defs by blast
  obtain k where "missed_chunks_congestion c = Some k"
    "level_ok (1 < cc_missed_chunks_count c \<and> max_congestion_missed_chunks (cc_config c) \<le> cc_missed_chunks_count c)
       (1 < cc_missed_chunks_count c \<and> near (max_congestion_missed_chunks (cc_config c)) (cc_missed_chunks_count c)) ?p k"
  proof (cases "cc_missed_chunks_count c \<le> 1")
    case True
    then show ?thesis using that [of 0] by (simp add: missed_chunks_congestion_def level_ok_def)
  next
    case False
    then show ?thesis
      using fraction_level_ok [OF pos(4) prec(4)] that unfolding missed_chunks_congestion_def by fastforce
  qed
  with ium that show thesis by blast
qed

lemma congestion_level_ok:
  assumes "config_ok (cc_config c)"
  shows "\<exists>l. congestion_level c = Some l \<and> level_ok (at_limit c) (near_limits c) (config_precise (cc_config c)) l"
proof -
  obtain i u m k where cmp:
    "incoming_congestion c = Some i" "outgoing_congestion c = Some u" "memory_congestion c = Some m"
    "missed_chunks_congestion c = Some k"
    "level_ok (max_congestion_incoming_gas (cc_config c) \<le> delayed_receipts_gas (cc_info c))
       (near (max_congestion_incoming_gas (cc_config c)) (delayed_receipts_gas (cc_info c))) (config_precise (cc_config c)) i"
    "level_ok (max_congestion_outgoing_gas (cc_config c) \<le> buffered_receipts_gas (cc_info c))
       (near (max_congestion_outgoing_gas (cc_config c)) (buffered_receipts_gas (cc_info c))) (config_precise (cc_config c)) u"
    "level_ok (max_congestion_memory_consumption (cc_config c) \<le> receipt_bytes (cc_info c))
       (near (max_congestion_memory_consumption (cc_config c)) (receipt_bytes (cc_info c))) (config_precise (cc_config c)) m"
    "level_ok (1 < cc_missed_chunks_count c \<and> max_congestion_missed_chunks (cc_config c) \<le> cc_missed_chunks_count c)
       (1 < cc_missed_chunks_count c \<and> near (max_congestion_missed_chunks (cc_config c)) (cc_missed_chunks_count c)) (config_precise (cc_config c)) k"
    by (rule components_ok [OF assms])
  have "level_ok (at_limit c) (near_limits c) (config_precise (cc_config c)) (max (max (max i u) m) k)"
    using level_ok_max [OF level_ok_max [OF level_ok_max [OF cmp(5,6)] cmp(7)] cmp(8)]
    by (simp add: at_limit_def near_limits_def disj_assoc)
  then show ?thesis using cmp(1-4) by (simp add: congestion_level_def)
qed

section \<open>Lemmas on interpolation\<close>

lemma part_error:
  fixes a b t :: rat
  assumes "0 \<le> l" and "0 \<le> t" and "t \<le> 1" and "0 \<le> b" and "b \<le> 1" and "\<bar>b - t\<bar> \<le> 1 / 2 ^ 53"
  shows "\<bar>rnd (rnd l * b) - l * t\<bar> \<le> 4 * l / 2 ^ 53" and "0 \<le> rnd (rnd l * b)"
proof -
  let ?u = "1 / 2 ^ 53 :: rat"
  have a: "\<bar>rnd l - l\<bar> \<le> l * ?u" "rnd l \<le> 2 * l" "0 \<le> rnd l"
    using rnd_error [OF assms(1)] rnd_le_twice [OF assms(1)] rnd_nonneg by simp_all
  have "\<bar>rnd (rnd l * b) - rnd l * b\<bar> \<le> rnd l * b * ?u"
    using rnd_error [of "rnd l * b"] a(3) assms(4) by simp
  also have "\<dots> \<le> rnd l * ?u" using a(3) assms(5) by (intro mult_right_mono mult_left_le) simp_all
  also have "\<dots> \<le> 2 * l * ?u" using a(2) by (intro mult_right_mono) simp_all
  finally have e1: "\<bar>rnd (rnd l * b) - rnd l * b\<bar> \<le> 2 * l * ?u" .
  have "\<bar>rnd l * b - l * b\<bar> = \<bar>rnd l - l\<bar> * b" using assms(4) by (simp add: abs_mult flip: left_diff_distrib)
  also have "\<dots> \<le> \<bar>rnd l - l\<bar>" using assms(5) by (intro mult_left_le) simp_all
  finally have e2: "\<bar>rnd l * b - l * b\<bar> \<le> l * ?u" using a(1) by linarith
  have "\<bar>l * b - l * t\<bar> = l * \<bar>b - t\<bar>" using assms(1) by (simp add: abs_mult flip: right_diff_distrib)
  also have "\<dots> \<le> l * ?u" using assms(1,6) by (intro mult_left_mono) simp_all
  finally have e3: "\<bar>l * b - l * t\<bar> \<le> l * ?u" .
  have "\<bar>rnd (rnd l * b) - l * t\<bar> \<le> 2 * l * ?u + l * ?u + l * ?u" using e1 e2 e3 by linarith
  then show "\<bar>rnd (rnd l * b) - l * t\<bar> \<le> 4 * l / 2 ^ 53" by simp
  show "0 \<le> rnd (rnd l * b)" by (rule rnd_nonneg)
qed

lemma round_as_u64_error:
  assumes "0 \<le> x" and "x \<le> 2 ^ 63"
  shows "\<bar>of_nat (f64_round_as_u64 x) - x\<bar> \<le> 1 / 2"
proof -
  have "\<lfloor>x + 1 / 2\<rfloor> \<le> 2 ^ 63" using assms(2) by (simp add: floor_le_iff)
  then have "nat \<lfloor>x + 1 / 2\<rfloor> \<le> int_max u64_w" by (simp add: int_max_def nat_le_iff)
  then have r: "f64_round_as_u64 x = nat \<lfloor>x + 1 / 2\<rfloor>" by (simp add: f64_round_as_u64_def)
  have "0 \<le> \<lfloor>x + 1 / 2\<rfloor>" using assms(1) by simp
  then have "(of_nat (nat \<lfloor>x + 1 / 2\<rfloor>) :: rat) = of_int \<lfloor>x + 1 / 2\<rfloor>" by simp
  then show ?thesis unfolding r by linarith
qed

lemma mix_error:
  assumes "0 \<le> t" and "t \<le> 1" and "l \<le> 2 ^ 60" and "r \<le> 2 ^ 60"
  shows "\<bar>of_nat (mix l r t) - (of_nat l * (1 - t) + of_nat r * t)\<bar> \<le> of_nat (l + r) / 2 ^ 50 + 1 / 2"
proof -
  define L R where "L = (of_nat l :: rat)" and "R = (of_nat r :: rat)"
  let ?u = "1 / 2 ^ 53 :: rat"
  have lr: "0 \<le> L" "0 \<le> R" by (simp_all add: L_def R_def)
  have sub: "\<bar>rnd (1 - t) - (1 - t)\<bar> \<le> ?u" "0 \<le> rnd (1 - t)" "rnd (1 - t) \<le> 1"
  proof -
    have "\<bar>rnd (1 - t) - (1 - t)\<bar> \<le> (1 - t) / 2 ^ 53" using assms(2) by (intro rnd_error) simp
    also have "\<dots> \<le> ?u" using assms(1) by (intro divide_right_mono) simp_all
    finally show "\<bar>rnd (1 - t) - (1 - t)\<bar> \<le> ?u" .
    show "0 \<le> rnd (1 - t)" by (rule rnd_nonneg)
    show "rnd (1 - t) \<le> 1" using rnd_mono [of "1 - t" 1] assms(1) by simp
  qed
  define LP RP where "LP = rnd (rnd L * rnd (1 - t))" and "RP = rnd (rnd R * t)"
  define A B where "A = L * (1 - t)" and "B = R * t"
  have lp: "\<bar>LP - A\<bar> \<le> 4 * L / 2 ^ 53" "0 \<le> LP"
    using part_error [of L "1 - t" "rnd (1 - t)"] sub assms(1,2) lr by (simp_all add: A_def LP_def)
  have rp: "\<bar>RP - B\<bar> \<le> 4 * R / 2 ^ 53" "0 \<le> RP"
    using part_error [of R t t] assms(1,2) lr by (simp_all add: B_def RP_def)
  have ex: "A \<le> L" "B \<le> R" using assms(1,2) lr by (simp_all add: A_def B_def mult_left_le)
  have small: "4 * L / 2 ^ 53 \<le> L" "4 * R / 2 ^ 53 \<le> R" using lr by (simp_all add: divide_le_eq)
  have "LP \<le> 2 * L" using lp(1) ex(1) small(1) by (simp only: abs_le_iff) linarith
  moreover have "RP \<le> 2 * R" using rp(1) ex(2) small(2) by (simp only: abs_le_iff) linarith
  ultimately have s2: "LP + RP \<le> 2 * L + 2 * R" by linarith
  have s: "\<bar>rnd (LP + RP) - (LP + RP)\<bar> \<le> (2 * L + 2 * R) / 2 ^ 53"
  proof -
    have "\<bar>rnd (LP + RP) - (LP + RP)\<bar> \<le> (LP + RP) / 2 ^ 53" using lp(2) rp(2) by (intro rnd_error) simp
    also have "\<dots> \<le> (2 * L + 2 * R) / 2 ^ 53" using s2 by (intro divide_right_mono) simp_all
    finally show ?thesis .
  qed
  have close: "\<bar>rnd (LP + RP) - (A + B)\<bar> \<le> (L + R) / 2 ^ 50"
  proof -
    define p q where "p = L / 2 ^ 53" and "q = R / 2 ^ 53"
    have pq: "0 \<le> p" "0 \<le> q" "4 * L / 2 ^ 53 = 4 * p" "4 * R / 2 ^ 53 = 4 * q"
      "(2 * L + 2 * R) / 2 ^ 53 = 2 * p + 2 * q" "(L + R) / 2 ^ 50 = 8 * p + 8 * q"
      using lr by (simp_all add: p_def q_def add_divide_distrib)
    show ?thesis using s lp(1) rp(1) pq(1,2) unfolding pq(3-6) by linarith
  qed
  have big: "L \<le> 2 ^ 60" "R \<le> 2 ^ 60" unfolding L_def R_def using assms(3,4) by (simp_all only: of_nat_le_two_power)
  have "(2 * L + 2 * R) / 2 ^ 53 \<le> 2 * L + 2 * R" using lr by (simp add: divide_le_eq)
  then have "rnd (LP + RP) \<le> 4 * L + 4 * R" using s s2 by linarith
  then have "rnd (LP + RP) \<le> 2 ^ 63" using big by simp
  then have "\<bar>of_nat (f64_round_as_u64 (rnd (LP + RP))) - rnd (LP + RP)\<bar> \<le> 1 / 2"
    by (intro round_as_u64_error rnd_nonneg)
  moreover have "mix l r t = f64_round_as_u64 (rnd (LP + RP))"
    by (simp add: mix_def f64_mul_def f64_of_nat_def f64_sub_def f64_add_def L_def R_def LP_def RP_def)
  ultimately have "\<bar>of_nat (mix l r t) - (A + B)\<bar> \<le> (L + R) / 2 ^ 50 + 1 / 2" using close by linarith
  then show ?thesis by (simp add: A_def B_def L_def R_def)
qed

section \<open>The counters and the receipts they stand for\<close>

datatype congestion_op =
    AddBytes nat | RemoveBytes nat
  | AddDelayed gas | RemoveDelayed gas
  | AddBuffered gas | RemoveBuffered gas

primrec apply_op :: "congestion_op \<Rightarrow> congestion_info \<Rightarrow> runtime_error + congestion_info" where
  "apply_op (AddBytes b) info = add_receipt_bytes b info"
| "apply_op (RemoveBytes b) info = remove_receipt_bytes b info"
| "apply_op (AddDelayed g) info = add_delayed_receipt_gas g info"
| "apply_op (RemoveDelayed g) info = remove_delayed_receipt_gas g info"
| "apply_op (AddBuffered g) info = add_buffered_receipt_gas g info"
| "apply_op (RemoveBuffered g) info = remove_buffered_receipt_gas g info"

primrec run_ops :: "congestion_op list \<Rightarrow> congestion_info \<Rightarrow> runtime_error + congestion_info" where
  "run_ops [] info = Inr info"
| "run_ops (a # as) info = rbind (apply_op a info) (run_ops as)"

text \<open>The abstract state: the sizes and the gas of the receipts that are stored.\<close>

record tracked =
  t_bytes :: "nat multiset"
  t_delayed :: "gas multiset"
  t_buffered :: "gas multiset"

definition tracked_fits :: "tracked \<Rightarrow> bool" where
  "tracked_fits t \<longleftrightarrow>
     fits u64_w (sum_mset (t_bytes t)) \<and> fits u128_w (sum_mset (t_delayed t)) \<and> fits u128_w (sum_mset (t_buffered t))"

inductive tracked_step :: "tracked \<Rightarrow> congestion_op \<Rightarrow> tracked \<Rightarrow> bool" where
  add_b: "tracked_step t (AddBytes b) (t\<lparr>t_bytes := add_mset b (t_bytes t)\<rparr>)"
| rem_b: "b \<in># t_bytes t \<Longrightarrow> tracked_step t (RemoveBytes b) (t\<lparr>t_bytes := t_bytes t - {#b#}\<rparr>)"
| add_d: "tracked_step t (AddDelayed g) (t\<lparr>t_delayed := add_mset g (t_delayed t)\<rparr>)"
| rem_d: "g \<in># t_delayed t \<Longrightarrow> tracked_step t (RemoveDelayed g) (t\<lparr>t_delayed := t_delayed t - {#g#}\<rparr>)"
| add_f: "tracked_step t (AddBuffered g) (t\<lparr>t_buffered := add_mset g (t_buffered t)\<rparr>)"
| rem_f: "g \<in># t_buffered t \<Longrightarrow> tracked_step t (RemoveBuffered g) (t\<lparr>t_buffered := t_buffered t - {#g#}\<rparr>)"

inductive tracked_run :: "tracked \<Rightarrow> congestion_op list \<Rightarrow> tracked \<Rightarrow> bool" where
  run_nil: "tracked_run t [] t"
| run_cons: "tracked_step t a t' \<Longrightarrow> tracked_fits t' \<Longrightarrow> tracked_run t' as t'' \<Longrightarrow> tracked_run t (a # as) t''"

definition tracks :: "congestion_info \<Rightarrow> tracked \<Rightarrow> bool" where
  "tracks info t \<longleftrightarrow>
     receipt_bytes info = sum_mset (t_bytes t) \<and> delayed_receipts_gas info = sum_mset (t_delayed t) \<and>
     buffered_receipts_gas info = sum_mset (t_buffered t)"

lemmas counter_defs =
  add_receipt_bytes_def remove_receipt_bytes_def add_delayed_receipt_gas_def remove_delayed_receipt_gas_def
  add_buffered_receipt_gas_def remove_buffered_receipt_gas_def

lemmas info_field_defs =
  receipt_bytes_def delayed_receipts_gas_def buffered_receipts_gas_def allowed_shard_def

lemma sum_mset_remove1: "x \<in># M \<Longrightarrow> sum_mset (M - {#x#}) = sum_mset M - (x :: nat)"
  by (auto dest!: multi_member_split)

lemma sum_mset_mem_le: "x \<in># M \<Longrightarrow> x \<le> sum_mset (M :: nat multiset)"
  by (auto dest!: multi_member_split)

lemma apply_op_tracks:
  assumes "tracked_step t a t'" and "tracks info t" and "tracked_fits t'"
  shows "\<exists>info'. apply_op a info = Inr info' \<and> tracks info' t' \<and> allowed_shard info' = allowed_shard info"
  using assms
  by (cases info; cases rule: tracked_step.cases)
    (auto simp: counter_defs info_field_defs tracks_def tracked_fits_def checked_add_def checked_sub_def ok_or_def
      sum_mset_remove1 sum_mset_mem_le add.commute fits_def)

text \<open>
  C28: The three counters are the sums over the receipts stored: after any sequence of
  insertions and of removals of receipts that are stored, in which the sums fit their widths, every
  update has succeeded, the counters equal the sums and the allowed shard is unchanged.  In
  particular no removal underflows.
\<close>

theorem counters_track_receipts:
  assumes "tracked_run t as t'" and "tracks info t"
  shows "\<exists>info'. run_ops as info = Inr info' \<and> tracks info' t' \<and> allowed_shard info' = allowed_shard info"
  using assms
proof (induction arbitrary: info rule: tracked_run.induct)
  case (run_cons t a t' as t'')
  obtain i where "apply_op a info = Inr i" "tracks i t'" "allowed_shard i = allowed_shard info"
    using apply_op_tracks [OF run_cons.hyps(1) run_cons.prems run_cons.hyps(2)] by blast
  with run_cons.IH [of i] show ?case by auto
qed simp

theorem counters_track_receipts_witness:
  "run_ops [AddDelayed 5, AddBytes 7, AddDelayed 3, RemoveDelayed 5, RemoveBytes 7] congestion_info_default =
     Inr (CongestionInfoV1 \<lparr> v1_delayed_receipts_gas = 3, v1_buffered_receipts_gas = 0, v1_receipt_bytes = 0, v1_allowed_shard = 0 \<rparr>)"
proof -
  let ?t = "\<lambda>b d. \<lparr> t_bytes = b, t_delayed = d, t_buffered = {#} \<rparr>"
  have "tracked_run (?t {#} {#}) [AddDelayed 5, AddBytes 7, AddDelayed 3, RemoveDelayed 5, RemoveBytes 7] (?t {#} {#3#})"
    using tracked_step.intros(3) [of "?t {#} {#}" 5] tracked_step.intros(1) [of "?t {#} {#5#}" 7]
      tracked_step.intros(3) [of "?t {#7#} {#5#}" 3] tracked_step.intros(4) [of 5 "?t {#7#} {#3, 5#}"]
      tracked_step.intros(2) [of 7 "?t {#7#} {#3#}"]
    by (auto intro!: tracked_run.intros simp: tracked_fits_def fits_def)
  from counters_track_receipts [OF this, of congestion_info_default]
  obtain info' where "run_ops [AddDelayed 5, AddBytes 7, AddDelayed 3, RemoveDelayed 5, RemoveBytes 7] congestion_info_default = Inr info'"
    "tracks info' (?t {#} {#3#})" "allowed_shard info' = 0"
    by (auto simp: tracks_def congestion_info_default_def info_field_defs)
  then show ?thesis by (cases info') (auto simp: tracks_def info_field_defs)
qed

section \<open>Properties of levels and limits\<close>

text \<open>
  C26: The congestion level is defined and lies between 0 and 1 for a configuration with
  positive limits; it is 1, full congestion, when a counter has reached its limit; conversely full
  congestion means that a counter is within a relative distance of \<open>2 ^ -51\<close> of its limit, and that it
  has reached it when the limits are at most \<open>2 ^ 53\<close>.
\<close>

theorem congestion_level_bounds:
  assumes "config_ok (cc_config c)"
  shows "\<exists>l. congestion_level c = Some l \<and> 0 \<le> l \<and> l \<le> 1 \<and>
    (at_limit c \<longrightarrow> is_fully_congested l) \<and> (is_fully_congested l \<longrightarrow> near_limits c) \<and>
    (config_precise (cc_config c) \<longrightarrow> is_fully_congested l \<longrightarrow> at_limit c)"
  using congestion_level_ok [OF assms] unfolding level_ok_def is_fully_congested_def by blast

definition example_config :: congestion_control_config where
  "example_config = \<lparr>
     max_congestion_incoming_gas = 400 * 10 ^ 15, max_congestion_outgoing_gas = 10 * 10 ^ 15,
     max_congestion_memory_consumption = 1000000000, max_congestion_missed_chunks = 125,
     max_outgoing_gas = 300 * 10 ^ 15, min_outgoing_gas = 10 ^ 15, allowed_shard_outgoing_gas = 10 ^ 15,
     max_tx_gas = 500 * 10 ^ 12, min_tx_gas = 20 * 10 ^ 12, reject_tx_congestion_threshold = 4 / 5,
     outgoing_receipts_usual_size_limit = 102400, outgoing_receipts_big_size_limit = 4718592 \<rparr>"

definition example_control :: "nat \<Rightarrow> nat \<Rightarrow> congestion_control" where
  "example_control delayed missed =
     congestion_control_new example_config
       (CongestionInfoV1 \<lparr> v1_delayed_receipts_gas = delayed, v1_buffered_receipts_gas = 0, v1_receipt_bytes = 0, v1_allowed_shard = 3 \<rparr>)
       missed"

lemma example_config_ok [simp]: "config_ok (cc_config (example_control d m))"
  by (simp add: example_control_def congestion_control_new_def example_config_def config_ok_def)

theorem congestion_level_bounds_witness:
  "config_ok (cc_config (example_control 0 125)) \<and> (\<exists>l. congestion_level (example_control 0 125) = Some l \<and> is_fully_congested l)"
proof -
  have "at_limit (example_control 0 125)"
    by (simp add: example_control_def congestion_control_new_def example_config_def at_limit_def info_field_defs)
  then show ?thesis using congestion_level_bounds [OF example_config_ok, of 0 125] by auto
qed

text \<open>
  C27: The gas a sender may forward: at full congestion only the allowed shard may send, its
  fixed quota; below it every sender gets the linear interpolation between the maximum and the
  minimum at the congestion level, up to a relative rounding error of \<open>2 ^ -50\<close> and half a unit.
\<close>

theorem outgoing_gas_limit_interpolates:
  assumes "config_ok (cc_config c)"
    and "max_outgoing_gas (cc_config c) \<le> 2 ^ 60" and "min_outgoing_gas (cc_config c) \<le> 2 ^ 60"
  shows "\<exists>l g. congestion_level c = Some l \<and> outgoing_gas_limit sender c = Some g \<and>
    (if is_fully_congested l then
       g = (if sender = allowed_shard (cc_info c) then allowed_shard_outgoing_gas (cc_config c) else 0)
     else
       \<bar>of_nat g - (of_nat (max_outgoing_gas (cc_config c)) * (1 - l) + of_nat (min_outgoing_gas (cc_config c)) * l)\<bar>
       \<le> of_nat (max_outgoing_gas (cc_config c) + min_outgoing_gas (cc_config c)) / 2 ^ 50 + 1 / 2)"
proof -
  obtain l where l: "congestion_level c = Some l" "0 \<le> l" "l \<le> 1"
    using congestion_level_ok [OF assms(1)] by (auto simp: level_ok_def)
  show ?thesis using mix_error [OF l(2,3) assms(2,3)] l(1)
    by (cases "is_fully_congested l") (simp_all add: outgoing_gas_limit_def)
qed

theorem outgoing_gas_limit_interpolates_witness:
  "outgoing_gas_limit 3 (example_control (400 * 10 ^ 15) 0) = Some (10 ^ 15) \<and>
   outgoing_gas_limit 2 (example_control (400 * 10 ^ 15) 0) = Some 0"
proof -
  have "at_limit (example_control (400 * 10 ^ 15) 0)"
    by (simp add: example_control_def congestion_control_new_def example_config_def at_limit_def info_field_defs)
  then have full: "\<exists>l. congestion_level (example_control (400 * 10 ^ 15) 0) = Some l \<and> is_fully_congested l"
    using congestion_level_ok [OF example_config_ok, of "400 * 10 ^ 15" 0] by (auto simp: level_ok_def is_fully_congested_def)
  have cfg: "max_outgoing_gas (cc_config (example_control (400 * 10 ^ 15) 0)) \<le> 2 ^ 60"
    "min_outgoing_gas (cc_config (example_control (400 * 10 ^ 15) 0)) \<le> 2 ^ 60"
    "allowed_shard_outgoing_gas (cc_config (example_control (400 * 10 ^ 15) 0)) = 10 ^ 15"
    "allowed_shard (cc_info (example_control (400 * 10 ^ 15) 0)) = 3"
    by (simp_all add: example_control_def congestion_control_new_def example_config_def info_field_defs)
  show ?thesis
    using outgoing_gas_limit_interpolates [OF example_config_ok cfg(1,2), of 3]
      outgoing_gas_limit_interpolates [OF example_config_ok cfg(1,2), of 2] full cfg(3,4)
    by auto
qed

lemma mod_window_ex1:
  assumes "i < (n :: nat)"
  shows "\<exists>!s. s0 \<le> s \<and> s < s0 + n \<and> s mod n = i"
proof -
  have inj: "s = s'" if "s0 \<le> s" "s < s0 + n" "s0 \<le> s'" "s' < s0 + n" "s mod n = s' mod n" for s s'
  proof -
    have "(s - s') mod n = 0" "(s' - s) mod n = 0" using that(5)
      by (metis diff_is_0_eq mod_0 mod_eq_dvd_iff_nat nat_le_linear dvd_imp_mod_0)+
    then have "n dvd s - s'" "n dvd s' - s" by (simp_all add: mod_eq_0_iff_dvd)
    moreover have "s - s' < n" "s' - s < n" using that by linarith+
    ultimately have "s - s' = 0" "s' - s = 0" by (metis dvd_imp_le leD neq0_conv)+
    then show ?thesis by simp
  qed
  define d where "d = (i + n - s0 mod n) mod n"
  have "s0 mod n < n" using assms by simp
  then have "(s0 + (i + n - s0 mod n)) mod n = (s0 mod n + (i + n - s0 mod n)) mod n"
    by (simp only: mod_add_left_eq)
  also have "s0 mod n + (i + n - s0 mod n) = i + n" using \<open>s0 mod n < n\<close> by simp
  also have "(i + n) mod n = i" using assms by simp
  finally have "(s0 + d) mod n = i" by (simp only: d_def mod_add_right_eq)
  moreover have "d < n" using assms by (simp add: d_def)
  ultimately show ?thesis using inj by (intro ex1I [of _ "s0 + d"]) auto
qed

lemma get_new_allowed_shard_eq:
  assumes "distinct all_shards" and "i < length all_shards"
  shows "get_new_allowed_shard own all_shards s = Some (all_shards ! i) \<longleftrightarrow> s mod length all_shards = i"
proof -
  have "s mod length all_shards < length all_shards" using assms(2) by (intro mod_less_divisor) linarith
  then show ?thesis using assms by (auto simp: get_new_allowed_shard_def vec_get_def nth_eq_iff_index_eq)
qed

text \<open>
  The choice of the allowed shard is fair: among the seeds of any window as long as the
  list of shards, every shard of the list is chosen exactly once.  With the block height as the seed
  every sender can make progress towards a fully congested shard.
\<close>

theorem allowed_shard_rotates:
  assumes "distinct all_shards" and "sid \<in> set all_shards"
  shows "\<exists>!s. s0 \<le> s \<and> s < s0 + length all_shards \<and> get_new_allowed_shard own all_shards s = Some sid"
proof -
  obtain i where i: "i < length all_shards" "sid = all_shards ! i" using assms(2) by (auto simp: in_set_conv_nth)
  show ?thesis unfolding i(2) get_new_allowed_shard_eq [OF assms(1) i(1)] by (rule mod_window_ex1 [OF i(1)])
qed

theorem allowed_shard_rotates_witness:
  "\<exists>!s. 100 \<le> s \<and> s < 103 \<and> get_new_allowed_shard 4 [0, 3, 4] s = Some 3"
  using allowed_shard_rotates [of "[0, 3, 4]" 3 100 4] by simp

text \<open>
  A shard rejects new transactions exactly when its congestion level has reached the
  threshold, and the reason given names a component that attains the level: the number of missed
  chunks only when that component is the largest, otherwise one of the three other components.
\<close>

theorem shard_accepts_txs_threshold:
  assumes "config_ok (cc_config c)"
  shows "\<exists>l r. congestion_level c = Some l \<and> shard_accepts_txs c = Some r \<and>
    (is_no r \<longleftrightarrow> reject_tx_congestion_threshold (cc_config c) \<le> l) \<and>
    (case r of
       AcceptsYes \<Rightarrow> True
     | AcceptsNo (MissedChunks n) \<Rightarrow> n = cc_missed_chunks_count c \<and> missed_chunks_congestion c = Some l
     | AcceptsNo (IncomingCongestion q) \<Rightarrow> q = l \<and> incoming_congestion c = Some l
     | AcceptsNo (OutgoingCongestion q) \<Rightarrow> q = l \<and> outgoing_congestion c = Some l
     | AcceptsNo (MemoryCongestion q) \<Rightarrow> q = l \<and> memory_congestion c = Some l)"
proof -
  obtain i u m k where cmp: "incoming_congestion c = Some i" "outgoing_congestion c = Some u"
    "memory_congestion c = Some m" "missed_chunks_congestion c = Some k" by (rule components_ok [OF assms])
  show ?thesis
    by (simp add: congestion_level_def shard_accepts_txs_def cmp is_no_def is_yes_def Let_def max_def not_less)
qed

theorem shard_accepts_txs_threshold_witness:
  "shard_accepts_txs (example_control 0 125) = Some (AcceptsNo (MissedChunks 125))"
proof -
  have "at_limit (example_control 0 125)"
    by (simp add: example_control_def congestion_control_new_def example_config_def at_limit_def info_field_defs)
  then have l: "congestion_level (example_control 0 125) = Some 1"
    using congestion_level_ok [OF example_config_ok, of 0 125] by (auto simp: level_ok_def)
  have z: "incoming_congestion (example_control 0 125) = Some 0" "outgoing_congestion (example_control 0 125) = Some 0"
    "memory_congestion (example_control 0 125) = Some 0"
    "reject_tx_congestion_threshold (cc_config (example_control 0 125)) = 4 / 5"
    "cc_missed_chunks_count (example_control 0 125) = 125"
    by (simp_all add: example_control_def congestion_control_new_def example_config_def info_field_defs
        incoming_congestion_def info_incoming_congestion_def outgoing_congestion_def info_outgoing_congestion_def
        memory_congestion_def info_memory_congestion_def clamped_f64_fraction_def f64_of_nat_def f64_div_def)
  obtain r where r: "shard_accepts_txs (example_control 0 125) = Some r" "is_no r"
    "case r of
       AcceptsYes \<Rightarrow> True
     | AcceptsNo (MissedChunks n) \<Rightarrow> n = 125 \<and> missed_chunks_congestion (example_control 0 125) = Some 1
     | AcceptsNo (IncomingCongestion q) \<Rightarrow> q = 1 \<and> Some 0 = Some (1 :: rat)
     | AcceptsNo (OutgoingCongestion q) \<Rightarrow> q = 1 \<and> Some 0 = Some (1 :: rat)
     | AcceptsNo (MemoryCongestion q) \<Rightarrow> q = 1 \<and> Some 0 = Some (1 :: rat)"
    using shard_accepts_txs_threshold [OF example_config_ok, of 0 125] unfolding l z by auto
  obtain x where x: "r = AcceptsNo x" using r(2) by (cases r) (simp_all add: is_no_def is_yes_def)
  show ?thesis using r(1,3) unfolding x by (cases x) simp_all
qed

section \<open>Two effects of double precision\<close>

lemma rnd_via_exponent:
  assumes "2 powi e \<le> x" and "x < 2 powi (e + 1)"
  shows "rnd x = of_int (round_even (x * 2 powi (52 - e))) * 2 powi (e - 52)"
proof -
  have "0 < x" using assms(1) powi_pos [of e] by (meson less_le_trans)
  then show ?thesis using exponent_unique [OF assms] by (simp add: rnd_pos_eq)
qed

text \<open>An interpolation between two equal values can leave them: the conversion of the ends rounds.\<close>

theorem mix_leaves_bounds: "mix (2 ^ 53 + 3) (2 ^ 53 + 3) 0 = 2 ^ 53 + 4"
proof -
  have [simp]: "\<lfloor>9007199254740995 / 2 :: rat\<rfloor> = 4503599627370497" "\<lfloor>18014398509481993 / 2 :: rat\<rfloor> = 9007199254740996"
    by (rule floor_unique; simp)+
  have "f64_of_nat (2 ^ 53 + 3) = 2 ^ 53 + 4"
    unfolding f64_of_nat_def
    by (subst rnd_via_exponent [of 53]) (simp_all add: power_int_minus round_even_def Let_def)
  moreover have "rnd (2 ^ 53 + 4) = 2 ^ 53 + 4"
    by (subst rnd_via_exponent [of 53]) (simp_all add: power_int_minus round_even_def Let_def)
  ultimately show ?thesis
    by (simp add: mix_def f64_mul_def f64_sub_def f64_add_def f64_round_as_u64_def int_max_def)
qed

text \<open>A counter one unit below the limit of the incoming gas already counts as full congestion.\<close>

theorem full_congestion_below_limit: "clamped_f64_fraction (400 * 10 ^ 15 - 1) (400 * 10 ^ 15) = Some 1"
proof -
  have [simp]: "\<lfloor>399999999999999999 / 64 :: rat\<rfloor> = 6249999999999999" by (rule floor_unique) simp_all
  have "f64_of_nat (400 * 10 ^ 15 - 1) = 400 * 10 ^ 15"
    unfolding f64_of_nat_def
    by (subst rnd_via_exponent [of 58]) (simp_all add: power_int_minus round_even_def Let_def)
  moreover have "f64_of_nat (400 * 10 ^ 15) = 400 * 10 ^ 15"
    unfolding f64_of_nat_def
    by (subst rnd_via_exponent [of 58]) (simp_all add: power_int_minus round_even_def Let_def)
  ultimately show ?thesis by (simp add: clamped_f64_fraction_def f64_div_def)
qed

end
