(* ===== verification/Rust_Bits.thy ===== *)
theory Rust_Bits
  imports Rust_Prelude "HOL-Library.Log_Nat"
begin

text \<open>
  The bit-level integer functions of Rust's standard library that the components use, on
  naturals: \<open>count_ones\<close>, \<open>trailing_zeros\<close>, \<open>ilog2\<close> and \<open>next_power_of_two\<close>, which panics when
  the power does not fit the width.
\<close>

section \<open>Definitions\<close>

fun count_ones :: "nat \<Rightarrow> nat" where
  "count_ones n = (if n = 0 then 0 else n mod 2 + count_ones (n div 2))"

declare count_ones.simps [simp del]

text \<open>The argument 0, for which Rust gives the width, does not occur.\<close>

fun trailing_zeros :: "nat \<Rightarrow> nat" where
  "trailing_zeros n = (if n = 0 \<or> odd n then 0 else 1 + trailing_zeros (n div 2))"

declare trailing_zeros.simps [simp del]

definition ilog2 :: "nat \<Rightarrow> nat option" where
  "ilog2 n = (if n = 0 then None else Some (floorlog 2 n - 1))"

definition next_power_of_two :: "nat \<Rightarrow> nat \<Rightarrow> nat option" where
  "next_power_of_two w n = (let p = 2 ^ ceillog2 n in if p < 2 ^ w then Some p else None)"

section \<open>Lemmas\<close>

lemma count_ones_0 [simp]: "count_ones 0 = 0"
  by (simp add: count_ones.simps)

lemma count_ones_step: "0 < n \<Longrightarrow> count_ones n = n mod 2 + count_ones (n div 2)"
  by (subst count_ones.simps) simp

lemma count_ones_pos: "0 < n \<Longrightarrow> 0 < count_ones n"
proof (induction n rule: less_induct)
  case (less n)
  then show ?case
    by (cases "odd n") (auto simp: count_ones_step [of n] odd_iff_mod_2_eq_one elim!: evenE)
qed

lemma trailing_zeros_odd [simp]: "odd n \<Longrightarrow> trailing_zeros n = 0"
  by (subst trailing_zeros.simps) simp

lemma trailing_zeros_even: "even n \<Longrightarrow> 0 < n \<Longrightarrow> trailing_zeros n = Suc (trailing_zeros (n div 2))"
  by (subst trailing_zeros.simps) simp

lemma ilog2_power [simp]: "ilog2 (2 ^ k) = Some k"
  using floorlog_power [of 1 2 k] by (simp add: ilog2_def floorlog_def)

lemma next_power_of_two_Some:
  "next_power_of_two w n = Some p \<longleftrightarrow> p = 2 ^ ceillog2 n \<and> ceillog2 n < w"
  by (auto simp: next_power_of_two_def Let_def)

lemma le_power_ceillog2: "n \<le> 2 ^ ceillog2 n"
  by (cases "n = 0") (simp_all flip: ceillog2_le_iff)

lemma xor_1_nat: "xor (n :: nat) 1 = (if even n then n + 1 else n - 1)"
  using xor_Suc_0_eq [of n] by simp

end
