(* ===== verification/Crypto_Hash.thy ===== *)
theory Crypto_Hash
  imports Rust_Bits Shard_Layout
begin

text \<open>
  Hashes (\<open>core/primitives-core/src/hash.rs\<close>).  A hash is the list of its 32 bytes.  SHA-256 and
  the Borsh encoding of the hashed type are parameters: \<open>sha\<close> maps the bytes fed to the hasher to the
  digest, \<open>ser\<close> a value to its encoding.  What is used of \<open>sha\<close> is that its digests have 32 bytes.
\<close>

section \<open>Definitions\<close>

type_synonym crypto_hash = "byte list"

type_synonym sha256 = "byte list \<Rightarrow> byte list"

definition crypto_hash_length :: nat where
  "crypto_hash_length = 32"

definition crypto_hash_new :: crypto_hash where
  "crypto_hash_new = replicate crypto_hash_length 0"

definition hash_bytes :: "sha256 \<Rightarrow> byte list \<Rightarrow> crypto_hash" where
  "hash_bytes sha bytes = sha bytes"

definition hash_borsh :: "sha256 \<Rightarrow> ('a \<Rightarrow> byte list) \<Rightarrow> 'a \<Rightarrow> crypto_hash" where
  "hash_borsh sha ser v = sha (ser v)"

text \<open>The little-endian bytes of a number.\<close>

fun le_bytes :: "nat \<Rightarrow> nat \<Rightarrow> byte list" where
  "le_bytes 0 n = []"
| "le_bytes (Suc k) n = of_nat n # le_bytes k (n div 256)"

text \<open>The encoding of a slice: its length in four bytes, then the elements.\<close>

definition hash_borsh_iter :: "sha256 \<Rightarrow> ('a \<Rightarrow> byte list) \<Rightarrow> 'a list \<Rightarrow> crypto_hash option" where
  "hash_borsh_iter sha ser vs =
     do {
       assert (fits u32_w (length vs));
       Some (sha (le_bytes 4 (length vs) @ concat (map ser vs)))
     }"

section \<open>Hypotheses and lemmas\<close>

definition digest_32 :: "sha256 \<Rightarrow> bool" where
  "digest_32 sha \<longleftrightarrow> (\<forall>b. length (sha b) = crypto_hash_length)"

lemma hash_new_length [simp]: "length crypto_hash_new = crypto_hash_length"
  by (simp add: crypto_hash_new_def)

text \<open>A concrete function with digests of 32 bytes, for examples.\<close>

definition toy_sha :: sha256 where
  "toy_sha b = take 32 (b @ replicate 32 0)"

lemma toy_sha_32: "digest_32 toy_sha"
  by (simp add: digest_32_def toy_sha_def crypto_hash_length_def min_def)

end
