(* ===== verification/Merkle.thy ===== *)
theory Merkle
  imports Crypto_Hash
begin

text \<open>
  Merkle trees (\<open>core/primitives/src/merkle.rs\<close>): the tree over an array with the paths of all its
  items, the verification of a path with and without the index of the item, and the partial tree that
  keeps only the path of the next leaf.  Lengths of arrays are below \<open>2 ^ 63\<close>, so the index arithmetic
  does not overflow.
\<close>

section \<open>Definitions\<close>

type_synonym merkle_hash = crypto_hash

datatype direction = Left | Right

record merkle_path_item =
  item_hash :: merkle_hash
  item_direction :: direction

type_synonym merkle_path = "merkle_path_item list"

abbreviation path_item :: "merkle_hash \<Rightarrow> direction \<Rightarrow> merkle_path_item" where
  "path_item h d \<equiv> \<lparr> item_hash = h, item_direction = d \<rparr>"

definition combine_hash :: "sha256 \<Rightarrow> merkle_hash \<Rightarrow> merkle_hash \<Rightarrow> merkle_hash" where
  "combine_hash sha hash1 hash2 = hash_borsh sha (\<lambda>(a, b). a @ b) (hash1, hash2)"

subsection \<open>The tree over an array\<close>

text \<open>The paths with the siblings of the lowest level.\<close>

definition initial_path :: "merkle_hash list \<Rightarrow> nat \<Rightarrow> nat \<Rightarrow> merkle_path option" where
  "initial_path hashes arr_len i =
     (if i mod 2 = 0 then
        if i + 1 < arr_len then do { h \<leftarrow> vec_get hashes (i + 1); Some [path_item h Right] }
        else Some []
      else do { h \<leftarrow> vec_get hashes (i - 1); Some [path_item h Left] })"

text \<open>The innermost loop: one item for all leaves of a block of \<open>counter\<close> leaves.\<close>

definition push_block :: "nat \<Rightarrow> nat \<Rightarrow> nat \<Rightarrow> merkle_path_item \<Rightarrow> merkle_path list \<Rightarrow> merkle_path list option" where
  "push_block n block counter item =
     fold_opt (\<lambda>j paths.
         let index = block * counter + j in
         if index < n then do { p \<leftarrow> vec_get paths index; vec_set paths index (p @ [item]) }
         else Some paths)
       [0..<counter]"

definition merklize_node ::
  "sha256 \<Rightarrow> nat \<Rightarrow> nat \<Rightarrow> nat \<Rightarrow> nat \<Rightarrow> nat \<Rightarrow> merkle_hash list \<times> merkle_path list \<Rightarrow>
   (merkle_hash list \<times> merkle_path list) option" where
  "merklize_node sha n len arr_len counter i s =
     (case s of (hashes, paths) \<Rightarrow>
        if 2 * i \<ge> arr_len then Some (hashes, paths)
        else do {
          hash \<leftarrow> (if 2 * i + 1 \<ge> arr_len then vec_get hashes (2 * i)
                   else do {
                     a \<leftarrow> vec_get hashes (2 * i);
                     b \<leftarrow> vec_get hashes (2 * i + 1);
                     Some (combine_hash sha a b)
                   });
          hashes \<leftarrow> vec_set hashes i hash;
          paths \<leftarrow> (if len > 1 then
                     if i mod 2 = 0 then push_block n (i + 1) counter (path_item hash Left) paths
                     else push_block n (i - 1) counter (path_item hash Right) paths
                   else Some paths);
          Some (hashes, paths)
        })"

function merklize_loop ::
  "sha256 \<Rightarrow> nat \<Rightarrow> nat \<Rightarrow> nat \<Rightarrow> nat \<Rightarrow> merkle_hash list \<times> merkle_path list \<Rightarrow>
   (merkle_hash list \<times> merkle_path list) option" where
  "merklize_loop sha n len arr_len counter s =
     (if len > 1 then
        do {
          s \<leftarrow> fold_opt (merklize_node sha n (len div 2) arr_len (counter * 2)) [0..<len div 2] s;
          merklize_loop sha n (len div 2) ((arr_len + 1) div 2) (counter * 2) s
        }
      else Some s)"
  by auto
termination by (relation "measure (\<lambda>(sha, n, len, _). len)") auto

declare merklize_loop.simps [simp del]

definition merklize :: "sha256 \<Rightarrow> ('a \<Rightarrow> byte list) \<Rightarrow> 'a list \<Rightarrow> (merkle_hash \<times> merkle_path list) option" where
  "merklize sha ser arr =
     (if arr = [] then Some (crypto_hash_new, [])
      else do {
        len \<leftarrow> next_power_of_two u64_w (length arr);
        let hashes = map (hash_borsh sha ser) arr;
        if len = 1 then do { h \<leftarrow> vec_get hashes 0; Some (h, [[]]) }
        else do {
          let arr_len = length arr;
          paths \<leftarrow> those (map (initial_path hashes arr_len) [0..<arr_len]);
          (hashes, paths) \<leftarrow> merklize_loop sha (length arr) len arr_len 1 (hashes, paths);
          h \<leftarrow> vec_get hashes 0;
          Some (h, paths)
        }
      })"

subsection \<open>Verification of paths\<close>

fun compute_root_from_path :: "sha256 \<Rightarrow> merkle_path \<Rightarrow> merkle_hash \<Rightarrow> merkle_hash" where
  "compute_root_from_path sha [] res = res"
| "compute_root_from_path sha (item # path) res =
     compute_root_from_path sha path
       (case item_direction item of
          Left \<Rightarrow> combine_hash sha (item_hash item) res
        | Right \<Rightarrow> combine_hash sha res (item_hash item))"

definition compute_root_from_path_and_item :: "sha256 \<Rightarrow> ('a \<Rightarrow> byte list) \<Rightarrow> merkle_path \<Rightarrow> 'a \<Rightarrow> merkle_hash" where
  "compute_root_from_path_and_item sha ser path item = compute_root_from_path sha path (hash_borsh sha ser item)"

definition verify_hash :: "sha256 \<Rightarrow> merkle_hash \<Rightarrow> merkle_path \<Rightarrow> merkle_hash \<Rightarrow> bool" where
  "verify_hash sha root_hash path h \<longleftrightarrow> compute_root_from_path sha path h = root_hash"

definition verify_path :: "sha256 \<Rightarrow> ('a \<Rightarrow> byte list) \<Rightarrow> merkle_hash \<Rightarrow> merkle_path \<Rightarrow> 'a \<Rightarrow> bool" where
  "verify_path sha ser root_hash path item \<longleftrightarrow> verify_hash sha root_hash path (hash_borsh sha ser item)"

text \<open>The loop over the levels \<open>k\<close>; \<open>None\<close> is the early return of \<open>false\<close>.\<close>

definition match_level :: "merkle_path \<Rightarrow> nat \<Rightarrow> nat \<Rightarrow> nat \<Rightarrow> nat \<Rightarrow> nat option" where
  "match_level path part_idx num_merklized_parts k used =
     (let block = drop_bit k part_idx;
          sibling_block = xor block 1;
          sibling_leaf_start_index = cast u64_w (push_bit k sibling_block)
      in if sibling_leaf_start_index < num_merklized_parts then
           do {
             item \<leftarrow> vec_get path used;
             let expected = (if and (drop_bit k part_idx) 1 = 0 then Right else Left);
             if item_direction item \<noteq> expected then None else Some (used + 1)
           }
         else Some used)"

text \<open>The outer \<open>option\<close> is the panic of \<open>next_power_of_two\<close>.\<close>

definition verify_path_matches_index :: "merkle_path \<Rightarrow> nat \<Rightarrow> nat \<Rightarrow> bool option" where
  "verify_path_matches_index path part_idx num_merklized_parts =
     (if part_idx \<ge> num_merklized_parts then Some False
      else do {
        p \<leftarrow> next_power_of_two u64_w num_merklized_parts;
        height \<leftarrow> ilog2 p;
        Some (case fold_opt (match_level path part_idx num_merklized_parts) [0..<height] 0 of
                None \<Rightarrow> False
              | Some used \<Rightarrow> used = length path)
      })"

definition verify_path_with_index ::
  "sha256 \<Rightarrow> ('a \<Rightarrow> byte list) \<Rightarrow> merkle_hash \<Rightarrow> merkle_path \<Rightarrow> 'a \<Rightarrow> nat \<Rightarrow> nat \<Rightarrow> bool option" where
  "verify_path_with_index sha ser root_hash path item part_idx num_merklized_parts =
     do {
       ok \<leftarrow> verify_path_matches_index path part_idx num_merklized_parts;
       Some (ok \<and> verify_path sha ser root_hash path item)
     }"

subsection \<open>The partial tree\<close>

record partial_merkle_tree =
  pmt_path :: "merkle_hash list"
  pmt_size :: nat

definition partial_merkle_tree_default :: partial_merkle_tree where
  "partial_merkle_tree_default = \<lparr> pmt_path = [], pmt_size = 0 \<rparr>"

definition is_well_formed :: "partial_merkle_tree \<Rightarrow> bool" where
  "is_well_formed t \<longleftrightarrow> length (pmt_path t) = count_ones (pmt_size t)"

definition pmt_root :: "sha256 \<Rightarrow> partial_merkle_tree \<Rightarrow> merkle_hash" where
  "pmt_root sha t =
     (if pmt_path t = [] then crypto_hash_new
      else fold (\<lambda>h res. combine_hash sha h res) (rev (butlast (pmt_path t))) (last (pmt_path t)))"

fun pmt_insert_loop :: "sha256 \<Rightarrow> nat \<Rightarrow> merkle_hash list \<Rightarrow> merkle_hash \<Rightarrow> (merkle_hash list \<times> merkle_hash) option" where
  "pmt_insert_loop sha s path node =
     (if s mod 2 = 1 then
        if path = [] then None
        else pmt_insert_loop sha (s div 2) (butlast path) (combine_hash sha (last path) node)
      else Some (path, node))"

declare pmt_insert_loop.simps [simp del]

definition pmt_insert :: "sha256 \<Rightarrow> merkle_hash \<Rightarrow> partial_merkle_tree \<Rightarrow> partial_merkle_tree option" where
  "pmt_insert sha elem t =
     do {
       (path, node) \<leftarrow> pmt_insert_loop sha (pmt_size t) (pmt_path t) elem;
       size \<leftarrow> checked_add u64_w (pmt_size t) 1;
       Some \<lparr> pmt_path = path @ [node], pmt_size = size \<rparr>
     }"

text \<open>The calls made by \<open>iter_path_from_bottom\<close>, in order, over the reversed path.\<close>

fun iter_nodes :: "merkle_hash list \<Rightarrow> nat \<Rightarrow> nat \<Rightarrow> (merkle_hash \<times> nat) list" where
  "iter_nodes [] level index = []"
| "iter_nodes (node # nodes) level index =
     (if index = 0 then []
      else let tz = trailing_zeros index
           in (node, level + tz) # iter_nodes nodes (level + tz) (drop_bit tz index - 1))"

definition iter_path_from_bottom :: "partial_merkle_tree \<Rightarrow> (merkle_hash \<times> nat) list" where
  "iter_path_from_bottom t = iter_nodes (rev (pmt_path t)) 0 (pmt_size t)"

section \<open>The reference tree\<close>

text \<open>One level up: neighbours are combined, an odd last node moves up unchanged.\<close>

fun parents :: "sha256 \<Rightarrow> merkle_hash list \<Rightarrow> merkle_hash list" where
  "parents sha (a # b # hs) = combine_hash sha a b # parents sha hs"
| "parents sha hs = hs"

definition lev :: "sha256 \<Rightarrow> merkle_hash list \<Rightarrow> nat \<Rightarrow> merkle_hash list" where
  "lev sha hs k = (parents sha ^^ k) hs"

definition sibling :: "nat \<Rightarrow> nat" where
  "sibling b = (if even b then b + 1 else b - 1)"

definition step_direction :: "nat \<Rightarrow> direction" where
  "step_direction b = (if even b then Right else Left)"

text \<open>The item of the path of leaf \<open>idx\<close> at level \<open>j\<close>, when the sibling exists.\<close>

definition level_item :: "sha256 \<Rightarrow> merkle_hash list \<Rightarrow> nat \<Rightarrow> nat \<Rightarrow> merkle_path" where
  "level_item sha hs idx j =
     (let b = idx div 2 ^ j in
      if sibling b < length (lev sha hs j) then [path_item (lev sha hs j ! sibling b) (step_direction b)] else [])"

definition ref_path :: "sha256 \<Rightarrow> merkle_hash list \<Rightarrow> nat \<Rightarrow> nat \<Rightarrow> merkle_path" where
  "ref_path sha hs k idx = concat (map (level_item sha hs idx) [0..<k])"

function ref_root :: "sha256 \<Rightarrow> merkle_hash list \<Rightarrow> merkle_hash" where
  "ref_root sha hs =
     (if hs = [] then crypto_hash_new else if length hs = 1 then hd hs else ref_root sha (parents sha hs))"
  by auto
termination
proof (relation "measure (\<lambda>(sha, hs). length hs)")
  fix sha :: sha256 and hs :: "merkle_hash list"
  have "length (parents sha xs) \<le> length xs" for xs by (induction sha xs rule: parents.induct) simp_all
  then have le: "length (parents sha xs) \<le> length xs" for xs .
  assume "hs \<noteq> []" "length hs \<noteq> 1"
  then show "((sha, parents sha hs), sha, hs) \<in> measure (\<lambda>(sha, hs). length hs)"
    by (cases "(sha, hs)" rule: parents.cases) (auto simp: less_Suc_eq_le intro: le_trans [OF le])
qed simp

declare ref_root.simps [simp del]

section \<open>Lemmas on levels\<close>

lemma combine_eq: "combine_hash sha a b = sha (a @ b)"
  by (simp add: combine_hash_def hash_borsh_def)

lemma parents_length [simp]: "length (parents sha hs) = (length hs + 1) div 2"
  by (induction sha hs rule: parents.induct) simp_all

lemma parents_nth:
  "i < (length hs + 1) div 2 \<Longrightarrow>
   parents sha hs ! i = (if 2 * i + 1 < length hs then combine_hash sha (hs ! (2 * i)) (hs ! (2 * i + 1)) else hs ! (2 * i))"
proof (induction sha hs arbitrary: i rule: parents.induct)
  case (1 sha a b hs)
  then show ?case by (cases i) simp_all
qed simp_all

lemma lev_0 [simp]: "lev sha hs 0 = hs"
  by (simp add: lev_def)

lemma lev_Suc: "lev sha hs (Suc k) = parents sha (lev sha hs k)"
  by (simp add: lev_def)

lemma half_up_iff: "i < (m + 1) div 2 \<longleftrightarrow> 2 * i < (m :: nat)"
  by auto

lemma lev_length_iff: "i < length (lev sha hs k) \<longleftrightarrow> i * 2 ^ k < length hs"
proof (induction k arbitrary: i)
  case (Suc k)
  have "i < length (lev sha hs (Suc k)) \<longleftrightarrow> 2 * i < length (lev sha hs k)"
    unfolding lev_Suc parents_length half_up_iff ..
  also have "\<dots> \<longleftrightarrow> i * 2 ^ Suc k < length hs" unfolding Suc by (simp add: mult.assoc mult.left_commute)
  finally show ?case .
qed simp

lemma lev_length_le: "length (lev sha hs k) \<le> length hs"
proof (rule ccontr)
  assume "\<not> length (lev sha hs k) \<le> length hs"
  then have "length hs * 2 ^ k < length hs" unfolding lev_length_iff [of "length hs" sha hs k, symmetric] by simp
  then show False by simp
qed

lemma sibling_sibling [simp]: "sibling (sibling b) = b"
  by (auto simp: sibling_def)

lemma sibling_eq_iff: "sibling b = i \<longleftrightarrow> b = sibling i"
  by auto

lemma step_direction_sibling: "step_direction (sibling b) = (if even b then Left else Right)"
  by (simp add: step_direction_def sibling_def)

lemma lev_nth_Suc:
  assumes "b < length (lev sha hs k)"
  shows "lev sha hs (Suc k) ! (b div 2) =
    (if sibling b < length (lev sha hs k) then
       case step_direction b of
         Left \<Rightarrow> combine_hash sha (lev sha hs k ! sibling b) (lev sha hs k ! b)
       | Right \<Rightarrow> combine_hash sha (lev sha hs k ! b) (lev sha hs k ! sibling b)
     else lev sha hs k ! b)"
proof -
  have "b div 2 < (length (lev sha hs k) + 1) div 2" using assms by simp
  then show ?thesis using assms
    by (cases "even b") (auto simp: lev_Suc parents_nth sibling_def step_direction_def elim!: oddE evenE)
qed

lemma compute_root_append:
  "compute_root_from_path sha (p @ q) h = compute_root_from_path sha q (compute_root_from_path sha p h)"
  by (induction p arbitrary: h) simp_all

lemma ref_path_Suc: "ref_path sha hs (Suc k) idx = ref_path sha hs k idx @ level_item sha hs idx k"
  by (simp add: ref_path_def)

lemma ref_path_root:
  assumes "idx < length hs"
  shows "compute_root_from_path sha (ref_path sha hs k idx) (hs ! idx) = lev sha hs k ! (idx div 2 ^ k)"
proof (induction k)
  case (Suc k)
  have "idx div 2 ^ k * 2 ^ k < length hs" using assms by (meson div_times_less_eq_dividend le_less_trans)
  then have b: "idx div 2 ^ k < length (lev sha hs k)" by (simp add: lev_length_iff)
  have "idx div 2 ^ Suc k = idx div 2 ^ k div 2" unfolding power_Suc2 by (rule div_mult2_eq)
  then show ?case
    using lev_nth_Suc [OF b] Suc
    by (simp add: ref_path_Suc compute_root_append level_item_def Let_def split: direction.split)
qed (simp add: ref_path_def)

lemma ref_root_single [simp]: "ref_root sha [h] = h"
  by (subst ref_root.simps) simp

lemma ref_root_parents: "hs \<noteq> [] \<Longrightarrow> ref_root sha (parents sha hs) = ref_root sha hs"
proof (cases "length hs = 1")
  case True
  then obtain h where "hs = [h]" by (auto simp: length_Suc_conv)
  then show ?thesis by simp
next
  case False
  assume "hs \<noteq> []"
  with False show ?thesis by (subst (2) ref_root.simps) simp
qed

lemma lev_nonempty: "hs \<noteq> [] \<Longrightarrow> lev sha hs k \<noteq> []"
  using lev_length_iff [of 0 sha hs k] by auto

lemma ref_root_lev: "hs \<noteq> [] \<Longrightarrow> ref_root sha (lev sha hs k) = ref_root sha hs"
  by (induction k) (simp_all add: lev_Suc ref_root_parents lev_nonempty)

lemma lev_top:
  assumes "hs \<noteq> []" and "length hs \<le> 2 ^ k"
  shows "lev sha hs k = [ref_root sha hs]"
proof -
  have "\<not> 1 < length (lev sha hs k)" using assms(2) lev_length_iff [of 1 sha hs k] by simp
  then have "length (lev sha hs k) = 1" using lev_nonempty [OF assms(1), of sha k] by (cases "lev sha hs k") auto
  then obtain h where h: "lev sha hs k = [h]" by (auto simp: length_Suc_conv)
  with ref_root_lev [OF assms(1), of sha k] show ?thesis by simp
qed

section \<open>The computation of the tree\<close>

lemma push_block_ok:
  assumes "length paths = n"
  shows "\<exists>paths'. push_block n block counter item paths = Some paths' \<and> length paths' = n \<and>
    (\<forall>x < n. paths' ! x = paths ! x @ (if block * counter \<le> x \<and> x < block * counter + counter then [item] else []))"
proof -
  define P where "P j ps \<longleftrightarrow> length ps = n \<and>
    (\<forall>x < n. ps ! x = paths ! x @ (if block * counter \<le> x \<and> x < block * counter + j then [item] else []))" for j and ps :: "merkle_path list"
  have "\<exists>ps. push_block n block counter item paths = Some ps \<and> P counter ps"
    unfolding push_block_def
  proof (rule fold_opt_upt)
    show "P 0 paths" using assms by (simp add: P_def)
  next
    fix j ps assume "j < counter" and P: "P j ps"
    have len: "length ps = n" using P by (simp add: P_def)
    show "\<exists>ps'. (let index = block * counter + j in
        if index < n then do { p \<leftarrow> vec_get ps index; vec_set ps index (p @ [item]) } else Some ps) = Some ps' \<and> P (Suc j) ps'"
      using P len by (auto simp: P_def Let_def nth_list_update)
  qed
  then show ?thesis by (simp add: P_def)
qed

lemma in_block_iff:
  fixes c :: nat
  assumes "0 < c"
  shows "b * c \<le> x \<and> x < b * c + c \<longleftrightarrow> x div c = b"
proof
  assume "b * c \<le> x \<and> x < b * c + c"
  then have "x div c \<ge> b" "x div c < Suc b" using assms by (simp_all add: less_eq_div_iff_mult_less_eq div_less_iff_less_mult)
  then show "x div c = b" by simp
next
  assume "x div c = b"
  then show "b * c \<le> x \<and> x < b * c + c" using assms
    by (metis add.commute div_mult_mod_eq le_add1 mod_less_divisor nat_add_left_cancel_less)
qed

text \<open>The state after the nodes below \<open>i\<close> of level \<open>k + 1\<close> have been computed.\<close>

definition node_inv :: "sha256 \<Rightarrow> merkle_hash list \<Rightarrow> nat \<Rightarrow> bool \<Rightarrow> nat \<Rightarrow> merkle_hash list \<times> merkle_path list \<Rightarrow> bool" where
  "node_inv sha hs k up i s \<longleftrightarrow>
     length (fst s) = length hs \<and> length (snd s) = length hs \<and>
     (\<forall>x < length (lev sha hs (Suc k)). x < i \<longrightarrow> fst s ! x = lev sha hs (Suc k) ! x) \<and>
     (\<forall>x < length (lev sha hs k). i \<le> x \<longrightarrow> fst s ! x = lev sha hs k ! x) \<and>
     (\<forall>x < length hs. snd s ! x = ref_path sha hs (Suc k) x @
        (if up \<and> sibling (x div 2 ^ Suc k) < i then level_item sha hs x (Suc k) else []))"

lemma push_level_item:
  assumes "length paths = length hs" and "i < length (lev sha hs (Suc k))" and "h = lev sha hs (Suc k) ! i"
  shows "\<exists>ps. (if i mod 2 = 0 then push_block (length hs) (i + 1) (2 ^ Suc k) (path_item h Left) paths
      else push_block (length hs) (i - 1) (2 ^ Suc k) (path_item h Right) paths) = Some ps \<and> length ps = length hs \<and>
    (\<forall>x < length hs. ps ! x = paths ! x @ (if x div 2 ^ Suc k = sibling i then level_item sha hs x (Suc k) else []))"
proof -
  let ?it = "path_item h (if even i then Left else Right)"
  have lvl: "level_item sha hs x (Suc k) = [?it]" if "x div 2 ^ Suc k = sibling i" for x
    unfolding level_item_def Let_def that sibling_sibling step_direction_sibling using assms(2,3) by simp
  have "(if i mod 2 = 0 then push_block (length hs) (i + 1) (2 ^ Suc k) (path_item h Left) paths
    else push_block (length hs) (i - 1) (2 ^ Suc k) (path_item h Right) paths) =
    push_block (length hs) (sibling i) (2 ^ Suc k) ?it paths"
    by (simp add: sibling_def even_iff_mod_2_eq_zero)
  moreover obtain ps where "push_block (length hs) (sibling i) (2 ^ Suc k) ?it paths = Some ps"
    "length ps = length hs" "\<forall>x < length hs. ps ! x = paths ! x @
      (if sibling i * 2 ^ Suc k \<le> x \<and> x < sibling i * 2 ^ Suc k + 2 ^ Suc k then [?it] else [])"
    using push_block_ok [OF assms(1)] by blast
  ultimately show ?thesis using lvl in_block_iff [of "2 ^ Suc k" "sibling i"] by auto
qed

lemma merklize_node_ok:
  assumes "node_inv sha hs k (1 < len) i s" and "arr_len = length (lev sha hs k)"
  shows "\<exists>s'. merklize_node sha (length hs) len arr_len (2 ^ Suc k) i s = Some s' \<and> node_inv sha hs k (1 < len) (Suc i) s'"
proof -
  obtain hashes paths where s: "s = (hashes, paths)" by (cases s)
  let ?L = "length (lev sha hs k)" and ?M = "length (lev sha hs (Suc k))"
  have inv: "length hashes = length hs" "length paths = length hs"
    "\<And>x. x < ?M \<Longrightarrow> x < i \<Longrightarrow> hashes ! x = lev sha hs (Suc k) ! x"
    "\<And>x. x < ?L \<Longrightarrow> i \<le> x \<Longrightarrow> hashes ! x = lev sha hs k ! x"
    "\<And>x. x < length hs \<Longrightarrow> paths ! x = ref_path sha hs (Suc k) x @
       (if 1 < len \<and> sibling (x div 2 ^ Suc k) < i then level_item sha hs x (Suc k) else [])"
    using assms(1) unfolding node_inv_def s by auto
  have M: "i < ?M \<longleftrightarrow> 2 * i < ?L" unfolding lev_Suc parents_length half_up_iff ..
  show ?thesis
  proof (cases "2 * i < ?L")
    case False
    then have "\<not> i < ?M" by (simp add: M)
    moreover have "level_item sha hs x (Suc k) = []" if "sibling (x div 2 ^ Suc k) = i" for x
      using that calculation by (simp add: level_item_def Let_def)
    ultimately have "node_inv sha hs k (1 < len) (Suc i) s"
      using inv False by (auto simp: node_inv_def s less_Suc_eq)
    with False show ?thesis by (simp add: merklize_node_def s assms(2))
  next
    case True
    have le: "?L \<le> length hs" by (rule lev_length_le)
    define h where "h = lev sha hs (Suc k) ! i"
    have i: "i < ?M" "i < length hs" using True le M by auto
    have h: "(if 2 * i + 1 \<ge> ?L then vec_get hashes (2 * i)
       else do { a \<leftarrow> vec_get hashes (2 * i); b \<leftarrow> vec_get hashes (2 * i + 1); Some (combine_hash sha a b) }) = Some h"
      using True le inv(1,4) i(1) by (auto simp: h_def lev_Suc parents_nth)
    note push = push_level_item [OF inv(2) i(1) h_def]
    show ?thesis
    proof (cases "1 < len")
      case True
      obtain ps where ps: "(if i mod 2 = 0 then push_block (length hs) (i + 1) (2 ^ Suc k) (path_item h Left) paths
        else push_block (length hs) (i - 1) (2 ^ Suc k) (path_item h Right) paths) = Some ps" "length ps = length hs"
        "\<forall>x < length hs. ps ! x = paths ! x @ (if x div 2 ^ Suc k = sibling i then level_item sha hs x (Suc k) else [])"
        using push by blast
      have "node_inv sha hs k (1 < len) (Suc i) (hashes[i := h], ps)"
        using inv(1,2) ps(2) i \<open>1 < len\<close>
        by (auto simp: node_inv_def nth_list_update less_Suc_eq inv(3,4,5) h_def ps(3) sibling_eq_iff)
      then show ?thesis
        using \<open>2 * i < ?L\<close> h ps(1) i(2) inv(1) True
        by (cases "i mod 2 = 0") (simp_all add: merklize_node_def s assms(2) not_le del: power_Suc)
    next
      case False
      then have "node_inv sha hs k (1 < len) (Suc i) (hashes[i := h], paths)"
        using inv(1,2) i by (auto simp: node_inv_def nth_list_update less_Suc_eq inv(3,4,5) h_def)
      then show ?thesis
        using \<open>2 * i < ?L\<close> h i(2) inv(1) False by (simp add: merklize_node_def s assms(2) not_le)
    qed
  qed
qed

text \<open>The state at the head of the loop, \<open>k\<close> levels up.\<close>

definition loop_inv :: "sha256 \<Rightarrow> merkle_hash list \<Rightarrow> nat \<Rightarrow> merkle_hash list \<times> merkle_path list \<Rightarrow> bool" where
  "loop_inv sha hs k s \<longleftrightarrow>
     length (fst s) = length hs \<and> length (snd s) = length hs \<and>
     (\<forall>x < length (lev sha hs k). fst s ! x = lev sha hs k ! x) \<and>
     (\<forall>x < length hs. snd s ! x = ref_path sha hs (Suc k) x)"

lemma merklize_level_ok:
  assumes "loop_inv sha hs k s" and "length hs \<le> 2 ^ Suc k * len" and "arr_len = length (lev sha hs k)"
  shows "\<exists>s'. fold_opt (merklize_node sha (length hs) len arr_len (2 ^ Suc k)) [0..<len] s = Some s' \<and> loop_inv sha hs (Suc k) s'"
proof -
  have "node_inv sha hs k (1 < len) 0 s" using assms(1) by (simp add: node_inv_def loop_inv_def)
  then obtain s' where s': "fold_opt (merklize_node sha (length hs) len arr_len (2 ^ Suc k)) [0..<len] s = Some s'"
    "node_inv sha hs k (1 < len) len s'"
    using fold_opt_upt [of "node_inv sha hs k (1 < len)" s len] merklize_node_ok [OF _ assms(3)] by blast
  have small: "x < len" if "x < length (lev sha hs (Suc k))" for x
  proof -
    have "x * 2 ^ Suc k < 2 ^ Suc k * len" using that assms(2) unfolding lev_length_iff by linarith
    then show ?thesis by (simp only: mult.commute [of x] mult_less_cancel1)
  qed
  have item: "(if 1 < len \<and> sibling (x div 2 ^ Suc k) < len then level_item sha hs x (Suc k) else []) = level_item sha hs x (Suc k)"
    if "x < length hs" for x
  proof (cases "sibling (x div 2 ^ Suc k) < length (lev sha hs (Suc k))")
    case True
    have "x div 2 ^ Suc k * 2 ^ Suc k < length hs" using that by (meson div_times_less_eq_dividend le_less_trans)
    then have "x div 2 ^ Suc k < len" using small by (simp only: lev_length_iff)
    moreover have "sibling (x div 2 ^ Suc k) \<noteq> x div 2 ^ Suc k" by (auto simp: sibling_def elim: evenE oddE)
    ultimately have "1 < len" using small [OF True] by linarith
    then show ?thesis using small [OF True] by simp
  qed (simp add: level_item_def Let_def)
  have "loop_inv sha hs (Suc k) s'"
    using s'(2) small item by (auto simp: node_inv_def loop_inv_def ref_path_Suc [of sha hs "Suc k"])
  with s'(1) show ?thesis by blast
qed

lemma merklize_loop_ok:
  assumes "loop_inv sha hs k s" and "length hs \<le> 2 ^ (k + j)"
  shows "\<exists>s'. merklize_loop sha (length hs) (2 ^ j) (length (lev sha hs k)) (2 ^ k) s = Some s' \<and> loop_inv sha hs (k + j) s'"
  using assms
proof (induction j arbitrary: k s)
  case 0
  then show ?case by (simp add: merklize_loop.simps)
next
  case (Suc j)
  have le: "length hs \<le> 2 ^ Suc k * 2 ^ j" using Suc.prems(2) by (simp add: power_add mult.left_commute)
  obtain s' where s': "fold_opt (merklize_node sha (length hs) (2 ^ j) (length (lev sha hs k)) (2 ^ Suc k)) [0..<2 ^ j] s = Some s'"
    "loop_inv sha hs (Suc k) s'"
    using merklize_level_ok [OF Suc.prems(1) le refl] by blast
  have "merklize_loop sha (length hs) (2 ^ Suc j) (length (lev sha hs k)) (2 ^ k) s =
      merklize_loop sha (length hs) (2 ^ j) (length (lev sha hs (Suc k))) (2 ^ Suc k) s'"
  proof -
    have "1 < (2 :: nat) ^ Suc j" by (rule one_less_power) simp_all
    then show ?thesis using s'(1) by (subst merklize_loop.simps) (simp add: lev_Suc mult.commute)
  qed
  moreover have "length hs \<le> 2 ^ (Suc k + j)" using Suc.prems(2) by simp
  ultimately show ?case using Suc.IH [OF s'(2)] by simp
qed

lemma initial_path_ok: "i < length hs \<Longrightarrow> initial_path hs (length hs) i = Some (ref_path sha hs 1 i)"
  by (auto simp: initial_path_def ref_path_def level_item_def Let_def sibling_def step_direction_def
      even_iff_mod_2_eq_zero odd_iff_mod_2_eq_one)

lemma ref_path_top:
  assumes "length hs \<le> 2 ^ k" and "idx < length hs"
  shows "ref_path sha hs (Suc k) idx = ref_path sha hs k idx"
proof -
  have "idx div 2 ^ k = 0" using assms by simp
  moreover have "\<not> 1 < length (lev sha hs k)" using assms lev_length_iff [of 1 sha hs k] by simp
  ultimately show ?thesis by (simp add: ref_path_Suc level_item_def Let_def sibling_def)
qed

lemma merklize_ref:
  assumes "arr \<noteq> []" and "length arr \<le> 2 ^ 63" and hs: "hs = map (hash_borsh sha ser) arr"
  shows "merklize sha ser arr =
    Some (ref_root sha hs, map (ref_path sha hs (ceillog2 (length arr))) [0..<length arr])"
proof -
  let ?n = "length arr" and ?h = "ceillog2 (length arr)"
  have len: "length hs = ?n" "hs \<noteq> []" using assms(1) by (simp_all add: hs)
  have "?h \<le> 63" using assms(1,2) by (simp add: ceillog2_le_iff)
  then have np: "next_power_of_two u64_w ?n = Some (2 ^ ?h)" by (simp add: next_power_of_two_Some)
  show ?thesis
  proof (cases "?h = 0")
    case True
    then have "?n \<le> 1" using le_power_ceillog2 [of ?n] by simp
    then have "?n = 1" using assms(1) by (cases arr) auto
    then obtain x where "arr = [x]" by (auto simp: length_Suc_conv)
    then show ?thesis using np by (simp add: merklize_def hs ref_path_def)
  next
    case False
    then have big: "(2::nat) ^ ?h \<noteq> 1" by simp
    have le: "length hs \<le> 2 ^ (0 + ?h)" using le_power_ceillog2 [of ?n] by (simp add: len)
    have init: "those (map (initial_path hs ?n) [0..<?n]) = Some (map (ref_path sha hs 1) [0..<?n])"
      by (rule those_map_Some) (simp flip: len(1) add: initial_path_ok [of _ hs sha])
    have "loop_inv sha hs 0 (hs, map (ref_path sha hs 1) [0..<?n])" by (simp add: loop_inv_def len)
    from merklize_loop_ok [OF this le] obtain s' where s':
      "merklize_loop sha ?n (2 ^ ?h) ?n 1 (hs, map (ref_path sha hs 1) [0..<?n]) = Some s'" "loop_inv sha hs ?h s'"
      by (auto simp: len)
    obtain hashes paths where p: "s' = (hashes, paths)" by (cases s')
    have top: "lev sha hs ?h = [ref_root sha hs]" using lev_top [OF len(2)] le by simp
    have "vec_get hashes 0 = Some (ref_root sha hs)" using s'(2) top len assms(1) by (simp add: loop_inv_def p vec_get_def)
    moreover have "paths = map (ref_path sha hs ?h) [0..<?n]"
      using s'(2) le by (intro nth_equalityI) (simp_all add: loop_inv_def p len ref_path_top)
    ultimately show ?thesis
      using assms(1) np big init s'(1) by (simp add: merklize_def p Let_def flip: hs)
  qed
qed

section \<open>The directions of a path\<close>

definition level_direction :: "nat \<Rightarrow> nat \<Rightarrow> nat \<Rightarrow> direction list" where
  "level_direction n idx k =
     (let b = idx div 2 ^ k in if sibling b * 2 ^ k < n then [step_direction b] else [])"

definition ref_directions :: "nat \<Rightarrow> nat \<Rightarrow> nat \<Rightarrow> direction list" where
  "ref_directions n idx k = concat (map (level_direction n idx) [0..<k])"

lemma ref_directions_Suc: "ref_directions n idx (Suc k) = ref_directions n idx k @ level_direction n idx k"
  by (simp add: ref_directions_def)

lemma ref_path_directions: "map item_direction (ref_path sha hs k idx) = ref_directions (length hs) idx k"
proof -
  have "map item_direction (level_item sha hs idx j) = level_direction (length hs) idx j" for j
    by (simp add: level_item_def level_direction_def Let_def lev_length_iff)
  then show ?thesis by (simp add: ref_path_def ref_directions_def map_concat o_def)
qed

lemma take_snoc_iff:
  "take (length xs + 1) ms = xs @ [d] \<longleftrightarrow> take (length xs) ms = xs \<and> length xs < length ms \<and> ms ! length xs = d"
proof
  assume *: "take (length xs + 1) ms = xs @ [d]"
  then have "length (take (length xs + 1) ms) = length xs + 1" by simp
  then have "length xs < length ms" by simp
  with * show "take (length xs) ms = xs \<and> length xs < length ms \<and> ms ! length xs = d"
    by (simp add: take_Suc_conv_app_nth)
qed (simp add: take_Suc_conv_app_nth)

lemma match_level_eq:
  assumes "idx < 2 ^ 63" and "k < 63"
  shows "match_level path idx n k used =
    (case level_direction n idx k of
       [] \<Rightarrow> Some used
     | d # _ \<Rightarrow> if used < length path \<and> item_direction (path ! used) = d then Some (used + 1) else None)"
proof -
  let ?b = "idx div 2 ^ k"
  have "?b * 2 ^ k \<le> idx" by (rule div_times_less_eq_dividend)
  moreover have "sibling ?b * 2 ^ k \<le> (?b + 1) * 2 ^ k" by (intro mult_right_mono) (auto simp: sibling_def)
  moreover have "(2 :: nat) ^ k \<le> 2 ^ 62" using assms(2) by (intro power_increasing) simp_all
  moreover have "(2 :: nat) ^ 62 + 2 ^ 63 \<le> 2 ^ 64" by simp
  ultimately have "sibling ?b * 2 ^ k < 2 ^ 64" using assms(1) by (simp only: distrib_right mult_1)
  then have start: "cast u64_w (push_bit k (xor ?b 1)) = sibling ?b * 2 ^ k"
    unfolding xor_1_nat sibling_def [symmetric] by (simp add: cast_def push_bit_eq_mult)
  have "(if and ?b 1 = 0 then Right else Left) = step_direction ?b"
    by (simp add: step_direction_def and_one_eq even_iff_mod_2_eq_zero)
  then show ?thesis
    unfolding match_level_def Let_def drop_bit_eq_div start level_direction_def
    by (auto simp: vec_get_def)
qed

lemma match_levels_eq:
  assumes "idx < 2 ^ 63" and "k \<le> 63"
  shows "fold_opt (match_level path idx n) [0..<k] 0 =
    (let ds = ref_directions n idx k in
     if take (length ds) (map item_direction path) = ds then Some (length ds) else None)"
  using assms(2)
proof (induction k)
  case (Suc k)
  let ?ds = "ref_directions n idx k" and ?m = "map item_direction path"
  have IH: "fold_opt (match_level path idx n) [0..<k] 0 = (if take (length ?ds) ?m = ?ds then Some (length ?ds) else None)"
    using Suc by (simp add: Let_def)
  have k: "k < 63" using Suc.prems by simp
  consider "level_direction n idx k = []" | d where "level_direction n idx k = [d]"
    by (cases "sibling (idx div 2 ^ k) * 2 ^ k < n") (simp_all add: level_direction_def)
  then show ?case
  proof cases
    case 1
    then show ?thesis by (simp add: fold_opt_append IH ref_directions_Suc match_level_eq [OF assms(1) k])
  next
    case (2 d)
    then show ?thesis using take_snoc_iff [of ?ds ?m d]
      by (auto simp: fold_opt_append IH ref_directions_Suc match_level_eq [OF assms(1) k])
  qed
qed (simp add: ref_directions_def)

lemma verify_path_matches_index_eq:
  assumes "n \<le> 2 ^ 63"
  shows "verify_path_matches_index path idx n =
    Some (idx < n \<and> map item_direction path = ref_directions n idx (ceillog2 n))"
proof (cases "idx < n")
  case True
  then have "ceillog2 n \<le> 63" "idx < 2 ^ 63" using assms by (simp_all add: ceillog2_le_iff)
  then show ?thesis
    using True
    by (auto simp: verify_path_matches_index_def next_power_of_two_Some [THEN iffD2] match_levels_eq Let_def
        dest: arg_cong [where f = length])
qed (simp add: verify_path_matches_index_def)

section \<open>Properties of paths\<close>

text \<open>
  C29: The tree of a nonempty array is computed without panic: it has one path per item, and
  the path of every item verifies against the root, also with the index of the item.
\<close>

theorem merklize_paths_verify:
  assumes "arr \<noteq> []" and "length arr \<le> 2 ^ 63"
  shows "\<exists>root_hash paths. merklize sha ser arr = Some (root_hash, paths) \<and> length paths = length arr \<and>
    (\<forall>i < length arr.
       verify_path sha ser root_hash (paths ! i) (arr ! i) \<and>
       verify_path_with_index sha ser root_hash (paths ! i) (arr ! i) i (length arr) = Some True)"
proof -
  let ?hs = "map (hash_borsh sha ser) arr" and ?h = "ceillog2 (length arr)"
  have "compute_root_from_path sha (ref_path sha ?hs ?h i) (hash_borsh sha ser (arr ! i)) = ref_root sha ?hs"
    if "i < length arr" for i
  proof -
    have "i < 2 ^ ?h" using that le_power_ceillog2 [of "length arr"] by linarith
    then show ?thesis using ref_path_root [of i ?hs sha ?h] lev_top [of ?hs ?h sha] that assms(1) le_power_ceillog2 by simp
  qed
  then show ?thesis
    using merklize_ref [OF assms refl]
    by (simp add: verify_path_def verify_hash_def verify_path_with_index_def
        verify_path_matches_index_eq [OF assms(2)] ref_path_directions)
qed

theorem merklize_paths_verify_witness:
  "\<exists>root_hash paths. merklize toy_sha (\<lambda>x. [x]) [1, 2, 3] = Some (root_hash, paths) \<and> length paths = 3 \<and>
     verify_path_with_index toy_sha (\<lambda>x. [x]) root_hash (paths ! 2) 3 2 3 = Some True"
proof -
  have "length [1, 2, 3 :: byte] \<le> 2 ^ 63" by simp
  from merklize_paths_verify [OF _ this, of toy_sha "\<lambda>x. [x]"] show ?thesis
    by (auto simp: numeral_2_eq_2 numeral_3_eq_3)
qed

text \<open>The byte strings that are hashed while the root is computed from a path.\<close>

fun hashed :: "sha256 \<Rightarrow> merkle_path \<Rightarrow> merkle_hash \<Rightarrow> byte list set" where
  "hashed sha [] h = {}"
| "hashed sha (i # p) h =
     (let b = (case item_direction i of Left \<Rightarrow> item_hash i @ h | Right \<Rightarrow> h @ item_hash i) in insert b (hashed sha p (sha b)))"

lemma compute_root_binding:
  assumes "map item_direction p = map item_direction q" and "digest_32 sha" and "inj_on sha (hashed sha p a \<union> hashed sha q b)"
    and "length a = crypto_hash_length" and "length b = crypto_hash_length"
    and "compute_root_from_path sha p a = compute_root_from_path sha q b"
  shows "a = b \<and> p = q"
  using assms(1,3-6)
proof (induction p arbitrary: q a b)
  case (Cons i p)
  then obtain j q' where q: "q = j # q'" "item_direction i = item_direction j" "map item_direction p = map item_direction q'"
    by (cases q) auto
  define a' b' where "a' = (case item_direction i of Left \<Rightarrow> item_hash i @ a | Right \<Rightarrow> a @ item_hash i)"
    and "b' = (case item_direction j of Left \<Rightarrow> item_hash j @ b | Right \<Rightarrow> b @ item_hash j)"
  have inj: "inj_on sha (insert a' (hashed sha p (sha a')) \<union> insert b' (hashed sha q' (sha b')))"
    using Cons.prems(2) unfolding q(1) a'_def b'_def hashed.simps Let_def .
  have "sha a' = sha b' \<and> p = q'"
  proof (rule Cons.IH [OF q(3)])
    show "inj_on sha (hashed sha p (sha a') \<union> hashed sha q' (sha b'))" using inj by (rule inj_on_subset) auto
    show "length (sha a') = crypto_hash_length" "length (sha b') = crypto_hash_length" using assms(2) by (simp_all add: digest_32_def)
    show "compute_root_from_path sha p (sha a') = compute_root_from_path sha q' (sha b')"
      using Cons.prems(5) by (simp add: q(1) a'_def b'_def combine_eq split: direction.splits)
  qed
  then have "a' = b'" "p = q'" using inj_onD [OF inj, of a' b'] by simp_all
  moreover have "a = b \<and> item_hash i = item_hash j" if "a' = b'"
    using that q(2) Cons.prems(3,4) by (cases "item_direction j") (auto simp: a'_def b'_def)
  ultimately show ?case using q by simp
qed simp

text \<open>
  C30: A root binds the items and their paths: when two items verify with paths for the same index of an
  array of the same length against the same root, and no two different byte strings among those hashed in
  the two verifications have the same hash, then the items have the same encoding and the paths are equal.
\<close>

theorem verify_path_binding:
  assumes "digest_32 sha" and "n \<le> 2 ^ 63"
    and "verify_path_with_index sha ser root_hash p x idx n = Some True"
    and "verify_path_with_index sha ser root_hash q y idx n = Some True"
    and "inj_on sha ({ser x, ser y} \<union> hashed sha p (hash_borsh sha ser x) \<union> hashed sha q (hash_borsh sha ser y))"
  shows "ser x = ser y \<and> p = q"
proof -
  have roots: "compute_root_from_path sha p (hash_borsh sha ser x) = compute_root_from_path sha q (hash_borsh sha ser y)"
    and dirs: "map item_direction p = map item_direction q"
    using assms(3,4)
    by (simp_all add: verify_path_with_index_def verify_path_def verify_hash_def verify_path_matches_index_eq [OF assms(2)])
  have inj: "inj_on sha (hashed sha p (hash_borsh sha ser x) \<union> hashed sha q (hash_borsh sha ser y))"
    using assms(5) by (rule inj_on_subset) auto
  have "hash_borsh sha ser x = hash_borsh sha ser y \<and> p = q"
    by (rule compute_root_binding [OF dirs assms(1) inj _ _ roots]) (use assms(1) in \<open>simp_all add: hash_borsh_def digest_32_def\<close>)
  then show ?thesis using assms(5) by (auto simp: hash_borsh_def dest: inj_onD)
qed

text \<open>Two bytes with the same encoding, next to a first item.\<close>

theorem verify_path_binding_witness:
  "let p = [path_item (toy_sha [5]) Left]; ser = (\<lambda>x. [x mod 16]) in
   verify_path_with_index toy_sha ser (toy_sha [5]) p (6 :: byte) 1 2 = Some True \<and>
   verify_path_with_index toy_sha ser (toy_sha [5]) p 22 1 2 = Some True \<and> ser 6 = ser 22"
proof -
  let ?p = "[path_item (toy_sha [5]) Left]" and ?ser = "\<lambda>x :: byte. [x mod 16]"
  have m: "?ser 6 = [6]" "?ser 22 = [6]" and hd: "toy_sha (b # bs) = b # take 31 (bs @ replicate 32 0)" for b bs by (simp_all add: toy_sha_def)
  have c: "ceillog2 2 = 1" "sibling (Suc 0) = 0" by (simp_all add: ceillog2_def floorlog_def sibling_def)
  have v: "verify_path_with_index toy_sha ?ser (toy_sha [5]) ?p x 1 2 = Some True" for x :: byte
    by (simp add: verify_path_with_index_def verify_path_matches_index_eq ref_directions_def level_direction_def
        c step_direction_def verify_path_def verify_hash_def combine_eq toy_sha_def)
  have "inj_on toy_sha ({?ser 6, ?ser 22} \<union> hashed toy_sha ?p (hash_borsh toy_sha ?ser 6) \<union> hashed toy_sha ?p (hash_borsh toy_sha ?ser 22))"
    by (simp add: inj_on_def hash_borsh_def m hd)
  then have "?ser 6 = ?ser 22 \<and> ?p = ?p"
    by (rule verify_path_binding [OF toy_sha_32 _ v v, rotated]) simp
  with v show ?thesis by (simp add: Let_def)
qed

section \<open>The partial tree\<close>

text \<open>The complete pairs one level up, without an odd last node.\<close>

fun pairs :: "sha256 \<Rightarrow> merkle_hash list \<Rightarrow> merkle_hash list" where
  "pairs sha (a # b # hs) = combine_hash sha a b # pairs sha hs"
| "pairs sha hs = []"

lemma pairs_length [simp]: "length (pairs sha hs) = length hs div 2"
  by (induction sha hs rule: pairs.induct) simp_all

text \<open>The roots of the complete subtrees with their heights, from the lowest.\<close>

function peaks :: "sha256 \<Rightarrow> nat \<Rightarrow> merkle_hash list \<Rightarrow> (merkle_hash \<times> nat) list" where
  "peaks sha j hs =
     (if hs = [] then []
      else (if odd (length hs) then [(last hs, j)] else []) @ peaks sha (Suc j) (pairs sha hs))"
  by auto
termination by (relation "measure (\<lambda>(sha, j, hs). length hs)") auto

declare peaks.simps [simp del]

definition peak_path :: "sha256 \<Rightarrow> merkle_hash list \<Rightarrow> merkle_hash list" where
  "peak_path sha hs = rev (map fst (peaks sha 0 hs))"

lemma peaks_Nil [simp]: "peaks sha j [] = []"
  by (simp add: peaks.simps)

lemma peaks_shift: "map fst (peaks sha j hs) = map fst (peaks sha i hs)"
proof (induction sha j hs arbitrary: i rule: peaks.induct)
  case (1 sha j hs)
  show ?case
  proof (cases "hs = []")
    case False
    then show ?thesis by (simp add: peaks.simps [of sha j hs] peaks.simps [of sha i hs] 1 [OF False, of "Suc i"])
  qed simp
qed

lemma peak_path_step:
  "hs \<noteq> [] \<Longrightarrow> peak_path sha hs = peak_path sha (pairs sha hs) @ (if odd (length hs) then [last hs] else [])"
  using peaks_shift [of sha "Suc 0" "pairs sha hs" 0] by (simp add: peak_path_def peaks.simps [of sha 0 hs])

lemma peak_path_Nil [simp]: "peak_path sha [] = []"
  by (simp add: peak_path_def)

lemma pairs_snoc:
  "pairs sha (hs @ [x]) = (if odd (length hs) then pairs sha hs @ [combine_hash sha (last hs) x] else pairs sha hs)"
proof (induction sha hs rule: pairs.induct)
  case (1 sha a b hs)
  then show ?case by (cases hs) simp_all
qed simp_all

lemma peak_path_snoc_even:
  assumes "even (length hs)"
  shows "peak_path sha (hs @ [x]) = peak_path sha hs @ [x]"
proof -
  have "peak_path sha (hs @ [x]) = peak_path sha (pairs sha hs) @ [x]"
    using assms by (subst peak_path_step) (simp_all add: pairs_snoc)
  then show ?thesis using assms peak_path_step [of hs sha] by (cases "hs = []") simp_all
qed

lemma pmt_insert_loop_ok:
  "\<exists>path node. pmt_insert_loop sha (length hs) (peak_path sha hs) x = Some (path, node) \<and>
     path @ [node] = peak_path sha (hs @ [x])"
proof (induction "length hs" arbitrary: hs x rule: less_induct)
  case less
  show ?case
  proof (cases "odd (length hs)")
    case True
    then have ne: "hs \<noteq> []" by auto
    have "length (pairs sha hs) < length hs" using ne by simp
    from less [OF this, of "combine_hash sha (last hs) x"] obtain path node where
      ih: "pmt_insert_loop sha (length hs div 2) (peak_path sha (pairs sha hs)) (combine_hash sha (last hs) x) = Some (path, node)"
      "path @ [node] = peak_path sha (pairs sha hs @ [combine_hash sha (last hs) x])" by auto
    have "pmt_insert_loop sha (length hs) (peak_path sha hs) x = Some (path, node)"
      unfolding peak_path_step [OF ne] using True ih(1)
      by (subst pmt_insert_loop.simps) (simp add: odd_iff_mod_2_eq_one)
    moreover have "peak_path sha (hs @ [x]) = peak_path sha (pairs sha hs @ [combine_hash sha (last hs) x])"
      using True by (subst peak_path_step) (simp_all add: pairs_snoc)
    ultimately show ?thesis using ih(2) by simp
  next
    case False
    then have "pmt_insert_loop sha (length hs) (peak_path sha hs) x = Some (peak_path sha hs, x)"
      by (subst pmt_insert_loop.simps) simp
    then show ?thesis using False peak_path_snoc_even by simp
  qed
qed

definition pmt_of :: "sha256 \<Rightarrow> merkle_hash list \<Rightarrow> partial_merkle_tree" where
  "pmt_of sha hs = \<lparr> pmt_path = peak_path sha hs, pmt_size = length hs \<rparr>"

lemma pmt_insert_ok: "length hs + 1 < 2 ^ 64 \<Longrightarrow> pmt_insert sha x (pmt_of sha hs) = Some (pmt_of sha (hs @ [x]))"
  using pmt_insert_loop_ok [of sha hs x] by (auto simp: pmt_insert_def pmt_of_def checked_add_def)

lemma pmt_fold_ok:
  "length (hs @ xs) < 2 ^ 64 \<Longrightarrow> fold_opt (pmt_insert sha) xs (pmt_of sha hs) = Some (pmt_of sha (hs @ xs))"
proof (induction xs arbitrary: hs)
  case (Cons x xs)
  then show ?case using pmt_insert_ok [of hs sha x] Cons.IH [of "hs @ [x]"] by simp
qed simp

text \<open>The root of the list of complete subtrees with a partial subtree to their right.\<close>

definition fold_root :: "sha256 \<Rightarrow> merkle_hash list \<Rightarrow> merkle_hash" where
  "fold_root sha hs = fold (combine_hash sha) (rev (butlast hs)) (last hs)"

lemma fold_root_snoc2: "fold_root sha (hs @ [a, b]) = fold_root sha (hs @ [combine_hash sha a b])"
  by (simp add: fold_root_def butlast_append)

lemma parents_snoc:
  "parents sha (hs @ [x]) = (if odd (length hs) then pairs sha hs @ [combine_hash sha (last hs) x] else pairs sha hs @ [x])"
proof (induction sha hs rule: pairs.induct)
  case (1 sha a b hs)
  then show ?case by (cases hs) simp_all
qed simp_all

lemma fold_root_ref: "fold_root sha (peak_path sha hs @ [t]) = ref_root sha (hs @ [t])"
proof (induction "length hs" arbitrary: hs t rule: less_induct)
  case less
  show ?case
  proof (cases "hs = []")
    case True
    then show ?thesis by (simp add: fold_root_def)
  next
    case False
    then have "length (pairs sha hs) < length hs" by simp
    note ih = less [OF this]
    have "ref_root sha (hs @ [t]) = ref_root sha (parents sha (hs @ [t]))" by (simp add: ref_root_parents)
    then show ?thesis
      using ih [of t] ih [of "combine_hash sha (last hs) t"] fold_root_snoc2 [of sha "peak_path sha (pairs sha hs)"]
      by (simp add: peak_path_step [OF False] parents_snoc)
  qed
qed

lemma parents_even: "even (length hs) \<Longrightarrow> parents sha hs = pairs sha hs"
  by (induction sha hs rule: parents.induct) simp_all

lemma fold_root_peaks: "hs \<noteq> [] \<Longrightarrow> fold_root sha (peak_path sha hs) = ref_root sha hs"
proof (induction "length hs" arbitrary: hs rule: less_induct)
  case less
  show ?case
  proof (cases "odd (length hs)")
    case True
    obtain ys y where y: "hs = ys @ [y]" using less.prems by (cases hs rule: rev_cases) auto
    then have "peak_path sha hs = peak_path sha ys @ [y]"
      using True peak_path_snoc_even by simp
    then show ?thesis using fold_root_ref [of sha ys y] y by simp
  next
    case False
    then have ne: "pairs sha hs \<noteq> []" using less.prems by (cases "(sha, hs)" rule: pairs.cases) auto
    have "length (pairs sha hs) < length hs" using less.prems by simp
    from less.hyps [OF this ne] show ?thesis
      using False less.prems ref_root_parents [OF less.prems, of sha] by (simp add: peak_path_step parents_even)
  qed
qed

lemma peaks_count: "length (peaks sha j hs) = count_ones (length hs)"
proof (induction sha j hs rule: peaks.induct)
  case (1 sha j hs)
  then show ?case
    by (cases "hs = []") (simp_all add: peaks.simps [of sha j hs] count_ones_step [of "length hs"] odd_iff_mod_2_eq_one)
qed

lemma iter_nodes_even:
  "even n \<Longrightarrow> iter_nodes nodes j n = iter_nodes nodes (Suc j) (n div 2)"
proof (cases nodes)
  case (Cons node rest)
  assume "even n"
  show ?thesis
  proof (cases "n = 0")
    case False
    then have "0 < n div 2" using \<open>even n\<close> by (auto elim: evenE)
    moreover have "drop_bit (Suc (trailing_zeros (n div 2))) n = drop_bit (trailing_zeros (n div 2)) (n div 2)"
      by (simp add: drop_bit_Suc)
    ultimately show ?thesis using False Cons trailing_zeros_even [OF \<open>even n\<close>] by (simp add: Let_def)
  qed (simp add: Cons)
qed simp

lemma iter_nodes_peaks: "iter_nodes (map fst (peaks sha j hs)) j (length hs) = peaks sha j hs"
proof (induction sha j hs rule: peaks.induct)
  case (1 sha j hs)
  show ?case
  proof (cases "hs = []")
    case False
    note ih = 1 [OF False]
    show ?thesis
    proof (cases "odd (length hs)")
      case True
      then have "iter_nodes (map fst (peaks sha (Suc j) (pairs sha hs))) j (length hs - 1) = peaks sha (Suc j) (pairs sha hs)"
        using iter_nodes_even [of "length hs - 1"] ih by (auto elim!: oddE)
      then show ?thesis using True False by (simp add: peaks.simps [of sha j hs] Let_def)
    next
      case even: False
      then show ?thesis using iter_nodes_even [of "length hs"] ih False by (simp add: peaks.simps [of sha j hs])
    qed
  qed simp
qed

lemma pmt_of_default: "pmt_of sha [] = partial_merkle_tree_default"
  by (simp add: pmt_of_def partial_merkle_tree_default_def)

lemma pmt_of_well_formed: "is_well_formed (pmt_of sha hs)"
  by (simp add: is_well_formed_def pmt_of_def peak_path_def peaks_count)

lemma pmt_of_root: "hs \<noteq> [] \<Longrightarrow> pmt_root sha (pmt_of sha hs) = ref_root sha hs"
proof -
  assume hs: "hs \<noteq> []"
  then have "peak_path sha hs \<noteq> []"
    using peaks_count [of sha 0 hs] count_ones_pos [of "length hs"] by (auto simp: peak_path_def)
  then show ?thesis using fold_root_peaks [OF hs, of sha] by (simp add: pmt_root_def pmt_of_def fold_root_def)
qed

text \<open>The levels reported with the nodes are the heights of the complete subtrees.\<close>

lemma iter_path_levels: "iter_path_from_bottom (pmt_of sha hs) = peaks sha 0 hs"
  using iter_nodes_peaks [of sha 0 hs] by (simp add: iter_path_from_bottom_def pmt_of_def peak_path_def)

lemma compute_root_left: "compute_root_from_path sha (map (\<lambda>h. path_item h Left) hs) x = fold (combine_hash sha) hs x"
  by (induction hs arbitrary: x) simp_all

text \<open>
  C31: The partial tree agrees with the full one: inserting the hashes of an array one by one,
  which never panics, gives a well-formed tree whose root is the root of the array's tree, and its
  path, read from the bottom with all siblings to the left, is the proof of the leaf inserted next.
\<close>

theorem partial_tree_agrees:
  assumes "arr \<noteq> []" and "length arr \<le> 2 ^ 63"
  shows "\<exists>t t' paths.
    fold_opt (pmt_insert sha) (map (hash_borsh sha ser) arr) partial_merkle_tree_default = Some t \<and>
    pmt_size t = length arr \<and> is_well_formed t \<and> merklize sha ser arr = Some (pmt_root sha t, paths) \<and>
    pmt_insert sha x t = Some t' \<and>
    verify_hash sha (pmt_root sha t') (map (\<lambda>h. path_item h Left) (rev (pmt_path t))) x"
proof -
  let ?hs = "map (hash_borsh sha ser) arr"
  have t: "fold_opt (pmt_insert sha) ?hs partial_merkle_tree_default = Some (pmt_of sha ?hs)"
    using pmt_fold_ok [of "[]" ?hs sha] assms(2) by (simp add: pmt_of_default)
  have t': "pmt_insert sha x (pmt_of sha ?hs) = Some (pmt_of sha (?hs @ [x]))"
    using assms(2) by (intro pmt_insert_ok) simp
  have "verify_hash sha (pmt_root sha (pmt_of sha (?hs @ [x]))) (map (\<lambda>h. path_item h Left) (rev (pmt_path (pmt_of sha ?hs)))) x"
    using fold_root_ref [of sha ?hs x] pmt_of_root [of "?hs @ [x]" sha]
    by (simp add: verify_hash_def compute_root_left fold_root_def) (simp add: pmt_of_def)
  then show ?thesis
    using t t' merklize_ref [OF assms refl] pmt_of_root [of ?hs] assms(1)
    by (auto simp: pmt_of_well_formed) (simp_all add: pmt_of_def)
qed

theorem partial_tree_agrees_witness:
  "\<exists>t t' paths.
     fold_opt (pmt_insert toy_sha) (map (hash_borsh toy_sha (\<lambda>x. [x])) [1, 2, 3]) partial_merkle_tree_default = Some t \<and>
     merklize toy_sha (\<lambda>x. [x]) [1, 2, 3] = Some (pmt_root toy_sha t, paths) \<and> pmt_insert toy_sha [] t = Some t' \<and>
     verify_hash toy_sha (pmt_root toy_sha t') (map (\<lambda>h. path_item h Left) (rev (pmt_path t))) []"
proof -
  have "length [1, 2, 3 :: byte] \<le> 2 ^ 63" by simp
  from partial_tree_agrees [OF _ this, of toy_sha "\<lambda>x. [x]" "[]"] show ?thesis by blast
qed

end
