(* ===== verification/Rust_HashMap.thy ===== *)
theory Rust_HashMap
  imports Rust_BTreeMap "HOL-Library.AList"
begin

text \<open>
  The standard library's \<open>HashMap\<close>: an association list with distinct keys.  Its order stands for
  the unspecified order of iteration; what the components compute by iteration does not depend on it.
  The map satisfies the interface \<open>finite_map_ops\<close>.
\<close>

section \<open>Definitions\<close>

type_synonym ('k, 'v) hmap = "('k \<times> 'v) list"

definition hm_empty :: "('k, 'v) hmap" where
  "hm_empty = []"

definition hm_get :: "('k, 'v) hmap \<Rightarrow> 'k \<Rightarrow> 'v option" where
  "hm_get m k = map_of m k"

definition hm_insert :: "'k \<Rightarrow> 'v \<Rightarrow> ('k, 'v) hmap \<Rightarrow> ('k, 'v) hmap" where
  "hm_insert k v m = AList.update k v m"

definition hm_remove :: "'k \<Rightarrow> ('k, 'v) hmap \<Rightarrow> ('k, 'v) hmap" where
  "hm_remove k m = AList.delete k m"

definition hm_contains :: "('k, 'v) hmap \<Rightarrow> 'k \<Rightarrow> bool" where
  "hm_contains m k \<longleftrightarrow> hm_get m k \<noteq> None"

definition hm_values :: "('k, 'v) hmap \<Rightarrow> 'v list" where
  "hm_values m = map snd m"

definition hm_retain :: "('k \<Rightarrow> 'v \<Rightarrow> bool) \<Rightarrow> ('k, 'v) hmap \<Rightarrow> ('k, 'v) hmap" where
  "hm_retain p m = filter (\<lambda>(k, v). p k v) m"

text \<open>\<open>collect\<close> from an iterator of pairs.\<close>

definition hm_collect :: "('k \<times> 'v) list \<Rightarrow> ('k, 'v) hmap" where
  "hm_collect kvs = fold (\<lambda>(k, v). hm_insert k v) kvs hm_empty"

definition hm_inv :: "('k, 'v) hmap \<Rightarrow> bool" where
  "hm_inv m \<longleftrightarrow> distinct (map fst m)"

section \<open>Lemmas\<close>

lemma hm_get_insert: "hm_get (hm_insert k v m) k' = (if k' = k then Some v else hm_get m k')"
  by (simp add: hm_get_def hm_insert_def update_conv')

lemma hm_get_remove: "hm_get (hm_remove k m) k' = (if k' = k then None else hm_get m k')"
  by (simp add: hm_get_def hm_remove_def delete_conv')

lemma hm_get_empty [simp]: "hm_get hm_empty k = None"
  by (simp add: hm_get_def hm_empty_def)

lemma hm_inv_empty [simp]: "hm_inv hm_empty"
  by (simp add: hm_inv_def hm_empty_def)

lemma hm_inv_insert [simp]: "hm_inv m \<Longrightarrow> hm_inv (hm_insert k v m)"
  by (simp add: hm_inv_def hm_insert_def distinct_update)

lemma hm_inv_remove [simp]: "hm_inv m \<Longrightarrow> hm_inv (hm_remove k m)"
  by (simp add: hm_inv_def hm_remove_def distinct_delete)

lemma hm_get_retain: "hm_inv m \<Longrightarrow> hm_get (hm_retain p m) k = (case hm_get m k of Some v \<Rightarrow> if p k v then Some v else None | None \<Rightarrow> None)"
proof (induction m)
  case (Cons kv m)
  obtain a b where kv: "kv = (a, b)" by (cases kv)
  have "hm_inv m" "a \<notin> fst ` set m" using Cons.prems by (simp_all add: hm_inv_def kv)
  moreover from this(2) have "map_of m a = None" by (simp add: map_of_eq_None_iff)
  ultimately show ?case using Cons.IH by (auto simp: hm_get_def hm_retain_def kv)
qed (simp add: hm_get_def hm_retain_def)

lemma hm_inv_retain [simp]: "hm_inv m \<Longrightarrow> hm_inv (hm_retain p m)"
  by (auto simp: hm_inv_def hm_retain_def distinct_map intro: inj_on_subset)

interpretation hm: finite_map_ops hm_empty hm_get hm_insert hm_remove hm_inv
  by unfold_locales (simp_all add: hm_get_insert hm_get_remove)

lemma hm_inv_collect [simp]: "hm_inv (hm_collect kvs)"
  unfolding hm_collect_def by (rule hm.invar_fill) simp

lemma hm_insert_new: "k \<notin> fst ` set m \<Longrightarrow> hm_insert k v m = m @ [(k, v)]"
  unfolding hm_insert_def by (induction m) auto

lemma hm_collect_distinct: "distinct (map fst kvs) \<Longrightarrow> hm_collect kvs = kvs"
proof -
  have "distinct (map fst (m @ kvs)) \<Longrightarrow> fold (\<lambda>(k, v). hm_insert k v) kvs m = m @ kvs" for m :: "('a, 'b) hmap"
  proof (induction kvs arbitrary: m)
    case (Cons kv kvs)
    then show ?case by (cases kv) (simp add: hm_insert_new)
  qed simp
  from this [of "[]"] show "distinct (map fst kvs) \<Longrightarrow> hm_collect kvs = kvs"
    by (simp add: hm_collect_def hm_empty_def)
qed

lemma hm_insert_keys: "fst ` set (hm_insert k v m) = insert k (fst ` set m)"
  unfolding hm_insert_def by (induction m) (auto simp: image_iff)

lemma hm_keys_collect: "fst ` set (hm_collect kvs) = fst ` set kvs"
proof -
  have "fst ` set (fold (\<lambda>(k, v). hm_insert k v) kvs m) = fst ` set m \<union> fst ` set kvs" for m :: "('a, 'b) hmap"
  proof (induction kvs arbitrary: m)
    case (Cons kv kvs)
    then show ?case by (cases kv) (simp add: hm_insert_keys)
  qed simp
  from this [of hm_empty] show ?thesis by (simp add: hm_collect_def hm_empty_def)
qed

text \<open>No key is lost in the collection exactly when the keys are distinct.\<close>

lemma hm_collect_length: "length (hm_collect kvs) = length kvs \<longleftrightarrow> distinct (map fst kvs)"
proof
  assume *: "length (hm_collect kvs) = length kvs"
  have "distinct (map fst (hm_collect kvs))" using hm_inv_collect [of kvs] by (simp add: hm_inv_def)
  then have "card (fst ` set kvs) = length kvs"
    using * distinct_card [of "map fst (hm_collect kvs)"] by (simp add: hm_keys_collect)
  then show "distinct (map fst kvs)" by (simp add: card_distinct)
qed (simp add: hm_collect_distinct)

end
