(* ===== verification/Doomslug.thy ===== *)
theory Doomslug
  imports Crypto_Hash Rust_HashMap
begin

text \<open>
  The finality gadget (\<open>chain/chain/src/doomslug.rs\<close>, the approvals from
  \<open>core/primitives/src/block_header.rs\<close>): the approvals a validator sends from its timer, the
  trackers of the approvals it receives and the decision to produce a block.

  Instants and durations are nanoseconds, \<open>utc\<close> times likewise; the configured durations and the ratio
  \<open>chunk_wait_mult\<close> are not negative.  The clock is an argument, with one reading per call.  The signer and
  the Borsh encoding of the signed part are parameters.  Additions to heights and the arithmetic of durations and
  instants are checked, an overflow panics.  Debug assertions are left out.
\<close>

section \<open>Approvals\<close>

type_synonym block_height = nat
type_synonym balance = nat
type_synonym signature = "byte list"
type_synonym instant = nat
type_synonym duration = nat
type_synonym utc = nat

datatype approval_inner = Endorsement crypto_hash | Skip block_height

record approval =
  ap_inner :: approval_inner
  ap_target_height :: block_height
  ap_signature :: signature
  ap_account_id :: account_id

record validator_signer =
  validator_id :: account_id
  sign_bytes :: "byte list \<Rightarrow> signature"

definition approval_inner_new :: "crypto_hash \<Rightarrow> block_height \<Rightarrow> block_height \<Rightarrow> approval_inner option" where
  "approval_inner_new parent_hash parent_height target_height =
     do {
       next_height \<leftarrow> checked_add u64_w parent_height 1;
       Some (if target_height = next_height then Endorsement parent_hash else Skip parent_height)
     }"

definition get_data_for_sig :: "(approval_inner \<Rightarrow> byte list) \<Rightarrow> approval_inner \<Rightarrow> block_height \<Rightarrow> byte list" where
  "get_data_for_sig ser inner target_height = concat [ser inner, le_bytes 8 target_height]"

definition approval_new ::
  "(approval_inner \<Rightarrow> byte list) \<Rightarrow> crypto_hash \<Rightarrow> block_height \<Rightarrow> block_height \<Rightarrow> validator_signer \<Rightarrow> approval option" where
  "approval_new ser parent_hash parent_height target_height signer =
     do {
       inner \<leftarrow> approval_inner_new parent_hash parent_height target_height;
       let signature = sign_bytes signer (get_data_for_sig ser inner target_height);
       Some \<lparr> ap_inner = inner, ap_target_height = target_height, ap_signature = signature,
              ap_account_id = validator_id signer \<rparr>
     }"

record approval_stake =
  as_account_id :: account_id
  as_stake_this_epoch :: balance
  as_stake_next_epoch :: balance

section \<open>State\<close>

definition MAX_TIMER_ITERS :: nat where
  "MAX_TIMER_ITERS = 20"

definition MAX_HEIGHTS_AHEAD_TO_STORE_APPROVALS :: block_height where
  "MAX_HEIGHTS_AHEAD_TO_STORE_APPROVALS = 10000"

definition MAX_HEIGHTS_BEFORE_TO_STORE_APPROVALS :: nat where
  "MAX_HEIGHTS_BEFORE_TO_STORE_APPROVALS = 20"

definition MAX_HISTORY_SIZE :: nat where
  "MAX_HISTORY_SIZE = 1000"

definition should_retain_height :: "block_height \<Rightarrow> block_height \<Rightarrow> bool option" where
  "should_retain_height height head_height =
     (if height > saturating_sub head_height MAX_HEIGHTS_BEFORE_TO_STORE_APPROVALS then
        do {
          horizon \<leftarrow> checked_add u64_w head_height MAX_HEIGHTS_AHEAD_TO_STORE_APPROVALS;
          Some (height \<le> horizon)
        }
      else Some False)"

datatype doomslug_threshold_mode = NoApprovals | TwoThirds

datatype doomslug_block_production_readiness = NotReady | ReadySince instant

datatype chunks_readiness = ChunksReady instant | ChunksNotReady

record doomslug_timer =
  started :: instant
  last_endorsement_sent :: instant
  timer_height :: block_height
  endorsement_delay :: duration
  min_delay :: duration
  delay_step :: duration
  max_delay :: duration
  chunk_wait_numer :: nat
  chunk_wait_denom :: nat

record doomslug_tip =
  tip_block_hash :: crypto_hash
  tip_height :: block_height

record doomslug_approvals_tracker =
  witness :: "(account_id, approval \<times> utc) hmap"
  account_id_to_stakes :: "(account_id, balance \<times> balance) hmap"
  total_stake_this_epoch :: balance
  approved_stake_this_epoch :: balance
  total_stake_next_epoch :: balance
  approved_stake_next_epoch :: balance
  time_passed_threshold :: "instant option"
  tracker_threshold_mode :: doomslug_threshold_mode

record trackers_at_height =
  trackers :: "(approval_inner, doomslug_approvals_tracker) hmap"
  last_approval_per_account :: "(account_id, approval_inner) hmap"

record approval_history_entry =
  parent_height :: block_height
  target_height :: block_height
  approval_creation_time :: utc
  timer_started_ago_millis :: nat
  expected_delay_millis :: nat

record doomslug =
  threshold_mode :: doomslug_threshold_mode
  approval_trackers :: "(block_height, trackers_at_height) hmap"
  largest_target_height :: block_height
  largest_final_height :: block_height
  largest_threshold_height :: block_height
  largest_approval_height :: block_height
  tip :: doomslug_tip
  endorsement_pending :: bool
  timer :: doomslug_timer
  history :: "approval_history_entry list"

text \<open>A reading of the clock.\<close>

record clock =
  clock_now :: instant
  clock_now_utc :: utc

section \<open>The tracker of one parent\<close>

definition checked_sum :: "nat \<Rightarrow> nat list \<Rightarrow> nat option" where
  "checked_sum w xs = fold_opt (\<lambda>x s. checked_add w s x) xs 0"

text \<open>Durations and instants have a signed 64-bit number of seconds; their operators panic beyond it.\<close>

definition time_limit :: nat where
  "time_limit = 2 ^ 63 * 10 ^ 9"

definition time_add :: "nat \<Rightarrow> duration \<Rightarrow> nat option" where
  "time_add a b = (if a + b < time_limit then Some (a + b) else None)"

definition duration_mul :: "duration \<Rightarrow> nat \<Rightarrow> duration option" where
  "duration_mul a n = (if a * n < time_limit then Some (a * n) else None)"

definition get_delay :: "nat \<Rightarrow> doomslug_timer \<Rightarrow> duration option" where
  "get_delay n t =
     do {
       let n32 = (if fits u32_w n then n else int_max u32_w);
       steps \<leftarrow> duration_mul (delay_step t) (saturating_sub n32 2);
       delay \<leftarrow> time_add (min_delay t) steps;
       Some (min (max_delay t) delay)
     }"

definition tracker_new ::
  "(account_id, balance \<times> balance) hmap \<Rightarrow> doomslug_threshold_mode \<Rightarrow> doomslug_approvals_tracker option" where
  "tracker_new stakes mode =
     do {
       this \<leftarrow> checked_sum u128_w (map fst (hm_values stakes));
       nxt \<leftarrow> checked_sum u128_w (map snd (hm_values stakes));
       Some \<lparr> witness = hm_empty, account_id_to_stakes = stakes,
              total_stake_this_epoch = this, approved_stake_this_epoch = 0,
              total_stake_next_epoch = nxt, approved_stake_next_epoch = 0,
              time_passed_threshold = None, tracker_threshold_mode = mode \<rparr>
     }"

text \<open>The condition of \<open>get_block_production_readiness\<close>, with its short-circuit evaluation.\<close>

definition threshold_crossed :: "doomslug_approvals_tracker \<Rightarrow> bool option" where
  "threshold_crossed t =
     do {
       twice_this \<leftarrow> checked_mul u128_w (total_stake_this_epoch t) 2;
       both \<leftarrow> (if approved_stake_this_epoch t > twice_this div 3 then
                  do {
                    twice_next \<leftarrow> checked_mul u128_w (total_stake_next_epoch t) 2;
                    Some (approved_stake_next_epoch t > twice_next div 3 \<or> total_stake_next_epoch t = 0)
                  }
                else Some False);
       Some (both \<or> tracker_threshold_mode t = NoApprovals)
     }"

definition get_block_production_readiness ::
  "clock \<Rightarrow> doomslug_approvals_tracker \<Rightarrow> (doomslug_block_production_readiness \<times> doomslug_approvals_tracker) option" where
  "get_block_production_readiness clk t =
     do {
       crossed \<leftarrow> threshold_crossed t;
       Some (if crossed then
               let since = (case time_passed_threshold t of None \<Rightarrow> clock_now clk | Some i \<Rightarrow> i)
               in (ReadySince since, t\<lparr>time_passed_threshold := Some since\<rparr>)
             else (NotReady, t))
     }"

definition stakes_of :: "doomslug_approvals_tracker \<Rightarrow> account_id \<Rightarrow> balance \<times> balance" where
  "stakes_of t a = (case hm_get (account_id_to_stakes t) a of None \<Rightarrow> (0, 0) | Some x \<Rightarrow> x)"

definition tracker_process_approval ::
  "clock \<Rightarrow> approval \<Rightarrow> doomslug_approvals_tracker \<Rightarrow>
   (doomslug_block_production_readiness \<times> doomslug_approvals_tracker) option" where
  "tracker_process_approval clk ap t =
     do {
       t \<leftarrow> (case hm_get (witness t) (ap_account_id ap) of
               Some _ \<Rightarrow> Some t
             | None \<Rightarrow>
                 do {
                   let stakes = stakes_of t (ap_account_id ap);
                   this \<leftarrow> checked_add u128_w (approved_stake_this_epoch t) (fst stakes);
                   nxt \<leftarrow> checked_add u128_w (approved_stake_next_epoch t) (snd stakes);
                   Some (t\<lparr>witness := hm_insert (ap_account_id ap) (ap, clock_now_utc clk) (witness t),
                           approved_stake_this_epoch := this, approved_stake_next_epoch := nxt\<rparr>)
                 });
       get_block_production_readiness clk t
     }"

definition withdraw_approval :: "account_id \<Rightarrow> doomslug_approvals_tracker \<Rightarrow> doomslug_approvals_tracker option" where
  "withdraw_approval account t =
     (case hm_get (witness t) account of
        None \<Rightarrow> Some t
      | Some (ap, _) \<Rightarrow>
          do {
            let stakes = stakes_of t (ap_account_id ap);
            this \<leftarrow> checked_sub (approved_stake_this_epoch t) (fst stakes);
            nxt \<leftarrow> checked_sub (approved_stake_next_epoch t) (snd stakes);
            Some (t\<lparr>witness := hm_remove account (witness t),
                    approved_stake_this_epoch := this, approved_stake_next_epoch := nxt\<rparr>)
          })"

definition get_witnesses :: "doomslug_approvals_tracker \<Rightarrow> (account_id \<times> utc) list" where
  "get_witnesses t = map (\<lambda>(key, (_, arrival_time)). (key, arrival_time)) (witness t)"

section \<open>The trackers of one height\<close>

definition at_height_new :: trackers_at_height where
  "at_height_new = \<lparr> trackers = hm_empty, last_approval_per_account = hm_empty \<rparr>"

text \<open>The first part of \<open>process_approval\<close>: the previous approval of the account is withdrawn.\<close>

definition withdraw_last :: "account_id \<Rightarrow> trackers_at_height \<Rightarrow> trackers_at_height option" where
  "withdraw_last account th =
     (case hm_get (last_approval_per_account th) account of
        None \<Rightarrow> Some th
      | Some last_parent \<Rightarrow>
          (case hm_get (trackers th) last_parent of
             None \<Rightarrow> Some th
           | Some x \<Rightarrow>
               do {
                 x \<leftarrow> withdraw_approval account x;
                 Some (th\<lparr>trackers := (if witness x = hm_empty then hm_remove last_parent (trackers th)
                                       else hm_insert last_parent x (trackers th))\<rparr>)
               }))"

definition at_height_process_approval ::
  "clock \<Rightarrow> approval \<Rightarrow> approval_stake list \<Rightarrow> doomslug_threshold_mode \<Rightarrow> trackers_at_height \<Rightarrow>
   (doomslug_block_production_readiness \<times> trackers_at_height) option" where
  "at_height_process_approval clk ap stakes mode th =
     do {
       th \<leftarrow> withdraw_last (ap_account_id ap) th;
       let id_to_stakes = hm_collect (map (\<lambda>x. (as_account_id x, (as_stake_this_epoch x, as_stake_next_epoch x))) stakes);
       assert (length id_to_stakes = length stakes);
       if \<not> hm_contains id_to_stakes (ap_account_id ap) then Some (NotReady, th)
       else do {
         let th = th\<lparr>last_approval_per_account :=
                      hm_insert (ap_account_id ap) (ap_inner ap) (last_approval_per_account th)\<rparr>;
         t \<leftarrow> (case hm_get (trackers th) (ap_inner ap) of
                 Some t \<Rightarrow> Some t
               | None \<Rightarrow> tracker_new id_to_stakes mode);
         (ret, t) \<leftarrow> tracker_process_approval clk ap t;
         Some (ret, th\<lparr>trackers := hm_insert (ap_inner ap) t (trackers th)\<rparr>)
       }
     }"

record approval_at_height_status =
  status_approvals :: "(account_id, approval_inner \<times> utc) hmap"
  status_ready_at :: "utc option"

definition at_height_status :: "clock \<Rightarrow> trackers_at_height \<Rightarrow> approval_at_height_status" where
  "at_height_status clk th =
     (let approvals =
            hm_collect (concat (map (\<lambda>(ap, t). map (\<lambda>(account, time). (account, (ap, time))) (get_witnesses t)) (trackers th)));
          thresholds = concat (map (\<lambda>(_, t). case time_passed_threshold t of None \<Rightarrow> [] | Some ts \<Rightarrow> [ts]) (trackers th))
      in \<lparr> status_approvals = approvals,
           status_ready_at = (if thresholds = [] then None
                              else Some (clock_now_utc clk - (clock_now clk - Min (set thresholds)))) \<rparr>)"

section \<open>Doomslug\<close>

definition doomslug_new ::
  "clock \<Rightarrow> block_height \<Rightarrow> duration \<Rightarrow> duration \<Rightarrow> duration \<Rightarrow> duration \<Rightarrow> nat \<Rightarrow> nat \<Rightarrow> doomslug_threshold_mode \<Rightarrow> doomslug" where
  "doomslug_new clk largest_target endorse_delay mn step mx numer denom mode =
     \<lparr> threshold_mode = mode, approval_trackers = hm_empty, largest_target_height = largest_target,
       largest_final_height = 0, largest_threshold_height = 0, largest_approval_height = 0,
       tip = \<lparr> tip_block_hash = crypto_hash_new, tip_height = 0 \<rparr>,
       endorsement_pending = False,
       timer = \<lparr> started = clock_now clk, last_endorsement_sent = clock_now clk, timer_height = 0,
                 endorsement_delay = endorse_delay, min_delay = mn, delay_step = step, max_delay = mx,
                 chunk_wait_numer = numer, chunk_wait_denom = denom \<rparr>,
       history = [] \<rparr>"

definition get_tip :: "doomslug \<Rightarrow> crypto_hash \<times> block_height" where
  "get_tip d = (tip_block_hash (tip d), tip_height (tip d))"

definition update_history :: "approval_history_entry \<Rightarrow> doomslug \<Rightarrow> doomslug" where
  "update_history entry d =
     d\<lparr>history := drop (length (history d) + 1 - MAX_HISTORY_SIZE) (history d) @ [entry]\<rparr>"

definition create_approval ::
  "(approval_inner \<Rightarrow> byte list) \<Rightarrow> block_height \<Rightarrow> validator_signer option \<Rightarrow> doomslug \<Rightarrow> approval option option" where
  "create_approval ser target signer d =
     (case signer of
        None \<Rightarrow> Some None
      | Some s \<Rightarrow> map_option Some (approval_new ser (tip_block_hash (tip d)) (tip_height (tip d)) target s))"

definition millis :: "duration \<Rightarrow> nat" where
  "millis dur = cast u64_w (dur div 1000000)"

definition approval_list :: "approval option \<Rightarrow> approval list" where
  "approval_list a = (case a of None \<Rightarrow> [] | Some ap \<Rightarrow> [ap])"

text \<open>The endorsement of the tip, once its delay has passed.\<close>

definition timer_endorse ::
  "(approval_inner \<Rightarrow> byte list) \<Rightarrow> clock \<Rightarrow> validator_signer option \<Rightarrow> doomslug \<Rightarrow> (doomslug \<times> approval list) option" where
  "timer_endorse ser clk signer d =
     do {
       let now = clock_now clk;
       let th = tip_height (tip d);
       due \<leftarrow> (if endorsement_pending d then
                 do { deadline \<leftarrow> time_add (last_endorsement_sent (timer d)) (endorsement_delay (timer d)); Some (now \<ge> deadline) }
               else Some False);
       if due then
         do {
           (d, ret) \<leftarrow>
             (if th \<ge> largest_target_height d then
                do {
                  target \<leftarrow> checked_add u64_w th 1;
                  let d = d\<lparr>largest_target_height := target\<rparr>;
                  ap \<leftarrow> create_approval ser target signer d;
                  let d = update_history
                    \<lparr> parent_height = th, target_height = target, approval_creation_time = clock_now_utc clk,
                      timer_started_ago_millis = millis (now - last_endorsement_sent (timer d)),
                      expected_delay_millis = millis (endorsement_delay (timer d)) \<rparr> d;
                  Some (d, approval_list ap)
                }
              else Some (d, []));
           Some (d\<lparr>timer := (timer d)\<lparr>last_endorsement_sent := now\<rparr>, endorsement_pending := False\<rparr>, ret)
         }
       else Some (d, [])
     }"

text \<open>The skip message for the next height, once the skip delay has passed.\<close>

definition timer_skip ::
  "(approval_inner \<Rightarrow> byte list) \<Rightarrow> clock \<Rightarrow> validator_signer option \<Rightarrow> duration \<Rightarrow> doomslug \<Rightarrow> (doomslug \<times> approval list) option" where
  "timer_skip ser clk signer skip_delay d =
     do {
       target \<leftarrow> checked_add u64_w (timer_height (timer d)) 1;
       let d = d\<lparr>largest_target_height := max target (largest_target_height d)\<rparr>;
       ap \<leftarrow> create_approval ser target signer d;
       let d = update_history
         \<lparr> parent_height = tip_height (tip d), target_height = target, approval_creation_time = clock_now_utc clk,
           timer_started_ago_millis = millis (clock_now clk - started (timer d)),
           expected_delay_millis = millis skip_delay \<rparr> d;
       restarted \<leftarrow> time_add (started (timer d)) skip_delay;
       Some (d\<lparr>timer := (timer d)\<lparr>started := restarted, timer_height := target\<rparr>\<rparr>, approval_list ap)
     }"

fun process_timer_loop ::
  "(approval_inner \<Rightarrow> byte list) \<Rightarrow> clock \<Rightarrow> validator_signer option \<Rightarrow> nat \<Rightarrow> doomslug \<Rightarrow> (doomslug \<times> approval list) option" where
  "process_timer_loop ser clk signer 0 d = Some (d, [])"
| "process_timer_loop ser clk signer (Suc n) d =
     do {
       skip_delay \<leftarrow> get_delay (saturating_sub (timer_height (timer d)) (largest_final_height d)) (timer d);
       (d, ret) \<leftarrow> timer_endorse ser clk signer d;
       deadline \<leftarrow> time_add (started (timer d)) skip_delay;
       if clock_now clk \<ge> deadline then
         do {
           (d, ret') \<leftarrow> timer_skip ser clk signer skip_delay d;
           (d, ret'') \<leftarrow> process_timer_loop ser clk signer n d;
           Some (d, ret @ ret' @ ret'')
         }
       else Some (d, ret)
     }"

definition process_timer ::
  "(approval_inner \<Rightarrow> byte list) \<Rightarrow> clock \<Rightarrow> validator_signer option \<Rightarrow> doomslug \<Rightarrow> (doomslug \<times> approval list) option" where
  "process_timer ser clk signer d = process_timer_loop ser clk signer MAX_TIMER_ITERS d"

definition can_approved_block_be_produced ::
  "doomslug_threshold_mode \<Rightarrow> signature option list \<Rightarrow> (balance \<times> balance) list \<Rightarrow> bool option" where
  "can_approved_block_be_produced mode approvals stakes =
     (if mode = NoApprovals then Some True
      else do {
        sum1 \<leftarrow> checked_sum u128_w (map fst stakes);
        twice1 \<leftarrow> checked_mul u128_w sum1 2;
        let threshold1 = twice1 div 3;
        sum2 \<leftarrow> checked_sum u128_w (map snd stakes);
        twice2 \<leftarrow> checked_mul u128_w sum2 2;
        let threshold2 = twice2 div 3;
        approved_stake1 \<leftarrow> checked_sum u128_w (map (\<lambda>(approval, (stake, _)). if approval \<noteq> None then stake else 0) (zip approvals stakes));
        approved_stake2 \<leftarrow> checked_sum u128_w (map (\<lambda>(approval, (_, stake)). if approval \<noteq> None then stake else 0) (zip approvals stakes));
        Some ((approved_stake1 > threshold1 \<or> threshold1 = 0) \<and> (approved_stake2 > threshold2 \<or> threshold2 = 0))
      })"

definition get_witness ::
  "crypto_hash \<Rightarrow> block_height \<Rightarrow> block_height \<Rightarrow> doomslug \<Rightarrow> (account_id, approval \<times> utc) hmap option" where
  "get_witness prev_hash parent target d =
     do {
       hash_or_height \<leftarrow> approval_inner_new prev_hash parent target;
       Some (case hm_get (approval_trackers d) target of
               Some th \<Rightarrow> (case hm_get (trackers th) hash_or_height of None \<Rightarrow> hm_empty | Some t \<Rightarrow> witness t)
             | None \<Rightarrow> hm_empty)
     }"

text \<open>\<open>retain\<close> evaluates its condition on every key, so an overflow in one of them panics.\<close>

definition set_tip :: "clock \<Rightarrow> crypto_hash \<Rightarrow> block_height \<Rightarrow> block_height \<Rightarrow> doomslug \<Rightarrow> doomslug option" where
  "set_tip clk block_hash height last_final_height d =
     do {
       next_height \<leftarrow> checked_add u64_w height 1;
       kept \<leftarrow> those (map (\<lambda>(h, _). should_retain_height h height) (approval_trackers d));
       Some (d\<lparr>tip := \<lparr> tip_block_hash = block_hash, tip_height = height \<rparr>,
               largest_final_height := last_final_height,
               timer := (timer d)\<lparr>timer_height := next_height, started := clock_now clk\<rparr>,
               approval_trackers := map fst (filter snd (zip (approval_trackers d) kept)),
               endorsement_pending := True\<rparr>)
     }"

definition raise_heights :: "approval \<Rightarrow> doomslug_block_production_readiness \<Rightarrow> doomslug \<Rightarrow> doomslug" where
  "raise_heights ap ret d =
     (let d = (if ap_target_height ap > largest_approval_height d then d\<lparr>largest_approval_height := ap_target_height ap\<rparr> else d)
      in if ret \<noteq> NotReady then
           if ap_target_height ap > largest_threshold_height d then d\<lparr>largest_threshold_height := ap_target_height ap\<rparr> else d
         else d)"

definition on_approval_message_internal ::
  "clock \<Rightarrow> approval \<Rightarrow> approval_stake list \<Rightarrow> doomslug \<Rightarrow> (doomslug_block_production_readiness \<times> doomslug) option" where
  "on_approval_message_internal clk ap stakes d =
     do {
       let th = (case hm_get (approval_trackers d) (ap_target_height ap) of Some th \<Rightarrow> th | None \<Rightarrow> at_height_new);
       (ret, th) \<leftarrow> at_height_process_approval clk ap stakes (threshold_mode d) th;
       let d = d\<lparr>approval_trackers := hm_insert (ap_target_height ap) th (approval_trackers d)\<rparr>;
       Some (ret, raise_heights ap ret d)
     }"

definition on_approval_message :: "clock \<Rightarrow> approval \<Rightarrow> approval_stake list \<Rightarrow> doomslug \<Rightarrow> doomslug option" where
  "on_approval_message clk ap stakes d =
     (if ap_target_height ap < tip_height (tip d) then Some d
      else do {
        horizon \<leftarrow> checked_add u64_w (tip_height (tip d)) MAX_HEIGHTS_AHEAD_TO_STORE_APPROVALS;
        if ap_target_height ap > horizon then Some d
        else do {
          (_, d) \<leftarrow> on_approval_message_internal clk ap stakes d;
          Some d
        }
      })"

definition approval_status_at_height :: "clock \<Rightarrow> block_height \<Rightarrow> doomslug \<Rightarrow> approval_at_height_status" where
  "approval_status_at_height clk height d =
     (case hm_get (approval_trackers d) height of
        None \<Rightarrow> \<lparr> status_approvals = hm_empty, status_ready_at = None \<rparr>
      | Some th \<Rightarrow> at_height_status clk th)"

definition ready_to_produce_block ::
  "clock \<Rightarrow> block_height \<Rightarrow> chunks_readiness \<Rightarrow> doomslug \<Rightarrow> (bool \<times> doomslug) option" where
  "ready_to_produce_block clk target chunks d =
     do {
       hash_or_height \<leftarrow> approval_inner_new (tip_block_hash (tip d)) (tip_height (tip d)) target;
       case hm_get (approval_trackers d) target of
         None \<Rightarrow> Some (False, d)
       | Some th \<Rightarrow>
           (case hm_get (trackers th) hash_or_height of
              None \<Rightarrow> Some (False, d)
            | Some t \<Rightarrow>
                do {
                  (readiness, t) \<leftarrow> get_block_production_readiness clk t;
                  let d = d\<lparr>approval_trackers := hm_insert target (th\<lparr>trackers := hm_insert hash_or_height t (trackers th)\<rparr>) (approval_trackers d)\<rparr>;
                  case readiness of
                    NotReady \<Rightarrow> Some (False, d)
                  | ReadySince when \<Rightarrow>
                      (case chunks of
                         ChunksReady _ \<Rightarrow> Some (True, d)
                       | ChunksNotReady \<Rightarrow>
                           do {
                             delay \<leftarrow> get_delay (saturating_sub (timer_height (timer d)) (largest_final_height d)) (timer d);
                             product \<leftarrow> duration_mul delay (chunk_wait_numer (timer d));
                             scaled \<leftarrow> checked_div product (chunk_wait_denom (timer d));
                             deadline \<leftarrow> time_add when scaled;
                             Some (clock_now clk > deadline, d)
                           })
                })
     }"

section \<open>The approvals sent\<close>

text \<open>The height of the block an approval builds on, and the order in which a validator approves.\<close>

definition parent_of :: "approval \<Rightarrow> block_height" where
  "parent_of ap = (case ap_inner ap of Endorsement _ \<Rightarrow> ap_target_height ap - 1 | Skip h \<Rightarrow> h)"

definition is_endorsement :: "approval \<Rightarrow> bool" where
  "is_endorsement ap = (case ap_inner ap of Endorsement _ \<Rightarrow> True | Skip _ \<Rightarrow> False)"

definition approves_before :: "approval \<Rightarrow> approval \<Rightarrow> bool" where
  "approves_before a b \<longleftrightarrow>
     (parent_of a < parent_of b \<or> parent_of a = parent_of b \<and> ap_target_height a < ap_target_height b) \<and>
     (is_endorsement b \<longrightarrow> ap_target_height a < ap_target_height b)"

definition sent_inv :: "doomslug \<Rightarrow> approval list \<Rightarrow> bool" where
  "sent_inv d as \<longleftrightarrow>
     tip_height (tip d) < timer_height (timer d) \<and> sorted_wrt approves_before as \<and>
     (\<forall>a \<in> set as. parent_of a < ap_target_height a \<and> ap_target_height a \<le> largest_target_height d \<and>
        parent_of a \<le> tip_height (tip d) \<and>
        (parent_of a = tip_height (tip d) \<longrightarrow> ap_target_height a \<le> timer_height (timer d)))"

lemma create_approval_ok:
  assumes "create_approval ser target signer d = Some r" and "tip_height (tip d) < target" and "ap \<in> set (approval_list r)"
  shows "ap_target_height ap = target" and "parent_of ap = tip_height (tip d)"
    and "is_endorsement ap \<longleftrightarrow> target = tip_height (tip d) + 1"
  using assms
  by (auto simp: create_approval_def approval_new_def approval_inner_new_def approval_list_def parent_of_def is_endorsement_def
      checked_add_def bind_eq_Some_conv Let_def split: option.splits if_splits)

lemma approval_list_length: "length (approval_list r) \<le> 1"
  by (simp add: approval_list_def split: option.split)

lemma sorted_wrt_snoc_list:
  assumes "sorted_wrt P as" and "length bs \<le> 1" and "\<And>a b. a \<in> set as \<Longrightarrow> b \<in> set bs \<Longrightarrow> P a b"
  shows "sorted_wrt P (as @ bs)"
  using assms by (cases bs) (auto simp: sorted_wrt_append)

lemma update_history_fields [simp]:
  "tip (update_history e d) = tip d" "timer (update_history e d) = timer d"
  "largest_target_height (update_history e d) = largest_target_height d"
  "largest_final_height (update_history e d) = largest_final_height d"
  "endorsement_pending (update_history e d) = endorsement_pending d"
  by (simp_all add: update_history_def)

lemma time_add_Some: "time_add a b = Some c \<longleftrightarrow> c = a + b \<and> a + b < time_limit"
  by (auto simp: time_add_def)

lemma timer_endorse_inv:
  assumes "sent_inv d as" and "timer_endorse ser clk signer d = Some (d', ret)"
  shows "sent_inv d' (as @ ret)"
proof (cases "endorsement_pending d \<and> clock_now clk \<ge> last_endorsement_sent (timer d) + endorsement_delay (timer d) \<and>
    tip_height (tip d) \<ge> largest_target_height d")
  case True
  let ?target = "tip_height (tip d) + 1"
  from True assms(2) obtain r where r: "create_approval ser ?target signer (d\<lparr>largest_target_height := ?target\<rparr>) = Some r"
    "ret = approval_list r" "tip d' = tip d" "timer_height (timer d') = timer_height (timer d)" "largest_target_height d' = ?target"
    by (auto simp: timer_endorse_def Let_def bind_eq_Some_conv checked_add_Some time_add_Some)
  have ap: "ap_target_height ap = ?target" "parent_of ap = tip_height (tip d)" if "ap \<in> set ret" for ap
    using create_approval_ok [OF r(1)] that r(2) by simp_all
  have "sorted_wrt approves_before (as @ ret)"
  proof (rule sorted_wrt_snoc_list)
    show "sorted_wrt approves_before as" using assms(1) by (simp add: sent_inv_def)
    show "length ret \<le> 1" unfolding r(2) by (rule approval_list_length)
    fix a b assume "a \<in> set as" "b \<in> set ret"
    with ap [of b] assms(1) True show "approves_before a b" by (fastforce simp: approves_before_def sent_inv_def)
  qed
  then show ?thesis using assms(1) True ap r(3-5) by (fastforce simp: sent_inv_def)
next
  case False
  then have "ret = []" "tip d' = tip d" "timer_height (timer d') = timer_height (timer d)" "largest_target_height d' = largest_target_height d"
    using assms(2) by (auto simp: timer_endorse_def Let_def bind_eq_Some_conv time_add_Some split: if_splits)
  then show ?thesis using assms(1) by (simp add: sent_inv_def)
qed

lemma timer_skip_inv:
  assumes "sent_inv d as" and "timer_skip ser clk signer delay d = Some (d', ret)"
  shows "sent_inv d' (as @ ret)"
proof -
  let ?target = "timer_height (timer d) + 1"
  from assms(2) obtain r where r: "create_approval ser ?target signer (d\<lparr>largest_target_height := max ?target (largest_target_height d)\<rparr>) = Some r"
    "ret = approval_list r" "tip d' = tip d" "timer_height (timer d') = ?target" "largest_target_height d' = max ?target (largest_target_height d)"
    by (auto simp: timer_skip_def Let_def bind_eq_Some_conv checked_add_Some time_add_Some)
  have tip: "tip_height (tip d) < timer_height (timer d)" using assms(1) by (simp add: sent_inv_def)
  have ap: "ap_target_height ap = ?target" "parent_of ap = tip_height (tip d)" "\<not> is_endorsement ap" if "ap \<in> set ret" for ap
    using create_approval_ok [OF r(1)] that r(2) tip by simp_all
  have "sorted_wrt approves_before (as @ ret)"
  proof (rule sorted_wrt_snoc_list)
    show "sorted_wrt approves_before as" using assms(1) by (simp add: sent_inv_def)
    show "length ret \<le> 1" unfolding r(2) by (rule approval_list_length)
    fix a b assume "a \<in> set as" "b \<in> set ret"
    with ap [of b] assms(1) show "approves_before a b" by (fastforce simp: approves_before_def sent_inv_def)
  qed
  then show ?thesis using assms(1) ap r(3-5) by (fastforce simp: sent_inv_def)
qed

lemma process_timer_loop_inv:
  "sent_inv d as \<Longrightarrow> process_timer_loop ser clk signer n d = Some (d', ret) \<Longrightarrow> sent_inv d' (as @ ret)"
proof (induction n arbitrary: d as ret)
  case (Suc n)
  from Suc.prems(2) obtain delay d1 r1 deadline where e: "timer_endorse ser clk signer d = Some (d1, r1)"
    and rest: "(if clock_now clk \<ge> deadline then
         do {
           (d, ret') \<leftarrow> timer_skip ser clk signer delay d1;
           (d, ret'') \<leftarrow> process_timer_loop ser clk signer n d;
           Some (d, r1 @ ret' @ ret'')
         }
       else Some (d1, r1)) = Some (d', ret)"
    by (auto simp: bind_eq_Some_conv)
  note i1 = timer_endorse_inv [OF Suc.prems(1) e]
  show ?case
  proof (cases "clock_now clk \<ge> deadline")
    case True
    with rest obtain d2 r2 r3 where s: "timer_skip ser clk signer delay d1 = Some (d2, r2)"
      "process_timer_loop ser clk signer n d2 = Some (d', r3)" "ret = r1 @ r2 @ r3"
      by (auto simp: bind_eq_Some_conv)
    from Suc.IH [OF timer_skip_inv [OF i1 s(1)] s(2)] show ?thesis by (simp add: s(3))
  next
    case False
    with rest i1 show ?thesis by simp
  qed
qed simp

text \<open>A run: the calls a node makes, and the approvals they return, in order.\<close>

datatype ds_event =
    SetTip clock crypto_hash block_height block_height
  | ProcessTimer clock "validator_signer option"
  | OnApprovalMessage clock approval "approval_stake list"
  | ReadyToProduceBlock clock block_height chunks_readiness

fun ds_step :: "(approval_inner \<Rightarrow> byte list) \<Rightarrow> ds_event \<Rightarrow> doomslug \<Rightarrow> (doomslug \<times> approval list) option" where
  "ds_step ser (SetTip clk h height final) d = map_option (\<lambda>d. (d, [])) (set_tip clk h height final d)"
| "ds_step ser (ProcessTimer clk signer) d = process_timer ser clk signer d"
| "ds_step ser (OnApprovalMessage clk ap stakes) d = map_option (\<lambda>d. (d, [])) (on_approval_message clk ap stakes d)"
| "ds_step ser (ReadyToProduceBlock clk target chunks) d = map_option (\<lambda>(_, d). (d, [])) (ready_to_produce_block clk target chunks d)"

text \<open>The tip only moves up, as the assertion in \<open>set_tip\<close> demands.\<close>

fun tip_rises :: "ds_event \<Rightarrow> doomslug \<Rightarrow> bool" where
  "tip_rises (SetTip clk h height final) d \<longleftrightarrow> tip_height (tip d) < height"
| "tip_rises _ d \<longleftrightarrow> True"

inductive ds_run :: "(approval_inner \<Rightarrow> byte list) \<Rightarrow> doomslug \<Rightarrow> ds_event list \<Rightarrow> doomslug \<Rightarrow> approval list \<Rightarrow> bool"
  for ser where
  run_start: "ds_run ser d [] d []"
| run_step: "ds_run ser d es d' as \<Longrightarrow> tip_rises e d' \<Longrightarrow> ds_step ser e d' = Some (d'', bs) \<Longrightarrow>
    ds_run ser d (es @ [e]) d'' (as @ bs)"

lemma raise_heights_fields [simp]:
  "tip (raise_heights ap r d) = tip d" "timer (raise_heights ap r d) = timer d"
  "largest_target_height (raise_heights ap r d) = largest_target_height d"
  "approval_trackers (raise_heights ap r d) = approval_trackers d"
  by (simp_all add: raise_heights_def Let_def)

lemma on_approval_internal_fields:
  assumes "on_approval_message_internal clk ap stakes d = Some (r, d')"
  shows "tip d' = tip d" and "timer d' = timer d" and "largest_target_height d' = largest_target_height d"
  using assms by (auto simp: on_approval_message_internal_def bind_eq_Some_conv Let_def)

lemma on_approval_message_fields:
  assumes "on_approval_message clk ap stakes d = Some d'"
  shows "tip d' = tip d \<and> timer d' = timer d \<and> largest_target_height d' = largest_target_height d"
proof -
  consider "d' = d" | r where "on_approval_message_internal clk ap stakes d = Some (r, d')"
    using assms by (auto simp: on_approval_message_def bind_eq_Some_conv split: if_splits)
  then show ?thesis by cases (simp_all add: on_approval_internal_fields)
qed

lemma ready_to_produce_block_fields:
  assumes "ready_to_produce_block clk target chunks d = Some (b, d')"
  shows "tip d' = tip d \<and> timer d' = timer d \<and> largest_target_height d' = largest_target_height d"
proof -
  obtain h where h: "approval_inner_new (tip_block_hash (tip d)) (tip_height (tip d)) target = Some h"
    using assms by (auto simp: ready_to_produce_block_def bind_eq_Some_conv)
  show ?thesis
  proof (cases "hm_get (approval_trackers d) target")
    case None
    then show ?thesis using assms by (simp add: ready_to_produce_block_def h)
  next
    case th: (Some th)
    show ?thesis
    proof (cases "hm_get (trackers th) h")
      case None
      then show ?thesis using assms th by (simp add: ready_to_produce_block_def h)
    next
      case (Some t)
      obtain r t' where r: "get_block_production_readiness clk t = Some (r, t')"
        using assms th Some by (auto simp: ready_to_produce_block_def h bind_eq_Some_conv)
      show ?thesis using assms th Some
        by (cases r; cases chunks) (auto simp: ready_to_produce_block_def h r Let_def bind_eq_Some_conv)
    qed
  qed
qed

lemma ds_step_inv:
  assumes "sent_inv d as" and "tip_rises e d" and "ds_step ser e d = Some (d', bs)"
  shows "sent_inv d' (as @ bs)"
proof (cases e)
  case (SetTip clk h height final)
  then show ?thesis using assms by (fastforce simp: set_tip_def bind_eq_Some_conv checked_add_Some sent_inv_def)
next
  case (ProcessTimer clk signer)
  then show ?thesis using assms process_timer_loop_inv by (auto simp: process_timer_def)
next
  case (OnApprovalMessage clk ap stakes)
  then show ?thesis using assms on_approval_message_fields by (auto simp: sent_inv_def)
next
  case (ReadyToProduceBlock clk target chunks)
  then show ?thesis using assms ready_to_produce_block_fields by (auto simp: sent_inv_def)
qed

text \<open>
  C32: The approvals a validator sends never conflict.  In every run in which the tip rises,
  starting from a node whose tip is set, they are sent in strictly increasing order of the parent
  height and then the target height, so no pair of them is sent twice; an endorsement is sent only
  when its target exceeds the targets of all approvals sent before; and every approval targets a
  height above its parent, so after an endorsement all later approvals target greater heights.
\<close>

theorem approvals_never_conflict:
  assumes "ds_run ser d es d' as" and "tip_height (tip d) < timer_height (timer d)"
  shows "sorted_wrt approves_before as \<and> (\<forall>a \<in> set as. parent_of a < ap_target_height a)"
proof -
  have "sent_inv d' as"
    using assms
  proof (induction rule: ds_run.induct)
    case (run_start d)
    then show ?case by (simp add: sent_inv_def)
  next
    case (run_step d es d' as e d'' bs)
    then show ?case using ds_step_inv by blast
  qed
  then show ?thesis by (simp add: sent_inv_def)
qed

text \<open>An example: two tips, each endorsed after 400 milliseconds.\<close>

definition example_clock :: "nat \<Rightarrow> clock" where
  "example_clock ms = \<lparr> clock_now = ms * 1000000, clock_now_utc = ms * 1000000 \<rparr>"

definition example_signer :: validator_signer where
  "example_signer = \<lparr> validator_id = ''alice'', sign_bytes = take 64 \<rparr>"

definition example_tip_5 :: doomslug where
  "example_tip_5 =
     the (set_tip (example_clock 0) crypto_hash_new 5 3
       (doomslug_new (example_clock 0) 0 400000000 1000000000 100000000 3000000000 1 3 TwoThirds))"

definition example_events :: "ds_event list" where
  "example_events =
     [ProcessTimer (example_clock 400) (Some example_signer), SetTip (example_clock 800) crypto_hash_new 7 5,
      ProcessTimer (example_clock 1900) (Some example_signer)]"

fun ds_exec :: "(approval_inner \<Rightarrow> byte list) \<Rightarrow> ds_event list \<Rightarrow> doomslug \<Rightarrow> (doomslug \<times> approval list) option" where
  "ds_exec ser [] d = Some (d, [])"
| "ds_exec ser (e # es) d =
     do {
       assert (tip_rises e d);
       (d, as) \<leftarrow> ds_step ser e d;
       (d, bs) \<leftarrow> ds_exec ser es d;
       Some (d, as @ bs)
     }"

lemma ds_run_exec:
  "ds_run ser d es d' as \<Longrightarrow> ds_exec ser fs d' = Some (d'', bs) \<Longrightarrow> ds_run ser d (es @ fs) d'' (as @ bs)"
proof (induction fs arbitrary: es as d' bs)
  case (Cons f fs)
  then obtain d1 a1 b1 where "tip_rises f d'" "ds_step ser f d' = Some (d1, a1)" "ds_exec ser fs d1 = Some (d'', b1)" "bs = a1 @ b1"
    by (auto simp: bind_eq_Some_conv)
  with Cons.IH [OF run_step [OF Cons.prems(1)]] show ?case by simp
qed simp

lemmas process_timer_loop_numeral =
  process_timer_loop.simps(2) [of _ _ _ "pred_numeral k" for k, folded numeral_eq_Suc]

theorem approvals_never_conflict_witness:
  "\<exists>d as. ds_exec (\<lambda>_. []) example_events example_tip_5 = Some (d, as) \<and>
     map ap_target_height as = [6, 8, 9] \<and> map is_endorsement as = [True, True, False] \<and> sorted_wrt approves_before as"
proof -
  have tip: "tip_height (tip example_tip_5) < timer_height (timer example_tip_5)"
    by (simp add: example_tip_5_def set_tip_def doomslug_new_def checked_add_def hm_empty_def)
  have "case ds_exec (\<lambda>_. []) example_events example_tip_5 of None \<Rightarrow> False
    | Some (d, as) \<Rightarrow> map ap_target_height as = [6, 8, 9] \<and> map is_endorsement as = [True, True, False]"
    by (simp add: example_events_def example_tip_5_def set_tip_def doomslug_new_def checked_add_def hm_empty_def
        example_clock_def process_timer_def MAX_TIMER_ITERS_def process_timer_loop_numeral timer_endorse_def timer_skip_def Let_def
        create_approval_def approval_new_def approval_inner_new_def approval_list_def get_delay_def saturating_sub_def
        fits_def is_endorsement_def example_signer_def update_history_def MAX_HISTORY_SIZE_def time_add_def duration_mul_def time_limit_def)
  then obtain d as where e: "ds_exec (\<lambda>_. []) example_events example_tip_5 = Some (d, as)"
    "map ap_target_height as = [6, 8, 9]" "map is_endorsement as = [True, True, False]"
    by (auto split: option.splits)
  from tip approvals_never_conflict [of "\<lambda>_. []" example_tip_5 "[] @ example_events" d "[] @ as"]
    ds_run_exec [OF run_start e(1)] e show ?thesis by auto
qed

section \<open>Progress\<close>

text \<open>An approval with its signature.\<close>

definition signed_approval :: "(approval_inner \<Rightarrow> byte list) \<Rightarrow> validator_signer \<Rightarrow> approval_inner \<Rightarrow> block_height \<Rightarrow> approval" where
  "signed_approval ser s inner target =
     \<lparr> ap_inner = inner, ap_target_height = target, ap_signature = sign_bytes s (get_data_for_sig ser inner target), ap_account_id = validator_id s \<rparr>"

lemma create_approval_signed:
  assumes "tip_height (tip d) + 1 < 2 ^ 64"
  shows "create_approval ser target (Some s) d =
    Some (Some (signed_approval ser s (if target = tip_height (tip d) + 1 then Endorsement (tip_block_hash (tip d)) else Skip (tip_height (tip d))) target))"
  using assms by (simp add: create_approval_def approval_new_def approval_inner_new_def checked_add_def signed_approval_def Let_def)

text \<open>The endorsement, if one is due, clears the way for the skip messages.\<close>

definition endorsements_due :: "(approval_inner \<Rightarrow> byte list) \<Rightarrow> validator_signer \<Rightarrow> doomslug \<Rightarrow> approval list" where
  "endorsements_due ser s d =
     (if endorsement_pending d \<and> largest_target_height d \<le> tip_height (tip d)
      then [signed_approval ser s (Endorsement (tip_block_hash (tip d))) (tip_height (tip d) + 1)] else [])"

lemma timer_endorse_due:
  assumes "tip_height (tip d) + 1 < 2 ^ 64" and "clock_now clk < time_limit"
    and "endorsement_pending d \<Longrightarrow> last_endorsement_sent (timer d) + endorsement_delay (timer d) \<le> clock_now clk"
  obtains d' where "timer_endorse ser clk (Some s) d = Some (d', endorsements_due ser s d)" "\<not> endorsement_pending d'"
    "tip d' = tip d" "largest_final_height d' = largest_final_height d"
    "timer d' = (timer d)\<lparr>last_endorsement_sent := last_endorsement_sent (timer d')\<rparr>" "\<not> endorsement_pending d \<Longrightarrow> d' = d"
proof (cases "endorsement_pending d")
  case False
  then show thesis using that [of d] by (simp add: timer_endorse_def endorsements_due_def)
next
  case True
  then have "time_add (last_endorsement_sent (timer d)) (endorsement_delay (timer d)) = Some (last_endorsement_sent (timer d) + endorsement_delay (timer d))"
    using assms(2,3) by (simp add: time_add_def)
  then show thesis
    using that True assms create_approval_signed [of "d\<lparr>largest_target_height := tip_height (tip d) + 1\<rparr>" ser "tip_height (tip d) + 1" s]
    by (cases "largest_target_height d \<le> tip_height (tip d)") (simp_all add: timer_endorse_def endorsements_due_def Let_def checked_add_def approval_list_def)
qed

text \<open>The delay is defined for every height when the longest one before the cut is a duration.\<close>

lemma get_delay_le:
  assumes "min_delay t + delay_step t * int_max u32_w < time_limit"
  obtains delay where "get_delay n t = Some delay" "delay \<le> max_delay t"
proof -
  let ?n = "saturating_sub (if fits u32_w n then n else int_max u32_w) 2"
  have "?n \<le> int_max u32_w" by (auto simp: saturating_sub_def fits_def int_max_def)
  then have "delay_step t * ?n \<le> delay_step t * int_max u32_w" by simp
  then have "min_delay t + delay_step t * ?n < time_limit" using assms by linarith
  then show thesis using that by (simp add: get_delay_def duration_mul_def time_add_def Let_def)
qed

lemma timer_skip_sends:
  assumes "tip_height (tip d) < timer_height (timer d)" and "timer_height (timer d) + 1 < 2 ^ 64" and "started (timer d) + delay < time_limit"
  obtains d' where "timer_skip ser clk (Some s) delay d = Some (d', [signed_approval ser s (Skip (tip_height (tip d))) (timer_height (timer d) + 1)])"
    "tip d' = tip d" "endorsement_pending d' = endorsement_pending d"
    "timer d' = (timer d)\<lparr>started := started (timer d) + delay, timer_height := timer_height (timer d) + 1\<rparr>"
  using assms that create_approval_signed [of "d\<lparr>largest_target_height := max (timer_height (timer d) + 1) (largest_target_height d)\<rparr>" ser "timer_height (timer d) + 1" s]
  by (simp add: timer_skip_def Let_def checked_add_def approval_list_def time_add_def)

text \<open>With the endorsement out of the way the loop sends one skip message per iteration.\<close>

lemma process_timer_loop_skips:
  assumes "tip_height (tip d) < timer_height (timer d)" and "timer_height (timer d) + n < 2 ^ 64"
    and "started (timer d) + n * max_delay (timer d) \<le> clock_now clk" and "clock_now clk < time_limit" and "\<not> endorsement_pending d"
    and "min_delay (timer d) + delay_step (timer d) * int_max u32_w < time_limit"
  shows "\<exists>d'. process_timer_loop ser clk (Some s) n d =
      Some (d', map (signed_approval ser s (Skip (tip_height (tip d)))) [timer_height (timer d) + 1 ..< timer_height (timer d) + n + 1]) \<and>
    timer_height (timer d') = timer_height (timer d) + n \<and> \<not> endorsement_pending d'"
  using assms
proof (induction n arbitrary: d)
  case (Suc n)
  let ?h = "timer_height (timer d)"
  obtain delay where delay: "get_delay (saturating_sub ?h (largest_final_height d)) (timer d) = Some delay" "delay \<le> max_delay (timer d)"
    by (rule get_delay_le [OF Suc.prems(6)])
  have d1: "timer_endorse ser clk (Some s) d = Some (d, [])" using Suc.prems(5) by (simp add: timer_endorse_def)
  have passed: "started (timer d) + delay \<le> clock_now clk" using delay(2) Suc.prems(3) by simp
  have h: "?h + 1 < 2 ^ 64" "started (timer d) + delay < time_limit" using Suc.prems(2,4) passed by simp_all
  obtain d2 where d2: "timer_skip ser clk (Some s) delay d = Some (d2, [signed_approval ser s (Skip (tip_height (tip d))) (?h + 1)])"
    "tip d2 = tip d" "endorsement_pending d2 = endorsement_pending d" "timer d2 = (timer d)\<lparr>started := started (timer d) + delay, timer_height := ?h + 1\<rparr>"
    by (rule timer_skip_sends [OF Suc.prems(1) h])
  have "started (timer d2) + n * max_delay (timer d2) \<le> clock_now clk" using delay(2) Suc.prems(3) d2(4) by simp
  then obtain d3 where r: "process_timer_loop ser clk (Some s) n d2 =
      Some (d3, map (signed_approval ser s (Skip (tip_height (tip d)))) [?h + 2 ..< ?h + n + 2])" "timer_height (timer d3) = ?h + Suc n" "\<not> endorsement_pending d3"
    using Suc.IH [of d2] d2 Suc.prems by auto
  have "[?h + 1 ..< ?h + Suc n + 1] = (?h + 1) # [?h + 2 ..< ?h + n + 2]" by (subst upt_rec) simp
  then show ?case using d1 d2(1) r delay(1) passed h(2) by (simp add: time_add_def)
qed simp

text \<open>
  C35: The timer makes progress.  Take a validator with a key whose timer is at a height above its tip, as it is
  once the tip has been set.  When it calls the timer late enough for \<open>MAX_TIMER_ITERS\<close> delays to have
  passed, the call does not panic.  It returns, signed by the validator, the endorsement of the tip if it is pending
  and no approval for a height above the tip was sent before, and then a skip message from the tip to each of the
  next \<open>MAX_TIMER_ITERS\<close> heights in order, and nothing else.
\<close>

theorem process_timer_progress:
  assumes "tip_height (tip d) < timer_height (timer d)" and "timer_height (timer d) + MAX_TIMER_ITERS < 2 ^ 64"
    and "started (timer d) + MAX_TIMER_ITERS * max_delay (timer d) \<le> clock_now clk" and "clock_now clk < time_limit"
    and "last_endorsement_sent (timer d) + endorsement_delay (timer d) \<le> clock_now clk"
    and "min_delay (timer d) + delay_step (timer d) * int_max u32_w < time_limit"
  shows "\<exists>d'. process_timer ser clk (Some s) d =
      Some (d', (if endorsement_pending d \<and> largest_target_height d \<le> tip_height (tip d)
                 then [signed_approval ser s (Endorsement (tip_block_hash (tip d))) (tip_height (tip d) + 1)] else []) @
        map (signed_approval ser s (Skip (tip_height (tip d)))) [timer_height (timer d) + 1 ..< timer_height (timer d) + MAX_TIMER_ITERS + 1]) \<and>
    timer_height (timer d') = timer_height (timer d) + MAX_TIMER_ITERS \<and> \<not> endorsement_pending d'"
proof -
  have tip: "tip_height (tip d) + 1 < 2 ^ 64" using assms(1,2) by simp
  obtain d1 where d1: "timer_endorse ser clk (Some s) d = Some (d1, endorsements_due ser s d)" "\<not> endorsement_pending d1"
    "tip d1 = tip d" "largest_final_height d1 = largest_final_height d" "timer d1 = (timer d)\<lparr>last_endorsement_sent := last_endorsement_sent (timer d1)\<rparr>"
    by (rule timer_endorse_due [OF tip assms(4,5)])
  have fields: "timer_height (timer d1) = timer_height (timer d)" "started (timer d1) = started (timer d)" "max_delay (timer d1) = max_delay (timer d)"
    "min_delay (timer d1) = min_delay (timer d)" "delay_step (timer d1) = delay_step (timer d)" "get_delay n (timer d1) = get_delay n (timer d)" for n
    by (subst d1(5), simp add: get_delay_def)+
  obtain d' where r: "process_timer_loop ser clk (Some s) MAX_TIMER_ITERS d1 =
      Some (d', map (signed_approval ser s (Skip (tip_height (tip d)))) [timer_height (timer d) + 1 ..< timer_height (timer d) + MAX_TIMER_ITERS + 1])"
    "timer_height (timer d') = timer_height (timer d) + MAX_TIMER_ITERS" "\<not> endorsement_pending d'"
    using process_timer_loop_skips [of d1 MAX_TIMER_ITERS clk ser s] assms(1-4,6) d1(2,3) fields(1-5) by auto
  obtain n where n: "MAX_TIMER_ITERS = Suc n" by (simp add: MAX_TIMER_ITERS_def numeral_eq_Suc)
  have "timer_endorse ser clk (Some s) d1 = Some (d1, [])" using d1(2) by (simp add: timer_endorse_def)
  then have "process_timer_loop ser clk (Some s) MAX_TIMER_ITERS d = map_option (map_prod id ((@) (endorsements_due ser s d))) (process_timer_loop ser clk (Some s) MAX_TIMER_ITERS d1)"
    using d1(1,4) fields by (auto simp: n bind_eq_Some_conv split: bind_splits)
  then show ?thesis using r by (simp add: process_timer_def endorsements_due_def)
qed

theorem process_timer_progress_witness:
  "\<exists>d'. process_timer (\<lambda>_. []) (example_clock 60000) (Some example_signer) example_tip_5 =
     Some (d', signed_approval (\<lambda>_. []) example_signer (Endorsement crypto_hash_new) 6 # map (signed_approval (\<lambda>_. []) example_signer (Skip 5)) [7 ..< 27])"
proof -
  have tip: "tip_height (tip example_tip_5) = 5" "tip_block_hash (tip example_tip_5) = crypto_hash_new" "timer_height (timer example_tip_5) = 6"
    "started (timer example_tip_5) = 0" "last_endorsement_sent (timer example_tip_5) = 0" "endorsement_delay (timer example_tip_5) = 400000000"
    "min_delay (timer example_tip_5) = 1000000000" "delay_step (timer example_tip_5) = 100000000" "max_delay (timer example_tip_5) = 3000000000"
    "endorsement_pending example_tip_5" "largest_target_height example_tip_5 = 0"
    by (simp_all add: example_tip_5_def set_tip_def doomslug_new_def checked_add_def hm_empty_def example_clock_def)
  have now: "clock_now (example_clock 60000) = 60000000000" by (simp add: example_clock_def)
  have "[7 ..< 27] = [6 + 1 ..< 6 + 20 + 1 :: nat]" by (rule arg_cong2 [of _ _ _ _ upt]) simp_all
  then show ?thesis
    using process_timer_progress [of example_tip_5 "example_clock 60000" "\<lambda>_. []" example_signer]
    unfolding tip now MAX_TIMER_ITERS_def time_limit_def int_max_def by (auto simp: tip(10))
qed

section \<open>The approvals received\<close>

lemma checked_sum_eq: "checked_sum w xs = (if sum_list xs < 2 ^ w then Some (sum_list xs) else None)"
proof -
  have "fold_opt (\<lambda>x s. checked_add w s x) xs s = (if s + sum_list xs < 2 ^ w then Some (s + sum_list xs) else None)"
    if "s < 2 ^ w" for s
    using that
  proof (induction xs arbitrary: s)
    case (Cons x xs)
    then show ?case by (auto simp: checked_add_def add.assoc)
  qed simp
  from this [of 0] show ?thesis by (simp add: checked_sum_def)
qed

definition stake_map :: "approval_stake list \<Rightarrow> (account_id, balance \<times> balance) hmap" where
  "stake_map S = map (\<lambda>x. (as_account_id x, (as_stake_this_epoch x, as_stake_next_epoch x))) S"

definition stakes_ok :: "approval_stake list \<Rightarrow> bool" where
  "stakes_ok S \<longleftrightarrow> distinct (map as_account_id S) \<and>
     2 * sum_list (map as_stake_this_epoch S) < 2 ^ 128 \<and> 2 * sum_list (map as_stake_next_epoch S) < 2 ^ 128"

definition stake_of :: "approval_stake list \<Rightarrow> account_id \<Rightarrow> balance \<times> balance" where
  "stake_of S a = (case map_of (stake_map S) a of None \<Rightarrow> (0, 0) | Some p \<Rightarrow> p)"

definition weight :: "(balance \<times> balance \<Rightarrow> balance) \<Rightarrow> approval_stake list \<Rightarrow> account_id set \<Rightarrow> balance" where
  "weight f S A = (\<Sum>a \<in> A. f (stake_of S a))"

definition accounts :: "('k, 'v) hmap \<Rightarrow> 'k set" where
  "accounts m = fst ` set m"

lemma accounts_simps [simp]:
  "finite (accounts m)" "accounts hm_empty = {}" "accounts (hm_insert k v m) = insert k (accounts m)"
  "accounts (hm_remove k m) = accounts m - {k}" "set hm_empty = {}"
  by (auto simp: accounts_def hm_empty_def hm_insert_keys hm_remove_def AList.delete_eq image_iff)

lemma accounts_stake_map: "accounts (stake_map S) = as_account_id ` set S"
  by (auto simp: accounts_def stake_map_def image_iff)

lemma hm_insert_fresh: "k \<notin> accounts m \<Longrightarrow> set (hm_insert k v m) = insert (k, v) (set m)"
  by (simp add: accounts_def hm_insert_new)

lemma hm_get_accounts: "hm_get m a \<noteq> None \<longleftrightarrow> a \<in> accounts m"
  by (auto simp: hm_get_def map_of_eq_None_iff accounts_def)

text \<open>The state of a tracker is determined by the accounts in its witness.\<close>

definition tracker_ok :: "approval_stake list \<Rightarrow> doomslug_threshold_mode \<Rightarrow> doomslug_approvals_tracker \<Rightarrow> bool" where
  "tracker_ok S mode t \<longleftrightarrow>
     hm_inv (witness t) \<and> account_id_to_stakes t = stake_map S \<and> tracker_threshold_mode t = mode \<and>
     accounts (witness t) \<subseteq> accounts (stake_map S) \<and>
     (\<forall>(a, (ap, _)) \<in> set (witness t). ap_account_id ap = a) \<and>
     total_stake_this_epoch t = weight fst S (accounts (stake_map S)) \<and>
     total_stake_next_epoch t = weight snd S (accounts (stake_map S)) \<and>
     approved_stake_this_epoch t = weight fst S (accounts (witness t)) \<and>
     approved_stake_next_epoch t = weight snd S (accounts (witness t))"

lemma weight_all:
  assumes "distinct (map as_account_id S)"
  shows "weight fst S (accounts (stake_map S)) = sum_list (map as_stake_this_epoch S)"
    and "weight snd S (accounts (stake_map S)) = sum_list (map as_stake_next_epoch S)"
proof -
  have inj: "inj_on as_account_id (set S)" "distinct S" using assms by (simp_all add: distinct_map)
  have mem: "stake_of S (as_account_id x) = (as_stake_this_epoch x, as_stake_next_epoch x)" if "x \<in> set S" for x
  proof -
    have "map_of (stake_map S) (as_account_id x) = Some (as_stake_this_epoch x, as_stake_next_epoch x)"
      using that assms by (intro map_of_is_SomeI) (auto simp: stake_map_def o_def)
    then show ?thesis by (simp add: stake_of_def)
  qed
  have "weight f S (accounts (stake_map S)) = (\<Sum>x \<in> set S. f (as_stake_this_epoch x, as_stake_next_epoch x))" for f
    by (simp add: weight_def accounts_stake_map sum.reindex [OF inj(1)] mem)
  then show "weight fst S (accounts (stake_map S)) = sum_list (map as_stake_this_epoch S)"
    "weight snd S (accounts (stake_map S)) = sum_list (map as_stake_next_epoch S)"
    using inj(2) by (simp_all add: sum_list_distinct_conv_sum_set)
qed

lemma weight_mono: "A \<subseteq> accounts (stake_map S) \<Longrightarrow> weight f S A \<le> weight f S (accounts (stake_map S))"
  unfolding weight_def by (rule sum_mono2) simp_all

lemma weight_disjoint:
  assumes "A \<inter> B = {}" and "A \<union> B \<subseteq> accounts (stake_map S)"
  shows "weight f S A + weight f S B \<le> weight f S (accounts (stake_map S))"
proof -
  have "finite (A \<union> B)" using assms(2) by (rule finite_subset) simp
  then have "weight f S A + weight f S B = weight f S (A \<union> B)"
    using assms(1) by (simp add: weight_def sum.union_disjoint)
  then show ?thesis using weight_mono [OF assms(2)] by simp
qed

lemma tracker_new_ok:
  assumes "stakes_ok S"
  shows "\<exists>t. tracker_new (stake_map S) mode = Some t \<and> tracker_ok S mode t \<and> witness t = hm_empty"
proof -
  have "map fst (hm_values (stake_map S)) = map as_stake_this_epoch S" "map snd (hm_values (stake_map S)) = map as_stake_next_epoch S"
    by (simp_all add: hm_values_def stake_map_def)
  then show ?thesis using assms weight_all [of S]
    by (simp add: tracker_new_def checked_sum_eq stakes_ok_def tracker_ok_def weight_def)
qed

lemma threshold_crossed_total:
  assumes "stakes_ok S" and "tracker_ok S mode t"
  shows "threshold_crossed t =
    Some ((approved_stake_this_epoch t > total_stake_this_epoch t * 2 div 3 \<and>
       (approved_stake_next_epoch t > total_stake_next_epoch t * 2 div 3 \<or> total_stake_next_epoch t = 0)) \<or> mode = NoApprovals)"
proof -
  have "distinct (map as_account_id S)" using assms(1) by (simp add: stakes_ok_def)
  note w = weight_all [OF this]
  have "total_stake_this_epoch t * 2 < 2 ^ 128" "total_stake_next_epoch t * 2 < 2 ^ 128" "tracker_threshold_mode t = mode"
    using assms by (simp_all add: tracker_ok_def stakes_ok_def w)
  then show ?thesis by (simp add: threshold_crossed_def checked_mul_def)
qed

lemma readiness_ok:
  assumes "stakes_ok S" and "tracker_ok S mode t"
  shows "\<exists>r t'. get_block_production_readiness clk t = Some (r, t') \<and> tracker_ok S mode t' \<and> witness t' = witness t"
  using assms threshold_crossed_total [OF assms]
  by (auto simp: get_block_production_readiness_def tracker_ok_def Let_def)

lemma stakes_of_eq: "tracker_ok S mode t \<Longrightarrow> stakes_of t a = stake_of S a"
  by (simp add: tracker_ok_def stakes_of_def stake_of_def hm_get_def)

lemma tracker_process_approval_ok:
  assumes "stakes_ok S" and "tracker_ok S mode t" and "ap_account_id ap \<in> accounts (stake_map S)"
    and "ap_account_id ap \<notin> accounts (witness t)"
  shows "\<exists>r t'. tracker_process_approval clk ap t = Some (r, t') \<and> tracker_ok S mode t' \<and>
    accounts (witness t') = insert (ap_account_id ap) (accounts (witness t))"
proof -
  let ?a = "ap_account_id ap"
  let ?t = "t\<lparr>witness := hm_insert ?a (ap, clock_now_utc clk) (witness t),
    approved_stake_this_epoch := approved_stake_this_epoch t + fst (stake_of S ?a),
    approved_stake_next_epoch := approved_stake_next_epoch t + snd (stake_of S ?a)\<rparr>"
  have none: "hm_get (witness t) ?a = None" using assms(4) hm_get_accounts by metis
  have ins: "weight f S (insert ?a (accounts (witness t))) = weight f S (accounts (witness t)) + f (stake_of S ?a)" for f
    using assms(4) by (simp add: weight_def)
  have sub: "insert ?a (accounts (witness t)) \<subseteq> accounts (stake_map S)" using assms(2,3) by (simp add: tracker_ok_def)
  have ok: "tracker_ok S mode ?t"
    using assms(2-4) sub by (auto simp: tracker_ok_def ins hm_insert_fresh)
  have "distinct (map as_account_id S)" using assms(1) by (simp add: stakes_ok_def)
  then have "weight fst S (insert ?a (accounts (witness t))) < 2 ^ 128" "weight snd S (insert ?a (accounts (witness t))) < 2 ^ 128"
    using weight_mono [OF sub, of fst] weight_mono [OF sub, of snd] assms(1) by (simp_all add: stakes_ok_def weight_all)
  then have "tracker_process_approval clk ap t = get_block_production_readiness clk ?t"
    using assms(2) none by (simp add: tracker_process_approval_def stakes_of_eq [OF assms(2)] checked_add_def ins tracker_ok_def Let_def)
  then show ?thesis using readiness_ok [OF assms(1) ok, of clk] by (auto simp: hm_insert_keys)
qed

lemma withdraw_approval_ok:
  assumes "tracker_ok S mode t"
  shows "\<exists>t'. withdraw_approval a t = Some t' \<and> tracker_ok S mode t' \<and> accounts (witness t') = accounts (witness t) - {a}"
proof (cases "hm_get (witness t) a")
  case None
  then have "a \<notin> accounts (witness t)" using hm_get_accounts by metis
  then show ?thesis using None assms by (simp add: withdraw_approval_def)
next
  case (Some p)
  obtain ap u where p: "p = (ap, u)" by (cases p)
  have "(a, (ap, u)) \<in> set (witness t)" using Some by (simp add: p hm_get_def map_of_SomeD)
  then have ap: "ap_account_id ap = a" "a \<in> accounts (witness t)"
    using assms by (auto simp: tracker_ok_def accounts_def rev_image_eqI)
  have rem: "weight f S (accounts (witness t)) = weight f S (accounts (witness t) - {a}) + f (stake_of S a)" for f
    using ap(2) by (simp add: weight_def sum.remove [of _ a])
  have "tracker_ok S mode (t\<lparr>witness := hm_remove a (witness t), approved_stake_this_epoch := approved_stake_this_epoch t - fst (stake_of S a),
      approved_stake_next_epoch := approved_stake_next_epoch t - snd (stake_of S a)\<rparr>)"
    using assms rem [of fst] rem [of snd]
    by (auto simp: tracker_ok_def) (auto simp: hm_remove_def AList.delete_eq)
  moreover have "fst (stake_of S a) \<le> approved_stake_this_epoch t" "snd (stake_of S a) \<le> approved_stake_next_epoch t"
    using assms rem [of fst] rem [of snd] by (simp_all add: tracker_ok_def)
  ultimately show ?thesis
    using Some by (simp add: withdraw_approval_def p ap stakes_of_eq [OF assms] checked_sub_def Let_def)
qed

text \<open>At one height an account is in the witness of at most one tracker, the one of its last approval.\<close>

definition at_height_ok :: "approval_stake list \<Rightarrow> doomslug_threshold_mode \<Rightarrow> trackers_at_height \<Rightarrow> bool" where
  "at_height_ok S mode th \<longleftrightarrow>
     (\<forall>inner t. hm_get (trackers th) inner = Some t \<longrightarrow>
        tracker_ok S mode t \<and> (\<forall>a \<in> accounts (witness t). hm_get (last_approval_per_account th) a = Some inner))"

lemma at_height_new_ok: "at_height_ok S mode at_height_new"
  by (simp add: at_height_ok_def at_height_new_def)

lemma at_height_okD:
  assumes "at_height_ok S mode th" and "hm_get (trackers th) inner = Some t"
  shows "tracker_ok S mode t" and "a \<in> accounts (witness t) \<Longrightarrow> hm_get (last_approval_per_account th) a = Some inner"
  using assms unfolding at_height_ok_def by blast+

lemma withdraw_last_ok:
  assumes "at_height_ok S mode th"
  shows "\<exists>th'. withdraw_last a th = Some th' \<and> at_height_ok S mode th' \<and>
    (\<forall>inner t. hm_get (trackers th') inner = Some t \<longrightarrow> a \<notin> accounts (witness t))"
proof (cases "hm_get (last_approval_per_account th) a")
  case None
  then have "a \<notin> accounts (witness t)" if "hm_get (trackers th) inner = Some t" for inner t
    using at_height_okD(2) [OF assms that, of a] None by (metis option.distinct(1))
  then show ?thesis using None assms by (auto simp: withdraw_last_def)
next
  case (Some p)
  then have other: "inner = p" if "hm_get (trackers th) inner = Some t" "a \<in> accounts (witness t)" for inner t
    using at_height_okD(2) [OF assms that] by simp
  show ?thesis
  proof (cases "hm_get (trackers th) p")
    case None
    have "a \<notin> accounts (witness t)" if "hm_get (trackers th) inner = Some t" for inner t
      using other [OF that] that None by (metis option.distinct(1))
    then show ?thesis using Some None assms by (auto simp: withdraw_last_def)
  next
    case t: (Some t)
    obtain t' where t': "withdraw_approval a t = Some t'" "tracker_ok S mode t'" "accounts (witness t') = accounts (witness t) - {a}"
      using withdraw_approval_ok [OF at_height_okD(1) [OF assms t]] by blast
    define th' where "th' = th\<lparr>trackers := (if witness t' = hm_empty then hm_remove p (trackers th) else hm_insert p t' (trackers th))\<rparr>"
    have cases: "inner = p \<and> x = t' \<or> inner \<noteq> p \<and> hm_get (trackers th) inner = Some x"
      if "hm_get (trackers th') inner = Some x" for inner x
      using that by (auto simp: th'_def hm_get_insert hm_get_remove split: if_splits)
    have "at_height_ok S mode th'"
      unfolding at_height_ok_def
    proof (intro allI impI)
      fix inner x assume "hm_get (trackers th') inner = Some x"
      from cases [OF this] show "tracker_ok S mode x \<and> (\<forall>b \<in> accounts (witness x). hm_get (last_approval_per_account th') b = Some inner)"
        using t'(2,3) at_height_okD [OF assms] t by (auto simp: th'_def)
    qed
    moreover have "a \<notin> accounts (witness x)" if "hm_get (trackers th') inner = Some x" for inner x
      using cases [OF that] t'(3) other by auto
    ultimately show ?thesis using Some t t'(1) by (auto simp: withdraw_last_def th'_def)
  qed
qed

lemma at_height_process_approval_ok:
  assumes "stakes_ok S" and "at_height_ok S mode th"
  shows "\<exists>r th'. at_height_process_approval clk ap S mode th = Some (r, th') \<and> at_height_ok S mode th'"
proof -
  let ?a = "ap_account_id ap" and ?m = "stake_map S"
  obtain th1 where th1: "withdraw_last ?a th = Some th1" "at_height_ok S mode th1"
    "\<And>inner t. hm_get (trackers th1) inner = Some t \<Longrightarrow> ?a \<notin> accounts (witness t)"
    using withdraw_last_ok [OF assms(2)] by blast
  have "distinct (map fst ?m)" using assms(1) by (simp add: stakes_ok_def stake_map_def o_def)
  then have m: "hm_collect ?m = ?m" "length ?m = length S" by (simp_all add: hm_collect_distinct stake_map_def)
  show ?thesis
  proof (cases "?a \<in> accounts ?m")
    case False
    then have "\<not> hm_contains ?m ?a" using hm_get_accounts by (metis hm_contains_def)
    then show ?thesis using th1(1,2) m by (simp add: at_height_process_approval_def Let_def flip: stake_map_def)
  next
    case True
    then have c: "hm_contains ?m ?a" using hm_get_accounts by (metis hm_contains_def)
    obtain t where t: "(case hm_get (trackers th1) (ap_inner ap) of Some t \<Rightarrow> Some t | None \<Rightarrow> tracker_new ?m mode) = Some t"
      "tracker_ok S mode t" "?a \<notin> accounts (witness t)"
      "\<And>b. b \<in> accounts (witness t) \<Longrightarrow> hm_get (last_approval_per_account th1) b = Some (ap_inner ap)"
    proof (cases "hm_get (trackers th1) (ap_inner ap)")
      case None
      then show ?thesis using that tracker_new_ok [OF assms(1), of mode] by auto
    next
      case (Some t)
      then show ?thesis using that at_height_okD [OF th1(2) Some] th1(3) [OF Some] by simp
    qed
    obtain r t' where t': "tracker_process_approval clk ap t = Some (r, t')" "tracker_ok S mode t'"
      "accounts (witness t') = insert ?a (accounts (witness t))"
      using tracker_process_approval_ok [OF assms(1) t(2) True t(3)] by blast
    define th2 where "th2 = th1\<lparr>last_approval_per_account := hm_insert ?a (ap_inner ap) (last_approval_per_account th1),
      trackers := hm_insert (ap_inner ap) t' (trackers th1)\<rparr>"
    have "at_height_ok S mode th2"
      unfolding at_height_ok_def
    proof (intro allI impI)
      fix inner x assume "hm_get (trackers th2) inner = Some x"
      then consider "inner = ap_inner ap" "x = t'" | "inner \<noteq> ap_inner ap" "hm_get (trackers th1) inner = Some x"
        by (auto simp: th2_def hm_get_insert split: if_splits)
      then show "tracker_ok S mode x \<and> (\<forall>b \<in> accounts (witness x). hm_get (last_approval_per_account th2) b = Some inner)"
      proof cases
        case 1
        then show ?thesis using t'(2,3) t(4) by (auto simp: th2_def hm_get_insert)
      next
        case 2
        have "b \<noteq> ?a" if "b \<in> accounts (witness x)" for b using that th1(3) [OF 2(2)] by blast
        then show ?thesis using at_height_okD [OF th1(2) 2(2)] unfolding th2_def by (simp add: hm_get_insert)
      qed
    qed
    moreover have "at_height_process_approval clk ap S mode th = Some (r, th2)"
      using th1(1) m c t(1) t'(1) by (simp add: at_height_process_approval_def Let_def th2_def flip: stake_map_def)
    ultimately show ?thesis by blast
  qed
qed

text \<open>The approvals of one target height, in the order of their arrival.\<close>

definition receive :: "approval_stake list \<Rightarrow> doomslug_threshold_mode \<Rightarrow> (clock \<times> approval) list \<Rightarrow> trackers_at_height option" where
  "receive S mode msgs =
     fold_opt (\<lambda>(clk, ap) th. map_option snd (at_height_process_approval clk ap S mode th)) msgs at_height_new"

lemma receive_ok:
  assumes "stakes_ok S"
  shows "\<exists>th. receive S mode msgs = Some th \<and> at_height_ok S mode th"
  unfolding receive_def
proof (rule fold_opt_inv [where P = "at_height_ok S mode", OF at_height_new_ok])
  fix m th assume "at_height_ok S mode th"
  then show "\<exists>th'. (case m of (clk, ap) \<Rightarrow> \<lambda>th. map_option snd (at_height_process_approval clk ap S mode th)) th = Some th' \<and> at_height_ok S mode th'"
    using at_height_process_approval_ok [OF assms] by (cases m) fastforce
qed

lemma two_thirds_overlap:
  fixes a b t :: nat
  assumes "t * 2 div 3 < a" and "t * 2 div 3 < b"
  shows "t < a + b"
  using assms by linarith

text \<open>
  C33: Approvals cannot make two blocks ready for one height.  Whatever approvals for a target
  height arrive, also several from one account, processing them does not panic, and at most one
  parent has the approval of more than two thirds of the stake.
\<close>

theorem at_most_one_parent_ready:
  assumes "stakes_ok S"
  shows "\<exists>th. receive S TwoThirds msgs = Some th \<and>
    (\<forall>p q t u. hm_get (trackers th) p = Some t \<longrightarrow> hm_get (trackers th) q = Some u \<longrightarrow>
       threshold_crossed t = Some True \<longrightarrow> threshold_crossed u = Some True \<longrightarrow> p = q)"
proof -
  obtain th where th: "receive S TwoThirds msgs = Some th" "at_height_ok S TwoThirds th" using receive_ok [OF assms] by blast
  have "p = q" if h: "hm_get (trackers th) p = Some t" "hm_get (trackers th) q = Some u"
    "threshold_crossed t = Some True" "threshold_crossed u = Some True" for p q t u
  proof (rule ccontr)
    assume "p \<noteq> q"
    note t = at_height_okD [OF th(2) h(1)] and u = at_height_okD [OF th(2) h(2)]
    have disj: "accounts (witness t) \<inter> accounts (witness u) = {}"
      using t(2) u(2) \<open>p \<noteq> q\<close> by (metis disjoint_iff option.inject)
    have "accounts (witness t) \<union> accounts (witness u) \<subseteq> accounts (stake_map S)" using t(1) u(1) by (simp add: tracker_ok_def)
    from weight_disjoint [OF disj this, of fst]
    have "approved_stake_this_epoch t + approved_stake_this_epoch u \<le> total_stake_this_epoch t" "total_stake_this_epoch u = total_stake_this_epoch t"
      using t(1) u(1) by (simp_all add: tracker_ok_def)
    then show False
      using h(3,4) threshold_crossed_total [OF assms t(1)] threshold_crossed_total [OF assms u(1)]
        two_thirds_overlap [of "total_stake_this_epoch t" "approved_stake_this_epoch t" "approved_stake_this_epoch u"] by simp
  qed
  with th(1) show ?thesis by blast
qed

definition example_stakes :: "approval_stake list" where
  "example_stakes = map (\<lambda>a. \<lparr> as_account_id = a, as_stake_this_epoch = 1, as_stake_next_epoch = 1 \<rparr>) [''a'', ''b'', ''c'', ''d'']"

definition example_approval :: "string \<Rightarrow> approval_inner \<Rightarrow> clock \<times> approval" where
  "example_approval a p =
     (example_clock 1, \<lparr> ap_inner = p, ap_target_height = 9, ap_signature = [], ap_account_id = a \<rparr>)"

lemma example_stakes_ok: "stakes_ok example_stakes"
  by (simp add: stakes_ok_def example_stakes_def)

theorem at_most_one_parent_ready_witness:
  "stakes_ok example_stakes \<and>
   (\<exists>th. receive example_stakes TwoThirds
      [example_approval ''a'' (Skip 7), example_approval ''b'' (Skip 7), example_approval ''a'' (Skip 6), example_approval ''c'' (Skip 7)] = Some th \<and>
      (\<forall>p q t u. hm_get (trackers th) p = Some t \<longrightarrow> hm_get (trackers th) q = Some u \<longrightarrow>
         threshold_crossed t = Some True \<longrightarrow> threshold_crossed u = Some True \<longrightarrow> p = q))"
  using at_most_one_parent_ready [OF example_stakes_ok] example_stakes_ok by blast

text \<open>The approvals of a block: for every staking account its signature, if it is in the witness.\<close>

definition block_approvals :: "approval_stake list \<Rightarrow> (account_id, approval \<times> utc) hmap \<Rightarrow> signature option list" where
  "block_approvals S w = map (\<lambda>x. map_option (\<lambda>(ap, _). ap_signature ap) (hm_get w (as_account_id x))) S"

lemma approved_sum:
  assumes "distinct (map as_account_id S)" and "accounts w \<subseteq> accounts (stake_map S)"
  shows "sum_list (map (\<lambda>x. if as_account_id x \<in> accounts w then f (as_stake_this_epoch x, as_stake_next_epoch x) else 0) S) = weight f S (accounts w)"
proof -
  have inj: "inj_on as_account_id (set S)" "distinct S" using assms(1) by (simp_all add: distinct_map)
  have mem: "stake_of S (as_account_id x) = (as_stake_this_epoch x, as_stake_next_epoch x)" if "x \<in> set S" for x
  proof -
    have "map_of (stake_map S) (as_account_id x) = Some (as_stake_this_epoch x, as_stake_next_epoch x)"
      using that assms(1) by (intro map_of_is_SomeI) (auto simp: stake_map_def o_def)
    then show ?thesis by (simp add: stake_of_def)
  qed
  let ?X = "{x \<in> set S. as_account_id x \<in> accounts w}"
  have "accounts w = as_account_id ` ?X" using assms(2) by (auto simp: accounts_stake_map)
  then have "weight f S (accounts w) = (\<Sum>x \<in> ?X. f (stake_of S (as_account_id x)))"
    unfolding weight_def by (intro sum.reindex_cong [of as_account_id]) (auto intro: inj_on_subset [OF inj(1)])
  also have "\<dots> = (\<Sum>x \<in> ?X. f (as_stake_this_epoch x, as_stake_next_epoch x))" by (rule sum.cong) (simp_all add: mem)
  also have "\<dots> = (\<Sum>x \<in> set S. if as_account_id x \<in> accounts w then f (as_stake_this_epoch x, as_stake_next_epoch x) else 0)"
    by (simp add: sum.inter_filter)
  finally show ?thesis using inj(2) by (simp add: sum_list_distinct_conv_sum_set)
qed

text \<open>
  C34: A block its producer considers ready is valid for the other nodes: when the approvals
  received for a parent cross the threshold of the tracker, the check of the block's approvals, which
  the nodes make on the signatures in the header and the stakes of the epoch, accepts it.
\<close>

theorem ready_block_is_accepted:
  assumes "stakes_ok S" and "receive S TwoThirds msgs = Some th" and "hm_get (trackers th) p = Some t"
    and "threshold_crossed t = Some True"
  shows "can_approved_block_be_produced TwoThirds (block_approvals S (witness t))
    (map (\<lambda>x. (as_stake_this_epoch x, as_stake_next_epoch x)) S) = Some True"
proof -
  have d: "distinct (map as_account_id S)" using assms(1) by (simp add: stakes_ok_def)
  have "at_height_ok S TwoThirds th" using receive_ok [OF assms(1), of TwoThirds msgs] assms(2) by simp
  then have t: "tracker_ok S TwoThirds t" by (rule at_height_okD(1) [OF _ assms(3)])
  then have sub: "accounts (witness t) \<subseteq> accounts (stake_map S)" by (simp add: tracker_ok_def)
  have some: "map_option g (hm_get (witness t) a) \<noteq> None \<longleftrightarrow> a \<in> accounts (witness t)" for g :: "approval \<times> utc \<Rightarrow> signature" and a
    using hm_get_accounts [of "witness t" a] by simp
  let ?stakes = "map (\<lambda>x. (as_stake_this_epoch x, as_stake_next_epoch x)) S"
  have z: "map (\<lambda>(approval, (stake, _)). if approval \<noteq> None then stake else 0) (zip (block_approvals S (witness t)) ?stakes) =
      map (\<lambda>x. if as_account_id x \<in> accounts (witness t) then fst (as_stake_this_epoch x, as_stake_next_epoch x) else 0) S"
    "map (\<lambda>(approval, (_, stake)). if approval \<noteq> None then stake else 0) (zip (block_approvals S (witness t)) ?stakes) =
      map (\<lambda>x. if as_account_id x \<in> accounts (witness t) then snd (as_stake_this_epoch x, as_stake_next_epoch x) else 0) S"
    using some by (auto simp: block_approvals_def zip_map_map zip_same_conv_map)
  note sums = approved_sum [OF d sub, of fst] approved_sum [OF d sub, of snd]
  have bounds: "weight f S (accounts (witness t)) \<le> weight f S (accounts (stake_map S))" for f by (rule weight_mono [OF sub])
  have "approved_stake_this_epoch t = weight fst S (accounts (witness t))" "approved_stake_next_epoch t = weight snd S (accounts (witness t))"
    "total_stake_this_epoch t = sum_list (map as_stake_this_epoch S)" "total_stake_next_epoch t = sum_list (map as_stake_next_epoch S)"
    using t weight_all [OF d] by (simp_all add: tracker_ok_def)
  moreover have "weight fst S (accounts (witness t)) < 2 ^ 128" "weight snd S (accounts (witness t)) < 2 ^ 128"
    using bounds [of fst] bounds [of snd] assms(1) by (simp_all add: weight_all [OF d] stakes_ok_def)
  ultimately show ?thesis
    using assms(1,4) threshold_crossed_total [OF assms(1) t]
    unfolding can_approved_block_be_produced_def z checked_sum_eq sums
    by (auto simp: stakes_ok_def checked_mul_def o_def Let_def simp del: sum_list_eq_0_iff)
qed

theorem ready_block_is_accepted_witness:
  "\<exists>th t. receive example_stakes TwoThirds
      [example_approval ''a'' (Skip 7), example_approval ''b'' (Skip 7), example_approval ''c'' (Skip 7)] = Some th \<and>
     hm_get (trackers th) (Skip 7) = Some t \<and> threshold_crossed t = Some True \<and>
     can_approved_block_be_produced TwoThirds (block_approvals example_stakes (witness t))
       (map (\<lambda>x. (as_stake_this_epoch x, as_stake_next_epoch x)) example_stakes) = Some True"
proof -
  let ?msgs = "[example_approval ''a'' (Skip 7), example_approval ''b'' (Skip 7), example_approval ''c'' (Skip 7)]"
  have "case receive example_stakes TwoThirds ?msgs of None \<Rightarrow> False
    | Some th \<Rightarrow> (case hm_get (trackers th) (Skip 7) of None \<Rightarrow> False | Some t \<Rightarrow> threshold_crossed t = Some True)"
    by (simp add: receive_def example_approval_def example_stakes_def at_height_process_approval_def withdraw_last_def at_height_new_def
        hm_collect_def hm_contains_def hm_get_def hm_insert_def hm_empty_def tracker_new_def checked_sum_def hm_values_def checked_add_def
        tracker_process_approval_def stakes_of_def get_block_production_readiness_def threshold_crossed_def checked_mul_def Let_def)
  then obtain th t where th: "receive example_stakes TwoThirds ?msgs = Some th" "hm_get (trackers th) (Skip 7) = Some t" "threshold_crossed t = Some True"
    by (auto split: option.splits)
  with ready_block_is_accepted [OF example_stakes_ok th] show ?thesis by blast
qed

end
