(* ===== verification/Trie_Model.thy ===== *)
theory Trie_Model
  imports Rust_Prelude "HOL-Library.Sublist"
begin

text \<open>
  The trie as a mathematical object, the specification that the updates of
  \<open>core/store/src/trie/ops\<close> are proved against: nodes with their children in place of pointers,
  keys as lists of nibbles, and an empty trie in place of an absent child.  A trie is canonical when it
  has the shape that the updates keep; canonical tries with the same content are equal.
\<close>

section \<open>Tries and their content\<close>

datatype 'v trie =
  TEmpty
| TLeaf "nat list" 'v
| TExt "nat list" "'v trie"
| TBranch "'v trie list" "'v option"

fun t_lookup :: "'v trie \<Rightarrow> nat list \<Rightarrow> 'v option" where
  "t_lookup TEmpty k = None"
| "t_lookup (TLeaf e v) k = (if k = e then Some v else None)"
| "t_lookup (TExt e t) k = (if prefix e k then t_lookup t (drop (length e) k) else None)"
| "t_lookup (TBranch ts w) [] = w"
| "t_lookup (TBranch ts w) (n # k) = (if n < length ts then t_lookup (ts ! n) k else None)"

definition nibbles_ok :: "nat list \<Rightarrow> bool" where
  "nibbles_ok k \<longleftrightarrow> (\<forall>n \<in> set k. n < 16)"

fun is_branch :: "'v trie \<Rightarrow> bool" where
  "is_branch (TBranch ts w) \<longleftrightarrow> True"
| "is_branch _ \<longleftrightarrow> False"

text \<open>The children of a branch that are there.\<close>

definition present :: "'v trie list \<Rightarrow> nat list" where
  "present ts = filter (\<lambda>i. ts ! i \<noteq> TEmpty) [0..<length ts]"

fun canonical :: "'v trie \<Rightarrow> bool" where
  "canonical TEmpty \<longleftrightarrow> True"
| "canonical (TLeaf e v) \<longleftrightarrow> nibbles_ok e"
| "canonical (TExt e t) \<longleftrightarrow> nibbles_ok e \<and> e \<noteq> [] \<and> is_branch t \<and> canonical t"
| "canonical (TBranch ts w) \<longleftrightarrow> length ts = 16 \<and> (\<forall>t \<in> set ts. canonical t) \<and>
     (2 \<le> length (present ts) \<or> 1 \<le> length (present ts) \<and> w \<noteq> None)"

lemma nibbles_ok_simps [simp]:
  "nibbles_ok []" "nibbles_ok (n # k) \<longleftrightarrow> n < 16 \<and> nibbles_ok k" "nibbles_ok (k @ l) \<longleftrightarrow> nibbles_ok k \<and> nibbles_ok l"
  by (auto simp: nibbles_ok_def)

lemma nibbles_ok_take [simp]: "nibbles_ok k \<Longrightarrow> nibbles_ok (take n k)"
  and nibbles_ok_drop [simp]: "nibbles_ok k \<Longrightarrow> nibbles_ok (drop n k)"
  by (auto simp: nibbles_ok_def dest: in_set_takeD in_set_dropD)

lemma present_mem: "i \<in> set (present ts) \<longleftrightarrow> i < length ts \<and> ts ! i \<noteq> TEmpty"
  by (auto simp: present_def)

lemma present_distinct [simp]: "distinct (present ts)"
  by (simp add: present_def)

lemma is_branchE: "is_branch t \<Longrightarrow> (\<And>ts w. t = TBranch ts w \<Longrightarrow> P) \<Longrightarrow> P"
  by (cases t) auto

section \<open>Canonical tries are determined by their content\<close>

lemma two_members:
  assumes "2 \<le> length xs" and "distinct xs"
  obtains a b where "a \<in> set xs" "b \<in> set xs" "a \<noteq> b"
  using assms by (cases xs rule: remdups_adj.cases) auto

lemma canonical_nonempty: "canonical t \<Longrightarrow> t \<noteq> TEmpty \<Longrightarrow> \<exists>k v. t_lookup t k = Some v"
proof (induction t)
  case (TLeaf e v)
  then show ?case by (auto intro!: exI [of _ e])
next
  case (TExt e t)
  then obtain k v where "t_lookup t k = Some v" by (auto elim: is_branchE)
  then show ?case by (auto intro!: exI [of _ "e @ k"])
next
  case (TBranch ts w)
  then have "present ts \<noteq> []" by auto
  then obtain i where i: "i < length ts" "ts ! i \<noteq> TEmpty" using present_mem [of _ ts] by (metis hd_in_set)
  with TBranch obtain k v where "t_lookup (ts ! i) k = Some v" by (metis canonical.simps(4) nth_mem)
  with i show ?case by (auto intro!: exI [of _ "i # k"])
qed simp

text \<open>The keys of a branch have no first nibble in common, those of an extension all start with it.\<close>

lemma branch_keys:
  assumes "canonical (TBranch ts w)"
  obtains "t_lookup (TBranch ts w) [] \<noteq> None" "\<exists>k. k \<noteq> [] \<and> t_lookup (TBranch ts w) k \<noteq> None"
  | a b k l where "a \<noteq> b" "t_lookup (TBranch ts w) (a # k) \<noteq> None" "t_lookup (TBranch ts w) (b # l) \<noteq> None"
proof -
  have child: "\<exists>k. t_lookup (TBranch ts w) (i # k) \<noteq> None" if "i \<in> set (present ts)" for i
  proof -
    have i: "i < length ts" "ts ! i \<noteq> TEmpty" using that by (simp_all add: present_mem)
    then have "canonical (ts ! i)" using assms by simp
    from canonical_nonempty [OF this i(2)] i(1) show ?thesis by auto
  qed
  show thesis
  proof (cases "2 \<le> length (present ts)")
    case True
    from two_members [OF True present_distinct] obtain a b where "a \<in> set (present ts)" "b \<in> set (present ts)" "a \<noteq> b" by blast
    then show thesis using child that(2) by blast
  next
    case False
    with assms have w: "w \<noteq> None" "present ts \<noteq> []" by auto
    then obtain i where "i \<in> set (present ts)" by (meson hd_in_set)
    from child [OF this] have "\<exists>k. k \<noteq> [] \<and> t_lookup (TBranch ts w) k \<noteq> None" by blast
    with w(1) that(1) show thesis by simp
  qed
qed

lemma ext_keys: "t_lookup (TExt e t) k \<noteq> None \<Longrightarrow> prefix e k"
  by (auto split: if_splits)

lemma branch_no_prefix:
  assumes "canonical (TBranch ts w)" and "\<And>k. t_lookup (TBranch ts w) k \<noteq> None \<Longrightarrow> prefix e k"
  shows "e = []"
proof (rule ccontr)
  assume "e \<noteq> []"
  then obtain n e' where e: "e = n # e'" by (cases e) auto
  from assms(1) show False
  proof (cases rule: branch_keys)
    case 1
    then show False using assms(2) [of "[]"] e by simp
  next
    case (2 a b k l)
    then show False using assms(2) [of "a # k"] assms(2) [of "b # l"] e by simp
  qed
qed

lemma branch_not_single:
  assumes "canonical (TBranch ts w)"
  shows "\<exists>k l. k \<noteq> l \<and> t_lookup (TBranch ts w) k \<noteq> None \<and> t_lookup (TBranch ts w) l \<noteq> None"
  using assms
proof (cases rule: branch_keys)
  case (2 a b k l)
  then show ?thesis by (intro exI [of _ "a # k"] exI [of _ "b # l"]) simp
qed metis

lemma ext_not_single:
  assumes "canonical (TExt e t)"
  shows "\<exists>k l. k \<noteq> l \<and> t_lookup (TExt e t) k \<noteq> None \<and> t_lookup (TExt e t) l \<noteq> None"
proof -
  obtain ts w where t: "t = TBranch ts w" using assms by (auto elim: is_branchE)
  with assms branch_not_single [of ts w] obtain k l where "k \<noteq> l" "t_lookup t k \<noteq> None" "t_lookup t l \<noteq> None" by auto
  then show ?thesis by (intro exI [of _ "e @ k"] exI [of _ "e @ l"]) simp
qed

lemma leaf_single: "t_lookup (TLeaf e v) k \<noteq> None \<Longrightarrow> t_lookup (TLeaf e v) l \<noteq> None \<Longrightarrow> k = l"
  by (auto split: if_splits)

lemma ext_prefix:
  assumes "canonical (TExt e t)" and "canonical (TExt f u)" and "\<And>k. t_lookup (TExt e t) k = t_lookup (TExt f u) k"
  shows "prefix f e"
proof -
  obtain ts w where t: "t = TBranch ts w" and c: "canonical t" using assms(1) by (cases t) auto
  obtain k v where k: "t_lookup t k = Some v" using canonical_nonempty [OF c] t by auto
  have all: "prefix f (e @ k)" if "t_lookup t k \<noteq> None" for k
  proof -
    have "t_lookup (TExt e t) (e @ k) = t_lookup t k" by simp
    with that have "t_lookup (TExt f u) (e @ k) \<noteq> None" unfolding assms(3) by simp
    then show ?thesis by (rule ext_keys)
  qed
  have "prefix f (e @ k)" using all k by simp
  then consider "prefix f e" | g where "f = e @ g" unfolding prefix_append by blast
  then show ?thesis
  proof cases
    case (2 g)
    have "g = []"
    proof (rule branch_no_prefix [OF c [unfolded t]])
      fix k assume "t_lookup (TBranch ts w) k \<noteq> None"
      then show "prefix g k" using all [of k] 2 t by simp
    qed
    with 2 show ?thesis by simp
  qed
qed

theorem canonical_unique:
  assumes "canonical t" and "canonical u" and "\<And>k. t_lookup t k = t_lookup u k"
  shows "t = u"
  using assms
proof (induction t arbitrary: u)
  case TEmpty
  show ?case
  proof (rule ccontr)
    assume "TEmpty \<noteq> u"
    with canonical_nonempty [OF TEmpty(2)] obtain k v where "t_lookup u k = Some v" by auto
    with TEmpty(3) [of k] show False by simp
  qed
next
  case (TLeaf e v)
  have single: "\<And>k l. t_lookup u k \<noteq> None \<Longrightarrow> t_lookup u l \<noteq> None \<Longrightarrow> k = l"
    by (rule leaf_single [of e v]) (simp_all only: TLeaf.prems(3) not_False_eq_True)
  show ?case
  proof (cases u)
    case (TLeaf f w)
    then show ?thesis using TLeaf.prems(3) [of e] by (simp split: if_splits)
  next
    case (TExt f u')
    then show ?thesis using ext_not_single [of f u'] TLeaf.prems(2) single by blast
  next
    case (TBranch us w)
    then show ?thesis using branch_not_single [of us w] TLeaf.prems(2) single by blast
  qed (use TLeaf.prems(3) [of e] in simp)
next
  case (TExt e t)
  note c = TExt.prems(1) and d = TExt.prems(2) and eq = TExt.prems(3)
  show ?case
  proof (cases u)
    case (TExt f u')
    have d': "canonical (TExt f u')" and eq': "\<And>k. t_lookup (TExt e t) k = t_lookup (TExt f u') k" using d eq by (simp_all only: TExt)
    have "prefix f e" by (rule ext_prefix [OF c d' eq'])
    moreover have "prefix e f" by (rule ext_prefix [OF d' c]) (simp only: eq')
    ultimately have "e = f" by (rule prefix_order.antisym [rotated])
    moreover have "t_lookup t k = t_lookup u' k" for k using eq' [of "e @ k"] \<open>e = f\<close> by simp
    ultimately show ?thesis using TExt.IH [of u'] c d' by (simp add: TExt)
  next
    case (TBranch us w)
    have "prefix e k" if "t_lookup (TBranch us w) k \<noteq> None" for k
      using that eq [of k] by (intro ext_keys [of e t]) (simp only: TBranch not_False_eq_True)
    from branch_no_prefix [OF d [unfolded TBranch] this] c show ?thesis by simp
  next
    case (TLeaf f w)
    with ext_not_single [OF c] leaf_single [of f w] show ?thesis unfolding eq by blast
  next
    case TEmpty
    with ext_not_single [OF c] show ?thesis unfolding eq by simp
  qed
next
  case (TBranch ts w)
  note c = TBranch.prems(1) and d = TBranch.prems(2) and eq = TBranch.prems(3)
  show ?case
  proof (cases u)
    case (TBranch us x)
    have "ts ! n = us ! n" if n: "n < 16" for n
    proof (rule TBranch.IH)
      show "t_lookup (ts ! n) k = t_lookup (us ! n) k" for k using eq [of "n # k"] n c d by (simp add: TBranch)
    qed (use n c d in \<open>simp_all add: TBranch\<close>)
    then have "ts = us" using c d by (simp add: TBranch list_eq_iff_nth_eq)
    then show ?thesis using eq [of "[]"] by (simp add: TBranch)
  next
    case (TExt f u')
    have "prefix f k" if "t_lookup (TBranch ts w) k \<noteq> None" for k
      using that eq [of k] by (intro ext_keys [of f u']) (simp only: TExt not_False_eq_True)
    from branch_no_prefix [OF c this] d TExt show ?thesis by simp
  next
    case (TLeaf f x)
    with branch_not_single [OF c] leaf_single [of f x] show ?thesis unfolding eq by blast
  next
    case TEmpty
    with branch_not_single [OF c] show ?thesis unfolding eq by simp
  qed
qed

section \<open>Insertion\<close>

abbreviation lcp :: "nat list \<Rightarrow> nat list \<Rightarrow> nat" where
  "lcp k e \<equiv> length (longest_common_prefix k e)"

definition no_children :: "'v trie list" where
  "no_children = replicate 16 TEmpty"

definition leaf_to_branch :: "nat list \<Rightarrow> 'v \<Rightarrow> 'v trie" where
  "leaf_to_branch e w =
     (case e of [] \<Rightarrow> TBranch no_children (Some w) | n # e' \<Rightarrow> TBranch (no_children[n := TLeaf e' w]) None)"

definition ext_to_branch :: "nat list \<Rightarrow> 'v trie \<Rightarrow> 'v trie" where
  "ext_to_branch e t =
     TBranch (no_children[hd e := (if length e = 1 then t else TExt (tl e) t)]) None"

lemma lcp_le: "lcp k e \<le> length k" "lcp k e \<le> length e"
  by (simp_all add: longest_common_prefix_prefix1 longest_common_prefix_prefix2 prefix_length_le)

lemma lcp_shorter: "lcp k e \<noteq> 0 \<Longrightarrow> length k - lcp k e < length k"
  using lcp_le [of k e] by linarith

function t_insert :: "nat list \<Rightarrow> 'v \<Rightarrow> 'v trie \<Rightarrow> 'v trie" where
  "t_insert k v TEmpty = TLeaf k v"
| "t_insert [] v (TBranch ts w) = TBranch ts (Some v)"
| "t_insert (n # k) v (TBranch ts w) = TBranch (ts[n := t_insert k v (ts ! n)]) w"
| "t_insert k v (TLeaf e w) =
     (if lcp k e = length e \<and> lcp k e = length k then TLeaf e v
      else if lcp k e = 0 then t_insert k v (leaf_to_branch e w)
      else TExt (take (lcp k e) k) (t_insert (drop (lcp k e) k) v (TLeaf (drop (lcp k e) e) w)))"
| "t_insert k v (TExt e t) =
     (if lcp k e = 0 then t_insert k v (ext_to_branch e t)
      else if lcp k e = length e then TExt e (t_insert (drop (lcp k e) k) v t)
      else TExt (take (lcp k e) e) (t_insert (drop (lcp k e) k) v (TExt (drop (lcp k e) e) t)))"
  by pat_completeness auto
termination
proof (relation "measure (\<lambda>(k, v, t). 2 * length k + (if is_branch t then 0 else 1))", goal_cases)
  case (4 k v e w)
  then show ?case using lcp_shorter [of k e] by simp
next
  case (6 k v e t)
  then show ?case using lcp_shorter [of k e] by simp
next
  case (7 k v e t)
  then show ?case using lcp_shorter [of k e] by simp
qed (auto simp: leaf_to_branch_def ext_to_branch_def split: list.splits)

declare t_insert.simps(4,5) [simp del]

text \<open>Where two keys part.\<close>

definition apart :: "nat list \<Rightarrow> nat list \<Rightarrow> bool" where
  "apart k e \<longleftrightarrow> (case (k, e) of (n # _, m # _) \<Rightarrow> n \<noteq> m | _ \<Rightarrow> True)"

lemma apart_simps [simp]: "apart [] e" "apart k []" "apart (n # k) (m # e) \<longleftrightarrow> n \<noteq> m"
  by (auto simp: apart_def split: list.splits)

lemma lcp_append: "apart k e \<Longrightarrow> lcp (p @ k) (p @ e) = length p"
proof (induction p)
  case Nil
  then show ?case by (cases k; cases e) auto
qed simp

lemma lcp_decomp:
  obtains p k1 e1 where "k = p @ k1" "e = p @ e1" "apart k1 e1"
proof -
  have "\<exists>p k1 e1. k = p @ k1 \<and> e = p @ e1 \<and> apart k1 e1"
  proof (induction k e rule: longest_common_prefix.induct)
    case (1 x xs y ys)
    show ?case
    proof (cases "x = y")
      case True
      with 1 obtain p k1 e1 where "xs = p @ k1" "ys = p @ e1" "apart k1 e1" by auto
      with True show ?thesis by (intro exI [of _ "x # p"] exI [of _ k1] exI [of _ e1]) simp
    next
      case False
      then show ?thesis by (intro exI [of _ "[]"] exI [of _ "x # xs"] exI [of _ "y # ys"]) simp
    qed
  qed (rule exI [of _ "[]"], simp)+
  with that show thesis by blast
qed

lemma apart_lcp: "apart k e \<Longrightarrow> lcp k e = 0"
  using lcp_append [of k e "[]"] by simp

text \<open>The insertion into a leaf or an extension, by the place where the keys part.\<close>

lemma t_insert_leaf_same: "t_insert e v (TLeaf e w) = TLeaf e v"
  using lcp_append [of "[]" "[]" e] by (simp add: t_insert.simps(4))

lemma t_insert_leaf_apart: "apart k e \<Longrightarrow> k \<noteq> [] \<or> e \<noteq> [] \<Longrightarrow> t_insert k v (TLeaf e w) = t_insert k v (leaf_to_branch e w)"
  using apart_lcp [of k e] by (subst t_insert.simps(4)) auto

lemma t_insert_leaf_split:
  "apart k e \<Longrightarrow> k \<noteq> [] \<or> e \<noteq> [] \<Longrightarrow> p \<noteq> [] \<Longrightarrow> t_insert (p @ k) v (TLeaf (p @ e) w) = TExt p (t_insert k v (TLeaf e w))"
  using lcp_append [of k e p] by (subst t_insert.simps(4)) auto

lemma t_insert_ext_apart: "apart k e \<Longrightarrow> t_insert k v (TExt e t) = t_insert k v (ext_to_branch e t)"
  using apart_lcp [of k e] by (subst t_insert.simps(5)) auto

lemma t_insert_ext_whole: "e \<noteq> [] \<Longrightarrow> t_insert (e @ k) v (TExt e t) = TExt e (t_insert k v t)"
  using lcp_append [of k "[]" e] by (subst t_insert.simps(5)) auto

lemma t_insert_ext_split:
  "apart k e \<Longrightarrow> e \<noteq> [] \<Longrightarrow> p \<noteq> [] \<Longrightarrow> t_insert (p @ k) v (TExt (p @ e) t) = TExt p (t_insert k v (TExt e t))"
  using lcp_append [of k e p] by (subst t_insert.simps(5)) auto

lemma leaf_cases:
  obtains "k = e" | "apart k e" "k \<noteq> [] \<or> e \<noteq> []"
  | p k1 e1 where "k = p @ k1" "e = p @ e1" "apart k1 e1" "k1 \<noteq> [] \<or> e1 \<noteq> []" "p \<noteq> []"
  by (rule lcp_decomp [of k e]) force

lemma ext_cases:
  assumes "e \<noteq> []"
  obtains "apart k e" | k1 where "k = e @ k1"
  | p k1 e1 where "k = p @ k1" "e = p @ e1" "apart k1 e1" "e1 \<noteq> []" "p \<noteq> []"
  by (rule lcp_decomp [of k e]) force

lemma no_children_simps [simp]: "length no_children = 16" "n < 16 \<Longrightarrow> no_children ! n = TEmpty"
  by (simp_all add: no_children_def)

lemma no_children_canonical [simp]: "t \<in> set no_children \<Longrightarrow> canonical t"
  by (auto simp: no_children_def)

lemma lookup_single_child:
  "n < 16 \<Longrightarrow> t_lookup (TBranch (no_children[n := t]) None) l = (case l of [] \<Rightarrow> None | m # l' \<Rightarrow> if m = n then t_lookup t l' else None)"
  by (auto simp: nth_list_update split: list.splits)

lemma lookup_leaf_to_branch: "nibbles_ok e \<Longrightarrow> t_lookup (leaf_to_branch e w) l = t_lookup (TLeaf e w) l"
  by (cases e; cases l) (auto simp: leaf_to_branch_def nth_list_update)

lemma lookup_ext_to_branch: "nibbles_ok e \<Longrightarrow> e \<noteq> [] \<Longrightarrow> t_lookup (ext_to_branch e t) l = t_lookup (TExt e t) l"
  by (cases e; cases l) (auto simp: ext_to_branch_def nth_list_update)

text \<open>What the insertion needs of a trie; a node that has just become a branch is not canonical yet.\<close>

fun shape :: "'v trie \<Rightarrow> bool" where
  "shape TEmpty \<longleftrightarrow> True"
| "shape (TLeaf e v) \<longleftrightarrow> nibbles_ok e"
| "shape (TExt e t) \<longleftrightarrow> nibbles_ok e \<and> e \<noteq> [] \<and> shape t"
| "shape (TBranch ts w) \<longleftrightarrow> length ts = 16 \<and> (\<forall>t \<in> set ts. shape t)"

lemma canonical_shape: "canonical t \<Longrightarrow> shape t"
  by (induction t) auto

lemma shape_single: "n < 16 \<Longrightarrow> shape t \<Longrightarrow> shape (TBranch (no_children[n := t]) w)"
  by (auto simp: no_children_def dest!: set_update_subset_insert [THEN subsetD])

lemma shape_leaf_to_branch: "nibbles_ok e \<Longrightarrow> shape (leaf_to_branch e w)"
  using shape_single [of "hd e" "TLeaf (tl e) w" None] by (cases e) (auto simp: leaf_to_branch_def no_children_def)

lemma shape_ext_to_branch: "shape (TExt e t) \<Longrightarrow> shape (ext_to_branch e t)"
  unfolding ext_to_branch_def by (cases e) (auto intro!: shape_single simp del: shape.simps(4))

lemma lookup_ext: "t_lookup (TExt e t) l = (if prefix e l then t_lookup t (drop (length e) l) else None)"
  by simp

text \<open>The same step by step: what the proofs about insertion do at each kind of node.\<close>

lemma t_insert_cases [case_names Empty Here Child Same Fork Split Fork_Ext Whole Split_Ext, consumes 1]:
  assumes "shape t"
    and "\<And>k. P k TEmpty"
    and "\<And>ts w. length ts = 16 \<Longrightarrow> \<forall>t \<in> set ts. shape t \<Longrightarrow> P [] (TBranch ts w)"
    and "\<And>n k ts w. length ts = 16 \<Longrightarrow> \<forall>t \<in> set ts. shape t \<Longrightarrow> (n < 16 \<Longrightarrow> P k (ts ! n)) \<Longrightarrow> P (n # k) (TBranch ts w)"
    and "\<And>e w. nibbles_ok e \<Longrightarrow> P e (TLeaf e w)"
    and "\<And>k e w. nibbles_ok e \<Longrightarrow> apart k e \<Longrightarrow> k \<noteq> [] \<or> e \<noteq> [] \<Longrightarrow> P k (leaf_to_branch e w) \<Longrightarrow> P k (TLeaf e w)"
    and "\<And>p k e w. nibbles_ok p \<Longrightarrow> nibbles_ok e \<Longrightarrow> apart k e \<Longrightarrow> k \<noteq> [] \<or> e \<noteq> [] \<Longrightarrow> p \<noteq> [] \<Longrightarrow> P k (TLeaf e w) \<Longrightarrow> P (p @ k) (TLeaf (p @ e) w)"
    and "\<And>k e t. shape (TExt e t) \<Longrightarrow> apart k e \<Longrightarrow> P k (ext_to_branch e t) \<Longrightarrow> P k (TExt e t)"
    and "\<And>k e t. shape (TExt e t) \<Longrightarrow> P k t \<Longrightarrow> P (e @ k) (TExt e t)"
    and "\<And>p k e t. nibbles_ok p \<Longrightarrow> shape (TExt e t) \<Longrightarrow> apart k e \<Longrightarrow> p \<noteq> [] \<Longrightarrow> P k (TExt e t) \<Longrightarrow> P (p @ k) (TExt (p @ e) t)"
  shows "P k t"
  using assms(1)
proof (induction "2 * length k + (if is_branch t then 0 else 1)" arbitrary: k t rule: less_induct)
  case less
  note IH = less(1)
  show ?case
  proof (cases t)
    case TEmpty
    then show ?thesis by (simp add: assms(2))
  next
    case (TBranch ts w)
    then have ts: "length ts = 16" "\<forall>t \<in> set ts. shape t" using less(2) by simp_all
    show ?thesis
    proof (cases k)
      case Nil
      then show ?thesis using ts assms(3) by (simp add: TBranch)
    next
      case (Cons n k')
      have "P k' (ts ! n)" if "n < 16" by (rule IH) (use ts that in \<open>auto simp: TBranch Cons\<close>)
      then show ?thesis using ts assms(4) by (simp add: TBranch Cons)
    qed
  next
    case (TLeaf e w)
    then have e: "nibbles_ok e" using less(2) by simp
    show ?thesis unfolding TLeaf
    proof (cases rule: leaf_cases [of k e])
      case 2
      have "P k (leaf_to_branch e w)"
        by (rule IH) (use shape_leaf_to_branch [OF e] in \<open>auto simp: TLeaf leaf_to_branch_def split: list.splits\<close>)
      with e 2 show "P k (TLeaf e w)" by (rule assms(6))
    next
      case (3 p k1 e1)
      have "P k1 (TLeaf e1 w)" by (rule IH) (use e 3 in \<open>auto simp: TLeaf\<close>)
      with e 3 show "P k (TLeaf e w)" using assms(7) by simp
    qed (simp add: assms(5) e)
  next
    case (TExt e u)
    then have e: "shape (TExt e u)" "e \<noteq> []" using less(2) by simp_all
    show ?thesis unfolding TExt
    proof (cases rule: ext_cases [OF e(2), of k])
      case 1
      have "P k (ext_to_branch e u)"
        by (rule IH) (use shape_ext_to_branch [OF e(1)] in \<open>auto simp: TExt ext_to_branch_def\<close>)
      with e(1) 1 show "P k (TExt e u)" by (rule assms(8))
    next
      case (2 k1)
      have "P k1 u" by (rule IH) (use e 2 in \<open>auto simp: TExt\<close>)
      with e 2 show "P k (TExt e u)" using assms(9) by simp
    next
      case (3 p k1 e1)
      have "P k1 (TExt e1 u)" by (rule IH) (use e 3 in \<open>auto simp: TExt\<close>)
      with e 3 show "P k (TExt e u)" using assms(10) by simp
    qed
  qed
qed

lemmas t_insert_steps = t_insert_leaf_same t_insert_leaf_apart t_insert_leaf_split t_insert_ext_apart t_insert_ext_whole t_insert_ext_split

lemma t_insert_lookup:
  assumes "shape t" and "nibbles_ok k"
  shows "t_lookup (t_insert k v t) l = (if l = k then Some v else t_lookup t l)"
  using assms
proof (induction arbitrary: l rule: t_insert_cases)
  case (Here ts w)
  then show ?case by (cases l) auto
next
  case (Child n k ts w)
  then show ?case by (cases l) (auto simp: nth_list_update)
next
  case (Fork k e w)
  then show ?case by (simp add: t_insert_steps lookup_leaf_to_branch)
next
  case (Split p k e w)
  then show ?case by (auto simp: t_insert_steps prefix_def)
next
  case (Fork_Ext k e t)
  then show ?case by (simp add: t_insert_steps lookup_ext_to_branch)
next
  case (Whole k e t)
  then show ?case by (auto simp: t_insert_steps prefix_def)
next
  case (Split_Ext p k e t)
  then show ?case by (auto simp: t_insert_steps prefix_def append_eq_append_conv2)
qed (auto simp: t_insert_steps)

text \<open>Insertion keeps tries canonical.\<close>

lemma present_length: "length (present ts) = card {i. i < length ts \<and> ts ! i \<noteq> TEmpty}"
proof -
  have "set (present ts) = {i. i < length ts \<and> ts ! i \<noteq> TEmpty}" by (auto simp: present_mem)
  then show ?thesis using distinct_card [OF present_distinct, of ts] by simp
qed

lemma present_update:
  assumes "t \<noteq> TEmpty" and "n < length ts"
  shows "length (present ts) \<le> length (present (ts[n := t]))" and "ts ! n = TEmpty \<Longrightarrow> length (present (ts[n := t])) = Suc (length (present ts))"
proof -
  let ?A = "{i. i < length ts \<and> ts ! i \<noteq> TEmpty}"
  have "{i. i < length (ts[n := t]) \<and> ts[n := t] ! i \<noteq> TEmpty} = insert n ?A" using assms by (auto simp: nth_list_update)
  then show "length (present ts) \<le> length (present (ts[n := t]))" "ts ! n = TEmpty \<Longrightarrow> length (present (ts[n := t])) = Suc (length (present ts))"
    using card_insert_le [of ?A n] by (auto simp: present_length)
qed

lemma present_none [simp]: "present no_children = []"
  by (simp add: present_def no_children_def)

lemma canonical_update: "(\<forall>t \<in> set ts. canonical t) \<Longrightarrow> canonical u \<Longrightarrow> t \<in> set (ts[n := u]) \<Longrightarrow> canonical t"
  using set_update_subset_insert [of ts n u] by auto

lemma canonical_single_child:
  "n < 16 \<Longrightarrow> canonical t \<Longrightarrow> t \<noteq> TEmpty \<Longrightarrow> canonical (TBranch (no_children[n := t]) (Some v))"
  using canonical_update [of no_children t] present_update(2) [of t n no_children] by auto

lemma canonical_two_children:
  assumes "n < 16" "m < 16" "n \<noteq> m" "canonical t" "canonical u" "t \<noteq> TEmpty" "u \<noteq> TEmpty"
  shows "canonical (TBranch (no_children[m := t, n := u]) w)"
proof -
  have "\<forall>x \<in> set (no_children[m := t]). canonical x" using canonical_update [of no_children t] assms by auto
  then have "\<forall>x \<in> set (no_children[m := t, n := u]). canonical x" using canonical_update [of "no_children[m := t]" u] assms by blast
  moreover have "length (present (no_children[m := t, n := u])) = 2"
    using assms present_update(2) [of t m no_children] present_update(2) [of u n "no_children[m := t]"] by simp
  ultimately show ?thesis by simp
qed

lemma canonical_fork_leaf:
  assumes "apart k e" and "k \<noteq> [] \<or> e \<noteq> []" and "nibbles_ok k" and "nibbles_ok e"
  shows "canonical (t_insert k v (leaf_to_branch e w)) \<and> is_branch (t_insert k v (leaf_to_branch e w))"
proof (cases k)
  case Nil
  with assms obtain m e' where e: "e = m # e'" by (cases e) auto
  then show ?thesis using assms Nil canonical_single_child [of m "TLeaf e' w" v] by (simp add: leaf_to_branch_def)
next
  case (Cons n k')
  show ?thesis
  proof (cases e)
    case Nil
    then show ?thesis using assms Cons canonical_single_child [of n "TLeaf k' v" w] by (simp add: leaf_to_branch_def)
  next
    case e: (Cons m e')
    then show ?thesis using assms Cons canonical_two_children [of n m "TLeaf e' w" "TLeaf k' v" None] by (simp add: leaf_to_branch_def)
  qed
qed

lemma canonical_ext_child:
  assumes "canonical (TExt e t)"
  shows "canonical (if length e = 1 then t else TExt (tl e) t)" and "(if length e = 1 then t else TExt (tl e) t) \<noteq> TEmpty"
  using assms by (cases e; auto)+

lemma canonical_fork_ext:
  assumes "apart k e" and "nibbles_ok k" and "canonical (TExt e t)"
  shows "canonical (t_insert k v (ext_to_branch e t)) \<and> is_branch (t_insert k v (ext_to_branch e t))"
proof -
  obtain m e' where e: "e = m # e'" using assms(3) by (cases e) auto
  have m: "m < 16" using assms(3) e by simp
  show ?thesis
  proof (cases k)
    case Nil
    then have "t_insert k v (ext_to_branch e t) = TBranch (no_children[m := (if length e = 1 then t else TExt (tl e) t)]) (Some v)"
      by (simp add: ext_to_branch_def e)
    with canonical_single_child [OF m canonical_ext_child [OF assms(3)], of v] show ?thesis by (simp only: is_branch.simps simp_thms)
  next
    case (Cons n k')
    then have "n \<noteq> m" "n < 16" "canonical (TLeaf k' v)" using assms(1,2) e by simp_all
    moreover from this have "t_insert k v (ext_to_branch e t) = TBranch (no_children[m := (if length e = 1 then t else TExt (tl e) t), n := TLeaf k' v]) None"
      using m by (simp add: ext_to_branch_def e Cons)
    ultimately show ?thesis using canonical_two_children [OF _ m _ canonical_ext_child(1) [OF assms(3)], of n "TLeaf k' v"] canonical_ext_child(2) [OF assms(3)]
      by (simp del: canonical.simps(4))
  qed
qed

lemma t_insert_canonical_aux:
  assumes "shape t" and "canonical t" and "nibbles_ok k"
  shows "canonical (t_insert k v t) \<and> t_insert k v t \<noteq> TEmpty \<and> (is_branch t \<longrightarrow> is_branch (t_insert k v t))"
  using assms
proof (induction rule: t_insert_cases)
  case (Child n k ts w)
  have n: "n < 16" "canonical (ts ! n)" using Child by auto
  then have c: "canonical (t_insert k v (ts ! n))" "t_insert k v (ts ! n) \<noteq> TEmpty" using Child by auto
  then show ?case using Child.prems Child.hyps(1) n present_update(1) [OF c(2), of n ts] canonical_update [of ts _ _ n] by auto
next
  case (Fork k e w)
  then show ?case using canonical_fork_leaf [of k e v w] by (auto simp: t_insert_steps elim: is_branchE)
next
  case (Split p k e w)
  then show ?case using canonical_fork_leaf [of k e v w] by (auto simp: t_insert_steps)
next
  case (Fork_Ext k e t)
  then show ?case using canonical_fork_ext [of k e t v] by (auto simp: t_insert_steps elim: is_branchE)
next
  case (Whole k e t)
  then show ?case by (auto simp: t_insert_steps)
next
  case (Split_Ext p k e t)
  then show ?case using canonical_fork_ext [of k e t v] by (auto simp: t_insert_steps)
qed (auto simp: t_insert_steps)

lemma t_insert_canonical: "canonical t \<Longrightarrow> nibbles_ok k \<Longrightarrow> canonical (t_insert k v t)"
  by (rule t_insert_canonical_aux [OF canonical_shape, THEN conjunct1])

section \<open>Memory usage\<close>

definition key_cost :: "nat list \<Rightarrow> nat" where
  "key_cost e = 2 * (1 + length e div 2)"

fun t_mem :: "('v \<Rightarrow> nat) \<Rightarrow> 'v trie \<Rightarrow> nat" where
  "t_mem vl TEmpty = 0"
| "t_mem vl (TLeaf e v) = 50 + key_cost e + (vl v + 50)"
| "t_mem vl (TExt e t) = 50 + key_cost e + t_mem vl t"
| "t_mem vl (TBranch ts w) = 50 + (case w of None \<Rightarrow> 0 | Some v \<Rightarrow> vl v + 50) + sum_list (map (t_mem vl) ts)"

lemma sum_list_update_mem:
  "n < length ts \<Longrightarrow> sum_list (map f (ts[n := t])) + f (ts ! n) = sum_list (map f ts) + (f t :: nat)"
proof (induction ts arbitrary: n)
  case (Cons a ts)
  then show ?case by (cases n) (auto simp: algebra_simps)
qed simp

lemma sum_no_children [simp]: "sum_list (map (t_mem vl) no_children) = 0"
  by (simp add: no_children_def sum_list_replicate)

lemma mem_single_child: "n < 16 \<Longrightarrow> sum_list (map (t_mem vl) (no_children[n := t])) = t_mem vl t"
  using sum_list_update_mem [of n no_children "t_mem vl" t] by simp

lemma mem_two_children:
  "n < 16 \<Longrightarrow> m < 16 \<Longrightarrow> n \<noteq> m \<Longrightarrow> sum_list (map (t_mem vl) (no_children[m := t, n := u])) = t_mem vl t + t_mem vl u"
  using sum_list_update_mem [of n "no_children[m := t]" "t_mem vl" u] by (simp add: mem_single_child)

lemma fork_leaf_mem:
  assumes "apart k e" and "k \<noteq> [] \<or> e \<noteq> []" and "nibbles_ok k" and "nibbles_ok e"
  shows "t_mem vl (t_insert k v (leaf_to_branch e w)) \<le> t_mem vl (TLeaf e w) + 200 + 2 * length k + vl v"
  using assms
  by (cases k; cases e) (auto simp: leaf_to_branch_def mem_single_child mem_two_children key_cost_def)

lemma leaf_to_branch_mem: "nibbles_ok e \<Longrightarrow> t_mem vl (leaf_to_branch e w) \<le> t_mem vl (TLeaf e w) + 50"
  by (cases e) (auto simp: leaf_to_branch_def mem_single_child key_cost_def)

lemma ext_to_branch_mem: "nibbles_ok e \<Longrightarrow> e \<noteq> [] \<Longrightarrow> t_mem vl (ext_to_branch e t) \<le> t_mem vl (TExt e t) + 50"
  by (cases e) (auto simp: ext_to_branch_def mem_single_child key_cost_def)

lemma fork_ext_mem:
  assumes "apart k e" and "nibbles_ok k" and "nibbles_ok e" and "e \<noteq> []"
  shows "t_mem vl (t_insert k v (ext_to_branch e t)) \<le> t_mem vl (TExt e t) + 200 + 2 * length k + vl v"
  using assms
  by (cases k; cases e) (auto simp: ext_to_branch_def mem_single_child mem_two_children key_cost_def)

lemma t_insert_mem:
  assumes "shape t" and "nibbles_ok k"
  shows "t_mem vl (t_insert k v t) \<le> t_mem vl t + 300 + 2 * length k + vl v"
  using assms
proof (induction rule: t_insert_cases)
  case (Child n k ts w)
  then have "t_mem vl (t_insert k v (ts ! n)) \<le> t_mem vl (ts ! n) + 300 + 2 * length k + vl v" by simp
  then show ?case using sum_list_update_mem [of n ts "t_mem vl" "t_insert k v (ts ! n)"] Child by simp
next
  case (Fork k e w)
  then show ?case using fork_leaf_mem [of k e vl v w] by (simp add: t_insert_steps)
next
  case (Split p k e w)
  then show ?case using fork_leaf_mem [of k e vl v w] by (auto simp: t_insert_steps key_cost_def)
next
  case (Fork_Ext k e t)
  then show ?case using fork_ext_mem [of k e vl v t] by (simp add: t_insert_steps)
next
  case (Split_Ext p k e t)
  then show ?case using fork_ext_mem [of k e vl v t] by (auto simp: t_insert_steps key_cost_def)
qed (auto simp: t_insert_steps key_cost_def split: option.splits)

section \<open>Deletion\<close>

fun t_extend :: "nat list \<Rightarrow> 'v trie \<Rightarrow> 'v trie" where
  "t_extend e TEmpty = TEmpty"
| "t_extend e (TLeaf f v) = TLeaf (e @ f) v"
| "t_extend e (TBranch ts w) = TExt e (TBranch ts w)"
| "t_extend e (TExt f t) = TExt (e @ f) t"

fun t_squash :: "'v trie \<Rightarrow> 'v trie" where
  "t_squash (TBranch ts w) =
     (case present ts of
        [] \<Rightarrow> (case w of None \<Rightarrow> TEmpty | Some v \<Rightarrow> TLeaf [] v)
      | [i] \<Rightarrow> (if w = None then t_extend [i] (ts ! i) else TBranch ts w)
      | _ \<Rightarrow> TBranch ts w)"
| "t_squash (TExt e t) = t_extend e t"
| "t_squash t = t"

fun t_delete :: "nat list \<Rightarrow> 'v trie \<Rightarrow> 'v trie" where
  "t_delete k TEmpty = TEmpty"
| "t_delete k (TLeaf e v) = (if k = e then TEmpty else TLeaf e v)"
| "t_delete k (TExt e t) = (if prefix e k then t_squash (TExt e (t_delete (drop (length e) k) t)) else TExt e t)"
| "t_delete [] (TBranch ts w) = t_squash (TBranch ts None)"
| "t_delete (n # k) (TBranch ts w) = t_squash (TBranch (ts[n := t_delete k (ts ! n)]) w)"

lemma t_extend_lookup: "t_lookup (t_extend e t) l = t_lookup (TExt e t) l"
  by (cases t) (auto simp: prefix_def append_eq_append_conv2)

lemma t_extend_canonical: "canonical t \<Longrightarrow> nibbles_ok e \<Longrightarrow> e \<noteq> [] \<Longrightarrow> canonical (t_extend e t)"
  by (cases t) auto

lemma present_Nil: "present ts = [] \<longleftrightarrow> (\<forall>t \<in> set ts. t = TEmpty)"
  by (auto simp: present_def filter_empty_conv set_conv_nth)

lemma squash_branch_cases:
  obtains "present ts = []" | i where "present ts = [i]" "w = None" | "t_squash (TBranch ts w) = TBranch ts w"
  by (cases "w = None"; cases "present ts" rule: remdups_adj.cases) auto

lemma t_squash_lookup: "t_lookup (t_squash t) l = t_lookup t l"
proof (cases t)
  case (TBranch ts w)
  show ?thesis
  proof (cases rule: squash_branch_cases [where ts = ts and w = w])
    case 1
    then have "\<And>j. j < length ts \<Longrightarrow> ts ! j = TEmpty" by (simp add: present_Nil)
    with 1 show ?thesis by (cases l) (auto simp: TBranch split: option.splits)
  next
    case (2 i)
    have i: "i < length ts" "\<And>j. j < length ts \<Longrightarrow> j \<noteq> i \<Longrightarrow> ts ! j = TEmpty"
      using present_mem [of _ ts] by (auto simp: 2)
    then show ?thesis by (cases l) (auto simp: TBranch 2 t_extend_lookup)
  qed (simp only: TBranch)
qed (simp_all add: t_extend_lookup)

lemma t_squash_branch_canonical:
  assumes "length ts = 16" and "\<And>t. t \<in> set ts \<Longrightarrow> canonical t"
  shows "canonical (t_squash (TBranch ts w))"
proof (cases "present ts" rule: remdups_adj.cases)
  case (2 i)
  have "i < 16" "canonical (ts ! i)" using present_mem [of i ts] assms by (auto simp: 2)
  then show ?thesis using assms 2 by (auto simp: t_extend_canonical)
qed (use assms in \<open>auto split: option.splits\<close>)

lemma t_delete_canonical: "canonical t \<Longrightarrow> nibbles_ok k \<Longrightarrow> canonical (t_delete k t)"
proof (induction k t rule: t_delete.induct)
  case (3 k e t)
  then show ?case by (auto simp: t_extend_canonical)
next
  case (4 ts w)
  then have "length ts = 16" "\<And>t. t \<in> set ts \<Longrightarrow> canonical t" by auto
  from t_squash_branch_canonical [OF this, where w = None] show ?case by (simp only: t_delete.simps)
next
  case (5 n k ts w)
  have ts: "length ts = 16" "\<forall>t \<in> set ts. canonical t" "n < 16" "nibbles_ok k" using 5(2,3) by simp_all
  then have "canonical (t_delete k (ts ! n))" using 5(1) by simp
  then have "\<And>t. t \<in> set (ts[n := t_delete k (ts ! n)]) \<Longrightarrow> canonical t" using canonical_update [OF ts(2)] by blast
  from t_squash_branch_canonical [OF _ this, where w = w] ts(1) show ?case by (simp only: t_delete.simps length_list_update)
qed auto

lemma t_delete_lookup: "shape t \<Longrightarrow> nibbles_ok k \<Longrightarrow> t_lookup (t_delete k t) l = (if l = k then None else t_lookup t l)"
proof (induction k t arbitrary: l rule: t_delete.induct)
  case (3 k e t)
  then show ?case by (auto simp: t_extend_lookup prefix_def)
next
  case (4 ts w)
  then show ?case by (cases l) (simp_all only: t_delete.simps t_squash_lookup, simp_all)
next
  case (5 n k ts w)
  have n: "n < length ts" "shape (ts ! n)" "nibbles_ok k" using 5(2,3) by auto
  show ?case using 5(1) [OF n(2,3)] n(1) by (cases l) (auto simp only: t_delete.simps t_squash_lookup, auto simp: nth_list_update)
qed auto

text \<open>Deleting a key that is not there changes nothing.\<close>

lemma t_delete_absent: "canonical t \<Longrightarrow> nibbles_ok k \<Longrightarrow> t_lookup t k = None \<Longrightarrow> t_delete k t = t"
  by (rule canonical_unique) (auto simp: t_delete_canonical t_delete_lookup canonical_shape)

lemma t_extend_mem: "t_mem vl (t_extend e t) \<le> 50 + key_cost e + t_mem vl t"
  by (cases t) (auto simp: key_cost_def)

lemma mem_child: "n < length ts \<Longrightarrow> t_mem vl (ts ! n) \<le> sum_list (map (t_mem vl) ts)"
  by (simp add: member_le_sum_list)

lemma t_squash_mem: "t_mem vl (t_squash t) \<le> t_mem vl t + 2"
proof (cases t)
  case (TBranch ts w)
  show ?thesis
  proof (cases rule: squash_branch_cases [where ts = ts and w = w])
    case (2 i)
    then have "i < length ts" using present_mem [of i ts] by simp
    then show ?thesis using t_extend_mem [of vl "[i]" "ts ! i"] mem_child [of i ts vl] by (simp add: TBranch 2 key_cost_def)
  qed (auto simp: TBranch key_cost_def split: option.splits)
next
  case (TExt e u)
  then show ?thesis using t_extend_mem [of vl e u] by simp
qed simp_all

lemma t_delete_mem: "shape t \<Longrightarrow> nibbles_ok k \<Longrightarrow> t_mem vl (t_delete k t) \<le> t_mem vl t + 2 + 2 * length k"
proof (induction k t rule: t_delete.induct)
  case (3 k e t)
  show ?case
  proof (cases "prefix e k")
    case True
    then obtain l where l: "k = e @ l" by (auto simp: prefix_def)
    then show ?thesis using 3 t_extend_mem [of vl e "t_delete l t"] by simp
  qed simp
next
  case (4 ts w)
  have "t_mem vl (t_squash (TBranch ts None)) \<le> t_mem vl (TBranch ts None) + 2" by (rule t_squash_mem)
  moreover have "t_mem vl (TBranch ts None) \<le> t_mem vl (TBranch ts w)" by (simp split: option.splits)
  ultimately show ?case by (simp only: t_delete.simps list.size)
next
  case (5 n k ts w)
  have n: "n < length ts" "shape (ts ! n)" "nibbles_ok k" using 5(2,3) by auto
  have "t_mem vl (t_squash (TBranch (ts[n := t_delete k (ts ! n)]) w)) \<le> t_mem vl (TBranch (ts[n := t_delete k (ts ! n)]) w) + 2" by (rule t_squash_mem)
  moreover have "t_mem vl (TBranch (ts[n := t_delete k (ts ! n)]) w) + t_mem vl (ts ! n) = t_mem vl (TBranch ts w) + t_mem vl (t_delete k (ts ! n))"
    using sum_list_update_mem [OF n(1), of "t_mem vl" "t_delete k (ts ! n)"] by simp
  moreover note 5(1) [OF n(2,3)]
  ultimately have "t_mem vl (t_squash (TBranch (ts[n := t_delete k (ts ! n)]) w)) \<le> t_mem vl (TBranch ts w) + 2 + 2 * length k + 2" by linarith
  then show ?case by (simp only: t_delete.simps list.size) simp
qed auto

end
