(* ===== verification/Nibble_Slice.thy ===== *)
theory Nibble_Slice
  imports Rust_Prelude "HOL-Library.List_Lexorder" "HOL-Library.Sublist"
begin

text \<open>
  Views of byte slices as sequences of nibbles (\<open>core/store/src/trie/nibble_slice.rs\<close>), the keys of
  the trie: access, comparison and the hex-prefix encodings.  A byte is a natural number below 256;
  sums and products of bytes are checked.  Offsets are bounded by the length of a slice in memory, so
  they do not overflow.
\<close>

section \<open>Definitions\<close>

record nibble_slice =
  ns_data :: "nat list"
  ns_offset :: nat

definition ns_new_offset :: "nat list \<Rightarrow> nat \<Rightarrow> nibble_slice" where
  "ns_new_offset data offset = \<lparr> ns_data = data, ns_offset = offset \<rparr>"

definition ns_new :: "nat list \<Rightarrow> nibble_slice" where
  "ns_new data = ns_new_offset data 0"

definition ns_from_encoded :: "nat list \<Rightarrow> (nibble_slice \<times> bool) option" where
  "ns_from_encoded data =
     do {
       first \<leftarrow> vec_get data 0;
       Some (ns_new_offset data (if and first 16 = 16 then 1 else 2), and first 32 = 32)
     }"

definition ns_len :: "nibble_slice \<Rightarrow> nat option" where
  "ns_len s = checked_sub (length (ns_data s) * 2) (ns_offset s)"

definition ns_is_empty :: "nibble_slice \<Rightarrow> bool option" where
  "ns_is_empty s = do { l \<leftarrow> ns_len s; Some (l = 0) }"

definition ns_at :: "nibble_slice \<Rightarrow> nat \<Rightarrow> nat option" where
  "ns_at s i =
     do {
       let shift = (if and (ns_offset s + i) 1 = 1 then 0 else 4);
       b \<leftarrow> vec_get (ns_data s) ((ns_offset s + i) div 2);
       Some (and (drop_bit shift b) 15)
     }"

definition ns_mid :: "nibble_slice \<Rightarrow> nat \<Rightarrow> nibble_slice" where
  "ns_mid s i = \<lparr> ns_data = ns_data s, ns_offset = ns_offset s + i \<rparr>"

text \<open>The iterator: the number of nibbles already returned is its state.\<close>

definition ns_next :: "nibble_slice \<Rightarrow> nat \<Rightarrow> (nat option \<times> nat) option" where
  "ns_next s i =
     do {
       l \<leftarrow> ns_len s;
       if i + 1 \<le> l then do { n \<leftarrow> ns_at s (i + 1 - 1); Some (Some n, i + 1) } else Some (None, i + 1)
     }"

text \<open>The loop of \<open>common_prefix\<close> over the indices, with its early return.\<close>

fun common_prefix_loop :: "nibble_slice \<Rightarrow> nibble_slice \<Rightarrow> nat list \<Rightarrow> nat \<Rightarrow> nat option" where
  "common_prefix_loop s t [] m = Some m"
| "common_prefix_loop s t (i # is) m =
     do {
       a \<leftarrow> ns_at s i;
       b \<leftarrow> ns_at t i;
       if a \<noteq> b then Some i else common_prefix_loop s t is m
     }"

definition ns_common_prefix :: "nibble_slice \<Rightarrow> nibble_slice \<Rightarrow> nat option" where
  "ns_common_prefix s t =
     do {
       l \<leftarrow> ns_len s;
       l' \<leftarrow> ns_len t;
       common_prefix_loop s t [0..<min l l'] (min l l')
     }"

definition ns_starts_with :: "nibble_slice \<Rightarrow> nibble_slice \<Rightarrow> bool option" where
  "ns_starts_with s t = do { c \<leftarrow> ns_common_prefix s t; l \<leftarrow> ns_len t; Some (c = l) }"

definition ns_eq :: "nibble_slice \<Rightarrow> nibble_slice \<Rightarrow> bool option" where
  "ns_eq s t =
     do {
       l \<leftarrow> ns_len s;
       l' \<leftarrow> ns_len t;
       if l = l' then ns_starts_with s t else Some False
     }"

datatype ordering = Less | Equal | Greater

definition cmp :: "'a::linorder \<Rightarrow> 'a \<Rightarrow> ordering" where
  "cmp a b = (if a < b then Less else if a = b then Equal else Greater)"

fun ns_cmp_loop :: "nibble_slice \<Rightarrow> nibble_slice \<Rightarrow> nat list \<Rightarrow> ordering \<Rightarrow> ordering option" where
  "ns_cmp_loop s t [] r = Some r"
| "ns_cmp_loop s t (i # is) r =
     do {
       a \<leftarrow> ns_at s i;
       b \<leftarrow> ns_at t i;
       (case cmp a b of Less \<Rightarrow> Some Less | Greater \<Rightarrow> Some Greater | Equal \<Rightarrow> ns_cmp_loop s t is r)
     }"

definition ns_cmp :: "nibble_slice \<Rightarrow> nibble_slice \<Rightarrow> ordering option" where
  "ns_cmp s t =
     do {
       l \<leftarrow> ns_len s;
       l' \<leftarrow> ns_len t;
       ns_cmp_loop s t [0..<min l l'] (cmp l l')
     }"

subsection \<open>Encodings\<close>

text \<open>The loop that the encoders share: it appends the byte of the nibbles at \<open>i\<close> and \<open>i + 1\<close>.\<close>

function push_pairs :: "(nat \<Rightarrow> nat option) \<Rightarrow> nat \<Rightarrow> nat \<Rightarrow> nat list \<Rightarrow> nat list option" where
  "push_pairs byte i l r =
     (if i < l then do { b \<leftarrow> byte i; push_pairs byte (i + 2) l (r @ [b]) } else Some r)"
  by auto
termination by (relation "measure (\<lambda>(_, i, l, _). l - i)") auto

declare push_pairs.simps [simp del]

definition pair_byte :: "nat \<Rightarrow> nat \<Rightarrow> nat option" where
  "pair_byte a b = do { h \<leftarrow> checked_mul u8_w a 16; checked_add u8_w h b }"

text \<open>The first byte: the parity with the first nibble, and the leaf flag.\<close>

definition prefix_byte :: "nat \<Rightarrow> nat option \<Rightarrow> bool \<Rightarrow> nat option" where
  "prefix_byte i first is_leaf =
     do {
       h \<leftarrow> (if i = 1 then do { n \<leftarrow> first; checked_add u8_w 16 n } else Some 0);
       checked_add u8_w h (if is_leaf then 32 else 0)
     }"

definition ns_encode_nibbles :: "nat list \<Rightarrow> bool \<Rightarrow> nat list option" where
  "ns_encode_nibbles nibbles is_leaf =
     do {
       let l = length nibbles;
       let i = l mod 2;
       first \<leftarrow> prefix_byte i (vec_get nibbles 0) is_leaf;
       push_pairs (\<lambda>i. do { a \<leftarrow> vec_get nibbles i; b \<leftarrow> vec_get nibbles (i + 1); pair_byte a b }) i l [first]
     }"

definition ns_encoded :: "nibble_slice \<Rightarrow> bool \<Rightarrow> nat list option" where
  "ns_encoded s is_leaf =
     do {
       l \<leftarrow> ns_len s;
       let parity = l mod 2;
       first_byte \<leftarrow> (if parity = 1 then do { n \<leftarrow> ns_at s 0; checked_add u8_w 16 n } else Some 0);
       let first_byte = (if is_leaf then or first_byte 32 else first_byte);
       let from_byte = (ns_offset s + parity) div 2;
       assert (from_byte \<le> length (ns_data s));
       Some ([first_byte] @ drop from_byte (ns_data s))
     }"

text \<open>The same on a vector that is cleared first.\<close>

definition ns_encode_to :: "nibble_slice \<Rightarrow> bool \<Rightarrow> nat list \<Rightarrow> nat list option" where
  "ns_encode_to s is_leaf to =
     do {
       l \<leftarrow> ns_len s;
       let parity = l mod 2;
       first_byte \<leftarrow> (if parity = 1 then do { n \<leftarrow> ns_at s 0; checked_add u8_w 16 n } else Some 0);
       let first_byte = (if is_leaf then or first_byte 32 else first_byte);
       let to = [] @ [first_byte];
       let from_byte = (ns_offset s + parity) div 2;
       assert (from_byte \<le> length (ns_data s));
       Some (to @ drop from_byte (ns_data s))
     }"

definition ns_merge_encoded :: "nibble_slice \<Rightarrow> nibble_slice \<Rightarrow> bool \<Rightarrow> nat list option" where
  "ns_merge_encoded s t is_leaf =
     do {
       ls \<leftarrow> ns_len s;
       lt \<leftarrow> ns_len t;
       let l = ls + lt;
       let i = l mod 2;
       first \<leftarrow> prefix_byte i (ns_at s 0) is_leaf;
       push_pairs
         (\<lambda>i. do {
            bit1 \<leftarrow> (if i < ls then ns_at s i else ns_at t (i - ls));
            bit2 \<leftarrow> (if i + 1 < l then if i + 1 < ls then ns_at s (i + 1) else ns_at t (i + 1 - ls) else Some 0);
            pair_byte bit1 bit2
          }) i l [first]
     }"

definition ns_encoded_leftmost :: "nibble_slice \<Rightarrow> nat \<Rightarrow> bool \<Rightarrow> nat list option" where
  "ns_encoded_leftmost s n is_leaf =
     do {
       len \<leftarrow> ns_len s;
       let l = min len n;
       let i = l mod 2;
       first \<leftarrow> prefix_byte i (ns_at s 0) is_leaf;
       push_pairs (\<lambda>i. do { a \<leftarrow> ns_at s i; b \<leftarrow> ns_at s (i + 1); pair_byte a b }) i l [first]
     }"

text \<open>The same into a vector of the right size: the bytes are stored at their positions.\<close>

function store_pairs :: "(nat \<Rightarrow> nat option) \<Rightarrow> nat \<Rightarrow> nat \<Rightarrow> nat list \<Rightarrow> nat list option" where
  "store_pairs byte i l to =
     (if i < l then
        do {
          b \<leftarrow> byte i;
          to \<leftarrow> vec_set to (i div 2 + 1) b;
          store_pairs byte (i + 2) l to
        }
      else Some to)"
  by auto
termination by (relation "measure (\<lambda>(_, i, l, _). l - i)") auto

declare store_pairs.simps [simp del]

definition vec_resize :: "nat \<Rightarrow> 'a \<Rightarrow> 'a list \<Rightarrow> 'a list" where
  "vec_resize n x xs = take n xs @ replicate (n - length xs) x"

definition ns_encode_leftmost_to :: "nibble_slice \<Rightarrow> nat \<Rightarrow> bool \<Rightarrow> nat list \<Rightarrow> nat list option" where
  "ns_encode_leftmost_to s n is_leaf to =
     do {
       len \<leftarrow> ns_len s;
       let l = min len n;
       let to = vec_resize (1 + l div 2) 0 to;
       let i = l mod 2;
       first \<leftarrow> prefix_byte i (ns_at s 0) is_leaf;
       to \<leftarrow> vec_set to 0 first;
       store_pairs (\<lambda>i. do { a \<leftarrow> ns_at s i; b \<leftarrow> ns_at s (i + 1); pair_byte a b }) i l to
     }"

definition ns_nibbles_to_bytes :: "nat list \<Rightarrow> nat list option" where
  "ns_nibbles_to_bytes nibbles =
     do {
       assert (length nibbles mod 2 = 0);
       encoded \<leftarrow> ns_encode_nibbles nibbles False;
       assert (1 \<le> length encoded);
       Some (drop 1 encoded)
     }"

section \<open>The sequence of nibbles\<close>

fun unpack :: "nat list \<Rightarrow> nat list" where
  "unpack [] = []"
| "unpack (b # bs) = b div 16 # b mod 16 # unpack bs"

fun pack :: "nat list \<Rightarrow> nat list" where
  "pack (a # b # ns) = (a * 16 + b) # pack ns"
| "pack ns = []"

definition nibbles :: "nibble_slice \<Rightarrow> nat list" where
  "nibbles s = drop (ns_offset s) (unpack (ns_data s))"

definition slice_ok :: "nibble_slice \<Rightarrow> bool" where
  "slice_ok s \<longleftrightarrow> (\<forall>b \<in> set (ns_data s). b < 256) \<and> ns_offset s \<le> length (ns_data s) * 2"

text \<open>The hex-prefix encoding of a sequence of nibbles.\<close>

definition hex_prefix :: "nat list \<Rightarrow> bool \<Rightarrow> nat list" where
  "hex_prefix ns is_leaf =
     ((if odd (length ns) then 16 + hd ns else 0) + (if is_leaf then 32 else 0)) # pack (drop (length ns mod 2) ns)"

lemma unpack_length [simp]: "length (unpack bs) = length bs * 2"
  by (induction bs) simp_all

lemma unpack_nth: "i < length bs * 2 \<Longrightarrow> unpack bs ! i = (if odd i then bs ! (i div 2) mod 16 else bs ! (i div 2) div 16)"
proof (induction bs arbitrary: i)
  case (Cons b bs)
  show ?case
  proof (cases "i < 2")
    case True
    then show ?thesis by (auto simp: less_2_cases_iff)
  next
    case False
    then obtain j where "i = Suc (Suc j)" by (metis add_2_eq_Suc le_add_diff_inverse not_less)
    then show ?thesis using Cons by simp
  qed
qed simp

lemma unpack_drop: "drop (2 * k) (unpack bs) = unpack (drop k bs)"
proof (induction k arbitrary: bs)
  case (Suc k)
  then show ?case by (cases bs) simp_all
qed simp

lemma pack_unpack: "pack (unpack bs) = bs"
  by (induction bs) simp_all

lemma unpack_pack: "even (length ns) \<Longrightarrow> \<forall>n \<in> set ns. n < 16 \<Longrightarrow> unpack (pack ns) = ns"
  by (induction ns rule: pack.induct) simp_all

lemma pack_length: "length (pack ns) = length ns div 2"
  by (induction ns rule: pack.induct) simp_all

lemma unpack_lt: "\<forall>b \<in> set bs. b < 256 \<Longrightarrow> \<forall>n \<in> set (unpack bs). n < 16"
  by (induction bs) (simp_all add: div_less_iff_less_mult)

lemma nibbles_lt: "slice_ok s \<Longrightarrow> n \<in> set (nibbles s) \<Longrightarrow> n < 16"
  using unpack_lt [of "ns_data s"] by (auto simp: slice_ok_def nibbles_def dest: in_set_dropD)

lemma ns_len_eq: "slice_ok s \<Longrightarrow> ns_len s = Some (length (nibbles s))"
  by (simp add: ns_len_def slice_ok_def nibbles_def checked_sub_def)

lemma and_15: "and (n :: nat) 15 = n mod 16"
  using take_bit_eq_mask [of 4 n] by (simp add: mask_eq_exp_minus_1 take_bit_eq_mod)

lemma ns_at_eq:
  assumes "slice_ok s" and "i < length (nibbles s)"
  shows "ns_at s i = Some (nibbles s ! i)"
proof -
  define j where "j = ns_offset s + i"
  have j: "j < length (ns_data s) * 2" "nibbles s ! i = unpack (ns_data s) ! j"
    using assms by (simp_all add: nibbles_def j_def slice_ok_def)
  then have d: "j div 2 < length (ns_data s)" by simp
  then have "ns_data s ! (j div 2) < 256" using assms(1) by (simp add: slice_ok_def)
  then have "ns_data s ! (j div 2) div 16 < 16" by simp
  then show ?thesis
    unfolding ns_at_def j_def [symmetric] using unpack_nth [OF j(1)] d
    by (cases "odd j") (simp_all add: j(2) Let_def and_one_eq odd_iff_mod_2_eq_one drop_bit_eq_div and_15)
qed

section \<open>Comparison\<close>

lemma common_prefix_loop_eq:
  assumes "slice_ok s" and "slice_ok t" and "m \<le> length (nibbles s)" and "m \<le> length (nibbles t)" and "k \<le> m"
    and "\<forall>i < k. nibbles s ! i = nibbles t ! i"
  shows "\<exists>c. common_prefix_loop s t [k..<m] m = Some c \<and> c \<le> m \<and> (\<forall>i < c. nibbles s ! i = nibbles t ! i) \<and>
    (c < m \<longrightarrow> nibbles s ! c \<noteq> nibbles t ! c)"
  using assms(5,6)
proof (induction "m - k" arbitrary: k)
  case (Suc d)
  then have k: "k < m" by simp
  have at: "ns_at s k = Some (nibbles s ! k)" "ns_at t k = Some (nibbles t ! k)"
    using assms(1-4) k by (simp_all add: ns_at_eq)
  have up: "[k..<m] = k # [Suc k..<m]" using k by (rule upt_conv_Cons)
  show ?case
  proof (cases "nibbles s ! k = nibbles t ! k")
    case True
    with Suc.hyps(1) [of "Suc k"] Suc.hyps(2) Suc.prems k show ?thesis by (simp add: up at less_Suc_eq)
  next
    case False
    then show ?thesis using Suc.prems k by (auto simp: up at)
  qed
qed simp

text \<open>The longest common prefix.\<close>

lemma ns_common_prefix_eq:
  assumes "slice_ok s" and "slice_ok t"
  shows "ns_common_prefix s t = Some (length (longest_common_prefix (nibbles s) (nibbles t)))"
proof -
  let ?s = "nibbles s" and ?t = "nibbles t"
  let ?m = "min (length ?s) (length ?t)"
  obtain c where c: "common_prefix_loop s t [0..<?m] ?m = Some c" "c \<le> ?m" "\<forall>i < c. ?s ! i = ?t ! i" "c < ?m \<longrightarrow> ?s ! c \<noteq> ?t ! c"
    using common_prefix_loop_eq [OF assms, of ?m 0] by auto
  have "length (longest_common_prefix xs ys) = c"
    if "c \<le> min (length xs) (length ys)" "\<forall>i < c. xs ! i = ys ! i" "c < min (length xs) (length ys) \<longrightarrow> xs ! c \<noteq> ys ! c"
    for xs ys :: "nat list"
    using that
  proof (induction xs ys arbitrary: c rule: longest_common_prefix.induct)
    case (1 x xs y ys)
    show ?case
    proof (cases c)
      case 0
      then show ?thesis using 1 by simp
    next
      case (Suc c')
      then have "x = y" using 1(3) by (auto dest: spec [of _ 0])
      moreover have "\<forall>i < c'. xs ! i = ys ! i" using 1(3) Suc by auto
      ultimately show ?thesis using 1(1) [of c'] 1(2,4) Suc by auto
    qed
  qed simp_all
  then show ?thesis using c assms by (simp add: ns_common_prefix_def ns_len_eq)
qed

lemma ns_starts_with_eq:
  assumes "slice_ok s" and "slice_ok t"
  shows "ns_starts_with s t = Some (prefix (nibbles t) (nibbles s))"
proof -
  let ?l = "longest_common_prefix (nibbles s) (nibbles t)"
  have "?l = nibbles t" if "length ?l = length (nibbles t)"
  proof -
    obtain zs where zs: "nibbles t = ?l @ zs" using longest_common_prefix_prefix2 by (rule prefixE)
    then have "length (nibbles t) = length ?l + length zs" by (metis length_append)
    with that have "zs = []" by simp
    with zs show ?thesis by simp
  qed
  then have "prefix (nibbles t) (nibbles s)" if "length ?l = length (nibbles t)"
    using that longest_common_prefix_prefix1 [of "nibbles s" "nibbles t"] by simp
  moreover have "length ?l = length (nibbles t)" if "prefix (nibbles t) (nibbles s)"
    using that longest_common_prefix_max_prefix [OF that, of "nibbles t"] longest_common_prefix_prefix2 [of "nibbles s" "nibbles t"]
    by (metis prefix_order.antisym prefix_order.order_refl)
  ultimately have "length ?l = length (nibbles t) \<longleftrightarrow> prefix (nibbles t) (nibbles s)" by blast
  then show ?thesis using assms by (simp add: ns_starts_with_def ns_common_prefix_eq ns_len_eq)
qed

lemma ns_eq_eq:
  assumes "slice_ok s" and "slice_ok t"
  shows "ns_eq s t = Some (nibbles s = nibbles t)"
proof -
  have "length (nibbles s) = length (nibbles t) \<and> prefix (nibbles t) (nibbles s) \<longleftrightarrow> nibbles s = nibbles t"
    by (auto simp: prefix_def)
  then show ?thesis using assms by (auto simp: ns_eq_def ns_len_eq ns_starts_with_eq)
qed

lemma ns_cmp_loop_eq:
  assumes "slice_ok s" and "slice_ok t" and "k \<le> min (length (nibbles s)) (length (nibbles t))"
  shows "ns_cmp_loop s t [k..<min (length (nibbles s)) (length (nibbles t))] (cmp (length (nibbles s)) (length (nibbles t))) =
    Some (cmp (drop k (nibbles s)) (drop k (nibbles t)))"
  using assms(3)
proof (induction "min (length (nibbles s)) (length (nibbles t)) - k" arbitrary: k)
  case 0
  then have k: "k = min (length (nibbles s)) (length (nibbles t))" by simp
  have "cmp (length (nibbles s)) (length (nibbles t)) = cmp (drop k (nibbles s)) (drop k (nibbles t))"
  proof (cases "length (nibbles s)" "length (nibbles t)" rule: linorder_cases)
    case less
    then have "drop k (nibbles s) = []" "drop k (nibbles t) \<noteq> []" by (simp_all add: k)
    then show ?thesis using less by (cases "drop k (nibbles t)") (simp_all add: cmp_def)
  next
    case equal
    then show ?thesis by (simp add: cmp_def k)
  next
    case greater
    then have "drop k (nibbles t) = []" "drop k (nibbles s) \<noteq> []" by (simp_all add: k)
    then show ?thesis using greater by (cases "drop k (nibbles s)") (simp_all add: cmp_def)
  qed
  then show ?case by (simp add: k)
next
  case (Suc d)
  then have k: "k < min (length (nibbles s)) (length (nibbles t))" by linarith
  have at: "ns_at s k = Some (nibbles s ! k)" "ns_at t k = Some (nibbles t ! k)"
    using assms(1,2) k by (simp_all add: ns_at_eq)
  have dr: "drop k (nibbles s) = nibbles s ! k # drop (Suc k) (nibbles s)" "drop k (nibbles t) = nibbles t ! k # drop (Suc k) (nibbles t)"
    using k by (simp_all add: Cons_nth_drop_Suc)
  have ih: "ns_cmp_loop s t [Suc k..<min (length (nibbles s)) (length (nibbles t))] (cmp (length (nibbles s)) (length (nibbles t))) =
      Some (cmp (drop (Suc k) (nibbles s)) (drop (Suc k) (nibbles t)))"
    using Suc.hyps(1) [of "Suc k"] Suc.hyps(2) k by simp
  show ?case
    unfolding upt_conv_Cons [OF k] dr using ih by (auto simp: at cmp_def)
qed

text \<open>
  Nibble slices compare as their sequences of nibbles, whatever their offsets: equality,
  prefix, the length of the common prefix and the lexicographic order; no comparison panics.
\<close>

theorem nibble_comparisons:
  assumes "slice_ok s" and "slice_ok t"
  shows "ns_eq s t = Some (nibbles s = nibbles t) \<and> ns_starts_with s t = Some (prefix (nibbles t) (nibbles s)) \<and>
    ns_common_prefix s t = Some (length (longest_common_prefix (nibbles s) (nibbles t))) \<and>
    ns_cmp s t = Some (cmp (nibbles s) (nibbles t))"
  using ns_cmp_loop_eq [OF assms, of 0] assms
  by (simp_all add: ns_eq_eq ns_starts_with_eq ns_common_prefix_eq ns_cmp_def ns_len_eq)

theorem nibble_comparisons_witness:
  "ns_cmp (ns_new [18, 52]) (ns_new_offset [1, 36] 1) = Some Less \<and>
   ns_common_prefix (ns_new [18, 52]) (ns_new_offset [1, 36] 1) = Some 2"
proof -
  have ok: "slice_ok (ns_new [18, 52])" "slice_ok (ns_new_offset [1, 36] 1)"
    by (simp_all add: slice_ok_def ns_new_def ns_new_offset_def)
  show ?thesis
    using nibble_comparisons [OF ok] by (simp add: ns_new_def ns_new_offset_def nibbles_def cmp_def)
qed

section \<open>Encodings\<close>

lemma pair_byte_eq: "a < 16 \<Longrightarrow> b < 16 \<Longrightarrow> pair_byte a b = Some (a * 16 + b)"
  by (simp add: pair_byte_def checked_mul_def checked_add_def)

lemma push_pairs_eq:
  assumes "even (length ns - i)" and "i \<le> length ns"
    and "\<And>j. even (j - i) \<Longrightarrow> i \<le> j \<Longrightarrow> j + 1 < length ns \<Longrightarrow> byte j = Some (ns ! j * 16 + ns ! (j + 1))"
  shows "push_pairs byte i (length ns) r = Some (r @ pack (drop i ns))"
  using assms
proof (induction "length ns - i" arbitrary: i r rule: less_induct)
  case less
  show ?case
  proof (cases "i < length ns")
    case True
    then have i: "i + 1 < length ns" using less.prems(1) by (metis Suc_eq_plus1 even_Suc Suc_diff_Suc Suc_lessI diff_self_eq_0 even_zero)
    then have d: "drop i ns = ns ! i # ns ! (i + 1) # drop (i + 2) ns"
      by (metis Cons_nth_drop_Suc Suc_eq_plus1 True add_2_eq_Suc')
    have "push_pairs byte (i + 2) (length ns) (r @ [ns ! i * 16 + ns ! (i + 1)]) =
        Some ((r @ [ns ! i * 16 + ns ! (i + 1)]) @ pack (drop (i + 2) ns))"
    proof (rule less.hyps)
      show "length ns - (i + 2) < length ns - i" "i + 2 \<le> length ns" using i by simp_all
      show "even (length ns - (i + 2))" using less.prems(1) i by simp
      fix j assume "even (j - (i + 2))" "i + 2 \<le> j" "j + 1 < length ns"
      then show "byte j = Some (ns ! j * 16 + ns ! (j + 1))" by (intro less.prems(3)) auto
    qed
    then show ?thesis using True i less.prems(3) [of i] by (subst push_pairs.simps) (simp add: d)
  next
    case False
    then show ?thesis using less.prems(2) by (subst push_pairs.simps) simp
  qed
qed

lemma prefix_byte_eq:
  assumes "odd (length ns) \<Longrightarrow> first = Some (hd ns)" and "\<forall>n \<in> set ns. n < 16"
  shows "prefix_byte (length ns mod 2) first is_leaf = Some (hd (hex_prefix ns is_leaf))"
  using assms
  by (cases ns) (auto simp: prefix_byte_def hex_prefix_def checked_add_def odd_iff_mod_2_eq_one)

text \<open>Every encoder that pushes pairs computes the hex-prefix encoding of the nibbles it reads.\<close>

lemma push_encoder:
  assumes "\<forall>n \<in> set ns. n < 16" and "odd (length ns) \<Longrightarrow> first = Some (hd ns)"
    and "\<And>j. j + 1 < length ns \<Longrightarrow> byte j = pair_byte (ns ! j) (ns ! (j + 1))"
  shows "do { f \<leftarrow> prefix_byte (length ns mod 2) first is_leaf; push_pairs byte (length ns mod 2) (length ns) [f] } =
    Some (hex_prefix ns is_leaf)"
proof -
  have "push_pairs byte (length ns mod 2) (length ns) [f] = Some ([f] @ pack (drop (length ns mod 2) ns))" for f
  proof (rule push_pairs_eq)
    show "even (length ns - length ns mod 2)" by simp
    fix j assume "j + 1 < length ns"
    then show "byte j = Some (ns ! j * 16 + ns ! (j + 1))" using assms(1,3) by (simp add: pair_byte_eq)
  qed simp
  then show ?thesis using prefix_byte_eq [OF assms(2,1)] by (simp add: hex_prefix_def)
qed

lemma ns_encode_nibbles_eq:
  assumes "\<forall>n \<in> set ns. n < 16"
  shows "ns_encode_nibbles ns is_leaf = Some (hex_prefix ns is_leaf)"
  unfolding ns_encode_nibbles_def Let_def
proof (rule push_encoder [OF assms])
  assume "odd (length ns)"
  then have "ns \<noteq> []" by auto
  then show "vec_get ns 0 = Some (hd ns)" by (simp add: hd_conv_nth)
qed simp

lemma ns_encoded_leftmost_eq:
  assumes "slice_ok s"
  shows "ns_encoded_leftmost s n is_leaf = Some (hex_prefix (take n (nibbles s)) is_leaf)"
proof -
  let ?ns = "take n (nibbles s)"
  have len: "min (length (nibbles s)) n = length ?ns" by simp
  have "do { f \<leftarrow> prefix_byte (length ?ns mod 2) (ns_at s 0) is_leaf;
      push_pairs (\<lambda>i. do { a \<leftarrow> ns_at s i; b \<leftarrow> ns_at s (i + 1); pair_byte a b }) (length ?ns mod 2) (length ?ns) [f] } =
    Some (hex_prefix ?ns is_leaf)"
  proof (rule push_encoder)
    show "\<forall>n \<in> set ?ns. n < 16" using nibbles_lt [OF assms] by (auto dest: in_set_takeD)
    show "ns_at s 0 = Some (hd ?ns)" if "odd (length ?ns)"
    proof -
      have "?ns \<noteq> []" using that by (metis even_zero list.size(3))
      then show ?thesis using assms by (simp add: ns_at_eq hd_conv_nth)
    qed
    fix j assume "j + 1 < length ?ns"
    then show "(do { a \<leftarrow> ns_at s j; b \<leftarrow> ns_at s (j + 1); pair_byte a b }) = pair_byte (?ns ! j) (?ns ! (j + 1))"
      using assms by (simp add: ns_at_eq)
  qed
  then show ?thesis unfolding ns_encoded_leftmost_def Let_def ns_len_eq [OF assms] bind.bind_lunit len .
qed

lemma ns_merge_encoded_eq:
  assumes "slice_ok s" and "slice_ok t" and "nibbles s \<noteq> [] \<or> even (length (nibbles t))"
  shows "ns_merge_encoded s t is_leaf = Some (hex_prefix (nibbles s @ nibbles t) is_leaf)"
proof -
  let ?ns = "nibbles s @ nibbles t" and ?l = "length (nibbles s)"
  define byte where "byte i = do {
      bit1 \<leftarrow> (if i < ?l then ns_at s i else ns_at t (i - ?l));
      bit2 \<leftarrow> (if i + 1 < length ?ns then if i + 1 < ?l then ns_at s (i + 1) else ns_at t (i + 1 - ?l) else Some 0);
      pair_byte bit1 bit2 }" for i
  have bits: "(if i < ?l then ns_at s i else ns_at t (i - ?l)) = Some (?ns ! i)" if "i < length ?ns" for i
    using that assms by (simp add: ns_at_eq nth_append)
  have "do { f \<leftarrow> prefix_byte (length ?ns mod 2) (ns_at s 0) is_leaf; push_pairs byte (length ?ns mod 2) (length ?ns) [f] } =
    Some (hex_prefix ?ns is_leaf)"
  proof (rule push_encoder)
    show "\<forall>n \<in> set ?ns. n < 16" using nibbles_lt assms by auto
    show "ns_at s 0 = Some (hd ?ns)" if "odd (length ?ns)"
    proof -
      have "nibbles s \<noteq> []" using that assms(3) by auto
      then show ?thesis using assms(1) by (simp add: ns_at_eq hd_append hd_conv_nth)
    qed
    fix j assume "j + 1 < length ?ns"
    then show "byte j = pair_byte (?ns ! j) (?ns ! (j + 1))" using bits [of j] bits [of "j + 1"] by (simp add: byte_def)
  qed
  then show ?thesis using assms unfolding ns_merge_encoded_def Let_def ns_len_eq [OF assms(1)] ns_len_eq [OF assms(2)] byte_def by simp
qed

lemma or_32: "x < 32 \<Longrightarrow> or x 32 = x + (32 :: nat)"
proof -
  assume "x < 32"
  then have "and x 32 = 0" using and_exp_eq_0_iff_not_bit [of x 5] by (simp add: bit_iff_odd)
  then show ?thesis by (simp add: disjunctive_add_eq_or)
qed

lemma ns_encoded_eq:
  assumes "slice_ok s"
  shows "ns_encoded s is_leaf = Some (hex_prefix (nibbles s) is_leaf)"
proof -
  let ?ns = "nibbles s"
  let ?p = "length ?ns mod 2"
  have off: "ns_offset s \<le> length (ns_data s) * 2" using assms by (simp add: slice_ok_def)
  have "even (ns_offset s + ?p)" using off by (simp add: nibbles_def)
  then obtain k where k: "ns_offset s + ?p = 2 * k" by (rule evenE)
  have "k \<le> length (ns_data s)" using off k by (simp add: nibbles_def)
  moreover have "drop k (ns_data s) = pack (drop ?p ?ns)"
    using k by (simp add: nibbles_def add.commute unpack_drop pack_unpack)
  moreover have "(if ?p = 1 then do { n \<leftarrow> ns_at s 0; checked_add u8_w 16 n } else Some 0) = Some (if odd (length ?ns) then 16 + hd ?ns else 0)"
    "(if odd (length ?ns) then 16 + hd ?ns else 0) < 32"
  proof -
    have "hd ?ns < 16" if "odd (length ?ns)" using that nibbles_lt [OF assms, of "hd ?ns"] by (metis even_zero hd_in_set list.size(3))
    moreover have "ns_at s 0 = Some (hd ?ns)" if "odd (length ?ns)"
    proof -
      have "?ns \<noteq> []" using that by auto
      then show ?thesis using assms by (simp add: ns_at_eq hd_conv_nth)
    qed
    ultimately show "(if ?p = 1 then do { n \<leftarrow> ns_at s 0; checked_add u8_w 16 n } else Some 0) = Some (if odd (length ?ns) then 16 + hd ?ns else 0)"
      "(if odd (length ?ns) then 16 + hd ?ns else 0) < 32"
      by (cases "odd (length ?ns)"; simp add: odd_iff_mod_2_eq_one checked_add_def)+
  qed
  ultimately show ?thesis
    unfolding ns_encoded_def ns_len_eq [OF assms] by (simp add: k hex_prefix_def or_32 Let_def)
qed

lemma ns_encode_to_eq: "ns_encode_to s is_leaf to = ns_encoded s is_leaf"
  by (simp add: ns_encode_to_def ns_encoded_def)

lemma store_pairs_eq:
  assumes "even (length ns - i)" and "i \<le> length ns" and "length pre = i div 2 + 1" and "length rest = (length ns - i) div 2"
    and "\<And>j. j + 1 < length ns \<Longrightarrow> byte j = Some (ns ! j * 16 + ns ! (j + 1))"
  shows "store_pairs byte i (length ns) (pre @ rest) = Some (pre @ pack (drop i ns))"
  using assms(1-4)
proof (induction rest arbitrary: i pre)
  case Nil
  from Nil.prems(1,4) have "length ns - i = 0" by (metis dvd_mult_div_cancel list.size(3) mult_0_right)
  with Nil.prems(2) have "i = length ns" by simp
  then show ?case by (subst store_pairs.simps) simp
next
  case (Cons x rest)
  then have i: "i + 1 < length ns" by (auto elim!: evenE)
  then have d: "drop i ns = ns ! i # ns ! (i + 1) # drop (i + 2) ns"
    by (metis Cons_nth_drop_Suc Suc_eq_plus1 add_2_eq_Suc' add_lessD1)
  have "store_pairs byte (i + 2) (length ns) ((pre @ [ns ! i * 16 + ns ! (i + 1)]) @ rest) =
      Some ((pre @ [ns ! i * 16 + ns ! (i + 1)]) @ pack (drop (i + 2) ns))"
    using Cons.prems i by (intro Cons.IH) auto
  moreover have "(pre @ x # rest)[i div 2 + 1 := ns ! i * 16 + ns ! (i + 1)] = (pre @ [ns ! i * 16 + ns ! (i + 1)]) @ rest"
    using Cons.prems(3) by (simp add: list_update_append)
  ultimately show ?case
    using i assms(5) [OF i] Cons.prems(3) by (subst store_pairs.simps) (simp add: d)
qed

lemma ns_encode_leftmost_to_eq:
  assumes "slice_ok s"
  shows "ns_encode_leftmost_to s n is_leaf to = Some (hex_prefix (take n (nibbles s)) is_leaf)"
proof -
  define ns where "ns = take n (nibbles s)"
  have len: "min (length (nibbles s)) n = length ns" by (simp add: ns_def)
  have lt: "\<forall>n \<in> set ns. n < 16" using nibbles_lt [OF assms] by (auto simp: ns_def dest: in_set_takeD)
  define byte where "byte i = do { a \<leftarrow> ns_at s i; b \<leftarrow> ns_at s (i + 1); pair_byte a b }" for i
  have byte: "byte j = Some (ns ! j * 16 + ns ! (j + 1))" if "j + 1 < length ns" for j
  proof -
    have "ns ! j < 16" "ns ! (j + 1) < 16" using that lt by simp_all
    then show ?thesis using that assms by (simp add: byte_def ns_at_eq ns_def pair_byte_eq)
  qed
  have first: "prefix_byte (length ns mod 2) (ns_at s 0) is_leaf = Some (hd (hex_prefix ns is_leaf))"
  proof (rule prefix_byte_eq [OF _ lt])
    assume "odd (length ns)"
    then have "ns \<noteq> []" by auto
    then show "ns_at s 0 = Some (hd ns)" using assms by (simp add: ns_at_eq ns_def hd_conv_nth)
  qed
  have "length (vec_resize (1 + length ns div 2) 0 to) = 1 + length ns div 2" by (simp add: vec_resize_def)
  then obtain x rest where v: "vec_resize (1 + length ns div 2) 0 to = x # rest" "length rest = length ns div 2"
    by (cases "vec_resize (1 + length ns div 2) 0 to") auto
  have "store_pairs byte (length ns mod 2) (length ns) ([f] @ rest) = Some ([f] @ pack (drop (length ns mod 2) ns))" for f
    by (rule store_pairs_eq [OF _ _ _ _ byte]) (simp_all add: v(2) minus_mod_eq_div_mult)
  moreover have "(\<lambda>i. do { a \<leftarrow> ns_at s i; b \<leftarrow> ns_at s (i + 1); pair_byte a b }) = byte" by (simp add: byte_def fun_eq_iff)
  ultimately show ?thesis
    unfolding ns_encode_leftmost_to_def ns_len_eq [OF assms] Let_def bind.bind_lunit len v(1) first ns_def [symmetric]
    by (simp add: hex_prefix_def)
qed

lemma and_exp_nat: "and (x :: nat) (2 ^ k) = 2 ^ k \<longleftrightarrow> odd (x div 2 ^ k)"
proof
  assume "and x (2 ^ k) = 2 ^ k"
  then have "bit (and x (2 ^ k)) k" by (simp add: bit_exp_iff)
  then have "bit x k" unfolding bit_and_iff by simp
  then show "odd (x div 2 ^ k)" by (simp add: bit_iff_odd)
next
  assume "odd (x div 2 ^ k)"
  then have "bit x k" by (simp add: bit_iff_odd)
  then show "and x (2 ^ k) = 2 ^ k" by (intro bit_eqI) (auto simp: bit_and_iff bit_exp_iff)
qed

lemma pack_lt: "\<forall>n \<in> set ns. n < 16 \<Longrightarrow> \<forall>b \<in> set (pack ns). b < 256"
  by (induction ns rule: pack.induct) auto

lemma hex_prefix_from_encoded:
  assumes "\<forall>n \<in> set ns. n < 16"
  shows "\<exists>s. ns_from_encoded (hex_prefix ns is_leaf) = Some (s, is_leaf) \<and> slice_ok s \<and> nibbles s = ns"
proof -
  define f where "f = (if odd (length ns) then 16 + hd ns else 0) + (if is_leaf then 32 else 0 :: nat)"
  let ?d = "drop (length ns mod 2) ns"
  have f: "hex_prefix ns is_leaf = f # pack ?d" by (simp add: hex_prefix_def f_def)
  have hd: "hd ns < 16" if "odd (length ns)" using that assms by (cases ns) auto
  have div16: "(16 * a + r) div 16 = a" if "r < 16" for a r :: nat using that by simp
  have "f = 16 * (of_bool (odd (length ns)) + 2 * of_bool is_leaf) + (if odd (length ns) then hd ns else 0)" by (simp add: f_def)
  also have "\<dots> div 16 = of_bool (odd (length ns)) + 2 * of_bool is_leaf" by (rule div16) (simp add: hd)
  finally have "f div 16 = of_bool (odd (length ns)) + 2 * of_bool is_leaf" .
  moreover from this have "f div 32 = of_bool is_leaf" using div_mult2_eq [of f 16 2] by simp
  ultimately have flags: "and f 16 = 16 \<longleftrightarrow> odd (length ns)" "and f 32 = 32 \<longleftrightarrow> is_leaf"
    using and_exp_nat [of f 4] and_exp_nat [of f 5] by auto
  have lt: "\<forall>n \<in> set ?d. n < 16" using assms by (auto dest: in_set_dropD)
  then have "\<forall>b \<in> set (pack ?d). b < 256" by (rule pack_lt)
  then have bytes: "\<forall>b \<in> set (f # pack ?d). b < 256" using hd by (auto simp: f_def)
  have un: "unpack (pack ?d) = ?d" by (rule unpack_pack [OF _ lt]) simp
  have "f mod 16 = hd ns" if "odd (length ns)"
  proof -
    have "f = 16 * (1 + 2 * of_bool is_leaf) + hd ns" using that by (simp add: f_def)
    also have "\<dots> mod 16 = hd ns" using hd [OF that] by (simp only: mod_mult_self4 mod_less)
    finally show ?thesis .
  qed
  moreover have "ns = hd ns # drop 1 ns" if "odd (length ns)" using that by (cases ns) auto
  ultimately have "nibbles (ns_new_offset (f # pack ?d) (if odd (length ns) then 1 else 2)) = ns"
    using un by (auto simp: nibbles_def ns_new_offset_def odd_iff_mod_2_eq_one even_iff_mod_2_eq_zero)
  then show ?thesis
    using bytes by (simp add: f ns_from_encoded_def flags slice_ok_def ns_new_offset_def)
qed

lemma ns_merge_encoded_panics:
  assumes "slice_ok s" and "slice_ok t" and "nibbles s = []" and "odd (length (nibbles t))"
  shows "ns_merge_encoded s t is_leaf = None"
proof -
  have len: "ns_len s = Some 0" "ns_len t = Some (length (nibbles t))" using assms(1-3) by (simp_all add: ns_len_eq)
  have "ns_offset s = length (ns_data s) * 2" using assms(1,3) by (simp add: nibbles_def slice_ok_def)
  then have "ns_at s 0 = None" by (simp add: ns_at_def vec_get_def)
  then show ?thesis using assms(4) by (simp add: ns_merge_encoded_def len prefix_byte_def odd_iff_mod_2_eq_one)
qed

text \<open>
  C36: The encoders agree: on the nibbles they encode, all of them compute the same bytes,
  without panic, also the two that copy bytes of the slice or store into a given vector; the leftmost
  encoders take a number of nibbles.  Merging encodes the nibbles of both slices, except that it panics when the
  first slice is empty and the second has an odd length: it then reads the first nibble of the empty slice.
\<close>

theorem nibble_encoders_agree:
  assumes "slice_ok s" and "slice_ok t"
  shows "ns_encoded s is_leaf = ns_encode_nibbles (nibbles s) is_leaf \<and>
    ns_encode_to s is_leaf to = ns_encode_nibbles (nibbles s) is_leaf \<and>
    ns_encoded_leftmost s n is_leaf = ns_encode_nibbles (take n (nibbles s)) is_leaf \<and>
    ns_encode_leftmost_to s n is_leaf to = ns_encode_nibbles (take n (nibbles s)) is_leaf \<and>
    ns_encode_nibbles (nibbles s) is_leaf \<noteq> None \<and> ns_encode_nibbles (take n (nibbles s)) is_leaf \<noteq> None \<and>
    ns_encode_nibbles (nibbles s @ nibbles t) is_leaf \<noteq> None \<and>
    ns_merge_encoded s t is_leaf =
      (if nibbles s = [] \<and> odd (length (nibbles t)) then None else ns_encode_nibbles (nibbles s @ nibbles t) is_leaf)"
proof -
  have lt: "\<forall>n \<in> set (nibbles s). n < 16" "\<forall>m \<in> set (take n (nibbles s)). m < 16" "\<forall>n \<in> set (nibbles s @ nibbles t). n < 16"
    using nibbles_lt assms by (auto dest: in_set_takeD)
  show ?thesis
    using assms ns_merge_encoded_panics [OF assms]
    by (simp add: ns_encoded_eq ns_encode_to_eq ns_encoded_leftmost_eq ns_encode_leftmost_to_eq ns_merge_encoded_eq
        lt [THEN ns_encode_nibbles_eq])
qed

theorem nibble_encoders_agree_witness:
  "ns_merge_encoded (ns_new_offset [1] 1) (ns_new [35]) True = Some [49, 35] \<and>
   ns_encoded_leftmost (ns_new [35]) 1 False = Some [18] \<and> ns_merge_encoded (ns_new []) (ns_new_offset [1] 1) True = None"
proof -
  have ok: "slice_ok (ns_new_offset [1] 1)" "slice_ok (ns_new [35])" "slice_ok (ns_new [])"
    by (simp_all add: slice_ok_def ns_new_def ns_new_offset_def)
  have n: "nibbles (ns_new_offset [1] 1) = [1]" "nibbles (ns_new [35]) = [2, 3]" "nibbles (ns_new []) = []"
    by (simp_all add: nibbles_def ns_new_def ns_new_offset_def)
  have "ns_encode_nibbles [1, 2, 3] True = Some [49, 35]" "ns_encode_nibbles [2] False = Some [18]"
    by (subst ns_encode_nibbles_eq; simp add: hex_prefix_def)+
  then show ?thesis
    using nibble_encoders_agree [OF ok(1,2), of True "[]" 0] nibble_encoders_agree [OF ok(2,1), of False "[]" 1]
      nibble_encoders_agree [OF ok(3,1), of True "[]" 0] n by simp
qed

text \<open>
  C37: Decoding inverts encoding: the encoding of any sequence of nibbles decodes to a slice
  with these nibbles and to the leaf flag, so the encoding is injective; bytes built from an even
  number of nibbles unpack to them.
\<close>

theorem nibble_encoding_round_trip:
  assumes "\<forall>n \<in> set ns. n < 16"
  shows "(\<exists>bytes s. ns_encode_nibbles ns is_leaf = Some bytes \<and> ns_from_encoded bytes = Some (s, is_leaf) \<and> slice_ok s \<and> nibbles s = ns) \<and>
    (even (length ns) \<longrightarrow> (\<exists>bytes. ns_nibbles_to_bytes ns = Some bytes \<and> nibbles (ns_new bytes) = ns))"
proof -
  have "unpack (pack ns) = ns" if "even (length ns)" by (rule unpack_pack [OF that assms])
  then show ?thesis
    using hex_prefix_from_encoded [OF assms]
    by (auto simp: ns_nibbles_to_bytes_def ns_encode_nibbles_eq [OF assms] hex_prefix_def nibbles_def ns_new_def ns_new_offset_def)
qed

theorem nibble_encoding_round_trip_witness:
  "\<exists>bytes s. ns_encode_nibbles [1, 2, 3] True = Some bytes \<and> ns_from_encoded bytes = Some (s, True) \<and> nibbles s = [1, 2, 3]"
  using nibble_encoding_round_trip [of "[1, 2, 3]" True] by auto

end
