(* ===== verification/Trie_Update.thy ===== *)
theory Trie_Update
  imports Trie_Model Nibble_Slice Crypto_Hash
begin

text \<open>
  Updates of the trie (\<open>core/store/src/trie/ops\<close>) on the storage of the disk trie
  (\<open>trie_storage_update.rs\<close>): nodes that have been touched live in a vector and are taken out and put
  back by index, the others are still behind their hashes.  The keys and the extensions are lists of
  bytes as in the nibble slices.  The storage behind the trie, which looks a hash up, and the Borsh
  decoding of a node are fields of the trie; the recording of accesses is left out.  The reference count
  changes are integers: there are far fewer than \<open>2 ^ 31\<close> of them for one hash.  The texts of error
  messages are abbreviated, and the debug assertion of \<open>place_node_at\<close> is left out.
\<close>

section \<open>Nodes\<close>

type_synonym updated_node_id = nat

record value_ref =
  vr_length :: nat
  vr_hash :: crypto_hash

datatype flat_state_value = Ref value_ref | Inlined "byte list"

datatype generic_trie_value = MemtrieAndDisk "byte list" | MemtrieOnly flat_state_value

datatype value_handle = InMemory nat nat | HashAndSize value_ref

fun value_len :: "value_handle \<Rightarrow> nat" where
  "value_len (HashAndSize value) = vr_length value"
| "value_len (InMemory i n) = n"

datatype 'p generic_node_or_index = Old 'p | Updated updated_node_id

datatype ('p, 'v) generic_trie_node =
  Empty
| Leaf "nat list" 'v
| Extension "nat list" 'p
| Branch "'p option list" "'v option"

definition num_children :: nat where
  "num_children = 16"

definition byte_of_key :: nat where
  "byte_of_key = 2"

definition byte_of_value :: nat where
  "byte_of_value = 1"

definition node_cost :: nat where
  "node_cost = 50"

text \<open>The lengths are those of vectors in memory, so that these sums fit 64 bits.\<close>

definition memory_usage_value :: "nat \<Rightarrow> nat" where
  "memory_usage_value value_length = value_length * byte_of_value + node_cost"

fun memory_usage_direct :: "('v \<Rightarrow> nat) \<Rightarrow> ('p, 'v) generic_trie_node \<Rightarrow> nat" where
  "memory_usage_direct vlen Empty = 0"
| "memory_usage_direct vlen (Leaf extension value) =
     node_cost + length extension * byte_of_key + memory_usage_value (vlen value)"
| "memory_usage_direct vlen (Branch children value) =
     node_cost + (case value of None \<Rightarrow> 0 | Some v \<Rightarrow> memory_usage_value (vlen v))"
| "memory_usage_direct vlen (Extension extension child) = node_cost + length extension * byte_of_key"

type_synonym updated_node = "(crypto_hash generic_node_or_index, value_handle) generic_trie_node"
type_synonym storage_node = "(crypto_hash, value_handle) generic_trie_node"

abbreviation node_usage :: "updated_node \<Rightarrow> nat" where
  "node_usage \<equiv> memory_usage_direct value_len"

fun into_updated :: "storage_node \<Rightarrow> updated_node" where
  "into_updated Empty = Empty"
| "into_updated (Leaf extension value) = Leaf extension value"
| "into_updated (Extension extension child) = Extension extension (Old child)"
| "into_updated (Branch children value) = Branch (map (map_option Old) children) value"

record updated_node_with_size =
  un_node :: updated_node
  un_memory_usage :: nat

definition empty_node :: updated_node_with_size where
  "empty_node = \<lparr> un_node = Empty, un_memory_usage = 0 \<rparr>"

datatype raw_trie_node =
  RawLeaf "nat list" value_ref
| RawBranchNoValue "crypto_hash option list"
| RawBranchWithValue value_ref "crypto_hash option list"
| RawExtension "nat list" crypto_hash

record raw_trie_node_with_size =
  rn_node :: raw_trie_node
  rn_memory_usage :: nat

definition new_branch :: "crypto_hash option list \<Rightarrow> value_ref option \<Rightarrow> storage_node" where
  "new_branch children value = Branch children (map_option HashAndSize value)"

fun from_raw_trie_node :: "raw_trie_node \<Rightarrow> storage_node" where
  "from_raw_trie_node (RawLeaf extension value) = Leaf extension (HashAndSize value)"
| "from_raw_trie_node (RawBranchNoValue children) = new_branch children None"
| "from_raw_trie_node (RawBranchWithValue value children) = new_branch children (Some value)"
| "from_raw_trie_node (RawExtension extension child) = Extension extension child"

definition from_raw_trie_node_with_size :: "raw_trie_node_with_size \<Rightarrow> updated_node_with_size" where
  "from_raw_trie_node_with_size raw =
     \<lparr> un_node = into_updated (from_raw_trie_node (rn_node raw)), un_memory_usage = rn_memory_usage raw \<rparr>"

section \<open>The storage of updated nodes\<close>

datatype storage_error =
  StorageInternalError
| MissingTrieValue crypto_hash
| UnexpectedTrieValue
| StorageInconsistentState string
| FlatStorageBlockNotSupported string
| MemTrieLoadingError string

text \<open>The trie: what its storage returns for a hash, the Borsh decoding of nodes, and the root.\<close>

record disk_trie =
  dt_storage :: "crypto_hash \<Rightarrow> storage_error + byte list"
  dt_decode :: "byte list \<Rightarrow> raw_trie_node_with_size option"
  dt_root :: crypto_hash

definition empty_root :: crypto_hash where
  "empty_root = crypto_hash_new"

definition retrieve_raw_node ::
  "disk_trie \<Rightarrow> crypto_hash \<Rightarrow> storage_error + (byte list \<times> raw_trie_node_with_size) option" where
  "retrieve_raw_node trie h =
     (if h = empty_root then Inr None
      else rbind (dt_storage trie h)
        (\<lambda>bytes. case dt_decode trie bytes of
           None \<Rightarrow> Inl (StorageInconsistentState ''Failed to decode node'')
         | Some node \<Rightarrow> Inr (Some (bytes, node))))"

type_synonym refcount_map = "(crypto_hash, byte list option \<times> int) btree"

definition refcount_add :: "crypto_hash \<Rightarrow> byte list \<Rightarrow> nat \<Rightarrow> refcount_map \<Rightarrow> refcount_map" where
  "refcount_add h data refcount m =
     (let (old_value, old_rc) = unwrap_or (None, 0) (bt_get m h) in bt_insert h (Some data, old_rc + int refcount) m)"

definition refcount_subtract :: "crypto_hash \<Rightarrow> nat \<Rightarrow> refcount_map \<Rightarrow> refcount_map" where
  "refcount_subtract h refcount m =
     (let (old_value, old_rc) = unwrap_or (None, 0) (bt_get m h) in bt_insert h (old_value, old_rc - int refcount) m)"

record trie_storage_update =
  tu_nodes :: "updated_node_with_size option list"
  tu_values :: "byte list option list"
  tu_refcount_changes :: refcount_map

definition trie_storage_update_new :: trie_storage_update where
  "trie_storage_update_new = \<lparr> tu_nodes = [], tu_values = [], tu_refcount_changes = bt_empty \<rparr>"

definition store_node :: "trie_storage_update \<Rightarrow> updated_node_with_size \<Rightarrow> nat \<times> trie_storage_update" where
  "store_node u node = (length (tu_nodes u), u\<lparr>tu_nodes := tu_nodes u @ [Some node]\<rparr>)"

definition move_node_to_mutable ::
  "disk_trie \<Rightarrow> trie_storage_update \<Rightarrow> crypto_hash \<Rightarrow> storage_error + nat \<times> trie_storage_update" where
  "move_node_to_mutable trie u h =
     rbind (retrieve_raw_node trie h)
       (\<lambda>r. case r of
          None \<Rightarrow> Inr (store_node u empty_node)
        | Some (bytes, node) \<Rightarrow>
            (case store_node u (from_raw_trie_node_with_size node) of (result, u) \<Rightarrow>
               Inr (result, u\<lparr>tu_refcount_changes := refcount_subtract h 1 (tu_refcount_changes u)\<rparr>)))"

fun ensure_updated ::
  "disk_trie \<Rightarrow> trie_storage_update \<Rightarrow> crypto_hash generic_node_or_index \<Rightarrow>
   storage_error + updated_node_id \<times> trie_storage_update" where
  "ensure_updated trie u (Old node_hash) = move_node_to_mutable trie u node_hash"
| "ensure_updated trie u (Updated node_id) = Inr (node_id, u)"

definition take_node :: "trie_storage_update \<Rightarrow> updated_node_id \<Rightarrow> (updated_node_with_size \<times> trie_storage_update) option" where
  "take_node u i =
     do {
       slot \<leftarrow> vec_get (tu_nodes u) i;
       node \<leftarrow> slot;
       Some (node, u\<lparr>tu_nodes := (tu_nodes u)[i := None]\<rparr>)
     }"

definition place_node_at :: "trie_storage_update \<Rightarrow> updated_node_id \<Rightarrow> updated_node_with_size \<Rightarrow> trie_storage_update option" where
  "place_node_at u i node = do { nodes \<leftarrow> vec_set (tu_nodes u) i (Some node); Some (u\<lparr>tu_nodes := nodes\<rparr>) }"

definition place_node :: "trie_storage_update \<Rightarrow> updated_node_with_size \<Rightarrow> updated_node_id \<times> trie_storage_update" where
  "place_node u node = (length (tu_nodes u), u\<lparr>tu_nodes := tu_nodes u @ [Some node]\<rparr>)"

definition get_node_ref :: "trie_storage_update \<Rightarrow> updated_node_id \<Rightarrow> updated_node_with_size option" where
  "get_node_ref u i = do { slot \<leftarrow> vec_get (tu_nodes u) i; slot }"

fun store_value :: "trie_storage_update \<Rightarrow> generic_trie_value \<Rightarrow> (value_handle \<times> trie_storage_update) option" where
  "store_value u (MemtrieAndDisk value) =
     (let value_len = length value; u = u\<lparr>tu_values := tu_values u @ [Some value]\<rparr> in
      Some (InMemory (length (tu_values u) - 1) value_len, u))"
| "store_value u (MemtrieOnly v) = None"

fun delete_value :: "trie_storage_update \<Rightarrow> value_handle \<Rightarrow> storage_error + trie_storage_update" where
  "delete_value u (HashAndSize value) =
     Inr (u\<lparr>tu_refcount_changes := refcount_subtract (vr_hash value) 1 (tu_refcount_changes u)\<rparr>)"
| "delete_value u (InMemory i n) = Inr u"

abbreviation with_size :: "updated_node \<Rightarrow> nat \<Rightarrow> updated_node_with_size" where
  "with_size node m \<equiv> \<lparr> un_node = node, un_memory_usage = m \<rparr>"

definition calc_memory_usage_and_store ::
  "trie_storage_update \<Rightarrow> updated_node_id \<Rightarrow> nat \<Rightarrow> updated_node \<Rightarrow> updated_node_id option \<Rightarrow> trie_storage_update option" where
  "calc_memory_usage_and_store u node_id children_memory_usage new_node old_child =
     do {
       old \<leftarrow> (case old_child of None \<Rightarrow> Some 0 | Some child \<Rightarrow> do { c \<leftarrow> get_node_ref u child; Some (un_memory_usage c) });
       let new_memory_usage = saturating_sub (saturating_add u64_w children_memory_usage (node_usage new_node)) old;
       place_node_at u node_id (with_size new_node new_memory_usage)
     }"

section \<open>Insertion\<close>

text \<open>
  One round of the loop ends it, goes on at another node with what is left of the key, or starts over at
  the same node.  There is a function for each kind of node, called after the node has been taken out.
\<close>

datatype insert_control =
  Insert_Break trie_storage_update
| Insert_Descend updated_node_id nibble_slice trie_storage_update
| Insert_Restart trie_storage_update

type_synonym 'a outcome = "(storage_error + 'a) option"

definition insert_empty ::
  "trie_storage_update \<Rightarrow> updated_node_id \<Rightarrow> nibble_slice \<Rightarrow> generic_trie_value \<Rightarrow> insert_control outcome" where
  "insert_empty u node_id partial value =
     do {
       (value_handle, u) \<leftarrow> store_value u value;
       extension \<leftarrow> ns_encoded partial True;
       let node = Leaf extension value_handle;
       u \<leftarrow> place_node_at u node_id (with_size node (node_usage node));
       Some (Inr (Insert_Break u))
     }"

definition insert_branch ::
  "disk_trie \<Rightarrow> trie_storage_update \<Rightarrow> updated_node_id \<Rightarrow> nibble_slice \<Rightarrow> generic_trie_value \<Rightarrow> nat \<Rightarrow>
   crypto_hash generic_node_or_index option list \<Rightarrow> value_handle option \<Rightarrow> insert_control outcome" where
  "insert_branch trie u node_id partial value children_memory_usage children old_value =
     do {
       empty \<leftarrow> ns_is_empty partial;
       if empty then
         rtry (Some (case old_value of None \<Rightarrow> Inr u | Some v \<Rightarrow> delete_value u v)) (\<lambda>u.
         do {
           (value_handle, u) \<leftarrow> store_value u value;
           let node = Branch children (Some value_handle);
           memory_usage \<leftarrow> checked_add u64_w children_memory_usage (node_usage node);
           u \<leftarrow> place_node_at u node_id (with_size node memory_usage);
           Some (Inr (Insert_Break u))
         })
       else do {
         n \<leftarrow> ns_at partial 0;
         child \<leftarrow> vec_get children n;
         rtry (Some (case child of Some ptr \<Rightarrow> ensure_updated trie u ptr | None \<Rightarrow> Inr (place_node u empty_node))) (\<lambda>(new_node_id, u).
         do {
           let new_children = children[n := Some (Updated new_node_id)];
           u \<leftarrow> calc_memory_usage_and_store u node_id children_memory_usage (Branch new_children old_value) (Some new_node_id);
           Some (Inr (Insert_Descend new_node_id (ns_mid partial 1) u))
         })
       }
     }"

definition leaf_into_branch ::
  "trie_storage_update \<Rightarrow> updated_node_id \<Rightarrow> nibble_slice \<Rightarrow> value_handle \<Rightarrow> insert_control outcome" where
  "leaf_into_branch u node_id existing_key old_value =
     do {
       let children = replicate num_children None;
       empty \<leftarrow> ns_is_empty existing_key;
       (branch_node, children_memory_usage, u) \<leftarrow>
         (if empty then Some (Branch children (Some old_value), 0, u)
          else do {
            branch_idx \<leftarrow> ns_at existing_key 0;
            new_extension \<leftarrow> ns_encoded (ns_mid existing_key 1) True;
            let new_node = Leaf new_extension old_value;
            let memory_usage = node_usage new_node;
            let (new_node_id, u) = place_node u (with_size new_node memory_usage);
            children \<leftarrow> vec_set children branch_idx (Some (Updated new_node_id));
            Some (Branch children None, memory_usage, u)
          });
       memory_usage \<leftarrow> checked_add u64_w (node_usage branch_node) children_memory_usage;
       u \<leftarrow> place_node_at u node_id (with_size branch_node memory_usage);
       Some (Inr (Insert_Restart u))
     }"

definition insert_leaf ::
  "trie_storage_update \<Rightarrow> updated_node_id \<Rightarrow> nibble_slice \<Rightarrow> generic_trie_value \<Rightarrow> nat list \<Rightarrow> value_handle \<Rightarrow> insert_control outcome" where
  "insert_leaf u node_id partial value extension old_value =
     do {
       (existing_key, _) \<leftarrow> ns_from_encoded extension;
       common_prefix \<leftarrow> ns_common_prefix partial existing_key;
       existing_len \<leftarrow> ns_len existing_key;
       partial_len \<leftarrow> ns_len partial;
       if common_prefix = existing_len \<and> common_prefix = partial_len then
         rtry (Some (delete_value u old_value)) (\<lambda>u.
         do {
           (value_handle, u) \<leftarrow> store_value u value;
           let node = Leaf extension value_handle;
           u \<leftarrow> place_node_at u node_id (with_size node (node_usage node));
           Some (Inr (Insert_Break u))
         })
       else if common_prefix = 0 then leaf_into_branch u node_id existing_key old_value
       else do {
         leaf_extension \<leftarrow> ns_encoded (ns_mid existing_key common_prefix) True;
         let leaf_node = Leaf leaf_extension old_value;
         let (leaf_node_id, u) = place_node u (with_size leaf_node (node_usage leaf_node));
         extension \<leftarrow> ns_encoded_leftmost partial common_prefix False;
         let extension_node = Extension extension (Updated leaf_node_id);
         u \<leftarrow> place_node_at u node_id (with_size extension_node (node_usage extension_node));
         Some (Inr (Insert_Descend leaf_node_id (ns_mid partial common_prefix) u))
       }
     }"

definition extension_into_branch ::
  "trie_storage_update \<Rightarrow> updated_node_id \<Rightarrow> nat \<Rightarrow> nibble_slice \<Rightarrow> crypto_hash generic_node_or_index \<Rightarrow> insert_control outcome" where
  "extension_into_branch u node_id children_memory_usage existing_key old_child =
     do {
       idx \<leftarrow> ns_at existing_key 0;
       existing_len \<leftarrow> ns_len existing_key;
       (child, child_memory_usage, u) \<leftarrow>
         (if existing_len = 1 then Some (old_child, children_memory_usage, u)
          else do {
            inner_extension \<leftarrow> ns_encoded (ns_mid existing_key 1) False;
            let inner_child_node = Extension inner_extension old_child;
            child_memory_usage \<leftarrow> checked_add u64_w children_memory_usage (node_usage inner_child_node);
            let (inner_id, u) = place_node u (with_size inner_child_node child_memory_usage);
            Some (Updated inner_id, child_memory_usage, u)
          });
       children \<leftarrow> vec_set (replicate num_children None) idx (Some child);
       let branch_node = Branch children None;
       branch_memory_usage \<leftarrow> checked_add u64_w (node_usage branch_node) child_memory_usage;
       u \<leftarrow> place_node_at u node_id (with_size branch_node branch_memory_usage);
       Some (Inr (Insert_Restart u))
     }"

definition insert_extension ::
  "disk_trie \<Rightarrow> trie_storage_update \<Rightarrow> updated_node_id \<Rightarrow> nibble_slice \<Rightarrow> nat \<Rightarrow> nat list \<Rightarrow>
   crypto_hash generic_node_or_index \<Rightarrow> insert_control outcome" where
  "insert_extension trie u node_id partial children_memory_usage extension old_child =
     do {
       (existing_key, _) \<leftarrow> ns_from_encoded extension;
       common_prefix \<leftarrow> ns_common_prefix partial existing_key;
       existing_len \<leftarrow> ns_len existing_key;
       if common_prefix = 0 then extension_into_branch u node_id children_memory_usage existing_key old_child
       else if common_prefix = existing_len then
         rtry (Some (ensure_updated trie u old_child)) (\<lambda>(child_id, u).
         do {
           let node = Extension extension (Updated child_id);
           u \<leftarrow> place_node_at u node_id (with_size node (node_usage node));
           Some (Inr (Insert_Descend child_id (ns_mid partial common_prefix) u))
         })
       else do {
         inner_extension \<leftarrow> ns_encoded (ns_mid existing_key common_prefix) False;
         let inner_child_node = Extension inner_extension old_child;
         inner_child_memory_usage \<leftarrow> checked_add u64_w children_memory_usage (node_usage inner_child_node);
         let (inner_id, u) = place_node u (with_size inner_child_node inner_child_memory_usage);
         outer_extension \<leftarrow> ns_encoded_leftmost existing_key common_prefix False;
         let child_node = Extension outer_extension (Updated inner_id);
         u \<leftarrow> place_node_at u node_id (with_size child_node (node_usage child_node));
         Some (Inr (Insert_Descend inner_id (ns_mid partial common_prefix) u))
       }
     }"

definition insert_step ::
  "disk_trie \<Rightarrow> trie_storage_update \<Rightarrow> updated_node_id \<Rightarrow> nibble_slice \<Rightarrow> generic_trie_value \<Rightarrow> insert_control outcome" where
  "insert_step trie u node_id partial value =
     do {
       (taken, u) \<leftarrow> take_node u node_id;
       let children_memory_usage = saturating_sub (un_memory_usage taken) (node_usage (un_node taken));
       case un_node taken of
         Empty \<Rightarrow> insert_empty u node_id partial value
       | Branch children old_value \<Rightarrow> insert_branch trie u node_id partial value children_memory_usage children old_value
       | Leaf extension old_value \<Rightarrow> insert_leaf u node_id partial value extension old_value
       | Extension extension old_child \<Rightarrow> insert_extension trie u node_id partial children_memory_usage extension old_child
     }"

text \<open>The loop ends on any input: a round consumes nibbles of the key or makes the node a branch.\<close>

definition is_branch_node :: "trie_storage_update \<Rightarrow> updated_node_id \<Rightarrow> bool" where
  "is_branch_node u i \<longleftrightarrow> (case get_node_ref u i of Some n \<Rightarrow> (case un_node n of Branch _ _ \<Rightarrow> True | _ \<Rightarrow> False) | None \<Rightarrow> False)"

definition insert_measure :: "trie_storage_update \<Rightarrow> updated_node_id \<Rightarrow> nibble_slice \<Rightarrow> nat" where
  "insert_measure u i partial =
     2 * (length (ns_data partial) * 2 - ns_offset partial) + (if is_branch_node u i then 0 else 1)"

lemma get_place_node_at: "place_node_at u i n = Some u' \<Longrightarrow> get_node_ref u' i = Some n"
  by (auto simp: place_node_at_def get_node_ref_def vec_set_def split: if_splits)

lemma take_node_ref: "take_node u i = Some (n, u') \<Longrightarrow> get_node_ref u i = Some n"
  by (auto simp: take_node_def get_node_ref_def split: bind_splits)

lemma common_prefix_loop_le:
  "common_prefix_loop s t is m = Some c \<Longrightarrow> (\<And>i. i \<in> set is \<Longrightarrow> i \<le> m) \<Longrightarrow> c \<le> m"
  by (induction "is") (auto split: bind_splits if_splits)

lemma common_prefix_le: "ns_common_prefix s t = Some c \<Longrightarrow> \<exists>l. ns_len s = Some l \<and> c \<le> l"
  by (auto simp: ns_common_prefix_def split: bind_splits dest!: common_prefix_loop_le)

lemma measure_descend:
  assumes "ns_len partial = Some l" and "c \<le> l" and "c \<noteq> 0"
  shows "insert_measure u' i' (ns_mid partial c) < insert_measure u i partial"
  using assms by (auto simp: insert_measure_def ns_len_def ns_mid_def checked_sub_def split: if_splits)

lemma measure_restart:
  assumes "\<not> is_branch_node u i" and "is_branch_node u' i"
  shows "insert_measure u' i partial < insert_measure u i partial"
  using assms by (simp add: insert_measure_def)

lemma rtry_SomeInr: "rtry m f = Some (Inr y) \<longleftrightarrow> (\<exists>x. m = Some (Inr x) \<and> f x = Some (Inr y))"
  by (cases m) (auto simp: rtry_def split: sum.splits)

lemma insert_branch_descend:
  assumes "insert_branch trie u i partial value m children v = Some (Inr (Insert_Descend i' p' u'))"
  shows "\<exists>l. ns_len partial = Some l \<and> 1 \<le> l \<and> p' = ns_mid partial 1"
  using assms
  by (auto simp: insert_branch_def ns_is_empty_def rtry_SomeInr bind_eq_Some_conv place_node_def Let_def split: if_splits)

lemma into_branch_restart:
  "leaf_into_branch u i e v = Some (Inr c) \<Longrightarrow> \<exists>u'. c = Insert_Restart u' \<and> is_branch_node u' i"
  "extension_into_branch u i m e p = Some (Inr c) \<Longrightarrow> \<exists>u'. c = Insert_Restart u' \<and> is_branch_node u' i"
  by (auto simp: leaf_into_branch_def extension_into_branch_def is_branch_node_def bind_eq_Some_conv place_node_def Let_def
      split: if_splits dest!: get_place_node_at)

lemma insert_leaf_descend:
  assumes "insert_leaf u i partial value ext v = Some (Inr (Insert_Descend i' p' u'))"
  shows "\<exists>l c. ns_len partial = Some l \<and> c \<noteq> 0 \<and> c \<le> l \<and> p' = ns_mid partial c"
  using assms
  by (auto simp: insert_leaf_def rtry_SomeInr bind_eq_Some_conv place_node_def Let_def split: if_splits
      dest!: into_branch_restart common_prefix_le)

lemma insert_extension_descend:
  assumes "insert_extension trie u i partial m ext v = Some (Inr (Insert_Descend i' p' u'))"
  shows "\<exists>l c. ns_len partial = Some l \<and> c \<noteq> 0 \<and> c \<le> l \<and> p' = ns_mid partial c"
  using assms
  by (auto simp: insert_extension_def rtry_SomeInr bind_eq_Some_conv place_node_def Let_def split: if_splits
      dest!: into_branch_restart common_prefix_le)

lemma insert_step_decreases:
  assumes "insert_step trie u i partial value = Some (Inr c)"
  shows "(case c of Insert_Descend i' p' u' \<Rightarrow> insert_measure u' i' p' < insert_measure u i partial
    | Insert_Restart u' \<Rightarrow> insert_measure u' i partial < insert_measure u i partial | Insert_Break u' \<Rightarrow> True)"
proof -
  obtain n u1 where n: "take_node u i = Some (n, u1)" using assms by (auto simp: insert_step_def split: bind_splits)
  note step = assms [unfolded insert_step_def n bind.bind_lunit prod.case Let_def]
  show ?thesis
  proof (cases c)
    case (Insert_Descend i' p' u')
    have "\<exists>l c. ns_len partial = Some l \<and> c \<noteq> 0 \<and> c \<le> l \<and> p' = ns_mid partial c"
    proof (cases "un_node n")
      case Empty
      then show ?thesis using step by (auto simp: Insert_Descend insert_empty_def bind_eq_Some_conv Let_def)
    next
      case (Branch children v)
      then show ?thesis using step by (auto simp: Insert_Descend dest!: insert_branch_descend)
    qed (use step in \<open>auto simp: Insert_Descend dest!: insert_leaf_descend insert_extension_descend\<close>)
    then show ?thesis using measure_descend Insert_Descend by auto
  next
    case (Insert_Restart u')
    have "\<not> is_branch_node u i \<and> is_branch_node u' i"
    proof (cases "un_node n")
      case Empty
      then show ?thesis using step by (auto simp: Insert_Restart insert_empty_def bind_eq_Some_conv Let_def)
    next
      case (Branch children v)
      then show ?thesis using step
        by (auto simp: Insert_Restart insert_branch_def rtry_SomeInr bind_eq_Some_conv place_node_def Let_def split: if_splits)
    next
      case (Leaf e v)
      then show ?thesis using step take_node_ref [OF n]
        by (auto simp: Insert_Restart insert_leaf_def is_branch_node_def rtry_SomeInr bind_eq_Some_conv place_node_def Let_def split: if_splits
            dest!: into_branch_restart)
    next
      case (Extension e v)
      then show ?thesis using step take_node_ref [OF n]
        by (auto simp: Insert_Restart insert_extension_def is_branch_node_def rtry_SomeInr bind_eq_Some_conv place_node_def Let_def split: if_splits
            dest!: into_branch_restart)
    qed
    then show ?thesis using measure_restart Insert_Restart by auto
  qed simp
qed

function insert_loop ::
  "disk_trie \<Rightarrow> trie_storage_update \<Rightarrow> updated_node_id \<Rightarrow> nibble_slice \<Rightarrow> generic_trie_value \<Rightarrow> updated_node_id list \<Rightarrow>
   (updated_node_id list \<times> trie_storage_update) outcome" where
  "insert_loop trie u node_id partial value path =
     rtry (insert_step trie u node_id partial value)
       (\<lambda>c. case c of
          Insert_Break u \<Rightarrow> Some (Inr (path @ [node_id], u))
        | Insert_Descend node_id' partial' u' \<Rightarrow> insert_loop trie u' node_id' partial' value (path @ [node_id])
        | Insert_Restart u' \<Rightarrow> insert_loop trie u' node_id partial value path)"
  by auto
termination
  by (relation "measure (\<lambda>(trie, u, i, partial, value, path). insert_measure u i partial)")
    (auto dest: insert_step_decreases)

declare insert_loop.simps [simp del]

text \<open>The nodes on the path get the memory usage of their child on the path.\<close>

definition insert_usage :: "updated_node_id list \<Rightarrow> nat \<Rightarrow> trie_storage_update \<Rightarrow> trie_storage_update option" where
  "insert_usage path i u =
     do {
       node_id \<leftarrow> vec_get path i;
       child_id \<leftarrow> vec_get path (i + 1);
       child \<leftarrow> get_node_ref u child_id;
       (node, u) \<leftarrow> take_node u node_id;
       memory_usage \<leftarrow> checked_add u64_w (un_memory_usage node) (un_memory_usage child);
       place_node_at u node_id (node\<lparr>un_memory_usage := memory_usage\<rparr>)
     }"

definition generic_insert ::
  "disk_trie \<Rightarrow> trie_storage_update \<Rightarrow> updated_node_id \<Rightarrow> nat list \<Rightarrow> generic_trie_value \<Rightarrow> trie_storage_update outcome" where
  "generic_insert trie u node_id key value =
     rtry (insert_loop trie u node_id (ns_new key) value []) (\<lambda>(path, u).
     do {
       n \<leftarrow> checked_sub (length path) 1;
       u \<leftarrow> fold_opt (insert_usage path) (rev [0..<n]) u;
       Some (Inr u)
     })"

section \<open>Squashing\<close>

definition extend_child ::
  "disk_trie \<Rightarrow> trie_storage_update \<Rightarrow> updated_node_id \<Rightarrow> nat list \<Rightarrow> crypto_hash generic_node_or_index \<Rightarrow> trie_storage_update outcome" where
  "extend_child trie u node_id extension child =
     rtry (Some (ensure_updated trie u child)) (\<lambda>(child_id, u).
     do {
       (taken, u) \<leftarrow> take_node u child_id;
       let memory_usage = un_memory_usage taken;
       let child_child_memory_usage = saturating_sub memory_usage (node_usage (un_node taken));
       case un_node taken of
         Empty \<Rightarrow> do { u \<leftarrow> place_node_at u node_id empty_node; Some (Inr u) }
       | Leaf child_extension value \<Rightarrow>
           do {
             (child_extension, _) \<leftarrow> ns_from_encoded child_extension;
             (extension, _) \<leftarrow> ns_from_encoded extension;
             extension \<leftarrow> ns_merge_encoded extension child_extension True;
             let node = Leaf extension value;
             u \<leftarrow> place_node_at u node_id (with_size node (node_usage node));
             Some (Inr u)
           }
       | Branch children value \<Rightarrow>
           do {
             u \<leftarrow> place_node_at u child_id (with_size (Branch children value) memory_usage);
             let node = Extension extension (Updated child_id);
             memory_usage \<leftarrow> checked_add u64_w memory_usage (node_usage node);
             u \<leftarrow> place_node_at u node_id (with_size node memory_usage);
             Some (Inr u)
           }
       | Extension child_extension inner_child \<Rightarrow>
           do {
             (child_extension, _) \<leftarrow> ns_from_encoded child_extension;
             (extension, _) \<leftarrow> ns_from_encoded extension;
             merged_extension \<leftarrow> ns_merge_encoded extension child_extension False;
             let node = Extension merged_extension inner_child;
             memory_usage \<leftarrow> checked_add u64_w (node_usage node) child_child_memory_usage;
             u \<leftarrow> place_node_at u node_id (with_size node memory_usage);
             Some (Inr u)
           }
     })"

text \<open>A child that has become empty is removed.\<close>

fun squash_child ::
  "trie_storage_update \<Rightarrow> crypto_hash generic_node_or_index option \<Rightarrow> crypto_hash generic_node_or_index option option" where
  "squash_child u (Some (Updated child_id)) =
     do { n \<leftarrow> get_node_ref u child_id; Some (if un_node n = Empty then None else Some (Updated child_id)) }"
| "squash_child u child = Some child"

fun find_child :: "nat \<Rightarrow> 'p option list \<Rightarrow> (nat \<times> 'p) option" where
  "find_child i [] = None"
| "find_child i (c # cs) = (case c of Some p \<Rightarrow> Some (i, p) | None \<Rightarrow> find_child (i + 1) cs)"

definition squash_branch ::
  "disk_trie \<Rightarrow> trie_storage_update \<Rightarrow> updated_node_id \<Rightarrow> nat \<Rightarrow> crypto_hash generic_node_or_index option list \<Rightarrow>
   value_handle option \<Rightarrow> trie_storage_update outcome" where
  "squash_branch trie u node_id memory_usage children value =
     do {
       children \<leftarrow> those (map (squash_child u) children);
       let n = length (filter (\<lambda>c. c \<noteq> None) children);
       if n = 0 then
         (case value of
            None \<Rightarrow> do { u \<leftarrow> place_node_at u node_id empty_node; Some (Inr u) }
          | Some value \<Rightarrow>
              do {
                extension \<leftarrow> ns_encoded (ns_new []) True;
                let leaf_node = Leaf extension value;
                u \<leftarrow> place_node_at u node_id (with_size leaf_node (node_usage leaf_node));
                Some (Inr u)
              })
       else if n = 1 \<and> value = None then
         do {
           (idx, child) \<leftarrow> find_child 0 children;
           extension \<leftarrow> ns_encoded_leftmost (ns_new [cast u8_w (push_bit 4 idx)]) 1 False;
           extend_child trie u node_id extension child
         }
       else do { u \<leftarrow> place_node_at u node_id (with_size (Branch children value) memory_usage); Some (Inr u) }
     }"

definition squash_node :: "disk_trie \<Rightarrow> trie_storage_update \<Rightarrow> updated_node_id \<Rightarrow> trie_storage_update outcome" where
  "squash_node trie u node_id =
     do {
       (taken, u) \<leftarrow> take_node u node_id;
       case un_node taken of
         Empty \<Rightarrow> do { u \<leftarrow> place_node_at u node_id empty_node; Some (Inr u) }
       | Leaf _ _ \<Rightarrow> None
       | Branch children value \<Rightarrow> squash_branch trie u node_id (un_memory_usage taken) children value
       | Extension extension child \<Rightarrow> extend_child trie u node_id extension child
     }"

section \<open>Deletion\<close>

text \<open>A round of the loop ends it, telling whether the key was there, or descends.\<close>

datatype delete_control =
  Delete_Break bool trie_storage_update
| Delete_Descend updated_node_id nibble_slice trie_storage_update

definition delete_leaf ::
  "trie_storage_update \<Rightarrow> updated_node_id \<Rightarrow> nibble_slice \<Rightarrow> nat \<Rightarrow> nat list \<Rightarrow> value_handle \<Rightarrow> delete_control outcome" where
  "delete_leaf u node_id partial memory_usage extension value =
     do {
       (existing_key, _) \<leftarrow> ns_from_encoded extension;
       same \<leftarrow> ns_eq existing_key partial;
       if same then
         rtry (Some (delete_value u value)) (\<lambda>u.
         do { u \<leftarrow> place_node_at u node_id empty_node; Some (Inr (Delete_Break True u)) })
       else
         do {
           u \<leftarrow> place_node_at u node_id (with_size (Leaf extension value) memory_usage);
           Some (Inr (Delete_Break False u))
         }
     }"

definition delete_branch ::
  "disk_trie \<Rightarrow> trie_storage_update \<Rightarrow> updated_node_id \<Rightarrow> nibble_slice \<Rightarrow> nat \<Rightarrow> nat \<Rightarrow>
   crypto_hash generic_node_or_index option list \<Rightarrow> value_handle option \<Rightarrow> delete_control outcome" where
  "delete_branch trie u node_id partial memory_usage children_memory_usage children value =
     do {
       empty \<leftarrow> ns_is_empty partial;
       if empty then
         (case value of
            None \<Rightarrow>
              do {
                u \<leftarrow> place_node_at u node_id (with_size (Branch children value) memory_usage);
                Some (Inr (Delete_Break False u))
              }
          | Some v \<Rightarrow>
              rtry (Some (delete_value u v)) (\<lambda>u.
              do {
                u \<leftarrow> calc_memory_usage_and_store u node_id children_memory_usage (Branch children None) None;
                Some (Inr (Delete_Break True u))
              }))
       else do {
         n \<leftarrow> ns_at partial 0;
         child \<leftarrow> vec_get children n;
         case child of
           None \<Rightarrow>
             do {
               u \<leftarrow> place_node_at u node_id (with_size (Branch children value) memory_usage);
               Some (Inr (Delete_Break False u))
             }
         | Some old_child_id \<Rightarrow>
             rtry (Some (ensure_updated trie u old_child_id)) (\<lambda>(new_child_id, u).
             do {
               u \<leftarrow> calc_memory_usage_and_store u node_id children_memory_usage
                      (Branch (children[n := Some (Updated new_child_id)]) value) (Some new_child_id);
               Some (Inr (Delete_Descend new_child_id (ns_mid partial 1) u))
             })
       }
     }"

definition delete_extension ::
  "disk_trie \<Rightarrow> trie_storage_update \<Rightarrow> updated_node_id \<Rightarrow> nibble_slice \<Rightarrow> nat \<Rightarrow> nat \<Rightarrow> nat list \<Rightarrow>
   crypto_hash generic_node_or_index \<Rightarrow> delete_control outcome" where
  "delete_extension trie u node_id partial memory_usage children_memory_usage extension child =
     do {
       (extension_nibbles, _) \<leftarrow> ns_from_encoded extension;
       common_prefix \<leftarrow> ns_common_prefix extension_nibbles partial;
       existing_len \<leftarrow> ns_len extension_nibbles;
       if common_prefix = existing_len then
         rtry (Some (ensure_updated trie u child)) (\<lambda>(new_child_id, u).
         do {
           u \<leftarrow> calc_memory_usage_and_store u node_id children_memory_usage
                  (Extension extension (Updated new_child_id)) (Some new_child_id);
           Some (Inr (Delete_Descend new_child_id (ns_mid partial existing_len) u))
         })
       else
         do {
           u \<leftarrow> place_node_at u node_id (with_size (Extension extension child) memory_usage);
           Some (Inr (Delete_Break False u))
         }
     }"

definition delete_step ::
  "disk_trie \<Rightarrow> trie_storage_update \<Rightarrow> updated_node_id \<Rightarrow> nibble_slice \<Rightarrow> delete_control outcome" where
  "delete_step trie u node_id partial =
     do {
       (taken, u) \<leftarrow> take_node u node_id;
       let memory_usage = un_memory_usage taken;
       let children_memory_usage = saturating_sub memory_usage (node_usage (un_node taken));
       case un_node taken of
         Empty \<Rightarrow> do { u \<leftarrow> place_node_at u node_id empty_node; Some (Inr (Delete_Break False u)) }
       | Leaf extension value \<Rightarrow> delete_leaf u node_id partial memory_usage extension value
       | Branch children value \<Rightarrow> delete_branch trie u node_id partial memory_usage children_memory_usage children value
       | Extension extension child \<Rightarrow> delete_extension trie u node_id partial memory_usage children_memory_usage extension child
     }"

text \<open>On a trie with an extension without nibbles the loop need not end.\<close>

partial_function (option) delete_loop ::
  "disk_trie \<Rightarrow> trie_storage_update \<Rightarrow> updated_node_id \<Rightarrow> nibble_slice \<Rightarrow> updated_node_id list \<Rightarrow>
   (bool \<times> updated_node_id list \<times> trie_storage_update) outcome" where
  "delete_loop trie u node_id partial path =
     rtry (delete_step trie u node_id partial)
       (\<lambda>c. case c of
          Delete_Break key_deleted u \<Rightarrow> Some (Inr (key_deleted, path @ [node_id], u))
        | Delete_Descend node_id' partial' u' \<Rightarrow> delete_loop trie u' node_id' partial' (path @ [node_id]))"

definition delete_usage ::
  "disk_trie \<Rightarrow> bool \<Rightarrow> updated_node_id \<Rightarrow> nat \<times> trie_storage_update \<Rightarrow> (nat \<times> trie_storage_update) outcome" where
  "delete_usage trie key_deleted node_id s =
     (case s of (child_memory_usage, u) \<Rightarrow>
        do {
          (taken, u) \<leftarrow> take_node u node_id;
          memory_usage \<leftarrow> checked_add u64_w (un_memory_usage taken) child_memory_usage;
          u \<leftarrow> place_node_at u node_id (with_size (un_node taken) memory_usage);
          rtry (if key_deleted then squash_node trie u node_id else Some (Inr u)) (\<lambda>u.
          do { n \<leftarrow> get_node_ref u node_id; Some (Inr (un_memory_usage n, u)) })
        })"

definition generic_delete ::
  "disk_trie \<Rightarrow> trie_storage_update \<Rightarrow> updated_node_id \<Rightarrow> nat list \<Rightarrow> trie_storage_update outcome" where
  "generic_delete trie u node_id key =
     rtry (delete_loop trie u node_id (ns_new key) []) (\<lambda>(key_deleted, path, u).
     rtry (fold_try (delete_usage trie key_deleted) (rev path) (0, u)) (\<lambda>(_, u). Some (Inr u)))"

section \<open>Lookup\<close>

partial_function (option) lookup_loop :: "disk_trie \<Rightarrow> crypto_hash \<Rightarrow> nibble_slice \<Rightarrow> value_ref option outcome" where
  "lookup_loop trie h key =
     rtry (Some (retrieve_raw_node trie h))
       (\<lambda>r. case r of
          None \<Rightarrow> Some (Inr None)
        | Some (_, node) \<Rightarrow>
            (case rn_node node of
               RawLeaf existing_key value \<Rightarrow>
                 do {
                   (existing_key, _) \<leftarrow> ns_from_encoded existing_key;
                   same \<leftarrow> ns_eq existing_key key;
                   Some (Inr (if same then Some value else None))
                 }
             | RawExtension existing_key child \<Rightarrow>
                 do {
                   (existing_key, _) \<leftarrow> ns_from_encoded existing_key;
                   starts \<leftarrow> ns_starts_with key existing_key;
                   if starts then do { l \<leftarrow> ns_len existing_key; lookup_loop trie child (ns_mid key l) }
                   else Some (Inr None)
                 }
             | RawBranchNoValue children \<Rightarrow>
                 do {
                   empty \<leftarrow> ns_is_empty key;
                   if empty then Some (Inr None)
                   else do {
                     n \<leftarrow> ns_at key 0;
                     child \<leftarrow> vec_get children n;
                     case child of None \<Rightarrow> Some (Inr None) | Some h \<Rightarrow> lookup_loop trie h (ns_mid key 1)
                   }
                 }
             | RawBranchWithValue value children \<Rightarrow>
                 do {
                   empty \<leftarrow> ns_is_empty key;
                   if empty then Some (Inr (Some value))
                   else do {
                     n \<leftarrow> ns_at key 0;
                     child \<leftarrow> vec_get children n;
                     case child of None \<Rightarrow> Some (Inr None) | Some h \<Rightarrow> lookup_loop trie h (ns_mid key 1)
                   }
                 }))"

definition lookup_from_state_column :: "disk_trie \<Rightarrow> nibble_slice \<Rightarrow> value_ref option outcome" where
  "lookup_from_state_column trie key = lookup_loop trie (dt_root trie) key"

end
