(* ===== verification/Trie_Refine.thy ===== *)
theory Trie_Refine
  imports Trie_Update
begin

text \<open>
  The updates of the trie are proved against the tries of \<open>Trie_Model\<close>.  A pointer represents a trie
  when the nodes behind it, in the storage or in the vector of updated nodes, have its shape and the
  memory usage of every node is that of its subtree; the set of indices of updated nodes that a trie
  occupies is part of the relation, so that what an update leaves alone is known to stay.
\<close>

section \<open>Representation\<close>

abbreviation mem :: "value_handle trie \<Rightarrow> nat" where
  "mem \<equiv> t_mem value_len"

text \<open>A trie in the storage, behind the hash of its root node.\<close>

inductive stored :: "disk_trie \<Rightarrow> crypto_hash \<Rightarrow> value_handle trie \<Rightarrow> bool" for trie where
  stored_leaf: "retrieve_raw_node trie h = Inr (Some (bytes, raw)) \<Longrightarrow> from_raw_trie_node (rn_node raw) = Leaf (hex_prefix e True) v \<Longrightarrow>
    nibbles_ok e \<Longrightarrow> rn_memory_usage raw = mem (TLeaf e v) \<Longrightarrow> stored trie h (TLeaf e v)"
| stored_ext: "retrieve_raw_node trie h = Inr (Some (bytes, raw)) \<Longrightarrow> from_raw_trie_node (rn_node raw) = Extension (hex_prefix e False) c \<Longrightarrow>
    nibbles_ok e \<Longrightarrow> e \<noteq> [] \<Longrightarrow> rn_memory_usage raw = mem (TExt e t) \<Longrightarrow> stored trie c t \<Longrightarrow> stored trie h (TExt e t)"
| stored_branch: "retrieve_raw_node trie h = Inr (Some (bytes, raw)) \<Longrightarrow> from_raw_trie_node (rn_node raw) = Branch cs w \<Longrightarrow>
    length cs = 16 \<Longrightarrow> length ts = 16 \<Longrightarrow> rn_memory_usage raw = mem (TBranch ts w) \<Longrightarrow>
    (\<And>j. j < 16 \<Longrightarrow> cs ! j = None \<Longrightarrow> ts ! j = TEmpty) \<Longrightarrow>
    (\<And>j c. j < 16 \<Longrightarrow> cs ! j = Some c \<Longrightarrow> stored trie c (ts ! j)) \<Longrightarrow> stored trie h (TBranch ts w)"

text \<open>A trie behind a pointer, with the indices of updated nodes that it occupies.\<close>

type_synonym node_vec = "updated_node_with_size option list"
type_synonym node_ptr = "crypto_hash generic_node_or_index"

definition at_node :: "node_vec \<Rightarrow> nat \<Rightarrow> updated_node_with_size \<Rightarrow> bool" where
  "at_node nodes i n \<longleftrightarrow> i < length nodes \<and> nodes ! i = Some n"

inductive repr :: "disk_trie \<Rightarrow> node_vec \<Rightarrow> node_ptr \<Rightarrow> value_handle trie \<Rightarrow> nat set \<Rightarrow> bool" for trie nodes where
  repr_old: "stored trie h t \<Longrightarrow> repr trie nodes (Old h) t {}"
| repr_empty: "at_node nodes i empty_node \<Longrightarrow> repr trie nodes (Updated i) TEmpty {i}"
| repr_leaf: "at_node nodes i (with_size (Leaf (hex_prefix e True) v) (mem (TLeaf e v))) \<Longrightarrow> nibbles_ok e \<Longrightarrow>
    repr trie nodes (Updated i) (TLeaf e v) {i}"
| repr_ext: "at_node nodes i (with_size (Extension (hex_prefix e False) p) (mem (TExt e t))) \<Longrightarrow> nibbles_ok e \<Longrightarrow> e \<noteq> [] \<Longrightarrow>
    repr trie nodes p t F \<Longrightarrow> t \<noteq> TEmpty \<Longrightarrow> i \<notin> F \<Longrightarrow> repr trie nodes (Updated i) (TExt e t) (insert i F)"
| repr_branch: "at_node nodes i (with_size (Branch cs w) (mem (TBranch ts w))) \<Longrightarrow> length cs = 16 \<Longrightarrow> length ts = 16 \<Longrightarrow>
    (\<And>j. j < 16 \<Longrightarrow> cs ! j = None \<Longrightarrow> ts ! j = TEmpty \<and> Fs j = {}) \<Longrightarrow>
    (\<And>j p. j < 16 \<Longrightarrow> cs ! j = Some p \<Longrightarrow> ts ! j \<noteq> TEmpty) \<Longrightarrow>
    (\<And>j p. j < 16 \<Longrightarrow> cs ! j = Some p \<Longrightarrow> repr trie nodes p (ts ! j) (Fs j)) \<Longrightarrow>
    (\<And>j k. j < 16 \<Longrightarrow> k < 16 \<Longrightarrow> j \<noteq> k \<Longrightarrow> Fs j \<inter> Fs k = {}) \<Longrightarrow> (\<And>j. j < 16 \<Longrightarrow> i \<notin> Fs j) \<Longrightarrow>
    repr trie nodes (Updated i) (TBranch ts w) (insert i (\<Union>j<16. Fs j))"

inductive_cases repr_UpdatedE: "repr trie nodes (Updated i) t F"
inductive_cases repr_OldE: "repr trie nodes (Old h) t F"

lemma stored_nonempty: "stored trie h t \<Longrightarrow> t \<noteq> TEmpty"
  by (induction rule: stored.induct) auto

lemma stored_shape: "stored trie h t \<Longrightarrow> shape t"
proof (induction rule: stored.induct)
  case (stored_branch h bytes raw cs w ts)
  have "shape (ts ! j)" if "j < 16" for j using stored_branch that by (cases "cs ! j") auto
  then show ?case using stored_branch(4) by (auto simp: in_set_conv_nth)
qed auto

lemma repr_shape: "repr trie nodes p t F \<Longrightarrow> shape t"
proof (induction rule: repr.induct)
  case (repr_branch i cs w ts Fs)
  have "shape (ts ! j)" if "j < 16" for j using repr_branch that by (cases "cs ! j") auto
  then show ?case using repr_branch(3) by (auto simp: in_set_conv_nth)
qed (auto dest: stored_shape)

lemma repr_in: "repr trie nodes (Updated i) t F \<Longrightarrow> i \<in> F \<and> i < length nodes"
  by (auto elim!: repr_UpdatedE simp: at_node_def)

lemma repr_bound: "repr trie nodes p t F \<Longrightarrow> j \<in> F \<Longrightarrow> j < length nodes"
proof (induction arbitrary: j rule: repr.induct)
  case (repr_branch i cs w ts Fs)
  then show ?case by (auto simp: at_node_def) (metis empty_iff option.exhaust)
qed (auto simp: at_node_def)

text \<open>A representation depends only on the nodes in its footprint.\<close>

lemma repr_cong: "repr trie nodes p t F \<Longrightarrow> (\<And>j. j \<in> F \<Longrightarrow> j < length nodes' \<and> nodes' ! j = nodes ! j) \<Longrightarrow> repr trie nodes' p t F"
proof (induction rule: repr.induct)
  case (repr_old h t)
  then show ?case by (auto intro: repr.repr_old)
next
  case (repr_empty i)
  then show ?case by (auto simp: at_node_def intro!: repr.repr_empty)
next
  case (repr_leaf i e v)
  then show ?case by (auto simp: at_node_def intro!: repr.repr_leaf)
next
  case (repr_ext i e p t F)
  then show ?case by (auto simp: at_node_def intro!: repr.repr_ext)
next
  case (repr_branch i cs w ts Fs)
  show ?case
  proof (rule repr.repr_branch [where cs = cs])
    show "at_node nodes' i (with_size (Branch cs w) (mem (TBranch ts w)))" using repr_branch(1) repr_branch.prems [of i] by (simp add: at_node_def)
    show "repr trie nodes' p (ts ! j) (Fs j)" if "j < 16" "cs ! j = Some p" for j p
      using that(1) by (intro repr_branch.IH that repr_branch.prems) auto
  qed (use repr_branch in auto)
qed

section \<open>How the vector of nodes evolves\<close>

text \<open>Only the nodes in a footprint change, and the footprint grows by new nodes only.\<close>

definition evolves :: "nat set \<Rightarrow> node_vec \<Rightarrow> nat set \<Rightarrow> node_vec \<Rightarrow> bool" where
  "evolves F nodes F' nodes' \<longleftrightarrow> length nodes \<le> length nodes' \<and>
     (\<forall>j < length nodes. j \<notin> F \<longrightarrow> nodes' ! j = nodes ! j) \<and> F' \<subseteq> F \<union> {length nodes..}"

lemma evolves_refl [simp]: "evolves F nodes F nodes"
  by (simp add: evolves_def)

lemma evolves_trans:
  assumes "evolves F a F1 b" and "evolves F1 b F2 c"
  shows "evolves F a F2 c"
proof -
  have "c ! j = a ! j" if j: "j < length a" "j \<notin> F" for j
  proof -
    have "j \<notin> F1" "b ! j = a ! j" "j < length b" using assms(1) j by (auto simp: evolves_def)
    then show ?thesis using assms(2) by (simp add: evolves_def)
  qed
  moreover have "F2 \<subseteq> F \<union> {length a..}" using assms by (auto simp: evolves_def)
  ultimately show ?thesis using assms by (simp add: evolves_def)
qed

lemma evolves_other:
  assumes "repr trie nodes p t G" and "evolves F nodes F' nodes'" and "F \<inter> G = {}"
  shows "repr trie nodes' p t G" and "F' \<inter> G = {}"
proof -
  have b: "j < length nodes" if "j \<in> G" for j using repr_bound [OF assms(1) that] .
  then show "F' \<inter> G = {}" using assms(2,3) by (fastforce simp: evolves_def)
  have "j < length nodes' \<and> nodes' ! j = nodes ! j" if "j \<in> G" for j
  proof -
    have "j \<notin> F" using that assms(3) by auto
    then show ?thesis using assms(2) b [OF that] by (simp add: evolves_def)
  qed
  then show "repr trie nodes' p t G" by (rule repr_cong [OF assms(1)])
qed

section \<open>Branches and paths\<close>

text \<open>The children of a branch at the places of a set.\<close>

definition kids :: "disk_trie \<Rightarrow> node_vec \<Rightarrow> nat \<Rightarrow> node_ptr option list \<Rightarrow> value_handle trie list \<Rightarrow> (nat \<Rightarrow> nat set) \<Rightarrow> nat set \<Rightarrow> bool" where
  "kids trie nodes i cs ts Fs S \<longleftrightarrow> length cs = 16 \<and> length ts = 16 \<and>
     (\<forall>j<16. \<forall>k<16. j \<noteq> k \<longrightarrow> Fs j \<inter> Fs k = {}) \<and> (\<forall>j<16. i \<notin> Fs j) \<and>
     (\<forall>j<16. j \<in> S \<longrightarrow> (case cs ! j of None \<Rightarrow> ts ! j = TEmpty \<and> Fs j = {}
        | Some p \<Rightarrow> ts ! j \<noteq> TEmpty \<and> repr trie nodes p (ts ! j) (Fs j)))"

abbreviation branch_foot :: "nat \<Rightarrow> (nat \<Rightarrow> nat set) \<Rightarrow> nat set" where
  "branch_foot i Fs \<equiv> insert i (\<Union>j<16. Fs j)"

lemma repr_branch_kids:
  "repr trie nodes (Updated i) (TBranch ts w) F \<longleftrightarrow>
     (\<exists>cs Fs. at_node nodes i (with_size (Branch cs w) (mem (TBranch ts w))) \<and> kids trie nodes i cs ts Fs UNIV \<and> F = branch_foot i Fs)"
proof
  assume "repr trie nodes (Updated i) (TBranch ts w) F"
  then show "\<exists>cs Fs. at_node nodes i (with_size (Branch cs w) (mem (TBranch ts w))) \<and> kids trie nodes i cs ts Fs UNIV \<and> F = branch_foot i Fs"
  proof (cases rule: repr.cases)
    case (repr_branch cs Fs)
    then have "kids trie nodes i cs ts Fs UNIV" by (simp add: kids_def split: option.splits)
    with repr_branch show ?thesis by blast
  qed
next
  assume "\<exists>cs Fs. at_node nodes i (with_size (Branch cs w) (mem (TBranch ts w))) \<and> kids trie nodes i cs ts Fs UNIV \<and> F = branch_foot i Fs"
  then obtain cs Fs where a: "at_node nodes i (with_size (Branch cs w) (mem (TBranch ts w)))" "kids trie nodes i cs ts Fs UNIV"
    "F = branch_foot i Fs" by blast
  have k: "case cs ! j of None \<Rightarrow> ts ! j = TEmpty \<and> Fs j = {} | Some p \<Rightarrow> ts ! j \<noteq> TEmpty \<and> repr trie nodes p (ts ! j) (Fs j)" if "j < 16" for j
    using a(2) that by (simp add: kids_def)
  show "repr trie nodes (Updated i) (TBranch ts w) F" unfolding a(3)
  proof (rule repr_branch [OF a(1)])
    show "ts ! j = TEmpty \<and> Fs j = {}" if "j < 16" "cs ! j = None" for j using k [OF that(1)] that(2) by simp
    show "ts ! j \<noteq> TEmpty" if "j < 16" "cs ! j = Some p" for j p using k [OF that(1)] that(2) by simp
    show "repr trie nodes p (ts ! j) (Fs j)" if "j < 16" "cs ! j = Some p" for j p using k [OF that(1)] that(2) by simp
  qed (use a(2) in \<open>auto simp: kids_def\<close>)
qed

lemma kids_child:
  assumes "kids trie nodes i cs ts Fs S" and "j < 16" and "j \<in> S"
  shows "cs ! j = None \<Longrightarrow> ts ! j = TEmpty \<and> Fs j = {}" and "cs ! j = Some p \<Longrightarrow> ts ! j \<noteq> TEmpty \<and> repr trie nodes p (ts ! j) (Fs j)"
  using assms by (auto simp: kids_def)

text \<open>One child changes and takes its footprint along.\<close>

lemma evolves_insert: "evolves F a F' b \<Longrightarrow> evolves (insert i F) a (insert i F') b"
  by (auto simp: evolves_def)

lemma kids_evolve:
  assumes k: "kids trie nodes i cs ts Fs (- {n})" and n: "n < 16"
    and ev: "evolves (insert i (Fs n)) nodes (insert i F') nodes'" and i: "i \<notin> F'" and len: "length cs' = 16" "length ts' = 16"
    and same: "\<And>j. j < 16 \<Longrightarrow> j \<noteq> n \<Longrightarrow> cs' ! j = cs ! j \<and> ts' ! j = ts ! j"
  shows "kids trie nodes' i cs' ts' (Fs(n := F')) (- {n})"
proof -
  have other: "(case cs ! j of None \<Rightarrow> Fs j = {} | Some p \<Rightarrow> repr trie nodes p (ts ! j) (Fs j))" if "j < 16" "j \<noteq> n" for j
    using k that by (auto simp: kids_def split: option.splits)
  have disj: "insert i (Fs n) \<inter> Fs j = {}" if "j < 16" "j \<noteq> n" for j using k n that by (auto simp: kids_def)
  have d: "F' \<inter> Fs j = {}" if "j < 16" "j \<noteq> n" for j
    using other [OF that] disj [OF that] evolves_other(2) [OF _ ev] by (cases "cs ! j") auto
  have r: "repr trie nodes' p (ts ! j) (Fs j)" if "j < 16" "j \<noteq> n" "cs ! j = Some p" for j p
    using other [OF that(1,2)] that(3) disj [OF that(1,2)] evolves_other(1) [OF _ ev] by simp
  show ?thesis using k len d i unfolding kids_def
    by (auto simp: same r Int_commute split: option.splits)
qed

lemma kids_weaken: "kids trie nodes i cs ts Fs S \<Longrightarrow> S' \<subseteq> S \<Longrightarrow> kids trie nodes i cs ts Fs S'"
  by (auto simp: kids_def)

lemma kids_strengthen:
  assumes "kids trie nodes i cs ts Fs (- {n})" and "cs ! n = Some p" and "ts ! n \<noteq> TEmpty" and "repr trie nodes p (ts ! n) (Fs n)"
  shows "kids trie nodes i cs ts Fs UNIV"
proof -
  have "case cs ! j of None \<Rightarrow> ts ! j = TEmpty \<and> Fs j = {} | Some p \<Rightarrow> ts ! j \<noteq> TEmpty \<and> repr trie nodes p (ts ! j) (Fs j)" if "j < 16" for j
    using assms that unfolding kids_def by (cases "j = n") auto
  then show ?thesis using assms(1) by (simp add: kids_def)
qed

lemma evolves_branch:
  assumes "evolves (insert i (Fs n)) nodes (insert i F') nodes'" and "n < 16"
  shows "evolves (branch_foot i Fs) nodes (branch_foot i (Fs(n := F'))) nodes'"
  using assms by (auto simp: evolves_def split: if_splits)

text \<open>
  A path from a node down to where an update has been made: the nodes above the last one do not count
  the memory usage of their child on the path.
\<close>

inductive spine :: "disk_trie \<Rightarrow> node_vec \<Rightarrow> value_handle trie \<Rightarrow> nat list \<Rightarrow> value_handle trie \<Rightarrow> nat set \<Rightarrow> bool" for trie nodes l where
  spine_end: "repr trie nodes (Updated i) l F \<Longrightarrow> spine trie nodes l [i] l F"
| spine_ext: "at_node nodes i (with_size (Extension (hex_prefix e False) (Updated j)) (50 + key_cost e)) \<Longrightarrow> nibbles_ok e \<Longrightarrow> e \<noteq> [] \<Longrightarrow>
    spine trie nodes l (j # path) t F \<Longrightarrow> i \<notin> F \<Longrightarrow> spine trie nodes l (i # j # path) (TExt e t) (insert i F)"
| spine_branch: "at_node nodes i (with_size (Branch cs w) m) \<Longrightarrow> m + mem (ts ! n) = mem (TBranch ts w) \<Longrightarrow> n < 16 \<Longrightarrow>
    cs ! n = Some (Updated j) \<Longrightarrow> spine trie nodes l (j # path) (ts ! n) (Fs n) \<Longrightarrow> kids trie nodes i cs ts Fs (- {n}) \<Longrightarrow>
    spine trie nodes l (i # j # path) (TBranch ts w) (branch_foot i Fs)"

lemma hex_prefix_length: "length (hex_prefix e b) = 1 + length e div 2"
  by (cases "odd (length e)") (auto simp: hex_prefix_def pack_length elim!: oddE)

lemma node_usage_simps [simp]:
  "node_usage (Leaf (hex_prefix e b) v) = mem (TLeaf e v)"
  "node_usage (Extension (hex_prefix e b) p) = 50 + key_cost e"
  "node_usage (Branch cs w) = 50 + (case w of None \<Rightarrow> 0 | Some v \<Rightarrow> value_len v + 50)"
  "node_usage Empty = 0"
  by (simp_all add: node_cost_def byte_of_key_def memory_usage_value_def byte_of_value_def key_cost_def hex_prefix_length
      split: option.splits)

declare memory_usage_direct.simps [simp del]

lemma repr_mem: "repr trie nodes (Updated i) t F \<Longrightarrow> \<exists>n. at_node nodes i n \<and> un_memory_usage n = mem t"
  by (auto elim!: repr_UpdatedE simp: empty_node_def)

section \<open>The operations on the storage\<close>

lemma take_node_ok: "at_node (tu_nodes u) i n \<Longrightarrow> take_node u i = Some (n, u\<lparr>tu_nodes := (tu_nodes u)[i := None]\<rparr>)"
  by (simp add: take_node_def at_node_def)

lemma get_node_ref_ok: "at_node (tu_nodes u) i n \<Longrightarrow> get_node_ref u i = Some n"
  by (simp add: get_node_ref_def at_node_def)

lemma place_node_at_ok: "i < length (tu_nodes u) \<Longrightarrow> place_node_at u i n = Some (u\<lparr>tu_nodes := (tu_nodes u)[i := Some n]\<rparr>)"
  by (simp add: place_node_at_def)

lemma at_node_update [simp]: "i < length nodes \<Longrightarrow> at_node (nodes[i := Some n]) i n"
  by (simp add: at_node_def)

lemma at_node_append [simp]: "at_node (nodes @ [Some n]) (length nodes) n"
  by (simp add: at_node_def)

text \<open>New nodes are added at the end, the others stay.\<close>

definition appends :: "trie_storage_update \<Rightarrow> trie_storage_update \<Rightarrow> bool" where
  "appends u u' \<longleftrightarrow> length (tu_nodes u) \<le> length (tu_nodes u') \<and>
     (\<forall>j < length (tu_nodes u). tu_nodes u' ! j = tu_nodes u ! j) \<and> tu_values u' = tu_values u"

lemma appends_evolves: "appends u u' \<Longrightarrow> F' \<subseteq> F \<union> {length (tu_nodes u)..} \<Longrightarrow> evolves F (tu_nodes u) F' (tu_nodes u')"
  by (auto simp: appends_def evolves_def)

lemma stored_move:
  assumes "stored trie h t"
  shows "\<exists>u'. move_node_to_mutable trie u h = Inr (length (tu_nodes u), u') \<and> appends u u' \<and>
    repr trie (tu_nodes u') (Updated (length (tu_nodes u))) t {length (tu_nodes u)}"
  using assms
proof (cases rule: stored.cases)
  case (stored_leaf bytes raw e v)
  then show ?thesis
    by (auto simp: move_node_to_mutable_def store_node_def from_raw_trie_node_with_size_def appends_def nth_append intro!: repr_leaf)
next
  case (stored_ext bytes raw e c t)
  have "repr trie nodes (Updated i) (TExt e t) {i}"
    if "at_node nodes i (with_size (Extension (hex_prefix e False) (Old c)) (mem (TExt e t)))" for nodes i
    using repr_ext [OF that stored_ext(4,5) repr_old [OF stored_ext(7)] stored_nonempty [OF stored_ext(7)]] by simp
  with stored_ext show ?thesis
    by (auto simp: move_node_to_mutable_def store_node_def from_raw_trie_node_with_size_def appends_def nth_append)
next
  case (stored_branch bytes raw cs w ts)
  have k: "kids trie nodes i (map (map_option Old) cs) ts (\<lambda>_. {}) UNIV" for nodes i
  proof -
    have "case map (map_option Old) cs ! j of None \<Rightarrow> ts ! j = TEmpty \<and> ({}::nat set) = {} | Some p \<Rightarrow> ts ! j \<noteq> TEmpty \<and> repr trie nodes p (ts ! j) {}" if "j < 16" for j
    proof (cases "cs ! j")
      case (Some c)
      then have c: "stored trie c (ts ! j)" using stored_branch that by simp
      then show ?thesis using Some that stored_branch(4) stored_nonempty [OF c] by (simp add: repr_old)
    qed (use that stored_branch in simp)
    then show ?thesis unfolding kids_def using stored_branch(4,5) by (intro conjI allI impI) (simp_all only: length_map Int_empty_left empty_iff not_False_eq_True)
  qed
  have "repr trie nodes (Updated i) (TBranch ts w) {i}"
    if "at_node nodes i (with_size (Branch (map (map_option Old) cs) w) (mem (TBranch ts w)))" for nodes i
    unfolding repr_branch_kids by (rule exI, rule exI, rule conjI [OF that], rule conjI [OF k]) simp
  with stored_branch show ?thesis
    by (auto simp: move_node_to_mutable_def store_node_def from_raw_trie_node_with_size_def appends_def nth_append)
qed

lemma ensure_updated_ok:
  assumes "repr trie (tu_nodes u) p t F"
  obtains c u' F' where "ensure_updated trie u p = Inr (c, u')" "appends u u'" "repr trie (tu_nodes u') (Updated c) t F'"
    "F' \<subseteq> F \<union> {length (tu_nodes u)..}"
proof (cases p)
  case (Old h)
  then have "stored trie h t" using assms by (auto elim: repr_OldE)
  from stored_move [OF this, of u] Old that show thesis by (metis atLeast_iff empty_subsetI ensure_updated.simps(1) insert_subset le_sup_iff order_refl sup.coboundedI2 Un_iff)
next
  case (Updated i)
  then show thesis using that [of i u F] assms by (simp add: appends_def)
qed

lemma repr_taken:
  assumes "repr trie (tu_nodes u) p t F" and "i \<notin> F"
  shows "repr trie (tu_nodes (u\<lparr>tu_nodes := (tu_nodes u)[i := None]\<rparr>)) p t F"
proof (rule repr_cong [OF assms(1)])
  fix j assume "j \<in> F"
  moreover from this have "j \<noteq> i" using assms(2) by auto
  ultimately show "j < length (tu_nodes (u\<lparr>tu_nodes := (tu_nodes u)[i := None]\<rparr>)) \<and> tu_nodes (u\<lparr>tu_nodes := (tu_nodes u)[i := None]\<rparr>) ! j = tu_nodes u ! j"
    using repr_bound [OF assms(1)] by simp
qed

lemma repr_append: "repr trie nodes p t F \<Longrightarrow> repr trie (nodes @ xs) p t F"
proof (rule repr_cong, assumption)
  fix j assume "repr trie nodes p t F" "j \<in> F"
  from repr_bound [OF this] show "j < length (nodes @ xs) \<and> (nodes @ xs) ! j = nodes ! j" by (simp add: nth_append)
qed

lemma repr_placed:
  assumes "repr trie nodes p t F" and "i \<notin> F"
  shows "repr trie (nodes[i := x]) p t F"
proof (rule repr_cong [OF assms(1)])
  fix j assume "j \<in> F"
  moreover from this have "j \<noteq> i" using assms(2) by auto
  ultimately show "j < length (nodes[i := x]) \<and> nodes[i := x] ! j = nodes ! j" using repr_bound [OF assms(1)] by simp
qed

lemma evolves_placed:
  assumes "appends (u\<lparr>tu_nodes := (tu_nodes u)[i := None]\<rparr>) u2" and "F' \<subseteq> F \<union> {length (tu_nodes u)..}"
  shows "evolves (insert i F) (tu_nodes u) (insert i F') ((tu_nodes u2)[i := x])"
  using assms by (auto simp: appends_def evolves_def nth_list_update)

lemma store_child_ok:
  assumes at: "at_node (tu_nodes u) i (with_size (Branch cs w) (mem (TBranch ts w)))"
    and k: "kids trie (tu_nodes u) i cs ts Fs UNIV" and n: "n < 16" and fit: "mem (TBranch ts w) < 2 ^ 64"
    and app: "appends (u\<lparr>tu_nodes := (tu_nodes u)[i := None]\<rparr>) u2"
    and c: "repr trie (tu_nodes u2) (Updated c) (ts ! n) F'" "F' \<subseteq> Fs n \<union> {length (tu_nodes u)..}"
  defines "cs' \<equiv> cs[n := Some (Updated c)]"
  shows "\<exists>u3 m. calc_memory_usage_and_store u2 i (saturating_sub (mem (TBranch ts w)) (node_usage (Branch cs w))) (Branch cs' w) (Some c) = Some u3 \<and>
    at_node (tu_nodes u3) i (with_size (Branch cs' w) m) \<and> m + mem (ts ! n) = mem (TBranch ts w) \<and>
    repr trie (tu_nodes u3) (Updated c) (ts ! n) F' \<and> kids trie (tu_nodes u3) i cs' ts (Fs(n := F')) (- {n}) \<and> cs' ! n = Some (Updated c) \<and>
    evolves (branch_foot i Fs) (tu_nodes u) (branch_foot i (Fs(n := F'))) (tu_nodes u3) \<and> tu_values u3 = tu_values u"
proof -
  have i: "i < length (tu_nodes u)" using at by (simp add: at_node_def)
  have len: "length cs = 16" "length ts = 16" using k by (simp_all add: kids_def)
  have i2: "i < length (tu_nodes u2)" and vals: "tu_values u2 = tu_values u" using app i by (auto simp: appends_def)
  have "i \<notin> Fs n" using k n by (auto simp: kids_def)
  then have iF: "i \<notin> F'" using c(2) i by auto
  define m where "m = mem (TBranch ts w) - mem (ts ! n)"
  have le: "mem (ts ! n) \<le> mem (TBranch ts w)" using mem_child [of n ts value_len] n len by simp
  obtain nd where nd: "at_node (tu_nodes u2) c nd" "un_memory_usage nd = mem (ts ! n)" using repr_mem [OF c(1)] by blast
  let ?u3 = "u2\<lparr>tu_nodes := (tu_nodes u2)[i := Some (with_size (Branch cs' w) m)]\<rparr>"
  have "saturating_add u64_w (saturating_sub (mem (TBranch ts w)) (node_usage (Branch cs w))) (node_usage (Branch cs' w)) = mem (TBranch ts w)"
    using fit by (simp add: saturating_sub_def saturating_add_def int_max_def)
  then have "calc_memory_usage_and_store u2 i (saturating_sub (mem (TBranch ts w)) (node_usage (Branch cs w))) (Branch cs' w) (Some c) = Some ?u3"
    by (simp add: calc_memory_usage_and_store_def get_node_ref_ok [OF nd(1)] nd(2) place_node_at_ok [OF i2] m_def saturating_sub_def)
  moreover have ev: "evolves (insert i (Fs n)) (tu_nodes u) (insert i F') (tu_nodes ?u3)" using evolves_placed [OF app c(2)] by simp
  moreover have "kids trie (tu_nodes ?u3) i cs' ts (Fs(n := F')) (- {n})"
    by (rule kids_evolve [OF kids_weaken [OF k] n ev iF]) (auto simp: cs'_def len)
  moreover have "repr trie (tu_nodes ?u3) (Updated c) (ts ! n) F'" using repr_placed [OF c(1) iF] by simp
  moreover note evolves_branch [where Fs = Fs and n = n, OF ev n]
  ultimately show ?thesis using le vals i2 n len by (intro exI [of _ ?u3] exI [of _ m]) (simp add: m_def cs'_def)
qed

lemma kids_placed:
  assumes "kids trie nodes i cs ts Fs S"
  shows "kids trie (nodes[i := x]) i cs ts Fs S"
  using assms repr_placed [where i = i and x = x] unfolding kids_def by (auto split: option.splits)

text \<open>An update below a child is an update of the node.\<close>

lemma evolves_at: "evolves F nodes F' nodes' \<Longrightarrow> at_node nodes i n \<Longrightarrow> i \<notin> F \<Longrightarrow> at_node nodes' i n \<and> i \<notin> F'"
  by (auto simp: evolves_def at_node_def)

lemma spine_lift_branch:
  assumes at: "at_node nodes i (with_size (Branch cs w) m)" and m: "m + mem (ts ! n) = mem (TBranch ts w)" and n: "n < 16"
    and c: "cs ! n = Some (Updated c)" and sp: "spine trie nodes' l (c # path) t' F'" and ev: "evolves (Fs n) nodes F' nodes'"
    and k: "kids trie nodes i cs ts Fs (- {n})"
  shows "spine trie nodes' l (i # c # path) (TBranch (ts[n := t']) w) (branch_foot i (Fs(n := F'))) \<and>
    evolves (branch_foot i Fs) nodes (branch_foot i (Fs(n := F'))) nodes'"
proof -
  have len: "length cs = 16" "length ts = 16" and iF: "i \<notin> Fs n" using k n by (auto simp: kids_def)
  have at': "at_node nodes' i (with_size (Branch cs w) m)" "i \<notin> F'" using evolves_at [OF ev at iF] by auto
  have ev': "evolves (insert i (Fs n)) nodes (insert i F') nodes'" by (rule evolves_insert [OF ev])
  have k': "kids trie nodes' i cs (ts[n := t']) (Fs(n := F')) (- {n})"
    by (rule kids_evolve [OF k n ev' at'(2)]) (auto simp: len)
  have "m + mem (ts[n := t'] ! n) = mem (TBranch (ts[n := t']) w)"
    using m sum_list_update_mem [of n ts mem t'] n len by simp
  from spine_branch [OF at'(1) this n c _ k'] sp n len evolves_branch [where Fs = Fs and n = n, OF ev' n] show ?thesis by simp
qed

lemma spine_lift_ext:
  assumes at: "at_node nodes i (with_size (Extension (hex_prefix e False) (Updated c)) (50 + key_cost e))" and e: "nibbles_ok e" "e \<noteq> []"
    and sp: "spine trie nodes' l (c # path) t' F'" and ev: "evolves F nodes F' nodes'" and i: "i \<notin> F"
  shows "spine trie nodes' l (i # c # path) (TExt e t') (insert i F') \<and> evolves (insert i F) nodes (insert i F') nodes'"
  using evolves_at [OF ev at i] spine_ext [OF _ e sp] evolves_insert [OF ev] by auto

section \<open>Insertion\<close>

text \<open>What a round of the loop leaves for the next one.\<close>

lemma slice_mid:
  assumes "slice_ok s" and "c \<le> length (nibbles s)"
  shows "slice_ok (ns_mid s c)" and "nibbles (ns_mid s c) = drop c (nibbles s)"
  using assms by (auto simp: slice_ok_def ns_mid_def nibbles_def add.commute)

lemma from_encoded_hex:
  assumes "nibbles_ok e"
  obtains s where "ns_from_encoded (hex_prefix e b) = Some (s, b)" "slice_ok s" "nibbles s = e"
  using hex_prefix_from_encoded [of e b] assms by (auto simp: nibbles_ok_def)

lemma slice_nibbles_ok: "slice_ok s \<Longrightarrow> nibbles_ok (nibbles s)"
  using nibbles_lt by (auto simp: nibbles_ok_def)

lemma is_empty_eq: "slice_ok s \<Longrightarrow> ns_is_empty s = Some (nibbles s = [])"
  by (simp add: ns_is_empty_def ns_len_eq)

text \<open>The conditions under which the loop is at a node, and what it has achieved when it ends.\<close>

definition insert_pre :: "disk_trie \<Rightarrow> trie_storage_update \<Rightarrow> nat \<Rightarrow> nibble_slice \<Rightarrow> nat list \<Rightarrow> value_handle trie \<Rightarrow> nat set \<Rightarrow> nat \<Rightarrow> bool" where
  "insert_pre trie u i partial k t F room \<longleftrightarrow> repr trie (tu_nodes u) (Updated i) t F \<and> slice_ok partial \<and> nibbles partial = k \<and>
     mem t + (if is_branch t then 0 else 50) + room < 2 ^ 64"

definition insert_post :: "disk_trie \<Rightarrow> trie_storage_update \<Rightarrow> nat \<Rightarrow> value_handle trie \<Rightarrow> nat set \<Rightarrow> byte list \<Rightarrow> nat list \<times> trie_storage_update \<Rightarrow> bool" where
  "insert_post trie u i t' F v r \<longleftrightarrow>
     (case r of (path, u') \<Rightarrow> \<exists>F' l. spine trie (tu_nodes u') l (i # path) t' F' \<and> l \<noteq> TEmpty \<and> evolves F (tu_nodes u) F' (tu_nodes u') \<and>
        tu_values u' = tu_values u @ [Some v])"

abbreviation new_handle :: "trie_storage_update \<Rightarrow> byte list \<Rightarrow> value_handle" where
  "new_handle u v \<equiv> InMemory (length (tu_values u)) (length v)"

lemma store_value_ok: "store_value u (MemtrieAndDisk v) = Some (new_handle u v, u\<lparr>tu_values := tu_values u @ [Some v]\<rparr>)"
  by simp

lemma delete_value_ok:
  obtains u' where "delete_value u h = Inr u'" "tu_nodes u' = tu_nodes u" "tu_values u' = tu_values u"
  by (cases h) auto

lemma insert_empty_ok:
  assumes pre: "insert_pre trie u i partial k TEmpty F room"
  shows "\<exists>u'. insert_step trie u i partial (MemtrieAndDisk v) = Some (Inr (Insert_Break u')) \<and> insert_post trie u i (TLeaf k (new_handle u v)) F v ([], u')"
proof -
  have at: "at_node (tu_nodes u) i empty_node" and F: "F = {i}" and sl: "slice_ok partial" "nibbles partial = k"
    using pre by (auto simp: insert_pre_def elim: repr_UpdatedE)
  have i: "i < length (tu_nodes u)" using at by (simp add: at_node_def)
  let ?n = "with_size (Leaf (hex_prefix k True) (new_handle u v)) (mem (TLeaf k (new_handle u v)))"
  let ?u' = "u\<lparr>tu_nodes := (tu_nodes u)[i := Some ?n], tu_values := tu_values u @ [Some v]\<rparr>"
  have "insert_step trie u i partial (MemtrieAndDisk v) = Some (Inr (Insert_Break ?u'))"
    using i by (simp add: insert_step_def take_node_ok [OF at] empty_node_def insert_empty_def store_value_ok ns_encoded_eq [OF sl(1)] sl(2)
        place_node_at_ok Let_def del: store_value.simps)
  moreover have "repr trie (tu_nodes ?u') (Updated i) (TLeaf k (new_handle u v)) {i}"
    by (rule repr_leaf) (use i slice_nibbles_ok [OF sl(1)] sl(2) in simp_all)
  ultimately show ?thesis using i by (auto simp: insert_post_def F evolves_def dest: spine_end)
qed

lemma insert_here_ok:
  assumes pre: "insert_pre trie u i partial [] (TBranch ts w) F room" and room: "length v + 100 \<le> room"
  shows "\<exists>u'. insert_step trie u i partial (MemtrieAndDisk v) = Some (Inr (Insert_Break u')) \<and>
    insert_post trie u i (TBranch ts (Some (new_handle u v))) F v ([], u')"
proof -
  obtain cs Fs where at: "at_node (tu_nodes u) i (with_size (Branch cs w) (mem (TBranch ts w)))" and k: "kids trie (tu_nodes u) i cs ts Fs UNIV"
    and F: "F = branch_foot i Fs" and sl: "slice_ok partial" "nibbles partial = []" and fit: "mem (TBranch ts w) + room < 2 ^ 64"
    using pre unfolding insert_pre_def repr_branch_kids by auto
  have i: "i < length (tu_nodes u)" using at by (simp add: at_node_def)
  let ?t = "TBranch ts (Some (new_handle u v))"
  let ?n = "with_size (Branch cs (Some (new_handle u v))) (mem ?t)"
  obtain u1 where u1: "(case w of None \<Rightarrow> Inr (u\<lparr>tu_nodes := (tu_nodes u)[i := None]\<rparr>) | Some h \<Rightarrow> delete_value (u\<lparr>tu_nodes := (tu_nodes u)[i := None]\<rparr>) h) = Inr u1"
    "tu_nodes u1 = (tu_nodes u)[i := None]" "tu_values u1 = tu_values u"
  proof (cases w)
    case (Some h)
    then show thesis using that by (rule_tac delete_value_ok [of "u\<lparr>tu_nodes := (tu_nodes u)[i := None]\<rparr>" h]) simp
  qed simp
  let ?u' = "u1\<lparr>tu_nodes := (tu_nodes u)[i := Some ?n], tu_values := tu_values u @ [Some v]\<rparr>"
  have "insert_step trie u i partial (MemtrieAndDisk v) = Some (Inr (Insert_Break ?u'))"
    using i fit room
    by (simp add: insert_step_def take_node_ok [OF at] insert_branch_def is_empty_eq [OF sl(1)] sl(2) u1 place_node_at_ok Let_def
        checked_add_def saturating_sub_def ac_simps)
  moreover have "kids trie (tu_nodes ?u') i cs ts Fs UNIV"
    using kids_placed [OF k] by simp
  then have "repr trie (tu_nodes ?u') (Updated i) ?t F"
    unfolding repr_branch_kids F using i by (intro exI [of _ cs] exI [of _ Fs]) simp
  ultimately show ?thesis using i by (auto simp: insert_post_def F evolves_def dest: spine_end)
qed

lemma insert_child_ok:
  assumes pre: "insert_pre trie u i partial (n # k) (TBranch ts w) F room" and n: "n < 16"
  obtains c u' F' where "insert_step trie u i partial (MemtrieAndDisk v) = Some (Inr (Insert_Descend c (ns_mid partial 1) u'))"
    "insert_pre trie u' c (ns_mid partial 1) k (ts ! n) F' room" "tu_values u' = tu_values u"
    "\<And>t' path u''. insert_post trie u' c t' F' v (path, u'') \<Longrightarrow> insert_post trie u i (TBranch (ts[n := t']) w) F v (c # path, u'')"
proof -
  obtain cs Fs where at: "at_node (tu_nodes u) i (with_size (Branch cs w) (mem (TBranch ts w)))" and kd: "kids trie (tu_nodes u) i cs ts Fs UNIV"
    and F: "F = branch_foot i Fs" and sl: "slice_ok partial" "nibbles partial = n # k" and fit: "mem (TBranch ts w) + room < 2 ^ 64"
    using pre unfolding insert_pre_def repr_branch_kids by auto
  let ?u0 = "u\<lparr>tu_nodes := (tu_nodes u)[i := None]\<rparr>"
  have len: "length cs = 16" "length ts = 16" and iF: "i \<notin> Fs n" using kd n by (auto simp: kids_def)
  obtain c u2 F' where r: "(case cs ! n of Some ptr \<Rightarrow> ensure_updated trie ?u0 ptr | None \<Rightarrow> Inr (place_node ?u0 empty_node)) = Inr (c, u2)"
    and app: "appends ?u0 u2" and c: "repr trie (tu_nodes u2) (Updated c) (ts ! n) F'" "F' \<subseteq> Fs n \<union> {length (tu_nodes u)..}"
  proof (cases "cs ! n")
    case None
    then have "ts ! n = TEmpty" "Fs n = {}" using kids_child(1) [OF kd n] by auto
    then show thesis using that [of "length (tu_nodes u)" _ "{length (tu_nodes u)}"] None
      by (simp add: place_node_def appends_def nth_append repr_empty at_node_def)
  next
    case (Some p)
    then have "repr trie (tu_nodes u) p (ts ! n) (Fs n)" using kids_child(2) [OF kd n] by auto
    from repr_taken [OF this iF] show thesis by (rule ensure_updated_ok) (use that Some in auto)
  qed
  have fit': "mem (TBranch ts w) < 2 ^ 64" using fit by simp
  obtain u3 m where u3: "calc_memory_usage_and_store u2 i (saturating_sub (mem (TBranch ts w)) (node_usage (Branch cs w))) (Branch (cs[n := Some (Updated c)]) w) (Some c) = Some u3"
    and at3: "at_node (tu_nodes u3) i (with_size (Branch (cs[n := Some (Updated c)]) w) m)" and m: "m + mem (ts ! n) = mem (TBranch ts w)"
    and c3: "repr trie (tu_nodes u3) (Updated c) (ts ! n) F'" and k3: "kids trie (tu_nodes u3) i (cs[n := Some (Updated c)]) ts (Fs(n := F')) (- {n})"
    and ev3: "evolves (branch_foot i Fs) (tu_nodes u) (branch_foot i (Fs(n := F'))) (tu_nodes u3)" and v3: "tu_values u3 = tu_values u"
    using store_child_ok [OF at kd n fit' app c] by blast
  have "insert_step trie u i partial (MemtrieAndDisk v) = Some (Inr (Insert_Descend c (ns_mid partial 1) u3))"
    using r u3 n sl ns_at_eq [OF sl(1), of 0]
    by (simp add: insert_step_def take_node_ok [OF at] insert_branch_def is_empty_eq len Let_def del: node_usage_simps t_mem.simps)
  moreover have "insert_pre trie u3 c (ns_mid partial 1) k (ts ! n) F' room"
    using c3 slice_mid [OF sl(1), of 1] sl(2) fit mem_child [of n ts value_len] n len by (simp add: insert_pre_def)
  moreover have "insert_post trie u i (TBranch (ts[n := t']) w) F v (c # path, u4)" if post: "insert_post trie u3 c t' F' v (path, u4)" for t' path u4
  proof -
    obtain F4 l where F4: "spine trie (tu_nodes u4) l (c # path) t' F4" "evolves F' (tu_nodes u3) F4 (tu_nodes u4)" "tu_values u4 = tu_values u @ [Some v]" "l \<noteq> TEmpty"
      using post v3 by (auto simp: insert_post_def)
    have "spine trie (tu_nodes u4) l (i # c # path) (TBranch (ts[n := t']) w) (branch_foot i ((Fs(n := F'))(n := F4))) \<and>
        evolves (branch_foot i (Fs(n := F'))) (tu_nodes u3) (branch_foot i ((Fs(n := F'))(n := F4))) (tu_nodes u4)"
      by (rule spine_lift_branch [OF at3 m n _ F4(1) _ k3]) (use F4(2) n len in simp_all)
    then show ?thesis using F4(3,4) evolves_trans [OF ev3] by (auto simp: insert_post_def F)
  qed
  ultimately show thesis using that v3 by blast
qed

lemma kids_none: "kids trie nodes i (replicate 16 None) no_children (\<lambda>_. {}) UNIV"
  by (simp add: kids_def)

lemma kids_single:
  assumes "repr trie nodes p t F" and "t \<noteq> TEmpty" and "i \<notin> F" and "m < 16"
  shows "kids trie nodes i ((replicate 16 None)[m := Some p]) (no_children[m := t]) ((\<lambda>_. {})(m := F)) UNIV"
  using assms by (auto simp: kids_def nth_list_update split: option.splits)

lemma repr_single:
  assumes "at_node nodes i (with_size (Branch ((replicate 16 None)[m := Some p]) None) (50 + mem t))"
    and "repr trie nodes p t F" and "t \<noteq> TEmpty" and "i \<notin> F" and "m < 16"
  shows "repr trie nodes (Updated i) (TBranch (no_children[m := t]) None) (insert i F)"
proof -
  have "branch_foot i ((\<lambda>_. {})(m := F)) = insert i F" using assms(5) by auto
  moreover have "mem (TBranch (no_children[m := t]) None) = 50 + mem t" using mem_single_child [OF assms(5)] by simp
  ultimately show ?thesis unfolding repr_branch_kids using assms(1) kids_single [OF assms(2-5)]
    by (intro exI [of _ "(replicate 16 None)[m := Some p]"] exI [of _ "(\<lambda>_. {})(m := F)"]) (simp only: simp_thms)
qed

lemma repr_value_only:
  assumes "at_node nodes i (with_size (Branch (replicate 16 None) (Some w)) (50 + (value_len w + 50)))"
  shows "repr trie nodes (Updated i) (TBranch no_children (Some w)) {i}"
  unfolding repr_branch_kids using assms kids_none by (intro exI [of _ "replicate 16 None"] exI [of _ "\<lambda>_. {}"]) simp

lemma insert_same_ok:
  assumes pre: "insert_pre trie u i partial e (TLeaf e w) F room"
  shows "\<exists>u'. insert_step trie u i partial (MemtrieAndDisk v) = Some (Inr (Insert_Break u')) \<and> insert_post trie u i (TLeaf e (new_handle u v)) F v ([], u')"
proof -
  have at: "at_node (tu_nodes u) i (with_size (Leaf (hex_prefix e True) w) (mem (TLeaf e w)))" and F: "F = {i}" and e: "nibbles_ok e"
    and sl: "slice_ok partial" "nibbles partial = e" using pre by (auto simp: insert_pre_def elim: repr_UpdatedE)
  have i: "i < length (tu_nodes u)" using at by (simp add: at_node_def)
  obtain s where s: "ns_from_encoded (hex_prefix e True) = Some (s, True)" "slice_ok s" "nibbles s = e" using from_encoded_hex [OF e] by blast
  obtain u1 where u1: "delete_value (u\<lparr>tu_nodes := (tu_nodes u)[i := None]\<rparr>) w = Inr u1" "tu_nodes u1 = (tu_nodes u)[i := None]" "tu_values u1 = tu_values u"
    by (rule delete_value_ok [of "u\<lparr>tu_nodes := (tu_nodes u)[i := None]\<rparr>" w]) simp
  let ?n = "with_size (Leaf (hex_prefix e True) (new_handle u v)) (mem (TLeaf e (new_handle u v)))"
  let ?u' = "u1\<lparr>tu_nodes := (tu_nodes u)[i := Some ?n], tu_values := tu_values u @ [Some v]\<rparr>"
  have "insert_step trie u i partial (MemtrieAndDisk v) = Some (Inr (Insert_Break ?u'))"
    using i lcp_append [of "[]" "[]" e]
    by (simp add: insert_step_def take_node_ok [OF at] insert_leaf_def s sl ns_common_prefix_eq ns_len_eq u1 place_node_at_ok Let_def)
  moreover have "repr trie (tu_nodes ?u') (Updated i) (TLeaf e (new_handle u v)) {i}" by (rule repr_leaf) (use i e in simp_all)
  ultimately show ?thesis using i by (auto simp: insert_post_def F evolves_def dest: spine_end)
qed

lemma insert_fork_ok:
  assumes pre: "insert_pre trie u i partial k (TLeaf e w) F room" and ap: "apart k e" "k \<noteq> [] \<or> e \<noteq> []"
  obtains u' F' where "insert_step trie u i partial (MemtrieAndDisk v) = Some (Inr (Insert_Restart u'))"
    "insert_pre trie u' i partial k (leaf_to_branch e w) F' room" "tu_values u' = tu_values u" "evolves F (tu_nodes u) F' (tu_nodes u')"
proof -
  have at: "at_node (tu_nodes u) i (with_size (Leaf (hex_prefix e True) w) (mem (TLeaf e w)))" and F: "F = {i}" and e: "nibbles_ok e"
    and sl: "slice_ok partial" "nibbles partial = k" and fit: "mem (TLeaf e w) + 50 + room < 2 ^ 64"
    using pre by (auto simp: insert_pre_def elim: repr_UpdatedE)
  have i: "i < length (tu_nodes u)" using at by (simp add: at_node_def)
  obtain s where s: "ns_from_encoded (hex_prefix e True) = Some (s, True)" "slice_ok s" "nibbles s = e" using from_encoded_hex [OF e] by blast
  let ?u0 = "u\<lparr>tu_nodes := (tu_nodes u)[i := None]\<rparr>"
  have step: "insert_step trie u i partial (MemtrieAndDisk v) = leaf_into_branch ?u0 i s w"
    using apart_lcp [OF ap(1)] ap(2)
    by (auto simp: insert_step_def take_node_ok [OF at] insert_leaf_def s sl ns_common_prefix_eq ns_len_eq Let_def)
  show thesis
  proof (cases e)
    case Nil
    let ?u' = "u\<lparr>tu_nodes := (tu_nodes u)[i := Some (with_size (Branch (replicate 16 None) (Some w)) (50 + (value_len w + 50)))]\<rparr>"
    have "leaf_into_branch ?u0 i s w = Some (Inr (Insert_Restart ?u'))"
      using i fit by (simp add: leaf_into_branch_def is_empty_eq [OF s(2)] s(3) Nil num_children_def Let_def checked_add_def place_node_at_ok)
    moreover have "insert_pre trie ?u' i partial k (leaf_to_branch e w) {i} room"
      using repr_value_only [of "tu_nodes ?u'" i w trie] i sl fit by (simp add: insert_pre_def leaf_to_branch_def Nil)
    ultimately show thesis using that [of ?u' "{i}"] step i by (simp add: F evolves_def)
  next
    case (Cons m e')
    let ?L = "length (tu_nodes u)" and ?leaf = "with_size (Leaf (hex_prefix e' True) w) (mem (TLeaf e' w))"
    let ?br = "with_size (Branch ((replicate 16 None)[m := Some (Updated ?L)]) None) (50 + mem (TLeaf e' w))"
    let ?u' = "u\<lparr>tu_nodes := (tu_nodes u @ [Some ?leaf])[i := Some ?br]\<rparr>"
    have m: "m < 16" "nibbles_ok e'" using e Cons by simp_all
    have le: "mem (TLeaf e' w) \<le> mem (TLeaf e w)" by (simp add: Cons key_cost_def)
    have ap0: "(tu_nodes u)[i := None] @ [Some ?leaf] = (tu_nodes u @ [Some ?leaf])[i := None]" using i by (simp add: list_update_append)
    have "leaf_into_branch ?u0 i s w = Some (Inr (Insert_Restart ?u'))"
      using i fit le slice_mid [OF s(2), of 1] ns_at_eq [OF s(2), of 0] m
      by (simp add: leaf_into_branch_def is_empty_eq [OF s(2)] s(3) Cons num_children_def Let_def checked_add_def place_node_at_ok
          ns_encoded_eq place_node_def ap0 del: t_mem.simps)
    moreover have "repr trie (tu_nodes ?u') (Updated i) (TBranch (no_children[m := TLeaf e' w]) None) (insert i {?L})"
      by (rule repr_single [OF _ repr_leaf]) (use i m in \<open>auto simp: at_node_def nth_append\<close>)
    then have "insert_pre trie ?u' i partial k (leaf_to_branch e w) {i, ?L} room"
      using sl fit leaf_to_branch_mem [OF e, of value_len w] by (simp add: insert_pre_def leaf_to_branch_def Cons)
    ultimately show thesis using that [of ?u' "{i, ?L}"] step i by (simp add: F evolves_def nth_append)
  qed
qed

lemma post_lift_ext:
  assumes at: "at_node (tu_nodes u') i (with_size (Extension (hex_prefix e False) (Updated c)) (50 + key_cost e))" and e: "nibbles_ok e" "e \<noteq> []"
    and i: "i \<notin> F'" and ev: "evolves F (tu_nodes u) (insert i F') (tu_nodes u')" and v: "tu_values u' = tu_values u"
    and post: "insert_post trie u' c t' F' v (path, u'')"
  shows "insert_post trie u i (TExt e t') F v (c # path, u'')"
proof -
  obtain F4 l where F4: "spine trie (tu_nodes u'') l (c # path) t' F4" "evolves F' (tu_nodes u') F4 (tu_nodes u'')" "tu_values u'' = tu_values u @ [Some v]" "l \<noteq> TEmpty"
    using post v by (auto simp: insert_post_def)
  from spine_lift_ext [OF at e F4(1,2) i] show ?thesis using F4(3,4) evolves_trans [OF ev] by (auto simp: insert_post_def)
qed

lemma key_cost_append: "key_cost e \<le> key_cost (p @ e)" "key_cost p \<le> key_cost (p @ e)"
  by (auto simp: key_cost_def intro: div_le_mono)

lemma insert_split_ok:
  assumes pre: "insert_pre trie u i partial (p @ k) (TLeaf (p @ e) w) F room" and ap: "apart k e" "k \<noteq> [] \<or> e \<noteq> []" and p: "p \<noteq> []"
  obtains c u' F' where "insert_step trie u i partial (MemtrieAndDisk v) = Some (Inr (Insert_Descend c (ns_mid partial (length p)) u'))"
    "insert_pre trie u' c (ns_mid partial (length p)) k (TLeaf e w) F' room" "tu_values u' = tu_values u"
    "\<And>t' path u''. insert_post trie u' c t' F' v (path, u'') \<Longrightarrow> insert_post trie u i (TExt p t') F v (c # path, u'')"
proof -
  have at: "at_node (tu_nodes u) i (with_size (Leaf (hex_prefix (p @ e) True) w) (mem (TLeaf (p @ e) w)))" and F: "F = {i}" and e: "nibbles_ok p" "nibbles_ok e"
    and sl: "slice_ok partial" "nibbles partial = p @ k" and fit: "mem (TLeaf (p @ e) w) + 50 + room < 2 ^ 64"
    using pre by (auto simp: insert_pre_def elim: repr_UpdatedE)
  have i: "i < length (tu_nodes u)" using at by (simp add: at_node_def)
  obtain s where s: "ns_from_encoded (hex_prefix (p @ e) True) = Some (s, True)" "slice_ok s" "nibbles s = p @ e"
    using from_encoded_hex [of "p @ e" True] e by auto
  let ?L = "length (tu_nodes u)" and ?leaf = "with_size (Leaf (hex_prefix e True) w) (mem (TLeaf e w))"
  let ?ext = "with_size (Extension (hex_prefix p False) (Updated ?L)) (50 + key_cost p)"
  let ?u' = "u\<lparr>tu_nodes := (tu_nodes u @ [Some ?leaf])[i := Some ?ext]\<rparr>"
  have ap0: "(tu_nodes u)[i := None] @ [Some ?leaf] = (tu_nodes u @ [Some ?leaf])[i := None]" using i by (simp add: list_update_append)
  have lp: "lcp (p @ k) (p @ e) = length p" by (rule lcp_append [OF ap(1)])
  have "insert_step trie u i partial (MemtrieAndDisk v) = Some (Inr (Insert_Descend ?L (ns_mid partial (length p)) ?u'))"
    using i ap(2) p slice_mid [OF s(2), of "length p"]
    by (auto simp: insert_step_def take_node_ok [OF at] insert_leaf_def s sl ns_common_prefix_eq ns_len_eq lp ns_encoded_eq ns_encoded_leftmost_eq
        place_node_def ap0 place_node_at_ok Let_def simp del: t_mem.simps)
  moreover have "repr trie (tu_nodes ?u') (Updated ?L) (TLeaf e w) {?L}"
    by (rule repr_leaf) (use i e in \<open>auto simp: at_node_def nth_append\<close>)
  then have "insert_pre trie ?u' ?L (ns_mid partial (length p)) k (TLeaf e w) {?L} room"
    using slice_mid [OF sl(1), of "length p"] sl(2) fit key_cost_append(1) [of e p] by (simp add: insert_pre_def)
  moreover have "insert_post trie u i (TExt p t') F v (?L # path, u'')" if "insert_post trie ?u' ?L t' {?L} v (path, u'')" for t' path u''
    by (rule post_lift_ext [OF _ e(1) p _ _ _ that]) (use i in \<open>auto simp: F evolves_def nth_append at_node_def\<close>)
  ultimately show thesis using that by simp
qed

lemma insert_ext_parts:
  assumes "insert_pre trie u i partial k (TExt e t) F room"
  obtains q F0 where "at_node (tu_nodes u) i (with_size (Extension (hex_prefix e False) q) (mem (TExt e t)))" "F = insert i F0"
    "nibbles_ok e" "e \<noteq> []" "repr trie (tu_nodes u) q t F0" "t \<noteq> TEmpty" "i \<notin> F0" "slice_ok partial" "nibbles partial = k"
    "mem (TExt e t) + 50 + room < 2 ^ 64" "i < length (tu_nodes u)"
  using assms by (auto simp: insert_pre_def at_node_def elim: repr_UpdatedE)

lemma insert_whole_ok:
  assumes pre: "insert_pre trie u i partial (e @ k) (TExt e t) F room"
  obtains c u' F' where "insert_step trie u i partial (MemtrieAndDisk v) = Some (Inr (Insert_Descend c (ns_mid partial (length e)) u'))"
    "insert_pre trie u' c (ns_mid partial (length e)) k t F' room" "tu_values u' = tu_values u"
    "\<And>t' path u''. insert_post trie u' c t' F' v (path, u'') \<Longrightarrow> insert_post trie u i (TExt e t') F v (c # path, u'')"
proof -
  obtain q F0 where at: "at_node (tu_nodes u) i (with_size (Extension (hex_prefix e False) q) (mem (TExt e t)))" and F: "F = insert i F0"
    and e: "nibbles_ok e" "e \<noteq> []" and q: "repr trie (tu_nodes u) q t F0" "t \<noteq> TEmpty" "i \<notin> F0" and sl: "slice_ok partial" "nibbles partial = e @ k"
    and fit: "mem (TExt e t) + 50 + room < 2 ^ 64" and i: "i < length (tu_nodes u)"
    using insert_ext_parts [OF pre] by metis
  obtain s where s: "ns_from_encoded (hex_prefix e False) = Some (s, False)" "slice_ok s" "nibbles s = e" using from_encoded_hex [OF e(1)] by blast
  let ?u0 = "u\<lparr>tu_nodes := (tu_nodes u)[i := None]\<rparr>"
  obtain c u2 F' where c: "ensure_updated trie ?u0 q = Inr (c, u2)" "appends ?u0 u2" "repr trie (tu_nodes u2) (Updated c) t F'"
    "F' \<subseteq> F0 \<union> {length (tu_nodes u)..}" by (rule ensure_updated_ok [OF repr_taken [OF q(1,3)]]) auto
  let ?ext = "with_size (Extension (hex_prefix e False) (Updated c)) (50 + key_cost e)"
  let ?u' = "u2\<lparr>tu_nodes := (tu_nodes u2)[i := Some ?ext]\<rparr>"
  have i2: "i < length (tu_nodes u2)" "i \<notin> F'" "tu_values u2 = tu_values u" using c(2,4) i q(3) by (auto simp: appends_def)
  have lp: "lcp (e @ k) e = length e" using lcp_append [of k "[]" e] by simp
  have "insert_step trie u i partial (MemtrieAndDisk v) = Some (Inr (Insert_Descend c (ns_mid partial (length e)) ?u'))"
    using i2 e(2) c(1)
    by (auto simp: insert_step_def take_node_ok [OF at] insert_extension_def s sl ns_common_prefix_eq ns_len_eq lp place_node_at_ok Let_def
        simp del: t_mem.simps)
  moreover have "insert_pre trie ?u' c (ns_mid partial (length e)) k t F' room"
    using repr_placed [OF c(3) i2(2)] slice_mid [OF sl(1), of "length e"] sl(2) fit by (auto simp: insert_pre_def)
  moreover have "insert_post trie u i (TExt e t') F v (c # path, u'')" if "insert_post trie ?u' c t' F' v (path, u'')" for t' path u''
    by (rule post_lift_ext [OF _ e i2(2) _ _ that]) (use i2 evolves_placed [OF c(2,4)] in \<open>auto simp: F\<close>)
  ultimately show thesis using that i2(3) by simp
qed

lemma insert_split_ext_ok:
  assumes pre: "insert_pre trie u i partial (p @ k) (TExt (p @ e) t) F room" and ap: "apart k e" and e: "e \<noteq> []" and p: "p \<noteq> []"
  obtains c u' F' where "insert_step trie u i partial (MemtrieAndDisk v) = Some (Inr (Insert_Descend c (ns_mid partial (length p)) u'))"
    "insert_pre trie u' c (ns_mid partial (length p)) k (TExt e t) F' room" "tu_values u' = tu_values u"
    "\<And>t' path u''. insert_post trie u' c t' F' v (path, u'') \<Longrightarrow> insert_post trie u i (TExt p t') F v (c # path, u'')"
proof -
  obtain q F0 where at: "at_node (tu_nodes u) i (with_size (Extension (hex_prefix (p @ e) False) q) (mem (TExt (p @ e) t)))" and F: "F = insert i F0"
    and ok: "nibbles_ok p" "nibbles_ok e" and q: "repr trie (tu_nodes u) q t F0" "t \<noteq> TEmpty" "i \<notin> F0" and sl: "slice_ok partial" "nibbles partial = p @ k"
    and fit: "mem (TExt (p @ e) t) + 50 + room < 2 ^ 64" and i: "i < length (tu_nodes u)"
    using insert_ext_parts [OF pre] nibbles_ok_simps(3) by metis
  obtain s where s: "ns_from_encoded (hex_prefix (p @ e) False) = Some (s, False)" "slice_ok s" "nibbles s = p @ e"
    using from_encoded_hex [of "p @ e" False] ok by auto
  let ?L = "length (tu_nodes u)" and ?inner = "with_size (Extension (hex_prefix e False) q) (mem (TExt e t))"
  let ?ext = "with_size (Extension (hex_prefix p False) (Updated ?L)) (50 + key_cost p)"
  let ?u' = "u\<lparr>tu_nodes := (tu_nodes u @ [Some ?inner])[i := Some ?ext]\<rparr>"
  have ap0: "(tu_nodes u)[i := None] @ [Some ?inner] = (tu_nodes u @ [Some ?inner])[i := None]" using i by (simp add: list_update_append)
  have le: "mem (TExt e t) \<le> mem (TExt (p @ e) t)" using key_cost_append(1) [of e p] by simp
  have add: "checked_add u64_w (saturating_sub (mem (TExt (p @ e) t)) (node_usage (Extension (hex_prefix (p @ e) False) q))) (node_usage (Extension (hex_prefix e False) q)) = Some (mem (TExt e t))"
    using le fit by (simp add: checked_add_def saturating_sub_def)
  have "insert_step trie u i partial (MemtrieAndDisk v) = Some (Inr (Insert_Descend ?L (ns_mid partial (length p)) ?u'))"
    using i e p slice_mid [OF s(2), of "length p"] lcp_append [OF ap, of p] add
    by (auto simp: insert_step_def take_node_ok [OF at] insert_extension_def s sl ns_common_prefix_eq ns_len_eq ns_encoded_eq ns_encoded_leftmost_eq
        place_node_def ap0 place_node_at_ok Let_def simp del: t_mem.simps)
  moreover have "repr trie (tu_nodes u @ [Some ?inner]) q t F0"
    by (rule repr_append [OF q(1)])
  then have q': "repr trie (tu_nodes ?u') q t F0" using repr_placed [OF _ q(3)] by simp
  have L: "?L \<notin> F0" using repr_bound [OF q(1)] by blast
  have "repr trie (tu_nodes ?u') (Updated ?L) (TExt e t) (insert ?L F0)"
    by (rule repr_ext [OF _ ok(2) e q' q(2) L]) (use i in \<open>auto simp: at_node_def nth_append\<close>)
  then have "insert_pre trie ?u' ?L (ns_mid partial (length p)) k (TExt e t) (insert ?L F0) room"
    using slice_mid [OF sl(1), of "length p"] sl(2) fit le by (simp add: insert_pre_def)
  moreover have "insert_post trie u i (TExt p t') F v (?L # path, u'')" if "insert_post trie ?u' ?L t' (insert ?L F0) v (path, u'')" for t' path u''
    by (rule post_lift_ext [OF _ ok(1) p _ _ _ that]) (use i q(3) in \<open>auto simp: F evolves_def nth_append at_node_def\<close>)
  ultimately show thesis using that by simp
qed

lemma insert_fork_ext_ok:
  assumes pre: "insert_pre trie u i partial k (TExt e t) F room" and ap: "apart k e"
  obtains u' F' where "insert_step trie u i partial (MemtrieAndDisk v) = Some (Inr (Insert_Restart u'))"
    "insert_pre trie u' i partial k (ext_to_branch e t) F' room" "tu_values u' = tu_values u" "evolves F (tu_nodes u) F' (tu_nodes u')"
proof -
  obtain q F0 where at: "at_node (tu_nodes u) i (with_size (Extension (hex_prefix e False) q) (mem (TExt e t)))" and F: "F = insert i F0"
    and e: "nibbles_ok e" "e \<noteq> []" and q: "repr trie (tu_nodes u) q t F0" "t \<noteq> TEmpty" "i \<notin> F0" and sl: "slice_ok partial" "nibbles partial = k"
    and fit: "mem (TExt e t) + 50 + room < 2 ^ 64" and i: "i < length (tu_nodes u)"
    using insert_ext_parts [OF pre] by metis
  obtain m e' where m: "e = m # e'" "m < 16" using e by (cases e) auto
  obtain s where s: "ns_from_encoded (hex_prefix e False) = Some (s, False)" "slice_ok s" "nibbles s = e" using from_encoded_hex [OF e(1)] by blast
  let ?u0 = "u\<lparr>tu_nodes := (tu_nodes u)[i := None]\<rparr>"
  have step: "insert_step trie u i partial (MemtrieAndDisk v) = extension_into_branch ?u0 i (mem t) s q"
    using apart_lcp [OF ap]
    by (auto simp: insert_step_def take_node_ok [OF at] insert_extension_def s sl ns_common_prefix_eq ns_len_eq Let_def saturating_sub_def)
  have at0: "ns_at s 0 = Some m" "ns_len s = Some (length e)" using ns_at_eq [OF s(2), of 0] s(3) m ns_len_eq [OF s(2)] by simp_all
  show thesis
  proof (cases "e' = []")
    case True
    let ?br = "with_size (Branch ((replicate 16 None)[m := Some q]) None) (50 + mem t)"
    let ?u' = "u\<lparr>tu_nodes := (tu_nodes u)[i := Some ?br]\<rparr>"
    have "extension_into_branch ?u0 i (mem t) s q = Some (Inr (Insert_Restart ?u'))"
      using i fit m True by (simp add: extension_into_branch_def at0 num_children_def Let_def checked_add_def place_node_at_ok)
    moreover have "repr trie (tu_nodes ?u') (Updated i) (TBranch (no_children[m := t]) None) (insert i F0)"
      by (rule repr_single [OF _ _ q(2,3) m(2)]) (use i repr_placed [OF q(1,3)] in \<open>simp_all add: at_node_def\<close>)
    then have "insert_pre trie ?u' i partial k (ext_to_branch e t) F room"
      using sl fit ext_to_branch_mem [OF e, of value_len t] by (simp add: insert_pre_def ext_to_branch_def m True F)
    ultimately show thesis using that [of ?u' F] step i by (auto simp: F evolves_def)
  next
    case False
    let ?L = "length (tu_nodes u)" and ?inner = "with_size (Extension (hex_prefix e' False) q) (mem (TExt e' t))"
    let ?br = "with_size (Branch ((replicate 16 None)[m := Some (Updated ?L)]) None) (50 + mem (TExt e' t))"
    let ?u' = "u\<lparr>tu_nodes := (tu_nodes u @ [Some ?inner])[i := Some ?br]\<rparr>"
    have ok: "nibbles_ok e'" using e m by simp
    have le: "mem (TExt e' t) \<le> mem (TExt e t)" by (simp add: m key_cost_def)
    have ap0: "(tu_nodes u)[i := None] @ [Some ?inner] = (tu_nodes u @ [Some ?inner])[i := None]" using i by (simp add: list_update_append)
    have add: "checked_add u64_w (mem t) (node_usage (Extension (hex_prefix e' False) q)) = Some (mem (TExt e' t))"
      using le fit by (simp add: checked_add_def)
    have add2: "checked_add u64_w 50 (mem (TExt e' t)) = Some (50 + mem (TExt e' t))" using le fit by (simp add: checked_add_def)
    have "extension_into_branch ?u0 i (mem t) s q = Some (Inr (Insert_Restart ?u'))"
      using i m False slice_mid [OF s(2), of 1] s(3) add add2
      by (auto simp: extension_into_branch_def at0 num_children_def Let_def place_node_at_ok ns_encoded_eq
          place_node_def ap0 simp del: t_mem.simps node_usage_simps(2))
    moreover have "repr trie (tu_nodes u @ [Some ?inner]) q t F0"
      by (rule repr_append [OF q(1)])
    then have q': "repr trie (tu_nodes ?u') q t F0" using repr_placed [OF _ q(3)] by simp
    have L: "?L \<notin> F0" using repr_bound [OF q(1)] by blast
    have "repr trie (tu_nodes ?u') (Updated ?L) (TExt e' t) (insert ?L F0)"
      by (rule repr_ext [OF _ ok False q' q(2) L]) (use i in \<open>auto simp: at_node_def nth_append\<close>)
    then have "repr trie (tu_nodes ?u') (Updated i) (TBranch (no_children[m := TExt e' t]) None) (insert i (insert ?L F0))"
      by (rule repr_single [rotated]) (use i q(3) m(2) in \<open>auto simp: at_node_def nth_append\<close>)
    then have "insert_pre trie ?u' i partial k (ext_to_branch e t) (insert i (insert ?L F0)) room"
      using sl fit ext_to_branch_mem [OF e, of value_len t] False by (simp add: insert_pre_def ext_to_branch_def m)
    ultimately show thesis using that [of ?u' "insert i (insert ?L F0)"] step i by (auto simp: F evolves_def nth_append)
  qed
qed

lemma post_restart:
  assumes "insert_post trie u' i t' F' v r" and "tu_values u' = tu_values u" and "evolves F (tu_nodes u) F' (tu_nodes u')"
  shows "insert_post trie u i t' F v r"
  using assms evolves_trans [OF assms(3)] by (auto simp: insert_post_def)

text \<open>What the rest of the loop achieves from the next node, the loop achieves from this one.\<close>

definition loop_ok :: "disk_trie \<Rightarrow> trie_storage_update \<Rightarrow> nat \<Rightarrow> nibble_slice \<Rightarrow> byte list \<Rightarrow> nat list \<Rightarrow> value_handle trie \<Rightarrow> nat set \<Rightarrow> bool" where
  "loop_ok trie u i partial v path t' F \<longleftrightarrow>
     (\<exists>p u'. insert_loop trie u i partial (MemtrieAndDisk v) path = Some (Inr (path @ i # p, u')) \<and> insert_post trie u i t' F v (p, u'))"

lemma loop_break:
  "insert_step trie u i partial (MemtrieAndDisk v) = Some (Inr (Insert_Break u')) \<and> insert_post trie u i t' F v ([], u') \<Longrightarrow> loop_ok trie u i partial v path t' F"
  by (auto simp: loop_ok_def insert_loop.simps [of trie u])

lemma loop_descend:
  assumes "insert_step trie u i partial (MemtrieAndDisk v) = Some (Inr (Insert_Descend c partial' u'))"
    and "\<And>t' path u''. insert_post trie u' c t' F' v (path, u'') \<Longrightarrow> insert_post trie u i (f t') F v (c # path, u'')"
    and "loop_ok trie u' c partial' v (path @ [i]) t' F'"
  shows "loop_ok trie u i partial v path (f t') F"
  using assms by (auto simp: loop_ok_def insert_loop.simps [of trie u])

lemma loop_restart:
  assumes "insert_step trie u i partial (MemtrieAndDisk v) = Some (Inr (Insert_Restart u'))"
    and "tu_values u' = tu_values u" and "evolves F (tu_nodes u) F' (tu_nodes u')" and "loop_ok trie u' i partial v path t' F'"
  shows "loop_ok trie u i partial v path t' F"
  using assms post_restart [OF _ assms(2,3)] by (auto simp: loop_ok_def insert_loop.simps [of trie u])

lemma insert_loop_ok:
  assumes "shape t" and "nibbles_ok k" and "insert_pre trie u i partial k t F room" and "length v + 100 \<le> room" and "length (tu_values u) = N"
  shows "loop_ok trie u i partial v path (t_insert k (InMemory N (length v)) t) F"
  using assms
proof (induction arbitrary: u i partial F path rule: t_insert_cases)
  case (Empty k)
  then show ?case using insert_empty_ok [OF Empty(2), of v] loop_break by auto
next
  case (Here ts w)
  then show ?case using insert_here_ok [OF Here(4,5)] loop_break by auto
next
  case (Child n k ts w)
  have n: "n < 16" "nibbles_ok k" using Child by simp_all
  obtain c u' F' where s: "insert_step trie u i partial (MemtrieAndDisk v) = Some (Inr (Insert_Descend c (ns_mid partial 1) u'))"
    "insert_pre trie u' c (ns_mid partial 1) k (ts ! n) F' room" "tu_values u' = tu_values u"
    "\<And>t' path u''. insert_post trie u' c t' F' v (path, u'') \<Longrightarrow> insert_post trie u i (TBranch (ts[n := t']) w) F v (c # path, u'')"
    using insert_child_ok [OF Child(5) n(1), of v] by metis
  have "loop_ok trie u i partial v path (TBranch (ts[n := t_insert k (InMemory N (length v)) (ts ! n)]) w) F"
  proof (rule loop_descend [OF s(1,4)])
    show "loop_ok trie u' c (ns_mid partial 1) v (path @ [i]) (t_insert k (InMemory N (length v)) (ts ! n)) F'"
      by (rule Child.IH [OF n s(2) Child.prems(3)]) (use s(3) Child.prems(4) in simp)
  qed
  then show ?case by simp
next
  case (Same e w)
  then show ?case using insert_same_ok [OF Same(3), of v] loop_break by (auto simp: t_insert_steps)
next
  case (Fork k e w)
  obtain u' F' where s: "insert_step trie u i partial (MemtrieAndDisk v) = Some (Inr (Insert_Restart u'))"
    "insert_pre trie u' i partial k (leaf_to_branch e w) F' room" "tu_values u' = tu_values u" "evolves F (tu_nodes u) F' (tu_nodes u')"
    using insert_fork_ok [OF Fork(6) Fork(2,3), of v] by metis
  have "loop_ok trie u i partial v path (t_insert k (InMemory N (length v)) (leaf_to_branch e w)) F"
    by (rule loop_restart [OF s(1,3,4) Fork.IH [OF Fork(5) s(2) Fork(7)]]) (use s(3) Fork.prems in simp_all)
  then show ?case using Fork by (simp add: t_insert_steps)
next
  case (Split p k e w)
  have k: "nibbles_ok k" using Split by simp
  obtain c u' F' where s: "insert_step trie u i partial (MemtrieAndDisk v) = Some (Inr (Insert_Descend c (ns_mid partial (length p)) u'))"
    "insert_pre trie u' c (ns_mid partial (length p)) k (TLeaf e w) F' room" "tu_values u' = tu_values u"
    "\<And>t' path u''. insert_post trie u' c t' F' v (path, u'') \<Longrightarrow> insert_post trie u i (TExt p t') F v (c # path, u'')"
    using insert_split_ok [OF Split(8) Split(3,4,5), of v] by metis
  have "loop_ok trie u i partial v path (TExt p (t_insert k (InMemory N (length v)) (TLeaf e w))) F"
    by (rule loop_descend [OF s(1,4) Split.IH [OF k s(2) Split(9)]]) (use s(3) Split.prems in simp_all)
  then show ?case using Split by (simp add: t_insert_steps)
next
  case (Fork_Ext k e t)
  obtain u' F' where s: "insert_step trie u i partial (MemtrieAndDisk v) = Some (Inr (Insert_Restart u'))"
    "insert_pre trie u' i partial k (ext_to_branch e t) F' room" "tu_values u' = tu_values u" "evolves F (tu_nodes u) F' (tu_nodes u')"
    using insert_fork_ext_ok [OF Fork_Ext(5) Fork_Ext(2), of v] by metis
  have "loop_ok trie u i partial v path (t_insert k (InMemory N (length v)) (ext_to_branch e t)) F"
    by (rule loop_restart [OF s(1,3,4) Fork_Ext.IH [OF Fork_Ext(4) s(2) Fork_Ext(6)]]) (use s(3) Fork_Ext.prems in simp_all)
  then show ?case using Fork_Ext by (simp add: t_insert_steps)
next
  case (Whole k e t)
  have k: "nibbles_ok k" using Whole by simp
  obtain c u' F' where s: "insert_step trie u i partial (MemtrieAndDisk v) = Some (Inr (Insert_Descend c (ns_mid partial (length e)) u'))"
    "insert_pre trie u' c (ns_mid partial (length e)) k t F' room" "tu_values u' = tu_values u"
    "\<And>t' path u''. insert_post trie u' c t' F' v (path, u'') \<Longrightarrow> insert_post trie u i (TExt e t') F v (c # path, u'')"
    using insert_whole_ok [OF Whole(4), of v] by metis
  have "loop_ok trie u i partial v path (TExt e (t_insert k (InMemory N (length v)) t)) F"
    by (rule loop_descend [OF s(1,4) Whole.IH [OF k s(2) Whole(5)]]) (use s(3) Whole.prems in simp_all)
  then show ?case using Whole by (simp add: t_insert_steps)
next
  case (Split_Ext p k e t)
  have k: "nibbles_ok k" "e \<noteq> []" using Split_Ext by simp_all
  obtain c u' F' where s: "insert_step trie u i partial (MemtrieAndDisk v) = Some (Inr (Insert_Descend c (ns_mid partial (length p)) u'))"
    "insert_pre trie u' c (ns_mid partial (length p)) k (TExt e t) F' room" "tu_values u' = tu_values u"
    "\<And>t' path u''. insert_post trie u' c t' F' v (path, u'') \<Longrightarrow> insert_post trie u i (TExt p t') F v (c # path, u'')"
    using insert_split_ext_ok [OF Split_Ext(7) Split_Ext(3) k(2) Split_Ext(4), of v] by metis
  have "loop_ok trie u i partial v path (TExt p (t_insert k (InMemory N (length v)) (TExt e t))) F"
    by (rule loop_descend [OF s(1,4) Split_Ext.IH [OF k(1) s(2) Split_Ext(8)]]) (use s(3) Split_Ext.prems in simp_all)
  then show ?case using Split_Ext k(2) by (simp add: t_insert_steps)
qed

text \<open>The memory usage along the path.\<close>

lemma spine_nonempty: "spine trie nodes l path t F \<Longrightarrow> l \<noteq> TEmpty \<Longrightarrow> t \<noteq> TEmpty"
  by (induction rule: spine.induct) auto

lemma usage_path:
  "fold_opt (insert_usage (i # p)) (rev [0..<Suc n]) u = Option.bind (fold_opt (insert_usage p) (rev [0..<n]) u) (insert_usage (i # p) 0)"
proof -
  have "rev [0..<Suc n] = map Suc (rev [0..<n]) @ [0]" by (simp add: map_Suc_upt upt_conv_Cons flip: rev_map del: upt_Suc)
  moreover have "fold_opt (insert_usage (i # p)) (map Suc js) u = fold_opt (insert_usage p) js u" for js u
  proof (induction js arbitrary: u)
    case (Cons j js)
    have "insert_usage (i # p) (Suc j) = insert_usage p j" by (rule ext) (simp add: insert_usage_def vec_get_def)
    with Cons show ?case by (simp add: Cons.IH [abs_def])
  qed simp
  moreover have "fold_opt f [] = Some" for f :: "nat \<Rightarrow> trie_storage_update \<Rightarrow> trie_storage_update option" by (rule ext) simp
  then have "fold_opt (insert_usage (i # p)) [0] = insert_usage (i # p) 0" by (intro ext) simp
  ultimately show ?thesis by (simp add: fold_opt_append del: upt_Suc fold_opt.simps)
qed

lemma insert_usage_ok:
  assumes "at_node (tu_nodes u) i n" and "repr trie (tu_nodes u) (Updated c) t F" and "i \<notin> F" and "un_memory_usage n + mem t < 2 ^ 64"
  shows "insert_usage (i # c # p) 0 u = Some (u\<lparr>tu_nodes := (tu_nodes u)[i := Some (n\<lparr>un_memory_usage := un_memory_usage n + mem t\<rparr>)]\<rparr>)"
proof -
  obtain nc where nc: "at_node (tu_nodes u) c nc" "un_memory_usage nc = mem t" using repr_mem [OF assms(2)] by blast
  have "i < length (tu_nodes u)" using assms(1) by (simp add: at_node_def)
  then show ?thesis using assms(4) by (simp add: insert_usage_def get_node_ref_ok [OF nc(1)] take_node_ok [OF assms(1)] nc(2) checked_add_def place_node_at_ok)
qed

lemma spine_usage:
  assumes "spine trie (tu_nodes u) l path t F" and "l \<noteq> TEmpty" and "mem t < 2 ^ 64"
  shows "\<exists>u'. fold_opt (insert_usage path) (rev [0..<length path - 1]) u = Some u' \<and> repr trie (tu_nodes u') (Updated (hd path)) t F \<and>
    evolves F (tu_nodes u) F (tu_nodes u') \<and> tu_values u' = tu_values u"
  using assms
proof (induction rule: spine.induct)
  case (spine_end i F)
  then show ?case by simp
next
  case (spine_ext i e j path t F)
  then obtain u1 where u1: "fold_opt (insert_usage (j # path)) (rev [0..<length path]) u = Some u1" "repr trie (tu_nodes u1) (Updated j) t F"
    "evolves F (tu_nodes u) F (tu_nodes u1)" "tu_values u1 = tu_values u" by auto
  have at: "at_node (tu_nodes u1) i (with_size (Extension (hex_prefix e False) (Updated j)) (50 + key_cost e))" using evolves_at [OF u1(3) spine_ext(1,5)] by simp
  then have i: "i < length (tu_nodes u1)" by (simp add: at_node_def)
  let ?u' = "u1\<lparr>tu_nodes := (tu_nodes u1)[i := Some (with_size (Extension (hex_prefix e False) (Updated j)) (mem (TExt e t)))]\<rparr>"
  have "insert_usage (i # j # path) 0 u1 = Some ?u'" using insert_usage_ok [OF at u1(2) spine_ext(5)] spine_ext.prems(2) by simp
  then have "fold_opt (insert_usage (i # j # path)) (rev [0..<length (i # j # path) - 1]) u = Some ?u'"
    using u1(1) usage_path [of i "j # path" "length path" u] by (simp del: upt_Suc)
  moreover have "repr trie (tu_nodes ?u') (Updated i) (TExt e t) (insert i F)"
    by (rule repr_ext [OF _ spine_ext(2,3) _ spine_nonempty [OF spine_ext(4) spine_ext.prems(1)] spine_ext(5)]) (use i repr_placed [OF u1(2) spine_ext(5)] in \<open>simp_all add: at_node_def\<close>)
  moreover have "evolves (insert i F) (tu_nodes u) (insert i F) (tu_nodes ?u')" using u1(3) by (auto simp: evolves_def)
  ultimately show ?case using u1(4) by auto
next
  case (spine_branch i cs w m ts n j path Fs)
  have le: "mem (ts ! n) \<le> mem (TBranch ts w)" using spine_branch(2) by simp
  then obtain u1 where u1: "fold_opt (insert_usage (j # path)) (rev [0..<length path]) u = Some u1" "repr trie (tu_nodes u1) (Updated j) (ts ! n) (Fs n)"
    "evolves (Fs n) (tu_nodes u) (Fs n) (tu_nodes u1)" "tu_values u1 = tu_values u" using spine_branch.IH spine_branch.prems by auto
  have iF: "i \<notin> Fs n" and len: "length cs = 16" "length ts = 16" using spine_branch(3,6) by (auto simp: kids_def)
  have at: "at_node (tu_nodes u1) i (with_size (Branch cs w) m)" using evolves_at [OF u1(3) spine_branch(1) iF] by simp
  then have i: "i < length (tu_nodes u1)" by (simp add: at_node_def)
  let ?u' = "u1\<lparr>tu_nodes := (tu_nodes u1)[i := Some (with_size (Branch cs w) (mem (TBranch ts w)))]\<rparr>"
  have "insert_usage (i # j # path) 0 u1 = Some ?u'" using insert_usage_ok [OF at u1(2) iF] spine_branch.prems(2) spine_branch(2) by (simp del: t_mem.simps)
  then have "fold_opt (insert_usage (i # j # path)) (rev [0..<length (i # j # path) - 1]) u = Some ?u'"
    using u1(1) usage_path [of i "j # path" "length path" u] by (simp del: upt_Suc)
  moreover have "kids trie (tu_nodes u1) i cs ts (Fs(n := Fs n)) (- {n})"
    by (rule kids_evolve [OF spine_branch(6,3) evolves_insert [OF u1(3)] iF]) (simp_all add: len)
  then have "kids trie (tu_nodes u1) i cs ts Fs UNIV"
    using kids_strengthen [where Fs = Fs and n = n and cs = cs, OF _ spine_branch(4) spine_nonempty [OF spine_branch(5) spine_branch.prems(1)] u1(2)] by simp
  from kids_placed [OF this] have "repr trie (tu_nodes ?u') (Updated i) (TBranch ts w) (branch_foot i Fs)"
    unfolding repr_branch_kids using i by (intro exI [of _ cs] exI [of _ Fs]) simp
  moreover have "evolves (branch_foot i Fs) (tu_nodes u) (branch_foot i Fs) (tu_nodes ?u')" using u1(3) spine_branch(3) by (auto simp: evolves_def)
  ultimately show ?case using u1(4) by auto
qed

lemma generic_insert_ok:
  assumes r: "repr trie (tu_nodes u) (Updated i) t F" and key: "\<forall>b \<in> set key. b < 256" and fit: "mem t + 400 + 4 * length key + length v < 2 ^ 64"
  shows "\<exists>u' F'. generic_insert trie u i key (MemtrieAndDisk v) = Some (Inr u') \<and>
    repr trie (tu_nodes u') (Updated i) (t_insert (unpack key) (new_handle u v) t) F' \<and> evolves F (tu_nodes u) F' (tu_nodes u') \<and>
    tu_values u' = tu_values u @ [Some v]"
proof -
  have sl: "slice_ok (ns_new key)" "nibbles (ns_new key) = unpack key" using key by (auto simp: slice_ok_def ns_new_def ns_new_offset_def nibbles_def)
  have k: "nibbles_ok (unpack key)" using slice_nibbles_ok [OF sl(1)] sl(2) by simp
  have "insert_pre trie u i (ns_new key) (unpack key) t F (length v + 100)" using r sl fit by (simp add: insert_pre_def)
  from insert_loop_ok [OF repr_shape [OF r] k this order_refl refl, of "[]"] obtain p u1 where
    u1: "insert_loop trie u i (ns_new key) (MemtrieAndDisk v) [] = Some (Inr (i # p, u1))" and post: "insert_post trie u i (t_insert (unpack key) (new_handle u v) t) F v (p, u1)"
    by (auto simp: loop_ok_def)
  obtain F' l where F': "spine trie (tu_nodes u1) l (i # p) (t_insert (unpack key) (new_handle u v) t) F'" "l \<noteq> TEmpty" "evolves F (tu_nodes u) F' (tu_nodes u1)"
    "tu_values u1 = tu_values u @ [Some v]" using post by (auto simp: insert_post_def)
  have "mem (t_insert (unpack key) (new_handle u v) t) < 2 ^ 64"
    using t_insert_mem [OF repr_shape [OF r] k, of value_len "new_handle u v"] fit by simp
  from spine_usage [OF F'(1,2) this] obtain u2 where "fold_opt (insert_usage (i # p)) (rev [0..<length (i # p) - 1]) u1 = Some u2"
    "repr trie (tu_nodes u2) (Updated i) (t_insert (unpack key) (new_handle u v) t) F'" "evolves F' (tu_nodes u1) F' (tu_nodes u2)" "tu_values u2 = tu_values u1" by auto
  then show ?thesis using evolves_trans [OF F'(3)] F'(4) by (auto simp: generic_insert_def u1 checked_sub_def)
qed

end
