(* ===== verification/Trie_Delete.thy ===== *)
theory Trie_Delete
  imports Trie_Refine
begin

text \<open>
  Deletion from the trie, proved against \<open>t_delete\<close>: the loop takes the value out, and on the way back
  up every node on the path gets its memory usage and is squashed when the key was there.
\<close>

section \<open>Extending a child\<close>

lemma extend_child_ok:
  assumes r: "repr trie (tu_nodes u) p t G" and i: "i < length (tu_nodes u)" "i \<notin> G" and e: "nibbles_ok e" "e \<noteq> []"
    and fit: "mem (TExt e t) < 2 ^ 64"
  shows "\<exists>u' F'. extend_child trie u i (hex_prefix e False) p = Some (Inr u') \<and> repr trie (tu_nodes u') (Updated i) (t_extend e t) F' \<and>
    evolves (insert i G) (tu_nodes u) F' (tu_nodes u') \<and> tu_values u' = tu_values u"
proof -
  obtain c u2 G' where c: "ensure_updated trie u p = Inr (c, u2)" "appends u u2" "repr trie (tu_nodes u2) (Updated c) t G'"
    "G' \<subseteq> G \<union> {length (tu_nodes u)..}" by (rule ensure_updated_ok [OF r])
  obtain s where s: "ns_from_encoded (hex_prefix e False) = Some (s, False)" "slice_ok s" "nibbles s = e" using from_encoded_hex [OF e(1)] by blast
  have i2: "i < length (tu_nodes u2)" "i \<notin> G'" "tu_values u2 = tu_values u" using c(2,4) i by (auto simp: appends_def)
  have ev: "evolves (insert i G) (tu_nodes u) F' ((tu_nodes u2)[c := x, i := y])" if "F' \<subseteq> insert i G'" for F' x y
    using that c(2,4) repr_in [OF c(3)] i by (auto simp: evolves_def appends_def nth_list_update)
  from c(3) show ?thesis
  proof (cases rule: repr.cases)
    case repr_empty
    have "un_node empty_node = Empty" by (simp add: empty_node_def)
    then have "extend_child trie u i (hex_prefix e False) p = Some (Inr (u2\<lparr>tu_nodes := (tu_nodes u2)[c := None, i := Some empty_node]\<rparr>))"
      using i2 by (simp add: extend_child_def c(1) take_node_ok [OF repr_empty(3)] place_node_at_ok Let_def)
    moreover have "repr trie ((tu_nodes u2)[c := None, i := Some empty_node]) (Updated i) TEmpty {i}" using i2 by (intro repr.repr_empty) simp
    ultimately show ?thesis using i2 ev [of "{i}"] repr_empty(1) by auto
  next
    case (repr_leaf f v)
    obtain s' where s': "ns_from_encoded (hex_prefix f True) = Some (s', True)" "slice_ok s'" "nibbles s' = f" using from_encoded_hex [OF repr_leaf(4)] by blast
    show ?thesis using repr_leaf i2 ev [of "{i}" None] e
      by (auto simp: extend_child_def c(1) take_node_ok [OF repr_leaf(3)] s s' ns_merge_encoded_eq place_node_at_ok Let_def
          simp del: t_mem.simps intro!: exI [of _ "{i}"] repr.repr_leaf)
  next
    case (repr_ext f q t' G'')
    obtain s' where s': "ns_from_encoded (hex_prefix f False) = Some (s', False)" "slice_ok s'" "nibbles s' = f" using from_encoded_hex [OF repr_ext(4)] by blast
    let ?n = "with_size (Extension (hex_prefix (e @ f) False) q) (mem (TExt (e @ f) t'))"
    let ?u' = "u2\<lparr>tu_nodes := (tu_nodes u2)[c := None, i := Some ?n]\<rparr>"
    have "mem (TExt (e @ f) t') < 2 ^ 64" using fit by (simp add: repr_ext key_cost_def)
    then have "extend_child trie u i (hex_prefix e False) p = Some (Inr ?u')" using i2 e
      by (simp add: extend_child_def c(1) take_node_ok [OF repr_ext(3)] s s' ns_merge_encoded_eq place_node_at_ok Let_def repr_ext saturating_sub_def checked_add_def add.assoc)
    moreover have "repr trie (tu_nodes ?u') (Updated i) (TExt (e @ f) t') (insert i G'')"
      using i2 repr_ext e repr_placed [OF repr_placed [OF repr_ext(6,8)]] by (intro repr.repr_ext) (auto simp del: t_mem.simps)
    moreover have "evolves (insert i G) (tu_nodes u) (insert i G'') (tu_nodes ?u')" using ev [of "insert i G''"] repr_ext by auto
    ultimately show ?thesis using i2 repr_ext by auto
  next
    case (repr_branch cs w ts Fs)
    let ?n = "with_size (Extension (hex_prefix e False) (Updated c)) (mem (TExt e t))"
    let ?nodes = "(tu_nodes u2)[c := Some (with_size (Branch cs w) (mem (TBranch ts w))), i := Some ?n]"
    let ?u' = "u2\<lparr>tu_nodes := ?nodes\<rparr>"
    have same: "(tu_nodes u2)[c := Some (with_size (Branch cs w) (mem (TBranch ts w)))] = tu_nodes u2"
      using repr_branch(3) by (simp add: at_node_def list_update_same_conv)
    have "c < length (tu_nodes u2)" using repr_branch(3) by (simp add: at_node_def)
    with same have "extend_child trie u i (hex_prefix e False) p = Some (Inr ?u')" using i2 e fit
      by (simp add: extend_child_def c(1) take_node_ok [OF repr_branch(3)] s place_node_at_ok Let_def repr_branch(1) checked_add_def add.commute del: t_mem.simps(4))
    moreover have "repr trie (tu_nodes u2) (Updated c) t G'" by (rule c(3))
    moreover have "?nodes = (tu_nodes u2)[i := Some ?n]" by (simp only: same)
    ultimately show ?thesis
      using i2 e repr_placed [OF c(3) i2(2)] ev [of "insert i G'" "Some (with_size (Branch cs w) (mem (TBranch ts w)))" "Some ?n"] repr_branch(1)
      by (intro exI [of _ ?u'] exI [of _ "insert i G'"]) (auto intro!: repr_ext simp del: t_mem.simps)
  qed
qed

section \<open>Squashing a branch\<close>

text \<open>The children of a branch some of which may have become empty.\<close>

definition loose_kids :: "disk_trie \<Rightarrow> node_vec \<Rightarrow> nat \<Rightarrow> node_ptr option list \<Rightarrow> value_handle trie list \<Rightarrow> (nat \<Rightarrow> nat set) \<Rightarrow> bool" where
  "loose_kids trie nodes i cs ts Fs \<longleftrightarrow> length cs = 16 \<and> length ts = 16 \<and>
     (\<forall>j<16. \<forall>k<16. j \<noteq> k \<longrightarrow> Fs j \<inter> Fs k = {}) \<and> (\<forall>j<16. i \<notin> Fs j) \<and>
     (\<forall>j<16. case cs ! j of None \<Rightarrow> ts ! j = TEmpty \<and> Fs j = {} | Some p \<Rightarrow> repr trie nodes p (ts ! j) (Fs j))"

lemma kids_loose: "kids trie nodes i cs ts Fs UNIV \<Longrightarrow> loose_kids trie nodes i cs ts Fs"
  by (fastforce simp: kids_def loose_kids_def split: option.splits)

lemma loose_kids_replaced:
  assumes "kids trie nodes i cs ts Fs (- {n})" and "cs ! n = Some p" and "repr trie nodes p (ts ! n) (Fs n)"
  shows "loose_kids trie nodes i cs ts Fs"
proof -
  have "case cs ! j of None \<Rightarrow> ts ! j = TEmpty \<and> Fs j = {} | Some p \<Rightarrow> repr trie nodes p (ts ! j) (Fs j)" if "j < 16" for j
    using assms that unfolding kids_def by (cases "j = n") (auto split: option.splits)
  then show ?thesis using assms(1) by (simp add: kids_def loose_kids_def)
qed

lemma loose_kids_placed: "loose_kids trie nodes i cs ts Fs \<Longrightarrow> loose_kids trie (nodes[i := x]) i cs ts Fs"
  using repr_placed [where i = i and x = x] unfolding loose_kids_def by (auto split: option.splits)

lemma those_map_nth:
  "length xs = length ys \<Longrightarrow> (\<And>j. j < length xs \<Longrightarrow> f (xs ! j) = Some (ys ! j)) \<Longrightarrow> those (map f xs) = Some ys"
proof (induction xs ys rule: list_induct2)
  case (Cons x xs y ys)
  have "f x = Some y" using Cons.prems [of 0] by simp
  moreover have "those (map f xs) = Some ys" by (rule Cons.IH) (use Cons.prems [of "Suc _"] in simp)
  ultimately show ?case by simp
qed simp

lemma find_child_eq:
  "find_child k cs = (case filter (\<lambda>j. cs ! j \<noteq> None) [0..<length cs] of [] \<Rightarrow> None | j # _ \<Rightarrow> Some (k + j, the (cs ! j)))"
proof (induction cs arbitrary: k)
  case (Cons c cs)
  have "[0..<length (c # cs)] = 0 # map Suc [0..<length cs]" by (simp add: map_Suc_upt upt_conv_Cons del: upt_Suc)
  then have "filter (\<lambda>j. (c # cs) ! j \<noteq> None) [0..<length (c # cs)] =
      (if c = None then map Suc (filter (\<lambda>j. cs ! j \<noteq> None) [0..<length cs]) else 0 # map Suc (filter (\<lambda>j. cs ! j \<noteq> None) [0..<length cs]))"
    by (simp add: filter_map o_def del: upt_Suc)
  then show ?case using Cons.IH [of "Suc k"] by (cases c) (simp_all split: list.splits del: upt_Suc)
qed simp

lemma filter_positions: "length (filter P xs) = length (filter (\<lambda>j. P (xs ! j)) [0..<length xs])"
proof -
  have "filter P xs = filter P (map (nth xs) [0..<length xs])" by (simp add: map_nth)
  then show ?thesis by (simp only: filter_map length_map o_def)
qed

lemma squash_child_ok: "repr trie (tu_nodes u) p t F \<Longrightarrow> squash_child u (Some p) = Some (if t = TEmpty then None else Some p)"
proof (induction rule: repr.induct)
  case (repr_empty i)
  then show ?case by (simp add: get_node_ref_ok empty_node_def)
qed (auto simp: get_node_ref_ok dest: stored_nonempty)

definition squashed :: "node_ptr option list \<Rightarrow> value_handle trie list \<Rightarrow> node_ptr option list" where
  "squashed cs ts = map (\<lambda>j. if ts ! j = TEmpty then None else cs ! j) [0..<16]"

lemma squash_children_ok:
  assumes lk: "loose_kids trie (tu_nodes u) i cs ts Fs"
  shows "those (map (squash_child u) cs) = Some (squashed cs ts)"
    and "kids trie (tu_nodes u) i (squashed cs ts) ts (\<lambda>j. if ts ! j = TEmpty then {} else Fs j) UNIV"
    and "filter (\<lambda>j. squashed cs ts ! j \<noteq> None) [0..<16] = present ts"
proof -
  have len: "length cs = 16" "length ts = 16" "length (squashed cs ts) = 16" using lk by (simp_all add: loose_kids_def squashed_def)
  have child: "case cs ! j of None \<Rightarrow> ts ! j = TEmpty \<and> Fs j = {} | Some p \<Rightarrow> repr trie (tu_nodes u) p (ts ! j) (Fs j)" if "j < 16" for j
    using lk that by (simp add: loose_kids_def)
  have sq: "squashed cs ts ! j = (if ts ! j = TEmpty then None else cs ! j)" if "j < 16" for j using that by (simp add: squashed_def)
  show "those (map (squash_child u) cs) = Some (squashed cs ts)"
  proof (rule those_map_nth)
    fix j assume "j < length cs"
    then show "squash_child u (cs ! j) = Some (squashed cs ts ! j)"
      using child [of j] sq [of j] squash_child_ok [of trie u _ "ts ! j" "Fs j"] len by (cases "cs ! j") simp_all
  qed (simp add: len)
  have some: "cs ! j \<noteq> None" if "j < 16" "ts ! j \<noteq> TEmpty" for j using child [OF that(1)] that(2) by (auto split: option.splits)
  then show "filter (\<lambda>j. squashed cs ts ! j \<noteq> None) [0..<16] = present ts"
    unfolding present_def len(2) by (intro filter_cong) (auto simp: sq)
  have "case squashed cs ts ! j of None \<Rightarrow> ts ! j = TEmpty \<and> (if ts ! j = TEmpty then {} else Fs j) = {}
      | Some p \<Rightarrow> ts ! j \<noteq> TEmpty \<and> repr trie (tu_nodes u) p (ts ! j) (if ts ! j = TEmpty then {} else Fs j)" if "j < 16" for j
    using child [OF that] some [OF that] by (auto simp: sq [OF that] split: option.splits)
  then show "kids trie (tu_nodes u) i (squashed cs ts) ts (\<lambda>j. if ts ! j = TEmpty then {} else Fs j) UNIV"
    using lk len by (auto simp: kids_def loose_kids_def)
qed

lemma evolves_mono: "evolves F a F' b \<Longrightarrow> F \<subseteq> G \<Longrightarrow> evolves G a F' b"
  by (auto simp: evolves_def)

lemma single_nibble_extension: "n < 16 \<Longrightarrow> ns_encoded_leftmost (ns_new [cast u8_w (push_bit 4 n)]) 1 False = Some (hex_prefix [n] False)"
proof -
  assume n: "n < 16"
  then have b: "cast u8_w (push_bit 4 n) = 16 * n" by (simp add: cast_def push_bit_eq_mult)
  then have s: "slice_ok (ns_new [cast u8_w (push_bit 4 n)])" "nibbles (ns_new [cast u8_w (push_bit 4 n)]) = [n, 0]"
    using n by (auto simp: slice_ok_def ns_new_def ns_new_offset_def nibbles_def)
  then show ?thesis by (simp add: ns_encoded_leftmost_eq)
qed

lemma empty_slice_encoded: "ns_encoded (ns_new []) b = Some (hex_prefix [] b)"
proof -
  have "slice_ok (ns_new [])" "nibbles (ns_new []) = []" by (simp_all add: slice_ok_def ns_new_def ns_new_offset_def nibbles_def)
  then show ?thesis using ns_encoded_eq [of "ns_new []" b] by simp
qed

lemma squash_branch_ok:
  assumes lk: "loose_kids trie (tu_nodes u) i cs ts Fs" and i: "i < length (tu_nodes u)" and fit: "mem (TBranch ts w) + 2 < 2 ^ 64"
  shows "\<exists>u' F'. squash_branch trie u i (mem (TBranch ts w)) cs w = Some (Inr u') \<and> repr trie (tu_nodes u') (Updated i) (t_squash (TBranch ts w)) F' \<and>
    evolves (branch_foot i Fs) (tu_nodes u) F' (tu_nodes u') \<and> tu_values u' = tu_values u"
proof -
  note sq = squash_children_ok [OF lk]
  let ?n = "length (present ts)"
  have len: "length (squashed cs ts) = 16" "length ts = 16" using lk by (simp_all add: squashed_def loose_kids_def)
  have n: "length (filter (\<lambda>c. c \<noteq> None) (squashed cs ts)) = ?n" using filter_positions [of "\<lambda>c. c \<noteq> None" "squashed cs ts"] sq(3) len(1) by simp
  note step = squash_branch_def [of trie u i _ cs, unfolded sq(1) bind.bind_lunit Let_def n]
  have ev: "evolves (branch_foot i Fs) (tu_nodes u) F' ((tu_nodes u)[i := x])" if "F' \<subseteq> branch_foot i Fs" for x F'
    using that by (auto simp: evolves_def)
  have keep: ?thesis if "?n \<noteq> 0" "\<not> (?n = 1 \<and> w = None)" "t_squash (TBranch ts w) = TBranch ts w"
  proof -
    let ?x = "with_size (Branch (squashed cs ts) w) (mem (TBranch ts w))"
    have "squash_branch trie u i (mem (TBranch ts w)) cs w = Some (Inr (u\<lparr>tu_nodes := (tu_nodes u)[i := Some ?x]\<rparr>))"
      unfolding step using that(1,2) i by (auto simp: place_node_at_ok simp del: t_mem.simps)
    moreover have "repr trie ((tu_nodes u)[i := Some ?x]) (Updated i) (TBranch ts w) (branch_foot i (\<lambda>j. if ts ! j = TEmpty then {} else Fs j))"
      unfolding repr_branch_kids by (intro exI, rule conjI [OF at_node_update [OF i]], rule conjI [OF kids_placed [OF sq(2)] refl])
    ultimately show ?thesis using ev [of "branch_foot i (\<lambda>j. if ts ! j = TEmpty then {} else Fs j)"] that(3) by (auto simp del: t_squash.simps)
  qed
  show ?thesis
  proof (cases "present ts" rule: remdups_adj.cases)
    case 1
    let ?node = "case w of None \<Rightarrow> empty_node | Some v \<Rightarrow> with_size (Leaf (hex_prefix [] True) v) (mem (TLeaf [] v))"
    have "squash_branch trie u i (mem (TBranch ts w)) cs w = Some (Inr (u\<lparr>tu_nodes := (tu_nodes u)[i := Some ?node]\<rparr>))"
      using 1 i by (simp add: step place_node_at_ok empty_slice_encoded del: t_mem.simps split: option.splits)
    moreover have "repr trie ((tu_nodes u)[i := Some ?node]) (Updated i) (t_squash (TBranch ts w)) {i}"
      using 1 i by (auto split: option.splits simp del: t_mem.simps intro!: repr_empty repr_leaf)
    ultimately show ?thesis using ev [of "{i}"] by auto
  next
    case (2 j)
    have j: "j < 16" "ts ! j \<noteq> TEmpty" using present_mem [of j ts] 2 len(2) by simp_all
    show ?thesis
    proof (cases "w = None")
      case True
      obtain p where p: "cs ! j = Some p" "repr trie (tu_nodes u) p (ts ! j) (Fs j)" "i \<notin> Fs j" using lk j by (auto simp: loose_kids_def split: option.splits)
      have "find_child 0 (squashed cs ts) = Some (j, p)" using sq(3) 2 j p(1) by (simp add: find_child_eq len(1)) (simp add: squashed_def)
      then have "squash_branch trie u i (mem (TBranch ts w)) cs w = extend_child trie u i (hex_prefix [j] False) p"
        using 2 True single_nibble_extension [OF j(1)] by (simp add: step del: t_mem.simps)
      moreover have "mem (TExt [j] (ts ! j)) < 2 ^ 64" using fit mem_child [of j ts value_len] j(1) len(2) by (simp add: key_cost_def)
      with extend_child_ok [OF p(2) i p(3), of "[j]"] j(1)
      obtain u' F' where "extend_child trie u i (hex_prefix [j] False) p = Some (Inr u')" "repr trie (tu_nodes u') (Updated i) (t_extend [j] (ts ! j)) F'"
        "evolves (insert i (Fs j)) (tu_nodes u) F' (tu_nodes u')" "tu_values u' = tu_values u" by auto
      ultimately show ?thesis using True 2 evolves_mono [of "insert i (Fs j)" _ F' _ "branch_foot i Fs"] j(1) by auto
    qed (rule keep, use 2 in auto)
  qed (rule keep, simp_all)
qed

section \<open>Squashing a node\<close>

text \<open>The node is taken out and what replaces it is put back.\<close>

definition squash_ok :: "disk_trie \<Rightarrow> trie_storage_update \<Rightarrow> nat \<Rightarrow> value_handle trie \<Rightarrow> nat set \<Rightarrow> bool" where
  "squash_ok trie u i t F \<longleftrightarrow> (\<exists>u' F'. squash_node trie u i = Some (Inr u') \<and> repr trie (tu_nodes u') (Updated i) t F' \<and>
     evolves F (tu_nodes u) F' (tu_nodes u') \<and> tu_values u' = tu_values u)"

lemma squash_node_branch:
  assumes at: "at_node (tu_nodes u) i (with_size (Branch cs w) (mem (TBranch ts w)))" and lk: "loose_kids trie (tu_nodes u) i cs ts Fs"
    and fit: "mem (TBranch ts w) + 2 < 2 ^ 64"
  shows "squash_ok trie u i (t_squash (TBranch ts w)) (branch_foot i Fs)"
proof -
  let ?u = "u\<lparr>tu_nodes := (tu_nodes u)[i := None]\<rparr>"
  have "loose_kids trie (tu_nodes ?u) i cs ts Fs" "i < length (tu_nodes ?u)" using loose_kids_placed [OF lk] at by (simp_all add: at_node_def)
  from squash_branch_ok [OF this fit] obtain u' F' where u': "squash_branch trie ?u i (mem (TBranch ts w)) cs w = Some (Inr u')"
    "repr trie (tu_nodes u') (Updated i) (t_squash (TBranch ts w)) F'" "evolves (branch_foot i Fs) (tu_nodes ?u) F' (tu_nodes u')" "tu_values u' = tu_values u"
    by auto
  have "evolves (branch_foot i Fs) (tu_nodes u) (branch_foot i Fs) (tu_nodes ?u)" by (auto simp: evolves_def)
  from evolves_trans [OF this u'(3)] show ?thesis unfolding squash_ok_def using u'
    by (auto simp: squash_node_def take_node_ok [OF at] simp del: t_mem.simps)
qed

lemma squash_node_ext:
  assumes at: "at_node (tu_nodes u) i (with_size (Extension (hex_prefix e False) p) m)" and r: "repr trie (tu_nodes u) p t G" "i \<notin> G"
    and e: "nibbles_ok e" "e \<noteq> []" and fit: "mem (TExt e t) < 2 ^ 64"
  shows "squash_ok trie u i (t_extend e t) (insert i G)"
proof -
  let ?u = "u\<lparr>tu_nodes := (tu_nodes u)[i := None]\<rparr>"
  have i: "i < length (tu_nodes ?u)" using at by (simp add: at_node_def)
  have "repr trie (tu_nodes ?u) p t G" using repr_taken [OF r] by simp
  from extend_child_ok [OF this i r(2) e fit] obtain u' F' where u': "extend_child trie ?u i (hex_prefix e False) p = Some (Inr u')"
    "repr trie (tu_nodes u') (Updated i) (t_extend e t) F'" "evolves (insert i G) (tu_nodes ?u) F' (tu_nodes u')" "tu_values u' = tu_values u"
    by auto
  have "evolves (insert i G) (tu_nodes u) (insert i G) (tu_nodes ?u)" by (auto simp: evolves_def)
  from evolves_trans [OF this u'(3)] show ?thesis unfolding squash_ok_def using u' by (auto simp: squash_node_def take_node_ok [OF at])
qed

section \<open>Going back up\<close>

text \<open>What has been achieved when a node of the path has been dealt with: the node carries the trie.\<close>

definition usage_ok :: "disk_trie \<Rightarrow> trie_storage_update \<Rightarrow> nat \<Rightarrow> value_handle trie \<Rightarrow> nat set \<Rightarrow> (nat \<times> trie_storage_update) outcome \<Rightarrow> bool" where
  "usage_ok trie u i t F r \<longleftrightarrow> (\<exists>u' F'. r = Some (Inr (mem t, u')) \<and> repr trie (tu_nodes u') (Updated i) t F' \<and>
     evolves F (tu_nodes u) F' (tu_nodes u') \<and> tu_values u' = tu_values u)"

lemma delete_usage_node:
  assumes at: "at_node (tu_nodes u) i (with_size n m)" and fit: "m + x < 2 ^ 64"
  defines "u1 \<equiv> u\<lparr>tu_nodes := (tu_nodes u)[i := Some (with_size n (m + x))]\<rparr>"
  shows "delete_usage trie d i (x, u) =
    rtry (if d then squash_node trie u1 i else Some (Inr u1)) (\<lambda>u. do { n \<leftarrow> get_node_ref u i; Some (Inr (un_memory_usage n, u)) })"
proof -
  have "i < length (tu_nodes u)" using at by (simp add: at_node_def)
  then show ?thesis using fit by (simp add: delete_usage_def take_node_ok [OF at] checked_add_def place_node_at_ok u1_def)
qed

lemma usage_squashed:
  assumes "squash_node trie u1 i = Some (Inr u')" and "repr trie (tu_nodes u') (Updated i) t F'"
  shows "rtry (squash_node trie u1 i) (\<lambda>u. do { n \<leftarrow> get_node_ref u i; Some (Inr (un_memory_usage n, u)) }) = Some (Inr (mem t, u'))"
  using repr_mem [OF assms(2)] by (auto simp: assms(1) get_node_ref_ok)

lemma delete_usage_squashed:
  assumes at: "at_node (tu_nodes u) i (with_size n m)" and fit: "m + x < 2 ^ 64" and F: "i \<in> F"
    and sq: "squash_ok trie (u\<lparr>tu_nodes := (tu_nodes u)[i := Some (with_size n (m + x))]\<rparr>) i t F"
  shows "usage_ok trie u i t F (delete_usage trie True i (x, u))"
proof -
  let ?u = "u\<lparr>tu_nodes := (tu_nodes u)[i := Some (with_size n (m + x))]\<rparr>"
  obtain u' F' where u': "squash_node trie ?u i = Some (Inr u')" "repr trie (tu_nodes u') (Updated i) t F'"
    "evolves F (tu_nodes ?u) F' (tu_nodes u')" "tu_values u' = tu_values ?u" using sq unfolding squash_ok_def by blast
  have "delete_usage trie True i (x, u) = Some (Inr (mem t, u'))" using delete_usage_node [OF at fit, of trie True] usage_squashed [OF u'(1,2)] by simp
  moreover have "evolves F (tu_nodes u) F (tu_nodes ?u)" using F by (auto simp: evolves_def intro!: nth_list_update_neq)
  from evolves_trans [OF this u'(3)] have "evolves F (tu_nodes u) F' (tu_nodes u')" .
  ultimately show ?thesis unfolding usage_ok_def using u'(2,4) by auto
qed

lemma delete_usage_branch:
  assumes at: "at_node (tu_nodes u) i (with_size (Branch cs w) m)" and lk: "loose_kids trie (tu_nodes u) i cs ts Fs"
    and m: "m + x = mem (TBranch ts w)" and fit: "mem (TBranch ts w) + 2 < 2 ^ 64"
  shows "usage_ok trie u i (t_squash (TBranch ts w)) (branch_foot i Fs) (delete_usage trie True i (x, u))"
proof (rule delete_usage_squashed [OF at])
  show "squash_ok trie (u\<lparr>tu_nodes := (tu_nodes u)[i := Some (with_size (Branch cs w) (m + x))]\<rparr>) i (t_squash (TBranch ts w)) (branch_foot i Fs)"
    using at loose_kids_placed [OF lk] fit by (intro squash_node_branch [where cs = cs]) (simp_all add: m at_node_def del: t_mem.simps)
qed (use m fit in auto)

lemma delete_usage_ext:
  assumes at: "at_node (tu_nodes u) i (with_size (Extension (hex_prefix e False) p) m)" and r: "repr trie (tu_nodes u) p t G" "i \<notin> G"
    and e: "nibbles_ok e" "e \<noteq> []" and m: "m + x = mem (TExt e t)" and fit: "mem (TExt e t) < 2 ^ 64"
  shows "usage_ok trie u i (t_squash (TExt e t)) (insert i G) (delete_usage trie True i (x, u))"
  unfolding t_squash.simps
proof (rule delete_usage_squashed [OF at])
  show "squash_ok trie (u\<lparr>tu_nodes := (tu_nodes u)[i := Some (with_size (Extension (hex_prefix e False) p) (m + x))]\<rparr>) i (t_extend e t) (insert i G)"
    using at repr_placed [OF r] r e fit by (intro squash_node_ext [where p = p]) (auto simp: at_node_def)
qed (use m fit in auto)

lemma delete_usage_empty:
  assumes at: "at_node (tu_nodes u) i empty_node"
  shows "usage_ok trie u i TEmpty {i} (delete_usage trie True i (0, u))"
proof -
  have i: "i < length (tu_nodes u)" using at by (simp add: at_node_def)
  let ?u = "u\<lparr>tu_nodes := (tu_nodes u)[i := Some empty_node]\<rparr>"
  have "take_node ?u i = Some (empty_node, u\<lparr>tu_nodes := (tu_nodes u)[i := None]\<rparr>)" using take_node_ok [of ?u i] i by simp
  moreover have "un_node empty_node = Empty" by (simp add: empty_node_def)
  ultimately have "squash_node trie ?u i = Some (Inr ?u)" using i by (simp add: squash_node_def place_node_at_ok)
  moreover have r: "repr trie (tu_nodes ?u) (Updated i) TEmpty {i}" using i by (intro repr_empty) simp
  ultimately have "delete_usage trie True i (0, u) = Some (Inr (mem TEmpty, ?u))"
    using delete_usage_node [of u i Empty 0 0 trie True] at usage_squashed [of trie ?u i ?u] by (simp add: empty_node_def)
  moreover have "evolves {i} (tu_nodes u) {i} (tu_nodes ?u)" by (auto simp: evolves_def)
  ultimately show ?thesis unfolding usage_ok_def using r by (intro exI [of _ ?u] exI [of _ "{i}"]) simp
qed

text \<open>When the key was not there, a node on the path gets back what its child uses.\<close>

lemma delete_usage_keep:
  assumes at: "at_node (tu_nodes u) i (with_size n m)" and m: "m + x = mem t" and fit: "mem t < 2 ^ 64"
    and r: "repr trie ((tu_nodes u)[i := Some (with_size n (mem t))]) (Updated i) t F"
  shows "usage_ok trie u i t F (delete_usage trie False i (x, u))"
proof -
  have i: "i < length (tu_nodes u)" using at by (simp add: at_node_def)
  let ?u = "u\<lparr>tu_nodes := (tu_nodes u)[i := Some (with_size n (mem t))]\<rparr>"
  have "delete_usage trie False i (x, u) = Some (Inr (mem t, ?u))"
    using delete_usage_node [OF at, of x trie False] m fit get_node_ref_ok [of ?u i "with_size n (mem t)"] i by simp
  moreover have "evolves F (tu_nodes u) F (tu_nodes ?u)" using repr_in [OF r] by (auto simp: evolves_def nth_list_update)
  ultimately show ?thesis unfolding usage_ok_def using r by (intro exI [of _ ?u] exI [of _ F]) simp
qed

section \<open>The loop\<close>

definition delete_pre :: "disk_trie \<Rightarrow> trie_storage_update \<Rightarrow> nat \<Rightarrow> nibble_slice \<Rightarrow> nat list \<Rightarrow> value_handle trie \<Rightarrow> nat set \<Rightarrow> bool" where
  "delete_pre trie u i partial k t F \<longleftrightarrow> repr trie (tu_nodes u) (Updated i) t F \<and> slice_ok partial \<and> nibbles partial = k \<and>
     mem t + 4 + 2 * length k < 2 ^ 64"

definition delete_ok :: "disk_trie \<Rightarrow> trie_storage_update \<Rightarrow> nat \<Rightarrow> nibble_slice \<Rightarrow> nat list \<Rightarrow> value_handle trie \<Rightarrow> bool \<Rightarrow> nat set \<Rightarrow> bool" where
  "delete_ok trie u i partial path t' d F \<longleftrightarrow>
     (\<exists>p u'. delete_loop trie u i partial path = Some (Inr (d, path @ i # p, u')) \<and>
        usage_ok trie u i t' F (fold_try (delete_usage trie d) (rev (i # p)) (0, u')))"

lemma usage_ok_from:
  assumes "usage_ok trie u1 i t F1 r" and "evolves F (tu_nodes u) F1 (tu_nodes u1)" and "tu_values u1 = tu_values u"
  shows "usage_ok trie u i t F r"
  using assms evolves_trans [OF assms(2)] by (fastforce simp: usage_ok_def)

lemma delete_break:
  assumes "delete_step trie u i partial = Some (Inr (Delete_Break d u'))" and "usage_ok trie u' i t' F' (delete_usage trie d i (0, u'))"
    and "evolves F (tu_nodes u) F' (tu_nodes u')" and "tu_values u' = tu_values u"
  shows "delete_ok trie u i partial path t' d F"
proof -
  have "delete_loop trie u i partial path = Some (Inr (d, path @ [i], u'))" using assms(1) by (simp add: delete_loop.simps)
  moreover have "fold_try (delete_usage trie d) (rev [i]) (0, u') = delete_usage trie d i (0, u')"
    by (cases "delete_usage trie d i (0, u')") (auto simp: rtry_def split: sum.splits)
  ultimately show ?thesis unfolding delete_ok_def using usage_ok_from [OF assms(2-4)] by (intro exI [of _ "[]"] exI [of _ u']) simp
qed

lemma delete_descend:
  assumes "delete_step trie u i partial = Some (Inr (Delete_Descend c partial' u1))" and "delete_ok trie u1 c partial' (path @ [i]) t' d F1"
    and "\<And>u' F'. repr trie (tu_nodes u') (Updated c) t' F' \<Longrightarrow> evolves F1 (tu_nodes u1) F' (tu_nodes u') \<Longrightarrow> tu_values u' = tu_values u1 \<Longrightarrow>
      usage_ok trie u i tt F (delete_usage trie d i (mem t', u'))"
  shows "delete_ok trie u i partial path tt d F"
proof -
  obtain p u' where p: "delete_loop trie u1 c partial' (path @ [i]) = Some (Inr (d, path @ i # c # p, u'))"
    "usage_ok trie u1 c t' F1 (fold_try (delete_usage trie d) (rev (c # p)) (0, u'))" using assms(2) by (auto simp: delete_ok_def)
  obtain u2 F2 where u2: "fold_try (delete_usage trie d) (rev (c # p)) (0, u') = Some (Inr (mem t', u2))" "repr trie (tu_nodes u2) (Updated c) t' F2"
    "evolves F1 (tu_nodes u1) F2 (tu_nodes u2)" "tu_values u2 = tu_values u1" using p(2) by (auto simp: usage_ok_def)
  have "delete_loop trie u i partial path = Some (Inr (d, path @ i # c # p, u'))" using assms(1) p(1) by (simp add: delete_loop.simps [of trie u])
  moreover have "fold_try (delete_usage trie d) (rev (i # c # p)) (0, u') = rtry (fold_try (delete_usage trie d) (rev (c # p)) (0, u')) (fold_try (delete_usage trie d) [i])"
    by (simp only: rev.simps(2) [of i] fold_try_append)
  then have "fold_try (delete_usage trie d) (rev (i # c # p)) (0, u') = delete_usage trie d i (mem t', u2)"
    unfolding u2(1) by (cases "delete_usage trie d i (mem t', u2)") (auto simp: rtry_def split: sum.splits)
  ultimately show ?thesis unfolding delete_ok_def using assms(3) [OF u2(2-4)] by (intro exI [of _ "c # p"] exI [of _ u']) simp
qed

lemma delete_keep:
  assumes "delete_step trie u i partial = Some (Inr (Delete_Break False u'))" and "tu_nodes u' = tu_nodes u" and "tu_values u' = tu_values u"
    and r: "repr trie (tu_nodes u) (Updated i) t F" and "mem t < 2 ^ 64"
  shows "delete_ok trie u i partial path t False F"
proof -
  obtain n where n: "at_node (tu_nodes u) i n" "un_memory_usage n = mem t" using repr_mem [OF r] by blast
  then have at: "at_node (tu_nodes u) i (with_size (un_node n) (mem t))" by (cases n) simp
  then have "(tu_nodes u)[i := Some (with_size (un_node n) (mem t))] = tu_nodes u" by (simp add: at_node_def list_update_same_conv)
  then have "usage_ok trie u' i t F (delete_usage trie False i (0, u'))"
    using at r assms(2,5) by (intro delete_usage_keep [where n = "un_node n" and m = "mem t"]) simp_all
  from delete_break [OF assms(1) this] assms(2,3) show ?thesis by simp
qed

lemma delete_leaf_ok:
  assumes pre: "delete_pre trie u i partial k (TLeaf e v) F"
  shows "delete_ok trie u i partial path (if k = e then TEmpty else TLeaf e v) (k = e) F"
proof -
  have at: "at_node (tu_nodes u) i (with_size (Leaf (hex_prefix e True) v) (mem (TLeaf e v)))" and F: "F = {i}" and e: "nibbles_ok e"
    and sl: "slice_ok partial" "nibbles partial = k" and fit: "mem (TLeaf e v) < 2 ^ 64" and r: "repr trie (tu_nodes u) (Updated i) (TLeaf e v) F"
    using pre by (auto simp: delete_pre_def elim: repr_UpdatedE)
  obtain s where s: "ns_from_encoded (hex_prefix e True) = Some (s, True)" "slice_ok s" "nibbles s = e" using from_encoded_hex [OF e] by blast
  have i: "i < length (tu_nodes u)" and same: "(tu_nodes u)[i := Some (with_size (Leaf (hex_prefix e True) v) (mem (TLeaf e v)))] = tu_nodes u"
    using at by (simp_all add: at_node_def list_update_same_conv)
  let ?u0 = "u\<lparr>tu_nodes := (tu_nodes u)[i := None]\<rparr>"
  show ?thesis
  proof (cases "k = e")
    case True
    obtain u1 where u1: "delete_value ?u0 v = Inr u1" "tu_nodes u1 = (tu_nodes u)[i := None]" "tu_values u1 = tu_values u"
      by (rule delete_value_ok [of ?u0 v]) simp
    let ?u' = "u1\<lparr>tu_nodes := (tu_nodes u)[i := Some empty_node]\<rparr>"
    have "delete_step trie u i partial = Some (Inr (Delete_Break True ?u'))"
      using True i by (simp add: delete_step_def take_node_ok [OF at] delete_leaf_def s ns_eq_eq sl u1 place_node_at_ok Let_def del: t_mem.simps)
    moreover have "usage_ok trie ?u' i TEmpty {i} (delete_usage trie True i (0, ?u'))" using i by (intro delete_usage_empty) simp
    moreover have "evolves F (tu_nodes u) {i} (tu_nodes ?u')" by (auto simp: evolves_def F)
    ultimately show ?thesis using delete_break [of trie u i partial True ?u'] u1(3) True by simp
  next
    case False
    then have "delete_step trie u i partial = Some (Inr (Delete_Break False (u\<lparr>tu_nodes := tu_nodes u\<rparr>)))"
      using i same by (simp add: delete_step_def take_node_ok [OF at] delete_leaf_def s ns_eq_eq sl place_node_at_ok Let_def del: t_mem.simps)
    from delete_keep [OF this _ _ r fit] False show ?thesis by simp
  qed
qed

text \<open>
  Descending into a child: what the loop achieves there is carried over to the node, squashed when the key
  was there and unchanged otherwise.
\<close>

definition lifts :: "disk_trie \<Rightarrow> trie_storage_update \<Rightarrow> nat \<Rightarrow> nat set \<Rightarrow> trie_storage_update \<Rightarrow> nat \<Rightarrow> nat set \<Rightarrow>
    nat list \<Rightarrow> value_handle trie \<Rightarrow> (value_handle trie \<Rightarrow> value_handle trie) \<Rightarrow> bool" where
  "lifts trie u i F u1 c F1 k t f \<longleftrightarrow> (\<forall>u' F' t'. repr trie (tu_nodes u') (Updated c) t' F' \<longrightarrow> evolves F1 (tu_nodes u1) F' (tu_nodes u') \<longrightarrow>
     tu_values u' = tu_values u1 \<longrightarrow>
     (mem t' \<le> mem t + 2 + 2 * length k \<longrightarrow> usage_ok trie u i (t_squash (f t')) F (delete_usage trie True i (mem t', u'))) \<and>
     (t' = t \<longrightarrow> usage_ok trie u i (f t') F (delete_usage trie False i (mem t', u'))))"

lemma delete_child_step:
  assumes pre: "delete_pre trie u i partial (n # k) (TBranch ts w) F" and n: "n < 16"
  shows "(ts ! n = TEmpty \<and> delete_step trie u i partial = Some (Inr (Delete_Break False u))) \<or>
    (\<exists>c u1 F1. delete_step trie u i partial = Some (Inr (Delete_Descend c (ns_mid partial 1) u1)) \<and>
       delete_pre trie u1 c (ns_mid partial 1) k (ts ! n) F1 \<and> lifts trie u i F u1 c F1 k (ts ! n) (\<lambda>t'. TBranch (ts[n := t']) w))"
proof -
  obtain cs Fs where at: "at_node (tu_nodes u) i (with_size (Branch cs w) (mem (TBranch ts w)))" and kd: "kids trie (tu_nodes u) i cs ts Fs UNIV"
    and F: "F = branch_foot i Fs" and sl: "slice_ok partial" "nibbles partial = n # k" and fit: "mem (TBranch ts w) + 4 + 2 * length (n # k) < 2 ^ 64"
    using pre unfolding delete_pre_def repr_branch_kids by auto
  let ?u0 = "u\<lparr>tu_nodes := (tu_nodes u)[i := None]\<rparr>"
  have len: "length cs = 16" "length ts = 16" and iF: "i \<notin> Fs n" using kd n by (auto simp: kids_def)
  have i: "i < length (tu_nodes u)" and same: "(tu_nodes u)[i := Some (with_size (Branch cs w) (mem (TBranch ts w)))] = tu_nodes u"
    using at by (simp_all add: at_node_def list_update_same_conv)
  show ?thesis
  proof (cases "cs ! n")
    case None
    have "delete_step trie u i partial = Some (Inr (Delete_Break False u))"
      using None n i sl ns_at_eq [OF sl(1), of 0] same
      by (simp add: delete_step_def take_node_ok [OF at] delete_branch_def is_empty_eq len place_node_at_ok Let_def del: node_usage_simps t_mem.simps)
    then show ?thesis using kids_child(1) [OF kd n] None by simp
  next
    case (Some p)
    then have "repr trie (tu_nodes u) p (ts ! n) (Fs n)" using kids_child(2) [OF kd n] by auto
    from repr_taken [OF this iF] obtain c u2 F' where r: "ensure_updated trie ?u0 p = Inr (c, u2)"
      and app: "appends ?u0 u2" and c: "repr trie (tu_nodes u2) (Updated c) (ts ! n) F'" "F' \<subseteq> Fs n \<union> {length (tu_nodes u)..}"
      by (rule ensure_updated_ok) simp
    have fit': "mem (TBranch ts w) < 2 ^ 64" using fit by simp
    let ?cs = "cs[n := Some (Updated c)]" and ?Fs = "Fs(n := F')"
    obtain u3 m where u3: "calc_memory_usage_and_store u2 i (saturating_sub (mem (TBranch ts w)) (node_usage (Branch cs w))) (Branch ?cs w) (Some c) = Some u3"
      and at3: "at_node (tu_nodes u3) i (with_size (Branch ?cs w) m)" and m: "m + mem (ts ! n) = mem (TBranch ts w)"
      and c3: "repr trie (tu_nodes u3) (Updated c) (ts ! n) F'" and k3: "kids trie (tu_nodes u3) i ?cs ts ?Fs (- {n})"
      and ev3: "evolves (branch_foot i Fs) (tu_nodes u) (branch_foot i ?Fs) (tu_nodes u3)" and v3: "tu_values u3 = tu_values u"
      using store_child_ok [OF at kd n fit' app c] by blast
    have "delete_step trie u i partial = Some (Inr (Delete_Descend c (ns_mid partial 1) u3))"
      using r u3 n sl ns_at_eq [OF sl(1), of 0] Some
      by (simp add: delete_step_def take_node_ok [OF at] delete_branch_def is_empty_eq len Let_def del: node_usage_simps t_mem.simps)
    moreover have "delete_pre trie u3 c (ns_mid partial 1) k (ts ! n) F'"
      using c3 slice_mid [OF sl(1), of 1] sl(2) fit mem_child [of n ts value_len] n len by (simp add: delete_pre_def)
    moreover have "lifts trie u i F u3 c F' k (ts ! n) (\<lambda>t'. TBranch (ts[n := t']) w)" unfolding lifts_def
    proof (intro allI impI)
      fix u4 :: trie_storage_update and F4 t' assume r4: "repr trie (tu_nodes u4) (Updated c) t' F4" and ev4: "evolves F' (tu_nodes u3) F4 (tu_nodes u4)" and v4: "tu_values u4 = tu_values u3"
      have iF': "i \<notin> F'" using k3 n by (auto simp: kids_def)
      have at4: "at_node (tu_nodes u4) i (with_size (Branch ?cs w) m)" "i \<notin> F4" using evolves_at [OF ev4 at3 iF'] by simp_all
      have ev4': "evolves (insert i (?Fs n)) (tu_nodes u3) (insert i F4) (tu_nodes u4)" using evolves_insert [OF ev4] by simp
      have k4: "kids trie (tu_nodes u4) i ?cs (ts[n := t']) (?Fs(n := F4)) (- {n})"
        by (rule kids_evolve [OF k3 n ev4' at4(2)]) (simp_all add: len)
      have m4: "m + mem t' = mem (TBranch (ts[n := t']) w)" using m sum_list_update_mem [of n ts mem t'] n len by simp
      have ev: "evolves F (tu_nodes u) (branch_foot i (?Fs(n := F4))) (tu_nodes u4)"
        using evolves_trans [OF ev3] evolves_branch [where Fs = ?Fs and n = n, OF ev4' n] unfolding F by blast
      note up = usage_ok_from [where u = u and ?u1.0 = u4, OF _ ev v4 [unfolded v3]]
      have c4: "?cs ! n = Some (Updated c)" "(ts[n := t']) ! n = t'" "(?Fs(n := F4)) n = F4" using n len by simp_all
      have r5: "repr trie (tu_nodes u4) (Updated c) ((ts[n := t']) ! n) ((?Fs(n := F4)) n)" using r4 c4 by simp
      show "(mem t' \<le> mem (ts ! n) + 2 + 2 * length k \<longrightarrow> usage_ok trie u i (t_squash (TBranch (ts[n := t']) w)) F (delete_usage trie True i (mem t', u4))) \<and>
        (t' = ts ! n \<longrightarrow> usage_ok trie u i (TBranch (ts[n := t']) w) F (delete_usage trie False i (mem t', u4)))"
      proof (intro conjI impI)
        assume "mem t' \<le> mem (ts ! n) + 2 + 2 * length k"
        then have "mem (TBranch (ts[n := t']) w) + 2 < 2 ^ 64" unfolding m4 [symmetric] using m fit by simp
        from delete_usage_branch [OF at4(1) loose_kids_replaced [OF k4 c4(1) r5] m4 this] up
        show "usage_ok trie u i (t_squash (TBranch (ts[n := t']) w)) F (delete_usage trie True i (mem t', u4))" by blast
      next
        assume t': "t' = ts ! n"
        then have same: "ts[n := t'] = ts" by simp
        have ne: "(ts[n := t']) ! n \<noteq> TEmpty" using kids_child(2) [OF kd n] Some by (simp add: t')
        let ?nd = "with_size (Branch ?cs w) (mem (TBranch (ts[n := t']) w))"
        have "i < length (tu_nodes u4)" using at4(1) by (simp add: at_node_def)
        then have "repr trie ((tu_nodes u4)[i := Some ?nd]) (Updated i) (TBranch (ts[n := t']) w) (branch_foot i (?Fs(n := F4)))"
          unfolding repr_branch_kids by (intro exI, rule_tac conjI [OF at_node_update]) (assumption, rule conjI [OF kids_placed [OF kids_strengthen [OF k4 c4(1) ne r5]] refl])
        from delete_usage_keep [OF at4(1) m4 _ this] up fit' show "usage_ok trie u i (TBranch (ts[n := t']) w) F (delete_usage trie False i (mem t', u4))"
          unfolding same by blast
      qed
    qed
    ultimately show ?thesis by blast
  qed
qed

lemma delete_here_ok:
  assumes pre: "delete_pre trie u i partial [] (TBranch ts w) F"
  shows "delete_ok trie u i partial path (if w = None then TBranch ts w else t_squash (TBranch ts None)) (w \<noteq> None) F"
proof -
  obtain cs Fs where at: "at_node (tu_nodes u) i (with_size (Branch cs w) (mem (TBranch ts w)))" and kd: "kids trie (tu_nodes u) i cs ts Fs UNIV"
    and F: "F = branch_foot i Fs" and sl: "slice_ok partial" "nibbles partial = []" and fit: "mem (TBranch ts w) + 4 < 2 ^ 64"
    and r: "repr trie (tu_nodes u) (Updated i) (TBranch ts w) F"
    using pre unfolding delete_pre_def repr_branch_kids by auto
  let ?u0 = "u\<lparr>tu_nodes := (tu_nodes u)[i := None]\<rparr>"
  have i: "i < length (tu_nodes u)" and same: "(tu_nodes u)[i := Some (with_size (Branch cs w) (mem (TBranch ts w)))] = tu_nodes u"
    using at by (simp_all add: at_node_def list_update_same_conv)
  show ?thesis
  proof (cases w)
    case None
    then have "delete_step trie u i partial = Some (Inr (Delete_Break False u))"
      using i same by (simp add: delete_step_def take_node_ok [OF at] delete_branch_def is_empty_eq sl place_node_at_ok Let_def del: node_usage_simps t_mem.simps)
    from delete_keep [OF this _ _ r] fit None show ?thesis by (simp del: t_mem.simps)
  next
    case (Some v)
    obtain u1 where u1: "delete_value ?u0 v = Inr u1" "tu_nodes u1 = (tu_nodes u)[i := None]" "tu_values u1 = tu_values u"
      by (rule delete_value_ok [of ?u0 v]) simp
    let ?n = "with_size (Branch cs None) (mem (TBranch ts None))"
    let ?u' = "u1\<lparr>tu_nodes := (tu_nodes u)[i := Some ?n]\<rparr>"
    have "saturating_sub (saturating_add u64_w (saturating_sub (mem (TBranch ts w)) (node_usage (Branch cs w))) (node_usage (Branch cs None))) 0 = mem (TBranch ts None)"
      using fit by (simp add: saturating_sub_def saturating_add_def int_max_def Some)
    then have "delete_step trie u i partial = Some (Inr (Delete_Break True ?u'))"
      using i u1 Some
      by (simp add: delete_step_def take_node_ok [OF at] delete_branch_def is_empty_eq sl calc_memory_usage_and_store_def place_node_at_ok Let_def del: node_usage_simps t_mem.simps)
    moreover have "usage_ok trie ?u' i (t_squash (TBranch ts None)) (branch_foot i Fs) (delete_usage trie True i (0, ?u'))"
    proof (rule delete_usage_branch)
      show "at_node (tu_nodes ?u') i ?n" using i by simp
      show "loose_kids trie (tu_nodes ?u') i cs ts Fs" using loose_kids_placed [OF kids_loose [OF kd]] by simp
    qed (use fit Some in simp_all)
    moreover have "evolves F (tu_nodes u) (branch_foot i Fs) (tu_nodes ?u')" by (auto simp: evolves_def F)
    ultimately show ?thesis using delete_break [of trie u i partial True ?u'] u1(3) Some by (simp del: t_squash.simps)
  qed
qed

lemma lcp_prefix: "lcp e k = length e \<longleftrightarrow> prefix e k"
proof
  assume "lcp e k = length e"
  then have "longest_common_prefix e k = e" using longest_common_prefix_prefix1 [of e k] by (metis append_eq_conv_conj append_take_drop_id prefix_def take_all_iff order_refl)
  then show "prefix e k" using longest_common_prefix_prefix2 [of e k] by simp
next
  assume "prefix e k"
  then show "lcp e k = length e" using longest_common_prefix_max_prefix [of e e k] longest_common_prefix_prefix1 [of e k] by (auto dest!: prefix_length_le)
qed

lemma delete_ext_parts:
  assumes "delete_pre trie u i partial k (TExt e t) F"
  obtains q F0 s where "at_node (tu_nodes u) i (with_size (Extension (hex_prefix e False) q) (mem (TExt e t)))" "F = insert i F0"
    "nibbles_ok e" "e \<noteq> []" "repr trie (tu_nodes u) q t F0" "t \<noteq> TEmpty" "i \<notin> F0" "slice_ok partial" "nibbles partial = k"
    "mem (TExt e t) + 4 + 2 * length k < 2 ^ 64" "i < length (tu_nodes u)" "repr trie (tu_nodes u) (Updated i) (TExt e t) F"
    "ns_from_encoded (hex_prefix e False) = Some (s, False)" "slice_ok s" "nibbles s = e"
proof -
  have pre: "repr trie (tu_nodes u) (Updated i) (TExt e t) F" "slice_ok partial" "nibbles partial = k" "mem (TExt e t) + 4 + 2 * length k < 2 ^ 64"
    using assms unfolding delete_pre_def by simp_all
  from pre(1) show thesis
  proof (cases rule: repr.cases)
    case (repr_ext p G)
    obtain s where "ns_from_encoded (hex_prefix e False) = Some (s, False)" "slice_ok s" "nibbles s = e" using from_encoded_hex [OF repr_ext(3)] by blast
    then show thesis using that [OF repr_ext(2,1,3,4,5,6,7) pre(2-4) _ pre(1)] repr_in [OF pre(1)] by blast
  qed
qed

lemma delete_ext_other:
  assumes pre: "delete_pre trie u i partial k (TExt e t) F" and p: "\<not> prefix e k"
  shows "delete_ok trie u i partial path (TExt e t) False F"
proof -
  obtain q F0 s where at: "at_node (tu_nodes u) i (with_size (Extension (hex_prefix e False) q) (mem (TExt e t)))"
    and sl: "slice_ok partial" "nibbles partial = k" and fit: "mem (TExt e t) + 4 + 2 * length k < 2 ^ 64" and r: "repr trie (tu_nodes u) (Updated i) (TExt e t) F"
    and s: "ns_from_encoded (hex_prefix e False) = Some (s, False)" "slice_ok s" "nibbles s = e" by (rule delete_ext_parts [OF pre])
  have i: "i < length (tu_nodes u)" and same: "(tu_nodes u)[i := Some (with_size (Extension (hex_prefix e False) q) (mem (TExt e t)))] = tu_nodes u"
    using at by (simp_all add: at_node_def list_update_same_conv)
  have "delete_step trie u i partial = Some (Inr (Delete_Break False u))"
    using p i same by (simp add: delete_step_def take_node_ok [OF at] delete_extension_def s sl ns_common_prefix_eq ns_len_eq lcp_prefix place_node_at_ok Let_def del: t_mem.simps)
  from delete_keep [OF this _ _ r] fit show ?thesis by simp
qed

lemma delete_ext_step:
  assumes pre: "delete_pre trie u i partial (e @ k) (TExt e t) F"
  shows "\<exists>c u1 F1. delete_step trie u i partial = Some (Inr (Delete_Descend c (ns_mid partial (length e)) u1)) \<and>
     delete_pre trie u1 c (ns_mid partial (length e)) k t F1 \<and> lifts trie u i F u1 c F1 k t (TExt e)"
proof -
  obtain q F0 s where at: "at_node (tu_nodes u) i (with_size (Extension (hex_prefix e False) q) (mem (TExt e t)))" and F: "F = insert i F0"
    and e: "nibbles_ok e" "e \<noteq> []" and q: "repr trie (tu_nodes u) q t F0" "t \<noteq> TEmpty" "i \<notin> F0" and sl: "slice_ok partial" "nibbles partial = e @ k"
    and fit: "mem (TExt e t) + 4 + 2 * length (e @ k) < 2 ^ 64" and i: "i < length (tu_nodes u)"
    and s: "ns_from_encoded (hex_prefix e False) = Some (s, False)" "slice_ok s" "nibbles s = e" by (rule delete_ext_parts [OF pre])
  let ?u0 = "u\<lparr>tu_nodes := (tu_nodes u)[i := None]\<rparr>"
  obtain c u2 F' where c: "ensure_updated trie ?u0 q = Inr (c, u2)" "appends ?u0 u2" "repr trie (tu_nodes u2) (Updated c) t F'"
    "F' \<subseteq> F0 \<union> {length (tu_nodes u)..}" by (rule ensure_updated_ok [OF repr_taken [OF q(1,3)]]) auto
  obtain nd where nd: "at_node (tu_nodes u2) c nd" "un_memory_usage nd = mem t" using repr_mem [OF c(3)] by blast
  let ?ext = "with_size (Extension (hex_prefix e False) (Updated c)) (50 + key_cost e)"
  let ?u' = "u2\<lparr>tu_nodes := (tu_nodes u2)[i := Some ?ext]\<rparr>"
  have i2: "i < length (tu_nodes u2)" "i \<notin> F'" "tu_values u2 = tu_values u" using c(2,4) i q(3) by (auto simp: appends_def)
  have "saturating_sub (saturating_add u64_w (saturating_sub (mem (TExt e t)) (50 + key_cost e)) (50 + key_cost e)) (mem t) = 50 + key_cost e"
    using fit by (simp add: saturating_sub_def saturating_add_def int_max_def)
  then have "delete_step trie u i partial = Some (Inr (Delete_Descend c (ns_mid partial (length e)) ?u'))"
    using i2 c(1)
    by (simp add: delete_step_def take_node_ok [OF at] delete_extension_def s sl ns_common_prefix_eq ns_len_eq lcp_prefix place_node_at_ok Let_def
        calc_memory_usage_and_store_def get_node_ref_ok [OF nd(1)] nd(2) del: t_mem.simps)
  moreover have "delete_pre trie ?u' c (ns_mid partial (length e)) k t F'"
    using repr_placed [OF c(3) i2(2)] slice_mid [OF sl(1), of "length e"] sl(2) fit by (auto simp: delete_pre_def)
  moreover have "lifts trie u i F ?u' c F' k t (TExt e)" unfolding lifts_def
  proof (intro allI impI)
    fix u4 :: trie_storage_update and F4 t' assume r4: "repr trie (tu_nodes u4) (Updated c) t' F4"
      and ev4: "evolves F' (tu_nodes ?u') F4 (tu_nodes u4)" and v4: "tu_values u4 = tu_values ?u'"
    have at4: "at_node (tu_nodes u4) i ?ext" "i \<notin> F4" using evolves_at [OF ev4 _ i2(2), of ?ext] i2(1) by simp_all
    have "evolves F (tu_nodes u) (insert i F') (tu_nodes ?u')" using evolves_placed [OF c(2,4)] by (simp add: F)
    from evolves_trans [OF this evolves_insert [OF ev4]] have ev: "evolves F (tu_nodes u) (insert i F4) (tu_nodes u4)" .
    have v: "tu_values u4 = tu_values u" using v4 i2(3) by simp
    note up = usage_ok_from [where u = u and ?u1.0 = u4, OF _ ev v]
    show "(mem t' \<le> mem t + 2 + 2 * length k \<longrightarrow> usage_ok trie u i (t_squash (TExt e t')) F (delete_usage trie True i (mem t', u4))) \<and>
      (t' = t \<longrightarrow> usage_ok trie u i (TExt e t') F (delete_usage trie False i (mem t', u4)))"
    proof (intro conjI impI)
      assume "mem t' \<le> mem t + 2 + 2 * length k"
      then have "mem (TExt e t') < 2 ^ 64" using fit by simp
      from delete_usage_ext [OF at4(1) r4 at4(2) e _ this, of "mem t'"] up
      show "usage_ok trie u i (t_squash (TExt e t')) F (delete_usage trie True i (mem t', u4))" by simp
    next
      assume t': "t' = t"
      have "i < length (tu_nodes u4)" using at4(1) by (simp add: at_node_def)
      then have "repr trie ((tu_nodes u4)[i := Some (with_size (Extension (hex_prefix e False) (Updated c)) (mem (TExt e t)))]) (Updated i) (TExt e t) (insert i F4)"
        using repr_placed [OF r4 at4(2)] e q(2) at4(2) t' by (intro repr_ext [where p = "Updated c"]) simp_all
      from delete_usage_keep [OF at4(1) _ _ this] up fit show "usage_ok trie u i (TExt e t') F (delete_usage trie False i (mem t', u4))"
        by (simp add: t')
    qed
  qed
  ultimately show ?thesis by blast
qed

lemma lifts_squash:
  assumes "lifts trie u i F u1 c F1 k t f" and "delete_step trie u i partial = Some (Inr (Delete_Descend c partial' u1))"
    and "delete_ok trie u1 c partial' (path @ [i]) (if d then t_delete k t else t) d F1" and "shape t" and "nibbles_ok k"
  shows "delete_ok trie u i partial path (if d then t_squash (f (t_delete k t)) else f t) d F"
  using assms(1) t_delete_mem [OF assms(4,5), of value_len]
  by (intro delete_descend [OF assms(2,3)]) (simp add: lifts_def split: if_splits)

lemma delete_loop_ok:
  assumes "shape t" and "nibbles_ok k" and "delete_pre trie u i partial k t F"
  shows "delete_ok trie u i partial path (if t_lookup t k \<noteq> None then t_delete k t else t) (t_lookup t k \<noteq> None) F"
  using assms
proof (induction k t arbitrary: u i partial F path rule: t_delete.induct)
  case (1 k)
  then have r: "repr trie (tu_nodes u) (Updated i) TEmpty F" by (simp add: delete_pre_def)
  then have at: "at_node (tu_nodes u) i empty_node" by (auto elim: repr_UpdatedE)
  then have "i < length (tu_nodes u)" "(tu_nodes u)[i := Some empty_node] = tu_nodes u" by (simp_all add: at_node_def list_update_same_conv)
  moreover have "un_node empty_node = Empty" by (simp add: empty_node_def)
  ultimately have "delete_step trie u i partial = Some (Inr (Delete_Break False u))" by (simp add: delete_step_def take_node_ok [OF at] place_node_at_ok Let_def)
  from delete_keep [OF this _ _ r] show ?case by simp
next
  case (2 k e v)
  then show ?case using delete_leaf_ok [of trie u i partial k e v F path] by (auto split: if_splits)
next
  case (3 k e t)
  show ?case
  proof (cases "prefix e k")
    case True
    then obtain l where k: "k = e @ l" by (auto simp: prefix_def)
    have t: "shape t" "nibbles_ok l" using 3(2,3) k by simp_all
    obtain c u1 F1 where s: "delete_step trie u i partial = Some (Inr (Delete_Descend c (ns_mid partial (length e)) u1))"
      "delete_pre trie u1 c (ns_mid partial (length e)) l t F1" "lifts trie u i F u1 c F1 l t (TExt e)" using delete_ext_step 3(4) unfolding k by blast
    have "delete_ok trie u1 c (ns_mid partial (length e)) (path @ [i]) (if t_lookup t l \<noteq> None then t_delete l t else t) (t_lookup t l \<noteq> None) F1"
    proof -
      have d: "drop (length e) k = l" by (simp add: k)
      show ?thesis by (rule 3(1) [OF True t(1), unfolded d, OF t(2) s(2)])
    qed
    from lifts_squash [OF s(3,1) this t] show ?thesis by (auto simp: k simp del: t_squash.simps)
  next
    case False
    with delete_ext_other [OF 3(4) False] show ?thesis by simp
  qed
next
  case (4 ts w)
  then show ?case using delete_here_ok [of trie u i partial ts w F path] by (auto simp del: t_squash.simps split: if_splits)
next
  case (5 n k ts w)
  have n: "n < 16" "length ts = 16" "shape (ts ! n)" "nibbles_ok k" using 5(2,3) by auto
  consider "ts ! n = TEmpty" "delete_step trie u i partial = Some (Inr (Delete_Break False u))" |
    c u1 F1 where "delete_step trie u i partial = Some (Inr (Delete_Descend c (ns_mid partial 1) u1))" "delete_pre trie u1 c (ns_mid partial 1) k (ts ! n) F1"
      "lifts trie u i F u1 c F1 k (ts ! n) (\<lambda>t'. TBranch (ts[n := t']) w)"
    using delete_child_step [OF 5(4) n(1)] by blast
  then show ?case
  proof cases
    case 1
    then show ?thesis using 5(4) n(1,2) delete_keep [OF 1(2)] by (simp add: delete_pre_def)
  next
    case 2
    from lifts_squash [OF 2(3,1) 5(1) [OF n(3,4) 2(2)] n(3,4)] n(1,2) show ?thesis by (auto simp del: t_squash.simps)
  qed
qed

text \<open>Deleting a key from a canonical trie.\<close>

lemma generic_delete_ok:
  assumes r: "repr trie (tu_nodes u) (Updated i) t F" and canon: "canonical t" and key: "\<forall>b \<in> set key. b < 256" and fit: "mem t + 4 + 4 * length key < 2 ^ 64"
  shows "\<exists>u' F'. generic_delete trie u i key = Some (Inr u') \<and> repr trie (tu_nodes u') (Updated i) (t_delete (unpack key) t) F' \<and>
    evolves F (tu_nodes u) F' (tu_nodes u') \<and> tu_values u' = tu_values u"
proof -
  have sl: "slice_ok (ns_new key)" "nibbles (ns_new key) = unpack key" using key by (auto simp: slice_ok_def ns_new_def ns_new_offset_def nibbles_def)
  have k: "nibbles_ok (unpack key)" using slice_nibbles_ok [OF sl(1)] sl(2) by simp
  have "delete_pre trie u i (ns_new key) (unpack key) t F" using r sl fit by (simp add: delete_pre_def)
  from delete_loop_ok [OF repr_shape [OF r] k this, of "[]"] t_delete_absent [OF canon k]
  have "delete_ok trie u i (ns_new key) [] (t_delete (unpack key) t) (t_lookup t (unpack key) \<noteq> None) F" by (auto split: if_splits)
  then obtain p u1 u2 F2 where "delete_loop trie u i (ns_new key) [] = Some (Inr (t_lookup t (unpack key) \<noteq> None, i # p, u1))"
    "fold_try (delete_usage trie (t_lookup t (unpack key) \<noteq> None)) (rev (i # p)) (0, u1) = Some (Inr (mem (t_delete (unpack key) t), u2))"
    "repr trie (tu_nodes u2) (Updated i) (t_delete (unpack key) t) F2" "evolves F (tu_nodes u) F2 (tu_nodes u2)" "tu_values u2 = tu_values u"
    unfolding delete_ok_def usage_ok_def by auto
  then show ?thesis by (intro exI [of _ u2] exI [of _ F2]) (simp add: generic_delete_def del: rev.simps)
qed

end
