(* ===== verification/Trie_Flatten.thy ===== *)
theory Trie_Flatten
  imports Trie_Delete
begin

text \<open>
  From the updated nodes to the changes of the trie (\<open>flatten_nodes\<close> in \<open>trie_storage_update.rs\<close>) and
  the update of a disk trie by a list of changes (\<open>update_with_trie_storage\<close> in \<open>mod.rs\<close>), with the
  lookup of keys.  SHA-256 and the Borsh encoding of a node are parameters.  The changes of the
  in-memory tries, which are absent here, are left out of the result.
\<close>

section \<open>Changes of reference counts\<close>

record trie_refcount_addition =
  ra_hash :: crypto_hash
  ra_data :: "byte list"
  ra_rc :: nat

record trie_refcount_subtraction =
  rs_hash :: crypto_hash
  rs_rc :: nat

text \<open>
  A map has each hash once and is traversed in the order of the hashes, so that sorting by the hash is
  sorting by the derived order.
\<close>

fun collect_changes ::
  "(crypto_hash \<times> byte list option \<times> int) list \<Rightarrow> trie_refcount_addition list \<times> trie_refcount_subtraction list \<Rightarrow>
   (trie_refcount_addition list \<times> trie_refcount_subtraction list) option" where
  "collect_changes [] (insertions, deletions) = Some (insertions, deletions)"
| "collect_changes ((h, value, rc) # m) (insertions, deletions) =
     (if 0 < rc then
        do {
          data \<leftarrow> value;
          collect_changes m (insertions @ [\<lparr> ra_hash = h, ra_data = data, ra_rc = nat rc \<rparr>], deletions)
        }
      else if rc < 0 then collect_changes m (insertions, deletions @ [\<lparr> rs_hash = h, rs_rc = nat (- rc) \<rparr>])
      else collect_changes m (insertions, deletions))"

definition into_changes :: "refcount_map \<Rightarrow> (trie_refcount_addition list \<times> trie_refcount_subtraction list) option" where
  "into_changes m =
     do {
       (insertions, deletions) \<leftarrow> collect_changes m ([], []);
       Some (sort_key ra_hash insertions, sort_key rs_hash deletions)
     }"

record trie_changes =
  tc_old_root :: crypto_hash
  tc_new_root :: crypto_hash
  tc_insertions :: "trie_refcount_addition list"
  tc_deletions :: "trie_refcount_subtraction list"

section \<open>Flattening\<close>

type_synonym node_encoding = "raw_trie_node_with_size \<Rightarrow> byte list"

fun raw_branch :: "crypto_hash option list \<Rightarrow> value_ref option \<Rightarrow> raw_trie_node" where
  "raw_branch children (Some value) = RawBranchWithValue value children"
| "raw_branch children None = RawBranchNoValue children"

datatype flatten_crumb = Entering | AtChild "crypto_hash option list" nat | Exiting

type_synonym flatten_state = "(updated_node_id \<times> flatten_crumb) list \<times> crypto_hash \<times> trie_storage_update"

definition value_ref_of :: "trie_storage_update \<Rightarrow> nat \<Rightarrow> byte list option" where
  "value_ref_of u handle = do { slot \<leftarrow> vec_get (tu_values u) handle; slot }"

fun flatten_value :: "sha256 \<Rightarrow> trie_storage_update \<Rightarrow> value_handle \<Rightarrow> (value_ref \<times> trie_storage_update) option" where
  "flatten_value sha u (InMemory value_handle len) =
     do {
       value \<leftarrow> value_ref_of u value_handle;
       let value_length = cast u32_w (length value);
       let value_hash = hash_bytes sha value;
       Some (\<lparr> vr_length = value_length, vr_hash = value_hash \<rparr>,
             u\<lparr>tu_refcount_changes := refcount_add value_hash value 1 (tu_refcount_changes u)\<rparr>)
     }"
| "flatten_value sha u (HashAndSize value) = Some (value, u)"

text \<open>The inner loop over the children: it stops at a child that has been updated.\<close>

function flatten_children ::
  "crypto_hash generic_node_or_index option list \<Rightarrow> crypto_hash option list \<Rightarrow> nat \<Rightarrow>
   (crypto_hash option list \<times> nat \<times> updated_node_id + crypto_hash option list) option" where
  "flatten_children children new_children i =
     (if i < num_children then
        do {
          child \<leftarrow> vec_get children i;
          case child of
            Some (Updated handle) \<Rightarrow> Some (Inl (new_children, i + 1, handle))
          | Some (Old h) \<Rightarrow> do { new_children \<leftarrow> vec_set new_children i (Some h); flatten_children children new_children (i + 1) }
          | None \<Rightarrow> flatten_children children new_children (i + 1)
        }
      else Some (Inr new_children))"
  by auto
termination
  by (relation "measure (\<lambda>(cs, ncs, i). num_children - i)") auto

declare flatten_children.simps [simp del]

definition flatten_emit ::
  "sha256 \<Rightarrow> node_encoding \<Rightarrow> raw_trie_node \<Rightarrow> nat \<Rightarrow> (updated_node_id \<times> flatten_crumb) list \<Rightarrow> trie_storage_update \<Rightarrow> flatten_state" where
  "flatten_emit sha ser raw_node memory_usage stack u =
     (let buffer = ser \<lparr> rn_node = raw_node, rn_memory_usage = memory_usage \<rparr>; key = hash_bytes sha buffer in
      (stack, key, u\<lparr>tu_refcount_changes := refcount_add key buffer 1 (tu_refcount_changes u)\<rparr>))"

definition flatten_branch ::
  "sha256 \<Rightarrow> node_encoding \<Rightarrow> updated_node_id \<Rightarrow> nat \<Rightarrow> crypto_hash generic_node_or_index option list \<Rightarrow> value_handle option \<Rightarrow>
   flatten_crumb \<Rightarrow> flatten_state \<Rightarrow> flatten_state option" where
  "flatten_branch sha ser node memory_usage children value crumb s =
     (case s of (stack, last_hash, u) \<Rightarrow>
        case crumb of
          Entering \<Rightarrow> Some ((node, AtChild (replicate num_children None) 0) # stack, last_hash, u)
        | AtChild new_children i \<Rightarrow>
            do {
              new_children \<leftarrow>
                (if i = 0 then Some new_children
                 else do {
                   child \<leftarrow> vec_get children (i - 1);
                   if child = None then Some new_children else vec_set new_children (i - 1) (Some last_hash)
                 });
              r \<leftarrow> flatten_children children new_children i;
              case r of
                Inl (new_children, i, handle) \<Rightarrow> Some ((handle, Entering) # (node, AtChild new_children i) # stack, last_hash, u)
              | Inr new_children \<Rightarrow>
                  do {
                    (new_value, u) \<leftarrow>
                      (case value of
                         None \<Rightarrow> Some (None, u)
                       | Some value \<Rightarrow> do { (value, u) \<leftarrow> flatten_value sha u value; Some (Some value, u) });
                    Some (flatten_emit sha ser (raw_branch new_children new_value) memory_usage stack u)
                  }
            }
        | Exiting \<Rightarrow> None)"

definition flatten_extension ::
  "sha256 \<Rightarrow> node_encoding \<Rightarrow> updated_node_id \<Rightarrow> nat \<Rightarrow> nat list \<Rightarrow> crypto_hash generic_node_or_index \<Rightarrow>
   flatten_crumb \<Rightarrow> flatten_state \<Rightarrow> flatten_state option" where
  "flatten_extension sha ser node memory_usage extension child crumb s =
     (case s of (stack, last_hash, u) \<Rightarrow>
        case crumb of
          Entering \<Rightarrow>
            (case child of
               Updated child \<Rightarrow> Some ((child, Entering) # (node, Exiting) # stack, last_hash, u)
             | Old h \<Rightarrow> Some (flatten_emit sha ser (RawExtension extension h) memory_usage stack u))
        | Exiting \<Rightarrow> Some (flatten_emit sha ser (RawExtension extension last_hash) memory_usage stack u)
        | AtChild _ _ \<Rightarrow> None)"

definition flatten_step ::
  "sha256 \<Rightarrow> node_encoding \<Rightarrow> updated_node_id \<Rightarrow> flatten_crumb \<Rightarrow> flatten_state \<Rightarrow> flatten_state option" where
  "flatten_step sha ser node crumb s =
     (case s of (stack, last_hash, u) \<Rightarrow>
        do {
          node_with_size \<leftarrow> get_node_ref u node;
          let memory_usage = un_memory_usage node_with_size;
          case un_node node_with_size of
            Empty \<Rightarrow> Some (stack, empty_root, u)
          | Branch children value \<Rightarrow> flatten_branch sha ser node memory_usage children value crumb s
          | Extension extension child \<Rightarrow> flatten_extension sha ser node memory_usage extension child crumb s
          | Leaf extension value \<Rightarrow>
              do {
                (value, u) \<leftarrow> flatten_value sha u value;
                Some (flatten_emit sha ser (RawLeaf extension value) memory_usage stack u)
              }
        })"

partial_function (option) flatten_loop ::
  "sha256 \<Rightarrow> node_encoding \<Rightarrow> (updated_node_id \<times> flatten_crumb) list \<Rightarrow> crypto_hash \<Rightarrow> trie_storage_update \<Rightarrow>
   (crypto_hash \<times> trie_storage_update) option" where
  "flatten_loop sha ser stack last_hash u =
     (case stack of
        [] \<Rightarrow> Some (last_hash, u)
      | (node, crumb) # stack \<Rightarrow>
          do {
            (stack, last_hash, u) \<leftarrow> flatten_step sha ser node crumb (stack, last_hash, u);
            flatten_loop sha ser stack last_hash u
          })"

definition flatten_nodes :: "sha256 \<Rightarrow> node_encoding \<Rightarrow> trie_storage_update \<Rightarrow> crypto_hash \<Rightarrow> updated_node_id \<Rightarrow> trie_changes option" where
  "flatten_nodes sha ser u old_root node =
     do {
       (last_hash, u) \<leftarrow> flatten_loop sha ser [(node, Entering)] crypto_hash_new u;
       (insertions, deletions) \<leftarrow> into_changes (tu_refcount_changes u);
       Some \<lparr> tc_old_root = old_root, tc_new_root = last_hash, tc_insertions = insertions, tc_deletions = deletions \<rparr>
     }"

section \<open>Updates and lookups\<close>

type_synonym trie_change = "nat list \<times> byte list option"

fun apply_change :: "disk_trie \<Rightarrow> updated_node_id \<Rightarrow> trie_change \<Rightarrow> trie_storage_update \<Rightarrow> trie_storage_update outcome" where
  "apply_change trie root_node (key, Some arr) u = generic_insert trie u root_node key (MemtrieAndDisk arr)"
| "apply_change trie root_node (key, None) u = generic_delete trie u 0 key"

definition update_with_trie_storage :: "sha256 \<Rightarrow> node_encoding \<Rightarrow> disk_trie \<Rightarrow> trie_change list \<Rightarrow> trie_changes outcome" where
  "update_with_trie_storage sha ser trie changes =
     rtry (Some (move_node_to_mutable trie trie_storage_update_new (dt_root trie))) (\<lambda>(root_node, u).
     rtry (fold_try (apply_change trie root_node) changes u) (\<lambda>u.
     do { c \<leftarrow> flatten_nodes sha ser u (dt_root trie) root_node; Some (Inr c) }))"

definition retrieve_value :: "disk_trie \<Rightarrow> crypto_hash \<Rightarrow> byte list outcome" where
  "retrieve_value trie h = Some (dt_storage trie h)"

text \<open>\<open>get\<close> of a trie without in-memory tries and without flat storage.\<close>

definition trie_get :: "disk_trie \<Rightarrow> nat list \<Rightarrow> byte list option outcome" where
  "trie_get trie key =
     rtry (lookup_from_state_column trie (ns_new key)) (\<lambda>r. case r of
       Some value_ref \<Rightarrow> rtry (retrieve_value trie (vr_hash value_ref)) (\<lambda>bytes. Some (Inr (Some bytes)))
     | None \<Rightarrow> Some (Inr None))"

section \<open>The hash of a trie\<close>

text \<open>
  The state root as a function of the trie alone, and the stored form of its nodes.  The values of the
  trie are references here.
\<close>

abbreviation raw_size :: "raw_trie_node \<Rightarrow> nat \<Rightarrow> raw_trie_node_with_size" where
  "raw_size n m \<equiv> \<lparr> rn_node = n, rn_memory_usage = m \<rparr>"

fun t_hash :: "sha256 \<Rightarrow> node_encoding \<Rightarrow> value_ref trie \<Rightarrow> crypto_hash" where
  "t_hash sha ser TEmpty = empty_root"
| "t_hash sha ser (TLeaf e v) = sha (ser (raw_size (RawLeaf (hex_prefix e True) v) (t_mem vr_length (TLeaf e v))))"
| "t_hash sha ser (TExt e t) = sha (ser (raw_size (RawExtension (hex_prefix e False) (t_hash sha ser t)) (t_mem vr_length (TExt e t))))"
| "t_hash sha ser (TBranch ts w) =
     sha (ser (raw_size (raw_branch (map (\<lambda>t. if t = TEmpty then None else Some (t_hash sha ser t)) ts) w) (t_mem vr_length (TBranch ts w))))"

abbreviation child_hash :: "sha256 \<Rightarrow> node_encoding \<Rightarrow> value_ref trie \<Rightarrow> crypto_hash option" where
  "child_hash sha ser t \<equiv> (if t = TEmpty then None else Some (t_hash sha ser t))"

fun t_node :: "sha256 \<Rightarrow> node_encoding \<Rightarrow> value_ref trie \<Rightarrow> raw_trie_node" where
  "t_node sha ser (TLeaf e v) = RawLeaf (hex_prefix e True) v"
| "t_node sha ser (TExt e t) = RawExtension (hex_prefix e False) (t_hash sha ser t)"
| "t_node sha ser (TBranch ts w) = raw_branch (map (child_hash sha ser) ts) w"

abbreviation t_raw :: "sha256 \<Rightarrow> node_encoding \<Rightarrow> value_ref trie \<Rightarrow> raw_trie_node_with_size" where
  "t_raw sha ser t \<equiv> raw_size (t_node sha ser t) (t_mem vr_length t)"

lemma t_hash_raw: "t \<noteq> TEmpty \<Longrightarrow> t_hash sha ser t = sha (ser (t_raw sha ser t))"
  by (cases t) simp_all

fun t_nodes :: "sha256 \<Rightarrow> node_encoding \<Rightarrow> value_ref trie \<Rightarrow> raw_trie_node_with_size set" where
  "t_nodes sha ser TEmpty = {}"
| "t_nodes sha ser (TLeaf e v) = {t_raw sha ser (TLeaf e v)}"
| "t_nodes sha ser (TExt e t) = insert (t_raw sha ser (TExt e t)) (t_nodes sha ser t)"
| "t_nodes sha ser (TBranch ts w) = insert (t_raw sha ser (TBranch ts w)) (\<Union>t \<in> set ts. t_nodes sha ser t)"

text \<open>The references behind the values of an update.\<close>

fun resolve :: "sha256 \<Rightarrow> byte list option list \<Rightarrow> value_handle \<Rightarrow> value_ref" where
  "resolve sha vs (InMemory i n) = \<lparr> vr_length = cast u32_w (length (the (vs ! i))), vr_hash = sha (the (vs ! i)) \<rparr>"
| "resolve sha vs (HashAndSize r) = r"

fun handle_ok :: "byte list option list \<Rightarrow> value_handle \<Rightarrow> bool" where
  "handle_ok vs (InMemory i n) \<longleftrightarrow> i < length vs \<and> (\<exists>v. vs ! i = Some v \<and> length v = n) \<and> n < 2 ^ 32"
| "handle_ok vs (HashAndSize r) \<longleftrightarrow> True"

abbreviation t_refs :: "sha256 \<Rightarrow> byte list option list \<Rightarrow> value_handle trie \<Rightarrow> value_ref trie" where
  "t_refs sha vs \<equiv> map_trie (resolve sha vs)"

lemma map_trie_empty [simp]: "map_trie f t = TEmpty \<longleftrightarrow> t = TEmpty"
  by (cases t) auto

lemma t_mem_map: "t_mem vl (map_trie f t) = t_mem (\<lambda>v. vl (f v)) t"
proof (induction t)
  case (TBranch ts w)
  then have "sum_list (map (t_mem vl \<circ> map_trie f) ts) = sum_list (map (t_mem (\<lambda>v. vl (f v))) ts)" by (intro arg_cong [where f = sum_list] map_cong) auto
  then show ?case by (cases w) simp_all
qed simp_all

lemma t_mem_cong: "(\<And>v. v \<in> set_trie t \<Longrightarrow> vl v = vl' v) \<Longrightarrow> t_mem vl t = t_mem vl' t"
proof (induction t)
  case (TBranch ts w)
  have "sum_list (map (t_mem vl) ts) = sum_list (map (t_mem vl') ts)" using TBranch by (intro arg_cong [where f = sum_list] map_cong refl TBranch.IH) auto
  then show ?case using TBranch.prems by (cases w) simp_all
qed simp_all

lemma handle_len: "handle_ok vs h \<Longrightarrow> vr_length (resolve sha vs h) = value_len h"
  by (cases h) (auto simp: cast_def)

lemma t_refs_mem: "\<forall>h \<in> set_trie t. handle_ok vs h \<Longrightarrow> t_mem vr_length (t_refs sha vs t) = mem t"
  unfolding t_mem_map by (intro t_mem_cong) (simp add: handle_len)

text \<open>
  A storage that is addressed by content: the bytes behind a hash have that hash, and a node is decoded
  from its encoding only.
\<close>

definition content_addressed :: "sha256 \<Rightarrow> node_encoding \<Rightarrow> disk_trie \<Rightarrow> bool" where
  "content_addressed sha ser trie \<longleftrightarrow>
     (\<forall>h b. dt_storage trie h = Inr b \<longrightarrow> sha b = h) \<and> (\<forall>b n. dt_decode trie b = Some n \<longrightarrow> b = ser n)"

lemma retrieve_content:
  assumes "content_addressed sha ser trie" and "retrieve_raw_node trie h = Inr (Some (b, raw))"
  shows "h = sha (ser raw) \<and> dt_storage trie h = Inr (ser raw) \<and> dt_decode trie (ser raw) = Some raw \<and> h \<noteq> empty_root"
  using assms by (auto simp: content_addressed_def retrieve_raw_node_def rbind_Inr split: if_splits option.splits)

lemma stored_handles: "stored trie h t \<Longrightarrow> v \<in> set_trie t \<Longrightarrow> \<exists>r. v = HashAndSize r"
proof (induction rule: stored.induct)
  case (stored_leaf h bytes raw e v)
  then show ?case by (cases "rn_node raw") (auto simp: new_branch_def)
next
  case (stored_branch h bytes raw cs w ts)
  have kids: "\<exists>r. v = HashAndSize r" if "v \<in> set_trie (ts ! j)" "j < 16" for j
    using that stored_branch(6) [of j] stored_branch.IH [of j] by (cases "cs ! j") auto
  have "\<exists>r. v = HashAndSize r" if "w = Some v" using that stored_branch(2) by (cases "rn_node raw") (auto simp: new_branch_def)
  then show ?case using stored_branch.prems kids stored_branch(4) by (auto simp: in_set_conv_nth)
qed auto

lemma raw_of_leaf: "from_raw_trie_node n = Leaf e v \<Longrightarrow> \<exists>r. v = HashAndSize r \<and> n = RawLeaf e r"
  by (cases n) (auto simp: new_branch_def)

lemma raw_of_ext: "from_raw_trie_node n = Extension e c \<Longrightarrow> n = RawExtension e c"
  by (cases n) (auto simp: new_branch_def)

lemma raw_of_branch: "from_raw_trie_node n = Branch cs w \<Longrightarrow> n = raw_branch cs (map_option (resolve sha vs) w)"
  by (cases n) (auto simp: new_branch_def)

lemma stored_refs_mem: "stored trie h t \<Longrightarrow> t_mem vr_length (t_refs sha vs t) = mem t"
  by (intro t_refs_mem ballI) (metis handle_ok.simps(2) stored_handles)

lemma stored_hash:
  assumes ca: "content_addressed sha ser trie" and "stored trie h t"
  shows "h = t_hash sha ser (t_refs sha vs t) \<and>
    (\<forall>n \<in> t_nodes sha ser (t_refs sha vs t). dt_storage trie (sha (ser n)) = Inr (ser n) \<and> dt_decode trie (ser n) = Some n \<and> sha (ser n) \<noteq> empty_root)"
  using assms(2)
proof (induction rule: stored.induct)
  case (stored_leaf h bytes raw e v)
  from raw_of_leaf [OF stored_leaf(2)] obtain r where r: "v = HashAndSize r" "rn_node raw = RawLeaf (hex_prefix e True) r" by blast
  then have "raw = t_raw sha ser (t_refs sha vs (TLeaf e v))" using stored_leaf(4) by (cases raw) simp
  then show ?case using retrieve_content [OF ca stored_leaf(1)] by auto
next
  case (stored_ext h bytes raw e c t)
  have "t_mem vr_length (t_refs sha vs t) = mem t" by (rule stored_refs_mem [OF stored_ext(6)])
  then have "raw = t_raw sha ser (t_refs sha vs (TExt e t))"
    using raw_of_ext [OF stored_ext(2)] stored_ext(5) stored_ext.IH by (cases raw) simp
  then show ?case using retrieve_content [OF ca stored_ext(1)] stored_ext.IH by auto
next
  case (stored_branch h bytes raw cs w ts)
  have st: "stored trie h (TBranch ts w)" by (rule stored.stored_branch) (use stored_branch in auto)
  have "t_mem vr_length (t_refs sha vs (TBranch ts w)) = mem (TBranch ts w)" by (rule stored_refs_mem [OF st])
  moreover have "cs = map (child_hash sha ser \<circ> t_refs sha vs) ts"
  proof (rule nth_equalityI)
    fix j assume "j < length cs"
    then have j: "j < 16" using stored_branch(3) by simp
    show "cs ! j = map (child_hash sha ser \<circ> t_refs sha vs) ts ! j"
    proof (cases "cs ! j")
      case (Some c)
      then show ?thesis using stored_branch.IH [OF j Some] stored_nonempty [OF stored_branch(7) [OF j Some]] j stored_branch(4) by simp
    qed (use stored_branch j in simp)
  qed (use stored_branch in simp)
  ultimately have "raw = t_raw sha ser (t_refs sha vs (TBranch ts w))"
    using raw_of_branch [OF stored_branch(2), of sha vs] stored_branch(5) by (cases raw) simp
  moreover have "\<forall>n \<in> t_nodes sha ser (t_refs sha vs (ts ! j)). dt_storage trie (sha (ser n)) = Inr (ser n) \<and> dt_decode trie (ser n) = Some n \<and> sha (ser n) \<noteq> empty_root" if "j < 16" for j
    using that stored_branch(6) [of j] stored_branch.IH [of j] by (cases "cs ! j") auto
  then have "\<forall>t \<in> set ts. \<forall>n \<in> t_nodes sha ser (t_refs sha vs t). dt_storage trie (sha (ser n)) = Inr (ser n) \<and> dt_decode trie (ser n) = Some n \<and> sha (ser n) \<noteq> empty_root"
    using stored_branch(4) by (auto simp: in_set_conv_nth)
  ultimately show ?case using retrieve_content [OF ca stored_branch(1)] by (auto simp del: t_mem.simps)
qed

section \<open>What flattening writes\<close>

definition add_all :: "sha256 \<Rightarrow> byte list list \<Rightarrow> refcount_map \<Rightarrow> refcount_map" where
  "add_all sha bs m = fold (\<lambda>b. refcount_add (sha b) b 1) bs m"

lemma add_all_simps [simp]:
  "add_all sha [] m = m" "add_all sha (bs @ bs') m = add_all sha bs' (add_all sha bs m)" "add_all sha [b] m = refcount_add (sha b) b 1 m"
  by (simp_all add: add_all_def)

text \<open>The values of a trie that an update has brought in.\<close>

definition new_values :: "byte list option list \<Rightarrow> value_handle trie \<Rightarrow> byte list set" where
  "new_values vs t = {v. \<exists>i n. InMemory i n \<in> set_trie t \<and> v = the (vs ! i)}"

text \<open>
  The data written for some tries: encodings of their nodes and new values only, all new values, and
  every node that is not in the storage.
\<close>

definition writes ::
  "sha256 \<Rightarrow> node_encoding \<Rightarrow> disk_trie \<Rightarrow> byte list option list \<Rightarrow> value_handle trie set \<Rightarrow> byte list list \<Rightarrow> bool" where
  "writes sha ser trie vs S bs \<longleftrightarrow>
     (\<forall>b \<in> set bs. \<exists>t \<in> S. b \<in> ser ` t_nodes sha ser (t_refs sha vs t) \<or> b \<in> new_values vs t) \<and>
     (\<forall>t \<in> S. new_values vs t \<subseteq> set bs) \<and>
     (\<forall>t \<in> S. \<forall>n \<in> t_nodes sha ser (t_refs sha vs t). ser n \<in> set bs \<or>
        dt_storage trie (sha (ser n)) = Inr (ser n) \<and> dt_decode trie (ser n) = Some n \<and> sha (ser n) \<noteq> empty_root)"

lemma writes_none [simp]: "writes sha ser trie vs {} []"
  by (simp add: writes_def)

lemma writes_union: "writes sha ser trie vs S bs \<Longrightarrow> writes sha ser trie vs S' bs' \<Longrightarrow> writes sha ser trie vs (S \<union> S') (bs @ bs')"
  unfolding writes_def by (auto simp: subset_iff) blast+

lemma writes_empty: "writes sha ser trie vs {TEmpty} []"
  by (simp add: writes_def new_values_def)

lemma writes_stored:
  assumes "content_addressed sha ser trie" and "stored trie h t"
  shows "writes sha ser trie vs {t} []"
  using stored_hash [OF assms, of vs] stored_handles [OF assms(2)] by (auto simp: writes_def new_values_def)

lemma writes_node:
  assumes "writes sha ser trie vs S bs" and "t \<noteq> TEmpty"
    and "t_nodes sha ser (t_refs sha vs t) = insert (t_raw sha ser (t_refs sha vs t)) (\<Union>s \<in> S. t_nodes sha ser (t_refs sha vs s))"
    and "new_values vs t = set cs \<union> (\<Union>s \<in> S. new_values vs s)"
  shows "writes sha ser trie vs {t} (bs @ cs @ [ser (t_raw sha ser (t_refs sha vs t))])"
proof -
  note w = assms(1) [unfolded writes_def]
  have "b \<in> ser ` t_nodes sha ser (t_refs sha vs t) \<or> b \<in> new_values vs t" if "b \<in> set (bs @ cs @ [ser (t_raw sha ser (t_refs sha vs t))])" for b
  proof -
    consider "b \<in> set bs" | "b \<in> set cs" | "b = ser (t_raw sha ser (t_refs sha vs t))" using \<open>b \<in> set _\<close> by auto
    then show ?thesis
    proof cases
      case 1
      then obtain s where "s \<in> S" "b \<in> ser ` t_nodes sha ser (t_refs sha vs s) \<or> b \<in> new_values vs s" using w by blast
      then show ?thesis unfolding assms(3,4) by blast
    qed (use assms(3,4) in auto)
  qed
  moreover have "new_values vs t \<subseteq> set (bs @ cs @ [ser (t_raw sha ser (t_refs sha vs t))])" using w unfolding assms(4) by auto
  moreover have "ser n \<in> set (bs @ cs @ [ser (t_raw sha ser (t_refs sha vs t))]) \<or>
      dt_storage trie (sha (ser n)) = Inr (ser n) \<and> dt_decode trie (ser n) = Some n \<and> sha (ser n) \<noteq> empty_root"
    if "n \<in> t_nodes sha ser (t_refs sha vs t)" for n
    using that w unfolding assms(3) by auto
  ultimately show ?thesis by (simp add: writes_def)
qed

abbreviation upd :: "node_vec \<Rightarrow> byte list option list \<Rightarrow> refcount_map \<Rightarrow> trie_storage_update" where
  "upd nodes vs m \<equiv> \<lparr> tu_nodes = nodes, tu_values = vs, tu_refcount_changes = m \<rparr>"

text \<open>Flattening from an updated node on: the hash of its trie, and what has been written.\<close>

definition flattens ::
  "sha256 \<Rightarrow> node_encoding \<Rightarrow> disk_trie \<Rightarrow> node_vec \<Rightarrow> byte list option list \<Rightarrow> nat \<Rightarrow> value_handle trie \<Rightarrow> bool" where
  "flattens sha ser trie nodes vs i t \<longleftrightarrow> (\<forall>stack lh m. \<exists>bs. writes sha ser trie vs {t} bs \<and>
     flatten_loop sha ser ((i, Entering) # stack) lh (upd nodes vs m) =
     flatten_loop sha ser stack (t_hash sha ser (t_refs sha vs t)) (upd nodes vs (add_all sha bs m)))"

lemma flatten_loop_step:
  "flatten_step sha ser i p (stack, lh, u) = Some (stack', lh2, u') \<Longrightarrow>
   flatten_loop sha ser ((i, p) # stack) lh u = flatten_loop sha ser stack' lh2 u'"
  by (subst flatten_loop.simps) simp

fun value_writes :: "byte list option list \<Rightarrow> value_handle \<Rightarrow> byte list list" where
  "value_writes vs (InMemory i n) = [the (vs ! i)]"
| "value_writes vs (HashAndSize r) = []"

lemma flatten_value_ok:
  "handle_ok vs h \<Longrightarrow> flatten_value sha (upd nodes vs m) h = Some (resolve sha vs h, upd nodes vs (add_all sha (value_writes vs h) m))"
  by (cases h) (auto simp: value_ref_of_def hash_bytes_def Let_def)

lemma new_values_of_handle: "{v. \<exists>i n. InMemory i n = h \<and> v = the (vs ! i)} = set (value_writes vs h)"
  by (cases h) auto

lemma flatten_emit_ok:
  "flatten_emit sha ser (t_node sha ser t) (t_mem vr_length t) stack (upd nodes vs m) =
   (stack, sha (ser (t_raw sha ser t)), upd nodes vs (add_all sha [ser (t_raw sha ser t)] m))"
  by (simp add: flatten_emit_def hash_bytes_def Let_def)

lemma get_upd: "at_node nodes i n \<Longrightarrow> get_node_ref (upd nodes vs m) i = Some n"
  by (rule get_node_ref_ok) simp

lemma flattens_empty: "at_node nodes i empty_node \<Longrightarrow> flattens sha ser trie nodes vs i TEmpty"
proof -
  assume at: "at_node nodes i empty_node"
  have "un_node empty_node = Empty" by (simp add: empty_node_def)
  then have "flatten_step sha ser i Entering (stack, lh, upd nodes vs m) = Some (stack, empty_root, upd nodes vs m)" for stack lh m
    by (simp add: flatten_step_def get_upd [OF at] Let_def)
  from flatten_loop_step [OF this] show ?thesis unfolding flattens_def by (intro allI exI [of _ "[]"]) (simp add: writes_empty)
qed

lemma flattens_leaf:
  assumes at: "at_node nodes i (with_size (Leaf (hex_prefix e True) v) (mem (TLeaf e v)))" and h: "handle_ok vs v"
  shows "flattens sha ser trie nodes vs i (TLeaf e v)"
  unfolding flattens_def
proof (intro allI)
  fix stack lh m
  let ?t = "TLeaf e v" let ?r = "t_refs sha vs ?t" let ?bs = "[] @ value_writes vs v @ [ser (t_raw sha ser ?r)]"
  have "writes sha ser trie vs {?t} ?bs" by (rule writes_node [OF writes_none]) (auto simp: new_values_def new_values_of_handle [symmetric])
  moreover have "mem ?t = t_mem vr_length ?r" using handle_len [OF h, of sha] by simp
  then have "flatten_step sha ser i Entering (stack, lh, upd nodes vs m) = Some (stack, t_hash sha ser ?r, upd nodes vs (add_all sha ?bs m))"
    using flatten_emit_ok [of sha ser ?r stack nodes vs "add_all sha (value_writes vs v) m"]
    by (simp add: flatten_step_def get_upd [OF at] flatten_value_ok [OF h] t_hash_raw Let_def del: t_mem.simps t_hash.simps)
  ultimately show "\<exists>bs. writes sha ser trie vs {?t} bs \<and> flatten_loop sha ser ((i, Entering) # stack) lh (upd nodes vs m) =
      flatten_loop sha ser stack (t_hash sha ser ?r) (upd nodes vs (add_all sha bs m))"
    using flatten_loop_step by blast
qed

lemma flattens_ext:
  assumes ca: "content_addressed sha ser trie" and at: "at_node nodes i (with_size (Extension (hex_prefix e False) p) (mem (TExt e t)))"
    and h: "\<forall>v \<in> set_trie t. handle_ok vs v" and p: "repr trie nodes p t F" and c: "\<And>c. p = Updated c \<Longrightarrow> flattens sha ser trie nodes vs c t"
  shows "flattens sha ser trie nodes vs i (TExt e t)"
  unfolding flattens_def
proof (intro allI)
  fix stack lh m
  let ?t = "TExt e t" let ?r = "t_refs sha vs ?t"
  have node: "writes sha ser trie vs {?t} (bs @ [] @ [ser (t_raw sha ser ?r)])" if "writes sha ser trie vs {t} bs" for bs
    by (rule writes_node [OF that]) (auto simp: new_values_def)
  have mem: "mem ?t = t_mem vr_length ?r" using t_refs_mem [of ?t vs sha] h by simp
  have "\<exists>bs. writes sha ser trie vs {t} bs \<and> flatten_loop sha ser ((i, Entering) # stack) lh (upd nodes vs m) =
      flatten_loop sha ser stack (t_hash sha ser ?r) (upd nodes vs (add_all sha (bs @ [] @ [ser (t_raw sha ser ?r)]) m))"
  proof (cases p)
    case (Old x)
    then have st: "stored trie x t" using p by (auto elim: repr_OldE)
    have "flatten_step sha ser i Entering (stack, lh, upd nodes vs m) = Some (stack, t_hash sha ser ?r, upd nodes vs (add_all sha [ser (t_raw sha ser ?r)] m))"
      using flatten_emit_ok [of sha ser ?r stack nodes vs m] stored_hash [OF ca st, of vs]
      by (simp add: flatten_step_def get_upd [OF at] flatten_extension_def Old t_hash_raw mem Let_def del: t_mem.simps)
    then show ?thesis using writes_stored [OF ca st, of vs] flatten_loop_step by (intro exI [of _ "[]"]) simp
  next
    case (Updated x)
    obtain bs where bs: "writes sha ser trie vs {t} bs" "flatten_loop sha ser ((x, Entering) # (i, Exiting) # stack) lh (upd nodes vs m) =
        flatten_loop sha ser ((i, Exiting) # stack) (t_hash sha ser (t_refs sha vs t)) (upd nodes vs (add_all sha bs m))"
      using c [OF Updated] unfolding flattens_def by metis
    have 1: "flatten_step sha ser i Entering (stack, lh, upd nodes vs m) = Some ((x, Entering) # (i, Exiting) # stack, lh, upd nodes vs m)"
      by (simp add: flatten_step_def get_upd [OF at] flatten_extension_def Updated Let_def)
    have 2: "flatten_step sha ser i Exiting (stack, t_hash sha ser (t_refs sha vs t), upd nodes vs (add_all sha bs m)) =
        Some (stack, t_hash sha ser ?r, upd nodes vs (add_all sha (bs @ [] @ [ser (t_raw sha ser ?r)]) m))"
      using flatten_emit_ok [of sha ser ?r stack nodes vs "add_all sha bs m"]
      by (simp add: flatten_step_def get_upd [OF at] flatten_extension_def t_hash_raw mem Let_def del: t_mem.simps)
    show ?thesis using bs flatten_loop_step [OF 1] flatten_loop_step [OF 2] by (intro exI [of _ bs]) simp
  qed
  then show "\<exists>bs. writes sha ser trie vs {?t} bs \<and> flatten_loop sha ser ((i, Entering) # stack) lh (upd nodes vs m) =
      flatten_loop sha ser stack (t_hash sha ser ?r) (upd nodes vs (add_all sha bs m))"
    using node by blast
qed

text \<open>The children of a branch, from one position on.\<close>

definition partly :: "crypto_hash option list \<Rightarrow> nat \<Rightarrow> crypto_hash option list" where
  "partly hs j = take j hs @ replicate (16 - j) None"

lemma partly_set: "length hs = 16 \<Longrightarrow> j < 16 \<Longrightarrow> (partly hs j)[j := hs ! j] = partly hs (Suc j)"
  by (auto simp: partly_def list_eq_iff_nth_eq nth_append nth_list_update min_def)

lemma partly_none: "length hs = 16 \<Longrightarrow> j < 16 \<Longrightarrow> hs ! j = None \<Longrightarrow> partly hs j = partly hs (Suc j)"
proof -
  assume a: "length hs = 16" "j < 16" "hs ! j = None"
  then have "partly hs j ! j = None" by (simp add: partly_def nth_append)
  then show ?thesis using partly_set [OF a(1,2)] a(3) by (metis list_update_id)
qed

lemma partly_length [simp]: "length hs = 16 \<Longrightarrow> j \<le> 16 \<Longrightarrow> length (partly hs j) = 16"
  by (simp add: partly_def)

lemma flatten_children_ok:
  assumes "length cs = 16" and "length hs = 16" and "\<And>l. l < 16 \<Longrightarrow> cs ! l = None \<Longrightarrow> hs ! l = None"
    and "\<And>l h. l < 16 \<Longrightarrow> cs ! l = Some (Old h) \<Longrightarrow> hs ! l = Some h" and "j \<le> 16"
  shows "(\<exists>k c. j \<le> k \<and> k < 16 \<and> cs ! k = Some (Updated c) \<and> (\<forall>l c. j \<le> l \<and> l < k \<longrightarrow> cs ! l \<noteq> Some (Updated c)) \<and>
      flatten_children cs (partly hs j) j = Some (Inl (partly hs k, Suc k, c))) \<or>
    (\<forall>l c. j \<le> l \<and> l < 16 \<longrightarrow> cs ! l \<noteq> Some (Updated c)) \<and> flatten_children cs (partly hs j) j = Some (Inr hs)"
  using assms(5)
proof (induction j rule: inc_induct)
  case base
  then show ?case using assms(2) by (auto simp: flatten_children.simps num_children_def partly_def)
next
  case (step j)
  have skip: ?case if "flatten_children cs (partly hs j) j = flatten_children cs (partly hs (Suc j)) (Suc j)" "\<And>c. cs ! j \<noteq> Some (Updated c)"
    using step.IH that unfolding that(1) by (metis Suc_leD Suc_leI le_neq_implies_less)
  show ?case
  proof (cases "cs ! j")
    case None
    then have "flatten_children cs (partly hs j) j = flatten_children cs (partly hs j) (Suc j)"
      using step(2) assms(1) by (subst flatten_children.simps) (simp add: num_children_def)
    then show ?thesis using None partly_none [OF assms(2) step(2)] assms(3) step(2) by (intro skip) simp_all
  next
    case (Some p)
    show ?thesis
    proof (cases p)
      case (Old h)
      then have "hs ! j = Some h" using assms(4) step(2) Some by simp
      then have "(partly hs j)[j := Some h] = partly hs (Suc j)" using partly_set [OF assms(2) step(2)] by simp
      then show ?thesis using step(2) assms(1,2) Some Old
        by (intro skip) (simp_all add: flatten_children.simps [of cs "partly hs j"] num_children_def)
    next
      case (Updated c)
      then have "flatten_children cs (partly hs j) j = Some (Inl (partly hs j, Suc j, c))"
        using step(2) assms(1) Some by (subst flatten_children.simps) (simp add: num_children_def)
      then show ?thesis using step(2) Some Updated by (intro disjI1) auto
    qed
  qed
qed

lemma flattens_children:
  assumes ca: "content_addressed sha ser trie" and at: "at_node nodes i (with_size (Branch cs w) (mem (TBranch ts w)))"
    and kd: "kids trie nodes i cs ts Fs UNIV" and h: "\<forall>v \<in> set_trie (TBranch ts w). handle_ok vs v"
    and c: "\<And>j c. j < 16 \<Longrightarrow> cs ! j = Some (Updated c) \<Longrightarrow> flattens sha ser trie nodes vs c (ts ! j)"
  defines "r \<equiv> t_refs sha vs (TBranch ts w)" and "hs \<equiv> map (child_hash sha ser \<circ> t_refs sha vs) ts"
    and "vw \<equiv> (case w of None \<Rightarrow> [] | Some v \<Rightarrow> value_writes vs v)"
  assumes "j \<le> 16" and "(if j = 0 then nc else if cs ! (j - 1) = None then nc else nc[j - 1 := Some lh]) = partly hs j" and "length nc = 16"
  shows "\<exists>bs. writes sha ser trie vs (set (drop j ts)) bs \<and>
    flatten_loop sha ser ((i, AtChild nc j) # stack) lh (upd nodes vs m) =
    flatten_loop sha ser stack (t_hash sha ser r) (upd nodes vs (add_all sha (bs @ vw @ [ser (t_raw sha ser r)]) m))"
  using assms(9-)
proof (induction "16 - j" arbitrary: j nc lh m rule: less_induct)
  case less
  have len: "length cs = 16" "length ts = 16" "length hs = 16" using kd by (simp_all add: kids_def hs_def)
  have hs: "hs ! l = child_hash sha ser (t_refs sha vs (ts ! l))" if "l < 16" for l using that len by (simp add: hs_def)
  have none: "ts ! l = TEmpty" if "l < 16" "cs ! l = None" for l using kids_child(1) [OF kd that(1)] that(2) by simp
  have old: "stored trie x (ts ! l)" if "l < 16" "cs ! l = Some (Old x)" for l x
    using kids_child(2) [OF kd that(1)] that(2) by (auto elim: repr_OldE)
  have old_hash: "hs ! l = Some x" if "l < 16" "cs ! l = Some (Old x)" for l x
    using stored_hash [OF ca old [OF that], of vs] stored_nonempty [OF old [OF that]] hs [OF that(1)] by simp
  have untouched: "writes sha ser trie vs {ts ! l} []" if l: "l < 16" and nu: "\<And>c. cs ! l \<noteq> Some (Updated c)" for l
  proof (cases "cs ! l")
    case None
    then show ?thesis using none [OF l] writes_empty by simp
  next
    case (Some p)
    then obtain x where "p = Old x" using nu by (cases p) auto
    then show ?thesis using writes_stored [OF ca old [OF l]] Some by simp
  qed
  have between: "writes sha ser trie vs (set (drop j (take k ts))) []" if k: "k \<le> 16" and nu: "\<forall>l c. j \<le> l \<and> l < k \<longrightarrow> cs ! l \<noteq> Some (Updated c)" for k
  proof -
    have "writes sha ser trie vs {t} []" if t: "t \<in> set (drop j (take k ts))" for t
    proof -
      obtain l where "t = ts ! l" "j \<le> l" "l < k" using t k len(2) by (auto simp: in_set_conv_nth)
      then show ?thesis using untouched [of l] nu k by auto
    qed
    then show ?thesis unfolding writes_def by fastforce
  qed
  have mem: "mem (TBranch ts w) = t_mem vr_length r" using t_refs_mem [OF h, of sha] by (simp only: r_def)
  have fixup: "(if j = 0 then Some nc else do { child \<leftarrow> vec_get cs (j - 1); if child = None then Some nc else vec_set nc (j - 1) (Some lh) }) = Some (partly hs j)"
    using less.prems len by auto
  have step: "flatten_step sha ser i (AtChild nc j) (stack, lh, upd nodes vs m) = (do {
      x \<leftarrow> flatten_children cs (partly hs j) j;
      case x of Inl (nc, k, c) \<Rightarrow> Some ((c, Entering) # (i, AtChild nc k) # stack, lh, upd nodes vs m)
      | Inr nc \<Rightarrow> do {
          (new_value, u) \<leftarrow> (case w of None \<Rightarrow> Some (None, upd nodes vs m)
            | Some v \<Rightarrow> do { (v, u) \<leftarrow> flatten_value sha (upd nodes vs m) v; Some (Some v, u) });
          Some (flatten_emit sha ser (raw_branch nc new_value) (mem (TBranch ts w)) stack u) } })" for m
    using fixup by (simp add: flatten_step_def get_upd [OF at] flatten_branch_def Let_def del: t_mem.simps)
  consider (child) k c where "j \<le> k" "k < 16" "cs ! k = Some (Updated c)" "\<forall>l c. j \<le> l \<and> l < k \<longrightarrow> cs ! l \<noteq> Some (Updated c)"
      "flatten_children cs (partly hs j) j = Some (Inl (partly hs k, Suc k, c))" |
    (finish) "\<forall>l c. j \<le> l \<and> l < 16 \<longrightarrow> cs ! l \<noteq> Some (Updated c)" "flatten_children cs (partly hs j) j = Some (Inr hs)"
  proof -
    have "hs ! l = None" if "l < 16" "cs ! l = None" for l using none [OF that] hs [OF that(1)] by simp
    from flatten_children_ok [OF len(1,3) this old_hash less.prems(1)] show thesis using that by blast
  qed
  then show ?case
  proof cases
    case child
    let ?h = "t_hash sha ser (t_refs sha vs (ts ! k))"
    have 1: "flatten_step sha ser i (AtChild nc j) (stack, lh, upd nodes vs m) = Some ((c, Entering) # (i, AtChild (partly hs k) (Suc k)) # stack, lh, upd nodes vs m)"
      by (simp add: step child)
    obtain bs1 where bs1: "writes sha ser trie vs {ts ! k} bs1" "flatten_loop sha ser ((c, Entering) # (i, AtChild (partly hs k) (Suc k)) # stack) lh (upd nodes vs m) =
        flatten_loop sha ser ((i, AtChild (partly hs k) (Suc k)) # stack) ?h (upd nodes vs (add_all sha bs1 m))"
      using c [OF child(2,3)] unfolding flattens_def by metis
    have ne: "ts ! k \<noteq> TEmpty" using kids_child(2) [OF kd child(2)] child(3) by simp
    then have "(partly hs k)[k := Some ?h] = partly hs (Suc k)" using partly_set [OF len(3) child(2)] hs [OF child(2)] by simp
    moreover have "15 - k < 16 - j" using child(1,2) by linarith
    ultimately obtain bs2 where bs2: "writes sha ser trie vs (set (drop (Suc k) ts)) bs2" "flatten_loop sha ser ((i, AtChild (partly hs k) (Suc k)) # stack) ?h (upd nodes vs (add_all sha bs1 m)) =
        flatten_loop sha ser stack (t_hash sha ser r) (upd nodes vs (add_all sha (bs2 @ vw @ [ser (t_raw sha ser r)]) (add_all sha bs1 m)))"
      using less.hyps [of "Suc k" "partly hs k" ?h "add_all sha bs1 m"] child(1-3) len(3) by auto
    have "drop j ts = drop j (take k ts) @ ts ! k # drop (Suc k) ts"
      using child(1,2) len(2) by (metis Cons_nth_drop_Suc append_take_drop_id drop_append length_take min.absorb2 less_imp_le drop0 diff_is_0_eq')
    then have "set (drop j ts) = set (drop j (take k ts)) \<union> ({ts ! k} \<union> set (drop (Suc k) ts))" by simp
    then have "writes sha ser trie vs (set (drop j ts)) ([] @ bs1 @ bs2)"
      using writes_union [OF between [of k] writes_union [OF bs1(1) bs2(1)]] child(2,4) by simp
    then show ?thesis using flatten_loop_step [OF 1] bs1(2) bs2(2) by (intro exI [of _ "bs1 @ bs2"]) simp
  next
    case finish
    have "flatten_step sha ser i (AtChild nc j) (stack, lh, upd nodes vs m) = Some (stack, t_hash sha ser r, upd nodes vs (add_all sha (vw @ [ser (t_raw sha ser r)]) m))"
    proof -
      have "(case w of None \<Rightarrow> Some (None, upd nodes vs m) | Some v \<Rightarrow> do { (v, u) \<leftarrow> flatten_value sha (upd nodes vs m) v; Some (Some v, u) }) =
          Some (map_option (resolve sha vs) w, upd nodes vs (add_all sha vw m))"
        using h flatten_value_ok by (cases w) (auto simp: vw_def)
      moreover have "raw_branch hs (map_option (resolve sha vs) w) = t_node sha ser r" by (simp add: r_def hs_def)
      moreover have "t_hash sha ser r = sha (ser (t_raw sha ser r))" by (rule t_hash_raw) (simp add: r_def)
      ultimately show ?thesis using flatten_emit_ok [of sha ser r stack nodes vs "add_all sha vw m"]
        by (simp add: step finish(2) mem del: t_mem.simps)
    qed
    moreover have "writes sha ser trie vs (set (drop j ts)) []" using between [of 16] finish(1) len(2) by simp
    ultimately show ?thesis using flatten_loop_step by (intro exI [of _ "[]"]) simp
  qed
qed

lemma flattens_branch:
  assumes ca: "content_addressed sha ser trie" and at: "at_node nodes i (with_size (Branch cs w) (mem (TBranch ts w)))"
    and kd: "kids trie nodes i cs ts Fs UNIV" and h: "\<forall>v \<in> set_trie (TBranch ts w). handle_ok vs v"
    and c: "\<And>j c. j < 16 \<Longrightarrow> cs ! j = Some (Updated c) \<Longrightarrow> flattens sha ser trie nodes vs c (ts ! j)"
  shows "flattens sha ser trie nodes vs i (TBranch ts w)"
  unfolding flattens_def
proof (intro allI)
  fix stack lh m
  let ?t = "TBranch ts w" let ?r = "t_refs sha vs ?t" let ?vw = "case w of None \<Rightarrow> [] | Some v \<Rightarrow> value_writes vs v"
  have enter: "flatten_step sha ser i Entering (stack, lh, upd nodes vs m) = Some ((i, AtChild (replicate 16 None) 0) # stack, lh, upd nodes vs m)"
    by (simp add: flatten_step_def get_upd [OF at] flatten_branch_def Let_def num_children_def)
  obtain bs where bs: "writes sha ser trie vs (set (drop 0 ts)) bs" "flatten_loop sha ser ((i, AtChild (replicate 16 None) 0) # stack) lh (upd nodes vs m) =
      flatten_loop sha ser stack (t_hash sha ser ?r) (upd nodes vs (add_all sha (bs @ ?vw @ [ser (t_raw sha ser ?r)]) m))"
    using flattens_children [OF ca at kd h c, of 0 "replicate 16 None" lh stack m] unfolding partly_def by fastforce
  have "writes sha ser trie vs {?t} (bs @ ?vw @ [ser (t_raw sha ser ?r)])"
  proof (rule writes_node)
    show "writes sha ser trie vs (set ts) bs" using bs(1) by simp
    show "new_values vs ?t = set ?vw \<union> (\<Union>s \<in> set ts. new_values vs s)"
    proof (cases w)
      case (Some a)
      have "new_values vs ?t = {v. \<exists>i n. InMemory i n = a \<and> v = the (vs ! i)} \<union> (\<Union>s \<in> set ts. new_values vs s)"
        unfolding new_values_def Some by auto blast+
      then show ?thesis unfolding new_values_of_handle by (simp add: Some)
    qed (auto simp: new_values_def)
  qed auto
  then show "\<exists>bs. writes sha ser trie vs {?t} bs \<and> flatten_loop sha ser ((i, Entering) # stack) lh (upd nodes vs m) =
      flatten_loop sha ser stack (t_hash sha ser ?r) (upd nodes vs (add_all sha bs m))"
    using flatten_loop_step [OF enter] bs(2) by metis
qed

lemma repr_flattens:
  assumes ca: "content_addressed sha ser trie" and "repr trie nodes p t F" and "\<forall>v \<in> set_trie t. handle_ok vs v" and "p = Updated i"
  shows "flattens sha ser trie nodes vs i t"
  using assms(2-)
proof (induction arbitrary: i rule: repr.induct)
  case (repr_ext i e p t F)
  then show ?case using flattens_ext [OF ca repr_ext(1) _ repr_ext(4)] by simp
next
  case (repr_branch i cs w ts Fs)
  have "kids trie nodes i cs ts Fs UNIV" using repr_branch by (simp add: kids_def split: option.splits)
  moreover have "flattens sha ser trie nodes vs c (ts ! j)" if "j < 16" "cs ! j = Some (Updated c)" for j c
  proof (rule repr_branch.IH [OF that])
    have "ts ! j \<in> set ts" using that(1) repr_branch(3) by simp
    then show "\<forall>v \<in> set_trie (ts ! j). handle_ok vs v" using repr_branch.prems(1) by auto
  qed simp
  ultimately show ?case using flattens_branch [OF ca repr_branch(1)] repr_branch.prems by simp
qed (simp_all add: flattens_empty flattens_leaf)

end
