(* ===== verification/Raw_Node.thy ===== *)
theory Raw_Node
  imports Trie_Flatten
begin

text \<open>
  The stored form of trie nodes (\<open>core/store/src/trie/raw_node.rs\<close>): the hand-written encoding of the children
  of a branch, with its bitmap, and the encoding of nodes that Borsh derives from their types.  The encoding of the child
  type is a parameter of the children.  Borsh writes integers in little-endian order, a vector as its length in four
  bytes followed by its elements, an array as its elements, the fields of a struct in order, and an enum as
  its discriminant in one byte followed by the fields.  A writer returns \<open>None\<close> for a vector that is too long, a
  reader for bytes it cannot decode; otherwise a reader also gives the bytes it leaves.

  The law of an encoding is stated once, as a locale, and proved for each type from its parts.  The theories of the trie take the encoding
  and decoding of nodes as parameters; the last section shows that the functions of this theory satisfy what they ask.
\<close>

section \<open>Integers, byte strings and hashes\<close>

type_synonym 'a writer = "'a \<Rightarrow> byte list option"
type_synonym 'a reader = "byte list \<Rightarrow> ('a \<times> byte list) option"

definition int_serialize :: "nat \<Rightarrow> nat writer" where
  "int_serialize k n = Some (to_le_bytes k n)"

definition int_deserialize :: "nat \<Rightarrow> nat reader" where
  "int_deserialize k rd = (if length rd < k then None else Some (from_le_bytes (take k rd), drop k rd))"

definition hash_serialize :: "crypto_hash writer" where
  "hash_serialize h = Some h"

definition hash_deserialize :: "crypto_hash reader" where
  "hash_deserialize rd = (if length rd < crypto_hash_length then None else Some (take crypto_hash_length rd, drop crypto_hash_length rd))"

definition key_serialize :: "nat list writer" where
  "key_serialize key =
     do {
       assert (fits u32_w (length key));
       len \<leftarrow> int_serialize 4 (length key);
       Some (len @ map of_nat key)
     }"

definition key_deserialize :: "nat list reader" where
  "key_deserialize rd =
     do {
       (len, rd) \<leftarrow> int_deserialize 4 rd;
       assert (len \<le> length rd);
       Some (map unat (take len rd), drop len rd)
     }"

definition value_ref_serialize :: "value_ref writer" where
  "value_ref_serialize v = do { len \<leftarrow> int_serialize 4 (vr_length v); h \<leftarrow> hash_serialize (vr_hash v); Some (len @ h) }"

definition value_ref_deserialize :: "value_ref reader" where
  "value_ref_deserialize rd =
     do {
       (len, rd) \<leftarrow> int_deserialize 4 rd;
       (h, rd) \<leftarrow> hash_deserialize rd;
       Some (\<lparr> vr_length = len, vr_hash = h \<rparr>, rd)
     }"

section \<open>The children of a branch\<close>

text \<open>The bitmap is a 16-bit integer, and so is the position, from which the last shift drops the bit.\<close>

fun children_bitmap :: "'t option list \<Rightarrow> nat \<Rightarrow> nat \<Rightarrow> nat" where
  "children_bitmap [] bitmap pos = bitmap"
| "children_bitmap (child # children) bitmap pos =
     children_bitmap children (if child \<noteq> None then or bitmap pos else bitmap) (take_bit 16 (push_bit 1 pos))"

definition children_serialize :: "'t writer \<Rightarrow> 't option list writer" where
  "children_serialize ser children =
     do {
       bitmap \<leftarrow> int_serialize 2 (children_bitmap children 0 1);
       bodies \<leftarrow> those (map ser (List.map_filter id children));
       Some (bitmap @ concat bodies)
     }"

lemma and_le_nat: "and n m \<le> (m :: nat)"
proof -
  have "int (and n m) \<le> int m" by (simp add: of_nat_and_eq AND_upper2)
  then show ?thesis by simp
qed

lemma and_pred_less: "0 < n \<Longrightarrow> and n (n - Suc 0) < n"
  by (rule le_less_trans [OF and_le_nat]) simp

text \<open>The index of a child is below 16 because the bitmap has 16 bits.\<close>

function children_loop :: "'t reader \<Rightarrow> nat \<Rightarrow> 't option list \<Rightarrow> 't option list reader" where
  "children_loop de bitmap children rd =
     (if bitmap \<noteq> 0 then
        do {
          let idx = trailing_zeros bitmap;
          let bitmap = and bitmap (bitmap - 1);
          (child, rd) \<leftarrow> de rd;
          children_loop de bitmap (children[idx := Some child]) rd
        }
      else Some (children, rd))"
  by auto
termination
  by (relation "measure (\<lambda>(de, bitmap, children, rd). bitmap)") (simp_all add: and_pred_less)

declare children_loop.simps [simp del]

definition children_deserialize :: "'t reader \<Rightarrow> 't option list reader" where
  "children_deserialize de rd =
     do {
       (bitmap, rd) \<leftarrow> int_deserialize 2 rd;
       children_loop de bitmap (replicate 16 None) rd
     }"

section \<open>Nodes\<close>

fun raw_node_serialize :: "raw_trie_node writer" where
  "raw_node_serialize (RawLeaf key value) = do { k \<leftarrow> key_serialize key; v \<leftarrow> value_ref_serialize value; Some (0 # k @ v) }"
| "raw_node_serialize (RawBranchNoValue children) = do { c \<leftarrow> children_serialize hash_serialize children; Some (1 # c) }"
| "raw_node_serialize (RawBranchWithValue value children) =
     do { v \<leftarrow> value_ref_serialize value; c \<leftarrow> children_serialize hash_serialize children; Some (2 # v @ c) }"
| "raw_node_serialize (RawExtension key child) = do { k \<leftarrow> key_serialize key; h \<leftarrow> hash_serialize child; Some (3 # k @ h) }"

fun raw_node_deserialize :: "raw_trie_node reader" where
  "raw_node_deserialize [] = None"
| "raw_node_deserialize (tag # rd) =
     (if tag = 0 then do { (key, rd) \<leftarrow> key_deserialize rd; (value, rd) \<leftarrow> value_ref_deserialize rd; Some (RawLeaf key value, rd) }
      else if tag = 1 then do { (children, rd) \<leftarrow> children_deserialize hash_deserialize rd; Some (RawBranchNoValue children, rd) }
      else if tag = 2 then
        do { (value, rd) \<leftarrow> value_ref_deserialize rd; (children, rd) \<leftarrow> children_deserialize hash_deserialize rd; Some (RawBranchWithValue value children, rd) }
      else if tag = 3 then do { (key, rd) \<leftarrow> key_deserialize rd; (child, rd) \<leftarrow> hash_deserialize rd; Some (RawExtension key child, rd) }
      else None)"

definition raw_to_vec :: "raw_trie_node_with_size writer" where
  "raw_to_vec n = do { node \<leftarrow> raw_node_serialize (rn_node n); mem \<leftarrow> int_serialize 8 (rn_memory_usage n); Some (node @ mem) }"

definition raw_deserialize :: "raw_trie_node_with_size reader" where
  "raw_deserialize rd =
     do {
       (node, rd) \<leftarrow> raw_node_deserialize rd;
       (mem, rd) \<leftarrow> int_deserialize 8 rd;
       Some (\<lparr> rn_node = node, rn_memory_usage = mem \<rparr>, rd)
     }"

text \<open>A slice is decoded when nothing is left of it.\<close>

definition raw_try_from_slice :: "byte list \<Rightarrow> raw_trie_node_with_size option" where
  "raw_try_from_slice bytes = do { (node, rest) \<leftarrow> raw_deserialize bytes; assert (rest = []); Some node }"

definition raw_node_hash :: "sha256 \<Rightarrow> raw_trie_node_with_size \<Rightarrow> crypto_hash option" where
  "raw_node_hash sha n = do { bytes \<leftarrow> raw_to_vec n; Some (hash_bytes sha bytes) }"

section \<open>The law of an encoding\<close>

text \<open>A reader accepts exactly what the writer makes of the values of the type, and leaves the rest.\<close>

locale borsh_codec =
  fixes ser :: "'a writer" and de :: "'a reader" and ok :: "'a \<Rightarrow> bool"
  assumes exact: "de rd = Some (x, rest) \<longleftrightarrow> ok x \<and> (\<exists>b. ser x = Some b \<and> rd = b @ rest)"
begin

lemma read_written: "ok x \<Longrightarrow> ser x = Some b \<Longrightarrow> de (b @ rest) = Some (x, rest)"
  by (simp add: exact)

lemma those_written: "those (map ser xs) = Some bs \<longleftrightarrow> list_all2 (\<lambda>x b. ser x = Some b) xs bs"
proof (induction xs arbitrary: bs)
  case (Cons x xs)
  then show ?case by (cases "ser x") (auto simp: list_all2_Cons1)
qed auto

end

lemma int_exact: "int_deserialize k rd = Some (n, rest) \<longleftrightarrow> n < 256 ^ k \<and> (\<exists>b. int_serialize k n = Some b \<and> rd = b @ rest)"
proof
  assume "int_deserialize k rd = Some (n, rest)"
  then have n: "n = from_le_bytes (take k rd)" "rest = drop k rd" "length (take k rd) = k" by (auto simp: int_deserialize_def split: if_splits)
  then show "n < 256 ^ k \<and> (\<exists>b. int_serialize k n = Some b \<and> rd = b @ rest)"
    using from_le_bytes_lt [of "take k rd"] to_from_le_bytes [of "take k rd"] by (simp add: int_serialize_def)
next
  assume "n < 256 ^ k \<and> (\<exists>b. int_serialize k n = Some b \<and> rd = b @ rest)"
  then show "int_deserialize k rd = Some (n, rest)" by (auto simp: int_serialize_def int_deserialize_def from_to_le_bytes)
qed

interpretation int_codec: borsh_codec "int_serialize k" "int_deserialize k" "\<lambda>n. n < 256 ^ k" for k
  by unfold_locales (rule int_exact)

interpretation hash_codec: borsh_codec hash_serialize hash_deserialize "\<lambda>h. length h = crypto_hash_length"
  by unfold_locales (auto simp: hash_serialize_def hash_deserialize_def)

lemma map_of_nat_unat: "map of_nat (map unat bs) = (bs :: byte list)"
  by (simp add: comp_def)

lemma map_unat_of_nat: "\<forall>n \<in> set key. n < 256 \<Longrightarrow> map unat (map of_nat key :: byte list) = key"
  by (induction key) (simp_all add: unat_of_nat)

interpretation key_codec: borsh_codec key_serialize key_deserialize "\<lambda>key. \<forall>n \<in> set key. n < 256"
proof
  fix rd rest :: "byte list" and key
  show "key_deserialize rd = Some (key, rest) \<longleftrightarrow> (\<forall>n \<in> set key. n < 256) \<and> (\<exists>b. key_serialize key = Some b \<and> rd = b @ rest)"
  proof
    assume "key_deserialize rd = Some (key, rest)"
    then obtain b rd' where b: "int_serialize 4 (length key) = Some b" "rd = b @ rd'" "length key < 256 ^ 4"
      and key: "key = map unat (take (length key) rd')" "rest = drop (length key) rd'"
      by (auto simp: key_deserialize_def bind_eq_Some_conv int_codec.exact)
    have "rd' = map of_nat key @ rest" using key map_of_nat_unat by (metis append_take_drop_id)
    moreover have "\<forall>n \<in> set key. n < 256" using arg_cong [OF key(1), of set] unsigned_less [where 'a = nat and 'b = 8] by auto
    ultimately show "(\<forall>n \<in> set key. n < 256) \<and> (\<exists>b. key_serialize key = Some b \<and> rd = b @ rest)"
      using b by (simp add: key_serialize_def fits_def)
  next
    assume "(\<forall>n \<in> set key. n < 256) \<and> (\<exists>b. key_serialize key = Some b \<and> rd = b @ rest)"
    then obtain b where b: "\<forall>n \<in> set key. n < 256" "length key < 256 ^ 4" "int_serialize 4 (length key) = Some b" "rd = b @ map of_nat key @ rest"
      by (auto simp: key_serialize_def fits_def bind_eq_Some_conv split: if_splits)
    then show "key_deserialize rd = Some (key, rest)"
      using int_codec.read_written [OF b(2,3)] by (simp add: key_deserialize_def map_unat_of_nat del: map_map)
  qed
qed

definition value_ref_ok :: "value_ref \<Rightarrow> bool" where
  "value_ref_ok v \<longleftrightarrow> vr_length v < 2 ^ 32 \<and> length (vr_hash v) = crypto_hash_length"

interpretation value_ref_codec: borsh_codec value_ref_serialize value_ref_deserialize value_ref_ok
proof
  fix rd rest v
  show "value_ref_deserialize rd = Some (v, rest) \<longleftrightarrow> value_ref_ok v \<and> (\<exists>b. value_ref_serialize v = Some b \<and> rd = b @ rest)"
  proof
    assume "value_ref_deserialize rd = Some (v, rest)"
    then show "value_ref_ok v \<and> (\<exists>b. value_ref_serialize v = Some b \<and> rd = b @ rest)"
      by (auto simp: value_ref_serialize_def value_ref_deserialize_def value_ref_ok_def bind_eq_Some_conv int_codec.exact hash_codec.exact)
  next
    assume "value_ref_ok v \<and> (\<exists>b. value_ref_serialize v = Some b \<and> rd = b @ rest)"
    then show "value_ref_deserialize rd = Some (v, rest)"
      by (auto simp: value_ref_serialize_def value_ref_deserialize_def value_ref_ok_def bind_eq_Some_conv int_codec.read_written hash_codec.read_written)
  qed
qed

section \<open>The bitmap\<close>

lemma trailing_zeros_bits:
  "0 < n \<Longrightarrow> bit n (trailing_zeros n) \<and> (\<forall>i. bit n i \<longrightarrow> trailing_zeros n \<le> i) \<and> (\<forall>i. bit (and n (n - Suc 0)) i \<longleftrightarrow> bit n i \<and> i \<noteq> trailing_zeros n)"
proof (induction n rule: less_induct)
  case (less n)
  show ?case
  proof (cases "odd n")
    case True
    then obtain m where m: "n = 2 * m + 1" by (elim oddE)
    have "(bit n i \<longrightarrow> trailing_zeros n \<le> i) \<and> (bit (and n (n - Suc 0)) i \<longleftrightarrow> bit n i \<and> i \<noteq> trailing_zeros n)" for i
      unfolding m bit_and_iff by (cases i) (auto simp: bit_0 bit_Suc)
    then show ?thesis using True by (simp add: bit_0)
  next
    case False
    then obtain m where m: "n = 2 * m" by auto
    have pos: "0 < m" using less.prems m by simp
    have IH: "bit m (trailing_zeros m)" "bit m j \<Longrightarrow> trailing_zeros m \<le> j" "bit (and m (m - Suc 0)) j \<longleftrightarrow> bit m j \<and> j \<noteq> trailing_zeros m" for j
      using less.IH [of m] pos m by simp_all
    have tz: "trailing_zeros n = Suc (trailing_zeros m)" using trailing_zeros_even [of n] m pos by simp
    have "(n - Suc 0) div 2 = m - Suc 0" using pos m by simp
    then have bits: "\<not> bit n 0" "bit n (Suc j) \<longleftrightarrow> bit m j" "bit (n - Suc 0) (Suc j) \<longleftrightarrow> bit (m - Suc 0) j" for j using m by (simp_all add: bit_0 bit_Suc)
    have "(bit n i \<longrightarrow> trailing_zeros n \<le> i) \<and> (bit (and n (n - Suc 0)) i \<longleftrightarrow> bit n i \<and> i \<noteq> trailing_zeros n)" for i
    proof (cases i)
      case 0
      then show ?thesis using bits(1) by (simp add: bit_and_iff)
    next
      case (Suc j)
      then show ?thesis using IH(2) [of j] IH(3) [of j] bits by (simp add: bit_and_iff tz)
    qed
    then show ?thesis using IH(1) tz m by (simp add: bit_Suc)
  qed
qed

lemma trailing_zeros_bit:
  assumes "0 < n"
  shows "bit n (trailing_zeros n)" and "bit n i \<Longrightarrow> trailing_zeros n \<le> i" and "bit (and n (n - Suc 0)) i \<longleftrightarrow> bit n i \<and> i \<noteq> trailing_zeros n"
  using trailing_zeros_bits [OF assms] by blast+

definition positions :: "nat \<Rightarrow> nat list" where
  "positions n = filter (bit n) [0..<16]"

lemma bit_small: "n < 2 ^ 16 \<Longrightarrow> bit n i \<Longrightarrow> i < 16" for n :: nat
  by (metis bit_take_bit_iff take_bit_nat_eq_self)

lemma positions_step:
  assumes "0 < n" and "n < 2 ^ 16"
  shows "positions n = trailing_zeros n # positions (and n (n - Suc 0))"
proof -
  let ?t = "trailing_zeros n"
  note t = trailing_zeros_bit [OF assms(1)]
  have lt: "?t < 16" by (rule bit_small [OF assms(2) t(1)])
  have parts: "[0..<16] = [0..<?t] @ ?t # [Suc ?t..<16]" using lt upt_add_eq_append [of 0 ?t "16 - ?t"] upt_conv_Cons [of ?t 16] by simp
  have "\<not> bit n x" if "x < ?t" for x using that t(2) [of x] by linarith
  then have "filter (bit n) [0..<?t] = []" "filter (bit (and n (n - Suc 0))) [0..<?t] = []" unfolding filter_empty_conv t(3) by simp_all
  moreover have "filter (bit n) [Suc ?t..<16] = filter (bit (and n (n - Suc 0))) [Suc ?t..<16]" using t(3) by (intro filter_cong) auto
  ultimately show ?thesis using t(1) t(3) [of ?t] by (simp add: positions_def parts del: bit_and_iff)
qed

lemma bit_children_bitmap:
  "bit (children_bitmap cs b (take_bit 16 (2 ^ j))) i \<longleftrightarrow> bit b i \<or> j \<le> i \<and> i < 16 \<and> i - j < length cs \<and> cs ! (i - j) \<noteq> None"
proof (induction cs arbitrary: b j)
  case (Cons c cs)
  have "take_bit 16 (push_bit 1 (take_bit 16 (2 ^ j))) = (take_bit 16 (2 ^ Suc j) :: nat)"
    by (rule bit_eqI) (auto simp only: bit_take_bit_iff bit_push_bit_iff bit_exp_iff possible_bit_def; simp)
  moreover have "bit (take_bit 16 (2 ^ j) :: nat) i \<longleftrightarrow> i < 16 \<and> i = j" by (auto simp: bit_simps)
  moreover have "i - j = Suc (i - Suc j)" if "Suc j \<le> i" using that by simp
  ultimately show ?case using Cons.IH [of "if c \<noteq> None then or b (take_bit 16 (2 ^ j)) else b" "Suc j"]
    by (cases "i = j"; cases "Suc j \<le> i") (auto simp: bit_or_iff)
qed simp

lemma bit_bitmap: "bit (children_bitmap cs 0 (Suc 0)) i \<longleftrightarrow> i < 16 \<and> i < length cs \<and> cs ! i \<noteq> None"
  using bit_children_bitmap [of cs 0 0 i] by (auto simp: take_bit_Suc_from_most)

lemma bitmap_less: "children_bitmap cs 0 (Suc 0) < 2 ^ 16"
proof -
  have "take_bit 16 (children_bitmap cs 0 (Suc 0)) = children_bitmap cs 0 (Suc 0)" by (rule bit_eqI) (auto simp: bit_take_bit_iff bit_bitmap)
  then show ?thesis by (metis take_bit_nat_less_exp)
qed

text \<open>Storing values at the positions of a bitmap, and reading them off the list.\<close>

abbreviation scatter :: "nat list \<Rightarrow> 't list \<Rightarrow> 't option list \<Rightarrow> 't option list" where
  "scatter ps xs cs \<equiv> fold (\<lambda>(p, x) cs. cs[p := Some x]) (zip ps xs) cs"

lemma length_scatter [simp]: "length (scatter ps xs cs) = length cs"
  by (induction ps arbitrary: xs cs) (auto split: list.split simp: zip_Cons1)

lemma scatter_nth:
  "length xs = length ps \<Longrightarrow> distinct ps \<Longrightarrow> \<forall>p \<in> set ps. p < length cs \<Longrightarrow> i < length cs \<Longrightarrow>
   scatter ps xs cs ! i = (if i \<in> set ps then map_of (zip ps xs) i else cs ! i)"
proof (induction ps arbitrary: xs cs)
  case (Cons p ps)
  then obtain x ys where "xs = x # ys" by (cases xs) auto
  with Cons show ?case by (auto simp: nth_list_update)
qed simp

lemma filter_id: "List.map_filter id cs = map (\<lambda>i. the (cs ! i)) (filter (\<lambda>i. cs ! i \<noteq> None) [0..<length cs])"
proof (induction cs rule: rev_induct)
  case (snoc c cs)
  have "filter (\<lambda>i. (cs @ [c]) ! i \<noteq> None) [0..<length cs] = filter (\<lambda>i. cs ! i \<noteq> None) [0..<length cs]" by (intro filter_cong) (auto simp: nth_append)
  moreover have "map (\<lambda>i. the ((cs @ [c]) ! i)) (filter (\<lambda>i. cs ! i \<noteq> None) [0..<length cs]) = map (\<lambda>i. the (cs ! i)) (filter (\<lambda>i. cs ! i \<noteq> None) [0..<length cs])"
    by (intro map_cong) (auto simp: nth_append)
  ultimately show ?case using snoc by (cases c) (simp_all add: List.map_filter_def)
qed (simp add: List.map_filter_def)

lemma scatter_gather:
  assumes "length cs = 16"
  shows "scatter (positions (children_bitmap cs 0 (Suc 0))) (List.map_filter id cs) (replicate 16 None) = cs"
    and "length (List.map_filter id cs) = length (positions (children_bitmap cs 0 (Suc 0)))"
proof -
  let ?ps = "filter (\<lambda>i. cs ! i \<noteq> None) [0..<16]"
  have ps: "positions (children_bitmap cs 0 (Suc 0)) = ?ps" unfolding positions_def by (intro filter_cong) (use assms in \<open>auto simp: bit_bitmap\<close>)
  have xs: "List.map_filter id cs = map (\<lambda>i. the (cs ! i)) ?ps" using filter_id [of cs] assms by simp
  show "length (List.map_filter id cs) = length (positions (children_bitmap cs 0 (Suc 0)))" by (simp add: ps xs)
  show "scatter (positions (children_bitmap cs 0 (Suc 0))) (List.map_filter id cs) (replicate 16 None) = cs"
    unfolding ps xs using assms by (intro nth_equalityI) (auto simp: scatter_nth map_of_zip_map)
qed

lemma gather_scatter:
  assumes "n < 2 ^ 16" and "length xs = length (positions n)"
  shows "List.map_filter id (scatter (positions n) xs (replicate 16 None)) = xs" and "children_bitmap (scatter (positions n) xs (replicate 16 None)) 0 (Suc 0) = n"
proof -
  let ?ps = "positions n" let ?cs = "scatter ?ps xs (replicate 16 None)"
  have d: "distinct ?ps" "\<forall>p \<in> set ?ps. p < 16" by (auto simp: positions_def)
  have nth: "?cs ! i = map_of (zip ?ps xs) i" if "i < 16" for i
    using that assms(2) d map_of_zip_is_None [OF assms(2) [symmetric], of i] by (cases "i \<in> set ?ps") (simp_all add: scatter_nth eq_commute [of None])
  have some: "?cs ! i \<noteq> None \<longleftrightarrow> bit n i" if "i < 16" for i
    using that nth [OF that] map_of_zip_is_None [OF assms(2) [symmetric], of i] by (auto simp: positions_def)
  have "filter (\<lambda>i. ?cs ! i \<noteq> None) [0..<16] = filter (bit n) [0..<16]" by (intro filter_cong) (use some in auto)
  then have "List.map_filter id ?cs = map (\<lambda>i. the (?cs ! i)) ?ps" using filter_id [of ?cs] by (simp add: positions_def)
  also have "\<dots> = map (\<lambda>i. the (map_of (zip ?ps xs) i)) ?ps" using nth d by (intro map_cong) auto
  also have "\<dots> = xs" using assms(2) d(1) by (intro nth_equalityI) (auto simp: map_of_zip_nth)
  finally show "List.map_filter id ?cs = xs" .
  show "children_bitmap ?cs 0 (Suc 0) = n" by (rule bit_eqI) (use some bit_small [OF assms(1)] in \<open>auto simp: bit_bitmap\<close>)
qed

text \<open>The loop reads one child per position.\<close>

fun read_children :: "'t reader \<Rightarrow> nat list \<Rightarrow> 't option list \<Rightarrow> 't option list reader" where
  "read_children de [] cs rd = Some (cs, rd)"
| "read_children de (p # ps) cs rd = do { (c, rd) \<leftarrow> de rd; read_children de ps (cs[p := Some c]) rd }"

lemma children_loop_reads: "n < 2 ^ 16 \<Longrightarrow> children_loop de n cs rd = read_children de (positions n) cs rd"
proof (induction n arbitrary: cs rd rule: less_induct)
  case (less n)
  show ?case
  proof (cases "n = 0")
    case True
    then show ?thesis by (simp add: children_loop.simps [of de 0] positions_def)
  next
    case False
    then have n: "0 < n" "and n (n - Suc 0) < n" using and_pred_less by simp_all
    then have "children_loop de (and n (n - Suc 0)) cs rd = read_children de (positions (and n (n - Suc 0))) cs rd" for cs rd
      using less.IH less.prems by simp
    then show ?thesis using n(1) less.prems by (cases "de rd") (auto simp: children_loop.simps [of de n] positions_step Let_def)
  qed
qed

section \<open>The encodings are exact\<close>

definition children_ok :: "('t \<Rightarrow> bool) \<Rightarrow> 't option list \<Rightarrow> bool" where
  "children_ok ok cs \<longleftrightarrow> length cs = 16 \<and> (\<forall>x \<in> set (List.map_filter id cs). ok x)"

context borsh_codec
begin

lemma read_children_exact:
  "read_children de ps cs rd = Some (cs', rest) \<longleftrightarrow>
     (\<exists>xs bs. length xs = length ps \<and> (\<forall>x \<in> set xs. ok x) \<and> those (map ser xs) = Some bs \<and> rd = concat bs @ rest \<and> cs' = scatter ps xs cs)"
proof (induction ps arbitrary: cs rd)
  case (Cons p ps)
  show ?case (is "?L \<longleftrightarrow> ?R")
  proof
    assume ?L
    then obtain c rd' where c: "de rd = Some (c, rd')" "read_children de ps (cs[p := Some c]) rd' = Some (cs', rest)" by (auto simp: bind_eq_Some_conv)
    then obtain b xs bs where "ok c" "ser c = Some b" "rd = b @ rd'" "length xs = length ps" "\<forall>x \<in> set xs. ok x" "those (map ser xs) = Some bs"
      "rd' = concat bs @ rest" "cs' = scatter ps xs (cs[p := Some c])" using Cons.IH by (auto simp: exact)
    then show ?R by (intro exI [of _ "c # xs"] exI [of _ "b # bs"]) simp
  next
    assume ?R
    then obtain c xs b bs where "length xs = length ps" "ok c" "\<forall>x \<in> set xs. ok x" "ser c = Some b" "those (map ser xs) = Some bs" "rd = b @ concat bs @ rest"
      "cs' = scatter ps xs (cs[p := Some c])" by (auto simp: length_Suc_conv split: option.splits)
    then show ?L using Cons.IH read_written by simp blast
  qed
qed auto

lemma children_exact:
  "children_deserialize de rd = Some (cs, rest) \<longleftrightarrow> children_ok ok cs \<and> (\<exists>b. children_serialize ser cs = Some b \<and> rd = b @ rest)"
  (is "?L \<longleftrightarrow> ?R")
proof
  assume ?L
  then obtain n b rd' where n: "n < 2 ^ 16" "int_serialize 2 n = Some b" "rd = b @ rd'" "read_children de (positions n) (replicate 16 None) rd' = Some (cs, rest)"
    by (auto simp: children_deserialize_def bind_eq_Some_conv int_codec.exact children_loop_reads)
  then obtain xs bs where xs: "length xs = length (positions n)" "\<forall>x \<in> set xs. ok x" "those (map ser xs) = Some bs" "rd' = concat bs @ rest"
    "cs = scatter (positions n) xs (replicate 16 None)" by (auto simp: read_children_exact)
  note g = gather_scatter [OF n(1) xs(1), folded xs(5)]
  have "length cs = 16" by (simp add: xs(5))
  then show ?R using n(2,3) xs(2-4) g by (simp add: children_ok_def children_serialize_def)
next
  assume ?R
  then obtain b bs where b: "length cs = 16" "\<forall>x \<in> set (List.map_filter id cs). ok x" "int_serialize 2 (children_bitmap cs 0 (Suc 0)) = Some b"
    "those (map ser (List.map_filter id cs)) = Some bs" "rd = b @ concat bs @ rest"
    by (auto simp: children_ok_def children_serialize_def bind_eq_Some_conv)
  note g = scatter_gather [OF b(1)]
  have "children_bitmap cs 0 (Suc 0) < 256 ^ 2" using bitmap_less [of cs] by simp
  from int_codec.read_written [OF this b(3)] have "int_deserialize 2 rd = Some (children_bitmap cs 0 (Suc 0), concat bs @ rest)" by (simp add: b(5))
  moreover have "read_children de (positions (children_bitmap cs 0 (Suc 0))) (replicate 16 None) (concat bs @ rest) = Some (cs, rest)"
    unfolding read_children_exact using b(2,4) g by metis
  ultimately show ?L by (simp add: children_deserialize_def children_loop_reads [OF bitmap_less])
qed

end

abbreviation hash_ok :: "crypto_hash \<Rightarrow> bool" where
  "hash_ok h \<equiv> length h = crypto_hash_length"

interpretation children_codec: borsh_codec "children_serialize hash_serialize" "children_deserialize hash_deserialize" "children_ok hash_ok"
  by unfold_locales (rule hash_codec.children_exact)

text \<open>The values of the types of a node: bytes, 32-bit lengths, hashes of 32 bytes and sixteen children.\<close>

fun raw_node_ok :: "raw_trie_node \<Rightarrow> bool" where
  "raw_node_ok (RawLeaf key value) \<longleftrightarrow> (\<forall>n \<in> set key. n < 256) \<and> value_ref_ok value"
| "raw_node_ok (RawBranchNoValue children) \<longleftrightarrow> children_ok hash_ok children"
| "raw_node_ok (RawBranchWithValue value children) \<longleftrightarrow> value_ref_ok value \<and> children_ok hash_ok children"
| "raw_node_ok (RawExtension key child) \<longleftrightarrow> (\<forall>n \<in> set key. n < 256) \<and> hash_ok child"

lemmas codec_exact = key_codec.exact value_ref_codec.exact children_codec.exact hash_codec.exact int_codec.exact

lemmas codec_written = key_codec.read_written value_ref_codec.read_written children_codec.read_written hash_codec.read_written int_codec.read_written

interpretation raw_node_codec: borsh_codec raw_node_serialize raw_node_deserialize raw_node_ok
proof
  fix rd rest n
  show "raw_node_deserialize rd = Some (n, rest) \<longleftrightarrow> raw_node_ok n \<and> (\<exists>b. raw_node_serialize n = Some b \<and> rd = b @ rest)"
  proof
    assume "raw_node_deserialize rd = Some (n, rest)"
    then show "raw_node_ok n \<and> (\<exists>b. raw_node_serialize n = Some b \<and> rd = b @ rest)"
      by (cases rd) (auto simp: bind_eq_Some_conv codec_exact split: if_splits)
  next
    assume "raw_node_ok n \<and> (\<exists>b. raw_node_serialize n = Some b \<and> rd = b @ rest)"
    then show "raw_node_deserialize rd = Some (n, rest)" by (cases n) (auto simp: bind_eq_Some_conv codec_written)
  qed
qed

definition raw_ok :: "raw_trie_node_with_size \<Rightarrow> bool" where
  "raw_ok n \<longleftrightarrow> raw_node_ok (rn_node n) \<and> rn_memory_usage n < 2 ^ 64"

interpretation raw_codec: borsh_codec raw_to_vec raw_deserialize raw_ok
proof
  fix rd rest n
  show "raw_deserialize rd = Some (n, rest) \<longleftrightarrow> raw_ok n \<and> (\<exists>b. raw_to_vec n = Some b \<and> rd = b @ rest)"
  proof
    assume "raw_deserialize rd = Some (n, rest)"
    then show "raw_ok n \<and> (\<exists>b. raw_to_vec n = Some b \<and> rd = b @ rest)"
      by (auto simp: raw_deserialize_def raw_to_vec_def raw_ok_def bind_eq_Some_conv raw_node_codec.exact int_codec.exact)
  next
    assume "raw_ok n \<and> (\<exists>b. raw_to_vec n = Some b \<and> rd = b @ rest)"
    then show "raw_deserialize rd = Some (n, rest)"
      by (auto simp: raw_deserialize_def raw_to_vec_def raw_ok_def bind_eq_Some_conv raw_node_codec.read_written int_codec.read_written)
  qed
qed

text \<open>
  C40: Bytes decode to a trie node exactly when they are the encoding of that node and its fields have the sizes of their types.  So encoding
  and decoding are inverse to each other, different nodes have different encodings, and bytes with an
  unknown tag, bytes missing or bytes left over at the end are rejected.
\<close>

theorem raw_node_decodes_exactly:
  "raw_try_from_slice bytes = Some n \<longleftrightarrow> raw_ok n \<and> raw_to_vec n = Some bytes"
  by (auto simp: raw_try_from_slice_def bind_eq_Some_conv raw_codec.exact split: if_splits)

text \<open>Encodings from the unit test of the file: branches with the children 3 and 5 and with the child 15, and an extension.\<close>

lemma encoded_nodes:
  "raw_to_vec (raw_size (RawBranchNoValue ((replicate 16 None)[3 := Some h1, 5 := Some h2])) 42) = Some ([1, 40, 0] @ h1 @ h2 @ [42, 0, 0, 0, 0, 0, 0, 0])"
  "raw_to_vec (raw_size (RawBranchNoValue ((replicate 16 None)[15 := Some h1])) 42) = Some ([1, 0, 128] @ h1 @ [42, 0, 0, 0, 0, 0, 0, 0])"
  "raw_to_vec (raw_size (RawExtension [123, 245, 255] h1) 42) = Some ([3, 3, 0, 0, 0, 123, 245, 255] @ h1 @ [42, 0, 0, 0, 0, 0, 0, 0])"
proof -
  have le: "to_le_bytes (numeral k) n = of_nat (n mod 256) # to_le_bytes (pred_numeral k) (n div 256)" for k n by (simp only: numeral_eq_Suc [of k] to_le_bytes.simps)
  have none: "replicate 16 None = [None, None, None, None, None, None, None, None, None, None, None, None, None, None, None, None]" by (simp add: numeral_eq_Suc)
  note defs = raw_to_vec_def int_serialize_def children_serialize_def hash_serialize_def key_serialize_def fits_def List.map_filter_def take_bit_push_bit le
  show "raw_to_vec (raw_size (RawBranchNoValue ((replicate 16 None)[3 := Some h1, 5 := Some h2])) 42) = Some ([1, 40, 0] @ h1 @ h2 @ [42, 0, 0, 0, 0, 0, 0, 0])"
    unfolding none by (simp add: defs)
  show "raw_to_vec (raw_size (RawBranchNoValue ((replicate 16 None)[15 := Some h1])) 42) = Some ([1, 0, 128] @ h1 @ [42, 0, 0, 0, 0, 0, 0, 0])"
    unfolding none by (simp add: defs)
  show "raw_to_vec (raw_size (RawExtension [123, 245, 255] h1) 42) = Some ([3, 3, 0, 0, 0, 123, 245, 255] @ h1 @ [42, 0, 0, 0, 0, 0, 0, 0])"
    by (simp add: defs)
qed

section \<open>The nodes of a trie\<close>

text \<open>The keys in the nodes of a trie fit into vectors.\<close>

fun keys_fit :: "'v trie \<Rightarrow> bool" where
  "keys_fit TEmpty \<longleftrightarrow> True"
| "keys_fit (TLeaf e v) \<longleftrightarrow> length e < 2 ^ 32"
| "keys_fit (TExt e t) \<longleftrightarrow> length e < 2 ^ 32 \<and> keys_fit t"
| "keys_fit (TBranch ts w) \<longleftrightarrow> (\<forall>t \<in> set ts. keys_fit t)"

lemma hex_prefix_key:
  assumes "nibbles_ok e" and "length e < 2 ^ 32"
  shows "\<forall>n \<in> set (hex_prefix e l). n < 256" and "\<exists>b. key_serialize (hex_prefix e l) = Some b"
proof -
  have "length (hex_prefix e l) < 2 ^ 32" using assms(2) by (simp add: hex_prefix_length)
  then show "\<exists>b. key_serialize (hex_prefix e l) = Some b" by (simp add: key_serialize_def fits_def int_serialize_def)
  have "hd e < 16" if "odd (length e)" using assms(1) that by (cases e) simp_all
  moreover have "\<forall>b \<in> set (pack (drop (length e mod 2) e)). b < 256" by (rule pack_lt) (use assms(1) in \<open>auto simp: nibbles_ok_def dest: in_set_dropD\<close>)
  ultimately show "\<forall>n \<in> set (hex_prefix e l). n < 256" by (auto simp: hex_prefix_def)
qed

lemma child_hash_ok: "digest_32 sha \<Longrightarrow> t \<noteq> TEmpty \<Longrightarrow> hash_ok (t_hash sha ser t)"
  by (simp add: t_hash_raw digest_32_def)

lemma children_encode:
  assumes "digest_32 sha" and "length ts = 16"
  shows "children_ok hash_ok (map (child_hash sha ser) ts)" and "\<exists>b. children_serialize hash_serialize (map (child_hash sha ser) ts) = Some b"
proof -
  show "children_ok hash_ok (map (child_hash sha ser) ts)" using assms by (auto simp: children_ok_def List.map_filter_def child_hash_ok split: if_splits)
  have "those (map hash_serialize xs) = Some xs" for xs by (induction xs) (simp_all add: hash_serialize_def)
  then show "\<exists>b. children_serialize hash_serialize (map (child_hash sha ser) ts) = Some b" by (simp add: children_serialize_def int_serialize_def)
qed

lemma node_codec:
  assumes "canonical T" and "T \<noteq> TEmpty" and "digest_32 sha" and "t_mem vr_length T < 2 ^ 64" and "\<forall>r \<in> set_trie T. value_ref_ok r" and "keys_fit T"
  shows "raw_try_from_slice (the (raw_to_vec (t_raw sha ser T))) = Some (t_raw sha ser T)"
proof -
  have v: "\<exists>b. value_ref_serialize r = Some b" for r by (simp add: value_ref_serialize_def int_serialize_def hash_serialize_def)
  have "raw_node_ok (t_node sha ser T) \<and> (\<exists>b. raw_node_serialize (t_node sha ser T) = Some b)"
  proof (cases T)
    case (TLeaf e r)
    then show ?thesis using assms(1,5,6) hex_prefix_key [of e True] v [of r] by auto
  next
    case (TExt e t)
    then have "t \<noteq> TEmpty" using assms(1) by auto
    then show ?thesis using TExt assms(1,6) hex_prefix_key [of e False] child_hash_ok [OF assms(3)] by (auto simp: hash_serialize_def)
  next
    case (TBranch ts w)
    then show ?thesis using assms(1,5) children_encode [OF assms(3), of ts ser] v [of "the w"] by (cases w) auto
  qed (use assms(2) in simp)
  then obtain b where "raw_ok (t_raw sha ser T)" "raw_to_vec (t_raw sha ser T) = Some b" using assms(4) by (auto simp: raw_ok_def raw_to_vec_def int_serialize_def)
  then show ?thesis using raw_codec.read_written [of _ b "[]"] by (simp add: raw_try_from_slice_def)
qed

text \<open>What the theorems on the trie ask of the encoding holds for this one.\<close>

lemma trie_nodes_codec:
  assumes "canonical T" and "digest_32 sha" and "t_mem vr_length T < 2 ^ 64" and "\<forall>r \<in> set_trie T. value_ref_ok r" and "keys_fit T"
  shows "\<forall>n \<in> t_nodes sha ser T. raw_try_from_slice (the (raw_to_vec n)) = Some n"
  using assms(1,3-5)
proof (induction T)
  case (TExt e t)
  then show ?case using node_codec [OF TExt.prems(1) _ assms(2) TExt.prems(2-4)] by auto
next
  case (TBranch ts w)
  have "t_mem vr_length t < 2 ^ 64" if "t \<in> set ts" for t
    using member_le_sum_list [of "t_mem vr_length t" "map (t_mem vr_length) ts"] that TBranch.prems(2) by simp
  then show ?case using TBranch node_codec [OF TBranch.prems(1) _ assms(2) TBranch.prems(2-4)] by auto
next
  case (TLeaf e r)
  then show ?case using node_codec [OF TLeaf.prems(1) _ assms(2) TLeaf.prems(2-4)] by auto
qed simp

end
