(* ===== verification/Transaction_Pool.thy ===== *)
theory Transaction_Pool
  imports Crypto_Hash Rust_HashMap
begin

text \<open>
  The transaction pool (\<open>chain/pool/src/lib.rs\<close>, \<open>chain/pool/src/types.rs\<close>): transactions grouped by
  signer and key, with a limit on their total size, and the iterator that hands the groups out in round
  robin order and returns what is left to the pool.  Of a transaction the pool reads its hash, size,
  signer, public key, of which the model keeps the Borsh encoding, and nonce.  The metrics are left out.
\<close>

section \<open>Definitions\<close>

type_synonym pool_key = crypto_hash

record pool_tx =
  tx_hash :: crypto_hash
  tx_size :: nat
  tx_signer_id :: account_id
  tx_public_key :: "byte list"
  tx_nonce :: nat

record transaction_group =
  g_key :: pool_key
  g_transactions :: "pool_tx list"
  g_removed_hashes :: "crypto_hash list"
  g_removed_size :: nat

definition group_next :: "transaction_group \<Rightarrow> (pool_tx option \<times> transaction_group) option" where
  "group_next g =
     (if g_transactions g = [] then Some (None, g)
      else do {
        let tx = last (g_transactions g);
        size \<leftarrow> checked_add u64_w (g_removed_size g) (tx_size tx);
        Some (Some tx, g\<lparr>g_transactions := butlast (g_transactions g),
                         g_removed_hashes := g_removed_hashes g @ [tx_hash tx], g_removed_size := size\<rparr>)
      })"

definition peek_next :: "transaction_group \<Rightarrow> pool_tx option" where
  "peek_next g = (if g_transactions g = [] then None else Some (last (g_transactions g)))"

datatype insert_transaction_result = Success | Duplicate | NoSpaceLeft

record transaction_pool =
  p_transactions :: "(pool_key, pool_tx list) btree"
  p_unique :: "crypto_hash set"
  p_key_seed :: "byte list"
  p_last_used_key :: pool_key
  p_size_limit :: "nat option"
  p_total_size :: nat

definition pool_new :: "byte list \<Rightarrow> nat option \<Rightarrow> transaction_pool" where
  "pool_new seed limit =
     \<lparr> p_transactions = bt_empty, p_unique = {}, p_key_seed = seed, p_last_used_key = crypto_hash_new,
       p_size_limit = limit, p_total_size = 0 \<rparr>"

definition account_as_bytes :: "account_id \<Rightarrow> byte list" where
  "account_as_bytes a = map of_char a"

definition pool_key_of :: "sha256 \<Rightarrow> transaction_pool \<Rightarrow> account_id \<Rightarrow> byte list \<Rightarrow> pool_key" where
  "pool_key_of sha p account pk = hash_bytes sha (pk @ p_key_seed p @ account_as_bytes account)"

definition insert_transaction ::
  "sha256 \<Rightarrow> pool_tx \<Rightarrow> transaction_pool \<Rightarrow> (insert_transaction_result \<times> transaction_pool) option" where
  "insert_transaction sha tx p =
     (if tx_hash tx \<in> p_unique p then Some (Duplicate, p)
      else do {
        new_total \<leftarrow> checked_add u64_w (p_total_size p) (tx_size tx);
        if (case p_size_limit p of None \<Rightarrow> False | Some limit \<Rightarrow> new_total > limit) then Some (NoSpaceLeft, p)
        else do {
          let key = pool_key_of sha p (tx_signer_id tx) (tx_public_key tx);
          let old = (case bt_get (p_transactions p) key of None \<Rightarrow> [] | Some txs \<Rightarrow> txs);
          Some (Success, p\<lparr>p_unique := insert (tx_hash tx) (p_unique p), p_total_size := new_total,
                           p_transactions := bt_insert key (old @ [tx]) (p_transactions p)\<rparr>)
        }
      })"

text \<open>The first loop of \<open>remove_transactions\<close>: the hashes found in the pool, by key.\<close>

definition group_removed ::
  "sha256 \<Rightarrow> pool_tx \<Rightarrow> transaction_pool \<times> (pool_key, crypto_hash set) hmap \<Rightarrow>
   transaction_pool \<times> (pool_key, crypto_hash set) hmap" where
  "group_removed sha tx s =
     (case s of (p, grouped) \<Rightarrow>
        if tx_hash tx \<notin> p_unique p then (p, grouped)
        else
          let p = p\<lparr>p_unique := p_unique p - {tx_hash tx}\<rparr>;
              key = pool_key_of sha p (tx_signer_id tx) (tx_public_key tx);
              old = (case hm_get grouped key of None \<Rightarrow> {} | Some hs \<Rightarrow> hs)
          in (p, hm_insert key (insert (tx_hash tx) old) grouped))"

text \<open>\<open>retain\<close> on one group, which also lowers the total size.\<close>

fun retain_txs :: "crypto_hash set \<Rightarrow> pool_tx list \<Rightarrow> nat \<Rightarrow> (pool_tx list \<times> nat) option" where
  "retain_txs hashes [] amount = Some ([], amount)"
| "retain_txs hashes (tx # txs) amount =
     (if tx_hash tx \<notin> hashes then
        do { (kept, amount) \<leftarrow> retain_txs hashes txs amount; Some (tx # kept, amount) }
      else do { amount \<leftarrow> checked_sub amount (tx_size tx); retain_txs hashes txs amount })"

definition remove_group :: "pool_key \<times> crypto_hash set \<Rightarrow> transaction_pool \<Rightarrow> transaction_pool option" where
  "remove_group kh p =
     (case kh of (key, hashes) \<Rightarrow>
        case bt_get (p_transactions p) key of
          None \<Rightarrow> Some p
        | Some txs \<Rightarrow>
            do {
              (kept, size) \<leftarrow> retain_txs hashes txs (p_total_size p);
              Some (p\<lparr>p_total_size := size,
                      p_transactions := (if kept = [] then bt_remove key (p_transactions p)
                                         else bt_insert key kept (p_transactions p))\<rparr>)
            })"

definition remove_transactions :: "sha256 \<Rightarrow> pool_tx list \<Rightarrow> transaction_pool \<Rightarrow> transaction_pool option" where
  "remove_transactions sha txs p =
     (case fold (group_removed sha) txs (p, hm_empty) of (p, grouped) \<Rightarrow> fold_opt remove_group grouped p)"

definition pool_len :: "transaction_pool \<Rightarrow> nat" where
  "pool_len p = card (p_unique p)"

definition transaction_size :: "transaction_pool \<Rightarrow> nat" where
  "transaction_size p = p_total_size p"

subsection \<open>The iterator\<close>

record pool_iterator =
  it_pool :: transaction_pool
  it_groups :: "transaction_group list"

definition pool_iterator_new :: "transaction_pool \<Rightarrow> pool_iterator" where
  "pool_iterator_new p = \<lparr> it_pool = p, it_groups = [] \<rparr>"

definition next_key :: "transaction_pool \<Rightarrow> pool_key option" where
  "next_key p =
     (case find (\<lambda>(k, _). p_last_used_key p < k) (p_transactions p) of
        Some (k, _) \<Rightarrow> Some k
      | None \<Rightarrow> (case p_transactions p of [] \<Rightarrow> None | (k, _) # _ \<Rightarrow> Some k))"

text \<open>The bookkeeping for a group that is given up: its pulled transactions leave the pool.\<close>

definition settle_group :: "transaction_group \<Rightarrow> transaction_pool \<Rightarrow> transaction_pool option" where
  "settle_group g p =
     do {
       let p = p\<lparr>p_unique := fold (\<lambda>h u. u - {h}) (g_removed_hashes g) (p_unique p)\<rparr>;
       size \<leftarrow> checked_sub (p_total_size p) (g_removed_size g);
       Some (p\<lparr>p_total_size := size\<rparr>)
     }"

text \<open>The loop over the queue: it ends with a nonempty group at the back, or with an empty queue.\<close>

fun iter_cycle :: "transaction_group list \<Rightarrow> transaction_pool \<Rightarrow> (bool \<times> pool_iterator) option" where
  "iter_cycle [] p = Some (False, \<lparr> it_pool = p, it_groups = [] \<rparr>)"
| "iter_cycle (g # gs) p =
     (if g_transactions g = [] then do { p \<leftarrow> settle_group g p; iter_cycle gs p }
      else Some (True, \<lparr> it_pool = p, it_groups = gs @ [g] \<rparr>))"

text \<open>\<open>next\<close> returns a reference to the back of the queue, or nothing.\<close>

definition iter_next :: "pool_iterator \<Rightarrow> (bool \<times> pool_iterator) option" where
  "iter_next it =
     (let p = it_pool it in
      if p_transactions p \<noteq> [] then
        do {
          key \<leftarrow> next_key p;
          txs \<leftarrow> bt_get (p_transactions p) key;
          let p = p\<lparr>p_last_used_key := key, p_transactions := bt_remove key (p_transactions p)\<rparr>;
          let g = \<lparr> g_key = key, g_transactions = sort_key (\<lambda>tx. - int (tx_nonce tx)) txs,
                    g_removed_hashes = [], g_removed_size = 0 \<rparr>;
          Some (True, \<lparr> it_pool = p, it_groups = it_groups it @ [g] \<rparr>)
        }
      else iter_cycle (it_groups it) p)"

definition drop_group :: "transaction_group \<Rightarrow> transaction_pool \<Rightarrow> transaction_pool option" where
  "drop_group g p =
     do {
       p \<leftarrow> settle_group g p;
       Some (if g_transactions g \<noteq> [] then p\<lparr>p_transactions := bt_insert (g_key g) (g_transactions g) (p_transactions p)\<rparr> else p)
     }"

definition iter_drop :: "pool_iterator \<Rightarrow> transaction_pool option" where
  "iter_drop it = fold_opt drop_group (it_groups it) (it_pool it)"

text \<open>A call of \<open>next\<close> on the group at the back of the queue.\<close>

definition iter_pull :: "pool_iterator \<Rightarrow> (pool_tx option \<times> pool_iterator) option" where
  "iter_pull it =
     do {
       g \<leftarrow> vec_get (it_groups it) (length (it_groups it) - 1);
       (tx, g) \<leftarrow> group_next g;
       Some (tx, it\<lparr>it_groups := butlast (it_groups it) @ [g]\<rparr>)
     }"

text \<open>
  A pass over the pool as its users make it: \<open>next\<close> on the iterator, some transactions pulled from the
  group it gave, and so on while there is a group, and in the end the iterator is dropped.  The numbers
  are how many transactions the user tries to pull at each visit.
\<close>

fun iter_pulls :: "nat \<Rightarrow> pool_iterator \<Rightarrow> (pool_tx list \<times> pool_iterator) option" where
  "iter_pulls 0 it = Some ([], it)"
| "iter_pulls (Suc n) it =
     do {
       (tx, it) \<leftarrow> iter_pull it;
       case tx of
         None \<Rightarrow> Some ([], it)
       | Some t \<Rightarrow> do { (ts, it) \<leftarrow> iter_pulls n it; Some (t # ts, it) }
     }"

fun iter_visits :: "nat list \<Rightarrow> pool_iterator \<Rightarrow> (pool_tx list \<times> pool_iterator) option" where
  "iter_visits [] it = Some ([], it)"
| "iter_visits (n # ns) it =
     do {
       (group, it) \<leftarrow> iter_next it;
       if \<not> group then Some ([], it)
       else do {
         (ts, it) \<leftarrow> iter_pulls n it;
         (us, it) \<leftarrow> iter_visits ns it;
         Some (ts @ us, it)
       }
     }"

definition iterate :: "nat list \<Rightarrow> transaction_pool \<Rightarrow> (pool_tx list \<times> transaction_pool) option" where
  "iterate ns p = do { (ts, it) \<leftarrow> iter_visits ns (pool_iterator_new p); p \<leftarrow> iter_drop it; Some (ts, p) }"

subsection \<open>The iterator over a list\<close>

record group_iterator =
  gi_groups :: "transaction_group list"
  gi_current_index :: nat

definition group_iterator_new :: "pool_tx list \<Rightarrow> group_iterator" where
  "group_iterator_new txs =
     \<lparr> gi_groups = map (\<lambda>tx. \<lparr> g_key = crypto_hash_new, g_transactions = [tx], g_removed_hashes = [], g_removed_size = 0 \<rparr>) txs,
       gi_current_index = 0 \<rparr>"

text \<open>The reference returned is given by the index of its group.\<close>

definition group_iterator_next :: "group_iterator \<Rightarrow> nat option \<times> group_iterator" where
  "group_iterator_next it =
     (if gi_current_index it < length (gi_groups it)
      then (Some (gi_current_index it), it\<lparr>gi_current_index := gi_current_index it + 1\<rparr>)
      else (None, it))"

section \<open>The transactions of a pool\<close>

definition bag :: "(pool_key, pool_tx list) btree \<Rightarrow> pool_tx multiset" where
  "bag m = mset (concat (map snd m))"

abbreviation group_of :: "(pool_key, pool_tx list) btree \<Rightarrow> pool_key \<Rightarrow> pool_tx list" where
  "group_of m k \<equiv> unwrap_or [] (bt_get m k)"

text \<open>The counters agree with a multiset of transactions.\<close>

definition counts :: "crypto_hash set \<Rightarrow> nat \<Rightarrow> pool_tx multiset \<Rightarrow> bool" where
  "counts u amount txs \<longleftrightarrow> finite u \<and> image_mset tx_hash txs = mset_set u \<and> amount = sum_mset (image_mset tx_size txs)"

definition groups_ok :: "sha256 \<Rightarrow> transaction_pool \<Rightarrow> (pool_key, pool_tx list) btree \<Rightarrow> bool" where
  "groups_ok sha p m \<longleftrightarrow> bt_inv m \<and>
     (\<forall>k txs. bt_get m k = Some txs \<longrightarrow>
        txs \<noteq> [] \<and> (\<forall>tx \<in> set txs. pool_key_of sha p (tx_signer_id tx) (tx_public_key tx) = k))"

definition pool_inv :: "sha256 \<Rightarrow> transaction_pool \<Rightarrow> bool" where
  "pool_inv sha p \<longleftrightarrow> groups_ok sha p (p_transactions p) \<and> counts (p_unique p) (p_total_size p) (bag (p_transactions p)) \<and>
     p_total_size p < 2 ^ 64 \<and> (\<forall>limit. p_size_limit p = Some limit \<longrightarrow> p_total_size p \<le> limit)"

lemma bag_simps [simp]: "bag [] = {#}" "bag ((k, txs) # m) = mset txs + bag m"
  by (simp_all add: bag_def)

lemma bag_insert: "bt_inv m \<Longrightarrow> bag (bt_insert k txs m) + mset (group_of m k) = bag m + mset txs"
proof (induction m)
  case (Cons kv m)
  obtain k' v where kv: "kv = (k', v)" by (cases kv)
  then have m: "bt_inv m" "\<forall>x \<in> fst ` set m. k' < x" using Cons.prems by (simp_all add: bt_inv_Cons)
  have none: "bt_get m k = None" if "k \<le> k'"
    using m(2) that by (auto simp: bt_get_def map_of_eq_None_iff)
  show ?case using Cons.IH [OF m(1)] none by (auto simp: kv bt_get_def ac_simps)
qed (simp add: bt_get_def)

lemma bag_remove: "bt_inv m \<Longrightarrow> bag (bt_remove k m) + mset (group_of m k) = bag m"
proof (induction m)
  case (Cons kv m)
  obtain k' v where kv: "kv = (k', v)" by (cases kv)
  then have m: "bt_inv m" "\<forall>x \<in> fst ` set m. k' < x" using Cons.prems by (simp_all add: bt_inv_Cons)
  show ?case
  proof (cases "k = k'")
    case True
    then have "k \<notin> fst ` set m" using m(2) by auto
    then have "filter (\<lambda>kv. fst kv \<noteq> k) m = m" by (auto simp: filter_id_conv)
    then show ?thesis using True by (simp add: kv bt_remove_def bt_get_def)
  next
    case False
    then show ?thesis using Cons.IH [OF m(1)] by (auto simp: kv bt_remove_def bt_get_def ac_simps)
  qed
qed (simp add: bt_get_def bt_remove_def)

lemma bag_member: "bt_get m k = Some txs \<Longrightarrow> tx \<in> set txs \<Longrightarrow> tx \<in># bag m"
  by (force simp: bag_def bt_get_def dest!: map_of_SomeD)

lemma bag_groups:
  assumes "tx \<in># bag m" and "bt_inv m"
  shows "\<exists>k txs. bt_get m k = Some txs \<and> tx \<in> set txs"
proof -
  obtain k txs where "(k, txs) \<in> set m" "tx \<in> set txs" using assms(1) by (auto simp: bag_def)
  moreover have "distinct (map fst m)" using bt_inv_distinct [OF assms(2)] by (simp add: bt_keys_def)
  ultimately show ?thesis by (auto simp: bt_get_def intro!: exI)
qed

lemma counts_add:
  assumes "counts u amount txs" and "tx_hash tx \<notin> u"
  shows "counts (insert (tx_hash tx) u) (amount + tx_size tx) (add_mset tx txs)"
  using assms by (simp add: counts_def)

lemma counts_remove:
  assumes "counts u amount (add_mset tx txs)"
  shows "counts (u - {tx_hash tx}) (amount - tx_size tx) txs" and "tx_hash tx \<in> u" and "tx_size tx \<le> amount"
proof -
  have u: "finite u" "add_mset (tx_hash tx) (image_mset tx_hash txs) = mset_set u" using assms by (simp_all add: counts_def)
  then show "tx_hash tx \<in> u" by (metis elem_mset_set union_single_eq_member)
  then have "mset_set u = add_mset (tx_hash tx) (mset_set (u - {tx_hash tx}))" using u(1) by (simp add: mset_set.remove)
  with u have "image_mset tx_hash txs = mset_set (u - {tx_hash tx})" by simp
  with assms show "counts (u - {tx_hash tx}) (amount - tx_size tx) txs" by (simp add: counts_def)
  show "tx_size tx \<le> amount" using assms by (simp add: counts_def)
qed

lemma counts_remove_list:
  "counts u amount (mset ps + txs) \<Longrightarrow>
   counts (u - tx_hash ` set ps) (amount - sum_list (map tx_size ps)) txs \<and> sum_list (map tx_size ps) \<le> amount"
proof (induction ps arbitrary: u amount)
  case (Cons tx ps)
  then have c: "counts u amount (add_mset tx (mset ps + txs))" by simp
  note r = counts_remove [OF c]
  from Cons.IH [OF r(1)]
  have ih: "counts (u - {tx_hash tx} - tx_hash ` set ps) (amount - tx_size tx - sum_list (map tx_size ps)) txs"
    "sum_list (map tx_size ps) \<le> amount - tx_size tx" by blast+
  have "u - {tx_hash tx} - tx_hash ` set ps = u - tx_hash ` set (tx # ps)" by auto
  moreover have "sum_list (map tx_size (tx # ps)) \<le> amount" using ih(2) r(3) by simp
  ultimately show ?case using ih(1) by simp
qed (simp add: counts_def)

lemma counts_inj:
  assumes "counts u amount txs" and "tx \<in># txs" and "tx' \<in># txs" and "tx_hash tx = tx_hash tx'"
  shows "tx = tx'"
proof (rule ccontr)
  assume "tx \<noteq> tx'"
  obtain A where A: "txs = add_mset tx A" using multi_member_split [OF assms(2)] by blast
  with assms(3) \<open>tx \<noteq> tx'\<close> obtain B where "A = add_mset tx' B" by (metis add_mset_add_single insert_noteq_member multi_member_split union_iff)
  with A have "image_mset tx_hash txs = add_mset (tx_hash tx) (add_mset (tx_hash tx) (image_mset tx_hash B))" using assms(4) by simp
  then have "2 \<le> count (image_mset tx_hash txs) (tx_hash tx)" by simp
  also have "image_mset tx_hash txs = mset_set u" using assms(1) by (simp add: counts_def)
  finally show False by (simp add: count_mset_set' split: if_splits)
qed

lemma pool_key_cong: "p_key_seed p = p_key_seed q \<Longrightarrow> pool_key_of sha p = pool_key_of sha q"
  by (simp add: pool_key_of_def fun_eq_iff)

lemma groups_ok_cong:
  assumes "p_key_seed p = p_key_seed q"
  shows "groups_ok sha p m = groups_ok sha q m"
  unfolding groups_ok_def pool_key_cong [OF assms] ..

lemma groups_ok_insert:
  assumes "groups_ok sha p m" and "txs \<noteq> []" and "\<And>tx. tx \<in> set txs \<Longrightarrow> pool_key_of sha p (tx_signer_id tx) (tx_public_key tx) = k"
  shows "groups_ok sha p (bt_insert k txs m)"
  using assms by (auto simp: groups_ok_def bt_insert_inv bt_insert_get)

lemma groups_ok_remove: "groups_ok sha p m \<Longrightarrow> groups_ok sha p (bt_remove k m)"
  by (auto simp: groups_ok_def bt_remove_inv bt_remove_get)

lemma groups_ok_key: "groups_ok sha p m \<Longrightarrow> bt_get m k = Some txs \<Longrightarrow> tx \<in> set txs \<Longrightarrow> pool_key_of sha p (tx_signer_id tx) (tx_public_key tx) = k"
  by (simp add: groups_ok_def)

lemma pool_new_inv: "pool_inv sha (pool_new seed limit)"
  by (simp add: pool_inv_def pool_new_def groups_ok_def counts_def bt_empty_def bt_get_def)

text \<open>The effect of an insertion on the multiset of transactions, with its result.\<close>

lemma insert_transaction_ok:
  assumes "pool_inv sha p" and "p_total_size p + tx_size tx < 2 ^ 64"
  shows "\<exists>r p'. insert_transaction sha tx p = Some (r, p') \<and> pool_inv sha p' \<and>
    r = (if tx_hash tx \<in> p_unique p then Duplicate
         else if (\<exists>limit. p_size_limit p = Some limit \<and> limit < p_total_size p + tx_size tx) then NoSpaceLeft else Success) \<and>
    bag (p_transactions p') = (if r = Success then add_mset tx (bag (p_transactions p)) else bag (p_transactions p))"
proof -
  have inv: "groups_ok sha p (p_transactions p)" "bt_inv (p_transactions p)" "counts (p_unique p) (p_total_size p) (bag (p_transactions p))"
    using assms(1) by (simp_all add: pool_inv_def groups_ok_def)
  consider "tx_hash tx \<in> p_unique p" | limit where "tx_hash tx \<notin> p_unique p" "p_size_limit p = Some limit" "limit < p_total_size p + tx_size tx"
    | "tx_hash tx \<notin> p_unique p" "\<forall>limit. p_size_limit p = Some limit \<longrightarrow> p_total_size p + tx_size tx \<le> limit" by (meson not_le)
  then show ?thesis
  proof cases
    case 3
    let ?k = "pool_key_of sha p (tx_signer_id tx) (tx_public_key tx)"
    let ?old = "case bt_get (p_transactions p) ?k of None \<Rightarrow> [] | Some txs \<Rightarrow> txs"
    let ?p' = "p\<lparr>p_unique := insert (tx_hash tx) (p_unique p), p_total_size := p_total_size p + tx_size tx,
      p_transactions := bt_insert ?k (?old @ [tx]) (p_transactions p)\<rparr>"
    have old: "?old = group_of (p_transactions p) ?k" by (simp add: unwrap_or_def)
    have b: "bag (bt_insert ?k (?old @ [tx]) (p_transactions p)) = add_mset tx (bag (p_transactions p))"
      using bag_insert [OF inv(2), of ?k "?old @ [tx]"] by (simp add: old)
    have "groups_ok sha p (bt_insert ?k (?old @ [tx]) (p_transactions p))"
      using groups_ok_key [OF inv(1), of ?k] by (intro groups_ok_insert [OF inv(1)]) (cases "bt_get (p_transactions p) ?k"; auto)+
    then have "pool_inv sha ?p'"
      using counts_add [OF inv(3) 3(1)] assms(2) 3(2) b by (simp add: pool_inv_def groups_ok_cong [of ?p' p])
    moreover have "insert_transaction sha tx p = Some (Success, ?p')"
      using 3 assms(2) by (auto simp: insert_transaction_def checked_add_def Let_def split: option.splits)
    ultimately show ?thesis using b 3 by (intro exI [of _ Success] exI [of _ ?p']) (auto simp: not_less)
  qed (use assms in \<open>auto simp: insert_transaction_def checked_add_def\<close>)
qed

section \<open>Removal\<close>

abbreviation key_of :: "sha256 \<Rightarrow> transaction_pool \<Rightarrow> pool_tx \<Rightarrow> pool_key" where
  "key_of sha p tx \<equiv> pool_key_of sha p (tx_signer_id tx) (tx_public_key tx)"

text \<open>Transactions with the same hash have the same signer and key: the hash is that of the whole transaction.\<close>

definition same_hash_same_signer :: "pool_tx multiset \<Rightarrow> pool_tx list \<Rightarrow> bool" where
  "same_hash_same_signer txs removed \<longleftrightarrow>
     (\<forall>t \<in># txs. \<forall>s \<in> set removed. tx_hash t = tx_hash s \<longrightarrow> tx_signer_id t = tx_signer_id s \<and> tx_public_key t = tx_public_key s)"

definition grouped_inv :: "sha256 \<Rightarrow> transaction_pool \<Rightarrow> pool_tx list \<Rightarrow> transaction_pool \<times> (pool_key, crypto_hash set) hmap \<Rightarrow> bool" where
  "grouped_inv sha p seen s \<longleftrightarrow>
     (case s of (q, grouped) \<Rightarrow>
        q = p\<lparr>p_unique := p_unique p - tx_hash ` set seen\<rparr> \<and> hm_inv grouped \<and>
        (\<forall>k. unwrap_or {} (hm_get grouped k) =
           tx_hash ` {t. t \<in># bag (p_transactions p) \<and> tx_hash t \<in> tx_hash ` set seen \<and> key_of sha p t = k}))"

lemma group_removed_inv:
  assumes "pool_inv sha p" and "same_hash_same_signer (bag (p_transactions p)) [tx]" and "grouped_inv sha p seen s"
  shows "grouped_inv sha p (seen @ [tx]) (group_removed sha tx s)"
proof -
  obtain grouped where s: "s = (p\<lparr>p_unique := p_unique p - tx_hash ` set seen\<rparr>, grouped)" "hm_inv grouped"
    and g: "\<And>k. unwrap_or {} (hm_get grouped k) =
      tx_hash ` {t. t \<in># bag (p_transactions p) \<and> tx_hash t \<in> tx_hash ` set seen \<and> key_of sha p t = k}"
    using assms(3) by (cases s) (auto simp: grouped_inv_def)
  have u: "h \<in> p_unique p \<longleftrightarrow> (\<exists>t. t \<in># bag (p_transactions p) \<and> tx_hash t = h)" for h
  proof -
    have "set_mset (image_mset tx_hash (bag (p_transactions p))) = p_unique p" using assms(1) by (simp add: pool_inv_def counts_def)
    then show ?thesis by (metis (no_types, lifting) imageE image_eqI set_image_mset)
  qed
  show ?thesis
  proof (cases "tx_hash tx \<in> p_unique p - tx_hash ` set seen")
    case False
    then have "tx_hash ` {t. t \<in># bag (p_transactions p) \<and> tx_hash t \<in> tx_hash ` set (seen @ [tx]) \<and> key_of sha p t = k} =
      tx_hash ` {t. t \<in># bag (p_transactions p) \<and> tx_hash t \<in> tx_hash ` set seen \<and> key_of sha p t = k}" for k
      using u [of "tx_hash tx"] by auto
    moreover have "p_unique p - tx_hash ` set seen = p_unique p - tx_hash ` set (seen @ [tx])" using False by auto
    ultimately show ?thesis using False s g by (simp add: grouped_inv_def group_removed_def)
  next
    case True
    then obtain t where t: "t \<in># bag (p_transactions p)" "tx_hash t = tx_hash tx" using u by auto
    then have sig: "key_of sha p t' = key_of sha p tx" if "t' \<in># bag (p_transactions p)" "tx_hash t' = tx_hash tx" for t'
      using assms(2) that by (simp add: same_hash_same_signer_def)
    have k: "pool_key_of sha (p\<lparr>p_unique := x\<rparr>) = pool_key_of sha p" for x by (rule pool_key_cong) simp
    let ?grouped = "hm_insert (key_of sha p tx) (insert (tx_hash tx) (unwrap_or {} (hm_get grouped (key_of sha p tx)))) grouped"
    have "group_removed sha tx s = (p\<lparr>p_unique := p_unique p - tx_hash ` set (seen @ [tx])\<rparr>, ?grouped)"
    proof -
      have "p_unique p - tx_hash ` set seen - {tx_hash tx} = p_unique p - tx_hash ` set (seen @ [tx])" by auto
      then show ?thesis using True s by (simp add: group_removed_def Let_def k unwrap_or_def)
    qed
    moreover have "unwrap_or {} (hm_get ?grouped k) =
        tx_hash ` {t. t \<in># bag (p_transactions p) \<and> tx_hash t \<in> tx_hash ` set (seen @ [tx]) \<and> key_of sha p t = k}" for k
      using t sig [of t] sig by (auto simp: hm_get_insert g image_iff) metis
    ultimately show ?thesis using s(2) by (simp add: grouped_inv_def)
  qed
qed

lemma group_removed_fold:
  assumes "pool_inv sha p" and "same_hash_same_signer (bag (p_transactions p)) txs"
  shows "grouped_inv sha p txs (fold (group_removed sha) txs (p, hm_empty))"
proof -
  have "grouped_inv sha p seen s \<Longrightarrow> grouped_inv sha p (seen @ ts) (fold (group_removed sha) ts s)" if "set ts \<subseteq> set txs" for seen ts s
    using that
  proof (induction ts arbitrary: seen s)
    case (Cons t ts)
    have "same_hash_same_signer (bag (p_transactions p)) [t]"
      using assms(2) Cons.prems(2) by (simp add: same_hash_same_signer_def)
    from Cons.IH [OF group_removed_inv [OF assms(1) this Cons.prems(1)]] Cons.prems(2) show ?case by simp
  qed simp
  from this [of txs "[]" "(p, hm_empty)"] show ?thesis by (simp add: grouped_inv_def)
qed

lemma retain_txs_ok:
  "sum_list (map tx_size txs) \<le> amount \<Longrightarrow>
   retain_txs hashes txs amount =
     Some (filter (\<lambda>tx. tx_hash tx \<notin> hashes) txs, amount - sum_list (map tx_size (filter (\<lambda>tx. tx_hash tx \<in> hashes) txs)))"
  by (induction txs arbitrary: amount) (auto simp: checked_sub_def)

lemma remove_group_ok:
  assumes "groups_ok sha p (p_transactions p)" and "p_total_size p = sum_mset (image_mset tx_size (bag (p_transactions p)))"
  shows "\<exists>p'. remove_group (k, hs) p = Some p' \<and> groups_ok sha p' (p_transactions p') \<and>
    p_total_size p' = sum_mset (image_mset tx_size (bag (p_transactions p'))) \<and>
    bag (p_transactions p') = filter_mset (\<lambda>t. \<not> (key_of sha p t = k \<and> tx_hash t \<in> hs)) (bag (p_transactions p)) \<and>
    p_unique p' = p_unique p \<and> p_key_seed p' = p_key_seed p \<and> p_size_limit p' = p_size_limit p"
proof -
  let ?m = "p_transactions p"
  have inv: "bt_inv ?m" using assms(1) by (simp add: groups_ok_def)
  note rem = bag_remove [OF inv, of k]
  have other: "key_of sha p t \<noteq> k" if mem: "t \<in># bag (bt_remove k ?m)" for t
  proof -
    obtain k' txs where "bt_get (bt_remove k ?m) k' = Some txs" "t \<in> set txs"
      using bag_groups [OF mem bt_remove_inv [OF inv]] by blast
    then show ?thesis using groups_ok_key [OF assms(1)] by (auto simp: bt_remove_get split: if_splits)
  qed
  then have rest: "filter_mset (\<lambda>t. \<not> (key_of sha p t = k \<and> tx_hash t \<in> hs)) (bag (bt_remove k ?m)) = bag (bt_remove k ?m)"
    by (intro filter_mset_eq_conv [THEN iffD2]) auto
  show ?thesis
  proof (cases "bt_get ?m k")
    case None
    then have "bag (bt_remove k ?m) = bag ?m" using rem by simp
    then show ?thesis using None rest assms by (simp add: remove_group_def)
  next
    case (Some txs)
    let ?kept = "filter (\<lambda>tx. tx_hash tx \<notin> hs) txs" and ?gone = "filter (\<lambda>tx. tx_hash tx \<in> hs) txs"
    let ?m' = "if ?kept = [] then bt_remove k ?m else bt_insert k ?kept ?m"
    let ?amount = "p_total_size p - sum_list (map tx_size ?gone)"
    have b: "bag ?m = bag (bt_remove k ?m) + mset txs" using rem Some by simp
    have keys: "key_of sha p t = k" if "t \<in> set txs" for t by (rule groups_ok_key [OF assms(1) Some that])
    have le: "sum_list (map tx_size txs) \<le> p_total_size p" by (simp add: assms(2) b sum_mset_sum_list flip: mset_map)
    have b': "bag ?m' = bag (bt_remove k ?m) + mset ?kept"
    proof (cases "?kept = []")
      case True
      then show ?thesis by (simp only: if_True mset.simps add_0_right simp_thms)
    next
      case False
      then show ?thesis using bag_insert [OF inv, of k ?kept] Some by (simp add: b ac_simps)
    qed
    have f: "filter_mset (\<lambda>t. \<not> (key_of sha p t = k \<and> tx_hash t \<in> hs)) (mset txs) = mset ?kept"
      using keys by (simp flip: mset_filter cong: filter_cong)
    have sl: "sum_mset (image_mset tx_size (mset ts)) = sum_list (map tx_size ts)" for ts
      by (simp only: sum_mset_sum_list flip: mset_map)
    have "sum_list (map tx_size txs) = sum_list (map tx_size ?kept) + sum_list (map tx_size ?gone)" by (induction txs) auto
    then have "p_total_size p = sum_mset (image_mset tx_size (bag ?m')) + sum_list (map tx_size ?gone)"
      unfolding assms(2) b b' image_mset_union sum_mset.union sl by (simp only: add.assoc)
    then have total: "?amount = sum_mset (image_mset tx_size (bag ?m'))" by simp
    define p' where "p' = p\<lparr>p_total_size := ?amount, p_transactions := ?m'\<rparr>"
    have p': "p_transactions p' = ?m'" "p_total_size p' = ?amount" "p_unique p' = p_unique p" "p_key_seed p' = p_key_seed p"
      "p_size_limit p' = p_size_limit p" by (simp_all add: p'_def)
    have "groups_ok sha p ?m'"
      using groups_ok_insert [OF assms(1), of ?kept k] groups_ok_remove [OF assms(1), of k] keys by auto
    then have "groups_ok sha p' ?m'" by (simp only: groups_ok_cong [OF p'(4)])
    moreover have "bag ?m' = filter_mset (\<lambda>t. \<not> (key_of sha p t = k \<and> tx_hash t \<in> hs)) (bag ?m)"
      unfolding b b' filter_union_mset rest f ..
    moreover have "remove_group (k, hs) p = Some p'"
      using Some by (simp add: remove_group_def retain_txs_ok [OF le] p'_def)
    ultimately show ?thesis using p' total by (intro exI [of _ p']) (simp only: simp_thms)
  qed
qed

lemma remove_groups_ok:
  assumes "groups_ok sha p (p_transactions p)" and "p_total_size p = sum_mset (image_mset tx_size (bag (p_transactions p)))"
  shows "\<exists>p'. fold_opt remove_group grouped p = Some p' \<and> groups_ok sha p' (p_transactions p') \<and>
    p_total_size p' = sum_mset (image_mset tx_size (bag (p_transactions p'))) \<and>
    bag (p_transactions p') = filter_mset (\<lambda>t. \<not> (\<exists>(k, hs) \<in> set grouped. key_of sha p t = k \<and> tx_hash t \<in> hs)) (bag (p_transactions p)) \<and>
    p_unique p' = p_unique p \<and> p_key_seed p' = p_key_seed p \<and> p_size_limit p' = p_size_limit p"
  using assms
proof (induction grouped arbitrary: p)
  case (Cons kh grouped)
  obtain k hs where kh: "kh = (k, hs)" by (cases kh)
  obtain p1 where p1: "remove_group (k, hs) p = Some p1" "groups_ok sha p1 (p_transactions p1)"
    "p_total_size p1 = sum_mset (image_mset tx_size (bag (p_transactions p1)))"
    "bag (p_transactions p1) = filter_mset (\<lambda>t. \<not> (key_of sha p t = k \<and> tx_hash t \<in> hs)) (bag (p_transactions p))"
    "p_unique p1 = p_unique p" "p_key_seed p1 = p_key_seed p" "p_size_limit p1 = p_size_limit p"
    using remove_group_ok [OF Cons.prems] by blast
  have key: "pool_key_of sha p1 = pool_key_of sha p" by (rule pool_key_cong [OF p1(6)])
  have "filter_mset (\<lambda>t. \<not> (\<exists>(k, hs) \<in> set grouped. key_of sha p t = k \<and> tx_hash t \<in> hs)) (bag (p_transactions p1)) =
    filter_mset (\<lambda>t. \<not> (\<exists>(k, hs) \<in> set (kh # grouped). key_of sha p t = k \<and> tx_hash t \<in> hs)) (bag (p_transactions p))"
    unfolding p1(4) filter_filter_mset by (rule filter_mset_cong) (auto simp: kh)
  then show ?case using Cons.IH [OF p1(2,3)] p1(1,5-7) by (auto simp: kh key)
qed simp

lemma remove_transactions_ok:
  assumes "pool_inv sha p" and "same_hash_same_signer (bag (p_transactions p)) txs"
  shows "\<exists>p'. remove_transactions sha txs p = Some p' \<and> pool_inv sha p' \<and>
    bag (p_transactions p') = filter_mset (\<lambda>t. tx_hash t \<notin> tx_hash ` set txs) (bag (p_transactions p))"
proof -
  let ?b = "bag (p_transactions p)" and ?q = "p\<lparr>p_unique := p_unique p - tx_hash ` set txs\<rparr>"
  have c: "counts (p_unique p) (p_total_size p) ?b" using assms(1) by (simp add: pool_inv_def)
  obtain grouped where g: "fold (group_removed sha) txs (p, hm_empty) = (?q, grouped)" "hm_inv grouped"
    "\<And>k. unwrap_or {} (hm_get grouped k) = tx_hash ` {t. t \<in># ?b \<and> tx_hash t \<in> tx_hash ` set txs \<and> key_of sha p t = k}"
    using group_removed_fold [OF assms] by (cases "fold (group_removed sha) txs (p, hm_empty)") (auto simp: grouped_inv_def)
  have key: "pool_key_of sha ?q = pool_key_of sha p" by (rule pool_key_cong) simp
  obtain p' where p': "fold_opt remove_group grouped ?q = Some p'" "groups_ok sha p' (p_transactions p')"
    "p_total_size p' = sum_mset (image_mset tx_size (bag (p_transactions p')))"
    "bag (p_transactions p') = filter_mset (\<lambda>t. \<not> (\<exists>(k, hs) \<in> set grouped. key_of sha ?q t = k \<and> tx_hash t \<in> hs)) ?b"
    "p_unique p' = p_unique p - tx_hash ` set txs" "p_size_limit p' = p_size_limit p"
    using remove_groups_ok [of sha ?q grouped] assms(1) by (auto simp: pool_inv_def counts_def groups_ok_cong [of ?q p])
  have mem: "(\<exists>(k, hs) \<in> set grouped. key_of sha ?q t = k \<and> tx_hash t \<in> hs) \<longleftrightarrow> tx_hash t \<in> tx_hash ` set txs" if "t \<in># ?b" for t
  proof -
    have "(k, hs) \<in> set grouped \<longleftrightarrow> hm_get grouped k = Some hs" for k hs
      using g(2) by (simp add: hm_get_def hm_inv_def map_of_eq_Some_iff)
    then have "(\<exists>(k, hs) \<in> set grouped. key_of sha ?q t = k \<and> tx_hash t \<in> hs) \<longleftrightarrow> tx_hash t \<in> unwrap_or {} (hm_get grouped (key_of sha p t))"
      by (auto simp: key Bex_def unwrap_or_def split: option.split)
    also have "\<dots> \<longleftrightarrow> tx_hash t \<in> tx_hash ` set txs"
      unfolding g(3) using that counts_inj [OF c that] by auto
    finally show ?thesis .
  qed
  then have bag: "bag (p_transactions p') = filter_mset (\<lambda>t. tx_hash t \<notin> tx_hash ` set txs) ?b"
    unfolding p'(4) by (intro filter_mset_cong) auto
  have "image_mset tx_hash (bag (p_transactions p')) = filter_mset (\<lambda>h. h \<notin> tx_hash ` set txs) (image_mset tx_hash ?b)"
    unfolding bag by (simp add: filter_mset_image_mset)
  also have "\<dots> = mset_set (p_unique p')" using c by (simp add: counts_def p'(5) Diff_eq Collect_conj_eq flip: Compl_iff)
  finally have "counts (p_unique p') (p_total_size p') (bag (p_transactions p'))"
    using c p'(3,5) by (simp add: counts_def)
  moreover have "p_total_size p' \<le> p_total_size p"
  proof -
    have "sum_mset (image_mset tx_size (filter_mset P M)) \<le> sum_mset (image_mset tx_size M)" for P M
      by (induction M) auto
    then show ?thesis using c by (simp add: p'(3) counts_def bag)
  qed
  ultimately have "pool_inv sha p'"
    using assms(1) p'(2,6) by (auto simp: pool_inv_def intro: le_less_trans le_trans)
  then show ?thesis using p'(1) g(1) bag by (simp add: remove_transactions_def)
qed

section \<open>Iteration\<close>

text \<open>What has been pulled from a group that is still in the queue.\<close>

definition group_pulled :: "transaction_group \<Rightarrow> pool_tx list \<Rightarrow> bool" where
  "group_pulled g ps \<longleftrightarrow> g_removed_hashes g = map tx_hash ps \<and> g_removed_size g = sum_list (map tx_size ps)"

definition held :: "transaction_pool \<Rightarrow> transaction_group list \<Rightarrow> pool_tx multiset" where
  "held p gs = bag (p_transactions p) + mset (concat (map g_transactions gs))"

definition iter_inv :: "sha256 \<Rightarrow> transaction_pool \<Rightarrow> transaction_group list \<Rightarrow> pool_tx list list \<Rightarrow> bool" where
  "iter_inv sha p gs P \<longleftrightarrow>
     groups_ok sha p (p_transactions p) \<and> list_all2 group_pulled gs P \<and>
     counts (p_unique p) (p_total_size p) (held p gs + mset (concat P)) \<and>
     p_total_size p < 2 ^ 64 \<and> (\<forall>limit. p_size_limit p = Some limit \<longrightarrow> p_total_size p \<le> limit) \<and>
     distinct (map g_key gs) \<and>
     (\<forall>g \<in> set gs. bt_get (p_transactions p) (g_key g) = None \<and> (\<forall>tx \<in> set (g_transactions g). key_of sha p tx = g_key g) \<and>
        sorted_wrt (\<lambda>s t. tx_nonce t \<le> tx_nonce s) (g_transactions g))"

lemma iter_inv_new: "pool_inv sha p \<Longrightarrow> iter_inv sha p [] []"
  by (simp add: pool_inv_def iter_inv_def held_def)

lemma iter_inv_end: "iter_inv sha p [] P \<Longrightarrow> pool_inv sha p"
  by (auto simp: pool_inv_def iter_inv_def held_def)

lemma fold_remove_hashes: "fold (\<lambda>h u. u - {h}) hs u = u - set hs"
  by (induction hs arbitrary: u) auto

text \<open>Giving up a group whose transactions are gone, and returning one to the pool.\<close>

lemma settle_group_ok:
  assumes "iter_inv sha p (g # gs) (ps # P)"
  shows "\<exists>p'. settle_group g p = Some p' \<and> p_transactions p' = p_transactions p \<and> p_key_seed p' = p_key_seed p \<and>
    p_size_limit p' = p_size_limit p \<and> p_last_used_key p' = p_last_used_key p \<and>
    counts (p_unique p') (p_total_size p') (held p (g # gs) + mset (concat P)) \<and> p_total_size p' \<le> p_total_size p"
proof -
  have g: "g_removed_hashes g = map tx_hash ps" "g_removed_size g = sum_list (map tx_size ps)"
    using assms by (simp_all add: iter_inv_def group_pulled_def)
  have "counts (p_unique p) (p_total_size p) (mset ps + (held p (g # gs) + mset (concat P)))"
    using assms by (simp add: iter_inv_def ac_simps)
  from counts_remove_list [OF this] show ?thesis
    by (auto simp: settle_group_def g fold_remove_hashes checked_sub_def Let_def)
qed

lemma settle_empty_ok:
  assumes "iter_inv sha p (g # gs) (ps # P)" and "g_transactions g = []"
  shows "\<exists>p'. settle_group g p = Some p' \<and> iter_inv sha p' gs P \<and> held p' gs = held p (g # gs) \<and> p_transactions p' = p_transactions p"
proof -
  obtain p' where p': "settle_group g p = Some p'" "p_transactions p' = p_transactions p" "p_key_seed p' = p_key_seed p"
    "p_size_limit p' = p_size_limit p" "counts (p_unique p') (p_total_size p') (held p (g # gs) + mset (concat P))"
    "p_total_size p' \<le> p_total_size p" using settle_group_ok [OF assms(1)] by blast
  have h: "held p' gs = held p (g # gs)" by (simp add: held_def p'(2) assms(2))
  have "iter_inv sha p' gs P"
    using assms(1) p' unfolding iter_inv_def h groups_ok_cong [OF p'(3)] pool_key_cong [OF p'(3)]
    by (auto intro: le_less_trans le_trans)
  then show ?thesis using p'(1,2) h by blast
qed

lemma drop_group_ok:
  assumes "iter_inv sha p (g # gs) (ps # P)"
  shows "\<exists>p'. drop_group g p = Some p' \<and> iter_inv sha p' gs P \<and> held p' gs = held p (g # gs)"
proof (cases "g_transactions g = []")
  case True
  then show ?thesis using settle_empty_ok [OF assms True] by (auto simp: drop_group_def)
next
  case False
  obtain p1 where p1: "settle_group g p = Some p1" "p_transactions p1 = p_transactions p" "p_key_seed p1 = p_key_seed p"
    "p_size_limit p1 = p_size_limit p" "counts (p_unique p1) (p_total_size p1) (held p (g # gs) + mset (concat P))"
    "p_total_size p1 \<le> p_total_size p" using settle_group_ok [OF assms] by blast
  define p' where "p' = p1\<lparr>p_transactions := bt_insert (g_key g) (g_transactions g) (p_transactions p)\<rparr>"
  have f: "p_transactions p' = bt_insert (g_key g) (g_transactions g) (p_transactions p)" "p_unique p' = p_unique p1"
    "p_total_size p' = p_total_size p1" "p_key_seed p' = p_key_seed p" "p_size_limit p' = p_size_limit p"
    by (simp_all add: p'_def p1)
  have ok: "groups_ok sha p (p_transactions p)" "bt_inv (p_transactions p)" "bt_get (p_transactions p) (g_key g) = None"
    "\<And>tx. tx \<in> set (g_transactions g) \<Longrightarrow> key_of sha p tx = g_key g" "g_key g \<notin> g_key ` set gs"
    using assms by (auto simp: iter_inv_def groups_ok_def)
  have "bag (p_transactions p') = bag (p_transactions p) + mset (g_transactions g)"
    using bag_insert [OF ok(2), of "g_key g" "g_transactions g"] ok(3) by (simp add: f)
  then have h: "held p' gs = held p (g # gs)" by (simp add: held_def ac_simps)
  have g': "groups_ok sha p (p_transactions p')" unfolding f by (rule groups_ok_insert [OF ok(1) False ok(4)])
  have none: "bt_get (p_transactions p') (g_key x) = None" if "x \<in> set gs" for x
  proof -
    have "g_key x \<noteq> g_key g" using that ok(5) by (metis imageI)
    then show ?thesis using that assms by (simp add: f bt_insert_get iter_inv_def)
  qed
  have "iter_inv sha p' gs P"
    using assms p1(5,6) g' none unfolding iter_inv_def h groups_ok_cong [OF f(4)] pool_key_cong [OF f(4)] f(2,3,5)
    by (auto intro: le_less_trans le_trans)
  then show ?thesis using p1(1,2) h False by (auto simp: drop_group_def p'_def)
qed

lemma iter_drop_ok:
  assumes "iter_inv sha p gs P"
  shows "\<exists>p'. fold_opt drop_group gs p = Some p' \<and> pool_inv sha p' \<and> bag (p_transactions p') = held p gs"
  using assms
proof (induction gs arbitrary: p P)
  case Nil
  then show ?case using iter_inv_end [OF Nil] by (simp add: held_def)
next
  case (Cons g gs)
  then obtain ps P' where P: "P = ps # P'" by (auto simp: iter_inv_def list_all2_Cons1)
  from drop_group_ok [OF Cons.prems [unfolded P]] obtain p1 where p1: "drop_group g p = Some p1" "iter_inv sha p1 gs P'" "held p1 gs = held p (g # gs)"
    by blast
  from Cons.IH [OF p1(2)] p1 show ?case by simp
qed

text \<open>\<open>next\<close>: the queue is moved round, or a group is taken from the pool.\<close>

lemma iter_inv_rotate: "iter_inv sha p (g # gs) (ps # P) \<Longrightarrow> iter_inv sha p (gs @ [g]) (P @ [ps])"
  by (auto simp: iter_inv_def held_def list_all2_appendI ac_simps)

lemma held_rotate: "held p (gs @ [g]) = held p (g # gs)"
  by (simp add: held_def ac_simps)

lemma iter_cycle_ok:
  assumes "iter_inv sha p gs P" and "p_transactions p = []"
  shows "\<exists>b it P'. iter_cycle gs p = Some (b, it) \<and> iter_inv sha (it_pool it) (it_groups it) P' \<and>
    held (it_pool it) (it_groups it) = held p gs \<and> p_key_seed (it_pool it) = p_key_seed p \<and>
    (if b then it_groups it \<noteq> [] \<and> g_transactions (last (it_groups it)) \<noteq> [] else held p gs = {#})"
  using assms
proof (induction gs arbitrary: p P)
  case Nil
  then show ?case by (auto simp: held_def intro!: exI [of _ P])
next
  case (Cons g gs)
  then obtain ps P' where P: "P = ps # P'" by (auto simp: iter_inv_def list_all2_Cons1)
  show ?case
  proof (cases "g_transactions g = []")
    case True
    from settle_group_ok [OF Cons.prems(1) [unfolded P]] settle_empty_ok [OF Cons.prems(1) [unfolded P] True]
    obtain p' where p': "settle_group g p = Some p'" "iter_inv sha p' gs P'" "held p' gs = held p (g # gs)"
      "p_transactions p' = p_transactions p" "p_key_seed p' = p_key_seed p" by auto
    from Cons.IH [OF p'(2)] p'(4) Cons.prems(2)
    obtain b it Q where "iter_cycle gs p' = Some (b, it)" "iter_inv sha (it_pool it) (it_groups it) Q"
      "held (it_pool it) (it_groups it) = held p' gs" "p_key_seed (it_pool it) = p_key_seed p'"
      "if b then it_groups it \<noteq> [] \<and> g_transactions (last (it_groups it)) \<noteq> [] else held p' gs = {#}" by auto
    then show ?thesis unfolding p'(3,5) by (intro exI [of _ b] exI [of _ it] exI [of _ Q]) (simp add: True p'(1))
  next
    case False
    with iter_inv_rotate [OF Cons.prems(1) [unfolded P]] show ?thesis by (auto simp: held_rotate)
  qed
qed

lemma next_key_ok:
  assumes "p_transactions p \<noteq> []"
  shows "\<exists>k txs. next_key p = Some k \<and> bt_get (p_transactions p) k = Some txs"
proof -
  have get: "\<exists>txs. bt_get (p_transactions p) (fst kv) = Some txs" if "kv \<in> set (p_transactions p)" for kv
    using that bt_get_keys [of "p_transactions p" "fst kv"] by (auto simp: bt_keys_set)
  show ?thesis
  proof (cases "find (\<lambda>(k, _). p_last_used_key p < k) (p_transactions p)")
    case None
    with assms get [of "hd (p_transactions p)"] show ?thesis
      by (cases "p_transactions p") (auto simp: next_key_def)
  next
    case (Some kv)
    then have "kv \<in> set (p_transactions p)" by (metis find_Some_iff nth_mem)
    with Some get [of kv] show ?thesis by (auto simp: next_key_def split: prod.splits)
  qed
qed

lemma sort_nonces: "sorted_wrt (\<lambda>s t. tx_nonce t \<le> tx_nonce s) (sort_key (\<lambda>tx. - int (tx_nonce tx)) txs)"
  using sorted_sort_key [of "\<lambda>tx. - int (tx_nonce tx)" txs] by (simp add: sorted_wrt_map)

text \<open>The group that \<open>next\<close> makes of a key of the pool.\<close>

definition taken_group :: "pool_key \<Rightarrow> pool_tx list \<Rightarrow> transaction_group" where
  "taken_group k txs = \<lparr> g_key = k, g_transactions = sort_key (\<lambda>tx. - int (tx_nonce tx)) txs, g_removed_hashes = [], g_removed_size = 0 \<rparr>"

lemma iter_next_take:
  assumes "next_key p = Some k" and "bt_get (p_transactions p) k = Some txs"
  shows "iter_next \<lparr> it_pool = p, it_groups = gs \<rparr> =
    Some (True, \<lparr> it_pool = p\<lparr>p_last_used_key := k, p_transactions := bt_remove k (p_transactions p)\<rparr>, it_groups = gs @ [taken_group k txs] \<rparr>)"
proof -
  have "p_transactions p \<noteq> []" using assms(2) by (auto simp: bt_get_def)
  then show ?thesis using assms by (simp add: iter_next_def taken_group_def)
qed

lemma take_group_inv:
  assumes "iter_inv sha p gs P" and "bt_get (p_transactions p) k = Some txs"
  defines "p' \<equiv> p\<lparr>p_last_used_key := k, p_transactions := bt_remove k (p_transactions p)\<rparr>"
  shows "iter_inv sha p' (gs @ [taken_group k txs]) (P @ [[]]) \<and> held p' (gs @ [taken_group k txs]) = held p gs \<and> txs \<noteq> []"
proof -
  have ok: "groups_ok sha p (p_transactions p)" "bt_inv (p_transactions p)" using assms(1) by (simp_all add: iter_inv_def groups_ok_def)
  have key: "pool_key_of sha p' = pool_key_of sha p" "groups_ok sha p' = groups_ok sha p"
    using pool_key_cong [of p' p sha] groups_ok_cong [of p' p sha] by (simp_all add: p'_def fun_eq_iff)
  have h: "held p' (gs @ [taken_group k txs]) = held p gs"
    using bag_remove [OF ok(2), of k] assms(2) by (simp add: held_def p'_def taken_group_def ac_simps)
  have "k \<notin> g_key ` set gs" using assms(1,2) by (auto simp: iter_inv_def)
  moreover have "group_pulled (taken_group k txs) []" by (simp add: group_pulled_def taken_group_def)
  moreover have "groups_ok sha p (bt_remove k (p_transactions p))" by (rule groups_ok_remove [OF ok(1)])
  moreover have "\<forall>tx \<in> set txs. key_of sha p tx = k" "txs \<noteq> []" using assms(2) ok(1) by (auto simp: groups_ok_def)
  ultimately show ?thesis using assms(1) sort_nonces unfolding iter_inv_def h key
    by (simp add: p'_def list_all2_appendI) (simp add: bt_remove_get taken_group_def)
qed

lemma iter_next_ok:
  assumes "iter_inv sha (it_pool it) (it_groups it) P"
  shows "\<exists>b it' P'. iter_next it = Some (b, it') \<and> iter_inv sha (it_pool it') (it_groups it') P' \<and>
    held (it_pool it') (it_groups it') = held (it_pool it) (it_groups it) \<and> p_key_seed (it_pool it') = p_key_seed (it_pool it) \<and>
    (if b then it_groups it' \<noteq> [] \<and> g_transactions (last (it_groups it')) \<noteq> [] else held (it_pool it) (it_groups it) = {#})"
proof (cases "p_transactions (it_pool it) = []")
  case True
  then show ?thesis using iter_cycle_ok [OF assms True] by (simp add: iter_next_def)
next
  case False
  from next_key_ok [OF False] obtain k txs where k: "next_key (it_pool it) = Some k" "bt_get (p_transactions (it_pool it)) k = Some txs"
    by blast
  let ?p = "(it_pool it)\<lparr>p_last_used_key := k, p_transactions := bt_remove k (p_transactions (it_pool it))\<rparr>"
  have "iter_next it = Some (True, \<lparr> it_pool = ?p, it_groups = it_groups it @ [taken_group k txs] \<rparr>)"
    using iter_next_take [OF k, of "it_groups it"] by (cases it) simp
  moreover have "g_transactions (taken_group k txs) \<noteq> []" using take_group_inv [OF assms k(2)]
    by (auto simp: taken_group_def simp flip: set_empty)
  moreover note take_group_inv [OF assms k(2)]
  ultimately show ?thesis
    by (intro exI [of _ True] exI [of _ "\<lparr> it_pool = ?p, it_groups = it_groups it @ [taken_group k txs] \<rparr>"] exI [of _ "P @ [[]]"]) simp
qed

text \<open>Pulling from the group at the back: the smallest nonce of its signer and key.\<close>

lemma held_snoc: "held p (gs @ [g]) = held p gs + mset (g_transactions g)"
  by (simp add: held_def ac_simps)

lemma pull_inv:
  assumes inv: "iter_inv sha p (gs @ [g]) (P @ [ps])" and g: "g_transactions g = txs @ [tx]"
  defines "g' \<equiv> g\<lparr>g_transactions := txs, g_removed_hashes := g_removed_hashes g @ [tx_hash tx], g_removed_size := g_removed_size g + tx_size tx\<rparr>"
  shows "iter_inv sha p (gs @ [g']) (P @ [ps @ [tx]]) \<and> held p (gs @ [g]) = add_mset tx (held p (gs @ [g'])) \<and>
    g_removed_size g + tx_size tx < 2 ^ 64 \<and> (\<forall>t \<in># held p (gs @ [g']). key_of sha p t = key_of sha p tx \<longrightarrow> tx_nonce tx \<le> tx_nonce t)"
proof -
  have h: "held p (gs @ [g]) = add_mset tx (held p (gs @ [g']))" by (simp add: held_snoc g g'_def)
  have l: "list_all2 group_pulled gs P" "group_pulled g ps" using inv by (auto simp: iter_inv_def list_all2_append1 list_all2_Cons1 dest: list_all2_lengthD)
  have c: "counts (p_unique p) (p_total_size p) (held p (gs @ [g']) + mset (concat (P @ [ps @ [tx]])))"
    using inv by (simp add: iter_inv_def h ac_simps)
  have size: "g_removed_size g + tx_size tx \<le> p_total_size p"
    using c l(2) by (simp add: counts_def group_pulled_def sum_mset_sum_list [symmetric] flip: mset_map)
  have tx: "key_of sha p tx = g_key g" "\<And>t. t \<in> set txs \<Longrightarrow> tx_nonce tx \<le> tx_nonce t"
    "g_key g \<notin> g_key ` set gs" "bt_get (p_transactions p) (g_key g) = None"
    using inv by (auto simp: iter_inv_def g sorted_wrt_append)
  have "tx_nonce tx \<le> tx_nonce t" if t: "t \<in># held p (gs @ [g'])" "key_of sha p t = key_of sha p tx" for t
  proof -
    consider "t \<in># bag (p_transactions p)" | x where "x \<in> set gs" "t \<in> set (g_transactions x)" | "t \<in> set txs"
      using t(1) by (auto simp: held_def g'_def)
    then show ?thesis
    proof cases
      case 1
      from bag_groups [OF this] obtain k ts where "bt_get (p_transactions p) k = Some ts" "t \<in> set ts"
        using inv by (auto simp: iter_inv_def groups_ok_def)
      with inv have "bt_get (p_transactions p) (key_of sha p t) \<noteq> None" by (auto simp: iter_inv_def groups_ok_def)
      with t(2) tx(1,4) show ?thesis by simp
    next
      case 2
      with inv have "key_of sha p t = g_key x" by (auto simp: iter_inv_def)
      moreover have "g_key x \<noteq> g_key g" using 2(1) tx(3) by (metis imageI)
      ultimately show ?thesis using tx(1) t(2) by simp
    qed (rule tx(2))
  qed
  moreover have "iter_inv sha p (gs @ [g']) (P @ [ps @ [tx]])"
    using inv c l unfolding iter_inv_def
    by (simp add: list_all2_appendI group_pulled_def g'_def g sorted_wrt_append)
  ultimately show ?thesis using h size inv by (auto simp: iter_inv_def)
qed

lemma iter_pull_ok:
  assumes inv: "iter_inv sha (it_pool it) (it_groups it) P" and ne: "it_groups it \<noteq> []"
  shows "\<exists>r it' P'. iter_pull it = Some (r, it') \<and> iter_inv sha (it_pool it') (it_groups it') P' \<and>
    it_pool it' = it_pool it \<and> it_groups it' \<noteq> [] \<and>
    (case r of
       None \<Rightarrow> g_transactions (last (it_groups it)) = [] \<and> held (it_pool it') (it_groups it') = held (it_pool it) (it_groups it)
     | Some tx \<Rightarrow> held (it_pool it) (it_groups it) = add_mset tx (held (it_pool it') (it_groups it')) \<and>
         (\<forall>t \<in># held (it_pool it') (it_groups it'). key_of sha (it_pool it) t = key_of sha (it_pool it) tx \<longrightarrow> tx_nonce tx \<le> tx_nonce t))"
proof -
  define gs where "gs = butlast (it_groups it)"
  define g where "g = last (it_groups it)"
  have gs: "it_groups it = gs @ [g]" using ne by (simp add: gs_def g_def)
  with inv obtain P0 ps where P: "P = P0 @ [ps]" by (auto simp: iter_inv_def list_all2_append1 list_all2_Cons1)
  have last: "vec_get (it_groups it) (length (it_groups it) - 1) = Some g" "butlast (it_groups it) = gs" by (simp_all add: gs vec_get_def)
  show ?thesis
  proof (cases "g_transactions g" rule: rev_exhaust)
    case Nil
    then have "iter_pull it = Some (None, it\<lparr>it_groups := it_groups it\<rparr>)"
      unfolding iter_pull_def last by (simp add: group_next_def gs)
    then have "iter_pull it = Some (None, it)" by simp
    then show ?thesis using inv ne Nil gs by auto
  next
    case (snoc txs tx)
    note pull = pull_inv [OF inv [unfolded gs P] snoc]
    let ?g = "g\<lparr>g_transactions := txs, g_removed_hashes := g_removed_hashes g @ [tx_hash tx], g_removed_size := g_removed_size g + tx_size tx\<rparr>"
    have "iter_pull it = Some (Some tx, it\<lparr>it_groups := gs @ [?g]\<rparr>)"
      using pull last snoc by (simp add: iter_pull_def group_next_def checked_add_def fits_def)
    then show ?thesis using pull by (auto simp: gs)
  qed
qed

text \<open>
  Transactions handed out one after the other, while others stay behind: those of one signer and key go
  in the order of their nonces.
\<close>

definition nonce_order :: "(pool_tx \<Rightarrow> pool_key) \<Rightarrow> pool_tx \<Rightarrow> pool_tx \<Rightarrow> bool" where
  "nonce_order key s t \<longleftrightarrow> (key s = key t \<longrightarrow> tx_nonce s \<le> tx_nonce t)"

definition handed_out :: "(pool_tx \<Rightarrow> pool_key) \<Rightarrow> pool_tx multiset \<Rightarrow> pool_tx list \<Rightarrow> pool_tx multiset \<Rightarrow> bool" where
  "handed_out key B ts B' \<longleftrightarrow>
     B = mset ts + B' \<and> sorted_wrt (nonce_order key) ts \<and> (\<forall>s \<in> set ts. \<forall>t \<in># B'. nonce_order key s t)"

lemma handed_out_Nil [simp]: "handed_out key B [] B' \<longleftrightarrow> B = B'"
  by (simp add: handed_out_def)

lemma handed_out_Cons:
  assumes "handed_out key B' ts B''" and "\<forall>t \<in># B'. nonce_order key tx t"
  shows "handed_out key (add_mset tx B') (tx # ts) B''"
  using assms by (auto simp: handed_out_def)

lemma handed_out_append:
  assumes "handed_out key B ts B'" and "handed_out key B' us B''"
  shows "handed_out key B (ts @ us) B''"
  using assms by (auto simp: handed_out_def sorted_wrt_append)

abbreviation it_held :: "pool_iterator \<Rightarrow> pool_tx multiset" where
  "it_held it \<equiv> held (it_pool it) (it_groups it)"

definition it_inv :: "sha256 \<Rightarrow> byte list \<Rightarrow> pool_iterator \<Rightarrow> bool" where
  "it_inv sha seed it \<longleftrightarrow> (\<exists>P. iter_inv sha (it_pool it) (it_groups it) P) \<and> p_key_seed (it_pool it) = seed"

definition seed_key :: "sha256 \<Rightarrow> byte list \<Rightarrow> pool_tx \<Rightarrow> pool_key" where
  "seed_key sha seed tx = hash_bytes sha (tx_public_key tx @ seed @ account_as_bytes (tx_signer_id tx))"

lemma seed_key: "key_of sha p tx = seed_key sha (p_key_seed p) tx"
  by (simp add: seed_key_def pool_key_of_def)

lemma it_pull:
  assumes "it_inv sha seed it" and "it_groups it \<noteq> []"
  obtains it' where "iter_pull it = Some (None, it')" "g_transactions (last (it_groups it)) = []" "it_inv sha seed it'" "it_held it' = it_held it"
  | tx it' where "iter_pull it = Some (Some tx, it')" "it_inv sha seed it'" "it_groups it' \<noteq> []"
      "it_held it = add_mset tx (it_held it')" "\<forall>t \<in># it_held it'. nonce_order (seed_key sha seed) tx t"
proof -
  from assms(1) obtain P where P: "iter_inv sha (it_pool it) (it_groups it) P" and seed: "p_key_seed (it_pool it) = seed"
    by (auto simp: it_inv_def)
  from iter_pull_ok [OF P assms(2)] obtain r it' P' where r: "iter_pull it = Some (r, it')" "iter_inv sha (it_pool it') (it_groups it') P'"
    "it_pool it' = it_pool it" "it_groups it' \<noteq> []" and c: "case r of
       None \<Rightarrow> g_transactions (last (it_groups it)) = [] \<and> it_held it' = it_held it
     | Some tx \<Rightarrow> it_held it = add_mset tx (it_held it') \<and>
         (\<forall>t \<in># it_held it'. key_of sha (it_pool it) t = key_of sha (it_pool it) tx \<longrightarrow> tx_nonce tx \<le> tx_nonce t)" by blast
  have "it_inv sha seed it'" using r(2,3) seed by (auto simp: it_inv_def)
  with that r c seed show thesis by (cases r) (auto simp: nonce_order_def seed_key)
qed

lemma iter_pulls_ok:
  assumes "it_inv sha seed it" and "it_groups it \<noteq> []"
  shows "\<exists>ts it'. iter_pulls n it = Some (ts, it') \<and> it_inv sha seed it' \<and> length ts \<le> n \<and>
    handed_out (seed_key sha seed) (it_held it) ts (it_held it') \<and> (g_transactions (last (it_groups it)) \<noteq> [] \<and> 0 < n \<longrightarrow> ts \<noteq> [])"
  using assms
proof (induction n arbitrary: it)
  case (Suc n)
  from Suc.prems show ?case
  proof (cases rule: it_pull)
    case (2 tx it')
    from Suc.IH [OF 2(2,3)] obtain ts it'' where "iter_pulls n it' = Some (ts, it'')" "it_inv sha seed it''" "length ts \<le> n"
      "handed_out (seed_key sha seed) (it_held it') ts (it_held it'')" by blast
    with 2 handed_out_Cons show ?thesis by auto
  qed simp
qed simp

lemma it_next:
  assumes "it_inv sha seed it"
  obtains it' where "iter_next it = Some (True, it')" "it_inv sha seed it'" "it_held it' = it_held it" "it_groups it' \<noteq> []"
      "g_transactions (last (it_groups it')) \<noteq> []"
  | it' where "iter_next it = Some (False, it')" "it_inv sha seed it'" "it_held it' = it_held it" "it_held it = {#}"
proof -
  from assms obtain P where P: "iter_inv sha (it_pool it) (it_groups it) P" and seed: "p_key_seed (it_pool it) = seed"
    by (auto simp: it_inv_def)
  from iter_next_ok [OF P] obtain b it' P' where b: "iter_next it = Some (b, it')" "iter_inv sha (it_pool it') (it_groups it') P'"
    "it_held it' = it_held it" "p_key_seed (it_pool it') = p_key_seed (it_pool it)"
    "if b then it_groups it' \<noteq> [] \<and> g_transactions (last (it_groups it')) \<noteq> [] else it_held it = {#}" by blast
  have "it_inv sha seed it'" using b(2,4) seed by (auto simp: it_inv_def)
  with that b show thesis by (cases b) auto
qed

lemma iter_visits_ok:
  assumes "it_inv sha seed it"
  shows "\<exists>ts it'. iter_visits ns it = Some (ts, it') \<and> it_inv sha seed it' \<and> length ts \<le> sum_list ns \<and>
    handed_out (seed_key sha seed) (it_held it) ts (it_held it') \<and>
    (0 \<notin> set ns \<longrightarrow> min (length ns) (size (it_held it)) \<le> length ts)"
  using assms
proof (induction ns arbitrary: it)
  case (Cons n ns)
  from Cons.prems show ?case
  proof (cases rule: it_next)
    case (1 it')
    from iter_pulls_ok [OF 1(2,4), of n] 1(3,5) obtain ts it1 where ts: "iter_pulls n it' = Some (ts, it1)" "it_inv sha seed it1" "length ts \<le> n"
      "handed_out (seed_key sha seed) (it_held it) ts (it_held it1)" "0 < n \<longrightarrow> ts \<noteq> []" by auto
    from Cons.IH [OF ts(2)] obtain us it2 where us: "iter_visits ns it1 = Some (us, it2)" "it_inv sha seed it2" "length us \<le> sum_list ns"
      "handed_out (seed_key sha seed) (it_held it1) us (it_held it2)" "0 \<notin> set ns \<longrightarrow> min (length ns) (size (it_held it1)) \<le> length us" by blast
    have "size (it_held it) = length ts + size (it_held it1)" using ts(4) by (simp add: handed_out_def)
    with ts us have "0 \<notin> set (n # ns) \<longrightarrow> min (length (n # ns)) (size (it_held it)) \<le> length (ts @ us)"
      by (cases ts) auto
    with 1(1) ts us handed_out_append [OF ts(4) us(4)] show ?thesis by simp
  qed simp
qed simp

lemma iterate_ok:
  assumes "pool_inv sha p"
  shows "\<exists>ts p'. iterate ns p = Some (ts, p') \<and> pool_inv sha p' \<and> length ts \<le> sum_list ns \<and>
    handed_out (key_of sha p) (bag (p_transactions p)) ts (bag (p_transactions p')) \<and>
    (0 \<notin> set ns \<longrightarrow> min (length ns) (size (bag (p_transactions p))) \<le> length ts)"
proof -
  have inv: "it_inv sha (p_key_seed p) (pool_iterator_new p)" and h: "it_held (pool_iterator_new p) = bag (p_transactions p)"
    using iter_inv_new [OF assms] by (auto simp: it_inv_def pool_iterator_new_def held_def)
  from iter_visits_ok [OF inv, of ns] obtain ts it' where ts: "iter_visits ns (pool_iterator_new p) = Some (ts, it')"
    "it_inv sha (p_key_seed p) it'" "length ts \<le> sum_list ns" "handed_out (seed_key sha (p_key_seed p)) (bag (p_transactions p)) ts (it_held it')"
    "0 \<notin> set ns \<longrightarrow> min (length ns) (size (bag (p_transactions p))) \<le> length ts" unfolding h by blast
  from ts(2) obtain P where P: "iter_inv sha (it_pool it') (it_groups it') P" by (auto simp: it_inv_def)
  from iter_drop_ok [OF P] obtain p' where "iter_drop it' = Some p'" "pool_inv sha p'" "bag (p_transactions p') = it_held it'"
    by (auto simp: iter_drop_def)
  with ts show ?thesis by (simp add: iterate_def seed_key [abs_def])
qed

subsection \<open>The order of the groups\<close>

text \<open>The round robin order: the keys after the one used last, then the keys up to it.\<close>

definition round_robin :: "transaction_pool \<Rightarrow> pool_key list" where
  "round_robin p = (let ks = bt_keys (p_transactions p) in
     dropWhile (\<lambda>k. k \<le> p_last_used_key p) ks @ takeWhile (\<lambda>k. k \<le> p_last_used_key p) ks)"

lemma find_dropWhile: "find (\<lambda>(k, _). l < (k::crypto_hash)) m = (case dropWhile (\<lambda>kv. fst kv \<le> l) m of [] \<Rightarrow> None | kv # _ \<Rightarrow> Some kv)"
  by (induction m) (auto simp: not_less)

lemma dropWhile_keys: "dropWhile (\<lambda>k. k \<le> l) (map fst m) = map fst (dropWhile (\<lambda>kv. fst kv \<le> l) m)"
  by (simp add: dropWhile_map comp_def)

lemma next_key_round_robin:
  assumes "p_transactions p \<noteq> []"
  shows "next_key p = Some (hd (round_robin p))"
proof (cases "dropWhile (\<lambda>kv. fst kv \<le> p_last_used_key p) (p_transactions p)")
  case Nil
  then have "takeWhile (\<lambda>k. k \<le> p_last_used_key p) (bt_keys (p_transactions p)) = bt_keys (p_transactions p)"
    by (auto simp: takeWhile_eq_all_conv dropWhile_eq_Nil_conv bt_keys_def)
  moreover have "dropWhile (\<lambda>k. k \<le> p_last_used_key p) (bt_keys (p_transactions p)) = []"
    by (simp only: bt_keys_def dropWhile_keys Nil list.map)
  ultimately have "round_robin p = map fst (p_transactions p)" by (simp only: round_robin_def Let_def append_Nil) (simp only: bt_keys_def)
  moreover have "find (\<lambda>(k, _). p_last_used_key p < k) (p_transactions p) = None" by (simp add: find_dropWhile Nil)
  ultimately show ?thesis using assms by (simp add: next_key_def split: list.splits)
next
  case (Cons kv m)
  then show ?thesis by (cases kv) (simp add: next_key_def find_dropWhile round_robin_def bt_keys_def dropWhile_keys Let_def)
qed

lemma sorted_dropWhile_append:
  assumes "\<And>x. x \<in> set xs \<Longrightarrow> x \<le> (k::crypto_hash)" and "\<And>y. y \<in> set ys \<Longrightarrow> k < y"
  shows "dropWhile (\<lambda>x. x \<le> k) (xs @ ys) = ys" and "takeWhile (\<lambda>x. x \<le> k) (xs @ ys) = xs"
proof -
  have "dropWhile (\<lambda>x. x \<le> k) ys = ys" "takeWhile (\<lambda>x. x \<le> k) ys = []"
    using assms(2) by (cases ys; force)+
  then show "dropWhile (\<lambda>x. x \<le> k) (xs @ ys) = ys" "takeWhile (\<lambda>x. x \<le> k) (xs @ ys) = xs"
    using assms(1) by (simp_all add: dropWhile_append2 takeWhile_append2)
qed

lemma round_robin_remove:
  assumes "bt_inv (p_transactions p)" and rr: "round_robin p = k # ks"
  shows "round_robin (p\<lparr>p_last_used_key := k, p_transactions := bt_remove k (p_transactions p)\<rparr>) = ks"
proof -
  let ?l = "p_last_used_key p" and ?keys = "bt_keys (p_transactions p)"
  have s: "sorted_wrt (<) ?keys" by (rule bt_inv_sorted_keys [OF assms(1)])
  have rem: "bt_keys (bt_remove k (p_transactions p)) = filter (\<lambda>x. x \<noteq> k) ?keys"
    by (simp add: bt_keys_def bt_remove_def filter_map comp_def)
  define A where "A = takeWhile (\<lambda>x. x \<le> ?l) ?keys"
  define B where "B = dropWhile (\<lambda>x. x \<le> ?l) ?keys"
  have keys: "?keys = A @ B" by (simp add: A_def B_def)
  have A: "x \<le> ?l" if "x \<in> set A" for x using that by (auto simp: A_def dest: set_takeWhileD)
  have rr': "k # ks = B @ A" using rr by (simp add: round_robin_def Let_def A_def B_def)
  show ?thesis
  proof (cases B)
    case Nil
    then have "?keys = k # ks" using rr' keys by simp
    moreover from this s have "\<And>y. y \<in> set ks \<Longrightarrow> k < y" by simp
    moreover from this have "filter (\<lambda>x. x \<noteq> k) ks = ks" by (auto simp: filter_id_conv)
    ultimately show ?thesis using sorted_dropWhile_append [of "[]" k ks] by (simp add: round_robin_def rem Let_def)
  next
    case (Cons k' B')
    then have k': "k' = k" "ks = B' @ A" using rr' by simp_all
    have "?l < k" using Cons k' hd_dropWhile [of "\<lambda>x. x \<le> ?l" ?keys] by (simp add: B_def)
    then have a: "x \<le> k" "x \<noteq> k" if "x \<in> set A" for x using A [OF that] by auto
    have b: "k < y" if "y \<in> set B'" for y using s that by (simp add: keys Cons k' sorted_wrt_append)
    have "filter (\<lambda>x. x \<noteq> k) ?keys = A @ B'" using a(2) b by (auto simp: keys Cons k' filter_id_conv)
    then show ?thesis using sorted_dropWhile_append [of A k B'] a(1) b by (simp add: round_robin_def rem Let_def k')
  qed
qed

lemma sort_last:
  assumes "txs \<noteq> []"
  shows "last (sort_key (\<lambda>tx. - int (tx_nonce tx)) txs) \<in> set txs"
proof -
  have "sort_key (\<lambda>tx. - int (tx_nonce tx)) txs \<noteq> []" using assms by (auto simp flip: set_empty)
  then show ?thesis using last_in_set by fastforce
qed

lemma bt_remove_length:
  assumes "bt_inv m" and "bt_get m k \<noteq> None"
  shows "length m = Suc (length (bt_remove k m))"
proof -
  have d: "distinct (map fst m)" using bt_inv_distinct [OF assms(1)] by (simp add: bt_keys_def)
  have "k \<in> fst ` set m" using assms(2) bt_get_keys [of m k] by (simp add: bt_keys_set)
  then have "length (filter (\<lambda>kv. fst kv = k) m) = 1" using d
  proof (induction m)
    case (Cons kv m)
    then show ?case by (cases "fst kv = k") (auto simp: filter_empty_conv image_iff)
  qed simp
  then show ?thesis using sum_length_filter_compl [of "\<lambda>kv. fst kv = k" m] by (simp add: bt_remove_def)
qed

lemma pull_taken_group:
  assumes "txs \<noteq> []"
  shows "iter_pull \<lparr> it_pool = p, it_groups = gs @ [taken_group k txs] \<rparr> = Some (r, it) \<Longrightarrow>
    r = Some (last (sort_key (\<lambda>tx. - int (tx_nonce tx)) txs)) \<and> it_pool it = p"
proof -
  have "sort_key (\<lambda>tx. - int (tx_nonce tx)) txs \<noteq> []" using assms by (auto simp flip: set_empty)
  then show "iter_pull \<lparr> it_pool = p, it_groups = gs @ [taken_group k txs] \<rparr> = Some (r, it) \<Longrightarrow> ?thesis"
    by (auto simp: iter_pull_def vec_get_def taken_group_def group_next_def Let_def split: bind_splits if_splits)
qed

lemma first_round:
  assumes "it_inv sha seed \<lparr> it_pool = p, it_groups = gs \<rparr>"
  shows "\<exists>ts it. iter_visits (replicate (length (p_transactions p)) 1) \<lparr> it_pool = p, it_groups = gs \<rparr> = Some (ts, it) \<and>
    map (seed_key sha seed) ts = round_robin p"
  using assms
proof (induction "length (p_transactions p)" arbitrary: p gs)
  case 0
  then show ?case by (simp add: round_robin_def bt_keys_def)
next
  case (Suc n)
  let ?it = "\<lparr> it_pool = p, it_groups = gs \<rparr>"
  have ne: "p_transactions p \<noteq> []" using Suc(2) by auto
  obtain k txs where k: "next_key p = Some k" "bt_get (p_transactions p) k = Some txs" using next_key_ok [OF ne] by blast
  let ?p = "p\<lparr>p_last_used_key := k, p_transactions := bt_remove k (p_transactions p)\<rparr>"
  have inv: "bt_inv (p_transactions p)" "p_key_seed p = seed" "txs \<noteq> []" "\<And>tx. tx \<in> set txs \<Longrightarrow> seed_key sha seed tx = k"
    using Suc.prems k(2) by (auto simp: it_inv_def iter_inv_def groups_ok_def seed_key)
  have "round_robin p \<noteq> []" using ne by (simp add: round_robin_def Let_def bt_keys_def dropWhile_eq_Nil_conv takeWhile_eq_Nil_iff) (cases "p_transactions p"; auto)
  then obtain ks where rr: "round_robin p = k # ks" using next_key_round_robin [OF ne] k(1) by (cases "round_robin p") auto
  let ?it1 = "\<lparr> it_pool = ?p, it_groups = gs @ [taken_group k txs] \<rparr>"
  have nx: "iter_next ?it = Some (True, ?it1)" by (rule iter_next_take [OF k])
  have it1: "it_inv sha seed ?it1"
    by (rule it_next [OF Suc.prems]) (simp_all add: nx)
  obtain r it2 where pull: "iter_pull ?it1 = Some (r, it2)" "it_inv sha seed it2"
    by (rule it_pull [OF it1]) auto
  define tx where "tx = last (sort_key (\<lambda>tx. - int (tx_nonce tx)) txs)"
  have r: "r = Some tx" "it_pool it2 = ?p" using pull_taken_group [OF inv(3) pull(1)] by (simp_all add: tx_def)
  have tx: "seed_key sha seed tx = k" using inv(4) sort_last [OF inv(3)] by (simp add: tx_def)
  have len: "length (p_transactions ?p) = n" using Suc(2) bt_remove_length [OF inv(1), of k] k(2) by simp
  have it2: "it2 = \<lparr> it_pool = ?p, it_groups = it_groups it2 \<rparr>" using r(2) by (cases it2) simp
  from Suc(1) [OF len [symmetric], of "it_groups it2"] pull(2) it2
  obtain ts it where ts: "iter_visits (replicate n 1) it2 = Some (ts, it)" "map (seed_key sha seed) ts = round_robin ?p"
    unfolding len by metis
  have "iter_visits (replicate (Suc n) 1) ?it = Some (tx # ts, it)"
    using ts(1) by (simp add: nx pull(1) r(1))
  moreover have "map (seed_key sha seed) (tx # ts) = round_robin p"
    using ts(2) round_robin_remove [OF inv(1) rr] tx by (simp add: rr)
  ultimately show ?case unfolding Suc(2) [symmetric] by blast
qed

subsection \<open>Sequences of operations\<close>

datatype pool_op = Insert pool_tx | Remove "pool_tx list" | Iterate "nat list"
datatype pool_out = Inserted insert_transaction_result | Removed | Pulled "pool_tx list"

fun pool_exec :: "sha256 \<Rightarrow> pool_op \<Rightarrow> transaction_pool \<Rightarrow> (pool_out \<times> transaction_pool) option" where
  "pool_exec sha (Insert tx) p = do { (r, p) \<leftarrow> insert_transaction sha tx p; Some (Inserted r, p) }"
| "pool_exec sha (Remove txs) p = do { p \<leftarrow> remove_transactions sha txs p; Some (Removed, p) }"
| "pool_exec sha (Iterate ns) p = do { (ts, p) \<leftarrow> iterate ns p; Some (Pulled ts, p) }"

fun pool_run :: "sha256 \<Rightarrow> pool_op list \<Rightarrow> transaction_pool \<Rightarrow> (pool_out list \<times> transaction_pool) option" where
  "pool_run sha [] p = Some ([], p)"
| "pool_run sha (op # ops) p = do { (out, p) \<leftarrow> pool_exec sha op p; (outs, p) \<leftarrow> pool_run sha ops p; Some (out # outs, p) }"

text \<open>
  What the pool promises, on the multiset of its transactions: an insertion adds the transaction unless
  its hash is there or the limit would be passed, a removal drops the transactions with these hashes,
  and a pass hands out transactions that then are gone.
\<close>

fun pool_spec :: "(pool_tx \<Rightarrow> pool_key) \<Rightarrow> nat option \<Rightarrow> pool_op \<Rightarrow> pool_tx multiset \<Rightarrow> pool_out \<Rightarrow> pool_tx multiset \<Rightarrow> bool" where
  "pool_spec key limit (Insert tx) B out B' \<longleftrightarrow>
     (if tx_hash tx \<in># image_mset tx_hash B then out = Inserted Duplicate \<and> B' = B
      else if (case limit of None \<Rightarrow> False | Some l \<Rightarrow> l < sum_mset (image_mset tx_size B) + tx_size tx)
      then out = Inserted NoSpaceLeft \<and> B' = B
      else out = Inserted Success \<and> B' = add_mset tx B)"
| "pool_spec key limit (Remove txs) B out B' \<longleftrightarrow>
     out = Removed \<and> B' = filter_mset (\<lambda>t. tx_hash t \<notin> tx_hash ` set txs) B"
| "pool_spec key limit (Iterate ns) B out B' \<longleftrightarrow>
     (\<exists>ts. out = Pulled ts \<and> handed_out key B ts B' \<and> length ts \<le> sum_list ns \<and>
        (0 \<notin> set ns \<longrightarrow> min (length ns) (size B) \<le> length ts))"

inductive pool_spec_run :: "(pool_tx \<Rightarrow> pool_key) \<Rightarrow> nat option \<Rightarrow> pool_op list \<Rightarrow> pool_tx multiset \<Rightarrow> pool_out list \<Rightarrow> pool_tx multiset \<Rightarrow> bool"
  for key limit where
  Nil: "pool_spec_run key limit [] B [] B"
| Cons: "pool_spec key limit op B out B' \<Longrightarrow> pool_spec_run key limit ops B' outs B'' \<Longrightarrow> pool_spec_run key limit (op # ops) B (out # outs) B''"

fun op_txs :: "pool_op \<Rightarrow> pool_tx list" where
  "op_txs (Insert tx) = [tx]"
| "op_txs (Remove txs) = txs"
| "op_txs (Iterate ns) = []"

fun op_size :: "pool_op \<Rightarrow> nat" where
  "op_size (Insert tx) = tx_size tx"
| "op_size op = 0"

text \<open>The hash of a transaction determines its signer and key: it is the hash of the whole transaction.\<close>

definition hash_determines_signer :: "pool_tx set \<Rightarrow> bool" where
  "hash_determines_signer T \<longleftrightarrow>
     (\<forall>s \<in> T. \<forall>t \<in> T. tx_hash s = tx_hash t \<longrightarrow> tx_signer_id s = tx_signer_id t \<and> tx_public_key s = tx_public_key t)"

text \<open>The seed and the limit never change.\<close>

definition same_config :: "transaction_pool \<Rightarrow> transaction_pool \<Rightarrow> bool" where
  "same_config p q \<longleftrightarrow> p_key_seed q = p_key_seed p \<and> p_size_limit q = p_size_limit p"

lemma same_config_refl [simp]: "same_config p p"
  and same_config_trans: "same_config p q \<Longrightarrow> same_config q r \<Longrightarrow> same_config p r"
  by (simp_all add: same_config_def)

lemma fold_opt_config:
  assumes "\<And>x p q. f x p = Some q \<Longrightarrow> same_config p q"
  shows "fold_opt f xs p = Some q \<Longrightarrow> same_config p q"
  by (induction xs arbitrary: p) (auto split: bind_splits intro: same_config_trans dest: assms)

lemma insert_config: "insert_transaction sha tx p = Some (r, q) \<Longrightarrow> same_config p q"
  by (auto simp: insert_transaction_def same_config_def Let_def split: if_splits bind_splits)

lemma group_removed_config: "fold (group_removed sha) txs (p, g) = (q, g') \<Longrightarrow> same_config p q"
proof (induction txs arbitrary: p g)
  case (Cons tx txs)
  obtain p1 g1 where s: "group_removed sha tx (p, g) = (p1, g1)" by (cases "group_removed sha tx (p, g)")
  then have "same_config p p1" by (auto simp: group_removed_def same_config_def Let_def split: if_splits)
  with Cons s show ?case by (auto intro: same_config_trans)
qed simp

lemma remove_config: "remove_transactions sha txs p = Some q \<Longrightarrow> same_config p q"
proof -
  assume a: "remove_transactions sha txs p = Some q"
  obtain p1 g where g: "fold (group_removed sha) txs (p, hm_empty) = (p1, g)" by (cases "fold (group_removed sha) txs (p, hm_empty)")
  with a have "fold_opt remove_group g p1 = Some q" by (simp add: remove_transactions_def)
  then have "same_config p1 q" by (rule fold_opt_config [rotated])
    (auto simp: remove_group_def same_config_def split: option.splits prod.splits bind_splits)
  with group_removed_config [OF g] show ?thesis by (rule same_config_trans)
qed

lemma settle_config: "settle_group g p = Some q \<Longrightarrow> same_config p q"
  by (auto simp: settle_group_def same_config_def Let_def split: bind_splits)

lemma cycle_config: "iter_cycle gs p = Some (b, it) \<Longrightarrow> same_config p (it_pool it)"
  by (induction gs arbitrary: p) (auto split: bind_splits if_splits intro: same_config_trans dest!: settle_config)

lemma next_config: "iter_next it = Some (b, it') \<Longrightarrow> same_config (it_pool it) (it_pool it')"
  by (auto simp: iter_next_def Let_def split: bind_splits if_splits dest: cycle_config) (auto simp: same_config_def)

lemma pulls_config: "iter_pulls n it = Some (ts, it') \<Longrightarrow> it_pool it' = it_pool it"
  by (induction n arbitrary: it ts) (auto simp: iter_pull_def split: bind_splits option.splits)

lemma visits_config: "iter_visits ns it = Some (ts, it') \<Longrightarrow> same_config (it_pool it) (it_pool it')"
proof (induction ns arbitrary: it ts)
  case (Cons n ns)
  from Cons.prems obtain b it1 where it1: "iter_next it = Some (b, it1)" by (auto split: bind_splits)
  show ?case
  proof (cases b)
    case True
    with Cons.prems it1 obtain us vs it2 where "iter_pulls n it1 = Some (us, it2)" "iter_visits ns it2 = Some (vs, it')"
      by (auto split: bind_splits)
    with next_config [OF it1] Cons.IH pulls_config show ?thesis by (metis same_config_trans)
  next
    case False
    with Cons.prems it1 next_config [OF it1] show ?thesis by simp
  qed
qed simp

lemma drop_config: "drop_group g p = Some q \<Longrightarrow> same_config p q"
  by (auto simp: drop_group_def split: bind_splits if_splits dest: settle_config) (auto simp: same_config_def dest!: settle_config)

lemma iterate_config: "iterate ns p = Some (ts, q) \<Longrightarrow> same_config p q"
proof -
  assume "iterate ns p = Some (ts, q)"
  then obtain it where "iter_visits ns (pool_iterator_new p) = Some (ts, it)" "fold_opt drop_group (it_groups it) (it_pool it) = Some q"
    by (auto simp: iterate_def iter_drop_def split: bind_splits)
  then have "same_config p (it_pool it)" "same_config (it_pool it) q"
    using visits_config [of ns "pool_iterator_new p"] fold_opt_config [OF drop_config] by (auto simp: pool_iterator_new_def)
  then show ?thesis by (rule same_config_trans)
qed

text \<open>Each operation does what the specification says; the counters never overflow.\<close>

lemma bag_hashes: "pool_inv sha p \<Longrightarrow> tx_hash tx \<in> p_unique p \<longleftrightarrow> tx_hash tx \<in># image_mset tx_hash (bag (p_transactions p))"
  by (simp add: pool_inv_def counts_def)

lemma bag_total: "pool_inv sha p \<Longrightarrow> p_total_size p = sum_mset (image_mset tx_size (bag (p_transactions p)))"
  by (simp add: pool_inv_def counts_def)

lemma sum_mset_filter_le: "sum_mset (image_mset f (filter_mset P B)) \<le> sum_mset (image_mset (f :: 'a \<Rightarrow> nat) B)"
  by (induction B) auto

lemma pool_exec_ok:
  assumes inv: "pool_inv sha p" and fit: "p_total_size p + op_size op < 2 ^ 64"
    and T: "hash_determines_signer T" "set_mset (bag (p_transactions p)) \<subseteq> T" "set (op_txs op) \<subseteq> T"
  shows "\<exists>out p'. pool_exec sha op p = Some (out, p') \<and> pool_inv sha p' \<and> same_config p p' \<and>
    pool_spec (key_of sha p) (p_size_limit p) op (bag (p_transactions p)) out (bag (p_transactions p')) \<and>
    set_mset (bag (p_transactions p')) \<subseteq> T \<and> p_total_size p' \<le> p_total_size p + op_size op"
proof (cases op)
  case (Insert tx)
  from fit have "p_total_size p + tx_size tx < 2 ^ 64" by (simp add: Insert)
  from insert_transaction_ok [OF inv this] obtain r p' where r: "insert_transaction sha tx p = Some (r, p')" "pool_inv sha p'"
    "r = (if tx_hash tx \<in> p_unique p then Duplicate
         else if (\<exists>limit. p_size_limit p = Some limit \<and> limit < p_total_size p + tx_size tx) then NoSpaceLeft else Success)"
    "bag (p_transactions p') = (if r = Success then add_mset tx (bag (p_transactions p)) else bag (p_transactions p))" by blast
  have "pool_spec (key_of sha p) (p_size_limit p) op (bag (p_transactions p)) (Inserted r) (bag (p_transactions p'))"
    using r(3,4) unfolding bag_hashes [OF inv] bag_total [OF inv] by (auto simp: Insert split: option.splits if_splits)
  moreover have "p_total_size p' \<le> p_total_size p + op_size op" "set_mset (bag (p_transactions p')) \<subseteq> T"
    using r(4) T(2,3) unfolding bag_total [OF inv] bag_total [OF r(2)] by (auto simp: Insert)
  ultimately show ?thesis using r(1,2) insert_config [OF r(1)] by (simp add: Insert)
next
  case (Remove txs)
  have "same_hash_same_signer (bag (p_transactions p)) txs"
    unfolding same_hash_same_signer_def using T by (auto simp: Remove hash_determines_signer_def subset_iff)
  from remove_transactions_ok [OF inv this] obtain p' where r: "remove_transactions sha txs p = Some p'" "pool_inv sha p'"
    "bag (p_transactions p') = filter_mset (\<lambda>t. tx_hash t \<notin> tx_hash ` set txs) (bag (p_transactions p))" by blast
  have "p_total_size p' \<le> p_total_size p" unfolding bag_total [OF inv] bag_total [OF r(2)] r(3) by (rule sum_mset_filter_le)
  then show ?thesis using r T(2) remove_config [OF r(1)] by (auto simp: Remove)
next
  case (Iterate ns)
  from iterate_ok [OF inv, of ns] obtain ts p' where r: "iterate ns p = Some (ts, p')" "pool_inv sha p'" "length ts \<le> sum_list ns"
    "handed_out (key_of sha p) (bag (p_transactions p)) ts (bag (p_transactions p'))"
    "0 \<notin> set ns \<longrightarrow> min (length ns) (size (bag (p_transactions p))) \<le> length ts" by blast
  have "bag (p_transactions p) = mset ts + bag (p_transactions p')" using r(4) by (simp add: handed_out_def)
  then have "p_total_size p' \<le> p_total_size p" "set_mset (bag (p_transactions p')) \<subseteq> T"
    using T(2) unfolding bag_total [OF inv] bag_total [OF r(2)] by auto
  then show ?thesis using r iterate_config [OF r(1)] by (simp add: Iterate)
qed

lemma pool_run_ok:
  assumes "pool_inv sha p" and "p_total_size p + sum_list (map op_size ops) < 2 ^ 64"
    and "hash_determines_signer T" and "set_mset (bag (p_transactions p)) \<subseteq> T" and "set (concat (map op_txs ops)) \<subseteq> T"
  shows "\<exists>outs p'. pool_run sha ops p = Some (outs, p') \<and> pool_inv sha p' \<and>
    pool_spec_run (seed_key sha (p_key_seed p)) (p_size_limit p) ops (bag (p_transactions p)) outs (bag (p_transactions p'))"
  using assms
proof (induction ops arbitrary: p)
  case Nil
  then show ?case by (auto intro: pool_spec_run.Nil)
next
  case (Cons op ops)
  have fit: "p_total_size p + op_size op < 2 ^ 64" and mem: "set (op_txs op) \<subseteq> T" using Cons.prems(2,5) by auto
  from pool_exec_ok [OF Cons.prems(1) fit Cons.prems(3,4) mem] obtain out p1 where
    p1: "pool_exec sha op p = Some (out, p1)" "pool_inv sha p1" "same_config p p1"
      "pool_spec (seed_key sha (p_key_seed p)) (p_size_limit p) op (bag (p_transactions p)) out (bag (p_transactions p1))"
      "set_mset (bag (p_transactions p1)) \<subseteq> T" "p_total_size p1 \<le> p_total_size p + op_size op" unfolding seed_key by blast
  have "p_total_size p1 + sum_list (map op_size ops) < 2 ^ 64" "set (concat (map op_txs ops)) \<subseteq> T" using Cons.prems(2,5) p1(6) by auto
  from Cons.IH [OF p1(2) this(1) Cons.prems(3) p1(5) this(2)] p1(3)
  obtain outs p2 where "pool_run sha ops p1 = Some (outs, p2)" "pool_inv sha p2"
    "pool_spec_run (seed_key sha (p_key_seed p)) (p_size_limit p) ops (bag (p_transactions p1)) outs (bag (p_transactions p2))"
    by (auto simp: same_config_def)
  with p1(1) pool_spec_run.Cons [OF p1(4)] show ?case by auto
qed

section \<open>Properties\<close>

lemma pool_counters:
  assumes "pool_inv sha p"
  shows "pool_len p = size (bag (p_transactions p))" and "transaction_size p = sum_mset (image_mset tx_size (bag (p_transactions p)))"
proof -
  have "size (image_mset tx_hash (bag (p_transactions p))) = card (p_unique p)"
    using assms by (simp only: pool_inv_def counts_def size_mset_set)
  then show "pool_len p = size (bag (p_transactions p))" by (simp add: pool_len_def)
qed (simp add: transaction_size_def bag_total [OF assms])

text \<open>
  C38: The pool refines a multiset of transactions.  Started empty, on any sequence of insertions, removals
  and passes of its iterator the pool never panics; the result of each operation and the transactions
  it leaves are those of the specification, and \<open>len\<close> and \<open>transaction_size\<close> are the
  number and the total size of the transactions that are left.
\<close>

theorem pool_refines_multiset:
  assumes "hash_determines_signer (set (concat (map op_txs ops)))" and "sum_list (map op_size ops) < 2 ^ 64"
  shows "\<exists>outs p. pool_run sha ops (pool_new seed limit) = Some (outs, p) \<and> pool_inv sha p \<and>
    pool_spec_run (seed_key sha seed) limit ops {#} outs (bag (p_transactions p)) \<and>
    pool_len p = size (bag (p_transactions p)) \<and> transaction_size p = sum_mset (image_mset tx_size (bag (p_transactions p)))"
proof -
  have new: "p_total_size (pool_new seed limit) = 0" "bag (p_transactions (pool_new seed limit)) = {#}"
    "p_key_seed (pool_new seed limit) = seed" "p_size_limit (pool_new seed limit) = limit"
    by (simp_all add: pool_new_def bt_empty_def)
  from pool_run_ok [OF pool_new_inv [of sha seed limit] _ assms(1), of ops] assms(2)
  obtain outs p where "pool_run sha ops (pool_new seed limit) = Some (outs, p)" "pool_inv sha p"
    "pool_spec_run (seed_key sha seed) limit ops {#} outs (bag (p_transactions p))" unfolding new by auto
  with pool_counters show ?thesis by blast
qed

definition sample_tx :: "nat \<Rightarrow> nat \<Rightarrow> account_id \<Rightarrow> nat \<Rightarrow> pool_tx" where
  "sample_tx h s signer nonce = \<lparr> tx_hash = [of_nat h], tx_size = s, tx_signer_id = signer, tx_public_key = [], tx_nonce = nonce \<rparr>"

theorem pool_refines_multiset_witness:
  "\<exists>outs p. pool_run toy_sha [Insert (sample_tx 1 10 ''a'' 2), Insert (sample_tx 2 10 ''a'' 1), Iterate [1, 1], Remove [sample_tx 2 10 ''a'' 1]]
       (pool_new [7] (Some 15)) = Some (outs, p) \<and> pool_inv toy_sha p"
  using pool_refines_multiset [of "[Insert (sample_tx 1 10 ''a'' 2), Insert (sample_tx 2 10 ''a'' 1), Iterate [1, 1], Remove [sample_tx 2 10 ''a'' 1]]"
      toy_sha "[7]" "Some 15"]
  by (auto simp: hash_determines_signer_def sample_tx_def)

text \<open>Two signers, the first with two transactions and used last.\<close>

definition sample_pool :: transaction_pool where
  "sample_pool =
     \<lparr> p_transactions = [(toy_sha [7, 97], [sample_tx 1 10 ''a'' 2, sample_tx 2 10 ''a'' 1]), (toy_sha [7, 98], [sample_tx 3 5 ''b'' 4])],
       p_unique = {[1], [2], [3]}, p_key_seed = [7], p_last_used_key = toy_sha [7, 97], p_size_limit = Some 30, p_total_size = 25 \<rparr>"

lemma sample_keys: "toy_sha [7, 97] < toy_sha [7, 98]" "\<not> toy_sha [7, 98] \<le> toy_sha [7, 97]"
  by (simp_all add: toy_sha_def)

lemma sample_pool_inv: "pool_inv toy_sha sample_pool"
  using sample_keys
  by (simp add: pool_inv_def sample_pool_def groups_ok_def counts_def bt_inv_def bt_get_def sample_tx_def pool_key_of_def hash_bytes_def account_as_bytes_def)

text \<open>
  C39: The groups are served in round robin order: as many visits as there are groups serve every group
  once, in the cyclic order of the keys after the key that was used last, and each visit gives the
  transaction with the smallest nonce of its signer and key.
\<close>

theorem iterator_round_robin:
  assumes "pool_inv sha p"
  shows "\<exists>ts p'. iterate (replicate (length (p_transactions p)) 1) p = Some (ts, p') \<and>
    map (key_of sha p) ts = round_robin p \<and> distinct (round_robin p) \<and> set (round_robin p) = set (bt_keys (p_transactions p)) \<and>
    (\<forall>t \<in> set ts. \<forall>s \<in># bag (p_transactions p). key_of sha p s = key_of sha p t \<longrightarrow> tx_nonce t \<le> tx_nonce s)"
proof -
  let ?n = "replicate (length (p_transactions p)) 1" and ?ks = "bt_keys (p_transactions p)"
  have it: "pool_iterator_new p = \<lparr> it_pool = p, it_groups = [] \<rparr>" by (simp add: pool_iterator_new_def)
  have "it_inv sha (p_key_seed p) \<lparr> it_pool = p, it_groups = [] \<rparr>" using iter_inv_new [OF assms] by (auto simp: it_inv_def)
  from first_round [OF this] obtain ts it' where v: "iter_visits ?n (pool_iterator_new p) = Some (ts, it')"
    "map (seed_key sha (p_key_seed p)) ts = round_robin p" unfolding it by blast
  from iterate_ok [OF assms, of ?n] v(1) obtain p' where i: "iterate ?n p = Some (ts, p')"
    "handed_out (key_of sha p) (bag (p_transactions p)) ts (bag (p_transactions p'))" by (auto simp: iterate_def split: bind_splits)
  have ks: "distinct ?ks" using assms by (auto simp: pool_inv_def groups_ok_def intro: bt_inv_distinct)
  have rr: "mset (round_robin p) = mset ?ks"
    unfolding round_robin_def Let_def mset_append
    by (subst union_commute) (simp only: takeWhile_dropWhile_id flip: mset_append)
  have d: "distinct (round_robin p)" using ks mset_eq_imp_distinct_iff [OF rr] by simp
  moreover have "set (round_robin p) = set ?ks" by (rule mset_eq_setD [OF rr])
  moreover have keys: "map (key_of sha p) ts = round_robin p" using v(2) by (simp add: seed_key)
  moreover have "tx_nonce t \<le> tx_nonce s" if t: "t \<in> set ts" "s \<in># bag (p_transactions p)" "key_of sha p s = key_of sha p t" for s t
  proof -
    have "s \<in> set ts \<or> s \<in># bag (p_transactions p')" using t(2) i(2) by (auto simp: handed_out_def)
    then show ?thesis
    proof
      assume "s \<in> set ts"
      moreover have "inj_on (key_of sha p) (set ts)" using d unfolding keys [symmetric] by (simp add: distinct_map)
      ultimately have "s = t" using t(1,3) by (auto dest: inj_onD)
      then show ?thesis by simp
    next
      assume "s \<in># bag (p_transactions p')"
      then show ?thesis using t(1,3) i(2) by (simp add: handed_out_def nonce_order_def)
    qed
  qed
  ultimately show ?thesis using i(1) by blast
qed

theorem iterator_round_robin_witness:
  "\<exists>ts p'. iterate (replicate (length (p_transactions sample_pool)) 1) sample_pool = Some (ts, p') \<and>
     map (key_of toy_sha sample_pool) ts = [toy_sha [7, 98], toy_sha [7, 97]]"
proof -
  have "round_robin sample_pool = [toy_sha [7, 98], toy_sha [7, 97]]"
    using sample_keys by (simp add: round_robin_def sample_pool_def bt_keys_def Let_def)
  then show ?thesis using iterator_round_robin [OF sample_pool_inv] by auto
qed

end
