(* ===== verification/Trie_State.thy ===== *)
theory Trie_State
  imports Trie_Flatten
begin

text \<open>
  Updates of a complete state: which hashes an update gives up, what the storage holds after the
  insertions of an update have been applied, and that reading from it gives the contents that the
  changes describe.
\<close>

section \<open>The hashes that an update gives up\<close>

text \<open>
  In a complete state every node and every value can be read.  An update only subtracts the reference
  counts of hashes that are in the storage, and its nodes only point to nodes of the state.
\<close>

definition present_in :: "disk_trie \<Rightarrow> crypto_hash \<Rightarrow> bool" where
  "present_in trie h \<longleftrightarrow> (\<exists>b. dt_storage trie h = Inr b)"

fun ref_ok :: "disk_trie \<Rightarrow> value_handle \<Rightarrow> bool" where
  "ref_ok trie (HashAndSize r) \<longleftrightarrow> present_in trie (vr_hash r)"
| "ref_ok trie (InMemory i n) \<longleftrightarrow> True"

definition complete :: "disk_trie \<Rightarrow> crypto_hash \<Rightarrow> bool" where
  "complete trie h \<longleftrightarrow> (\<exists>t. stored trie h t \<and> (\<forall>v \<in> set_trie t. ref_ok trie v))"

fun ptr_ok :: "disk_trie \<Rightarrow> crypto_hash generic_node_or_index \<Rightarrow> bool" where
  "ptr_ok trie (Old h) \<longleftrightarrow> complete trie h"
| "ptr_ok trie (Updated i) \<longleftrightarrow> True"

fun node_ok :: "disk_trie \<Rightarrow> updated_node \<Rightarrow> bool" where
  "node_ok trie Empty \<longleftrightarrow> True"
| "node_ok trie (Leaf e v) \<longleftrightarrow> ref_ok trie v"
| "node_ok trie (Extension e p) \<longleftrightarrow> ptr_ok trie p"
| "node_ok trie (Branch cs w) \<longleftrightarrow> (\<forall>p. Some p \<in> set cs \<longrightarrow> ptr_ok trie p) \<and> (\<forall>v. w = Some v \<longrightarrow> ref_ok trie v)"

definition counts_ok :: "disk_trie \<Rightarrow> refcount_map \<Rightarrow> bool" where
  "counts_ok trie m \<longleftrightarrow> bt_inv m \<and> (\<forall>h x. bt_get m h = Some x \<longrightarrow> fst x = None \<and> snd x \<le> 0 \<and> present_in trie h)"

definition state_ok :: "disk_trie \<Rightarrow> trie_storage_update \<Rightarrow> bool" where
  "state_ok trie u \<longleftrightarrow> counts_ok trie (tu_refcount_changes u) \<and> (\<forall>n. Some n \<in> set (tu_nodes u) \<longrightarrow> node_ok trie (un_node n))"

lemma counts_subtract: "counts_ok trie m \<Longrightarrow> present_in trie h \<Longrightarrow> counts_ok trie (refcount_subtract h n m)"
proof -
  assume a: "counts_ok trie m" "present_in trie h"
  let ?x = "unwrap_or (None, 0) (bt_get m h)"
  have m: "refcount_subtract h n m = bt_insert h (fst ?x, snd ?x - int n) m" by (simp add: refcount_subtract_def split: prod.splits)
  have "fst ?x = None \<and> snd ?x \<le> 0"
  proof (cases "bt_get m h")
    case (Some x)
    then show ?thesis using a(1) unfolding counts_ok_def by fastforce
  qed simp
  then show ?thesis using a unfolding m counts_ok_def by (auto simp: bt_insert_inv bt_insert_get split: if_splits)
qed

lemma stored_node_ok:
  assumes "complete trie h" and "retrieve_raw_node trie h = Inr (Some (b, raw))"
  shows "node_ok trie (un_node (from_raw_trie_node_with_size raw)) \<and> present_in trie h"
proof -
  have "present_in trie h" using assms(2) by (auto simp: retrieve_raw_node_def present_in_def rbind_Inr split: if_splits option.splits)
  moreover obtain t where t: "stored trie h t" "\<forall>v \<in> set_trie t. ref_ok trie v" using assms(1) by (auto simp: complete_def)
  from t(1) have "node_ok trie (un_node (from_raw_trie_node_with_size raw))"
  proof (cases rule: stored.cases)
    case (stored_leaf bytes raw' e v)
    then show ?thesis using assms(2) t(2) by (simp add: from_raw_trie_node_with_size_def)
  next
    case (stored_ext bytes raw' e c t')
    then show ?thesis using assms(2) t(2) by (auto simp: from_raw_trie_node_with_size_def complete_def)
  next
    case (stored_branch bytes raw' cs w ts)
    have "complete trie c" if c: "Some c \<in> set cs" for c
    proof -
      obtain j where j: "j < 16" "cs ! j = Some c" using c stored_branch(4) by (auto simp: in_set_conv_nth)
      have "ts ! j \<in> set ts" using j(1) stored_branch(5) by simp
      then show ?thesis using stored_branch(8) [OF j] t(2) stored_branch(1) by (auto simp: complete_def)
    qed
    moreover have "\<exists>c. p = Old c \<and> Some c \<in> set cs" if "Some p = map_option Old x" "x \<in> set cs" for p x using that by (cases x) auto
    ultimately show ?thesis using assms(2) stored_branch(1,2,3) t(2) by (auto simp: from_raw_trie_node_with_size_def) (metis ptr_ok.simps(1))
  qed
  ultimately show ?thesis by simp
qed

lemma state_take: "take_node u i = Some (n, u') \<Longrightarrow> state_ok trie u \<Longrightarrow> state_ok trie u' \<and> node_ok trie (un_node n)"
proof -
  assume a: "take_node u i = Some (n, u')" "state_ok trie u"
  have u': "u' = u\<lparr>tu_nodes := (tu_nodes u)[i := None]\<rparr>" "i < length (tu_nodes u)" "tu_nodes u ! i = Some n"
    using a(1) by (auto simp: take_node_def bind_eq_Some_conv vec_get_Some)
  have "Some n \<in> set (tu_nodes u)" using nth_mem [OF u'(2)] u'(3) by simp
  then show ?thesis using a(2) set_update_subset_insert [of "tu_nodes u" i None] by (auto simp: state_ok_def u'(1))
qed

lemma state_place_at: "place_node_at u i n = Some u' \<Longrightarrow> state_ok trie u \<Longrightarrow> node_ok trie (un_node n) \<Longrightarrow> state_ok trie u'"
  using set_update_subset_insert [of "tu_nodes u" i "Some n"]
  by (auto simp: place_node_at_def state_ok_def bind_eq_Some_conv vec_set_def split: if_splits)

lemma state_place: "place_node u n = (c, u') \<Longrightarrow> state_ok trie u \<Longrightarrow> node_ok trie (un_node n) \<Longrightarrow> state_ok trie u'"
  by (auto simp: place_node_def state_ok_def)

lemma state_ensure:
  assumes "ensure_updated trie u p = Inr (c, u')" and "state_ok trie u" and "ptr_ok trie p"
  shows "state_ok trie u'"
proof (cases p)
  case (Old h)
  then obtain r where r: "retrieve_raw_node trie h = Inr r" using assms(1) by (auto simp: move_node_to_mutable_def rbind_Inr)
  show ?thesis
  proof (cases r)
    case None
    then show ?thesis using assms Old r by (auto simp: move_node_to_mutable_def store_node_def state_ok_def empty_node_def)
  next
    case (Some x)
    then obtain b raw where "r = Some (b, raw)" by (cases x) auto
    moreover from this have "node_ok trie (un_node (from_raw_trie_node_with_size raw))" "present_in trie h"
      using stored_node_ok [of trie h b raw] r assms(3) Old by auto
    ultimately show ?thesis using assms(1,2) Old r counts_subtract by (auto simp: move_node_to_mutable_def store_node_def state_ok_def)
  qed
qed (use assms in simp)

lemma state_delete_value: "delete_value u v = Inr u' \<Longrightarrow> state_ok trie u \<Longrightarrow> ref_ok trie v \<Longrightarrow> state_ok trie u'"
  by (cases v) (auto simp: state_ok_def counts_subtract)

lemma state_store_value: "store_value u v = Some (h, u') \<Longrightarrow> state_ok trie u \<Longrightarrow> state_ok trie u' \<and> ref_ok trie h"
  by (cases v) (auto simp: state_ok_def Let_def)

lemma state_new: "state_ok trie trie_storage_update_new"
  by (simp add: state_ok_def counts_ok_def trie_storage_update_new_def bt_get_def bt_empty_def)

lemmas state_rules = state_take state_place_at state_place state_ensure state_delete_value state_store_value

lemma state_calc:
  "calc_memory_usage_and_store u i m n oc = Some u' \<Longrightarrow> state_ok trie u \<Longrightarrow> node_ok trie n \<Longrightarrow> state_ok trie u'"
  by (auto simp: calc_memory_usage_and_store_def bind_eq_Some_conv Let_def dest: state_place_at)

fun insert_control_state :: "insert_control \<Rightarrow> trie_storage_update" where
  "insert_control_state (Insert_Break u) = u"
| "insert_control_state (Insert_Descend i p u) = u"
| "insert_control_state (Insert_Restart u) = u"

lemma children_update: "\<forall>p. Some p \<in> set cs \<longrightarrow> ptr_ok trie p \<Longrightarrow> ptr_ok trie q \<Longrightarrow> Some p \<in> set (cs[i := Some q]) \<Longrightarrow> ptr_ok trie p"
  using set_update_subset_insert [of cs i "Some q"] by auto

lemma children_update_none: "ptr_ok trie q \<Longrightarrow> Some p \<in> set ((replicate n None)[i := Some q]) \<Longrightarrow> ptr_ok trie p"
  using set_update_subset_insert [of "replicate n None" i "Some q"] by (auto split: if_splits)

lemma state_insert_empty:
  "insert_empty u i partial v = Some (Inr c) \<Longrightarrow> state_ok trie u \<Longrightarrow> state_ok trie (insert_control_state c)"
  by (auto simp: insert_empty_def bind_eq_Some_conv Let_def dest!: state_store_value elim!: state_place_at)

lemma state_insert_branch:
  assumes "insert_branch trie u i partial v m cs w = Some (Inr c)" and "state_ok trie u" and "node_ok trie (Branch cs w)"
  shows "state_ok trie (insert_control_state c)"
proof -
  obtain empty where e: "ns_is_empty partial = Some empty" using assms(1) by (auto simp: insert_branch_def bind_eq_Some_conv)
  show ?thesis
  proof (cases empty)
    case True
    obtain u1 where u1: "(case w of None \<Rightarrow> Inr u | Some v \<Rightarrow> delete_value u v) = Inr u1"
      using assms(1) True e by (auto simp: insert_branch_def rtry_SomeInr bind_eq_Some_conv)
    then have "state_ok trie u1" using assms(2,3) state_delete_value by (auto split: option.splits)
    then show ?thesis using assms True e u1
      by (auto simp: insert_branch_def rtry_SomeInr bind_eq_Some_conv Let_def dest!: state_store_value elim!: state_place_at)
  next
    case False
    obtain n child c1 u1 where u1: "vec_get cs n = Some child"
        "(case child of Some ptr \<Rightarrow> ensure_updated trie u ptr | None \<Rightarrow> Inr (place_node u empty_node)) = Inr (c1, u1)"
      and c: "calc_memory_usage_and_store u1 i m (Branch (cs[n := Some (Updated c1)]) w) (Some c1) = Some (insert_control_state c)"
      using assms(1) False e by (auto simp: insert_branch_def rtry_SomeInr bind_eq_Some_conv Let_def)
    have "child \<in> set cs" using u1(1) by (auto simp: vec_get_Some)
    then have "state_ok trie u1" using u1(2) assms(2,3) state_ensure state_place by (auto split: option.splits simp: empty_node_def)
    then show ?thesis by (rule state_calc [OF c]) (use assms(3) children_update [of cs trie "Updated c1" _ n] in auto)
  qed
qed

lemma state_leaf_into_branch:
  "leaf_into_branch u i e v = Some (Inr c) \<Longrightarrow> state_ok trie u \<Longrightarrow> ref_ok trie v \<Longrightarrow> state_ok trie (insert_control_state c)"
  by (auto simp: leaf_into_branch_def bind_eq_Some_conv place_node_def Let_def vec_set_def split: if_splits elim!: state_place_at)
    (auto simp: state_ok_def dest: children_update_none [rotated])

lemma state_insert_leaf:
  assumes "insert_leaf u i partial v e w = Some (Inr c)" and "state_ok trie u" and "ref_ok trie w"
  shows "state_ok trie (insert_control_state c)"
proof -
  obtain k b cp l l' where d: "ns_from_encoded e = Some (k, b)" "ns_common_prefix partial k = Some cp" "ns_len k = Some l" "ns_len partial = Some l'"
    using assms(1) by (auto simp: insert_leaf_def bind_eq_Some_conv)
  consider (same) "cp = l \<and> cp = l'" | (apart) "\<not> (cp = l \<and> cp = l')" "cp = 0" | (split) "\<not> (cp = l \<and> cp = l')" "cp \<noteq> 0" by blast
  then show ?thesis
  proof cases
    case same
    obtain u1 h u2 where "delete_value u w = Inr u1" "store_value u1 v = Some (h, u2)" "place_node_at u2 i (with_size (Leaf e h) (node_usage (Leaf e h))) = Some (insert_control_state c)"
      using assms(1) d same by (auto simp: insert_leaf_def rtry_SomeInr bind_eq_Some_conv Let_def)
    then show ?thesis using assms(2,3) state_delete_value state_store_value state_place_at by fastforce
  next
    case apart
    then have "leaf_into_branch u i k w = Some (Inr c)" using assms(1) d by (auto simp: insert_leaf_def)
    then show ?thesis using assms(2,3) by (rule state_leaf_into_branch)
  next
    case split
    obtain x a z b u1 c1 where "place_node u (with_size (Leaf x w) a) = (c1, u1)" "place_node_at u1 i (with_size (Extension z (Updated c1)) b) = Some (insert_control_state c)"
      using assms(1) d split by (auto simp: insert_leaf_def bind_eq_Some_conv Let_def place_node_def)
    then show ?thesis using assms(2,3) state_place state_place_at by fastforce
  qed
qed

lemma state_extension_into_branch:
  assumes "extension_into_branch u i m k p = Some (Inr c)" and "state_ok trie u" and "ptr_ok trie p"
  shows "state_ok trie (insert_control_state c)"
proof -
  obtain idx l where d: "ns_at k 0 = Some idx" "ns_len k = Some l" using assms(1) by (auto simp: extension_into_branch_def bind_eq_Some_conv)
  have finish: ?thesis if "state_ok trie u1" "ptr_ok trie child" "vec_set (replicate num_children None) idx (Some child) = Some cs"
    "place_node_at u1 i (with_size (Branch cs None) x) = Some (insert_control_state c)" for u1 child cs x
    using that children_update_none [OF that(2)] by (auto simp: vec_set_def split: if_splits elim!: state_place_at)
  show ?thesis
  proof (cases "l = 1")
    case True
    obtain cs x where "vec_set (replicate num_children None) idx (Some p) = Some cs" "place_node_at u i (with_size (Branch cs None) x) = Some (insert_control_state c)"
      using assms(1) d True by (auto simp: extension_into_branch_def bind_eq_Some_conv Let_def)
    then show ?thesis by (rule finish [OF assms(2,3)])
  next
    case False
    obtain e a c1 u1 cs x where u1: "place_node u (with_size (Extension e p) a) = (c1, u1)" and
      "vec_set (replicate num_children None) idx (Some (Updated c1)) = Some cs" "place_node_at u1 i (with_size (Branch cs None) x) = Some (insert_control_state c)"
      using assms(1) d False by (auto simp: extension_into_branch_def bind_eq_Some_conv Let_def place_node_def)
    moreover have "state_ok trie u1" using state_place [OF u1 assms(2)] assms(3) by simp
    ultimately show ?thesis using finish [of u1 "Updated c1"] by simp
  qed
qed

lemma state_insert_extension:
  assumes "insert_extension trie u i partial m e p = Some (Inr c)" and "state_ok trie u" and "ptr_ok trie p"
  shows "state_ok trie (insert_control_state c)"
proof -
  obtain k b cp l where d: "ns_from_encoded e = Some (k, b)" "ns_common_prefix partial k = Some cp" "ns_len k = Some l"
    using assms(1) by (auto simp: insert_extension_def bind_eq_Some_conv)
  consider (apart) "cp = 0" | (whole) "cp \<noteq> 0" "cp = l" | (split) "cp \<noteq> 0" "cp \<noteq> l" by blast
  then show ?thesis
  proof cases
    case apart
    then have "extension_into_branch u i m k p = Some (Inr c)" using assms(1) d by (auto simp: insert_extension_def)
    then show ?thesis using assms(2,3) by (rule state_extension_into_branch)
  next
    case whole
    obtain c1 u1 x where "ensure_updated trie u p = Inr (c1, u1)" "place_node_at u1 i (with_size (Extension e (Updated c1)) x) = Some (insert_control_state c)"
      using assms(1) d whole by (auto simp: insert_extension_def rtry_SomeInr bind_eq_Some_conv Let_def)
    then show ?thesis using assms(2,3) state_ensure state_place_at by fastforce
  next
    case split
    obtain x a z b u1 c1 where "place_node u (with_size (Extension x p) a) = (c1, u1)" "place_node_at u1 i (with_size (Extension z (Updated c1)) b) = Some (insert_control_state c)"
      using assms(1) d split by (auto simp: insert_extension_def bind_eq_Some_conv Let_def place_node_def)
    then show ?thesis using assms(2,3) state_place state_place_at by fastforce
  qed
qed

lemma state_insert_step:
  assumes "insert_step trie u i partial v = Some (Inr c)" and "state_ok trie u"
  shows "state_ok trie (insert_control_state c)"
proof -
  obtain n u1 where n: "take_node u i = Some (n, u1)" using assms(1) by (auto simp: insert_step_def bind_eq_Some_conv)
  have ok: "state_ok trie u1" "node_ok trie (un_node n)" using state_take [OF n assms(2)] by simp_all
  then show ?thesis using assms(1) state_insert_empty state_insert_branch state_insert_leaf state_insert_extension
    by (cases "un_node n") (fastforce simp: insert_step_def n Let_def)+
qed

lemma state_insert_loop:
  "insert_loop trie u i partial v path = Some (Inr (p, u')) \<Longrightarrow> state_ok trie u \<Longrightarrow> state_ok trie u'"
proof (induction trie u i partial v path rule: insert_loop.induct)
  case (1 trie u i partial v path)
  obtain c where c: "insert_step trie u i partial v = Some (Inr c)" using 1(3) by (auto simp: insert_loop.simps [of trie u] rtry_SomeInr)
  have ok: "state_ok trie (insert_control_state c)" by (rule state_insert_step [OF c 1(4)])
  show ?case using 1(1,2,3) ok c by (cases c) (auto simp: insert_loop.simps [of trie u])
qed

lemma state_usage: "insert_usage path j u = Some u' \<Longrightarrow> state_ok trie u \<Longrightarrow> state_ok trie u'"
  by (auto simp: insert_usage_def bind_eq_Some_conv dest!: state_take elim!: state_place_at)

lemma state_insert:
  assumes "generic_insert trie u i key v = Some (Inr u')" and "state_ok trie u"
  shows "state_ok trie u'"
proof -
  obtain path u1 n where u1: "insert_loop trie u i (ns_new key) v [] = Some (Inr (path, u1))" "fold_opt (insert_usage path) (rev [0..<n]) u1 = Some u'"
    using assms(1) by (auto simp: generic_insert_def rtry_SomeInr bind_eq_Some_conv)
  have "state_ok trie u1" by (rule state_insert_loop [OF u1(1) assms(2)])
  moreover have "fold_opt (insert_usage path) js u = Some u' \<Longrightarrow> state_ok trie u \<Longrightarrow> state_ok trie u'" for js u u'
    by (induction js arbitrary: u) (auto simp: bind_eq_Some_conv dest: state_usage)
  ultimately show ?thesis using u1(2) by blast
qed

text \<open>Squashing and deletion.\<close>

lemma state_extend_child:
  assumes "extend_child trie u i e p = Some (Inr u')" and "state_ok trie u" and "ptr_ok trie p"
  shows "state_ok trie u'"
proof -
  obtain c u1 n u2 where u: "ensure_updated trie u p = Inr (c, u1)" "take_node u1 c = Some (n, u2)"
    using assms(1) by (auto simp: extend_child_def rtry_SomeInr bind_eq_Some_conv)
  have ok: "state_ok trie u2" "node_ok trie (un_node n)" using state_take [OF u(2) state_ensure [OF u(1) assms(2,3)]] by simp_all
  show ?thesis
  proof (cases "un_node n")
    case Empty
    then have "place_node_at u2 i empty_node = Some u'" using assms(1) u by (auto simp: extend_child_def bind_eq_Some_conv Let_def)
    then show ?thesis using ok(1) state_place_at by (fastforce simp: empty_node_def)
  next
    case (Leaf f v)
    obtain g a where "place_node_at u2 i (with_size (Leaf g v) a) = Some u'"
      using assms(1) u Leaf by (auto simp: extend_child_def bind_eq_Some_conv Let_def)
    then show ?thesis using ok Leaf state_place_at by fastforce
  next
    case (Branch cs w)
    obtain a b u3 where "place_node_at u2 c (with_size (Branch cs w) b) = Some u3" "place_node_at u3 i (with_size (Extension e (Updated c)) a) = Some u'"
      using assms(1) u Branch by (auto simp: extend_child_def bind_eq_Some_conv Let_def)
    then show ?thesis using ok Branch state_place_at by (metis node_ok.simps(3) ptr_ok.simps(2) updated_node_with_size.select_convs(1))
  next
    case (Extension f q)
    obtain g a where "place_node_at u2 i (with_size (Extension g q) a) = Some u'"
      using assms(1) u Extension by (auto simp: extend_child_def bind_eq_Some_conv Let_def)
    then show ?thesis using ok Extension state_place_at by fastforce
  qed
qed

lemma squash_child_some: "squash_child u x = Some (Some p) \<Longrightarrow> x = Some p"
proof (cases x)
  case (Some q)
  assume "squash_child u x = Some (Some p)"
  then show ?thesis using Some by (cases q) (auto simp: bind_eq_Some_conv split: if_splits)
qed simp

lemma squash_children_mem: "those (map (squash_child u) cs) = Some cs' \<Longrightarrow> Some p \<in> set cs' \<Longrightarrow> Some p \<in> set cs"
proof (induction cs arbitrary: cs')
  case (Cons c cs)
  then show ?case by (auto split: option.splits dest: squash_child_some)
qed simp

lemma find_child_mem: "find_child i cs = Some (j, p) \<Longrightarrow> Some p \<in> set cs"
  by (induction cs arbitrary: i) (auto split: option.splits)

lemma state_squash_branch:
  assumes "squash_branch trie u i m cs w = Some (Inr u')" and "state_ok trie u" and "node_ok trie (Branch cs w)"
  shows "state_ok trie u'"
proof -
  obtain cs' where cs': "those (map (squash_child u) cs) = Some cs'" using assms(1) by (auto simp: squash_branch_def bind_eq_Some_conv)
  have b: "node_ok trie (Branch cs' w)" using squash_children_mem [OF cs'] assms(3) by simp
  let ?n = "length (filter (\<lambda>c. c \<noteq> None) cs')"
  consider (none) "?n = 0" | (one) "?n \<noteq> 0" "?n = 1 \<and> w = None" | (keep) "?n \<noteq> 0" "\<not> (?n = 1 \<and> w = None)" by blast
  then show ?thesis
  proof cases
    case none
    then obtain n where "place_node_at u i n = Some u'" "node_ok trie (un_node n)"
      using assms(1) b unfolding squash_branch_def cs' bind.bind_lunit Let_def by (cases w) (auto simp: bind_eq_Some_conv empty_node_def)
    then show ?thesis using assms(2) state_place_at by blast
  next
    case one
    then obtain j p e where "find_child 0 cs' = Some (j, p)" "extend_child trie u i e p = Some (Inr u')"
      using assms(1) unfolding squash_branch_def cs' bind.bind_lunit Let_def by (auto simp: bind_eq_Some_conv)
    then show ?thesis using assms(2) b state_extend_child find_child_mem by fastforce
  next
    case keep
    then have "place_node_at u i (with_size (Branch cs' w) m) = Some u'"
      using assms(1) unfolding squash_branch_def cs' bind.bind_lunit Let_def by (auto simp: bind_eq_Some_conv split: if_splits)
    then show ?thesis using assms(2) b state_place_at by fastforce
  qed
qed

lemma state_squash:
  assumes "squash_node trie u i = Some (Inr u')" and "state_ok trie u"
  shows "state_ok trie u'"
proof -
  obtain n u1 where n: "take_node u i = Some (n, u1)" using assms(1) by (auto simp: squash_node_def bind_eq_Some_conv)
  have ok: "state_ok trie u1" "node_ok trie (un_node n)" using state_take [OF n assms(2)] by simp_all
  show ?thesis
  proof (cases "un_node n")
    case Empty
    then have "place_node_at u1 i empty_node = Some u'" using assms(1) by (auto simp: squash_node_def n bind_eq_Some_conv)
    then show ?thesis using ok(1) state_place_at by (fastforce simp: empty_node_def)
  qed (use assms(1) ok state_squash_branch state_extend_child in \<open>auto simp: squash_node_def n\<close>)
qed

fun delete_control_state :: "delete_control \<Rightarrow> trie_storage_update" where
  "delete_control_state (Delete_Break d u) = u"
| "delete_control_state (Delete_Descend i p u) = u"

lemma state_delete_leaf:
  assumes "delete_leaf u i partial m e v = Some (Inr c)" and "state_ok trie u" and "ref_ok trie v"
  shows "state_ok trie (delete_control_state c)"
proof -
  obtain k b same where d: "ns_from_encoded e = Some (k, b)" "ns_eq k partial = Some same" using assms(1) by (auto simp: delete_leaf_def bind_eq_Some_conv)
  show ?thesis
  proof (cases same)
    case True
    obtain u1 where "delete_value u v = Inr u1" "place_node_at u1 i empty_node = Some (delete_control_state c)"
      using assms(1) d True by (auto simp: delete_leaf_def rtry_SomeInr bind_eq_Some_conv)
    then show ?thesis using assms(2,3) state_delete_value state_place_at by (fastforce simp: empty_node_def)
  next
    case False
    have "place_node_at u i (with_size (Leaf e v) m) = Some (delete_control_state c)" using assms(1) d False by (auto simp: delete_leaf_def bind_eq_Some_conv)
    then show ?thesis using assms(2,3) state_place_at by fastforce
  qed
qed

lemma state_delete_branch:
  assumes "delete_branch trie u i partial m cm cs w = Some (Inr c)" and "state_ok trie u" and "node_ok trie (Branch cs w)"
  shows "state_ok trie (delete_control_state c)"
proof -
  obtain empty where e: "ns_is_empty partial = Some empty" using assms(1) by (auto simp: delete_branch_def bind_eq_Some_conv)
  have keep: ?thesis if "place_node_at u i (with_size (Branch cs w) m) = Some (delete_control_state c)" using that assms(2,3) state_place_at by fastforce
  show ?thesis
  proof (cases empty)
    case True
    show ?thesis
    proof (cases w)
      case None
      then show ?thesis using assms(1) True e keep by (auto simp: delete_branch_def bind_eq_Some_conv)
    next
      case (Some v)
      obtain u1 where u1: "delete_value u v = Inr u1" "calc_memory_usage_and_store u1 i cm (Branch cs None) None = Some (delete_control_state c)"
        using assms(1) True e Some by (auto simp: delete_branch_def rtry_SomeInr bind_eq_Some_conv)
      have "state_ok trie u1" using state_delete_value [OF u1(1) assms(2)] assms(3) Some by simp
      then show ?thesis by (rule state_calc [OF u1(2)]) (use assms(3) in simp)
    qed
  next
    case False
    obtain n child where n: "ns_at partial 0 = Some n" "vec_get cs n = Some child" using assms(1) e False by (auto simp: delete_branch_def bind_eq_Some_conv)
    show ?thesis
    proof (cases child)
      case None
      then show ?thesis using assms(1) False e n keep by (auto simp: delete_branch_def bind_eq_Some_conv)
    next
      case (Some p)
      obtain c1 u1 where u1: "ensure_updated trie u p = Inr (c1, u1)" "calc_memory_usage_and_store u1 i cm (Branch (cs[n := Some (Updated c1)]) w) (Some c1) = Some (delete_control_state c)"
        using assms(1) False e n Some by (auto simp: delete_branch_def rtry_SomeInr bind_eq_Some_conv)
      have "Some p \<in> set cs" using n(2) Some by (auto simp: vec_get_Some in_set_conv_nth)
      then have "state_ok trie u1" using state_ensure [OF u1(1) assms(2)] assms(3) by simp
      then show ?thesis by (rule state_calc [OF u1(2)]) (use assms(3) children_update [of cs trie "Updated c1" _ n] in auto)
    qed
  qed
qed

lemma state_delete_extension:
  assumes "delete_extension trie u i partial m cm e p = Some (Inr c)" and "state_ok trie u" and "ptr_ok trie p"
  shows "state_ok trie (delete_control_state c)"
proof -
  obtain k b cp l where d: "ns_from_encoded e = Some (k, b)" "ns_common_prefix k partial = Some cp" "ns_len k = Some l"
    using assms(1) by (auto simp: delete_extension_def bind_eq_Some_conv)
  show ?thesis
  proof (cases "cp = l")
    case True
    obtain c1 u1 where u1: "ensure_updated trie u p = Inr (c1, u1)" "calc_memory_usage_and_store u1 i cm (Extension e (Updated c1)) (Some c1) = Some (delete_control_state c)"
      using assms(1) d True by (auto simp: delete_extension_def rtry_SomeInr bind_eq_Some_conv)
    show ?thesis by (rule state_calc [OF u1(2) state_ensure [OF u1(1) assms(2,3)]]) simp
  next
    case False
    then have "place_node_at u i (with_size (Extension e p) m) = Some (delete_control_state c)" using assms(1) d by (auto simp: delete_extension_def bind_eq_Some_conv)
    then show ?thesis using assms(2,3) state_place_at by fastforce
  qed
qed

lemma state_delete_step:
  assumes "delete_step trie u i partial = Some (Inr c)" and "state_ok trie u"
  shows "state_ok trie (delete_control_state c)"
proof -
  obtain n u1 where n: "take_node u i = Some (n, u1)" using assms(1) by (auto simp: delete_step_def bind_eq_Some_conv)
  have ok: "state_ok trie u1" "node_ok trie (un_node n)" using state_take [OF n assms(2)] by simp_all
  show ?thesis
  proof (cases "un_node n")
    case Empty
    then have "place_node_at u1 i empty_node = Some (delete_control_state c)" using assms(1) by (auto simp: delete_step_def n bind_eq_Some_conv Let_def)
    then show ?thesis using ok(1) state_place_at by (fastforce simp: empty_node_def)
  qed (use assms(1) ok state_delete_leaf state_delete_branch state_delete_extension in \<open>fastforce simp: delete_step_def n Let_def\<close>)+
qed

lemma state_delete_loop:
  assumes "delete_loop trie u i partial path = Some r" and "r = Inr (d, p, u')" and "state_ok trie u"
  shows "state_ok trie u'"
  using assms(2,3)
proof (induction arbitrary: d p u' rule: delete_loop.raw_induct [OF _ assms(1)])
  case (1 f trie u i partial path r)
  obtain c where c: "delete_step trie u i partial = Some (Inr c)" using 1(2,3) by (auto simp: rtry_SomeInr)
  have ok: "state_ok trie (delete_control_state c)" by (rule state_delete_step [OF c 1(4)])
  show ?case using 1(1) [OF _ 1(3)] 1(2,3) ok c by (cases c) auto
qed

lemma state_delete_usage:
  assumes "delete_usage trie d i (x, u) = Some (Inr (y, u'))" and "state_ok trie u"
  shows "state_ok trie u'"
proof -
  obtain n u1 a u2 where u: "take_node u i = Some (n, u1)" "place_node_at u1 i (with_size (un_node n) a) = Some u2"
    "(if d then squash_node trie u2 i else Some (Inr u2)) = Some (Inr u')"
    using assms(1) by (auto simp: delete_usage_def rtry_SomeInr bind_eq_Some_conv)
  have "state_ok trie u1" "node_ok trie (un_node n)" using state_take [OF u(1) assms(2)] by simp_all
  then have "state_ok trie u2" using state_place_at [OF u(2)] by simp
  then show ?thesis using u(3) state_squash by (auto split: if_splits)
qed

lemma state_delete:
  assumes "generic_delete trie u i key = Some (Inr u')" and "state_ok trie u"
  shows "state_ok trie u'"
proof -
  obtain d path u1 y where u1: "delete_loop trie u i (ns_new key) [] = Some (Inr (d, path, u1))" "fold_try (delete_usage trie d) (rev path) (0, u1) = Some (Inr (y, u'))"
    using assms(1) by (auto simp: generic_delete_def rtry_SomeInr)
  have "state_ok trie u1" by (rule state_delete_loop [OF u1(1) refl assms(2)])
  moreover have "fold_try (delete_usage trie d) js (x, u) = Some (Inr (y, u')) \<Longrightarrow> state_ok trie u \<Longrightarrow> state_ok trie u'" for js x u
    by (induction js arbitrary: x u) (auto simp: rtry_SomeInr dest: state_delete_usage)
  ultimately show ?thesis using u1(2) by blast
qed

lemma state_change: "apply_change trie i c u = Some (Inr u') \<Longrightarrow> state_ok trie u \<Longrightarrow> state_ok trie u'"
  by (cases "(trie, i, c, u)" rule: apply_change.cases) (auto dest: state_insert state_delete)

section \<open>Contents of tries\<close>

lemma lookup_in_trie: "t_lookup t k = Some v \<Longrightarrow> v \<in> set_trie t"
proof (induction t arbitrary: k)
  case (TBranch ts w)
  show ?case
  proof (cases k)
    case (Cons a l)
    then have a: "a < length ts" "t_lookup (ts ! a) l = Some v" using TBranch.prems by (auto split: if_splits)
    have "v \<in> set_trie (ts ! a)" by (rule TBranch.IH [OF nth_mem [OF a(1)] a(2)])
    then show ?thesis using nth_mem [OF a(1)] by auto
  qed (use TBranch.prems in simp)
qed (auto split: if_splits)

lemma trie_in_lookup: "shape t \<Longrightarrow> v \<in> set_trie t \<Longrightarrow> \<exists>k. t_lookup t k = Some v"
proof (induction t)
  case (TExt e t)
  then obtain k where "t_lookup t k = Some v" by auto
  then show ?case by (intro exI [of _ "e @ k"]) simp
next
  case (TBranch ts w)
  show ?case
  proof (cases "w = Some v")
    case True
    then show ?thesis by (intro exI [of _ "[]"]) simp
  next
    case False
    then obtain j where j: "j < length ts" "v \<in> set_trie (ts ! j)" using TBranch.prems(2) by (auto simp: in_set_conv_nth)
    have "ts ! j \<in> set ts" using j(1) by simp
    then obtain k where "t_lookup (ts ! j) k = Some v" using TBranch.IH [of "ts ! j"] TBranch.prems(1) j(2) by auto
    then show ?thesis using j(1) by (intro exI [of _ "j # k"]) simp
  qed
qed auto

lemma lookup_map: "t_lookup (map_trie f t) k = map_option f (t_lookup t k)"
proof (induction t arbitrary: k)
  case (TBranch ts w)
  then show ?case by (cases k) auto
qed auto

lemma present_map: "present (map (map_trie f) ts) = present ts"
  unfolding present_def by (auto intro!: filter_cong)

lemma canonical_map: "canonical (map_trie f t) \<longleftrightarrow> canonical t"
proof (induction t)
  case (TExt e t)
  then show ?case by (cases t) auto
next
  case (TBranch ts w)
  then show ?case by (auto simp: present_map)
qed auto

lemma map_insert: "canonical t \<Longrightarrow> nibbles_ok k \<Longrightarrow> map_trie f (t_insert k v t) = t_insert k (f v) (map_trie f t)"
  by (rule canonical_unique)
    (auto simp: canonical_map t_insert_canonical lookup_map t_insert_lookup canonical_shape)

lemma map_delete: "canonical t \<Longrightarrow> nibbles_ok k \<Longrightarrow> map_trie f (t_delete k t) = t_delete k (map_trie f t)"
  by (rule canonical_unique)
    (auto simp: canonical_map t_delete_canonical lookup_map t_delete_lookup canonical_shape)

lemma set_insert: "canonical t \<Longrightarrow> nibbles_ok k \<Longrightarrow> set_trie (t_insert k v t) \<subseteq> insert v (set_trie t)"
  using trie_in_lookup [OF canonical_shape [OF t_insert_canonical]] lookup_in_trie by (fastforce simp: t_insert_lookup canonical_shape split: if_splits)

lemma set_delete: "canonical t \<Longrightarrow> nibbles_ok k \<Longrightarrow> set_trie (t_delete k t) \<subseteq> set_trie t"
  using trie_in_lookup [OF canonical_shape [OF t_delete_canonical]] lookup_in_trie by (fastforce simp: t_delete_lookup canonical_shape split: if_splits)

text \<open>The changes on the trie of references.\<close>

definition value_ref_new :: "sha256 \<Rightarrow> byte list \<Rightarrow> value_ref" where
  "value_ref_new sha value = \<lparr> vr_length = cast u32_w (length value), vr_hash = hash_bytes sha value \<rparr>"

fun t_change :: "sha256 \<Rightarrow> trie_change \<Rightarrow> value_ref trie \<Rightarrow> value_ref trie" where
  "t_change sha (key, Some v) t = t_insert (unpack key) (value_ref_new sha v) t"
| "t_change sha (key, None) t = t_delete (unpack key) t"

fun change_cost :: "trie_change \<Rightarrow> nat" where
  "change_cost (key, Some v) = 400 + 4 * length key + length v"
| "change_cost (key, None) = 4 + 4 * length key"

definition change_ok :: "trie_change \<Rightarrow> bool" where
  "change_ok c \<longleftrightarrow> (\<forall>b \<in> set (fst c). b < 256) \<and> (\<forall>v. snd c = Some v \<longrightarrow> length v < 2 ^ 32)"

lemma unpack_ok: "\<forall>b \<in> set key. b < 256 \<Longrightarrow> nibbles_ok (unpack key)"
proof -
  assume "\<forall>b \<in> set key. b < 256"
  then have "slice_ok (ns_new key)" "nibbles (ns_new key) = unpack key" by (auto simp: slice_ok_def ns_new_def ns_new_offset_def nibbles_def)
  then show ?thesis using slice_nibbles_ok by metis
qed

lemma t_change_canonical: "canonical t \<Longrightarrow> change_ok c \<Longrightarrow> canonical (t_change sha c t)"
  by (cases c rule: change_cost.cases) (auto simp: change_ok_def unpack_ok t_insert_canonical t_delete_canonical)

section \<open>A sequence of changes\<close>

text \<open>The update has come to a trie: the nodes represent it, and all its values can be resolved.\<close>

definition at_trie :: "sha256 \<Rightarrow> disk_trie \<Rightarrow> trie_storage_update \<Rightarrow> value_ref trie \<Rightarrow> bool" where
  "at_trie sha trie u T \<longleftrightarrow> state_ok trie u \<and> (\<exists>t F. repr trie (tu_nodes u) (Updated 0) t F \<and> canonical t \<and>
     (\<forall>h \<in> set_trie t. handle_ok (tu_values u) h \<and> ref_ok trie h) \<and> T = t_refs sha (tu_values u) t)"

lemma resolve_append: "handle_ok vs h \<Longrightarrow> handle_ok (vs @ ws) h \<and> resolve sha (vs @ ws) h = resolve sha vs h"
  by (cases h) (auto simp: nth_append)

lemma t_refs_append: "\<forall>h \<in> set_trie t. handle_ok vs h \<Longrightarrow> t_refs sha (vs @ ws) t = t_refs sha vs t"
  by (intro trie.map_cong refl) (auto dest: resolve_append)

lemma at_trie_insert:
  assumes at: "at_trie sha trie u T" and key: "\<forall>b \<in> set key. b < 256" and v: "length v < 2 ^ 32"
    and fit: "t_mem vr_length T + 400 + 4 * length key + length v < 2 ^ 64"
  shows "\<exists>u'. generic_insert trie u 0 key (MemtrieAndDisk v) = Some (Inr u') \<and>
    at_trie sha trie u' (t_insert (unpack key) (value_ref_new sha v) T) \<and> tu_values u' = tu_values u @ [Some v]"
proof -
  obtain t F where t: "repr trie (tu_nodes u) (Updated 0) t F" "canonical t" "\<forall>h \<in> set_trie t. handle_ok (tu_values u) h \<and> ref_ok trie h"
    and T: "T = t_refs sha (tu_values u) t" and ok: "state_ok trie u" using at by (auto simp: at_trie_def)
  have k: "nibbles_ok (unpack key)" using unpack_ok [OF key] .
  let ?t' = "t_insert (unpack key) (new_handle u v) t"
  have "mem t = t_mem vr_length T" unfolding T using t_refs_mem [of t "tu_values u" sha] t(3) by simp
  with fit have fit': "mem t + 400 + 4 * length key + length v < 2 ^ 64" by simp
  obtain u' F' where u': "generic_insert trie u 0 key (MemtrieAndDisk v) = Some (Inr u')"
    "repr trie (tu_nodes u') (Updated 0) ?t' F'" "tu_values u' = tu_values u @ [Some v]"
    using generic_insert_ok [OF t(1) key fit'] by blast
  have new: "handle_ok (tu_values u') (new_handle u v)" "resolve sha (tu_values u') (new_handle u v) = value_ref_new sha v"
    using v by (simp_all add: u'(3) value_ref_new_def hash_bytes_def)
  have "handle_ok (tu_values u') h \<and> ref_ok trie h" if "h \<in> set_trie ?t'" for h
    using that set_insert [OF t(2) k, of "new_handle u v"] t(3) new(1) resolve_append [of "tu_values u" h "[Some v]" sha] by (auto simp: u'(3))
  moreover have "t_refs sha (tu_values u') ?t' = t_insert (unpack key) (value_ref_new sha v) T"
    using t_refs_append [of t "tu_values u" sha "[Some v]"] t(3) unfolding map_insert [OF t(2) k] new(2) T by (simp add: u'(3))
  ultimately show ?thesis using u' state_insert [OF u'(1) ok] t_insert_canonical [OF t(2) k] unfolding at_trie_def by metis
qed

lemma at_trie_delete:
  assumes at: "at_trie sha trie u T" and key: "\<forall>b \<in> set key. b < 256" and fit: "t_mem vr_length T + 4 + 4 * length key < 2 ^ 64"
  shows "\<exists>u'. generic_delete trie u 0 key = Some (Inr u') \<and> at_trie sha trie u' (t_delete (unpack key) T) \<and> tu_values u' = tu_values u"
proof -
  obtain t F where t: "repr trie (tu_nodes u) (Updated 0) t F" "canonical t" "\<forall>h \<in> set_trie t. handle_ok (tu_values u) h \<and> ref_ok trie h"
    and T: "T = t_refs sha (tu_values u) t" and ok: "state_ok trie u" using at by (auto simp: at_trie_def)
  have k: "nibbles_ok (unpack key)" using unpack_ok [OF key] .
  have "mem t = t_mem vr_length T" unfolding T using t_refs_mem [of t "tu_values u" sha] t(3) by simp
  with fit have fit': "mem t + 4 + 4 * length key < 2 ^ 64" by simp
  obtain u' F' where u': "generic_delete trie u 0 key = Some (Inr u')"
    "repr trie (tu_nodes u') (Updated 0) (t_delete (unpack key) t) F'" "tu_values u' = tu_values u"
    using generic_delete_ok [OF t(1,2) key fit'] by blast
  have "handle_ok (tu_values u') h \<and> ref_ok trie h" if "h \<in> set_trie (t_delete (unpack key) t)" for h
    using that set_delete [OF t(2) k] t(3) by (auto simp: u'(3))
  moreover have "t_refs sha (tu_values u') (t_delete (unpack key) t) = t_delete (unpack key) T"
    by (simp add: map_delete [OF t(2) k] T u'(3))
  ultimately show ?thesis using u' state_delete [OF u'(1) ok] t_delete_canonical [OF t(2) k] unfolding at_trie_def by metis
qed

fun new_value :: "trie_change \<Rightarrow> byte list option list" where
  "new_value (key, Some v) = [Some v]"
| "new_value (key, None) = []"

lemma at_trie_change:
  assumes at: "at_trie sha trie u T" and c: "change_ok c" and fit: "t_mem vr_length T + change_cost c + n < 2 ^ 64"
  shows "\<exists>u'. apply_change trie 0 c u = Some (Inr u') \<and> at_trie sha trie u' (t_change sha c T) \<and> tu_values u' = tu_values u @ new_value c \<and>
    t_mem vr_length (t_change sha c T) + n < 2 ^ 64"
proof (cases c rule: change_cost.cases)
  case (1 key v)
  have key: "\<forall>b \<in> set key. b < 256" "length v < 2 ^ 32" using c by (auto simp: 1 change_ok_def)
  have "shape T" using at by (auto simp: at_trie_def canonical_map canonical_shape)
  from t_insert_mem [OF this unpack_ok [OF key(1)], of vr_length "value_ref_new sha v"]
  have "t_mem vr_length (t_insert (unpack key) (value_ref_new sha v) T) \<le> t_mem vr_length T + 300 + 4 * length key + length v"
    using key(2) by (simp add: value_ref_new_def cast_def)
  then show ?thesis using at_trie_insert [OF at key] fit by (auto simp: 1)
next
  case (2 key)
  have key: "\<forall>b \<in> set key. b < 256" using c by (auto simp: 2 change_ok_def)
  have "shape T" using at by (auto simp: at_trie_def canonical_map canonical_shape)
  from t_delete_mem [OF this unpack_ok [OF key], of vr_length]
  have "t_mem vr_length (t_delete (unpack key) T) \<le> t_mem vr_length T + 2 + 4 * length key" by simp
  then show ?thesis using at_trie_delete [OF at key] fit by (auto simp: 2)
qed

lemma at_trie_changes:
  assumes "at_trie sha trie u T" and "\<forall>c \<in> set cs. change_ok c" and "t_mem vr_length T + sum_list (map change_cost cs) < 2 ^ 64"
  shows "\<exists>u'. fold_try (apply_change trie 0) cs u = Some (Inr u') \<and> at_trie sha trie u' (fold (t_change sha) cs T) \<and>
    tu_values u' = tu_values u @ concat (map new_value cs)"
  using assms
proof (induction cs arbitrary: u T)
  case (Cons c cs)
  have "t_mem vr_length T + change_cost c + sum_list (map change_cost cs) < 2 ^ 64" using Cons.prems(3) by (simp add: add.assoc)
  from at_trie_change [OF Cons.prems(1) _ this] Cons.prems(2) obtain u1 where u1: "apply_change trie 0 c u = Some (Inr u1)"
    "at_trie sha trie u1 (t_change sha c T)" "tu_values u1 = tu_values u @ new_value c" "t_mem vr_length (t_change sha c T) + sum_list (map change_cost cs) < 2 ^ 64" by auto
  from Cons.IH [OF u1(2) _ u1(4)] Cons.prems(2) u1 show ?case by auto
qed simp

section \<open>Storages that hold a trie\<close>

definition readable :: "sha256 \<Rightarrow> node_encoding \<Rightarrow> disk_trie \<Rightarrow> raw_trie_node_with_size \<Rightarrow> bool" where
  "readable sha ser trie n \<longleftrightarrow> dt_storage trie (sha (ser n)) = Inr (ser n) \<and> dt_decode trie (ser n) = Some n \<and> sha (ser n) \<noteq> empty_root"

definition holds :: "sha256 \<Rightarrow> node_encoding \<Rightarrow> disk_trie \<Rightarrow> value_ref trie \<Rightarrow> bool" where
  "holds sha ser trie T \<longleftrightarrow> content_addressed sha ser trie \<and> canonical T \<and> dt_root trie = t_hash sha ser T \<and>
     (\<forall>n \<in> t_nodes sha ser T. readable sha ser trie n) \<and> (\<forall>r \<in> set_trie T. present_in trie (vr_hash r))"

lemma mem_refs: "mem (map_trie HashAndSize T) = t_mem vr_length T"
  by (simp add: t_mem_map)

lemma retrieve_readable: "readable sha ser trie n \<Longrightarrow> retrieve_raw_node trie (sha (ser n)) = Inr (Some (ser n, n))"
  by (simp add: readable_def retrieve_raw_node_def)

lemma from_raw_branch: "from_raw_trie_node (raw_branch cs w) = Branch cs (map_option HashAndSize w)"
  by (cases w) (simp_all add: new_branch_def)

lemma readable_stored:
  "canonical T \<Longrightarrow> T \<noteq> TEmpty \<Longrightarrow> \<forall>n \<in> t_nodes sha ser T. readable sha ser trie n \<Longrightarrow> stored trie (t_hash sha ser T) (map_trie HashAndSize T)"
proof (induction T)
  case (TLeaf e v)
  then have r: "readable sha ser trie (t_raw sha ser (TLeaf e v))" by simp
  show ?case using stored_leaf [OF retrieve_readable [OF r], where e = e and v = "HashAndSize v"] TLeaf.prems(1) by simp
next
  case (TExt e T)
  then have r: "readable sha ser trie (t_raw sha ser (TExt e T))" and T: "T \<noteq> TEmpty" "canonical T" by auto
  have "stored trie (t_hash sha ser T) (map_trie HashAndSize T)" by (rule TExt.IH [OF T(2,1)]) (use TExt.prems(3) in simp)
  from stored_ext [OF retrieve_readable [OF r], where e = e, OF _ _ _ _ this] show ?case using TExt.prems(1) by (simp add: mem_refs)
next
  case (TBranch Ts w)
  then have r: "readable sha ser trie (t_raw sha ser (TBranch Ts w))" and len: "length Ts = 16" by simp_all
  have "stored trie (t_hash sha ser (TBranch Ts w)) (TBranch (map (map_trie HashAndSize) Ts) (map_option HashAndSize w))"
    unfolding t_hash_raw [OF TBranch.prems(2)]
  proof (rule stored_branch [OF retrieve_readable [OF r]])
    show "from_raw_trie_node (rn_node (t_raw sha ser (TBranch Ts w))) = Branch (map (child_hash sha ser) Ts) (map_option HashAndSize w)"
      by (simp add: from_raw_branch)
    show "rn_memory_usage (t_raw sha ser (TBranch Ts w)) = mem (TBranch (map (map_trie HashAndSize) Ts) (map_option HashAndSize w))"
      using mem_refs [of "TBranch Ts w"] by simp
    show "map (map_trie HashAndSize) Ts ! j = TEmpty" if "j < 16" "map (child_hash sha ser) Ts ! j = None" for j
      using that len by (simp split: if_splits)
    show "stored trie c (map (map_trie HashAndSize) Ts ! j)" if j: "j < 16" "map (child_hash sha ser) Ts ! j = Some c" for j c
    proof -
      have T: "Ts ! j \<in> set Ts" "Ts ! j \<noteq> TEmpty" "c = t_hash sha ser (Ts ! j)" using j len by (auto split: if_splits)
      have "\<forall>n \<in> t_nodes sha ser (Ts ! j). readable sha ser trie n" "canonical (Ts ! j)" using TBranch.prems(1,3) T(1) by auto
      then show ?thesis using TBranch.IH [OF T(1) _ T(2)] T(3) j(1) len by simp
    qed
  qed (simp_all add: len)
  then show ?case by simp
qed simp

lemma holds_start:
  assumes "holds sha ser trie T"
  shows "\<exists>u. move_node_to_mutable trie trie_storage_update_new (dt_root trie) = Inr (0, u) \<and> at_trie sha trie u T \<and> tu_values u = []"
proof -
  note h = assms [unfolded holds_def]
  let ?t = "map_trie HashAndSize T"
  have refs: "t_refs sha [] ?t = T" by (simp add: trie.map_comp comp_def trie.map_ident)
  have handles: "\<forall>v \<in> set_trie ?t. handle_ok [] v \<and> ref_ok trie v" using h by (auto simp: trie.set_map)
  have canon: "canonical ?t" using h by (simp add: canonical_map)
  show ?thesis
  proof (cases "T = TEmpty")
    case True
    let ?u = "trie_storage_update_new\<lparr>tu_nodes := [Some empty_node]\<rparr>"
    have "move_node_to_mutable trie trie_storage_update_new (dt_root trie) = Inr (0, ?u)"
      using h True by (simp add: move_node_to_mutable_def retrieve_raw_node_def store_node_def trie_storage_update_new_def)
    moreover have "repr trie (tu_nodes ?u) (Updated 0) TEmpty {0}" by (rule repr_empty) (simp add: at_node_def)
    moreover have "state_ok trie ?u" using state_new [of trie] by (simp add: state_ok_def empty_node_def trie_storage_update_new_def)
    moreover have "tu_values ?u = []" by (simp add: trie_storage_update_new_def)
    ultimately show ?thesis using handles refs canon True unfolding at_trie_def by (intro exI [of _ ?u]) auto
  next
    case False
    have st: "stored trie (dt_root trie) ?t" using readable_stored [OF _ False] h by simp
    from stored_move [OF st, of trie_storage_update_new] obtain u where
      u: "move_node_to_mutable trie trie_storage_update_new (dt_root trie) = Inr (0, u)" "appends trie_storage_update_new u" "repr trie (tu_nodes u) (Updated 0) ?t {0}"
      by (auto simp: trie_storage_update_new_def)
    have "complete trie (dt_root trie)" using st handles by (auto simp: complete_def)
    then have "state_ok trie u" using state_ensure [of trie trie_storage_update_new "Old (dt_root trie)" 0 u] u(1) state_new by simp
    moreover have "tu_values u = []" using u(2) by (simp add: appends_def trie_storage_update_new_def)
    ultimately show ?thesis using u(1,3) handles refs canon unfolding at_trie_def by (intro exI [of _ u]) auto
  qed
qed

section \<open>The changes of an update\<close>

lemma add_get:
  assumes "bt_inv m"
  shows "bt_inv (refcount_add h b n m)"
    and "bt_get (refcount_add h b n m) k = (if k = h then Some (Some b, snd (unwrap_or (None, 0) (bt_get m h)) + int n) else bt_get m k)"
  using assms by (auto simp: refcount_add_def bt_insert_inv bt_insert_get split: prod.splits)

text \<open>Before flattening a count is not positive and belongs to a hash of the storage.\<close>

lemma add_all_get:
  assumes "counts_ok trie m"
  shows "bt_inv (add_all sha bs m) \<and>
    (\<forall>h. h \<notin> sha ` set bs \<longrightarrow> bt_get (add_all sha bs m) h = bt_get m h) \<and>
    (\<forall>h. h \<in> sha ` set bs \<longrightarrow> (\<exists>b rc. b \<in> set bs \<and> sha b = h \<and> bt_get (add_all sha bs m) h = Some (Some b, rc) \<and>
       (rc \<le> 0 \<longrightarrow> present_in trie h)))"
proof (induction bs rule: rev_induct)
  case Nil
  then show ?case using assms by (simp add: counts_ok_def)
next
  case (snoc b bs)
  let ?m = "add_all sha bs m"
  have inv: "bt_inv ?m" using snoc by simp
  let ?rc = "snd (unwrap_or (None, 0) (bt_get ?m (sha b))) + 1"
  have get: "bt_get (add_all sha (bs @ [b]) m) h = (if h = sha b then Some (Some b, ?rc) else bt_get ?m h)" for h
    using add_get(2) [OF inv, of "sha b" b 1 h] by simp
  have pres: "present_in trie (sha b)" if rc: "?rc \<le> 0"
  proof (cases "sha b \<in> sha ` set bs")
    case True
    then obtain c rc where c: "bt_get ?m (sha b) = Some (Some c, rc)" "rc \<le> 0 \<longrightarrow> present_in trie (sha b)" using snoc by blast
    then show ?thesis using rc by simp
  next
    case False
    then have g: "bt_get ?m (sha b) = bt_get m (sha b)" using snoc by simp
    then have "bt_get m (sha b) \<noteq> None" using rc by (cases "bt_get m (sha b)") simp_all
    then show ?thesis using assms by (auto simp: counts_ok_def)
  qed
  have "\<exists>c rc. c \<in> set (bs @ [b]) \<and> sha c = h \<and> bt_get (add_all sha (bs @ [b]) m) h = Some (Some c, rc) \<and> (rc \<le> 0 \<longrightarrow> present_in trie h)"
    if h: "h \<in> sha ` set (bs @ [b])" for h
  proof (cases "h = sha b")
    case True
    then show ?thesis using pres by (intro exI [of _ b] exI [of _ ?rc]) (simp add: get del: add_all_simps)
  next
    case False
    then have "h \<in> sha ` set bs" using h by auto
    with snoc obtain c rc where "c \<in> set bs" "sha c = h" "bt_get ?m h = Some (Some c, rc)" "rc \<le> 0 \<longrightarrow> present_in trie h" by blast
    then show ?thesis using False by (intro exI [of _ c] exI [of _ rc]) (simp add: get del: add_all_simps)
  qed
  moreover have "bt_get (add_all sha (bs @ [b]) m) h = bt_get m h" if "h \<notin> sha ` set (bs @ [b])" for h
    using that snoc get [of h] by auto
  moreover have "bt_inv (add_all sha (bs @ [b]) m)" using add_get(1) [OF inv] by simp
  ultimately show ?case by blast
qed

lemma collect_changes_eq:
  assumes "\<And>h v rc. (h, v, rc) \<in> set m \<Longrightarrow> 0 < rc \<Longrightarrow> v \<noteq> None"
  shows "collect_changes m (ins, dels) =
    Some (ins @ [\<lparr> ra_hash = h, ra_data = the v, ra_rc = nat rc \<rparr>. (h, v, rc) \<leftarrow> m, 0 < rc],
          dels @ [\<lparr> rs_hash = h, rs_rc = nat (- rc) \<rparr>. (h, v, rc) \<leftarrow> m, rc < 0])"
  using assms
proof (induction m arbitrary: ins dels)
  case (Cons x m)
  obtain h v rc where x: "x = (h, v, rc)" by (cases x)
  have IH: "collect_changes m (ins, dels) =
    Some (ins @ [\<lparr> ra_hash = h, ra_data = the v, ra_rc = nat rc \<rparr>. (h, v, rc) \<leftarrow> m, 0 < rc],
          dels @ [\<lparr> rs_hash = h, rs_rc = nat (- rc) \<rparr>. (h, v, rc) \<leftarrow> m, rc < 0])" for ins dels
    by (rule Cons.IH) (use Cons.prems in auto)
  show ?case using Cons.prems [of h v rc] unfolding x by (cases "0 < rc"; cases v) (auto simp: IH)
qed simp

text \<open>The insertions are the data whose count has grown.\<close>

lemma into_changes_insertions:
  assumes inv: "bt_inv m" and "\<And>h v rc. bt_get m h = Some (v, rc) \<Longrightarrow> 0 < rc \<Longrightarrow> v \<noteq> None"
  obtains ins dels where "into_changes m = Some (ins, dels)"
    "\<And>a. a \<in> set ins \<longleftrightarrow> (\<exists>b rc. bt_get m (ra_hash a) = Some (Some b, rc) \<and> 0 < rc \<and> ra_data a = b \<and> ra_rc a = nat rc)"
    "\<And>d. d \<in> set dels \<longleftrightarrow> (\<exists>v rc. bt_get m (rs_hash d) = Some (v, rc) \<and> rc < 0 \<and> rs_rc d = nat (- rc))"
proof -
  have mem: "(h, x) \<in> set m \<longleftrightarrow> bt_get m h = Some x" for h x by (rule bt_get_mem [OF inv])
  have "collect_changes m ([], []) =
    Some ([\<lparr> ra_hash = h, ra_data = the v, ra_rc = nat rc \<rparr>. (h, v, rc) \<leftarrow> m, 0 < rc],
          [\<lparr> rs_hash = h, rs_rc = nat (- rc) \<rparr>. (h, v, rc) \<leftarrow> m, rc < 0])" (is "_ = Some (?i, ?d)")
    using collect_changes_eq [of m "[]" "[]"] assms(2) by (simp add: mem)
  then have "into_changes m = Some (sort_key ra_hash ?i, sort_key rs_hash ?d)" by (simp add: into_changes_def)
  moreover have "a \<in> set (sort_key ra_hash ?i) \<longleftrightarrow> (\<exists>b rc. bt_get m (ra_hash a) = Some (Some b, rc) \<and> 0 < rc \<and> ra_data a = b \<and> ra_rc a = nat rc)" for a
  proof
    assume "a \<in> set (sort_key ra_hash ?i)"
    then obtain h v rc where "(h, v, rc) \<in> set m" "0 < rc" "a = \<lparr> ra_hash = h, ra_data = the v, ra_rc = nat rc \<rparr>" by auto
    then show "\<exists>b rc. bt_get m (ra_hash a) = Some (Some b, rc) \<and> 0 < rc \<and> ra_data a = b \<and> ra_rc a = nat rc" using assms(2) [of h v rc] by (auto simp: mem)
  next
    assume "\<exists>b rc. bt_get m (ra_hash a) = Some (Some b, rc) \<and> 0 < rc \<and> ra_data a = b \<and> ra_rc a = nat rc"
    then obtain rc where "(ra_hash a, Some (ra_data a), rc) \<in> set m" "0 < rc" "ra_rc a = nat rc" by (auto simp: mem)
    then show "a \<in> set (sort_key ra_hash ?i)" by (auto intro!: bexI [of _ "(ra_hash a, Some (ra_data a), rc)"])
  qed
  moreover have "d \<in> set (sort_key rs_hash ?d) \<longleftrightarrow> (\<exists>v rc. bt_get m (rs_hash d) = Some (v, rc) \<and> rc < 0 \<and> rs_rc d = nat (- rc))" for d
  proof
    assume "d \<in> set (sort_key rs_hash ?d)"
    then show "\<exists>v rc. bt_get m (rs_hash d) = Some (v, rc) \<and> rc < 0 \<and> rs_rc d = nat (- rc)" by (auto simp: mem)
  next
    assume "\<exists>v rc. bt_get m (rs_hash d) = Some (v, rc) \<and> rc < 0 \<and> rs_rc d = nat (- rc)"
    then obtain v rc where "(rs_hash d, v, rc) \<in> set m" "rc < 0" "rs_rc d = nat (- rc)" by (auto simp: mem)
    then show "d \<in> set (sort_key rs_hash ?d)" by (auto intro!: bexI [of _ "(rs_hash d, v, rc)"])
  qed
  ultimately show thesis using that by blast
qed

definition apply_insertions :: "disk_trie \<Rightarrow> trie_changes \<Rightarrow> disk_trie" where
  "apply_insertions trie c =
     trie\<lparr>dt_storage := (\<lambda>h. case map_of (map (\<lambda>a. (ra_hash a, ra_data a)) (tc_insertions c)) h of
            Some data \<Rightarrow> Inr data | None \<Rightarrow> dt_storage trie h),
          dt_root := tc_new_root c\<rparr>"

text \<open>What an update returns.\<close>

definition update_data :: "sha256 \<Rightarrow> node_encoding \<Rightarrow> disk_trie \<Rightarrow> trie_change list \<Rightarrow> value_ref trie \<Rightarrow> byte list set" where
  "update_data sha ser trie changes T = ser ` t_nodes sha ser T \<union> {v. \<exists>k. (k, Some v) \<in> set changes} \<union> {b. \<exists>h. dt_storage trie h = Inr b}"

definition update_result ::
  "sha256 \<Rightarrow> node_encoding \<Rightarrow> disk_trie \<Rightarrow> trie_change list \<Rightarrow> value_ref trie \<Rightarrow> trie_changes \<Rightarrow> byte list list \<Rightarrow> refcount_map \<Rightarrow> bool" where
  "update_result sha ser trie changes T c bs m \<longleftrightarrow> tc_old_root c = dt_root trie \<and> tc_new_root c = t_hash sha ser T \<and> counts_ok trie m \<and>
     set bs \<subseteq> update_data sha ser trie changes T \<and>
     (\<forall>n \<in> t_nodes sha ser T. ser n \<in> set bs \<or> readable sha ser trie n) \<and>
     (\<forall>r \<in> set_trie T. vr_hash r \<in> sha ` set bs \<or> present_in trie (vr_hash r)) \<and>
     (\<forall>a. a \<in> set (tc_insertions c) \<longleftrightarrow>
        (\<exists>rc. bt_get (add_all sha bs m) (ra_hash a) = Some (Some (ra_data a), rc) \<and> 0 < rc \<and> ra_rc a = nat rc))"

lemma flatten_returns:
  assumes ca: "content_addressed sha ser trie" and at: "at_trie sha trie u T"
    and vs: "\<And>v. Some v \<in> set (tu_values u) \<Longrightarrow> \<exists>k. (k, Some v) \<in> set changes"
  shows "\<exists>c bs m. flatten_nodes sha ser u (dt_root trie) 0 = Some c \<and> update_result sha ser trie changes T c bs m"
proof -
  let ?T = T
  let ?vs = "tu_values u" let ?m = "tu_refcount_changes u"
  obtain t F where t: "repr trie (tu_nodes u) (Updated 0) t F" "\<forall>h \<in> set_trie t. handle_ok ?vs h \<and> ref_ok trie h"
    and T: "?T = t_refs sha ?vs t" and ok: "counts_ok trie ?m" using at by (auto simp: at_trie_def state_ok_def)
  have "flattens sha ser trie (tu_nodes u) ?vs 0 t" using repr_flattens [OF ca t(1)] t(2) by simp
  then obtain bs where bs: "writes sha ser trie ?vs {t} bs" "flatten_loop sha ser [(0, Entering)] crypto_hash_new (upd (tu_nodes u) ?vs ?m) =
      flatten_loop sha ser [] (t_hash sha ser ?T) (upd (tu_nodes u) ?vs (add_all sha bs ?m))"
    unfolding flattens_def T by metis
  let ?m' = "add_all sha bs ?m"
  have fl: "flatten_loop sha ser [(0, Entering)] crypto_hash_new u = Some (t_hash sha ser ?T, upd (tu_nodes u) ?vs ?m')"
  proof -
    have "upd (tu_nodes u) ?vs ?m = u" by simp
    then show ?thesis using bs(2) by (simp only:) (simp add: flatten_loop.simps [of sha ser "[]"])
  qed
  note g = add_all_get [OF ok, of sha bs]
  have some: "v \<noteq> None" if e: "bt_get ?m' x = Some (v, rc)" "0 < rc" for x v rc
  proof (cases "x \<in> sha ` set bs")
    case True
    then show ?thesis using g e(1) by fastforce
  next
    case False
    then have "bt_get ?m x = Some (v, rc)" using g e(1) by auto
    then have "rc \<le> 0" using ok unfolding counts_ok_def by fastforce
    then show ?thesis using e(2) by simp
  qed
  obtain ins dels where ins: "into_changes ?m' = Some (ins, dels)"
    "\<And>a. a \<in> set ins \<longleftrightarrow> (\<exists>b rc. bt_get ?m' (ra_hash a) = Some (Some b, rc) \<and> 0 < rc \<and> ra_data a = b \<and> ra_rc a = nat rc)"
    using g by (rule_tac into_changes_insertions [OF _ some]) blast+
  let ?c = "\<lparr> tc_old_root = dt_root trie, tc_new_root = t_hash sha ser ?T, tc_insertions = ins, tc_deletions = dels \<rparr>"
  have "flatten_nodes sha ser u (dt_root trie) 0 = Some ?c" by (simp add: flatten_nodes_def fl ins(1))
  moreover have "new_values ?vs t \<subseteq> {v. \<exists>k. (k, Some v) \<in> set changes}"
  proof
    fix v assume "v \<in> new_values ?vs t"
    then obtain i n where "InMemory i n \<in> set_trie t" "v = the (?vs ! i)" by (auto simp: new_values_def)
    moreover from this have "handle_ok ?vs (InMemory i n)" using t(2) by blast
    ultimately have "i < length ?vs" "?vs ! i = Some v" by auto
    then have "Some v \<in> set ?vs" using nth_mem [of i ?vs] by simp
    then show "v \<in> {v. \<exists>k. (k, Some v) \<in> set changes}" using vs by simp
  qed
  then have "set bs \<subseteq> update_data sha ser trie changes ?T" using bs(1) unfolding writes_def update_data_def T by fastforce
  moreover have "\<forall>n \<in> t_nodes sha ser ?T. ser n \<in> set bs \<or> readable sha ser trie n" using bs(1) unfolding writes_def T readable_def by blast
  moreover have "vr_hash r \<in> sha ` set bs \<or> present_in trie (vr_hash r)" if r: "r \<in> set_trie ?T" for r
  proof -
    obtain v where v: "v \<in> set_trie t" "r = resolve sha ?vs v" using r unfolding T by (auto simp: trie.set_map)
    show ?thesis
    proof (cases v)
      case (InMemory i n)
      then have "the (?vs ! i) \<in> new_values ?vs t" using v(1) by (auto simp: new_values_def)
      then have "the (?vs ! i) \<in> set bs" using bs(1) by (auto simp: writes_def)
      then show ?thesis using v(2) InMemory by simp
    next
      case (HashAndSize x)
      then show ?thesis using v t(2) by auto
    qed
  qed
  ultimately show ?thesis unfolding update_result_def using ok ins(2) by (intro exI [of _ ?c] exI [of _ bs] exI [of _ ?m]) auto
qed

lemma update_returns:
  assumes h: "holds sha ser trie T" and cs: "\<forall>c \<in> set changes. change_ok c"
    and fit: "t_mem vr_length T + sum_list (map change_cost changes) < 2 ^ 64"
  shows "\<exists>c bs m. update_with_trie_storage sha ser trie changes = Some (Inr c) \<and> update_result sha ser trie changes (fold (t_change sha) changes T) c bs m"
proof -
  obtain u0 where u0: "move_node_to_mutable trie trie_storage_update_new (dt_root trie) = Inr (0, u0)" "at_trie sha trie u0 T" "tu_values u0 = []"
    using holds_start [OF h] by blast
  obtain u where u: "fold_try (apply_change trie 0) changes u0 = Some (Inr u)" "at_trie sha trie u (fold (t_change sha) changes T)"
    "tu_values u = concat (map new_value changes)" using at_trie_changes [OF u0(2) cs fit] u0(3) by auto
  have "\<exists>k. (k, Some v) \<in> set changes" if v: "Some v \<in> set (tu_values u)" for v
  proof -
    obtain c where "c \<in> set changes" "Some v \<in> set (new_value c)" using v unfolding u(3) by auto
    then show ?thesis by (cases c rule: new_value.cases) auto
  qed
  moreover have "content_addressed sha ser trie" using h by (simp add: holds_def)
  ultimately obtain c bs m where "flatten_nodes sha ser u (dt_root trie) 0 = Some c" "update_result sha ser trie changes (fold (t_change sha) changes T) c bs m"
    using flatten_returns [OF _ u(2)] by blast
  then show ?thesis by (auto simp: update_with_trie_storage_def u0(1) u(1))
qed

text \<open>The storage after the insertions.\<close>

lemma apply_insertions_get:
  assumes r: "update_result sha ser trie changes T c bs m"
  shows "dt_storage (apply_insertions trie c) h =
    (if \<exists>b rc. bt_get (add_all sha bs m) h = Some (Some b, rc) \<and> 0 < rc then Inr (the (fst (the (bt_get (add_all sha bs m) h)))) else dt_storage trie h)"
proof -
  let ?kvs = "map (\<lambda>a. (ra_hash a, ra_data a)) (tc_insertions c)"
  have mem: "(h, d) \<in> set ?kvs \<longleftrightarrow> (\<exists>rc. bt_get (add_all sha bs m) h = Some (Some d, rc) \<and> 0 < rc)" for h d
  proof
    assume "(h, d) \<in> set ?kvs"
    then show "\<exists>rc. bt_get (add_all sha bs m) h = Some (Some d, rc) \<and> 0 < rc" using r by (auto simp: update_result_def)
  next
    assume "\<exists>rc. bt_get (add_all sha bs m) h = Some (Some d, rc) \<and> 0 < rc"
    then obtain rc where "bt_get (add_all sha bs m) h = Some (Some d, rc)" "0 < rc" by blast
    then have "\<lparr> ra_hash = h, ra_data = d, ra_rc = nat rc \<rparr> \<in> set (tc_insertions c)" using r by (auto simp: update_result_def)
    then show "(h, d) \<in> set ?kvs" by force
  qed
  show ?thesis
  proof (cases "map_of ?kvs h")
    case None
    then have "\<And>d. (h, d) \<notin> set ?kvs" by (force simp: map_of_eq_None_iff)
    then have "\<not> (\<exists>b rc. bt_get (add_all sha bs m) h = Some (Some b, rc) \<and> 0 < rc)" unfolding mem by blast
    moreover have "dt_storage (apply_insertions trie c) h = dt_storage trie h" using None by (simp add: apply_insertions_def)
    ultimately show ?thesis by (simp only: if_False)
  next
    case (Some d)
    then show ?thesis using map_of_SomeD [OF Some] unfolding mem by (auto simp: apply_insertions_def)
  qed
qed

lemma update_holds:
  assumes h: "holds sha ser trie T0" and T: "canonical T" and r: "update_result sha ser trie changes T c bs m"
    and inj: "inj_on sha (update_data sha ser trie changes T)"
    and codec: "\<forall>n \<in> t_nodes sha ser T. dt_decode trie (ser n) = Some n \<and> sha (ser n) \<noteq> empty_root"
  shows "holds sha ser (apply_insertions trie c) T \<and> (\<forall>h b. dt_storage trie h = Inr b \<longrightarrow> dt_storage (apply_insertions trie c) h = Inr b) \<and>
    (\<forall>h b. dt_storage (apply_insertions trie c) h = Inr b \<longrightarrow> b \<in> update_data sha ser trie changes T)"
proof -
  let ?trie = "apply_insertions trie c" let ?D = "update_data sha ser trie changes T" let ?m = "add_all sha bs m"
  note r' = r [unfolded update_result_def]
  have ca: "sha b = h" if "dt_storage trie h = Inr b" for h b using h that by (simp add: holds_def content_addressed_def)
  have D: "set bs \<subseteq> ?D" "b \<in> ?D" if "dt_storage trie h = Inr b" for h b using r' that by (auto simp: update_data_def)
  have bs: "set bs \<subseteq> ?D" using r' by simp
  have g: "bt_get ?m h = bt_get m h" if "h \<notin> sha ` set bs" for h using add_all_get [of trie m sha bs] r' that by blast
  have g': "\<exists>b rc. b \<in> set bs \<and> sha b = h \<and> bt_get ?m h = Some (Some b, rc) \<and> (rc \<le> 0 \<longrightarrow> present_in trie h)" if "h \<in> sha ` set bs" for h
    using add_all_get [of trie m sha bs] r' that by blast
  have get: "dt_storage ?trie h = (if \<exists>b rc. bt_get ?m h = Some (Some b, rc) \<and> 0 < rc then Inr (the (fst (the (bt_get ?m h)))) else dt_storage trie h)" for h
    by (rule apply_insertions_get [OF r])
  have inserted: "\<exists>b. b \<in> set bs \<and> sha b = h \<and> d = Inr b" if "\<exists>b rc. bt_get ?m h = Some (Some b, rc) \<and> 0 < rc" "d = dt_storage ?trie h" for h d
  proof -
    have "h \<in> sha ` set bs"
    proof (rule ccontr)
      assume "h \<notin> sha ` set bs"
      then have "\<exists>b rc. bt_get m h = Some (Some b, rc)" using g that(1) by auto
      then show False using r' unfolding counts_ok_def by fastforce
    qed
    then show ?thesis using g' that get [of h] by fastforce
  qed
  have keep: "dt_storage ?trie h = Inr b" if b: "dt_storage trie h = Inr b" for h b
  proof (cases "\<exists>b rc. bt_get ?m h = Some (Some b, rc) \<and> 0 < rc")
    case True
    then obtain b' where b': "b' \<in> set bs" "sha b' = h" "dt_storage ?trie h = Inr b'" using inserted [OF True refl] by metis
    have "b' = b" using inj_onD [OF inj, of b' b] b'(1,2) ca [OF b] D [OF b] by auto
    then show ?thesis using b'(3) by simp
  next
    case False
    then show ?thesis using get [of h] b by (simp only: if_False)
  qed
  have written: "dt_storage ?trie (sha b) = Inr b" if b: "b \<in> set bs" for b
  proof -
    obtain b' rc where b': "b' \<in> set bs" "sha b' = sha b" "bt_get ?m (sha b) = Some (Some b', rc)" "rc \<le> 0 \<longrightarrow> present_in trie (sha b)" using g' [of "sha b"] b by blast
    have eq: "b' = b" using inj_onD [OF inj b'(2)] b'(1) b bs by auto
    show ?thesis
    proof (cases "0 < rc")
      case True
      then show ?thesis using get [of "sha b"] b'(3) eq by auto
    next
      case False
      then obtain x where x: "dt_storage trie (sha b) = Inr x" using b'(4) by (auto simp: present_in_def)
      have "x = b" using inj_onD [OF inj, of x b] ca [OF x] D(2) [OF x] b bs by auto
      then show ?thesis using keep [OF x] by simp
    qed
  qed
  have "readable sha ser ?trie n" if n: "n \<in> t_nodes sha ser T" for n
  proof -
    have "dt_storage ?trie (sha (ser n)) = Inr (ser n)" using r' n written [of "ser n"] keep by (auto simp: readable_def)
    then show ?thesis using codec n by (simp add: readable_def apply_insertions_def)
  qed
  moreover have "present_in ?trie (vr_hash x)" if "x \<in> set_trie T" for x
    using r' that written keep unfolding present_in_def by fastforce
  moreover have "sha b = h" if b: "dt_storage ?trie h = Inr b" for h b
    using b ca inserted [of h] get [of h] by (cases "\<exists>b rc. bt_get ?m h = Some (Some b, rc) \<and> 0 < rc") auto
  then have "content_addressed sha ser ?trie" using h by (simp add: holds_def content_addressed_def apply_insertions_def)
  moreover have "dt_root ?trie = t_hash sha ser T" using r' by (simp add: apply_insertions_def)
  moreover have "b \<in> ?D" if b: "dt_storage ?trie h = Inr b" for h b
    using b bs inserted [of h] get [of h] by (cases "\<exists>b rc. bt_get ?m h = Some (Some b, rc) \<and> 0 < rc") (auto simp: update_data_def)
  ultimately show ?thesis using T keep unfolding holds_def by blast
qed

section \<open>Lookup\<close>

lemma lookup_stored:
  assumes "stored trie h t" and "slice_ok s"
  shows "lookup_loop trie h s = Some (Inr (map_option (resolve sha []) (t_lookup t (nibbles s))))"
  using assms
proof (induction arbitrary: s rule: stored.induct)
  case (stored_leaf h bytes raw e v)
  from raw_of_leaf [OF stored_leaf(2)] obtain r where r: "v = HashAndSize r" "rn_node raw = RawLeaf (hex_prefix e True) r" by blast
  obtain k where k: "ns_from_encoded (hex_prefix e True) = Some (k, True)" "slice_ok k" "nibbles k = e" using from_encoded_hex [OF stored_leaf(3)] by blast
  show ?case using stored_leaf(5) by (simp add: lookup_loop.simps [of trie h] stored_leaf(1) r k ns_eq_eq)
next
  case (stored_ext h bytes raw e c t)
  have r: "rn_node raw = RawExtension (hex_prefix e False) c" by (rule raw_of_ext [OF stored_ext(2)])
  obtain k where k: "ns_from_encoded (hex_prefix e False) = Some (k, False)" "slice_ok k" "nibbles k = e" using from_encoded_hex [OF stored_ext(3)] by blast
  show ?case
  proof (cases "prefix e (nibbles s)")
    case True
    then have "length e \<le> length (nibbles s)" by (rule prefix_length_le)
    note m = slice_mid [OF stored_ext.prems this]
    show ?thesis using True stored_ext.IH [OF m(1)] stored_ext.prems
      by (simp add: lookup_loop.simps [of trie h] stored_ext(1) r k ns_starts_with_eq ns_len_eq m(2))
  next
    case False
    then show ?thesis using stored_ext.prems by (simp add: lookup_loop.simps [of trie h] stored_ext(1) r k ns_starts_with_eq)
  qed
next
  case (stored_branch h bytes raw cs w ts)
  have r: "rn_node raw = raw_branch cs (map_option (resolve sha []) w)" by (rule raw_of_branch [OF stored_branch(2)])
  note slice = stored_branch.prems
  show ?case
  proof (cases "nibbles s")
    case Nil
    then show ?thesis using slice by (cases w) (simp_all add: lookup_loop.simps [of trie h] stored_branch(1) r is_empty_eq)
  next
    case (Cons n k)
    have n: "n < 16" using slice_nibbles_ok [OF slice] Cons by simp
    have at: "ns_at s 0 = Some n" using ns_at_eq [OF slice, of 0] Cons by simp
    have m: "slice_ok (ns_mid s 1)" "nibbles (ns_mid s 1) = k" using slice_mid [OF slice, of 1] Cons by simp_all
    have "lookup_loop trie h s = (case cs ! n of None \<Rightarrow> Some (Inr None) | Some c \<Rightarrow> lookup_loop trie c (ns_mid s 1))"
      using n stored_branch(3) slice Cons by (cases w) (simp_all add: lookup_loop.simps [of trie h] stored_branch(1) r is_empty_eq at split: option.split)
    then show ?thesis
      using n stored_branch(4) stored_branch(6) [of n] stored_branch.IH [OF n _ m(1)] Cons m(2) by (cases "cs ! n") simp_all
  qed
qed

lemma key_slice: "\<forall>b \<in> set key. b < 256 \<Longrightarrow> slice_ok (ns_new key) \<and> nibbles (ns_new key) = unpack key"
  by (auto simp: slice_ok_def ns_new_def ns_new_offset_def nibbles_def)

text \<open>The bytes behind a reference in a storage.\<close>

definition fetch :: "disk_trie \<Rightarrow> value_ref \<Rightarrow> byte list" where
  "fetch trie r = (case dt_storage trie (vr_hash r) of Inr b \<Rightarrow> b | Inl e \<Rightarrow> [])"

lemma lookup_holds:
  assumes h: "holds sha ser trie T" and key: "\<forall>b \<in> set key. b < 256"
  shows "lookup_from_state_column trie (ns_new key) = Some (Inr (t_lookup T (unpack key)))"
proof (cases "T = TEmpty")
  case True
  then show ?thesis using h by (simp add: holds_def lookup_from_state_column_def lookup_loop.simps retrieve_raw_node_def)
next
  case False
  have "stored trie (dt_root trie) (map_trie HashAndSize T)" using readable_stored [OF _ False] h by (simp add: holds_def)
  from lookup_stored [OF this, of "ns_new key" sha] key_slice [OF key]
  show ?thesis by (simp add: lookup_from_state_column_def lookup_map option.map_comp comp_def option.map_ident)
qed

lemma get_holds:
  assumes h: "holds sha ser trie T" and key: "\<forall>b \<in> set key. b < 256"
  shows "trie_get trie key = Some (Inr (map_option (fetch trie) (t_lookup T (unpack key))))"
proof (cases "t_lookup T (unpack key)")
  case None
  then show ?thesis by (simp add: trie_get_def lookup_holds [OF h key])
next
  case (Some r)
  then have "r \<in> set_trie T" by (rule lookup_in_trie)
  then obtain b where "dt_storage trie (vr_hash r) = Inr b" using h by (auto simp: holds_def present_in_def)
  then show ?thesis by (simp add: trie_get_def lookup_holds [OF h key] Some retrieve_value_def fetch_def)
qed

section \<open>Properties\<close>

lemma unpack_eq: "unpack a = unpack b \<longleftrightarrow> a = b"
  by (metis pack_unpack)

text \<open>The value of a key after some changes.\<close>

definition changed_value :: "nat list \<Rightarrow> trie_change list \<Rightarrow> byte list option \<Rightarrow> byte list option" where
  "changed_value key changes old = fold (\<lambda>(k, v) x. if k = key then v else x) changes old"

lemma changes_canonical: "canonical T \<Longrightarrow> \<forall>c \<in> set changes. change_ok c \<Longrightarrow> canonical (fold (t_change sha) changes T)"
  by (induction changes arbitrary: T) (auto simp: t_change_canonical)

lemma t_change_lookup:
  "canonical T \<Longrightarrow> change_ok c \<Longrightarrow>
   t_lookup (t_change sha c T) (unpack key) = (if fst c = key then map_option (value_ref_new sha) (snd c) else t_lookup T (unpack key))"
  by (cases c rule: change_cost.cases) (auto simp: change_ok_def unpack_ok t_insert_lookup t_delete_lookup canonical_shape unpack_eq)

lemma changes_lookup:
  assumes "canonical T" and "\<forall>c \<in> set changes. change_ok c"
  shows "(\<forall>v. (key, v) \<notin> set changes) \<and> t_lookup (fold (t_change sha) changes T) (unpack key) = t_lookup T (unpack key) \<and>
      (\<forall>old. changed_value key changes old = old) \<or>
    (\<exists>v. (key, v) \<in> set changes \<and> t_lookup (fold (t_change sha) changes T) (unpack key) = map_option (value_ref_new sha) v \<and>
      (\<forall>old. changed_value key changes old = v))"
  using assms
proof (induction changes rule: rev_induct)
  case (snoc c changes)
  obtain k v where c: "c = (k, v)" by (cases c)
  let ?T = "fold (t_change sha) changes T"
  have T: "canonical ?T" "change_ok c" using changes_canonical snoc.prems by auto
  show ?case
  proof (cases "k = key")
    case True
    then show ?thesis using t_change_lookup [OF T, of sha key] by (auto simp: c changed_value_def)
  next
    case False
    then have "t_lookup (fold (t_change sha) (changes @ [c]) T) (unpack key) = t_lookup ?T (unpack key)"
      "changed_value key (changes @ [c]) = changed_value key changes" "\<And>v. (key, v) \<in> set (changes @ [c]) \<longleftrightarrow> (key, v) \<in> set changes"
      using t_change_lookup [OF T, of sha key] by (auto simp: c changed_value_def)
    then show ?thesis using snoc by simp
  qed
qed (simp add: changed_value_def)

lemma updated_fetch:
  assumes "holds sha ser trie T" and "r \<in> set_trie T" and "r = value_ref_new sha v" and "inj_on sha D" and "v \<in> D"
    and "\<And>h b. dt_storage trie h = Inr b \<Longrightarrow> b \<in> D"
  shows "fetch trie r = v"
proof -
  have hash: "vr_hash r = sha v" using assms(3) by (simp add: value_ref_new_def hash_bytes_def)
  then obtain b where b: "dt_storage trie (sha v) = Inr b" using assms(1,2) by (auto simp: holds_def present_in_def)
  then have "sha b = sha v" using assms(1) by (simp add: holds_def content_addressed_def)
  then have "b = v" using inj_onD [OF assms(4)] assms(5,6) b by blast
  then show ?thesis using b hash by (simp add: fetch_def)
qed

lemma update_stored:
  assumes "holds sha ser trie T" and "\<forall>c \<in> set changes. change_ok c"
    and "t_mem vr_length T + sum_list (map change_cost changes) < 2 ^ 64"
    and "T' = fold (t_change sha) changes T" and "inj_on sha (update_data sha ser trie changes T')"
    and "\<forall>n \<in> t_nodes sha ser T'. dt_decode trie (ser n) = Some n \<and> sha (ser n) \<noteq> empty_root"
  obtains c where "update_with_trie_storage sha ser trie changes = Some (Inr c)" "holds sha ser (apply_insertions trie c) T'"
    "\<And>h b. dt_storage trie h = Inr b \<Longrightarrow> dt_storage (apply_insertions trie c) h = Inr b"
    "\<And>key. \<forall>b \<in> set key. b < 256 \<Longrightarrow> \<exists>old. trie_get trie key = Some (Inr old) \<and>
       trie_get (apply_insertions trie c) key = Some (Inr (changed_value key changes old))"
proof -
  have T': "canonical T'" using assms(1,2,4) changes_canonical by (simp add: holds_def)
  obtain c bs m where c: "update_with_trie_storage sha ser trie changes = Some (Inr c)" "update_result sha ser trie changes T' c bs m"
    using update_returns [OF assms(1-3)] assms(4) by blast
  let ?trie = "apply_insertions trie c" let ?D = "update_data sha ser trie changes T'"
  have hold: "holds sha ser ?trie T'" and keep: "\<And>h b. dt_storage trie h = Inr b \<Longrightarrow> dt_storage ?trie h = Inr b"
    and D: "\<And>h b. dt_storage ?trie h = Inr b \<Longrightarrow> b \<in> ?D"
    using update_holds [OF assms(1) T' c(2) assms(5,6)] by blast+
  have "trie_get ?trie key = Some (Inr (changed_value key changes (map_option (fetch trie) (t_lookup T (unpack key)))))" if key: "\<forall>b \<in> set key. b < 256" for key
  proof -
    consider "t_lookup T' (unpack key) = t_lookup T (unpack key)" "\<And>old. changed_value key changes old = old" |
      v where "(key, v) \<in> set changes" "t_lookup T' (unpack key) = map_option (value_ref_new sha) v" "\<And>old. changed_value key changes old = v"
      using changes_lookup [of T changes key sha] assms(1,2,4) by (auto simp: holds_def)
    then show ?thesis
    proof cases
      case 1
      have "fetch ?trie r = fetch trie r" if "t_lookup T (unpack key) = Some r" for r
        using lookup_in_trie [OF that] keep assms(1) by (auto simp: fetch_def holds_def present_in_def)
      then have "map_option (fetch ?trie) (t_lookup T (unpack key)) = map_option (fetch trie) (t_lookup T (unpack key))"
        by (cases "t_lookup T (unpack key)") simp_all
      then show ?thesis using get_holds [OF hold key] 1 by simp
    next
      case (2 v)
      have "fetch ?trie (value_ref_new sha x) = x" if "v = Some x" for x
      proof (rule updated_fetch [OF hold _ refl assms(5) _ D])
        show "value_ref_new sha x \<in> set_trie T'" using lookup_in_trie 2(2) that by fastforce
        show "x \<in> ?D" using 2(1) that by (auto simp: update_data_def)
      qed
      then have "map_option (fetch ?trie) (map_option (value_ref_new sha) v) = v" by (cases v) simp_all
      then show ?thesis using get_holds [OF hold key] 2(2,3) by simp
    qed
  qed
  then show ?thesis using that [OF c(1) hold keep] get_holds [OF assms(1)] by blast
qed

text \<open>
  C1: Updating a disk trie, end to end. From a storage that is addressed by content and holds a trie in its
  canonical form, \<open>update_with_trie_storage\<close> returns changes without panicking. When they are applied and the
  data involved do not collide, the storage holds the trie of the changed contents under the new root: \<open>get\<close>
  returns for every key the value that the last change of the key wrote, and the old value for a key that
  was not changed; everything that could be read before can still be read. The bound says that the memory
  usage of the state fits 64 bits.
\<close>

theorem trie_update_end_to_end:
  assumes "holds sha ser trie T" and "\<forall>c \<in> set changes. change_ok c"
    and "t_mem vr_length T + sum_list (map change_cost changes) < 2 ^ 64"
    and "T' = fold (t_change sha) changes T" and "inj_on sha (update_data sha ser trie changes T')"
    and "\<forall>n \<in> t_nodes sha ser T'. dt_decode trie (ser n) = Some n \<and> sha (ser n) \<noteq> empty_root"
  shows "\<exists>c. update_with_trie_storage sha ser trie changes = Some (Inr c) \<and> holds sha ser (apply_insertions trie c) T' \<and>
    (\<forall>h b. dt_storage trie h = Inr b \<longrightarrow> dt_storage (apply_insertions trie c) h = Inr b) \<and>
    (\<forall>key. (\<forall>b \<in> set key. b < 256) \<longrightarrow>
       (\<exists>old. trie_get trie key = Some (Inr old) \<and>
          trie_get (apply_insertions trie c) key = Some (Inr (changed_value key changes old))))"
  by (rule update_stored [OF assms]) blast

lemma hex_prefix_inject:
  assumes "nibbles_ok e" and "nibbles_ok f" and "hex_prefix e a = hex_prefix f b"
  shows "e = f"
proof -
  obtain s where "ns_from_encoded (hex_prefix e a) = Some (s, a)" "nibbles s = e" using from_encoded_hex [OF assms(1)] by blast
  moreover obtain s' where "ns_from_encoded (hex_prefix f b) = Some (s', b)" "nibbles s' = f" using from_encoded_hex [OF assms(2)] by blast
  ultimately show ?thesis using assms(3) by simp
qed

lemma raw_branch_inject: "raw_branch cs w = raw_branch cs' w' \<longleftrightarrow> cs = cs' \<and> w = w'"
  by (cases w; cases w') auto

lemma raw_branch_other [simp]:
  "RawLeaf e v \<noteq> raw_branch cs w" "RawExtension e c \<noteq> raw_branch cs w" "raw_branch cs w \<noteq> RawLeaf e v" "raw_branch cs w \<noteq> RawExtension e c"
  by (cases w; simp)+

lemma same_node:
  assumes "t_hash sha ser T = t_hash sha ser S" and "T \<noteq> TEmpty" and "t_nodes sha ser T \<union> t_nodes sha ser S \<subseteq> N"
    and "inj_on (\<lambda>n. sha (ser n)) N" and "\<forall>n \<in> N. sha (ser n) \<noteq> empty_root"
  shows "S \<noteq> TEmpty \<and> t_node sha ser T = t_node sha ser S"
proof -
  have T: "t_raw sha ser T \<in> N" using assms(2,3) by (cases T) auto
  then have S: "S \<noteq> TEmpty" using assms(1,5) t_hash_raw [OF assms(2), of sha ser] by auto
  then have "t_raw sha ser S \<in> N" using assms(3) by (cases S) auto
  then have "t_raw sha ser T = t_raw sha ser S" using inj_onD [OF assms(4) _ T] assms(1) t_hash_raw [OF assms(2), of sha ser] t_hash_raw [OF S, of sha ser] by simp
  then show ?thesis using S by simp
qed

lemma t_hash_inject:
  assumes "canonical T" and "canonical S" and "t_hash sha ser T = t_hash sha ser S"
    and "t_nodes sha ser T \<union> t_nodes sha ser S \<subseteq> N" and "inj_on (\<lambda>n. sha (ser n)) N" and "\<forall>n \<in> N. sha (ser n) \<noteq> empty_root"
  shows "T = S"
  using assms(1-4)
proof (induction T arbitrary: S)
  case TEmpty
  then show ?case using assms(6) by (cases S) (auto simp: t_hash_raw)
next
  case (TLeaf e v)
  have S: "S \<noteq> TEmpty" and nd: "t_node sha ser (TLeaf e v) = t_node sha ser S" using same_node [OF TLeaf.prems(3) _ TLeaf.prems(4) assms(5,6)] by simp_all
  then show ?case using TLeaf.prems(1,2) hex_prefix_inject by (cases S) auto
next
  case (TExt e T)
  have S: "S \<noteq> TEmpty" and nd: "t_node sha ser (TExt e T) = t_node sha ser S" using same_node [OF TExt.prems(3) _ TExt.prems(4) assms(5,6)] by simp_all
  obtain f R where R: "S = TExt f R" using nd S by (cases S) auto
  have c: "canonical T" "canonical R" "nibbles_ok e" "nibbles_ok f" using TExt.prems(1,2) R by auto
  have "T = R" by (rule TExt.IH [OF c(1,2)]) (use nd TExt.prems(4) R in auto)
  then show ?case using nd R hex_prefix_inject [OF c(3,4)] by auto
next
  case (TBranch Ts w)
  have S: "S \<noteq> TEmpty" and nd: "t_node sha ser (TBranch Ts w) = t_node sha ser S" using same_node [OF TBranch.prems(3) _ TBranch.prems(4) assms(5,6)] by simp_all
  obtain Ss w' where R: "S = TBranch Ss w'" using nd S by (cases S) auto
  have eq: "map (child_hash sha ser) Ts = map (child_hash sha ser) Ss" "w = w'" using nd R by (simp_all add: raw_branch_inject)
  have len: "length Ts = length Ss" using map_eq_imp_length_eq [OF eq(1)] .
  have "Ts = Ss"
  proof (rule nth_equalityI [OF len])
    fix j assume j: "j < length Ts"
    then have h: "child_hash sha ser (Ts ! j) = child_hash sha ser (Ss ! j)" using arg_cong [OF eq(1), of "\<lambda>xs. xs ! j"] len by simp
    have m: "Ts ! j \<in> set Ts" "Ss ! j \<in> set Ss" using j len by simp_all
    show "Ts ! j = Ss ! j"
    proof (cases "Ts ! j = TEmpty")
      case True
      then show ?thesis using h by (simp split: if_splits)
    next
      case False
      then have "t_hash sha ser (Ts ! j) = t_hash sha ser (Ss ! j)" using h by (simp split: if_splits)
      moreover have "canonical (Ts ! j)" "canonical (Ss ! j)" using TBranch.prems(1,2) R m by auto
      moreover have "t_nodes sha ser (Ts ! j) \<union> t_nodes sha ser (Ss ! j) \<subseteq> N" using TBranch.prems(4) R m by auto
      ultimately show ?thesis using TBranch.IH [OF m(1)] by blast
    qed
  qed
  then show ?case using R eq(2) by simp
qed

text \<open>
  C5: The state root stands for the contents. Whatever the histories of two states are, the roots that two
  updates return are equal when the resulting contents are, key by key; and when no two nodes involved
  collide, equal roots mean equal contents.
\<close>

theorem state_root_determines_contents:
  assumes "holds sha ser trie1 T1" and "\<forall>c \<in> set changes1. change_ok c" and "t_mem vr_length T1 + sum_list (map change_cost changes1) < 2 ^ 64"
    and "holds sha ser trie2 T2" and "\<forall>c \<in> set changes2. change_ok c" and "t_mem vr_length T2 + sum_list (map change_cost changes2) < 2 ^ 64"
    and "S1 = fold (t_change sha) changes1 T1" and "S2 = fold (t_change sha) changes2 T2"
    and "inj_on (\<lambda>n. sha (ser n)) (t_nodes sha ser S1 \<union> t_nodes sha ser S2)" and "\<forall>n \<in> t_nodes sha ser S1 \<union> t_nodes sha ser S2. sha (ser n) \<noteq> empty_root"
  shows "\<exists>c1 c2. update_with_trie_storage sha ser trie1 changes1 = Some (Inr c1) \<and> update_with_trie_storage sha ser trie2 changes2 = Some (Inr c2) \<and>
    (tc_new_root c1 = tc_new_root c2 \<longleftrightarrow> (\<forall>k. t_lookup S1 k = t_lookup S2 k))"
proof -
  obtain c1 bs1 m1 where c1: "update_with_trie_storage sha ser trie1 changes1 = Some (Inr c1)" "update_result sha ser trie1 changes1 S1 c1 bs1 m1"
    using update_returns [OF assms(1-3)] assms(7) by blast
  obtain c2 bs2 m2 where c2: "update_with_trie_storage sha ser trie2 changes2 = Some (Inr c2)" "update_result sha ser trie2 changes2 S2 c2 bs2 m2"
    using update_returns [OF assms(4-6)] assms(8) by blast
  have canon: "canonical S1" "canonical S2" using assms(1,2,4,5,7,8) changes_canonical by (simp_all add: holds_def)
  have roots: "tc_new_root c1 = t_hash sha ser S1" "tc_new_root c2 = t_hash sha ser S2" using c1(2) c2(2) by (simp_all add: update_result_def)
  have "S1 = S2" if "tc_new_root c1 = tc_new_root c2" by (rule t_hash_inject [OF canon _ subset_refl assms(9,10)]) (use that roots in simp)
  moreover have "S1 = S2" if "\<forall>k. t_lookup S1 k = t_lookup S2 k" using canonical_unique [OF canon] that by blast
  ultimately show ?thesis using c1(1) c2(1) roots by auto
qed

text \<open>An empty storage, to which two keys are written and a third is written and deleted.\<close>

definition example_sha :: sha256 where
  "example_sha b = 1 # b"

definition example_ser :: node_encoding where
  "example_ser n = [of_nat (rn_memory_usage n)]"

definition example_changes :: "trie_change list" where
  "example_changes = [([18], Some [7]), ([32], Some [4]), ([19], Some [8, 9]), ([32], None)]"

definition example_leaf :: "byte list \<Rightarrow> value_ref trie" where
  "example_leaf v = TLeaf [] (value_ref_new example_sha v)"

definition example_branch :: "value_ref trie" where
  "example_branch = TBranch (no_children[2 := example_leaf [7], 3 := example_leaf [8, 9]]) None"

definition example_trie :: "value_ref trie" where
  "example_trie = TExt [1] example_branch"

definition example_nodes :: "raw_trie_node_with_size list" where
  "example_nodes = map (t_raw example_sha example_ser) [example_leaf [7], example_leaf [8, 9], example_branch, example_trie]"

definition example_disk :: disk_trie where
  "example_disk = \<lparr> dt_storage = (\<lambda>h. Inl (MissingTrieValue h)), dt_decode = (\<lambda>b. find (\<lambda>n. example_ser n = b) example_nodes), dt_root = empty_root \<rparr>"

lemma example_fork: "t_insert [2, 0] b (TLeaf [Suc 0, 2] a) = TBranch (no_children[Suc 0 := TLeaf [2] a, 2 := TLeaf [0] b]) None"
  by (simp add: t_insert.simps(4) leaf_to_branch_def)

lemma example_below:
  "t_insert [Suc 0, 3] c (TBranch (no_children[Suc 0 := TLeaf [2] a, 2 := TLeaf [0] b]) None) =
   TBranch (no_children[Suc 0 := TBranch (no_children[2 := TLeaf [] a, 3 := TLeaf [] c]) None, 2 := TLeaf [0] b]) None"
  by (simp add: t_insert.simps(4) leaf_to_branch_def list_update_swap)

lemma example_squash: "t_delete [2, 0] (TBranch (no_children[Suc 0 := TBranch ts w, 2 := TLeaf [0] b]) None) = TExt [Suc 0] (TBranch ts w)"
proof -
  have "present (no_children[Suc 0 := TBranch ts w, 2 := TEmpty]) = [Suc 0]" by (simp add: present_def no_children_def numeral_nat upt_rec)
  then show ?thesis by simp
qed

lemma example_contents: "fold (t_change example_sha) example_changes TEmpty = example_trie"
  by (simp add: example_changes_def example_trie_def example_branch_def example_leaf_def example_fork example_below example_squash
      del: t_insert.simps(3) t_delete.simps(5))

lemma example_holds: "holds example_sha example_ser example_disk TEmpty"
  by (auto simp: holds_def content_addressed_def example_disk_def find_Some_iff)

lemma example_mem:
  "t_mem vr_length (example_leaf [7]) = 103" "t_mem vr_length (example_leaf [8, 9]) = 104" "t_mem vr_length example_branch = 257" "t_mem vr_length example_trie = 309"
  by (simp_all add: example_trie_def example_branch_def example_leaf_def key_cost_def value_ref_new_def cast_def mem_two_children)

lemma example_t_nodes: "t_nodes example_sha example_ser example_trie = set example_nodes"
  by (simp add: example_nodes_def example_trie_def example_branch_def no_children_def example_leaf_def numeral_nat insert_commute)

lemma example_codec: "\<forall>n \<in> set example_nodes. dt_decode example_disk (example_ser n) = Some n \<and> example_sha (example_ser n) \<noteq> empty_root"
proof -
  have "example_sha (example_ser n) \<noteq> empty_root" for n
    by (auto simp: example_sha_def example_ser_def empty_root_def crypto_hash_new_def crypto_hash_length_def dest!: arg_cong [of _ _ length])
  then show ?thesis by (simp add: example_nodes_def example_disk_def example_ser_def example_mem)
qed

lemma example_inj: "inj_on example_sha D"
  by (simp add: inj_on_def example_sha_def)

theorem trie_update_end_to_end_witness:
  "\<exists>c. update_with_trie_storage example_sha example_ser example_disk example_changes = Some (Inr c) \<and>
    trie_get (apply_insertions example_disk c) [19] = Some (Inr (Some [8, 9])) \<and> trie_get (apply_insertions example_disk c) [32] = Some (Inr None)"
proof -
  have "\<forall>c \<in> set example_changes. change_ok c" "t_mem vr_length TEmpty + sum_list (map change_cost example_changes) < 2 ^ 64"
    by (simp_all add: example_changes_def change_ok_def)
  from trie_update_end_to_end [OF example_holds this example_contents [symmetric] example_inj] example_codec example_t_nodes
  obtain c where c: "update_with_trie_storage example_sha example_ser example_disk example_changes = Some (Inr c)"
    "\<And>key. \<forall>b \<in> set key. b < 256 \<Longrightarrow> \<exists>old. trie_get (apply_insertions example_disk c) key = Some (Inr (changed_value key example_changes old))"
    by metis
  show ?thesis using c(1) c(2) [of "[19]"] c(2) [of "[32]"] by (auto simp: changed_value_def example_changes_def)
qed

definition example_changes2 :: "trie_change list" where
  "example_changes2 = [([19], Some [8, 9]), ([18], Some [7])]"

lemma example_contents2: "fold (t_change example_sha) example_changes2 TEmpty = example_trie"
  by (simp add: example_changes2_def example_trie_def example_branch_def example_leaf_def t_insert.simps(4) leaf_to_branch_def list_update_swap)

theorem state_root_determines_contents_witness:
  "\<exists>c1 c2. update_with_trie_storage example_sha example_ser example_disk example_changes = Some (Inr c1) \<and>
    update_with_trie_storage example_sha example_ser example_disk example_changes2 = Some (Inr c2) \<and> tc_new_root c1 = tc_new_root c2"
proof -
  have c: "\<forall>c \<in> set example_changes. change_ok c" "t_mem vr_length TEmpty + sum_list (map change_cost example_changes) < 2 ^ 64"
    "\<forall>c \<in> set example_changes2. change_ok c" "t_mem vr_length TEmpty + sum_list (map change_cost example_changes2) < 2 ^ 64"
    by (simp_all add: example_changes_def example_changes2_def change_ok_def)
  have "inj_on (\<lambda>n. example_sha (example_ser n)) (set example_nodes)"
    by (simp add: example_nodes_def example_sha_def example_ser_def example_mem)
  then show ?thesis
    using state_root_determines_contents [OF example_holds c(1,2) example_holds c(3,4) example_contents [symmetric] example_contents2 [symmetric]]
      example_codec example_t_nodes by auto
qed

text \<open>
  Reading. In a storage that holds a trie, \<open>lookup_from_state_column\<close> ends and finds for every key
  exactly the reference that the trie has under the nibbles of the key, and \<open>get\<close> returns the bytes with
  the hash of that reference; a key that is not in the trie gives no value and no error.
\<close>

theorem lookup_finds_contents:
  assumes "holds sha ser trie T" and "\<forall>b \<in> set key. b < 256"
  shows "lookup_from_state_column trie (ns_new key) = Some (Inr (t_lookup T (unpack key))) \<and>
    (t_lookup T (unpack key) = None \<longrightarrow> trie_get trie key = Some (Inr None)) \<and>
    (\<forall>r. t_lookup T (unpack key) = Some r \<longrightarrow> (\<exists>v. trie_get trie key = Some (Inr (Some v)) \<and> sha v = vr_hash r))"
proof (intro conjI allI impI)
  fix r assume r: "t_lookup T (unpack key) = Some r"
  obtain v where v: "dt_storage trie (vr_hash r) = Inr v" using lookup_in_trie [OF r] assms(1) by (auto simp: holds_def present_in_def)
  then have "sha v = vr_hash r" using assms(1) by (simp add: holds_def content_addressed_def)
  then show "\<exists>v. trie_get trie key = Some (Inr (Some v)) \<and> sha v = vr_hash r" using get_holds [OF assms] r v by (simp add: fetch_def)
qed (use lookup_holds [OF assms] get_holds [OF assms] in simp_all)

text \<open>A storage with one leaf.\<close>

definition example_one :: disk_trie where
  "example_one = \<lparr> dt_storage = (\<lambda>h. if h = [1, 103] then Inr [103] else if h = [1, 7] then Inr [7] else Inl (MissingTrieValue h)),
     dt_decode = (\<lambda>b. find (\<lambda>n. example_ser n = b) [t_raw example_sha example_ser (example_leaf [7])]), dt_root = [1, 103] \<rparr>"

theorem lookup_finds_contents_witness:
  "(\<exists>v. trie_get example_one [] = Some (Inr (Some v)) \<and> example_sha v = [1, 7]) \<and> trie_get example_one [5] = Some (Inr None)"
proof -
  have root: "t_hash example_sha example_ser (example_leaf [7]) = [1, 103]"
    using t_hash_raw [of "example_leaf [7]" example_sha example_ser] by (simp add: example_mem) (simp add: example_leaf_def example_sha_def example_ser_def)
  have nodes: "t_nodes example_sha example_ser (example_leaf [7]) = {t_raw example_sha example_ser (example_leaf [7])}" by (simp add: example_leaf_def)
  have "readable example_sha example_ser example_one (t_raw example_sha example_ser (example_leaf [7]))"
    by (auto simp: readable_def example_one_def example_sha_def example_ser_def example_mem empty_root_def crypto_hash_new_def crypto_hash_length_def dest!: arg_cong [of _ _ length])
  moreover have "content_addressed example_sha example_ser example_one"
    by (auto simp: content_addressed_def example_one_def example_sha_def find_Some_iff split: if_splits)
  moreover have "\<forall>r \<in> set_trie (example_leaf [7]). present_in example_one (vr_hash r)"
    by (simp add: example_leaf_def present_in_def example_one_def value_ref_new_def hash_bytes_def example_sha_def)
  moreover have "canonical (example_leaf [7])" "dt_root example_one = [1, 103]" by (simp_all add: example_leaf_def example_one_def)
  ultimately have h: "holds example_sha example_ser example_one (example_leaf [7])" using root by (simp add: holds_def nodes)
  show ?thesis using lookup_finds_contents [OF h, of "[]"] lookup_finds_contents [OF h, of "[5]"]
    by (simp add: example_leaf_def value_ref_new_def hash_bytes_def example_sha_def)
qed

text \<open>
  C23: Insertion ends on any storage. Whatever the storage contains, even an inconsistent trie, no sequence of
  rounds of the loop of \<open>generic_insert\<close> is infinite: a round that goes on consumes nibbles of the key or
  turns a node that is not a branch into one.
\<close>

theorem insert_rounds_wf:
  "wf {((u', i', p'), (u, i, p)). \<exists>c. insert_step trie u i p value = Some (Inr c) \<and>
     (c = Insert_Descend i' p' u' \<or> c = Insert_Restart u' \<and> i' = i \<and> p' = p)}"
proof (rule wf_subset [OF wf_measure])
  show "{((u', i', p'), (u, i, p)). \<exists>c. insert_step trie u i p value = Some (Inr c) \<and>
      (c = Insert_Descend i' p' u' \<or> c = Insert_Restart u' \<and> i' = i \<and> p' = p)} \<subseteq> measure (\<lambda>(u, i, p). insert_measure u i p)"
    using insert_step_decreases by fastforce
qed

end
