(* ===== verification/Trie_Key.thy ===== *)
theory Trie_Key
  imports Crypto_Hash
begin

text \<open>
  Keys of the state trie (\<open>core/primitives/src/trie_key.rs\<close>): the columns, the keys, their bytes and the
  parsers that recover an account id or a whole key from the bytes.  A byte of a key is a number below 256.
  Public keys are those of \<open>core/crypto/src/signature.rs\<close>.

  Borsh's readers and writers, the parser of account ids and the size of an Ed25519 key belong to other
  crates and are the fields of a record; \<open>libs_ok\<close> collects what is used of them.  The debug assertion of
  \<open>append_into\<close> is not part of the definition; it is proved to hold.  A number in the message of an error is
  left out of it.
\<close>

section \<open>Columns\<close>

abbreviation (input) col_account :: nat where "col_account \<equiv> 0"
abbreviation (input) col_contract_code :: nat where "col_contract_code \<equiv> 1"
abbreviation (input) col_access_key :: nat where "col_access_key \<equiv> 2"
abbreviation (input) col_received_data :: nat where "col_received_data \<equiv> 3"
abbreviation (input) col_postponed_receipt_id :: nat where "col_postponed_receipt_id \<equiv> 4"
abbreviation (input) col_pending_data_count :: nat where "col_pending_data_count \<equiv> 5"
abbreviation (input) col_postponed_receipt :: nat where "col_postponed_receipt \<equiv> 6"
abbreviation (input) col_delayed_receipt_or_indices :: nat where "col_delayed_receipt_or_indices \<equiv> 7"
abbreviation (input) col_contract_data :: nat where "col_contract_data \<equiv> 9"
abbreviation (input) col_promise_yield_indices :: nat where "col_promise_yield_indices \<equiv> 10"
abbreviation (input) col_promise_yield_timeout :: nat where "col_promise_yield_timeout \<equiv> 11"
abbreviation (input) col_promise_yield_receipt :: nat where "col_promise_yield_receipt \<equiv> 12"
abbreviation (input) col_buffered_receipt_indices :: nat where "col_buffered_receipt_indices \<equiv> 13"
abbreviation (input) col_buffered_receipt :: nat where "col_buffered_receipt \<equiv> 14"
abbreviation (input) col_bandwidth_scheduler_state :: nat where "col_bandwidth_scheduler_state \<equiv> 15"
abbreviation (input) col_buffered_receipt_groups_queue_data :: nat where "col_buffered_receipt_groups_queue_data \<equiv> 16"
abbreviation (input) col_buffered_receipt_groups_queue_item :: nat where "col_buffered_receipt_groups_queue_item \<equiv> 17"
abbreviation (input) col_global_contract_code :: nat where "col_global_contract_code \<equiv> 18"
abbreviation (input) col_gas_key :: nat where "col_gas_key \<equiv> 19"

definition columns_with_account_id_in_key :: "(nat \<times> string) list" where
  "columns_with_account_id_in_key =
     [(col_account, ''Account''),
      (col_contract_code, ''ContractCode''),
      (col_access_key, ''AccessKey''),
      (col_received_data, ''ReceivedData''),
      (col_postponed_receipt_id, ''PostponedReceiptId''),
      (col_pending_data_count, ''PendingDataCount''),
      (col_postponed_receipt, ''PostponedReceipt''),
      (col_contract_data, ''ContractData''),
      (col_promise_yield_receipt, ''PromiseYieldReceipt''),
      (col_gas_key, ''GasKey'')]"

definition all_columns_with_names :: "(nat \<times> string) list" where
  "all_columns_with_names =
     [(col_account, ''Account''),
      (col_contract_code, ''ContractCode''),
      (col_access_key, ''AccessKey''),
      (col_received_data, ''ReceivedData''),
      (col_postponed_receipt_id, ''PostponedReceiptId''),
      (col_pending_data_count, ''PendingDataCount''),
      (col_postponed_receipt, ''PostponedReceipt''),
      (col_delayed_receipt_or_indices, ''DelayedReceiptOrIndices''),
      (col_contract_data, ''ContractData''),
      (col_promise_yield_indices, ''PromiseYieldIndices''),
      (col_promise_yield_timeout, ''PromiseYieldTimeout''),
      (col_promise_yield_receipt, ''PromiseYieldReceipt''),
      (col_buffered_receipt_indices, ''BufferedReceiptIndices''),
      (col_buffered_receipt, ''BufferedReceipt''),
      (col_bandwidth_scheduler_state, ''BandwidthSchedulerState''),
      (col_buffered_receipt_groups_queue_data, ''BufferedReceiptGroupsQueueData''),
      (col_buffered_receipt_groups_queue_item, ''BufferedReceiptGroupsQueueItem''),
      (col_global_contract_code, ''GlobalContractCode''),
      (col_gas_key, ''GasKey'')]"

definition account_data_separator :: nat where
  "account_data_separator = of_char CHR '',''"

definition access_key_separator :: nat where
  "access_key_separator = col_access_key"

section \<open>Keys\<close>

datatype key_type = KeyType_ED25519 | KeyType_SECP256K1

datatype public_key = ED25519 "byte list" | SECP256K1 "byte list"

datatype global_contract_code_identifier = Gcc_CodeHash crypto_hash | Gcc_AccountId account_id

datatype trie_key =
  Account account_id
| ContractCode account_id
| AccessKey account_id public_key
| ReceivedData account_id crypto_hash
| PostponedReceiptId account_id crypto_hash
| PendingDataCount account_id crypto_hash
| PostponedReceipt account_id crypto_hash
| DelayedReceiptIndices
| DelayedReceipt nat
| ContractData account_id "nat list"
| PromiseYieldIndices
| PromiseYieldTimeout nat
| PromiseYieldReceipt account_id crypto_hash
| BufferedReceiptIndices
| BufferedReceipt shard_id nat
| BandwidthSchedulerState
| BufferedReceiptGroupsQueueData shard_id
| BufferedReceiptGroupsQueueItem shard_id nat
| GlobalContractCode global_contract_code_identifier
| GasKey account_id public_key "nat option"

text \<open>
  An \<open>io::Error\<close> of kind \<open>InvalidData\<close> with its message, the one whose message names an unknown key type,
  or one from a reader of another crate.
\<close>

datatype io_error = InvalidData string | UnknownKeyType nat | ReaderError string

record key_libs =
  kl_ed25519_len :: nat
  kl_u8 :: "nat \<Rightarrow> nat list"
  kl_read_u8 :: "nat list \<Rightarrow> io_error + nat \<times> nat list"
  kl_read_array :: "nat \<Rightarrow> nat list \<Rightarrow> io_error + byte list \<times> nat list"
  kl_try_from_slice :: "(nat list \<Rightarrow> io_error + public_key \<times> nat list) \<Rightarrow> nat list \<Rightarrow> io_error + public_key"
  kl_nonce_index :: "nat option \<Rightarrow> nat list"
  kl_read_nonce_index :: "nat list \<Rightarrow> io_error + nat option"
  kl_identifier :: "global_contract_code_identifier \<Rightarrow> nat list"
  kl_parse_account :: "nat list \<Rightarrow> account_id option"

definition account_bytes :: "account_id \<Rightarrow> nat list" where
  "account_bytes a = map of_char a"

abbreviation word_bytes :: "byte list \<Rightarrow> nat list" where
  "word_bytes bs \<equiv> map unat bs"

section \<open>Public keys\<close>

fun key_type_try_from :: "nat \<Rightarrow> io_error + key_type" where
  "key_type_try_from value =
     (if value = 0 then Inr KeyType_ED25519
      else if value = 1 then Inr KeyType_SECP256K1
      else Inl (UnknownKeyType value))"

fun public_key_len :: "key_libs \<Rightarrow> public_key \<Rightarrow> nat" where
  "public_key_len libs (ED25519 _) = kl_ed25519_len libs + 1"
| "public_key_len libs (SECP256K1 _) = 65"

fun public_key_serialize :: "key_libs \<Rightarrow> public_key \<Rightarrow> nat list" where
  "public_key_serialize libs (ED25519 key) = kl_u8 libs 0 @ word_bytes key"
| "public_key_serialize libs (SECP256K1 key) = kl_u8 libs 1 @ word_bytes key"

definition public_key_deserialize :: "key_libs \<Rightarrow> nat list \<Rightarrow> io_error + public_key \<times> nat list" where
  "public_key_deserialize libs rd =
     rbind (kl_read_u8 libs rd) (\<lambda>(b, rd).
     rbind (key_type_try_from b) (\<lambda>key_type.
     case key_type of
       KeyType_ED25519 \<Rightarrow> rbind (kl_read_array libs (kl_ed25519_len libs) rd) (\<lambda>(key, rd). Inr (ED25519 key, rd))
     | KeyType_SECP256K1 \<Rightarrow> rbind (kl_read_array libs 64 rd) (\<lambda>(key, rd). Inr (SECP256K1 key, rd))))"

section \<open>Bytes of a key\<close>

fun identifier_len :: "global_contract_code_identifier \<Rightarrow> nat" where
  "identifier_len (Gcc_CodeHash h) = 1 + length h"
| "identifier_len (Gcc_AccountId account_id) = 1 + (4 + length account_id)"

definition identifier_append_into :: "key_libs \<Rightarrow> global_contract_code_identifier \<Rightarrow> nat list \<Rightarrow> nat list" where
  "identifier_append_into libs i buf = buf @ kl_identifier libs i"

fun trie_key_len :: "key_libs \<Rightarrow> trie_key \<Rightarrow> nat" where
  "trie_key_len libs (Account account_id) = 1 + length account_id"
| "trie_key_len libs (ContractCode account_id) = 1 + length account_id"
| "trie_key_len libs (AccessKey account_id public_key) = 1 * 2 + length account_id + public_key_len libs public_key"
| "trie_key_len libs (ReceivedData receiver_id data_id) = 1 + length receiver_id + 1 + length data_id"
| "trie_key_len libs (PostponedReceiptId receiver_id data_id) = 1 + length receiver_id + 1 + length data_id"
| "trie_key_len libs (PendingDataCount receiver_id receipt_id) = 1 + length receiver_id + 1 + length receipt_id"
| "trie_key_len libs (PostponedReceipt receiver_id receipt_id) = 1 + length receiver_id + 1 + length receipt_id"
| "trie_key_len libs DelayedReceiptIndices = 1"
| "trie_key_len libs (DelayedReceipt index) = 1 + 8"
| "trie_key_len libs PromiseYieldIndices = 1"
| "trie_key_len libs (PromiseYieldTimeout index) = 1 + 8"
| "trie_key_len libs (PromiseYieldReceipt receiver_id data_id) = 1 + length receiver_id + 1 + length data_id"
| "trie_key_len libs (ContractData account_id key) = 1 + length account_id + 1 + length key"
| "trie_key_len libs BufferedReceiptIndices = 1"
| "trie_key_len libs (BufferedReceipt receiving_shard index) = 1 + 2 + 8"
| "trie_key_len libs BandwidthSchedulerState = 1"
| "trie_key_len libs (BufferedReceiptGroupsQueueData receiving_shard) = 1 + 8"
| "trie_key_len libs (BufferedReceiptGroupsQueueItem receiving_shard index) = 1 + 8 + 8"
| "trie_key_len libs (GlobalContractCode identifier) = 1 + identifier_len identifier"
| "trie_key_len libs (GasKey account_id public_key index) =
     1 + length account_id + 1 + public_key_len libs public_key + length (kl_nonce_index libs index)"

fun append_into :: "key_libs \<Rightarrow> trie_key \<Rightarrow> nat list \<Rightarrow> nat list option" where
  "append_into libs (Account account_id) buf = Some (buf @ col_account # account_bytes account_id)"
| "append_into libs (ContractCode account_id) buf = Some (buf @ col_contract_code # account_bytes account_id)"
| "append_into libs (AccessKey account_id public_key) buf =
     Some (buf @ col_access_key # account_bytes account_id @ access_key_separator # public_key_serialize libs public_key)"
| "append_into libs (ReceivedData receiver_id data_id) buf =
     Some (buf @ col_received_data # account_bytes receiver_id @ account_data_separator # word_bytes data_id)"
| "append_into libs (PostponedReceiptId receiver_id data_id) buf =
     Some (buf @ col_postponed_receipt_id # account_bytes receiver_id @ account_data_separator # word_bytes data_id)"
| "append_into libs (PendingDataCount receiver_id receipt_id) buf =
     Some (buf @ col_pending_data_count # account_bytes receiver_id @ account_data_separator # word_bytes receipt_id)"
| "append_into libs (PostponedReceipt receiver_id receipt_id) buf =
     Some (buf @ col_postponed_receipt # account_bytes receiver_id @ account_data_separator # word_bytes receipt_id)"
| "append_into libs DelayedReceiptIndices buf = Some (buf @ [col_delayed_receipt_or_indices])"
| "append_into libs (DelayedReceipt index) buf =
     Some (buf @ col_delayed_receipt_or_indices # word_bytes (to_le_bytes 8 index))"
| "append_into libs (ContractData account_id key) buf =
     Some (buf @ col_contract_data # account_bytes account_id @ account_data_separator # key)"
| "append_into libs PromiseYieldIndices buf = Some (buf @ [col_promise_yield_indices])"
| "append_into libs (PromiseYieldTimeout index) buf =
     Some (buf @ col_promise_yield_timeout # word_bytes (to_le_bytes 8 index))"
| "append_into libs (PromiseYieldReceipt receiver_id data_id) buf =
     Some (buf @ col_promise_yield_receipt # account_bytes receiver_id @ account_data_separator # word_bytes data_id)"
| "append_into libs BufferedReceiptIndices buf = Some (buf @ [col_buffered_receipt_indices])"
| "append_into libs (BufferedReceipt receiving_shard index) buf =
     do {
       assert (receiving_shard \<le> int_max u16_w);
       Some (buf @ col_buffered_receipt # word_bytes (to_le_bytes 2 (cast u16_w receiving_shard)) @ word_bytes (to_le_bytes 8 index))
     }"
| "append_into libs BandwidthSchedulerState buf = Some (buf @ [col_bandwidth_scheduler_state])"
| "append_into libs (BufferedReceiptGroupsQueueData receiving_shard) buf =
     Some (buf @ col_buffered_receipt_groups_queue_data # word_bytes (to_le_bytes 8 receiving_shard))"
| "append_into libs (BufferedReceiptGroupsQueueItem receiving_shard index) buf =
     Some (buf @ col_buffered_receipt_groups_queue_item # word_bytes (to_le_bytes 8 receiving_shard) @ word_bytes (to_le_bytes 8 index))"
| "append_into libs (GlobalContractCode identifier) buf =
     Some (identifier_append_into libs identifier (buf @ [col_global_contract_code]))"
| "append_into libs (GasKey account_id public_key index) buf =
     Some (buf @ col_gas_key # account_bytes account_id @ account_data_separator # public_key_serialize libs public_key @
       kl_nonce_index libs index)"

definition to_vec :: "key_libs \<Rightarrow> trie_key \<Rightarrow> nat list option" where
  "to_vec libs k = append_into libs k []"

fun get_account_id :: "trie_key \<Rightarrow> account_id option" where
  "get_account_id (Account account_id) = Some account_id"
| "get_account_id (ContractCode account_id) = Some account_id"
| "get_account_id (AccessKey account_id _) = Some account_id"
| "get_account_id (ReceivedData receiver_id _) = Some receiver_id"
| "get_account_id (PostponedReceiptId receiver_id _) = Some receiver_id"
| "get_account_id (PendingDataCount receiver_id _) = Some receiver_id"
| "get_account_id (PostponedReceipt receiver_id _) = Some receiver_id"
| "get_account_id DelayedReceiptIndices = None"
| "get_account_id (DelayedReceipt _) = None"
| "get_account_id (ContractData account_id _) = Some account_id"
| "get_account_id PromiseYieldIndices = None"
| "get_account_id (PromiseYieldTimeout _) = None"
| "get_account_id (PromiseYieldReceipt receiver_id _) = Some receiver_id"
| "get_account_id BufferedReceiptIndices = None"
| "get_account_id (BufferedReceipt _ _) = None"
| "get_account_id BandwidthSchedulerState = None"
| "get_account_id (BufferedReceiptGroupsQueueData _) = None"
| "get_account_id (BufferedReceiptGroupsQueueItem _ _) = None"
| "get_account_id (GlobalContractCode _) = None"
| "get_account_id (GasKey account_id _ _) = Some account_id"

datatype account_contract =
  AccountContract_None
| AccountContract_Local crypto_hash
| AccountContract_Global crypto_hash
| AccountContract_GlobalByAccount account_id

fun for_account_contract_code :: "account_id \<Rightarrow> account_contract \<Rightarrow> trie_key option" where
  "for_account_contract_code account_id AccountContract_None = None"
| "for_account_contract_code account_id (AccountContract_Local _) = Some (ContractCode account_id)"
| "for_account_contract_code account_id (AccountContract_Global code_hash) = Some (GlobalContractCode (Gcc_CodeHash code_hash))"
| "for_account_contract_code account_id (AccountContract_GlobalByAccount other) = Some (GlobalContractCode (Gcc_AccountId other))"

section \<open>Parsers\<close>

definition parse_public_key_from_access_key_key :: "key_libs \<Rightarrow> nat list \<Rightarrow> account_id \<Rightarrow> io_error + public_key" where
  "parse_public_key_from_access_key_key libs raw_key account_id =
     (let prefix_len = 1 * 2 + length account_id in
      if length raw_key < prefix_len then Inl (InvalidData ''raw key is too short for TrieKey::AccessKey'')
      else kl_try_from_slice libs (public_key_deserialize libs) (drop prefix_len raw_key))"

definition parse_public_key_from_gas_key_key :: "key_libs \<Rightarrow> nat list \<Rightarrow> account_id \<Rightarrow> io_error + public_key" where
  "parse_public_key_from_gas_key_key libs raw_key account_id =
     (let prefix_len = 1 + length account_id + 1 in
      if length raw_key < prefix_len then Inl (InvalidData ''raw key is too short for TrieKey::GasKey'')
      else rbind (public_key_deserialize libs (drop prefix_len raw_key)) (\<lambda>(key, _). Inr key))"

definition parse_nonce_index_from_gas_key_key ::
  "key_libs \<Rightarrow> nat list \<Rightarrow> account_id \<Rightarrow> public_key \<Rightarrow> io_error + nat option" where
  "parse_nonce_index_from_gas_key_key libs raw_key account_id public_key =
     (let prefix_len = 1 + length account_id + 1 + public_key_len libs public_key in
      if length raw_key < prefix_len then Inl (InvalidData ''raw key is too short for TrieKey::GasKey'')
      else kl_read_nonce_index libs (drop prefix_len raw_key))"

definition parse_data_key_from_contract_data_key :: "nat list \<Rightarrow> account_id \<Rightarrow> io_error + nat list" where
  "parse_data_key_from_contract_data_key raw_key account_id =
     (let prefix_len = 1 + length account_id + 1 in
      if length raw_key < prefix_len then Inl (InvalidData ''raw key is too short for TrieKey::ContractData'')
      else Inr (drop prefix_len raw_key))"

fun parse_account_id_prefix :: "nat \<Rightarrow> nat list \<Rightarrow> io_error + nat list" where
  "parse_account_id_prefix column [] = Inl (InvalidData ''raw key is does not start with a proper column marker'')"
| "parse_account_id_prefix column (b # tail) =
     (if b = column then Inr tail else Inl (InvalidData ''raw key is does not start with a proper column marker''))"

text \<open>The test of \<open>str::from_utf8\<close>: the byte sequences of the Unicode standard.\<close>

definition utf8_cont :: "nat \<Rightarrow> bool" where
  "utf8_cont b \<longleftrightarrow> 128 \<le> b \<and> b \<le> 191"

fun utf8_valid :: "nat list \<Rightarrow> bool" where
  "utf8_valid [] \<longleftrightarrow> True"
| "utf8_valid (a # bs) \<longleftrightarrow>
     a \<le> 127 \<and> utf8_valid bs \<or>
     (case bs of
        b # bs \<Rightarrow>
          194 \<le> a \<and> a \<le> 223 \<and> utf8_cont b \<and> utf8_valid bs \<or>
          (case bs of
             c # bs \<Rightarrow>
               224 \<le> a \<and> a \<le> 239 \<and> utf8_cont b \<and> (a = 224 \<longrightarrow> 160 \<le> b) \<and> (a = 237 \<longrightarrow> b \<le> 159) \<and> utf8_cont c \<and> utf8_valid bs \<or>
               (case bs of
                  d # bs \<Rightarrow>
                    240 \<le> a \<and> a \<le> 244 \<and> utf8_cont b \<and> (a = 240 \<longrightarrow> 144 \<le> b) \<and> (a = 244 \<longrightarrow> b \<le> 143) \<and>
                    utf8_cont c \<and> utf8_cont d \<and> utf8_valid bs
                | [] \<Rightarrow> False)
           | [] \<Rightarrow> False)
      | [] \<Rightarrow> False)"

definition parse_account_id_from_slice :: "key_libs \<Rightarrow> nat list \<Rightarrow> string \<Rightarrow> io_error + account_id" where
  "parse_account_id_from_slice libs data trie_key =
     (if \<not> utf8_valid data then Inl (InvalidData (''raw key AccountId has invalid UTF-8 format to be TrieKey::'' @ trie_key))
      else ok_or (InvalidData (''raw key does not have a valid AccountId to be TrieKey::'' @ trie_key)) (kl_parse_account libs data))"

fun next_token :: "nat list \<Rightarrow> nat \<Rightarrow> nat list option" where
  "next_token [] separator = None"
| "next_token (b # data) separator = (if b = separator then Some [] else map_option ((#) b) (next_token data separator))"

definition parse_account_id_from_contract_data_key :: "key_libs \<Rightarrow> nat list \<Rightarrow> io_error + account_id" where
  "parse_account_id_from_contract_data_key libs raw_key =
     rbind (parse_account_id_prefix col_contract_data raw_key) (\<lambda>account_id_prefix.
     case next_token account_id_prefix account_data_separator of
       Some account_id \<Rightarrow> parse_account_id_from_slice libs account_id ''ContractData''
     | None \<Rightarrow> Inl (InvalidData ''raw key does not have ACCOUNT_DATA_SEPARATOR to be TrieKey::ContractData''))"

definition parse_account_id_from_account_key :: "key_libs \<Rightarrow> nat list \<Rightarrow> io_error + account_id" where
  "parse_account_id_from_account_key libs raw_key =
     rbind (parse_account_id_prefix col_account raw_key) (\<lambda>account_id. parse_account_id_from_slice libs account_id ''Account'')"

definition parse_account_id_from_access_key_key :: "key_libs \<Rightarrow> nat list \<Rightarrow> io_error + account_id" where
  "parse_account_id_from_access_key_key libs raw_key =
     rbind (parse_account_id_prefix col_access_key raw_key) (\<lambda>account_id_prefix.
     case next_token account_id_prefix access_key_separator of
       Some account_id \<Rightarrow> parse_account_id_from_slice libs account_id ''AccessKey''
     | None \<Rightarrow> Inl (InvalidData ''raw key does not have public key to be TrieKey::AccessKey''))"

definition parse_account_id_from_gas_key_key :: "key_libs \<Rightarrow> nat list \<Rightarrow> io_error + account_id" where
  "parse_account_id_from_gas_key_key libs raw_key =
     rbind (parse_account_id_prefix col_gas_key raw_key) (\<lambda>account_id_prefix.
     case next_token account_id_prefix account_data_separator of
       Some account_id \<Rightarrow> parse_account_id_from_slice libs account_id ''GasKey''
     | None \<Rightarrow> Inl (InvalidData ''raw key does not have public key to be TrieKey::GasKey''))"

definition parse_index_from_delayed_receipt_key :: "nat list \<Rightarrow> io_error + nat" where
  "parse_index_from_delayed_receipt_key raw_key =
     (if length raw_key \<noteq> 9 then Inl (InvalidData ''unexpected raw key len for delayed receipt index'')
      else Inr (from_le_bytes (map of_nat (drop 1 raw_key))))"

definition parse_account_id_from_contract_code_key :: "key_libs \<Rightarrow> nat list \<Rightarrow> io_error + account_id" where
  "parse_account_id_from_contract_code_key libs raw_key =
     rbind (parse_account_id_prefix col_contract_code raw_key) (\<lambda>account_id. parse_account_id_from_slice libs account_id ''ContractCode'')"

definition parse_trie_key_access_key_from_raw_key :: "key_libs \<Rightarrow> nat list \<Rightarrow> io_error + trie_key" where
  "parse_trie_key_access_key_from_raw_key libs raw_key =
     rbind (parse_account_id_from_access_key_key libs raw_key) (\<lambda>account_id.
     rbind (parse_public_key_from_access_key_key libs raw_key account_id) (\<lambda>public_key.
     Inr (AccessKey account_id public_key)))"

definition parse_trie_key_gas_key_from_raw_key :: "key_libs \<Rightarrow> nat list \<Rightarrow> io_error + trie_key" where
  "parse_trie_key_gas_key_from_raw_key libs raw_key =
     rbind (parse_account_id_from_gas_key_key libs raw_key) (\<lambda>account_id.
     rbind (parse_public_key_from_gas_key_key libs raw_key account_id) (\<lambda>public_key.
     rbind (parse_nonce_index_from_gas_key_key libs raw_key account_id public_key) (\<lambda>index.
     Inr (GasKey account_id public_key index))))"

definition parse_account_id_from_trie_key_with_separator :: "key_libs \<Rightarrow> nat \<Rightarrow> nat list \<Rightarrow> string \<Rightarrow> io_error + account_id" where
  "parse_account_id_from_trie_key_with_separator libs column raw_key col_name =
     rbind (parse_account_id_prefix column raw_key) (\<lambda>account_id_prefix.
     case next_token account_id_prefix account_data_separator of
       Some account_id \<Rightarrow> parse_account_id_from_slice libs account_id col_name
     | None \<Rightarrow> Inl (InvalidData (''raw key does not have ACCOUNT_DATA_SEPARATOR to be TrieKey::'' @ col_name)))"

text \<open>The loop over the columns.\<close>

fun parse_account_id_loop :: "key_libs \<Rightarrow> (nat \<times> string) list \<Rightarrow> nat list \<Rightarrow> io_error + account_id option" where
  "parse_account_id_loop libs [] raw_key = Inr None"
| "parse_account_id_loop libs ((column, col_name) # columns) raw_key =
     (case parse_account_id_prefix column raw_key of
        Inl _ \<Rightarrow> parse_account_id_loop libs columns raw_key
      | Inr _ \<Rightarrow>
          rbind
            (if column = col_account then parse_account_id_from_account_key libs raw_key
             else if column = col_contract_code then parse_account_id_from_contract_code_key libs raw_key
             else if column = col_access_key then parse_account_id_from_access_key_key libs raw_key
             else parse_account_id_from_trie_key_with_separator libs column raw_key col_name)
            (\<lambda>account_id. Inr (Some account_id)))"

definition parse_account_id_from_raw_key :: "key_libs \<Rightarrow> nat list \<Rightarrow> io_error + account_id option" where
  "parse_account_id_from_raw_key libs raw_key = parse_account_id_loop libs columns_with_account_id_in_key raw_key"

definition parse_account_id_from_received_data_key :: "key_libs \<Rightarrow> nat list \<Rightarrow> io_error + account_id" where
  "parse_account_id_from_received_data_key libs raw_key =
     parse_account_id_from_trie_key_with_separator libs col_received_data raw_key ''ReceivedData''"

definition parse_data_id_from_received_data_key :: "nat list \<Rightarrow> account_id \<Rightarrow> io_error + crypto_hash" where
  "parse_data_id_from_received_data_key raw_key account_id =
     (let prefix_len = 1 * 2 + length account_id in
      if length raw_key < prefix_len then Inl (InvalidData ''raw key is too short for TrieKey::ReceivedData'')
      else if length (drop prefix_len raw_key) = crypto_hash_length then Inr (map of_nat (drop prefix_len raw_key))
      else Inl (InvalidData ''Can't parse CryptoHash for TrieKey::ReceivedData''))"

definition get_raw_prefix_for_access_keys :: "account_id \<Rightarrow> nat list" where
  "get_raw_prefix_for_access_keys account_id = col_access_key # account_bytes account_id @ [col_access_key]"

definition get_raw_prefix_for_gas_key :: "key_libs \<Rightarrow> account_id \<Rightarrow> public_key \<Rightarrow> nat list" where
  "get_raw_prefix_for_gas_key libs account_id public_key =
     col_gas_key # account_bytes account_id @ account_data_separator # public_key_serialize libs public_key"

definition get_raw_prefix_for_gas_keys :: "account_id \<Rightarrow> nat list" where
  "get_raw_prefix_for_gas_keys account_id = col_gas_key # account_bytes account_id @ [account_data_separator]"

definition get_raw_prefix_for_contract_data :: "account_id \<Rightarrow> nat list \<Rightarrow> nat list" where
  "get_raw_prefix_for_contract_data account_id key_prefix =
     col_contract_data # account_bytes account_id @ account_data_separator # key_prefix"

section \<open>What is used of the libraries\<close>

text \<open>The characters of account ids: lower case letters, digits and the separators \<open>-\<close>, \<open>_\<close> and \<open>.\<close>.\<close>

definition account_byte :: "nat \<Rightarrow> bool" where
  "account_byte b \<longleftrightarrow> b = 45 \<or> b = 46 \<or> 48 \<le> b \<and> b \<le> 57 \<or> b = 95 \<or> 97 \<le> b \<and> b \<le> 122"

text \<open>
  Borsh writes a \<open>u8\<close> as itself, an array as its bytes, an optional number as a tag and four bytes, an enum
  as its discriminant and the fields, a string as its length and its bytes; \<open>try_from_slice\<close> accepts what has
  been read completely.  An account id is the text it has been parsed from, over the alphabet of account
  ids and at most 64 characters long.
\<close>

definition libs_ok :: "key_libs \<Rightarrow> bool" where
  "libs_ok libs \<longleftrightarrow>
     kl_ed25519_len libs = 32 \<and>
     (\<forall>n < 256. kl_u8 libs n = [n]) \<and>
     (\<forall>b rd. kl_read_u8 libs (b # rd) = Inr (b, rd)) \<and>
     (\<forall>bs rd. kl_read_array libs (length bs) (word_bytes bs @ rd) = Inr (bs, rd)) \<and>
     (\<forall>read s x. read s = Inr (x, []) \<longrightarrow> kl_try_from_slice libs read s = Inr x) \<and>
     kl_nonce_index libs None = [0] \<and> (\<forall>n. kl_nonce_index libs (Some n) = 1 # word_bytes (to_le_bytes 4 n)) \<and>
     kl_read_nonce_index libs [0] = Inr None \<and>
     (\<forall>bs. length bs = 4 \<longrightarrow> kl_read_nonce_index libs (1 # word_bytes bs) = Inr (Some (from_le_bytes bs))) \<and>
     (\<forall>h. kl_identifier libs (Gcc_CodeHash h) = 0 # word_bytes h) \<and>
     (\<forall>a. kl_identifier libs (Gcc_AccountId a) = 1 # word_bytes (to_le_bytes 4 (length a)) @ account_bytes a) \<and>
     (\<forall>bs a. kl_parse_account libs bs = Some a \<longrightarrow> account_bytes a = bs \<and> length bs \<le> 64 \<and> (\<forall>b \<in> set bs. account_byte b))"

definition account_ok :: "key_libs \<Rightarrow> account_id \<Rightarrow> bool" where
  "account_ok libs a \<longleftrightarrow> kl_parse_account libs (account_bytes a) = Some a"

fun public_key_ok :: "key_libs \<Rightarrow> public_key \<Rightarrow> bool" where
  "public_key_ok libs (ED25519 key) \<longleftrightarrow> length key = kl_ed25519_len libs"
| "public_key_ok libs (SECP256K1 key) \<longleftrightarrow> length key = 64"

abbreviation hash_ok :: "crypto_hash \<Rightarrow> bool" where
  "hash_ok h \<equiv> length h = crypto_hash_length"

text \<open>The values that the fields of a key can have.\<close>

fun key_ok :: "key_libs \<Rightarrow> trie_key \<Rightarrow> bool" where
  "key_ok libs (Account a) \<longleftrightarrow> account_ok libs a"
| "key_ok libs (ContractCode a) \<longleftrightarrow> account_ok libs a"
| "key_ok libs (AccessKey a k) \<longleftrightarrow> account_ok libs a \<and> public_key_ok libs k"
| "key_ok libs (ReceivedData a h) \<longleftrightarrow> account_ok libs a \<and> hash_ok h"
| "key_ok libs (PostponedReceiptId a h) \<longleftrightarrow> account_ok libs a \<and> hash_ok h"
| "key_ok libs (PendingDataCount a h) \<longleftrightarrow> account_ok libs a \<and> hash_ok h"
| "key_ok libs (PostponedReceipt a h) \<longleftrightarrow> account_ok libs a \<and> hash_ok h"
| "key_ok libs (DelayedReceipt i) \<longleftrightarrow> fits u64_w i"
| "key_ok libs (ContractData a k) \<longleftrightarrow> account_ok libs a \<and> (\<forall>b \<in> set k. b < 256)"
| "key_ok libs (PromiseYieldTimeout i) \<longleftrightarrow> fits u64_w i"
| "key_ok libs (PromiseYieldReceipt a h) \<longleftrightarrow> account_ok libs a \<and> hash_ok h"
| "key_ok libs (BufferedReceipt s i) \<longleftrightarrow> fits u64_w s \<and> fits u64_w i"
| "key_ok libs (BufferedReceiptGroupsQueueData s) \<longleftrightarrow> fits u64_w s"
| "key_ok libs (BufferedReceiptGroupsQueueItem s i) \<longleftrightarrow> fits u64_w s \<and> fits u64_w i"
| "key_ok libs (GlobalContractCode (Gcc_CodeHash h)) \<longleftrightarrow> hash_ok h"
| "key_ok libs (GlobalContractCode (Gcc_AccountId a)) \<longleftrightarrow> account_ok libs a"
| "key_ok libs (GasKey a k i) \<longleftrightarrow> account_ok libs a \<and> public_key_ok libs k \<and> (\<forall>n. i = Some n \<longrightarrow> fits u32_w n)"
| "key_ok libs _ \<longleftrightarrow> True"

section \<open>Lemmas\<close>

lemma account_bytes_length [simp]: "length (account_bytes a) = length a"
  by (simp add: account_bytes_def)

lemma account_bytes_inject: "account_bytes a = account_bytes b \<longleftrightarrow> a = b"
  using inj_map_eq_map [OF inj_of_char, of a b, where ?'a1 = nat] by (simp add: account_bytes_def)

lemma word_bytes_inject: "word_bytes xs = word_bytes ys \<longleftrightarrow> xs = ys"
  by (simp add: inj_map_eq_map inj_on_def word_unat_eq_iff)

lemma word_bytes_lt: "b \<in> set (word_bytes bs) \<Longrightarrow> b < 256"
proof -
  assume "b \<in> set (word_bytes bs)"
  then obtain w :: byte where "b = unat w" by auto
  then show ?thesis using unsigned_less [of w] by simp
qed

lemma of_nat_word_bytes [simp]: "map of_nat (word_bytes bs) = bs"
  by (simp add: comp_def)

lemma le_bytes_inject: "fits (8 * k) m \<Longrightarrow> fits (8 * k) n \<Longrightarrow> to_le_bytes k m = to_le_bytes k n \<longleftrightarrow> m = n"
proof -
  assume "fits (8 * k) m" "fits (8 * k) n"
  moreover have "(256::nat) ^ k = 2 ^ (8 * k)" by (simp add: power_mult)
  ultimately have "from_le_bytes (to_le_bytes k m) = m" "from_le_bytes (to_le_bytes k n) = n" by (simp_all add: from_to_le_bytes fits_def)
  then show ?thesis by metis
qed

lemma account_okD:
  assumes "libs_ok libs" and "account_ok libs a"
  shows "length a \<le> 64" and "b \<in> set (account_bytes a) \<Longrightarrow> account_byte b"
proof -
  have "\<forall>bs a. kl_parse_account libs bs = Some a \<longrightarrow> account_bytes a = bs \<and> length bs \<le> 64 \<and> (\<forall>b \<in> set bs. account_byte b)"
    using assms(1) by (simp add: libs_ok_def)
  then have "length (account_bytes a) \<le> 64 \<and> (\<forall>b \<in> set (account_bytes a). account_byte b)" using assms(2) unfolding account_ok_def by blast
  then show "length a \<le> 64" and "b \<in> set (account_bytes a) \<Longrightarrow> account_byte b" by simp_all
qed

lemma account_byte_range: "account_byte b \<Longrightarrow> 44 < b \<and> b < 128"
  by (auto simp: account_byte_def)

lemma separator_values [simp]: "account_data_separator = 44" "access_key_separator = 2"
  by (simp_all add: account_data_separator_def access_key_separator_def)

lemma account_no_separator: "libs_ok libs \<Longrightarrow> account_ok libs a \<Longrightarrow> s \<le> 44 \<Longrightarrow> s \<notin> set (account_bytes a)"
  using account_okD(2) account_byte_range by fastforce

lemma utf8_ascii: "\<forall>b \<in> set bs. b < 128 \<Longrightarrow> utf8_valid bs"
  by (induction bs) auto

lemma account_parses:
  assumes "libs_ok libs" and "account_ok libs a"
  shows "parse_account_id_from_slice libs (account_bytes a) n = Inr a"
proof -
  have "utf8_valid (account_bytes a)" using account_okD(2) [OF assms] account_byte_range by (intro utf8_ascii) auto
  then show ?thesis using assms(2) by (simp add: parse_account_id_from_slice_def account_ok_def)
qed

lemma next_token_append: "s \<notin> set xs \<Longrightarrow> next_token (xs @ s # ys) s = Some xs"
  by (induction xs) auto

lemma separated_inject: "(s :: nat) \<notin> set xs \<Longrightarrow> s \<notin> set ys \<Longrightarrow> xs @ s # us = ys @ s # vs \<longleftrightarrow> xs = ys \<and> us = vs"
  using next_token_append [of s xs us] next_token_append [of s ys vs] by (cases "xs @ s # us = ys @ s # vs") auto

lemma account_separated:
  assumes "libs_ok libs" and "account_ok libs a" and "account_ok libs b" and "s \<le> 44"
  shows "account_bytes a @ s # us = account_bytes b @ s # vs \<longleftrightarrow> a = b \<and> us = vs"
  using separated_inject [of s "account_bytes a" "account_bytes b" us vs] account_no_separator assms account_bytes_inject by auto

lemma serialize_eq:
  "libs_ok libs \<Longrightarrow> public_key_serialize libs k = (case k of ED25519 d \<Rightarrow> 0 # word_bytes d | SECP256K1 d \<Rightarrow> 1 # word_bytes d)"
  by (cases k) (auto simp: libs_ok_def)

lemma serialize_length:
  "libs_ok libs \<Longrightarrow> public_key_ok libs k \<Longrightarrow> length (public_key_serialize libs k) = public_key_len libs k"
  by (cases k) (simp_all add: serialize_eq del: public_key_serialize.simps)

lemma deserialize_serialize:
  assumes "libs_ok libs" and "public_key_ok libs k"
  shows "public_key_deserialize libs (public_key_serialize libs k @ rest) = Inr (k, rest)"
proof -
  have read: "kl_read_array libs n (word_bytes bs @ rest) = Inr (bs, rest)" if "n = length bs" for n bs using assms(1) that by (simp add: libs_ok_def)
  have "kl_read_u8 libs (b # rd) = Inr (b, rd)" for b rd using assms(1) by (simp add: libs_ok_def)
  moreover have "\<exists>t d. public_key_serialize libs k = t # word_bytes d \<and> (t = 0 \<and> k = ED25519 d \<and> kl_ed25519_len libs = length d \<or> t = 1 \<and> k = SECP256K1 d \<and> 64 = length d)"
    using assms(2) serialize_eq [OF assms(1), of k] by (cases k) simp_all
  ultimately show ?thesis by (auto simp: public_key_deserialize_def read)
qed

lemma serialize_inject:
  assumes "libs_ok libs" and "public_key_ok libs k" and "public_key_ok libs l"
  shows "public_key_serialize libs k @ x = public_key_serialize libs l @ y \<longleftrightarrow> k = l \<and> x = y"
proof
  assume "public_key_serialize libs k @ x = public_key_serialize libs l @ y"
  then have "Inr (k, x) = (Inr (l, y) :: io_error + public_key \<times> nat list)"
    using deserialize_serialize [OF assms(1,2), of x] deserialize_serialize [OF assms(1,3), of y] by (simp only:)
  then show "k = l \<and> x = y" by simp
qed simp

lemma nonce_inject:
  assumes "libs_ok libs" and "\<forall>n. i = Some n \<longrightarrow> fits u32_w n" and "\<forall>n. j = Some n \<longrightarrow> fits u32_w n"
  shows "kl_nonce_index libs i = kl_nonce_index libs j \<longleftrightarrow> i = j"
  using assms le_bytes_inject [of 4] by (cases i; cases j) (auto simp: libs_ok_def word_bytes_inject)

lemma identifier_inject:
  assumes "libs_ok libs"
  shows "kl_identifier libs i = kl_identifier libs j \<longleftrightarrow> i = j"
  using assms by (cases i; cases j) (auto simp: libs_ok_def word_bytes_inject account_bytes_inject)

text \<open>A key is its column followed by the rest.\<close>

fun key_column :: "trie_key \<Rightarrow> nat" where
  "key_column (Account _) = 0"
| "key_column (ContractCode _) = 1"
| "key_column (AccessKey _ _) = 2"
| "key_column (ReceivedData _ _) = 3"
| "key_column (PostponedReceiptId _ _) = 4"
| "key_column (PendingDataCount _ _) = 5"
| "key_column (PostponedReceipt _ _) = 6"
| "key_column DelayedReceiptIndices = 7"
| "key_column (DelayedReceipt _) = 7"
| "key_column (ContractData _ _) = 9"
| "key_column PromiseYieldIndices = 10"
| "key_column (PromiseYieldTimeout _) = 11"
| "key_column (PromiseYieldReceipt _ _) = 12"
| "key_column BufferedReceiptIndices = 13"
| "key_column (BufferedReceipt _ _) = 14"
| "key_column BandwidthSchedulerState = 15"
| "key_column (BufferedReceiptGroupsQueueData _) = 16"
| "key_column (BufferedReceiptGroupsQueueItem _ _) = 17"
| "key_column (GlobalContractCode _) = 18"
| "key_column (GasKey _ _ _) = 19"

text \<open>What follows the account id in the keys that have one.\<close>

fun key_rest :: "key_libs \<Rightarrow> trie_key \<Rightarrow> nat list" where
  "key_rest libs (Account a) = []"
| "key_rest libs (ContractCode a) = []"
| "key_rest libs (AccessKey a k) = access_key_separator # public_key_serialize libs k"
| "key_rest libs (ReceivedData a h) = account_data_separator # word_bytes h"
| "key_rest libs (PostponedReceiptId a h) = account_data_separator # word_bytes h"
| "key_rest libs (PendingDataCount a h) = account_data_separator # word_bytes h"
| "key_rest libs (PostponedReceipt a h) = account_data_separator # word_bytes h"
| "key_rest libs (ContractData a k) = account_data_separator # k"
| "key_rest libs (PromiseYieldReceipt a h) = account_data_separator # word_bytes h"
| "key_rest libs (GasKey a k i) = account_data_separator # public_key_serialize libs k @ kl_nonce_index libs i"
| "key_rest libs DelayedReceiptIndices = []"
| "key_rest libs (DelayedReceipt i) = word_bytes (to_le_bytes 8 i)"
| "key_rest libs PromiseYieldIndices = []"
| "key_rest libs (PromiseYieldTimeout i) = word_bytes (to_le_bytes 8 i)"
| "key_rest libs BufferedReceiptIndices = []"
| "key_rest libs (BufferedReceipt s i) = word_bytes (to_le_bytes 2 s) @ word_bytes (to_le_bytes 8 i)"
| "key_rest libs BandwidthSchedulerState = []"
| "key_rest libs (BufferedReceiptGroupsQueueData s) = word_bytes (to_le_bytes 8 s)"
| "key_rest libs (BufferedReceiptGroupsQueueItem s i) = word_bytes (to_le_bytes 8 s) @ word_bytes (to_le_bytes 8 i)"
| "key_rest libs (GlobalContractCode i) = kl_identifier libs i"

text \<open>Only the key of a buffered receipt can panic: it has room for 16 bits of the shard id.\<close>

fun key_fits :: "trie_key \<Rightarrow> bool" where
  "key_fits (BufferedReceipt s i) \<longleftrightarrow> s < 2 ^ 16"
| "key_fits _ \<longleftrightarrow> True"

lemma to_vec_eq:
  "to_vec libs k =
     (if key_fits k then Some (key_column k # (case get_account_id k of None \<Rightarrow> [] | Some a \<Rightarrow> account_bytes a) @ key_rest libs k) else None)"
  by (cases k) (auto simp: to_vec_def identifier_append_into_def assert_def int_max_def cast_def)

lemma account_key_byte: "libs_ok libs \<Longrightarrow> account_ok libs a \<Longrightarrow> b \<in> set (account_bytes a) \<Longrightarrow> b < 256"
  using account_okD(2) account_byte_range by fastforce

lemma serialize_byte: "libs_ok libs \<Longrightarrow> b \<in> set (public_key_serialize libs k) \<Longrightarrow> b < 256"
  using word_bytes_lt [of b] unfolding serialize_eq by (cases k) auto

lemma nonce_byte: "libs_ok libs \<Longrightarrow> b \<in> set (kl_nonce_index libs i) \<Longrightarrow> b < 256"
  using word_bytes_lt [of b] by (cases i) (auto simp: libs_ok_def)

lemma identifier_byte: "libs_ok libs \<Longrightarrow> key_ok libs (GlobalContractCode i) \<Longrightarrow> b \<in> set (kl_identifier libs i) \<Longrightarrow> b < 256"
  using word_bytes_lt [of b] account_key_byte [of libs _ b] by (cases i) (auto simp: libs_ok_def)

lemma identifier_length: "libs_ok libs \<Longrightarrow> key_ok libs (GlobalContractCode i) \<Longrightarrow> length (kl_identifier libs i) = identifier_len i"
  by (cases i) (auto simp: libs_ok_def)

lemma rest_length: "libs_ok libs \<Longrightarrow> key_ok libs k \<Longrightarrow>
    1 + (case get_account_id k of None \<Rightarrow> 0 | Some a \<Rightarrow> length a) + length (key_rest libs k) = trie_key_len libs k"
  by (cases k) (simp_all add: serialize_length identifier_length)

lemma rest_byte: "libs_ok libs \<Longrightarrow> key_ok libs k \<Longrightarrow> b \<in> set (key_rest libs k) \<Longrightarrow> b < 256"
  using word_bytes_lt [of b] serialize_byte [of libs b] nonce_byte [of libs b] identifier_byte [of libs _ b] by (cases k) auto

lemma account_of_key: "key_ok libs k \<Longrightarrow> get_account_id k = Some a \<Longrightarrow> account_ok libs a"
  by (cases k) auto

lemma rest_inject:
  assumes "libs_ok libs" and "key_ok libs k" and "key_ok libs l" and "key_fits k" and "key_fits l" and "key_column k = key_column l"
    and "get_account_id k = get_account_id l" and "key_rest libs k = key_rest libs l"
  shows "k = l"
proof -
  note inj = word_bytes_inject serialize_inject [OF assms(1)] serialize_inject [OF assms(1), where x = "[]" and y = "[]", simplified]
    nonce_inject [OF assms(1)] identifier_inject [OF assms(1)] le_bytes_inject [of 8] le_bytes_inject [of 2]
  have "to_le_bytes 8 n \<noteq> []" for n using length_to_le_bytes [of 8 n] by fastforce
  then show ?thesis using assms(2-) by (cases k; cases l) (simp_all add: inj fits_def)
qed

text \<open>Among the keys with an account id, what follows it starts with a byte below the alphabet.\<close>

lemma rest_separator: "get_account_id k = Some a \<Longrightarrow> key_rest libs k = [] \<or> (\<exists>s r. key_rest libs k = s # r \<and> s \<le> 44)"
  by (cases k) auto

lemma same_column_account: "key_column k = key_column l \<Longrightarrow> get_account_id k = None \<longleftrightarrow> get_account_id l = None"
  by (cases k; cases l) simp_all

lemma same_column_rest:
  "key_column k = key_column l \<Longrightarrow> get_account_id k = Some a \<Longrightarrow> get_account_id l = Some b \<Longrightarrow>
   key_rest libs k = [] \<and> key_rest libs l = [] \<or> (\<exists>s r q. s \<le> 44 \<and> key_rest libs k = s # r \<and> key_rest libs l = s # q)"
  by (cases k; cases l) simp_all

lemma parse_prefix_column: "key_ok libs k \<Longrightarrow> to_vec libs k = Some raw \<Longrightarrow>
    parse_account_id_prefix c raw = (if c = key_column k then Inr (tl raw) else Inl (InvalidData ''raw key is does not start with a proper column marker''))"
  by (auto simp: to_vec_eq split: if_splits)

lemma parse_with_separator:
  assumes "libs_ok libs" and "account_ok libs a" and "s \<le> 44"
  shows "(case next_token (account_bytes a @ s # r) s of Some x \<Rightarrow> parse_account_id_from_slice libs x n | None \<Rightarrow> e) = Inr a"
  using next_token_append [OF account_no_separator [OF assms], of r] account_parses [OF assms(1,2)] by simp

lemmas parser_defs =
  parse_account_id_from_raw_key_def columns_with_account_id_in_key_def parse_account_id_from_account_key_def
  parse_account_id_from_contract_code_key_def parse_account_id_from_access_key_key_def parse_account_id_from_gas_key_key_def
  parse_account_id_from_trie_key_with_separator_def parse_account_id_from_contract_data_key_def
  parse_account_id_from_received_data_key_def

lemma raw_key_account:
  assumes "libs_ok libs" and "key_ok libs k" and "to_vec libs k = Some raw"
  shows "parse_account_id_from_raw_key libs raw = Inr (get_account_id k)"
proof -
  note p = account_parses [OF assms(1)] parse_with_separator [OF assms(1)]
  show ?thesis using assms(2,3) by (cases k) (auto simp: to_vec_eq parser_defs p split: if_splits)
qed

lemma whole_keys_parse:
  assumes "libs_ok libs"
  shows "key_ok libs (AccessKey a k) \<Longrightarrow> to_vec libs (AccessKey a k) = Some raw \<Longrightarrow>
      parse_trie_key_access_key_from_raw_key libs raw = Inr (AccessKey a k)"
    and "key_ok libs (GasKey a k i) \<Longrightarrow> to_vec libs (GasKey a k i) = Some raw \<Longrightarrow>
      parse_trie_key_gas_key_from_raw_key libs raw = Inr (GasKey a k i)"
proof -
  note p = parse_with_separator [OF assms] serialize_length [OF assms] deserialize_serialize [OF assms]
  {
    assume ok: "key_ok libs (AccessKey a k)" and raw: "to_vec libs (AccessKey a k) = Some raw"
    have "public_key_deserialize libs (public_key_serialize libs k) = Inr (k, [])" using p(3) [of k "[]"] ok by simp
    then have "kl_try_from_slice libs (public_key_deserialize libs) (public_key_serialize libs k) = Inr k"
      using assms by (simp add: libs_ok_def)
    then show "parse_trie_key_access_key_from_raw_key libs raw = Inr (AccessKey a k)" using ok raw
      by (auto simp: parse_trie_key_access_key_from_raw_key_def parse_account_id_from_access_key_key_def
          parse_public_key_from_access_key_key_def to_vec_eq p Let_def)
  }
  {
    assume ok: "key_ok libs (GasKey a k i)" and raw: "to_vec libs (GasKey a k i) = Some raw"
    have "kl_read_nonce_index libs (kl_nonce_index libs i) = Inr i"
    proof (cases i)
      case (Some n)
      then have "from_le_bytes (to_le_bytes 4 n) = n" using ok by (simp add: from_to_le_bytes fits_def)
      then show ?thesis using assms Some by (simp add: libs_ok_def)
    qed (use assms in \<open>simp add: libs_ok_def\<close>)
    then show "parse_trie_key_gas_key_from_raw_key libs raw = Inr (GasKey a k i)" using ok raw
      by (auto simp: parse_trie_key_gas_key_from_raw_key_def parse_account_id_from_gas_key_key_def parse_public_key_from_gas_key_key_def
          parse_nonce_index_from_gas_key_key_def to_vec_eq p Let_def)
  }
qed

lemma raw_key_bytes:
  assumes "libs_ok libs" and "key_ok libs k" and "to_vec libs k = Some raw"
  shows "\<forall>b \<in> set raw. b < 256"
proof -
  have "key_column k < 256" by (cases k) simp_all
  then show ?thesis using assms(3) rest_byte [OF assms(1,2)] account_key_byte [OF assms(1)] account_of_key [OF assms(2)]
    by (cases "get_account_id k") (auto simp: to_vec_eq split: if_splits)
qed

section \<open>Properties\<close>

text \<open>
  C11: A trie key is turned into a string of bytes of the announced length, so that the debug assertion of
  \<open>append_into\<close> holds; only the key of a buffered receipt whose receiving shard does not fit 16 bits panics.
\<close>

theorem trie_key_bytes_well_formed:
  assumes "libs_ok libs" and "key_ok libs k"
  shows "case to_vec libs k of
      Some raw \<Rightarrow> length raw = trie_key_len libs k \<and> (\<forall>b \<in> set raw. b < 256)
    | None \<Rightarrow> \<exists>s i. k = BufferedReceipt s i \<and> 2 ^ 16 \<le> s"
proof (cases "key_fits k")
  case True
  then obtain raw where raw: "to_vec libs k = Some raw" by (simp add: to_vec_eq)
  then have "length raw = trie_key_len libs k" using rest_length [OF assms] True by (auto simp: to_vec_eq split: option.splits)
  then show ?thesis using raw_key_bytes [OF assms raw] by (simp add: raw)
next
  case False
  then show ?thesis by (cases k) (auto simp: to_vec_eq)
qed

text \<open>An instance of the libraries, and keys of an account.\<close>

definition example_parse :: "nat list \<Rightarrow> account_id option" where
  "example_parse bs = (if length bs \<le> 64 \<and> (\<forall>b \<in> set bs. account_byte b) then Some (map char_of bs) else None)"

definition example_libs :: key_libs where
  "example_libs =
     \<lparr> kl_ed25519_len = 32,
       kl_u8 = (\<lambda>n. [n]),
       kl_read_u8 = (\<lambda>s. case s of [] \<Rightarrow> Inl (ReaderError ''Unexpected length of input'') | b # rd \<Rightarrow> Inr (b, rd)),
       kl_read_array = (\<lambda>n s. if n \<le> length s then Inr (map of_nat (take n s), drop n s) else Inl (ReaderError ''Unexpected length of input'')),
       kl_try_from_slice = (\<lambda>read s. rbind (read s) (\<lambda>(x, rest). if rest = [] then Inr x else Inl (ReaderError ''Not all bytes read''))),
       kl_nonce_index = (\<lambda>i. case i of None \<Rightarrow> [0] | Some n \<Rightarrow> 1 # word_bytes (to_le_bytes 4 n)),
       kl_read_nonce_index =
         (\<lambda>s. case s of
            b # rd \<Rightarrow>
              (if b = 0 \<and> rd = [] then Inr None
               else if b = 1 \<and> length rd = 4 then Inr (Some (from_le_bytes (map of_nat rd)))
               else Inl (ReaderError ''Not all bytes read''))
          | [] \<Rightarrow> Inl (ReaderError ''Unexpected length of input'')),
       kl_identifier =
         (\<lambda>i. case i of
            Gcc_CodeHash h \<Rightarrow> 0 # word_bytes h
          | Gcc_AccountId a \<Rightarrow> 1 # word_bytes (to_le_bytes 4 (length a)) @ account_bytes a),
       kl_parse_account = example_parse \<rparr>"

lemma example_parse_text: "example_parse bs = Some a \<Longrightarrow> account_bytes a = bs \<and> length bs \<le> 64 \<and> (\<forall>b \<in> set bs. account_byte b)"
  using account_byte_range by (fastforce simp: example_parse_def account_bytes_def comp_def intro!: map_idI split: if_splits)

lemma example_libs_ok: "libs_ok example_libs"
  using example_parse_text unfolding libs_ok_def example_libs_def by (simp add: comp_def)

definition example_account :: account_id where
  "example_account = ''alice.near''"

lemma example_account_bytes: "account_bytes example_account = [97, 108, 105, 99, 101, 46, 110, 101, 97, 114]"
  by (simp add: example_account_def account_bytes_def)

lemma example_valid: "\<forall>b \<in> set (account_bytes a). account_byte b \<Longrightarrow> length a \<le> 64 \<Longrightarrow> account_ok example_libs a"
  by (simp add: account_ok_def example_libs_def example_parse_def) (simp add: account_bytes_def comp_def)

lemma example_account_ok: "account_ok example_libs example_account"
  by (rule example_valid) (simp_all add: example_account_bytes account_byte_def, simp add: example_account_def)

theorem trie_key_bytes_well_formed_witness:
  "to_vec example_libs (ContractData example_account [1, 2]) = Some [9, 97, 108, 105, 99, 101, 46, 110, 101, 97, 114, 44, 1, 2] \<and>
   trie_key_len example_libs (ContractData example_account [1, 2]) = 14"
  using trie_key_bytes_well_formed [OF example_libs_ok, of "ContractData example_account [1, 2]"] example_account_ok
  by (simp add: to_vec_def example_account_bytes)

lemma to_vec_inject:
  assumes "libs_ok libs" and "key_ok libs k" and "key_ok libs l" and "to_vec libs k = Some raw" and "to_vec libs l = Some raw"
  shows "k = l"
proof -
  have fit: "key_fits k" "key_fits l" using assms(4,5) by (auto simp: to_vec_eq split: if_splits)
  let ?a = "\<lambda>k. case get_account_id k of None \<Rightarrow> [] | Some a \<Rightarrow> account_bytes a"
  have col: "key_column k = key_column l" and eq: "?a k @ key_rest libs k = ?a l @ key_rest libs l"
    using assms(4,5) fit by (auto simp: to_vec_eq)
  have "get_account_id k = get_account_id l \<and> key_rest libs k = key_rest libs l"
  proof (cases "get_account_id k")
    case None
    then show ?thesis using same_column_account [OF col] eq by simp
  next
    case (Some a)
    then obtain b where b: "get_account_id l = Some b" using same_column_account [OF col] by auto
    have ok: "account_ok libs a" "account_ok libs b" using account_of_key assms(2,3) Some b by blast+
    from same_column_rest [OF col Some b, of libs] show ?thesis
      using eq Some b account_separated [OF assms(1) ok] account_bytes_inject by auto
  qed
  then show ?thesis using rest_inject [OF assms(1-3) fit col] by blast
qed

text \<open>
  C9: No two trie keys share their bytes, although the columns are only a byte, two kinds of keys share a
  column and the parts of a key are concatenated without their lengths.
\<close>

theorem trie_keys_never_clash:
  assumes "libs_ok libs" and "key_ok libs k" and "key_ok libs l" and "to_vec libs k = Some raw" and "to_vec libs l = Some raw"
  shows "k = l"
  by (rule to_vec_inject [OF assms])

theorem trie_keys_never_clash_witness:
  "to_vec example_libs (DelayedReceipt 0) \<noteq> to_vec example_libs DelayedReceiptIndices \<and>
   key_column (DelayedReceipt 0) = key_column DelayedReceiptIndices"
proof -
  have "to_vec example_libs (DelayedReceipt 0) \<noteq> to_vec example_libs DelayedReceiptIndices"
  proof
    assume "to_vec example_libs (DelayedReceipt 0) = to_vec example_libs DelayedReceiptIndices"
    then have "DelayedReceipt 0 = DelayedReceiptIndices"
      by (intro trie_keys_never_clash [OF example_libs_ok, where raw = "[7]"]) (simp_all add: to_vec_def fits_def)
    then show False by simp
  qed
  then show ?thesis by simp
qed

text \<open>
  C10: The parsers recover what a key was made from: the account id, or that there is none, for every key,
  and all of an access key and of a gas key.
\<close>

theorem trie_key_parsers_round_trip:
  assumes "libs_ok libs" and "key_ok libs k" and "to_vec libs k = Some raw"
  shows "parse_account_id_from_raw_key libs raw = Inr (get_account_id k) \<and>
    (\<forall>a p. k = AccessKey a p \<longrightarrow> parse_trie_key_access_key_from_raw_key libs raw = Inr k) \<and>
    (\<forall>a p i. k = GasKey a p i \<longrightarrow> parse_trie_key_gas_key_from_raw_key libs raw = Inr k)"
  using raw_key_account [OF assms] whole_keys_parse [OF assms(1)] assms(2,3) by auto

theorem trie_key_parsers_round_trip_witness:
  "\<exists>raw. to_vec example_libs (AccessKey example_account (ED25519 (replicate 32 7))) = Some raw \<and> length raw = 45 \<and>
     parse_account_id_from_raw_key example_libs raw = Inr (Some example_account) \<and>
     parse_trie_key_access_key_from_raw_key example_libs raw = Inr (AccessKey example_account (ED25519 (replicate 32 7)))"
proof -
  let ?k = "AccessKey example_account (ED25519 (replicate 32 7))"
  let ?raw = "2 # account_bytes example_account @ 2 # 0 # word_bytes (replicate 32 7)"
  have ok: "key_ok example_libs ?k" using example_account_ok by (simp add: example_libs_def)
  have raw: "to_vec example_libs ?k = Some ?raw" by (simp add: to_vec_def example_libs_def)
  have "length ?raw = 45" by (simp add: example_account_def)
  then show ?thesis using trie_key_parsers_round_trip [OF example_libs_ok ok raw] raw by auto
qed

end
