(* ===== verification/Trie_Retain.thy ===== *)
theory Trie_Retain
  imports Trie_State Trie_Key
begin

text \<open>
  Splitting the trie of a shard (\<open>core/store/src/trie/ops/resharding.rs\<close>): the ranges of keys that a child
  shard keeps, the recursion that removes the other keys from the updated nodes, and the changes of a disk
  trie that it gives (\<open>retain_split_shard_with_trie_storage\<close> in \<open>mod.rs\<close>).  Keys that are removed by
  discarding a node keep their reference counts, as in the source.
\<close>

section \<open>Ranges\<close>

datatype retain_mode = Retain_Left | Retain_Right

datatype retain_decision = RetainAll | DiscardAll | Descend

type_synonym key_range = "nat list \<times> nat list"

definition range_contains :: "key_range \<Rightarrow> nat list \<Rightarrow> bool" where
  "range_contains r key \<longleftrightarrow> fst r \<le> key \<and> key < snd r"

definition append_key :: "nat \<Rightarrow> account_id \<Rightarrow> nat list" where
  "append_key trie_key boundary_account = [trie_key] @ account_bytes boundary_account"

definition get_interval_for_split_keys :: "account_id \<Rightarrow> retain_mode \<Rightarrow> nat \<Rightarrow> key_range option" where
  "get_interval_for_split_keys boundary_account retain_mode column =
     (case retain_mode of
        Retain_Left \<Rightarrow> Some ([column], append_key column boundary_account)
      | Retain_Right \<Rightarrow> do { next \<leftarrow> checked_add u8_w column 1; Some (append_key column boundary_account, [next]) })"

definition get_interval_for_copy_to_both_children :: "nat \<Rightarrow> key_range option" where
  "get_interval_for_copy_to_both_children column = do { next \<leftarrow> checked_add u8_w column 1; Some ([column], [next]) }"

definition get_interval_for_copy_to_one_child :: "retain_mode \<Rightarrow> nat \<Rightarrow> key_range option option" where
  "get_interval_for_copy_to_one_child retain_mode column =
     (case retain_mode of
        Retain_Left \<Rightarrow> do { next \<leftarrow> checked_add u8_w column 1; Some (Some ([column], [next])) }
      | Retain_Right \<Rightarrow> Some None)"

text \<open>One round of the loop over the columns.\<close>

definition column_intervals :: "account_id \<Rightarrow> retain_mode \<Rightarrow> nat \<times> string \<Rightarrow> key_range list \<Rightarrow> key_range list option" where
  "column_intervals boundary_account retain_mode column intervals =
     (case column of (column, name) \<Rightarrow>
        if (column, name) \<in> set columns_with_account_id_in_key then
          do { r \<leftarrow> get_interval_for_split_keys boundary_account retain_mode column; Some (intervals @ [r]) }
        else if column \<in> {col_delayed_receipt_or_indices, col_promise_yield_indices, col_promise_yield_timeout,
            col_bandwidth_scheduler_state, col_global_contract_code} then
          do { r \<leftarrow> get_interval_for_copy_to_both_children column; Some (intervals @ [r]) }
        else if column \<in> {col_buffered_receipt_indices, col_buffered_receipt, col_buffered_receipt_groups_queue_data,
            col_buffered_receipt_groups_queue_item} then
          do {
            interval \<leftarrow> get_interval_for_copy_to_one_child retain_mode column;
            Some (case interval of Some r \<Rightarrow> intervals @ [r] | None \<Rightarrow> intervals)
          }
        else None)"

definition boundary_account_to_intervals :: "account_id \<Rightarrow> retain_mode \<Rightarrow> key_range list option" where
  "boundary_account_to_intervals boundary_account retain_mode =
     fold_opt (column_intervals boundary_account retain_mode) all_columns_with_names []"

text \<open>What the iterator of a nibble slice returns.\<close>

lemma ns_next_decreases: "ns_next s i = Some (Some n, j) \<Longrightarrow> length (ns_data s) * 2 - j < length (ns_data s) * 2 - i"
  by (auto simp: ns_next_def ns_len_def checked_sub_def bind_eq_Some_conv split: if_splits)

function ns_collect :: "nibble_slice \<Rightarrow> nat \<Rightarrow> nat list option" where
  "ns_collect s i =
     do {
       r \<leftarrow> ns_next s i;
       case r of (None, _) \<Rightarrow> Some [] | (Some n, j) \<Rightarrow> do { ns \<leftarrow> ns_collect s j; Some (n # ns) }
     }"
  by auto
termination
  by (relation "measure (\<lambda>(s, i). length (ns_data s) * 2 - i)") (auto dest: ns_next_decreases)

declare ns_collect.simps [simp del]

definition intervals_to_nibbles :: "key_range list \<Rightarrow> key_range list option" where
  "intervals_to_nibbles intervals =
     those (map (\<lambda>r. do { s \<leftarrow> ns_collect (ns_new (fst r)) 0; e \<leftarrow> ns_collect (ns_new (snd r)) 0; Some (s, e) }) intervals)"

fun retain_decision_loop :: "nat list \<Rightarrow> key_range list \<Rightarrow> bool \<Rightarrow> retain_decision" where
  "retain_decision_loop key [] should_descend = (if should_descend then Descend else DiscardAll)"
| "retain_decision_loop key (r # intervals) should_descend =
     (if prefix key (fst r) \<or> prefix key (snd r) then retain_decision_loop key intervals True
      else if fst r \<le> key \<and> key < snd r then RetainAll
      else retain_decision_loop key intervals should_descend)"

definition retain_decision_for :: "nat list \<Rightarrow> key_range list \<Rightarrow> retain_decision" where
  "retain_decision_for key intervals = retain_decision_loop key intervals False"

section \<open>The recursion\<close>

lemma fold_try_mono [partial_function_mono]:
  assumes "\<And>x s. mono_option (\<lambda>f. b f x s)"
  shows "mono_option (\<lambda>f. fold_try (b f) xs s)"
proof (induction xs arbitrary: s)
  case Nil
  then show ?case by (simp add: option.const_mono)
next
  case (Cons x xs)
  have "mono_option (\<lambda>f. rtry (b f x s) (fold_try (b f) xs))" by (intro rtry_mono assms Cons.IH)
  then show ?case by simp
qed

partial_function (option) retain_multi_range_recursive ::
  "disk_trie \<Rightarrow> key_range list \<Rightarrow> trie_storage_update \<Rightarrow> updated_node_id \<Rightarrow> nat list \<Rightarrow> trie_storage_update outcome" where
  "retain_multi_range_recursive trie intervals u node_id key =
     (case retain_decision_for key intervals of
        RetainAll \<Rightarrow> Some (Inr u)
      | DiscardAll \<Rightarrow>
          do { (_, u) \<leftarrow> take_node u node_id; u \<leftarrow> place_node_at u node_id empty_node; Some (Inr u) }
      | Descend \<Rightarrow>
          do {
            (taken, u) \<leftarrow> take_node u node_id;
            case un_node taken of
              Empty \<Rightarrow> do { u \<leftarrow> place_node_at u node_id empty_node; Some (Inr u) }
            | Leaf extension value \<Rightarrow>
                do {
                  (s, _) \<leftarrow> ns_from_encoded extension;
                  extension_nibbles \<leftarrow> ns_collect s 0;
                  let full_key = key @ extension_nibbles;
                  u \<leftarrow> (if \<not> (\<exists>r \<in> set intervals. range_contains r full_key) then place_node_at u node_id empty_node
                       else place_node_at u node_id (with_size (Leaf extension value) (un_memory_usage taken)));
                  Some (Inr u)
                }
            | Branch children value \<Rightarrow>
                rtry (fold_try
                  (\<lambda>i (children, memory_usage, u).
                     case children ! i of
                       None \<Rightarrow> Some (Inr (children, memory_usage, u))
                     | Some old_child_id \<Rightarrow>
                         rtry (Some (ensure_updated trie u old_child_id)) (\<lambda>(new_child_id, u).
                         rtry (retain_multi_range_recursive trie intervals u new_child_id (key @ [cast u8_w i])) (\<lambda>u.
                         do {
                           n \<leftarrow> get_node_ref u new_child_id;
                           if un_node n = Empty then Some (Inr (children[i := None], memory_usage, u))
                           else do {
                             memory_usage \<leftarrow> checked_add u64_w memory_usage (un_memory_usage n);
                             Some (Inr (children[i := Some (Updated new_child_id)], memory_usage, u))
                           }
                         })))
                  [0..<length children] (children, 0, u))
                  (\<lambda>(children, memory_usage, u).
                     do {
                       let node = Branch children (if \<exists>r \<in> set intervals. range_contains r key then value else None);
                       memory_usage \<leftarrow> checked_add u64_w memory_usage (node_usage node);
                       u \<leftarrow> place_node_at u node_id (with_size node memory_usage);
                       squash_node trie u node_id
                     })
            | Extension extension child \<Rightarrow>
                rtry (Some (ensure_updated trie u child)) (\<lambda>(new_child_id, u).
                do {
                  (s, _) \<leftarrow> ns_from_encoded extension;
                  extension_nibbles \<leftarrow> ns_collect s 0;
                  rtry (retain_multi_range_recursive trie intervals u new_child_id (key @ extension_nibbles)) (\<lambda>u.
                  do {
                    let node = Extension extension (Updated new_child_id);
                    n \<leftarrow> get_node_ref u new_child_id;
                    memory_usage \<leftarrow> checked_add u64_w (node_usage node) (un_memory_usage n);
                    u \<leftarrow> place_node_at u node_id (with_size node memory_usage);
                    squash_node trie u node_id
                  })
                })
          })"

text \<open>An error of the recursion is unwrapped, so it is a panic here.\<close>

definition retain_split_shard :: "disk_trie \<Rightarrow> trie_storage_update \<Rightarrow> account_id \<Rightarrow> retain_mode \<Rightarrow> trie_storage_update option" where
  "retain_split_shard trie u boundary_account retain_mode =
     do {
       intervals \<leftarrow> boundary_account_to_intervals boundary_account retain_mode;
       intervals_nibbles \<leftarrow> intervals_to_nibbles intervals;
       r \<leftarrow> retain_multi_range_recursive trie intervals_nibbles u 0 [];
       case r of Inl e \<Rightarrow> None | Inr u \<Rightarrow> Some u
     }"

definition retain_split_shard_with_trie_storage ::
  "sha256 \<Rightarrow> node_encoding \<Rightarrow> disk_trie \<Rightarrow> account_id \<Rightarrow> retain_mode \<Rightarrow> trie_changes outcome" where
  "retain_split_shard_with_trie_storage sha ser trie boundary_account retain_mode =
     rtry (Some (move_node_to_mutable trie trie_storage_update_new (dt_root trie))) (\<lambda>(root_node, u).
     do {
       u \<leftarrow> retain_split_shard trie u boundary_account retain_mode;
       c \<leftarrow> flatten_nodes sha ser u (dt_root trie) root_node;
       Some (Inr c)
     })"

section \<open>The specification: keeping the keys of a predicate\<close>

function t_retain :: "(nat list \<Rightarrow> bool) \<Rightarrow> nat list \<Rightarrow> 'v trie \<Rightarrow> 'v trie" where
  "t_retain P p TEmpty = TEmpty"
| "t_retain P p (TLeaf e v) = (if P (p @ e) then TLeaf e v else TEmpty)"
| "t_retain P p (TExt e t) = t_extend e (t_retain P (p @ e) t)"
| "t_retain P p (TBranch ts w) =
     t_squash (TBranch (map (\<lambda>j. t_retain P (p @ [j]) (ts ! j)) [0..<length ts]) (if P p then w else None))"
  by pat_completeness auto
termination
proof (relation "measure (\<lambda>(P, p, t). size t)", goal_cases)
  case (3 P p ts w j)
  then have "ts ! j \<in> set ts" by simp
  then have "size (ts ! j) < Suc (size_list size ts)" using size_list_estimation' [of "ts ! j" ts "size (ts ! j)" size] by simp
  then show ?case by simp
qed auto

lemma t_retain_lookup: "shape t \<Longrightarrow> t_lookup (t_retain P p t) k = (if P (p @ k) then t_lookup t k else None)"
proof (induction P p t arbitrary: k rule: t_retain.induct)
  case (3 P p e t)
  then show ?case by (auto simp: t_extend_lookup prefix_def)
next
  case (4 P p ts w)
  show ?case
  proof (cases k)
    case (Cons n l)
    have "t_lookup (t_retain P (p @ [n]) (ts ! n)) l = (if P ((p @ [n]) @ l) then t_lookup (ts ! n) l else None)" if "n < length ts"
      by (rule 4(1)) (use that 4(2) in auto)
    then show ?thesis by (simp add: t_squash_lookup Cons del: t_squash.simps)
  qed (simp add: t_squash_lookup del: t_squash.simps)
qed auto

lemma t_retain_canonical: "canonical t \<Longrightarrow> canonical (t_retain P p t)"
proof (induction P p t rule: t_retain.induct)
  case (4 P p ts w)
  have "\<forall>t \<in> set (map (\<lambda>j. t_retain P (p @ [j]) (ts ! j)) [0..<length ts]). canonical t" using 4 by auto
  moreover have "length ts = 16" using 4 by simp
  ultimately show ?case unfolding t_retain.simps by (intro t_squash_branch_canonical) auto
qed (auto simp: t_extend_canonical)

lemma t_retain_all: "canonical t \<Longrightarrow> (\<And>k. P (p @ k)) \<Longrightarrow> t_retain P p t = t"
  by (rule canonical_unique) (simp_all add: t_retain_canonical t_retain_lookup canonical_shape)

lemma t_retain_none: "canonical t \<Longrightarrow> (\<And>k. \<not> P (p @ k)) \<Longrightarrow> t_retain P p t = TEmpty"
  by (rule canonical_unique) (simp_all add: t_retain_canonical t_retain_lookup canonical_shape)

lemma map_retain: "canonical t \<Longrightarrow> map_trie f (t_retain P p t) = t_retain P p (map_trie f t)"
  by (rule canonical_unique) (auto simp: canonical_map t_retain_canonical lookup_map t_retain_lookup canonical_shape)

lemma set_retain: "canonical t \<Longrightarrow> set_trie (t_retain P p t) \<subseteq> set_trie t"
  using trie_in_lookup [OF canonical_shape [OF t_retain_canonical]] lookup_in_trie
  by (fastforce simp: t_retain_lookup canonical_shape split: if_splits)

text \<open>Removing keys never makes a canonical trie bigger.\<close>

lemma mem_pos: "canonical t \<Longrightarrow> t \<noteq> TEmpty \<Longrightarrow> 50 \<le> t_mem vl t"
  by (cases t) auto

lemma sum_list_le: "length xs = length ys \<Longrightarrow> (\<And>j. j < length xs \<Longrightarrow> xs ! j \<le> (ys ! j :: nat)) \<Longrightarrow> sum_list xs \<le> sum_list ys"
  by (auto simp: sum_list_sum_nth intro!: sum_mono)

lemma branch_mem_mono:
  assumes "length us = length ts" and "\<And>j. j < length ts \<Longrightarrow> t_mem vl (us ! j) \<le> t_mem vl (ts ! j)" and "w' = w \<or> w' = None"
  shows "t_mem vl (TBranch us w') \<le> t_mem vl (TBranch ts w)"
proof -
  have "sum_list (map (t_mem vl) us) \<le> sum_list (map (t_mem vl) ts)" by (rule sum_list_le) (use assms in auto)
  then show ?thesis using assms(3) by (auto split: option.splits)
qed

lemma sum_list_member: "i < length xs \<Longrightarrow> (xs ! i :: nat) \<le> sum_list xs"
  by (rule member_le_sum_list) simp_all

lemma sum_list_two: "i < length xs \<Longrightarrow> j < length xs \<Longrightarrow> i \<noteq> j \<Longrightarrow> (xs ! i :: nat) + xs ! j \<le> sum_list xs"
proof -
  assume a: "i < length xs" "j < length xs" "i \<noteq> j"
  have "sum_list (xs[i := 0]) + xs ! i = sum_list xs" using a(1) by (simp add: sum_list_update member_le_sum_list)
  moreover have "xs ! j \<le> sum_list (xs[i := 0])" using sum_list_member [of j "xs[i := 0]"] a by simp
  ultimately show ?thesis by simp
qed

text \<open>A branch of a canonical trie weighs at least one of its children and fifty more.\<close>

lemma branch_mem_child:
  assumes c: "canonical (TBranch ts w)" and i: "i < 16"
  shows "100 + t_mem vl (ts ! i) \<le> t_mem vl (TBranch ts w)"
proof (cases w)
  case (Some v)
  then show ?thesis using sum_list_member [of i "map (t_mem vl) ts"] c i by simp
next
  case None
  then have "2 \<le> length (present ts)" using c by auto
  then obtain a b where ab: "a \<in> set (present ts)" "b \<in> set (present ts)" "a \<noteq> b" by (rule two_members [OF _ present_distinct])
  define j where "j = (if i = a then b else a)"
  have j: "j < 16" "ts ! j \<noteq> TEmpty" "j \<noteq> i" using ab c by (auto simp: j_def present_mem)
  have "canonical (ts ! j)" using c j(1) by simp
  then have "50 \<le> t_mem vl (ts ! j)" using mem_pos j(2) by blast
  then show ?thesis using sum_list_two [of i "map (t_mem vl) ts" j] c i j None by simp
qed

lemma branch_mem_value:
  assumes c: "canonical (TBranch ts (Some v))"
  shows "150 + vl v \<le> t_mem vl (TBranch ts (Some v))"
proof -
  have "present ts \<noteq> []" using c by auto
  then obtain i where i: "i < 16" "ts ! i \<noteq> TEmpty" using present_mem [of _ ts] c by (metis canonical.simps(4) hd_in_set)
  have "canonical (ts ! i)" using c i(1) by simp
  then have "50 \<le> t_mem vl (ts ! i)" using mem_pos i(2) by blast
  then show ?thesis using sum_list_member [of i "map (t_mem vl) ts"] c i by simp
qed

lemma squash_mem:
  assumes c: "canonical (TBranch ts w)" and us: "length us = 16" "\<And>j. j < 16 \<Longrightarrow> t_mem vl (us ! j) \<le> t_mem vl (ts ! j)" and w: "w' = w \<or> w' = None"
  shows "t_mem vl (t_squash (TBranch us w')) \<le> t_mem vl (TBranch ts w)"
proof -
  have mono: "t_mem vl (TBranch us w') \<le> t_mem vl (TBranch ts w)" by (rule branch_mem_mono) (use assms in auto)
  show ?thesis
  proof (cases "present us" rule: remdups_adj.cases)
    case 1
    show ?thesis
    proof (cases w')
      case (Some v)
      then have "w = Some v" using w by auto
      then show ?thesis using branch_mem_value [of ts v vl] c 1 Some by (simp add: key_cost_def)
    qed (use 1 in simp)
  next
    case (2 i)
    then have i: "i < 16" using present_mem [of i us] us(1) by auto
    have "t_mem vl (t_extend [i] (us ! i)) \<le> 52 + t_mem vl (us ! i)" using t_extend_mem [of vl "[i]" "us ! i"] by (simp add: key_cost_def)
    also have "\<dots> \<le> 52 + t_mem vl (ts ! i)" using us(2) [OF i] by simp
    also have "\<dots> \<le> t_mem vl (TBranch ts w)" using branch_mem_child [OF c i, of vl] by simp
    finally show ?thesis using mono 2 by (simp split: if_splits)
  qed (use mono in simp)
qed

lemma t_retain_mem: "canonical t \<Longrightarrow> t_mem vl (t_retain P p t) \<le> t_mem vl t"
proof (induction P p t rule: t_retain.induct)
  case (3 P p e t)
  then show ?case using t_extend_mem [of vl e "t_retain P (p @ e) t"] by simp
next
  case (4 P p ts w)
  have len: "length ts = 16" using 4 by simp
  show ?case unfolding t_retain.simps
  proof (rule squash_mem [OF 4(2)])
    show "t_mem vl (map (\<lambda>j. t_retain P (p @ [j]) (ts ! j)) [0..<length ts] ! j) \<le> t_mem vl (ts ! j)" if "j < 16" for j
      using 4(1) [of j] 4(2) that len by simp
  qed (simp_all add: len)
qed auto

section \<open>The decision on a subtree\<close>

definition inside :: "key_range list \<Rightarrow> nat list \<Rightarrow> bool" where
  "inside intervals key \<longleftrightarrow> (\<exists>r \<in> set intervals. range_contains r key)"

lemma less_extend: "\<not> prefix k e \<Longrightarrow> k @ l < e \<longleftrightarrow> k < (e :: nat list)"
proof (induction k e rule: list_induct2')
  case (4 x xs y ys)
  then show ?case by auto
qed auto

lemma range_extend: "\<not> prefix k (fst r) \<Longrightarrow> \<not> prefix k (snd r) \<Longrightarrow> range_contains r (k @ l) \<longleftrightarrow> range_contains r k"
  using less_extend [of k "fst r" l] less_extend [of k "snd r" l] by (simp add: range_contains_def flip: not_less)

lemma decision_retain: "retain_decision_loop k rs b = RetainAll \<Longrightarrow> inside rs (k @ l)"
proof (induction k rs b rule: retain_decision_loop.induct)
  case (2 k r rs b)
  then show ?case using range_extend [of k r l] by (auto simp: inside_def range_contains_def split: if_splits)
qed (simp split: if_splits)

lemma decision_discard: "retain_decision_loop k rs b = DiscardAll \<Longrightarrow> \<not> inside rs (k @ l) \<and> \<not> b"
proof (induction k rs b rule: retain_decision_loop.induct)
  case (2 k r rs b)
  then show ?case using range_extend [of k r l] by (auto simp: inside_def range_contains_def split: if_splits)
qed (simp add: inside_def split: if_splits)

section \<open>The recursion keeps the keys inside the ranges\<close>

lemma ns_collect_eq: "slice_ok s \<Longrightarrow> ns_collect s i = Some (drop i (nibbles s))"
proof (induction s i rule: ns_collect.induct)
  case (1 s i)
  show ?case
  proof (cases "i < length (nibbles s)")
    case True
    then have "ns_next s i = Some (Some (nibbles s ! i), Suc i)" using 1(2) by (simp add: ns_next_def ns_len_eq ns_at_eq)
    moreover from 1(1) [OF this refl refl] 1(2) have "ns_collect s (Suc i) = Some (drop (Suc i) (nibbles s))" by simp
    ultimately show ?thesis using True by (simp add: ns_collect.simps [of s i] Cons_nth_drop_Suc)
  next
    case False
    then have "ns_next s i = Some (None, Suc i)" using 1(2) by (simp add: ns_next_def ns_len_eq)
    then show ?thesis using False by (simp add: ns_collect.simps [of s i])
  qed
qed

text \<open>A node comes to carry a trie.\<close>

definition retain_ok :: "disk_trie \<Rightarrow> trie_storage_update \<Rightarrow> nat \<Rightarrow> value_handle trie \<Rightarrow> nat set \<Rightarrow> trie_storage_update outcome \<Rightarrow> bool" where
  "retain_ok trie u i t F r \<longleftrightarrow> (\<exists>u' F'. r = Some (Inr u') \<and> repr trie (tu_nodes u') (Updated i) t F' \<and>
     evolves F (tu_nodes u) F' (tu_nodes u') \<and> tu_values u' = tu_values u \<and> state_ok trie u')"

lemma retain_okI:
  "r = Some (Inr u') \<Longrightarrow> repr trie (tu_nodes u') (Updated i) t F' \<Longrightarrow> evolves F (tu_nodes u) F' (tu_nodes u') \<Longrightarrow>
   tu_values u' = tu_values u \<Longrightarrow> state_ok trie u' \<Longrightarrow> retain_ok trie u i t F r"
  unfolding retain_ok_def by blast

lemma retain_squashed:
  assumes "squash_ok trie u1 i t F1" and "state_ok trie u1" and "evolves F (tu_nodes u) F1 (tu_nodes u1)" and "tu_values u1 = tu_values u"
  shows "retain_ok trie u i t F (squash_node trie u1 i)"
proof -
  obtain u' F' where u': "squash_node trie u1 i = Some (Inr u')" "repr trie (tu_nodes u') (Updated i) t F'" "evolves F1 (tu_nodes u1) F' (tu_nodes u')"
    "tu_values u' = tu_values u1" using assms(1) unfolding squash_ok_def by blast
  show ?thesis by (rule retain_okI [OF u'(1,2) evolves_trans [OF assms(3) u'(3)]]) (use u' assms state_squash in auto)
qed

text \<open>Descending into a child: it is moved to the updated nodes when it is not there yet.\<close>

lemma descend_ok:
  assumes r: "repr trie (tu_nodes u) p t G" and ok: "state_ok trie u" "ptr_ok trie p"
    and IH: "\<And>u c F. repr trie (tu_nodes u) (Updated c) t F \<Longrightarrow> state_ok trie u \<Longrightarrow> retain_ok trie u c t' F (f u c)"
  obtains c u1 u2 G' n where "ensure_updated trie u p = Inr (c, u1)" "f u1 c = Some (Inr u2)" "repr trie (tu_nodes u2) (Updated c) t' G'"
    "evolves G (tu_nodes u) G' (tu_nodes u2)" "tu_values u2 = tu_values u" "state_ok trie u2"
    "get_node_ref u2 c = Some n" "un_memory_usage n = mem t'" "un_node n = Empty \<longleftrightarrow> t' = TEmpty"
proof -
  obtain c u1 G1 where c: "ensure_updated trie u p = Inr (c, u1)" "appends u u1" "repr trie (tu_nodes u1) (Updated c) t G1"
    "G1 \<subseteq> G \<union> {length (tu_nodes u)..}" by (rule ensure_updated_ok [OF r])
  have "state_ok trie u1" by (rule state_ensure [OF c(1) ok])
  with IH [OF c(3)] obtain u2 G' where u2: "f u1 c = Some (Inr u2)" "repr trie (tu_nodes u2) (Updated c) t' G'"
    "evolves G1 (tu_nodes u1) G' (tu_nodes u2)" "tu_values u2 = tu_values u1" "state_ok trie u2" unfolding retain_ok_def by blast
  have ev: "evolves G (tu_nodes u) G' (tu_nodes u2)" by (rule evolves_trans [OF appends_evolves [OF c(2,4)] u2(3)])
  from u2(2) have "\<exists>n. get_node_ref u2 c = Some n \<and> un_memory_usage n = mem t' \<and> (un_node n = Empty \<longleftrightarrow> t' = TEmpty)"
    by (cases rule: repr.cases) (auto simp: get_node_ref_ok empty_node_def)
  then obtain n where "get_node_ref u2 c = Some n" "un_memory_usage n = mem t'" "un_node n = Empty \<longleftrightarrow> t' = TEmpty" by blast
  then show thesis using that c(1) u2 ev c(2) by (simp add: appends_def)
qed

text \<open>The body of the loop over the children, for any recursive call.\<close>

definition retain_child ::
  "disk_trie \<Rightarrow> (trie_storage_update \<Rightarrow> updated_node_id \<Rightarrow> nat \<Rightarrow> trie_storage_update outcome) \<Rightarrow> nat \<Rightarrow>
   node_ptr option list \<times> nat \<times> trie_storage_update \<Rightarrow> (node_ptr option list \<times> nat \<times> trie_storage_update) outcome" where
  "retain_child trie f i s =
     (case s of (children, memory_usage, u) \<Rightarrow>
        case children ! i of
          None \<Rightarrow> Some (Inr (children, memory_usage, u))
        | Some old_child_id \<Rightarrow>
            rtry (Some (ensure_updated trie u old_child_id)) (\<lambda>(new_child_id, u).
            rtry (f u new_child_id i) (\<lambda>u.
            do {
              n \<leftarrow> get_node_ref u new_child_id;
              if un_node n = Empty then Some (Inr (children[i := None], memory_usage, u))
              else do {
                memory_usage \<leftarrow> checked_add u64_w memory_usage (un_memory_usage n);
                Some (Inr (children[i := Some (Updated new_child_id)], memory_usage, u))
              }
            })))"

lemma kids_strengthen_none:
  assumes "kids trie nodes i cs ts Fs (- {n})" and "cs ! n = None" and "ts ! n = TEmpty" and "Fs n = {}"
  shows "kids trie nodes i cs ts Fs UNIV"
proof -
  have "case cs ! j of None \<Rightarrow> ts ! j = TEmpty \<and> Fs j = {} | Some p \<Rightarrow> ts ! j \<noteq> TEmpty \<and> repr trie nodes p (ts ! j) (Fs j)" if "j < 16" for j
    using assms that unfolding kids_def by (cases "j = n") auto
  then show ?thesis using assms(1) by (simp add: kids_def)
qed

definition kids_ok :: "disk_trie \<Rightarrow> trie_storage_update \<Rightarrow> nat \<Rightarrow> node_ptr option list \<Rightarrow> value_handle trie list \<Rightarrow> (nat \<Rightarrow> nat set) \<Rightarrow> bool" where
  "kids_ok trie u i cs ts Fs \<longleftrightarrow> kids trie (tu_nodes u) i cs ts Fs UNIV \<and> i < length (tu_nodes u) \<and> state_ok trie u \<and>
     (\<forall>p. Some p \<in> set cs \<longrightarrow> ptr_ok trie p)"

lemma retain_child_ok:
  assumes k: "kids_ok trie u i cs ts Fs" and n: "n < 16"
    and IH: "\<And>u c F. repr trie (tu_nodes u) (Updated c) (ts ! n) F \<Longrightarrow> state_ok trie u \<Longrightarrow> retain_ok trie u c t' F (f u c n)"
    and e: "ts ! n = TEmpty \<Longrightarrow> t' = TEmpty" and fit: "m + mem t' < 2 ^ 64"
  shows "\<exists>cs' u' Fs'. retain_child trie f n (cs, m, u) = Some (Inr (cs', m + mem t', u')) \<and> kids_ok trie u' i cs' (ts[n := t']) Fs' \<and>
    evolves (branch_foot i Fs) (tu_nodes u) (branch_foot i Fs') (tu_nodes u') \<and> tu_values u' = tu_values u"
proof -
  note k' = k [unfolded kids_ok_def]
  have len: "length cs = 16" "length ts = 16" using k' by (simp_all add: kids_def)
  show ?thesis
  proof (cases "cs ! n")
    case None
    then have "ts ! n = TEmpty" using kids_child(1) [of trie "tu_nodes u" i cs ts Fs UNIV n] k' n by simp
    then show ?thesis using None k e len n list_update_id [of ts n] by (intro exI [of _ cs] exI [of _ u] exI [of _ Fs]) (simp add: retain_child_def)
  next
    case (Some p)
    have r: "repr trie (tu_nodes u) p (ts ! n) (Fs n)" using kids_child(2) [of trie "tu_nodes u" i cs ts Fs UNIV n p] k' n Some by simp
    have "Some p \<in> set cs" using Some n len by (metis nth_mem)
    then obtain c u1 u2 G' nd where c: "ensure_updated trie u p = Inr (c, u1)" "f u1 c n = Some (Inr u2)" "repr trie (tu_nodes u2) (Updated c) t' G'"
      "evolves (Fs n) (tu_nodes u) G' (tu_nodes u2)" "tu_values u2 = tu_values u" "state_ok trie u2"
      "get_node_ref u2 c = Some nd" "un_memory_usage nd = mem t'" "un_node nd = Empty \<longleftrightarrow> t' = TEmpty"
      using descend_ok [OF r _ _ IH] k' by metis
    define cs' where "cs' = cs[n := (if t' = TEmpty then None else Some (Updated c))]"
    define F' where "F' = (if t' = TEmpty then {} else G')"
    have run: "retain_child trie f n (cs, m, u) = Some (Inr (cs', m + mem t', u2))"
      using Some c fit by (simp add: retain_child_def cs'_def checked_add_def)
    have i: "i \<notin> G'" using c(4) k' n by (auto simp: evolves_def kids_def)
    have ev: "evolves (insert i (Fs n)) (tu_nodes u) (insert i F') (tu_nodes u2)" using evolves_insert [OF c(4), of i] by (auto simp: evolves_def F'_def)
    have w: "kids trie (tu_nodes u2) i cs' (ts[n := t']) (Fs(n := F')) (- {n})"
      by (rule kids_evolve [OF kids_weaken [OF conjunct1 [OF k'] subset_UNIV] n ev]) (use len i in \<open>auto simp: cs'_def F'_def\<close>)
    have "kids trie (tu_nodes u2) i cs' (ts[n := t']) (Fs(n := F')) UNIV"
    proof (cases "t' = TEmpty")
      case True
      then show ?thesis using n len by (intro kids_strengthen_none [OF w]) (simp_all add: cs'_def F'_def)
    next
      case False
      then show ?thesis using n len c(3) by (intro kids_strengthen [OF w, where p = "Updated c"]) (simp_all add: cs'_def F'_def)
    qed
    moreover have "\<forall>p. Some p \<in> set cs' \<longrightarrow> ptr_ok trie p"
      using k' set_update_subset_insert [of cs n "if t' = TEmpty then None else Some (Updated c)"] by (auto simp: cs'_def split: if_splits)
    moreover have "i < length (tu_nodes u2)" using k' c(4) by (auto simp: evolves_def)
    ultimately have "kids_ok trie u2 i cs' (ts[n := t']) (Fs(n := F'))" using c(6) by (simp add: kids_ok_def)
    then show ?thesis using run evolves_branch [of i Fs n "tu_nodes u" F' "tu_nodes u2", OF ev n] c(5) by blast
  qed
qed

lemma retain_children_ok:
  assumes k: "kids_ok trie u i cs ts Fs" and len: "length us = 16" and n: "n \<le> 16"
    and IH: "\<And>j u c F. j < 16 \<Longrightarrow> repr trie (tu_nodes u) (Updated c) (ts ! j) F \<Longrightarrow> state_ok trie u \<Longrightarrow> retain_ok trie u c (us ! j) F (f u c j)"
    and e: "\<And>j. j < 16 \<Longrightarrow> ts ! j = TEmpty \<Longrightarrow> us ! j = TEmpty" and fit: "sum_list (map mem us) < 2 ^ 64"
  shows "\<exists>cs' u' Fs'. fold_try (retain_child trie f) [0..<n] (cs, 0, u) = Some (Inr (cs', sum_list (map mem (take n us)), u')) \<and>
    kids_ok trie u' i cs' (take n us @ drop n ts) Fs' \<and>
    evolves (branch_foot i Fs) (tu_nodes u) (branch_foot i Fs') (tu_nodes u') \<and> tu_values u' = tu_values u"
  using n
proof (induction n)
  case 0
  then show ?case using k by (intro exI [of _ cs] exI [of _ u] exI [of _ Fs]) simp
next
  case (Suc n)
  then obtain cs' u' Fs' where IHn: "fold_try (retain_child trie f) [0..<n] (cs, 0, u) = Some (Inr (cs', sum_list (map mem (take n us)), u'))"
    "kids_ok trie u' i cs' (take n us @ drop n ts) Fs'" "evolves (branch_foot i Fs) (tu_nodes u) (branch_foot i Fs') (tu_nodes u')" "tu_values u' = tu_values u"
    by auto
  let ?ts = "take n us @ drop n ts"
  have lt: "length ts = 16" using k by (simp add: kids_ok_def kids_def)
  have at: "?ts ! n = ts ! n" using Suc.prems len lt by (simp add: nth_append)
  have upd: "?ts[n := us ! n] = take (Suc n) us @ drop (Suc n) ts"
    using Suc.prems len lt by (simp add: take_Suc_conv_app_nth list_update_append drop_update_swap Cons_nth_drop_Suc [symmetric])
  have sum: "sum_list (map mem (take (Suc n) us)) = sum_list (map mem (take n us)) + mem (us ! n)"
    using Suc.prems len by (simp add: take_Suc_conv_app_nth)
  have "sum_list (map mem us) = sum_list (map mem (take (Suc n) us)) + sum_list (map mem (drop (Suc n) us))"
    by (metis append_take_drop_id map_append sum_list.append)
  then have "sum_list (map mem (take n us)) + mem (us ! n) < 2 ^ 64" using fit sum by linarith
  note fit' = this
  have n: "n < 16" using Suc.prems by simp
  have "\<exists>cs2 u2 Fs2. retain_child trie f n (cs', sum_list (map mem (take n us)), u') = Some (Inr (cs2, sum_list (map mem (take n us)) + mem (us ! n), u2)) \<and>
      kids_ok trie u2 i cs2 (?ts[n := us ! n]) Fs2 \<and> evolves (branch_foot i Fs') (tu_nodes u') (branch_foot i Fs2) (tu_nodes u2) \<and> tu_values u2 = tu_values u'"
    by (rule retain_child_ok [OF IHn(2) n _ _ fit']) (use IH [OF n] e [OF n] in \<open>simp_all only: at\<close>)
  then obtain cs2 u2 Fs2 where s: "retain_child trie f n (cs', sum_list (map mem (take n us)), u') = Some (Inr (cs2, sum_list (map mem (take (Suc n) us)), u2))"
    "kids_ok trie u2 i cs2 (take (Suc n) us @ drop (Suc n) ts) Fs2" "evolves (branch_foot i Fs') (tu_nodes u') (branch_foot i Fs2) (tu_nodes u2)" "tu_values u2 = tu_values u'"
    unfolding sum upd by blast
  have "fold_try (retain_child trie f) [0..<Suc n] (cs, 0, u) = Some (Inr (cs2, sum_list (map mem (take (Suc n) us)), u2))"
    using IHn(1) s(1) by (simp add: fold_try_append)
  then show ?case using s evolves_trans [OF IHn(3) s(3)] IHn(4) by auto
qed

lemma retain_unfold:
  "retain_multi_range_recursive trie rs u i key =
     (case retain_decision_for key rs of
        RetainAll \<Rightarrow> Some (Inr u)
      | DiscardAll \<Rightarrow> do { (_, u) \<leftarrow> take_node u i; u \<leftarrow> place_node_at u i empty_node; Some (Inr u) }
      | Descend \<Rightarrow>
          do {
            (taken, u) \<leftarrow> take_node u i;
            case un_node taken of
              Empty \<Rightarrow> do { u \<leftarrow> place_node_at u i empty_node; Some (Inr u) }
            | Leaf extension value \<Rightarrow>
                do {
                  (s, _) \<leftarrow> ns_from_encoded extension;
                  nibs \<leftarrow> ns_collect s 0;
                  u \<leftarrow> (if \<not> inside rs (key @ nibs) then place_node_at u i empty_node
                       else place_node_at u i (with_size (Leaf extension value) (un_memory_usage taken)));
                  Some (Inr u)
                }
            | Branch children value \<Rightarrow>
                rtry (fold_try (retain_child trie (\<lambda>u c j. retain_multi_range_recursive trie rs u c (key @ [cast u8_w j])))
                  [0..<length children] (children, 0, u))
                  (\<lambda>(children, memory_usage, u).
                     do {
                       let node = Branch children (if inside rs key then value else None);
                       memory_usage \<leftarrow> checked_add u64_w memory_usage (node_usage node);
                       u \<leftarrow> place_node_at u i (with_size node memory_usage);
                       squash_node trie u i
                     })
            | Extension extension child \<Rightarrow>
                rtry (Some (ensure_updated trie u child)) (\<lambda>(c, u).
                do {
                  (s, _) \<leftarrow> ns_from_encoded extension;
                  nibs \<leftarrow> ns_collect s 0;
                  rtry (retain_multi_range_recursive trie rs u c (key @ nibs)) (\<lambda>u.
                  do {
                    n \<leftarrow> get_node_ref u c;
                    memory_usage \<leftarrow> checked_add u64_w (node_usage (Extension extension (Updated c))) (un_memory_usage n);
                    u \<leftarrow> place_node_at u i (with_size (Extension extension (Updated c)) memory_usage);
                    squash_node trie u i
                  })
                })
          })"
  unfolding retain_multi_range_recursive.simps [of trie rs u i key] retain_child_def [abs_def] inside_def Let_def by (rule refl)

text \<open>The outcome of a recursive call, by the shape of the node.\<close>

abbreviation retain_goal :: "disk_trie \<Rightarrow> key_range list \<Rightarrow> trie_storage_update \<Rightarrow> nat \<Rightarrow> nat list \<Rightarrow> value_handle trie \<Rightarrow> nat set \<Rightarrow> bool" where
  "retain_goal trie rs u i key t F \<equiv> retain_ok trie u i (t_retain (inside rs) key t) F (retain_multi_range_recursive trie rs u i key)"

lemma retain_decided:
  assumes r: "repr trie (tu_nodes u) (Updated i) t F" and ok: "state_ok trie u" and c: "canonical t" and d: "retain_decision_for key rs \<noteq> Descend"
  shows "retain_goal trie rs u i key t F"
proof (cases "retain_decision_for key rs")
  case RetainAll
  then have "t_retain (inside rs) key t = t" using c decision_retain by (intro t_retain_all) (auto simp: retain_decision_for_def)
  then show ?thesis using RetainAll r ok by (intro retain_okI [where u' = u]) (auto simp: retain_unfold)
next
  case DiscardAll
  then have t: "t_retain (inside rs) key t = TEmpty" using c decision_discard by (intro t_retain_none) (auto simp: retain_decision_for_def)
  obtain n where n: "at_node (tu_nodes u) i n" using repr_mem [OF r] by blast
  let ?u = "u\<lparr>tu_nodes := (tu_nodes u)[i := Some empty_node]\<rparr>"
  have i: "i < length (tu_nodes u)" "i \<in> F" using repr_in [OF r] by simp_all
  have "state_ok trie ?u" using state_place_at [OF place_node_at_ok [OF i(1)] ok] by (simp add: empty_node_def)
  then show ?thesis using DiscardAll i t
    by (intro retain_okI [where u' = ?u and F' = "{i}"])
      (auto simp: retain_unfold take_node_ok [OF n] place_node_at_ok evolves_def intro!: repr_empty nth_list_update_neq)
qed (use d in simp)

lemma retain_empty:
  assumes at: "at_node (tu_nodes u) i empty_node" and ok: "state_ok trie u" and d: "retain_decision_for key rs = Descend"
  shows "retain_goal trie rs u i key TEmpty {i}"
proof -
  have i: "i < length (tu_nodes u)" using at by (simp add: at_node_def)
  let ?u = "u\<lparr>tu_nodes := (tu_nodes u)[i := Some empty_node]\<rparr>"
  have "state_ok trie ?u" using state_place_at [OF place_node_at_ok [OF i] ok] by (simp add: empty_node_def)
  moreover have "un_node empty_node = Empty" by (simp add: empty_node_def)
  ultimately show ?thesis using d i
    by (intro retain_okI [where u' = ?u and F' = "{i}"])
      (auto simp: retain_unfold take_node_ok [OF at] place_node_at_ok evolves_def intro!: repr_empty)
qed

lemma retain_leaf:
  assumes at: "at_node (tu_nodes u) i (with_size (Leaf (hex_prefix e True) v) (mem (TLeaf e v)))" and e: "nibbles_ok e"
    and ok: "state_ok trie u" and d: "retain_decision_for key rs = Descend"
  shows "retain_goal trie rs u i key (TLeaf e v) {i}"
proof -
  have i: "i < length (tu_nodes u)" using at by (simp add: at_node_def)
  obtain s where s: "ns_from_encoded (hex_prefix e True) = Some (s, True)" "slice_ok s" "nibbles s = e" using from_encoded_hex [OF e] by blast
  let ?n = "if inside rs (key @ e) then with_size (Leaf (hex_prefix e True) v) (mem (TLeaf e v)) else empty_node"
  let ?u = "u\<lparr>tu_nodes := (tu_nodes u)[i := Some ?n]\<rparr>"
  have "node_ok trie (un_node ?n)" using state_take [OF take_node_ok [OF at] ok] by (simp add: empty_node_def)
  then have "state_ok trie ?u" by (rule state_place_at [OF place_node_at_ok [OF i] ok])
  moreover have "retain_multi_range_recursive trie rs u i key = Some (Inr ?u)" using d i s
    by (simp add: retain_unfold take_node_ok [OF at] place_node_at_ok ns_collect_eq del: t_mem.simps)
  moreover have "repr trie (tu_nodes ?u) (Updated i) (t_retain (inside rs) key (TLeaf e v)) {i}"
    using i e by (auto intro!: repr_empty repr_leaf simp del: t_mem.simps)
  moreover have "evolves {i} (tu_nodes u) {i} (tu_nodes ?u)" by (auto simp: evolves_def)
  ultimately show ?thesis by (intro retain_okI) simp_all
qed

lemma retain_ext:
  assumes at: "at_node (tu_nodes u) i (with_size (Extension (hex_prefix e False) p) (mem (TExt e t)))" and e: "nibbles_ok e" "e \<noteq> []"
    and r: "repr trie (tu_nodes u) p t G" "i \<notin> G" and ok: "state_ok trie u" and c: "canonical t" and d: "retain_decision_for key rs = Descend"
    and fit: "mem (TExt e t) + 2 < 2 ^ 64"
    and IH: "\<And>u c F. repr trie (tu_nodes u) (Updated c) t F \<Longrightarrow> state_ok trie u \<Longrightarrow> retain_goal trie rs u c (key @ e) t F"
  shows "retain_goal trie rs u i key (TExt e t) (insert i G)"
proof -
  let ?u1 = "u\<lparr>tu_nodes := (tu_nodes u)[i := None]\<rparr>" let ?t = "t_retain (inside rs) (key @ e) t"
  have i: "i < length (tu_nodes u)" using at by (simp add: at_node_def)
  obtain s where s: "ns_from_encoded (hex_prefix e False) = Some (s, False)" "slice_ok s" "nibbles s = e" using from_encoded_hex [OF e(1)] by blast
  have ok1: "state_ok trie ?u1" "ptr_ok trie p" using state_take [OF take_node_ok [OF at] ok] by simp_all
  obtain c u2 u3 G' n where c': "ensure_updated trie ?u1 p = Inr (c, u2)" "retain_multi_range_recursive trie rs u2 c (key @ e) = Some (Inr u3)"
    "repr trie (tu_nodes u3) (Updated c) ?t G'" "evolves G (tu_nodes ?u1) G' (tu_nodes u3)" "tu_values u3 = tu_values ?u1" "state_ok trie u3"
    "get_node_ref u3 c = Some n" "un_memory_usage n = mem ?t"
    using descend_ok [OF repr_taken [OF r] ok1, where f = "\<lambda>u c. retain_multi_range_recursive trie rs u c (key @ e)"] IH by metis
  have fit': "mem (TExt e ?t) < 2 ^ 64" using t_retain_mem [OF c, of value_len "inside rs" "key @ e"] fit by simp
  let ?n = "with_size (Extension (hex_prefix e False) (Updated c)) (mem (TExt e ?t))"
  let ?u4 = "u3\<lparr>tu_nodes := (tu_nodes u3)[i := Some ?n]\<rparr>"
  have i3: "i < length (tu_nodes u3)" "i \<notin> G'" using c'(4) i r(2) by (auto simp: evolves_def)
  have run: "retain_multi_range_recursive trie rs u i key = squash_node trie ?u4 i"
    using d s c'(1,2,7,8) i3 fit' by (simp add: retain_unfold [of trie rs u i] take_node_ok [OF at] place_node_at_ok ns_collect_eq checked_add_def)
  have "squash_ok trie ?u4 i (t_extend e ?t) (insert i G')"
    by (rule squash_node_ext [where p = "Updated c" and m = "mem (TExt e ?t)"]) (use i3 e fit' repr_placed [OF c'(3) i3(2)] in auto)
  moreover have "state_ok trie ?u4" using state_place_at [OF place_node_at_ok [OF i3(1)] c'(6), of ?n] by simp
  moreover have "evolves (insert i G) (tu_nodes u) (insert i G') (tu_nodes ?u4)"
    using c'(4) by (auto simp: evolves_def nth_list_update)
  ultimately show ?thesis unfolding run t_retain.simps using c'(5) by (intro retain_squashed) auto
qed

lemma retain_branch:
  assumes at: "at_node (tu_nodes u) i (with_size (Branch cs w) (mem (TBranch ts w)))" and k: "kids trie (tu_nodes u) i cs ts Fs UNIV"
    and ok: "state_ok trie u" and c: "canonical (TBranch ts w)" and d: "retain_decision_for key rs = Descend" and fit: "mem (TBranch ts w) + 2 < 2 ^ 64"
    and IH: "\<And>j u c F. j < 16 \<Longrightarrow> repr trie (tu_nodes u) (Updated c) (ts ! j) F \<Longrightarrow> state_ok trie u \<Longrightarrow> retain_goal trie rs u c (key @ [j]) (ts ! j) F"
  shows "retain_goal trie rs u i key (TBranch ts w) (branch_foot i Fs)"
proof -
  let ?u1 = "u\<lparr>tu_nodes := (tu_nodes u)[i := None]\<rparr>"
  let ?us = "map (\<lambda>j. t_retain (inside rs) (key @ [j]) (ts ! j)) [0..<length ts]" let ?w = "if inside rs key then w else None"
  let ?f = "\<lambda>u c j. retain_multi_range_recursive trie rs u c (key @ [cast u8_w j])"
  have i: "i < length (tu_nodes u)" using at by (simp add: at_node_def)
  have len: "length ts = 16" "length cs = 16" using k by (simp_all add: kids_def)
  have ok1: "state_ok trie ?u1" "node_ok trie (Branch cs w)" using state_take [OF take_node_ok [OF at] ok] by simp_all
  have k1: "kids_ok trie ?u1 i cs ts Fs" using kids_placed [OF k] ok1 i by (simp add: kids_ok_def)
  have mem: "mem (TBranch ?us ?w) \<le> mem (TBranch ts w)" by (rule branch_mem_mono) (use c len in \<open>auto intro!: t_retain_mem\<close>)
  then have sum: "sum_list (map mem ?us) < 2 ^ 64" using fit by (simp del: map_map)
  have "retain_ok trie u c (?us ! j) F (?f u c j)" if "j < 16" "repr trie (tu_nodes u) (Updated c) (ts ! j) F" "state_ok trie u" for j u c F
    using IH [OF that] that(1) len by (simp add: cast_def)
  with retain_children_ok [OF k1 _ _ _ _ sum, of 16 ?f] len obtain cs' u2 Fs' where
    l: "fold_try (retain_child trie ?f) [0..<16] (cs, 0, ?u1) = Some (Inr (cs', sum_list (map mem ?us), u2))"
    "kids_ok trie u2 i cs' ?us Fs'" "evolves (branch_foot i Fs) (tu_nodes ?u1) (branch_foot i Fs') (tu_nodes u2)" "tu_values u2 = tu_values ?u1"
    by (auto simp del: map_map)
  let ?n = "with_size (Branch cs' ?w) (mem (TBranch ?us ?w))"
  let ?u3 = "u2\<lparr>tu_nodes := (tu_nodes u2)[i := Some ?n]\<rparr>"
  note l2 = l(2) [unfolded kids_ok_def]
  have usage: "checked_add u64_w (sum_list (map mem ?us)) (node_usage (Branch cs' ?w)) = Some (mem (TBranch ?us ?w))"
    using mem fit by (simp add: checked_add_def add.commute del: map_map)
  have run: "retain_multi_range_recursive trie rs u i key = squash_node trie ?u3 i"
    using d l(1) len l2 usage by (simp add: retain_unfold [of trie rs u i] take_node_ok [OF at] place_node_at_ok del: map_map t_mem.simps node_usage_simps)
  have "squash_ok trie ?u3 i (t_squash (TBranch ?us ?w)) (branch_foot i Fs')"
  proof (rule squash_node_branch [where cs = cs'])
    show "loose_kids trie (tu_nodes ?u3) i cs' ?us Fs'" using loose_kids_placed [OF kids_loose] l2 by simp
    show "mem (TBranch ?us ?w) + 2 < 2 ^ 64" using mem fit by linarith
  qed (use l2 in \<open>simp del: t_mem.simps\<close>)
  moreover have "state_ok trie ?u3" using state_place_at [OF place_node_at_ok, of i u2 trie ?n] l2 ok1(2) by simp
  moreover have "evolves (branch_foot i Fs) (tu_nodes u) (branch_foot i Fs') (tu_nodes ?u3)"
    using l(3) by (auto simp: evolves_def nth_list_update)
  ultimately show ?thesis unfolding run t_retain.simps using l(4) by (intro retain_squashed) auto
qed

lemma retain_recursive_ok:
  assumes "repr trie (tu_nodes u) (Updated i) t F" and "state_ok trie u" and "canonical t" and "mem t + 2 < 2 ^ 64"
  shows "retain_goal trie rs u i key t F"
  using assms
proof (induction t arbitrary: u i key F)
  case TEmpty
  then show ?case using retain_decided [OF TEmpty(1-3)] retain_empty by (cases "retain_decision_for key rs = Descend") (auto elim!: repr_UpdatedE)
next
  case (TLeaf e v)
  show ?case
  proof (cases "retain_decision_for key rs = Descend")
    case True
    from TLeaf(1) show ?thesis using retain_leaf [OF _ _ TLeaf(2) True] by (cases rule: repr.cases) auto
  qed (use retain_decided [OF TLeaf(1-3)] in simp)
next
  case (TExt e t)
  show ?case
  proof (cases "retain_decision_for key rs = Descend")
    case True
    have c: "canonical t" "mem t + 2 < 2 ^ 64" using TExt.prems(3,4) by auto
    have IH: "retain_goal trie rs u c (key @ e) t F" if "repr trie (tu_nodes u) (Updated c) t F" "state_ok trie u" for u c F
      by (rule TExt.IH [OF that c])
    from TExt.prems(1) show ?thesis
    proof (cases rule: repr.cases)
      case (repr_ext p G)
      then show ?thesis using retain_ext [OF repr_ext(2,3,4,5) _ TExt.prems(2) c(1) True TExt.prems(4) IH] by simp
    qed
  qed (use retain_decided [OF TExt.prems(1-3)] in simp)
next
  case (TBranch ts w)
  show ?case
  proof (cases "retain_decision_for key rs = Descend")
    case True
    have len: "length ts = 16" using TBranch.prems(3) by simp
    have IH: "retain_goal trie rs u c (key @ [j]) (ts ! j) F" if "j < 16" "repr trie (tu_nodes u) (Updated c) (ts ! j) F" "state_ok trie u" for j u c F
    proof (rule TBranch.IH [OF _ that(2,3)])
      show "ts ! j \<in> set ts" "canonical (ts ! j)" using that(1) len TBranch.prems(3) by simp_all
      show "mem (ts ! j) + 2 < 2 ^ 64" using branch_mem_child [OF TBranch.prems(3) that(1), of value_len] TBranch.prems(4) by linarith
    qed
    from TBranch.prems(1) [unfolded repr_branch_kids] obtain cs Fs where b: "at_node (tu_nodes u) i (with_size (Branch cs w) (mem (TBranch ts w)))"
      "kids trie (tu_nodes u) i cs ts Fs UNIV" "F = branch_foot i Fs" by blast
    show ?thesis unfolding b(3) by (rule retain_branch [OF b(1,2) TBranch.prems(2,3) True TBranch.prems(4) IH])
  qed (use retain_decided [OF TBranch.prems(1-3)] in simp)
qed

section \<open>The ranges of a child shard\<close>

lemma at_trie_retain:
  assumes at: "at_trie sha trie u T" and fit: "t_mem vr_length T + 2 < 2 ^ 64"
  shows "\<exists>u'. retain_multi_range_recursive trie rs u 0 [] = Some (Inr u') \<and> at_trie sha trie u' (t_retain (inside rs) [] T) \<and> tu_values u' = tu_values u"
proof -
  obtain t F where t: "repr trie (tu_nodes u) (Updated 0) t F" "canonical t" "\<forall>h \<in> set_trie t. handle_ok (tu_values u) h \<and> ref_ok trie h"
    and T: "T = t_refs sha (tu_values u) t" and ok: "state_ok trie u" using at by (auto simp: at_trie_def)
  have "mem t = t_mem vr_length T" unfolding T using t_refs_mem [of t "tu_values u" sha] t(3) by simp
  with fit have "mem t + 2 < 2 ^ 64" by simp
  from retain_recursive_ok [OF t(1) ok t(2) this, of rs "[]"] obtain u' F' where u': "retain_multi_range_recursive trie rs u 0 [] = Some (Inr u')"
    "repr trie (tu_nodes u') (Updated 0) (t_retain (inside rs) [] t) F'" "tu_values u' = tu_values u" "state_ok trie u'" by (auto simp: retain_ok_def)
  have "\<forall>h \<in> set_trie (t_retain (inside rs) [] t). handle_ok (tu_values u') h \<and> ref_ok trie h" using set_retain [OF t(2)] t(3) by (auto simp: u'(3))
  moreover have "t_refs sha (tu_values u') (t_retain (inside rs) [] t) = t_retain (inside rs) [] T" by (simp add: map_retain [OF t(2)] T u'(3))
  ultimately show ?thesis using u' t_retain_canonical [OF t(2), of "inside rs" "[]"] unfolding at_trie_def by metis
qed

text \<open>Which keys a child keeps, by the account that a key belongs to.\<close>

fun buffered :: "trie_key \<Rightarrow> bool" where
  "buffered BufferedReceiptIndices \<longleftrightarrow> True"
| "buffered (BufferedReceipt _ _) \<longleftrightarrow> True"
| "buffered (BufferedReceiptGroupsQueueData _) \<longleftrightarrow> True"
| "buffered (BufferedReceiptGroupsQueueItem _ _) \<longleftrightarrow> True"
| "buffered _ \<longleftrightarrow> False"

definition keeps :: "retain_mode \<Rightarrow> account_id \<Rightarrow> trie_key \<Rightarrow> bool" where
  "keeps mode b k \<longleftrightarrow>
     (case get_account_id k of
        Some a \<Rightarrow> (case mode of Retain_Left \<Rightarrow> a < b | Retain_Right \<Rightarrow> b \<le> a)
      | None \<Rightarrow> mode = Retain_Left \<or> \<not> buffered k)"

text \<open>The ranges, written out.\<close>

definition account_range :: "retain_mode \<Rightarrow> account_id \<Rightarrow> nat \<Rightarrow> key_range" where
  "account_range mode b c = (case mode of Retain_Left \<Rightarrow> ([c], c # account_bytes b) | Retain_Right \<Rightarrow> (c # account_bytes b, [c + 1]))"

definition column_range :: "nat \<Rightarrow> key_range" where
  "column_range c = ([c], [c + 1])"

definition split_ranges :: "retain_mode \<Rightarrow> account_id \<Rightarrow> key_range list" where
  "split_ranges mode b =
     map (account_range mode b) [0, 1, 2, 3, 4, 5, 6] @ [column_range 7, account_range mode b 9, column_range 10, column_range 11, account_range mode b 12] @
     (case mode of Retain_Left \<Rightarrow> [column_range 13, column_range 14] | Retain_Right \<Rightarrow> []) @ [column_range 15] @
     (case mode of Retain_Left \<Rightarrow> [column_range 16, column_range 17] | Retain_Right \<Rightarrow> []) @ [column_range 18, account_range mode b 19]"

lemma intervals_eq: "boundary_account_to_intervals b mode = Some (split_ranges mode b)"
  unfolding boundary_account_to_intervals_def all_columns_with_names_def split_ranges_def
  by (cases mode) (simp_all add: column_intervals_def columns_with_account_id_in_key_def get_interval_for_split_keys_def append_key_def checked_add_def
      get_interval_for_copy_to_both_children_def get_interval_for_copy_to_one_child_def account_range_def column_range_def)

lemma column_range_contains: "range_contains (column_range c) (x # rest) \<longleftrightarrow> x = c"
  by (auto simp: range_contains_def column_range_def)

lemma account_range_contains:
  "range_contains (account_range mode b c) (x # rest) \<longleftrightarrow>
     x = c \<and> (case mode of Retain_Left \<Rightarrow> rest < account_bytes b | Retain_Right \<Rightarrow> account_bytes b \<le> rest)"
  by (cases mode) (auto simp: range_contains_def account_range_def)

lemma account_less:
  "\<forall>x \<in> set (account_bytes b). 44 < x \<Longrightarrow> r = [] \<or> (\<exists>s r'. r = s # r' \<and> s \<le> 44) \<Longrightarrow> account_bytes a @ r < account_bytes b \<longleftrightarrow> a < b"
proof (induction a b rule: list_induct2')
  case (3 y ys)
  then show ?case by (auto simp: account_bytes_def)
next
  case (4 x xs y ys)
  have "of_char x < (of_char y :: nat) \<longleftrightarrow> x < y" by (simp add: less_char_def)
  then show ?case using 4 by (auto simp: account_bytes_def)
qed (auto simp: account_bytes_def)

lemma split_ranges_keep:
  assumes "libs_ok libs" and "account_ok libs b" and "key_ok libs k" and "to_vec libs k = Some raw"
  shows "inside (split_ranges mode b) raw \<longleftrightarrow> keeps mode b k"
proof -
  note contains = column_range_contains account_range_contains
  have raw: "raw = key_column k # (case get_account_id k of None \<Rightarrow> [] | Some a \<Rightarrow> account_bytes a) @ key_rest libs k"
    using assms(4) by (simp add: to_vec_eq split: if_splits)
  have b: "\<forall>x \<in> set (account_bytes b). 44 < x" using account_okD(2) [OF assms(1,2)] account_byte_range by blast
  show ?thesis
  proof (cases "get_account_id k")
    case None
    then show ?thesis by (cases k; cases mode) (simp_all add: raw inside_def split_ranges_def contains keeps_def)
  next
    case (Some a)
    have less: "account_bytes a @ key_rest libs k < account_bytes b \<longleftrightarrow> a < b" by (rule account_less [OF b rest_separator [OF Some]])
    then have "account_bytes b \<le> account_bytes a @ key_rest libs k \<longleftrightarrow> b \<le> a" by (simp flip: not_less)
    then show ?thesis using Some less by (cases k; cases mode) (simp_all add: raw inside_def split_ranges_def contains keeps_def)
  qed
qed

section \<open>The trie of a child shard\<close>

definition to_nibbles :: "key_range \<Rightarrow> key_range" where
  "to_nibbles r = (unpack (fst r), unpack (snd r))"

lemma unpack_less: "unpack a < unpack b \<longleftrightarrow> a < (b :: nat list)"
proof (induction a b rule: list_induct2')
  case (4 x xs y ys)
  have "x < y \<longleftrightarrow> x div 16 < y div 16 \<or> x div 16 = y div 16 \<and> x mod 16 < y mod 16"
  proof (cases "x div 16 = y div 16")
    case True
    then show ?thesis using div_mult_mod_eq [of x 16] div_mult_mod_eq [of y 16] by linarith
  next
    case False
    then show ?thesis using div_le_mono [of x y 16] div_le_mono [of y x 16] by linarith
  qed
  moreover have "x = y \<longleftrightarrow> x div 16 = y div 16 \<and> x mod 16 = y mod 16" by (metis div_mult_mod_eq)
  ultimately show ?case using 4 by auto
qed auto

lemma inside_nibbles: "inside (map to_nibbles rs) (unpack key) \<longleftrightarrow> inside rs key"
  by (auto simp: inside_def range_contains_def to_nibbles_def unpack_less simp flip: not_less)

lemma to_nibbles_ok:
  assumes "\<forall>r \<in> set rs. (\<forall>b \<in> set (fst r). b < 256) \<and> (\<forall>b \<in> set (snd r). b < 256)"
  shows "intervals_to_nibbles rs = Some (map to_nibbles rs)"
  unfolding intervals_to_nibbles_def
proof (rule those_map_nth)
  fix j assume "j < length rs"
  then have "\<forall>b \<in> set (fst (rs ! j)). b < 256" "\<forall>b \<in> set (snd (rs ! j)). b < 256" using assms nth_mem by blast+
  then show "do { s \<leftarrow> ns_collect (ns_new (fst (rs ! j))) 0; e \<leftarrow> ns_collect (ns_new (snd (rs ! j))) 0; Some (s, e) } = Some (map to_nibbles rs ! j)"
    using \<open>j < length rs\<close> key_slice by (simp add: ns_collect_eq to_nibbles_def)
qed simp

definition t_split :: "retain_mode \<Rightarrow> account_id \<Rightarrow> 'v trie \<Rightarrow> 'v trie" where
  "t_split mode b = t_retain (inside (map to_nibbles (split_ranges mode b))) []"

lemma split_ranges_bytes:
  assumes "\<forall>x \<in> set (account_bytes b). x < 256"
  shows "\<forall>r \<in> set (split_ranges mode b). (\<forall>b \<in> set (fst r). b < 256) \<and> (\<forall>b \<in> set (snd r). b < 256)"
  using assms by (cases mode) (simp_all add: split_ranges_def account_range_def column_range_def)

lemma split_returns:
  assumes h: "holds sha ser trie T" and fit: "t_mem vr_length T + 2 < 2 ^ 64" and b: "\<forall>x \<in> set (account_bytes b). x < 256"
  shows "\<exists>c bs m. retain_split_shard_with_trie_storage sha ser trie b mode = Some (Inr c) \<and> update_result sha ser trie [] (t_split mode b T) c bs m"
proof -
  obtain u0 where u0: "move_node_to_mutable trie trie_storage_update_new (dt_root trie) = Inr (0, u0)" "at_trie sha trie u0 T" "tu_values u0 = []"
    using holds_start [OF h] by blast
  obtain u where u: "retain_multi_range_recursive trie (map to_nibbles (split_ranges mode b)) u0 0 [] = Some (Inr u)" "at_trie sha trie u (t_split mode b T)"
    "tu_values u = tu_values u0" using at_trie_retain [OF u0(2) fit] unfolding t_split_def by blast
  have "content_addressed sha ser trie" using h by (simp add: holds_def)
  from flatten_returns [OF this u(2), of "[]"] u(3) u0(3) obtain c bs m where
    "flatten_nodes sha ser u (dt_root trie) 0 = Some c" "update_result sha ser trie [] (t_split mode b T) c bs m" by auto
  moreover have "retain_split_shard trie u0 b mode = Some u"
    by (simp add: retain_split_shard_def intervals_eq to_nibbles_ok [OF split_ranges_bytes [OF b]] u(1))
  ultimately show ?thesis by (auto simp: retain_split_shard_with_trie_storage_def u0(1))
qed

lemma split_lookup: "canonical T \<Longrightarrow> t_lookup (t_split mode b T) (unpack key) = (if inside (split_ranges mode b) key then t_lookup T (unpack key) else None)"
  by (simp add: t_split_def t_retain_lookup canonical_shape inside_nibbles)

lemma split_holds:
  assumes h: "holds sha ser trie T" and fit: "t_mem vr_length T + 2 < 2 ^ 64" and b: "\<forall>x \<in> set (account_bytes b). x < 256"
    and inj: "inj_on sha (update_data sha ser trie [] (t_split mode b T))"
    and codec: "\<forall>n \<in> t_nodes sha ser (t_split mode b T). dt_decode trie (ser n) = Some n \<and> sha (ser n) \<noteq> empty_root"
  obtains c where "retain_split_shard_with_trie_storage sha ser trie b mode = Some (Inr c)" "tc_new_root c = t_hash sha ser (t_split mode b T)"
    "holds sha ser (apply_insertions trie c) (t_split mode b T)"
    "\<And>h b. dt_storage trie h = Inr b \<Longrightarrow> dt_storage (apply_insertions trie c) h = Inr b"
    "\<And>key. \<forall>b \<in> set key. b < 256 \<Longrightarrow>
       trie_get (apply_insertions trie c) key = (if inside (split_ranges mode b) key then trie_get trie key else Some (Inr None))"
proof -
  have T: "canonical T" "canonical (t_split mode b T)" using h t_retain_canonical by (auto simp: holds_def t_split_def)
  obtain c bs m where c: "retain_split_shard_with_trie_storage sha ser trie b mode = Some (Inr c)" "update_result sha ser trie [] (t_split mode b T) c bs m"
    using split_returns [OF h fit b] by blast
  let ?trie = "apply_insertions trie c"
  have hold: "holds sha ser ?trie (t_split mode b T)" and keep: "\<And>h b. dt_storage trie h = Inr b \<Longrightarrow> dt_storage ?trie h = Inr b"
    using update_holds [OF h T(2) c(2) inj codec] by blast+
  have "trie_get ?trie key = (if inside (split_ranges mode b) key then trie_get trie key else Some (Inr None))" if key: "\<forall>b \<in> set key. b < 256" for key
  proof -
    have "fetch ?trie r = fetch trie r" if "t_lookup T (unpack key) = Some r" for r
      using lookup_in_trie [OF that] keep h by (auto simp: fetch_def holds_def present_in_def)
    then have "map_option (fetch ?trie) (t_lookup T (unpack key)) = map_option (fetch trie) (t_lookup T (unpack key))"
      by (cases "t_lookup T (unpack key)") simp_all
    then show ?thesis using get_holds [OF hold key] get_holds [OF h key] by (simp add: split_lookup [OF T(1)])
  qed
  moreover have "tc_new_root c = t_hash sha ser (t_split mode b T)" using c(2) by (simp add: update_result_def)
  ultimately show thesis using that c(1) hold keep by blast
qed

section \<open>Properties\<close>

text \<open>
  C4: Splitting a shard, end to end. From a storage that holds the trie of the parent in its canonical form,
  \<open>retain_split_shard_with_trie_storage\<close> returns changes without panicking, for either child. When their
  insertions are applied and the data involved do not collide, the storage holds a canonical trie under the
  new root, in which \<open>get\<close> returns for every trie key the value that the parent has, if the key belongs to
  an account on that side of the boundary account or is copied to that child, and nothing otherwise;
  everything that could be read before can still be read. The bound says that the memory usage of the
  parent fits 64 bits.
\<close>

theorem split_shard_end_to_end:
  assumes "holds sha ser trie T" and "t_mem vr_length T + 2 < 2 ^ 64" and "libs_ok libs" and "account_ok libs b"
    and "T' = t_split mode b T" and "inj_on sha (update_data sha ser trie [] T')"
    and "\<forall>n \<in> t_nodes sha ser T'. dt_decode trie (ser n) = Some n \<and> sha (ser n) \<noteq> empty_root"
  shows "\<exists>c. retain_split_shard_with_trie_storage sha ser trie b mode = Some (Inr c) \<and> holds sha ser (apply_insertions trie c) T' \<and>
    (\<forall>h x. dt_storage trie h = Inr x \<longrightarrow> dt_storage (apply_insertions trie c) h = Inr x) \<and>
    (\<forall>k raw. key_ok libs k \<and> to_vec libs k = Some raw \<longrightarrow>
       trie_get (apply_insertions trie c) raw = (if keeps mode b k then trie_get trie raw else Some (Inr None)))"
proof -
  have b: "\<forall>x \<in> set (account_bytes b). x < 256" using account_key_byte [OF assms(3,4)] by blast
  obtain c where "tc_new_root c = t_hash sha ser T'"
    and c: "retain_split_shard_with_trie_storage sha ser trie b mode = Some (Inr c)" "holds sha ser (apply_insertions trie c) T'"
    "\<And>h b. dt_storage trie h = Inr b \<Longrightarrow> dt_storage (apply_insertions trie c) h = Inr b"
    "\<And>key. \<forall>b \<in> set key. b < 256 \<Longrightarrow>
       trie_get (apply_insertions trie c) key = (if inside (split_ranges mode b) key then trie_get trie key else Some (Inr None))"
    by (rule split_holds [OF assms(1,2) b assms(6,7) [unfolded assms(5)], folded assms(5)]) blast
  have "trie_get (apply_insertions trie c) raw = (if keeps mode b k then trie_get trie raw else Some (Inr None))"
    if "key_ok libs k" "to_vec libs k = Some raw" for k raw
    using c(4) [OF raw_key_bytes [OF assms(3) that]] split_ranges_keep [OF assms(3,4) that, of mode] by simp
  then show ?thesis using c(1-3) by blast
qed

text \<open>A shard with two accounts, split between them.\<close>

definition split_leaf :: "nat list \<Rightarrow> byte list \<Rightarrow> value_ref trie" where
  "split_leaf e v = TLeaf e (value_ref_new example_sha v)"

definition split_branch :: "value_ref trie" where
  "split_branch = TBranch (no_children[1 := split_leaf [6, 1] [7], 3 := split_leaf [6, 3] [8, 9]]) None"

definition split_parent :: "value_ref trie" where
  "split_parent = TExt [0, 0, 6] split_branch"

definition split_child :: "retain_mode \<Rightarrow> value_ref trie" where
  "split_child mode = (case mode of Retain_Left \<Rightarrow> split_leaf [0, 0, 6, 1, 6, 1] [7] | Retain_Right \<Rightarrow> split_leaf [0, 0, 6, 3, 6, 3] [8, 9])"

lemma UNIV_retain_mode: "UNIV = {Retain_Left, Retain_Right}"
  using retain_mode.exhaust by auto

definition split_nodes :: "raw_trie_node_with_size list" where
  "split_nodes = map (t_raw example_sha example_ser) [split_leaf [6, 1] [7], split_leaf [6, 3] [8, 9], split_branch, split_parent, split_child Retain_Left, split_child Retain_Right]"

definition split_disk :: disk_trie where
  "split_disk =
     \<lparr> dt_storage = (\<lambda>h. case find (\<lambda>b. example_sha b = h) ([[7], [8, 9]] @ map example_ser split_nodes) of Some b \<Rightarrow> Inr b | None \<Rightarrow> Inl (MissingTrieValue h)),
       dt_decode = (\<lambda>b. find (\<lambda>n. example_ser n = b) split_nodes), dt_root = t_hash example_sha example_ser split_parent \<rparr>"

lemma split_mem:
  "t_mem vr_length (split_leaf [6, 1] [7]) = 105" "t_mem vr_length (split_leaf [6, 3] [8, 9]) = 106" "t_mem vr_length split_branch = 261"
  "t_mem vr_length split_parent = 315" "t_mem vr_length (split_child Retain_Left) = 109" "t_mem vr_length (split_child Retain_Right) = 110"
  by (simp_all add: split_parent_def split_branch_def split_child_def split_leaf_def key_cost_def value_ref_new_def cast_def mem_two_children)

lemma split_t_nodes: "t_nodes example_sha example_ser split_parent \<union> (\<Union>mode. t_nodes example_sha example_ser (split_child mode)) = set split_nodes"
  unfolding UNIV_retain_mode
  by (simp add: split_nodes_def split_parent_def split_branch_def split_child_def no_children_def split_leaf_def numeral_nat insert_commute)

lemma split_codec: "\<forall>n \<in> set split_nodes. readable example_sha example_ser split_disk n"
proof -
  have "example_sha (example_ser n) \<noteq> empty_root" for n
    by (auto simp: example_sha_def example_ser_def empty_root_def crypto_hash_new_def crypto_hash_length_def dest!: arg_cong [of _ _ length])
  then show ?thesis by (simp add: split_nodes_def split_disk_def readable_def example_ser_def example_sha_def split_mem split_mem [unfolded One_nat_def])
qed

lemma split_disk_holds: "holds example_sha example_ser split_disk split_parent"
proof -
  have "content_addressed example_sha example_ser split_disk"
    by (auto simp: content_addressed_def split_disk_def find_Some_iff split: option.splits)
  moreover have "canonical split_parent"
    by (simp add: split_parent_def split_branch_def split_leaf_def no_children_def present_def numeral_nat upt_rec)
  moreover have "\<forall>r \<in> set_trie split_parent. present_in split_disk (vr_hash r)"
    by (simp add: split_parent_def split_branch_def split_leaf_def no_children_def numeral_nat present_in_def split_disk_def value_ref_new_def hash_bytes_def example_sha_def)
  moreover have "\<forall>n \<in> t_nodes example_sha example_ser split_parent. readable example_sha example_ser split_disk n" using split_codec split_t_nodes by blast
  ultimately show ?thesis by (simp add: holds_def split_disk_def)
qed

lemma split_example: "t_split mode ''bb'' split_parent = split_child mode"
proof -
  let ?P = "inside (map to_nibbles (split_ranges mode ''bb''))"
  note eval = inside_def split_ranges_def account_range_contains column_range_contains account_bytes_def
  have "?P [0, 0, 6, Suc 0, 6, Suc 0] \<longleftrightarrow> inside (split_ranges mode ''bb'') [0, 97, 97]" using inside_nibbles [of _ "[0, 97, 97]"] by simp
  then have P1: "?P [0, 0, 6, Suc 0, 6, Suc 0] \<longleftrightarrow> mode = Retain_Left" by (cases mode) (simp_all add: eval)
  have "?P [0, 0, 6, 3, 6, 3] \<longleftrightarrow> inside (split_ranges mode ''bb'') [0, 99, 99]" using inside_nibbles [of _ "[0, 99, 99]"] by simp
  then have P3: "?P [0, 0, 6, 3, 6, 3] \<longleftrightarrow> mode = Retain_Right" by (cases mode) (simp_all add: eval)
  show ?thesis using P1 P3 unfolding t_split_def split_parent_def split_branch_def split_child_def split_leaf_def
    by (cases mode) (simp_all add: no_children_def present_def numeral_nat upt_rec)
qed

lemma split_child_codec:
  "\<forall>n \<in> t_nodes example_sha example_ser (split_child mode). dt_decode split_disk (example_ser n) = Some n \<and> example_sha (example_ser n) \<noteq> empty_root"
  using split_codec split_t_nodes unfolding readable_def by blast

lemma split_accounts: "account_ok example_libs ''aa''" "account_ok example_libs ''bb''" "account_ok example_libs ''cc''"
  by (rule example_valid; simp add: account_bytes_def account_byte_def)+

lemma split_keys: "to_vec example_libs (Account ''aa'') = Some [0, 97, 97]" "to_vec example_libs (Account ''cc'') = Some [0, 99, 99]"
  by (simp_all add: to_vec_def account_bytes_def)

lemma split_values: "trie_get split_disk [0, 97, 97] = Some (Inr (Some [7]))" "trie_get split_disk [0, 99, 99] = Some (Inr (Some [8, 9]))"
  using get_holds [OF split_disk_holds, of "[0, 97, 97]"] get_holds [OF split_disk_holds, of "[0, 99, 99]"]
  by (simp_all add: split_parent_def split_branch_def split_leaf_def no_children_def fetch_def split_disk_def value_ref_new_def hash_bytes_def example_sha_def)

theorem split_shard_end_to_end_witness:
  "\<exists>c. retain_split_shard_with_trie_storage example_sha example_ser split_disk ''bb'' Retain_Left = Some (Inr c) \<and>
    trie_get (apply_insertions split_disk c) [0, 97, 97] = Some (Inr (Some [7])) \<and>
    trie_get split_disk [0, 99, 99] = Some (Inr (Some [8, 9])) \<and> trie_get (apply_insertions split_disk c) [0, 99, 99] = Some (Inr None)"
proof -
  have "t_mem vr_length split_parent + 2 < 2 ^ 64" by (simp add: split_mem)
  from split_shard_end_to_end [OF split_disk_holds this example_libs_ok split_accounts(2) split_example [symmetric] example_inj split_child_codec]
  obtain c where c: "retain_split_shard_with_trie_storage example_sha example_ser split_disk ''bb'' Retain_Left = Some (Inr c)"
    "\<And>k raw. key_ok example_libs k \<Longrightarrow> to_vec example_libs k = Some raw \<Longrightarrow>
       trie_get (apply_insertions split_disk c) raw = (if keeps Retain_Left ''bb'' k then trie_get split_disk raw else Some (Inr None))" by blast
  show ?thesis using c(1) c(2) [OF _ split_keys(1)] c(2) [OF _ split_keys(2)] split_accounts split_values by (auto simp: keeps_def)
qed

end
