(* ===== verification/State_Update.thy ===== *)
theory State_Update
  imports Trie_State Trie_Key
begin

text \<open>
  The state of a shard while a chunk is applied (\<open>core/store/src/trie/update.rs\<close>): uncommitted and committed
  changes over a trie, with the contracts deployed and called meanwhile (\<open>core/store/src/contract.rs\<close>).
  The trie is a disk trie, without flat storage and without in-memory tries; the options of an access and the
  recorder of accesses are left out.  The clones of a contract storage share one tracker, which is the one of
  the state here.
\<close>

section \<open>Contract storage\<close>

record contract_code =
  cc_code :: "byte list"
  cc_hash :: crypto_hash

definition contract_code_new :: "sha256 \<Rightarrow> byte list \<Rightarrow> crypto_hash option \<Rightarrow> contract_code" where
  "contract_code_new sha code hash = \<lparr> cc_code = code, cc_hash = (case hash of Some h \<Rightarrow> h | None \<Rightarrow> hash_bytes sha code) \<rparr>"

record contracts_tracker =
  ct_uncommitted_deploys :: "(crypto_hash, contract_code) btree"
  ct_committed_deploys :: "(crypto_hash, contract_code) btree"
  ct_contract_calls :: "crypto_hash set"

record contract_updates =
  cu_contract_accesses :: "crypto_hash set"
  cu_contract_deploys :: "contract_code list"

definition tracker_default :: contracts_tracker where
  "tracker_default = \<lparr> ct_uncommitted_deploys = bt_empty, ct_committed_deploys = bt_empty, ct_contract_calls = {} \<rparr>"

definition tracker_get :: "sha256 \<Rightarrow> contracts_tracker \<Rightarrow> crypto_hash \<Rightarrow> contract_code option" where
  "tracker_get sha t code_hash =
     map_option (\<lambda>contract. contract_code_new sha (cc_code contract) (Some code_hash))
       (case bt_get (ct_uncommitted_deploys t) code_hash of
          Some contract \<Rightarrow> Some contract
        | None \<Rightarrow> bt_get (ct_committed_deploys t) code_hash)"

definition tracker_call :: "crypto_hash \<Rightarrow> contracts_tracker \<Rightarrow> contracts_tracker" where
  "tracker_call code_hash t = t\<lparr>ct_contract_calls := insert code_hash (ct_contract_calls t)\<rparr>"

definition tracker_deploy :: "contract_code \<Rightarrow> contracts_tracker \<Rightarrow> contracts_tracker" where
  "tracker_deploy code t = t\<lparr>ct_uncommitted_deploys := bt_insert (cc_hash code) code (ct_uncommitted_deploys t)\<rparr>"

definition tracker_rollback_deploys :: "contracts_tracker \<Rightarrow> contracts_tracker" where
  "tracker_rollback_deploys t = t\<lparr>ct_uncommitted_deploys := bt_empty\<rparr>"

definition tracker_commit_deploys :: "contracts_tracker \<Rightarrow> contracts_tracker" where
  "tracker_commit_deploys t =
     t\<lparr>ct_uncommitted_deploys := bt_empty,
       ct_committed_deploys := fold (\<lambda>(code_hash, contract). bt_insert code_hash contract) (ct_uncommitted_deploys t) (ct_committed_deploys t)\<rparr>"

definition tracker_finalize :: "contracts_tracker \<Rightarrow> contract_updates" where
  "tracker_finalize t = \<lparr> cu_contract_accesses = ct_contract_calls t, cu_contract_deploys = map snd (ct_committed_deploys t) \<rparr>"

text \<open>The tracker is gone once it has been finalized; what needs it then panics.\<close>

record contract_storage =
  cs_storage :: "crypto_hash \<Rightarrow> storage_error + byte list"
  cs_tracker :: "contracts_tracker option"

definition contract_storage_new :: "(crypto_hash \<Rightarrow> storage_error + byte list) \<Rightarrow> contract_storage" where
  "contract_storage_new storage = \<lparr> cs_storage = storage, cs_tracker = Some tracker_default \<rparr>"

definition contract_storage_get :: "sha256 \<Rightarrow> contract_storage \<Rightarrow> crypto_hash \<Rightarrow> contract_code option" where
  "contract_storage_get sha s code_hash =
     (case Option.bind (cs_tracker s) (\<lambda>tracker. tracker_get sha tracker code_hash) of
        Some contract \<Rightarrow> Some (contract_code_new sha (cc_code contract) (Some code_hash))
      | None \<Rightarrow>
          (case cs_storage s code_hash of
             Inr raw_code \<Rightarrow> Some (contract_code_new sha raw_code (Some code_hash))
           | Inl _ \<Rightarrow> None))"

definition with_tracker :: "(contracts_tracker \<Rightarrow> contracts_tracker) \<Rightarrow> contract_storage \<Rightarrow> contract_storage option" where
  "with_tracker f s = do { tracker \<leftarrow> cs_tracker s; Some (s\<lparr>cs_tracker := Some (f tracker)\<rparr>) }"

definition record_call :: "crypto_hash \<Rightarrow> contract_storage \<Rightarrow> contract_storage option" where
  "record_call code_hash = with_tracker (tracker_call code_hash)"

definition record_deploy :: "contract_code \<Rightarrow> contract_storage \<Rightarrow> contract_storage option" where
  "record_deploy code = with_tracker (tracker_deploy code)"

definition commit_deploys :: "contract_storage \<Rightarrow> contract_storage option" where
  "commit_deploys = with_tracker tracker_commit_deploys"

definition rollback_deploys :: "contract_storage \<Rightarrow> contract_storage option" where
  "rollback_deploys = with_tracker tracker_rollback_deploys"

definition contract_storage_finalize :: "contract_storage \<Rightarrow> contract_updates option" where
  "contract_storage_finalize s = map_option tracker_finalize (cs_tracker s)"

section \<open>The state\<close>

datatype state_change_cause =
  NotWritableToDisk
| InitialState
| Cause_TransactionProcessing crypto_hash
| Cause_ActionReceiptProcessingStarted crypto_hash
| Cause_ActionReceiptGasReward crypto_hash
| Cause_ReceiptProcessing crypto_hash
| Cause_PostponedReceipt crypto_hash
| UpdatedDelayedReceipts
| ValidatorAccountsUpdate
| Migration
| UnusedReshardingV2
| BandwidthSchedulerStateUpdate

record raw_state_change =
  rc_cause :: state_change_cause
  rc_data :: "byte list option"

record raw_state_changes_with_trie_key =
  rs_trie_key :: trie_key
  rs_changes :: "raw_state_change list"

type_synonym raw_state_changes = "(nat list, raw_state_changes_with_trie_key) btree"

record trie_key_value_update =
  kv_trie_key :: trie_key
  kv_value :: "byte list option"

type_synonym trie_updates = "(nat list, trie_key_value_update) btree"

record trie_update =
  su_trie :: disk_trie
  su_contract_storage :: contract_storage
  su_committed :: raw_state_changes
  su_prospective :: trie_updates

record trie_update_result =
  sr_trie :: disk_trie
  sr_trie_changes :: trie_changes
  sr_state_changes :: "raw_state_changes_with_trie_key list"
  sr_contract_updates :: contract_updates

definition trie_update_new :: "disk_trie \<Rightarrow> trie_update" where
  "trie_update_new trie =
     \<lparr> su_trie = trie, su_contract_storage = contract_storage_new (dt_storage trie), su_committed = bt_empty, su_prospective = bt_empty \<rparr>"

text \<open>A pointer to a value, of the trie or of a change.\<close>

datatype trie_update_value_ptr = PtrRef disk_trie value_ref | MemoryRef "byte list"

fun value_ptr_len :: "trie_update_value_ptr \<Rightarrow> nat" where
  "value_ptr_len (MemoryRef value) = cast u32_w (length value)"
| "value_ptr_len (PtrRef _ value_ref) = cast u32_w (vr_length value_ref)"

fun value_ptr_hash :: "sha256 \<Rightarrow> trie_update_value_ptr \<Rightarrow> crypto_hash" where
  "value_ptr_hash sha (MemoryRef value) = hash_bytes sha value"
| "value_ptr_hash sha (PtrRef _ value_ref) = vr_hash value_ref"

fun deref_value :: "trie_update_value_ptr \<Rightarrow> byte list outcome" where
  "deref_value (MemoryRef value) = Some (Inr value)"
| "deref_value (PtrRef trie value_ref) = retrieve_value trie (vr_hash value_ref)"

definition get_optimized_ref :: "disk_trie \<Rightarrow> nat list \<Rightarrow> value_ref option outcome" where
  "get_optimized_ref trie key = lookup_from_state_column trie (ns_new key)"

definition trie_contains_key :: "disk_trie \<Rightarrow> nat list \<Rightarrow> bool outcome" where
  "trie_contains_key trie key = rtry (lookup_from_state_column trie (ns_new key)) (\<lambda>r. Some (Inr (r \<noteq> None)))"

definition trie_access_get :: "key_libs \<Rightarrow> disk_trie \<Rightarrow> trie_key \<Rightarrow> byte list option outcome" where
  "trie_access_get libs trie key = do { raw \<leftarrow> to_vec libs key; trie_get trie raw }"

text \<open>The data of the last change of a committed entry, if it has a change.\<close>

definition last_data :: "raw_state_changes_with_trie_key \<Rightarrow> byte list option option" where
  "last_data c = (if rs_changes c = [] then None else Some (rc_data (last (rs_changes c))))"

definition get_ref_from_updates :: "trie_update \<Rightarrow> nat list \<Rightarrow> trie_update_value_ptr option option" where
  "get_ref_from_updates u key =
     (case bt_get (su_prospective u) key of
        Some key_value \<Rightarrow> Some (map_option MemoryRef (kv_value key_value))
      | None \<Rightarrow>
          (case bt_get (su_committed u) key of
             Some changes \<Rightarrow> map_option (map_option MemoryRef) (last_data changes)
           | None \<Rightarrow> None))"

definition get_ref :: "key_libs \<Rightarrow> trie_update \<Rightarrow> trie_key \<Rightarrow> trie_update_value_ptr option outcome" where
  "get_ref libs u key =
     do {
       key \<leftarrow> to_vec libs key;
       case get_ref_from_updates u key of
         Some value_ref \<Rightarrow> Some (Inr value_ref)
       | None \<Rightarrow> rtry (get_optimized_ref (su_trie u) key) (\<lambda>r. Some (Inr (map_option (PtrRef (su_trie u)) r)))
     }"

definition trie_update_contains_key :: "key_libs \<Rightarrow> trie_update \<Rightarrow> trie_key \<Rightarrow> bool outcome" where
  "trie_update_contains_key libs u key =
     do {
       key \<leftarrow> to_vec libs key;
       if bt_contains (su_prospective u) key then Some (Inr True)
       else case Option.bind (bt_get (su_committed u) key) last_data of
         Some data \<Rightarrow> Some (Inr (data \<noteq> None))
       | None \<Rightarrow> trie_contains_key (su_trie u) key
     }"

definition trie_update_set :: "key_libs \<Rightarrow> trie_key \<Rightarrow> byte list \<Rightarrow> trie_update \<Rightarrow> trie_update option" where
  "trie_update_set libs trie_key value u =
     do {
       raw \<leftarrow> to_vec libs trie_key;
       Some (u\<lparr>su_prospective := bt_insert raw \<lparr> kv_trie_key = trie_key, kv_value = Some value \<rparr> (su_prospective u)\<rparr>)
     }"

definition trie_update_remove :: "key_libs \<Rightarrow> trie_key \<Rightarrow> trie_update \<Rightarrow> trie_update option" where
  "trie_update_remove libs trie_key u =
     do {
       raw \<leftarrow> to_vec libs trie_key;
       Some (u\<lparr>su_prospective := bt_insert raw \<lparr> kv_trie_key = trie_key, kv_value = None \<rparr> (su_prospective u)\<rparr>)
     }"

definition get_from_updates ::
  "key_libs \<Rightarrow> trie_update \<Rightarrow> trie_key \<Rightarrow> (nat list \<Rightarrow> byte list option outcome) \<Rightarrow> byte list option outcome" where
  "get_from_updates libs u key fallback =
     do {
       key \<leftarrow> to_vec libs key;
       case bt_get (su_prospective u) key of
         Some key_value \<Rightarrow> Some (Inr (kv_value key_value))
       | None \<Rightarrow>
           (case Option.bind (bt_get (su_committed u) key) last_data of
              Some data \<Rightarrow> Some (Inr data)
            | None \<Rightarrow> fallback key)
     }"

definition trie_update_get :: "key_libs \<Rightarrow> trie_update \<Rightarrow> trie_key \<Rightarrow> byte list option outcome" where
  "trie_update_get libs u key = get_from_updates libs u key (\<lambda>_. trie_access_get libs (su_trie u) key)"

definition get_code :: "sha256 \<Rightarrow> key_libs \<Rightarrow> trie_update \<Rightarrow> account_id \<Rightarrow> crypto_hash \<Rightarrow> contract_code option outcome" where
  "get_code sha libs u account_id code_hash =
     rtry (trie_update_get libs u (ContractCode account_id))
       (\<lambda>opt. Some (Inr (map_option (\<lambda>code. contract_code_new sha code (Some code_hash)) opt)))"

definition get_global_contract_code ::
  "sha256 \<Rightarrow> key_libs \<Rightarrow> trie_update \<Rightarrow> global_contract_code_identifier \<Rightarrow> contract_code option outcome" where
  "get_global_contract_code sha libs u identifier =
     (let code_hash = (case identifier of Gcc_CodeHash hash \<Rightarrow> Some hash | Gcc_AccountId _ \<Rightarrow> None) in
      rtry (trie_update_get libs u (GlobalContractCode identifier))
        (\<lambda>opt. Some (Inr (map_option (\<lambda>code. contract_code_new sha code code_hash) opt))))"

definition get_code_len :: "key_libs \<Rightarrow> trie_update \<Rightarrow> account_id \<Rightarrow> nat option outcome" where
  "get_code_len libs u account_id =
     rtry (get_ref libs u (ContractCode account_id)) (\<lambda>value_ptr. Some (Inr (map_option value_ptr_len value_ptr)))"

definition set_code :: "key_libs \<Rightarrow> account_id \<Rightarrow> contract_code \<Rightarrow> trie_update \<Rightarrow> trie_update option" where
  "set_code libs account_id code u = trie_update_set libs (ContractCode account_id) (cc_code code) u"

fun commit_step :: "state_change_cause \<Rightarrow> nat list \<times> trie_key_value_update \<Rightarrow> raw_state_changes \<Rightarrow> raw_state_changes" where
  "commit_step event (raw_key, update) committed =
     (let entry = unwrap_or \<lparr> rs_trie_key = kv_trie_key update, rs_changes = [] \<rparr> (bt_get committed raw_key) in
      bt_insert raw_key (entry\<lparr>rs_changes := rs_changes entry @ [\<lparr> rc_cause = event, rc_data = kv_value update \<rparr>]\<rparr>) committed)"

definition trie_update_commit :: "state_change_cause \<Rightarrow> trie_update \<Rightarrow> trie_update option" where
  "trie_update_commit event u =
     do {
       s \<leftarrow> commit_deploys (su_contract_storage u);
       Some (u\<lparr>su_prospective := bt_empty, su_committed := fold (commit_step event) (su_prospective u) (su_committed u), su_contract_storage := s\<rparr>)
     }"

definition trie_update_rollback :: "trie_update \<Rightarrow> trie_update option" where
  "trie_update_rollback u =
     do {
       s \<leftarrow> rollback_deploys (su_contract_storage u);
       Some (u\<lparr>su_prospective := bt_empty, su_contract_storage := s\<rparr>)
     }"

text \<open>
  An entry without a change is a panic.  The changes are collected before the update runs; the iterator of
  the source is lazy, which makes no difference to what is returned without a panic.
\<close>

definition committed_change :: "nat list \<times> raw_state_changes_with_trie_key \<Rightarrow> trie_change option" where
  "committed_change e = map_option (Pair (fst e)) (last_data (snd e))"

definition trie_update_finalize :: "sha256 \<Rightarrow> node_encoding \<Rightarrow> trie_update \<Rightarrow> trie_update_result outcome" where
  "trie_update_finalize sha ser u =
     do {
       assert (su_prospective u = []);
       changes \<leftarrow> those (map committed_change (su_committed u));
       rtry (update_with_trie_storage sha ser (su_trie u) changes) (\<lambda>trie_changes.
       do {
         contract_updates \<leftarrow> contract_storage_finalize (su_contract_storage u);
         Some (Inr \<lparr> sr_trie = su_trie u, sr_trie_changes = trie_changes, sr_state_changes = map snd (su_committed u),
           sr_contract_updates = contract_updates \<rparr>)
       })
     }"

definition record_contract_deploy :: "contract_code \<Rightarrow> trie_update \<Rightarrow> trie_update option" where
  "record_contract_deploy code u = do { s \<leftarrow> record_deploy code (su_contract_storage u); Some (u\<lparr>su_contract_storage := s\<rparr>) }"

datatype apply_chunk_reason = UpdateTrackedShard | ValidateChunkStateWitness | ViewTrackedShard

definition record_contract_call ::
  "key_libs \<Rightarrow> account_id \<Rightarrow> crypto_hash \<Rightarrow> account_contract \<Rightarrow> apply_chunk_reason \<Rightarrow> trie_update \<Rightarrow> trie_update outcome" where
  "record_contract_call libs account_id code_hash contract apply_reason u =
     (if apply_reason \<noteq> UpdateTrackedShard then Some (Inr u)
      else case for_account_contract_code account_id contract of
        None \<Rightarrow> Some (Inr u)
      | Some key \<Rightarrow>
          do {
            raw \<leftarrow> to_vec libs key;
            r \<leftarrow> get_optimized_ref (su_trie u) raw;
            case r of
              Inl (MissingTrieValue _) \<Rightarrow> Some (Inr u)
            | Inl err \<Rightarrow> Some (Inl err)
            | Inr contract_ref \<Rightarrow>
                if (case contract_ref of Some value_ref \<Rightarrow> vr_hash value_ref = code_hash | None \<Rightarrow> False) then
                  do { s \<leftarrow> record_call code_hash (su_contract_storage u); Some (Inr (u\<lparr>su_contract_storage := s\<rparr>)) }
                else Some (Inr u)
          })"

section \<open>Sequences of operations\<close>

datatype state_op = SetOp trie_key "byte list" | RemoveOp trie_key | DeployOp contract_code | CommitOp state_change_cause | RollbackOp

fun state_step :: "key_libs \<Rightarrow> state_op \<Rightarrow> trie_update \<Rightarrow> trie_update option" where
  "state_step libs (SetOp k v) u = trie_update_set libs k v u"
| "state_step libs (RemoveOp k) u = trie_update_remove libs k u"
| "state_step libs (DeployOp code) u = record_contract_deploy code u"
| "state_step libs (CommitOp event) u = trie_update_commit event u"
| "state_step libs RollbackOp u = trie_update_rollback u"

abbreviation state_run :: "key_libs \<Rightarrow> state_op list \<Rightarrow> trie_update \<Rightarrow> trie_update option" where
  "state_run libs \<equiv> fold_opt (state_step libs)"

text \<open>The specification: a transaction on a map of values and on a map of contracts.\<close>

record state_view =
  sv_committed :: "trie_key \<Rightarrow> byte list option"
  sv_current :: "trie_key \<Rightarrow> byte list option"
  sv_deployed :: "crypto_hash \<Rightarrow> contract_code option"
  sv_deploying :: "crypto_hash \<Rightarrow> contract_code option"

fun view_step :: "state_op \<Rightarrow> state_view \<Rightarrow> state_view" where
  "view_step (SetOp k v) s = s\<lparr>sv_current := (sv_current s)(k := Some v)\<rparr>"
| "view_step (RemoveOp k) s = s\<lparr>sv_current := (sv_current s)(k := None)\<rparr>"
| "view_step (DeployOp code) s = s\<lparr>sv_deploying := (sv_deploying s)(cc_hash code := Some code)\<rparr>"
| "view_step (CommitOp event) s = s\<lparr>sv_committed := sv_current s, sv_deployed := sv_deploying s\<rparr>"
| "view_step RollbackOp s = s\<lparr>sv_current := sv_committed s, sv_deploying := sv_deployed s\<rparr>"

definition state_at :: "key_libs \<Rightarrow> disk_trie \<Rightarrow> trie_key \<Rightarrow> byte list option" where
  "state_at libs trie k = (case trie_access_get libs trie k of Some (Inr v) \<Rightarrow> v | _ \<Rightarrow> None)"

definition view_of :: "key_libs \<Rightarrow> disk_trie \<Rightarrow> state_view" where
  "view_of libs trie =
     \<lparr> sv_committed = state_at libs trie, sv_current = state_at libs trie, sv_deployed = Map.empty, sv_deploying = Map.empty \<rparr>"

definition has_bytes :: "key_libs \<Rightarrow> trie_key \<Rightarrow> bool" where
  "has_bytes libs k \<longleftrightarrow> key_ok libs k \<and> to_vec libs k \<noteq> None"

fun op_ok :: "key_libs \<Rightarrow> state_op \<Rightarrow> bool" where
  "op_ok libs (SetOp k v) \<longleftrightarrow> has_bytes libs k \<and> length v < 2 ^ 32"
| "op_ok libs (RemoveOp k) \<longleftrightarrow> has_bytes libs k"
| "op_ok libs _ \<longleftrightarrow> True"

section \<open>The invariant\<close>

text \<open>What the changes say of a key, the uncommitted ones included or not.\<close>

definition committed_data :: "trie_update \<Rightarrow> nat list \<Rightarrow> byte list option option" where
  "committed_data u raw = Option.bind (bt_get (su_committed u) raw) last_data"

definition current_data :: "trie_update \<Rightarrow> nat list \<Rightarrow> byte list option option" where
  "current_data u raw = (case bt_get (su_prospective u) raw of Some kv \<Rightarrow> Some (kv_value kv) | None \<Rightarrow> committed_data u raw)"

lemma trie_update_get_eq:
  "to_vec libs k = Some raw \<Longrightarrow> trie_update_get libs u k = (case current_data u raw of Some d \<Rightarrow> Some (Inr d) | None \<Rightarrow> trie_get (su_trie u) raw)"
  by (simp add: trie_update_get_def get_from_updates_def current_data_def committed_data_def trie_access_get_def split: option.splits)

definition entry_ok :: "key_libs \<Rightarrow> nat list \<Rightarrow> trie_key \<Rightarrow> byte list option \<Rightarrow> bool" where
  "entry_ok libs raw k v \<longleftrightarrow> key_ok libs k \<and> to_vec libs k = Some raw \<and> (\<forall>x. v = Some x \<longrightarrow> length x < 2 ^ 32)"

definition update_ok :: "key_libs \<Rightarrow> trie_update \<Rightarrow> bool" where
  "update_ok libs u \<longleftrightarrow> bt_inv (su_committed u) \<and> bt_inv (su_prospective u) \<and>
     (\<forall>raw kv. bt_get (su_prospective u) raw = Some kv \<longrightarrow> entry_ok libs raw (kv_trie_key kv) (kv_value kv)) \<and>
     (\<forall>raw c. bt_get (su_committed u) raw = Some c \<longrightarrow> rs_changes c \<noteq> [] \<and> (\<forall>x \<in> set (rs_changes c). entry_ok libs raw (rs_trie_key c) (rc_data x)))"

lemma commit_fold:
  assumes "distinct (map fst ps)"
  shows "bt_get (fold (commit_step event) ps c) raw =
    (case map_of ps raw of
       None \<Rightarrow> bt_get c raw
     | Some kv \<Rightarrow>
         (let entry = unwrap_or \<lparr> rs_trie_key = kv_trie_key kv, rs_changes = [] \<rparr> (bt_get c raw) in
          Some (entry\<lparr>rs_changes := rs_changes entry @ [\<lparr> rc_cause = event, rc_data = kv_value kv \<rparr>]\<rparr>)))"
  using assms
proof (induction ps arbitrary: c)
  case (Cons p ps)
  obtain r kv where p: "p = (r, kv)" by (cases p)
  then have "r \<notin> fst ` set ps" "distinct (map fst ps)" using Cons.prems by auto
  moreover from this have "map_of ps r = None" by (simp add: map_of_eq_None_iff)
  ultimately show ?case using Cons.IH by (cases "raw = r"; cases "map_of ps raw") (simp_all add: p bt_insert_get Let_def)
qed simp

lemma commit_fold_inv: "bt_inv c \<Longrightarrow> bt_inv (fold (commit_step event) ps c)"
proof (induction ps arbitrary: c)
  case (Cons p ps)
  then show ?case by (cases p) (simp add: bt_insert_inv Let_def)
qed simp

lemma last_data_snoc [simp]: "last_data (c\<lparr>rs_changes := rs_changes c @ [x]\<rparr>) = Some (rc_data x)"
  by (simp add: last_data_def)

lemma set_data:
  assumes "to_vec libs k = Some raw"
  shows "\<exists>u'. state_step libs (SetOp k v) u = Some u' \<and> su_trie u' = su_trie u \<and> su_contract_storage u' = su_contract_storage u \<and>
      committed_data u' = committed_data u \<and> current_data u' = (current_data u)(raw := Some (Some v)) \<and>
      (update_ok libs u \<and> key_ok libs k \<and> length v < 2 ^ 32 \<longrightarrow> update_ok libs u')"
    and "\<exists>u'. state_step libs (RemoveOp k) u = Some u' \<and> su_trie u' = su_trie u \<and> su_contract_storage u' = su_contract_storage u \<and>
      committed_data u' = committed_data u \<and> current_data u' = (current_data u)(raw := Some None) \<and>
      (update_ok libs u \<and> key_ok libs k \<longrightarrow> update_ok libs u')"
  using assms
  by (auto simp: trie_update_set_def trie_update_remove_def committed_data_def current_data_def bt_insert_get fun_eq_iff update_ok_def bt_insert_inv entry_ok_def cong: option.case_cong)

lemma commit_data:
  assumes "update_ok libs u" and "commit_deploys (su_contract_storage u) = Some s"
  shows "\<exists>u'. trie_update_commit event u = Some u' \<and> su_trie u' = su_trie u \<and> su_contract_storage u' = s \<and> su_prospective u' = [] \<and>
    committed_data u' = current_data u \<and> current_data u' = current_data u \<and> update_ok libs u'"
proof -
  let ?ps = "su_prospective u" let ?c = "fold (commit_step event) ?ps (su_committed u)"
  have inv: "bt_inv ?ps" "bt_inv (su_committed u)" using assms(1) by (simp_all add: update_ok_def)
  have get: "bt_get ?c raw = (case bt_get ?ps raw of
       None \<Rightarrow> bt_get (su_committed u) raw
     | Some kv \<Rightarrow>
         (let entry = unwrap_or \<lparr> rs_trie_key = kv_trie_key kv, rs_changes = [] \<rparr> (bt_get (su_committed u) raw) in
          Some (entry\<lparr>rs_changes := rs_changes entry @ [\<lparr> rc_cause = event, rc_data = kv_value kv \<rparr>]\<rparr>)))" for raw
    using commit_fold [of ?ps event "su_committed u" raw] bt_inv_distinct [OF inv(1)] by (simp add: bt_keys_def bt_get_def)
  have data: "Option.bind (bt_get ?c raw) last_data = current_data u raw" for raw
    unfolding get current_data_def committed_data_def by (simp add: Let_def split: option.split)
  have entry: "rs_changes c \<noteq> [] \<and> (\<forall>x \<in> set (rs_changes c). entry_ok libs raw (rs_trie_key c) (rc_data x))" if c: "bt_get ?c raw = Some c" for raw c
  proof (cases "bt_get ?ps raw")
    case None
    then show ?thesis using c assms(1) unfolding get by (simp add: update_ok_def)
  next
    case (Some kv)
    have kv: "entry_ok libs raw (kv_trie_key kv) (kv_value kv)" using Some assms(1) by (simp add: update_ok_def)
    show ?thesis
    proof (cases "bt_get (su_committed u) raw")
      case None
      then show ?thesis using c kv Some unfolding get by (auto simp: Let_def)
    next
      case (Some e)
      then have e: "rs_changes e \<noteq> []" "\<forall>x \<in> set (rs_changes e). entry_ok libs raw (rs_trie_key e) (rc_data x)" using assms(1) by (simp_all add: update_ok_def)
      have c': "c = e\<lparr>rs_changes := rs_changes e @ [\<lparr> rc_cause = event, rc_data = kv_value kv \<rparr>]\<rparr>"
        using c \<open>bt_get ?ps raw = Some kv\<close> Some unfolding get by (simp add: Let_def)
      have "entry_ok libs raw (rs_trie_key e) (kv_value kv)" using e kv by (cases "rs_changes e") (auto simp: entry_ok_def)
      then show ?thesis using e by (auto simp: c')
    qed
  qed
  show ?thesis using assms inv data entry
    by (auto simp: trie_update_commit_def update_ok_def committed_data_def current_data_def bt_empty_def bt_get_def [of "[]"] commit_fold_inv fun_eq_iff)
qed

lemma rollback_data:
  assumes "update_ok libs u" and "rollback_deploys (su_contract_storage u) = Some s"
  shows "\<exists>u'. trie_update_rollback u = Some u' \<and> su_trie u' = su_trie u \<and> su_contract_storage u' = s \<and>
    committed_data u' = committed_data u \<and> current_data u' = committed_data u \<and> update_ok libs u'"
  using assms by (auto simp: trie_update_rollback_def update_ok_def committed_data_def current_data_def bt_empty_def bt_get_def [of "[]"] fun_eq_iff)

section \<open>Contracts\<close>

definition contracts_at :: "contract_storage \<Rightarrow> (crypto_hash \<Rightarrow> contract_code option) \<Rightarrow> (crypto_hash \<Rightarrow> contract_code option) \<Rightarrow> bool" where
  "contracts_at s deployed deploying \<longleftrightarrow>
     (\<exists>t. cs_tracker s = Some t \<and> bt_inv (ct_committed_deploys t) \<and> bt_inv (ct_uncommitted_deploys t) \<and>
        deployed = bt_get (ct_committed_deploys t) \<and> deploying = bt_get (ct_committed_deploys t) ++ bt_get (ct_uncommitted_deploys t))"

lemma bt_get_Nil: "bt_get [] = Map.empty"
  by (simp add: bt_get_def fun_eq_iff)

lemma contracts_start: "contracts_at (contract_storage_new storage) Map.empty Map.empty"
  by (auto simp: contracts_at_def contract_storage_new_def tracker_default_def bt_empty_def bt_get_Nil)

lemma contracts_deploy:
  "contracts_at s deployed deploying \<Longrightarrow> \<exists>s'. record_deploy code s = Some s' \<and> contracts_at s' deployed (deploying(cc_hash code := Some code))"
  by (auto simp: contracts_at_def record_deploy_def with_tracker_def tracker_deploy_def bt_insert_inv bt_insert_get map_add_def fun_eq_iff cong: option.case_cong)

lemma contracts_commit:
  "contracts_at s deployed deploying \<Longrightarrow> \<exists>s'. commit_deploys s = Some s' \<and> contracts_at s' deploying deploying"
proof -
  assume "contracts_at s deployed deploying"
  then obtain t where t: "cs_tracker s = Some t" "bt_inv (ct_committed_deploys t)" "bt_inv (ct_uncommitted_deploys t)"
    "deploying = bt_get (ct_committed_deploys t) ++ bt_get (ct_uncommitted_deploys t)" by (auto simp: contracts_at_def)
  let ?c = "fold (\<lambda>(code_hash, contract). bt_insert code_hash contract) (ct_uncommitted_deploys t) (ct_committed_deploys t)"
  have "distinct (map fst (ct_uncommitted_deploys t))" using bt_inv_distinct [OF t(3)] by (simp add: bt_keys_def)
  then have "map_of (rev (ct_uncommitted_deploys t)) = map_of (ct_uncommitted_deploys t)" by (simp add: map_of_inject_set rev_map [symmetric])
  then have "bt_get ?c h = deploying h" for h using bt.get_fill [OF t(2), of "ct_uncommitted_deploys t" h] t(4) by (simp add: bt_get_def map_add_def)
  moreover have "bt_inv ?c" by (rule bt.invar_fill [OF t(2)])
  ultimately show ?thesis using t(1) by (auto simp: commit_deploys_def with_tracker_def tracker_commit_deploys_def contracts_at_def bt_empty_def bt_get_Nil)
qed

lemma contracts_rollback:
  "contracts_at s deployed deploying \<Longrightarrow> \<exists>s'. rollback_deploys s = Some s' \<and> contracts_at s' deployed deployed"
  by (auto simp: rollback_deploys_def with_tracker_def tracker_rollback_deploys_def contracts_at_def bt_empty_def bt_get_Nil)

lemma contracts_finalize:
  "contracts_at s deployed deploying \<Longrightarrow> \<exists>c. contract_storage_finalize s = Some c \<and> set (cu_contract_deploys c) = ran deployed"
proof -
  assume "contracts_at s deployed deploying"
  then obtain t where t: "cs_tracker s = Some t" "bt_inv (ct_committed_deploys t)" "deployed = bt_get (ct_committed_deploys t)" by (auto simp: contracts_at_def)
  then have "snd ` set (ct_committed_deploys t) = ran deployed" by (force simp: ran_def bt_get_mem [symmetric])
  then show ?thesis using t(1) by (simp add: contract_storage_finalize_def tracker_finalize_def)
qed

section \<open>Refinement of the specification\<close>

definition represents :: "key_libs \<Rightarrow> disk_trie \<Rightarrow> trie_update \<Rightarrow> state_view \<Rightarrow> bool" where
  "represents libs trie u s \<longleftrightarrow> su_trie u = trie \<and> update_ok libs u \<and>
     (\<forall>k raw. key_ok libs k \<and> to_vec libs k = Some raw \<longrightarrow>
        sv_current s k = unwrap_or (state_at libs trie k) (current_data u raw) \<and>
        sv_committed s k = unwrap_or (state_at libs trie k) (committed_data u raw)) \<and>
     contracts_at (su_contract_storage u) (sv_deployed s) (sv_deploying s)"

lemma represents_start: "represents libs trie (trie_update_new trie) (view_of libs trie)"
  by (simp add: represents_def view_of_def trie_update_new_def update_ok_def current_data_def committed_data_def bt_empty_def bt_get_Nil contracts_start)

lemma represents_step:
  assumes libs: "libs_ok libs" and r: "represents libs trie u s" and ok: "op_ok libs op"
  shows "\<exists>u'. state_step libs op u = Some u' \<and> represents libs trie u' (view_step op s)"
proof (cases op)
  case (SetOp k v)
  then obtain raw where raw: "to_vec libs k = Some raw" "key_ok libs k" using ok by (auto simp: has_bytes_def)
  have "raw' \<noteq> raw" if "key_ok libs k'" "to_vec libs k' = Some raw'" "k' \<noteq> k" for k' raw' using to_vec_inject [OF libs] that raw by blast
  then show ?thesis using set_data(1) [OF raw(1), of v u] r raw ok by (auto simp: represents_def SetOp)
next
  case (RemoveOp k)
  then obtain raw where raw: "to_vec libs k = Some raw" "key_ok libs k" using ok by (auto simp: has_bytes_def)
  have "raw' \<noteq> raw" if "key_ok libs k'" "to_vec libs k' = Some raw'" "k' \<noteq> k" for k' raw' using to_vec_inject [OF libs] that raw by blast
  then show ?thesis using set_data(2) [OF raw(1), of u] r raw by (auto simp: represents_def RemoveOp)
next
  case (DeployOp code)
  obtain s' where "record_deploy code (su_contract_storage u) = Some s'" "contracts_at s' (sv_deployed s) ((sv_deploying s)(cc_hash code := Some code))"
    using contracts_deploy [of "su_contract_storage u"] r unfolding represents_def by blast
  then show ?thesis using r by (simp add: represents_def DeployOp record_contract_deploy_def update_ok_def current_data_def committed_data_def cong: option.case_cong)
next
  case (CommitOp event)
  obtain s' where "commit_deploys (su_contract_storage u) = Some s'" "contracts_at s' (sv_deploying s) (sv_deploying s)"
    using contracts_commit [of "su_contract_storage u"] r unfolding represents_def by blast
  then show ?thesis using commit_data [of libs u s' event] r by (auto simp: represents_def CommitOp)
next
  case RollbackOp
  obtain s' where "rollback_deploys (su_contract_storage u) = Some s'" "contracts_at s' (sv_deployed s) (sv_deployed s)"
    using contracts_rollback [of "su_contract_storage u"] r unfolding represents_def by blast
  then show ?thesis using rollback_data [of libs u s'] r by (auto simp: represents_def RollbackOp)
qed

lemma represents_run:
  assumes "libs_ok libs" and "represents libs trie u s" and "\<forall>op \<in> set ops. op_ok libs op"
  shows "\<exists>u'. state_run libs ops u = Some u' \<and> represents libs trie u' (fold view_step ops s)"
  using assms(2,3)
proof (induction ops arbitrary: u s)
  case (Cons op ops)
  from Cons.prems represents_step [OF assms(1) Cons.prems(1), of op]
  obtain u1 where "state_step libs op u = Some u1" "represents libs trie u1 (view_step op s)" by auto
  then show ?case using Cons.IH [of u1] Cons.prems(2) by auto
qed simp

lemma state_at_get: "holds sha ser trie T \<Longrightarrow> libs_ok libs \<Longrightarrow> key_ok libs k \<Longrightarrow> to_vec libs k = Some raw \<Longrightarrow> trie_get trie raw = Some (Inr (state_at libs trie k))"
  using get_holds raw_key_bytes by (fastforce simp: state_at_def trie_access_get_def)

lemma represents_get:
  assumes "holds sha ser trie T" and "libs_ok libs" and "represents libs trie u s" and "has_bytes libs k"
  shows "trie_update_get libs u k = Some (Inr (sv_current s k))"
proof -
  obtain raw where "to_vec libs k = Some raw" "key_ok libs k" using assms(4) by (auto simp: has_bytes_def)
  then show ?thesis using state_at_get [OF assms(1,2)] assms(3) by (auto simp: represents_def trie_update_get_eq split: option.splits)
qed

section \<open>Finalizing\<close>

definition final_changes :: "trie_update \<Rightarrow> trie_change list" where
  "final_changes u = map (\<lambda>(raw, c). (raw, rc_data (last (rs_changes c)))) (su_committed u)"

lemma update_ok_entry: "update_ok libs u \<Longrightarrow> (raw, c) \<in> set (su_committed u) \<Longrightarrow> rs_changes c \<noteq> [] \<and> entry_ok libs raw (rs_trie_key c) (rc_data (last (rs_changes c)))"
  by (auto simp: update_ok_def bt_get_mem)

lemma final_changes_eq: "update_ok libs u \<Longrightarrow> those (map committed_change (su_committed u)) = Some (final_changes u)"
  unfolding final_changes_def using update_ok_entry by (intro those_map_Some) (force simp: committed_change_def last_data_def)

lemma final_changes_ok: "libs_ok libs \<Longrightarrow> update_ok libs u \<Longrightarrow> \<forall>c \<in> set (final_changes u). change_ok c"
  using raw_key_bytes update_ok_entry by (fastforce simp: final_changes_def change_ok_def entry_ok_def)

lemma final_changes_value:
  assumes "update_ok libs u"
  shows "changed_value raw (final_changes u) old = unwrap_or old (committed_data u raw)"
proof -
  have fold: "fold (\<lambda>(k, v) x. if k = raw then v else x) cs old = unwrap_or old (map_of cs raw)"
    if "distinct (map fst cs)" for cs :: "trie_change list" and old
    using that
  proof (induction cs arbitrary: old)
    case (Cons c cs)
    obtain k v where c: "c = (k, v)" by (cases c)
    then have "k = raw \<Longrightarrow> map_of cs raw = None" using Cons.prems by (simp add: map_of_eq_None_iff)
    then show ?case using Cons by (auto simp: c)
  qed simp
  have inv: "bt_inv (su_committed u)" using assms by (simp add: update_ok_def)
  then have "distinct (map fst (final_changes u))" using bt_inv_distinct by (force simp: final_changes_def bt_keys_def comp_def case_prod_beta)
  moreover have "map_of (final_changes u) raw = committed_data u raw"
  proof (cases "bt_get (su_committed u) raw")
    case None
    then have "raw \<notin> fst ` set (su_committed u)" by (simp add: bt_get_def map_of_eq_None_iff)
    then have "map_of (final_changes u) raw = None" by (auto simp: final_changes_def map_of_eq_None_iff image_image case_prod_beta)
    then show ?thesis using None by (simp add: committed_data_def)
  next
    case (Some c)
    then have "(raw, c) \<in> set (su_committed u)" using inv by (simp add: bt_get_mem)
    then have "last_data c = Some (rc_data (last (rs_changes c)))" "(raw, rc_data (last (rs_changes c))) \<in> set (final_changes u)"
      using update_ok_entry [OF assms] by (auto simp: last_data_def final_changes_def)
    then show ?thesis using Some calculation by (simp add: committed_data_def)
  qed
  ultimately show ?thesis using fold by (simp add: changed_value_def)
qed

lemma finalize_represents:
  assumes "holds sha ser trie T" and "libs_ok libs" and r: "represents libs trie u s" and p: "su_prospective u = []"
    and "t_mem vr_length T + sum_list (map change_cost (final_changes u)) < 2 ^ 64"
    and "T' = fold (t_change sha) (final_changes u) T" and "inj_on sha (update_data sha ser trie (final_changes u) T')"
    and "\<forall>n \<in> t_nodes sha ser T'. dt_decode trie (ser n) = Some n \<and> sha (ser n) \<noteq> empty_root"
  obtains r where "trie_update_finalize sha ser u = Some (Inr r)" "holds sha ser (apply_insertions trie (sr_trie_changes r)) T'"
    "\<And>k. has_bytes libs k \<Longrightarrow> trie_access_get libs (apply_insertions trie (sr_trie_changes r)) k = Some (Inr (sv_committed s k))"
    "set (cu_contract_deploys (sr_contract_updates r)) = ran (sv_deployed s)" "sr_state_changes r = map snd (su_committed u)"
proof -
  have u: "update_ok libs u" "su_trie u = trie" using r by (simp_all add: represents_def)
  obtain c where c: "update_with_trie_storage sha ser trie (final_changes u) = Some (Inr c)" "holds sha ser (apply_insertions trie c) T'"
    "\<And>key. \<forall>b \<in> set key. b < 256 \<Longrightarrow> \<exists>old. trie_get trie key = Some (Inr old) \<and>
       trie_get (apply_insertions trie c) key = Some (Inr (changed_value key (final_changes u) old))"
    by (rule update_stored [OF assms(1) final_changes_ok [OF assms(2) u(1)] assms(5-8)]) blast
  obtain cu where cu: "contract_storage_finalize (su_contract_storage u) = Some cu" "set (cu_contract_deploys cu) = ran (sv_deployed s)"
    using contracts_finalize [of "su_contract_storage u"] r unfolding represents_def by blast
  have get: "trie_access_get libs (apply_insertions trie c) k = Some (Inr (sv_committed s k))" if k: "has_bytes libs k" for k
  proof -
    obtain raw where raw: "to_vec libs k = Some raw" "key_ok libs k" using k by (auto simp: has_bytes_def)
    then show ?thesis using c(3) [OF raw_key_bytes [OF assms(2) raw(2,1)]] state_at_get [OF assms(1,2) raw(2,1)] final_changes_value [OF u(1)] r
      by (auto simp: trie_access_get_def represents_def)
  qed
  show thesis
  proof (rule that)
    show "trie_update_finalize sha ser u = Some (Inr \<lparr> sr_trie = trie, sr_trie_changes = c, sr_state_changes = map snd (su_committed u), sr_contract_updates = cu \<rparr>)"
      by (simp add: trie_update_finalize_def p final_changes_eq [OF u(1)] u(2) c(1) cu(1))
  qed (use c(2) get cu(2) in simp_all)
qed

text \<open>
  \<open>contains_key\<close> agrees with \<open>get\<close> except on a key that has been removed since the last commit: it
  reports such a key as present.
\<close>

lemma contains_key_eq:
  assumes "holds sha ser trie T" and "libs_ok libs" and "represents libs trie u s" and "key_ok libs k" and "to_vec libs k = Some raw"
  shows "trie_update_contains_key libs u k = Some (Inr (bt_contains (su_prospective u) raw \<or> sv_current s k \<noteq> None))"
proof (cases "current_data u raw")
  case None
  have trie: "trie_contains_key trie raw = Some (Inr (state_at libs trie k \<noteq> None))"
    using lookup_holds [OF assms(1) raw_key_bytes [OF assms(2,4,5)]] get_holds [OF assms(1) raw_key_bytes [OF assms(2,4,5)]] state_at_get [OF assms(1,2,4,5)]
    by (cases "t_lookup T (unpack raw)") (simp_all add: trie_contains_key_def)
  have "sv_current s k = state_at libs trie k" "su_trie u = trie" using assms(3-5) None by (simp_all add: represents_def)
  then show ?thesis using None trie assms(5) by (auto simp: trie_update_contains_key_def current_data_def committed_data_def bt_contains_def split: option.splits)
next
  case (Some d)
  then have "sv_current s k = d" using assms(3-5) by (simp add: represents_def)
  then show ?thesis using Some assms(5) by (auto simp: trie_update_contains_key_def current_data_def committed_data_def bt_contains_def split: option.splits)
qed

lemma contains_key_after_remove:
  assumes "trie_update_remove libs k u = Some u'"
  shows "trie_update_get libs u' k = Some (Inr None)" "trie_update_contains_key libs u' k = Some (Inr True)"
  using assms by (auto simp: trie_update_remove_def bind_eq_Some_conv trie_update_get_def get_from_updates_def trie_update_contains_key_def bt_contains_def bt_insert_get)

section \<open>Properties\<close>

text \<open>
  C2: The state of a shard behaves as a transaction on a map. Whatever values are set and removed, contracts
  deployed, and changes committed or rolled back, none of it panics, and \<open>get\<close> returns for every key the value
  that the last operation on it left: the old value of the trie when nothing was written, and the value at the
  last commit after a rollback. When all is committed and finalized, and the changes are applied to the storage,
  the trie has under the new root exactly these values, and the contracts reported are those whose deployment
  was committed.
\<close>

theorem state_update_end_to_end:
  assumes "holds sha ser trie T" and "libs_ok libs" and "\<forall>op \<in> set ops. op_ok libs op" and "s = fold view_step ops (view_of libs trie)"
  shows "\<exists>u u'. state_run libs ops (trie_update_new trie) = Some u \<and> trie_update_commit cause u = Some u' \<and>
    (\<forall>k. has_bytes libs k \<longrightarrow> trie_update_get libs u k = Some (Inr (sv_current s k)) \<and> trie_update_get libs u' k = Some (Inr (sv_current s k))) \<and>
    (\<forall>T'. t_mem vr_length T + sum_list (map change_cost (final_changes u')) < 2 ^ 64 \<and>
        T' = fold (t_change sha) (final_changes u') T \<and> inj_on sha (update_data sha ser trie (final_changes u') T') \<and>
        (\<forall>n \<in> t_nodes sha ser T'. dt_decode trie (ser n) = Some n \<and> sha (ser n) \<noteq> empty_root) \<longrightarrow>
      (\<exists>r. trie_update_finalize sha ser u' = Some (Inr r) \<and> holds sha ser (apply_insertions trie (sr_trie_changes r)) T' \<and>
         (\<forall>k. has_bytes libs k \<longrightarrow> trie_access_get libs (apply_insertions trie (sr_trie_changes r)) k = Some (Inr (sv_current s k))) \<and>
         set (cu_contract_deploys (sr_contract_updates r)) = ran (sv_deploying s)))"
proof -
  obtain u where u: "state_run libs ops (trie_update_new trie) = Some u" "represents libs trie u s"
    using represents_run [OF assms(2) represents_start assms(3)] assms(4) by blast
  obtain u' where u': "trie_update_commit cause u = Some u'" "represents libs trie u' (view_step (CommitOp cause) s)"
    using represents_step [OF assms(2) u(2), of "CommitOp cause"] by auto
  have "su_prospective u' = []" using u'(1) by (auto simp: trie_update_commit_def bind_eq_Some_conv bt_empty_def)
  note fin = finalize_represents [OF assms(1,2) u'(2) this]
  have get: "trie_update_get libs u k = Some (Inr (sv_current s k))" "trie_update_get libs u' k = Some (Inr (sv_current s k))" if k: "has_bytes libs k" for k
    using represents_get [OF assms(1,2) u(2) k] represents_get [OF assms(1,2) u'(2) k] by simp_all
  have "\<exists>r. trie_update_finalize sha ser u' = Some (Inr r) \<and> holds sha ser (apply_insertions trie (sr_trie_changes r)) T' \<and>
      (\<forall>k. has_bytes libs k \<longrightarrow> trie_access_get libs (apply_insertions trie (sr_trie_changes r)) k = Some (Inr (sv_current s k))) \<and>
      set (cu_contract_deploys (sr_contract_updates r)) = ran (sv_deploying s)"
    if "t_mem vr_length T + sum_list (map change_cost (final_changes u')) < 2 ^ 64"
      "T' = fold (t_change sha) (final_changes u') T" "inj_on sha (update_data sha ser trie (final_changes u') T')"
      "\<forall>n \<in> t_nodes sha ser T'. dt_decode trie (ser n) = Some n \<and> sha (ser n) \<noteq> empty_root" for T'
    by (rule fin [OF that]) auto
  then show ?thesis using u(1) u'(1) get by blast
qed

text \<open>A value that is committed, one that is rolled back, and a removal.\<close>

definition example_ops :: "state_op list" where
  "example_ops =
     [SetOp DelayedReceiptIndices [5], CommitOp InitialState, SetOp PromiseYieldIndices [1], RollbackOp, RemoveOp BandwidthSchedulerState]"

definition state_leaf :: "value_ref trie" where
  "state_leaf = TLeaf [0, 7] (value_ref_new example_sha [5])"

definition state_disk :: disk_trie where
  "state_disk = \<lparr> dt_storage = (\<lambda>h. Inl (MissingTrieValue h)),
     dt_decode = (\<lambda>b. find (\<lambda>n. example_ser n = b) [t_raw example_sha example_ser state_leaf]), dt_root = empty_root \<rparr>"

lemma state_disk_holds: "holds example_sha example_ser state_disk TEmpty"
  by (auto simp: holds_def content_addressed_def state_disk_def find_Some_iff)

lemma example_final_changes:
  assumes "state_run example_libs example_ops (trie_update_new state_disk) = Some u" and "trie_update_commit cause u = Some u'"
  shows "final_changes u' = [([7], Some [5]), ([15], None)]"
  using assms
  by (auto simp: example_ops_def trie_update_new_def trie_update_set_def trie_update_remove_def trie_update_commit_def trie_update_rollback_def
      to_vec_def commit_deploys_def rollback_deploys_def with_tracker_def contract_storage_new_def bt_empty_def bt_get_def last_data_def final_changes_def Let_def)

theorem state_update_end_to_end_witness:
  "\<exists>u u' r. state_run example_libs example_ops (trie_update_new state_disk) = Some u \<and> trie_update_commit Migration u = Some u' \<and>
    trie_update_finalize example_sha example_ser u' = Some (Inr r) \<and>
    trie_access_get example_libs (apply_insertions state_disk (sr_trie_changes r)) DelayedReceiptIndices = Some (Inr (Some [5])) \<and>
    trie_access_get example_libs (apply_insertions state_disk (sr_trie_changes r)) PromiseYieldIndices = Some (Inr None)"
proof -
  let ?s = "fold view_step example_ops (view_of example_libs state_disk)"
  have b: "has_bytes example_libs DelayedReceiptIndices" "has_bytes example_libs PromiseYieldIndices" "has_bytes example_libs BandwidthSchedulerState"
    by (simp_all add: has_bytes_def to_vec_def)
  then have ops: "\<forall>op \<in> set example_ops. op_ok example_libs op" by (simp add: example_ops_def)
  obtain u u' where u: "state_run example_libs example_ops (trie_update_new state_disk) = Some u" "trie_update_commit Migration u = Some u'"
    and fin: "\<forall>T'. t_mem vr_length (TEmpty :: value_ref trie) + sum_list (map change_cost (final_changes u')) < 2 ^ 64 \<and>
        T' = fold (t_change example_sha) (final_changes u') TEmpty \<and> inj_on example_sha (update_data example_sha example_ser state_disk (final_changes u') T') \<and>
        (\<forall>n \<in> t_nodes example_sha example_ser T'. dt_decode state_disk (example_ser n) = Some n \<and> example_sha (example_ser n) \<noteq> empty_root) \<longrightarrow>
      (\<exists>r. trie_update_finalize example_sha example_ser u' = Some (Inr r) \<and> holds example_sha example_ser (apply_insertions state_disk (sr_trie_changes r)) T' \<and>
         (\<forall>k. has_bytes example_libs k \<longrightarrow> trie_access_get example_libs (apply_insertions state_disk (sr_trie_changes r)) k = Some (Inr (sv_current ?s k))) \<and>
         set (cu_contract_deploys (sr_contract_updates r)) = ran (sv_deploying ?s))"
    using state_update_end_to_end [OF state_disk_holds example_libs_ok ops refl, of Migration] by blast
  note c = example_final_changes [OF u]
  have T: "state_leaf = fold (t_change example_sha) (final_changes u') TEmpty"
    "t_mem vr_length (TEmpty :: value_ref trie) + sum_list (map change_cost (final_changes u')) < 2 ^ 64"
    by (simp_all add: c state_leaf_def)
  have "example_sha (example_ser n) \<noteq> empty_root" for n
    by (auto simp: example_sha_def example_ser_def empty_root_def crypto_hash_new_def crypto_hash_length_def dest!: arg_cong [of _ _ length])
  then have N: "\<forall>n \<in> t_nodes example_sha example_ser state_leaf. dt_decode state_disk (example_ser n) = Some n \<and> example_sha (example_ser n) \<noteq> empty_root"
    by (simp add: state_disk_def) (simp add: state_leaf_def)
  obtain r where r: "trie_update_finalize example_sha example_ser u' = Some (Inr r)"
    "\<And>k. has_bytes example_libs k \<Longrightarrow> trie_access_get example_libs (apply_insertions state_disk (sr_trie_changes r)) k = Some (Inr (sv_current ?s k))"
    using mp [OF spec [OF fin, of state_leaf]] T N example_inj by blast
  have "sv_current ?s DelayedReceiptIndices = Some [5]" "sv_current ?s PromiseYieldIndices = state_at example_libs state_disk PromiseYieldIndices"
    by (simp_all add: example_ops_def view_of_def)
  moreover have "state_at example_libs state_disk PromiseYieldIndices = None"
    using get_holds [OF state_disk_holds, of "[10]"] by (simp add: state_at_def trie_access_get_def to_vec_def)
  ultimately show ?thesis using u r b by auto
qed

end
