(* ===== verification/Trie_Queue.thy ===== *)
theory Trie_Queue
  imports State_Update
begin

text \<open>
  The queues that a shard keeps in its state (\<open>core/store/src/trie/receipts_column_helper.rs\<close>): delayed receipts
  and the buffers of outgoing receipts.  The code shared by the queues is the trait \<open>TrieQueue\<close>; here it is a
  record of the functions that an implementation provides, an argument of the shared operations.  What the
  operations rely on is the locale \<open>persistent_queue\<close>.  The Borsh encoding of the stored values is a parameter.
  \<open>debug_check_unchanged\<close> runs in debug builds only and is left out; that what it asserts holds is part of
  \<open>queue_holds\<close>.  The indices inside the messages of errors are left out.
\<close>

section \<open>Stored values\<close>

record 'a borsh =
  bo_to_vec :: "'a \<Rightarrow> byte list"
  bo_try_from_slice :: "byte list \<Rightarrow> 'a option"

type_synonym trie_access = "trie_key \<Rightarrow> byte list option outcome"

definition state_get :: "'a borsh \<Rightarrow> trie_access \<Rightarrow> trie_key \<Rightarrow> 'a option outcome" where
  "state_get B trie key =
     rtry (trie key) (\<lambda>r. case r of
       None \<Rightarrow> Some (Inr None)
     | Some data \<Rightarrow>
         (case bo_try_from_slice B data of
            None \<Rightarrow> Some (Inl (StorageInconsistentState ''Failed to deserialize. err''))
          | Some value \<Rightarrow> Some (Inr (Some value))))"

definition state_get_pure :: "'a borsh \<Rightarrow> trie_access \<Rightarrow> trie_key \<Rightarrow> 'a option outcome" where
  "state_get_pure B trie key =
     rtry (trie key) (\<lambda>r. case r of
       None \<Rightarrow> Some (Inr None)
     | Some data \<Rightarrow>
         (case bo_try_from_slice B data of
            None \<Rightarrow> Some (Inl (StorageInconsistentState ''Failed to deserialize''))
          | Some value \<Rightarrow> Some (Inr (Some value))))"

definition state_set :: "'a borsh \<Rightarrow> key_libs \<Rightarrow> trie_key \<Rightarrow> 'a \<Rightarrow> trie_update \<Rightarrow> trie_update option" where
  "state_set B libs key value u = trie_update_set libs key (bo_to_vec B value) u"

section \<open>Queues\<close>

record trie_queue_indices =
  qi_first_index :: nat
  qi_next_available_index :: nat

definition indices_default :: trie_queue_indices where
  "indices_default = \<lparr> qi_first_index = 0, qi_next_available_index = 0 \<rparr>"

definition indices_len :: "trie_queue_indices \<Rightarrow> nat option" where
  "indices_len i = checked_sub (qi_next_available_index i) (qi_first_index i)"

definition indices_is_default :: "trie_queue_indices \<Rightarrow> bool" where
  "indices_is_default i \<longleftrightarrow> qi_next_available_index i = 0"

text \<open>\<open>tq_set_indices\<close> is the assignment through \<open>indices_mut\<close>.\<close>

record ('q, 'a) trie_queue =
  tq_load_indices :: "'q \<Rightarrow> trie_access \<Rightarrow> trie_queue_indices outcome"
  tq_indices :: "'q \<Rightarrow> trie_queue_indices"
  tq_set_indices :: "trie_queue_indices \<Rightarrow> 'q \<Rightarrow> 'q"
  tq_write_indices :: "'q \<Rightarrow> trie_update \<Rightarrow> trie_update option"
  tq_trie_key :: "'q \<Rightarrow> nat \<Rightarrow> trie_key"
  tq_item :: "'a borsh"

datatype integer_overflow_error = IntegerOverflowError

definition push_back ::
  "key_libs \<Rightarrow> ('q, 'a) trie_queue \<Rightarrow> 'a \<Rightarrow> 'q \<times> trie_update \<Rightarrow> ((integer_overflow_error + unit) \<times> 'q \<times> trie_update) option" where
  "push_back libs Q item s =
     (case s of (q, u) \<Rightarrow>
      do {
        let index = qi_next_available_index (tq_indices Q q);
        let key = tq_trie_key Q q index;
        u \<leftarrow> state_set (tq_item Q) libs key item u;
        case checked_add u64_w index 1 of
          None \<Rightarrow> Some (Inl IntegerOverflowError, q, u)
        | Some next \<Rightarrow>
            do {
              let q = tq_set_indices Q ((tq_indices Q q)\<lparr>qi_next_available_index := next\<rparr>) q;
              u \<leftarrow> tq_write_indices Q q u;
              Some (Inr (), q, u)
            }
      })"

definition missing_item :: storage_error where
  "missing_item = StorageInconsistentState ''TrieQueue::Item should be in the state''"

definition pop_front :: "key_libs \<Rightarrow> ('q, 'a) trie_queue \<Rightarrow> 'q \<times> trie_update \<Rightarrow> ('a option \<times> 'q \<times> trie_update) outcome" where
  "pop_front libs Q s =
     (case s of (q, u) \<Rightarrow>
      let indices = tq_indices Q q in
      if qi_next_available_index indices \<le> qi_first_index indices then Some (Inr (None, q, u))
      else
        let key = tq_trie_key Q q (qi_first_index indices) in
        rtry (state_get (tq_item Q) (trie_update_get libs u) key) (\<lambda>r. case r of
          None \<Rightarrow> Some (Inl missing_item)
        | Some item \<Rightarrow>
            do {
              u \<leftarrow> trie_update_remove libs key u;
              first \<leftarrow> checked_add u64_w (qi_first_index indices) 1;
              let q = tq_set_indices Q (indices\<lparr>qi_first_index := first\<rparr>) q;
              u \<leftarrow> tq_write_indices Q q u;
              Some (Inr (Some item, q, u))
            }))"

definition pop_back :: "key_libs \<Rightarrow> ('q, 'a) trie_queue \<Rightarrow> 'q \<times> trie_update \<Rightarrow> ('a option \<times> 'q \<times> trie_update) outcome" where
  "pop_back libs Q s =
     (case s of (q, u) \<Rightarrow>
      let indices = tq_indices Q q in
      if qi_next_available_index indices \<le> qi_first_index indices then Some (Inr (None, q, u))
      else
        do {
          last_item_index \<leftarrow> checked_sub (qi_next_available_index indices) 1;
          let key = tq_trie_key Q q last_item_index;
          rtry (state_get (tq_item Q) (trie_update_get libs u) key) (\<lambda>r. case r of
            None \<Rightarrow> Some (Inl missing_item)
          | Some item \<Rightarrow>
              do {
                u \<leftarrow> trie_update_remove libs key u;
                let q = tq_set_indices Q (indices\<lparr>qi_next_available_index := last_item_index\<rparr>) q;
                u \<leftarrow> tq_write_indices Q q u;
                Some (Inr (Some item, q, u))
              })
        })"

text \<open>The function that modifies the item may panic.\<close>

definition modify_first ::
  "key_libs \<Rightarrow> ('q, 'a) trie_queue \<Rightarrow> ('a \<Rightarrow> 'a option option) \<Rightarrow> 'q \<times> trie_update \<Rightarrow> ('q \<times> trie_update) outcome" where
  "modify_first libs Q modify_fn s =
     (case s of (q, u) \<Rightarrow>
      let indices = tq_indices Q q in
      if qi_next_available_index indices \<le> qi_first_index indices then None
      else
        let key = tq_trie_key Q q (qi_first_index indices) in
        rtry (state_get (tq_item Q) (trie_update_get libs u) key) (\<lambda>r. case r of
          None \<Rightarrow> Some (Inl missing_item)
        | Some first_item \<Rightarrow>
            do {
              modified_item \<leftarrow> modify_fn first_item;
              case modified_item of
                Some item \<Rightarrow>
                  do { u \<leftarrow> state_set (tq_item Q) libs key item u; u \<leftarrow> tq_write_indices Q q u; Some (Inr (q, u)) }
              | None \<Rightarrow> rtry (pop_front libs Q (q, u)) (\<lambda>(_, s). Some (Inr s))
            }))"

text \<open>It always returns \<open>Ok\<close>, so the result is the number alone.\<close>

definition pop_n :: "key_libs \<Rightarrow> ('q, 'a) trie_queue \<Rightarrow> nat \<Rightarrow> 'q \<times> trie_update \<Rightarrow> (nat \<times> 'q \<times> trie_update) option" where
  "pop_n libs Q n s =
     (case s of (q, u) \<Rightarrow>
      do {
        let indices = tq_indices Q q;
        let to_remove = min n (unwrap_or 0 (checked_sub (qi_next_available_index indices) (qi_first_index indices)));
        stop \<leftarrow> checked_add u64_w (qi_first_index indices) to_remove;
        u \<leftarrow> fold_opt (\<lambda>index. trie_update_remove libs (tq_trie_key Q q index)) [qi_first_index indices..<stop] u;
        if 0 < to_remove then
          do {
            first \<leftarrow> checked_add u64_w (qi_first_index indices) to_remove;
            let q = tq_set_indices Q (indices\<lparr>qi_first_index := first\<rparr>) q;
            u \<leftarrow> tq_write_indices Q q u;
            Some (to_remove, q, u)
          }
        else Some (to_remove, q, u)
      })"

definition queue_len :: "('q, 'a) trie_queue \<Rightarrow> 'q \<Rightarrow> nat option" where
  "queue_len Q q = indices_len (tq_indices Q q)"

text \<open>The iterator over the items is the range of the indices still to be visited.\<close>

definition queue_iter :: "('q, 'a) trie_queue \<Rightarrow> 'q \<Rightarrow> nat \<times> nat" where
  "queue_iter Q q = (qi_first_index (tq_indices Q q), qi_next_available_index (tq_indices Q q))"

definition iter_value :: "('q, 'a) trie_queue \<Rightarrow> 'q \<Rightarrow> trie_access \<Rightarrow> bool \<Rightarrow> nat \<Rightarrow> (storage_error + 'a) option" where
  "iter_value Q q trie side_effects index =
     (let key = tq_trie_key Q q index;
          value = (if side_effects then state_get (tq_item Q) trie key else state_get_pure (tq_item Q) trie key) in
      map_option (\<lambda>r. case r of
          Inl e \<Rightarrow> Inl e
        | Inr None \<Rightarrow> Inl (StorageInconsistentState ''TrieQueue::Item referenced by index should be in the state'')
        | Inr (Some item) \<Rightarrow> Inr item) value)"

definition queue_iter_next ::
  "('q, 'a) trie_queue \<Rightarrow> 'q \<Rightarrow> trie_access \<Rightarrow> bool \<Rightarrow> nat \<times> nat \<Rightarrow> ((storage_error + 'a) option \<times> nat \<times> nat) option" where
  "queue_iter_next Q q trie side_effects it =
     (case it of (start, stop) \<Rightarrow>
        if start < stop then do { result \<leftarrow> iter_value Q q trie side_effects start; Some (Some result, Suc start, stop) }
        else Some (None, it))"

definition queue_iter_next_back ::
  "('q, 'a) trie_queue \<Rightarrow> 'q \<Rightarrow> trie_access \<Rightarrow> bool \<Rightarrow> nat \<times> nat \<Rightarrow> ((storage_error + 'a) option \<times> nat \<times> nat) option" where
  "queue_iter_next_back Q q trie side_effects it =
     (case it of (start, stop) \<Rightarrow>
        if start < stop then do { result \<leftarrow> iter_value Q q trie side_effects (stop - 1); Some (Some result, start, stop - 1) }
        else Some (None, it))"

text \<open>All that the iterator returns.\<close>

function queue_items :: "('q, 'a) trie_queue \<Rightarrow> 'q \<Rightarrow> trie_access \<Rightarrow> bool \<Rightarrow> nat \<times> nat \<Rightarrow> (storage_error + 'a) list option" where
  "queue_items Q q trie side_effects it =
     do {
       r \<leftarrow> queue_iter_next Q q trie side_effects it;
       case r of
         (None, _) \<Rightarrow> Some []
       | (Some result, it) \<Rightarrow> do { results \<leftarrow> queue_items Q q trie side_effects it; Some (result # results) }
     }"
  by auto
termination
  by (relation "measure (\<lambda>(Q, q, trie, side_effects, start, stop). stop - start)")
    (auto simp: queue_iter_next_def bind_eq_Some_conv split: if_splits prod.splits)

declare queue_items.simps [simp del]

section \<open>Delayed receipts\<close>

record delayed_receipt_indices =
  di_first_index :: nat
  di_next_available_index :: nat

definition delayed_indices_default :: delayed_receipt_indices where
  "delayed_indices_default = \<lparr> di_first_index = 0, di_next_available_index = 0 \<rparr>"

definition delayed_indices_len :: "delayed_receipt_indices \<Rightarrow> nat option" where
  "delayed_indices_len i = checked_sub (di_next_available_index i) (di_first_index i)"

definition indices_from_delayed :: "delayed_receipt_indices \<Rightarrow> trie_queue_indices" where
  "indices_from_delayed other = \<lparr> qi_first_index = di_first_index other, qi_next_available_index = di_next_available_index other \<rparr>"

definition delayed_from_indices :: "trie_queue_indices \<Rightarrow> delayed_receipt_indices" where
  "delayed_from_indices other = \<lparr> di_first_index = qi_first_index other, di_next_available_index = qi_next_available_index other \<rparr>"

definition get_delayed_receipt_indices :: "delayed_receipt_indices borsh \<Rightarrow> trie_access \<Rightarrow> delayed_receipt_indices outcome" where
  "get_delayed_receipt_indices B trie =
     rtry (state_get B trie DelayedReceiptIndices) (\<lambda>r. Some (Inr (unwrap_or delayed_indices_default r)))"

record delayed_receipt_queue =
  dq_indices :: trie_queue_indices

definition delayed_receipt_queue_load :: "delayed_receipt_indices borsh \<Rightarrow> trie_access \<Rightarrow> delayed_receipt_queue outcome" where
  "delayed_receipt_queue_load B trie =
     rtry (get_delayed_receipt_indices B trie) (\<lambda>indices. Some (Inr \<lparr> dq_indices = indices_from_delayed indices \<rparr>))"

text \<open>The indices are written in one type and read in another with the same fields.\<close>

definition delayed_receipts ::
  "key_libs \<Rightarrow> delayed_receipt_indices borsh \<Rightarrow> trie_queue_indices borsh \<Rightarrow> 'r borsh \<Rightarrow> (delayed_receipt_queue, 'r) trie_queue" where
  "delayed_receipts libs BD BQ BR =
     \<lparr> tq_load_indices = (\<lambda>_ trie. rtry (get_delayed_receipt_indices BD trie) (\<lambda>i. Some (Inr (indices_from_delayed i)))),
       tq_indices = dq_indices,
       tq_set_indices = (\<lambda>i q. q\<lparr>dq_indices := i\<rparr>),
       tq_write_indices = (\<lambda>q. state_set BQ libs DelayedReceiptIndices (dq_indices q)),
       tq_trie_key = (\<lambda>_ index. DelayedReceipt index),
       tq_item = BR \<rparr>"

section \<open>Buffers of outgoing receipts\<close>

record buffered_receipt_indices =
  bi_shard_buffers :: "(shard_id, trie_queue_indices) btree"

definition buffered_indices_default :: buffered_receipt_indices where
  "buffered_indices_default = \<lparr> bi_shard_buffers = bt_empty \<rparr>"

definition get_buffered_receipt_indices :: "buffered_receipt_indices borsh \<Rightarrow> trie_access \<Rightarrow> buffered_receipt_indices outcome" where
  "get_buffered_receipt_indices B trie =
     rtry (state_get B trie BufferedReceiptIndices) (\<lambda>r. Some (Inr (unwrap_or buffered_indices_default r)))"

record shards_outgoing_receipt_buffer =
  sb_shards_indices :: buffered_receipt_indices

record outgoing_receipt_buffer =
  ob_shard_id :: shard_id
  ob_parent :: shards_outgoing_receipt_buffer

definition outgoing_buffer_load :: "buffered_receipt_indices borsh \<Rightarrow> trie_access \<Rightarrow> shards_outgoing_receipt_buffer outcome" where
  "outgoing_buffer_load B trie =
     rtry (get_buffered_receipt_indices B trie) (\<lambda>shards_indices. Some (Inr \<lparr> sb_shards_indices = shards_indices \<rparr>))"

definition to_shard :: "shard_id \<Rightarrow> shards_outgoing_receipt_buffer \<Rightarrow> outgoing_receipt_buffer" where
  "to_shard shard_id b = \<lparr> ob_shard_id = shard_id, ob_parent = b \<rparr>"

definition buffer_shards :: "shards_outgoing_receipt_buffer \<Rightarrow> shard_id list" where
  "buffer_shards b = bt_keys (bi_shard_buffers (sb_shards_indices b))"

definition buffer_len :: "shard_id \<Rightarrow> shards_outgoing_receipt_buffer \<Rightarrow> nat option option" where
  "buffer_len shard_id b =
     (case bt_get (bi_shard_buffers (sb_shards_indices b)) shard_id of
        None \<Rightarrow> Some None
      | Some i \<Rightarrow> map_option Some (indices_len i))"

definition buffer_write_indices ::
  "key_libs \<Rightarrow> buffered_receipt_indices borsh \<Rightarrow> shards_outgoing_receipt_buffer \<Rightarrow> trie_update \<Rightarrow> trie_update option" where
  "buffer_write_indices libs B b = state_set B libs BufferedReceiptIndices (sb_shards_indices b)"

definition buffer_indices :: "outgoing_receipt_buffer \<Rightarrow> trie_queue_indices" where
  "buffer_indices q = unwrap_or indices_default (bt_get (bi_shard_buffers (sb_shards_indices (ob_parent q))) (ob_shard_id q))"

definition buffer_set_indices :: "trie_queue_indices \<Rightarrow> outgoing_receipt_buffer \<Rightarrow> outgoing_receipt_buffer" where
  "buffer_set_indices i q =
     q\<lparr>ob_parent := \<lparr> sb_shards_indices = \<lparr> bi_shard_buffers = bt_insert (ob_shard_id q) i (bi_shard_buffers (sb_shards_indices (ob_parent q))) \<rparr> \<rparr>\<rparr>"

definition outgoing_receipts :: "key_libs \<Rightarrow> buffered_receipt_indices borsh \<Rightarrow> 'r borsh \<Rightarrow> (outgoing_receipt_buffer, 'r) trie_queue" where
  "outgoing_receipts libs BB BR =
     \<lparr> tq_load_indices = (\<lambda>q trie.
         rtry (state_get BB trie BufferedReceiptIndices) (\<lambda>r.
         let all_indices = unwrap_or buffered_indices_default r in
         Some (Inr (unwrap_or indices_default (bt_get (bi_shard_buffers all_indices) (ob_shard_id q)))))),
       tq_indices = buffer_indices,
       tq_set_indices = buffer_set_indices,
       tq_write_indices = (\<lambda>q. buffer_write_indices libs BB (ob_parent q)),
       tq_trie_key = (\<lambda>q index. BufferedReceipt (ob_shard_id q) index),
       tq_item = BR \<rparr>"

section \<open>Sequences of operations\<close>

datatype 'a queue_op = PushBack 'a | PopFront | PopBack | PopN nat

datatype 'a queue_out = Pushed "integer_overflow_error + unit" | Popped "'a option" | Removed nat

fun queue_step :: "key_libs \<Rightarrow> ('q, 'a) trie_queue \<Rightarrow> 'a queue_op \<Rightarrow> 'q \<times> trie_update \<Rightarrow> ('a queue_out \<times> 'q \<times> trie_update) outcome" where
  "queue_step libs Q (PushBack x) s = do { (r, s) \<leftarrow> push_back libs Q x s; Some (Inr (Pushed r, s)) }"
| "queue_step libs Q PopFront s = rtry (pop_front libs Q s) (\<lambda>(x, s). Some (Inr (Popped x, s)))"
| "queue_step libs Q PopBack s = rtry (pop_back libs Q s) (\<lambda>(x, s). Some (Inr (Popped x, s)))"
| "queue_step libs Q (PopN n) s = do { (m, s) \<leftarrow> pop_n libs Q n s; Some (Inr (Removed m, s)) }"

text \<open>The same on a list.\<close>

fun list_step :: "'a queue_op \<Rightarrow> 'a list \<Rightarrow> 'a queue_out \<times> 'a list" where
  "list_step (PushBack x) xs = (Pushed (Inr ()), xs @ [x])"
| "list_step PopFront xs = (case xs of [] \<Rightarrow> (Popped None, []) | x # xs \<Rightarrow> (Popped (Some x), xs))"
| "list_step PopBack xs = (if xs = [] then (Popped None, []) else (Popped (Some (last xs)), butlast xs))"
| "list_step (PopN n) xs = (Removed (min n (length xs)), drop n xs)"

text \<open>Operations on the buffers to several shards, which share their indices.\<close>

definition buffer_step ::
  "key_libs \<Rightarrow> buffered_receipt_indices borsh \<Rightarrow> 'r borsh \<Rightarrow> shard_id \<times> 'r queue_op \<Rightarrow> shards_outgoing_receipt_buffer \<times> trie_update \<Rightarrow>
   ('r queue_out \<times> shards_outgoing_receipt_buffer \<times> trie_update) outcome" where
  "buffer_step libs BB BR op s =
     rtry (queue_step libs (outgoing_receipts libs BB BR) (snd op) (to_shard (fst op) (fst s), snd s))
       (\<lambda>(out, q, u). Some (Inr (out, ob_parent q, u)))"

fun buffer_run ::
  "key_libs \<Rightarrow> buffered_receipt_indices borsh \<Rightarrow> 'r borsh \<Rightarrow> (shard_id \<times> 'r queue_op) list \<Rightarrow> shards_outgoing_receipt_buffer \<times> trie_update \<Rightarrow>
   ('r queue_out list \<times> shards_outgoing_receipt_buffer \<times> trie_update) outcome" where
  "buffer_run libs BB BR [] s = Some (Inr ([], s))"
| "buffer_run libs BB BR (op # ops) s =
     rtry (buffer_step libs BB BR op s) (\<lambda>(out, s). rtry (buffer_run libs BB BR ops s) (\<lambda>(outs, s). Some (Inr (out # outs, s))))"

fun lists_run :: "(shard_id \<times> 'r queue_op) list \<Rightarrow> (shard_id \<Rightarrow> 'r list) \<Rightarrow> 'r queue_out list \<times> (shard_id \<Rightarrow> 'r list)" where
  "lists_run [] f = ([], f)"
| "lists_run (op # ops) f =
     (let (out, xs) = list_step (snd op) (f (fst op)); (outs, f) = lists_run ops (f(fst op := xs)) in (out # outs, f))"

section \<open>What a queue holds\<close>

definition queue_holds :: "key_libs \<Rightarrow> ('q, 'a) trie_queue \<Rightarrow> 'q \<Rightarrow> trie_update \<Rightarrow> 'a list \<Rightarrow> bool" where
  "queue_holds libs Q q u xs \<longleftrightarrow>
     qi_next_available_index (tq_indices Q q) = qi_first_index (tq_indices Q q) + length xs \<and>
     qi_next_available_index (tq_indices Q q) < 2 ^ 64 \<and>
     (\<forall>j < length xs. state_get (tq_item Q) (trie_update_get libs u) (tq_trie_key Q q (qi_first_index (tq_indices Q q) + j)) = Some (Inr (Some (xs ! j)))) \<and>
     tq_load_indices Q q (trie_update_get libs u) = Some (Inr (tq_indices Q q))"

definition encodes :: "'a borsh \<Rightarrow> 'a \<Rightarrow> bool" where
  "encodes B x \<longleftrightarrow> bo_try_from_slice B (bo_to_vec B x) = Some x"

definition indices_ok :: "trie_queue_indices \<Rightarrow> bool" where
  "indices_ok i \<longleftrightarrow> qi_first_index i < 2 ^ 64 \<and> qi_next_available_index i < 2 ^ 64"

text \<open>Reading after a write or a removal.\<close>

lemma set_get:
  assumes "libs_ok libs" and "has_bytes libs k"
  shows "\<exists>u'. trie_update_set libs k v u = Some u' \<and>
    (\<forall>k'. has_bytes libs k' \<longrightarrow> trie_update_get libs u' k' = (if k' = k then Some (Inr (Some v)) else trie_update_get libs u k'))"
proof -
  obtain raw where raw: "to_vec libs k = Some raw" "key_ok libs k" using assms(2) by (auto simp: has_bytes_def)
  have "raw' \<noteq> raw" if "key_ok libs k'" "to_vec libs k' = Some raw'" "k' \<noteq> k" for k' raw' using to_vec_inject [OF assms(1)] that raw by blast
  then show ?thesis using raw by (auto simp: trie_update_set_def has_bytes_def trie_update_get_def get_from_updates_def bt_insert_get cong: option.case_cong)
qed

lemma remove_get:
  assumes "libs_ok libs" and "has_bytes libs k"
  shows "\<exists>u'. trie_update_remove libs k u = Some u' \<and>
    (\<forall>k'. has_bytes libs k' \<longrightarrow> trie_update_get libs u' k' = (if k' = k then Some (Inr None) else trie_update_get libs u k'))"
proof -
  obtain raw where raw: "to_vec libs k = Some raw" "key_ok libs k" using assms(2) by (auto simp: has_bytes_def)
  have "raw' \<noteq> raw" if "key_ok libs k'" "to_vec libs k' = Some raw'" "k' \<noteq> k" for k' raw' using to_vec_inject [OF assms(1)] that raw by blast
  then show ?thesis using raw by (auto simp: trie_update_remove_def has_bytes_def trie_update_get_def get_from_updates_def bt_insert_get cong: option.case_cong)
qed

lemma set_trie: "trie_update_set libs k v u = Some u' \<Longrightarrow> su_trie u' = su_trie u"
  by (auto simp: trie_update_set_def bind_eq_Some_conv)

lemma remove_trie: "trie_update_remove libs k u = Some u' \<Longrightarrow> su_trie u' = su_trie u"
  by (auto simp: trie_update_remove_def bind_eq_Some_conv)

lemma state_get_cong: "trie k = trie' k \<Longrightarrow> state_get B trie k = state_get B trie' k"
  by (simp add: state_get_def)

lemma state_get_value: "trie k = Some (Inr (Some (bo_to_vec B x))) \<Longrightarrow> encodes B x \<Longrightarrow> state_get B trie k = Some (Inr (Some x))"
  by (simp add: state_get_def encodes_def)

text \<open>The trie below the changes stays the same, and no other key is written.\<close>

definition unchanged_but :: "key_libs \<Rightarrow> trie_key set \<Rightarrow> trie_update \<Rightarrow> trie_update \<Rightarrow> bool" where
  "unchanged_but libs K u u' \<longleftrightarrow> su_trie u' = su_trie u \<and> (\<forall>k. has_bytes libs k \<and> k \<notin> K \<longrightarrow> trie_update_get libs u' k = trie_update_get libs u k)"

lemma unchanged_refl: "unchanged_but libs K u u"
  by (simp add: unchanged_but_def)

lemma unchanged_trans: "unchanged_but libs K u u' \<Longrightarrow> unchanged_but libs K u' u'' \<Longrightarrow> unchanged_but libs K u u''"
  by (simp add: unchanged_but_def)

lemma queue_item:
  assumes "queue_holds libs Q q u xs" and "j < length xs"
    and "trie_update_get libs u' (tq_trie_key Q q (qi_first_index (tq_indices Q q) + j)) = trie_update_get libs u (tq_trie_key Q q (qi_first_index (tq_indices Q q) + j))"
  shows "state_get (tq_item Q) (trie_update_get libs u') (tq_trie_key Q q (qi_first_index (tq_indices Q q) + j)) = Some (Inr (Some (xs ! j)))"
  using assms by (simp add: queue_holds_def state_get_def)

section \<open>The interface of a queue\<close>

locale persistent_queue =
  fixes libs :: key_libs
    and Q :: "('q, 'a) trie_queue"
    and valid :: "'q \<Rightarrow> bool"
    and meta :: "'q \<Rightarrow> trie_key"
  assumes libs: "valid q \<Longrightarrow> libs_ok libs"
    and indices_set: "tq_indices Q (tq_set_indices Q i q) = i"
    and key_set: "tq_trie_key Q (tq_set_indices Q i q) = tq_trie_key Q q"
    and meta_set: "meta (tq_set_indices Q i q) = meta q"
    and valid_set: "valid q \<Longrightarrow> indices_ok i \<Longrightarrow> valid (tq_set_indices Q i q)"
    and key_bytes: "valid q \<Longrightarrow> n < 2 ^ 64 \<Longrightarrow> has_bytes libs (tq_trie_key Q q n)"
    and meta_bytes: "valid q \<Longrightarrow> has_bytes libs (meta q)"
    and key_inject: "tq_trie_key Q q m = tq_trie_key Q q n \<longleftrightarrow> m = n"
    and meta_item: "tq_trie_key Q q n \<noteq> meta q"
    and written: "valid q \<Longrightarrow> \<exists>v. (\<forall>u. tq_write_indices Q q u = trie_update_set libs (meta q) v u) \<and>
      (\<forall>trie. trie (meta q) = Some (Inr (Some v)) \<longrightarrow> tq_load_indices Q q trie = Some (Inr (tq_indices Q q)))"
    and load_frame: "trie (meta q) = trie' (meta q) \<Longrightarrow> tq_load_indices Q q trie = tq_load_indices Q q trie'"
begin

lemma holds_frame:
  assumes "queue_holds libs Q q u xs" and "valid q" and "unchanged_but libs K u u'" and "K \<inter> insert (meta q) (range (tq_trie_key Q q)) = {}"
  shows "queue_holds libs Q q u' xs"
proof -
  have m: "trie_update_get libs u' (meta q) = trie_update_get libs u (meta q)" using assms(3,4) meta_bytes [OF assms(2)] by (auto simp: unchanged_but_def)
  have "trie_update_get libs u' (tq_trie_key Q q n) = trie_update_get libs u (tq_trie_key Q q n)" if "n < 2 ^ 64" for n
    using assms(3,4) key_bytes [OF assms(2) that] by (auto simp: unchanged_but_def)
  then have "state_get (tq_item Q) (trie_update_get libs u') (tq_trie_key Q q n) = state_get (tq_item Q) (trie_update_get libs u) (tq_trie_key Q q n)" if "n < 2 ^ 64" for n
    using that by (intro state_get_cong)
  then show ?thesis using assms(1) load_frame [of "trie_update_get libs u'" q "trie_update_get libs u", OF m] by (auto simp: queue_holds_def)
qed

lemma write_indices:
  assumes "valid q"
  obtains u' where "tq_write_indices Q q u = Some u'" "tq_load_indices Q q (trie_update_get libs u') = Some (Inr (tq_indices Q q))"
    "\<And>n. n < 2 ^ 64 \<Longrightarrow> trie_update_get libs u' (tq_trie_key Q q n) = trie_update_get libs u (tq_trie_key Q q n)"
    "unchanged_but libs {meta q} u u'"
proof -
  obtain x where x: "\<And>u. tq_write_indices Q q u = trie_update_set libs (meta q) x u"
    "\<And>trie. trie (meta q) = Some (Inr (Some x)) \<Longrightarrow> tq_load_indices Q q trie = Some (Inr (tq_indices Q q))"
    using written [OF assms] by auto
  obtain u' where u': "trie_update_set libs (meta q) x u = Some u'"
    "\<And>k. has_bytes libs k \<Longrightarrow> trie_update_get libs u' k = (if k = meta q then Some (Inr (Some x)) else trie_update_get libs u k)"
    using set_get [OF libs [OF assms] meta_bytes [OF assms]] by blast
  show thesis
  proof (rule that)
    show "tq_write_indices Q q u = Some u'" by (simp add: x u')
    show "tq_load_indices Q q (trie_update_get libs u') = Some (Inr (tq_indices Q q))" by (simp add: x(2) u'(2) meta_bytes [OF assms])
    show "trie_update_get libs u' (tq_trie_key Q q n) = trie_update_get libs u (tq_trie_key Q q n)" if "n < 2 ^ 64" for n
      by (simp add: u'(2) key_bytes [OF assms that] meta_item)
    show "unchanged_but libs {meta q} u u'" by (simp add: unchanged_but_def u'(2) set_trie [OF u'(1)])
  qed
qed


lemma update_indices:
  assumes "valid q" and "indices_ok i"
  obtains u' where "tq_write_indices Q (tq_set_indices Q i q) u = Some u'" "tq_load_indices Q (tq_set_indices Q i q) (trie_update_get libs u') = Some (Inr i)"
    "\<And>n. n < 2 ^ 64 \<Longrightarrow> trie_update_get libs u' (tq_trie_key Q q n) = trie_update_get libs u (tq_trie_key Q q n)"
    "unchanged_but libs {meta q} u u'"
  using write_indices [OF valid_set [OF assms], of u] by (auto simp: key_set meta_set indices_set)

text \<open>The keys of a queue.\<close>

abbreviation queue_keys :: "'q \<Rightarrow> trie_key set" where
  "queue_keys q \<equiv> insert (meta q) (range (tq_trie_key Q q))"

lemma unchanged_mono: "unchanged_but libs K u u' \<Longrightarrow> K \<subseteq> K' \<Longrightarrow> unchanged_but libs K' u u'"
  by (auto simp: unchanged_but_def)

lemma push_back_ok:
  assumes v: "valid q" and h: "queue_holds libs Q q u xs" and x: "encodes (tq_item Q) x" and n: "qi_next_available_index (tq_indices Q q) + 1 < 2 ^ 64"
  obtains q' u' where "push_back libs Q x (q, u) = Some (Inr (), q', u')" "q' = tq_set_indices Q ((tq_indices Q q)\<lparr>qi_next_available_index := qi_next_available_index (tq_indices Q q) + 1\<rparr>) q"
    "valid q'" "queue_holds libs Q q' u' (xs @ [x])" "unchanged_but libs (queue_keys q) u u'" "\<exists>u0. tq_write_indices Q q' u0 = Some u'"
proof -
  let ?i = "tq_indices Q q" let ?n = "qi_next_available_index ?i" let ?i' = "?i\<lparr>qi_next_available_index := ?n + 1\<rparr>"
  have n': "?n < 2 ^ 64" "?n = qi_first_index ?i + length xs" using h by (simp_all add: queue_holds_def)
  obtain u1 where u1: "trie_update_set libs (tq_trie_key Q q ?n) (bo_to_vec (tq_item Q) x) u = Some u1"
    "\<And>k. has_bytes libs k \<Longrightarrow> trie_update_get libs u1 k = (if k = tq_trie_key Q q ?n then Some (Inr (Some (bo_to_vec (tq_item Q) x))) else trie_update_get libs u k)"
    using set_get [OF libs [OF v] key_bytes [OF v n'(1)]] by blast
  have i': "indices_ok ?i'" using n n' by (simp add: indices_ok_def)
  obtain u2 where u2: "tq_write_indices Q (tq_set_indices Q ?i' q) u1 = Some u2" "tq_load_indices Q (tq_set_indices Q ?i' q) (trie_update_get libs u2) = Some (Inr ?i')"
    "\<And>n. n < 2 ^ 64 \<Longrightarrow> trie_update_get libs u2 (tq_trie_key Q q n) = trie_update_get libs u1 (tq_trie_key Q q n)" "unchanged_but libs {meta q} u1 u2"
    by (rule update_indices [OF v i', of u1]) blast
  have w: "\<exists>u0. tq_write_indices Q (tq_set_indices Q ?i' q) u0 = Some u2" using u2(1) by blast
  have "state_get (tq_item Q) (trie_update_get libs u2) (tq_trie_key Q q (qi_first_index ?i + j)) = Some (Inr (Some ((xs @ [x]) ! j)))" if j: "j < Suc (length xs)" for j
  proof -
    have b: "qi_first_index ?i + j < 2 ^ 64" using j n' by simp
    show ?thesis
    proof (cases "j = length xs")
      case True
      then show ?thesis using u2(3) [OF b] u1(2) [OF key_bytes [OF v b]] n'(2) by (simp add: state_get_value [OF _ x])
    next
      case False
      then have "trie_update_get libs u2 (tq_trie_key Q q (qi_first_index ?i + j)) = trie_update_get libs u (tq_trie_key Q q (qi_first_index ?i + j))"
        using u2(3) [OF b] u1(2) [OF key_bytes [OF v b]] n'(2) by (simp add: key_inject)
      then show ?thesis using queue_item [OF h, of j u2] j False by (simp add: nth_append)
    qed
  qed
  moreover have "unchanged_but libs (queue_keys q) u u2"
    using u1(2) u2(4) set_trie [OF u1(1)] by (auto simp: unchanged_but_def)
  ultimately show thesis using that [OF _ refl valid_set [OF v i'] _ _ w] u1(1) u2(1,2) n n'
    by (simp add: push_back_def state_set_def Let_def checked_add_def queue_holds_def indices_set key_set)
qed

lemma push_back_full:
  assumes v: "valid q" and h: "queue_holds libs Q q u xs" and n: "qi_next_available_index (tq_indices Q q) + 1 = 2 ^ 64"
  shows "\<exists>u'. push_back libs Q x (q, u) = Some (Inl IntegerOverflowError, q, u') \<and> queue_holds libs Q q u' xs"
proof -
  let ?i = "tq_indices Q q" let ?n = "qi_next_available_index ?i"
  have n': "?n < 2 ^ 64" "?n = qi_first_index ?i + length xs" using h by (simp_all add: queue_holds_def)
  obtain u1 where u1: "trie_update_set libs (tq_trie_key Q q ?n) (bo_to_vec (tq_item Q) x) u = Some u1"
    "\<And>k. has_bytes libs k \<Longrightarrow> trie_update_get libs u1 k = (if k = tq_trie_key Q q ?n then Some (Inr (Some (bo_to_vec (tq_item Q) x))) else trie_update_get libs u k)"
    using set_get [OF libs [OF v] key_bytes [OF v n'(1)]] by blast
  have "state_get (tq_item Q) (trie_update_get libs u1) (tq_trie_key Q q (qi_first_index ?i + j)) = Some (Inr (Some (xs ! j)))" if j: "j < length xs" for j
  proof -
    have b: "qi_first_index ?i + j < 2 ^ 64" using j n' by simp
    have "trie_update_get libs u1 (tq_trie_key Q q (qi_first_index ?i + j)) = trie_update_get libs u (tq_trie_key Q q (qi_first_index ?i + j))"
      using u1(2) [OF key_bytes [OF v b]] n'(2) j by (simp add: key_inject)
    then show ?thesis by (rule queue_item [OF h j])
  qed
  moreover have "trie_update_get libs u1 (meta q) = trie_update_get libs u (meta q)"
    using u1(2) [OF meta_bytes [OF v]] meta_item [of q ?n] by auto
  then have "tq_load_indices Q q (trie_update_get libs u1) = tq_load_indices Q q (trie_update_get libs u)" by (rule load_frame)
  ultimately show ?thesis using h u1(1) n by (simp add: push_back_def state_set_def Let_def checked_add_def queue_holds_def)
qed

lemma pop_front_ok:
  assumes v: "valid q" and h: "queue_holds libs Q q u (x # xs)"
  obtains q' u' where "pop_front libs Q (q, u) = Some (Inr (Some x, q', u'))" "q' = tq_set_indices Q ((tq_indices Q q)\<lparr>qi_first_index := qi_first_index (tq_indices Q q) + 1\<rparr>) q"
    "valid q'" "queue_holds libs Q q' u' xs" "unchanged_but libs (queue_keys q) u u'" "\<exists>u0. tq_write_indices Q q' u0 = Some u'"
proof -
  let ?i = "tq_indices Q q" let ?n = "qi_first_index ?i" let ?i' = "?i\<lparr>qi_first_index := ?n + 1\<rparr>"
  have n': "?n < 2 ^ 64" "qi_next_available_index ?i = ?n + length xs + 1" "qi_next_available_index ?i < 2 ^ 64" using h by (simp_all add: queue_holds_def)
  have item: "state_get (tq_item Q) (trie_update_get libs u) (tq_trie_key Q q ?n) = Some (Inr (Some x))" using h by (force simp: queue_holds_def)
  obtain u1 where u1: "trie_update_remove libs (tq_trie_key Q q ?n) u = Some u1"
    "\<And>k. has_bytes libs k \<Longrightarrow> trie_update_get libs u1 k = (if k = tq_trie_key Q q ?n then Some (Inr None) else trie_update_get libs u k)"
    using remove_get [OF libs [OF v] key_bytes [OF v n'(1)]] by blast
  have i': "indices_ok ?i'" using n' by (simp add: indices_ok_def)
  obtain u2 where u2: "tq_write_indices Q (tq_set_indices Q ?i' q) u1 = Some u2" "tq_load_indices Q (tq_set_indices Q ?i' q) (trie_update_get libs u2) = Some (Inr ?i')"
    "\<And>n. n < 2 ^ 64 \<Longrightarrow> trie_update_get libs u2 (tq_trie_key Q q n) = trie_update_get libs u1 (tq_trie_key Q q n)" "unchanged_but libs {meta q} u1 u2"
    by (rule update_indices [OF v i', of u1]) blast
  have w: "\<exists>u0. tq_write_indices Q (tq_set_indices Q ?i' q) u0 = Some u2" using u2(1) by blast
  have "state_get (tq_item Q) (trie_update_get libs u2) (tq_trie_key Q q (Suc (?n + j))) = Some (Inr (Some (xs ! j)))" if j: "j < length xs" for j
  proof -
    have b: "?n + Suc j < 2 ^ 64" using j n' by simp
    have "trie_update_get libs u2 (tq_trie_key Q q (?n + Suc j)) = trie_update_get libs u (tq_trie_key Q q (?n + Suc j))"
      using u2(3) [OF b] u1(2) [OF key_bytes [OF v b]] by (simp add: key_inject)
    then show ?thesis using queue_item [OF h, of "Suc j" u2] j by simp
  qed
  moreover have "unchanged_but libs (queue_keys q) u u2"
    using u1(2) u2(4) remove_trie [OF u1(1)] by (auto simp: unchanged_but_def)
  ultimately show thesis using that [OF _ refl valid_set [OF v i'] _ _ w] u1(1) u2(1,2) n' item
    by (simp add: pop_front_def Let_def checked_add_def queue_holds_def indices_set key_set)
qed

lemma pop_front_empty: "queue_holds libs Q q u [] \<Longrightarrow> pop_front libs Q (q, u) = Some (Inr (None, q, u))"
  by (simp add: pop_front_def queue_holds_def)

lemma pop_back_ok:
  assumes v: "valid q" and h: "queue_holds libs Q q u (xs @ [x])"
  obtains q' u' where "pop_back libs Q (q, u) = Some (Inr (Some x, q', u'))" "q' = tq_set_indices Q ((tq_indices Q q)\<lparr>qi_next_available_index := qi_first_index (tq_indices Q q) + length xs\<rparr>) q"
    "valid q'" "queue_holds libs Q q' u' xs" "unchanged_but libs (queue_keys q) u u'" "\<exists>u0. tq_write_indices Q q' u0 = Some u'"
proof -
  let ?i = "tq_indices Q q" let ?n = "qi_first_index ?i + length xs" let ?i' = "?i\<lparr>qi_next_available_index := ?n\<rparr>"
  have n': "?n < 2 ^ 64" "qi_next_available_index ?i = ?n + 1" "qi_next_available_index ?i < 2 ^ 64" using h by (simp_all add: queue_holds_def)
  have item: "state_get (tq_item Q) (trie_update_get libs u) (tq_trie_key Q q ?n) = Some (Inr (Some x))" using queue_item [OF h, of "length xs" u] by simp
  obtain u1 where u1: "trie_update_remove libs (tq_trie_key Q q ?n) u = Some u1"
    "\<And>k. has_bytes libs k \<Longrightarrow> trie_update_get libs u1 k = (if k = tq_trie_key Q q ?n then Some (Inr None) else trie_update_get libs u k)"
    using remove_get [OF libs [OF v] key_bytes [OF v n'(1)]] by blast
  have i': "indices_ok ?i'" using n' by (simp add: indices_ok_def)
  obtain u2 where u2: "tq_write_indices Q (tq_set_indices Q ?i' q) u1 = Some u2" "tq_load_indices Q (tq_set_indices Q ?i' q) (trie_update_get libs u2) = Some (Inr ?i')"
    "\<And>n. n < 2 ^ 64 \<Longrightarrow> trie_update_get libs u2 (tq_trie_key Q q n) = trie_update_get libs u1 (tq_trie_key Q q n)" "unchanged_but libs {meta q} u1 u2"
    by (rule update_indices [OF v i', of u1]) blast
  have w: "\<exists>u0. tq_write_indices Q (tq_set_indices Q ?i' q) u0 = Some u2" using u2(1) by blast
  have "state_get (tq_item Q) (trie_update_get libs u2) (tq_trie_key Q q (qi_first_index ?i + j)) = Some (Inr (Some (xs ! j)))" if j: "j < length xs" for j
  proof -
    have b: "qi_first_index ?i + j < 2 ^ 64" using j n' by simp
    have "trie_update_get libs u2 (tq_trie_key Q q (qi_first_index ?i + j)) = trie_update_get libs u (tq_trie_key Q q (qi_first_index ?i + j))"
      using u2(3) [OF b] u1(2) [OF key_bytes [OF v b]] j by (simp add: key_inject)
    then show ?thesis using queue_item [OF h, of j u2] j by (simp add: nth_append)
  qed
  moreover have "unchanged_but libs (queue_keys q) u u2"
    using u1(2) u2(4) remove_trie [OF u1(1)] by (auto simp: unchanged_but_def)
  ultimately show thesis using that [OF _ refl valid_set [OF v i'] _ _ w] u1(1) u2(1,2) n' item
    by (simp add: pop_back_def Let_def checked_sub_def queue_holds_def indices_set key_set)
qed

lemma pop_back_empty: "queue_holds libs Q q u [] \<Longrightarrow> pop_back libs Q (q, u) = Some (Inr (None, q, u))"
  by (simp add: pop_back_def queue_holds_def)

lemma modify_first_ok:
  assumes v: "valid q" and h: "queue_holds libs Q q u (x # xs)" and f: "f x = Some (Some y)" and y: "encodes (tq_item Q) y"
  obtains u' where "modify_first libs Q f (q, u) = Some (Inr (q, u'))" "queue_holds libs Q q u' (y # xs)" "unchanged_but libs (queue_keys q) u u'" "\<exists>u0. tq_write_indices Q q u0 = Some u'"
proof -
  let ?i = "tq_indices Q q" let ?n = "qi_first_index ?i"
  have n': "?n < 2 ^ 64" "qi_next_available_index ?i = ?n + length xs + 1" "qi_next_available_index ?i < 2 ^ 64" using h by (simp_all add: queue_holds_def)
  have item: "state_get (tq_item Q) (trie_update_get libs u) (tq_trie_key Q q ?n) = Some (Inr (Some x))" using queue_item [OF h, of 0 u] by simp
  obtain u1 where u1: "trie_update_set libs (tq_trie_key Q q ?n) (bo_to_vec (tq_item Q) y) u = Some u1"
    "\<And>k. has_bytes libs k \<Longrightarrow> trie_update_get libs u1 k = (if k = tq_trie_key Q q ?n then Some (Inr (Some (bo_to_vec (tq_item Q) y))) else trie_update_get libs u k)"
    using set_get [OF libs [OF v] key_bytes [OF v n'(1)]] by blast
  obtain u2 where u2: "tq_write_indices Q q u1 = Some u2" "tq_load_indices Q q (trie_update_get libs u2) = Some (Inr ?i)"
    "\<And>n. n < 2 ^ 64 \<Longrightarrow> trie_update_get libs u2 (tq_trie_key Q q n) = trie_update_get libs u1 (tq_trie_key Q q n)" "unchanged_but libs {meta q} u1 u2"
    by (rule write_indices [OF v, of u1]) blast
  have w: "\<exists>u0. tq_write_indices Q q u0 = Some u2" using u2(1) by blast
  have "state_get (tq_item Q) (trie_update_get libs u2) (tq_trie_key Q q (?n + j)) = Some (Inr (Some ((y # xs) ! j)))" if j: "j < Suc (length xs)" for j
  proof -
    have b: "?n + j < 2 ^ 64" using j n' by simp
    show ?thesis
    proof (cases j)
      case 0
      then show ?thesis using u2(3) [OF b] u1(2) [OF key_bytes [OF v b]] by (simp add: state_get_value [OF _ y])
    next
      case (Suc m)
      then have "trie_update_get libs u2 (tq_trie_key Q q (?n + j)) = trie_update_get libs u (tq_trie_key Q q (?n + j))"
        using u2(3) [OF b] u1(2) [OF key_bytes [OF v b]] by (simp add: key_inject)
      then show ?thesis using queue_item [OF h, of j u2] j Suc by simp
    qed
  qed
  moreover have "unchanged_but libs (queue_keys q) u u2"
    using u1(2) u2(4) set_trie [OF u1(1)] by (auto simp: unchanged_but_def)
  ultimately show thesis using that [OF _ _ _ w] u1(1) u2(1,2) n' item f
    by (simp add: modify_first_def state_set_def Let_def queue_holds_def)
qed

lemma modify_first_removes:
  assumes "valid q" and h: "queue_holds libs Q q u (x # xs)" and "f x = Some None" and "pop_front libs Q (q, u) = Some (Inr (y, s))"
  shows "modify_first libs Q f (q, u) = Some (Inr s)"
proof -
  have "state_get (tq_item Q) (trie_update_get libs u) (tq_trie_key Q q (qi_first_index (tq_indices Q q))) = Some (Inr (Some x))" using queue_item [OF h, of 0 u] by simp
  then show ?thesis using h assms(3,4) by (simp add: modify_first_def queue_holds_def)
qed

lemma removes:
  assumes "valid q" and "\<forall>i \<in> set is. i < 2 ^ 64"
  shows "\<exists>u'. fold_opt (\<lambda>index. trie_update_remove libs (tq_trie_key Q q index)) is u = Some u' \<and>
    (\<forall>k. has_bytes libs k \<longrightarrow> trie_update_get libs u' k = (if k \<in> tq_trie_key Q q ` set is then Some (Inr None) else trie_update_get libs u k))"
  using assms(2)
proof (induction "is" arbitrary: u)
  case (Cons i "is")
  obtain u1 where u1: "trie_update_remove libs (tq_trie_key Q q i) u = Some u1"
    "\<forall>k. has_bytes libs k \<longrightarrow> trie_update_get libs u1 k = (if k = tq_trie_key Q q i then Some (Inr None) else trie_update_get libs u k)"
    using remove_get [OF libs [OF assms(1)] key_bytes [OF assms(1)]] Cons.prems by fastforce
  obtain u2 where "fold_opt (\<lambda>index. trie_update_remove libs (tq_trie_key Q q index)) is u1 = Some u2"
    "\<forall>k. has_bytes libs k \<longrightarrow> trie_update_get libs u2 k = (if k \<in> tq_trie_key Q q ` set is then Some (Inr None) else trie_update_get libs u1 k)"
    using Cons.IH [of u1] Cons.prems by fastforce
  then show ?case using u1 by auto
qed simp

lemma removes_trie: "fold_opt (\<lambda>index. trie_update_remove libs (key index)) is u = Some u' \<Longrightarrow> su_trie u' = su_trie u"
  by (induction "is" arbitrary: u) (auto simp: bind_eq_Some_conv dest!: remove_trie)

lemma pop_n_ok:
  assumes v: "valid q" and h: "queue_holds libs Q q u xs"
  obtains q' u' where "pop_n libs Q n (q, u) = Some (min n (length xs), q', u')"
    "q' = (if min n (length xs) = 0 then q else tq_set_indices Q ((tq_indices Q q)\<lparr>qi_first_index := qi_first_index (tq_indices Q q) + min n (length xs)\<rparr>) q)"
    "valid q'" "queue_holds libs Q q' u' (drop n xs)" "unchanged_but libs (queue_keys q) u u'" "q' = q \<and> u' = u \<or> (\<exists>u0. tq_write_indices Q q' u0 = Some u')"
proof (cases "min n (length xs) = 0")
  case True
  then have "pop_n libs Q n (q, u) = Some (min n (length xs), q, u)" "drop n xs = xs"
    using h by (auto simp: pop_n_def Let_def checked_sub_def checked_add_def queue_holds_def min_def split: if_splits)
  then show thesis using that [of q u] True v h unchanged_refl by simp
next
  case False
  let ?i = "tq_indices Q q" let ?f = "qi_first_index ?i" let ?m = "min n (length xs)" let ?i' = "?i\<lparr>qi_first_index := ?f + ?m\<rparr>"
  have n': "?f + ?m < 2 ^ 64" "qi_next_available_index ?i = ?f + length xs" "qi_next_available_index ?i < 2 ^ 64" using h by (auto simp: queue_holds_def)
  obtain u1 where u1: "fold_opt (\<lambda>index. trie_update_remove libs (tq_trie_key Q q index)) [?f..<?f + ?m] u = Some u1"
    "\<And>k. has_bytes libs k \<Longrightarrow> trie_update_get libs u1 k = (if k \<in> tq_trie_key Q q ` {?f..<?f + ?m} then Some (Inr None) else trie_update_get libs u k)"
    using removes [OF v, of "[?f..<?f + ?m]" u] n'(1) by auto
  have i': "indices_ok ?i'" using n' by (simp add: indices_ok_def)
  obtain u2 where u2: "tq_write_indices Q (tq_set_indices Q ?i' q) u1 = Some u2" "tq_load_indices Q (tq_set_indices Q ?i' q) (trie_update_get libs u2) = Some (Inr ?i')"
    "\<And>n. n < 2 ^ 64 \<Longrightarrow> trie_update_get libs u2 (tq_trie_key Q q n) = trie_update_get libs u1 (tq_trie_key Q q n)" "unchanged_but libs {meta q} u1 u2"
    by (rule update_indices [OF v i', of u1]) blast
  have w: "\<exists>u0. tq_write_indices Q (tq_set_indices Q ?i' q) u0 = Some u2" using u2(1) by blast
  have "state_get (tq_item Q) (trie_update_get libs u2) (tq_trie_key Q q (?f + ?m + j)) = Some (Inr (Some (drop n xs ! j)))" if j: "j < length xs - n" for j
  proof -
    have b: "?f + (?m + j) < 2 ^ 64" using j n' by simp
    have "trie_update_get libs u2 (tq_trie_key Q q (?f + (?m + j))) = trie_update_get libs u (tq_trie_key Q q (?f + (?m + j)))"
      using u2(3) [OF b] u1(2) [OF key_bytes [OF v b]] by (auto simp: key_inject)
    then show ?thesis using queue_item [OF h, of "?m + j" u2] j by (simp add: add.assoc)
  qed
  moreover have "unchanged_but libs (queue_keys q) u u2"
    using u1(2) u2(4) removes_trie [OF u1(1)] by (auto simp: unchanged_but_def)
  moreover have "pop_n libs Q n (q, u) = Some (?m, tq_set_indices Q ?i' q, u2)"
    using u1(1) u2(1) n' False by (simp add: pop_n_def Let_def checked_sub_def checked_add_def)
  moreover have "queue_holds libs Q (tq_set_indices Q ?i' q) u2 (drop n xs)"
    using calculation(1) u2(2) n' by (auto simp: queue_holds_def indices_set key_set min_def)
  ultimately show thesis using that [OF _ _ valid_set [OF v i']] w False by simp
qed

lemma items_ok:
  assumes h: "queue_holds libs Q q u xs"
  shows "queue_items Q q (trie_update_get libs u) side_effects (queue_iter Q q) = Some (map Inr xs)"
proof -
  have pure: "state_get_pure B t k = Some (Inr r)" if "state_get B t k = Some (Inr r)" for B :: "'a borsh" and t k r
    using that by (cases "t k" rule: option.exhaust; cases "the (t k)") (auto simp: state_get_def state_get_pure_def split: option.splits)
  let ?i = "tq_indices Q q"
  have n: "qi_next_available_index ?i = qi_first_index ?i + length xs" using h by (simp add: queue_holds_def)
  have "queue_items Q q (trie_update_get libs u) side_effects (qi_first_index ?i + j, qi_next_available_index ?i) = Some (map Inr (drop j xs))" if "j \<le> length xs" for j
    using that
  proof (induction "length xs - j" arbitrary: j)
    case 0
    then show ?case by (simp add: queue_items.simps queue_iter_next_def n)
  next
    case (Suc m)
    then have j: "j < length xs" by simp
    have "iter_value Q q (trie_update_get libs u) side_effects (qi_first_index ?i + j) = Some (Inr (xs ! j))"
      using queue_item [OF h j refl] pure by (simp add: iter_value_def Let_def)
    moreover have "queue_items Q q (trie_update_get libs u) side_effects (qi_first_index ?i + Suc j, qi_next_available_index ?i) = Some (map Inr (drop (Suc j) xs))"
      using Suc.hyps(1) [of "Suc j"] Suc.hyps(2) j by simp
    ultimately show ?case using j by (subst queue_items.simps) (simp add: queue_iter_next_def n Cons_nth_drop_Suc [symmetric])
  qed
  from this [of 0] show ?thesis by (simp add: queue_iter_def)
qed

lemma step_ok:
  assumes v: "valid q" and h: "queue_holds libs Q q u xs" and op: "\<And>x. op = PushBack x \<Longrightarrow> encodes (tq_item Q) x"
    and n: "qi_next_available_index (tq_indices Q q) + 1 < 2 ^ 64"
  obtains q' u' where "queue_step libs Q op (q, u) = Some (Inr (fst (list_step op xs), q', u'))" "valid q'" "queue_holds libs Q q' u' (snd (list_step op xs))"
    "unchanged_but libs (queue_keys q) u u'" "q' = q \<or> (\<exists>i. q' = tq_set_indices Q i q)" "q' = q \<and> u' = u \<or> (\<exists>u0. tq_write_indices Q q' u0 = Some u')"
    "qi_next_available_index (tq_indices Q q') \<le> qi_next_available_index (tq_indices Q q) + 1"
proof (cases op)
  case (PushBack x)
  obtain q' u' where p: "push_back libs Q x (q, u) = Some (Inr (), q', u')" "q' = tq_set_indices Q ((tq_indices Q q)\<lparr>qi_next_available_index := qi_next_available_index (tq_indices Q q) + 1\<rparr>) q"
    "valid q'" "queue_holds libs Q q' u' (xs @ [x])" "unchanged_but libs (queue_keys q) u u'" "\<exists>u0. tq_write_indices Q q' u0 = Some u'"
    by (rule push_back_ok [OF v h op [OF PushBack] n]) blast
  show thesis by (rule that [of q' u']) (use p in \<open>auto simp: PushBack indices_set\<close>)
next
  case PopFront
  show thesis
  proof (cases xs)
    case Nil
    then show ?thesis using that [of q u] v h pop_front_empty [of q u] unchanged_refl by (auto simp: PopFront)
  next
    case (Cons x ys)
    obtain q' u' where p: "pop_front libs Q (q, u) = Some (Inr (Some x, q', u'))" "q' = tq_set_indices Q ((tq_indices Q q)\<lparr>qi_first_index := qi_first_index (tq_indices Q q) + 1\<rparr>) q"
      "valid q'" "queue_holds libs Q q' u' ys" "unchanged_but libs (queue_keys q) u u'" "\<exists>u0. tq_write_indices Q q' u0 = Some u'"
      by (rule pop_front_ok [OF v h [unfolded Cons]]) blast
    show ?thesis by (rule that [of q' u']) (use p in \<open>auto simp: PopFront Cons indices_set\<close>)
  qed
next
  case PopBack
  show thesis
  proof (cases xs rule: rev_cases)
    case Nil
    then show ?thesis using that [of q u] v h pop_back_empty [of q u] unchanged_refl by (auto simp: PopBack)
  next
    case (snoc ys x)
    obtain q' u' where p: "pop_back libs Q (q, u) = Some (Inr (Some x, q', u'))" "q' = tq_set_indices Q ((tq_indices Q q)\<lparr>qi_next_available_index := qi_first_index (tq_indices Q q) + length ys\<rparr>) q"
      "valid q'" "queue_holds libs Q q' u' ys" "unchanged_but libs (queue_keys q) u u'" "\<exists>u0. tq_write_indices Q q' u0 = Some u'"
      by (rule pop_back_ok [OF v h [unfolded snoc]]) blast
    have "qi_first_index (tq_indices Q q) + length ys \<le> qi_next_available_index (tq_indices Q q)" using h by (simp add: queue_holds_def snoc)
    then show ?thesis by (intro that [of q' u']) (use p in \<open>auto simp: PopBack snoc indices_set\<close>)
  qed
next
  case (PopN n)
  obtain q' u' where p: "pop_n libs Q n (q, u) = Some (min n (length xs), q', u')"
    "q' = (if min n (length xs) = 0 then q else tq_set_indices Q ((tq_indices Q q)\<lparr>qi_first_index := qi_first_index (tq_indices Q q) + min n (length xs)\<rparr>) q)"
    "valid q'" "queue_holds libs Q q' u' (drop n xs)" "unchanged_but libs (queue_keys q) u u'" "q' = q \<and> u' = u \<or> (\<exists>u0. tq_write_indices Q q' u0 = Some u')"
    by (rule pop_n_ok [OF v h, of n]) blast
  show thesis by (rule that [of q' u']) (use p in \<open>auto simp: PopN indices_set\<close>)
qed

end

section \<open>The queues of the shard\<close>

text \<open>
  What is used of Borsh: values in range are read back, and the two types of indices, which have the same
  fields, are encoded alike.
\<close>

definition delayed_borsh_ok :: "delayed_receipt_indices borsh \<Rightarrow> trie_queue_indices borsh \<Rightarrow> bool" where
  "delayed_borsh_ok BD BQ \<longleftrightarrow> (\<forall>i. indices_ok i \<longrightarrow> bo_try_from_slice BD (bo_to_vec BQ i) = Some (delayed_from_indices i))"

definition buffers_ok :: "buffered_receipt_indices \<Rightarrow> bool" where
  "buffers_ok b \<longleftrightarrow> bt_inv (bi_shard_buffers b) \<and> (\<forall>s i. bt_get (bi_shard_buffers b) s = Some i \<longrightarrow> s < 2 ^ 16 \<and> indices_ok i)"

definition buffered_borsh_ok :: "buffered_receipt_indices borsh \<Rightarrow> bool" where
  "buffered_borsh_ok BB \<longleftrightarrow> (\<forall>b. buffers_ok b \<longrightarrow> encodes BB b)"

interpretation delayed: persistent_queue libs "delayed_receipts libs BD BQ BR"
  "\<lambda>q. libs_ok libs \<and> delayed_borsh_ok BD BQ \<and> indices_ok (dq_indices q)" "\<lambda>_. DelayedReceiptIndices"
  for libs :: key_libs and BD :: "delayed_receipt_indices borsh" and BQ :: "trie_queue_indices borsh" and BR :: "'r borsh"
proof unfold_locales
  fix q :: delayed_receipt_queue
  assume v: "libs_ok libs \<and> delayed_borsh_ok BD BQ \<and> indices_ok (dq_indices q)"
  then have "bo_try_from_slice BD (bo_to_vec BQ (dq_indices q)) = Some (delayed_from_indices (dq_indices q))" by (simp add: delayed_borsh_ok_def)
  then show "\<exists>v. (\<forall>u. tq_write_indices (delayed_receipts libs BD BQ BR) q u = trie_update_set libs DelayedReceiptIndices v u) \<and>
      (\<forall>trie. trie DelayedReceiptIndices = Some (Inr (Some v)) \<longrightarrow>
         tq_load_indices (delayed_receipts libs BD BQ BR) q trie = Some (Inr (tq_indices (delayed_receipts libs BD BQ BR) q)))"
    by (auto simp: delayed_receipts_def state_set_def get_delayed_receipt_indices_def state_get_def delayed_from_indices_def indices_from_delayed_def)
qed (auto simp: delayed_receipts_def has_bytes_def to_vec_def fits_def get_delayed_receipt_indices_def state_get_def)

definition buffer_valid :: "key_libs \<Rightarrow> buffered_receipt_indices borsh \<Rightarrow> outgoing_receipt_buffer \<Rightarrow> bool" where
  "buffer_valid libs BB q \<longleftrightarrow> libs_ok libs \<and> buffered_borsh_ok BB \<and> ob_shard_id q < 2 ^ 16 \<and> buffers_ok (sb_shards_indices (ob_parent q))"

interpretation outgoing: persistent_queue libs "outgoing_receipts libs BB BR" "buffer_valid libs BB" "\<lambda>_. BufferedReceiptIndices"
  for libs :: key_libs and BB :: "buffered_receipt_indices borsh" and BR :: "'r borsh"
proof unfold_locales
  fix q assume v: "buffer_valid libs BB q"
  then have "encodes BB (sb_shards_indices (ob_parent q))" by (simp add: buffer_valid_def buffered_borsh_ok_def)
  then show "\<exists>v. (\<forall>u. tq_write_indices (outgoing_receipts libs BB BR) q u = trie_update_set libs BufferedReceiptIndices v u) \<and>
      (\<forall>trie. trie BufferedReceiptIndices = Some (Inr (Some v)) \<longrightarrow>
         tq_load_indices (outgoing_receipts libs BB BR) q trie = Some (Inr (tq_indices (outgoing_receipts libs BB BR) q)))"
    by (auto simp: outgoing_receipts_def buffer_write_indices_def state_set_def state_get_def encodes_def buffer_indices_def)
qed (auto simp: outgoing_receipts_def has_bytes_def to_vec_def fits_def int_max_def state_get_def buffer_valid_def buffer_indices_def
    buffer_set_indices_def buffers_ok_def bt_insert_get bt_insert_inv split: if_splits)

section \<open>The buffers to all shards\<close>

definition buffers_hold ::
  "key_libs \<Rightarrow> buffered_receipt_indices borsh \<Rightarrow> 'r borsh \<Rightarrow> shards_outgoing_receipt_buffer \<Rightarrow> trie_update \<Rightarrow> (shard_id \<Rightarrow> 'r list) \<Rightarrow> bool" where
  "buffers_hold libs BB BR b u f \<longleftrightarrow> buffers_ok (sb_shards_indices b) \<and> outgoing_buffer_load BB (trie_update_get libs u) = Some (Inr b) \<and>
     (\<forall>s < 2 ^ 16. queue_holds libs (outgoing_receipts libs BB BR) (to_shard s b) u (f s))"

lemma to_shard_simps [simp]: "ob_shard_id (to_shard s b) = s" "ob_parent (to_shard s b) = b"
  by (simp_all add: to_shard_def)

lemma to_shard_parent: "ob_shard_id q = s \<Longrightarrow> to_shard s (ob_parent q) = q"
  by (simp add: to_shard_def)

lemma outgoing_sel [simp]:
  "tq_indices (outgoing_receipts libs BB BR) = buffer_indices" "tq_set_indices (outgoing_receipts libs BB BR) = buffer_set_indices"
  "tq_item (outgoing_receipts libs BB BR) = BR" "tq_trie_key (outgoing_receipts libs BB BR) q i = BufferedReceipt (ob_shard_id q) i"
  "tq_write_indices (outgoing_receipts libs BB BR) q = buffer_write_indices libs BB (ob_parent q)"
  by (simp_all add: outgoing_receipts_def)

lemma buffer_written:
  assumes "buffer_valid libs BB q" and "buffer_write_indices libs BB (ob_parent q) u0 = Some u"
  shows "outgoing_buffer_load BB (trie_update_get libs u) = Some (Inr (ob_parent q))"
proof -
  have "encodes BB (sb_shards_indices (ob_parent q))" using assms(1) by (simp add: buffer_valid_def buffered_borsh_ok_def)
  moreover have "trie_update_get libs u BufferedReceiptIndices = Some (Inr (Some (bo_to_vec BB (sb_shards_indices (ob_parent q)))))"
    using assms(2) by (auto simp: buffer_write_indices_def state_set_def trie_update_set_def bind_eq_Some_conv trie_update_get_def get_from_updates_def bt_insert_get)
  ultimately show ?thesis by (simp add: outgoing_buffer_load_def get_buffered_receipt_indices_def state_get_def encodes_def)
qed

lemma buffer_load_indices:
  assumes "outgoing_buffer_load BB trie = Some (Inr b)"
  shows "tq_load_indices (outgoing_receipts libs BB BR) (to_shard s b) trie = Some (Inr (buffer_indices (to_shard s b)))"
  using assms by (auto simp: outgoing_buffer_load_def get_buffered_receipt_indices_def outgoing_receipts_def buffer_indices_def rtry_SomeInr)

abbreviation buffer_keys :: "shard_id \<Rightarrow> trie_key set" where
  "buffer_keys s \<equiv> insert BufferedReceiptIndices (range (BufferedReceipt s))"

text \<open>A queue put back into the buffers, and the others as they were.\<close>

lemma buffers_insert:
  assumes h: "buffers_hold libs BB BR b u f" and v: "buffer_valid libs BB q" and hs: "queue_holds libs (outgoing_receipts libs BB BR) q u' xs"
    and c: "unchanged_but libs (buffer_keys s) u u'" and q: "q = to_shard s b \<or> (\<exists>i. q = buffer_set_indices i (to_shard s b))"
    and w: "q = to_shard s b \<and> u' = u \<or> (\<exists>u0. buffer_write_indices libs BB (ob_parent q) u0 = Some u')"
  shows "to_shard s (ob_parent q) = q" "\<And>t. t \<noteq> s \<Longrightarrow> buffer_indices (to_shard t (ob_parent q)) = buffer_indices (to_shard t b)"
    "buffers_hold libs BB BR (ob_parent q) u' (f(s := xs))"
proof -
  let ?Q = "outgoing_receipts libs BB BR"
  have id: "ob_shard_id q = s" using q by (auto simp: buffer_set_indices_def)
  show eq: "to_shard s (ob_parent q) = q" using to_shard_parent [OF id] .
  show other: "buffer_indices (to_shard t (ob_parent q)) = buffer_indices (to_shard t b)" if "t \<noteq> s" for t
    using q that by (auto simp: buffer_indices_def buffer_set_indices_def bt_insert_get)
  have load: "outgoing_buffer_load BB (trie_update_get libs u') = Some (Inr (ob_parent q))"
    using w buffer_written [OF v] h by (auto simp: buffers_hold_def)
  have "queue_holds libs ?Q (to_shard t (ob_parent q)) u' (f t)" if t: "t < 2 ^ 16" "t \<noteq> s" for t
  proof -
    have ht: "queue_holds libs ?Q (to_shard t b) u (f t)" using h t by (simp add: buffers_hold_def)
    have "state_get BR (trie_update_get libs u') (BufferedReceipt t (qi_first_index (buffer_indices (to_shard t b)) + j)) = Some (Inr (Some (f t ! j)))" if j: "j < length (f t)" for j
    proof -
      have "has_bytes libs (BufferedReceipt t (qi_first_index (buffer_indices (to_shard t b)) + j))"
        using t ht j by (simp add: has_bytes_def fits_def to_vec_def int_max_def queue_holds_def)
      then show ?thesis using queue_item [OF ht j, of u'] c t by (auto simp: unchanged_but_def)
    qed
    then show ?thesis using ht other [OF t(2)] buffer_load_indices [OF load, of libs BR t] by (simp add: queue_holds_def)
  qed
  then show "buffers_hold libs BB BR (ob_parent q) u' (f(s := xs))"
    using v hs load eq by (auto simp: buffers_hold_def buffer_valid_def)
qed

lemma buffer_step_ok:
  assumes libs: "libs_ok libs" "buffered_borsh_ok BB" and h: "buffers_hold libs BB BR b u f" and s: "s < 2 ^ 16"
    and op: "\<And>x. op = PushBack x \<Longrightarrow> encodes BR x" and n: "qi_next_available_index (buffer_indices (to_shard s b)) + 1 < 2 ^ 64"
  obtains b' u' where "buffer_step libs BB BR (s, op) (b, u) = Some (Inr (fst (list_step op (f s)), b', u'))"
    "buffers_hold libs BB BR b' u' (f(s := snd (list_step op (f s))))"
    "\<And>t. qi_next_available_index (buffer_indices (to_shard t b')) \<le> qi_next_available_index (buffer_indices (to_shard t b)) + 1"
    "unchanged_but libs (buffer_keys s) u u'"
proof -
  let ?Q = "outgoing_receipts libs BB BR" let ?q = "to_shard s b"
  have v: "buffer_valid libs BB ?q" using libs h s by (simp add: buffer_valid_def buffers_hold_def)
  have hs: "queue_holds libs ?Q ?q u (f s)" using h s by (simp add: buffers_hold_def)
  obtain q' u' where q': "queue_step libs ?Q op (?q, u) = Some (Inr (fst (list_step op (f s)), q', u'))" "buffer_valid libs BB q'"
    "queue_holds libs ?Q q' u' (snd (list_step op (f s)))" "unchanged_but libs (buffer_keys s) u u'"
    "q' = ?q \<or> (\<exists>i. q' = buffer_set_indices i ?q)" "q' = ?q \<and> u' = u \<or> (\<exists>u0. buffer_write_indices libs BB (ob_parent q') u0 = Some u')"
    "qi_next_available_index (buffer_indices q') \<le> qi_next_available_index (buffer_indices ?q) + 1"
    by (rule outgoing.step_ok [OF v hs, of op]) (use op n in auto)
  note b' = buffers_insert [OF h q'(2-6)]
  have "qi_next_available_index (buffer_indices (to_shard t (ob_parent q'))) \<le> qi_next_available_index (buffer_indices (to_shard t b)) + 1" for t
    using q'(7) b'(1,2) by (cases "t = s") auto
  then show thesis using that [of "ob_parent q'" u'] q'(1,4) b'(3) by (simp add: buffer_step_def)
qed

lemma buffer_pushed:
  assumes libs: "libs_ok libs" "buffered_borsh_ok BB" and h: "buffers_hold libs BB BR b u f" and s: "s < 2 ^ 16" and x: "encodes BR x"
    and n: "qi_next_available_index (buffer_indices (to_shard s b)) + 1 < 2 ^ 64"
  obtains b' u' where "push_back libs (outgoing_receipts libs BB BR) x (to_shard s b, u) = Some (Inr (), to_shard s b', u')"
    "buffers_hold libs BB BR b' u' (f(s := f s @ [x]))" "unchanged_but libs (buffer_keys s) u u'"
    "\<And>t. qi_next_available_index (buffer_indices (to_shard t b')) \<le> qi_next_available_index (buffer_indices (to_shard t b)) + 1"
proof -
  let ?q = "to_shard s b"
  have v: "buffer_valid libs BB ?q" and hs: "queue_holds libs (outgoing_receipts libs BB BR) ?q u (f s)" using libs h s by (simp_all add: buffer_valid_def buffers_hold_def)
  have n': "qi_next_available_index (tq_indices (outgoing_receipts libs BB BR) ?q) + 1 < 2 ^ 64" and x': "encodes (tq_item (outgoing_receipts libs BB BR)) x" using n x by simp_all
  obtain q' u' where q': "push_back libs (outgoing_receipts libs BB BR) x (?q, u) = Some (Inr (), q', u')" "buffer_valid libs BB q'"
    "queue_holds libs (outgoing_receipts libs BB BR) q' u' (f s @ [x])" "unchanged_but libs (buffer_keys s) u u'"
    "q' = ?q \<or> (\<exists>i. q' = buffer_set_indices i ?q)" "q' = ?q \<and> u' = u \<or> (\<exists>u0. buffer_write_indices libs BB (ob_parent q') u0 = Some u')"
    "qi_next_available_index (buffer_indices q') = qi_next_available_index (buffer_indices ?q) + 1"
    by (rule outgoing.push_back_ok [OF v hs x' n']) (auto simp: buffer_indices_def buffer_set_indices_def bt_insert_get)
  note b' = buffers_insert [OF h q'(2-6)]
  have "qi_next_available_index (buffer_indices (to_shard t (ob_parent q'))) \<le> qi_next_available_index (buffer_indices (to_shard t b)) + 1" for t
    using q'(7) b'(1,2) by (cases "t = s") auto
  then show thesis using that [of "ob_parent q'" u'] q'(1,4) b' by simp
qed

lemma buffer_popped:
  assumes libs: "libs_ok libs" "buffered_borsh_ok BB" and h: "buffers_hold libs BB BR b u f" and s: "s < 2 ^ 16" and n: "n \<le> length (f s)"
  obtains b' u' where "pop_n libs (outgoing_receipts libs BB BR) n (to_shard s b, u) = Some (n, to_shard s b', u')"
    "buffers_hold libs BB BR b' u' (f(s := drop n (f s)))" "unchanged_but libs (buffer_keys s) u u'"
    "buffer_indices (to_shard s b') = (buffer_indices (to_shard s b))\<lparr>qi_first_index := qi_first_index (buffer_indices (to_shard s b)) + n\<rparr>"
    "\<And>t. t \<noteq> s \<Longrightarrow> buffer_indices (to_shard t b') = buffer_indices (to_shard t b)"
proof -
  let ?q = "to_shard s b" let ?i = "(buffer_indices ?q)\<lparr>qi_first_index := qi_first_index (buffer_indices ?q) + n\<rparr>"
  have v: "buffer_valid libs BB ?q" and hs: "queue_holds libs (outgoing_receipts libs BB BR) ?q u (f s)" using libs h s by (simp_all add: buffer_valid_def buffers_hold_def)
  obtain q' u' where q': "pop_n libs (outgoing_receipts libs BB BR) n (?q, u) = Some (n, q', u')" "buffer_valid libs BB q'"
    "queue_holds libs (outgoing_receipts libs BB BR) q' u' (drop n (f s))" "unchanged_but libs (buffer_keys s) u u'"
    "q' = ?q \<or> (\<exists>i. q' = buffer_set_indices i ?q)" "q' = ?q \<and> u' = u \<or> (\<exists>u0. buffer_write_indices libs BB (ob_parent q') u0 = Some u')"
    "buffer_indices q' = ?i"
    by (rule outgoing.pop_n_ok [OF v hs, of n])
      (use n in \<open>auto simp: min_absorb1 buffer_indices_def buffer_set_indices_def bt_insert_get split: if_splits\<close>)
  note b' = buffers_insert [OF h q'(2-6)]
  show thesis by (rule that [of "ob_parent q'" u']) (use q' b' in simp_all)
qed

lemma buffer_run_ok:
  assumes libs: "libs_ok libs" "buffered_borsh_ok BB"
  shows "buffers_hold libs BB BR b u f \<Longrightarrow> \<forall>(s, op) \<in> set ops. s < 2 ^ 16 \<and> (\<forall>x. op = PushBack x \<longrightarrow> encodes BR x) \<Longrightarrow>
    \<forall>s < 2 ^ 16. qi_next_available_index (buffer_indices (to_shard s b)) + length ops < 2 ^ 64 \<Longrightarrow>
    \<exists>b' u'. buffer_run libs BB BR ops (b, u) = Some (Inr (fst (lists_run ops f), b', u')) \<and> buffers_hold libs BB BR b' u' (snd (lists_run ops f)) \<and>
      unchanged_but libs (insert BufferedReceiptIndices (\<Union>s. range (BufferedReceipt s))) u u'"
proof (induction ops arbitrary: b u f)
  case Nil
  then show ?case using unchanged_refl by auto
next
  case (Cons op ops)
  obtain s p where op: "op = (s, p)" by (cases op)
  have "s < 2 ^ 16" "\<And>x. p = PushBack x \<Longrightarrow> encodes BR x" "qi_next_available_index (buffer_indices (to_shard s b)) + 1 < 2 ^ 64"
    using Cons.prems(2,3) by (auto simp: op)
  then obtain b1 u1 where b1: "buffer_step libs BB BR (s, p) (b, u) = Some (Inr (fst (list_step p (f s)), b1, u1))"
    "buffers_hold libs BB BR b1 u1 (f(s := snd (list_step p (f s))))"
    "\<And>t. qi_next_available_index (buffer_indices (to_shard t b1)) \<le> qi_next_available_index (buffer_indices (to_shard t b)) + 1"
    "unchanged_but libs (buffer_keys s) u u1"
    using buffer_step_ok [OF libs Cons.prems(1), of s p] by blast
  have tl: "\<forall>(s, op) \<in> set ops. s < 2 ^ 16 \<and> (\<forall>x. op = PushBack x \<longrightarrow> encodes BR x)" using Cons.prems(2) by simp
  have "\<forall>t < 2 ^ 16. qi_next_available_index (buffer_indices (to_shard t b1)) + length ops < 2 ^ 64"
  proof (intro allI impI)
    fix t :: nat assume "t < 2 ^ 16"
    then have "qi_next_available_index (buffer_indices (to_shard t b)) + Suc (length ops) < 2 ^ 64" using Cons.prems(3) by fastforce
    then show "qi_next_available_index (buffer_indices (to_shard t b1)) + length ops < 2 ^ 64" using b1(3) [of t] by linarith
  qed
  then obtain b2 u2 where b2: "buffer_run libs BB BR ops (b1, u1) = Some (Inr (fst (lists_run ops (f(s := snd (list_step p (f s))))), b2, u2))"
    "buffers_hold libs BB BR b2 u2 (snd (lists_run ops (f(s := snd (list_step p (f s))))))"
    "unchanged_but libs (insert BufferedReceiptIndices (\<Union>s. range (BufferedReceipt s))) u1 u2"
    using Cons.IH [OF b1(2)] tl by blast
  have "unchanged_but libs (insert BufferedReceiptIndices (\<Union>s. range (BufferedReceipt s))) u u2"
    using b1(4) b2(3) by (auto simp: unchanged_but_def)
  then show ?case using b1(1) b2(1,2) by (auto simp: op case_prod_beta Let_def)
qed

section \<open>Properties\<close>

text \<open>
  C6: The buffers of outgoing receipts are independent queues. Starting from a state that holds a list of
  receipts for every shard, any sequence of operations on the buffers returns what the same operations return
  on the lists, in order and without an error; the receipts of a shard change only by operations on its own
  buffer, although all buffers share one record of indices. Iterating over a buffer gives its list, loading
  the buffers again from the state gives the same buffers, and no key of the state outside the buffers
  changes. The bound says that the indices do not run out, and shard ids fit the 16 bits they have in a key.
\<close>

theorem outgoing_buffers_are_queues:
  assumes "libs_ok libs" and "buffered_borsh_ok BB" and "buffers_hold libs BB BR b u f"
    and "\<forall>(s, op) \<in> set ops. s < 2 ^ 16 \<and> (\<forall>x. op = PushBack x \<longrightarrow> encodes BR x)"
    and "\<forall>s < 2 ^ 16. qi_next_available_index (buffer_indices (to_shard s b)) + length ops < 2 ^ 64"
  shows "\<exists>b' u'. buffer_run libs BB BR ops (b, u) = Some (Inr (fst (lists_run ops f), b', u')) \<and>
    outgoing_buffer_load BB (trie_update_get libs u') = Some (Inr b') \<and>
    (\<forall>s < 2 ^ 16. queue_items (outgoing_receipts libs BB BR) (to_shard s b') (trie_update_get libs u') side_effects
        (queue_iter (outgoing_receipts libs BB BR) (to_shard s b')) = Some (map Inr (snd (lists_run ops f) s))) \<and>
    (\<forall>k. has_bytes libs k \<and> k \<noteq> BufferedReceiptIndices \<and> (\<forall>s i. k \<noteq> BufferedReceipt s i) \<longrightarrow> trie_update_get libs u' k = trie_update_get libs u k)"
proof -
  obtain b' u' where b': "buffer_run libs BB BR ops (b, u) = Some (Inr (fst (lists_run ops f), b', u'))" "buffers_hold libs BB BR b' u' (snd (lists_run ops f))"
    "unchanged_but libs (insert BufferedReceiptIndices (\<Union>s. range (BufferedReceipt s))) u u'"
    using buffer_run_ok [OF assms] by blast
  then show ?thesis using outgoing.items_ok unfolding buffers_hold_def unchanged_but_def by blast
qed

text \<open>An encoding of the indices, and the buffers of a fresh state.\<close>

fun entry_bytes :: "shard_id \<times> trie_queue_indices \<Rightarrow> byte list" where
  "entry_bytes (s, i) = to_le_bytes 2 s @ to_le_bytes 8 (qi_first_index i) @ to_le_bytes 8 (qi_next_available_index i)"

function parse_entries :: "byte list \<Rightarrow> (shard_id, trie_queue_indices) btree option" where
  "parse_entries bs =
     (if length bs < 18 then if bs = [] then Some [] else None
      else do {
        rest \<leftarrow> parse_entries (drop 18 bs);
        Some ((from_le_bytes (take 2 bs), \<lparr> qi_first_index = from_le_bytes (take 8 (drop 2 bs)), qi_next_available_index = from_le_bytes (take 8 (drop 10 bs)) \<rparr>) # rest)
      })"
  by auto
termination
  by (relation "measure length") auto

declare parse_entries.simps [simp del]

definition example_buffers :: "buffered_receipt_indices borsh" where
  "example_buffers =
     \<lparr> bo_to_vec = (\<lambda>b. concat (map entry_bytes (bi_shard_buffers b))),
       bo_try_from_slice = (\<lambda>bs. map_option (\<lambda>m. \<lparr> bi_shard_buffers = m \<rparr>) (parse_entries bs)) \<rparr>"

definition example_receipts :: "byte list borsh" where
  "example_receipts = \<lparr> bo_to_vec = (\<lambda>b. b), bo_try_from_slice = Some \<rparr>"

lemma parse_entries_bytes: "\<forall>(s, i) \<in> set m. s < 2 ^ 16 \<and> indices_ok i \<Longrightarrow> parse_entries (concat (map entry_bytes m)) = Some m"
proof (induction m)
  case (Cons e m)
  obtain s i where e: "e = (s, i)" by (cases e)
  have "parse_entries (drop 18 (concat (map entry_bytes (e # m)))) = Some m" using Cons by (simp add: e)
  then show ?case using Cons.prems by (subst parse_entries.simps) (simp add: e from_to_le_bytes indices_ok_def)
qed (simp add: parse_entries.simps)

lemma example_buffers_ok: "buffered_borsh_ok example_buffers"
proof -
  have "\<forall>(s, i) \<in> set (bi_shard_buffers b). s < 2 ^ 16 \<and> indices_ok i" if "buffers_ok b" for b
    using that by (auto simp: buffers_ok_def bt_get_mem [symmetric])
  then show ?thesis using parse_entries_bytes by (fastforce simp: buffered_borsh_ok_def encodes_def example_buffers_def)
qed

definition fresh_buffers :: shards_outgoing_receipt_buffer where
  "fresh_buffers = \<lparr> sb_shards_indices = buffered_indices_default \<rparr>"

lemma fresh_indices [simp]: "buffer_indices (to_shard s fresh_buffers) = indices_default"
  by (simp add: buffer_indices_def fresh_buffers_def buffered_indices_default_def bt_empty_def bt_get_Nil)

lemma fresh_get: "has_bytes example_libs k \<Longrightarrow> trie_update_get example_libs (trie_update_new state_disk) k = Some (Inr None)"
  using represents_get [OF state_disk_holds example_libs_ok represents_start, of k] get_holds [OF state_disk_holds] raw_key_bytes [OF example_libs_ok, of k]
  by (auto simp: view_of_def state_at_def trie_access_get_def has_bytes_def)

lemma fresh_load: "outgoing_buffer_load BB (trie_update_get example_libs (trie_update_new state_disk)) = Some (Inr fresh_buffers)"
  using fresh_get [of BufferedReceiptIndices]
  by (simp add: has_bytes_def to_vec_def outgoing_buffer_load_def get_buffered_receipt_indices_def state_get_def fresh_buffers_def)

lemma fresh_hold: "buffers_hold example_libs BB BR fresh_buffers (trie_update_new state_disk) (\<lambda>_. [])"
  using fresh_load [of BB] buffer_load_indices [OF fresh_load [of BB], of example_libs BR]
  by (simp add: buffers_hold_def queue_holds_def indices_default_def buffers_ok_def)
    (simp add: fresh_buffers_def buffered_indices_default_def bt_empty_def bt_get_Nil)

theorem outgoing_buffers_are_queues_witness:
  "\<exists>b u. buffer_run example_libs example_buffers example_receipts [(3, PushBack [1]), (5, PushBack [2]), (3, PushBack [4]), (3, PopFront), (5, PopN 7)]
      (fresh_buffers, trie_update_new state_disk) = Some (Inr ([Pushed (Inr ()), Pushed (Inr ()), Pushed (Inr ()), Popped (Some [1]), Removed 1], b, u)) \<and>
    queue_items (outgoing_receipts example_libs example_buffers example_receipts) (to_shard 3 b) (trie_update_get example_libs u) True
      (queue_iter (outgoing_receipts example_libs example_buffers example_receipts) (to_shard 3 b)) = Some [Inr [4]]"
proof -
  let ?ops = "[(3, PushBack [1]), (5, PushBack [2]), (3, PushBack [4]), (3, PopFront), (5, PopN 7)] :: (shard_id \<times> byte list queue_op) list"
  have "\<forall>(s, op) \<in> set ?ops. s < 2 ^ 16 \<and> (\<forall>x. op = PushBack x \<longrightarrow> encodes example_receipts x)"
    "\<forall>s < 2 ^ 16. qi_next_available_index (buffer_indices (to_shard s fresh_buffers)) + length ?ops < 2 ^ 64"
    by (simp_all add: encodes_def example_receipts_def indices_default_def)
  from outgoing_buffers_are_queues [OF example_libs_ok example_buffers_ok fresh_hold this, of True]
  obtain b u where b: "buffer_run example_libs example_buffers example_receipts ?ops (fresh_buffers, trie_update_new state_disk) =
      Some (Inr (fst (lists_run ?ops (\<lambda>_. [])), b, u))"
    "\<forall>s < 2 ^ 16. queue_items (outgoing_receipts example_libs example_buffers example_receipts) (to_shard s b) (trie_update_get example_libs u) True
        (queue_iter (outgoing_receipts example_libs example_buffers example_receipts) (to_shard s b)) = Some (map Inr (snd (lists_run ?ops (\<lambda>_. [])) s))" by blast
  have "fst (lists_run ?ops (\<lambda>_. [])) = [Pushed (Inr ()), Pushed (Inr ()), Pushed (Inr ()), Popped (Some [1]), Removed 1]"
    "snd (lists_run ?ops (\<lambda>_. [])) 3 = [[4]]" by simp_all
  then show ?thesis using b(1) b(2) [rule_format, of 3] by auto
qed

end
