(* ===== verification/Outgoing_Metadata.thy ===== *)
theory Outgoing_Metadata
  imports Trie_Queue
begin

text \<open>
  Metadata of the buffers of outgoing receipts (\<open>core/store/src/trie/outgoing_metadata.rs\<close>): the receipts of a
  buffer are grouped, and the sizes and the gas of the groups are kept in a queue of the state, with their
  totals.  The Borsh encodings are parameters; \<open>ByteSize\<close> is its number of bytes, and the conversion from
  kilobytes of that crate is a parameter of the default configuration.  What the metadata have become when an
  error is returned is not described.
\<close>

section \<open>Groups of receipts\<close>

record receipt_group_v0 =
  rg_size :: nat
  rg_gas :: nat

datatype receipt_group = ReceiptGroup_V0 receipt_group_v0

definition receipt_group_new :: "nat \<Rightarrow> nat \<Rightarrow> receipt_group" where
  "receipt_group_new receipt_size receipt_gas = ReceiptGroup_V0 \<lparr> rg_size = receipt_size, rg_gas = receipt_gas \<rparr>"

fun group_size :: "receipt_group \<Rightarrow> nat" where
  "group_size (ReceiptGroup_V0 g) = rg_size g"

fun group_set_size :: "nat \<Rightarrow> receipt_group \<Rightarrow> receipt_group" where
  "group_set_size n (ReceiptGroup_V0 g) = ReceiptGroup_V0 (g\<lparr>rg_size := n\<rparr>)"

fun group_gas :: "receipt_group \<Rightarrow> nat" where
  "group_gas (ReceiptGroup_V0 g) = rg_gas g"

fun group_set_gas :: "nat \<Rightarrow> receipt_group \<Rightarrow> receipt_group" where
  "group_set_gas n (ReceiptGroup_V0 g) = ReceiptGroup_V0 (g\<lparr>rg_gas := n\<rparr>)"

definition group_is_empty :: "receipt_group \<Rightarrow> bool option" where
  "group_is_empty g =
     (let empty = (group_size g = 0) in
      do { assert (empty \<longrightarrow> group_gas g = 0); Some empty })"

definition add_size_checked :: "nat \<Rightarrow> nat \<Rightarrow> nat option" where
  "add_size_checked s delta = checked_add u64_w s delta"

definition subtract_size_checked :: "nat \<Rightarrow> nat \<Rightarrow> nat option" where
  "subtract_size_checked s delta = checked_sub s delta"

definition add_gas_checked :: "nat \<Rightarrow> nat \<Rightarrow> nat option" where
  "add_gas_checked s delta = checked_add u128_w s delta"

definition subtract_gas_checked :: "nat \<Rightarrow> nat \<Rightarrow> nat option" where
  "subtract_gas_checked s delta = checked_sub s delta"

record receipt_groups_config =
  gc_size_upper_bound :: nat
  gc_gas_upper_bound :: nat

definition default_config :: "(nat \<Rightarrow> nat) \<Rightarrow> receipt_groups_config" where
  "default_config kb = \<lparr> gc_size_upper_bound = kb 100, gc_gas_upper_bound = int_max u64_w \<rparr>"

definition should_start_new_group :: "receipt_groups_config \<Rightarrow> receipt_group \<Rightarrow> nat \<Rightarrow> nat \<Rightarrow> bool option" where
  "should_start_new_group config last_group new_receipt_size new_receipt_gas =
     do {
       size \<leftarrow> add_size_checked (group_size last_group) new_receipt_size;
       if gc_size_upper_bound config < size then Some True
       else do {
         gas \<leftarrow> add_gas_checked (group_gas last_group) new_receipt_gas;
         Some (gc_gas_upper_bound config < gas)
       }
     }"

section \<open>The queue of groups\<close>

record receipt_groups_queue_data_v0 =
  gd_indices :: trie_queue_indices
  gd_total_size :: nat
  gd_total_gas :: nat
  gd_total_receipts_num :: nat

datatype receipt_groups_queue_data = QueueData_V0 receipt_groups_queue_data_v0

definition queue_data_default :: receipt_groups_queue_data_v0 where
  "queue_data_default = \<lparr> gd_indices = indices_default, gd_total_size = 0, gd_total_gas = 0, gd_total_receipts_num = 0 \<rparr>"

record receipt_groups_queue =
  gq_receiver_shard :: shard_id
  gq_data :: receipt_groups_queue_data_v0

definition receipt_groups_queue_new :: "shard_id \<Rightarrow> receipt_groups_queue" where
  "receipt_groups_queue_new receiver_shard = \<lparr> gq_receiver_shard = receiver_shard, gq_data = queue_data_default \<rparr>"

definition load_data :: "receipt_groups_queue_data borsh \<Rightarrow> trie_access \<Rightarrow> shard_id \<Rightarrow> receipt_groups_queue_data_v0 option outcome" where
  "load_data BG trie receiver_shard =
     rtry (state_get BG trie (BufferedReceiptGroupsQueueData receiver_shard))
       (\<lambda>data_opt. Some (Inr (map_option (\<lambda>d. case d of QueueData_V0 data_v0 \<Rightarrow> data_v0) data_opt)))"

definition receipt_groups_queue_load :: "receipt_groups_queue_data borsh \<Rightarrow> trie_access \<Rightarrow> shard_id \<Rightarrow> receipt_groups_queue option outcome" where
  "receipt_groups_queue_load BG trie receiver_shard =
     rtry (load_data BG trie receiver_shard)
       (\<lambda>data_opt. Some (Inr (map_option (\<lambda>data. \<lparr> gq_receiver_shard = receiver_shard, gq_data = data \<rparr>) data_opt)))"

definition save_data :: "key_libs \<Rightarrow> receipt_groups_queue_data borsh \<Rightarrow> receipt_groups_queue \<Rightarrow> trie_update \<Rightarrow> trie_update option" where
  "save_data libs BG q = state_set BG libs (BufferedReceiptGroupsQueueData (gq_receiver_shard q)) (QueueData_V0 (gq_data q))"

definition receipt_groups :: "key_libs \<Rightarrow> receipt_groups_queue_data borsh \<Rightarrow> receipt_group borsh \<Rightarrow> (receipt_groups_queue, receipt_group) trie_queue" where
  "receipt_groups libs BG BI =
     \<lparr> tq_load_indices = (\<lambda>q trie. rtry (load_data BG trie (gq_receiver_shard q)) (\<lambda>data. Some (Inr (gd_indices (unwrap_or queue_data_default data))))),
       tq_indices = (\<lambda>q. gd_indices (gq_data q)),
       tq_set_indices = (\<lambda>i q. q\<lparr>gq_data := (gq_data q)\<lparr>gd_indices := i\<rparr>\<rparr>),
       tq_write_indices = save_data libs BG,
       tq_trie_key = (\<lambda>q index. BufferedReceiptGroupsQueueItem (gq_receiver_shard q) index),
       tq_item = BI \<rparr>"

text \<open>A push whose error is unwrapped.\<close>

definition push_group ::
  "key_libs \<Rightarrow> receipt_groups_queue_data borsh \<Rightarrow> receipt_group borsh \<Rightarrow> receipt_group \<Rightarrow> receipt_groups_queue \<times> trie_update \<Rightarrow>
   (receipt_groups_queue \<times> trie_update) option" where
  "push_group libs BG BI g s =
     do { (r, s) \<leftarrow> push_back libs (receipt_groups libs BG BI) g s; case r of Inl _ \<Rightarrow> None | Inr _ \<Rightarrow> Some s }"

text \<open>The receipt is added to the group that was taken out, or starts a group of its own.\<close>

definition extend_groups ::
  "key_libs \<Rightarrow> receipt_groups_queue_data borsh \<Rightarrow> receipt_group borsh \<Rightarrow> receipt_groups_config \<Rightarrow> nat \<Rightarrow> nat \<Rightarrow>
   receipt_group option \<times> receipt_groups_queue \<times> trie_update \<Rightarrow> (receipt_groups_queue \<times> trie_update) option" where
  "extend_groups libs BG BI config receipt_size receipt_gas popped =
     (case popped of (r, s) \<Rightarrow> case r of
        Some last_group \<Rightarrow>
          do {
            start \<leftarrow> should_start_new_group config last_group receipt_size receipt_gas;
            if start then
              do {
                s \<leftarrow> push_group libs BG BI last_group s;
                push_group libs BG BI (receipt_group_new receipt_size receipt_gas) s
              }
            else
              do {
                size \<leftarrow> add_size_checked (group_size last_group) receipt_size;
                gas \<leftarrow> add_gas_checked (group_gas last_group) receipt_gas;
                push_group libs BG BI (group_set_gas gas (group_set_size size last_group)) s
              }
          }
      | None \<Rightarrow> push_group libs BG BI (receipt_group_new receipt_size receipt_gas) s)"

definition queue_receipt_pushed ::
  "key_libs \<Rightarrow> receipt_groups_queue_data borsh \<Rightarrow> receipt_group borsh \<Rightarrow> receipt_groups_config \<Rightarrow> nat \<Rightarrow> nat \<Rightarrow>
   receipt_groups_queue \<times> trie_update \<Rightarrow> (receipt_groups_queue \<times> trie_update) outcome" where
  "queue_receipt_pushed libs BG BI config receipt_size receipt_gas s =
     (case s of (q, u) \<Rightarrow>
      do {
        total_size \<leftarrow> add_size_checked (gd_total_size (gq_data q)) receipt_size;
        total_gas \<leftarrow> add_gas_checked (gd_total_gas (gq_data q)) receipt_gas;
        total_receipts_num \<leftarrow> checked_add u64_w (gd_total_receipts_num (gq_data q)) 1;
        let q = q\<lparr>gq_data := (gq_data q)\<lparr>gd_total_size := total_size, gd_total_gas := total_gas, gd_total_receipts_num := total_receipts_num\<rparr>\<rparr>;
        rtry (pop_back libs (receipt_groups libs BG BI) (q, u)) (\<lambda>popped.
        do { s \<leftarrow> extend_groups libs BG BI config receipt_size receipt_gas popped; Some (Inr s) })
      })"

text \<open>The function that takes a receipt out of the first group.\<close>

definition shrink_group :: "nat \<Rightarrow> nat \<Rightarrow> receipt_group \<Rightarrow> receipt_group option option" where
  "shrink_group receipt_size receipt_gas first_group =
     do {
       size \<leftarrow> subtract_size_checked (group_size first_group) receipt_size;
       gas \<leftarrow> subtract_gas_checked (group_gas first_group) receipt_gas;
       let first_group = group_set_gas gas (group_set_size size first_group);
       empty \<leftarrow> group_is_empty first_group;
       Some (if empty then None else Some first_group)
     }"

definition queue_receipt_popped ::
  "key_libs \<Rightarrow> receipt_groups_queue_data borsh \<Rightarrow> receipt_group borsh \<Rightarrow> nat \<Rightarrow> nat \<Rightarrow>
   receipt_groups_queue \<times> trie_update \<Rightarrow> (receipt_groups_queue \<times> trie_update) outcome" where
  "queue_receipt_popped libs BG BI receipt_size receipt_gas s =
     (case s of (q, u) \<Rightarrow>
      do {
        total_size \<leftarrow> subtract_size_checked (gd_total_size (gq_data q)) receipt_size;
        total_gas \<leftarrow> subtract_gas_checked (gd_total_gas (gq_data q)) receipt_gas;
        total_receipts_num \<leftarrow> checked_sub (gd_total_receipts_num (gq_data q)) 1;
        let q = q\<lparr>gq_data := (gq_data q)\<lparr>gd_total_size := total_size, gd_total_gas := total_gas, gd_total_receipts_num := total_receipts_num\<rparr>\<rparr>;
        len \<leftarrow> indices_len (gd_indices (gq_data q));
        assert (0 < len);
        modify_first libs (receipt_groups libs BG BI) (shrink_group receipt_size receipt_gas) (q, u)
      })"

definition iter_receipt_group_sizes ::
  "key_libs \<Rightarrow> receipt_groups_queue_data borsh \<Rightarrow> receipt_group borsh \<Rightarrow> trie_access \<Rightarrow> bool \<Rightarrow> receipt_groups_queue \<Rightarrow> (storage_error + nat) list option" where
  "iter_receipt_group_sizes libs BG BI trie side_effects q =
     map_option (map (map_sum id group_size)) (queue_items (receipt_groups libs BG BI) q trie side_effects (queue_iter (receipt_groups libs BG BI) q))"

definition metadata_total_size :: "receipt_groups_queue \<Rightarrow> nat" where
  "metadata_total_size q = gd_total_size (gq_data q)"

definition metadata_total_gas :: "receipt_groups_queue \<Rightarrow> nat" where
  "metadata_total_gas q = gd_total_gas (gq_data q)"

definition metadata_total_receipts_num :: "receipt_groups_queue \<Rightarrow> nat" where
  "metadata_total_receipts_num q = gd_total_receipts_num (gq_data q)"

section \<open>The metadata of all buffers\<close>

record outgoing_metadatas =
  om_metadatas :: "(shard_id, receipt_groups_queue) btree"
  om_groups_config :: receipt_groups_config

definition outgoing_metadatas_new :: "receipt_groups_config \<Rightarrow> outgoing_metadatas" where
  "outgoing_metadatas_new groups_config = \<lparr> om_metadatas = bt_empty, om_groups_config = groups_config \<rparr>"

definition outgoing_metadatas_load ::
  "receipt_groups_queue_data borsh \<Rightarrow> trie_access \<Rightarrow> shard_id list \<Rightarrow> receipt_groups_config \<Rightarrow> outgoing_metadatas outcome" where
  "outgoing_metadatas_load BG trie ids groups_config =
     rtry (fold_try (\<lambda>shard_id metadatas.
         rtry (receipt_groups_queue_load BG trie shard_id) (\<lambda>metadata.
         Some (Inr (case metadata of Some metadata \<Rightarrow> bt_insert shard_id metadata metadatas | None \<Rightarrow> metadatas)))) ids bt_empty)
       (\<lambda>metadatas. Some (Inr \<lparr> om_metadatas = metadatas, om_groups_config = groups_config \<rparr>))"

definition metadatas_receipt_pushed ::
  "key_libs \<Rightarrow> receipt_groups_queue_data borsh \<Rightarrow> receipt_group borsh \<Rightarrow> shard_id \<Rightarrow> nat \<Rightarrow> nat \<Rightarrow>
   outgoing_metadatas \<times> trie_update \<Rightarrow> (outgoing_metadatas \<times> trie_update) outcome" where
  "metadatas_receipt_pushed libs BG BI shard_id receipt_size receipt_gas s =
     (case s of (m, u) \<Rightarrow>
      let metadata = unwrap_or (receipt_groups_queue_new shard_id) (bt_get (om_metadatas m) shard_id) in
      rtry (queue_receipt_pushed libs BG BI (om_groups_config m) receipt_size receipt_gas (metadata, u))
        (\<lambda>(metadata, u). Some (Inr (m\<lparr>om_metadatas := bt_insert shard_id metadata (om_metadatas m)\<rparr>, u))))"

definition metadatas_receipt_popped ::
  "key_libs \<Rightarrow> receipt_groups_queue_data borsh \<Rightarrow> receipt_group borsh \<Rightarrow> shard_id \<Rightarrow> nat \<Rightarrow> nat \<Rightarrow>
   outgoing_metadatas \<times> trie_update \<Rightarrow> (outgoing_metadatas \<times> trie_update) outcome" where
  "metadatas_receipt_popped libs BG BI shard_id receipt_size receipt_gas s =
     (case s of (m, u) \<Rightarrow>
      do {
        metadata \<leftarrow> bt_get (om_metadatas m) shard_id;
        rtry (queue_receipt_popped libs BG BI receipt_size receipt_gas (metadata, u))
          (\<lambda>(metadata, u). Some (Inr (m\<lparr>om_metadatas := bt_insert shard_id metadata (om_metadatas m)\<rparr>, u)))
      })"

definition get_metadata_for_shard :: "outgoing_metadatas \<Rightarrow> shard_id \<Rightarrow> receipt_groups_queue option" where
  "get_metadata_for_shard m shard_id = bt_get (om_metadatas m) shard_id"

section \<open>The queue of groups is a queue of the state\<close>

definition data_ok :: "receipt_groups_queue_data_v0 \<Rightarrow> bool" where
  "data_ok d \<longleftrightarrow> indices_ok (gd_indices d) \<and> gd_total_size d < 2 ^ 64 \<and> gd_total_gas d < 2 ^ 128 \<and> gd_total_receipts_num d < 2 ^ 64"

definition data_borsh_ok :: "receipt_groups_queue_data borsh \<Rightarrow> bool" where
  "data_borsh_ok BG \<longleftrightarrow> (\<forall>d. data_ok d \<longrightarrow> encodes BG (QueueData_V0 d))"

definition groups_borsh_ok :: "receipt_group borsh \<Rightarrow> bool" where
  "groups_borsh_ok BI \<longleftrightarrow> (\<forall>g. group_size g < 2 ^ 64 \<and> group_gas g < 2 ^ 128 \<longrightarrow> encodes BI g)"

definition groups_valid :: "key_libs \<Rightarrow> receipt_groups_queue_data borsh \<Rightarrow> receipt_groups_queue \<Rightarrow> bool" where
  "groups_valid libs BG q \<longleftrightarrow> libs_ok libs \<and> data_borsh_ok BG \<and> gq_receiver_shard q < 2 ^ 64 \<and> data_ok (gq_data q)"

lemma groups_sel [simp]:
  "tq_indices (receipt_groups libs BG BI) q = gd_indices (gq_data q)" "tq_item (receipt_groups libs BG BI) = BI"
  "tq_set_indices (receipt_groups libs BG BI) i q = q\<lparr>gq_data := (gq_data q)\<lparr>gd_indices := i\<rparr>\<rparr>"
  "tq_trie_key (receipt_groups libs BG BI) q n = BufferedReceiptGroupsQueueItem (gq_receiver_shard q) n"
  "tq_write_indices (receipt_groups libs BG BI) = save_data libs BG"
  by (simp_all add: receipt_groups_def)

interpretation groups: persistent_queue libs "receipt_groups libs BG BI" "groups_valid libs BG" "\<lambda>q. BufferedReceiptGroupsQueueData (gq_receiver_shard q)"
  for libs :: key_libs and BG :: "receipt_groups_queue_data borsh" and BI :: "receipt_group borsh"
proof unfold_locales
  fix q assume v: "groups_valid libs BG q"
  then have "encodes BG (QueueData_V0 (gq_data q))" by (simp add: groups_valid_def data_borsh_ok_def)
  then show "\<exists>v. (\<forall>u. tq_write_indices (receipt_groups libs BG BI) q u = trie_update_set libs (BufferedReceiptGroupsQueueData (gq_receiver_shard q)) v u) \<and>
      (\<forall>trie. trie (BufferedReceiptGroupsQueueData (gq_receiver_shard q)) = Some (Inr (Some v)) \<longrightarrow>
         tq_load_indices (receipt_groups libs BG BI) q trie = Some (Inr (tq_indices (receipt_groups libs BG BI) q)))"
    by (auto simp: receipt_groups_def save_data_def state_set_def load_data_def state_get_def encodes_def)
qed (auto simp: receipt_groups_def has_bytes_def to_vec_def fits_def load_data_def state_get_def groups_valid_def data_ok_def)

lemma saved_load:
  assumes "groups_valid libs BG q" and "save_data libs BG q u0 = Some u"
  shows "receipt_groups_queue_load BG (trie_update_get libs u) (gq_receiver_shard q) = Some (Inr (Some q))"
proof -
  have "encodes BG (QueueData_V0 (gq_data q))" using assms(1) by (simp add: groups_valid_def data_borsh_ok_def)
  moreover have "trie_update_get libs u (BufferedReceiptGroupsQueueData (gq_receiver_shard q)) = Some (Inr (Some (bo_to_vec BG (QueueData_V0 (gq_data q)))))"
    using assms(2) by (auto simp: save_data_def state_set_def trie_update_set_def bind_eq_Some_conv trie_update_get_def get_from_updates_def bt_insert_get)
  ultimately show ?thesis by (simp add: receipt_groups_queue_load_def load_data_def state_get_def encodes_def)
qed

lemma holds_totals:
  "gq_receiver_shard q' = gq_receiver_shard q \<Longrightarrow> gd_indices (gq_data q') = gd_indices (gq_data q) \<Longrightarrow>
   queue_holds libs (receipt_groups libs BG BI) q' u xs = queue_holds libs (receipt_groups libs BG BI) q u xs"
  by (simp add: queue_holds_def) (simp add: receipt_groups_def)

section \<open>Groups partition the receipts\<close>

type_synonym receipt_cost = "nat \<times> nat"

definition group_of :: "receipt_cost list \<Rightarrow> receipt_group" where
  "group_of run = ReceiptGroup_V0 \<lparr> rg_size = sum_list (map fst run), rg_gas = sum_list (map snd run) \<rparr>"

text \<open>A group of several receipts is within the bounds of the configuration.\<close>

definition run_ok :: "receipt_groups_config \<Rightarrow> receipt_cost list \<Rightarrow> bool" where
  "run_ok config run \<longleftrightarrow> run \<noteq> [] \<and> (2 \<le> length run \<longrightarrow>
     sum_list (map fst run) \<le> gc_size_upper_bound config \<and> sum_list (map snd run) \<le> gc_gas_upper_bound config)"

definition groups_hold ::
  "key_libs \<Rightarrow> receipt_groups_queue_data borsh \<Rightarrow> receipt_group borsh \<Rightarrow> receipt_groups_config \<Rightarrow> receipt_groups_queue \<Rightarrow> trie_update \<Rightarrow> receipt_cost list \<Rightarrow> bool" where
  "groups_hold libs BG BI config q u rs \<longleftrightarrow>
     (\<exists>runs. concat runs = rs \<and> (\<forall>run \<in> set runs. run_ok config run) \<and> queue_holds libs (receipt_groups libs BG BI) q u (map group_of runs)) \<and>
     gd_total_size (gq_data q) = sum_list (map fst rs) \<and> gd_total_gas (gq_data q) = sum_list (map snd rs) \<and> gd_total_receipts_num (gq_data q) = length rs"

abbreviation group_keys :: "shard_id \<Rightarrow> trie_key set" where
  "group_keys s \<equiv> insert (BufferedReceiptGroupsQueueData s) (range (BufferedReceiptGroupsQueueItem s))"

lemma push_group_ok:
  assumes v: "groups_valid libs BG q" and h: "queue_holds libs (receipt_groups libs BG BI) q u xs" and g: "encodes BI g"
    and n: "qi_next_available_index (gd_indices (gq_data q)) + 1 < 2 ^ 64"
  obtains i u' where "push_group libs BG BI g (q, u) = Some (q\<lparr>gq_data := (gq_data q)\<lparr>gd_indices := i\<rparr>\<rparr>, u')"
    "groups_valid libs BG (q\<lparr>gq_data := (gq_data q)\<lparr>gd_indices := i\<rparr>\<rparr>)"
    "queue_holds libs (receipt_groups libs BG BI) (q\<lparr>gq_data := (gq_data q)\<lparr>gd_indices := i\<rparr>\<rparr>) u' (xs @ [g])"
    "unchanged_but libs (group_keys (gq_receiver_shard q)) u u'" "qi_next_available_index i = qi_next_available_index (gd_indices (gq_data q)) + 1"
    "receipt_groups_queue_load BG (trie_update_get libs u') (gq_receiver_shard q) = Some (Inr (Some (q\<lparr>gq_data := (gq_data q)\<lparr>gd_indices := i\<rparr>\<rparr>)))"
proof -
  let ?i = "(gd_indices (gq_data q))\<lparr>qi_next_available_index := qi_next_available_index (gd_indices (gq_data q)) + 1\<rparr>"
  let ?q = "q\<lparr>gq_data := (gq_data q)\<lparr>gd_indices := ?i\<rparr>\<rparr>"
  have g': "encodes (tq_item (receipt_groups libs BG BI)) g" using g by simp
  have n': "qi_next_available_index (tq_indices (receipt_groups libs BG BI) q) + 1 < 2 ^ 64" using n by simp
  obtain q' u' where p: "push_back libs (receipt_groups libs BG BI) g (q, u) = Some (Inr (), q', u')" "q' = ?q"
    "groups_valid libs BG q'" "queue_holds libs (receipt_groups libs BG BI) q' u' (xs @ [g])" "unchanged_but libs (group_keys (gq_receiver_shard q)) u u'"
    "\<exists>u0. save_data libs BG q' u0 = Some u'"
    by (rule groups.push_back_ok [OF v h g' n']) auto
  then have "receipt_groups_queue_load BG (trie_update_get libs u') (gq_receiver_shard ?q) = Some (Inr (Some ?q))" using saved_load by blast
  then show thesis using that [of ?i u'] p by (simp add: push_group_def)
qed

lemma run_sums: "run \<in> set runs \<Longrightarrow> sum_list (map fst run) \<le> sum_list (map fst (concat runs)) \<and> sum_list (map snd run) \<le> sum_list (map snd (concat runs))"
  for runs :: "receipt_cost list list"
  by (induction runs) auto

lemma group_of_snoc [simp]: "group_size (group_of run) = sum_list (map fst run)" "group_gas (group_of run) = sum_list (map snd run)"
  "group_of [(s, g)] = receipt_group_new s g"
  by (simp_all add: group_of_def receipt_group_new_def)

lemma group_of_grow: "group_set_gas (sum_list (map snd run) + g) (group_set_size (sum_list (map fst run) + s) (group_of run)) = group_of (run @ [(s, g)])"
  by (simp add: group_of_def)

lemma groups_hold_valid:
  assumes "groups_hold libs BG BI config q u rs" and "libs_ok libs" and "data_borsh_ok BG" and "gq_receiver_shard q < 2 ^ 64"
    and "d = (gq_data q)\<lparr>gd_total_size := a, gd_total_gas := b, gd_total_receipts_num := c\<rparr>" and "a < 2 ^ 64" and "b < 2 ^ 128" and "c < 2 ^ 64"
  obtains runs where "groups_valid libs BG (q\<lparr>gq_data := d\<rparr>)" "concat runs = rs" "\<forall>run \<in> set runs. run_ok config run"
    "queue_holds libs (receipt_groups libs BG BI) (q\<lparr>gq_data := d\<rparr>) u (map group_of runs)"
proof -
  obtain runs where r: "concat runs = rs" "\<forall>run \<in> set runs. run_ok config run" "queue_holds libs (receipt_groups libs BG BI) q u (map group_of runs)"
    using assms(1) by (auto simp: groups_hold_def)
  have "indices_ok (gd_indices (gq_data q))" using r(3) by (simp add: queue_holds_def indices_ok_def)
  then have "groups_valid libs BG (q\<lparr>gq_data := d\<rparr>)" using assms(2-8) by (simp add: groups_valid_def data_ok_def)
  moreover have "queue_holds libs (receipt_groups libs BG BI) (q\<lparr>gq_data := d\<rparr>) u (map group_of runs)"
    using holds_totals [of "q\<lparr>gq_data := d\<rparr>" q libs BG BI u "map group_of runs"] r(3) assms(5) by simp
  ultimately show thesis using that r(1,2) by blast
qed

text \<open>The push that completes the update.\<close>

lemma push_run:
  assumes v: "groups_valid libs BG q" and h: "queue_holds libs (receipt_groups libs BG BI) q u (map group_of runs)"
    and r: "\<forall>r \<in> set runs. run_ok config r" "run_ok config run" and rs: "rs = concat runs @ run" and e: "encodes BI (group_of run)"
    and n: "qi_next_available_index (gd_indices (gq_data q)) + 1 < 2 ^ 64"
    and sum: "gd_total_size (gq_data q) = sum_list (map fst rs)" "gd_total_gas (gq_data q) = sum_list (map snd rs)" "gd_total_receipts_num (gq_data q) = length rs"
  obtains q' u' where "push_group libs BG BI (group_of run) (q, u) = Some (q', u')" "groups_hold libs BG BI config q' u' rs"
    "gq_receiver_shard q' = gq_receiver_shard q" "receipt_groups_queue_load BG (trie_update_get libs u') (gq_receiver_shard q) = Some (Inr (Some q'))"
    "unchanged_but libs (group_keys (gq_receiver_shard q)) u u'" "qi_next_available_index (gd_indices (gq_data q')) = qi_next_available_index (gd_indices (gq_data q)) + 1"
proof -
  obtain i u' where p: "push_group libs BG BI (group_of run) (q, u) = Some (q\<lparr>gq_data := (gq_data q)\<lparr>gd_indices := i\<rparr>\<rparr>, u')"
    "queue_holds libs (receipt_groups libs BG BI) (q\<lparr>gq_data := (gq_data q)\<lparr>gd_indices := i\<rparr>\<rparr>) u' (map group_of runs @ [group_of run])"
    "unchanged_but libs (group_keys (gq_receiver_shard q)) u u'" "qi_next_available_index i = qi_next_available_index (gd_indices (gq_data q)) + 1"
    "receipt_groups_queue_load BG (trie_update_get libs u') (gq_receiver_shard q) = Some (Inr (Some (q\<lparr>gq_data := (gq_data q)\<lparr>gd_indices := i\<rparr>\<rparr>)))"
    by (rule push_group_ok [OF v h e n])
  let ?q' = "q\<lparr>gq_data := (gq_data q)\<lparr>gd_indices := i\<rparr>\<rparr>"
  have "groups_hold libs BG BI config ?q' u' rs" unfolding groups_hold_def
    using p(2) r rs sum by (intro conjI exI [of _ "runs @ [run]"]) auto
  then show thesis using that [of ?q' u'] p by simp
qed

lemma group_encodes: "groups_borsh_ok BI \<Longrightarrow> sum_list (map fst run) < 2 ^ 64 \<Longrightarrow> sum_list (map snd run) < 2 ^ 128 \<Longrightarrow> encodes BI (group_of run)"
  by (simp add: groups_borsh_ok_def)

lemma extend_last:
  assumes BI: "groups_borsh_ok BI" and v: "groups_valid libs BG q" and h: "queue_holds libs (receipt_groups libs BG BI) q u (map group_of runs)"
    and r: "\<forall>r \<in> set (runs @ [run]). run_ok config r" and rs: "rs = concat runs @ run @ [(s, g)]"
    and n: "qi_next_available_index (gd_indices (gq_data q)) + 2 < 2 ^ 64"
    and sum: "gd_total_size (gq_data q) = sum_list (map fst rs)" "gd_total_gas (gq_data q) = sum_list (map snd rs)" "gd_total_receipts_num (gq_data q) = length rs"
  obtains q' u' where "extend_groups libs BG BI config s g (Some (group_of run), q, u) = Some (q', u')" "groups_hold libs BG BI config q' u' rs"
    "gq_receiver_shard q' = gq_receiver_shard q" "receipt_groups_queue_load BG (trie_update_get libs u') (gq_receiver_shard q) = Some (Inr (Some q'))"
    "unchanged_but libs (group_keys (gq_receiver_shard q)) u u'" "qi_next_available_index (gd_indices (gq_data q')) \<le> qi_next_available_index (gd_indices (gq_data q)) + 2"
proof -
  have "gd_total_size (gq_data q) < 2 ^ 64" "gd_total_gas (gq_data q) < 2 ^ 128" using v by (simp_all add: groups_valid_def data_ok_def)
  then have fit: "sum_list (map fst run) + s < 2 ^ 64" "sum_list (map snd run) + g < 2 ^ 128" unfolding sum rs by simp_all
  have d: "should_start_new_group config (group_of run) s g = Some (gc_size_upper_bound config < sum_list (map fst run) + s \<or> gc_gas_upper_bound config < sum_list (map snd run) + g)"
    using fit by (auto simp: should_start_new_group_def add_size_checked_def add_gas_checked_def checked_add_def)
  have n1: "qi_next_available_index (gd_indices (gq_data q)) + 1 < 2 ^ 64" using n by simp
  show thesis
  proof (cases "gc_size_upper_bound config < sum_list (map fst run) + s \<or> gc_gas_upper_bound config < sum_list (map snd run) + g")
    case True
    have e: "encodes BI (group_of run)" "encodes BI (group_of [(s, g)])" using group_encodes [OF BI] fit by (simp_all del: group_of_snoc)
    obtain i u3 where p3: "push_group libs BG BI (group_of run) (q, u) = Some (q\<lparr>gq_data := (gq_data q)\<lparr>gd_indices := i\<rparr>\<rparr>, u3)"
      "groups_valid libs BG (q\<lparr>gq_data := (gq_data q)\<lparr>gd_indices := i\<rparr>\<rparr>)" "queue_holds libs (receipt_groups libs BG BI) (q\<lparr>gq_data := (gq_data q)\<lparr>gd_indices := i\<rparr>\<rparr>) u3 (map group_of runs @ [group_of run])"
      "unchanged_but libs (group_keys (gq_receiver_shard q)) u u3" "qi_next_available_index i = qi_next_available_index (gd_indices (gq_data q)) + 1"
      by (rule push_group_ok [OF v h e(1) n1])
    let ?q = "q\<lparr>gq_data := (gq_data q)\<lparr>gd_indices := i\<rparr>\<rparr>"
    have r3: "queue_holds libs (receipt_groups libs BG BI) ?q u3 (map group_of (runs @ [run]))" "run_ok config [(s, g)]"
      "rs = concat (runs @ [run]) @ [(s, g)]" "qi_next_available_index (gd_indices (gq_data ?q)) + 1 < 2 ^ 64" using p3(3,5) rs n by (auto simp: run_ok_def)
    obtain q' u' where p4: "push_group libs BG BI (group_of [(s, g)]) (?q, u3) = Some (q', u')" "groups_hold libs BG BI config q' u' rs"
      "gq_receiver_shard q' = gq_receiver_shard ?q" "receipt_groups_queue_load BG (trie_update_get libs u') (gq_receiver_shard ?q) = Some (Inr (Some q'))"
      "unchanged_but libs (group_keys (gq_receiver_shard ?q)) u3 u'" "qi_next_available_index (gd_indices (gq_data q')) = qi_next_available_index (gd_indices (gq_data ?q)) + 1"
      by (rule push_run [OF p3(2) r3(1) r r3(2,3) e(2) r3(4)]) (use sum in auto)
    have "unchanged_but libs (group_keys (gq_receiver_shard q)) u u'" by (rule unchanged_trans [OF p3(4)]) (use p4(5) in simp)
    then show ?thesis by (intro that [OF _ p4(2)]) (use d True p3(1,5) p4 in \<open>simp_all add: extend_groups_def\<close>)
  next
    case False
    have e: "encodes BI (group_of (run @ [(s, g)]))" using group_encodes [OF BI, of "run @ [(s, g)]"] fit by simp
    have r3: "\<forall>r \<in> set runs. run_ok config r" "run_ok config (run @ [(s, g)])" "rs = concat runs @ (run @ [(s, g)])" using r rs False by (auto simp: run_ok_def)
    obtain q' u' where p3: "push_group libs BG BI (group_of (run @ [(s, g)])) (q, u) = Some (q', u')" "groups_hold libs BG BI config q' u' rs"
      "gq_receiver_shard q' = gq_receiver_shard q" "receipt_groups_queue_load BG (trie_update_get libs u') (gq_receiver_shard q) = Some (Inr (Some q'))"
      "unchanged_but libs (group_keys (gq_receiver_shard q)) u u'" "qi_next_available_index (gd_indices (gq_data q')) = qi_next_available_index (gd_indices (gq_data q)) + 1"
      by (rule push_run [OF v h r3 e n1 sum])
    have "add_size_checked (sum_list (map fst run)) s = Some (sum_list (map fst run) + s)" "add_gas_checked (sum_list (map snd run)) g = Some (sum_list (map snd run) + g)"
      using fit by (simp_all add: add_size_checked_def add_gas_checked_def checked_add_def)
    then show ?thesis by (intro that [OF _ p3(2)]) (use d False p3 in \<open>simp_all add: extend_groups_def group_of_grow\<close>)
  qed
qed

lemma pushed_ok:
  assumes libs: "libs_ok libs" "data_borsh_ok BG" "groups_borsh_ok BI" and shard: "gq_receiver_shard q < 2 ^ 64"
    and h: "groups_hold libs BG BI config q u rs"
    and fit: "sum_list (map fst rs) + s < 2 ^ 64" "sum_list (map snd rs) + g < 2 ^ 128" "length rs + 1 < 2 ^ 64" "qi_next_available_index (gd_indices (gq_data q)) + 1 < 2 ^ 64"
  obtains q' u' where "queue_receipt_pushed libs BG BI config s g (q, u) = Some (Inr (q', u'))" "groups_hold libs BG BI config q' u' (rs @ [(s, g)])"
    "gq_receiver_shard q' = gq_receiver_shard q" "receipt_groups_queue_load BG (trie_update_get libs u') (gq_receiver_shard q) = Some (Inr (Some q'))"
    "unchanged_but libs (group_keys (gq_receiver_shard q)) u u'" "qi_next_available_index (gd_indices (gq_data q')) \<le> qi_next_available_index (gd_indices (gq_data q)) + 1"
proof -
  let ?Q = "receipt_groups libs BG BI"
  let ?d = "(gq_data q)\<lparr>gd_total_size := sum_list (map fst rs) + s, gd_total_gas := sum_list (map snd rs) + g, gd_total_receipts_num := length rs + 1\<rparr>"
  let ?q = "q\<lparr>gq_data := ?d\<rparr>"
  obtain runs where v: "groups_valid libs BG ?q" and r: "concat runs = rs" "\<forall>run \<in> set runs. run_ok config run" and hq: "queue_holds libs ?Q ?q u (map group_of runs)"
    using groups_hold_valid [OF h libs(1,2) shard refl fit(1-3)] by blast
  have start: "queue_receipt_pushed libs BG BI config s g (q, u) =
      rtry (pop_back libs ?Q (?q, u)) (\<lambda>popped. do { s \<leftarrow> extend_groups libs BG BI config s g popped; Some (Inr s) })"
    using fit h by (simp add: groups_hold_def queue_receipt_pushed_def add_size_checked_def add_gas_checked_def checked_add_def Let_def)
  show thesis
  proof (cases runs rule: rev_cases)
    case Nil
    have empty: "queue_holds libs ?Q ?q u (map group_of [])" using hq Nil by simp
    have one: "run_ok config [(s, g)]" "rs @ [(s, g)] = concat [] @ [(s, g)]" "encodes BI (group_of [(s, g)])" "qi_next_available_index (gd_indices (gq_data ?q)) + 1 < 2 ^ 64"
      using r Nil fit(4) group_encodes [OF libs(3), of "[(s, g)]"] fit by (simp_all add: run_ok_def)
    obtain q' u' where p: "push_group libs BG BI (group_of [(s, g)]) (?q, u) = Some (q', u')"
      "groups_hold libs BG BI config q' u' (rs @ [(s, g)])" "gq_receiver_shard q' = gq_receiver_shard ?q"
      "receipt_groups_queue_load BG (trie_update_get libs u') (gq_receiver_shard ?q) = Some (Inr (Some q'))" "unchanged_but libs (group_keys (gq_receiver_shard ?q)) u u'"
      "qi_next_available_index (gd_indices (gq_data q')) = qi_next_available_index (gd_indices (gq_data ?q)) + 1"
      by (rule push_run [OF v empty _ one]) simp_all
    show ?thesis by (rule that [OF _ p(2)]) (use start groups.pop_back_empty [of libs BG BI ?q u] empty p in \<open>simp_all add: extend_groups_def\<close>)
  next
    case (snoc runs0 run)
    have hq': "queue_holds libs ?Q ?q u (map group_of runs0 @ [group_of run])" using hq snoc by simp
    obtain q2 u2 where p2: "pop_back libs ?Q (?q, u) = Some (Inr (Some (group_of run), q2, u2))" "groups_valid libs BG q2" "queue_holds libs ?Q q2 u2 (map group_of runs0)"
      "qi_next_available_index (gd_indices (gq_data q2)) + 1 = qi_next_available_index (gd_indices (gq_data q))" "unchanged_but libs (group_keys (gq_receiver_shard q)) u u2"
      "gq_receiver_shard q2 = gq_receiver_shard q" "gd_total_size (gq_data q2) = sum_list (map fst (rs @ [(s, g)]))"
      "gd_total_gas (gq_data q2) = sum_list (map snd (rs @ [(s, g)]))" "gd_total_receipts_num (gq_data q2) = length (rs @ [(s, g)])"
      by (rule groups.pop_back_ok [OF v hq']) (use hq' in \<open>auto simp: queue_holds_def\<close>)
    have n2: "qi_next_available_index (gd_indices (gq_data q2)) + 2 < 2 ^ 64" using p2(4) fit(4) by simp
    have r2: "\<forall>r \<in> set (runs0 @ [run]). run_ok config r" "rs @ [(s, g)] = concat runs0 @ run @ [(s, g)]" using r snoc by auto
    obtain q' u' where p3: "extend_groups libs BG BI config s g (Some (group_of run), q2, u2) = Some (q', u')" "groups_hold libs BG BI config q' u' (rs @ [(s, g)])"
      "gq_receiver_shard q' = gq_receiver_shard q2" "receipt_groups_queue_load BG (trie_update_get libs u') (gq_receiver_shard q2) = Some (Inr (Some q'))"
      "unchanged_but libs (group_keys (gq_receiver_shard q2)) u2 u'" "qi_next_available_index (gd_indices (gq_data q')) \<le> qi_next_available_index (gd_indices (gq_data q2)) + 2"
      by (rule extend_last [OF libs(3) p2(2,3) r2 n2 p2(7-9)])
    have "unchanged_but libs (group_keys (gq_receiver_shard q)) u u'" by (rule unchanged_trans [OF p2(5)]) (use p3(5) p2(6) in simp)
    then show ?thesis by (intro that [OF _ p3(2)]) (use start p2 p3 in simp_all)
  qed
qed

lemma shrink_run:
  assumes "0 < s" and "\<forall>(s, g) \<in> set run. 0 < s"
  shows "shrink_group s g (group_of ((s, g) # run)) = Some (if run = [] then None else Some (group_of run))"
proof -
  have "sum_list (map fst run) = 0 \<longleftrightarrow> run = []" using assms(2) by (cases run) auto
  then show ?thesis by (auto simp: shrink_group_def subtract_size_checked_def subtract_gas_checked_def checked_sub_def group_is_empty_def group_of_def assert_def)
qed

lemma shrink_first:
  assumes BI: "groups_borsh_ok BI" and v: "groups_valid libs BG q" and h: "queue_holds libs (receipt_groups libs BG BI) q u (map group_of (((s, g) # run) # runs))"
    and pos: "0 < s" "\<forall>(s, g) \<in> set run. 0 < s" and r: "run_ok config ((s, g) # run)" "\<forall>r \<in> set runs. run_ok config r" and rs: "rs = run @ concat runs"
    and sum: "gd_total_size (gq_data q) = sum_list (map fst rs)" "gd_total_gas (gq_data q) = sum_list (map snd rs)" "gd_total_receipts_num (gq_data q) = length rs"
  obtains q' u' where "modify_first libs (receipt_groups libs BG BI) (shrink_group s g) (q, u) = Some (Inr (q', u'))" "groups_hold libs BG BI config q' u' rs"
    "gq_receiver_shard q' = gq_receiver_shard q" "receipt_groups_queue_load BG (trie_update_get libs u') (gq_receiver_shard q) = Some (Inr (Some q'))"
    "unchanged_but libs (group_keys (gq_receiver_shard q)) u u'" "qi_next_available_index (gd_indices (gq_data q')) = qi_next_available_index (gd_indices (gq_data q))"
proof (cases "run = []")
  case True
  have h': "queue_holds libs (receipt_groups libs BG BI) q u (group_of ((s, g) # run) # map group_of runs)" using h by simp
  obtain q' u' where p: "pop_front libs (receipt_groups libs BG BI) (q, u) = Some (Inr (Some (group_of ((s, g) # run)), q', u'))"
    "q' = q\<lparr>gq_data := (gq_data q)\<lparr>gd_indices := (gd_indices (gq_data q))\<lparr>qi_first_index := qi_first_index (gd_indices (gq_data q)) + 1\<rparr>\<rparr>\<rparr>"
    "groups_valid libs BG q'" "queue_holds libs (receipt_groups libs BG BI) q' u' (map group_of runs)" "unchanged_but libs (group_keys (gq_receiver_shard q)) u u'"
    "\<exists>u0. save_data libs BG q' u0 = Some u'"
    by (rule groups.pop_front_ok [OF v h']) auto
  have "shrink_group s g (group_of ((s, g) # run)) = Some None" using shrink_run [OF pos] True by simp
  then have m: "modify_first libs (receipt_groups libs BG BI) (shrink_group s g) (q, u) = Some (Inr (q', u'))"
    by (rule groups.modify_first_removes [OF v h' _ p(1)])
  have "groups_hold libs BG BI config q' u' rs" unfolding groups_hold_def using p(2,4) r rs sum True by auto
  moreover have "receipt_groups_queue_load BG (trie_update_get libs u') (gq_receiver_shard q') = Some (Inr (Some q'))" using saved_load p(3,6) by blast
  ultimately show thesis using that [OF m] p(2,5) by simp
next
  case False
  have h': "queue_holds libs (receipt_groups libs BG BI) q u (group_of ((s, g) # run) # map group_of runs)" using h by simp
  have "sum_list (map fst run) < 2 ^ 64" "sum_list (map snd run) < 2 ^ 128" using v sum rs by (simp_all add: groups_valid_def data_ok_def)
  then have e: "encodes (tq_item (receipt_groups libs BG BI)) (group_of run)" using group_encodes [OF BI] by simp
  have f: "shrink_group s g (group_of ((s, g) # run)) = Some (Some (group_of run))" using shrink_run [OF pos] False by simp
  obtain u' where p: "modify_first libs (receipt_groups libs BG BI) (shrink_group s g) (q, u) = Some (Inr (q, u'))"
    "queue_holds libs (receipt_groups libs BG BI) q u' (group_of run # map group_of runs)" "unchanged_but libs (group_keys (gq_receiver_shard q)) u u'"
    "\<exists>u0. save_data libs BG q u0 = Some u'"
    by (rule groups.modify_first_ok [where f = "shrink_group s g", OF v h' f e]) auto
  have "run_ok config run" using r(1) False by (cases run) (auto simp: run_ok_def)
  then have "groups_hold libs BG BI config q u' rs" unfolding groups_hold_def
    using p(2) r rs sum by (intro conjI exI [of _ "run # runs"]) auto
  moreover have "receipt_groups_queue_load BG (trie_update_get libs u') (gq_receiver_shard q) = Some (Inr (Some q))" using saved_load v p(4) by blast
  ultimately show thesis using that [OF p(1)] p(3) by simp
qed

lemma popped_ok:
  assumes libs: "libs_ok libs" "data_borsh_ok BG" "groups_borsh_ok BI" and shard: "gq_receiver_shard q < 2 ^ 64"
    and h: "groups_hold libs BG BI config q u ((s, g) # rs)" and pos: "0 < s" "\<forall>(s, g) \<in> set rs. 0 < s"
    and fit: "sum_list (map fst rs) < 2 ^ 64" "sum_list (map snd rs) < 2 ^ 128" "length rs < 2 ^ 64"
  obtains q' u' where "queue_receipt_popped libs BG BI s g (q, u) = Some (Inr (q', u'))" "groups_hold libs BG BI config q' u' rs"
    "gq_receiver_shard q' = gq_receiver_shard q" "receipt_groups_queue_load BG (trie_update_get libs u') (gq_receiver_shard q) = Some (Inr (Some q'))"
    "unchanged_but libs (group_keys (gq_receiver_shard q)) u u'" "qi_next_available_index (gd_indices (gq_data q')) = qi_next_available_index (gd_indices (gq_data q))"
proof -
  let ?q = "q\<lparr>gq_data := (gq_data q)\<lparr>gd_total_size := sum_list (map fst rs), gd_total_gas := sum_list (map snd rs), gd_total_receipts_num := length rs\<rparr>\<rparr>"
  obtain runs where v: "groups_valid libs BG ?q" and r: "concat runs = (s, g) # rs" "\<forall>run \<in> set runs. run_ok config run"
    and hq: "queue_holds libs (receipt_groups libs BG BI) ?q u (map group_of runs)"
    using groups_hold_valid [OF h libs(1,2) shard refl fit] by blast
  obtain run runs' where runs: "runs = ((s, g) # run) # runs'" "rs = run @ concat runs'"
    using r by (cases runs; cases "hd runs") (auto simp: run_ok_def)
  have p: "\<forall>(s, g) \<in> set run. 0 < s" "run_ok config ((s, g) # run)" "\<forall>r \<in> set runs'. run_ok config r" using pos r(2) runs by auto
  obtain q' u' where m: "modify_first libs (receipt_groups libs BG BI) (shrink_group s g) (?q, u) = Some (Inr (q', u'))" "groups_hold libs BG BI config q' u' rs"
    "gq_receiver_shard q' = gq_receiver_shard ?q" "receipt_groups_queue_load BG (trie_update_get libs u') (gq_receiver_shard ?q) = Some (Inr (Some q'))"
    "unchanged_but libs (group_keys (gq_receiver_shard ?q)) u u'" "qi_next_available_index (gd_indices (gq_data q')) = qi_next_available_index (gd_indices (gq_data ?q))"
    by (rule shrink_first [OF libs(3) v hq [unfolded runs(1)] pos(1) p runs(2)]) simp_all
  have "indices_len (gd_indices (gq_data ?q)) = Some (length runs)" using hq by (simp add: queue_holds_def indices_len_def checked_sub_def)
  then have "queue_receipt_popped libs BG BI s g (q, u) = Some (Inr (q', u'))"
    using h m(1) runs(1) by (simp add: queue_receipt_popped_def groups_hold_def subtract_size_checked_def subtract_gas_checked_def checked_sub_def Let_def assert_def)
  then show thesis by (rule that [OF _ m(2)]) (use m in simp_all)
qed

section \<open>The metadata follow the buffers\<close>

datatype receipt_event = ReceiptPushed shard_id nat nat | ReceiptPopped shard_id nat nat

fun event_shard :: "receipt_event \<Rightarrow> shard_id" where
  "event_shard (ReceiptPushed shard s g) = shard"
| "event_shard (ReceiptPopped shard s g) = shard"

fun event_step ::
  "key_libs \<Rightarrow> receipt_groups_queue_data borsh \<Rightarrow> receipt_group borsh \<Rightarrow> receipt_event \<Rightarrow> outgoing_metadatas \<times> trie_update \<Rightarrow> (outgoing_metadatas \<times> trie_update) outcome" where
  "event_step libs BG BI (ReceiptPushed shard s g) = metadatas_receipt_pushed libs BG BI shard s g"
| "event_step libs BG BI (ReceiptPopped shard s g) = metadatas_receipt_popped libs BG BI shard s g"

text \<open>The sizes and the gas of the receipts in the buffers: a receipt is taken out at the front of its buffer.\<close>

fun fifo_step :: "receipt_event \<Rightarrow> (shard_id \<Rightarrow> receipt_cost list) \<Rightarrow> (shard_id \<Rightarrow> receipt_cost list) option" where
  "fifo_step (ReceiptPushed shard s g) f = Some (f(shard := f shard @ [(s, g)]))"
| "fifo_step (ReceiptPopped shard s g) f =
     (case f shard of [] \<Rightarrow> None | c # rs \<Rightarrow> if c = (s, g) then Some (f(shard := rs)) else None)"

fun pushed_size :: "receipt_event \<Rightarrow> nat" where
  "pushed_size (ReceiptPushed shard s g) = s"
| "pushed_size (ReceiptPopped shard s g) = 0"

fun pushed_gas :: "receipt_event \<Rightarrow> nat" where
  "pushed_gas (ReceiptPushed shard s g) = g"
| "pushed_gas (ReceiptPopped shard s g) = 0"

fun event_ok :: "receipt_event \<Rightarrow> bool" where
  "event_ok (ReceiptPushed shard s g) = (shard < 2 ^ 64 \<and> 0 < s)"
| "event_ok (ReceiptPopped shard s g) = (shard < 2 ^ 64)"

text \<open>The queue of a shard: a new one as long as nothing was pushed to its buffer.\<close>

definition shard_metadata :: "outgoing_metadatas \<Rightarrow> shard_id \<Rightarrow> receipt_groups_queue" where
  "shard_metadata m s = unwrap_or (receipt_groups_queue_new s) (get_metadata_for_shard m s)"

definition metadatas_hold ::
  "key_libs \<Rightarrow> receipt_groups_queue_data borsh \<Rightarrow> receipt_group borsh \<Rightarrow> outgoing_metadatas \<Rightarrow> trie_update \<Rightarrow> (shard_id \<Rightarrow> receipt_cost list) \<Rightarrow> bool" where
  "metadatas_hold libs BG BI m u f \<longleftrightarrow> (\<forall>s < 2 ^ 64.
     gq_receiver_shard (shard_metadata m s) = s \<and> groups_hold libs BG BI (om_groups_config m) (shard_metadata m s) u (f s) \<and> (\<forall>(s, g) \<in> set (f s). 0 < s) \<and>
     receipt_groups_queue_load BG (trie_update_get libs u) s = Some (Inr (get_metadata_for_shard m s)) \<and>
     (get_metadata_for_shard m s = None \<longrightarrow> f s = []))"

lemma shard_metadata_insert:
  "get_metadata_for_shard (m\<lparr>om_metadatas := bt_insert s q (om_metadatas m)\<rparr>) t = (if t = s then Some q else get_metadata_for_shard m t)"
  "shard_metadata (m\<lparr>om_metadatas := bt_insert s q (om_metadatas m)\<rparr>) t = (if t = s then q else shard_metadata m t)"
  by (simp_all add: shard_metadata_def get_metadata_for_shard_def bt_insert_get)

lemma groups_hold_valid_same:
  "groups_hold libs BG BI config q u rs \<Longrightarrow> libs_ok libs \<Longrightarrow> data_borsh_ok BG \<Longrightarrow> gq_receiver_shard q < 2 ^ 64 \<Longrightarrow>
   sum_list (map fst rs) < 2 ^ 64 \<Longrightarrow> sum_list (map snd rs) < 2 ^ 128 \<Longrightarrow> length rs < 2 ^ 64 \<Longrightarrow> groups_valid libs BG q"
  by (auto simp: groups_hold_def groups_valid_def data_ok_def queue_holds_def indices_ok_def)

lemma groups_hold_frame:
  assumes h: "groups_hold libs BG BI config q u rs" and v: "groups_valid libs BG q" and c: "unchanged_but libs (group_keys s) u u'" and s: "gq_receiver_shard q \<noteq> s"
  shows "groups_hold libs BG BI config q u' rs"
proof -
  have "group_keys s \<inter> insert (BufferedReceiptGroupsQueueData (gq_receiver_shard q)) (range (tq_trie_key (receipt_groups libs BG BI) q)) = {}" using s by auto
  then show ?thesis using h groups.holds_frame [OF _ v c] unfolding groups_hold_def by blast
qed

lemma load_frame_metadata:
  assumes "libs_ok libs" and "unchanged_but libs (group_keys s) u u'" and "t \<noteq> s" and "t < 2 ^ 64"
  shows "receipt_groups_queue_load BG (trie_update_get libs u') t = receipt_groups_queue_load BG (trie_update_get libs u) t"
proof -
  have "trie_update_get libs u' (BufferedReceiptGroupsQueueData t) = trie_update_get libs u (BufferedReceiptGroupsQueueData t)"
    using assms(2) [unfolded unchanged_but_def, THEN conjunct2, rule_format, of "BufferedReceiptGroupsQueueData t"] assms(3,4)
    by (auto simp: has_bytes_def to_vec_def fits_def)
  then show ?thesis by (simp add: receipt_groups_queue_load_def load_data_def state_get_def)
qed

text \<open>A new queue of a shard, and the others as they were.\<close>

lemma metadatas_insert:
  assumes libs: "libs_ok libs" "data_borsh_ok BG" and h: "metadatas_hold libs BG BI m u f"
    and fit: "\<forall>t. sum_list (map fst (f t)) < 2 ^ 64 \<and> sum_list (map snd (f t)) < 2 ^ 128 \<and> length (f t) < 2 ^ 64"
    and q: "groups_hold libs BG BI (om_groups_config m) q u' rs" "gq_receiver_shard q = s" "\<forall>(s, g) \<in> set rs. 0 < s"
      "receipt_groups_queue_load BG (trie_update_get libs u') s = Some (Inr (Some q))" "unchanged_but libs (group_keys s) u u'"
  shows "metadatas_hold libs BG BI (m\<lparr>om_metadatas := bt_insert s q (om_metadatas m)\<rparr>) u' (f(s := rs))"
proof -
  have "groups_hold libs BG BI (om_groups_config m) (shard_metadata m t) u' (f t)" if t: "t < 2 ^ 64" "t \<noteq> s" for t
  proof -
    have b: "groups_hold libs BG BI (om_groups_config m) (shard_metadata m t) u (f t)" "gq_receiver_shard (shard_metadata m t) = t" using h t by (simp_all add: metadatas_hold_def)
    then have "groups_valid libs BG (shard_metadata m t)" using groups_hold_valid_same libs t(1) fit by auto
    then show ?thesis using groups_hold_frame [OF b(1) _ q(5)] b(2) t(2) by simp
  qed
  then show ?thesis using h q load_frame_metadata [OF libs(1) q(5), of _ BG] by (auto simp: metadatas_hold_def shard_metadata_insert)
qed

definition metadata_next :: "outgoing_metadatas \<Rightarrow> shard_id \<Rightarrow> nat" where
  "metadata_next m s = qi_next_available_index (gd_indices (gq_data (shard_metadata m s)))"

definition metadatas_fit :: "outgoing_metadatas \<Rightarrow> (shard_id \<Rightarrow> receipt_cost list) \<Rightarrow> receipt_event list \<Rightarrow> bool" where
  "metadatas_fit m f es \<longleftrightarrow> (\<forall>s. sum_list (map fst (f s)) + sum_list (map pushed_size es) < 2 ^ 64 \<and> sum_list (map snd (f s)) + sum_list (map pushed_gas es) < 2 ^ 128 \<and>
     length (f s) + length es < 2 ^ 64 \<and> metadata_next m s + length es < 2 ^ 64)"

lemma fit_now: "metadatas_fit m f es \<Longrightarrow> \<forall>t. sum_list (map fst (f t)) < 2 ^ 64 \<and> sum_list (map snd (f t)) < 2 ^ 128 \<and> length (f t) < 2 ^ 64"
  unfolding metadatas_fit_def by (meson add_lessD1)

lemma fit_step:
  assumes fit: "metadatas_fit m f (e # es)" and rs: "sum_list (map fst rs) \<le> sum_list (map fst (f t)) + pushed_size e"
    "sum_list (map snd rs) \<le> sum_list (map snd (f t)) + pushed_gas e" "length rs \<le> length (f t) + 1"
    and m: "\<And>t'. metadata_next m' t' \<le> metadata_next m t' + 1"
  shows "metadatas_fit m' (f(t := rs)) es"
  unfolding metadatas_fit_def
proof (rule allI)
  fix s
  show "sum_list (map fst ((f(t := rs)) s)) + sum_list (map pushed_size es) < 2 ^ 64 \<and> sum_list (map snd ((f(t := rs)) s)) + sum_list (map pushed_gas es) < 2 ^ 128 \<and>
      length ((f(t := rs)) s) + length es < 2 ^ 64 \<and> metadata_next m' s + length es < 2 ^ 64"
    using fit [unfolded metadatas_fit_def, rule_format, of s] rs m [of s] by (cases "s = t") auto
qed

lemma pushed_step:
  assumes libs: "libs_ok libs" "data_borsh_ok BG" "groups_borsh_ok BI" and h: "metadatas_hold libs BG BI m u f" and t: "t < 2 ^ 64" "0 < s"
    and fit: "\<forall>t. sum_list (map fst (f t)) < 2 ^ 64 \<and> sum_list (map snd (f t)) < 2 ^ 128 \<and> length (f t) < 2 ^ 64"
    and fits: "sum_list (map fst (f t)) + s < 2 ^ 64" "sum_list (map snd (f t)) + g < 2 ^ 128" "length (f t) + 1 < 2 ^ 64" "metadata_next m t + 1 < 2 ^ 64"
  obtains m' u' where "metadatas_receipt_pushed libs BG BI t s g (m, u) = Some (Inr (m', u'))" "metadatas_hold libs BG BI m' u' (f(t := f t @ [(s, g)]))"
    "unchanged_but libs (group_keys t) u u'" "om_groups_config m' = om_groups_config m" "\<And>t'. metadata_next m' t' \<le> metadata_next m t' + 1"
proof -
  let ?q = "shard_metadata m t"
  have q: "gq_receiver_shard ?q = t" "groups_hold libs BG BI (om_groups_config m) ?q u (f t)" "\<forall>(s, g) \<in> set (f t). 0 < s" using h t by (simp_all add: metadatas_hold_def)
  have shard: "gq_receiver_shard ?q < 2 ^ 64" using q(1) t by simp
  obtain q' u' where p: "queue_receipt_pushed libs BG BI (om_groups_config m) s g (?q, u) = Some (Inr (q', u'))" "groups_hold libs BG BI (om_groups_config m) q' u' (f t @ [(s, g)])"
    "gq_receiver_shard q' = t" "receipt_groups_queue_load BG (trie_update_get libs u') t = Some (Inr (Some q'))" "unchanged_but libs (group_keys t) u u'"
    "qi_next_available_index (gd_indices (gq_data q')) \<le> qi_next_available_index (gd_indices (gq_data ?q)) + 1"
    by (rule pushed_ok [OF libs shard q(2)]) (use fits q(1) in \<open>auto simp: metadata_next_def\<close>)
  have "metadatas_hold libs BG BI (m\<lparr>om_metadatas := bt_insert t q' (om_metadatas m)\<rparr>) u' (f(t := f t @ [(s, g)]))"
    by (rule metadatas_insert [OF libs(1,2) h fit p(2,3) _ p(4,5)]) (use q(3) t in auto)
  moreover have "metadatas_receipt_pushed libs BG BI t s g (m, u) = Some (Inr (m\<lparr>om_metadatas := bt_insert t q' (om_metadatas m)\<rparr>, u'))"
    using p(1) by (simp add: metadatas_receipt_pushed_def shard_metadata_def get_metadata_for_shard_def)
  ultimately show thesis using that p(5,6) by (simp add: metadata_next_def shard_metadata_insert)
qed

lemma popped_step:
  assumes libs: "libs_ok libs" "data_borsh_ok BG" "groups_borsh_ok BI" and h: "metadatas_hold libs BG BI m u f" and t: "t < 2 ^ 64" "f t = (s, g) # rs"
    and fit: "\<forall>t. sum_list (map fst (f t)) < 2 ^ 64 \<and> sum_list (map snd (f t)) < 2 ^ 128 \<and> length (f t) < 2 ^ 64"
  obtains m' u' where "metadatas_receipt_popped libs BG BI t s g (m, u) = Some (Inr (m', u'))" "metadatas_hold libs BG BI m' u' (f(t := rs))"
    "unchanged_but libs (group_keys t) u u'" "om_groups_config m' = om_groups_config m" "\<And>t'. metadata_next m' t' = metadata_next m t'"
proof -
  let ?q = "shard_metadata m t"
  have q: "gq_receiver_shard ?q = t" "groups_hold libs BG BI (om_groups_config m) ?q u ((s, g) # rs)" "\<forall>(s, g) \<in> set ((s, g) # rs). 0 < s"
    using h t unfolding metadatas_hold_def by metis+
  have shard: "gq_receiver_shard ?q < 2 ^ 64" using q(1) t by simp
  have pos: "0 < s" "\<forall>(s, g) \<in> set rs. 0 < s" using q(3) by auto
  have fits: "sum_list (map fst rs) < 2 ^ 64" "sum_list (map snd rs) < 2 ^ 128" "length rs < 2 ^ 64" using spec [OF fit, of t] t(2) by auto
  obtain q' u' where p: "queue_receipt_popped libs BG BI s g (?q, u) = Some (Inr (q', u'))" "groups_hold libs BG BI (om_groups_config m) q' u' rs"
    "gq_receiver_shard q' = t" "receipt_groups_queue_load BG (trie_update_get libs u') t = Some (Inr (Some q'))" "unchanged_but libs (group_keys t) u u'"
    "qi_next_available_index (gd_indices (gq_data q')) = qi_next_available_index (gd_indices (gq_data ?q))"
    by (rule popped_ok [OF libs shard q(2) pos fits]) (use q(1) in auto)
  have "metadatas_hold libs BG BI (m\<lparr>om_metadatas := bt_insert t q' (om_metadatas m)\<rparr>) u' (f(t := rs))"
    by (rule metadatas_insert [OF libs(1,2) h fit p(2,3) pos(2) p(4,5)])
  moreover have "get_metadata_for_shard m t = Some ?q"
    using h t by (cases "get_metadata_for_shard m t") (auto simp: metadatas_hold_def shard_metadata_def)
  then have "metadatas_receipt_popped libs BG BI t s g (m, u) = Some (Inr (m\<lparr>om_metadatas := bt_insert t q' (om_metadatas m)\<rparr>, u'))"
    using p(1) by (simp add: metadatas_receipt_popped_def get_metadata_for_shard_def)
  ultimately show thesis using that p(5,6) by (simp add: metadata_next_def shard_metadata_insert)
qed

lemma event_ok_step:
  assumes libs: "libs_ok libs" "data_borsh_ok BG" "groups_borsh_ok BI" and h: "metadatas_hold libs BG BI m u f"
    and e: "event_ok e" "fifo_step e f = Some f'" and fit: "metadatas_fit m f (e # es)"
  obtains m' u' where "event_step libs BG BI e (m, u) = Some (Inr (m', u'))" "metadatas_hold libs BG BI m' u' f'" "metadatas_fit m' f' es"
    "om_groups_config m' = om_groups_config m"
proof (cases e)
  case (ReceiptPushed t s g)
  have t: "t < 2 ^ 64" "0 < s" using e(1) by (simp_all add: ReceiptPushed)
  have fits: "sum_list (map fst (f t)) + s < 2 ^ 64" "sum_list (map snd (f t)) + g < 2 ^ 128" "length (f t) + 1 < 2 ^ 64" "metadata_next m t + 1 < 2 ^ 64"
    using fit [unfolded metadatas_fit_def, rule_format, of t] by (auto simp: ReceiptPushed)
  obtain m' u' where p: "metadatas_receipt_pushed libs BG BI t s g (m, u) = Some (Inr (m', u'))" "metadatas_hold libs BG BI m' u' (f(t := f t @ [(s, g)]))"
    "om_groups_config m' = om_groups_config m" "\<And>t'. metadata_next m' t' \<le> metadata_next m t' + 1"
    by (rule pushed_step [OF libs h t fit_now [OF fit] fits]) blast
  have "metadatas_fit m' (f(t := f t @ [(s, g)])) es" using fit_step [OF fit, of "f t @ [(s, g)]" t m'] p(4) by (simp add: ReceiptPushed)
  then show thesis using that p e(2) by (simp add: ReceiptPushed)
next
  case (ReceiptPopped t s g)
  obtain rs where rs: "f t = (s, g) # rs" "f' = f(t := rs)" using e(2) by (auto simp: ReceiptPopped split: list.splits if_splits)
  have t: "t < 2 ^ 64" using e(1) by (simp add: ReceiptPopped)
  obtain m' u' where p: "metadatas_receipt_popped libs BG BI t s g (m, u) = Some (Inr (m', u'))" "metadatas_hold libs BG BI m' u' (f(t := rs))"
    "om_groups_config m' = om_groups_config m" "\<And>t'. metadata_next m' t' = metadata_next m t'"
    by (rule popped_step [OF libs h t rs(1) fit_now [OF fit]]) blast
  have "metadatas_fit m' (f(t := rs)) es" using fit_step [OF fit, of rs t m'] p(4) rs(1) by simp
  then show thesis using that p rs(2) by (simp add: ReceiptPopped)
qed

lemma events_ok:
  assumes "libs_ok libs" "data_borsh_ok BG" "groups_borsh_ok BI" and "metadatas_hold libs BG BI m u f"
    and "\<forall>e \<in> set es. event_ok e" "fold_opt fifo_step es f = Some f'" and "metadatas_fit m f es"
  obtains m' u' where "fold_try (event_step libs BG BI) es (m, u) = Some (Inr (m', u'))" "metadatas_hold libs BG BI m' u' f'" "metadatas_fit m' f' []"
    "om_groups_config m' = om_groups_config m"
  using assms(4-7)
proof (induction es arbitrary: thesis m u f)
  case (Cons e es)
  obtain f1 where f1: "fifo_step e f = Some f1" "fold_opt fifo_step es f1 = Some f'" using Cons.prems(4) by (auto simp: bind_eq_Some_conv)
  have ok: "event_ok e" "\<forall>e \<in> set es. event_ok e" using Cons.prems(3) by simp_all
  obtain m1 u1 where m1: "event_step libs BG BI e (m, u) = Some (Inr (m1, u1))" "metadatas_hold libs BG BI m1 u1 f1" "metadatas_fit m1 f1 es"
    "om_groups_config m1 = om_groups_config m"
    by (rule event_ok_step [OF assms(1-3) Cons.prems(2) ok(1) f1(1) Cons.prems(5)])
  obtain m' u' where "fold_try (event_step libs BG BI) es (m1, u1) = Some (Inr (m', u'))" "metadatas_hold libs BG BI m' u' f'" "metadatas_fit m' f' []"
    "om_groups_config m' = om_groups_config m1"
    using Cons.IH [OF _ m1(2) ok(2) f1(2) m1(3)] by blast
  then show ?case using Cons.prems(1) m1(1,4) by simp
qed simp

lemma metadatas_start:
  assumes "\<forall>s < 2 ^ 64. trie_update_get libs u (BufferedReceiptGroupsQueueData s) = Some (Inr None)"
  shows "metadatas_hold libs BG BI (outgoing_metadatas_new config) u (\<lambda>_. [])"
proof -
  have n: "get_metadata_for_shard (outgoing_metadatas_new config) s = None" for s
    by (simp add: get_metadata_for_shard_def outgoing_metadatas_new_def bt_empty_def bt_get_Nil)
  have "load_data BG (trie_update_get libs u) s = Some (Inr None)" if "s < 2 ^ 64" for s using assms that by (simp add: load_data_def state_get_def)
  then show ?thesis
    by (auto simp: metadatas_hold_def shard_metadata_def n receipt_groups_queue_new_def queue_data_default_def groups_hold_def queue_holds_def
        indices_default_def receipt_groups_queue_load_def) (auto simp: receipt_groups_def indices_default_def queue_data_default_def)
qed

lemma metadatas_reload:
  assumes h: "metadatas_hold libs BG BI m u f" and "\<forall>s \<in> set ids. s < 2 ^ 64"
  shows "\<exists>m'. outgoing_metadatas_load BG (trie_update_get libs u) ids config = Some (Inr m') \<and>
    (\<forall>s. get_metadata_for_shard m' s = (if s \<in> set ids then get_metadata_for_shard m s else None))"
proof -
  define F where "F = (\<lambda>shard_id metadatas.
         rtry (receipt_groups_queue_load BG (trie_update_get libs u) shard_id) (\<lambda>metadata.
         Some (Inr (case metadata of Some metadata \<Rightarrow> bt_insert shard_id metadata metadatas | None \<Rightarrow> metadatas))))"
  have "\<exists>t. fold_try F ids t0 = Some (Inr t) \<and>
      (\<forall>s. bt_get t s = (if s \<in> set ids then case get_metadata_for_shard m s of None \<Rightarrow> bt_get t0 s | Some q \<Rightarrow> Some q else bt_get t0 s))" for t0
    using assms(2)
  proof (induction ids arbitrary: t0)
    case (Cons i ids)
    let ?t = "case get_metadata_for_shard m i of Some metadata \<Rightarrow> bt_insert i metadata t0 | None \<Rightarrow> t0"
    have i: "F i t0 = Some (Inr ?t)" using h Cons.prems by (simp add: metadatas_hold_def F_def)
    have g: "bt_get ?t s = (if s = i then case get_metadata_for_shard m s of None \<Rightarrow> bt_get t0 s | Some q \<Rightarrow> Some q else bt_get t0 s)" for s
      by (auto simp: bt_insert_get split: option.splits)
    obtain t where "fold_try F ids ?t = Some (Inr t)"
      "\<forall>s. bt_get t s = (if s \<in> set ids then case get_metadata_for_shard m s of None \<Rightarrow> bt_get ?t s | Some q \<Rightarrow> Some q else bt_get ?t s)"
      using Cons.IH [of ?t] Cons.prems by auto
    then show ?case using i unfolding g by (intro exI [of _ t]) (auto split: option.splits)
  qed simp
  moreover have "(case x of None \<Rightarrow> None | Some q \<Rightarrow> Some q) = x" for x :: "receipt_groups_queue option" by (cases x) simp_all
  ultimately obtain t where t: "fold_try F ids bt_empty = Some (Inr t)" "\<forall>s. bt_get t s = (if s \<in> set ids then get_metadata_for_shard m s else None)"
    using bt_get_Nil unfolding bt_empty_def by metis
  have "outgoing_metadatas_load BG (trie_update_get libs u) ids config = rtry (fold_try F ids bt_empty) (\<lambda>t. Some (Inr \<lparr> om_metadatas = t, om_groups_config = config \<rparr>))"
    by (simp add: outgoing_metadatas_load_def F_def)
  then show ?thesis using t by (simp add: get_metadata_for_shard_def)
qed

lemma metadatas_hold_get:
  assumes "metadatas_hold libs BG BI m u f" and "s < 2 ^ 64" and "get_metadata_for_shard m s = Some q"
  shows "metadata_total_size q = sum_list (map fst (f s))" "metadata_total_gas q = sum_list (map snd (f s))" "metadata_total_receipts_num q = length (f s)"
    "\<exists>runs. concat runs = f s \<and> (\<forall>run \<in> set runs. run_ok (om_groups_config m) run) \<and>
       iter_receipt_group_sizes libs BG BI (trie_update_get libs u) side_effects q = Some (map (\<lambda>run. Inr (sum_list (map fst run))) runs)"
proof -
  have q: "groups_hold libs BG BI (om_groups_config m) q u (f s)" using assms by (auto simp: metadatas_hold_def shard_metadata_def)
  show "metadata_total_size q = sum_list (map fst (f s))" "metadata_total_gas q = sum_list (map snd (f s))" "metadata_total_receipts_num q = length (f s)"
    using q by (simp_all add: groups_hold_def metadata_total_size_def metadata_total_gas_def metadata_total_receipts_num_def)
  obtain runs where r: "concat runs = f s" "\<forall>run \<in> set runs. run_ok (om_groups_config m) run" "queue_holds libs (receipt_groups libs BG BI) q u (map group_of runs)"
    using q by (auto simp: groups_hold_def)
  then show "\<exists>runs. concat runs = f s \<and> (\<forall>run \<in> set runs. run_ok (om_groups_config m) run) \<and>
       iter_receipt_group_sizes libs BG BI (trie_update_get libs u) side_effects q = Some (map (\<lambda>run. Inr (sum_list (map fst run))) runs)"
    using groups.items_ok [OF r(3)] by (intro exI [of _ runs]) (simp add: iter_receipt_group_sizes_def o_def)
qed

lemma events_from_start:
  assumes "libs_ok libs" and "data_borsh_ok BG" and "groups_borsh_ok BI"
    and "\<forall>s < 2 ^ 64. trie_update_get libs u (BufferedReceiptGroupsQueueData s) = Some (Inr None)"
    and "\<forall>e \<in> set es. event_ok e" and "fold_opt fifo_step es (\<lambda>_. []) = Some f"
    and "sum_list (map pushed_size es) < 2 ^ 64" and "sum_list (map pushed_gas es) < 2 ^ 128" and "length es < 2 ^ 64"
  obtains m u' where "fold_try (event_step libs BG BI) es (outgoing_metadatas_new config, u) = Some (Inr (m, u'))" "metadatas_hold libs BG BI m u' f"
    "om_groups_config m = config"
proof -
  have fit: "metadatas_fit (outgoing_metadatas_new config) (\<lambda>_. []) es"
    using assms(7-9) by (simp add: metadatas_fit_def metadata_next_def shard_metadata_def get_metadata_for_shard_def outgoing_metadatas_new_def bt_empty_def bt_get_Nil
        receipt_groups_queue_new_def queue_data_default_def indices_default_def)
  show thesis by (rule events_ok [OF assms(1-3) metadatas_start [OF assms(4)] assms(5,6) fit]) (use that in \<open>simp add: outgoing_metadatas_new_def\<close>)
qed

text \<open>
  C7: the metadata of the outgoing buffers say what is in the buffers.  From a state without metadata, after any
  sequence of pushes and pops in which receipts leave each buffer in the order they entered it (and within the
  integer widths) no checked subtraction, assertion or missing entry panics and no error is returned; for every
  shard the totals of size, gas and number are those of the receipts still in the buffer; the sizes of the groups
  read from the state are the sums of consecutive nonempty runs of those receipts, and a run of two or more is
  within both bounds of the configuration; and reading the metadata anew from the state gives the same.
\<close>

theorem outgoing_metadata_follow_buffers:
  assumes "libs_ok libs" and "data_borsh_ok BG" and "groups_borsh_ok BI"
    and "\<forall>s < 2 ^ 64. trie_update_get libs u (BufferedReceiptGroupsQueueData s) = Some (Inr None)"
    and "\<forall>e \<in> set es. event_ok e" and "fold_opt fifo_step es (\<lambda>_. []) = Some f"
    and "sum_list (map pushed_size es) < 2 ^ 64" and "sum_list (map pushed_gas es) < 2 ^ 128" and "length es < 2 ^ 64"
  shows "\<exists>m u'. fold_try (event_step libs BG BI) es (outgoing_metadatas_new config, u) = Some (Inr (m, u')) \<and>
    (\<forall>s < 2 ^ 64. case get_metadata_for_shard m s of
        None \<Rightarrow> f s = []
      | Some q \<Rightarrow> metadata_total_size q = sum_list (map fst (f s)) \<and> metadata_total_gas q = sum_list (map snd (f s)) \<and> metadata_total_receipts_num q = length (f s) \<and>
          (\<exists>runs. concat runs = f s \<and> (\<forall>run \<in> set runs. run_ok config run) \<and>
             iter_receipt_group_sizes libs BG BI (trie_update_get libs u') side_effects q = Some (map (\<lambda>run. Inr (sum_list (map fst run))) runs))) \<and>
    (\<forall>ids. (\<forall>s \<in> set ids. s < 2 ^ 64) \<longrightarrow>
       (\<exists>m'. outgoing_metadatas_load BG (trie_update_get libs u') ids config = Some (Inr m') \<and>
          (\<forall>s. get_metadata_for_shard m' s = (if s \<in> set ids then get_metadata_for_shard m s else None))))"
proof -
  obtain m u' where m: "fold_try (event_step libs BG BI) es (outgoing_metadatas_new config, u) = Some (Inr (m, u'))" "metadatas_hold libs BG BI m u' f"
    "om_groups_config m = config"
    by (rule events_from_start [OF assms])
  have "f s = []" if "s < 2 ^ 64" "get_metadata_for_shard m s = None" for s using m(2) that by (simp add: metadatas_hold_def)
  then show ?thesis using m(1) metadatas_hold_get [OF m(2)] metadatas_reload [OF m(2)] m(3)
    by (intro exI [of _ m] exI [of _ u'] conjI) (auto split: option.splits)
qed

text \<open>An encoding of the metadata.\<close>

definition example_data :: "receipt_groups_queue_data borsh" where
  "example_data =
     \<lparr> bo_to_vec = (\<lambda>d. case d of QueueData_V0 d \<Rightarrow> to_le_bytes 8 (qi_first_index (gd_indices d)) @ to_le_bytes 8 (qi_next_available_index (gd_indices d)) @
         to_le_bytes 8 (gd_total_size d) @ to_le_bytes 16 (gd_total_gas d) @ to_le_bytes 8 (gd_total_receipts_num d)),
       bo_try_from_slice = (\<lambda>bs. Some (QueueData_V0
         \<lparr> gd_indices = \<lparr> qi_first_index = from_le_bytes (take 8 bs), qi_next_available_index = from_le_bytes (take 8 (drop 8 bs)) \<rparr>,
           gd_total_size = from_le_bytes (take 8 (drop 16 bs)), gd_total_gas = from_le_bytes (take 16 (drop 24 bs)),
           gd_total_receipts_num = from_le_bytes (take 8 (drop 40 bs)) \<rparr>)) \<rparr>"

definition example_groups :: "receipt_group borsh" where
  "example_groups =
     \<lparr> bo_to_vec = (\<lambda>g. to_le_bytes 8 (group_size g) @ to_le_bytes 16 (group_gas g)),
       bo_try_from_slice = (\<lambda>bs. Some (receipt_group_new (from_le_bytes (take 8 bs)) (from_le_bytes (take 16 (drop 8 bs))))) \<rparr>"

lemma example_metadata_ok: "data_borsh_ok example_data" "groups_borsh_ok example_groups"
proof -
  show "data_borsh_ok example_data"
    by (auto simp: data_borsh_ok_def data_ok_def indices_ok_def encodes_def example_data_def from_to_le_bytes)
  have "encodes example_groups g" if "group_size g < 2 ^ 64" "group_gas g < 2 ^ 128" for g
    using that by (cases g) (simp add: encodes_def example_groups_def receipt_group_new_def from_to_le_bytes)
  then show "groups_borsh_ok example_groups" by (simp add: groups_borsh_ok_def)
qed

definition example_events :: "receipt_event list" where
  "example_events = [ReceiptPushed 4 60 5, ReceiptPushed 4 30 1, ReceiptPushed 7 400 9, ReceiptPushed 4 20 2, ReceiptPopped 4 60 5]"

abbreviation example_buffered :: "shard_id \<Rightarrow> receipt_cost list" where
  "example_buffered \<equiv> (\<lambda>_. [])(4 := [(30, 1), (20, 2)], 7 := [(400, 9)])"

lemma example_events_facts:
  "\<forall>s < 2 ^ 64. trie_update_get example_libs (trie_update_new state_disk) (BufferedReceiptGroupsQueueData s) = Some (Inr None)"
  "\<forall>e \<in> set example_events. event_ok e" "fold_opt fifo_step example_events (\<lambda>_. []) = Some example_buffered"
  "sum_list (map pushed_size example_events) < 2 ^ 64" "sum_list (map pushed_gas example_events) < 2 ^ 128" "length example_events < 2 ^ 64"
  using fresh_get by (simp_all add: has_bytes_def to_vec_def fits_def example_events_def fun_upd_twist)

theorem outgoing_metadata_follow_buffers_witness:
  "\<exists>m u q. fold_try (event_step example_libs example_data example_groups) example_events
      (outgoing_metadatas_new \<lparr> gc_size_upper_bound = 100, gc_gas_upper_bound = 8 \<rparr>, trie_update_new state_disk) = Some (Inr (m, u)) \<and>
    get_metadata_for_shard m 4 = Some q \<and> metadata_total_size q = 50 \<and> metadata_total_gas q = 3 \<and> metadata_total_receipts_num q = 2"
proof -
  let ?config = "\<lparr> gc_size_upper_bound = 100, gc_gas_upper_bound = 8 \<rparr>"
  let ?f = example_buffered
  obtain m u where m: "fold_try (event_step example_libs example_data example_groups) example_events (outgoing_metadatas_new ?config, trie_update_new state_disk) = Some (Inr (m, u))"
    "\<forall>s < 2 ^ 64. case get_metadata_for_shard m s of
        None \<Rightarrow> ?f s = []
      | Some q \<Rightarrow> metadata_total_size q = sum_list (map fst (?f s)) \<and> metadata_total_gas q = sum_list (map snd (?f s)) \<and> metadata_total_receipts_num q = length (?f s) \<and>
          (\<exists>runs. concat runs = ?f s \<and> (\<forall>run \<in> set runs. run_ok ?config run) \<and>
             iter_receipt_group_sizes example_libs example_data example_groups (trie_update_get example_libs u) True q = Some (map (\<lambda>run. Inr (sum_list (map fst run))) runs))"
    using outgoing_metadata_follow_buffers [OF example_libs_ok example_metadata_ok example_events_facts, of ?config True] by blast
  then show ?thesis using spec [OF m(2), of 4] by (cases "get_metadata_for_shard m 4") auto
qed

end
