(* ===== verification/Resharding.thy ===== *)
theory Resharding
  imports Trie_Retain Congestion_Info Outgoing_Metadata
begin

text \<open>
  The decisions of a resharding (\<open>chain/chain/src/resharding\<close>): which shard a new layout splits, at which
  boundary account and into which children (\<open>event_type.rs\<close>), and the congestion info that a child starts
  with (\<open>manager.rs\<close>), from the metadata of the buffers in the trie of the parent.  The Borsh encoding of the
  metadata is a parameter.  A shard id in the message of an error is left out of it.
\<close>

section \<open>Events\<close>

datatype chain_error = ReshardingError string | ShardLayoutFailure shard_layout_error | StorageFailure storage_error

record block_info =
  bi_hash :: crypto_hash
  bi_height :: nat
  bi_prev_hash :: crypto_hash

record resharding_split_shard_params =
  sp_parent_shard :: shard_uid
  sp_left_child_shard :: shard_uid
  sp_right_child_shard :: shard_uid
  sp_boundary_account :: account_id
  sp_resharding_block :: block_info

datatype resharding_event_type = SplitShard resharding_split_shard_params

definition children_shards :: "resharding_split_shard_params \<Rightarrow> shard_uid list" where
  "children_shards p = [sp_left_child_shard p, sp_right_child_shard p]"

text \<open>One round of the loop over the map from parents to children.\<close>

definition split_event_step ::
  "shard_layout \<Rightarrow> account_id list \<Rightarrow> block_info \<Rightarrow> shard_id \<times> shard_id list \<Rightarrow> resharding_event_type option \<Rightarrow>
   (chain_error + resharding_event_type option) option" where
  "split_event_step next_shard_layout accounts resharding_block entry event =
     (case entry of (parent_id, children_ids) \<Rightarrow>
        if length children_ids = 1 then Some (Inr event)
        else if length children_ids = 2 then
          if event \<noteq> None then Some (Inl (ReshardingError ''can't perform two reshardings at the same time!''))
          else do {
            let parent_shard = shard_uid_new (layout_version next_shard_layout) parent_id;
            left_child_shard \<leftarrow> from_shard_id_and_layout (children_ids ! 0) next_shard_layout;
            right_child_shard \<leftarrow> from_shard_id_and_layout (children_ids ! 1) next_shard_layout;
            case position (uid_shard_id left_child_shard) (shard_ids next_shard_layout) of
              None \<Rightarrow> Some (Inl (ReshardingError ''shard not found in shard layout''))
            | Some boundary_account_index \<Rightarrow>
                do {
                  boundary_account \<leftarrow> vec_get accounts boundary_account_index;
                  Some (Inr (Some (SplitShard
                    \<lparr> sp_parent_shard = parent_shard, sp_left_child_shard = left_child_shard, sp_right_child_shard = right_child_shard,
                      sp_boundary_account = boundary_account, sp_resharding_block = resharding_block \<rparr>)))
                }
          }
        else Some (Inl (ReshardingError ''invalid number of children for shard'')))"

definition from_shard_layout :: "shard_layout \<Rightarrow> block_info \<Rightarrow> (chain_error + resharding_event_type option) option" where
  "from_shard_layout next_shard_layout resharding_block =
     (case next_shard_layout of
        V0 _ \<Rightarrow> Some (Inl (ReshardingError ''unsupported shard layout!''))
      | V1 _ \<Rightarrow> Some (Inl (ReshardingError ''unsupported shard layout!''))
      | V2 layout \<Rightarrow>
          (case v2_shards_split_map layout of
             None \<Rightarrow> Some (Inl (ReshardingError ''ShardLayoutV2 must have a shards_split_map!''))
           | Some shards_split_map \<Rightarrow>
               fold_try (split_event_step next_shard_layout (v2_boundary_accounts layout) resharding_block) shards_split_map None))"

text \<open>The children of a split, each with the side of the boundary that it keeps.\<close>

definition children_with_modes :: "resharding_split_shard_params \<Rightarrow> (shard_uid \<times> retain_mode) list" where
  "children_with_modes p = [(sp_left_child_shard p, Retain_Left), (sp_right_child_shard p, Retain_Right)]"

section \<open>Congestion info of a child\<close>

definition remove_groups ::
  "receipt_groups_queue_data borsh \<Rightarrow> trie_access \<Rightarrow> shard_id \<Rightarrow> congestion_info \<Rightarrow> (chain_error + congestion_info) option" where
  "remove_groups BG parent_trie shard_id congestion_info =
     rtry (map_option (map_sum StorageFailure id) (receipt_groups_queue_load BG parent_trie shard_id)) (\<lambda>groups.
     case groups of
       None \<Rightarrow> Some (Inr congestion_info)
     | Some groups \<Rightarrow>
         let bytes = metadata_total_size groups; gas = metadata_total_gas groups in
         (case remove_buffered_receipt_gas gas congestion_info of
            Inl _ \<Rightarrow> None
          | Inr congestion_info \<Rightarrow>
              (case remove_receipt_bytes bytes congestion_info of
                 Inl _ \<Rightarrow> None
               | Inr congestion_info \<Rightarrow> Some (Inr congestion_info))))"

definition get_child_congestion_info_not_finalized ::
  "receipt_groups_queue_data borsh \<Rightarrow> trie_access \<Rightarrow> shard_layout \<Rightarrow> congestion_info \<Rightarrow> retain_mode \<Rightarrow> (chain_error + congestion_info) option" where
  "get_child_congestion_info_not_finalized BG parent_trie parent_shard_layout parent_congestion_info retain_mode =
     (if retain_mode = Retain_Left then Some (Inr parent_congestion_info)
      else
        rtry (fold_try (remove_groups BG parent_trie) (shard_ids parent_shard_layout) parent_congestion_info) (\<lambda>congestion_info.
        do { assert (buffered_receipts_gas congestion_info = 0); Some (Inr congestion_info) }))"

definition child_finalize_allowed_shard ::
  "shard_layout \<Rightarrow> shard_uid \<Rightarrow> congestion_info \<Rightarrow> (chain_error + congestion_info) option" where
  "child_finalize_allowed_shard child_shard_layout child_shard_uid congestion_info =
     (let all_shards = shard_ids child_shard_layout; own_shard = uid_shard_id child_shard_uid in
      case get_shard_index child_shard_layout own_shard of
        Inl e \<Rightarrow> Some (Inl (ShardLayoutFailure e))
      | Inr own_shard_index \<Rightarrow>
          do {
            assert (fits u64_w own_shard_index);
            congestion_info \<leftarrow> finalize_allowed_shard own_shard all_shards own_shard_index congestion_info;
            Some (Inr congestion_info)
          })"

definition get_child_congestion_info ::
  "receipt_groups_queue_data borsh \<Rightarrow> trie_access \<Rightarrow> shard_layout \<Rightarrow> congestion_info \<Rightarrow> shard_layout \<Rightarrow> shard_uid \<Rightarrow> retain_mode \<Rightarrow> (chain_error + congestion_info) option" where
  "get_child_congestion_info BG parent_trie parent_shard_layout parent_congestion_info child_shard_layout child_shard_uid retain_mode =
     rtry (get_child_congestion_info_not_finalized BG parent_trie parent_shard_layout parent_congestion_info retain_mode) (\<lambda>child_congestion_info.
     child_finalize_allowed_shard child_shard_layout child_shard_uid child_congestion_info)"

section \<open>The event of a derived layout\<close>

lemma single_children: "\<forall>e \<in> set xs. length (snd e) = 1 \<Longrightarrow> fold_try (split_event_step l accounts blk) xs event = Some (Inr event)"
  by (induction xs) (auto simp: split_event_step_def split: prod.splits)

lemma one_split:
  assumes inv: "bt_inv sm" and mem: "\<And>p cs. (p, cs) \<in> set sm \<longleftrightarrow> (if p = parent then cs = [c1, c2] else p \<in> set ids \<and> cs = [p])"
    and step: "split_event_step l accounts blk (parent, [c1, c2]) None = Some (Inr event)"
  shows "fold_try (split_event_step l accounts blk) sm None = Some (Inr event)"
proof -
  have "(parent, [c1, c2]) \<in> set sm" using mem [of parent "[c1, c2]"] by simp
  then obtain pre post where sm: "sm = pre @ (parent, [c1, c2]) # post" by (auto simp: in_set_conv_decomp)
  have dist: "distinct (map fst sm)" using inv by (simp add: bt_inv_def strict_sorted_iff)
  have one: "length (snd e) = 1" if "e \<in> set pre \<union> set post" for e
  proof -
    have "fst e \<noteq> parent" using that dist unfolding sm by force
    moreover have "e \<in> set sm" using that unfolding sm by auto
    ultimately have "snd e = [fst e]" using mem [of "fst e" "snd e"] by simp
    then show ?thesis by simp
  qed
  have "fold_try (split_event_step l accounts blk) pre None = Some (Inr None)" "fold_try (split_event_step l accounts blk) post event = Some (Inr event)"
    using one single_children by blast+
  then show ?thesis by (simp add: sm fold_try_append step)
qed

lemma derived_event:
  assumes inv: "layout_inv base" and ba: "boundary_accounts base = Some accounts" and b: "b \<notin> set accounts"
    and max: "\<forall>sid \<in> set (shard_ids base). sid + 2 < 2 ^ 32" and s: "account_id_to_shard_id h base b = Some s"
  obtains l p where "derive_shard_layout base b = Some l" "from_shard_layout l blk = Some (Inr (Some (SplitShard p)))"
    "sp_boundary_account p = b" "uid_shard_id (sp_parent_shard p) = s" "uid_shard_id (sp_left_child_shard p) \<noteq> uid_shard_id (sp_right_child_shard p)"
    "\<And>a. account_id_to_shard_id h base a = Some s \<Longrightarrow>
       account_id_to_shard_id h l a = Some (uid_shard_id (if a < b then sp_left_child_shard p else sp_right_child_shard p))"
proof -
  note base = layout_inv_boundary [OF inv ba]
  let ?i = "boundary_index accounts b" and ?ids = "shard_ids base"
  let ?m = "Max (set ?ids)"
  have max': "\<forall>sid \<in> set ?ids. sid + 2 < 2 ^ 64" using max by fastforce
  obtain v pm where v: "derive_shard_layout base b = Some (V2 v)" "layout_inv (V2 v)" "v2_boundary_accounts v = take ?i accounts @ b # drop ?i accounts"
    "v2_shard_ids v = take ?i ?ids @ [?m + 1, ?m + 2] @ drop (?i + 1) ?ids" "v2_shards_split_map v = Some (derived_split_map ?ids (?ids ! ?i) [?m + 1, ?m + 2])"
    using derive_shard_layout_struct [OF inv ba b max'] by blast
  have i: "?i \<le> length accounts" "?i < length ?ids" using boundary_index_le [of accounts b] base(3) by simp_all
  have m: "?m \<in> set ?ids" using i(2) by (intro Max_in) auto
  have small: "?m + 2 < 2 ^ 32" using max m by blast
  have s': "s = ?ids ! ?i" using s base(4) by simp
  have le: "sid \<le> ?m" if "sid \<in> set ?ids" for sid using that by simp
  let ?l = "V2 v" let ?uid = "\<lambda>c. shard_uid_new (layout_version ?l) c"
  let ?p = "\<lparr> sp_parent_shard = ?uid s, sp_left_child_shard = ?uid (?m + 1), sp_right_child_shard = ?uid (?m + 2), sp_boundary_account = b, sp_resharding_block = blk \<rparr>"
  have ids: "shard_ids ?l = v2_shard_ids v" by (simp add: shard_ids_def)
  have uid: "from_shard_id_and_layout (?m + 1) ?l = Some (?uid (?m + 1))" "from_shard_id_and_layout (?m + 2) ?l = Some (?uid (?m + 2))"
    by (simp_all add: from_shard_id_and_layout_def ids v(4))
  have cast: "uid_shard_id (?uid c) = c" if "c \<le> ?m + 2" for c using that small by (simp add: shard_uid_new_def cast_def)
  have "?m + 1 \<notin> set (take ?i ?ids)" using le in_set_takeD by fastforce
  then have pos: "position (?m + 1) (shard_ids ?l) = Some ?i" using position_middle [of "?m + 1" "take ?i ?ids"] i(2) by (simp add: ids v(4))
  have get: "vec_get (v2_boundary_accounts v) ?i = Some b" using i(1) by (simp add: v(3) vec_get_def nth_append)
  have step: "split_event_step ?l (v2_boundary_accounts v) blk (s, [?m + 1, ?m + 2]) None = Some (Inr (Some (SplitShard ?p)))"
    using uid pos get cast [of "?m + 1"] by (simp add: split_event_step_def)
  have "fold_try (split_event_step ?l (v2_boundary_accounts v) blk) (derived_split_map ?ids (?ids ! ?i) [?m + 1, ?m + 2]) None = Some (Inr (Some (SplitShard ?p)))"
    using step unfolding s' by (rule one_split [OF derived_split_map(1) [OF base(2)] derived_split_map(2) [OF base(2)]])
  then have ev: "from_shard_layout ?l blk = Some (Inr (Some (SplitShard ?p)))" by (simp add: from_shard_layout_def v(5) s')
  have accs: "account_id_to_shard_id h ?l a = Some (uid_shard_id (if a < b then sp_left_child_shard ?p else sp_right_child_shard ?p))"
    if a: "account_id_to_shard_id h base a = Some s" for a
  proof -
    have "?ids ! boundary_index accounts a = ?ids ! ?i" using a base(4) [of h a] s' by simp
    then have "boundary_index accounts a = ?i" using base(2,3) i(2) boundary_index_le [of accounts a] by (simp add: nth_eq_iff_index_eq)
    then have "boundary_index (v2_boundary_accounts v) a = (if a < b then ?i else Suc ?i)" using boundary_index_insert(1) [OF base(1) refl, of b a] by (simp add: v(3))
    moreover have "account_id_to_shard_id h ?l a = Some (shard_ids ?l ! boundary_index (v2_boundary_accounts v) a)"
      by (rule layout_inv_boundary(4) [OF v(2)]) (simp add: boundary_accounts_def)
    ultimately show ?thesis using i(2) cast [of "?m + 1"] cast [of "?m + 2"] by (simp add: ids v(4) nth_append)
  qed
  have "s \<le> ?m" using le i(2) s' by simp
  then have "uid_shard_id (?uid s) = s" "uid_shard_id (?uid (?m + 1)) = ?m + 1" "uid_shard_id (?uid (?m + 2)) = ?m + 2" by (intro cast; simp)+
  then show thesis by (intro that [OF v(1) ev _ _ _ accs]) simp_all
qed

section \<open>Properties\<close>

lemma removed_groups:
  assumes "metadatas_hold libs BG BI m u f" and "\<forall>sid \<in> set sids. sid < 2 ^ 64"
    and "(\<Sum>sid \<leftarrow> sids. sum_list (map snd (f sid))) \<le> buffered_receipts_gas info" and "(\<Sum>sid \<leftarrow> sids. sum_list (map fst (f sid))) \<le> receipt_bytes info"
  shows "\<exists>info'. fold_try (remove_groups BG (trie_update_get libs u)) sids info = Some (Inr info') \<and> delayed_receipts_gas info' = delayed_receipts_gas info \<and>
    buffered_receipts_gas info' + (\<Sum>sid \<leftarrow> sids. sum_list (map snd (f sid))) = buffered_receipts_gas info \<and>
    receipt_bytes info' + (\<Sum>sid \<leftarrow> sids. sum_list (map fst (f sid))) = receipt_bytes info"
  using assms(2-4)
proof (induction sids arbitrary: info)
  case (Cons sid sids)
  obtain i where i: "info = CongestionInfoV1 i" by (cases info)
  let ?g = "sum_list (map snd (f sid))" let ?s = "sum_list (map fst (f sid))"
  let ?i = "CongestionInfoV1 (i\<lparr>v1_buffered_receipts_gas := v1_buffered_receipts_gas i - ?g, v1_receipt_bytes := v1_receipt_bytes i - ?s\<rparr>)"
  have fits: "?g \<le> v1_buffered_receipts_gas i" "?s \<le> v1_receipt_bytes i" using Cons.prems(2,3) by (auto simp: i buffered_receipts_gas_def receipt_bytes_def)
  have sid: "sid < 2 ^ 64" "receipt_groups_queue_load BG (trie_update_get libs u) sid = Some (Inr (get_metadata_for_shard m sid))"
    "get_metadata_for_shard m sid = None \<Longrightarrow> f sid = []" using Cons.prems(1) assms(1) by (simp_all add: metadatas_hold_def)
  have step: "remove_groups BG (trie_update_get libs u) sid info = Some (Inr ?i)"
    using sid(2,3) fits metadatas_hold_get(1,2) [OF assms(1) sid(1)]
    by (cases "get_metadata_for_shard m sid") (auto simp: remove_groups_def remove_buffered_receipt_gas_def remove_receipt_bytes_def checked_sub_def Let_def i)
  obtain info' where "fold_try (remove_groups BG (trie_update_get libs u)) sids ?i = Some (Inr info') \<and> delayed_receipts_gas info' = delayed_receipts_gas ?i \<and>
    buffered_receipts_gas info' + (\<Sum>sid \<leftarrow> sids. sum_list (map snd (f sid))) = buffered_receipts_gas ?i \<and>
    receipt_bytes info' + (\<Sum>sid \<leftarrow> sids. sum_list (map fst (f sid))) = receipt_bytes ?i"
    using Cons.IH [of ?i] Cons.prems by (fastforce simp: i buffered_receipts_gas_def receipt_bytes_def)
  then show ?case using step fits by (auto simp: i buffered_receipts_gas_def receipt_bytes_def delayed_receipts_gas_def)
qed simp

lemma own_index:
  assumes "layout_inv l" and "sid \<in> set (shard_ids l)"
  obtains i where "get_shard_index l sid = Inr i" "i < length (shard_ids l)" "shard_ids l ! i = sid"
proof (cases l)
  case (V2 v)
  then obtain i where "i < length (v2_shard_ids v)" "v2_shard_ids v ! i = sid" using assms(2) by (auto simp: shard_ids_def in_set_conv_nth)
  moreover from this have "bt_get (v2_id_to_index_map v) sid = Some i" using assms(1) V2 by (simp add: layout_inv_def)
  ultimately show thesis using that by (simp add: V2 get_shard_index_def shard_ids_def)
qed (use assms that in \<open>auto simp: get_shard_index_def shard_ids_def\<close>)

text \<open>
  C16: The congestion info of a child. When the metadata in the parent's state describe the receipts in the
  buffers, whose gas is the parent's buffered gas and whose sizes do not exceed its receipt bytes, the info of
  either child is computed without a panic: the left child takes over the counters of the parent, the right
  child keeps the delayed receipts, has no buffered ones and is left with the bytes of the others, and either
  child is the shard that may send to itself (up to the 16 bits of the field).
\<close>

theorem child_congestion_info_adds_up:
  assumes "layout_inv child_layout" and "uid_shard_id uid \<in> set (shard_ids child_layout)" and "length (shard_ids child_layout) < 2 ^ 64"
    and "metadatas_hold libs BG BI m u f" and "\<forall>sid \<in> set (shard_ids parent_layout). sid < 2 ^ 64"
    and "(\<Sum>sid \<leftarrow> shard_ids parent_layout. sum_list (map snd (f sid))) = buffered_receipts_gas info"
    and "n = (\<Sum>sid \<leftarrow> shard_ids parent_layout. sum_list (map fst (f sid)))" and "n \<le> receipt_bytes info"
  shows "\<exists>info'. get_child_congestion_info BG (trie_update_get libs u) parent_layout info child_layout uid mode = Some (Inr info') \<and>
    delayed_receipts_gas info' = delayed_receipts_gas info \<and>
    buffered_receipts_gas info' = (case mode of Retain_Left \<Rightarrow> buffered_receipts_gas info | Retain_Right \<Rightarrow> 0) \<and>
    receipt_bytes info' = (case mode of Retain_Left \<Rightarrow> receipt_bytes info | Retain_Right \<Rightarrow> receipt_bytes info - n) \<and>
    allowed_shard info' = cast u16_w (uid_shard_id uid)"
proof -
  obtain i where i: "get_shard_index child_layout (uid_shard_id uid) = Inr i" "i < length (shard_ids child_layout)" "shard_ids child_layout ! i = uid_shard_id uid"
    by (rule own_index [OF assms(1,2)])
  have fin: "child_finalize_allowed_shard child_layout uid x = Some (Inr (set_allowed_shard (cast u16_w (uid_shard_id uid)) x))" for x
    using i assms(3) by (auto simp: child_finalize_allowed_shard_def finalize_allowed_shard_def get_new_allowed_shard_def fits_def vec_get_def Let_def)
  have set: "delayed_receipts_gas (set_allowed_shard s x) = delayed_receipts_gas x" "buffered_receipts_gas (set_allowed_shard s x) = buffered_receipts_gas x"
    "receipt_bytes (set_allowed_shard s x) = receipt_bytes x" "allowed_shard (set_allowed_shard s x) = s" for s x
    by (cases x; simp add: set_allowed_shard_def delayed_receipts_gas_def buffered_receipts_gas_def receipt_bytes_def allowed_shard_def)+
  show ?thesis
  proof (cases mode)
    case Retain_Left
    then show ?thesis by (simp add: get_child_congestion_info_def get_child_congestion_info_not_finalized_def fin set)
  next
    case Retain_Right
    from removed_groups [OF assms(4,5), of info] assms(6-8) obtain info' where
      "fold_try (remove_groups BG (trie_update_get libs u)) (shard_ids parent_layout) info = Some (Inr info')" "delayed_receipts_gas info' = delayed_receipts_gas info"
      "buffered_receipts_gas info' = 0" "receipt_bytes info' + n = receipt_bytes info" by auto
    then show ?thesis using Retain_Right by (auto simp: get_child_congestion_info_def get_child_congestion_info_not_finalized_def fin set)
  qed
qed

theorem child_congestion_info_adds_up_witness:
  "\<exists>m u info'. fold_try (event_step example_libs example_data example_groups) example_events
      (outgoing_metadatas_new \<lparr> gc_size_upper_bound = 100, gc_gas_upper_bound = 8 \<rparr>, trie_update_new state_disk) = Some (Inr (m, u)) \<and>
    get_child_congestion_info example_data (trie_update_get example_libs u) example_base
      (CongestionInfoV1 \<lparr> v1_delayed_receipts_gas = 10, v1_buffered_receipts_gas = 12, v1_receipt_bytes = 500, v1_allowed_shard = 4 \<rparr>)
      example_base \<lparr> uid_version = 3, uid_shard_id = 7 \<rparr> Retain_Right = Some (Inr info') \<and>
    delayed_receipts_gas info' = 10 \<and> buffered_receipts_gas info' = 0 \<and> receipt_bytes info' = 50 \<and> allowed_shard info' = 7"
proof -
  let ?config = "\<lparr> gc_size_upper_bound = 100, gc_gas_upper_bound = 8 \<rparr>"
  let ?info = "CongestionInfoV1 \<lparr> v1_delayed_receipts_gas = 10, v1_buffered_receipts_gas = 12, v1_receipt_bytes = 500, v1_allowed_shard = 4 \<rparr>"
  obtain m u where m: "fold_try (event_step example_libs example_data example_groups) example_events (outgoing_metadatas_new ?config, trie_update_new state_disk) = Some (Inr (m, u))"
    "metadatas_hold example_libs example_data example_groups m u example_buffered"
    by (rule events_from_start [OF example_libs_ok example_metadata_ok example_events_facts])
  have uid: "uid_shard_id \<lparr> uid_version = 3, uid_shard_id = 7 \<rparr> \<in> set (shard_ids example_base)" "length (shard_ids example_base) < 2 ^ 64"
    by (simp_all add: example_base_fields)
  have "\<forall>sid \<in> set (shard_ids example_base). sid < 2 ^ 64" by (simp add: example_base_fields)
  from child_congestion_info_adds_up [OF example_base_inv uid m(2) this, of ?info 450 Retain_Right] show ?thesis using m(1)
    by (simp add: example_base_fields buffered_receipts_gas_def receipt_bytes_def delayed_receipts_gas_def cast_def)
qed

text \<open>
  C3: The state follows the accounts. When a layout is derived by a new boundary account, \<open>from_shard_layout\<close>
  finds the split: the shard that held the boundary account is split at that account. For either child of
  the event, the trie that \<open>retain_split_shard\<close> makes from the trie of the parent has, under the keys of an
  account of the parent, the values of the parent when the new layout assigns the account to that child,
  and nothing otherwise.
\<close>

theorem state_follows_the_layout:
  assumes "layout_inv base" and "boundary_accounts base = Some accounts" and "b \<notin> set accounts"
    and "\<forall>sid \<in> set (shard_ids base). sid + 2 < 2 ^ 32" and "account_id_to_shard_id h base b = Some s"
    and "holds sha ser trie T" and "t_mem vr_length T + 2 < 2 ^ 64" and "libs_ok libs" and "account_ok libs b"
    and "\<forall>mode. inj_on sha (update_data sha ser trie [] (t_split mode b T))"
    and "\<forall>mode. \<forall>n \<in> t_nodes sha ser (t_split mode b T). dt_decode trie (ser n) = Some n \<and> sha (ser n) \<noteq> empty_root"
  shows "\<exists>l p. derive_shard_layout base b = Some l \<and> from_shard_layout l blk = Some (Inr (Some (SplitShard p))) \<and>
    uid_shard_id (sp_parent_shard p) = s \<and> sp_boundary_account p = b \<and>
    (\<forall>(child, mode) \<in> set (children_with_modes p).
       \<exists>c. retain_split_shard_with_trie_storage sha ser trie b mode = Some (Inr c) \<and>
         (\<forall>k raw a. key_ok libs k \<and> to_vec libs k = Some raw \<and> get_account_id k = Some a \<and> account_id_to_shard_id h base a = Some s \<longrightarrow>
            trie_get (apply_insertions trie c) raw =
              (if account_id_to_shard_id h l a = Some (uid_shard_id child) then trie_get trie raw else Some (Inr None))))"
proof -
  obtain l p where l: "derive_shard_layout base b = Some l" "from_shard_layout l blk = Some (Inr (Some (SplitShard p)))"
    "sp_boundary_account p = b" "uid_shard_id (sp_parent_shard p) = s" "uid_shard_id (sp_left_child_shard p) \<noteq> uid_shard_id (sp_right_child_shard p)"
    "\<And>a. account_id_to_shard_id h base a = Some s \<Longrightarrow>
       account_id_to_shard_id h l a = Some (uid_shard_id (if a < b then sp_left_child_shard p else sp_right_child_shard p))"
    by (rule derived_event [OF assms(1-5), of blk]) blast
  have bytes: "\<forall>x \<in> set (account_bytes b). x < 256" using account_key_byte [OF assms(8,9)] by blast
  have "\<exists>c. retain_split_shard_with_trie_storage sha ser trie b mode = Some (Inr c) \<and>
      (\<forall>k raw a. key_ok libs k \<and> to_vec libs k = Some raw \<and> get_account_id k = Some a \<and> account_id_to_shard_id h base a = Some s \<longrightarrow>
         trie_get (apply_insertions trie c) raw = (if account_id_to_shard_id h l a = Some (uid_shard_id child) then trie_get trie raw else Some (Inr None)))"
    if m: "(child, mode) \<in> set (children_with_modes p)" for child mode
  proof -
    obtain c where c: "retain_split_shard_with_trie_storage sha ser trie b mode = Some (Inr c)"
      "\<And>key. \<forall>x \<in> set key. x < 256 \<Longrightarrow>
         trie_get (apply_insertions trie c) key = (if inside (split_ranges mode b) key then trie_get trie key else Some (Inr None))"
      by (rule split_holds [OF assms(6,7) bytes spec [OF assms(10)] spec [OF assms(11)]]) blast
    have "trie_get (apply_insertions trie c) raw = (if account_id_to_shard_id h l a = Some (uid_shard_id child) then trie_get trie raw else Some (Inr None))"
      if k: "key_ok libs k" "to_vec libs k = Some raw" "get_account_id k = Some a" "account_id_to_shard_id h base a = Some s" for k raw a
    proof -
      have "keeps mode b k \<longleftrightarrow> account_id_to_shard_id h l a = Some (uid_shard_id child)"
        using m k(3) l(5) l(6) [OF k(4)] by (auto simp: children_with_modes_def keeps_def)
      then show ?thesis using c(2) [OF raw_key_bytes [OF assms(8) k(1,2)]] split_ranges_keep [OF assms(8,9) k(1,2), of mode] by simp
    qed
    then show ?thesis using c(1) by blast
  qed
  then show ?thesis using l(1-4) by blast
qed

text \<open>The only shard of a layout, with two accounts, split between them.\<close>

definition single_base :: shard_layout where
  "single_base =
     V2 \<lparr> v2_boundary_accounts = [], v2_shard_ids = [4], v2_id_to_index_map = [(4, 0)], v2_index_to_id_map = [(0, 4)],
          v2_shards_split_map = None, v2_shards_parent_map = None, v2_version = 3 \<rparr>"

lemma single_base_inv: "layout_inv single_base"
  by (auto simp: single_base_def layout_inv_def bt_get_def nth_Cons')

lemma single_base_fields:
  "boundary_accounts single_base = Some []" "shard_ids single_base = [4]" "account_id_to_shard_id h single_base a = Some 4"
  by (simp_all add: single_base_def boundary_accounts_def shard_ids_def account_id_to_shard_id_def v2_account_id_to_shard_id_def vec_get_def)

lemma single_derived:
  assumes "derive_shard_layout single_base ''bb'' = Some l"
  shows "account_id_to_shard_id h l ''aa'' = Some 5" "account_id_to_shard_id h l ''cc'' = Some 6"
  using assms by (auto simp: single_base_def layout_eval)

lemma single_event:
  assumes "derive_shard_layout single_base ''bb'' = Some l" "from_shard_layout l blk = Some (Inr (Some (SplitShard p)))"
  shows "children_with_modes p = [(shard_uid_new 3 5, Retain_Left), (shard_uid_new 3 6, Retain_Right)]"
  using assms by (auto simp: single_base_def layout_eval from_shard_layout_def split_event_step_def from_shard_id_and_layout_def
      layout_version_def shard_uid_new_def cast_def vec_get_def children_with_modes_def)

definition split_block :: block_info where
  "split_block = \<lparr> bi_hash = replicate 32 1, bi_height = 10, bi_prev_hash = replicate 32 0 \<rparr>"

theorem state_follows_the_layout_witness:
  "\<exists>l p c d. derive_shard_layout single_base ''bb'' = Some l \<and> from_shard_layout l split_block = Some (Inr (Some (SplitShard p))) \<and>
    children_with_modes p = [(shard_uid_new 3 5, Retain_Left), (shard_uid_new 3 6, Retain_Right)] \<and>
    retain_split_shard_with_trie_storage example_sha example_ser split_disk ''bb'' Retain_Left = Some (Inr c) \<and>
    trie_get (apply_insertions split_disk c) [0, 97, 97] = Some (Inr (Some [7])) \<and> trie_get (apply_insertions split_disk c) [0, 99, 99] = Some (Inr None) \<and>
    retain_split_shard_with_trie_storage example_sha example_ser split_disk ''bb'' Retain_Right = Some (Inr d) \<and>
    trie_get (apply_insertions split_disk d) [0, 97, 97] = Some (Inr None) \<and> trie_get (apply_insertions split_disk d) [0, 99, 99] = Some (Inr (Some [8, 9]))"
proof -
  have m: "t_mem vr_length split_parent + 2 < 2 ^ 64" by (simp add: split_mem)
  have s: "\<forall>mode. inj_on example_sha (update_data example_sha example_ser split_disk [] (t_split mode ''bb'' split_parent))"
    "\<forall>mode. \<forall>n \<in> t_nodes example_sha example_ser (t_split mode ''bb'' split_parent). dt_decode split_disk (example_ser n) = Some n \<and> example_sha (example_ser n) \<noteq> empty_root"
    using split_child_codec unfolding split_example by (auto intro: example_inj)
  obtain l p where l: "derive_shard_layout single_base ''bb'' = Some l" "from_shard_layout l split_block = Some (Inr (Some (SplitShard p)))"
    and c: "\<forall>(child, mode) \<in> set (children_with_modes p).
       \<exists>c. retain_split_shard_with_trie_storage example_sha example_ser split_disk ''bb'' mode = Some (Inr c) \<and>
         (\<forall>k raw a. key_ok example_libs k \<and> to_vec example_libs k = Some raw \<and> get_account_id k = Some a \<and> account_id_to_shard_id (\<lambda>_. []) single_base a = Some 4 \<longrightarrow>
            trie_get (apply_insertions split_disk c) raw =
              (if account_id_to_shard_id (\<lambda>_. []) l a = Some (uid_shard_id child) then trie_get split_disk raw else Some (Inr None)))"
    using state_follows_the_layout [OF single_base_inv single_base_fields(1) _ _ single_base_fields(3) split_disk_holds m example_libs_ok split_accounts(2) s,
        of split_block "\<lambda>_. []"] by (auto simp: single_base_fields)
  have p: "children_with_modes p = [(shard_uid_new 3 5, Retain_Left), (shard_uid_new 3 6, Retain_Right)]" by (rule single_event [OF l])
  note new = single_derived [OF l(1)]
  from c obtain c d where c: "retain_split_shard_with_trie_storage example_sha example_ser split_disk ''bb'' Retain_Left = Some (Inr c)"
    "\<And>k raw a. key_ok example_libs k \<Longrightarrow> to_vec example_libs k = Some raw \<Longrightarrow> get_account_id k = Some a \<Longrightarrow>
      trie_get (apply_insertions split_disk c) raw = (if account_id_to_shard_id (\<lambda>_. []) l a = Some 5 then trie_get split_disk raw else Some (Inr None))"
    and d: "retain_split_shard_with_trie_storage example_sha example_ser split_disk ''bb'' Retain_Right = Some (Inr d)"
    "\<And>k raw a. key_ok example_libs k \<Longrightarrow> to_vec example_libs k = Some raw \<Longrightarrow> get_account_id k = Some a \<Longrightarrow>
      trie_get (apply_insertions split_disk d) raw = (if account_id_to_shard_id (\<lambda>_. []) l a = Some 6 then trie_get split_disk raw else Some (Inr None))"
    by (auto simp: p single_base_fields shard_uid_new_def cast_def)
  show ?thesis
    using l p c(1) d(1) c(2) [OF _ split_keys(1)] c(2) [OF _ split_keys(2)] d(2) [OF _ split_keys(1)] d(2) [OF _ split_keys(2)] split_accounts
    by (simp add: split_values new)
qed

end
