(* ===== verification/Spec2Isabelle.thy ===== *)
theory Spec2Isabelle
  imports Bandwidth_Scheduler Gas_Counter Congestion_Info Merkle Doomslug Raw_Node Transaction_Pool Resharding
begin

text \<open>
  A verification development of nearcore, the node of the NEAR protocol.  The protocol is a blockchain whose
  state is split into shards; accounts are assigned to shards by a layout, each shard keeps its state in a Merkle
  trie, contracts and transactions of one shard send receipts to others, and block producers agree on the chain
  by approvals.  The development models the deterministic algorithms at the core of this, from the Rust sources
  under \<open>src/\<close>, and proves what makes them correct.

  \<^bold>\<open>Conventions.\<close>  A machine integer is a natural number below a power of two, and every operation that can
  leave its range says what happens there: \<open>checked_add w\<close>, \<open>saturating_sub\<close>, \<open>cast w\<close>.  The release profile of
  the repository has overflow checks, so that a plain sum that overflows is a panic.  A panic is \<open>None\<close>; a
  \<open>Result\<close> is a sum with the error on the left; an operation that can do both is \<open>Some (Inl e)\<close>, \<open>Some (Inr x)\<close>
  or \<open>None\<close>, composed by \<open>rtry\<close> (the question mark of Rust).  Mutable references are arguments and results.
  A debug assertion is left out, as the release profile does.  \<open>Rust_Prelude\<close> holds this vocabulary,
  \<open>Rust_BTreeMap\<close>, \<open>Rust_HashMap\<close>, \<open>Rust_Bits\<close> and \<open>Rust_Float\<close> what the sources use of the standard library: the two maps
  satisfy one interface (the locale \<open>finite_map_ops\<close>), and a double is a rational number rounded to 53 bits.
  Functions of other crates are parameters with their documented behaviour as hypotheses: SHA-256, Borsh, the
  bit vectors of requests, the random shuffle, the parser of account ids.

  \<^bold>\<open>Shards.\<close>  \<open>Shard_Layout\<close> models \<open>core/primitives/src/shard_layout.rs\<close>: the three versions of a layout, the
  shard of an account, ids and indexes, parents and children, and \<open>derive_shard_layout\<close>.  Its lemmas say that a
  derived layout splits one shard at the boundary account and leaves every other account where it was.
  \<open>Resharding\<close> models \<open>chain/chain/src/resharding/event_type.rs\<close> and the congestion info of children in
  \<open>manager.rs\<close>; it composes the layout with the splitting of tries: after the split, an account's keys are in the
  trie of exactly the child that the new layout assigns the account to.

  \<^bold>\<open>The trie.\<close>  \<open>Nibble_Slice\<close> models \<open>core/store/src/trie/nibble_slice.rs\<close>.  \<open>Trie_Model\<close> is the specification,
  the trie as an inductive type with its canonical form, lookup, insertion and deletion, and that the canonical
  form is determined by the contents.  \<open>Trie_Update\<close> models the updates of a disk trie in \<open>core/store/src/trie/ops\<close>
  and \<open>trie_storage_update.rs\<close>: nodes in a vector of cells, taken out and put back, with memory usage and reference
  counts.  \<open>Trie_Refine\<close> (insertion), \<open>Trie_Delete\<close> (deletion and squashing) and \<open>Trie_Flatten\<close> (the encoded nodes and
  the changes) relate the cells to the specification by a representation predicate with disjoint footprints;
  \<open>Trie_State\<close> concludes: a whole update never panics on a complete state, reading from the storage after its
  insertions gives the new contents, and the new root depends on the contents only.  The encoding of a node is a parameter
  of these theories; \<open>Raw_Node\<close> models the one of \<open>raw_node.rs\<close> from the law of an encoding (the locale \<open>borsh_codec\<close>), shows
  that decoding inverts it, and that it satisfies what they ask.  \<open>Trie_Key\<close> models
  \<open>core/primitives/src/trie_key.rs\<close>, the keys of the state, their bytes and the parsers; \<open>Trie_Retain\<close> models
  \<open>ops/resharding.rs\<close>, the splitting of a trie at an account.

  \<^bold>\<open>The state of a chunk.\<close>  \<open>State_Update\<close> models \<open>core/store/src/trie/update.rs\<close> and \<open>contract.rs\<close>: uncommitted and
  committed changes over a trie, and the deployed contracts.  It refines a map with commit and rollback, and
  finalizing it composes with the update of the trie.  \<open>Trie_Queue\<close> models \<open>receipts_column_helper.rs\<close>: queues in the
  state.  The locale \<open>persistent_queue\<close> states what a queue needs (distinct keys, indices that can be read back)
  and proves once that every operation acts on the list of items and leaves other keys alone; it is interpreted
  for delayed receipts, for the buffers of outgoing receipts and, in \<open>Outgoing_Metadata\<close>, for the groups of
  \<open>outgoing_metadata.rs\<close>, whose totals and group sizes are shown to be those of the buffered receipts.

  \<^bold>\<open>Flow control.\<close>  \<open>Bandwidth_Requests\<close>, \<open>Bandwidth_Maps\<close>, \<open>Bandwidth_Distribute\<close> and \<open>Bandwidth_Scheduler\<close> model
  \<open>core/primitives/src/bandwidth_scheduler.rs\<close> and \<open>runtime/runtime/src/bandwidth_scheduler\<close>: the requests
  made from receipt sizes and one run of the scheduler.  What is granted stays within the budgets and only on
  allowed links, every allowed link gets the base bandwidth, and no run panics on a known layout.  \<open>Congestion_Info\<close>
  models \<open>core/primitives/src/congestion_info.rs\<close>: counters, congestion levels in floating point and the limits
  derived from them.

  \<^bold>\<open>Gas.\<close>  \<open>Gas_Costs\<close> and \<open>Gas_Counter\<close> model the costs of \<open>core/parameters\<close>, the profile and
  \<open>runtime/near-vm-runner/src/logic/gas_counter.rs\<close>: no sequence of charges exceeds the limits, and the
  profile accounts for all gas burnt.

  \<^bold>\<open>Consensus and transactions.\<close>  \<open>Crypto_Hash\<close> and \<open>Merkle\<close> model \<open>core/primitives/src/merkle.rs\<close>: paths verify,
  the root binds the item and the path at an index, and the incremental tree agrees.  \<open>Doomslug\<close> models \<open>chain/chain/src/doomslug.rs\<close>: a node
  never sends conflicting approvals, two parents are never ready at one height, and a late timer sends the
  endorsement that is due and then skip messages.
  \<open>Transaction_Pool\<close> models \<open>chain/pool\<close>: the pool refines a multiset, and its iterator serves groups in turn.

  \<^bold>\<open>Loops and bounds.\<close>  Most loops are structural or have a measure.  The loop of the scheduler has fuel,
  \<open>process_fuel\<close>, one more than the number of requests and of their increases, and the run is proved to return with it.
  The loops over tries, which do not end on a cyclic storage, are partial functions into \<open>option\<close>, proved to return
  on the tries of a complete state.  Bounds in hypotheses are the widths of the integers: sums of sizes below
  \<open>2 ^ 64\<close>, indices that do not run out, a memory usage below \<open>2 ^ 64\<close>.  Collision freedom of a hash is assumed of
  the finitely many byte strings of the update or the verification in question only.

  \<^bold>\<open>Not modelled.\<close>  The network, the database, actors, RPC and tools (input, output and concurrency); the
  virtual machines; the runtime's main loop, actions, fees and the verifier, which need all data of transactions
  and accounts; the epoch manager; in-memory tries, flat storage and storage proofs, which are other
  representations of what the disk trie stores.  Statistics, metrics and log messages are left out everywhere.
\<close>

end
